(* ===== verification/Prelude.thy ===== *)
theory Prelude
  imports Complex_Main "HOL-Library.Word" "HOL-Library.AList" "HOL-Library.Multiset"
begin

text \<open>
  Shared vocabulary of the development: the machine integers of the Go source as words of
  their width, Go maps as finite association lists, the development's collections of
  rewrite rules, and the generic facts on lists, association lists and words that the
  component theories use.  \<open>GoLib\<close> holds the pieces of the Go standard library the source
  calls, \<open>GoFloat\<close> its floating-point values; every component theory starts from these three.
\<close>

section \<open>Machine integers\<close>

type_synonym u8 = "8 word"
type_synonym u16 = "16 word"
type_synonym u32 = "32 word"
type_synonym u64 = "64 word"

text \<open>A Go \<^verbatim>\<open>time.Duration\<close> is a signed count of nanoseconds; the source keeps every duration
  it computes far below the 63-bit limit, so durations are integers here and the bounds are
  proved where they are computed.\<close>

type_synonym duration = int

definition Millisecond :: duration where
  "Millisecond = 1000000"

definition Second :: duration where
  "Second = 1000000000"

section \<open>Go maps\<close>

text \<open>A Go map is a finite association list with the library's update and delete, so that a
  model can both look a key up and range over the entries.  Iteration order is unspecified in
  Go; every place that ranges over a map either sorts the result or folds it commutatively.\<close>

type_synonym ('k, 'v) gomap = "('k \<times> 'v) list"

abbreviation mget :: "('k, 'v) gomap \<Rightarrow> 'k \<Rightarrow> 'v option" where
  "mget m k \<equiv> map_of m k"

abbreviation mput :: "'k \<Rightarrow> 'v \<Rightarrow> ('k, 'v) gomap \<Rightarrow> ('k, 'v) gomap" where
  "mput k v m \<equiv> AList.update k v m"

abbreviation mdel :: "'k \<Rightarrow> ('k, 'v) gomap \<Rightarrow> ('k, 'v) gomap" where
  "mdel k m \<equiv> AList.delete k m"

abbreviation mkeys :: "('k, 'v) gomap \<Rightarrow> 'k set" where
  "mkeys m \<equiv> fst ` set m"

section \<open>Collections of rewrite rules\<close>

named_theorems wf_simps \<open>well-formedness predicates of the data structures\<close>
named_theorems wf_intros \<open>operations preserve well-formedness\<close>
named_theorems abs_simps \<open>operations commute with abstraction functions\<close>

section \<open>Lists\<close>

lemma mset_list_update_swap:
  assumes "i < length xs" "j < length xs"
  shows "mset (xs[i := xs ! j, j := xs ! i]) = mset xs"
  using assms(2,1) by (rule mset_swap)

lemma set_list_update_swap:
  assumes "i < length xs" "j < length xs"
  shows "set (xs[i := xs ! j, j := xs ! i]) = set xs"
  using mset_list_update_swap [OF assms] by (metis set_mset_mset)

lemma concat_list_update_Nil:
  "i < length xss \<Longrightarrow> mset (concat xss) = mset (xss ! i) + mset (concat (xss[i := []]))"
proof (induction xss arbitrary: i)
  case (Cons a xss)
  then show ?case by (cases i) auto
qed simp

lemma mset_concat_update:
  assumes "i < length xss"
  shows "mset (concat (xss[i := ys])) + mset (xss ! i) = mset (concat xss) + mset ys"
  using assms
proof (induction xss arbitrary: i)
  case (Cons a xss)
  then show ?case by (cases i) (auto simp: ac_simps)
qed simp

lemma remove1_split:
  assumes "i < length xs"
  shows "mset (take i xs @ drop (Suc i) xs) = mset xs - {# xs ! i #}"
proof -
  have "mset xs = mset (take i xs @ xs ! i # drop (Suc i) xs)"
    using assms by (simp add: id_take_nth_drop [symmetric])
  then show ?thesis by simp
qed

lemma sum_list_update_nat:
  fixes xs :: "nat list"
  assumes "i < length xs"
  shows "sum_list (xs[i := v]) + xs ! i = sum_list xs + v"
  using assms
proof (induction xs arbitrary: i)
  case (Cons a xs)
  then show ?case by (cases i) (auto simp: algebra_simps)
qed simp

lemma length_concat_update:
  assumes "i < length xss"
  shows "length (concat (xss[i := ys])) + length (xss ! i) = length (concat xss) + length ys"
  using arg_cong [OF mset_concat_update [OF assms, of ys], of size] by simp

section \<open>Association lists\<close>

lemma map_of_mput [simp]: "map_of (mput k v m) = (map_of m)(k \<mapsto> v)"
  by (rule update_conv')

lemma map_of_mdel [simp]: "map_of (mdel k m) = (map_of m)(k := None)"
  by (simp add: delete_conv')

lemma mget_set: "mget m k = Some v \<Longrightarrow> (k, v) \<in> set m"
  by (rule map_of_SomeD)

lemma mget_iff_set:
  "distinct (map fst m) \<Longrightarrow> mget m k = Some v \<longleftrightarrow> (k, v) \<in> set m"
  by (rule map_of_eq_Some_iff)

lemma distinct_mput [wf_intros]: "distinct (map fst m) \<Longrightarrow> distinct (map fst (mput k v m))"
  by (rule distinct_update)

lemma distinct_mdel [wf_intros]: "distinct (map fst m) \<Longrightarrow> distinct (map fst (mdel k m))"
  by (rule distinct_delete)

section \<open>Words\<close>

lemma unat_lt_2p64: "unat (x :: u64) < 2 ^ 64"
  using unsigned_less [of x] by simp

lemma unat_lt_2p32: "unat (x :: u32) < 2 ^ 32"
  using unsigned_less [of x] by simp

lemma unat_lt_2p16: "unat (x :: u16) < 2 ^ 16"
  using unsigned_less [of x] by simp

lemma unat_lt_2p8: "unat (x :: u8) < 2 ^ 8"
  using unsigned_less [of x] by simp

lemma of_nat_inverse_32: "n < 2 ^ 32 \<Longrightarrow> unat (of_nat n :: u32) = n"
  by (simp add: unat_of_nat take_bit_nat_eq_self)

lemma of_nat_inverse_64: "n < 2 ^ 64 \<Longrightarrow> unat (of_nat n :: u64) = n"
  by (simp add: unat_of_nat take_bit_nat_eq_self)

lemma of_nat_inverse_16: "n < 2 ^ 16 \<Longrightarrow> unat (of_nat n :: u16) = n"
  by (simp add: unat_of_nat take_bit_nat_eq_self)

lemma of_nat_inverse_8: "n < 2 ^ 8 \<Longrightarrow> unat (of_nat n :: u8) = n"
  by (simp add: unat_of_nat take_bit_nat_eq_self)

lemma unat_add_u32:
  "unat (a :: u32) + unat b < 2 ^ 32 \<Longrightarrow> unat (a + b) = unat a + unat b"
  by (simp add: unat_word_ariths)

lemma unat_div_u32: "unat ((a :: u32) div b) = unat a div unat b"
  by (rule unat_div)

end
