(* ===== verification/GoLib.thy ===== *)
theory GoLib
  imports Prelude
begin

text \<open>
  The pieces of the Go standard library the source calls, as executable functions, with the
  facts the components need of them: fixed-width little-endian integers and uvarints
  (\<^verbatim>\<open>encoding/binary\<close>), \<^verbatim>\<open>sort.Search\<close>, \<^verbatim>\<open>math/bits\<close> and a few functions of
  \<^verbatim>\<open>strings\<close>.
\<close>

section \<open>encoding/binary: fixed width, little endian\<close>

fun le_enc :: "nat \<Rightarrow> nat \<Rightarrow> u8 list" where
  "le_enc 0 x = []"
| "le_enc (Suc n) x = of_nat (x mod 256) # le_enc n (x div 256)"

fun le_dec :: "u8 list \<Rightarrow> nat" where
  "le_dec [] = 0"
| "le_dec (b # bs) = unat b + 256 * le_dec bs"

definition PutUint64 :: "u64 \<Rightarrow> u8 list" where
  "PutUint64 x = le_enc 8 (unat x)"

definition Uint64 :: "u8 list \<Rightarrow> u64" where
  "Uint64 bs = of_nat (le_dec bs)"

lemma length_le_enc [simp]: "length (le_enc n x) = n"
  by (induction n arbitrary: x) auto

lemma le_dec_enc: "le_dec (le_enc n x) = x mod 256 ^ n"
proof (induction n arbitrary: x)
  case (Suc n)
  have "unat (of_nat (x mod 256) :: u8) = x mod 256"
    by (simp add: of_nat_inverse_8)
  then show ?case
    by (simp add: Suc mod_mult2_eq)
qed simp

lemma le_dec_bound: "le_dec bs < 256 ^ length bs"
proof (induction bs)
  case (Cons b bs)
  have "unat b < 256" using unat_lt_2p8 [of b] by simp
  with Cons show ?case by simp
qed simp

lemma le_enc_dec: "le_enc (length bs) (le_dec bs) = bs"
proof (induction bs)
  case (Cons b bs)
  have "unat b < 256" using unat_lt_2p8 [of b] by simp
  then have "(unat b + 256 * le_dec bs) mod 256 = unat b"
    and "(unat b + 256 * le_dec bs) div 256 = le_dec bs"
    by simp_all
  then show ?case by (simp add: Cons)
qed simp

lemma length_PutUint64 [simp]: "length (PutUint64 x) = 8"
  by (simp add: PutUint64_def)

lemma Uint64_PutUint64 [simp]: "Uint64 (PutUint64 x) = x"
proof -
  have "unat x mod 256 ^ 8 = unat x"
    using unat_lt_2p64 [of x] by simp
  then show ?thesis by (simp add: Uint64_def PutUint64_def le_dec_enc)
qed

lemma PutUint64_Uint64:
  assumes "length bs = 8"
  shows "PutUint64 (Uint64 bs) = bs"
proof -
  have "le_dec bs < 2 ^ 64"
    using le_dec_bound [of bs] assms by simp
  then show ?thesis
    using le_enc_dec [of bs] assms by (simp add: PutUint64_def Uint64_def of_nat_inverse_64)
qed

section \<open>encoding/binary: uvarint\<close>

text \<open>\<^verbatim>\<open>binary.AppendUvarint\<close> emits seven bits per byte, low group first, with the high bit
  set on every byte but the last.\<close>

fun uvarint :: "nat \<Rightarrow> u8 list" where
  "uvarint x =
     (if x < 128 then [of_nat x] else of_nat (x mod 128 + 128) # uvarint (x div 128))"

declare uvarint.simps [simp del]

text \<open>\<^verbatim>\<open>binary.Uvarint\<close> returns the value and the number of bytes read; a count of 0 means
  the buffer was too short and a negative count an overflow past 64 bits.  Both cases are
  \<open>None\<close> here, as every caller in the source tests only for a positive count.\<close>

fun get_uvarint :: "nat \<Rightarrow> nat \<Rightarrow> u8 list \<Rightarrow> (nat \<times> nat) option" where
  "get_uvarint i acc [] = None"
| "get_uvarint i acc (b # bs) =
     (if i = 10 then None
      else if unat b < 128 then
        (if i = 9 \<and> unat b > 1 then None
         else Some (acc + unat b * 2 ^ (7 * i), Suc i))
      else get_uvarint (Suc i) (acc + (unat b - 128) * 2 ^ (7 * i)) bs)"

definition Uvarint :: "u8 list \<Rightarrow> (nat \<times> nat) option" where
  "Uvarint bs = get_uvarint 0 0 bs"

lemma uvarint_nonempty: "uvarint x \<noteq> []"
  by (subst uvarint.simps) simp

lemma uvarint_shift_bound:
  fixes x :: nat
  assumes "x > 0" and "x * 2 ^ (7 * i) < 2 ^ 64"
  shows "i < 10"
proof (rule ccontr)
  assume "\<not> i < 10"
  then have "(2::nat) ^ 70 \<le> 2 ^ (7 * i)" by (intro power_increasing) auto
  moreover have "2 ^ (7 * i) \<le> x * 2 ^ (7 * i)" using assms(1) by simp
  ultimately have "(2::nat) ^ 70 < 2 ^ 64" using assms(2) by linarith
  then show False by simp
qed

lemma get_uvarint_enc:
  assumes "i < 10" and "x * 2 ^ (7 * i) < 2 ^ 64"
  shows "get_uvarint i acc (uvarint x @ rest)
           = Some (acc + x * 2 ^ (7 * i), i + length (uvarint x))"
  using assms
proof (induction x arbitrary: i acc rule: uvarint.induct)
  case (1 x)
  show ?case
  proof (cases "x < 128")
    case True
    then have u: "unat (of_nat x :: u8) = x" by (simp add: of_nat_inverse_8)
    have "i = 9 \<Longrightarrow> x \<le> 1" using "1.prems"(2) by simp
    with True u "1.prems"(1) show ?thesis
      by (auto simp: uvarint.simps [of x])
  next
    case False
    let ?b = "of_nat (x mod 128 + 128) :: u8"
    have b: "unat ?b = x mod 128 + 128" by (rule of_nat_inverse_8) simp
    have x: "x = x mod 128 + 128 * (x div 128)" by simp
    have eq: "x * 2 ^ (7 * i) = (x mod 128) * 2 ^ (7 * i) + (x div 128) * 2 ^ (7 * Suc i)"
      using arg_cong [OF x, of "\<lambda>y. y * 2 ^ (7 * i)"]
      by (simp only: distrib_right power_add mult_Suc_right) simp
    then have lt: "(x div 128) * 2 ^ (7 * Suc i) < 2 ^ 64"
      using "1.prems"(2) by linarith
    have "x div 128 > 0" using False by (simp add: div_greater_zero_iff)
    then have i: "Suc i < 10" using lt by (rule uvarint_shift_bound)
    have "get_uvarint (Suc i) (acc + (x mod 128) * 2 ^ (7 * i)) (uvarint (x div 128) @ rest)
            = Some (acc + (x mod 128) * 2 ^ (7 * i) + (x div 128) * 2 ^ (7 * Suc i),
                    Suc i + length (uvarint (x div 128)))"
      using "1.IH" [OF False i lt] .
    then show ?thesis
      using False b i eq by (simp add: uvarint.simps [of x])
  qed
qed

lemma Uvarint_uvarint:
  assumes "x < 2 ^ 64"
  shows "Uvarint (uvarint x @ rest) = Some (x, length (uvarint x))"
  using get_uvarint_enc [of 0 x 0 rest] assms by (simp add: Uvarint_def)

lemma length_uvarint_le: "n < 128 ^ Suc k \<Longrightarrow> length (uvarint n) \<le> Suc k"
proof (induction k arbitrary: n)
  case (Suc k)
  then have "length (uvarint (n div 128)) \<le> Suc k" by (intro Suc.IH) (simp add: div_less_iff_less_mult mult.commute)
  then show ?case by (subst uvarint.simps) simp
qed (simp add: uvarint.simps)

lemma length_uvarint_10: "length (uvarint (unat v)) \<le> 10" for v :: u64
proof -
  have "unat v < 128 ^ Suc 9" using unat_lt_2p64 [of v] by simp
  then show ?thesis using length_uvarint_le [of "unat v" 9] by simp
qed

lemma get_uvarint_count:
  "get_uvarint i acc bs = Some (v, k) \<Longrightarrow> i < k \<and> k \<le> i + length bs"
  by (induction i acc bs rule: get_uvarint.induct) (auto split: if_splits)

section \<open>sort.Search\<close>

text \<open>The binary search of \<^verbatim>\<open>sort.Search\<close>: the loop invariant of the library is that
  \<open>f (i - 1)\<close> fails and \<open>f j\<close> holds.\<close>

function search_loop :: "(nat \<Rightarrow> bool) \<Rightarrow> nat \<Rightarrow> nat \<Rightarrow> nat" where
  "search_loop f i j =
     (if i < j then
        (let h = (i + j) div 2 in
         if \<not> f h then search_loop f (Suc h) j else search_loop f i h)
      else i)"
  by pat_completeness auto
termination
  by (relation "measure (\<lambda>(f, i, j). j - i)") auto

declare search_loop.simps [simp del]

definition Search :: "nat \<Rightarrow> (nat \<Rightarrow> bool) \<Rightarrow> nat" where
  "Search n f = search_loop f 0 n"

definition mono_below :: "nat \<Rightarrow> (nat \<Rightarrow> bool) \<Rightarrow> bool" where
  "mono_below n f \<longleftrightarrow> (\<forall>a b. a \<le> b \<longrightarrow> b < n \<longrightarrow> f a \<longrightarrow> f b)"

definition least_from :: "nat \<Rightarrow> (nat \<Rightarrow> bool) \<Rightarrow> nat \<Rightarrow> bool" where
  "least_from n f r \<longleftrightarrow> r \<le> n \<and> (\<forall>a < r. \<not> f a) \<and> (r < n \<longrightarrow> f r)"

lemma search_loop_least:
  assumes "mono_below n f" "i \<le> j" "j \<le> n" "\<forall>a < i. \<not> f a" "j < n \<longrightarrow> f j"
  shows "least_from n f (search_loop f i j)"
  using assms
proof (induction f i j rule: search_loop.induct)
  case (1 f i j)
  let ?h = "(i + j) div 2"
  show ?case
  proof (cases "i < j")
    case False
    then have "search_loop f i j = i" by (simp add: search_loop.simps)
    with False "1.prems" show ?thesis by (auto simp: least_from_def)
  next
    case True
    then have h: "i \<le> ?h" "?h < j" by auto
    show ?thesis
    proof (cases "f ?h")
      case fh: True
      have eq: "search_loop f i j = search_loop f i ?h"
        using True fh by (subst search_loop.simps) (simp only: Let_def if_True not_True_eq_False if_False)
      show ?thesis unfolding eq
        by (rule "1.IH"(2) [OF True refl]) (use fh h "1.prems" in simp_all)
    next
      case fh: False
      have eq: "search_loop f i j = search_loop f (Suc ?h) j"
        using True fh by (subst search_loop.simps) (simp only: Let_def if_True not_False_eq_True)
      have "\<forall>a < Suc ?h. \<not> f a"
        using fh h "1.prems"(1,3) unfolding mono_below_def by (meson less_Suc_eq_le order.strict_trans2)
      then show ?thesis unfolding eq
        by (intro "1.IH"(1) [OF True refl fh]) (use h "1.prems" in simp_all)
    qed
  qed
qed

lemma Search_spec: "mono_below n f \<Longrightarrow> least_from n f (Search n f)"
  unfolding Search_def by (rule search_loop_least) auto

lemma least_fromD:
  assumes "least_from n f r"
  shows "r \<le> n" and "a < r \<Longrightarrow> \<not> f a" and "r < n \<Longrightarrow> f r"
  using assms by (auto simp: least_from_def)

section \<open>math/bits\<close>

text \<open>\<^verbatim>\<open>bits.LeadingZeros64\<close>: the number of zero bits above the highest set bit, 64 for 0.
  The loop looks for the highest set bit among the bits below \<open>n\<close>.\<close>

fun top_bit :: "nat \<Rightarrow> u64 \<Rightarrow> nat option" where
  "top_bit 0 w = None"
| "top_bit (Suc n) w = (if bit w n then Some n else top_bit n w)"

definition LeadingZeros64 :: "u64 \<Rightarrow> nat" where
  "LeadingZeros64 w = (case top_bit 64 w of None \<Rightarrow> 64 | Some i \<Rightarrow> 63 - i)"

lemma top_bit_None: "top_bit n w = None \<longleftrightarrow> (\<forall>i < n. \<not> bit w i)"
  by (induction n) (auto simp: less_Suc_eq)

lemma top_bit_Some:
  "top_bit n w = Some i \<longleftrightarrow> i < n \<and> bit w i \<and> (\<forall>j. i < j \<and> j < n \<longrightarrow> \<not> bit w j)"
  by (induction n) (auto simp: less_Suc_eq)

section \<open>strings\<close>

text \<open>\<^verbatim>\<open>strings.IndexAny(s, chars)\<close>: the position of the first character of \<open>s\<close> in
  \<open>chars\<close>.  The source calls it with ASCII sets only.\<close>

fun IndexAny :: "char list \<Rightarrow> char list \<Rightarrow> nat option" where
  "IndexAny [] cs = None"
| "IndexAny (c # s) cs = (if c \<in> set cs then Some 0 else map_option Suc (IndexAny s cs))"

fun strip_prefix :: "'a list \<Rightarrow> 'a list \<Rightarrow> 'a list option" where
  "strip_prefix [] s = Some s"
| "strip_prefix (p # ps) [] = None"
| "strip_prefix (p # ps) (c # s) = (if p = c then strip_prefix ps s else None)"

text \<open>\<^verbatim>\<open>strings.Cut\<close>: the text before and after the first occurrence of the separator.\<close>

fun Cut :: "char list \<Rightarrow> char list \<Rightarrow> (char list \<times> char list) option" where
  "Cut s sep =
     (case strip_prefix sep s of
        Some after \<Rightarrow> Some ([], after)
      | None \<Rightarrow> (case s of [] \<Rightarrow> None
                  | c # s' \<Rightarrow> map_option (\<lambda>(b, a). (c # b, a)) (Cut s' sep)))"

declare Cut.simps [simp del]

lemma strip_prefix_Some: "strip_prefix p s = Some r \<longleftrightarrow> s = p @ r"
  by (induction p s rule: strip_prefix.induct) auto

lemma Cut_Some: "Cut s sep = Some (b, a) \<Longrightarrow> s = b @ sep @ a"
proof (induction s arbitrary: b a)
  case Nil
  then show ?case
    by (auto simp: Cut.simps [of "[]"] strip_prefix_Some split: option.splits)
next
  case (Cons c s)
  then show ?case
    by (auto simp: Cut.simps [of "c # s"] strip_prefix_Some split: option.splits)
qed

lemma IndexAny_Some:
  "IndexAny s cs = Some i \<Longrightarrow> i < length s \<and> s ! i \<in> set cs \<and> (\<forall>j < i. s ! j \<notin> set cs)"
proof (induction s arbitrary: i)
  case (Cons c s)
  then show ?case by (auto split: if_splits simp: less_Suc_eq_0_disj)
qed simp

lemma IndexAny_None: "IndexAny s cs = None \<longleftrightarrow> set s \<inter> set cs = {}"
  by (induction s) auto

text \<open>A Go string is its bytes.\<close>

definition bytes_of :: "string \<Rightarrow> u8 list" where
  "bytes_of s = map (\<lambda>c. of_nat (of_char c)) s"

definition string_of :: "u8 list \<Rightarrow> string" where
  "string_of bs = map (\<lambda>b. char_of (unat b)) bs"

lemma length_bytes_of [simp]: "length (bytes_of s) = length s"
  by (simp add: bytes_of_def)

lemma string_of_bytes_of [simp]: "string_of (bytes_of s) = s"
proof -
  have "unat (of_nat (of_char c) :: u8) = of_char c" for c
    using nat_of_char_less_256 [of c] by (intro of_nat_inverse_8) simp
  then show ?thesis by (simp add: string_of_def bytes_of_def o_def)
qed

end
