(* ===== verification/GoFloat.thy ===== *)
theory GoFloat
  imports Prelude "HOL-Library.Log_Nat"
begin

text \<open>
  Go's floating-point values.  A \<^verbatim>\<open>float32\<close> that is only stored, copied and compared is
  its IEEE bit pattern, a 32-bit word, read as a rational by \<open>f32_val\<close>; NaN and the
  infinities are told apart by their exponent.  A \<^verbatim>\<open>float64\<close> intermediate is the rational
  it denotes, and each arithmetic operation rounds its exact result to 53 significant bits,
  ties to even (\<open>fl64\<close>).  The operations modelled this way stay within the normal range of
  a double, so neither overflow to infinity nor gradual underflow arises.
\<close>

section \<open>float32 bit patterns\<close>

type_synonym f32 = u32

definition f32_neg :: "f32 \<Rightarrow> bool" where
  "f32_neg u \<longleftrightarrow> 2 ^ 31 \<le> unat u"

definition f32_exp :: "f32 \<Rightarrow> nat" where
  "f32_exp u = unat u div 2 ^ 23 mod 256"

definition f32_frac :: "f32 \<Rightarrow> nat" where
  "f32_frac u = unat u mod 2 ^ 23"

definition f32_isnan :: "f32 \<Rightarrow> bool" where
  "f32_isnan u \<longleftrightarrow> f32_exp u = 255 \<and> f32_frac u \<noteq> 0"

definition f32_isinf :: "f32 \<Rightarrow> bool" where
  "f32_isinf u \<longleftrightarrow> f32_exp u = 255 \<and> f32_frac u = 0"

definition f32_mag :: "f32 \<Rightarrow> rat" where
  "f32_mag u =
     (if f32_exp u = 0 then of_nat (f32_frac u) * 2 / 2 ^ 150
      else of_nat (2 ^ 23 + f32_frac u) * 2 ^ f32_exp u / 2 ^ 150)"

definition f32_val :: "f32 \<Rightarrow> rat" where
  "f32_val u = (if f32_neg u then - f32_mag u else f32_mag u)"

text \<open>Comparisons with a finite constant: NaN compares false, an infinity by its sign.\<close>

definition f32_le :: "f32 \<Rightarrow> rat \<Rightarrow> bool" where
  "f32_le u q \<longleftrightarrow> \<not> f32_isnan u \<and> (if f32_isinf u then f32_neg u else f32_val u \<le> q)"

definition f32_ge :: "f32 \<Rightarrow> rat \<Rightarrow> bool" where
  "f32_ge u q \<longleftrightarrow> \<not> f32_isnan u \<and> (if f32_isinf u then \<not> f32_neg u else f32_val u \<ge> q)"

text \<open>The bit pattern of the constant 1.0.\<close>

definition f32_one :: f32 where
  "f32_one = 0x3F800000"

lemma f32_val_one: "f32_val f32_one = 1"
  by (simp add: f32_val_def f32_mag_def f32_one_def f32_neg_def f32_exp_def f32_frac_def)

section \<open>float64 rounding\<close>

text \<open>The exponent of a positive rational: \<open>2 ^ e \<le> x < 2 ^ (e + 1)\<close>, found from the bit
  lengths of numerator and denominator.\<close>

definition rat_exp :: "rat \<Rightarrow> int" where
  "rat_exp x =
     (let (a, b) = quotient_of x;
          d = int (nat (bitlen a)) - int (nat (bitlen b))
      in if 2 powi d \<le> x then d else d - 1)"

definition round_even :: "rat \<Rightarrow> int" where
  "round_even q =
     (let n = \<lfloor>q\<rfloor>; d = q - of_int n
      in if d < 1 / 2 then n else if d > 1 / 2 then n + 1 else if even n then n else n + 1)"

definition fl64_pos :: "rat \<Rightarrow> rat" where
  "fl64_pos x = (let u = 2 powi (rat_exp x - 52) in of_int (round_even (x / u)) * u)"

definition fl64 :: "rat \<Rightarrow> rat" where
  "fl64 x = (if x = 0 then 0 else if x < 0 then - fl64_pos (- x) else fl64_pos x)"

text \<open>Conversion of a float to a signed integer truncates towards zero.\<close>

definition trunc64 :: "rat \<Rightarrow> int" where
  "trunc64 x = (if x < 0 then - \<lfloor>- x\<rfloor> else \<lfloor>x\<rfloor>)"

lemma round_even_ge: "\<lfloor>q\<rfloor> \<le> round_even q"
  by (simp add: round_even_def Let_def)

lemma round_even_le: "round_even q \<le> \<lceil>q\<rceil>"
proof -
  have "q - of_int \<lfloor>q\<rfloor> = 0 \<or> \<lceil>q\<rceil> = \<lfloor>q\<rfloor> + 1"
    by (metis ceiling_altdef eq_iff_diff_eq_0)
  then show ?thesis
    by (auto simp: round_even_def Let_def ceiling_altdef)
qed

lemma round_even_int [simp]: "round_even (of_int n) = n"
  by (simp add: round_even_def)

lemma round_even_mono: "of_int n \<le> q \<Longrightarrow> n \<le> round_even q"
  using round_even_ge [of q] by (meson le_floor_iff order_trans)

lemma round_even_mono': "q \<le> of_int n \<Longrightarrow> round_even q \<le> n"
  using round_even_le [of q] by (meson ceiling_le_iff order_trans)

lemma rat_exp_bounds:
  assumes "x > 0"
  shows "2 powi rat_exp x \<le> x" and "x < 2 powi (rat_exp x + 1)"
proof -
  obtain a b where q: "quotient_of x = (a, b)" by fastforce
  then have b: "b > 0" and x: "x = of_int a / of_int b"
    using quotient_of_denom_pos quotient_of_div by blast+
  then have a: "a > 0" using assms by (simp add: zero_less_divide_iff)
  define la lb where "la = nat (bitlen a)" and "lb = nat (bitlen b)"
  have la: "2 ^ (la - 1) \<le> a" "a < 2 ^ la" and lb: "2 ^ (lb - 1) \<le> b" "b < 2 ^ lb"
    and pos: "la > 0" "lb > 0"
    using bitlen_bounds [of a] bitlen_bounds [of b] a b unfolding la_def lb_def
    by (auto simp: bitlen_def floorlog_def nat_add_distrib nat_diff_distrib)
  let ?d = "int la - int lb"
  have ra: "(2 :: rat) ^ (la - 1) \<le> of_int a" "(of_int a :: rat) < 2 ^ la"
    and rb: "(2 :: rat) ^ (lb - 1) \<le> of_int b" "(of_int b :: rat) < 2 ^ lb"
    using la lb
    by (simp_all only: of_int_le_iff of_int_less_iff flip: of_int_numeral [where ?'a = rat] of_int_power [where ?'a = rat])
  have "x < 2 ^ la / 2 ^ (lb - 1)"
    using x a b ra rb by (simp add: frac_less)
  also have "\<dots> = 2 powi (int la - int (lb - 1))"
    by (simp add: power_int_diff)
  also have "int la - int (lb - 1) = ?d + 1" using pos by simp
  finally have up: "x < 2 powi (?d + 1)" .
  have "2 powi (?d - 1) = (2 :: rat) powi (int (la - 1) - int lb)"
    using pos by (intro arg_cong [where f = "(powi) 2"]) simp
  also have "\<dots> = 2 ^ (la - 1) / 2 ^ lb" by (simp add: power_int_diff)
  also have "\<dots> \<le> x" using x a b ra rb by (simp add: frac_le)
  finally have low: "2 powi (?d - 1) \<le> x" .
  show "2 powi rat_exp x \<le> x" "x < 2 powi (rat_exp x + 1)"
    using up low by (auto simp: rat_exp_def q Let_def la_def lb_def)
qed

text \<open>Rounding respects every integer a double can hold: a value at or above it stays at or
  above it, a value at or below it stays at or below it.\<close>

lemma int_multiple_of_ulp:
  assumes "e \<le> 52"
  shows "\<exists>m. (of_int k :: rat) / 2 powi (e - 52) = of_int m"
proof -
  have "(of_int k :: rat) / 2 powi (e - 52) = of_int k * 2 ^ nat (52 - e)"
    using assms by (simp add: power_int_def field_simps split: if_splits)
  then have "(of_int k :: rat) / 2 powi (e - 52) = of_int (k * 2 ^ nat (52 - e))" by simp
  then show ?thesis by blast
qed

lemma fl64_pos_ge_int:
  assumes "0 < k" "k \<le> 2 ^ 53" "of_int k \<le> x"
  shows "of_int k \<le> fl64_pos x"
proof -
  let ?e = "rat_exp x" and ?u = "(2 :: rat) powi (rat_exp x - 52)"
  have x: "x > 0" using assms by (simp add: less_le_trans [of 0 "of_int k"])
  have u: "?u > 0" by simp
  obtain m where m: "of_int m \<le> x / ?u" "of_int k \<le> of_int m * ?u"
  proof (cases "?e \<le> 52")
    case True
    then obtain m where "(of_int k :: rat) / ?u = of_int m" using int_multiple_of_ulp by blast
    with u assms(3) show ?thesis
      by (intro that [of m]) (metis divide_right_mono less_imp_le, metis eq_refl nonzero_divide_eq_eq less_irrefl)
  next
    case False
    have p: "(2 :: rat) powi ?e = of_int (2 ^ 52) * ?u"
      by (simp add: power_int_diff)
    have k: "of_int k \<le> (2 :: rat) powi 53"
      using assms(2) by (simp add: of_int_le_iff [where ?'a = rat, of k "2 ^ 53", simplified])
    then have "of_int (2 ^ 52) \<le> x / ?u"
      using rat_exp_bounds(1) [OF x] u unfolding p by (simp add: pos_le_divide_eq)
    moreover have "(2 :: rat) powi 53 \<le> 2 powi ?e"
      using False by (intro power_int_increasing) auto
    then have "of_int k \<le> of_int (2 ^ 52) * ?u"
      using k p by simp
    ultimately show ?thesis by (rule that)
  qed
  have "m \<le> round_even (x / ?u)" using m(1) by (rule round_even_mono)
  then have "of_int m * ?u \<le> of_int (round_even (x / ?u)) * ?u"
    using u by (simp add: mult_right_mono)
  with m(2) have "of_int k \<le> of_int (round_even (x / ?u)) * ?u" by (rule order_trans)
  then show ?thesis by (simp add: fl64_pos_def Let_def)
qed

lemma fl64_pos_le_int:
  assumes "k \<le> 2 ^ 53" "0 < x" "x \<le> of_int k"
  shows "fl64_pos x \<le> of_int k"
proof -
  let ?e = "rat_exp x" and ?u = "(2 :: rat) powi (rat_exp x - 52)"
  have u: "?u > 0" by simp
  have k53: "(of_int k :: rat) \<le> 2 ^ 53"
    using assms(1) by (simp add: of_int_le_iff [where ?'a = rat, of k "2 ^ 53", simplified])
  then have "(2 :: rat) powi ?e \<le> 2 ^ 53"
    using rat_exp_bounds(1) [OF assms(2)] assms(3) by linarith
  then have e: "?e \<le> 53"
    using power_int_strict_increasing [of 53 ?e "2 :: rat"] by (cases "?e \<le> 53") auto
  show ?thesis
  proof (cases "?e \<le> 52")
    case True
    then obtain m where m: "(of_int k :: rat) / ?u = of_int m" using int_multiple_of_ulp by blast
    then have "x / ?u \<le> of_int m" using assms(3) u by (metis divide_right_mono less_imp_le)
    then have "round_even (x / ?u) \<le> m" by (rule round_even_mono')
    then have "of_int (round_even (x / ?u)) * ?u \<le> of_int m * ?u"
      using u by (simp add: mult_right_mono)
    also have "\<dots> = of_int k" using m u by (metis less_irrefl nonzero_divide_eq_eq)
    finally show ?thesis by (simp add: fl64_pos_def Let_def)
  next
    case False
    with e have e53: "?e = 53" by simp
    then have "2 ^ 53 \<le> x" using rat_exp_bounds(1) [OF assms(2)] by simp
    then have x: "x = 2 ^ 53" "(of_int k :: rat) = 2 ^ 53" using assms(3) k53 by auto
    have "round_even (x / 2) = 2 ^ 52"
      using round_even_int [of "2 ^ 52"] x by simp
    then show ?thesis using x e53 by (simp add: fl64_pos_def Let_def)
  qed
qed

lemma fl64_ge_int:
  assumes "0 \<le> k" "k \<le> 2 ^ 53" "of_int k \<le> x"
  shows "of_int k \<le> fl64 x"
proof (cases "x = 0")
  case True
  with assms show ?thesis by (simp add: fl64_def)
next
  case False
  have x: "0 < x" using assms False by (metis antisym_conv2 of_int_0_le_iff order_trans)
  show ?thesis
  proof (cases "k = 0")
    case True
    have "0 \<le> round_even (x / 2 powi (rat_exp x - 52))"
      using x by (intro round_even_mono) simp
    with x True show ?thesis by (simp add: fl64_def fl64_pos_def Let_def)
  next
    case False
    with x assms show ?thesis by (auto simp: fl64_def intro!: fl64_pos_ge_int)
  qed
qed

lemma fl64_le_int:
  assumes "k \<le> 2 ^ 53" "0 \<le> x" "x \<le> of_int k"
  shows "fl64 x \<le> of_int k"
  using assms fl64_pos_le_int [of k x] by (auto simp: fl64_def)

lemma fl64_int [simp]:
  assumes "0 \<le> k" "k \<le> 2 ^ 53"
  shows "fl64 (of_int k) = of_int k"
  using fl64_ge_int [OF assms order_refl] fl64_le_int [of k "of_int k"] assms
  by (intro antisym) auto

lemma trunc64_ge: "0 \<le> k \<Longrightarrow> of_int k \<le> x \<Longrightarrow> k \<le> trunc64 x"
  by (auto simp: trunc64_def le_floor_iff)

lemma trunc64_le: "0 \<le> x \<Longrightarrow> x \<le> of_int k \<Longrightarrow> trunc64 x \<le> k"
  by (auto simp: trunc64_def floor_le_iff less_le_trans)

lemma trunc64_int [simp]: "trunc64 (of_int k) = k"
  by (simp add: trunc64_def)

end
