(* ===== verification/Records.thy ===== *)
theory Records
  imports GoLib GoFloat
begin

text \<open>
  The data model of the root package (\<^verbatim>\<open>record.go\<close>, \<^verbatim>\<open>urlkey.go\<close>, \<^verbatim>\<open>message.go\<close>,
  \<^verbatim>\<open>signal.go\<close>) and the fetch boundary (\<^verbatim>\<open>fetch/spi.go\<close>): the 128-bit URL key with its
  order and byte image, the per-URL and per-host rows, the discovery and outcome messages.
  Enumerations are datatypes with the source's constructors, structs are records with the
  source's field names behind a prefix.  The hash behind the keys, xxHash64, is not part of
  the repository and is a parameter.
\<close>

unbundle bit_operations_syntax

section \<open>URL keys (urlkey.go)\<close>

datatype URLKey = URLKey (HostKey: u64) (PathKey: u64)

definition URLKey_Less :: "URLKey \<Rightarrow> URLKey \<Rightarrow> bool" where
  "URLKey_Less a b =
     (if HostKey a \<noteq> HostKey b then HostKey a < HostKey b else PathKey a < PathKey b)"

definition URLKey_Compare :: "URLKey \<Rightarrow> URLKey \<Rightarrow> int" where
  "URLKey_Compare a b =
     (if HostKey a < HostKey b then -1
      else if HostKey a > HostKey b then 1
      else if PathKey a < PathKey b then -1
      else if PathKey a > PathKey b then 1
      else 0)"

definition URLKey_Bytes :: "URLKey \<Rightarrow> u8 list" where
  "URLKey_Bytes k = PutUint64 (HostKey k) @ PutUint64 (PathKey k)"

definition URLKeyFromBytes :: "u8 list \<Rightarrow> URLKey" where
  "URLKeyFromBytes b = URLKey (Uint64 (take 8 b)) (Uint64 (take 8 (drop 8 b)))"

definition pathSeed :: u64 where
  "pathSeed = 0x9E3779B97F4A7C15"

definition HostKeyOf :: "(u8 list \<Rightarrow> u64) \<Rightarrow> string \<Rightarrow> u64" where
  "HostKeyOf xxh64 grouping = xxh64 (bytes_of grouping)"

definition PathKeyOf :: "(u8 list \<Rightarrow> u64) \<Rightarrow> string \<Rightarrow> u64" where
  "PathKeyOf xxh64 pathAndQuery = xxh64 (PutUint64 pathSeed @ bytes_of pathAndQuery)"

definition MakeURLKey :: "(u8 list \<Rightarrow> u64) \<Rightarrow> string \<Rightarrow> string \<Rightarrow> URLKey" where
  "MakeURLKey xxh64 grouping pathAndQuery =
     URLKey (HostKeyOf xxh64 grouping) (PathKeyOf xxh64 pathAndQuery)"

section \<open>Durable records (record.go)\<close>

text \<open>The status column is a byte; a value outside the nine states is kept as read.\<close>

datatype URLStatus =
    StatusDiscovered | StatusScheduled | StatusReady | StatusInFlight | StatusCrawled
  | StatusDueRecrawl | StatusGone | StatusExcludedRobots | StatusTrapped
  | StatusOther u8

fun URLStatus_String :: "(u8 \<Rightarrow> string) \<Rightarrow> URLStatus \<Rightarrow> string" where
  "URLStatus_String itoa StatusDiscovered = ''discovered''"
| "URLStatus_String itoa StatusScheduled = ''scheduled''"
| "URLStatus_String itoa StatusReady = ''ready''"
| "URLStatus_String itoa StatusInFlight = ''in_flight''"
| "URLStatus_String itoa StatusCrawled = ''crawled''"
| "URLStatus_String itoa StatusDueRecrawl = ''due_recrawl''"
| "URLStatus_String itoa StatusGone = ''gone''"
| "URLStatus_String itoa StatusExcludedRobots = ''excluded_robots''"
| "URLStatus_String itoa StatusTrapped = ''trapped''"
| "URLStatus_String itoa (StatusOther s) = ''status('' @ itoa s @ '')''"

datatype DiscoverySource = SourceSeed | SourceLink | SourceSitemap | SourceRedirect | SourceManual

record URLRecord =
  u_URLKey :: URLKey
  u_HostKey :: u64
  u_Status :: URLStatus
  u_Priority :: f32
  u_Depth :: u16
  u_DiscoverySource :: DiscoverySource
  u_URLRef :: u64
  u_FirstSeen :: u32
  u_LastCrawled :: u32
  u_LastChanged :: u32
  u_NextDue :: u32
  u_Lambda :: f32
  u_CrawlCount :: u32
  u_ChangeCount :: u32
  u_NoChangeStreak :: u16
  u_ETagRef :: u64
  u_LastModified :: u32
  u_ContentFP :: u64
  u_Simhash :: u64
  u_HTTPStatus :: u16
  u_RedirectRef :: u64
  u_RetryCount :: u8
  u_ErrorCount :: u16

text \<open>The Go zero value of a row with its key set.\<close>

definition zeroURL :: "URLKey \<Rightarrow> URLRecord" where
  "zeroURL k = \<lparr>u_URLKey = k, u_HostKey = HostKey k, u_Status = StatusDiscovered,
     u_Priority = 0, u_Depth = 0, u_DiscoverySource = SourceSeed, u_URLRef = 0,
     u_FirstSeen = 0, u_LastCrawled = 0, u_LastChanged = 0, u_NextDue = 0, u_Lambda = 0,
     u_CrawlCount = 0, u_ChangeCount = 0, u_NoChangeStreak = 0, u_ETagRef = 0,
     u_LastModified = 0, u_ContentFP = 0, u_Simhash = 0, u_HTTPStatus = 0, u_RedirectRef = 0,
     u_RetryCount = 0, u_ErrorCount = 0\<rparr>"

datatype HostGrouping = GroupRegistrableDomain | GroupFullHost

definition HostFlagTrapSuspect :: u16 where "HostFlagTrapSuspect = 1"
definition HostFlagRobotsMissing :: u16 where "HostFlagRobotsMissing = 2"
definition HostFlagDeadHost :: u16 where "HostFlagDeadHost = 4"
definition HostFlagGroupingOverride :: u16 where "HostFlagGroupingOverride = 8"

type_synonym ip = "u8 list"

text \<open>The unresolved address, sixteen zero bytes.\<close>

definition zeroIP :: ip where
  "zeroIP = replicate 16 0"

record HostRecord =
  h_HostKey :: u64
  h_HostRef :: u64
  h_Grouping :: HostGrouping
  h_RegistrableRef :: u64
  h_ResolvedIP :: ip
  h_IPExpiry :: u32
  h_RobotsFetched :: u32
  h_RobotsExpiry :: u32
  h_RobotsRef :: u64
  h_CrawlDelay :: u16
  h_HostNextEligible :: u32
  h_IPNextEligible :: u32
  h_URLBudget :: u32
  h_URLCount :: u32
  h_DepthCap :: u16
  h_HostScore :: f32
  h_CrawlTotal :: u32
  h_ErrorTotal :: u32
  h_AvgLatency :: u16
  h_Flags :: u16

definition zeroHost :: "u64 \<Rightarrow> HostRecord" where
  "zeroHost hk = \<lparr>h_HostKey = hk, h_HostRef = 0, h_Grouping = GroupRegistrableDomain,
     h_RegistrableRef = 0, h_ResolvedIP = zeroIP, h_IPExpiry = 0, h_RobotsFetched = 0,
     h_RobotsExpiry = 0, h_RobotsRef = 0, h_CrawlDelay = 0, h_HostNextEligible = 0,
     h_IPNextEligible = 0, h_URLBudget = 0, h_URLCount = 0, h_DepthCap = 0, h_HostScore = 0,
     h_CrawlTotal = 0, h_ErrorTotal = 0, h_AvgLatency = 0, h_Flags = 0\<rparr>"

section \<open>Messages (message.go, signal.go, fetch/spi.go)\<close>

datatype AnchorHint = AnchorUnknown | AnchorEmpty | AnchorGeneric | AnchorDescriptive | AnchorSpammy

record Discovery =
  d_URLKey :: URLKey
  d_CanonicalURL :: string
  d_Depth :: u16
  d_DiscoverySource :: DiscoverySource
  d_SrcHostKey :: u64
  d_LinkWeight :: f32
  d_AnchorHint :: AnchorHint
  d_ObservedAt :: u32

record Outcome =
  o_URLKey :: URLKey
  o_HTTPStatus :: u16
  o_FetchedAt :: u32
  o_LatencyMS :: u16
  o_NotModified :: bool
  o_ContentFP :: u64
  o_Simhash :: u64
  o_ContentLen :: u32
  o_ETag :: string
  o_LastModified :: u32
  o_RedirectTarget :: string
  o_Retryable :: bool
  o_RetryAfter :: u16
  o_RobotsCrawlDelay :: u16
  o_RobotsBody :: "u8 list"
  o_Links :: "Discovery list"

record HostSignal =
  hs_HostKey :: u64
  hs_HostScore :: f32

record URLSignal =
  us_URLKey :: URLKey
  us_PageRank :: f32

record Signal =
  sg_Epoch :: u64
  sg_Hosts :: "HostSignal list"
  sg_URLs :: "URLSignal list"

record Request =
  rq_URLKey :: URLKey
  rq_HostKey :: u64
  rq_CanonicalURL :: string
  rq_ETag :: string
  rq_LastModified :: u32
  rq_ResolvedIP :: ip
  rq_Depth :: u16
  rq_Robots :: bool

section \<open>The key order\<close>

instantiation URLKey :: linorder
begin

definition less_eq_URLKey :: "URLKey \<Rightarrow> URLKey \<Rightarrow> bool" where
  "less_eq_URLKey a b \<longleftrightarrow> a = b \<or> URLKey_Less a b"

definition less_URLKey :: "URLKey \<Rightarrow> URLKey \<Rightarrow> bool" where
  "less_URLKey a b \<longleftrightarrow> URLKey_Less a b"

instance
  by standard
     (auto simp: less_eq_URLKey_def less_URLKey_def URLKey_Less_def URLKey.expand split: if_splits)

end

lemma URLKey_Less_iff: "URLKey_Less a b \<longleftrightarrow> a < b"
  by (simp add: less_URLKey_def)

lemma URLKey_less_HostKey_mono: "a \<le> b \<Longrightarrow> HostKey a \<le> HostKey b"
  by (auto simp: less_eq_URLKey_def URLKey_Less_def split: if_splits)

lemma sorted_keys_host_contiguous:
  assumes "sorted ks" "i \<le> j" "j \<le> l" "l < length ks" "HostKey (ks ! i) = HostKey (ks ! l)"
  shows "HostKey (ks ! j) = HostKey (ks ! i)"
proof (rule antisym)
  have "ks ! j \<le> ks ! l" "ks ! i \<le> ks ! j"
    using assms by (auto simp: sorted_iff_nth_mono)
  then show "HostKey (ks ! j) \<le> HostKey (ks ! i)" "HostKey (ks ! i) \<le> HostKey (ks ! j)"
    using assms(5) by (auto dest: URLKey_less_HostKey_mono)
qed

lemma URLKey_Compare_sign:
  "URLKey_Compare a b = (if a < b then -1 else if a = b then 0 else 1)"
  by (auto simp: URLKey_Compare_def less_URLKey_def URLKey_Less_def URLKey.expand)

lemma length_URLKey_Bytes [simp]: "length (URLKey_Bytes k) = 16"
  by (simp add: URLKey_Bytes_def)

lemma URLKeyFromBytes_Bytes [simp]: "URLKeyFromBytes (URLKey_Bytes k) = k"
  by (simp add: URLKeyFromBytes_def URLKey_Bytes_def)

lemma URLKey_Bytes_FromBytes:
  assumes "length b = 16"
  shows "URLKey_Bytes (URLKeyFromBytes b) = b"
proof -
  have "length (take 8 b) = 8" "length (take 8 (drop 8 b)) = 8" using assms by auto
  then have "URLKey_Bytes (URLKeyFromBytes b) = take 8 b @ take 8 (drop 8 b)"
    by (simp add: URLKeyFromBytes_def URLKey_Bytes_def PutUint64_Uint64)
  also have "take 8 (drop 8 b) = drop 8 b" using assms by simp
  finally show ?thesis by simp
qed

end
