(* ===== verification/Dict.thy ===== *)
theory Dict
  imports Arena
begin

text \<open>
  The deduplicating string arena and the robots blob packing of \<^verbatim>\<open>format/dict.go\<close>, over the
  block codec of \<^verbatim>\<open>format/codec.go\<close>.  The zstd package is third party: its encoder and decoder
  are the parameters \<open>zenc\<close> and \<open>zdec\<close> of the definitions that reach them.
\<close>

section \<open>Errors and the block codec\<close>

datatype format_error =
    ErrBadMagic | ErrShortFile | ErrCorrupt | ErrChecksum | ErrUnsupported | ErrNotSorted
  | errUnknownCodec u8 | errUnknownEncoding u8 | ZstdError

definition CodecNone :: u8 where "CodecNone = 0"
definition CodecZstd :: u8 where "CodecZstd = 2"

definition compress :: "(u8 list \<Rightarrow> u8 list) \<Rightarrow> u8 \<Rightarrow> u8 list \<Rightarrow> u8 \<times> u8 list" where
  "compress zenc codec src = (if codec = CodecZstd then (CodecZstd, zenc src) else (CodecNone, src))"

text \<open>The size argument of the source is only the initial capacity of the destination buffer
  handed to \<^verbatim>\<open>DecodeAll\<close>; it does not limit the output and so is absent here.\<close>

definition decompress :: "(u8 list \<Rightarrow> u8 list option) \<Rightarrow> u8 \<Rightarrow> u8 list \<Rightarrow> format_error + u8 list" where
  "decompress zdec codec src =
     (if codec = CodecZstd then (case zdec src of Some out \<Rightarrow> Inr out | None \<Rightarrow> Inl ZstdError)
      else if codec = CodecNone then Inr src
      else Inl (errUnknownCodec codec))"

lemma decompress_compress:
  assumes "\<And>x. zdec (zenc x) = Some x"
  shows "decompress zdec (fst (compress zenc codec src)) (snd (compress zenc codec src)) = Inr src"
  using assms by (simp add: compress_def decompress_def CodecNone_def CodecZstd_def)

section \<open>The deduplicating interner\<close>

record arenaDict =
  ad_arena :: arena
  ad_by :: "(u8 list, u64) gomap"

definition newDict :: arenaDict where
  "newDict = \<lparr> ad_arena = newArena, ad_by = [] \<rparr>"

definition dict_intern :: "arenaDict \<Rightarrow> u8 list \<Rightarrow> arenaDict \<times> u64" where
  "dict_intern d sp =
     (case mget (ad_by d) sp of
        Some off \<Rightarrow> (d, off)
      | None \<Rightarrow>
          (let (arena, off) = arenaIntern (ad_arena d) sp in
           (d\<lparr> ad_arena := arena, ad_by := mput sp off (ad_by d) \<rparr>, off)))"

text \<open>Every indexed span is in the arena at its offset.\<close>

definition dict_wf :: "arenaDict \<Rightarrow> bool" where
  "dict_wf d \<longleftrightarrow> ad_arena d \<noteq> [] \<and> (\<forall>s off. mget (ad_by d) s = Some off \<longrightarrow> span_at (ad_arena d) off s)"

lemma dict_wf_new: "dict_wf newDict"
  by (simp add: dict_wf_def newDict_def newArena_def)

lemma dict_intern_arena:
  "ad_arena (fst (dict_intern d s))
     = (if mget (ad_by d) s = None then fst (arenaIntern (ad_arena d) s) else ad_arena d)"
  by (simp add: dict_intern_def split: option.splits prod.splits)

lemma dict_intern_by:
  "mget (ad_by (fst (dict_intern d s))) = (mget (ad_by d))(s \<mapsto> snd (dict_intern d s))"
  by (auto simp: dict_intern_def map_of_mput fun_upd_idem split: option.splits prod.splits)

lemma dict_intern_off:
  "snd (dict_intern d s)
     = (case mget (ad_by d) s of Some off \<Rightarrow> off | None \<Rightarrow> snd (arenaIntern (ad_arena d) s))"
  by (simp add: dict_intern_def split: option.splits prod.splits)

lemma dict_intern_keeps:
  "span_at (ad_arena d) off c \<Longrightarrow> span_at (ad_arena (fst (dict_intern d s))) off c"
  by (simp add: dict_intern_arena flat.intern_keeps)

lemma dict_intern_holds:
  assumes "dict_wf d" "length (ad_arena (fst (dict_intern d s))) < 2 ^ 64"
  shows "span_at (ad_arena (fst (dict_intern d s))) (snd (dict_intern d s)) s"
  using assms flat.intern_holds [of "ad_arena d" s]
  by (auto simp: dict_wf_def dict_intern_arena dict_intern_off split: option.splits)

interpretation dict: span_store dict_intern dict_wf "\<lambda>d. length (ad_arena d) < 2 ^ 64"
  "\<lambda>d. span_at (ad_arena d)"
proof
  fix d s
  assume wf: "dict_wf d" and room: "length (ad_arena (fst (dict_intern d s))) < 2 ^ 64"
  show "dict_wf (fst (dict_intern d s))"
    using wf dict_intern_holds [OF wf room] dict_intern_keeps [of d _ _ s]
    unfolding dict_wf_def dict_intern_by
    by (auto simp: dict_intern_arena arenaIntern_def split: if_splits)
next
  fix d s
  assume "length (ad_arena (fst (dict_intern d s))) < 2 ^ 64"
  then show "length (ad_arena d) < 2 ^ 64"
    by (auto simp: dict_intern_arena arenaIntern_def split: if_splits)
qed (rule dict_intern_holds dict_intern_keeps; assumption)+

lemma dict_seq_by_keeps:
  "mget (ad_by d) s = Some off \<Longrightarrow> mget (ad_by (snd (intern_seq dict_intern bs d))) s = Some off"
proof (induction bs arbitrary: d)
  case (Cons b bs)
  have "mget (ad_by (fst (dict_intern d b))) s = Some off"
    using Cons.prems by (auto simp: dict_intern_by dict_intern_off)
  from Cons.IH [OF this] show ?case by (simp add: split_beta Let_def)
qed simp

lemma dict_seq_by:
  "list_all2 (\<lambda>off s. mget (ad_by (snd (intern_seq dict_intern bs d))) s = Some off)
     (fst (intern_seq dict_intern bs d)) bs"
proof (induction bs arbitrary: d)
  case (Cons b bs)
  have "mget (ad_by (fst (dict_intern d b))) b = Some (snd (dict_intern d b))"
    by (simp add: dict_intern_by)
  from dict_seq_by_keeps [OF this, of bs] Cons.IH [of "fst (dict_intern d b)"]
  show ?case by (simp add: split_beta Let_def)
qed simp

text \<open>the shared dictionary folds equal content: interning any sequence of spans into the
  empty dictionary gives each span an offset that reads it back, and two positions of the sequence
  get the same offset exactly when their spans are equal.\<close>

theorem dict_folds_equal_content:
  assumes "intern_seq dict_intern bs newDict = (offs, d)" and "length (ad_arena d) < 2 ^ 64"
    and "i < length bs" "j < length bs"
  shows "length offs = length bs \<and> arenaRead (ad_arena d) (offs ! i) = Inr (Some (bs ! i))
         \<and> (offs ! i = offs ! j \<longleftrightarrow> bs ! i = bs ! j)"
proof -
  have "list_all2 (span_at (ad_arena d)) offs bs"
    using dict.intern_seq_holds [OF dict_wf_new, of bs] assms(1,2) by simp
  then have len: "length offs = length bs"
    and rd: "\<And>i. i < length bs \<Longrightarrow> arenaRead (ad_arena d) (offs ! i) = Inr (Some (bs ! i))"
    using span_at_read assms(2) by (auto simp: list_all2_conv_all_nth)
  have "mget (ad_by d) (bs ! i) = Some (offs ! i)" "mget (ad_by d) (bs ! j) = Some (offs ! j)"
    using dict_seq_by [of bs newDict] assms(1,3,4) by (auto simp: list_all2_conv_all_nth)
  then show ?thesis using len rd [OF assms(3)] rd [OF assms(4)] by auto
qed

theorem dict_folds_equal_content_witness:
  "arenaRead [0, 1, 97, 1, 98] 1 = Inr (Some [97])"
  using dict_folds_equal_content [of "[[97], [98], [97]]" "[1, 3, 1]"
      "\<lparr> ad_arena = [0, 1, 97, 1, 98], ad_by = [([97], 1), ([98], 3)] \<rparr>" 0 2]
  by (simp add: newDict_def newArena_def dict_intern_def arenaIntern_def uvarint.simps)

section \<open>Robots blobs\<close>

definition robotsAllowAll :: u8 where "robotsAllowAll = 0"
definition robotsRaw :: u8 where "robotsRaw = 1"
definition robotsCompressed :: u8 where "robotsCompressed = 2"

lemmas robots_modes = robotsAllowAll_def robotsRaw_def robotsCompressed_def

definition PackRobots :: "(u8 list \<Rightarrow> u8 list) \<Rightarrow> u8 list \<Rightarrow> u8 \<Rightarrow> u8 list" where
  "PackRobots zenc blob codec =
     (if blob = [] then [robotsAllowAll]
      else
        (let (used, comp) = compress zenc codec blob in
         if used \<noteq> CodecNone \<and> length comp < length blob then robotsCompressed # comp
         else robotsRaw # blob))"

text \<open>The result is the pair of the source, blob and well-formedness flag, as an option: every
  not-ok result of the source carries a nil blob.\<close>

definition UnpackRobots :: "(u8 list \<Rightarrow> u8 list option) \<Rightarrow> u8 list \<Rightarrow> u8 \<Rightarrow> u8 list option" where
  "UnpackRobots zdec packed codec =
     (case packed of
        [] \<Rightarrow> None
      | mode # body \<Rightarrow>
          if mode = robotsAllowAll then (if body \<noteq> [] then None else Some [])
          else if mode = robotsRaw then Some body
          else if mode = robotsCompressed then
            (case decompress zdec codec body of Inl e \<Rightarrow> None | Inr out \<Rightarrow> Some out)
          else None)"

text \<open>a robots blob packed under any block codec unpacks to itself under the same codec, and
  packing never costs more than one byte over the blob, for every compressor whose decoder
  inverts it.\<close>

theorem robots_pack_roundtrip:
  assumes "\<And>x. zdec (zenc x) = Some x"
  shows "UnpackRobots zdec (PackRobots zenc blob codec) codec = Some blob
         \<and> length (PackRobots zenc blob codec) \<le> length blob + 1"
proof (cases "blob = [] \<or> codec \<noteq> CodecZstd \<or> length (zenc blob) \<ge> length blob")
  case True
  then show ?thesis
    by (auto simp: PackRobots_def UnpackRobots_def compress_def robots_modes CodecNone_def)
next
  case False
  then show ?thesis
    by (simp add: PackRobots_def UnpackRobots_def compress_def decompress_def assms robots_modes
        CodecZstd_def CodecNone_def)
qed

text \<open>A concrete invertible coder that shortens one blob, for the witness.\<close>

definition toy_enc :: "u8 list \<Rightarrow> u8 list" where
  "toy_enc bs = (if bs = replicate 5 7 then [1] else 0 # bs)"

definition toy_dec :: "u8 list \<Rightarrow> u8 list option" where
  "toy_dec bs = (case bs of [] \<Rightarrow> None | b # r \<Rightarrow> if b = 1 then Some (replicate 5 7) else Some r)"

theorem robots_pack_roundtrip_witness:
  "UnpackRobots toy_dec (PackRobots toy_enc (replicate 5 7) CodecZstd) CodecZstd
     = Some (replicate 5 7)"
  using robots_pack_roundtrip [of toy_dec toy_enc "replicate 5 7" CodecZstd]
  by (simp add: toy_enc_def toy_dec_def)

end
