(* ===== verification/Ring.thy ===== *)
theory Ring
  imports Records
begin

text \<open>
  The front bank and the ready bank of the frontier (\<^verbatim>\<open>frontier/ring.go\<close>,
  \<^verbatim>\<open>frontier/shard.go\<close>).  A \<open>prioRing\<close> is 64 FIFO buckets behind a one-word occupancy
  bitmap; a \<open>readyBank\<close> is a row of rings with work stealing.  The interface both promise is
  the locale \<open>stable_bank\<close>: a bank is a list ordered by descending level, first in first out
  within a level.
\<close>

unbundle bit_operations_syntax

section \<open>The bucket of a priority\<close>

definition priorityLevels :: nat where
  "priorityLevels = 64"

text \<open>The level is \<open>\<lfloor>- log\<^sub>2 p * 4\<rfloor>\<close>.  It is the number of times \<open>p ^ 4\<close> can be doubled
  without exceeding 1, which is how it is computed here, stopping once it has reached the
  number of levels.  \<open>log_level_floor\<close> below shows it is the source's logarithm.\<close>

fun log_level :: "nat \<Rightarrow> rat \<Rightarrow> nat" where
  "log_level 0 q = 0"
| "log_level (Suc n) q = (if 2 * q \<le> 1 then Suc (log_level n (2 * q)) else 0)"

definition frontBucket :: "f32 \<Rightarrow> nat" where
  "frontBucket p =
     (if f32_le p 0 then 0
      else if f32_ge p 1 then priorityLevels - 1
      else if f32_isnan p then priorityLevels - 1
      else (let level = log_level priorityLevels (f32_val p ^ 4);
                level = (if level \<ge> priorityLevels then priorityLevels - 1 else level)
            in priorityLevels - 1 - level))"

section \<open>The priority ring\<close>

record 'a prioRing =
  buckets :: "'a list list"
  occ :: u64
  ring_n :: int

definition newRing :: "'a prioRing" where
  "newRing = \<lparr>buckets = replicate priorityLevels [], occ = 0, ring_n = 0\<rparr>"

definition ring_push :: "'a \<Rightarrow> f32 \<Rightarrow> 'a prioRing \<Rightarrow> 'a prioRing" where
  "ring_push item priority r =
     (let b = frontBucket priority in
      r\<lparr>buckets := (buckets r)[b := buckets r ! b @ [item]],
        occ := occ r OR push_bit b 1,
        ring_n := ring_n r + 1\<rparr>)"

definition ring_highest :: "'a prioRing \<Rightarrow> int" where
  "ring_highest r =
     (if occ r = 0 then -1 else int priorityLevels - 1 - int (LeadingZeros64 (occ r)))"

definition ring_peek :: "'a prioRing \<Rightarrow> 'a option" where
  "ring_peek r =
     (let b = ring_highest r in
      if b < 0 then None else Some (hd (buckets r ! nat b)))"

text \<open>Dropping the emptied bucket's occupancy bit, shared by pop and rebucket.\<close>

definition clear_if_empty :: "nat \<Rightarrow> 'a prioRing \<Rightarrow> 'a prioRing" where
  "clear_if_empty b r =
     (if buckets r ! b = [] then r\<lparr>occ := occ r AND NOT (push_bit b 1)\<rparr> else r)"

definition ring_pop :: "'a prioRing \<Rightarrow> ('a \<times> 'a prioRing) option" where
  "ring_pop r =
     (let b = ring_highest r in
      if b < 0 then None
      else (let i = nat b; item = hd (buckets r ! i);
                r = r\<lparr>buckets := (buckets r)[i := tl (buckets r ! i)]\<rparr>;
                r = clear_if_empty i r
            in Some (item, r\<lparr>ring_n := ring_n r - 1\<rparr>)))"

text \<open>The position of the first occurrence, the scan of the old bucket.\<close>

fun index_of :: "'a \<Rightarrow> 'a list \<Rightarrow> nat option" where
  "index_of x [] = None"
| "index_of x (y # ys) = (if y = x then Some 0 else map_option Suc (index_of x ys))"

definition ring_rebucket :: "'a \<Rightarrow> f32 \<Rightarrow> f32 \<Rightarrow> 'a prioRing \<Rightarrow> bool \<times> 'a prioRing" where
  "ring_rebucket item oldPriority newPriority r =
     (let ob = frontBucket oldPriority; nb = frontBucket newPriority in
      if ob = nb then (False, r)
      else (case index_of item (buckets r ! ob) of
              None \<Rightarrow> (False, r)
            | Some i \<Rightarrow>
                (let bucket = buckets r ! ob;
                     r = r\<lparr>buckets := (buckets r)[ob := take i bucket @ drop (Suc i) bucket]\<rparr>;
                     r = clear_if_empty ob r;
                     r = r\<lparr>ring_n := ring_n r - 1\<rparr>
                 in (True, ring_push item newPriority r))))"

section \<open>The sharded ready bank\<close>

type_synonym readyBank = "u64 prioRing list"

definition newReadyBank :: "int \<Rightarrow> readyBank" where
  "newReadyBank w = (let w = (if w < 1 then 1 else w) in replicate (nat w) newRing)"

definition bank_home :: "readyBank \<Rightarrow> u64 \<Rightarrow> nat" where
  "bank_home b hostKey = unat hostKey mod length b"

definition bank_push :: "u64 \<Rightarrow> f32 \<Rightarrow> readyBank \<Rightarrow> readyBank" where
  "bank_push hostKey priority b =
     (let s = bank_home b hostKey in b[s := ring_push hostKey priority (b ! s)])"

text \<open>The steal scan: the first shard whose highest level exceeds every earlier one.\<close>

fun best_shard :: "nat \<Rightarrow> int \<Rightarrow> int \<Rightarrow> readyBank \<Rightarrow> int" where
  "best_shard i best bestLvl [] = best"
| "best_shard i best bestLvl (r # rs) =
     (let lvl = ring_highest r in
      if lvl > bestLvl then best_shard (Suc i) (int i) lvl rs
      else best_shard (Suc i) best bestLvl rs)"

definition pop_at :: "nat \<Rightarrow> readyBank \<Rightarrow> (u64 \<times> readyBank) option" where
  "pop_at i b = (case ring_pop (b ! i) of None \<Rightarrow> None | Some (hk, r) \<Rightarrow> Some (hk, b[i := r]))"

definition bank_popShard :: "int \<Rightarrow> readyBank \<Rightarrow> (u64 \<times> readyBank) option" where
  "bank_popShard s b =
     (let own = (if 0 \<le> s \<and> s < int (length b) then pop_at (nat s) b else None) in
      case own of
        Some res \<Rightarrow> Some res
      | None \<Rightarrow> (let best = best_shard 0 (-1) (-1) b in
                 if best < 0 then None else pop_at (nat best) b))"

definition bank_pop :: "readyBank \<Rightarrow> (u64 \<times> readyBank) option" where
  "bank_pop b = bank_popShard 0 b"

section \<open>The bank interface\<close>

text \<open>Inserting behind every entry of the same or a higher level.\<close>

definition level_insert :: "nat \<Rightarrow> 'a \<Rightarrow> (nat \<times> 'a) list \<Rightarrow> (nat \<times> 'a) list" where
  "level_insert l x xs =
     takeWhile (\<lambda>e. l \<le> fst e) xs @ (l, x) # dropWhile (\<lambda>e. l \<le> fst e) xs"

abbreviation descending :: "(nat \<times> 'a) list \<Rightarrow> bool" where
  "descending xs \<equiv> sorted (map (\<lambda>e. - int (fst e)) xs)"

lemma level_insert_mset [simp]: "mset (level_insert l x xs) = add_mset (l, x) (mset xs)"
proof -
  have "mset xs = mset (takeWhile (\<lambda>e. l \<le> fst e) xs) + mset (dropWhile (\<lambda>e. l \<le> fst e) xs)"
    by (metis mset_append takeWhile_dropWhile_id)
  then show ?thesis by (simp add: level_insert_def)
qed

lemma level_insert_Nil [simp]: "level_insert l x [] = [(l, x)]"
  by (simp add: level_insert_def)

lemma level_insert_Cons [simp]:
  "level_insert l x (e # xs) = (if l \<le> fst e then e # level_insert l x xs else (l, x) # e # xs)"
  by (simp add: level_insert_def)

lemma set_level_insert [simp]: "set (level_insert l x xs) = insert (l, x) (set xs)"
  by (induction xs) auto

lemma descending_level_insert: "descending xs \<Longrightarrow> descending (level_insert l x xs)"
  by (induction xs) auto

lemma filter_level_insert:
  "descending xs \<Longrightarrow> filter (\<lambda>e. fst e = k) (level_insert l x xs)
     = filter (\<lambda>e. fst e = k) xs @ (if k = l then [(l, x)] else [])"
proof (induction xs)
  case (Cons e xs)
  show ?case
  proof (cases "l \<le> fst e")
    case False
    with Cons.prems have "filter (\<lambda>e. fst e = l) (e # xs) = []"
      by (auto simp: filter_empty_conv)
    with False show ?thesis by auto
  qed (use Cons in auto)
qed simp

lemma level_insert_between:
  assumes "\<forall>e \<in> set xs. l \<le> fst e" "\<forall>e \<in> set ys. fst e < l"
  shows "level_insert l x (xs @ ys) = xs @ (l, x) # ys"
proof -
  have "takeWhile (\<lambda>e. l \<le> fst e) ys = []" "dropWhile (\<lambda>e. l \<le> fst e) ys = ys"
    using assms(2) by (cases ys; simp)+
  with assms(1) show ?thesis by (simp add: level_insert_def)
qed

text \<open>What every pool of the scheduler promises, whatever its order: it gives out each
  element exactly as often as it was put in, and only an empty pool gives nothing.\<close>

locale pool =
  fixes pop :: "'q \<Rightarrow> ('a \<times> 'q) option"
    and elems :: "'q \<Rightarrow> 'a multiset"
    and wf :: "'q \<Rightarrow> bool"
  assumes pool_None: "wf q \<Longrightarrow> pop q = None \<longleftrightarrow> elems q = {#}"
    and pool_Some: "wf q \<Longrightarrow> pop q = Some (x, q') \<Longrightarrow> wf q' \<and> elems q = add_mset x (elems q')"
begin

lemma pool_exhaust:
  assumes "wf q"
  obtains "pop q = None" "elems q = {#}"
  | x q' where "pop q = Some (x, q')" "wf q'" "elems q = add_mset x (elems q')"
  using assms pool_None [of q] pool_Some [of q] by (cases "pop q") auto

lemma pool_pop_elem: "wf q \<Longrightarrow> pop q = Some (x, q') \<Longrightarrow> x \<in># elems q"
  by (auto dest: pool_Some)

end

locale stable_bank =
  fixes push :: "'a \<Rightarrow> f32 \<Rightarrow> 'q \<Rightarrow> 'q"
    and pop :: "'q \<Rightarrow> ('a \<times> 'q) option"
    and level :: "f32 \<Rightarrow> nat"
    and items :: "'q \<Rightarrow> (nat \<times> 'a) list"
    and wf :: "'q \<Rightarrow> bool"
  assumes wf_push: "wf q \<Longrightarrow> wf (push x p q)"
    and items_push: "wf q \<Longrightarrow> items (push x p q) = level_insert (level p) x (items q)"
    and pop_None: "wf q \<Longrightarrow> pop q = None \<longleftrightarrow> items q = []"
    and pop_Some: "wf q \<Longrightarrow> pop q = Some (x, q') \<Longrightarrow>
        wf q' \<and> (\<exists>l. items q = (l, x) # items q')"
    and items_sorted: "wf q \<Longrightarrow> descending (items q)"
begin

text \<open>Filling a bank in order, and emptying it.\<close>

primrec push_all :: "('a \<times> f32) list \<Rightarrow> 'q \<Rightarrow> 'q" where
  "push_all [] q = q"
| "push_all (e # es) q = push_all es (push (fst e) (snd e) q)"

primrec drain :: "nat \<Rightarrow> 'q \<Rightarrow> 'a list" where
  "drain 0 q = []"
| "drain (Suc n) q = (case pop q of None \<Rightarrow> [] | Some (x, q') \<Rightarrow> x # drain n q')"

lemma drain_items: "wf q \<Longrightarrow> length (items q) \<le> n \<Longrightarrow> drain n q = map snd (items q)"
proof (induction n arbitrary: q)
  case (Suc n)
  show ?case
  proof (cases "pop q")
    case None
    with Suc.prems(1) have "items q = []" by (simp add: pop_None)
    with None show ?thesis by simp
  next
    case (Some xq)
    obtain x q' where xq: "xq = (x, q')" by fastforce
    from pop_Some [OF Suc.prems(1) Some [unfolded xq]] obtain l
      where "wf q'" "items q = (l, x) # items q'" by blast
    with Suc Some xq show ?thesis by simp
  qed
qed simp

lemma wf_push_all: "wf q \<Longrightarrow> wf (push_all es q)"
  by (induction es arbitrary: q) (auto intro: wf_push)

lemma mset_push_all:
  "wf q \<Longrightarrow> mset (items (push_all es q))
     = mset (items q) + mset (map (\<lambda>(x, p). (level p, x)) es)"
  by (induction es arbitrary: q) (auto simp: items_push wf_push)

lemma filter_push_all:
  "wf q \<Longrightarrow> filter (\<lambda>e. fst e = k) (items (push_all es q))
     = filter (\<lambda>e. fst e = k) (items q)
       @ filter (\<lambda>e. fst e = k) (map (\<lambda>(x, p). (level p, x)) es)"
  by (induction es arbitrary: q)
     (auto simp: items_push wf_push filter_level_insert items_sorted)

text \<open>A bank filled from empty holds the stable sort of what was pushed, best level first.\<close>

lemma items_push_all:
  assumes "wf q" "items q = []"
  shows "items (push_all es q)
           = sort_key (\<lambda>e. - int (fst e)) (map (\<lambda>(x, p). (level p, x)) es)"
proof (rule properties_for_sort_key [symmetric])
  show "mset (items (push_all es q)) = mset (map (\<lambda>(x, p). (level p, x)) es)"
    using assms by (simp add: mset_push_all)
  show "descending (items (push_all es q))"
    using assms by (intro items_sorted wf_push_all)
  fix k
  show "filter (\<lambda>x. - int (fst k) = - int (fst x)) (items (push_all es q))
          = filter (\<lambda>x. - int (fst k) = - int (fst x)) (map (\<lambda>(x, p). (level p, x)) es)"
    using filter_push_all [of q "fst k" es] assms by (simp add: eq_commute)
qed

lemma drain_push_all:
  assumes "wf q" "items q = []" "length es \<le> n"
  shows "drain n (push_all es q)
           = map snd (sort_key (\<lambda>e. - int (fst e)) (map (\<lambda>(x, p). (level p, x)) es))"
  using assms by (subst drain_items) (simp_all add: wf_push_all items_push_all)

end

sublocale stable_bank \<subseteq> pool pop "\<lambda>q. mset (map snd (items q))" wf
  using pop_None pop_Some by unfold_locales fastforce+

section \<open>The ring implements the interface\<close>

definition ring_wf :: "'a prioRing \<Rightarrow> bool" where
  "ring_wf r \<longleftrightarrow> length (buckets r) = 64
     \<and> (\<forall>i < 64. bit (occ r) i \<longleftrightarrow> buckets r ! i \<noteq> [])
     \<and> ring_n r = int (length (concat (buckets r)))"

definition level_items :: "'a list list \<Rightarrow> nat list \<Rightarrow> (nat \<times> 'a) list" where
  "level_items bs is = concat (map (\<lambda>b. map (Pair b) (bs ! b)) is)"

definition ring_items :: "'a prioRing \<Rightarrow> (nat \<times> 'a) list" where
  "ring_items r = level_items (buckets r) (rev [0..<64])"

lemma frontBucket_less: "frontBucket p < 64"
  by (auto simp: frontBucket_def priorityLevels_def Let_def)

lemma set_level_items: "set (level_items bs is) = {(b, x). b \<in> set is \<and> x \<in> set (bs ! b)}"
  by (auto simp: level_items_def)

lemma level_items_update_other [simp]:
  "b \<notin> set is \<Longrightarrow> level_items (bs[b := v]) is = level_items bs is"
  unfolding level_items_def by (intro arg_cong [where f = concat] map_cong refl) (metis nth_list_update_neq)

lemma rev_upt_split:
  assumes "i < n"
  shows "rev [0..<n] = rev [Suc i..<n] @ [i] @ rev [0..<i]"
proof -
  have "[0..<n] = [0..<i] @ i # [Suc i..<n]"
    using assms by (metis less_imp_le upt_conv_Cons upt_add_eq_append le_add_diff_inverse zero_le)
  then show ?thesis by simp
qed

lemma ring_items_split:
  assumes "i < 64"
  shows "ring_items r = level_items (buckets r) (rev [Suc i..<64])
           @ map (Pair i) (buckets r ! i) @ level_items (buckets r) (rev [0..<i])"
  unfolding ring_items_def rev_upt_split [OF assms] by (simp add: level_items_def)

lemma descending_level_items:
  "sorted (rev is) \<Longrightarrow> descending (level_items bs is)"
  by (induction "is") (auto simp: level_items_def sorted_append sorted_map)

lemma ring_occ_zero:
  assumes "ring_wf r"
  shows "occ r = 0 \<longleftrightarrow> (\<forall>i < 64. buckets r ! i = [])"
proof -
  have "occ r = 0 \<longleftrightarrow> (\<forall>i < 64. \<not> bit (occ r) i)"
    by (auto intro: bit_word_eqI)
  with assms show ?thesis by (auto simp: ring_wf_def)
qed

lemma ring_highest_cases [consumes 1, case_names empty level]:
  assumes wf: "ring_wf r"
  obtains "ring_highest r = -1" "\<forall>i < 64. buckets r ! i = []"
  | i where "i < 64" "ring_highest r = int i" "buckets r ! i \<noteq> []"
      "\<forall>j. i < j \<and> j < 64 \<longrightarrow> buckets r ! j = []"
proof (cases "occ r = 0")
  case True
  then show ?thesis using ring_occ_zero [OF wf] by (intro that(1)) (auto simp: ring_highest_def)
next
  case False
  then have "top_bit 64 (occ r) \<noteq> None"
    using ring_occ_zero [OF wf] wf by (auto simp: top_bit_None ring_wf_def)
  then obtain i where i: "top_bit 64 (occ r) = Some i" by blast
  then have "i < 64" "bit (occ r) i" "\<forall>j. i < j \<and> j < 64 \<longrightarrow> \<not> bit (occ r) j"
    by (auto simp: top_bit_Some)
  moreover from this have "ring_highest r = int i"
    using False i by (simp add: ring_highest_def LeadingZeros64_def priorityLevels_def)
  ultimately show ?thesis using wf by (intro that(2)) (auto simp: ring_wf_def)
qed

lemma level_items_empty:
  "(\<And>b. b \<in> set is \<Longrightarrow> bs ! b = []) \<Longrightarrow> level_items bs is = []"
  by (induction "is") (auto simp: level_items_def)

lemma ring_items_Nil: "ring_items r = [] \<longleftrightarrow> (\<forall>i < 64. buckets r ! i = [])"
  by (auto simp: ring_items_def level_items_def)

lemma ring_items_highest:
  assumes "ring_wf r" "i < 64" "\<forall>j. i < j \<and> j < 64 \<longrightarrow> buckets r ! j = []"
  shows "ring_items r = map (Pair i) (buckets r ! i) @ level_items (buckets r) (rev [0..<i])"
  using assms by (auto simp: ring_items_split [of i] intro: level_items_empty)

lemma bit_set_bucket:
  "i < 64 \<Longrightarrow> b < 64 \<Longrightarrow> bit (w OR 2 ^ b :: u64) i \<longleftrightarrow> bit w i \<or> i = b"
  by (auto simp: bit_simps)

lemma bit_clear_bucket:
  "i < 64 \<Longrightarrow> b < 64 \<Longrightarrow> bit (w AND NOT (2 ^ b) :: u64) i \<longleftrightarrow> bit w i \<and> i \<noteq> b"
  by (auto simp: bit_simps)

lemma ring_wf_new [wf_intros]: "ring_wf newRing"
  by (simp add: ring_wf_def newRing_def priorityLevels_def)

lemma ring_items_new [abs_simps]: "ring_items newRing = []"
  by (rule ring_items_Nil [THEN iffD2]) (simp add: newRing_def priorityLevels_def)

lemma ring_wf_push [wf_intros]:
  assumes "ring_wf r"
  shows "ring_wf (ring_push x p r)"
proof -
  let ?b = "frontBucket p"
  have b: "?b < 64" by (rule frontBucket_less)
  then have "length (concat ((buckets r)[?b := buckets r ! ?b @ [x]])) = length (concat (buckets r)) + 1"
    using assms length_concat_update [of ?b "buckets r" "buckets r ! ?b @ [x]"]
    by (simp add: ring_wf_def)
  with assms b show ?thesis
    by (auto simp: ring_wf_def ring_push_def Let_def bit_set_bucket nth_list_update)
qed

lemma ring_items_push [abs_simps]:
  assumes "ring_wf r"
  shows "ring_items (ring_push x p r) = level_insert (frontBucket p) x (ring_items r)"
proof -
  let ?b = "frontBucket p"
  have b: "?b < 64" by (rule frontBucket_less)
  have "ring_items r = (level_items (buckets r) (rev [Suc ?b..<64]) @ map (Pair ?b) (buckets r ! ?b))
          @ level_items (buckets r) (rev [0..<?b])"
    by (simp add: ring_items_split [OF b])
  then have "level_insert ?b x (ring_items r)
       = (level_items (buckets r) (rev [Suc ?b..<64]) @ map (Pair ?b) (buckets r ! ?b))
          @ (?b, x) # level_items (buckets r) (rev [0..<?b])"
    by (simp only:) (rule level_insert_between, auto simp: set_level_items)
  then show ?thesis
    using assms b by (simp add: ring_items_split [OF b] ring_push_def Let_def ring_wf_def)
qed

lemma clear_if_empty_simps [simp]:
  "buckets (clear_if_empty b r) = buckets r"
  "ring_n (clear_if_empty b r) = ring_n r"
  by (simp_all add: clear_if_empty_def)

text \<open>Shrinking one bucket and clearing its bit when it empties keeps the ring well formed.\<close>

lemma ring_wf_shrink:
  assumes "ring_wf r" "i < 64" "buckets r ! i \<noteq> []" "length ys + 1 = length (buckets r ! i)"
  shows "ring_wf (let r' = clear_if_empty i (r\<lparr>buckets := (buckets r)[i := ys]\<rparr>)
                  in r'\<lparr>ring_n := ring_n r' - 1\<rparr>)"
proof -
  have "length (concat ((buckets r)[i := ys])) + 1 = length (concat (buckets r))"
    using assms length_concat_update [of i "buckets r" ys] by (simp add: ring_wf_def)
  then have "int (length (concat ((buckets r)[i := ys]))) = int (length (concat (buckets r))) - 1"
    by linarith
  with assms show ?thesis
    by (auto simp: ring_wf_def clear_if_empty_def Let_def bit_clear_bucket nth_list_update)
qed

lemma ring_pop_None:
  assumes "ring_wf r"
  shows "ring_pop r = None \<longleftrightarrow> ring_items r = []"
  using assms
proof (cases rule: ring_highest_cases)
  case empty
  with assms show ?thesis by (simp add: ring_pop_def ring_items_Nil)
next
  case (level i)
  with assms show ?thesis by (auto simp: ring_pop_def Let_def ring_items_Nil)
qed

lemma ring_pop_Some:
  assumes wf: "ring_wf r" and pop: "ring_pop r = Some (x, r')"
  shows "ring_wf r' \<and> (\<exists>l. ring_items r = (l, x) # ring_items r')"
  using wf
proof (cases rule: ring_highest_cases)
  case empty
  with pop show ?thesis by (simp add: ring_pop_def)
next
  case (level i)
  obtain y ys where ys: "buckets r ! i = y # ys" using level(3) by (cases "buckets r ! i") auto
  have r': "r' = (let r' = clear_if_empty i (r\<lparr>buckets := (buckets r)[i := ys]\<rparr>)
                  in r'\<lparr>ring_n := ring_n r' - 1\<rparr>)" and x: "x = y"
    using pop level ys by (auto simp: ring_pop_def Let_def)
  have wf': "ring_wf r'" unfolding r' using wf level ys by (intro ring_wf_shrink) auto
  have b: "buckets r' = (buckets r)[i := ys]" by (simp add: r' Let_def)
  have "\<forall>j. i < j \<and> j < 64 \<longrightarrow> buckets r' ! j = []" using level b by simp
  then have "ring_items r' = map (Pair i) ys @ level_items (buckets r) (rev [0..<i])"
    using ring_items_highest [OF wf' level(1)] b level(1) wf by (simp add: ring_wf_def)
  with wf' show ?thesis using ring_items_highest [OF wf level(1,4)] ys x by auto
qed

lemma ring_items_descending: "descending (ring_items r)"
  unfolding ring_items_def by (rule descending_level_items) simp

interpretation ring: stable_bank ring_push ring_pop frontBucket ring_items ring_wf
  by unfold_locales
     (auto intro: ring_wf_push ring_items_push ring_items_descending
        simp: ring_pop_None dest: ring_pop_Some)

text \<open>The multiset view of a ring.\<close>

definition ring_elems :: "'a prioRing \<Rightarrow> 'a multiset" where
  "ring_elems r = mset (map snd (ring_items r))"

lemma ring_elems_new [abs_simps]: "ring_elems newRing = {#}"
  by (simp add: ring_elems_def ring_items_new)

lemma ring_elems_push [abs_simps]: "ring_wf r \<Longrightarrow> ring_elems (ring_push x p r) = add_mset x (ring_elems r)"
  by (simp add: ring_elems_def ring_items_push)

lemma ring_elems_pop: "ring_wf r \<Longrightarrow> ring_pop r = Some (x, r') \<Longrightarrow>
    ring_wf r' \<and> ring_elems r = add_mset x (ring_elems r')"
  unfolding ring_elems_def by (rule ring.pool_Some)

lemma ring_elems_pop_None: "ring_wf r \<Longrightarrow> ring_pop r = None \<longleftrightarrow> ring_elems r = {#}"
  unfolding ring_elems_def by (rule ring.pool_None)

lemma ring_peek_pop: "ring_peek r = map_option fst (ring_pop r)"
  by (simp add: ring_peek_def ring_pop_def Let_def)

lemma mset_level_items:
  "image_mset snd (mset (level_items bs is)) = mset (concat (map (\<lambda>i. bs ! i) is))"
  by (induction "is") (simp_all add: level_items_def image_mset.compositionality comp_def)

lemma ring_elems_concat:
  assumes "ring_wf r"
  shows "ring_elems r = mset (concat (buckets r))"
proof -
  have l: "length (buckets r) = 64" using assms by (simp add: ring_wf_def)
  have "ring_elems r = mset (concat (map (\<lambda>i. buckets r ! i) (rev [0..<64])))"
    by (simp add: ring_elems_def ring_items_def mset_level_items)
  also have "\<dots> = mset (concat (map (\<lambda>i. buckets r ! i) [0..<64]))"
    by (simp add: mset_concat sum_mset_sum_list [symmetric] del: mset_map flip: rev_map)
  also have "map (\<lambda>i. buckets r ! i) [0..<64] = buckets r"
    using map_nth [of "buckets r"] l by simp
  finally show ?thesis .
qed

lemma index_of_Some: "index_of x ys = Some i \<Longrightarrow> i < length ys \<and> ys ! i = x"
  by (induction ys arbitrary: i) (auto split: if_splits)

lemma index_of_None: "index_of x ys = None \<longleftrightarrow> x \<notin> set ys"
  by (induction ys) auto

lemma ring_rebucket_False: "ring_rebucket x p q r = (False, r') \<Longrightarrow> r' = r"
  by (auto simp: ring_rebucket_def Let_def split: if_splits option.splits)

lemma ring_rebucket_True:
  assumes wf: "ring_wf r" and rb: "ring_rebucket x p q r = (True, r')"
  shows "ring_wf r' \<and> x \<in># ring_elems r \<and> ring_elems r' = ring_elems r"
proof -
  let ?b = "frontBucket p"
  obtain i where i: "index_of x (buckets r ! ?b) = Some i"
    and r': "r' = ring_push x q (let r' = clear_if_empty ?b
        (r\<lparr>buckets := (buckets r)[?b := take i (buckets r ! ?b) @ drop (Suc i) (buckets r ! ?b)]\<rparr>)
      in r'\<lparr>ring_n := ring_n r' - 1\<rparr>)" (is "r' = ring_push x q ?r1")
    using rb by (auto simp: ring_rebucket_def Let_def split: if_splits option.splits)
  let ?bs = "take i (buckets r ! ?b) @ drop (Suc i) (buckets r ! ?b)"
  have b: "?b < length (buckets r)" "?b < 64" using wf frontBucket_less by (auto simp: ring_wf_def)
  have ix: "i < length (buckets r ! ?b)" "buckets r ! ?b ! i = x" using i by (auto dest: index_of_Some)
  then have wf1: "ring_wf ?r1"
    using wf b by (intro ring_wf_shrink) (auto simp: min_def)
  have x: "x \<in> set (buckets r ! ?b)" using ix by (metis nth_mem)
  then have in_r: "x \<in># ring_elems r"
    using b by (auto simp: ring_elems_concat [OF wf] in_set_conv_nth) (metis nth_mem)
  have "mset (concat ((buckets r)[?b := ?bs])) + mset (buckets r ! ?b)
          = mset (concat (buckets r)) + (mset (buckets r ! ?b) - {# x #})"
    using mset_concat_update [OF b(1), of ?bs] remove1_split [OF ix(1)] ix(2) by simp
  moreover obtain B where "mset (buckets r ! ?b) = add_mset x B"
    using x by (metis multi_member_split set_mset_mset)
  ultimately have "add_mset x (mset (concat ((buckets r)[?b := ?bs]))) = mset (concat (buckets r))"
    by simp
  moreover have "buckets ?r1 = (buckets r)[?b := ?bs]" by (simp add: Let_def)
  ultimately have "add_mset x (ring_elems ?r1) = ring_elems r"
    using ring_elems_concat [OF wf1] ring_elems_concat [OF wf] by simp
  then show ?thesis
    using wf1 in_r by (simp add: r' ring_elems_push ring_wf_push)
qed

lemma ring_rebucket_elems [abs_simps]:
  assumes "ring_wf r"
  shows "ring_wf (snd (ring_rebucket x p q r))"
    and "ring_elems (snd (ring_rebucket x p q r)) = ring_elems r"
  using assms ring_rebucket_True [OF assms] ring_rebucket_False
  by (cases "ring_rebucket x p q r"; cases "fst (ring_rebucket x p q r)"; fastforce)+

section \<open>The ready bank implements the pool interface\<close>

definition bank_wf :: "readyBank \<Rightarrow> bool" where
  "bank_wf b \<longleftrightarrow> b \<noteq> [] \<and> (\<forall>r \<in> set b. ring_wf r)"

definition bank_elems :: "readyBank \<Rightarrow> u64 multiset" where
  "bank_elems b = sum_list (map ring_elems b)"

lemma bank_wf_new [wf_intros]: "bank_wf (newReadyBank w)"
  by (auto simp: bank_wf_def newReadyBank_def ring_wf_new)

lemma bank_elems_new [abs_simps]: "bank_elems (newReadyBank w) = {#}"
proof -
  have "sum_list (map ring_elems (replicate n newRing)) = {#}" for n :: nat
    by (induction n) (auto simp: ring_elems_new)
  then show ?thesis unfolding bank_elems_def newReadyBank_def Let_def by blast
qed

lemma bank_home_less: "b \<noteq> [] \<Longrightarrow> bank_home b hk < length b"
  by (simp add: bank_home_def)

lemma sum_list_map_update:
  fixes f :: "'a \<Rightarrow> 'b multiset"
  assumes "i < length xs"
  shows "sum_list (map f (xs[i := v])) + f (xs ! i) = sum_list (map f xs) + f v"
  using assms
proof (induction xs arbitrary: i)
  case (Cons a xs)
  then show ?case by (cases i) (auto simp: ac_simps)
qed simp

lemma bank_wf_update:
  "bank_wf b \<Longrightarrow> ring_wf r \<Longrightarrow> bank_wf (b[i := r])"
  using set_update_subset_insert [of b i r] by (auto simp: bank_wf_def)

lemma bank_wf_push [wf_intros]: "bank_wf b \<Longrightarrow> bank_wf (bank_push hk p b)"
  unfolding bank_push_def Let_def
  by (intro bank_wf_update ring_wf_push) (auto simp: bank_wf_def bank_home_less)

lemma bank_elems_push [abs_simps]:
  assumes "bank_wf b"
  shows "bank_elems (bank_push hk p b) = add_mset hk (bank_elems b)"
proof -
  let ?s = "bank_home b hk"
  have s: "?s < length b" "ring_wf (b ! ?s)" using assms by (auto simp: bank_wf_def bank_home_less)
  then show ?thesis
    using sum_list_map_update [OF s(1), of ring_elems "ring_push hk p (b ! ?s)"]
    by (simp add: bank_elems_def bank_push_def Let_def ring_elems_push)
qed

lemma pop_at_Some:
  assumes "bank_wf b" "i < length b" "pop_at i b = Some (hk, b')"
  shows "bank_wf b' \<and> bank_elems b = add_mset hk (bank_elems b')"
proof -
  obtain r where r: "ring_pop (b ! i) = Some (hk, r)" "b' = b[i := r]"
    using assms(3) by (auto simp: pop_at_def split: option.splits)
  have wf: "ring_wf (b ! i)" using assms(1,2) by (auto simp: bank_wf_def)
  have "ring_wf r" "ring_elems (b ! i) = add_mset hk (ring_elems r)"
    using ring_elems_pop [OF wf r(1)] by auto
  then show ?thesis
    using sum_list_map_update [OF assms(2), of ring_elems r] assms(1) r(2)
    by (simp add: bank_elems_def bank_wf_update)
qed

text \<open>The steal scan returns the lowest-numbered shard of maximal level.\<close>

lemma best_shard_spec:
  "(\<forall>r \<in> set rs. ring_highest r \<le> lvl) \<and> best_shard i best lvl rs = best
   \<or> (\<exists>j < length rs. best_shard i best lvl rs = int (i + j) \<and> ring_highest (rs ! j) > lvl
        \<and> (\<forall>r \<in> set rs. ring_highest r \<le> ring_highest (rs ! j))
        \<and> (\<forall>k < j. ring_highest (rs ! k) < ring_highest (rs ! j)))"
proof (induction rs arbitrary: i best lvl)
  case (Cons r rs)
  show ?case
  proof (cases "ring_highest r > lvl")
    case True
    then have eq: "best_shard i best lvl (r # rs) = best_shard (Suc i) (int i) (ring_highest r) rs"
      by (simp add: Let_def)
    from Cons.IH [where i = "Suc i" and best = "int i" and lvl = "ring_highest r"]
    show ?thesis
    proof (elim disjE exE conjE)
      assume "\<forall>r' \<in> set rs. ring_highest r' \<le> ring_highest r"
        and "best_shard (Suc i) (int i) (ring_highest r) rs = int i"
      with True eq show ?thesis by (intro disjI2 exI [of _ 0]) auto
    next
      fix j
      assume "j < length rs" "best_shard (Suc i) (int i) (ring_highest r) rs = int (Suc i + j)"
        "ring_highest (rs ! j) > ring_highest r"
        "\<forall>r' \<in> set rs. ring_highest r' \<le> ring_highest (rs ! j)"
        "\<forall>k < j. ring_highest (rs ! k) < ring_highest (rs ! j)"
      with True eq show ?thesis
        by (intro disjI2 exI [of _ "Suc j"]) (auto simp: less_Suc_eq_0_disj)
    qed
  next
    case False
    then have eq: "best_shard i best lvl (r # rs) = best_shard (Suc i) best lvl rs"
      by (simp add: Let_def)
    from Cons.IH [where i = "Suc i" and best = best and lvl = lvl]
    show ?thesis
    proof (elim disjE exE conjE)
      assume "\<forall>r' \<in> set rs. ring_highest r' \<le> lvl" "best_shard (Suc i) best lvl rs = best"
      with False eq show ?thesis by auto
    next
      fix j
      assume "j < length rs" "best_shard (Suc i) best lvl rs = int (Suc i + j)"
        "ring_highest (rs ! j) > lvl"
        "\<forall>r' \<in> set rs. ring_highest r' \<le> ring_highest (rs ! j)"
        "\<forall>k < j. ring_highest (rs ! k) < ring_highest (rs ! j)"
      with False eq show ?thesis
        by (intro disjI2 exI [of _ "Suc j"]) (auto simp: less_Suc_eq_0_disj)
    qed
  qed
qed simp

lemma ring_highest_neg: "ring_wf r \<Longrightarrow> ring_highest r \<le> -1 \<longleftrightarrow> ring_elems r = {#}"
  by (erule ring_highest_cases) (auto simp: ring_elems_def ring_items_Nil)

lemma bank_elems_empty: "bank_elems b = {#} \<longleftrightarrow> (\<forall>r \<in> set b. ring_elems r = {#})"
  by (induction b) (auto simp: bank_elems_def)

lemma steal_cases:
  assumes wf: "bank_wf b"
  obtains "best_shard 0 (-1) (-1) b = -1" "bank_elems b = {#}"
  | j where "j < length b" "best_shard 0 (-1) (-1) b = int j" "ring_elems (b ! j) \<noteq> {#}"
      "\<forall>r \<in> set b. ring_highest r \<le> ring_highest (b ! j)"
      "\<forall>k < j. ring_highest (b ! k) < ring_highest (b ! j)"
  using best_shard_spec [of b "-1" 0 "-1"]
proof (elim disjE exE conjE)
  assume "\<forall>r \<in> set b. ring_highest r \<le> -1" "best_shard 0 (-1) (-1) b = -1"
  then show thesis using wf
    by (intro that(1)) (auto simp: bank_elems_empty bank_wf_def ring_highest_neg)
next
  fix j
  assume j: "j < length b" "best_shard 0 (-1) (-1) b = int (0 + j)" "-1 < ring_highest (b ! j)"
    "\<forall>r \<in> set b. ring_highest r \<le> ring_highest (b ! j)"
    "\<forall>k < j. ring_highest (b ! k) < ring_highest (b ! j)"
  moreover have "ring_elems (b ! j) \<noteq> {#}"
    using ring_highest_neg [of "b ! j"] wf j(1,3) by (auto simp: bank_wf_def)
  ultimately show thesis by (intro that(2)) auto
qed

lemma pop_at_nonempty:
  assumes "bank_wf b" "i < length b" "ring_elems (b ! i) \<noteq> {#}"
  shows "pop_at i b \<noteq> None"
proof -
  have "ring_wf (b ! i)" using assms(1,2) by (simp add: bank_wf_def)
  then have "ring_pop (b ! i) \<noteq> None" using assms(3) by (simp add: ring_elems_pop_None)
  then show ?thesis by (auto simp: pop_at_def split: option.splits)
qed

lemma bank_popShard_None:
  assumes wf: "bank_wf b"
  shows "bank_popShard s b = None \<longleftrightarrow> bank_elems b = {#}"
proof
  assume none: "bank_popShard s b = None"
  from wf show "bank_elems b = {#}"
  proof (cases rule: steal_cases)
    case (2 j)
    with none pop_at_nonempty [OF wf 2(1,3)] show ?thesis
      by (auto simp: bank_popShard_def Let_def split: option.splits if_splits)
  qed
next
  assume e: "bank_elems b = {#}"
  have "pop_at i b = None" if "i < length b" for i
    using e wf that ring_elems_pop_None [of "b ! i"]
    by (auto simp: pop_at_def bank_elems_empty bank_wf_def)
  then show "bank_popShard s b = None"
    by (cases rule: steal_cases [OF wf]) (auto simp: bank_popShard_def Let_def nat_less_iff)
qed

lemma bank_popShard_Some:
  assumes wf: "bank_wf b" and pop: "bank_popShard s b = Some (hk, b')"
  shows "bank_wf b' \<and> bank_elems b = add_mset hk (bank_elems b')"
proof (cases "0 \<le> s \<and> s < int (length b) \<and> pop_at (nat s) b \<noteq> None")
  case True
  then show ?thesis
    using pop wf by (intro pop_at_Some [of b "nat s"])
      (auto simp: bank_popShard_def Let_def nat_less_iff split: option.splits)
next
  case False
  then have eq: "bank_popShard s b = (let best = best_shard 0 (-1) (-1) b in
                 if best < 0 then None else pop_at (nat best) b)"
    by (auto simp: bank_popShard_def Let_def split: option.splits)
  from wf show ?thesis
  proof (cases rule: steal_cases)
    case 1
    with pop eq show ?thesis by simp
  next
    case (2 j)
    then have "pop_at j b = Some (hk, b')" using pop eq by simp
    with 2(1) show ?thesis by (intro pop_at_Some [OF wf])
  qed
qed

interpretation bank: pool "bank_popShard s" bank_elems bank_wf for s
  using bank_popShard_None bank_popShard_Some by unfold_locales blast+

section \<open>The level is the source's logarithm\<close>

lemma log_level_le: "log_level n q \<le> n"
  by (induction n q rule: log_level.induct) auto

lemma log_level_iff:
  assumes "q > 0" "k \<le> n"
  shows "k \<le> log_level n q \<longleftrightarrow> k = 0 \<or> 2 ^ k * q \<le> 1"
  using assms
proof (induction n q arbitrary: k rule: log_level.induct)
  case (2 n q)
  show ?case
  proof (cases k)
    case (Suc j)
    have "2 * q \<le> 2 ^ k * q"
      using "2.prems"(1) Suc by (intro mult_right_mono) auto
    then have le: "2 ^ k * q \<le> 1 \<Longrightarrow> 2 * q \<le> 1" by (rule order_trans)
    show ?thesis
    proof (cases "2 * q \<le> 1")
      case True
      then have "j \<le> log_level n (2 * q) \<longleftrightarrow> j = 0 \<or> 2 ^ j * (2 * q) \<le> 1"
        using "2.IH" "2.prems" Suc by simp
      then show ?thesis using True Suc by (auto simp: algebra_simps)
    next
      case False
      then show ?thesis using le Suc by auto
    qed
  qed simp
qed simp

lemma log_level_floor:
  assumes "0 < p" "p < (1 :: rat)"
  shows "int (log_level n (p ^ 4)) = min (int n) \<lfloor>- log 2 (real_of_rat p) * 4\<rfloor>"
proof -
  let ?x = "real_of_rat p"
  have x: "0 < ?x" "?x < 1" using assms by auto
  have pow: "2 ^ k * p ^ 4 \<le> 1 \<longleftrightarrow> int k \<le> \<lfloor>- log 2 ?x * 4\<rfloor>" for k
  proof -
    have "2 ^ k * p ^ 4 \<le> 1 \<longleftrightarrow> (2 :: real) ^ k * ?x ^ 4 \<le> 1"
      using of_rat_less_eq [of "2 ^ k * p ^ 4" 1, where ?'a = real] by (simp add: of_rat_mult of_rat_power)
    also have "\<dots> \<longleftrightarrow> log 2 (2 ^ k * ?x ^ 4) \<le> 0"
      using x by (simp add: log_le_zero_cancel_iff)
    also have "log 2 (2 ^ k * ?x ^ 4) = real k + 4 * log 2 ?x"
      using x by (simp add: log_mult log_nat_power)
    also have "\<dots> \<le> 0 \<longleftrightarrow> int k \<le> \<lfloor>- log 2 ?x * 4\<rfloor>"
      by (simp add: le_floor_iff) linarith
    finally show ?thesis .
  qed
  have nn: "0 \<le> \<lfloor>- log 2 ?x * 4\<rfloor>" using x by (simp add: mult_le_0_iff)
  have iff: "k \<le> log_level n (p ^ 4) \<longleftrightarrow> k \<le> min n (nat \<lfloor>- log 2 ?x * 4\<rfloor>)" for k
  proof (cases "k \<le> n")
    case True
    then have "k \<le> log_level n (p ^ 4) \<longleftrightarrow> k = 0 \<or> int k \<le> \<lfloor>- log 2 ?x * 4\<rfloor>"
      using log_level_iff [of "p ^ 4" k n] assms(1) by (simp only: pow zero_less_power)
    with True nn show ?thesis by (auto simp: le_nat_iff)
  next
    case False
    then show ?thesis using log_level_le [of n "p ^ 4"] by auto
  qed
  have "log_level n (p ^ 4) = min n (nat \<lfloor>- log 2 ?x * 4\<rfloor>)"
    using iff by (meson antisym order_refl)
  then show ?thesis using nn by linarith
qed

lemma frontBucket_cases:
  assumes "\<not> f32_isnan p"
  shows "frontBucket p = (if f32_isinf p then (if f32_neg p then 0 else 63)
           else if f32_val p \<le> 0 then 0
           else if 1 \<le> f32_val p then 63
           else 63 - min 63 (log_level 64 (f32_val p ^ 4)))"
  using assms by (auto simp: frontBucket_def f32_le_def f32_ge_def priorityLevels_def Let_def)

lemma log_level_antimono: "0 < q \<Longrightarrow> q \<le> q' \<Longrightarrow> log_level n q' \<le> log_level n q"
  by (induction n q arbitrary: q' rule: log_level.induct) auto

lemma log_level_numeral:
  "log_level (numeral k) q = (if 2 * q \<le> 1 then Suc (log_level (pred_numeral k) (2 * q)) else 0)"
  by (simp add: numeral_eq_Suc)

lemmas f32_eval = f32_isnan_def f32_isinf_def f32_val_def f32_mag_def f32_neg_def f32_exp_def
  f32_frac_def f32_one_def

lemma frontBucket_one: "frontBucket f32_one = 63"
  by (subst frontBucket_cases) (simp_all add: f32_eval)

lemma f32_val_quarter: "f32_val 0x3E800000 = 1 / 4"
  by (simp add: f32_eval)

lemma frontBucket_quarter: "frontBucket 0x3E800000 = 55"
proof -
  have "log_level 64 ((1 / 4) ^ 4) = 8" by (simp add: log_level_numeral power4_eq_xxxx)
  moreover have "\<not> f32_isnan 0x3E800000" "\<not> f32_isinf 0x3E800000" by (simp_all add: f32_eval)
  ultimately show ?thesis by (simp add: frontBucket_cases f32_val_quarter)
qed

lemma rebucket_found:
  "fst (ring_rebucket x p q r) \<longleftrightarrow>
     frontBucket p \<noteq> frontBucket q \<and> x \<in> set (buckets r ! frontBucket p)"
  using index_of_None [of x "buckets r ! frontBucket p"]
  by (auto simp: ring_rebucket_def Let_def split: option.splits)

lemma ring_pop_single: "\<exists>r. ring_pop (ring_push x p newRing) = Some (x, r)"
proof -
  have wf: "ring_wf (ring_push x p newRing)" by (intro wf_intros)
  have e: "ring_elems (ring_push x p newRing) = {# x #}"
    by (simp add: ring_elems_push ring_wf_new ring_elems_new)
  show ?thesis
    using wf e ring_elems_pop [OF wf] ring_elems_pop_None [OF wf]
    by (cases "ring_pop (ring_push x p newRing)") auto
qed

section \<open>Properties\<close>

text \<open>C29: The front bank is a stable priority queue.  Pushing any sequence of items into an
  empty ring and popping as many gives them back ordered by bucket, highest first, and within
  a bucket in the order they were pushed.\<close>

theorem front_bank_drains_in_stable_priority_order:
  "ring.drain (length es) (ring.push_all es newRing)
     = map snd (sort_key (\<lambda>e. - int (fst e)) (map (\<lambda>(x, p). (frontBucket p, x)) es))"
  by (rule ring.drain_push_all) (simp_all add: ring_wf_new ring_items_new)

text \<open>The bucket of a finite priority strictly between 0 and 1 is the source's
  logarithmic formula, 63 minus \<open>\<lfloor>- log\<^sub>2 p * 4\<rfloor>\<close> capped at 63.\<close>

theorem frontBucket_is_logarithmic:
  assumes "\<not> f32_isnan p" "\<not> f32_isinf p" "0 < f32_val p" "f32_val p < 1"
  shows "int (frontBucket p) = 63 - min 63 \<lfloor>- log 2 (real_of_rat (f32_val p)) * 4\<rfloor>"
proof -
  let ?l = "log_level 64 (f32_val p ^ 4)" and ?z = "\<lfloor>- log 2 (real_of_rat (f32_val p)) * 4\<rfloor>"
  have "frontBucket p = 63 - min 63 ?l" using assms by (simp add: frontBucket_cases)
  moreover have "int ?l = min 64 ?z" using log_level_floor [OF assms(3,4), of 64] by simp
  ultimately show ?thesis by linarith
qed

theorem frontBucket_is_logarithmic_witness:
  "int (frontBucket 0x3E800000) = 63 - min 63 \<lfloor>- log 2 (real_of_rat (f32_val 0x3E800000)) * 4\<rfloor>"
  by (rule frontBucket_is_logarithmic)
     (simp_all add: f32_eval)

text \<open>A higher priority never lands in a lower bucket.\<close>

theorem frontBucket_mono:
  assumes "\<not> f32_isnan p" "\<not> f32_isnan q" "\<not> f32_isinf p" "\<not> f32_isinf q"
    and "f32_val p \<le> f32_val q"
  shows "frontBucket p \<le> frontBucket q"
proof -
  have "log_level 64 (f32_val q ^ 4) \<le> log_level 64 (f32_val p ^ 4)" if "0 < f32_val p"
    using that assms(5) by (intro log_level_antimono power_mono) auto
  with assms show ?thesis by (auto simp: frontBucket_cases min_def)
qed

theorem frontBucket_mono_witness: "frontBucket 0x3E800000 \<le> frontBucket 0x3F000000"
  by (rule frontBucket_mono)
     (simp_all add: f32_eval)

text \<open>Re-bucketing moves an item exactly when its level changes and it waits in the bucket
  of its old priority; it never loses or duplicates an item and keeps the occupancy bitmap and
  the count in step with the buckets.\<close>

theorem rebucket_conserves:
  assumes "ring_wf r"
  shows "ring_wf (snd (ring_rebucket x p q r)) \<and> ring_elems (snd (ring_rebucket x p q r)) = ring_elems r
     \<and> (fst (ring_rebucket x p q r) \<longleftrightarrow>
          frontBucket p \<noteq> frontBucket q \<and> x \<in> set (buckets r ! frontBucket p))"
  using ring_rebucket_elems [OF assms, of x p q] rebucket_found [of x p q r] by blast

theorem rebucket_conserves_witness:
  "ring_wf (newRing :: u64 prioRing)
   \<and> ring_elems (snd (ring_rebucket (7 :: u64) 0 f32_one newRing)) = ring_elems newRing"
  using rebucket_conserves [OF ring_wf_new, of "7 :: u64" 0 f32_one] ring_wf_new by blast

text \<open>C30: No dispatch thread idles while any shard holds a ready host, and a pop takes exactly
  one host out of the bank, whichever shard it is served from.\<close>

theorem ready_bank_work_conserving:
  assumes "bank_wf b"
  shows "(bank_popShard s b = None \<longleftrightarrow> bank_elems b = {#})
     \<and> (\<forall>hk b'. bank_popShard s b = Some (hk, b') \<longrightarrow>
          bank_wf b' \<and> bank_elems b = add_mset hk (bank_elems b'))"
  using bank.pool_None [OF assms] bank.pool_Some [OF assms] by blast

theorem ready_bank_work_conserving_witness:
  "bank_popShard 1 (bank_push 4 f32_one (newReadyBank 2)) \<noteq> None"
  using ready_bank_work_conserving [OF bank_wf_push [OF bank_wf_new], of 1 4 f32_one 2]
  by (simp add: bank_elems_push bank_wf_new)

text \<open>A thread whose own shard has drained steals the head of the lowest-numbered shard
  whose head sits in the highest bucket of the whole bank.\<close>

theorem steal_takes_best_head:
  assumes "bank_wf b" "0 \<le> s" "s < int (length b)" "ring_elems (b ! nat s) = {#}"
    and "bank_popShard s b = Some (hk, b')"
  shows "\<exists>j < length b. ring_peek (b ! j) = Some hk
     \<and> (\<forall>r \<in> set b. ring_highest r \<le> ring_highest (b ! j))
     \<and> (\<forall>k < j. ring_highest (b ! k) < ring_highest (b ! j))"
proof -
  have "ring_pop (b ! nat s) = None"
    using assms(1-4) by (auto simp: bank_wf_def ring_elems_pop_None nat_less_iff)
  then have eq: "bank_popShard s b = (let best = best_shard 0 (-1) (-1) b in
                 if best < 0 then None else pop_at (nat best) b)"
    by (auto simp: bank_popShard_def pop_at_def Let_def)
  from assms(1) show ?thesis
  proof (cases rule: steal_cases)
    case 1
    with eq assms(5) show ?thesis by simp
  next
    case (2 j)
    then have "pop_at j b = Some (hk, b')" using eq assms(5) by simp
    then have "ring_peek (b ! j) = Some hk"
      by (auto simp: ring_peek_pop pop_at_def split: option.splits)
    with 2 show ?thesis by blast
  qed
qed

theorem steal_takes_best_head_witness:
  "\<exists>hk b'. bank_popShard 0 [newRing, ring_push 1 f32_one newRing] = Some (hk, b')
     \<and> (\<exists>j < 2. ring_peek ([newRing, ring_push 1 f32_one newRing] ! j) = Some hk)"
proof -
  let ?b = "[newRing, ring_push (1 :: u64) f32_one newRing]"
  have wf: "bank_wf ?b" by (auto simp: bank_wf_def intro!: wf_intros)
  have "bank_elems ?b \<noteq> {#}"
    by (simp add: bank_elems_def ring_elems_push ring_wf_new ring_elems_new)
  then obtain hk b' where pop: "bank_popShard 0 ?b = Some (hk, b')"
    using bank_popShard_None [OF wf] by fastforce
  with steal_takes_best_head [OF wf _ _ _ pop] show ?thesis
    by (auto simp: ring_elems_new numeral_2_eq_2)
qed

text \<open>Draining the bank as thread 0 is not in global priority order once there are two
  shards: thread 0 serves a low-priority host of its own shard before a top-priority host that
  lives in the other.\<close>

theorem bank_pop_not_globally_best:
  "map_option fst (bank_pop (bank_push 1 f32_one (bank_push 2 0x3E800000 (newReadyBank 2)))) = Some 2
   \<and> frontBucket 0x3E800000 < frontBucket f32_one"
proof -
  obtain r where "ring_pop (ring_push 2 0x3E800000 newRing) = Some (2 :: u64, r)"
    using ring_pop_single [of "2 :: u64" "0x3E800000"] by blast
  moreover have "newReadyBank 2 = [newRing, newRing]"
    by (simp add: newReadyBank_def eval_nat_numeral)
  moreover have "bank_push 2 p [a, b] = [ring_push 2 p a, b]"
    and "bank_push 1 p [a, b] = [a, ring_push 1 p b]" for p a b
    by (simp_all add: bank_push_def bank_home_def Let_def flip: numeral_2_eq_2)
  ultimately show ?thesis
    by (simp add: bank_pop_def bank_popShard_def pop_at_def frontBucket_one frontBucket_quarter)
qed

end
