(* ===== verification/Heap.thy ===== *)
theory Heap
  imports Ring
begin

text \<open>
  The two binary min-heaps of the frontier: the wait heap of parked hosts
  (\<^verbatim>\<open>frontier/heap.go\<close>) and the overflow heap of the timing wheel
  (\<^verbatim>\<open>frontier/wheel.go\<close>).  Both are arrays with hand-written sift loops; the loops are
  modelled over a comparison, and the locale \<open>heap_order\<close> proves once, from the two laws the
  comparison has to satisfy, that they keep the heap shape and hand out a least element.
\<close>

section \<open>Sift loops\<close>

abbreviation swap :: "'a list \<Rightarrow> nat \<Rightarrow> nat \<Rightarrow> 'a list" where
  "swap xs i j \<equiv> xs[i := xs ! j, j := xs ! i]"

function heap_up :: "('a \<Rightarrow> 'a \<Rightarrow> bool) \<Rightarrow> 'a list \<Rightarrow> nat \<Rightarrow> 'a list" where
  "heap_up lt xs i =
     (if i > 0 then
        (let parent = (i - 1) div 2 in
         if \<not> lt (xs ! i) (xs ! parent) then xs
         else heap_up lt (swap xs i parent) parent)
      else xs)"
  by pat_completeness auto
termination
  by (relation "measure (\<lambda>(lt, xs, i). i)") auto

function heap_down :: "('a \<Rightarrow> 'a \<Rightarrow> bool) \<Rightarrow> 'a list \<Rightarrow> nat \<Rightarrow> 'a list" where
  "heap_down lt xs i =
     (let left = 2 * i + 1 in
      if left \<ge> length xs then xs
      else (let right = left + 1;
                small = (if right < length xs \<and> lt (xs ! right) (xs ! left) then right else left)
            in if \<not> lt (xs ! small) (xs ! i) then xs
               else heap_down lt (swap xs i small) small))"
  by pat_completeness auto
termination
  by (relation "measure (\<lambda>(lt, xs, i). length xs - i)") (auto simp: Let_def)

function over_down :: "('a \<Rightarrow> 'a \<Rightarrow> bool) \<Rightarrow> 'a list \<Rightarrow> nat \<Rightarrow> 'a list" where
  "over_down lt xs i =
     (let l = 2 * i + 1; r = 2 * i + 2; small = i;
          small = (if l < length xs \<and> lt (xs ! l) (xs ! small) then l else small);
          small = (if r < length xs \<and> lt (xs ! r) (xs ! small) then r else small)
      in if small = i then xs else over_down lt (swap xs small i) small)"
  by pat_completeness auto
termination
  by (relation "measure (\<lambda>(lt, xs, i). length xs - i)") (auto simp: Let_def split: if_splits)

declare heap_up.simps [simp del] heap_down.simps [simp del] over_down.simps [simp del]

section \<open>The wait heap (heap.go)\<close>

record waitItem =
  w_hostKey :: u64
  w_eligible :: u32

definition wait_less :: "waitItem \<Rightarrow> waitItem \<Rightarrow> bool" where
  "wait_less a b =
     (if w_eligible a \<noteq> w_eligible b then w_eligible a < w_eligible b
      else w_hostKey a < w_hostKey b)"

type_synonym waitHeap = "waitItem list"

definition wait_push :: "u64 \<Rightarrow> u32 \<Rightarrow> waitHeap \<Rightarrow> waitHeap" where
  "wait_push hostKey eligible items =
     (let items = items @ [\<lparr>w_hostKey = hostKey, w_eligible = eligible\<rparr>]
      in heap_up wait_less items (length items - 1))"

definition wait_peekMin :: "waitHeap \<Rightarrow> waitItem option" where
  "wait_peekMin items = (if items = [] then None else Some (items ! 0))"

definition wait_popMin :: "waitHeap \<Rightarrow> (waitItem \<times> waitHeap) option" where
  "wait_popMin items =
     (if items = [] then None
      else (let root = items ! 0; last = length items - 1;
                items = take last (items[0 := items ! last]);
                items = (if length items > 0 then heap_down wait_less items 0 else items)
            in Some (root, items)))"

section \<open>The overflow heap (wheel.go)\<close>

record overItem =
  ov_due :: u32
  ov_key :: URLKey

definition over_less :: "overItem \<Rightarrow> overItem \<Rightarrow> bool" where
  "over_less a b \<longleftrightarrow> ov_due a < ov_due b"

type_synonym overHeap = "overItem list"

definition over_peek :: "overHeap \<Rightarrow> overItem option" where
  "over_peek a = (if a = [] then None else Some (a ! 0))"

definition over_push :: "overItem \<Rightarrow> overHeap \<Rightarrow> overHeap" where
  "over_push it a = (let a = a @ [it] in heap_up over_less a (length a - 1))"

definition over_pop :: "overHeap \<Rightarrow> (overItem \<times> overHeap) option" where
  "over_pop a =
     (let n = length a in
      if n = 0 then None
      else Some (a ! 0, over_down over_less (take (n - 1) (a[0 := a ! (n - 1)])) 0))"

section \<open>The heap shape\<close>

abbreviation parent :: "nat \<Rightarrow> nat" where
  "parent i \<equiv> (i - 1) div 2"

definition heap_inv :: "('a \<Rightarrow> 'a \<Rightarrow> bool) \<Rightarrow> 'a list \<Rightarrow> bool" where
  "heap_inv lt xs \<longleftrightarrow> (\<forall>i. 0 < i \<and> i < length xs \<longrightarrow> \<not> lt (xs ! i) (xs ! parent i))"

text \<open>The heap but for the edge above \<open>i\<close>, and but for the edges below \<open>i\<close>.\<close>

definition heap_but_up :: "('a \<Rightarrow> 'a \<Rightarrow> bool) \<Rightarrow> 'a list \<Rightarrow> nat \<Rightarrow> bool" where
  "heap_but_up lt xs i \<longleftrightarrow>
     (\<forall>j. 0 < j \<and> j < length xs \<and> j \<noteq> i \<longrightarrow> \<not> lt (xs ! j) (xs ! parent j))
   \<and> (\<forall>j. 0 < j \<and> j < length xs \<and> parent j = i \<and> 0 < i \<longrightarrow> \<not> lt (xs ! j) (xs ! parent i))"

definition heap_but_down :: "('a \<Rightarrow> 'a \<Rightarrow> bool) \<Rightarrow> 'a list \<Rightarrow> nat \<Rightarrow> bool" where
  "heap_but_down lt xs i \<longleftrightarrow>
     (\<forall>j. 0 < j \<and> j < length xs \<and> parent j \<noteq> i \<longrightarrow> \<not> lt (xs ! j) (xs ! parent j))
   \<and> (\<forall>j. 0 < j \<and> j < length xs \<and> parent j = i \<and> 0 < i \<longrightarrow> \<not> lt (xs ! j) (xs ! parent i))"

lemma parent_cases: "0 < j \<Longrightarrow> parent j = i \<longleftrightarrow> j = 2 * i + 1 \<or> j = 2 * i + 2"
  by arith

lemma mset_heap_up: "i < length xs \<Longrightarrow> mset (heap_up lt xs i) = mset xs"
proof (induction lt xs i rule: heap_up.induct)
  case (1 lt xs i)
  then show ?case
    by (subst heap_up.simps) (auto simp: Let_def mset_list_update_swap)
qed

lemma mset_heap_down: "i < length xs \<Longrightarrow> mset (heap_down lt xs i) = mset xs"
proof (induction lt xs i rule: heap_down.induct)
  case (1 lt xs i)
  then show ?case
    by (subst heap_down.simps) (auto simp: Let_def mset_list_update_swap)
qed

lemma mset_over_down: "i < length xs \<Longrightarrow> mset (over_down lt xs i) = mset xs"
proof (induction lt xs i rule: over_down.induct)
  case (1 lt xs i)
  then show ?case
    by (subst over_down.simps) (auto simp: Let_def mset_list_update_swap)
qed

locale heap_order =
  fixes lt :: "'a \<Rightarrow> 'a \<Rightarrow> bool"
  assumes less_asym: "lt a b \<Longrightarrow> \<not> lt b a"
    and not_less_trans: "\<not> lt b a \<Longrightarrow> \<not> lt c b \<Longrightarrow> \<not> lt c a"
begin

lemma less_irrefl: "\<not> lt a a"
  using less_asym by blast

lemma not_less_of_less: "lt a b \<Longrightarrow> \<not> lt c b \<Longrightarrow> \<not> lt c a"
  using less_asym not_less_trans by blast

lemma heap_inv_root: "heap_inv lt xs \<Longrightarrow> i < length xs \<Longrightarrow> \<not> lt (xs ! i) (xs ! 0)"
proof (induction i rule: less_induct)
  case (less i)
  show ?case
  proof (cases "i = 0")
    case False
    then have "\<not> lt (xs ! parent i) (xs ! 0)" using less by simp
    moreover have "\<not> lt (xs ! i) (xs ! parent i)"
      using less.prems False by (simp add: heap_inv_def)
    ultimately show ?thesis by (rule not_less_trans)
  qed (simp add: less_irrefl)
qed

lemma heap_but_up_done:
  assumes "heap_but_up lt xs i" "i > 0 \<Longrightarrow> \<not> lt (xs ! i) (xs ! parent i)"
  shows "heap_inv lt xs"
  using assms unfolding heap_but_up_def heap_inv_def by metis

lemma heap_but_up_step:
  assumes "heap_but_up lt xs i" "0 < i" "i < length xs" "lt (xs ! i) (xs ! parent i)"
  shows "heap_but_up lt (swap xs i (parent i)) (parent i)"
proof -
  let ?p = "parent i"
  have p: "?p < i" "?p < length xs" using assms(2,3) by auto
  have edge: "\<not> lt (xs ! j) (xs ! parent j)" if "0 < j" "j < length xs" "j \<noteq> i" for j
    using assms(1) that by (simp add: heap_but_up_def)
  have child: "\<not> lt (xs ! j) (xs ! ?p)" if "0 < j" "j < length xs" "parent j = i" for j
    using assms(1,2) that by (simp add: heap_but_up_def)
  have sib: "\<not> lt (xs ! j) (xs ! i)" if "0 < j" "j < length xs" "j \<noteq> i" "parent j = ?p" for j
    using edge [OF that(1-3)] that(4) assms(4) not_less_of_less by metis
  show ?thesis
    unfolding heap_but_up_def
  proof (intro conjI allI impI; elim conjE)
    fix j assume j: "0 < j" "j < length (swap xs i ?p)" "j \<noteq> ?p"
    consider "j = i" | "j \<noteq> i" "parent j = i" | "j \<noteq> i" "parent j = ?p" | "j \<noteq> i" "parent j \<noteq> i" "parent j \<noteq> ?p"
      by blast
    then show "\<not> lt (swap xs i ?p ! j) (swap xs i ?p ! parent j)"
    proof cases
      case 1
      with p assms(3,4) show ?thesis by (simp add: less_asym)
    next
      case 2
      with j p assms(3) child [of j] show ?thesis by (simp add: nth_list_update)
    next
      case 3
      with j p assms(3) sib [of j] show ?thesis by (simp add: nth_list_update)
    next
      case 4
      with j p assms(3) edge [of j] show ?thesis by (simp add: nth_list_update)
    qed
  next
    fix j assume j: "0 < j" "j < length (swap xs i ?p)" "parent j = ?p" "0 < ?p"
    have up: "\<not> lt (xs ! ?p) (xs ! parent ?p)" using edge [of ?p] p j(4) by simp
    have pp: "parent ?p \<noteq> i" "parent ?p \<noteq> ?p" using p j(4) by arith+
    show "\<not> lt (swap xs i ?p ! j) (swap xs i ?p ! parent ?p)"
    proof (cases "j = i")
      case True
      with up pp p assms(3) show ?thesis by (simp add: nth_list_update)
    next
      case False
      have "j \<noteq> ?p" using j(1,3,4) by auto
      moreover have "\<not> lt (xs ! j) (xs ! parent ?p)"
        using edge [of j] j False up not_less_trans by (metis length_list_update)
      ultimately show ?thesis using False pp p assms(3) j by (simp add: nth_list_update)
    qed
  qed
qed

lemma heap_up_inv:
  "heap_but_up lt xs i \<Longrightarrow> i < length xs \<Longrightarrow> heap_inv lt (heap_up lt xs i)"
proof (induction i arbitrary: xs rule: less_induct)
  case (less i)
  show ?case
  proof (cases "i > 0 \<and> lt (xs ! i) (xs ! parent i)")
    case True
    then have "heap_inv lt (heap_up lt (swap xs i (parent i)) (parent i))"
      using less.prems by (intro less.IH heap_but_up_step) auto
    with True show ?thesis by (subst heap_up.simps) (simp add: Let_def)
  next
    case False
    then have "heap_inv lt xs" using less.prems by (intro heap_but_up_done) auto
    with False show ?thesis by (subst heap_up.simps) (auto simp: Let_def)
  qed
qed

lemma heap_inv_append:
  assumes "heap_inv lt xs"
  shows "heap_but_up lt (xs @ [x]) (length xs)"
proof -
  have "parent j < length xs" if "0 < j" "j < length (xs @ [x])" for j
    using that by simp
  with assms show ?thesis
    unfolding heap_inv_def heap_but_up_def
    by (metis length_append_singleton less_SucE less_irrefl_nat nth_append)
qed

lemma heap_but_down_done:
  assumes "heap_but_down lt xs i"
    and "\<And>c. 0 < c \<Longrightarrow> c < length xs \<Longrightarrow> parent c = i \<Longrightarrow> \<not> lt (xs ! c) (xs ! i)"
  shows "heap_inv lt xs"
  using assms unfolding heap_but_down_def heap_inv_def by metis

lemma heap_but_down_step:
  assumes hb: "heap_but_down lt xs i" and s: "parent s = i" "0 < s" "s < length xs"
    and lt: "lt (xs ! s) (xs ! i)"
    and best: "\<And>c. 0 < c \<Longrightarrow> c < length xs \<Longrightarrow> parent c = i \<Longrightarrow> \<not> lt (xs ! c) (xs ! s)"
  shows "heap_but_down lt (swap xs i s) s"
proof -
  have i: "i < s" "i < length xs" using s by auto
  have edge: "\<not> lt (xs ! j) (xs ! parent j)" if "0 < j" "j < length xs" "parent j \<noteq> i" for j
    using hb that by (simp add: heap_but_down_def)
  have up: "\<not> lt (xs ! s) (xs ! parent i)" if "0 < i"
    using hb that s by (simp add: heap_but_down_def)
  show ?thesis
    unfolding heap_but_down_def
  proof (intro conjI allI impI; elim conjE)
    fix j assume j: "0 < j" "j < length (swap xs i s)" "parent j \<noteq> s"
    consider "j = s" | "j \<noteq> s" "parent j = i" | "j = i" | "j \<noteq> s" "parent j \<noteq> i" "j \<noteq> i"
      by blast
    then show "\<not> lt (swap xs i s ! j) (swap xs i s ! parent j)"
    proof cases
      case 1
      with i s lt show ?thesis by (simp add: nth_list_update less_asym)
    next
      case 2
      moreover from 2 j(1) have "j \<noteq> i" by arith
      ultimately show ?thesis using j i s best [of j] by (simp add: nth_list_update)
    next
      case 3
      moreover from 3 j(1) have "parent i \<noteq> i" by arith
      ultimately show ?thesis using j i s up by (simp add: nth_list_update)
    next
      case 4
      with j i s edge [of j] show ?thesis by (simp add: nth_list_update)
    qed
  next
    fix j assume j: "0 < j" "j < length (swap xs i s)" "parent j = s" "0 < s"
    have "j \<noteq> s" "j \<noteq> i" "s \<noteq> i" using j i by arith+
    with j i s edge [of j] show "\<not> lt (swap xs i s ! j) (swap xs i s ! parent s)"
      by (simp add: nth_list_update)
  qed
qed

text \<open>Both down loops descend to a least child; they differ only in how they pick it.\<close>

lemma heap_down_inv:
  "heap_but_down lt xs i \<Longrightarrow> heap_inv lt (heap_down lt xs i)"
proof (induction "length xs - i" arbitrary: xs i rule: less_induct)
  case less
  let ?l = "2 * i + 1" and ?r = "2 * i + 1 + 1"
  let ?s = "if ?r < length xs \<and> lt (xs ! ?r) (xs ! ?l) then ?r else ?l"
  have best: "\<not> lt (xs ! c) (xs ! ?s)" if "0 < c" "c < length xs" "parent c = i" for c
  proof -
    from that have "c = ?l \<or> c = ?r" by arith
    with that(2) show ?thesis by (auto simp: less_irrefl less_asym)
  qed
  show ?case
  proof (cases "?l < length xs \<and> lt (xs ! ?s) (xs ! i)")
    case True
    have s: "?s < length xs" "i < ?s" "0 < ?s" "parent ?s = i" using True by auto
    then have "heap_inv lt (heap_down lt (swap xs i ?s) ?s)"
      using less.prems best True by (intro less.hyps heap_but_down_step) auto
    moreover have "heap_down lt xs i = heap_down lt (swap xs i ?s) ?s"
      using True by (subst heap_down.simps) (simp only: Let_def not_le [symmetric] if_False not_True_eq_False simp_thms)
    ultimately show ?thesis by simp
  next
    case False
    then have "heap_down lt xs i = xs"
      by (subst heap_down.simps) (auto simp: Let_def)
    moreover have "\<not> lt (xs ! c) (xs ! i)" if "0 < c" "c < length xs" "parent c = i" for c
    proof -
      have "?l < length xs" using that by (auto simp: parent_cases)
      then have "\<not> lt (xs ! ?s) (xs ! i)" using False by blast
      then show ?thesis using best [OF that] not_less_trans by blast
    qed
    ultimately show ?thesis using heap_but_down_done [OF less.prems] by simp
  qed
qed

lemma over_down_inv:
  "heap_but_down lt xs i \<Longrightarrow> i < length xs \<Longrightarrow> heap_inv lt (over_down lt xs i)"
proof (induction "length xs - i" arbitrary: xs i rule: less_induct)
  case less
  let ?l = "2 * i + 1" and ?r = "2 * i + 2"
  let ?m = "if ?l < length xs \<and> lt (xs ! ?l) (xs ! i) then ?l else i"
  let ?s = "if ?r < length xs \<and> lt (xs ! ?r) (xs ! ?m) then ?r else ?m"
  have eq: "over_down lt xs i = (if ?s = i then xs else over_down lt (swap xs ?s i) ?s)"
    by (subst over_down.simps) (simp only: Let_def)
  have best: "\<not> lt (xs ! c) (xs ! ?s)" if "0 < c" "c < length xs" "parent c = i" for c
  proof -
    from that have c: "c = ?l \<or> c = ?r" by arith
    have "\<not> lt (xs ! ?m) (xs ! ?s)"
    proof (cases "?r < length xs \<and> lt (xs ! ?r) (xs ! ?m)")
      case True
      then have "\<not> lt (xs ! ?m) (xs ! ?r)" using less_asym by blast
      moreover from True have "?s = ?r" by (rule if_P)
      ultimately show ?thesis by (simp only: not_False_eq_True)
    next
      case False
      then have "?s = ?m" by (rule if_not_P)
      then show ?thesis using less_irrefl by simp
    qed
    moreover have "?l < length xs \<Longrightarrow> \<not> lt (xs ! ?l) (xs ! ?m)" by (simp add: less_irrefl)
    moreover have "?r < length xs \<Longrightarrow> \<not> lt (xs ! ?r) (xs ! ?s)" by (simp add: less_irrefl)
    ultimately show ?thesis using c that(2) not_less_trans by blast
  qed
  show ?case
  proof (cases "?s = i")
    case True
    with eq best heap_but_down_done [OF less.prems(1)] show ?thesis by auto
  next
    case False
    have s: "?s < length xs" "i < ?s" "0 < ?s" "parent ?s = i"
      using False less.prems(2) by (auto split: if_splits)
    have lt: "lt (xs ! ?s) (xs ! i)"
    proof -
      have "\<not> lt (xs ! i) (xs ! ?m)" by (simp add: less_irrefl less_asym)
      then show ?thesis using False not_less_trans [of "xs ! i" "xs ! ?m" "xs ! ?r"] by (auto split: if_splits)
    qed
    have "heap_inv lt (over_down lt (swap xs i ?s) ?s)"
      using less.prems best s lt by (intro less.hyps heap_but_down_step) auto
    moreover have "swap xs ?s i = swap xs i ?s" using s by (simp add: list_update_swap)
    ultimately show ?thesis using eq False by simp
  qed
qed

lemma heap_inv_replace_root:
  assumes "heap_inv lt xs" "n \<le> length xs"
  shows "heap_but_down lt (take n (xs[0 := v])) 0"
  using assms by (auto simp: heap_inv_def heap_but_down_def nth_list_update)

lemma heap_inv_take_root:
  assumes "heap_inv lt xs" "xs \<noteq> []"
  shows "mset xs = add_mset (xs ! 0) (mset (take (length xs - 1) (xs[0 := xs ! (length xs - 1)])))"
proof -
  have "swap xs 0 (length xs - 1) = take (length xs - 1) (xs[0 := xs ! (length xs - 1)]) @ [xs ! 0]"
    using assms(2) by (intro nth_equalityI) (auto simp: nth_append nth_list_update)
  then have "mset (swap xs 0 (length xs - 1))
      = add_mset (xs ! 0) (mset (take (length xs - 1) (xs[0 := xs ! (length xs - 1)])))"
    by simp
  moreover have "mset (swap xs 0 (length xs - 1)) = mset xs"
    using assms(2) by (intro mset_list_update_swap) auto
  ultimately show ?thesis by simp
qed

end

section \<open>Both heaps are least-first pools\<close>

locale min_pool = pool pop elems wf
  for pop :: "'q \<Rightarrow> ('a \<times> 'q) option" and elems :: "'q \<Rightarrow> 'a multiset" and wf :: "'q \<Rightarrow> bool" +
  fixes lt :: "'a \<Rightarrow> 'a \<Rightarrow> bool"
    and peek :: "'q \<Rightarrow> 'a option"
    and add :: "'a \<Rightarrow> 'q \<Rightarrow> 'q"
  assumes add_wf: "wf q \<Longrightarrow> wf (add x q)"
    and add_elems: "wf q \<Longrightarrow> elems (add x q) = add_mset x (elems q)"
    and peek_pop: "peek q = map_option fst (pop q)"
    and pop_least: "wf q \<Longrightarrow> pop q = Some (x, q') \<Longrightarrow> y \<in># elems q \<Longrightarrow> \<not> lt y x"
begin

primrec empty_out :: "nat \<Rightarrow> 'q \<Rightarrow> 'a list" where
  "empty_out 0 q = []"
| "empty_out (Suc n) q = (case pop q of None \<Rightarrow> [] | Some (x, q') \<Rightarrow> x # empty_out n q')"

lemma empty_out_mset: "wf q \<Longrightarrow> size (elems q) \<le> n \<Longrightarrow> mset (empty_out n q) = elems q"
proof (induction n arbitrary: q)
  case (Suc n)
  from Suc.prems(1) show ?case
    by (cases rule: pool_exhaust) (use Suc in auto)
qed simp

lemma empty_out_sorted:
  "wf q \<Longrightarrow> size (elems q) \<le> n \<Longrightarrow> sorted_wrt (\<lambda>a b. \<not> lt b a) (empty_out n q)"
proof (induction n arbitrary: q)
  case (Suc n)
  from Suc.prems(1) show ?case
  proof (cases rule: pool_exhaust)
    case (2 x q')
    then have "set (empty_out n q') = set_mset (elems q')"
      using Suc.prems(2) empty_out_mset [of q' n] by (metis Suc_le_mono size_add_mset set_mset_mset)
    then have "\<forall>y \<in> set (empty_out n q'). \<not> lt y x"
      using pop_least [OF Suc.prems(1) 2(1)] 2(3) by simp
    with 2 Suc show ?thesis by simp
  qed simp
qed simp

lemma fold_add:
  "wf q \<Longrightarrow> wf (fold add xs q) \<and> elems (fold add xs q) = mset xs + elems q"
  by (induction xs arbitrary: q) (auto simp: add_wf add_elems)

end

interpretation wait_order: heap_order wait_less
  by unfold_locales (auto simp: wait_less_def split: if_splits)

interpretation over_order: heap_order over_less
  by unfold_locales (auto simp: over_less_def)

lemma heap_inv_Nil [simp]: "heap_inv lt []"
  by (simp add: heap_inv_def)

lemma wait_push_wf [wf_intros]: "heap_inv wait_less q \<Longrightarrow> heap_inv wait_less (wait_push hk e q)"
  unfolding wait_push_def Let_def
  by (intro wait_order.heap_up_inv) (simp_all add: wait_order.heap_inv_append)

lemma wait_push_mset [abs_simps]:
  "mset (wait_push hk e q) = add_mset \<lparr>w_hostKey = hk, w_eligible = e\<rparr> (mset q)"
  by (simp add: wait_push_def Let_def mset_heap_up)

lemma wait_popMin_Some:
  assumes "heap_inv wait_less q" "wait_popMin q = Some (x, q')"
  shows "heap_inv wait_less q' \<and> mset q = add_mset x (mset q') \<and> x = q ! 0"
proof -
  let ?t = "take (length q - 1) (q[0 := q ! (length q - 1)])"
  have q: "q \<noteq> []" "x = q ! 0" "q' = (if length ?t > 0 then heap_down wait_less ?t 0 else ?t)"
    using assms(2) by (auto simp: wait_popMin_def Let_def split: if_splits)
  have "heap_inv wait_less (heap_down wait_less ?t 0)"
    using assms(1) by (intro wait_order.heap_down_inv wait_order.heap_inv_replace_root) auto
  moreover have "length ?t > 0 \<Longrightarrow> mset (heap_down wait_less ?t 0) = mset ?t"
    by (rule mset_heap_down)
  ultimately show ?thesis
    using wait_order.heap_inv_take_root [OF assms(1) q(1)] q by auto
qed

lemma over_push_wf [wf_intros]: "heap_inv over_less q \<Longrightarrow> heap_inv over_less (over_push it q)"
  unfolding over_push_def Let_def
  by (intro over_order.heap_up_inv) (simp_all add: over_order.heap_inv_append)

lemma over_push_mset [abs_simps]: "mset (over_push it q) = add_mset it (mset q)"
  by (simp add: over_push_def Let_def mset_heap_up)

lemma over_down_Nil: "over_down lt [] 0 = []"
  by (subst over_down.simps) simp

lemma over_pop_Some:
  assumes "heap_inv over_less q" "over_pop q = Some (x, q')"
  shows "heap_inv over_less q' \<and> mset q = add_mset x (mset q') \<and> x = q ! 0"
proof -
  let ?t = "take (length q - 1) (q[0 := q ! (length q - 1)])"
  have q: "q \<noteq> []" "x = q ! 0" "q' = over_down over_less ?t 0"
    using assms(2) by (auto simp: over_pop_def Let_def split: if_splits)
  have "heap_inv over_less q' \<and> mset q' = mset ?t"
  proof (cases "?t = []")
    case True
    then show ?thesis by (simp only: q(3) over_down_Nil heap_inv_Nil)
  next
    case False
    then show ?thesis
      unfolding q(3) using assms(1)
      by (intro conjI over_order.over_down_inv over_order.heap_inv_replace_root mset_over_down) auto
  qed
  then show ?thesis
    using over_order.heap_inv_take_root [OF assms(1) q(1)] q by auto
qed

interpretation wait: min_pool wait_popMin mset "heap_inv wait_less" wait_less wait_peekMin
    "\<lambda>it. wait_push (w_hostKey it) (w_eligible it)"
proof
  show "wait_popMin q = None \<longleftrightarrow> mset q = {#}" for q
    by (simp add: wait_popMin_def Let_def)
  show "wait_peekMin q = map_option fst (wait_popMin q)" for q
    by (simp add: wait_peekMin_def wait_popMin_def Let_def)
  show "\<not> wait_less y x"
    if q: "heap_inv wait_less q" and pop: "wait_popMin q = Some (x, q')" and y: "y \<in># mset q" for q x q' y
  proof -
    obtain i where "i < length q" "y = q ! i" using y by (auto simp: in_set_conv_nth)
    moreover have "x = q ! 0" using wait_popMin_Some [OF q pop] by blast
    ultimately show ?thesis using wait_order.heap_inv_root [OF q] by simp
  qed
qed (use wait_popMin_Some in \<open>auto simp: wait_push_wf wait_push_mset\<close>)

interpretation over: min_pool over_pop mset "heap_inv over_less" over_less over_peek over_push
proof
  show "over_pop q = None \<longleftrightarrow> mset q = {#}" for q
    by (simp add: over_pop_def Let_def)
  show "over_peek q = map_option fst (over_pop q)" for q
    by (simp add: over_peek_def over_pop_def Let_def)
  show "\<not> over_less y x"
    if q: "heap_inv over_less q" and pop: "over_pop q = Some (x, q')" and y: "y \<in># mset q" for q x q' y
  proof -
    obtain i where "i < length q" "y = q ! i" using y by (auto simp: in_set_conv_nth)
    moreover have "x = q ! 0" using over_pop_Some [OF q pop] by blast
    ultimately show ?thesis using over_order.heap_inv_root [OF q] by simp
  qed
qed (use over_pop_Some in \<open>auto simp: over_push_wf over_push_mset\<close>)

section \<open>Properties\<close>

text \<open>Parking any hosts in an empty wait heap and popping them all gives back exactly those
  hosts, ordered by eligible time and, on a tie, by host key, so the order in which parked hosts
  wake up is determined by the data alone.\<close>

theorem wait_heap_wakes_in_order:
  "mset (wait.empty_out (length its) (fold (\<lambda>it. wait_push (w_hostKey it) (w_eligible it)) its []))
     = mset its
   \<and> sorted_wrt (\<lambda>a b. \<not> wait_less b a)
       (wait.empty_out (length its) (fold (\<lambda>it. wait_push (w_hostKey it) (w_eligible it)) its []))"
proof -
  let ?q = "fold (\<lambda>it. wait_push (w_hostKey it) (w_eligible it)) its []"
  have "heap_inv wait_less ?q" "mset ?q = mset its" using wait.fold_add [of "[]" its] by auto
  moreover from this(2) have "size (mset ?q) \<le> length its" by simp
  ultimately show ?thesis
    using wait.empty_out_mset [of ?q "length its"] wait.empty_out_sorted [of ?q "length its"] by simp
qed

end
