(* ===== verification/Wheel.thy ===== *)
theory Wheel
  imports Heap
begin

text \<open>
  The resident schedule index (\<^verbatim>\<open>frontier/wheel.go\<close>): a hashed timing wheel of 1024 hour
  buckets in front of an overflow heap.  The wheel is specified by the multiset of pending
  (key, hour) pairs it holds, \<open>wheel_abs\<close>; every operation is shown to act on that multiset
  as the obvious abstract operation would.
\<close>

section \<open>Model\<close>

definition wheelSpan :: u32 where
  "wheelSpan = 1024"

record dueWheel =
  wh_cursor :: u32
  wh_ring :: "URLKey list list"
  wh_over :: overHeap
  wh_ringCount :: int

definition newDueWheel :: "u32 \<Rightarrow> dueWheel" where
  "newDueWheel base =
     \<lparr>wh_cursor = base, wh_ring = replicate 1024 [], wh_over = [], wh_ringCount = 0\<rparr>"

definition satSub :: "u32 \<Rightarrow> u32 \<Rightarrow> u32" where
  "satSub a b = (if a < b then 0 else a - b)"

definition ring_add :: "URLKey \<Rightarrow> u32 \<Rightarrow> dueWheel \<Rightarrow> dueWheel" where
  "ring_add key hour w =
     (let i = unat (hour mod wheelSpan) in
      w\<lparr>wh_ring := (wh_ring w)[i := wh_ring w ! i @ [key]],
        wh_ringCount := wh_ringCount w + 1\<rparr>)"

definition wheel_add :: "URLKey \<Rightarrow> u32 \<Rightarrow> dueWheel \<Rightarrow> dueWheel" where
  "wheel_add key dueHour w =
     (let dueHour = (if dueHour \<le> wh_cursor w then wh_cursor w else dueHour) in
      if dueHour - wh_cursor w < wheelSpan then ring_add key dueHour w
      else w\<lparr>wh_over := over_push \<lparr>ov_due = dueHour, ov_key = key\<rparr> (wh_over w)\<rparr>)"

lemma over_pop_length: "over_pop a = Some (it, a') \<Longrightarrow> length a' < length a"
proof -
  have len: "length (over_down lt xs i) = length xs" for lt :: "overItem \<Rightarrow> overItem \<Rightarrow> bool" and xs i
  proof (induction lt xs i rule: over_down.induct)
    case (1 lt xs i)
    then show ?case by (subst over_down.simps) (auto simp: Let_def)
  qed
  show "over_pop a = Some (it, a') \<Longrightarrow> length a' < length a"
    by (auto simp: over_pop_def Let_def len split: if_splits)
qed

function admitOverflow :: "dueWheel \<Rightarrow> dueWheel" where
  "admitOverflow w =
     (case over_pop (wh_over w) of
        None \<Rightarrow> w
      | Some (it, rest) \<Rightarrow>
          if ov_due it > wh_cursor w \<and> ov_due it - wh_cursor w \<ge> wheelSpan then w
          else admitOverflow (ring_add (ov_key it) (max (ov_due it) (wh_cursor w))
                                (w\<lparr>wh_over := rest\<rparr>)))"
  by pat_completeness auto
termination
  by (relation "measure (\<lambda>w. length (wh_over w))")
     (auto simp: ring_add_def Let_def dest: over_pop_length)

declare admitOverflow.simps [simp del]

text \<open>The advance of the cursor.  The loop runs while the cursor is at or below \<open>nowHour\<close>;
  at \<open>nowHour = 2 ^ 32 - 1\<close> the increment wraps and the loop never ends, so the model is a
  partial function and \<open>due_loop_spec\<close> proves that it returns below that.\<close>

partial_function (option) due_loop ::
    "u32 \<Rightarrow> URLKey list \<Rightarrow> dueWheel \<Rightarrow> (URLKey list \<times> dueWheel) option" where
  "due_loop nowHour fired w =
     (if wh_cursor w \<le> nowHour then
        (if wh_ringCount w = 0 then
           (case over_peek (wh_over w) of
              None \<Rightarrow> Some (fired, w\<lparr>wh_cursor := nowHour + 1\<rparr>)
            | Some it \<Rightarrow>
                (let edge = satSub (ov_due it) (wheelSpan - 1) in
                 if edge > nowHour then Some (fired, w\<lparr>wh_cursor := nowHour + 1\<rparr>)
                 else due_loop nowHour fired
                        (admitOverflow (if edge > wh_cursor w then w\<lparr>wh_cursor := edge\<rparr> else w))))
         else
           (let i = unat (wh_cursor w mod wheelSpan); b = wh_ring w ! i in
            due_loop nowHour (fired @ b)
              (admitOverflow
                 (w\<lparr>wh_ringCount := wh_ringCount w - int (length b),
                    wh_ring := (wh_ring w)[i := []],
                    wh_cursor := wh_cursor w + 1\<rparr>))))
      else Some (fired, w))"

definition wheel_due :: "u32 \<Rightarrow> dueWheel \<Rightarrow> (URLKey list \<times> dueWheel) option" where
  "wheel_due nowHour w = due_loop nowHour [] w"

text \<open>The forward scan of the ring from the cursor: \<open>n\<close> buckets left, at hour \<open>d\<close>.\<close>

fun ring_scan :: "URLKey list list \<Rightarrow> nat \<Rightarrow> u32 \<Rightarrow> u32 option" where
  "ring_scan ring 0 d = None"
| "ring_scan ring (Suc n) d =
     (if ring ! unat (d mod wheelSpan) \<noteq> [] then Some d else ring_scan ring n (d + 1))"

definition wheel_nextDue :: "dueWheel \<Rightarrow> u32 option" where
  "wheel_nextDue w =
     (case (if wh_ringCount w > 0
            then ring_scan (wh_ring w) (unat (wh_cursor w + wheelSpan) - unat (wh_cursor w)) (wh_cursor w)
            else None) of
        Some d \<Rightarrow> Some d
      | None \<Rightarrow> map_option ov_due (over_peek (wh_over w)))"

definition wheel_len :: "dueWheel \<Rightarrow> int" where
  "wheel_len w = wh_ringCount w + int (length (wh_over w))"

section \<open>Abstraction and invariant\<close>

definition ring_abs :: "nat \<Rightarrow> URLKey list list \<Rightarrow> (URLKey \<times> nat) multiset" where
  "ring_abs c ring =
     (\<Sum>h = c..<c + 1024. image_mset (\<lambda>k. (k, h)) (mset (ring ! (h mod 1024))))"

definition over_abs :: "overHeap \<Rightarrow> (URLKey \<times> nat) multiset" where
  "over_abs a = image_mset (\<lambda>it. (ov_key it, unat (ov_due it))) (mset a)"

definition wheel_abs :: "dueWheel \<Rightarrow> (URLKey \<times> nat) multiset" where
  "wheel_abs w = ring_abs (unat (wh_cursor w)) (wh_ring w) + over_abs (wh_over w)"

definition wheel_wf :: "dueWheel \<Rightarrow> bool" where
  "wheel_wf w \<longleftrightarrow> length (wh_ring w) = 1024
     \<and> wh_ringCount w = int (length (concat (wh_ring w)))
     \<and> heap_inv over_less (wh_over w)
     \<and> unat (wh_cursor w) + 1024 < 2 ^ 32
     \<and> (\<forall>it \<in> set (wh_over w). unat (wh_cursor w) + 1023 \<le> unat (ov_due it))"

lemma unat_mod_span: "unat (h mod wheelSpan) = unat h mod 1024"
  by (simp add: wheelSpan_def unat_mod)

lemma mod_window_unique:
  fixes h d c :: nat
  assumes "c \<le> h" "h < c + 1024" "c \<le> d" "d < c + 1024"
  shows "h mod 1024 = d mod 1024 \<longleftrightarrow> h = d"
proof
  assume eq: "h mod 1024 = d mod 1024"
  have "h = 1024 * (h div 1024) + h mod 1024" "d = 1024 * (d div 1024) + d mod 1024" by simp_all
  with assms eq have "h div 1024 = d div 1024" by linarith
  with eq show "h = d" by (metis div_mult_mod_eq)
qed simp

lemma ring_abs_add:
  assumes "length ring = 1024" "c \<le> d" "d < c + 1024"
  shows "ring_abs c (ring[d mod 1024 := ring ! (d mod 1024) @ [k]]) = add_mset (k, d) (ring_abs c ring)"
proof -
  let ?r = "ring[d mod 1024 := ring ! (d mod 1024) @ [k]]"
  have d: "d \<in> {c..<c + 1024}" using assms by simp
  have "image_mset (\<lambda>k. (k, h)) (mset (?r ! (h mod 1024)))
      = image_mset (\<lambda>k. (k, h)) (mset (ring ! (h mod 1024))) + (if h = d then {# (k, d) #} else {#})"
    if "h \<in> {c..<c + 1024}" for h
    using that assms mod_window_unique [of c h d] by (auto simp: nth_list_update)
  then have "ring_abs c ?r = (\<Sum>h = c..<c + 1024.
      image_mset (\<lambda>k. (k, h)) (mset (ring ! (h mod 1024))) + (if h = d then {# (k, d) #} else {#}))"
    unfolding ring_abs_def by (intro sum.cong) auto
  also have "\<dots> = ring_abs c ring + {# (k, d) #}"
    using d by (simp add: sum.distrib ring_abs_def)
  finally show ?thesis by simp
qed

lemma ring_abs_advance:
  assumes "length ring = 1024"
  shows "ring_abs c ring = image_mset (\<lambda>k. (k, c)) (mset (ring ! (c mod 1024)))
           + ring_abs (Suc c) (ring[c mod 1024 := []])"
proof -
  let ?f = "\<lambda>h r. image_mset (\<lambda>k. (k, h)) (mset ((r :: URLKey list list) ! (h mod 1024)))"
  let ?r = "ring[c mod 1024 := []]"
  have mid: "?f h ?r = ?f h ring" if "h \<in> {Suc c..<c + 1024}" for h
    using that assms mod_window_unique [of c h c] by (auto simp: nth_list_update)
  have lo: "{c..<c + 1024} = insert c {Suc c..<c + 1024}"
    and hi: "{Suc c..<Suc c + 1024} = insert (c + 1024) {Suc c..<c + 1024}" by auto
  have "ring_abs c ring = ?f c ring + (\<Sum>h = Suc c..<c + 1024. ?f h ring)"
    unfolding ring_abs_def lo by (rule sum.insert) auto
  moreover have "ring_abs (Suc c) ?r = ?f (c + 1024) ?r + (\<Sum>h = Suc c..<c + 1024. ?f h ?r)"
    unfolding ring_abs_def hi by (rule sum.insert) auto
  moreover have "?f (c + 1024) ?r = {#}" using assms by simp
  moreover have "(\<Sum>h = Suc c..<c + 1024. ?f h ?r) = (\<Sum>h = Suc c..<c + 1024. ?f h ring)"
    by (rule sum.cong [OF refl mid])
  ultimately show ?thesis by (simp only: add_0)
qed

lemma ring_abs_empty: "concat ring = [] \<Longrightarrow> length ring = 1024 \<Longrightarrow> ring_abs c ring = {#}"
  unfolding ring_abs_def by (intro sum.neutral ballI) simp

section \<open>Filing a URL\<close>

lemma ring_add_wf_abs:
  assumes "wheel_wf w" "wh_cursor w \<le> d" "unat d < unat (wh_cursor w) + 1024"
  shows "wheel_wf (ring_add k d w) \<and> wheel_abs (ring_add k d w) = add_mset (k, unat d) (wheel_abs w)"
proof -
  let ?i = "unat d mod 1024"
  have len: "length (wh_ring w) = 1024" and i: "?i < length (wh_ring w)"
    using assms(1) by (auto simp: wheel_wf_def)
  have "length (concat ((wh_ring w)[?i := wh_ring w ! ?i @ [k]])) = length (concat (wh_ring w)) + 1"
    using length_concat_update [OF i, of "wh_ring w ! ?i @ [k]"] by simp
  moreover have "unat (wh_cursor w) \<le> unat d" using assms(2) by (simp add: word_le_nat_alt)
  ultimately show ?thesis
    using assms(1,3) ring_abs_add [OF len, of "unat (wh_cursor w)" "unat d" k]
    by (simp add: wheel_wf_def wheel_abs_def ring_add_def Let_def unat_mod_span)
qed

lemma unat_diff_u32: "b \<le> a \<Longrightarrow> unat ((a :: u32) - b) = unat a - unat b"
  by (rule unat_sub)

lemma wheel_add_wf_abs:
  assumes "wheel_wf w"
  shows "wheel_wf (wheel_add k d w)"
    and "wheel_abs (wheel_add k d w) = add_mset (k, max (unat d) (unat (wh_cursor w))) (wheel_abs w)"
proof -
  let ?c = "wh_cursor w"
  define d' where "d' = (if d \<le> ?c then ?c else d)"
  have d': "?c \<le> d'" "unat d' = max (unat d) (unat ?c)"
    by (auto simp: d'_def word_le_nat_alt)
  have diff: "d' - ?c < wheelSpan \<longleftrightarrow> unat d' < unat ?c + 1024"
    using d'(1) by (auto simp: word_less_nat_alt wheelSpan_def unat_diff_u32 word_le_nat_alt)
  have "wheel_wf (wheel_add k d w) \<and> wheel_abs (wheel_add k d w) = add_mset (k, unat d') (wheel_abs w)"
  proof (cases "d' - ?c < wheelSpan")
    case True
    then have "wheel_add k d w = ring_add k d' w" by (simp add: wheel_add_def d'_def Let_def)
    then show ?thesis using ring_add_wf_abs [OF assms d'(1)] True diff by simp
  next
    case False
    then have eq: "wheel_add k d w = w\<lparr>wh_over := over_push \<lparr>ov_due = d', ov_key = k\<rparr> (wh_over w)\<rparr>"
      by (simp add: wheel_add_def d'_def Let_def)
    have m: "mset (over_push \<lparr>ov_due = d', ov_key = k\<rparr> (wh_over w))
        = add_mset \<lparr>ov_due = d', ov_key = k\<rparr> (mset (wh_over w))" by (rule over_push_mset)
    then have "set (over_push \<lparr>ov_due = d', ov_key = k\<rparr> (wh_over w))
        = insert \<lparr>ov_due = d', ov_key = k\<rparr> (set (wh_over w))"
      by (metis set_mset_add_mset_insert set_mset_mset)
    then show ?thesis
      using assms False diff m
      by (simp add: eq wheel_wf_def wheel_abs_def over_abs_def over_push_wf)
  qed
  then show "wheel_wf (wheel_add k d w)"
    and "wheel_abs (wheel_add k d w) = add_mset (k, max (unat d) (unat ?c)) (wheel_abs w)"
    by (simp_all add: d'(2))
qed

section \<open>Admitting overflow entries\<close>

lemma over_peek_pop: "over_peek a = map_option fst (over_pop a)"
  by (rule over.peek_pop)

text \<open>The wheel may be advanced to any cursor below which nothing is pending in the overflow;
  \<open>admitOverflow\<close> then restores the horizon and changes nothing abstractly.\<close>

definition wheel_loose :: "dueWheel \<Rightarrow> bool" where
  "wheel_loose w \<longleftrightarrow> length (wh_ring w) = 1024
     \<and> wh_ringCount w = int (length (concat (wh_ring w)))
     \<and> heap_inv over_less (wh_over w)
     \<and> unat (wh_cursor w) + 1024 < 2 ^ 32
     \<and> (\<forall>it \<in> set (wh_over w). unat (wh_cursor w) \<le> unat (ov_due it))"

lemma wheel_wf_loose: "wheel_wf w \<Longrightarrow> wheel_loose w"
  by (auto simp: wheel_wf_def wheel_loose_def)

lemma admit_step:
  assumes loose: "wheel_loose w" and pop: "over_pop (wh_over w) = Some (it, rest)"
    and near: "unat (ov_due it) < unat (wh_cursor w) + 1024"
  defines "w' \<equiv> ring_add (ov_key it) (max (ov_due it) (wh_cursor w)) (w\<lparr>wh_over := rest\<rparr>)"
  shows "wheel_loose w' \<and> wheel_abs w' = wheel_abs w \<and> wh_cursor w' = wh_cursor w
    \<and> wh_ringCount w' = wh_ringCount w + 1 \<and> 0 \<le> wh_ringCount w"
proof -
  have inv: "heap_inv over_less (wh_over w)" and len: "length (wh_ring w) = 1024"
    using loose by (auto simp: wheel_loose_def)
  have rest: "heap_inv over_less rest" "mset (wh_over w) = add_mset it (mset rest)"
    using over_pop_Some [OF inv pop] by auto
  then have set: "set (wh_over w) = insert it (set rest)"
    by (metis set_mset_add_mset_insert set_mset_mset)
  then have ge: "unat (wh_cursor w) \<le> unat (ov_due it)" using loose by (auto simp: wheel_loose_def)
  then have max: "max (ov_due it) (wh_cursor w) = ov_due it" by (simp add: word_le_nat_alt max_absorb1)
  let ?i = "unat (ov_due it) mod 1024"
  have i: "?i < length (wh_ring w)" by (simp add: len)
  have "length (concat ((wh_ring w)[?i := wh_ring w ! ?i @ [ov_key it]])) = length (concat (wh_ring w)) + 1"
    using length_concat_update [OF i, of "wh_ring w ! ?i @ [ov_key it]"] by simp
  then show ?thesis
    using loose rest set ring_abs_add [OF len ge near, of "ov_key it"]
    by (simp add: w'_def max wheel_loose_def wheel_abs_def over_abs_def ring_add_def Let_def unat_mod_span)
qed

lemma over_head_least:
  assumes "heap_inv over_less a" "over_pop a = Some (it, rest)" "x \<in> set a"
  shows "unat (ov_due it) \<le> unat (ov_due x)"
  using over.pop_least [OF assms(1,2), of x] assms(3)
  by (simp add: over_less_def word_less_nat_alt)

lemma admitOverflow_spec:
  assumes "wheel_loose w"
  shows "wheel_wf (admitOverflow w) \<and> wheel_abs (admitOverflow w) = wheel_abs w
     \<and> wh_cursor (admitOverflow w) = wh_cursor w
     \<and> wh_ringCount w \<le> wh_ringCount (admitOverflow w)
     \<and> (\<forall>x \<in> set (wh_over w). unat (ov_due x) < unat (wh_cursor w) + 1024
          \<longrightarrow> 0 < wh_ringCount (admitOverflow w))"
  using assms
proof (induction w rule: admitOverflow.induct)
  case (1 w)
  have inv: "heap_inv over_less (wh_over w)" using "1.prems" by (simp add: wheel_loose_def)
  show ?case
  proof (cases "over_pop (wh_over w)")
    case None
    then have "wh_over w = []" using over.pool_None [OF inv] by simp
    with None "1.prems" show ?thesis
      by (simp add: admitOverflow.simps [of w] wheel_loose_def wheel_wf_def)
  next
    case (Some p)
    obtain it rest where p: "p = (it, rest)" by fastforce
    note pop = Some [unfolded p]
    have least: "unat (ov_due it) \<le> unat (ov_due x)" if "x \<in> set (wh_over w)" for x
      using over_head_least [OF inv pop that] .
    have "it \<in># mset (wh_over w)" using over.pool_pop_elem [OF inv pop] .
    then have ge: "unat (wh_cursor w) \<le> unat (ov_due it)"
      using "1.prems" by (auto simp: wheel_loose_def)
    have far: "ov_due it > wh_cursor w \<and> ov_due it - wh_cursor w \<ge> wheelSpan
        \<longleftrightarrow> unat (wh_cursor w) + 1024 \<le> unat (ov_due it)"
      using ge by (auto simp: word_less_nat_alt word_le_nat_alt wheelSpan_def unat_diff_u32)
    show ?thesis
    proof (cases "unat (wh_cursor w) + 1024 \<le> unat (ov_due it)")
      case True
      then have "admitOverflow w = w" using pop far by (simp add: admitOverflow.simps [of w])
      with True least "1.prems" show ?thesis
        by (fastforce simp: wheel_loose_def wheel_wf_def)
    next
      case False
      let ?w = "ring_add (ov_key it) (max (ov_due it) (wh_cursor w)) (w\<lparr>wh_over := rest\<rparr>)"
      have eq: "admitOverflow w = admitOverflow ?w"
        using pop far False by (auto simp: admitOverflow.simps [of w])
      have step: "wheel_loose ?w \<and> wheel_abs ?w = wheel_abs w \<and> wh_cursor ?w = wh_cursor w
          \<and> wh_ringCount ?w = wh_ringCount w + 1 \<and> 0 \<le> wh_ringCount w"
        using False by (intro admit_step [OF "1.prems" pop]) simp
      with "1.IH" [OF pop refl] far False show ?thesis unfolding eq by fastforce
    qed
  qed
qed

section \<open>Advancing the cursor\<close>

lemma wheel_abs_ge_cursor:
  assumes "wheel_wf w" "e \<in># wheel_abs w"
  shows "unat (wh_cursor w) \<le> snd e"
proof -
  have "e \<in># ring_abs c r \<Longrightarrow> c \<le> snd e" for c r
    unfolding ring_abs_def by (induction "{c..<c + 1024}" rule: infinite_finite_induct) (auto simp: set_mset_sum)
  then show ?thesis using assms by (fastforce simp: wheel_abs_def wheel_wf_def over_abs_def)
qed

definition fires_exactly :: "nat \<Rightarrow> dueWheel \<Rightarrow> URLKey list \<Rightarrow> dueWheel \<Rightarrow> bool" where
  "fires_exactly h w fired w' \<longleftrightarrow>
     mset fired = image_mset fst (filter_mset (\<lambda>e. snd e \<le> h) (wheel_abs w))
   \<and> wheel_abs w' = filter_mset (\<lambda>e. h < snd e) (wheel_abs w)"

lemma fires_nothing:
  assumes "\<And>e. e \<in># wheel_abs w \<Longrightarrow> h < snd e" "wheel_abs w' = wheel_abs w"
  shows "fires_exactly h w [] w'"
proof -
  have "filter_mset (\<lambda>e. snd e \<le> h) (wheel_abs w) = filter_mset (\<lambda>_. False) (wheel_abs w)"
    and "filter_mset (\<lambda>e. h < snd e) (wheel_abs w) = filter_mset (\<lambda>_. True) (wheel_abs w)"
    using assms(1) by (intro filter_mset_cong refl; fastforce)+
  with assms(2) show ?thesis by (simp add: fires_exactly_def)
qed

lemma fires_more:
  assumes "fires_exactly h w1 fired w'" "wheel_abs w = image_mset (\<lambda>k. (k, c)) (mset b) + wheel_abs w1"
    and "c \<le> h"
  shows "fires_exactly h w (b @ fired) w'"
  using assms by (auto simp: fires_exactly_def filter_mset_image_mset image_mset.compositionality comp_def)

text \<open>The three ways one iteration of the loop goes.\<close>

lemma due_idle:
  assumes wf: "wheel_wf w" and h: "unat now + 1025 < 2 ^ 32" "wh_cursor w \<le> now"
    and empty: "wh_ringCount w = 0"
    and far: "\<And>x. x \<in> set (wh_over w) \<Longrightarrow> unat now + 1024 \<le> unat (ov_due x)"
  shows "wheel_wf (w\<lparr>wh_cursor := now + 1\<rparr>)
     \<and> fires_exactly (unat now) w [] (w\<lparr>wh_cursor := now + 1\<rparr>)
     \<and> unat (now + 1) = max (unat (wh_cursor w)) (unat now + 1)"
proof -
  have now: "unat (now + 1) = unat now + 1" using h(1) by (simp add: unat_add_u32)
  have ring: "concat (wh_ring w) = []" "length (wh_ring w) = 1024"
    using wf empty by (auto simp: wheel_wf_def)
  then have abs: "wheel_abs (w\<lparr>wh_cursor := c\<rparr>) = over_abs (wh_over w)" for c
    by (simp add: wheel_abs_def ring_abs_empty)
  have absw: "wheel_abs w = over_abs (wh_over w)"
    using abs [of "wh_cursor w"] by simp
  have "fires_exactly (unat now) w [] (w\<lparr>wh_cursor := now + 1\<rparr>)"
    using far by (intro fires_nothing) (fastforce simp: absw over_abs_def, simp add: abs absw)
  moreover have "wheel_wf (w\<lparr>wh_cursor := now + 1\<rparr>)"
    using wf far now h(1) by (fastforce simp: wheel_wf_def)
  ultimately show ?thesis using now h(2) by (simp add: word_le_nat_alt)
qed

lemma due_jump:
  assumes wf: "wheel_wf w" and h: "unat now + 1025 < 2 ^ 32" "wh_cursor w \<le> now"
    and empty: "wh_ringCount w = 0" and peek: "over_pop (wh_over w) = Some (it, rest)"
  defines "edge \<equiv> satSub (ov_due it) (wheelSpan - 1)"
  defines "w1 \<equiv> admitOverflow (if edge > wh_cursor w then w\<lparr>wh_cursor := edge\<rparr> else w)"
  assumes near: "edge \<le> now"
  shows "wheel_wf w1 \<and> wheel_abs w1 = wheel_abs w \<and> wh_ringCount w1 > 0
     \<and> wh_cursor w \<le> wh_cursor w1 \<and> wh_cursor w1 \<le> now"
proof -
  have inv: "heap_inv over_less (wh_over w)" using wf by (simp add: wheel_wf_def)
  have it: "it \<in> set (wh_over w)" using over.pool_pop_elem [OF inv peek] by simp
  have edge: "unat edge = unat (ov_due it) - 1023"
    by (auto simp: edge_def satSub_def wheelSpan_def word_less_nat_alt unat_diff_u32 word_le_nat_alt)
  define w0 where "w0 = (if edge > wh_cursor w then w\<lparr>wh_cursor := edge\<rparr> else w)"
  have ring: "concat (wh_ring w) = []" "length (wh_ring w) = 1024"
    using wf empty by (auto simp: wheel_wf_def)
  have c0: "unat (wh_cursor w0) = max (unat (wh_cursor w)) (unat edge)"
    by (auto simp: w0_def word_less_nat_alt)
  have over0: "wh_over w0 = wh_over w" "wh_ring w0 = wh_ring w" by (auto simp: w0_def)
  have "wheel_abs w0 = wheel_abs w"
    using ring by (simp add: wheel_abs_def over0 ring_abs_empty)
  moreover have "unat (wh_cursor w0) \<le> unat (ov_due x)" if "x \<in> set (wh_over w)" for x
    using c0 edge over_head_least [OF inv peek that] wf that it by (force simp: wheel_wf_def)
  then have loose: "wheel_loose w0"
    using wf near h c0 by (auto simp: wheel_wf_def wheel_loose_def w0_def word_le_nat_alt)
  moreover have "unat (ov_due it) < unat (wh_cursor w0) + 1024" using c0 edge by simp
  ultimately show ?thesis
    using admitOverflow_spec [OF loose] it near h(2) c0 over0
    by (simp add: w1_def flip: w0_def) (auto simp: word_le_nat_alt)
qed

lemma due_tick:
  assumes wf: "wheel_wf w" and h: "unat now + 1025 < 2 ^ 32" "wh_cursor w \<le> now"
  defines "b \<equiv> wh_ring w ! unat (wh_cursor w mod wheelSpan)"
  defines "w1 \<equiv> admitOverflow (w\<lparr>wh_ringCount := wh_ringCount w - int (length b),
      wh_ring := (wh_ring w)[unat (wh_cursor w mod wheelSpan) := []], wh_cursor := wh_cursor w + 1\<rparr>)"
  shows "wheel_wf w1 \<and> unat (wh_cursor w1) = unat (wh_cursor w) + 1
     \<and> wheel_abs w = image_mset (\<lambda>k. (k, unat (wh_cursor w))) (mset b) + wheel_abs w1"
proof -
  let ?c = "unat (wh_cursor w)" and ?i = "unat (wh_cursor w mod wheelSpan)"
  define w0 where "w0 = w\<lparr>wh_ringCount := wh_ringCount w - int (length b),
      wh_ring := (wh_ring w)[?i := []], wh_cursor := wh_cursor w + 1\<rparr>"
  have i: "?i = ?c mod 1024" by (rule unat_mod_span)
  have len: "length (wh_ring w) = 1024" "?i < length (wh_ring w)"
    using wf i by (auto simp: wheel_wf_def)
  have c: "unat (wh_cursor w + 1) = ?c + 1"
    using h by (subst unat_add_u32) (auto simp: word_le_nat_alt)
  have "length (concat ((wh_ring w)[?i := []])) + length b = length (concat (wh_ring w))"
    using length_concat_update [OF len(2), of "[]"] by (simp add: b_def)
  then have loose: "wheel_loose w0"
    using wf h c by (auto simp: wheel_wf_def wheel_loose_def w0_def word_le_nat_alt)
  have "wheel_abs w = image_mset (\<lambda>k. (k, ?c)) (mset b) + wheel_abs w0"
    using ring_abs_advance [OF len(1), of ?c] c i
    by (simp add: wheel_abs_def w0_def b_def add.assoc)
  then show ?thesis
    using admitOverflow_spec [OF loose] c by (simp add: w1_def w0_def)
qed

lemma due_loop_spec:
  assumes "wheel_wf w" "unat now + 1025 < 2 ^ 32"
  shows "\<exists>out w'. due_loop now fired w = Some (fired @ out, w') \<and> wheel_wf w'
     \<and> fires_exactly (unat now) w out w'
     \<and> unat (wh_cursor w') = max (unat (wh_cursor w)) (unat now + 1)"
  using assms
proof (induction "2 * (unat now + 1 - unat (wh_cursor w)) + (if wh_ringCount w = 0 then 1 else 0)"
    arbitrary: w fired rule: less_induct)
  case less
  note wf = less.prems(1) and h = less.prems(2)
  show ?case
  proof (cases "wh_cursor w \<le> now")
    case False
    then have "due_loop now fired w = Some (fired @ [], w)" by (simp add: due_loop.simps [of now fired w])
    moreover have "fires_exactly (unat now) w [] w"
      using wheel_abs_ge_cursor [OF wf] False
      by (intro fires_nothing) (fastforce simp: word_le_nat_alt, simp)
    ultimately show ?thesis using wf False by (fastforce simp: word_le_nat_alt)
  next
    case cur: True
    show ?thesis
    proof (cases "wh_ringCount w = 0")
      case empty: True
      have inv: "heap_inv over_less (wh_over w)" using wf by (simp add: wheel_wf_def)
      let ?w' = "w\<lparr>wh_cursor := now + 1\<rparr>"
      show ?thesis
      proof (cases "over_pop (wh_over w)")
        case None
        then have "wh_over w = []" using over.pool_None [OF inv] by simp
        then have "due_loop now fired w = Some (fired @ [], ?w')"
          using cur empty by (simp add: due_loop.simps [of now fired w] over_peek_def)
        with due_idle [OF wf h cur empty] \<open>wh_over w = []\<close> show ?thesis by fastforce
      next
        case (Some p)
        obtain it rest where p: "p = (it, rest)" by fastforce
        note pop = Some [unfolded p]
        let ?edge = "satSub (ov_due it) (wheelSpan - 1)"
        have peek: "over_peek (wh_over w) = Some it" by (simp add: over_peek_pop pop)
        show ?thesis
        proof (cases "?edge > now")
          case True
          then have "unat now + 1024 \<le> unat (ov_due it)"
            by (auto simp: satSub_def wheelSpan_def word_less_nat_alt unat_diff_u32 word_le_nat_alt split: if_splits)
          then have "unat now + 1024 \<le> unat (ov_due x)" if "x \<in> set (wh_over w)" for x
            using over_head_least [OF inv pop that] by simp
          moreover have "due_loop now fired w = Some (fired @ [], ?w')"
            using cur empty peek True by (simp add: due_loop.simps [of now fired w])
          ultimately show ?thesis using due_idle [OF wf h cur empty] by fastforce
        next
          case False
          let ?w1 = "admitOverflow (if ?edge > wh_cursor w then w\<lparr>wh_cursor := ?edge\<rparr> else w)"
          have j: "wheel_wf ?w1 \<and> wheel_abs ?w1 = wheel_abs w \<and> wh_ringCount ?w1 > 0
             \<and> wh_cursor w \<le> wh_cursor ?w1 \<and> wh_cursor ?w1 \<le> now"
            using False by (intro due_jump [OF wf h cur empty pop]) simp
          have "due_loop now fired w = due_loop now fired ?w1"
            using cur empty peek False by (simp add: due_loop.simps [of now fired w] Let_def)
          moreover have "\<exists>out w'. due_loop now fired ?w1 = Some (fired @ out, w') \<and> wheel_wf w'
             \<and> fires_exactly (unat now) ?w1 out w'
             \<and> unat (wh_cursor w') = max (unat (wh_cursor ?w1)) (unat now + 1)"
            using j empty h by (intro less.hyps) (auto simp: word_le_nat_alt)
          ultimately show ?thesis using j by (auto simp: fires_exactly_def word_le_nat_alt)
        qed
      qed
    next
      case False
      let ?i = "unat (wh_cursor w mod wheelSpan)"
      let ?b = "wh_ring w ! ?i"
      let ?w1 = "admitOverflow (w\<lparr>wh_ringCount := wh_ringCount w - int (length ?b),
          wh_ring := (wh_ring w)[?i := []], wh_cursor := wh_cursor w + 1\<rparr>)"
      note t = due_tick [OF wf h cur]
      have "due_loop now fired w = due_loop now (fired @ ?b) ?w1"
        using cur False by (simp add: due_loop.simps [of now fired w] Let_def)
      moreover have "\<exists>out w'. due_loop now (fired @ ?b) ?w1 = Some ((fired @ ?b) @ out, w') \<and> wheel_wf w'
         \<and> fires_exactly (unat now) ?w1 out w'
         \<and> unat (wh_cursor w') = max (unat (wh_cursor ?w1)) (unat now + 1)"
        using t cur False h by (intro less.hyps) (auto simp: word_le_nat_alt)
      ultimately obtain out w' where r: "due_loop now fired w = Some (fired @ ?b @ out, w')" "wheel_wf w'"
         "fires_exactly (unat now) ?w1 out w'" "unat (wh_cursor w') = max (unat (wh_cursor ?w1)) (unat now + 1)"
        by auto
      moreover have "fires_exactly (unat now) w (?b @ out) w'"
        using t cur by (intro fires_more [OF r(3)]) (auto simp: word_le_nat_alt)
      ultimately show ?thesis using t cur by (auto simp: word_le_nat_alt)
    qed
  qed
qed

section \<open>The next hour\<close>

lemma window_all_split:
  "a < (b :: nat) \<Longrightarrow> (\<forall>h. a \<le> h \<and> h < b \<longrightarrow> P h) \<longleftrightarrow> P a \<and> (\<forall>h. a + 1 \<le> h \<and> h < b \<longrightarrow> P h)"
  by (metis Suc_eq_plus1 Suc_leI le_neq_implies_less le_refl Suc_leD)

lemma residue_in_window:
  fixes c i :: nat
  assumes "i < 1024"
  obtains h where "c \<le> h" "h < c + 1024" "h mod 1024 = i"
proof
  define q m where "q = c div 1024" and "m = c mod 1024"
  have c: "c = 1024 * q + m" "m < 1024" by (simp_all add: q_def m_def)
  let ?x = "(i + 1024 - m) mod 1024"
  show "c \<le> c + ?x" "c + ?x < c + 1024" by auto
  have "c + (i + 1024 - m) = 1024 * (q + 1) + i" using c by simp
  then have "(c + ?x) mod 1024 = (1024 * (q + 1) + i) mod 1024" by (simp only: mod_add_right_eq)
  also have "\<dots> = i" using assms by (simp only: mod_mult_self4 mod_less)
  finally show "(c + ?x) mod 1024 = i" .
qed

lemma ring_scan_None:
  assumes "unat d + n < 2 ^ 32"
  shows "ring_scan r n d = None \<longleftrightarrow> (\<forall>h. unat d \<le> h \<and> h < unat d + n \<longrightarrow> r ! (h mod 1024) = [])"
  using assms
proof (induction n arbitrary: d)
  case (Suc n)
  have d: "unat (d + 1) = unat d + 1" using Suc.prems by (subst unat_add_u32) auto
  have "(\<forall>h. unat d \<le> h \<and> h < unat d + Suc n \<longrightarrow> r ! (h mod 1024) = [])
    \<longleftrightarrow> r ! (unat d mod 1024) = [] \<and> (\<forall>h. unat d + 1 \<le> h \<and> h < unat d + 1 + n \<longrightarrow> r ! (h mod 1024) = [])"
    using window_all_split [of "unat d" "unat d + Suc n" "\<lambda>h. r ! (h mod 1024) = []"] by simp
  with Suc.IH [of "d + 1"] Suc.prems d show ?case by (simp add: unat_mod_span)
qed auto

lemma ring_scan_Some:
  assumes "unat d + n < 2 ^ 32" "ring_scan r n d = Some e"
  shows "unat d \<le> unat e \<and> unat e < unat d + n \<and> r ! (unat e mod 1024) \<noteq> []
     \<and> (\<forall>h. unat d \<le> h \<and> h < unat e \<longrightarrow> r ! (h mod 1024) = [])"
  using assms
proof (induction n arbitrary: d)
  case (Suc n)
  have d: "unat (d + 1) = unat d + 1" using Suc.prems(1) by (subst unat_add_u32) auto
  show ?case
  proof (cases "r ! (unat d mod 1024) = []")
    case True
    then have "ring_scan r n (d + 1) = Some e" using Suc.prems(2) by (simp add: unat_mod_span)
    then have "unat d + 1 \<le> unat e \<and> unat e < unat d + 1 + n \<and> r ! (unat e mod 1024) \<noteq> []
       \<and> (\<forall>h. unat d + 1 \<le> h \<and> h < unat e \<longrightarrow> r ! (h mod 1024) = [])"
      using Suc.IH [of "d + 1"] Suc.prems(1) d by simp
    with True show ?thesis
      using window_all_split [of "unat d" "unat e" "\<lambda>h. r ! (h mod 1024) = []"] by simp
  next
    case False
    with Suc.prems show ?thesis by (auto simp: unat_mod_span)
  qed
qed simp

lemma in_ring_abs: "e \<in># ring_abs c r \<longleftrightarrow> c \<le> snd e \<and> snd e < c + 1024 \<and> fst e \<in> set (r ! (snd e mod 1024))"
  by (cases e) (auto simp: ring_abs_def set_mset_sum)

lemma wheel_nextDue_spec:
  assumes wf: "wheel_wf w"
  shows "case wheel_nextDue w of
       None \<Rightarrow> wheel_abs w = {#}
     | Some d \<Rightarrow> (\<exists>k. (k, unat d) \<in># wheel_abs w) \<and> (\<forall>e \<in># wheel_abs w. unat d \<le> snd e)"
proof -
  let ?c = "unat (wh_cursor w)"
  have len: "length (wh_ring w) = 1024" and c: "?c + 1024 < 2 ^ 32"
    and inv: "heap_inv over_less (wh_over w)"
    and over: "\<And>it. it \<in> set (wh_over w) \<Longrightarrow> ?c + 1023 \<le> unat (ov_due it)"
    using wf by (auto simp: wheel_wf_def)
  have span: "unat (wh_cursor w + wheelSpan) - ?c = 1024"
    using c by (simp add: wheelSpan_def unat_add_u32)
  show ?thesis
  proof (cases "wh_ringCount w > 0")
    case True
    have "ring_scan (wh_ring w) 1024 (wh_cursor w) \<noteq> None"
    proof
      assume "ring_scan (wh_ring w) 1024 (wh_cursor w) = None"
      then have all: "\<forall>h. ?c \<le> h \<and> h < ?c + 1024 \<longrightarrow> wh_ring w ! (h mod 1024) = []"
        using ring_scan_None [OF c] by simp
      have "wh_ring w ! i = []" if "i < 1024" for i
      proof -
        obtain h where "?c \<le> h" "h < ?c + 1024" "h mod 1024 = i"
          using residue_in_window [OF \<open>i < 1024\<close>] by blast
        with all show ?thesis by blast
      qed
      then have "concat (wh_ring w) = []" using len by (auto simp: in_set_conv_nth)
      with wf True show False by (simp add: wheel_wf_def)
    qed
    then obtain d where d: "ring_scan (wh_ring w) 1024 (wh_cursor w) = Some d" by blast
    note s = ring_scan_Some [OF c d]
    obtain k where k: "k \<in> set (wh_ring w ! (unat d mod 1024))" using s by (cases "wh_ring w ! (unat d mod 1024)") auto
    have "wheel_nextDue w = Some d" using True d by (simp add: wheel_nextDue_def span)
    moreover have "(k, unat d) \<in># wheel_abs w"
      using s k by (auto simp: wheel_abs_def in_ring_abs)
    moreover have "unat d \<le> snd e" if "e \<in># wheel_abs w" for e
    proof (cases "e \<in># ring_abs ?c (wh_ring w)")
      case True
      with s show ?thesis by (auto simp: in_ring_abs not_less [symmetric])
    next
      case False
      with that s over show ?thesis by (fastforce simp: wheel_abs_def over_abs_def)
    qed
    ultimately show ?thesis by auto
  next
    case False
    then have "concat (wh_ring w) = []" using wf by (simp add: wheel_wf_def)
    then have abs: "wheel_abs w = over_abs (wh_over w)" by (simp add: wheel_abs_def ring_abs_empty len)
    have nd: "wheel_nextDue w = map_option ov_due (over_peek (wh_over w))"
      using False by (simp add: wheel_nextDue_def)
    show ?thesis
    proof (cases "over_pop (wh_over w)")
      case None
      then show ?thesis using over.pool_None [OF inv] by (simp add: nd abs over_peek_pop over_abs_def)
    next
      case (Some p)
      obtain it rest where p: "over_pop (wh_over w) = Some (it, rest)" using Some by (cases p) auto
      have "it \<in> set (wh_over w)" using over.pool_pop_elem [OF inv p] by simp
      then show ?thesis
        using over_head_least [OF inv p] by (auto simp: nd abs over_peek_pop p over_abs_def)
    qed
  qed
qed

section \<open>Properties\<close>

text \<open>C12: Advancing the wheel to an hour returns, for every wheel that satisfies its invariant,
  and fires exactly the pending entries whose hour has come: nothing early, nothing lost,
  nothing twice.  What is left pending is exactly the rest, and the cursor stands just past the
  hour.\<close>

theorem wheel_fires_exactly_due:
  assumes "wheel_wf w" "unat now + 1025 < 2 ^ 32"
  shows "\<exists>fired w'. wheel_due now w = Some (fired, w') \<and> wheel_wf w'
     \<and> mset fired = image_mset fst (filter_mset (\<lambda>e. snd e \<le> unat now) (wheel_abs w))
     \<and> wheel_abs w' = filter_mset (\<lambda>e. unat now < snd e) (wheel_abs w)
     \<and> unat (wh_cursor w') = max (unat (wh_cursor w)) (unat now + 1)"
  using due_loop_spec [OF assms, of "[]"] by (simp add: wheel_due_def fires_exactly_def)

lemma wheel_wf_new [wf_intros]: "unat base + 1024 < 2 ^ 32 \<Longrightarrow> wheel_wf (newDueWheel base)"
  by (simp add: wheel_wf_def newDueWheel_def)

lemma wheel_abs_new [abs_simps]: "wheel_abs (newDueWheel base) = {#}"
  by (simp add: wheel_abs_def newDueWheel_def ring_abs_empty over_abs_def)

theorem wheel_fires_exactly_due_witness:
  "\<exists>fired w'. wheel_due 480001 (wheel_add (URLKey 1 2) 480000 (newDueWheel 479000)) = Some (fired, w')
     \<and> mset fired = {# URLKey 1 2 #}"
proof -
  have wf0: "wheel_wf (newDueWheel 479000)" by (rule wheel_wf_new) simp
  then have "wheel_wf (wheel_add (URLKey 1 2) 480000 (newDueWheel 479000))" by (rule wheel_add_wf_abs)
  from wheel_fires_exactly_due [OF this, of 480001] show ?thesis
    by (auto simp: wheel_add_wf_abs(2) [OF wf0] wheel_abs_new) (simp add: newDueWheel_def)
qed

text \<open>Filing a URL adds exactly one pending entry, at its due hour or, when that has already
  passed, at the cursor, and keeps the invariant; a far-dated URL goes through the overflow heap
  with the same abstract effect.\<close>

theorem wheel_add_files_once:
  assumes "wheel_wf w"
  shows "wheel_wf (wheel_add k d w)
     \<and> wheel_abs (wheel_add k d w) = add_mset (k, max (unat d) (unat (wh_cursor w))) (wheel_abs w)"
  using wheel_add_wf_abs [OF assms] by blast

theorem wheel_add_files_once_witness:
  "wheel_abs (wheel_add (URLKey 1 2) 990000 (newDueWheel 480000)) = {# (URLKey 1 2, 990000) #}"
proof -
  have "wheel_wf (newDueWheel 480000)" by (rule wheel_wf_new) simp
  from wheel_add_files_once [OF this, of "URLKey 1 2" 990000] show ?thesis
    by (simp add: wheel_abs_new) (simp add: newDueWheel_def)
qed

text \<open>The next hour the wheel reports is the earliest pending hour, and it reports none
  exactly when nothing is pending.\<close>

theorem wheel_nextDue_is_earliest:
  assumes "wheel_wf w"
  shows "case wheel_nextDue w of
       None \<Rightarrow> wheel_abs w = {#}
     | Some d \<Rightarrow> (\<exists>k. (k, unat d) \<in># wheel_abs w) \<and> (\<forall>e \<in># wheel_abs w. unat d \<le> snd e)"
  by (rule wheel_nextDue_spec [OF assms])

theorem wheel_nextDue_is_earliest_witness:
  "wheel_wf (newDueWheel 480000) \<and> wheel_nextDue (newDueWheel 480000) = None"
proof -
  have wf: "wheel_wf (newDueWheel 480000)" by (rule wheel_wf_new) simp
  with wheel_nextDue_is_earliest [OF wf] show ?thesis
    by (auto simp: wheel_abs_new split: option.splits)
qed

end
