(* ===== verification/Politeness.thy ===== *)
theory Politeness
  imports GoFloat Records
begin

text \<open>
  The rate policy of \<^verbatim>\<open>politeness/\<close> and the conversions of \<^verbatim>\<open>frontier/m3.go\<close> and
  \<^verbatim>\<open>frontier/frontier.go\<close> that feed it.  Durations are nanoseconds; the three ratios of the
  configuration are float64 values, given by the rationals they denote, and every product of the
  source is rounded to float64.  The theory shows the interval band, the direction of every AIMD
  reaction, and that the per-IP table spaces the dispatches to one address.
\<close>

section \<open>Policy (politeness.go)\<close>

record Config =
  c_Default :: duration
  c_Floor :: duration
  c_Ceiling :: duration
  c_IPFloor :: duration
  c_Backoff :: rat
  c_SoftWiden :: rat
  c_Narrow :: duration
  c_LatencyRise :: rat

text \<open>The literal 1.3 is the float64 nearest to it.\<close>

definition DefaultConfig :: Config where
  "DefaultConfig = \<lparr> c_Default = 1 * Second, c_Floor = 250 * Millisecond,
     c_Ceiling = 5 * 60 * Second, c_IPFloor = 500 * Millisecond, c_Backoff = 2,
     c_SoftWiden = fl64 (13 / 10), c_Narrow = 100 * Millisecond, c_LatencyRise = 3 / 2 \<rparr>"

definition Clamp :: "duration \<Rightarrow> duration \<Rightarrow> duration \<Rightarrow> duration" where
  "Clamp d lo hi0 =
     (let hi = (if hi0 < lo then lo else hi0) in
      if d < lo then lo else if d > hi then hi else d)"

definition HostInterval :: "Config \<Rightarrow> duration \<Rightarrow> duration \<Rightarrow> duration" where
  "HostInterval c adaptive crawlDelay =
     (let lo = max (c_Floor c) crawlDelay in Clamp adaptive lo (c_Ceiling c))"

record PolSignal =
  ps_Status :: int
  ps_RetryAfter :: duration
  ps_Latency :: duration
  ps_PrevLatency :: duration

definition backoff :: "int \<Rightarrow> bool" where
  "backoff status \<longleftrightarrow> status = 429 \<or> (status \<ge> 500 \<and> status \<le> 599)"

text \<open>\<^verbatim>\<open>time.Duration(float64(d) * r)\<close>.\<close>

definition scale :: "duration \<Rightarrow> rat \<Rightarrow> duration" where
  "scale d r = trunc64 (fl64 (fl64 (of_int d) * r))"

definition Adapt :: "Config \<Rightarrow> duration \<Rightarrow> PolSignal \<Rightarrow> duration" where
  "Adapt c adaptive s =
     (if backoff (ps_Status s) then max (scale adaptive (c_Backoff c)) (ps_RetryAfter s)
      else if ps_PrevLatency s > 0 \<and> ps_Latency s > scale (ps_PrevLatency s) (c_LatencyRise c)
      then scale adaptive (c_SoftWiden c)
      else max (adaptive - c_Narrow c) 0)"

definition AtCeiling :: "Config \<Rightarrow> duration \<Rightarrow> bool" where
  "AtCeiling c clamped \<longleftrightarrow> clamped \<ge> c_Ceiling c"

section \<open>Conversions (m3.go, frontier.go)\<close>

text \<open>Go's integer division truncates towards zero.\<close>

definition quot :: "int \<Rightarrow> int \<Rightarrow> int" where
  "quot a b = (if a \<ge> 0 then a div b else - ((- a) div b))"

definition deciToDur :: "u16 \<Rightarrow> duration" where
  "deciToDur deci = int (unat deci) * 100 * Millisecond"

definition durToDeci :: "duration \<Rightarrow> u16" where
  "durToDeci d =
     (let v = quot d (100 * Millisecond) in
      if v < 0 then 0 else if v > 65535 then 65535 else word_of_int v)"

definition durSecs :: "duration \<Rightarrow> u32" where
  "durSecs d = (let s = word_of_int (quot d Second) in if s = 0 then 1 else s)"

definition delaySeconds :: "u16 \<Rightarrow> u32" where
  "delaySeconds deciseconds = (let s = of_nat (unat deciseconds) div 10 in if s = 0 then 1 else s)"

definition smoothLatency :: "u16 \<Rightarrow> u16 \<Rightarrow> u16" where
  "smoothLatency prev sample =
     (if prev = 0 then sample
      else (let w = (of_nat (unat prev) * 3 + of_nat (unat sample)) div 4 :: u32
            in of_nat (unat w)))"

definition isErr :: "u16 \<Rightarrow> bool" where
  "isErr status \<longleftrightarrow> status = 429 \<or> (status \<ge> 500 \<and> status \<le> 599)"

section \<open>The per-IP table (iptable.go)\<close>

record ipBucket =
  ib_nextEligible :: int
  ib_touched :: int

record IPTable =
  it_buckets :: "(ip, ipBucket) gomap"
  it_floor :: duration

definition NewIPTable :: "duration \<Rightarrow> IPTable" where
  "NewIPTable fl = \<lparr> it_buckets = [], it_floor = fl \<rparr>"

definition EligibleAt :: "IPTable \<Rightarrow> ip \<Rightarrow> int" where
  "EligibleAt t addr =
     (if addr = zeroIP then 0
      else case mget (it_buckets t) addr of None \<Rightarrow> 0 | Some b \<Rightarrow> ib_nextEligible b)"

definition Spend :: "ip \<Rightarrow> int \<Rightarrow> duration \<Rightarrow> IPTable \<Rightarrow> IPTable" where
  "Spend addr now interval t =
     (if addr = zeroIP then t
      else
        (let step = max interval (it_floor t);
             secs = max (quot step Second) 1 in
         t\<lparr> it_buckets := mput addr \<lparr> ib_nextEligible = now + secs, ib_touched = now \<rparr> (it_buckets t) \<rparr>))"

definition Evict :: "int \<Rightarrow> IPTable \<Rightarrow> nat \<times> IPTable" where
  "Evict cutoff t =
     (let gone = filter (\<lambda>(k, b). ib_touched b \<le> cutoff) (it_buckets t) in
      (length gone, t\<lparr> it_buckets := filter (\<lambda>(k, b). \<not> ib_touched b \<le> cutoff) (it_buckets t) \<rparr>))"

definition IPTable_Len :: "IPTable \<Rightarrow> nat" where
  "IPTable_Len t = length (it_buckets t)"

section \<open>The interval band\<close>

lemma Clamp_eq: "Clamp d lo hi = max lo (min d (max lo hi))"
  by (simp add: Clamp_def Let_def max_def min_def)

lemma HostInterval_eq:
  "HostInterval c a d = max (max (c_Floor c) d) (min a (max (max (c_Floor c) d) (c_Ceiling c)))"
  by (simp add: HostInterval_def Let_def Clamp_eq)

text \<open>whatever the adaptive controller asks for, the interval a host is crawled at is never
  below the physical floor nor below the crawl delay the host published, never above the ceiling
  unless that floor is itself above it, and is the controller's own value whenever that lies in the
  band; the clamp is monotone in all three inputs.\<close>

theorem HostInterval_band:
  "c_Floor c \<le> HostInterval c a d \<and> d \<le> HostInterval c a d
   \<and> HostInterval c a d \<le> max (max (c_Floor c) d) (c_Ceiling c)
   \<and> (max (c_Floor c) d \<le> a \<and> a \<le> c_Ceiling c \<longrightarrow> HostInterval c a d = a)
   \<and> (a \<le> a' \<and> d \<le> d' \<longrightarrow> HostInterval c a d \<le> HostInterval c a' d')"
  unfolding HostInterval_eq by linarith

theorem HostInterval_band_witness:
  "HostInterval DefaultConfig (2 * Second) (1 * Second) = 2 * Second"
  using HostInterval_band [of DefaultConfig "2 * Second" "1 * Second" "2 * Second" "1 * Second"]
  by (simp add: DefaultConfig_def Second_def Millisecond_def)

section \<open>The AIMD step\<close>

lemma scale_widens:
  assumes "0 \<le> d" "d \<le> 2 ^ 53" "1 \<le> r"
  shows "d \<le> scale d r"
proof -
  have "(of_int d :: rat) \<le> of_int d * r"
    using assms by (simp add: mult_le_cancel_left1)
  then have "of_int d \<le> fl64 (of_int d * r)"
    using assms by (intro fl64_ge_int) auto
  with assms show ?thesis
    by (simp add: scale_def trunc64_ge)
qed

lemma scale_bounded:
  assumes "0 \<le> d" "0 \<le> r" "of_int d * r \<le> of_int k" "d \<le> 2 ^ 53" "k \<le> 2 ^ 53"
  shows "0 \<le> scale d r \<and> scale d r \<le> k"
proof -
  have nn: "0 \<le> (of_int d :: rat) * r" using assms by simp
  have "fl64 (of_int d * r) \<le> of_int k" by (rule fl64_le_int) (use assms nn in auto)
  moreover have "of_int 0 \<le> fl64 (of_int d * r)" by (rule fl64_ge_int) (use nn in auto)
  ultimately show ?thesis
    using assms by (auto simp: scale_def intro: trunc64_le trunc64_ge)
qed

text \<open>every reaction of the AIMD controller goes in its documented direction.  A 429 or 5xx
  never shortens the interval and honours Retry-After as a lower bound; a sharp rise in latency
  never shortens it; any other outcome shortens it by exactly the narrowing step, stopping at
  zero.  The interval is assumed exactly representable as a float64, at most \<open>2 ^ 53\<close> nanoseconds
  (104 days), and the two factors at least one.\<close>

theorem Adapt_directions:
  assumes "0 \<le> a" "a \<le> 2 ^ 53" "1 \<le> c_Backoff c" "1 \<le> c_SoftWiden c"
  shows "(backoff (ps_Status s) \<longrightarrow> a \<le> Adapt c a s \<and> ps_RetryAfter s \<le> Adapt c a s)
     \<and> (\<not> backoff (ps_Status s) \<and> ps_PrevLatency s > 0
          \<and> ps_Latency s > scale (ps_PrevLatency s) (c_LatencyRise c) \<longrightarrow> a \<le> Adapt c a s)
     \<and> (\<not> backoff (ps_Status s)
          \<and> \<not> (ps_PrevLatency s > 0 \<and> ps_Latency s > scale (ps_PrevLatency s) (c_LatencyRise c))
          \<longrightarrow> Adapt c a s = max (a - c_Narrow c) 0)"
  using scale_widens [OF assms(1-3)] scale_widens [OF assms(1,2,4)]
  by (auto simp: Adapt_def)

lemma DefaultConfig_SoftWiden: "1 \<le> c_SoftWiden DefaultConfig"
  using fl64_ge_int [of 1 "13 / 10"] by (simp add: DefaultConfig_def)

theorem Adapt_directions_witness:
  "Second \<le> Adapt DefaultConfig Second
     \<lparr> ps_Status = 503, ps_RetryAfter = 7 * Second, ps_Latency = 0, ps_PrevLatency = 0 \<rparr>"
  using Adapt_directions [of Second DefaultConfig
      "\<lparr> ps_Status = 503, ps_RetryAfter = 7 * Second, ps_Latency = 0, ps_PrevLatency = 0 \<rparr>"]
    DefaultConfig_SoftWiden
  by (simp add: Second_def DefaultConfig_def backoff_def)

fun adapt_run :: "Config \<Rightarrow> duration \<Rightarrow> PolSignal list \<Rightarrow> duration \<Rightarrow> duration" where
  "adapt_run c fl [] a = a"
| "adapt_run c fl (s # ss) a = adapt_run c fl ss (HostInterval c (Adapt c a s) fl)"

lemma scale_two:
  assumes "0 \<le> d" "2 * d \<le> 2 ^ 53"
  shows "scale d 2 = 2 * d"
proof -
  have "fl64 (of_int d) = (of_int d :: rat)" using assms by simp
  moreover have "fl64 (of_int d * 2) = of_int (2 * d)"
    using fl64_int [of "2 * d"] assms by (simp add: mult.commute)
  ultimately show ?thesis by (simp only: scale_def trunc64_int)
qed

lemma failure_doubles:
  assumes "backoff (ps_Status s)" "0 \<le> a" "a \<le> c_Ceiling DefaultConfig" "fl \<le> c_Ceiling DefaultConfig"
  shows "min (2 * a) (c_Ceiling DefaultConfig) \<le> HostInterval DefaultConfig (Adapt DefaultConfig a s) fl
         \<and> HostInterval DefaultConfig (Adapt DefaultConfig a s) fl \<le> c_Ceiling DefaultConfig"
proof -
  have C: "c_Ceiling DefaultConfig = 300000000000" "c_Floor DefaultConfig = 250000000"
    by (simp_all add: DefaultConfig_def Second_def Millisecond_def)
  have "scale a (c_Backoff DefaultConfig) = 2 * a"
    using scale_two [of a] assms(2,3) C by (simp add: DefaultConfig_def)
  then have "2 * a \<le> Adapt DefaultConfig a s" using assms(1) by (simp add: Adapt_def)
  then show ?thesis
    using assms(4) unfolding HostInterval_eq C by linarith
qed

lemma failures_double:
  assumes "list_all (\<lambda>s. backoff (ps_Status s)) ss" "0 \<le> a" "a \<le> c_Ceiling DefaultConfig"
    "fl \<le> c_Ceiling DefaultConfig"
  shows "min (2 ^ length ss * a) (c_Ceiling DefaultConfig) \<le> adapt_run DefaultConfig fl ss a
         \<and> adapt_run DefaultConfig fl ss a \<le> c_Ceiling DefaultConfig"
  using assms
proof (induction ss arbitrary: a)
  case (Cons s ss)
  let ?C = "c_Ceiling DefaultConfig" and ?a = "HostInterval DefaultConfig (Adapt DefaultConfig a s) fl"
  have step: "min (2 * a) ?C \<le> ?a" "?a \<le> ?C"
    using failure_doubles [of s a fl] Cons.prems by auto
  have C0: "0 \<le> ?C" using Cons.prems by linarith
  then have a0: "0 \<le> ?a" using step(1) Cons.prems(2) by linarith
  have ih: "min (2 ^ length ss * ?a) ?C \<le> adapt_run DefaultConfig fl ss ?a"
    "adapt_run DefaultConfig fl ss ?a \<le> ?C"
    using Cons.IH [of ?a] Cons.prems step a0 by auto
  have "min (2 ^ length (s # ss) * a) ?C \<le> min (2 ^ length ss * ?a) ?C"
  proof (cases "2 * a \<le> ?a")
    case True
    then have "2 ^ length ss * (2 * a) \<le> 2 ^ length ss * ?a" by (intro mult_left_mono) auto
    then have "2 ^ length (s # ss) * a \<le> 2 ^ length ss * ?a"
      by (simp only: length_Cons power_Suc mult.assoc mult.left_commute)
    then show ?thesis by (intro min.mono) auto
  next
    case False
    then have "?C \<le> ?a" using step by linarith
    moreover have "?a \<le> 2 ^ length ss * ?a" using a0 by (simp add: mult_le_cancel_right1)
    ultimately show ?thesis by simp
  qed
  with ih show ?case by simp
qed simp

text \<open>a host that keeps failing is slowed to the ceiling: under the default policy eleven 429 or
  5xx outcomes in a row, from any interval in the band and for any crawl delay up to the ceiling,
  pin the clamped interval at the ceiling, where \<^verbatim>\<open>AtCeiling\<close> holds.\<close>

theorem failures_reach_ceiling:
  assumes "list_all (\<lambda>s. backoff (ps_Status s)) ss" "length ss \<ge> 11"
    "c_Floor DefaultConfig \<le> a" "a \<le> c_Ceiling DefaultConfig" "fl \<le> c_Ceiling DefaultConfig"
  shows "adapt_run DefaultConfig fl ss a = c_Ceiling DefaultConfig
         \<and> AtCeiling DefaultConfig (adapt_run DefaultConfig fl ss a)"
proof -
  have C: "c_Ceiling DefaultConfig = 300000000000" "c_Floor DefaultConfig = 250000000"
    by (simp_all add: DefaultConfig_def Second_def Millisecond_def)
  have "(2::int) ^ 11 \<le> 2 ^ length ss" using assms(2) by (intro power_increasing) auto
  then have "2 ^ 11 * 250000000 \<le> 2 ^ length ss * a"
    using assms(3) C by (intro mult_mono) auto
  then show ?thesis
    using failures_double [OF assms(1) _ assms(4,5)] assms(3) C by (simp add: AtCeiling_def)
qed

theorem failures_reach_ceiling_witness:
  "adapt_run DefaultConfig 0
     (replicate 11 \<lparr> ps_Status = 503, ps_RetryAfter = 0, ps_Latency = 0, ps_PrevLatency = 0 \<rparr>) Second
   = 300 * Second"
  using failures_reach_ceiling [of
      "replicate 11 \<lparr> ps_Status = 503, ps_RetryAfter = 0, ps_Latency = 0, ps_PrevLatency = 0 \<rparr>" Second 0]
  by (simp add: backoff_def DefaultConfig_def Second_def Millisecond_def list_all_iff)

section \<open>Whole-second spacing\<close>

lemma durSecs_unat:
  assumes "0 \<le> d" "d < 2 ^ 32 * Second"
  shows "int (unat (durSecs d)) = max (d div Second) 1"
proof -
  let ?q = "d div Second"
  have q: "0 \<le> ?q" "?q < 2 ^ 32" using assms by (auto simp: Second_def)
  then have u: "uint (word_of_int ?q :: u32) = ?q" by (simp add: take_bit_int_eq_self unsigned_of_int)
  show ?thesis
  proof (cases "?q = 0")
    case True
    then show ?thesis using assms by (simp add: durSecs_def quot_def Let_def)
  next
    case False
    then have "(word_of_int ?q :: u32) \<noteq> 0" using u by (metis unsigned_0)
    then show ?thesis
      using assms False q u by (simp add: durSecs_def quot_def Let_def uint_nat[symmetric])
  qed
qed

text \<open>the spacing a host's clock uses is its interval rounded down to whole seconds, at least
  one: it is never zero, never longer than the interval or one second, and less than a second
  short of it.\<close>

theorem durSecs_rounds_down:
  assumes "0 \<le> d" "d < 2 ^ 32 * Second"
  shows "durSecs d \<noteq> 0 \<and> int (unat (durSecs d)) * Second \<le> max d Second
         \<and> d < (int (unat (durSecs d)) + 1) * Second"
proof -
  have "d div Second * Second \<le> d" "d < (d div Second + 1) * Second"
    by (simp_all add: Second_def)
  moreover have "durSecs d \<noteq> 0" using durSecs_unat [OF assms] by auto
  moreover have "0 < Second" by (simp add: Second_def)
  ultimately show ?thesis
    unfolding durSecs_unat [OF assms] max_def
    by (auto simp: distrib_right) (simp_all add: Second_def)
qed

theorem durSecs_rounds_down_witness: "durSecs (1500 * Millisecond) \<noteq> 0"
  using durSecs_rounds_down [of "1500 * Millisecond"] by (simp add: Millisecond_def Second_def)

text \<open>a fractional crawl delay is not honoured by the wired spacing.  A host that asks for
  1.5 seconds (15 deciseconds) gets the 1.5 second interval from \<^verbatim>\<open>HostInterval\<close>, and then a
  window of one second from \<^verbatim>\<open>durSecs\<close>.\<close>

theorem fractional_crawl_delay_cut:
  "HostInterval DefaultConfig Second (deciToDur 15) = 1500 * Millisecond
   \<and> durSecs (HostInterval DefaultConfig Second (deciToDur 15)) = 1
   \<and> int (unat (durSecs (HostInterval DefaultConfig Second (deciToDur 15)))) * Second < deciToDur 15"
  by (simp add: HostInterval_def Clamp_def DefaultConfig_def deciToDur_def durSecs_def quot_def
      Second_def Millisecond_def Let_def)

lemma smoothLatency_unat:
  "prev \<noteq> 0 \<Longrightarrow> unat (smoothLatency prev sample) = (3 * unat prev + unat sample) div 4"
proof -
  have b: "unat prev < 65536" "unat sample < 65536"
    using unat_lt_2p16 [of prev] unat_lt_2p16 [of sample] by simp_all
  have eq: "(of_nat (unat prev) * 3 + of_nat (unat sample) :: u32) = of_nat (3 * unat prev + unat sample)"
    by (simp add: mult.commute)
  have "unat ((of_nat (unat prev) * 3 + of_nat (unat sample)) div 4 :: u32)
          = (3 * unat prev + unat sample) div 4"
    unfolding eq unat_div using b by (subst of_nat_inverse_32) simp_all
  moreover have "(3 * unat prev + unat sample) div 4 < 2 ^ 16" using b by simp
  ultimately have "unat (of_nat (unat ((of_nat (unat prev) * 3 + of_nat (unat sample)) div 4 :: u32)) :: u16)
      = (3 * unat prev + unat sample) div 4"
    using of_nat_inverse_16 [of "(3 * unat prev + unat sample) div 4"] by (simp only:)
  then show "prev \<noteq> 0 \<Longrightarrow> ?thesis"
    unfolding smoothLatency_def Let_def by (simp only: if_False)
qed

text \<open>the smoothed latency never leaves the range spanned by the previous average and the new
  sample, and the first sample seeds it.\<close>

theorem smoothLatency_between:
  "(prev = 0 \<longrightarrow> smoothLatency prev sample = sample)
   \<and> (prev \<noteq> 0 \<longrightarrow> min prev sample \<le> smoothLatency prev sample
                   \<and> smoothLatency prev sample \<le> max prev sample)"
  by (auto simp: smoothLatency_unat word_le_nat_alt min_def max_def) (simp add: smoothLatency_def)

theorem smoothLatency_between_witness: "min 100 200 \<le> smoothLatency 100 200"
  using smoothLatency_between [of 100 200] by simp

section \<open>Spacing on one address\<close>

lemma EligibleAt_Spend:
  "EligibleAt (Spend a now iv t) b
     = (if a = b \<and> a \<noteq> zeroIP then now + max (quot (max iv (it_floor t)) Second) 1
        else EligibleAt t b)"
  by (simp add: EligibleAt_def Spend_def Let_def map_of_mput)

lemma it_floor_Spend [simp]: "it_floor (Spend a now iv t) = it_floor t"
  by (simp add: Spend_def Let_def)

text \<open>A run of dispatches in which every dispatch respects the table.\<close>

fun ip_legal :: "IPTable \<Rightarrow> (ip \<times> int \<times> duration) list \<Rightarrow> bool" where
  "ip_legal t [] = True"
| "ip_legal t ((a, now, iv) # ds) = (EligibleAt t a \<le> now \<and> ip_legal (Spend a now iv t) ds)"

lemma ip_legal_later:
  assumes "ip_legal t ds" "j < length ds"
  shows "EligibleAt t (fst (ds ! j)) \<le> fst (snd (ds ! j))"
  using assms
proof (induction t ds arbitrary: j rule: ip_legal.induct)
  case (2 t a now iv ds)
  show ?case
  proof (cases j)
    case 0
    with "2.prems" show ?thesis by simp
  next
    case (Suc k)
    have "EligibleAt (Spend a now iv t) (fst (ds ! k)) \<le> fst (snd (ds ! k))"
      using "2.IH" [of k] "2.prems" Suc by simp
    with "2.prems"(1) Suc show ?thesis by (auto simp: EligibleAt_Spend split: if_splits)
  qed
qed simp

text \<open>C31: in any run of dispatches that consults the table before each one, two dispatches to the
  same resolved address are at least the first one's step apart: its interval or the per-IP floor,
  whichever is longer, in whole seconds and at least one.  Dispatches to other addresses, in any
  interleaving, never shorten it.\<close>

theorem ip_dispatches_spaced:
  assumes "ip_legal t ds" "i < j" "j < length ds" "ds ! i = (a, ti, iv)" "ds ! j = (a, tj, iv')"
    "a \<noteq> zeroIP"
  shows "tj \<ge> ti + max (quot (max iv (it_floor t)) Second) 1"
  using assms
proof (induction t ds arbitrary: i j rule: ip_legal.induct)
  case (2 t b now v ds)
  obtain j' where j: "j = Suc j'" using "2.prems"(2) by (cases j) auto
  show ?case
  proof (cases i)
    case 0
    then have "EligibleAt (Spend a ti iv t) a \<le> tj"
      using ip_legal_later [of "Spend b now v t" ds j'] "2.prems" j by simp
    then show ?thesis using "2.prems"(6) by (simp add: EligibleAt_Spend)
  next
    case (Suc i')
    then show ?thesis using "2.IH" [of i' j'] "2.prems" j by simp
  qed
qed simp

theorem ip_dispatches_spaced_witness:
  "(2::int) \<ge> 0 + max (quot (max 0 (500 * Millisecond)) Second) 1"
  using ip_dispatches_spaced [of "NewIPTable (500 * Millisecond)"
      "[(replicate 16 1, 0, 0), (replicate 16 2, 0, 0), (replicate 16 1, 2, 0)]" 0 2
      "replicate 16 1" 0 0 2 0]
  by (simp add: NewIPTable_def EligibleAt_Spend EligibleAt_def zeroIP_def quot_def Second_def
      Millisecond_def numeral_eq_Suc)

lemma Evict_spec:
  "fst (Evict cutoff t) + IPTable_Len (snd (Evict cutoff t)) = IPTable_Len t
   \<and> (\<forall>b. mget (it_buckets (snd (Evict cutoff t))) k = Some b \<longrightarrow> ib_touched b > cutoff)"
proof -
  have "length (filter P xs) + length (filter (\<lambda>x. \<not> P x) xs) = length xs" for P and xs :: "(ip \<times> ipBucket) list"
    by (rule sum_length_filter_compl)
  from this [of "\<lambda>(k, b). ib_touched b \<le> cutoff" "it_buckets t"]
  show ?thesis
    by (auto simp: Evict_def Let_def IPTable_Len_def case_prod_unfold dest!: map_of_SomeD)
qed

end
