(* ===== verification/BloomFilter.thy ===== *)
theory BloomFilter
  imports GoFloat Records
begin

unbundle bit_operations_syntax

text \<open>
  The blocked Bloom filter of \<^verbatim>\<open>dedup/filter.go\<close> and its portable blob
  (\<^verbatim>\<open>dedup/serialize.go\<close>).  The interface the seen-set relies on is the locale \<open>one_sided\<close>: a key
  that was added is always reported, and adding never hides a key.  \<^verbatim>\<open>math.Log\<close> is the parameter
  \<open>logf\<close>, the float64 it returns; no fact about it is needed.
\<close>

section \<open>The interface of an approximate membership filter\<close>

locale one_sided =
  fixes wf :: "'f \<Rightarrow> bool"
    and add :: "'k \<Rightarrow> 'f \<Rightarrow> 'f"
    and probe :: "'f \<Rightarrow> 'k \<Rightarrow> bool"
  assumes add_wf: "wf f \<Longrightarrow> wf (add k f)"
    and probe_add: "wf f \<Longrightarrow> probe (add k f) k"
    and probe_mono: "wf f \<Longrightarrow> probe f k \<Longrightarrow> probe (add k' f) k"
begin

lemma fold_wf: "wf f \<Longrightarrow> wf (fold add ks f)"
  by (induction ks arbitrary: f) (auto intro: add_wf)

lemma fold_keeps: "wf f \<Longrightarrow> probe f k \<Longrightarrow> probe (fold add ks f) k"
  by (induction ks arbitrary: f) (auto intro: add_wf probe_mono)

lemma no_false_negative:
  assumes "wf f" "k \<in> set ks"
  shows "probe (fold add ks f) k"
proof -
  obtain as bs where "ks = as @ k # bs" using split_list [OF assms(2)] by blast
  then show ?thesis
    using fold_keeps [OF add_wf [OF fold_wf [OF assms(1)]] probe_add [OF fold_wf [OF assms(1)]]] by simp
qed

end

section \<open>The blocked Bloom filter\<close>

definition blockWords :: nat where "blockWords = 8"

record filter_t =
  f_blocks :: "u64 list"
  f_nBlock :: u64
  f_k :: nat
  f_n :: u64
  f_cap :: u64

text \<open>\<^verbatim>\<open>math.Ln2\<close> and \<^verbatim>\<open>math.Round\<close>, which rounds half away from zero.\<close>

definition Ln2 :: rat where
  "Ln2 = fl64 (693147180559945309417232121458176568 / 10 ^ 36)"

definition Round :: "rat \<Rightarrow> int" where
  "Round x = (if x < 0 then - \<lfloor>- x + 1 / 2\<rfloor> else \<lfloor>x + 1 / 2\<rfloor>)"

definition newFilter :: "(rat \<Rightarrow> rat) \<Rightarrow> u64 \<Rightarrow> rat \<Rightarrow> filter_t" where
  "newFilter logf capacity0 fpRate0 =
     (let capacity = (if capacity0 = 0 then 1 else capacity0);
          fpRate = (if fpRate0 \<le> 0 \<or> fpRate0 \<ge> 1 then fl64 (1 / 100) else fpRate0);
          bitsPerKey0 = fl64 (- logf fpRate / fl64 (Ln2 * Ln2));
          bitsPerKey = fl64 (bitsPerKey0 * fl64 (115 / 100));
          m = (word_of_int \<lceil>fl64 (fl64 (of_nat (unat capacity)) * bitsPerKey)\<rceil> :: u64);
          nBlock = m div 512 + 1;
          k0 = Round (fl64 (bitsPerKey * Ln2));
          k1 = max k0 1;
          k2 = min k1 16 in
      \<lparr> f_blocks = replicate (unat nBlock * blockWords) 0, f_nBlock = nBlock, f_k = nat k2,
        f_n = 0, f_cap = capacity \<rparr>)"

definition hashKey :: "URLKey \<Rightarrow> u64" where
  "hashKey key =
     (let h0 = HostKey key * 0x9E3779B97F4A7C15 + PathKey key;
          h1 = h0 XOR drop_bit 33 h0;
          h2 = h1 * 0xFF51AFD7ED558CCD;
          h3 = h2 XOR drop_bit 33 h2 in h3)"

text \<open>The remainder by \<open>nBlock\<close> is a Go run-time panic when \<open>nBlock\<close> is zero; \<open>filter_wf\<close> excludes
  that, and \<open>locate_panics\<close> names it.\<close>

definition locate :: "filter_t \<Rightarrow> URLKey \<Rightarrow> u64 \<times> u64 \<times> u64" where
  "locate f key =
     (let h = hashKey key;
          block = h mod f_nBlock f;
          h1 = h;
          h2 = PathKey key OR 1 in (block, h1, h2))"

definition locate_panics :: "filter_t \<Rightarrow> bool" where
  "locate_panics f \<longleftrightarrow> f_nBlock f = 0"

text \<open>The word index and the bit number of the \<open>i\<close>-th position of a key, with the 64-bit
  arithmetic of the source.\<close>

definition bit_index :: "u64 \<Rightarrow> u64 \<Rightarrow> u64 \<Rightarrow> nat \<Rightarrow> nat \<times> nat" where
  "bit_index base h1 h2 i =
     (let b = (h1 + of_nat i * h2) AND 511 in (unat (base + b div 64), unat (b mod 64)))"

definition set_position :: "nat \<times> nat \<Rightarrow> u64 list \<Rightarrow> u64 list" where
  "set_position p blocks = blocks[fst p := (blocks ! fst p) OR push_bit (snd p) 1]"

definition test_position :: "nat \<times> nat \<Rightarrow> u64 list \<Rightarrow> bool" where
  "test_position p blocks \<longleftrightarrow> (blocks ! fst p) AND push_bit (snd p) 1 \<noteq> 0"

definition filter_add :: "URLKey \<Rightarrow> filter_t \<Rightarrow> filter_t" where
  "filter_add key f =
     (let (block, h1, h2) = locate f key;
          base = block * 8;
          blocks' = fold (\<lambda>i bl. set_position (bit_index base h1 h2 i) bl) [0..<f_k f] (f_blocks f) in
      f\<lparr> f_blocks := blocks', f_n := f_n f + 1 \<rparr>)"

definition maybeSeen :: "filter_t \<Rightarrow> URLKey \<Rightarrow> bool" where
  "maybeSeen f key =
     (let (block, h1, h2) = locate f key;
          base = block * 8 in
      list_all (\<lambda>i. test_position (bit_index base h1 h2 i) (f_blocks f)) [0..<f_k f])"

text \<open>Both operands are integers below \<open>2 ^ 53\<close> in a filter that fits in memory; the conversions round
  like every other float operation.\<close>

definition bitsPerKey :: "filter_t \<Rightarrow> rat" where
  "bitsPerKey f =
     (if f_n f = 0 then 0
      else fl64 (fl64 (of_nat (length (f_blocks f) * 64)) / fl64 (of_nat (unat (f_n f)))))"

section \<open>Serialized form (serialize.go)\<close>

datatype filter_error = errBadFilterBlob

definition filterBlobVersion :: u8 where "filterBlobVersion = 1"
definition filterKindBlockedBloom :: u8 where "filterKindBlockedBloom = 0"
definition filterKindRibbon :: u8 where "filterKindRibbon = 1"
definition filterBlobHeaderSize :: nat where "filterBlobHeaderSize = 8"

definition filter_marshal :: "filter_t \<Rightarrow> u8 list" where
  "filter_marshal f =
     [filterBlobVersion, filterKindBlockedBloom, of_nat (f_k f), 0, 0, 0, 0, 0]
     @ PutUint64 (f_nBlock f) @ PutUint64 (f_n f) @ PutUint64 (f_cap f)
     @ concat (map PutUint64 (f_blocks f))"

text \<open>\<^verbatim>\<open>binary.LittleEndian.Uint64(b[p:])\<close>, and the body loop of \<open>words\<close> reads.\<close>

definition read64 :: "nat \<Rightarrow> u8 list \<Rightarrow> u64" where
  "read64 p b = Uint64 (take 8 (drop p b))"

text \<open>\<^verbatim>\<open>int(nBlock) * blockWords\<close> is a 64-bit product; the comparison with the body length is on
  that wrapped value.\<close>

definition unmarshalBloom :: "u8 list \<Rightarrow> filter_error + filter_t" where
  "unmarshalBloom b =
     (if length b < filterBlobHeaderSize + 24 then Inl errBadFilterBlob
      else
        (let k = unat (b ! 2);
             p = filterBlobHeaderSize;
             nBlock = read64 p b;
             n = read64 (p + 8) b;
             cp = read64 (p + 16) b;
             body = drop (p + 24) b;
             words = nBlock * 8 in
         if (of_nat (length body) :: u64) \<noteq> words * 8 then Inl errBadFilterBlob
         else Inr \<lparr> f_blocks = map (\<lambda>i. read64 (i * 8) body) [0..<unat words],
                    f_nBlock = nBlock, f_k = k, f_n = n, f_cap = cp \<rparr>))"

section \<open>One-sidedness\<close>

definition filter_wf :: "filter_t \<Rightarrow> bool" where
  "filter_wf f \<longleftrightarrow> 0 < unat (f_nBlock f) \<and> unat (f_nBlock f) < 2 ^ 61
     \<and> length (f_blocks f) = unat (f_nBlock f) * blockWords"

lemma filter_wf_new: "filter_wf (newFilter logf cp fp)"
proof -
  have "0 < unat (m div 512 + 1) \<and> unat (m div 512 + 1) < 2 ^ 61" for m :: u64
  proof -
    have "unat (m div 512) = unat m div 512" by (simp add: unat_div)
    moreover have "unat m div 512 < 2 ^ 55" using unat_lt_2p64 [of m] by simp
    ultimately show ?thesis by (simp add: unat_word_ariths)
  qed
  then show ?thesis by (simp add: filter_wf_def newFilter_def Let_def)
qed

lemma newFilter_k: "1 \<le> f_k (newFilter logf cp fp) \<and> f_k (newFilter logf cp fp) \<le> 16"
  unfolding newFilter_def Let_def filter_t.select_convs by linarith

lemma length_set_position [simp]: "length (set_position p bl) = length bl"
  by (simp add: set_position_def)

lemma test_position_bit:
  assumes "snd p < 64"
  shows "test_position p bl \<longleftrightarrow> bit (bl ! fst p) (snd p)"
proof -
  have "(w AND push_bit n 1 \<noteq> 0) = bit w n" if "n < 64" for w :: u64 and n
    using that by (simp add: and_exp_eq_0_iff_not_bit push_bit_eq_mult)
  then show ?thesis using assms by (simp add: test_position_def)
qed

lemma test_set_position:
  assumes "fst p < length bl" "snd p < 64" "snd q < 64"
  shows "test_position q (set_position p bl) \<longleftrightarrow> p = q \<or> test_position q bl"
  using assms
  by (cases p; cases q)
     (auto simp: test_position_bit set_position_def nth_list_update bit_or_iff bit_exp_iff)

lemma bit_index_bounds:
  assumes "filter_wf f" "locate f key = (block, h1, h2)"
  shows "fst (bit_index (block * 8) h1 h2 i) < length (f_blocks f)
         \<and> snd (bit_index (block * 8) h1 h2 i) < 64"
proof -
  let ?b = "(h1 + of_nat i * h2) AND 511"
  have n: "0 < unat (f_nBlock f)" "unat (f_nBlock f) < 2 ^ 61" using assms(1) by (auto simp: filter_wf_def)
  have block: "unat block < unat (f_nBlock f)"
    using assms(2) n by (auto simp: locate_def Let_def unat_mod)
  have b: "unat ?b < 512"
  proof -
    have "?b \<le> 511" by (rule word_and_le1)
    then show ?thesis by (simp add: word_le_nat_alt)
  qed
  have "unat (?b div 64) < 8" using b by (simp add: unat_div)
  moreover have "unat (block * 8) = unat block * 8"
    using block n by (simp add: unat_word_ariths)
  ultimately have "unat (block * 8 + ?b div 64) < unat (f_nBlock f) * 8"
    using block n by (simp add: unat_word_ariths)
  moreover have "unat (?b mod 64) < 64" by (simp add: unat_mod)
  ultimately show ?thesis
    using assms(1) by (simp add: bit_index_def Let_def filter_wf_def blockWords_def)
qed

lemma test_fold_set_position:
  assumes "\<forall>p \<in> set ps. fst p < length bl \<and> snd p < 64" "snd q < 64"
  shows "test_position q (fold set_position ps bl) \<longleftrightarrow> q \<in> set ps \<or> test_position q bl"
  using assms
proof (induction ps arbitrary: bl)
  case (Cons p ps)
  then show ?case by (auto simp: test_set_position)
qed simp

text \<open>The positions of a key in a filter.\<close>

definition positions :: "filter_t \<Rightarrow> URLKey \<Rightarrow> (nat \<times> nat) list" where
  "positions f key =
     (let (block, h1, h2) = locate f key in map (bit_index (block * 8) h1 h2) [0..<f_k f])"

lemma positions_add [simp]: "positions (filter_add k f) = positions f"
  by (intro ext) (simp add: positions_def filter_add_def locate_def Let_def)

lemma positions_bounds:
  "filter_wf f \<Longrightarrow> p \<in> set (positions f key) \<Longrightarrow> fst p < length (f_blocks f) \<and> snd p < 64"
  using bit_index_bounds [of f key] by (auto simp: positions_def split: prod.splits)

lemma filter_add_blocks: "f_blocks (filter_add k f) = fold set_position (positions f k) (f_blocks f)"
  by (simp add: filter_add_def positions_def Let_def fold_map o_def split: prod.splits)

lemma maybeSeen_positions: "maybeSeen f key \<longleftrightarrow> (\<forall>p \<in> set (positions f key). test_position p (f_blocks f))"
  by (cases "locate f key") (simp add: maybeSeen_def positions_def Let_def list_all_iff)

lemma length_fold_set_position [simp]: "length (fold set_position ps bl) = length bl"
  by (induction ps arbitrary: bl) auto

lemma filter_add_wf: "filter_wf f \<Longrightarrow> filter_wf (filter_add k f)"
  by (simp add: filter_wf_def filter_add_blocks) (simp add: filter_add_def Let_def split: prod.splits)

lemma maybeSeen_add:
  assumes "filter_wf f"
  shows "maybeSeen (filter_add k f) key
           \<longleftrightarrow> (\<forall>p \<in> set (positions f key). p \<in> set (positions f k) \<or> test_position p (f_blocks f))"
  using assms by (auto simp: maybeSeen_positions filter_add_blocks test_fold_set_position positions_bounds)

interpretation bloom: one_sided filter_wf filter_add maybeSeen
proof
  fix f k k'
  assume wf: "filter_wf f"
  show "filter_wf (filter_add k f)" using wf by (rule filter_add_wf)
  show "maybeSeen (filter_add k f) k" using wf by (simp add: maybeSeen_add)
  assume "maybeSeen f k"
  then show "maybeSeen (filter_add k' f) k" using wf by (simp add: maybeSeen_add maybeSeen_positions [of f])
qed

text \<open>the resident filter is one-sided: whatever capacity and rate it was sized for, and whatever
  logarithm the sizing used, every key among the keys added is reported as maybe seen, so a key
  reported as not seen was never added.\<close>

theorem filter_no_false_negative:
  "list_all (maybeSeen (fold filter_add ks (newFilter logf capacity fpRate))) ks"
  using bloom.no_false_negative [OF filter_wf_new] by (auto simp: list_all_iff)

section \<open>The blob\<close>

lemma read64_append [simp]: "read64 0 (PutUint64 x @ r) = x"
  by (simp add: read64_def)

lemma read64_skip: "p \<ge> length a \<Longrightarrow> read64 p (a @ b) = read64 (p - length a) b"
  by (simp add: read64_def)

lemma read64_concat: "i < length ws \<Longrightarrow> read64 (i * 8) (concat (map PutUint64 ws)) = ws ! i"
proof (induction ws arbitrary: i)
  case (Cons w ws)
  then show ?case by (cases i) (auto simp: read64_skip)
qed simp

lemma length_concat_Put [simp]: "length (concat (map PutUint64 ws)) = 8 * length ws"
  by (induction ws) auto

text \<open>a filter survives its blob: unmarshalling a marshalled filter returns the same filter, and
  so the same answers, for every filter that fits in memory (fewer than \<open>2 ^ 58\<close> blocks) and sets at
  most 255 bits per key.\<close>

theorem filter_blob_roundtrip:
  assumes "filter_wf f" "unat (f_nBlock f) < 2 ^ 58" "f_k f < 256"
  shows "unmarshalBloom (filter_marshal f) = Inr f"
proof -
  let ?h = "[filterBlobVersion, filterKindBlockedBloom, of_nat (f_k f), 0, 0, 0, 0, 0] :: u8 list"
  let ?body = "concat (map PutUint64 (f_blocks f))"
  have m: "filter_marshal f = ?h @ PutUint64 (f_nBlock f) @ PutUint64 (f_n f) @ PutUint64 (f_cap f) @ ?body"
    by (simp add: filter_marshal_def)
  have len: "length (f_blocks f) = unat (f_nBlock f) * 8"
    using assms(1) by (simp add: filter_wf_def blockWords_def)
  have rd: "read64 8 (filter_marshal f) = f_nBlock f" "read64 16 (filter_marshal f) = f_n f"
    "read64 24 (filter_marshal f) = f_cap f" "drop 32 (filter_marshal f) = ?body"
    unfolding m by (simp_all add: read64_skip del: append_Cons)
  have k: "unat (filter_marshal f ! 2) = f_k f"
    using assms(3) by (simp add: m of_nat_inverse_8)
  have w: "unat (f_nBlock f * 8) = length (f_blocks f)"
    using assms(2) by (simp add: len unat_word_ariths)
  have "(of_nat (length (drop 32 (filter_marshal f))) :: u64) = f_nBlock f * 8 * 8"
    unfolding rd(4) by (simp add: len)
  moreover have "map (\<lambda>i. read64 (i * 8) ?body) [0..<length (f_blocks f)] = f_blocks f"
    by (rule nth_equalityI) (simp_all add: read64_concat)
  moreover have "length (filter_marshal f) \<ge> 32" unfolding m by simp
  ultimately show ?thesis
    by (simp add: unmarshalBloom_def filterBlobHeaderSize_def Let_def rd k w del: length_drop)
qed

theorem filter_blob_roundtrip_witness:
  "unmarshalBloom (filter_marshal \<lparr> f_blocks = replicate 8 5, f_nBlock = 1, f_k = 7, f_n = 3, f_cap = 9 \<rparr>)
     = Inr \<lparr> f_blocks = replicate 8 5, f_nBlock = 1, f_k = 7, f_n = 3, f_cap = 9 \<rparr>"
  using filter_blob_roundtrip [of "\<lparr> f_blocks = replicate 8 5, f_nBlock = 1, f_k = 7, f_n = 3, f_cap = 9 \<rparr>"]
  by (simp add: filter_wf_def blockWords_def)

text \<open>a blob of thirty-two bytes that claims zero blocks is accepted as well formed, and the filter
  it yields panics with a division by zero on its first probe.\<close>

theorem empty_blob_accepted:
  "\<exists>f. unmarshalBloom (filterBlobVersion # filterKindBlockedBloom # 7 # replicate 29 0) = Inr f
       \<and> locate_panics f"
  by (simp add: unmarshalBloom_def filterBlobHeaderSize_def Let_def read64_def Uint64_def locate_panics_def
      numeral_eq_Suc)

end
