(* ===== verification/Drum.thy ===== *)
theory Drum
  imports Records
begin

text \<open>
  The exact tier of the seen-set, \<^verbatim>\<open>dedup/drum.go\<close>: buckets of sorted keys by the high bits of the
  host key, the single-key operations by binary search, and the batched merge.  The abstraction of
  an exact set is the set of its keys; the theory shows that every operation implements the set
  operation, that the buckets stay sorted, disjoint runs, and that the batched merge returns the
  verdicts the single-key path returns.
\<close>

section \<open>Operations\<close>

datatype pendingOp = opCheckInsert | opInsertOnly

record pendingKey =
  pk_key :: URLKey
  pk_op :: pendingOp

record Classification =
  cl_Key :: URLKey
  cl_Unique :: bool

record exactSet =
  e_buckets :: "URLKey list list"
  e_shift :: nat
  e_size :: nat

text \<open>The doubling loop of \<^verbatim>\<open>newExactSet\<close>; the guard \<open>0 < n\<close>
  always holds from the start value 1 and makes the function total.\<close>

function double_until :: "nat \<Rightarrow> nat \<Rightarrow> nat \<Rightarrow> nat \<times> nat" where
  "double_until nBuckets n bits =
     (if 0 < n \<and> n < nBuckets then double_until nBuckets (2 * n) (Suc bits) else (n, bits))"
  by pat_completeness auto
termination
  by (relation "measure (\<lambda>(m, n, b). m - n)") auto

declare double_until.simps [simp del]

definition newExactSet :: "nat \<Rightarrow> exactSet" where
  "newExactSet nBuckets =
     (let (n, bits) = double_until nBuckets 1 0 in
      \<lparr> e_buckets = replicate n [], e_shift = 64 - bits, e_size = 0 \<rparr>)"

definition bucketOf :: "exactSet \<Rightarrow> URLKey \<Rightarrow> nat" where
  "bucketOf s key = (if e_shift s \<ge> 64 then 0 else unat (drop_bit (e_shift s) (HostKey key)))"

definition exact_keys :: "exactSet \<Rightarrow> URLKey list" where
  "exact_keys s = concat (e_buckets s)"

definition key_pos :: "URLKey list \<Rightarrow> URLKey \<Rightarrow> nat" where
  "key_pos b key = Search (length b) (\<lambda>i. \<not> URLKey_Less (b ! i) key)"

definition exact_contains :: "exactSet \<Rightarrow> URLKey \<Rightarrow> bool" where
  "exact_contains s key =
     (let b = e_buckets s ! bucketOf s key;
          i = key_pos b key in
      i < length b \<and> b ! i = key)"

definition exact_add :: "URLKey \<Rightarrow> exactSet \<Rightarrow> bool \<times> exactSet" where
  "exact_add key s =
     (let idx = bucketOf s key;
          b = e_buckets s ! idx;
          i = key_pos b key in
      if i < length b \<and> b ! i = key then (False, s)
      else (True, s\<lparr> e_buckets := (e_buckets s)[idx := take i b @ key # drop i b],
                      e_size := e_size s + 1 \<rparr>))"

fun mergeSortedRuns :: "URLKey list \<Rightarrow> URLKey list \<Rightarrow> URLKey list" where
  "mergeSortedRuns [] b = b"
| "mergeSortedRuns a [] = a"
| "mergeSortedRuns (x # a) (y # b) =
     (if URLKey_Less x y then x # mergeSortedRuns a (y # b) else y # mergeSortedRuns (x # a) b)"

text \<open>The comparison \<^verbatim>\<open>mergeBucket\<close> sorts a run by is total and equal elements are
  indistinguishable, so the unstable library sort has one result, the insertion sort below.\<close>

definition op_rank :: "pendingOp \<Rightarrow> nat" where
  "op_rank op = (case op of opCheckInsert \<Rightarrow> 0 | opInsertOnly \<Rightarrow> 1)"

definition run_less :: "pendingKey \<Rightarrow> pendingKey \<Rightarrow> bool" where
  "run_less a b =
     (if pk_key a = pk_key b then op_rank (pk_op a) < op_rank (pk_op b)
      else URLKey_Less (pk_key a) (pk_key b))"

fun insert_run :: "pendingKey \<Rightarrow> pendingKey list \<Rightarrow> pendingKey list" where
  "insert_run a [] = [a]"
| "insert_run a (b # r) = (if run_less b a then b # insert_run a r else a # b # r)"

definition sort_run :: "pendingKey list \<Rightarrow> pendingKey list" where
  "sort_run r = foldr insert_run r []"

text \<open>The loop of \<^verbatim>\<open>mergeBucket\<close>.  The disk pointer is the suffix of the bucket not yet passed;
  \<open>lastNew\<close> together with \<open>haveNew\<close> is an option.\<close>

fun drum_loop :: "URLKey list \<Rightarrow> URLKey option \<Rightarrow> pendingKey list \<Rightarrow> Classification list \<Rightarrow> URLKey list
    \<Rightarrow> Classification list \<times> URLKey list" where
  "drum_loop disk lastNew [] out newKeys = (out, newKeys)"
| "drum_loop disk lastNew (pk # run) out newKeys =
     (let disk' = dropWhile (\<lambda>d. URLKey_Less d (pk_key pk)) disk;
          onDisk = (case disk' of [] \<Rightarrow> False | d # _ \<Rightarrow> d = pk_key pk);
          dupInBatch = (lastNew = Some (pk_key pk)) in
      if onDisk \<or> dupInBatch then
        drum_loop disk' lastNew run
          (if pk_op pk = opCheckInsert then out @ [\<lparr>cl_Key = pk_key pk, cl_Unique = False\<rparr>] else out)
          newKeys
      else
        drum_loop disk' (Some (pk_key pk)) run
          (if pk_op pk = opCheckInsert then out @ [\<lparr>cl_Key = pk_key pk, cl_Unique = True\<rparr>] else out)
          (newKeys @ [pk_key pk]))"

definition mergeBucket :: "nat \<Rightarrow> pendingKey list \<Rightarrow> Classification list \<Rightarrow> exactSet
    \<Rightarrow> Classification list \<times> exactSet" where
  "mergeBucket idx run out s =
     (let disk = e_buckets s ! idx;
          (out', newKeys) = drum_loop disk None (sort_run run) out [] in
      if newKeys \<noteq> [] then
        (out', s\<lparr> e_buckets := (e_buckets s)[idx := mergeSortedRuns disk newKeys],
                   e_size := e_size s + length newKeys \<rparr>)
      else (out', s))"

text \<open>\<^verbatim>\<open>merge\<close> ranges over a Go map of bucket runs, so the order of the buckets is unspecified: it is
  the argument \<open>ord\<close>, any enumeration without repetition of the buckets the batch touches.\<close>

definition exact_merge :: "nat list \<Rightarrow> pendingKey list \<Rightarrow> exactSet \<Rightarrow> Classification list \<times> exactSet" where
  "exact_merge ord batch s =
     (if batch = [] then ([], s)
      else fold (\<lambda>idx (out, s'). mergeBucket idx (filter (\<lambda>pk. bucketOf s (pk_key pk) = idx) batch) out s')
             ord ([], s))"

section \<open>Sorted buckets\<close>

lemma key_pos_least:
  assumes "sorted_wrt (<) b"
  shows "least_from (length b) (\<lambda>i. key \<le> b ! i) (key_pos b key)"
proof -
  have "mono_below (length b) (\<lambda>i. \<not> URLKey_Less (b ! i) key)"
    unfolding mono_below_def URLKey_Less_iff not_less
    using assms by (metis le_neq_implies_less less_imp_le order_trans sorted_wrt_nth_less)
  from Search_spec [OF this] show ?thesis by (simp add: key_pos_def URLKey_Less_iff not_less)
qed

lemma key_pos_found:
  assumes "sorted_wrt (<) b"
  shows "(key_pos b key < length b \<and> b ! key_pos b key = key) \<longleftrightarrow> key \<in> set b"
proof
  assume "key \<in> set b"
  then obtain i where i: "i < length b" "b ! i = key" by (auto simp: in_set_conv_nth)
  note ls = least_fromD [OF key_pos_least [OF assms, of key]]
  have le: "key_pos b key \<le> i" using ls(2) [of i] i by (meson le_less_linear order_refl)
  then have "key_pos b key < length b" using i by simp
  moreover have "\<not> key_pos b key < i"
    using ls(3) [OF calculation] sorted_wrt_nth_less [OF assms, of "key_pos b key" i] i by auto
  ultimately show "key_pos b key < length b \<and> b ! key_pos b key = key" using le i by simp
qed (auto dest: nth_mem)

lemma insert_at_pos:
  assumes "sorted_wrt (<) b" "key \<notin> set b"
  shows "sorted_wrt (<) (take (key_pos b key) b @ key # drop (key_pos b key) b)"
    and "set (take (key_pos b key) b @ key # drop (key_pos b key) b) = insert key (set b)"
proof -
  let ?i = "key_pos b key"
  note ls = least_fromD [OF key_pos_least [OF assms(1), of key]]
  have lo: "x < key" if x: "x \<in> set (take ?i b)" for x
  proof -
    obtain j where "j < ?i" "x = b ! j" using x ls(1) by (auto simp: in_set_conv_nth)
    then show ?thesis using ls(2) [of j] by simp
  qed
  have hi: "key < x" if x: "x \<in> set (drop ?i b)" for x
  proof -
    obtain j where j: "?i + j < length b" "x = b ! (?i + j)"
    proof -
      obtain l where l: "l < length (drop ?i b)" "x = drop ?i b ! l" using x by (auto simp: in_set_conv_nth)
      then show ?thesis using ls(1) by (intro that [of l]) auto
    qed
    have "key \<le> b ! ?i" using j by (intro ls(3)) simp
    moreover have "b ! ?i \<le> x" using j sorted_wrt_nth_less [OF assms(1), of ?i "?i + j"]
      by (cases "j = 0") auto
    moreover have "x \<noteq> key" using j(2) assms(2) nth_mem [OF j(1)] by metis
    ultimately show ?thesis by order
  qed
  have "\<forall>x \<in> set (take ?i b). \<forall>y \<in> set (drop ?i b). x < y" using lo hi by (meson less_trans)
  then show "sorted_wrt (<) (take ?i b @ key # drop ?i b)"
    using assms(1) lo hi sorted_wrt_take [OF assms(1), of ?i] sorted_wrt_drop [OF assms(1), of ?i]
    by (auto simp: sorted_wrt_append)
  have "set b = set (take ?i b) \<union> set (drop ?i b)" by (metis append_take_drop_id set_append)
  then show "set (take ?i b @ key # drop ?i b) = insert key (set b)" by auto
qed

lemma mergeSortedRuns_set: "set (mergeSortedRuns a b) = set a \<union> set b"
  by (induction a b rule: mergeSortedRuns.induct) auto

lemma mergeSortedRuns_length: "length (mergeSortedRuns a b) = length a + length b"
  by (induction a b rule: mergeSortedRuns.induct) auto

lemma mergeSortedRuns_sorted:
  assumes "sorted_wrt (<) a" "sorted_wrt (<) b" "set a \<inter> set b = {}"
  shows "sorted_wrt (<) (mergeSortedRuns a b)"
  using assms
proof (induction a b rule: mergeSortedRuns.induct)
  case (3 x a y b)
  then show ?case by (auto simp: mergeSortedRuns_set URLKey_Less_iff not_less order.strict_iff_order intro: order_trans)
qed auto

section \<open>The invariant and the single-key operations\<close>

definition exact_abs :: "exactSet \<Rightarrow> URLKey set" where
  "exact_abs s = set (exact_keys s)"

definition exact_wf :: "exactSet \<Rightarrow> bool" where
  "exact_wf s \<longleftrightarrow>
     (\<exists>bits \<le> 64. e_shift s = 64 - bits \<and> length (e_buckets s) = 2 ^ bits)
     \<and> (\<forall>i < length (e_buckets s). sorted_wrt (<) (e_buckets s ! i)
          \<and> (\<forall>k \<in> set (e_buckets s ! i). bucketOf s k = i))
     \<and> e_size s = length (exact_keys s)"

lemma in_set_concat_nth: "x \<in> set (concat xss) \<longleftrightarrow> (\<exists>i < length xss. x \<in> set (xss ! i))"
  unfolding set_concat by (metis UN_iff in_set_conv_nth)

lemma double_until_pow:
  assumes "double_until m n bits = (n', bits')" "n = 2 ^ bits" "m \<le> 2 ^ 63" "bits \<le> 63"
  shows "n' = 2 ^ bits' \<and> bits' \<le> 63 \<and> m \<le> n'"
  using assms
proof (induction m n bits rule: double_until.induct)
  case (1 m n bits)
  show ?case
  proof (cases "0 < n \<and> n < m")
    case True
    then have "(2::nat) ^ bits < 2 ^ 63" using "1.prems"(2,3) by linarith
    then have "Suc bits \<le> 63" using power_less_imp_less_exp [of "2::nat" bits 63] by simp
    moreover have "double_until m (2 * n) (Suc bits) = (n', bits')"
      using "1.prems"(1) True by (simp add: double_until.simps [of m n])
    ultimately show ?thesis using "1.IH" [OF True] "1.prems" by simp
  next
    case False
    then have "double_until m n bits = (n, bits)" by (subst double_until.simps) (simp only: if_False)
    with False "1.prems" show ?thesis by auto
  qed
qed

lemma exact_wf_new: "n \<le> 2 ^ 63 \<Longrightarrow> exact_wf (newExactSet n)"
proof -
  assume n: "n \<le> 2 ^ 63"
  obtain n' bits where d: "double_until n 1 0 = (n', bits)" by (cases "double_until n 1 0")
  have b: "n' = 2 ^ bits" "bits \<le> 63" using double_until_pow [OF d] n by auto
  have e: "newExactSet n = \<lparr> e_buckets = replicate n' [], e_shift = 64 - bits, e_size = 0 \<rparr>"
    by (simp add: newExactSet_def d [unfolded One_nat_def])
  show ?thesis
    unfolding e exact_wf_def using b by (auto simp: exact_keys_def intro!: exI [of _ bits])
qed

lemma exact_abs_new [simp]: "exact_abs (newExactSet n) = {}"
  by (auto simp: exact_abs_def newExactSet_def exact_keys_def split: prod.splits)

lemma bucketOf_bound:
  assumes "exact_wf s"
  shows "bucketOf s key < length (e_buckets s)"
proof -
  obtain bits where b: "bits \<le> 64" "e_shift s = 64 - bits" "length (e_buckets s) = 2 ^ bits"
    using assms by (auto simp: exact_wf_def)
  have "unat (drop_bit (64 - bits) (HostKey key)) < 2 ^ bits"
  proof -
    have "unat (HostKey key) < 2 ^ (64 - bits) * 2 ^ bits"
      using unat_lt_2p64 [of "HostKey key"] b(1) by (simp flip: power_add)
    then have "unat (HostKey key) div 2 ^ (64 - bits) < 2 ^ bits"
      by (simp add: less_mult_imp_div_less mult.commute)
    then show ?thesis by (simp only: unat_drop_bit_eq drop_bit_nat_def)
  qed
  then show ?thesis using b by (auto simp: bucketOf_def)
qed

lemma bucketOf_cong [simp]:
  "bucketOf (s\<lparr>e_buckets := bs, e_size := n\<rparr>) = bucketOf s"
  by (intro ext) (simp add: bucketOf_def)

lemma exact_abs_bucket:
  assumes "exact_wf s"
  shows "key \<in> exact_abs s \<longleftrightarrow> key \<in> set (e_buckets s ! bucketOf s key)"
proof -
  have "key \<in> exact_abs s \<longleftrightarrow> (\<exists>i < length (e_buckets s). key \<in> set (e_buckets s ! i))"
    by (simp only: exact_abs_def exact_keys_def in_set_concat_nth)
  moreover have "bucketOf s key = i" if "i < length (e_buckets s)" "key \<in> set (e_buckets s ! i)" for i
    using assms that by (simp add: exact_wf_def)
  ultimately show ?thesis using bucketOf_bound [OF assms, of key] by auto
qed

lemma exact_update_wf:
  assumes "exact_wf s" "idx < length (e_buckets s)" "sorted_wrt (<) b"
    "set b = set (e_buckets s ! idx) \<union> N" "\<forall>k \<in> N. bucketOf s k = idx"
    "length b = length (e_buckets s ! idx) + m"
  shows "exact_wf (s\<lparr>e_buckets := (e_buckets s)[idx := b], e_size := e_size s + m\<rparr>)"
    and "exact_abs (s\<lparr>e_buckets := (e_buckets s)[idx := b], e_size := e_size s + m\<rparr>) = exact_abs s \<union> N"
proof -
  have old: "\<forall>k \<in> set (e_buckets s ! idx). bucketOf s k = idx"
    using assms(1,2) by (auto simp: exact_wf_def)
  have len: "length (concat ((e_buckets s)[idx := b])) = length (concat (e_buckets s)) + m"
    using length_concat_update [OF assms(2), of b] assms(6) by linarith
  have "sorted_wrt (<) ((e_buckets s)[idx := b] ! i) \<and> (\<forall>k \<in> set ((e_buckets s)[idx := b] ! i). bucketOf s k = i)"
    if "i < length (e_buckets s)" for i
    using that assms old by (cases "i = idx") (auto simp: exact_wf_def)
  then show "exact_wf (s\<lparr>e_buckets := (e_buckets s)[idx := b], e_size := e_size s + m\<rparr>)"
    using assms(1) len by (auto simp: exact_wf_def exact_keys_def)
  have "mset (concat ((e_buckets s)[idx := b])) + mset (e_buckets s ! idx) = mset (concat (e_buckets s)) + mset b"
    by (rule mset_concat_update [OF assms(2)])
  then have "set (concat ((e_buckets s)[idx := b])) \<union> set (e_buckets s ! idx) = set (concat (e_buckets s)) \<union> set b"
    by (metis set_mset_mset set_mset_union)
  moreover have "set (e_buckets s ! idx) \<subseteq> set (concat ((e_buckets s)[idx := b]))"
    using assms(2,4) set_update_memI [OF assms(2), of b] by auto
  moreover have "set (e_buckets s ! idx) \<subseteq> set (concat (e_buckets s))" using nth_mem [OF assms(2)] by auto
  ultimately show "exact_abs (s\<lparr>e_buckets := (e_buckets s)[idx := b], e_size := e_size s + m\<rparr>) = exact_abs s \<union> N"
    using assms(4) by (auto simp: exact_abs_def exact_keys_def)
qed

lemma bucket_sorted: "exact_wf s \<Longrightarrow> sorted_wrt (<) (e_buckets s ! bucketOf s key)"
  using bucketOf_bound [of s key] by (auto simp: exact_wf_def)

lemma exact_contains_iff: "exact_wf s \<Longrightarrow> exact_contains s key \<longleftrightarrow> key \<in> exact_abs s"
  by (simp add: exact_contains_def Let_def key_pos_found bucket_sorted exact_abs_bucket)

lemma exact_add_spec:
  assumes "exact_wf s"
  shows "fst (exact_add key s) \<longleftrightarrow> key \<notin> exact_abs s"
    and "exact_wf (snd (exact_add key s))"
    and "exact_abs (snd (exact_add key s)) = insert key (exact_abs s)"
proof -
  let ?b = "e_buckets s ! bucketOf s key"
  have f: "(key_pos ?b key < length ?b \<and> ?b ! key_pos ?b key = key) \<longleftrightarrow> key \<in> exact_abs s"
    using key_pos_found [OF bucket_sorted [OF assms]] exact_abs_bucket [OF assms] by simp
  show "fst (exact_add key s) \<longleftrightarrow> key \<notin> exact_abs s"
    using f by (simp add: exact_add_def Let_def)
  have "exact_wf (snd (exact_add key s)) \<and> exact_abs (snd (exact_add key s)) = insert key (exact_abs s)"
  proof (cases "key \<in> exact_abs s")
    case True
    then have "snd (exact_add key s) = s" using f by (simp add: exact_add_def Let_def)
    with True assms show ?thesis by auto
  next
    case False
    then have nb: "key \<notin> set ?b" using exact_abs_bucket [OF assms] by simp
    have pos: "key_pos ?b key \<le> length ?b"
      using least_fromD(1) [OF key_pos_least [OF bucket_sorted [OF assms]]] .
    note u = exact_update_wf [OF assms bucketOf_bound [OF assms] insert_at_pos(1) [OF bucket_sorted [OF assms] nb], where N = "{key}" and m = 1]
    show ?thesis
      using u f False insert_at_pos(2) [OF bucket_sorted [OF assms] nb] pos
      by (auto simp: exact_add_def Let_def)
  qed
  then show "exact_wf (snd (exact_add key s))"
    and "exact_abs (snd (exact_add key s)) = insert key (exact_abs s)" by auto
qed

lemma distinct_buckets:
  fixes bs :: "URLKey list list"
  assumes "\<forall>i < length bs. sorted_wrt (<) (bs ! i) \<and> (\<forall>k \<in> set (bs ! i). g k = i)"
  shows "distinct (concat bs)"
  using assms
proof (induction bs arbitrary: g)
  case (Cons b bs)
  have "\<forall>i < length bs. sorted_wrt (<) (bs ! i) \<and> (\<forall>k \<in> set (bs ! i). g k - 1 = i)"
    using Cons.prems by auto
  then have "distinct (concat bs)" by (rule Cons.IH)
  moreover have "distinct b" using Cons.prems by (auto simp: strict_sorted_iff)
  moreover have "g k = 0" if "k \<in> set b" for k using Cons.prems that by auto
  moreover have "0 < g k" if mem: "k \<in> set (concat bs)" for k
  proof -
    obtain i where "i < length bs" "k \<in> set (bs ! i)" using mem unfolding in_set_concat_nth by blast
    then have "g k = Suc i" using Cons.prems [rule_format, of "Suc i"] by simp
    then show ?thesis by simp
  qed
  ultimately show ?case by fastforce
qed simp

lemma exact_size_card:
  assumes "exact_wf s"
  shows "e_size s = card (exact_abs s)"
proof -
  have "distinct (exact_keys s)"
    using distinct_buckets [of "e_buckets s" "bucketOf s"] assms
    unfolding exact_keys_def exact_wf_def by blast
  then show ?thesis using assms by (simp add: exact_wf_def exact_abs_def distinct_card)
qed

text \<open>the exact set is a set: from a well-formed state, \<^verbatim>\<open>contains\<close> answers membership,
  \<^verbatim>\<open>add\<close> reports whether the key was new and inserts it, and the state stays well formed: every
  bucket a strictly sorted run of the keys routed to it, the counter the number of keys.\<close>

theorem exactSet_implements_set:
  assumes "exact_wf s"
  shows "(exact_contains s k \<longleftrightarrow> k \<in> exact_abs s)
     \<and> (fst (exact_add k s) \<longleftrightarrow> k \<notin> exact_abs s)
     \<and> exact_wf (snd (exact_add k s))
     \<and> exact_abs (snd (exact_add k s)) = insert k (exact_abs s)
     \<and> e_size s = card (exact_abs s)"
  using exact_contains_iff exact_add_spec exact_size_card assms by blast

theorem exactSet_implements_set_witness:
  "fst (exact_add (URLKey 7 9) (newExactSet 256)) \<and> exact_contains (newExactSet 256) (URLKey 7 9) = False"
  using exactSet_implements_set [OF exact_wf_new, of 256 "URLKey 7 9"] by simp

section \<open>The batched merge\<close>

text \<open>The reference classification: take the keys one at a time, a key is unique when it is not in
  the set accumulated so far.\<close>

fun classify :: "URLKey set \<Rightarrow> pendingKey list \<Rightarrow> Classification list \<times> URLKey list" where
  "classify S [] = ([], [])"
| "classify S (pk # run) =
     (let (cs, ns) = classify (insert (pk_key pk) S) run;
          c = (if pk_op pk = opCheckInsert
               then [\<lparr>cl_Key = pk_key pk, cl_Unique = pk_key pk \<notin> S\<rparr>] else []) in
      (c @ cs, if pk_key pk \<in> S then ns else pk_key pk # ns))"

lemma classify_cong:
  "\<forall>pk \<in> set run. pk_key pk \<in> S \<longleftrightarrow> pk_key pk \<in> T \<Longrightarrow> classify S run = classify T run"
proof (induction run arbitrary: S T)
  case (Cons pk run)
  then have "classify (insert (pk_key pk) S) run = classify (insert (pk_key pk) T) run" by auto
  with Cons.prems show ?case by (auto simp: Let_def split: prod.splits)
qed simp

lemma dropWhile_less_mem:
  assumes "sorted_wrt (<) disk" "(k::URLKey) \<le> x"
  shows "x \<in> set (dropWhile (\<lambda>d. URLKey_Less d k) disk) \<longleftrightarrow> x \<in> set disk"
  using assms by (induction disk) (auto simp: URLKey_Less_iff)

lemma dropWhile_less_hd:
  assumes "sorted_wrt (<) disk"
  shows "(case dropWhile (\<lambda>d. URLKey_Less d k) disk of [] \<Rightarrow> False | d # _ \<Rightarrow> d = k) \<longleftrightarrow> k \<in> set disk"
  using assms by (induction disk) (auto simp: URLKey_Less_iff)

lemma sorted_wrt_dropWhile: "sorted_wrt P xs \<Longrightarrow> sorted_wrt P (dropWhile Q xs)"
  by (induction xs) auto

lemma drum_loop_classify:
  assumes "sorted_wrt (\<lambda>a b. pk_key a \<le> pk_key b) run" "sorted_wrt (<) disk"
    "\<forall>pk \<in> set run. pk_key pk \<in> S \<longleftrightarrow> pk_key pk \<in> set disk \<or> lst = Some (pk_key pk)"
    "\<forall>pk \<in> set run. \<forall>l. lst = Some l \<longrightarrow> l \<le> pk_key pk"
  shows "drum_loop disk lst run out new = (out @ fst (classify S run), new @ snd (classify S run))"
  using assms
proof (induction run arbitrary: S disk lst out new)
  case (Cons pk run)
  let ?k = "pk_key pk" and ?d = "dropWhile (\<lambda>d. URLKey_Less d (pk_key pk)) disk"
  have le: "\<forall>q \<in> set run. ?k \<le> pk_key q" and srt: "sorted_wrt (\<lambda>a b. pk_key a \<le> pk_key b) run"
    using Cons.prems(1) by auto
  have on: "(case ?d of [] \<Rightarrow> False | d # _ \<Rightarrow> d = ?k) \<longleftrightarrow> ?k \<in> set disk"
    by (rule dropWhile_less_hd [OF Cons.prems(2)])
  have mem: "\<forall>q \<in> set run. pk_key q \<in> set ?d \<longleftrightarrow> pk_key q \<in> set disk"
    using dropWhile_less_mem [OF Cons.prems(2)] le by blast
  have srt': "sorted_wrt (<) ?d" using Cons.prems(2) by (rule sorted_wrt_dropWhile)
  have kS: "?k \<in> S \<longleftrightarrow> ?k \<in> set disk \<or> lst = Some ?k" using Cons.prems(3) by simp
  show ?case
  proof (cases "?k \<in> S")
    case True
    have "drum_loop ?d lst run o1 n1 = (o1 @ fst (classify (insert ?k S) run), n1 @ snd (classify (insert ?k S) run))" for o1 n1
      using Cons.prems(3,4) mem True by (intro Cons.IH srt srt') (auto simp: insert_absorb)
    with True kS show ?thesis by (simp add: on Let_def split: prod.splits)
  next
    case False
    have "drum_loop ?d (Some ?k) run o1 n1 = (o1 @ fst (classify (insert ?k S) run), n1 @ snd (classify (insert ?k S) run))" for o1 n1
      using Cons.prems(3,4) mem le False kS by (intro Cons.IH srt srt') force+
    with False kS show ?thesis by (simp add: on Let_def split: prod.splits)
  qed
qed simp

lemma insert_run_mset [simp]: "mset (insert_run a r) = add_mset a (mset r)"
  by (induction r) auto

lemma sort_run_mset: "mset (sort_run r) = mset r"
  unfolding sort_run_def by (induction r) auto

lemma insert_run_sorted:
  "sorted_wrt (\<lambda>a b. pk_key a \<le> pk_key b) r \<Longrightarrow> sorted_wrt (\<lambda>a b. pk_key a \<le> pk_key b) (insert_run a r)"
proof (induction r)
  case (Cons b r)
  have "set (insert_run a r) = insert a (set r)" by (metis insert_run_mset set_mset_add_mset_insert set_mset_mset)
  with Cons show ?case
    by (auto simp: run_less_def URLKey_Less_iff split: if_splits intro: order_trans)
qed simp

lemma sort_run_sorted: "sorted_wrt (\<lambda>a b. pk_key a \<le> pk_key b) (sort_run r)"
  unfolding sort_run_def by (induction r) (auto intro: insert_run_sorted)

lemma sort_run_set: "set (sort_run r) = set r"
  by (metis set_mset_mset sort_run_mset)

text \<open>How often a verdict occurs depends only on the multiset of checks.\<close>

definition verdict :: "URLKey \<Rightarrow> bool \<Rightarrow> Classification" where
  "verdict k u = \<lparr>cl_Key = k, cl_Unique = u\<rparr>"

lemma classify_new: "set (snd (classify S run)) = pk_key ` set run - S \<and> distinct (snd (classify S run))"
  by (induction run arbitrary: S) (auto simp: Let_def split_beta)

lemma classify_new_sorted:
  "sorted_wrt (\<lambda>a b. pk_key a \<le> pk_key b) run \<Longrightarrow> sorted_wrt (<) (snd (classify S run))"
proof (induction run arbitrary: S)
  case (Cons pk run)
  have "set (snd (classify (insert (pk_key pk) S) run)) = pk_key ` set run - insert (pk_key pk) S"
    by (rule classify_new [THEN conjunct1])
  moreover have "\<forall>q \<in> set run. pk_key pk \<le> pk_key q" using Cons.prems by simp
  ultimately have "\<forall>x \<in> set (snd (classify (insert (pk_key pk) S) run)). pk_key pk < x"
    by (auto simp: order.strict_iff_order)
  with Cons show ?case by (simp add: Let_def split_beta)
qed simp

lemma classify_count:
  assumes "\<forall>pk \<in> set run. pk_op pk = opCheckInsert"
  shows "count (mset (fst (classify S run))) (verdict k u)
     = (let n = count (mset (map pk_key run)) k in
        if k \<in> S then (if u then 0 else n) else (if u then min n 1 else n - 1))"
  using assms
proof (induction run arbitrary: S)
  case (Cons pk run)
  have "fst (classify S (pk # run))
      = verdict (pk_key pk) (pk_key pk \<notin> S) # fst (classify (insert (pk_key pk) S) run)"
    using Cons.prems by (simp add: Let_def verdict_def split: prod.splits)
  moreover have "verdict a b = verdict k u \<longleftrightarrow> a = k \<and> b = u" for a b
    by (simp add: verdict_def)
  ultimately show ?case
    using Cons.IH [of "insert (pk_key pk) S"] Cons.prems
    by (auto simp: Let_def)
qed (simp add: Let_def)

lemma mergeBucket_spec:
  assumes "exact_wf s" "idx < length (e_buckets s)" "\<forall>pk \<in> set run. bucketOf s (pk_key pk) = idx"
  shows "fst (mergeBucket idx run out s) = out @ fst (classify (exact_abs s) (sort_run run))"
    and "exact_wf (snd (mergeBucket idx run out s))"
    and "exact_abs (snd (mergeBucket idx run out s)) = exact_abs s \<union> pk_key ` set run"
    and "bucketOf (snd (mergeBucket idx run out s)) = bucketOf s"
    and "length (e_buckets (snd (mergeBucket idx run out s))) = length (e_buckets s)"
proof -
  let ?disk = "e_buckets s ! idx" and ?c = "classify (exact_abs s) (sort_run run)"
  have ds: "sorted_wrt (<) ?disk" using assms(1,2) by (simp add: exact_wf_def)
  have mem: "\<forall>pk \<in> set (sort_run run). pk_key pk \<in> exact_abs s \<longleftrightarrow> pk_key pk \<in> set ?disk"
    using exact_abs_bucket [OF assms(1)] assms(3) by (simp add: sort_run_set)
  have loop: "drum_loop ?disk None (sort_run run) out [] = (out @ fst ?c, snd ?c)"
    using drum_loop_classify [OF sort_run_sorted ds, of run "exact_abs s" None out "[]"] mem by simp
  show "fst (mergeBucket idx run out s) = out @ fst ?c"
    by (simp add: mergeBucket_def Let_def loop)
  have new: "set (snd ?c) = pk_key ` set run - exact_abs s"
    by (simp add: classify_new sort_run_set)
  have nb: "set (snd ?c) \<inter> set ?disk = {}" using new mem by (auto simp: sort_run_set)
  have bk: "\<forall>k \<in> set (snd ?c). bucketOf s k = idx" using new assms(3) by auto
  note u = exact_update_wf [OF assms(1,2), where b = "mergeSortedRuns ?disk (snd ?c)" and N = "set (snd ?c)"
      and m = "length (snd ?c)"]
  have "exact_wf (snd (mergeBucket idx run out s)) \<and>
        exact_abs (snd (mergeBucket idx run out s)) = exact_abs s \<union> pk_key ` set run"
  proof (cases "snd ?c = []")
    case True
    then have "snd (mergeBucket idx run out s) = s" by (simp add: mergeBucket_def Let_def loop)
    then show ?thesis using assms(1) new True by auto
  next
    case False
    have "sorted_wrt (<) (mergeSortedRuns ?disk (snd ?c))"
      using nb by (intro mergeSortedRuns_sorted ds classify_new_sorted sort_run_sorted) auto
    from u [OF this mergeSortedRuns_set bk mergeSortedRuns_length] show ?thesis
      using False new by (auto simp: mergeBucket_def Let_def loop)
  qed
  then show "exact_wf (snd (mergeBucket idx run out s))"
    and "exact_abs (snd (mergeBucket idx run out s)) = exact_abs s \<union> pk_key ` set run" by auto
  show "bucketOf (snd (mergeBucket idx run out s)) = bucketOf s"
    by (intro ext) (simp add: mergeBucket_def Let_def loop bucketOf_def)
  show "length (e_buckets (snd (mergeBucket idx run out s))) = length (e_buckets s)"
    by (simp add: mergeBucket_def Let_def loop)
qed

definition run_of :: "exactSet \<Rightarrow> pendingKey list \<Rightarrow> nat \<Rightarrow> pendingKey list" where
  "run_of s batch idx = filter (\<lambda>pk. bucketOf s (pk_key pk) = idx) batch"

lemma exact_merge_fold:
  assumes "exact_wf s" "exact_wf s1" "bucketOf s1 = bucketOf s" "length (e_buckets s1) = length (e_buckets s)"
    "distinct ord" "set ord \<subseteq> {..<length (e_buckets s)}"
    "\<And>k. bucketOf s k \<in> set ord \<Longrightarrow> k \<in> exact_abs s1 \<longleftrightarrow> k \<in> exact_abs s"
  shows "fst (fold (\<lambda>idx (out, s'). mergeBucket idx (run_of s batch idx) out s') ord (out, s1))
           = out @ concat (map (\<lambda>idx. fst (classify (exact_abs s) (sort_run (run_of s batch idx)))) ord)
       \<and> exact_wf (snd (fold (\<lambda>idx (out, s'). mergeBucket idx (run_of s batch idx) out s') ord (out, s1)))
       \<and> exact_abs (snd (fold (\<lambda>idx (out, s'). mergeBucket idx (run_of s batch idx) out s') ord (out, s1)))
           = exact_abs s1 \<union> {k \<in> pk_key ` set batch. bucketOf s k \<in> set ord}"
  using assms(2-)
proof (induction ord arbitrary: out s1)
  case (Cons idx ord)
  let ?r = "run_of s batch idx"
  have run: "\<forall>pk \<in> set ?r. bucketOf s1 (pk_key pk) = idx" using Cons.prems(2) by (simp add: run_of_def)
  have idx: "idx < length (e_buckets s1)" using Cons.prems(3,5) by simp
  note m = mergeBucket_spec [OF Cons.prems(1) idx run, of out]
  obtain out2 s2 where e: "mergeBucket idx ?r out s1 = (out2, s2)" by fastforce
  have out2: "out2 = out @ fst (classify (exact_abs s) (sort_run ?r))"
    using m(1) e classify_cong [of "sort_run ?r" "exact_abs s1" "exact_abs s"] Cons.prems(6)
    by (auto simp: sort_run_set run_of_def)
  have abs2: "exact_abs s2 = exact_abs s1 \<union> pk_key ` set ?r" using m(3) e by simp
  have "k \<in> exact_abs s2 \<longleftrightarrow> k \<in> exact_abs s" if "bucketOf s k \<in> set ord" for k
  proof -
    have "bucketOf s k \<noteq> idx" using Cons.prems(4) that by auto
    then have "k \<notin> pk_key ` set ?r" by (auto simp: run_of_def)
    then show ?thesis using abs2 Cons.prems(6) [of k] that by simp
  qed
  from Cons.IH [OF _ _ _ _ _ this, of out2] m(2,4,5) e Cons.prems abs2 out2
  show ?case by (auto simp: run_of_def)
qed simp

lemma count_concat_one:
  assumes "distinct ord" "\<And>i. i \<noteq> b \<Longrightarrow> count (mset (g i)) x = 0"
  shows "count (mset (concat (map g ord))) x = (if b \<in> set ord then count (mset (g b)) x else 0)"
  using assms
proof (induction ord)
  case (Cons a ord)
  then show ?case by (cases "a = b") auto
qed simp

lemma count_run_of:
  "count (mset (map pk_key (run_of s batch idx))) k
     = (if bucketOf s k = idx then count (mset (map pk_key batch)) k else 0)"
  by (induction batch) (auto simp: run_of_def)

lemma exact_merge_spec:
  assumes "exact_wf s" "\<forall>pk \<in> set batch. pk_op pk = opCheckInsert" "distinct ord"
    "set ord = bucketOf s ` pk_key ` set batch"
  shows "mset (fst (exact_merge ord batch s)) = mset (fst (classify (exact_abs s) batch))"
    and "exact_wf (snd (exact_merge ord batch s))"
    and "exact_abs (snd (exact_merge ord batch s)) = exact_abs s \<union> pk_key ` set batch"
proof -
  let ?g = "\<lambda>idx. fst (classify (exact_abs s) (sort_run (run_of s batch idx)))"
  have sub: "set ord \<subseteq> {..<length (e_buckets s)}" using bucketOf_bound [OF assms(1)] assms(4) by auto
  have f: "exact_merge ord batch s
      = fold (\<lambda>idx (out, s'). mergeBucket idx (run_of s batch idx) out s') ord ([], s)"
    using assms(4) by (auto simp: exact_merge_def run_of_def)
  note r = exact_merge_fold [OF assms(1) assms(1) refl refl assms(3) sub, of batch "[]", simplified, folded f]
  show "exact_wf (snd (exact_merge ord batch s))" using r by blast
  show "exact_abs (snd (exact_merge ord batch s)) = exact_abs s \<union> pk_key ` set batch"
    using r assms(4) by auto
  have ops: "\<forall>pk \<in> set (sort_run (run_of s batch i)). pk_op pk = opCheckInsert" for i
    using assms(2) by (simp add: sort_run_set run_of_def)
  have keys: "count (mset (map pk_key (sort_run (run_of s batch i)))) k
      = (if bucketOf s k = i then count (mset (map pk_key batch)) k else 0)" for i k
    by (metis count_run_of mset_map sort_run_mset)
  have g: "count (mset (?g i)) (verdict k u)
      = (if bucketOf s k = i then count (mset (fst (classify (exact_abs s) batch))) (verdict k u) else 0)" for i k u
    using classify_count [OF ops] classify_count [OF assms(2)] keys by (simp add: Let_def)
  have "count (mset (concat (map ?g ord))) (verdict k u)
      = count (mset (fst (classify (exact_abs s) batch))) (verdict k u)" for k u
  proof (cases "bucketOf s k \<in> set ord")
    case False
    then have "k \<notin> pk_key ` set batch" using assms(4) by auto
    then have "count (mset (map pk_key batch)) k = 0" by (simp add: count_eq_zero_iff)
    then have "count (mset (fst (classify (exact_abs s) batch))) (verdict k u) = 0"
      using classify_count [OF assms(2), of "exact_abs s" k u] by (simp add: Let_def)
    with False show ?thesis
      by (subst count_concat_one [OF assms(3), where b = "bucketOf s k"]) (simp_all add: g)
  next
    case True
    then show ?thesis
      by (subst count_concat_one [OF assms(3), where b = "bucketOf s k"]) (simp_all add: g)
  qed
  moreover have "x = verdict (cl_Key x) (cl_Unique x)" for x by (simp add: verdict_def)
  ultimately have "count (mset (fst (exact_merge ord batch s))) x
      = count (mset (fst (classify (exact_abs s) batch))) x" for x
    using r by metis
  then show "mset (fst (exact_merge ord batch s)) = mset (fst (classify (exact_abs s) batch))"
    by (rule multiset_eqI)
qed

end
