(* ===== verification/SeenSet.thy ===== *)
theory SeenSet
  imports BloomFilter Drum
begin

text \<open>
  The two-tier dedup authority of \<^verbatim>\<open>dedup/seenset.go\<close>: the one-sided filter in front of the exact
  set.  What the frontier relies on is the locale \<open>dedup_authority\<close>: the check-and-insert answers
  membership and inserts.  The locale is interpreted on the seen-set, whose proof combines the
  filter's contract (\<open>BloomFilter.one_sided\<close>) with the exact set's refinement (\<open>Drum\<close>).
\<close>

section \<open>The interface\<close>

locale dedup_authority =
  fixes wf :: "'s \<Rightarrow> bool"
    and held :: "'s \<Rightarrow> URLKey set"
    and seen :: "URLKey \<Rightarrow> 's \<Rightarrow> bool \<times> 's"
    and ins :: "URLKey \<Rightarrow> 's \<Rightarrow> 's"
  assumes seen_wf: "wf s \<Longrightarrow> wf (snd (seen k s))"
    and seen_verdict: "wf s \<Longrightarrow> fst (seen k s) \<longleftrightarrow> k \<in> held s"
    and seen_held: "wf s \<Longrightarrow> held (snd (seen k s)) = insert k (held s)"
    and ins_wf: "wf s \<Longrightarrow> wf (ins k s)"
    and ins_held: "wf s \<Longrightarrow> held (ins k s) = insert k (held s)"
begin

lemma seen_twice: "wf s \<Longrightarrow> fst (seen k (snd (seen k s)))"
  by (simp add: seen_wf seen_verdict seen_held)

lemma ins_all: "wf s \<Longrightarrow> wf (fold ins ks s) \<and> held (fold ins ks s) = held s \<union> set ks"
  by (induction ks arbitrary: s) (auto simp: ins_wf ins_held)

end

section \<open>Operations\<close>

record SeenSet =
  s_filter :: filter_t
  s_exact :: exactSet

record seenConfig =
  sc_capacity :: u64
  sc_fpRate :: rat
  sc_buckets :: nat

definition defaultSeenConfig :: seenConfig where
  "defaultSeenConfig = \<lparr> sc_capacity = 1048576, sc_fpRate = fl64 (1 / 100), sc_buckets = 256 \<rparr>"

definition WithCapacity :: "u64 \<Rightarrow> seenConfig \<Rightarrow> seenConfig" where
  "WithCapacity n c = (if n > 0 then c\<lparr> sc_capacity := n \<rparr> else c)"

definition WithFPRate :: "rat \<Rightarrow> seenConfig \<Rightarrow> seenConfig" where
  "WithFPRate p c = (if p > 0 \<and> p < 1 then c\<lparr> sc_fpRate := p \<rparr> else c)"

definition WithBuckets :: "int \<Rightarrow> seenConfig \<Rightarrow> seenConfig" where
  "WithBuckets n c = (if n > 0 then c\<lparr> sc_buckets := nat n \<rparr> else c)"

definition NewSeenSet :: "(rat \<Rightarrow> rat) \<Rightarrow> (seenConfig \<Rightarrow> seenConfig) list \<Rightarrow> SeenSet" where
  "NewSeenSet logf opts =
     (let c = fold (\<lambda>opt c. opt c) opts defaultSeenConfig in
      \<lparr> s_filter = newFilter logf (sc_capacity c) (sc_fpRate c),
        s_exact = newExactSet (sc_buckets c) \<rparr>)"

definition Seen :: "URLKey \<Rightarrow> SeenSet \<Rightarrow> bool \<times> SeenSet" where
  "Seen key s =
     (if maybeSeen (s_filter s) key \<and> exact_contains (s_exact s) key then (True, s)
      else (False, s\<lparr> s_filter := filter_add key (s_filter s),
                      s_exact := snd (exact_add key (s_exact s)) \<rparr>))"

definition SeenSet_Contains :: "SeenSet \<Rightarrow> URLKey \<Rightarrow> bool" where
  "SeenSet_Contains s key =
     (if \<not> maybeSeen (s_filter s) key then False else exact_contains (s_exact s) key)"

definition MaybeContains :: "SeenSet \<Rightarrow> URLKey \<Rightarrow> bool" where
  "MaybeContains s key = maybeSeen (s_filter s) key"

definition SeenSet_Merge :: "nat list \<Rightarrow> URLKey list \<Rightarrow> SeenSet \<Rightarrow> Classification list \<times> SeenSet" where
  "SeenSet_Merge ord keys s =
     (let batch = map (\<lambda>k. \<lparr> pk_key = k, pk_op = opCheckInsert \<rparr>) keys;
          (out, ex) = exact_merge ord batch (s_exact s);
          fl = fold (\<lambda>c f. if cl_Unique c then filter_add (cl_Key c) f else f) out (s_filter s) in
      (out, s\<lparr> s_filter := fl, s_exact := ex \<rparr>))"

definition Insert :: "URLKey \<Rightarrow> SeenSet \<Rightarrow> SeenSet" where
  "Insert key s =
     (if \<not> maybeSeen (s_filter s) key \<or> \<not> exact_contains (s_exact s) key
      then s\<lparr> s_filter := filter_add key (s_filter s),
              s_exact := snd (exact_add key (s_exact s)) \<rparr>
      else s)"

definition SeenSet_Len :: "SeenSet \<Rightarrow> nat" where
  "SeenSet_Len s = e_size (s_exact s)"

definition BitsPerURL :: "SeenSet \<Rightarrow> rat" where
  "BitsPerURL s = bitsPerKey (s_filter s)"

section \<open>The invariant: every exact key is in the filter\<close>

definition seen_abs :: "SeenSet \<Rightarrow> URLKey set" where
  "seen_abs s = exact_abs (s_exact s)"

definition seen_wf :: "SeenSet \<Rightarrow> bool" where
  "seen_wf s \<longleftrightarrow> filter_wf (s_filter s) \<and> exact_wf (s_exact s)
     \<and> (\<forall>k \<in> seen_abs s. maybeSeen (s_filter s) k)"

lemma seen_wf_new:
  assumes "sc_buckets (fold (\<lambda>opt c. opt c) opts defaultSeenConfig) \<le> 2 ^ 63"
  shows "seen_wf (NewSeenSet logf opts) \<and> seen_abs (NewSeenSet logf opts) = {}"
  using assms by (simp add: NewSeenSet_def Let_def seen_wf_def seen_abs_def filter_wf_new exact_wf_new)

lemma seen_probe_confirm:
  assumes "seen_wf s"
  shows "maybeSeen (s_filter s) k \<and> exact_contains (s_exact s) k \<longleftrightarrow> k \<in> seen_abs s"
  using assms by (auto simp: seen_wf_def seen_abs_def exact_contains_iff)

lemma seen_insert_both:
  assumes "seen_wf s"
  shows "seen_wf (s\<lparr> s_filter := filter_add k (s_filter s), s_exact := snd (exact_add k (s_exact s)) \<rparr>)"
    and "seen_abs (s\<lparr> s_filter := filter_add k (s_filter s), s_exact := snd (exact_add k (s_exact s)) \<rparr>)
           = insert k (seen_abs s)"
  using assms exact_add_spec [of "s_exact s" k]
  by (auto simp: seen_wf_def seen_abs_def bloom.add_wf bloom.probe_add bloom.probe_mono)

interpretation seenset: dedup_authority seen_wf seen_abs Seen Insert
proof
  fix s k
  assume wf: "seen_wf s"
  note pc = seen_probe_confirm [OF wf, of k] and both = seen_insert_both [OF wf, of k]
  show "seen_wf (snd (Seen k s))" "fst (Seen k s) \<longleftrightarrow> k \<in> seen_abs s"
    "seen_abs (snd (Seen k s)) = insert k (seen_abs s)"
    using wf pc both by (auto simp: Seen_def)
  show "seen_wf (Insert k s)" "seen_abs (Insert k s) = insert k (seen_abs s)"
    using wf pc both by (auto simp: Insert_def)
qed

text \<open>C8: the seen-set is an exact set behind its approximate filter: \<^verbatim>\<open>Seen\<close> answers whether the key
  is held and inserts it, \<^verbatim>\<open>Contains\<close> answers the same without inserting, a filter miss is
  authoritative, and the invariant that every held key passes the filter is kept.  A false positive
  of the filter therefore never drops a new URL and a rediscovery is never treated as new.\<close>

theorem Seen_exact:
  assumes "seen_wf s"
  shows "(fst (Seen k s) \<longleftrightarrow> k \<in> seen_abs s)
     \<and> seen_abs (snd (Seen k s)) = insert k (seen_abs s)
     \<and> seen_wf (snd (Seen k s))
     \<and> (SeenSet_Contains s k \<longleftrightarrow> k \<in> seen_abs s)
     \<and> (\<not> MaybeContains s k \<longrightarrow> k \<notin> seen_abs s)
     \<and> SeenSet_Len s = card (seen_abs s)"
  using assms seen_probe_confirm [OF assms, of k] seenset.seen_verdict [OF assms]
    seenset.seen_held [OF assms] seenset.seen_wf [OF assms] exact_size_card [of "s_exact s"]
  by (auto simp: SeenSet_Contains_def MaybeContains_def SeenSet_Len_def seen_wf_def seen_abs_def)

theorem Seen_exact_witness:
  "\<not> fst (Seen (URLKey 3 4) (NewSeenSet (\<lambda>x. -5) []))"
  using Seen_exact [of "NewSeenSet (\<lambda>x. -5) []" "URLKey 3 4"] seen_wf_new [of "[]" "\<lambda>x. -5"]
  by (simp add: defaultSeenConfig_def)

section \<open>Batched intake\<close>

fun seen_seq :: "URLKey list \<Rightarrow> SeenSet \<Rightarrow> Classification list \<times> SeenSet" where
  "seen_seq [] s = ([], s)"
| "seen_seq (k # ks) s =
     (let (dup, s1) = Seen k s; (cs, s2) = seen_seq ks s1 in (\<lparr> cl_Key = k, cl_Unique = \<not> dup \<rparr> # cs, s2))"

lemma seen_seq_classify:
  assumes "seen_wf s"
  shows "fst (seen_seq ks s) = fst (classify (seen_abs s) (map (\<lambda>k. \<lparr> pk_key = k, pk_op = opCheckInsert \<rparr>) ks))
     \<and> seen_abs (snd (seen_seq ks s)) = seen_abs s \<union> set ks"
  using assms
proof (induction ks arbitrary: s)
  case (Cons k ks)
  note v = seenset.seen_verdict [OF Cons.prems, of k] and h = seenset.seen_held [OF Cons.prems, of k]
    and w = seenset.seen_wf [OF Cons.prems, of k]
  from Cons.IH [OF w] v h show ?case by (simp add: Let_def split_beta)
qed simp

lemma fold_add_unique:
  assumes "filter_wf f"
  shows "filter_wf (fold (\<lambda>c f. if cl_Unique c then filter_add (cl_Key c) f else f) cs f)
     \<and> (maybeSeen f k \<or> verdict k True \<in> set cs
          \<longrightarrow> maybeSeen (fold (\<lambda>c f. if cl_Unique c then filter_add (cl_Key c) f else f) cs f) k)"
  using assms
proof (induction cs arbitrary: f)
  case (Cons c cs)
  then show ?case
    by (auto simp: bloom.add_wf bloom.probe_mono bloom.probe_add verdict_def)
qed simp

text \<open>C32: the batched DRUM path is the single-key path: for any batch of discovered keys, in whatever
  order the buckets are visited, \<^verbatim>\<open>Merge\<close> returns the verdicts that calling \<^verbatim>\<open>Seen\<close> once per key would
  return (as a multiset, since the batch comes back bucket by bucket), holds the same keys afterwards
  and keeps the invariant; each key not held before is unique exactly once.\<close>

theorem Merge_equals_Seen:
  assumes "seen_wf s" "distinct ord" "set ord = bucketOf (s_exact s) ` set keys"
  shows "mset (fst (SeenSet_Merge ord keys s)) = mset (fst (seen_seq keys s))
     \<and> seen_abs (snd (SeenSet_Merge ord keys s)) = seen_abs (snd (seen_seq keys s))
     \<and> seen_wf (snd (SeenSet_Merge ord keys s))"
proof -
  let ?batch = "map (\<lambda>k. \<lparr> pk_key = k, pk_op = opCheckInsert \<rparr>) keys"
  have img: "pk_key ` set ?batch = set keys" by (auto simp: image_image)
  note m = exact_merge_spec [of "s_exact s" ?batch ord]
  have wfe: "exact_wf (s_exact s)" and wff: "filter_wf (s_filter s)" using assms(1) by (auto simp: seen_wf_def)
  have ord: "set ord = bucketOf (s_exact s) ` pk_key ` set ?batch" using assms(3) img by simp
  have out: "mset (fst (exact_merge ord ?batch (s_exact s))) = mset (fst (classify (seen_abs s) ?batch))"
    "exact_wf (snd (exact_merge ord ?batch (s_exact s)))"
    "exact_abs (snd (exact_merge ord ?batch (s_exact s))) = seen_abs s \<union> set keys"
    using m [OF wfe _ assms(2) ord] img by (auto simp: seen_abs_def)
  have uniq: "verdict k True \<in> set (fst (exact_merge ord ?batch (s_exact s)))"
    if "k \<in> set keys" "k \<notin> seen_abs s" for k
  proof -
    have "count (mset (map pk_key ?batch)) k > 0" using that(1) by (simp add: o_def)
    then have "count (mset (fst (classify (seen_abs s) ?batch))) (verdict k True) > 0"
      using classify_count [of ?batch "seen_abs s" k True] that(2) by (simp add: Let_def)
    then show ?thesis using out(1) by (metis count_greater_zero_iff set_mset_mset)
  qed
  obtain o1 e1 where e: "exact_merge ord ?batch (s_exact s) = (o1, e1)" by fastforce
  have "maybeSeen (fold (\<lambda>c f. if cl_Unique c then filter_add (cl_Key c) f else f) o1 (s_filter s)) k"
    if "k \<in> seen_abs s \<union> set keys" for k
    using fold_add_unique [OF wff, of o1 k] uniq [of k] e that assms(1) by (auto simp: seen_wf_def)
  then show ?thesis
    using seen_seq_classify [OF assms(1), of keys] out e fold_add_unique [OF wff, of o1]
    by (simp add: SeenSet_Merge_def Let_def seen_wf_def seen_abs_def)
qed

theorem Merge_equals_Seen_witness:
  "mset (fst (SeenSet_Merge [0] [URLKey 3 4, URLKey 3 4] (NewSeenSet (\<lambda>x. -5) [])))
     = mset (fst (seen_seq [URLKey 3 4, URLKey 3 4] (NewSeenSet (\<lambda>x. -5) [])))"
proof -
  have "bucketOf (s_exact (NewSeenSet (\<lambda>x. -5) [])) (URLKey 3 4) = 0"
    by (simp add: NewSeenSet_def defaultSeenConfig_def newExactSet_def double_until.simps bucketOf_def drop_bit_eq_div)
  then show ?thesis
    using Merge_equals_Seen [of "NewSeenSet (\<lambda>x. -5) []" "[0]" "[URLKey 3 4, URLKey 3 4]"]
      seen_wf_new [of "[]" "\<lambda>x. -5"]
    by (simp add: defaultSeenConfig_def)
qed

end
