(* ===== verification/Content.thy ===== *)
theory Content
  imports Records
begin

unbundle bit_operations_syntax

text \<open>
  Content signals and the near-duplicate index: \<^verbatim>\<open>dedup/content.go\<close> and \<^verbatim>\<open>dedup/neardup.go\<close>.
  xxHash64 is a third-party package and the parameter \<open>xxh64\<close>.  The theory shows that the simhash does
  not depend on the order of the features (the source collects them in a Go map), that body
  normalization is idempotent, and that the permuted-table index has exact recall.
\<close>

section \<open>Simhash\<close>

text \<open>Weights and accumulators are Go int64 values: 64-bit words, read signed.\<close>

record WeightedFeature =
  wf_Token :: string
  wf_Weight :: u64

definition sim_step :: "(string \<Rightarrow> u64) \<Rightarrow> WeightedFeature \<Rightarrow> u64 list \<Rightarrow> u64 list" where
  "sim_step xxh64 f acc =
     (let h = xxh64 (wf_Token f) in
      map (\<lambda>i. if bit h i then acc ! i + wf_Weight f else acc ! i - wf_Weight f) [0..<64])"

definition sim_sig :: "u64 list \<Rightarrow> u64" where
  "sim_sig acc = fold (\<lambda>i sig. if 0 < sint (acc ! i) then sig OR push_bit i 1 else sig) [0..<64] 0"

definition Simhash :: "(string \<Rightarrow> u64) \<Rightarrow> WeightedFeature list \<Rightarrow> u64" where
  "Simhash xxh64 features = sim_sig (fold (sim_step xxh64) features (replicate 64 0))"

text \<open>\<^verbatim>\<open>SimhashText\<close> ranges over runes; every rune outside ASCII ends a token just as each of its
  bytes would, and ending an empty token has no effect, so the byte-wise scan is the same.  The
  table of term frequencies is a Go map; its entries are listed in insertion order here, and
  \<open>Simhash_order_independent\<close> shows that the order has no effect.\<close>

definition flush_token :: "string \<Rightarrow> (string, u64) gomap \<Rightarrow> (string, u64) gomap" where
  "flush_token b tf =
     (if b = [] then tf
      else mput b ((case mget tf b of None \<Rightarrow> 0 | Some n \<Rightarrow> n) + 1) tf)"

fun scan_tokens :: "string \<Rightarrow> string \<Rightarrow> (string, u64) gomap \<Rightarrow> (string, u64) gomap" where
  "scan_tokens [] b tf = flush_token b tf"
| "scan_tokens (r # text) b tf =
     (if (of_char r \<ge> (97::nat) \<and> of_char r \<le> (122::nat)) \<or> (of_char r \<ge> (48::nat) \<and> of_char r \<le> (57::nat))
      then scan_tokens text (b @ [r]) tf
      else if of_char r \<ge> (65::nat) \<and> of_char r \<le> (90::nat)
      then scan_tokens text (b @ [char_of (of_char r + 32 :: nat)]) tf
      else scan_tokens text [] (flush_token b tf))"

definition SimhashText :: "(string \<Rightarrow> u64) \<Rightarrow> string \<Rightarrow> u64" where
  "SimhashText xxh64 text =
     (let tf = scan_tokens text [] [] in
      if tf = [] then 0
      else Simhash xxh64 (map (\<lambda>(tok, w). \<lparr> wf_Token = tok, wf_Weight = w \<rparr>) tf))"

section \<open>Change classification\<close>

definition OnesCount64 :: "u64 \<Rightarrow> nat" where
  "OnesCount64 w = length (filter (bit w) [0..<64])"

definition nearThreshold :: nat where "nearThreshold = 3"

definition Near :: "u64 \<Rightarrow> u64 \<Rightarrow> bool" where
  "Near a b \<longleftrightarrow> OnesCount64 (a XOR b) \<le> nearThreshold"

definition ContentFP :: "(u8 list \<Rightarrow> u64) \<Rightarrow> u8 list \<Rightarrow> u64" where
  "ContentFP xxh64 body = xxh64 body"

definition is_space :: "u8 \<Rightarrow> bool" where
  "is_space c \<longleftrightarrow> c = 32 \<or> c = 9 \<or> c = 10 \<or> c = 13 \<or> c = 12 \<or> c = 11"

fun norm_loop :: "u8 list \<Rightarrow> bool \<Rightarrow> u8 list \<Rightarrow> u8 list" where
  "norm_loop [] inSpace out = out"
| "norm_loop (c # body) inSpace out =
     (if is_space c then norm_loop body True out
      else norm_loop body False ((if inSpace \<and> out \<noteq> [] then out @ [32] else out) @ [c]))"

definition NormalizeBody :: "u8 list \<Rightarrow> u8 list" where
  "NormalizeBody body = norm_loop body False []"

datatype ChangeKind = NoChange | CosmeticChange | RealChange

definition ClassifyChange :: "u64 \<Rightarrow> u64 \<Rightarrow> u64 \<Rightarrow> u64 \<Rightarrow> ChangeKind" where
  "ClassifyChange oldFP newFP oldSimhash newSimhash =
     (if oldFP = newFP then NoChange
      else if Near oldSimhash newSimhash then CosmeticChange
      else RealChange)"

section \<open>The near-duplicate index\<close>

definition nearBlocks :: nat where "nearBlocks = 4"
definition blockBits :: nat where "blockBits = 64 div nearBlocks"

record nearEntry =
  ne_rotated :: u64
  ne_sim :: u64
  ne_key :: URLKey

record NearDup =
  nd_tables :: "nearEntry list list"
  nd_dirty :: bool

definition NewNearDup :: NearDup where
  "NewNearDup = \<lparr> nd_tables = replicate nearBlocks [], nd_dirty = False \<rparr>"

text \<open>\<^verbatim>\<open>bits.RotateLeft64\<close>: a negative count rotates right.\<close>

definition RotateLeft64 :: "u64 \<Rightarrow> int \<Rightarrow> u64" where
  "RotateLeft64 x k = (let s = nat (k mod 64) in push_bit s x OR drop_bit (64 - s) x)"

definition rotateBlock :: "u64 \<Rightarrow> nat \<Rightarrow> u64" where
  "rotateBlock x b = RotateLeft64 x (- (int b * int blockBits))"

definition NearDup_Add :: "u64 \<Rightarrow> URLKey \<Rightarrow> NearDup \<Rightarrow> NearDup" where
  "NearDup_Add sim key n =
     n\<lparr> nd_tables := map (\<lambda>b. nd_tables n ! b
              @ [\<lparr> ne_rotated = rotateBlock sim b, ne_sim = sim, ne_key = key \<rparr>]) [0..<nearBlocks],
        nd_dirty := True \<rparr>"

text \<open>\<^verbatim>\<open>sort.Slice\<close> is not stable, so which of several equal entries comes first is unspecified: the
  sort is the argument \<open>srt\<close>, and \<open>table_sort\<close> is what the library promises of it.\<close>

definition table_sort :: "(nearEntry list \<Rightarrow> nearEntry list) \<Rightarrow> bool" where
  "table_sort srt \<longleftrightarrow>
     (\<forall>t. mset (srt t) = mset t \<and> sorted_wrt (\<lambda>a b. ne_rotated a \<le> ne_rotated b) (srt t))"

definition ensureSorted :: "(nearEntry list \<Rightarrow> nearEntry list) \<Rightarrow> NearDup \<Rightarrow> NearDup" where
  "ensureSorted srt n =
     (if \<not> nd_dirty n then n else n\<lparr> nd_tables := map srt (nd_tables n), nd_dirty := False \<rparr>)"

definition lead :: "u64 \<Rightarrow> u64" where
  "lead x = drop_bit (64 - blockBits) x"

definition probe_table :: "nearEntry list \<Rightarrow> u64 \<Rightarrow> nat \<Rightarrow> URLKey option" where
  "probe_table table sim b =
     (let probe = rotateBlock sim b;
          hi = lead probe;
          lo = Search (length table) (\<lambda>i. lead (ne_rotated (table ! i)) \<ge> hi) in
      map_option ne_key
        (List.find (\<lambda>e. Near (ne_sim e) sim)
           (takeWhile (\<lambda>e. lead (ne_rotated e) = hi) (drop lo table))))"

fun first_hit :: "(nat \<Rightarrow> URLKey option) \<Rightarrow> nat list \<Rightarrow> URLKey option" where
  "first_hit p [] = None"
| "first_hit p (b # bs) = (case p b of Some k \<Rightarrow> Some k | None \<Rightarrow> first_hit p bs)"

definition NearDup_Find :: "(nearEntry list \<Rightarrow> nearEntry list) \<Rightarrow> u64 \<Rightarrow> NearDup \<Rightarrow> URLKey option \<times> NearDup" where
  "NearDup_Find srt sim n =
     (let n1 = ensureSorted srt n in
      (first_hit (\<lambda>b. probe_table (nd_tables n1 ! b) sim b) [0..<nearBlocks], n1))"

definition NearDup_Len :: "NearDup \<Rightarrow> nat" where
  "NearDup_Len n = length (nd_tables n ! 0)"

section \<open>The simhash is a function of the bag of features\<close>

lemma length_sim_fold: "length acc = 64 \<Longrightarrow> length (fold (sim_step x) fs acc) = 64"
  by (induction fs arbitrary: acc) (auto simp: sim_step_def Let_def)

lemma sim_fold_nth:
  assumes "length acc = 64" "i < 64"
  shows "fold (sim_step xxh64) fs acc ! i
     = acc ! i + (\<Sum>f\<leftarrow>fs. if bit (xxh64 (wf_Token f)) i then wf_Weight f else - wf_Weight f)"
  using assms
proof (induction fs arbitrary: acc)
  case (Cons f fs)
  have "length (sim_step xxh64 f acc) = 64" by (simp add: sim_step_def Let_def)
  moreover have "sim_step xxh64 f acc ! i
      = acc ! i + (if bit (xxh64 (wf_Token f)) i then wf_Weight f else - wf_Weight f)"
    using Cons.prems by (simp add: sim_step_def Let_def)
  ultimately show ?case using Cons by (simp add: add.assoc)
qed simp

lemma sim_sig_fold_bit:
  fixes sig :: u64
  assumes "i < 64"
  shows "bit (fold (\<lambda>i sig. if 0 < sint (acc ! i) then sig OR push_bit i 1 else sig) is sig) i
     \<longleftrightarrow> bit sig i \<or> (i \<in> set is \<and> 0 < sint (acc ! i :: u64))"
  using assms
proof (induction "is" arbitrary: sig)
  case (Cons j js)
  then show ?case by (auto simp: bit_or_iff bit_exp_iff)
qed simp

lemma bit_sim_sig: "i < 64 \<Longrightarrow> bit (sim_sig acc) i \<longleftrightarrow> 0 < sint (acc ! i)"
  using sim_sig_fold_bit [of i acc "[0..<64]" 0] by (simp add: sim_sig_def)

lemma u64_eqI:
  fixes a b :: u64
  assumes "\<And>i. i < 64 \<Longrightarrow> bit a i \<longleftrightarrow> bit b i"
  shows "a = b"
  using assms by (intro bit_word_eqI) simp

text \<open>each bit of the simhash is the sign of the weighted vote of the features' hash bits, so the
  signature depends only on the multiset of features: collecting them in a Go map, in whatever order
  it is ranged over, gives one signature.\<close>

theorem Simhash_order_independent:
  assumes "mset fs = mset gs"
  shows "Simhash xxh64 fs = Simhash xxh64 gs
     \<and> (i < 64 \<longrightarrow> bit (Simhash xxh64 fs) i
          = (0 < sint (\<Sum>f\<leftarrow>gs. if bit (xxh64 (wf_Token f)) i then wf_Weight f else - wf_Weight f)))"
proof -
  have sums: "(\<Sum>f\<leftarrow>fs. g f) = (\<Sum>f\<leftarrow>gs. g f)" for g :: "WeightedFeature \<Rightarrow> u64"
    using assms by (metis mset_map sum_mset_sum_list)
  have b: "i < 64 \<Longrightarrow> bit (Simhash xxh64 hs) i
          = (0 < sint (\<Sum>f\<leftarrow>hs. if bit (xxh64 (wf_Token f)) i then wf_Weight f else - wf_Weight f))" for hs i
    by (simp add: Simhash_def bit_sim_sig sim_fold_nth)
  have "Simhash xxh64 fs = Simhash xxh64 gs"
    by (rule u64_eqI) (simp add: b sums)
  then show ?thesis using b by simp
qed

theorem Simhash_order_independent_witness:
  "Simhash (\<lambda>s. of_nat (length s)) [\<lparr> wf_Token = ''a'', wf_Weight = 2 \<rparr>, \<lparr> wf_Token = ''bc'', wf_Weight = 1 \<rparr>]
     = Simhash (\<lambda>s. of_nat (length s)) [\<lparr> wf_Token = ''bc'', wf_Weight = 1 \<rparr>, \<lparr> wf_Token = ''a'', wf_Weight = 2 \<rparr>]"
  using Simhash_order_independent by simp

section \<open>Normalization\<close>

text \<open>A normalized body: words separated by single blanks.  The flag says that the byte before is a
  word byte.\<close>

fun tight :: "bool \<Rightarrow> u8 list \<Rightarrow> bool" where
  "tight p [] = p"
| "tight p (c # cs) = (if is_space c then p \<and> c = 32 \<and> tight False cs else tight True cs)"

definition normalized :: "u8 list \<Rightarrow> bool" where
  "normalized b \<longleftrightarrow> b = [] \<or> tight False b"

lemma is_space_32 [simp]: "is_space 32"
  by (simp add: is_space_def)

lemma tight_True_word: "tight p out \<Longrightarrow> \<not> is_space c \<Longrightarrow> tight p (out @ [c]) \<and> tight p (out @ [32, c])"
  by (induction out arbitrary: p) auto

lemma norm_loop_normalized: "normalized out \<Longrightarrow> normalized (norm_loop body sp out)"
proof (induction body sp out rule: norm_loop.induct)
  case (2 c body sp out)
  show ?case
  proof (cases "is_space c")
    case True
    with 2 show ?thesis by simp
  next
    case False
    have "normalized ((if sp \<and> out \<noteq> [] then out @ [32] else out) @ [c])"
      using "2.prems" False tight_True_word [of False out c] by (auto simp: normalized_def)
    with 2 False show ?thesis by simp
  qed
qed simp

lemma norm_loop_tight:
  assumes "out \<noteq> []"
  shows "tight True xs \<Longrightarrow> norm_loop xs False out = out @ xs"
    and "tight False xs \<Longrightarrow> norm_loop xs True out = out @ 32 # xs"
  using assms by (induction xs arbitrary: out) auto

lemma NormalizeBody_normalized: "normalized b \<Longrightarrow> NormalizeBody b = b"
  using norm_loop_tight(1) [of "[hd b]" "tl b"]
  by (cases b) (auto simp: normalized_def NormalizeBody_def split: if_splits)

lemma norm_loop_words:
  "filter (\<lambda>c. \<not> is_space c) (norm_loop body sp out)
     = filter (\<lambda>c. \<not> is_space c) out @ filter (\<lambda>c. \<not> is_space c) body"
  by (induction body sp out rule: norm_loop.induct) auto

text \<open>normalizing a body leaves words separated by single blanks with no blank at either end,
  keeps every other byte in order, and is idempotent, so the exact fingerprint of a normalized body
  does not move when the body is normalized again.\<close>

theorem NormalizeBody_idempotent:
  "NormalizeBody (NormalizeBody b) = NormalizeBody b
   \<and> normalized (NormalizeBody b)
   \<and> filter (\<lambda>c. \<not> is_space c) (NormalizeBody b) = filter (\<lambda>c. \<not> is_space c) b
   \<and> ContentFP xxh64 (NormalizeBody (NormalizeBody b)) = ContentFP xxh64 (NormalizeBody b)"
proof -
  have n: "normalized (NormalizeBody b)"
    unfolding NormalizeBody_def by (rule norm_loop_normalized) (simp add: normalized_def)
  then show ?thesis
    using NormalizeBody_normalized [OF n] norm_loop_words [of b False "[]"]
    by (simp add: NormalizeBody_def)
qed

section \<open>Exact recall of the near-duplicate index\<close>

lemma bit_RotateLeft64:
  assumes "i < 64"
  shows "bit (RotateLeft64 x k) i \<longleftrightarrow> bit x (nat ((int i - k) mod 64))"
proof -
  define s where "s = nat (k mod 64)"
  have s: "s < 64" "int s = k mod 64" by (auto simp: s_def)
  have m: "(int i - k) mod 64 = (int i - int s) mod 64" unfolding s(2) by (simp add: mod_diff_right_eq)
  show ?thesis
  proof (cases "s \<le> i")
    case True
    then have "(int i - int s) mod 64 = int (i - s)" using assms by (simp add: of_nat_diff)
    moreover have "\<not> bit x (64 - s + i)"
      using True bit_imp_le_length [of x "64 - s + i"] by auto
    ultimately show ?thesis
      using True assms m
      by (simp add: RotateLeft64_def s_def [symmetric] bit_or_iff bit_push_bit_iff bit_drop_bit_eq nat_diff_distrib)
  next
    case False
    have "(int i - int s) mod 64 = (int i - int s + 64) mod 64" by simp
    also have "\<dots> = int i - int s + 64" using False s(1) by (intro mod_pos_pos_trivial) auto
    also have "\<dots> = int (64 - s + i)" using s(1) by (simp add: of_nat_diff)
    finally have "nat ((int i - k) mod 64) = 64 - s + i" using m by (simp only: nat_int)
    then show ?thesis
      using False assms by (simp add: RotateLeft64_def s_def [symmetric] bit_or_iff bit_push_bit_iff bit_drop_bit_eq)
  qed
qed

lemma bit_lead: "bit (lead x) i \<longleftrightarrow> bit x (48 + i)"
  by (simp add: lead_def blockBits_def nearBlocks_def bit_drop_bit_eq)

lemma bit_rotateBlock:
  assumes "i < 64"
  shows "bit (rotateBlock x b) i \<longleftrightarrow> bit x ((i + 16 * b) mod 64)"
proof -
  have "nat ((int i - - (int b * 16)) mod 64) = (i + 16 * b) mod 64"
    by (simp add: nat_mod_distrib nat_add_distrib nat_mult_distrib mult.commute)
  then show ?thesis
    using bit_RotateLeft64 [OF assms] by (simp add: rotateBlock_def blockBits_def nearBlocks_def)
qed

text \<open>The leading blocks of the four rotations cover all sixty-four bits.\<close>

lemma lead_rotateBlock_eq:
  "lead (rotateBlock x b) = lead (rotateBlock y b)
     \<longleftrightarrow> (\<forall>i < 16. bit x ((48 + i + 16 * b) mod 64) = bit y ((48 + i + 16 * b) mod 64))"
proof
  assume e: "lead (rotateBlock x b) = lead (rotateBlock y b)"
  show "\<forall>i < 16. bit x ((48 + i + 16 * b) mod 64) = bit y ((48 + i + 16 * b) mod 64)"
  proof (intro allI impI)
    fix i :: nat
    assume "i < 16"
    then show "bit x ((48 + i + 16 * b) mod 64) = bit y ((48 + i + 16 * b) mod 64)"
      using arg_cong [OF e, of "\<lambda>w. bit w i"] bit_rotateBlock [of "48 + i" _ b] by (simp add: bit_lead)
  qed
next
  assume e: "\<forall>i < 16. bit x ((48 + i + 16 * b) mod 64) = bit y ((48 + i + 16 * b) mod 64)"
  show "lead (rotateBlock x b) = lead (rotateBlock y b)"
  proof (rule u64_eqI)
    fix i :: nat
    assume "i < 64"
    show "bit (lead (rotateBlock x b)) i = bit (lead (rotateBlock y b)) i"
    proof (cases "i < 16")
      case True
      then show ?thesis using e bit_rotateBlock [of "48 + i" _ b] by (simp add: bit_lead)
    next
      case False
      then show ?thesis
        using bit_imp_le_length [of "rotateBlock x b" "48 + i"] bit_imp_le_length [of "rotateBlock y b" "48 + i"]
        by (auto simp: bit_lead)
    qed
  qed
qed

lemma OnesCount64_card: "OnesCount64 w = card {i. i < 64 \<and> bit w i}"
proof -
  have "{i. i < 64 \<and> bit w i} = set (filter (bit w) [0..<64])" by auto
  then show ?thesis unfolding OnesCount64_def by (metis distinct_card distinct_filter distinct_upt)
qed

lemma near_shares_block:
  assumes "Near a b"
  shows "\<exists>t < nearBlocks. lead (rotateBlock a t) = lead (rotateBlock b t)"
proof (rule ccontr)
  assume "\<not> ?thesis"
  then have "\<forall>t < 4. \<exists>i < 16. bit (a XOR b) ((48 + i + 16 * t) mod 64)"
    by (auto simp: lead_rotateBlock_eq nearBlocks_def bit_xor_iff)
  then obtain g where g: "\<And>t. t < 4 \<Longrightarrow> g t < 16 \<and> bit (a XOR b) ((48 + g t + 16 * t) mod 64)"
    by metis
  define p where "p t = (48 + g t + 16 * t) mod 64" for t
  have blk: "p t div 16 = (3 + t) mod 4" if "t < 4" for t
  proof -
    have "t = 0 \<or> t = 1 \<or> t = 2 \<or> t = 3" using that by auto
    moreover have "(80 + x) mod 64 = 16 + x" "(96 + x) mod 64 = 32 + x" if "x < 16" for x :: nat
      using that mod_add_self1 [of 64 "16 + x"] mod_add_self1 [of 64 "32 + x"] by simp_all
    ultimately show ?thesis using g [OF that] by (auto simp: p_def)
  qed
  have "inj_on p {..<4}"
  proof (rule inj_onI)
    fix t u
    assume tu: "t \<in> {..<4::nat}" "u \<in> {..<4}" "p t = p u"
    then have "(3 + t) mod 4 = (3 + u) mod 4" using blk by (metis lessThan_iff)
    moreover have "t = 0 \<or> t = 1 \<or> t = 2 \<or> t = 3" "u = 0 \<or> u = 1 \<or> u = 2 \<or> u = 3" using tu by auto
    ultimately show "t = u" by auto
  qed
  then have "card (p ` {..<4}) = 4" by (simp add: card_image)
  moreover have "p ` {..<4} \<subseteq> {i. i < 64 \<and> bit (a XOR b) i}" using g by (auto simp: p_def)
  ultimately have "4 \<le> card {i. i < 64 \<and> bit (a XOR b) i}"
    by (metis card_mono finite_Collect_conjI finite_Collect_less_nat)
  then show False using assms by (simp add: Near_def nearThreshold_def OnesCount64_card)
qed

lemma lead_mono: "x \<le> y \<Longrightarrow> lead x \<le> lead y"
  by (simp add: lead_def word_le_nat_alt unat_drop_bit_eq drop_bit_nat_def div_le_mono)

lemma probe_table_spec:
  assumes "sorted_wrt (\<lambda>a b. ne_rotated a \<le> ne_rotated b) t"
  shows "set (takeWhile (\<lambda>e. lead (ne_rotated e) = h)
             (drop (Search (length t) (\<lambda>i. lead (ne_rotated (t ! i)) \<ge> h)) t))
         = {e \<in> set t. lead (ne_rotated e) = h}"
proof -
  let ?f = "\<lambda>i. lead (ne_rotated (t ! i)) \<ge> h" and ?lo = "Search (length t) (\<lambda>i. lead (ne_rotated (t ! i)) \<ge> h)"
  have mono: "i \<le> j \<Longrightarrow> j < length t \<Longrightarrow> lead (ne_rotated (t ! i)) \<le> lead (ne_rotated (t ! j))" for i j
    using sorted_wrt_nth_less [OF assms, of i j] by (cases "i = j") (auto intro: lead_mono)
  have "mono_below (length t) ?f" unfolding mono_below_def using mono order_trans by blast
  note lo = least_fromD [OF Search_spec [OF this]]
  have srt: "sorted_wrt (\<lambda>a b. lead (ne_rotated a) \<le> lead (ne_rotated b)) (drop ?lo t)"
    by (rule sorted_wrt_drop [OF sorted_wrt_mono_rel [OF _ assms]]) (rule lead_mono)
  have ge: "\<forall>e \<in> set (drop ?lo t). h \<le> lead (ne_rotated e)"
  proof
    fix e assume "e \<in> set (drop ?lo t)"
    then obtain l where l: "?lo + l < length t" "e = t ! (?lo + l)"
      using lo(1) by (auto simp: in_set_conv_nth add.commute less_diff_conv)
    then show "h \<le> lead (ne_rotated e)" using lo(3) mono [of ?lo "?lo + l"] by fastforce
  qed
  have tw: "set (takeWhile (\<lambda>e. lead (ne_rotated e) = h) xs) = {e \<in> set xs. lead (ne_rotated e) = h}"
    if "sorted_wrt (\<lambda>a b. lead (ne_rotated a) \<le> lead (ne_rotated b)) xs" "\<forall>e \<in> set xs. h \<le> lead (ne_rotated e)" for xs
    using that by (induction xs) force+
  have "lead (ne_rotated e) \<noteq> h" if "e \<in> set (take ?lo t)" for e
  proof -
    obtain j where "j < ?lo" "e = t ! j" using \<open>e \<in> set (take ?lo t)\<close> by (auto simp: in_set_conv_nth)
    then show ?thesis using lo(2) [of j] by auto
  qed
  moreover have "set t = set (take ?lo t) \<union> set (drop ?lo t)" by (metis append_take_drop_id set_append)
  ultimately show ?thesis using tw [OF srt ge] by auto
qed

text \<open>The index holds a bag of signatures with their keys; every table holds the same bag.\<close>

definition entry :: "nat \<Rightarrow> u64 \<times> URLKey \<Rightarrow> nearEntry" where
  "entry b sk = \<lparr> ne_rotated = rotateBlock (fst sk) b, ne_sim = fst sk, ne_key = snd sk \<rparr>"

definition near_holds :: "NearDup \<Rightarrow> (u64 \<times> URLKey) multiset \<Rightarrow> bool" where
  "near_holds n A \<longleftrightarrow> length (nd_tables n) = nearBlocks
     \<and> (\<forall>b < nearBlocks. mset (nd_tables n ! b) = image_mset (entry b) A
          \<and> (\<not> nd_dirty n \<longrightarrow> sorted_wrt (\<lambda>a b. ne_rotated a \<le> ne_rotated b) (nd_tables n ! b)))"

lemma near_holds_new: "near_holds NewNearDup {#}"
  by (simp add: near_holds_def NewNearDup_def)

lemma near_holds_Add: "near_holds n A \<Longrightarrow> near_holds (NearDup_Add sim key n) (add_mset (sim, key) A)"
  by (auto simp: near_holds_def NearDup_Add_def entry_def)

lemma near_holds_sorted:
  assumes "near_holds n A" "table_sort srt"
  shows "near_holds (ensureSorted srt n) A \<and> \<not> nd_dirty (ensureSorted srt n)"
  using assms by (auto simp: near_holds_def ensureSorted_def table_sort_def)

lemma first_hit_Some: "first_hit p bs = Some k \<Longrightarrow> \<exists>b \<in> set bs. p b = Some k"
  by (induction bs) (auto split: option.splits)

lemma first_hit_None: "first_hit p bs = None \<longleftrightarrow> (\<forall>b \<in> set bs. p b = None)"
  by (induction bs) (auto split: option.splits)

lemma find_Some_mem: "List.find P xs = Some x \<Longrightarrow> x \<in> set xs \<and> P x"
  by (auto simp: find_Some_iff)

lemma probe_table_hits:
  assumes "mset t = image_mset (entry b) A" "sorted_wrt (\<lambda>a b. ne_rotated a \<le> ne_rotated b) t"
  shows "probe_table t sim b = Some k \<Longrightarrow> \<exists>s. (s, k) \<in># A \<and> Near s sim"
    and "probe_table t sim b = None \<Longrightarrow> (s, k) \<in># A \<Longrightarrow>
           lead (rotateBlock s b) = lead (rotateBlock sim b) \<Longrightarrow> \<not> Near s sim"
proof -
  have st: "set t = entry b ` set_mset A" using assms(1) by (metis set_image_mset set_mset_mset)
  note ps = probe_table_spec [OF assms(2), of "lead (rotateBlock sim b)"]
  show "probe_table t sim b = Some k \<Longrightarrow> \<exists>s. (s, k) \<in># A \<and> Near s sim"
    using find_Some_mem [of "\<lambda>e. Near (ne_sim e) sim"] ps st
    by (fastforce simp: probe_table_def Let_def entry_def)
  assume n: "probe_table t sim b = None" "(s, k) \<in># A" "lead (rotateBlock s b) = lead (rotateBlock sim b)"
  have "entry b (s, k) \<in> set t" using st n(2) by blast
  then have "entry b (s, k) \<in> {e \<in> set t. lead (ne_rotated e) = lead (rotateBlock sim b)}"
    using n(3) by (simp add: entry_def)
  then show "\<not> Near s sim"
    using n(1) unfolding probe_table_def Let_def ps [symmetric] by (auto simp: find_None_iff entry_def)
qed

text \<open>C33: the near-duplicate index has exact recall and precision: for the bag of signatures added so
  far, \<^verbatim>\<open>Find\<close> returns a key exactly when some stored signature is within Hamming distance 3 of the
  query, the key it returns belongs to such a signature, and the index keeps its bag, for every sort
  that meets the library's contract.\<close>

theorem NearDup_exact:
  assumes "near_holds n A" "table_sort srt"
  shows "((\<exists>k. fst (NearDup_Find srt sim n) = Some k) \<longleftrightarrow> (\<exists>s k. (s, k) \<in># A \<and> Near s sim))
     \<and> (\<forall>k. fst (NearDup_Find srt sim n) = Some k \<longrightarrow> (\<exists>s. (s, k) \<in># A \<and> Near s sim))
     \<and> near_holds (snd (NearDup_Find srt sim n)) A"
proof -
  let ?n = "ensureSorted srt n"
  have h: "near_holds ?n A" "\<not> nd_dirty ?n" using near_holds_sorted [OF assms] by auto
  have t: "mset (nd_tables ?n ! b) = image_mset (entry b) A"
    "sorted_wrt (\<lambda>a b. ne_rotated a \<le> ne_rotated b) (nd_tables ?n ! b)" if "b < nearBlocks" for b
    using h that by (auto simp: near_holds_def)
  have sound: "\<exists>s. (s, k) \<in># A \<and> Near s sim" if "fst (NearDup_Find srt sim n) = Some k" for k
    using first_hit_Some [of _ "[0..<nearBlocks]" k] that probe_table_hits(1) [OF t]
    by (fastforce simp: NearDup_Find_def Let_def)
  have "\<not> Near s sim" if none: "fst (NearDup_Find srt sim n) = None" and mem: "(s, k) \<in># A" for s k
  proof
    assume "Near s sim"
    then obtain b where b: "b < nearBlocks" "lead (rotateBlock s b) = lead (rotateBlock sim b)"
      using near_shares_block by blast
    have "probe_table (nd_tables ?n ! b) sim b = None"
      using none b(1) by (simp add: NearDup_Find_def Let_def first_hit_None)
    from probe_table_hits(2) [OF t [OF b(1)] this mem b(2)] \<open>Near s sim\<close> show False by simp
  qed
  then have "(\<exists>k. fst (NearDup_Find srt sim n) = Some k) \<longleftrightarrow> (\<exists>s k. (s, k) \<in># A \<and> Near s sim)"
    using sound by (cases "fst (NearDup_Find srt sim n)") (blast | auto)+
  then show ?thesis using sound h(1) by (simp add: NearDup_Find_def Let_def)
qed

lemma table_sort_exists: "table_sort (sort_key ne_rotated)"
proof -
  have "sorted_wrt (\<lambda>a b. ne_rotated a \<le> ne_rotated b) (sort_key ne_rotated t)" for t :: "nearEntry list"
    using sorted_sort_key [of ne_rotated t] by (simp add: sorted_wrt_map)
  then show ?thesis by (simp add: table_sort_def)
qed

theorem NearDup_exact_witness:
  "\<exists>k. fst (NearDup_Find (sort_key ne_rotated) 1 (NearDup_Add 0 (URLKey 1 2) NewNearDup)) = Some k"
proof -
  have "Near 0 1" by (simp add: Near_def OnesCount64_def nearThreshold_def upt_rec bit_1_iff)
  then show ?thesis
    using NearDup_exact [OF near_holds_Add [OF near_holds_new] table_sort_exists, of 1 0 "URLKey 1 2"] by auto
qed

text \<open>the block a table leads with is not the one the comment on \<^verbatim>\<open>rotateBlock\<close> names.  Block 0,
  counted from the low end, does not move to the high bits of its table: the leading block of the
  signature whose block 0 is all ones and the rest zero is zero in table 0, and block 0 leads table
  1.\<close>

theorem rotateBlock_leads_previous_block:
  "lead (rotateBlock 0xFFFF 0) = 0 \<and> lead (rotateBlock 0xFFFF 1) = 0xFFFF"
  by (simp add: lead_def rotateBlock_def RotateLeft64_def blockBits_def nearBlocks_def drop_bit_eq_div
      push_bit_eq_mult)

end
