(* ===== verification/Trap.thy ===== *)
theory Trap
  imports Records
begin

unbundle bit_operations_syntax

text \<open>
  Trap admission and soft-404 detection, \<^verbatim>\<open>dedup/trap.go\<close>.  The detector's nested maps are refined
  to the history of its observations: a fingerprint is a template once enough distinct keys of a host
  have returned it.
\<close>

section \<open>Admission\<close>

definition IsTrapSuspect :: "HostRecord \<Rightarrow> bool" where
  "IsTrapSuspect h \<longleftrightarrow> h_Flags h AND HostFlagTrapSuspect \<noteq> 0"

definition FlagTrapSuspect :: "HostRecord \<Rightarrow> HostRecord" where
  "FlagTrapSuspect h = h\<lparr> h_Flags := h_Flags h OR HostFlagTrapSuspect \<rparr>"

definition Admit :: "u16 \<Rightarrow> HostRecord \<Rightarrow> bool \<Rightarrow> URLStatus" where
  "Admit depth h passesHeuristics =
     (if h_DepthCap h > 0 \<and> depth > h_DepthCap h then StatusTrapped
      else if h_URLBudget h > 0 \<and> h_URLCount h \<ge> h_URLBudget h then StatusTrapped
      else if h_Flags h AND HostFlagTrapSuspect \<noteq> 0 \<and> \<not> passesHeuristics then StatusTrapped
      else StatusScheduled)"

lemma FlagTrapSuspect_sticky: "IsTrapSuspect (FlagTrapSuspect h)"
  by (simp add: IsTrapSuspect_def FlagTrapSuspect_def HostFlagTrapSuspect_def)

text \<open>a discovery is admitted exactly when it is inside every limit its host has: not deeper than a
  nonzero depth cap, within a nonzero URL budget, and, on a host flagged as a trap suspect, passing the
  pattern heuristics; otherwise it is parked as Trapped, and flagging a host makes the third limit
  apply.\<close>

theorem Admit_iff:
  "(Admit depth h ok = StatusScheduled
     \<longleftrightarrow> (h_DepthCap h = 0 \<or> depth \<le> h_DepthCap h)
       \<and> (h_URLBudget h = 0 \<or> h_URLCount h < h_URLBudget h)
       \<and> (IsTrapSuspect h \<longrightarrow> ok))
   \<and> (Admit depth h ok \<noteq> StatusScheduled \<longrightarrow> Admit depth h ok = StatusTrapped)
   \<and> Admit depth (FlagTrapSuspect h) False = StatusTrapped"
  using FlagTrapSuspect_sticky [of h]
  by (auto simp: Admit_def IsTrapSuspect_def not_less not_le word_gt_0)

theorem Admit_iff_witness: "Admit 3 (zeroHost 1\<lparr> h_DepthCap := 2 \<rparr>) True = StatusTrapped"
  using Admit_iff [of 3 "zeroHost 1\<lparr> h_DepthCap := 2 \<rparr>" True] by (simp add: zeroHost_def)

section \<open>The soft-404 detector\<close>

definition softThreshold :: nat where "softThreshold = 8"

record SoftDetector =
  sd_threshold :: nat
  sd_seen :: "(u64, (u64, (URLKey, unit) gomap) gomap) gomap"
  sd_template :: "(u64, (u64, unit) gomap) gomap"

definition NewSoftDetector :: SoftDetector where
  "NewSoftDetector = \<lparr> sd_threshold = softThreshold, sd_seen = [], sd_template = [] \<rparr>"

definition WithThreshold :: "int \<Rightarrow> SoftDetector \<Rightarrow> SoftDetector" where
  "WithThreshold n d = (if n > 0 then d\<lparr> sd_threshold := nat n \<rparr> else d)"

definition isTemplate :: "SoftDetector \<Rightarrow> u64 \<Rightarrow> u64 \<Rightarrow> bool" where
  "isTemplate d hostKey fp =
     (case mget (sd_template d) hostKey of
        None \<Rightarrow> False
      | Some t \<Rightarrow> mget t fp \<noteq> None)"

definition markTemplate :: "u64 \<Rightarrow> u64 \<Rightarrow> SoftDetector \<Rightarrow> SoftDetector" where
  "markTemplate hostKey fp d =
     (let t = (case mget (sd_template d) hostKey of None \<Rightarrow> [] | Some t \<Rightarrow> t) in
      d\<lparr> sd_template := mput hostKey (mput fp () t) (sd_template d) \<rparr>)"

text \<open>The inner maps are shared by reference in the source; every update is written back here.\<close>

definition Observe :: "u64 \<Rightarrow> u64 \<Rightarrow> URLKey \<Rightarrow> SoftDetector \<Rightarrow> bool \<times> SoftDetector" where
  "Observe hostKey fp key d =
     (if fp = 0 then (False, d)
      else if isTemplate d hostKey fp then (True, d)
      else
        (let byFP = (case mget (sd_seen d) hostKey of None \<Rightarrow> [] | Some m \<Rightarrow> m);
             keys = (case mget byFP fp of None \<Rightarrow> [] | Some ks \<Rightarrow> ks);
             keys' = mput key () keys in
         if length keys' \<ge> sd_threshold d then
           (True, (markTemplate hostKey fp d)
                    \<lparr> sd_seen := mput hostKey (mdel fp (mput fp keys' byFP)) (sd_seen d) \<rparr>)
         else
           (False, d\<lparr> sd_seen := mput hostKey (mput fp keys' byFP) (sd_seen d) \<rparr>)))"

section \<open>The detector counts distinct keys\<close>

definition keys_of :: "SoftDetector \<Rightarrow> u64 \<Rightarrow> u64 \<Rightarrow> (URLKey, unit) gomap" where
  "keys_of d h fp =
     (case mget (sd_seen d) h of None \<Rightarrow> []
      | Some m \<Rightarrow> (case mget m fp of None \<Rightarrow> [] | Some ks \<Rightarrow> ks))"

text \<open>The keys of a history of observations that returned a fingerprint on a host.\<close>

definition hist_keys :: "(u64 \<times> u64 \<times> URLKey) list \<Rightarrow> u64 \<Rightarrow> u64 \<Rightarrow> URLKey set" where
  "hist_keys hs h fp = {k. (h, fp, k) \<in> set hs}"

definition soft_inv :: "(u64 \<times> u64 \<times> URLKey) list \<Rightarrow> SoftDetector \<Rightarrow> bool" where
  "soft_inv hs d \<longleftrightarrow> sd_threshold d > 0 \<and>
     (\<forall>h fp. fp \<noteq> 0 \<longrightarrow>
        (if isTemplate d h fp then card (hist_keys hs h fp) \<ge> sd_threshold d
         else mkeys (keys_of d h fp) = hist_keys hs h fp \<and> distinct (map fst (keys_of d h fp))
              \<and> card (hist_keys hs h fp) < sd_threshold d))"

lemma hist_keys_snoc: "hist_keys (hs @ [(h, fp, k)]) h' fp'
    = (if h' = h \<and> fp' = fp then insert k (hist_keys hs h fp) else hist_keys hs h' fp')"
  by (auto simp: hist_keys_def)

lemma finite_hist_keys [simp]: "finite (hist_keys hs h fp)"
proof -
  have "hist_keys hs h fp \<subseteq> (\<lambda>(h, f, k). k) ` set hs" by (force simp: hist_keys_def)
  then show ?thesis by (rule finite_subset) simp
qed

lemma isTemplate_mark:
  "isTemplate (markTemplate h fp d) h' fp' \<longleftrightarrow> (h' = h \<and> fp' = fp) \<or> isTemplate d h' fp'"
  by (auto simp: isTemplate_def markTemplate_def Let_def map_of_mput split: option.splits)

lemma isTemplate_seen [simp]: "isTemplate (d\<lparr> sd_seen := x \<rparr>) = isTemplate d"
  by (intro ext) (simp add: isTemplate_def)

lemma mark_threshold [simp]: "sd_threshold (markTemplate h fp d) = sd_threshold d"
  by (simp add: markTemplate_def Let_def)

lemma keys_of_put:
  assumes "byFP = (case mget (sd_seen d) h of None \<Rightarrow> [] | Some m \<Rightarrow> m)"
  shows "keys_of (d\<lparr> sd_seen := mput h (mput fp ks byFP) (sd_seen d) \<rparr>) h' fp'
           = (if h' = h \<and> fp' = fp then ks else keys_of d h' fp')"
    and "h' \<noteq> h \<or> fp' \<noteq> fp \<Longrightarrow>
         keys_of (d'\<lparr> sd_seen := mput h (mdel fp (mput fp ks byFP)) (sd_seen d) \<rparr>) h' fp' = keys_of d h' fp'"
  using assms by (auto simp: keys_of_def map_of_mput map_of_mdel split: option.splits)

lemma card_mput:
  assumes "distinct (map fst (m :: (URLKey, unit) gomap))"
  shows "length (mput k () m) = card (insert k (mkeys m))"
proof -
  have "length (mput k () m) = card (mkeys (mput k () m))"
    using distinct_card [OF distinct_mput [OF assms, of k "()"]] by simp
  moreover have "mkeys (mput k () m) = insert k (mkeys m)"
    by (metis dom_map_of_conv_image_fst dom_fun_upd map_of_mput option.distinct(1))
  ultimately show ?thesis by simp
qed

lemma soft_inv_new: "0 < sd_threshold d \<Longrightarrow> sd_seen d = [] \<Longrightarrow> sd_template d = [] \<Longrightarrow> soft_inv [] d"
  by (simp add: soft_inv_def isTemplate_def keys_of_def hist_keys_def)

lemma soft_inv_step:
  assumes inv: "soft_inv hs d" and t: "sd_threshold d' = sd_threshold d"
    and oth: "\<And>h' fp'. fp' \<noteq> 0 \<Longrightarrow> (h', fp') \<noteq> (h, fp) \<Longrightarrow>
       isTemplate d' h' fp' = isTemplate d h' fp' \<and> keys_of d' h' fp' = keys_of d h' fp'"
    and here: "fp \<noteq> 0 \<Longrightarrow>
       (if isTemplate d' h fp then card (insert k (hist_keys hs h fp)) \<ge> sd_threshold d
        else mkeys (keys_of d' h fp) = insert k (hist_keys hs h fp) \<and> distinct (map fst (keys_of d' h fp))
             \<and> card (insert k (hist_keys hs h fp)) < sd_threshold d)"
  shows "soft_inv (hs @ [(h, fp, k)]) d'"
  unfolding soft_inv_def
proof (intro conjI allI impI)
  show "0 < sd_threshold d'" using inv t by (simp add: soft_inv_def)
  fix h' fp' :: u64
  assume nz: "fp' \<noteq> 0"
  show "if isTemplate d' h' fp' then sd_threshold d' \<le> card (hist_keys (hs @ [(h, fp, k)]) h' fp')
        else mkeys (keys_of d' h' fp') = hist_keys (hs @ [(h, fp, k)]) h' fp'
          \<and> distinct (map fst (keys_of d' h' fp')) \<and> card (hist_keys (hs @ [(h, fp, k)]) h' fp') < sd_threshold d'"
  proof (cases "(h', fp') = (h, fp)")
    case True
    then show ?thesis using here nz t by (simp add: hist_keys_snoc)
  next
    case False
    have "if isTemplate d h' fp' then sd_threshold d \<le> card (hist_keys hs h' fp')
          else mkeys (keys_of d h' fp') = hist_keys hs h' fp' \<and> distinct (map fst (keys_of d h' fp'))
             \<and> card (hist_keys hs h' fp') < sd_threshold d"
      using inv nz by (simp add: soft_inv_def)
    then show ?thesis using oth [OF nz False] False t by (auto simp: hist_keys_snoc)
  qed
qed

lemma Observe_spec:
  assumes inv: "soft_inv hs d"
  shows "(fst (Observe h fp k d) \<longleftrightarrow> fp \<noteq> 0 \<and> card (insert k (hist_keys hs h fp)) \<ge> sd_threshold d)
     \<and> soft_inv (hs @ [(h, fp, k)]) (snd (Observe h fp k d))
     \<and> sd_threshold (snd (Observe h fp k d)) = sd_threshold d"
proof (cases "fp = 0 \<or> isTemplate d h fp")
  case True
  have e: "Observe h fp k d = (fp \<noteq> 0, d)" using True by (auto simp: Observe_def)
  have grow: "isTemplate d h fp \<Longrightarrow> fp \<noteq> 0 \<Longrightarrow> sd_threshold d \<le> card (insert k (hist_keys hs h fp))"
    using inv card_insert_le [of "hist_keys hs h fp" k] unfolding soft_inv_def by (metis order_trans)
  show ?thesis
    using True grow by (auto simp: e intro: soft_inv_step [OF inv refl])
next
  case False
  let ?byFP = "case mget (sd_seen d) h of None \<Rightarrow> [] | Some m \<Rightarrow> m"
  let ?ks = "mput k () (keys_of d h fp)"
  have ks: "(case mget ?byFP fp of None \<Rightarrow> [] | Some ks \<Rightarrow> ks) = keys_of d h fp"
    by (auto simp: keys_of_def split: option.splits)
  have here: "mkeys (keys_of d h fp) = hist_keys hs h fp" "distinct (map fst (keys_of d h fp))"
    using inv False by (auto simp: soft_inv_def)
  have len: "length ?ks = card (insert k (hist_keys hs h fp))"
    using card_mput [OF here(2), of k] here(1) by simp
  have mk: "mkeys ?ks = insert k (hist_keys hs h fp)"
    using here(1) by (metis dom_map_of_conv_image_fst dom_fun_upd map_of_mput option.distinct(1))
  show ?thesis
  proof (cases "length ?ks \<ge> sd_threshold d")
    case cross: True
    let ?d = "(markTemplate h fp d)\<lparr> sd_seen := mput h (mdel fp (mput fp ?ks ?byFP)) (sd_seen d) \<rparr>"
    have e: "Observe h fp k d = (True, ?d)"
      using False cross unfolding Observe_def Let_def ks by simp
    have "soft_inv (hs @ [(h, fp, k)]) ?d"
      using cross len by (intro soft_inv_step [OF inv]) (auto simp: isTemplate_mark keys_of_put(2) [OF refl])
    with e False cross len show ?thesis by simp
  next
    case below: False
    let ?d = "d\<lparr> sd_seen := mput h (mput fp ?ks ?byFP) (sd_seen d) \<rparr>"
    have e: "Observe h fp k d = (False, ?d)"
      using False below unfolding Observe_def Let_def ks by simp
    have "soft_inv (hs @ [(h, fp, k)]) ?d"
      using below len False mk distinct_mput [OF here(2), of k "()"]
      by (intro soft_inv_step [OF inv]) (auto simp: keys_of_put(1) [OF refl])
    with e False below len show ?thesis by simp
  qed
qed

fun observe_all :: "(u64 \<times> u64 \<times> URLKey) list \<Rightarrow> SoftDetector \<Rightarrow> SoftDetector" where
  "observe_all [] d = d"
| "observe_all ((h, fp, k) # os) d = observe_all os (snd (Observe h fp k d))"

lemma observe_all_inv:
  "soft_inv hs d \<Longrightarrow> soft_inv (hs @ os) (observe_all os d) \<and> sd_threshold (observe_all os d) = sd_threshold d"
proof (induction os d arbitrary: hs rule: observe_all.induct)
  case (2 h fp k os d)
  from Observe_spec [OF "2.prems", of h fp k] "2.IH" [of "hs @ [(h, fp, k)]"] show ?case by auto
qed simp

text \<open>the soft-404 detector is exact over any history of observations: after any sequence, an
  observation is reported as a template exactly when its fingerprint is nonzero and at least the
  threshold of distinct keys of that host, this one included, have returned it.  The verdict is
  sticky, and keys that repeat or belong to other hosts never count towards it.\<close>

theorem soft404_counts_distinct_keys:
  "fst (Observe h fp k (observe_all hist (WithThreshold n NewSoftDetector)))
     \<longleftrightarrow> fp \<noteq> 0 \<and> card (insert k (hist_keys hist h fp)) \<ge> (if n > 0 then nat n else softThreshold)"
proof -
  let ?d = "WithThreshold n NewSoftDetector"
  have "soft_inv [] ?d"
    by (rule soft_inv_new) (auto simp: WithThreshold_def NewSoftDetector_def softThreshold_def)
  from observe_all_inv [OF this, of hist]
  have i: "soft_inv hist (observe_all hist ?d)" "sd_threshold (observe_all hist ?d) = sd_threshold ?d" by auto
  have "sd_threshold ?d = (if n > 0 then nat n else softThreshold)"
    by (simp add: WithThreshold_def NewSoftDetector_def)
  then show ?thesis using Observe_spec [OF i(1), of h fp k] i(2) by simp
qed

end
