(* ===== verification/Robots.thy ===== *)
theory Robots
  imports GoFloat Records
begin

text \<open>
  The robots.txt parser and matcher, \<^verbatim>\<open>robots/robots.go\<close>.  The theory shows that the greedy
  segment matcher decides the wildcard pattern language (with one exception, the bare anchor), that
  the verdict is the longest-match rule with Allow winning ties, and that the group selection takes
  the most specific token.  The Unicode tables behind \<^verbatim>\<open>strings.ToLower\<close> and the decimal scanner of
  \<^verbatim>\<open>strconv.ParseFloat\<close> (finite results) are the arguments \<open>lower\<close> and \<open>parseFloat\<close>.
\<close>

section \<open>Library functions on strings\<close>

fun Split :: "char \<Rightarrow> string \<Rightarrow> string list" where
  "Split c [] = [[]]"
| "Split c (x # s) =
     (if x = c then [] # Split c s
      else (case Split c s of [] \<Rightarrow> [[x]] | w # ws \<Rightarrow> (x # w) # ws))"

fun Index :: "string \<Rightarrow> string \<Rightarrow> nat option" where
  "Index s seg =
     (if strip_prefix seg s \<noteq> None then Some 0
      else (case s of [] \<Rightarrow> None | c # s' \<Rightarrow> map_option Suc (Index s' seg)))"

declare Index.simps [simp del]

definition HasPrefix :: "string \<Rightarrow> string \<Rightarrow> bool" where
  "HasPrefix s p \<longleftrightarrow> strip_prefix p s \<noteq> None"

definition HasSuffix :: "string \<Rightarrow> string \<Rightarrow> bool" where
  "HasSuffix s p \<longleftrightarrow> strip_prefix (rev p) (rev s) \<noteq> None"

fun IndexByte :: "string \<Rightarrow> char \<Rightarrow> nat option" where
  "IndexByte [] c = None"
| "IndexByte (x # s) c = (if x = c then Some 0 else map_option Suc (IndexByte s c))"

text \<open>\<^verbatim>\<open>strings.TrimSpace\<close> drops the Unicode white space runes at both ends, here by their UTF-8
  encodings.\<close>

definition space_runes :: "string list" where
  "space_runes = map (map (char_of :: nat \<Rightarrow> char))
     ([[9], [10], [11], [12], [13], [32], [0xC2, 0x85], [0xC2, 0xA0], [0xE1, 0x9A, 0x80]]
      @ map (\<lambda>i. [0xE2, 0x80, i]) [0x80..<0x8B]
      @ [[0xE2, 0x80, 0xA8], [0xE2, 0x80, 0xA9], [0xE2, 0x80, 0xAF], [0xE2, 0x81, 0x9F], [0xE3, 0x80, 0x80]])"

function trim_left :: "string list \<Rightarrow> string \<Rightarrow> string" where
  "trim_left runes s =
     (case List.find (\<lambda>r. r \<noteq> [] \<and> strip_prefix r s \<noteq> None) runes of
        None \<Rightarrow> s
      | Some r \<Rightarrow> trim_left runes (drop (length r) s))"
  by pat_completeness auto
termination
proof (relation "measure (\<lambda>(r, s). length s)", goal_cases)
  case (2 runes s r)
  then have "r \<noteq> []" "strip_prefix r s \<noteq> None" by (auto simp: find_Some_iff)
  then show ?case by (auto simp: strip_prefix_Some)
qed simp

declare trim_left.simps [simp del]

definition TrimSpace :: "string \<Rightarrow> string" where
  "TrimSpace s = rev (trim_left (map rev space_runes) (rev (trim_left space_runes s)))"

section \<open>Rules\<close>

record rule =
  ru_pattern :: string
  ru_allow :: bool
  ru_length :: int

record Rules =
  r_rules :: "rule list"
  r_crawlDelay :: duration
  r_sitemaps :: "string list"

record group =
  g_agents :: "string list"
  g_rules :: "rule list"
  g_crawlDelay :: duration

definition MaxBytes :: nat where "MaxBytes = 500 * 1024"

definition patternLength :: "string \<Rightarrow> int" where
  "patternLength p = (if HasSuffix p ''$'' then int (length p) - 1 else int (length p))"

text \<open>\<^verbatim>\<open>time.Duration(secs * float64(time.Second))\<close>.\<close>

definition parseDelay :: "(string \<Rightarrow> rat option) \<Rightarrow> string \<Rightarrow> duration option" where
  "parseDelay parseFloat value =
     (case parseFloat value of
        None \<Rightarrow> None
      | Some secs \<Rightarrow> if secs < 0 then None else Some (trunc64 (fl64 (secs * of_int Second))))"

definition splitLine :: "(string \<Rightarrow> string) \<Rightarrow> string \<Rightarrow> (string \<times> string) option" where
  "splitLine lower line0 =
     (let line1 = (case IndexByte line0 (CHR ''#'') of Some i \<Rightarrow> take i line0 | None \<Rightarrow> line0);
          line = TrimSpace line1 in
      if line = [] then None
      else case IndexByte line (CHR '':'') of
        None \<Rightarrow> None
      | Some colon \<Rightarrow>
          (let field = lower (TrimSpace (take colon line));
               value = TrimSpace (drop (colon + 1) line) in
           if field = [] then None else Some (field, value)))"

section \<open>Parsing\<close>

record parse_state =
  p_groups :: "group list"
  p_starting :: bool
  p_sitemaps :: "string list"

text \<open>The pointer \<open>cur\<close> of the source is nil before the first group and otherwise points to the last
  one.\<close>

definition on_cur :: "(group \<Rightarrow> group) \<Rightarrow> parse_state \<Rightarrow> parse_state" where
  "on_cur f p =
     (if p_groups p = [] then p
      else p\<lparr> p_groups := butlast (p_groups p) @ [f (last (p_groups p))], p_starting := False \<rparr>)"

definition parse_field :: "(string \<Rightarrow> string) \<Rightarrow> (string \<Rightarrow> rat option) \<Rightarrow> string \<Rightarrow> string
    \<Rightarrow> parse_state \<Rightarrow> parse_state" where
  "parse_field lower parseFloat field value p =
     (if field = ''user-agent'' \<or> field = ''useragent'' then
        (let groups = (if \<not> p_starting p
                       then p_groups p @ [\<lparr> g_agents = [], g_rules = [], g_crawlDelay = 0 \<rparr>]
                       else p_groups p);
             cur = last groups in
         p\<lparr> p_groups := butlast groups @ [cur\<lparr> g_agents := g_agents cur @ [lower value] \<rparr>],
            p_starting := True \<rparr>)
      else if field = ''allow'' \<or> field = ''disallow'' then
        on_cur (\<lambda>cur. cur\<lparr> g_rules := g_rules cur
                  @ [\<lparr> ru_pattern = value, ru_allow = (field = ''allow''), ru_length = patternLength value \<rparr>] \<rparr>) p
      else if field = ''crawl-delay'' then
        on_cur (\<lambda>cur. case parseDelay parseFloat value of
                        None \<Rightarrow> cur | Some d \<Rightarrow> cur\<lparr> g_crawlDelay := d \<rparr>) p
      else if field = ''sitemap'' then
        (if value \<noteq> [] then p\<lparr> p_sitemaps := p_sitemaps p @ [value] \<rparr> else p)
      else p)"

definition parse_line :: "(string \<Rightarrow> string) \<Rightarrow> (string \<Rightarrow> rat option) \<Rightarrow> string \<Rightarrow> parse_state \<Rightarrow> parse_state" where
  "parse_line lower parseFloat line p =
     (case splitLine lower line of
        None \<Rightarrow> p
      | Some (field, value) \<Rightarrow> parse_field lower parseFloat field value p)"

text \<open>\<^verbatim>\<open>bufio.Scanner\<close> with \<^verbatim>\<open>ScanLines\<close>: lines end at a newline, a trailing carriage return is
  dropped, an empty last line is not reported.  Its buffer is limited to \<^verbatim>\<open>MaxBytes\<close>, so a body that
  fills it without a newline stops the scan before the first line.\<close>

definition drop_cr :: "string \<Rightarrow> string" where
  "drop_cr l = (if l \<noteq> [] \<and> last l = char_of (13::nat) then butlast l else l)"

definition scan_lines :: "string \<Rightarrow> string list" where
  "scan_lines body =
     (let ls = Split (char_of (10::nat)) body in
      if length body \<ge> MaxBytes \<and> length ls = 1 then []
      else map drop_cr (if last ls = [] then butlast ls else ls))"

fun select_agent :: "string \<Rightarrow> group \<Rightarrow> string list \<Rightarrow> group option \<times> int \<times> group option
    \<Rightarrow> group option \<times> int \<times> group option" where
  "select_agent product g [] acc = acc"
| "select_agent product g (agent # agents) (best, bestLen, wildcard) =
     select_agent product g agents
       (if agent = ''*'' then (best, bestLen, if wildcard = None then Some g else wildcard)
        else if HasPrefix product agent \<and> int (length agent) > bestLen
        then (Some g, int (length agent), wildcard)
        else (best, bestLen, wildcard))"

definition selectGroup :: "group list \<Rightarrow> string \<Rightarrow> group option" where
  "selectGroup groups product =
     (let (best, bestLen, wildcard) =
            fold (\<lambda>g acc. select_agent product g (g_agents g) acc) groups (None, -1, None) in
      if best \<noteq> None then best else wildcard)"

text \<open>\<open>None\<close> is the nil result, allow-all.\<close>

definition Parse :: "(string \<Rightarrow> string) \<Rightarrow> (string \<Rightarrow> rat option) \<Rightarrow> u8 list \<Rightarrow> string \<Rightarrow> Rules option" where
  "Parse lower parseFloat body0 userAgent =
     (let body1 = (if length body0 > MaxBytes then take MaxBytes body0 else body0);
          body = (case strip_prefix [0xEF, 0xBB, 0xBF] body1 of Some b \<Rightarrow> b | None \<Rightarrow> body1);
          product = lower userAgent;
          p = fold (parse_line lower parseFloat) (scan_lines (string_of body))
                \<lparr> p_groups = [], p_starting = False, p_sitemaps = [] \<rparr>;
          best = selectGroup (p_groups p) product in
      if best = None \<and> p_sitemaps p = [] then None
      else Some (case best of
          None \<Rightarrow> \<lparr> r_rules = [], r_crawlDelay = 0, r_sitemaps = p_sitemaps p \<rparr>
        | Some g \<Rightarrow> \<lparr> r_rules = g_rules g, r_crawlDelay = g_crawlDelay g, r_sitemaps = p_sitemaps p \<rparr>))"

section \<open>Matching\<close>

definition lastSegmentEmpty :: "string list \<Rightarrow> bool" where
  "lastSegmentEmpty segments \<longleftrightarrow> segments \<noteq> [] \<and> last segments = []"

text \<open>The loop over the segments.  The position is the rest of the path; \<open>None\<close> is the early false.\<close>

fun match_loop :: "bool \<Rightarrow> bool \<Rightarrow> string list \<Rightarrow> string \<Rightarrow> string option" where
  "match_loop anchored first [] rest = Some rest"
| "match_loop anchored first (seg # segs) rest =
     (if seg = [] then match_loop anchored False segs rest
      else if first then
        (case strip_prefix seg rest of None \<Rightarrow> None | Some r \<Rightarrow> match_loop anchored False segs r)
      else if segs = [] \<and> anchored then
        (if HasSuffix rest seg then match_loop anchored False segs [] else None)
      else
        (case Index rest seg of None \<Rightarrow> None
         | Some idx \<Rightarrow> match_loop anchored False segs (drop (idx + length seg) rest)))"

definition robots_match :: "string \<Rightarrow> string \<Rightarrow> bool" where
  "robots_match pattern0 path =
     (if pattern0 = [] then False
      else
        (let anchored = HasSuffix pattern0 ''$'';
             pattern = (if anchored then butlast pattern0 else pattern0);
             segments = Split (CHR ''*'') pattern in
         case match_loop anchored True segments path of
           None \<Rightarrow> False
         | Some rest \<Rightarrow>
             if anchored \<and> lastSegmentEmpty segments then True
             else if anchored \<and> rest \<noteq> [] then False
             else True))"

fun allowed_loop :: "rule list \<Rightarrow> string \<Rightarrow> int \<Rightarrow> bool \<Rightarrow> bool" where
  "allowed_loop [] path bestLen allow = allow"
| "allowed_loop (rl # rls) path bestLen allow =
     (if \<not> robots_match (ru_pattern rl) path then allowed_loop rls path bestLen allow
      else if ru_length rl > bestLen then allowed_loop rls path (ru_length rl) (ru_allow rl)
      else if ru_length rl = bestLen \<and> ru_allow rl then allowed_loop rls path bestLen True
      else allowed_loop rls path bestLen allow)"

definition Allowed :: "Rules option \<Rightarrow> string \<Rightarrow> bool" where
  "Allowed r path =
     (case r of None \<Rightarrow> True
      | Some rs \<Rightarrow> if r_rules rs = [] then True else allowed_loop (r_rules rs) path (-1) True)"

definition Rules_CrawlDelay :: "Rules option \<Rightarrow> duration" where
  "Rules_CrawlDelay r = (case r of None \<Rightarrow> 0 | Some rs \<Rightarrow> r_crawlDelay rs)"

definition Sitemaps :: "Rules option \<Rightarrow> string list" where
  "Sitemaps r = (case r of None \<Rightarrow> [] | Some rs \<Rightarrow> r_sitemaps rs)"

section \<open>The matcher decides the pattern language\<close>

text \<open>The pattern language: a star matches any run, the rest is literal, the anchor asks for the end of
  the path.\<close>

fun glob :: "bool \<Rightarrow> string \<Rightarrow> string \<Rightarrow> bool" where
  "glob anchored [] s = (anchored \<longrightarrow> s = [])"
| "glob anchored (c # p) s =
     (if c = CHR ''*'' then list_ex (\<lambda>n. glob anchored p (drop n s)) [0..<Suc (length s)]
      else (case s of [] \<Rightarrow> False | d # s' \<Rightarrow> c = d \<and> glob anchored p s'))"

fun seg_glob :: "bool \<Rightarrow> string list \<Rightarrow> string \<Rightarrow> bool" where
  "seg_glob anchored [] s = (anchored \<longrightarrow> s = [])"
| "seg_glob anchored (seg # segs) s =
     (\<exists>t. s = seg @ t \<and> (if segs = [] then (anchored \<longrightarrow> t = [])
                         else (\<exists>x u. t = x @ u \<and> seg_glob anchored segs u)))"

lemma glob_star: "glob a (CHR ''*'' # p) s \<longleftrightarrow> (\<exists>x u. s = x @ u \<and> glob a p u)"
proof
  assume "glob a (CHR ''*'' # p) s"
  then have "\<exists>n \<in> set [0..<Suc (length s)]. glob a p (drop n s)"
    by (simp only: glob.simps list_ex_iff if_True)
  then obtain n where "glob a p (drop n s)" by blast
  then show "\<exists>x u. s = x @ u \<and> glob a p u" by (metis append_take_drop_id)
next
  assume "\<exists>x u. s = x @ u \<and> glob a p u"
  then obtain x u where "s = x @ u" "glob a p u" by blast
  then show "glob a (CHR ''*'' # p) s"
    by (auto simp: list_ex_iff intro!: bexI [of _ "length x"])
qed

lemma Split_not_Nil [simp]: "Split c s \<noteq> []"
  by (induction s) (auto split: list.splits)

lemma glob_segments: "glob a p s \<longleftrightarrow> seg_glob a (Split (CHR ''*'') p) s"
proof (induction p arbitrary: s)
  case (Cons c p)
  show ?case
  proof (cases "c = CHR ''*''")
    case True
    then have "glob a (c # p) s \<longleftrightarrow> (\<exists>x u. s = x @ u \<and> seg_glob a (Split (CHR ''*'') p) u)"
      using Cons.IH by (simp only: glob_star)
    then show ?thesis using True by simp
  next
    case False
    obtain w ws where sp: "Split (CHR ''*'') p = w # ws" by (cases "Split (CHR ''*'') p") auto
    have "glob a (c # p) s \<longleftrightarrow> (\<exists>s'. s = c # s' \<and> seg_glob a (w # ws) s')"
      using False Cons.IH sp by (auto split: list.splits)
    then show ?thesis using False sp by auto
  qed
qed simp

lemma strip_prefix_None: "strip_prefix p s = None \<longleftrightarrow> (\<nexists>r. s = p @ r)"
  by (metis not_None_eq strip_prefix_Some)

lemma Index_Some:
  "Index s seg = Some i \<Longrightarrow> i + length seg \<le> length s \<and> take (length seg) (drop i s) = seg"
proof (induction s arbitrary: i)
  case Nil
  then show ?case by (auto simp: Index.simps [of "[]"] strip_prefix_Some split: if_splits)
next
  case (Cons c s)
  show ?case
  proof (cases "strip_prefix seg (c # s)")
    case (Some r)
    then have "i = 0" using Cons.prems by (simp add: Index.simps [of "c # s"])
    moreover have "c # s = seg @ r" using Some by (simp add: strip_prefix_Some)
    ultimately show ?thesis by (metis add_0 append_eq_conv_conj drop0 le_add1 length_append)
  next
    case None
    with Cons show ?thesis by (auto simp: Index.simps [of "c # s"])
  qed
qed

text \<open>The leftmost occurrence leaves the longest rest.\<close>

lemma Index_leftmost:
  assumes "s = x @ seg @ u"
  shows "\<exists>i y. Index s seg = Some i \<and> drop (i + length seg) s = y @ u"
  using assms
proof (induction s arbitrary: x)
  case Nil
  then show ?case by (simp add: Index.simps [of "[]"])
next
  case (Cons c s)
  show ?case
  proof (cases "strip_prefix seg (c # s)")
    case (Some r)
    then have r: "c # s = seg @ r" by (simp add: strip_prefix_Some)
    have "length r \<ge> length u" using r Cons.prems by (metis add_le_cancel_left le_add2 length_append add.left_commute)
    then obtain y where "r = y @ u"
      using r Cons.prems by (metis append_assoc append_eq_append_conv_if append_take_drop_id
          length_append trans_le_add2 nat_le_linear)
    moreover have "Index (c # s) seg = Some 0" using Some by (simp add: Index.simps [of "c # s"])
    ultimately show ?thesis using r by auto
  next
    case None
    then have "x \<noteq> []" using Cons.prems by (auto simp: strip_prefix_None)
    then obtain x' where "s = x' @ seg @ u" using Cons.prems by (cases x) auto
    from Cons.IH [OF this] None show ?thesis by (auto simp: Index.simps [of "c # s"])
  qed
qed

text \<open>Matching after a star.\<close>

definition star_match :: "bool \<Rightarrow> string list \<Rightarrow> string \<Rightarrow> bool" where
  "star_match a segs t \<longleftrightarrow> (\<exists>x u. t = x @ u \<and> seg_glob a segs u)"

definition accepts :: "bool \<Rightarrow> string list \<Rightarrow> string option \<Rightarrow> bool" where
  "accepts a segs r = (case r of None \<Rightarrow> False | Some rest \<Rightarrow> a \<longrightarrow> lastSegmentEmpty segs \<or> rest = [])"

lemma star_match_mono: "star_match a segs u \<Longrightarrow> star_match a segs (y @ u)"
  unfolding star_match_def by (metis append_assoc)

lemma star_match_empty: "segs \<noteq> [] \<Longrightarrow> star_match a ([] # segs) t \<longleftrightarrow> star_match a segs t"
  unfolding star_match_def by (auto, metis append_assoc)

lemma star_match_single: "star_match a [seg] t \<longleftrightarrow> (\<exists>x u. t = x @ seg @ u \<and> (a \<longrightarrow> u = []))"
  by (auto simp: star_match_def)

lemma star_match_seg:
  assumes "segs \<noteq> []"
  shows "star_match a (seg # segs) t
     \<longleftrightarrow> (case Index t seg of None \<Rightarrow> False | Some i \<Rightarrow> star_match a segs (drop (i + length seg) t))"
proof
  assume "star_match a (seg # segs) t"
  then obtain x t' where t: "t = x @ seg @ t'" "star_match a segs t'"
    using assms by (auto simp: star_match_def)
  from Index_leftmost [OF t(1)] obtain i y where "Index t seg = Some i" "drop (i + length seg) t = y @ t'" by blast
  then show "case Index t seg of None \<Rightarrow> False | Some i \<Rightarrow> star_match a segs (drop (i + length seg) t)"
    using star_match_mono [OF t(2)] by simp
next
  assume "case Index t seg of None \<Rightarrow> False | Some i \<Rightarrow> star_match a segs (drop (i + length seg) t)"
  then obtain i where i: "Index t seg = Some i" "star_match a segs (drop (i + length seg) t)"
    by (auto split: option.splits)
  have "t = take i t @ seg @ drop (i + length seg) t"
    using Index_Some [OF i(1)] by (metis append_take_drop_id drop_drop add.commute)
  with i(2) assms show "star_match a (seg # segs) t" unfolding star_match_def by (auto, metis)
qed

lemma HasSuffix_iff: "HasSuffix s p \<longleftrightarrow> (\<exists>x. s = x @ p)"
proof -
  have "strip_prefix (rev p) (rev s) \<noteq> None \<longleftrightarrow> (\<exists>r. rev s = rev p @ r)"
    by (simp add: strip_prefix_None)
  also have "\<dots> \<longleftrightarrow> (\<exists>x. s = x @ p)" by (metis rev_append rev_rev_ident)
  finally show ?thesis by (simp add: HasSuffix_def)
qed

lemma Index_None: "Index t seg = None \<longleftrightarrow> (\<nexists>x u. t = x @ seg @ u)"
proof
  assume "Index t seg = None"
  then show "\<nexists>x u. t = x @ seg @ u" using Index_leftmost by fastforce
next
  assume n: "\<nexists>x u. t = x @ seg @ u"
  show "Index t seg = None"
  proof (rule ccontr)
    assume "Index t seg \<noteq> None"
    then obtain i where "Index t seg = Some i" by blast
    from Index_Some [OF this] have "t = take i t @ seg @ drop (i + length seg) t"
      by (metis append_take_drop_id drop_drop add.commute)
    with n show False by blast
  qed
qed

lemma loop_after_star:
  "segs \<noteq> [] \<Longrightarrow> accepts a segs (match_loop a False segs t) \<longleftrightarrow> star_match a segs t"
proof (induction segs arbitrary: t)
  case (Cons seg segs)
  show ?case
  proof (cases "segs = []")
    case True
    have "Index t seg \<noteq> None \<longleftrightarrow> (\<exists>x u. t = x @ seg @ u)" by (simp add: Index_None)
    then show ?thesis
      using True
      by (auto simp: star_match_single accepts_def lastSegmentEmpty_def HasSuffix_iff split: option.splits)
  next
    case False
    have acc: "accepts a (seg # segs) r = accepts a segs r" for r
      using False by (cases r) (auto simp: accepts_def lastSegmentEmpty_def)
    have none: "accepts a segs None = False" by (simp add: accepts_def)
    show ?thesis
    proof (cases "seg = []")
      case True
      then show ?thesis using False Cons.IH [OF False] acc by (simp add: star_match_empty)
    next
      case ne: False
      then show ?thesis
        using False Cons.IH by (simp add: acc star_match_seg none split: option.splits)
    qed
  qed
qed simp

lemma loop_first:
  assumes "seg # segs \<noteq> [[]]"
  shows "accepts a (seg # segs) (match_loop a True (seg # segs) path) \<longleftrightarrow> seg_glob a (seg # segs) path"
proof (cases "segs = []")
  case True
  then have ne: "seg \<noteq> []" using assms by simp
  show ?thesis
  proof (cases "strip_prefix seg path")
    case None
    then have "\<nexists>t. path = seg @ t" by (simp add: strip_prefix_None)
    then show ?thesis using None True ne by (simp add: accepts_def)
  next
    case (Some r)
    then have "path = seg @ r" by (simp add: strip_prefix_Some)
    then show ?thesis using Some True ne by (auto simp: accepts_def lastSegmentEmpty_def)
  qed
next
  case False
  have acc: "accepts a (seg # segs) r = accepts a segs r" for r
    using False by (cases r) (auto simp: accepts_def lastSegmentEmpty_def)
  have none: "accepts a segs None = False" by (simp add: accepts_def)
  have g: "seg_glob a (seg # segs) path \<longleftrightarrow> (\<exists>t. path = seg @ t \<and> star_match a segs t)"
    using False by (simp add: star_match_def)
  show ?thesis
  proof (cases "strip_prefix seg path")
    case None
    then have "seg \<noteq> []" "\<nexists>t. path = seg @ t" by (auto simp: strip_prefix_None)
    then show ?thesis using None by (simp add: g acc none)
  next
    case (Some r)
    then have "path = seg @ r" by (simp add: strip_prefix_Some)
    then have "seg_glob a (seg # segs) path \<longleftrightarrow> star_match a segs r" using g by auto
    moreover have "match_loop a True (seg # segs) path = match_loop a False segs r"
      using Some \<open>path = seg @ r\<close> by (cases "seg = []") auto
    ultimately show ?thesis using loop_after_star [OF False, of a r] acc by metis
  qed
qed

text \<open>C13: the greedy segment matcher decides the robots pattern language: for every pattern but the
  empty one and the bare anchor \<open>$\<close>, a path matches exactly when it matches the pattern with each star
  standing for any run of characters, from the start of the path, to its end when the pattern ends in
  an anchor and anywhere otherwise.\<close>

theorem robots_match_iff_glob:
  assumes "pat \<noteq> []" "pat \<noteq> ''$''"
  shows "robots_match pat path
     \<longleftrightarrow> (if last pat = CHR ''$'' then glob True (butlast pat) path else glob False pat path)"
proof -
  define a p where "a = HasSuffix pat ''$''" and "p = (if HasSuffix pat ''$'' then butlast pat else pat)"
  have a: "a \<longleftrightarrow> last pat = CHR ''$''"
    using assms(1) by (auto simp: a_def HasSuffix_iff) (metis append_butlast_last_id)
  obtain seg segs where sp: "Split (CHR ''*'') p = seg # segs" by (cases "Split (CHR ''*'') p") auto
  have "p \<noteq> []"
    using assms a unfolding p_def a_def by (cases pat rule: rev_cases) auto
  moreover have "Split (CHR ''*'') q = [[]] \<Longrightarrow> q = []" for q
    by (cases q) (auto split: if_splits list.splits)
  ultimately have ne: "seg # segs \<noteq> [[]]" using sp by metis
  have "robots_match pat path \<longleftrightarrow> accepts a (seg # segs) (match_loop a True (seg # segs) path)"
    using assms(1) unfolding robots_match_def Let_def a_def [symmetric] p_def [symmetric, folded a_def] sp
    by (auto simp: accepts_def split: option.splits)
  also have "\<dots> \<longleftrightarrow> glob a p path" using loop_first [OF ne] sp by (simp only: glob_segments)
  finally show ?thesis using a by (simp add: p_def a_def)
qed

theorem robots_match_iff_glob_witness: "robots_match ''/*.pdf$'' ''/a/b.pdf''"
  using robots_match_iff_glob [of "''/*.pdf$''" "''/a/b.pdf''"] by (simp add: upt_rec)

text \<open>the bare anchor is taken for a pattern that ended in a star: \<open>$\<close> matches every path, although
  the anchored empty pattern matches only the empty path, so \<^verbatim>\<open>Disallow: $\<close> excludes a whole site.\<close>

theorem bare_anchor_matches_everything:
  "robots_match ''$'' path \<and> (glob True [] path \<longleftrightarrow> path = [])
   \<and> \<not> Allowed (Some \<lparr> r_rules = [\<lparr> ru_pattern = ''$'', ru_allow = False, ru_length = patternLength ''$'' \<rparr>],
                       r_crawlDelay = 0, r_sitemaps = [] \<rparr>) path"
proof -
  have m: "robots_match ''$'' path"
    by (simp add: robots_match_def HasSuffix_def lastSegmentEmpty_def)
  moreover have "patternLength ''$'' = 0" by (simp add: patternLength_def HasSuffix_def)
  ultimately show ?thesis by (simp add: Allowed_def)
qed

section \<open>The longest match decides\<close>

lemma allowed_loop_spec:
  "allowed_loop rls path best allow \<longleftrightarrow>
     (let M = filter (\<lambda>rl. robots_match (ru_pattern rl) path) rls;
          m = foldl max best (map ru_length M) in
      (\<exists>rl \<in> set M. ru_allow rl \<and> ru_length rl = m) \<or> (m = best \<and> allow))"
proof (induction rls arbitrary: best allow)
  case (Cons rl rls)
  let ?M = "filter (\<lambda>rl. robots_match (ru_pattern rl) path) rls"
  have ge: "b \<le> foldl max b xs" for b :: int and xs
    by (induction xs arbitrary: b) (auto, meson max.cobounded1 order_trans)
  show ?case
  proof (cases "robots_match (ru_pattern rl) path")
    case False
    with Cons show ?thesis by simp
  next
    case True
    show ?thesis
    proof (cases "ru_length rl > best")
      case longer: True
      then have "max best (ru_length rl) = ru_length rl" by simp
      with True longer Cons [of "ru_length rl" "ru_allow rl"] ge [of "ru_length rl" "map ru_length ?M"]
      show ?thesis by (auto simp: Let_def)
    next
      case False
      then have "max best (ru_length rl) = best" by simp
      with True False Cons [of best] ge [of best "map ru_length ?M"] show ?thesis
        by (auto simp: Let_def)
    qed
  qed
qed simp

lemma foldl_max_eq:
  fixes b :: int
  assumes "\<forall>x \<in> set xs. b < x" "xs \<noteq> []"
  shows "foldl max b xs = Max (set xs)"
  using assms
proof (induction xs arbitrary: b rule: rev_induct)
  case (snoc x xs)
  then show ?case by (cases "xs = []") (auto simp: max.commute)
qed simp

section \<open>Group selection and parsed rules\<close>

lemma patternLength_nonneg: "0 \<le> patternLength p"
  by (auto simp: patternLength_def HasSuffix_iff)

definition good_group :: "group \<Rightarrow> bool" where
  "good_group g \<longleftrightarrow> (\<forall>rl \<in> set (g_rules g). 0 \<le> ru_length rl)"

definition parse_inv :: "parse_state \<Rightarrow> bool" where
  "parse_inv p \<longleftrightarrow> (p_starting p \<longrightarrow> p_groups p \<noteq> []) \<and> (\<forall>g \<in> set (p_groups p). good_group g)"

lemma parse_inv_update_last:
  assumes "\<forall>g \<in> set gs. good_group g" "gs \<noteq> []" "good_group (last gs) \<Longrightarrow> good_group g'"
  shows "parse_inv (p\<lparr> p_groups := butlast gs @ [g'], p_starting := b \<rparr>)"
proof -
  have "good_group g'" using assms by simp
  moreover have "\<forall>g \<in> set (butlast gs). good_group g" using assms(1) by (meson in_set_butlastD)
  ultimately show ?thesis by (auto simp: parse_inv_def)
qed

lemma on_cur_inv:
  assumes "parse_inv p" "\<And>g. good_group g \<Longrightarrow> good_group (f g)"
  shows "parse_inv (on_cur f p)"
  using assms parse_inv_update_last [where gs = "p_groups p" and g' = "f (last (p_groups p))" and p = p and b = False]
  by (auto simp: on_cur_def parse_inv_def)

lemma parse_user_agent_inv:
  assumes "parse_inv p" "field = ''user-agent'' \<or> field = ''useragent''"
  shows "parse_inv (parse_field lower pf field value p)"
proof -
  define gs where "gs = (if \<not> p_starting p then p_groups p @ [\<lparr> g_agents = [], g_rules = [], g_crawlDelay = 0 \<rparr>]
      else p_groups p)"
  have "gs \<noteq> []" "\<forall>g \<in> set gs. good_group g"
    using assms(1) by (auto simp: gs_def parse_inv_def good_group_def)
  then have "parse_inv (p\<lparr> p_groups := butlast gs @ [(last gs)\<lparr> g_agents := g_agents (last gs) @ [lower value] \<rparr>],
      p_starting := True \<rparr>)"
    by (intro parse_inv_update_last) (simp_all add: good_group_def)
  then show ?thesis
    using assms(2) unfolding parse_field_def Let_def gs_def by (simp only: if_True)
qed

lemma parse_field_inv:
  assumes "parse_inv p"
  shows "parse_inv (parse_field lower pf field value p)"
proof -
  show ?thesis
  proof (cases "field = ''user-agent'' \<or> field = ''useragent''")
    case True
    then show ?thesis by (rule parse_user_agent_inv [OF assms])
  next
    case F1: False
    show ?thesis
    proof (cases "field = ''allow'' \<or> field = ''disallow''")
      case True
      show ?thesis
        unfolding parse_field_def if_not_P [OF F1] if_P [OF True]
        by (rule on_cur_inv [OF assms]) (auto simp: good_group_def patternLength_nonneg)
    next
      case F2: False
      have "parse_inv (on_cur (\<lambda>cur. case parseDelay pf value of None \<Rightarrow> cur | Some d \<Rightarrow> cur\<lparr> g_crawlDelay := d \<rparr>) p)"
        by (rule on_cur_inv [OF assms]) (auto simp: good_group_def split: option.split)
      then show ?thesis
        unfolding parse_field_def if_not_P [OF F1] if_not_P [OF F2] using assms by (simp add: parse_inv_def)
    qed
  qed
qed

lemma parse_lines_inv: "parse_inv p \<Longrightarrow> parse_inv (fold (parse_line lower pf) ls p)"
  by (induction ls arbitrary: p) (auto simp: parse_line_def parse_field_inv split: option.split)

lemma select_agent_mem:
  assumes "select_agent product g agents (b, l, w) = (b', l', w')" "b \<in> X" "w \<in> X" "Some g \<in> X"
  shows "b' \<in> X \<and> w' \<in> X"
  using assms by (induction agents arbitrary: b l w) (auto split: if_splits)

lemma selectGroup_mem: "selectGroup groups product = Some g \<Longrightarrow> g \<in> set groups"
proof -
  have "fst (fold (\<lambda>g acc. select_agent product g (g_agents g) acc) gs acc) \<in> insert None (Some ` set groups)
      \<and> snd (snd (fold (\<lambda>g acc. select_agent product g (g_agents g) acc) gs acc)) \<in> insert None (Some ` set groups)"
    if "set gs \<subseteq> set groups" "fst acc \<in> insert None (Some ` set groups)" "snd (snd acc) \<in> insert None (Some ` set groups)" for gs acc
    using that
  proof (induction gs arbitrary: acc)
    case (Cons g gs)
    obtain b l w where acc: "acc = (b, l, w)" by (cases acc)
    obtain b' l' w' where r: "select_agent product g (g_agents g) (b, l, w) = (b', l', w')"
      by (cases "select_agent product g (g_agents g) (b, l, w)")
    from select_agent_mem [OF r, of "insert None (Some ` set groups)"] Cons.prems acc
    have "b' \<in> insert None (Some ` set groups)" "w' \<in> insert None (Some ` set groups)" by auto
    with Cons.IH [of "(b', l', w')"] Cons.prems r acc show ?case by simp
  qed simp
  from this [of groups "(None, -1, None)"] show "selectGroup groups product = Some g \<Longrightarrow> g \<in> set groups"
    by (auto simp: selectGroup_def Let_def split: prod.splits if_splits)
qed

lemma Parse_lengths:
  assumes "Parse lower pf body agent = Some r"
  shows "\<forall>rl \<in> set (r_rules r). 0 \<le> ru_length rl"
proof -
  obtain p where inv: "parse_inv p" and r: "r = (case selectGroup (p_groups p) (lower agent) of
        None \<Rightarrow> \<lparr> r_rules = [], r_crawlDelay = 0, r_sitemaps = p_sitemaps p \<rparr>
      | Some g \<Rightarrow> \<lparr> r_rules = g_rules g, r_crawlDelay = g_crawlDelay g, r_sitemaps = p_sitemaps p \<rparr>)"
    using assms parse_lines_inv [of "\<lparr> p_groups = [], p_starting = False, p_sitemaps = [] \<rparr>" lower pf]
    by (fastforce simp: Parse_def Let_def parse_inv_def split: if_splits)
  show ?thesis
  proof (cases "selectGroup (p_groups p) (lower agent)")
    case (Some g)
    then show ?thesis using inv r selectGroup_mem [OF Some] by (simp add: parse_inv_def good_group_def)
  qed (use r in simp)
qed

text \<open>the verdict is the longest-match rule: for the rules of any
  parsed robots.txt, a path is allowed exactly when no rule of the selected group
  matches it, or some matching Allow rule is at least as long as every matching rule.  The order of
  the rules in the file does not matter.\<close>

theorem Allowed_longest_match:
  assumes "Parse lower parseFloat body agent = Some r"
  shows "Allowed (Some r) path \<longleftrightarrow>
     (\<forall>rl \<in> set (r_rules r). \<not> robots_match (ru_pattern rl) path)
     \<or> (\<exists>rl \<in> set (r_rules r). robots_match (ru_pattern rl) path \<and> ru_allow rl
          \<and> (\<forall>r' \<in> set (r_rules r). robots_match (ru_pattern r') path \<longrightarrow> ru_length r' \<le> ru_length rl))"
proof -
  let ?M = "filter (\<lambda>rl. robots_match (ru_pattern rl) path) (r_rules r)"
  have spec: "Allowed (Some r) path \<longleftrightarrow>
      (\<exists>rl \<in> set ?M. ru_allow rl \<and> ru_length rl = foldl max (-1) (map ru_length ?M))
      \<or> foldl max (-1) (map ru_length ?M) = -1"
    by (auto simp: Allowed_def allowed_loop_spec Let_def)
  show ?thesis
  proof (cases "?M = []")
    case True
    then show ?thesis using spec by (auto simp: filter_empty_conv)
  next
    case False
    have pos: "\<forall>x \<in> set (map ru_length ?M). - 1 < x" using Parse_lengths [OF assms] by auto
    have mx: "foldl max (-1) (map ru_length ?M) = Max (ru_length ` set ?M)"
      using foldl_max_eq [OF pos] False by simp
    have "Max (ru_length ` set ?M) \<noteq> -1"
      using Max_in [of "ru_length ` set ?M"] False pos by fastforce
    moreover have "ru_length rl = Max (ru_length ` set ?M) \<longleftrightarrow> (\<forall>r' \<in> set ?M. ru_length r' \<le> ru_length rl)"
      if "rl \<in> set ?M" for rl
    proof -
      have "ru_length rl = Max (ru_length ` set ?M) \<longleftrightarrow> (\<forall>x \<in> ru_length ` set ?M. x \<le> ru_length rl)"
        using that by (subst eq_commute, subst Max_eq_iff) auto
      then show ?thesis by simp
    qed
    ultimately show ?thesis using spec False unfolding mx by (auto simp: filter_empty_conv)
  qed
qed

lemma trim_left_id:
  assumes "s \<noteq> []" "\<forall>r \<in> set runes. r \<noteq> [] \<longrightarrow> hd r \<noteq> hd s"
  shows "trim_left runes s = s"
proof -
  have "\<not> (r \<noteq> [] \<and> strip_prefix r s \<noteq> None)" if "r \<in> set runes" for r
    using assms that by (cases r; cases s) auto
  then have "List.find (\<lambda>r. r \<noteq> [] \<and> strip_prefix r s \<noteq> None) runes = None"
    unfolding find_None_iff by blast
  then show ?thesis by (subst trim_left.simps) simp
qed

lemma space_runes_codes:
  "\<forall>r \<in> set space_runes. r \<noteq> [] \<and> (of_char (hd r) \<le> (32::nat) \<or> of_char (hd r) \<ge> (128::nat))
     \<and> (of_char (last r) \<le> (32::nat) \<or> of_char (last r) \<ge> (128::nat))"
  unfolding space_runes_def by (simp add: upt_rec)

lemma TrimSpace_id:
  assumes "s \<noteq> []" "32 < (of_char (hd s) :: nat)" "of_char (hd s) < (128::nat)"
    "32 < (of_char (last s) :: nat)" "of_char (last s) < (128::nat)"
  shows "TrimSpace s = s"
proof -
  have "trim_left space_runes s = s"
    using space_runes_codes assms by (intro trim_left_id) force+
  moreover have "trim_left (map rev space_runes) (rev s) = rev s"
    using space_runes_codes assms by (intro trim_left_id) (force simp: hd_rev)+
  ultimately show ?thesis by (simp add: TrimSpace_def)
qed

lemma parse_example:
  "Parse id (\<lambda>_. None) (bytes_of ''useragent:*'') [] = Some \<lparr> r_rules = [], r_crawlDelay = 0, r_sitemaps = [] \<rparr>"
proof -
  have ch: "char_of (10::nat) = CHR 0x0A" "char_of (13::nat) = CHR 0x0D" by (simp_all add: char_of_def bit_0)
  have "splitLine id ''useragent:*'' = Some (''useragent'', ''*'')"
    by (simp add: splitLine_def TrimSpace_id)
  then have "parse_line id (\<lambda>_. None) ''useragent:*'' \<lparr> p_groups = [], p_starting = False, p_sitemaps = [] \<rparr>
      = \<lparr> p_groups = [\<lparr> g_agents = [''*''], g_rules = [], g_crawlDelay = 0 \<rparr>], p_starting = True, p_sitemaps = [] \<rparr>"
    by (simp add: parse_line_def parse_field_def)
  moreover have "scan_lines ''useragent:*'' = [''useragent:*'']"
    by (simp add: scan_lines_def MaxBytes_def drop_cr_def ch)
  moreover have "strip_prefix [0xEF, 0xBB, 0xBF] (bytes_of ''useragent:*'') = None"
    by (simp add: bytes_of_def)
  ultimately show ?thesis
    by (simp add: Parse_def MaxBytes_def Let_def selectGroup_def)
qed

theorem Allowed_longest_match_witness:
  "Allowed (Some \<lparr> r_rules = [], r_crawlDelay = 0, r_sitemaps = [] \<rparr>) ''/a''"
  using Allowed_longest_match [OF parse_example, of "''/a''"] by simp

end
