(* ===== verification/FrontierState.thy ===== *)
theory FrontierState
  imports Wheel Arena Politeness SeenSet Content Trap Robots "HOL-Library.Monad_Syntax"
begin

unbundle bit_operations_syntax

text \<open>
  The resident scheduler of \<^verbatim>\<open>frontier/\<close>: its configuration, its state and the operations that
  insert work (\<^verbatim>\<open>Seed\<close>, \<^verbatim>\<open>Discover\<close>, \<^verbatim>\<open>Warm\<close>, the signal imports) with the helpers they share.

  The record \<open>env\<close> is what stays fixed after construction: the options, and, as functions on an
  abstract state \<open>'w\<close>, the components the frontier calls and this development does not model yet
  (the OPIC prioritizer, the change-rate estimator, the trap pattern detector, the DNS cache, the
  canonicalizer, the link router).  Every theorem holds for all such functions.

  The maps \<^verbatim>\<open>records\<close> and \<^verbatim>\<open>hosts\<close> hold pointers in the source; here an operation that changes a
  row reads it from the map and writes it back, and a later step of the same operation reads it
  again, so changes through a second pointer to the same row are not lost.  A Go run-time panic, a
  nil row, an empty queue indexed at 0 or a slice out of range, is the result \<open>None\<close>.
\<close>

section \<open>Configuration\<close>

record fconfig =
  cf_target :: int
  cf_minActive :: int
  cf_bounded :: bool
  cf_shards :: int
  cf_pol :: Config
  cf_dnsOn :: bool
  cf_robotsOn :: bool
  cf_agent :: string
  cf_freshOn :: bool
  cf_prioOn :: bool
  cf_stateOn :: bool
  cf_wheelOn :: bool

definition defaultTarget :: int where "defaultTarget = 2 ^ 30"
definition recrawlGapHours :: u32 where "recrawlGapHours = 168"
definition backQueuesPerThread :: int where "backQueuesPerThread = 3"
definition frontRefillBatch :: nat where "frontRefillBatch = 32"
definition frontAgePromoteHours :: u32 where "frontAgePromoteHours = 168"
definition tauTickEvery :: nat where "tauTickEvery = 4096"
definition robotsTTLHours :: u32 where "robotsTTLHours = 24"
definition ipTTLHours :: u32 where "ipTTLHours = 1"
definition maxRetries :: u8 where "maxRetries = 5"

definition defaultFconfig :: fconfig where
  "defaultFconfig = \<lparr> cf_target = defaultTarget, cf_minActive = 0, cf_bounded = False, cf_shards = 0,
     cf_pol = DefaultConfig, cf_dnsOn = False, cf_robotsOn = False, cf_agent = ''meguri'',
     cf_freshOn = False, cf_prioOn = False, cf_stateOn = False, cf_wheelOn = False \<rparr>"

definition WithTarget :: "int \<Rightarrow> fconfig \<Rightarrow> fconfig" where
  "WithTarget n c = (if n > 0 then c\<lparr> cf_target := n, cf_bounded := True \<rparr> else c)"

definition WithDispatchThreads :: "int \<Rightarrow> fconfig \<Rightarrow> fconfig" where
  "WithDispatchThreads threads c =
     (if threads > 0 then c\<lparr> cf_minActive := backQueuesPerThread * threads, cf_bounded := True \<rparr> else c)"

definition WithDispatchShards :: "int \<Rightarrow> fconfig \<Rightarrow> fconfig" where
  "WithDispatchShards w c = (if w > 1 then c\<lparr> cf_shards := w \<rparr> else c)"

definition WithPoliteness :: "Config \<Rightarrow> fconfig \<Rightarrow> fconfig" where
  "WithPoliteness p c = c\<lparr> cf_pol := p \<rparr>"

definition WithRobots :: "string \<Rightarrow> fconfig \<Rightarrow> fconfig" where
  "WithRobots agent c =
     (let c1 = c\<lparr> cf_robotsOn := True \<rparr> in if agent \<noteq> [] then c1\<lparr> cf_agent := agent \<rparr> else c1)"

definition WithStateMachine :: "fconfig \<Rightarrow> fconfig" where
  "WithStateMachine c = c\<lparr> cf_stateOn := True \<rparr>"

definition WithScheduleIndex :: "fconfig \<Rightarrow> fconfig" where
  "WithScheduleIndex c = c\<lparr> cf_wheelOn := True \<rparr>"

text \<open>The components behind the frontier.  \<open>l_Estimate\<close> and \<open>l_TargetInterval\<close> are the freshness
  estimator and allocation, \<open>l_Tick\<close> the water-level controller, \<open>l_SeedCash\<close>, \<open>l_Credit\<close>,
  \<open>l_Priority\<close>, \<open>l_Distribute\<close>, \<open>l_ImportPageRank\<close> the prioritizer, \<open>l_trap\<dots>\<close> the trap pattern
  detector.\<close>

record BudgetParams =
  bp_BaseBudget :: u32
  bp_PerInLink :: u32
  bp_MinBudget :: u32
  bp_MaxBudget :: u32

record 'w hooks =
  l_xxh64 :: "u8 list \<Rightarrow> u64"
  l_lower :: "string \<Rightarrow> string"
  l_parseFloat :: "string \<Rightarrow> rat option"
  l_Prefetch :: "string \<Rightarrow> 'w \<Rightarrow> 'w"
  l_Lookup :: "string \<Rightarrow> 'w \<Rightarrow> ip option"
  l_Estimate :: "URLRecord \<Rightarrow> f32"
  l_TargetInterval :: "URLRecord \<Rightarrow> HostRecord option \<Rightarrow> 'w \<Rightarrow> rat"
  l_HostSpreadWindow :: u32
  l_MinReprobeGap :: u32
  l_Tick :: "rat \<Rightarrow> 'w \<Rightarrow> 'w"
  l_SeedCash :: "URLKey \<Rightarrow> f32 \<Rightarrow> 'w \<Rightarrow> 'w"
  l_Credit :: "Discovery \<Rightarrow> 'w \<Rightarrow> u32 \<times> 'w"
  l_Priority :: "URLRecord \<Rightarrow> HostRecord option \<Rightarrow> 'w \<Rightarrow> f32"
  l_Distribute :: "URLKey \<Rightarrow> Discovery list \<Rightarrow> 'w \<Rightarrow> Discovery list \<times> 'w"
  l_ImportPageRank :: "URLKey \<Rightarrow> f32 \<Rightarrow> 'w \<Rightarrow> 'w"
  l_budget :: BudgetParams
  l_linkSink :: "(Discovery list \<Rightarrow> 'w \<Rightarrow> Discovery list \<times> 'w) option"
  l_trapObserve :: "u64 \<Rightarrow> URLKey \<Rightarrow> string \<Rightarrow> u32 \<Rightarrow> 'w \<Rightarrow> bool \<times> 'w"
  l_trapPasses :: "u64 \<Rightarrow> string \<Rightarrow> u32 \<Rightarrow> 'w \<Rightarrow> bool"
  l_trapSuspect :: "u64 \<Rightarrow> 'w \<Rightarrow> bool"
  l_trapClean :: "string \<Rightarrow> u32 \<Rightarrow> 'w \<Rightarrow> bool"
  l_RegistrableDomain :: "string \<Rightarrow> string"
  l_CanonicalKey :: "string \<Rightarrow> string \<Rightarrow> (URLKey \<times> string) option"

record 'w env =
  cfg :: fconfig
  lib :: "'w hooks"

section \<open>State\<close>

datatype robotsState = robotsNone | robotsPending | robotsReady

record hostEntry =
  he_rec :: HostRecord
  he_back :: "URLKey list"
  he_inFlight :: bool
  he_active :: bool
  he_effective :: duration
  he_crawlFloor :: duration
  he_robots :: "Rules option"
  he_robotsState :: robotsState
  he_ceilStreak :: u8

record frontWait =
  fw_key :: URLKey
  fw_enqueued :: u32

record 'w Frontier =
  f_id :: u32
  f_created :: u32
  f_codec :: u8
  f_records :: "(URLKey, URLRecord) gomap"
  f_hosts :: "(u64, hostEntry) gomap"
  f_arena :: arena
  f_seen :: SeenSet
  f_soft :: SoftDetector
  f_front :: "URLKey prioRing"
  f_ready :: readyBank
  f_wait :: waitHeap
  f_active :: int
  f_frontAge :: "frontWait list"
  f_sinceSweep :: nat
  f_ips :: IPTable
  f_reschedN :: nat
  f_importedHostScore :: "(u64, f32) gomap"
  f_wheel :: dueWheel
  f_world :: 'w

definition New :: "(rat \<Rightarrow> rat) \<Rightarrow> 'w env \<Rightarrow> u32 \<Rightarrow> u32 \<Rightarrow> 'w \<Rightarrow> 'w Frontier" where
  "New logf E pid created w =
     \<lparr> f_id = pid, f_created = created, f_codec = 2, f_records = [], f_hosts = [],
       f_arena = newArena, f_seen = NewSeenSet logf [], f_soft = NewSoftDetector,
       f_front = newRing, f_ready = newReadyBank (cf_shards (cfg E)), f_wait = [],
       f_active = 0, f_frontAge = [], f_sinceSweep = 0,
       f_ips = NewIPTable (c_IPFloor (cf_pol (cfg E))), f_reschedN = 0,
       f_importedHostScore = [], f_wheel = newDueWheel created, f_world = w \<rparr>"

section \<open>Row access\<close>

definition set_rec :: "URLKey \<Rightarrow> URLRecord \<Rightarrow> 'w Frontier \<Rightarrow> 'w Frontier" where
  "set_rec k r f = f\<lparr> f_records := mput k r (f_records f) \<rparr>"

definition set_host :: "u64 \<Rightarrow> hostEntry \<Rightarrow> 'w Frontier \<Rightarrow> 'w Frontier" where
  "set_host hk h f = f\<lparr> f_hosts := mput hk h (f_hosts f) \<rparr>"

text \<open>A change through the pointer to the record of a key.\<close>

definition upd_rec :: "URLKey \<Rightarrow> (URLRecord \<Rightarrow> URLRecord) \<Rightarrow> 'w Frontier \<Rightarrow> 'w Frontier" where
  "upd_rec k g f = (case mget (f_records f) k of None \<Rightarrow> f | Some r \<Rightarrow> set_rec k (g r) f)"

definition upd_host :: "u64 \<Rightarrow> (hostEntry \<Rightarrow> hostEntry) \<Rightarrow> 'w Frontier \<Rightarrow> 'w Frontier" where
  "upd_host hk g f = (case mget (f_hosts f) hk of None \<Rightarrow> f | Some h \<Rightarrow> set_host hk (g h) f)"

definition host_rec :: "u64 option \<Rightarrow> 'w Frontier \<Rightarrow> HostRecord option" where
  "host_rec hko f =
     (case hko of None \<Rightarrow> None | Some hk \<Rightarrow> map_option he_rec (mget (f_hosts f) hk))"

definition intern :: "string \<Rightarrow> 'w Frontier \<Rightarrow> u64 \<times> 'w Frontier" where
  "intern s f = (let (off, a) = arena_intern s (f_arena f) in (off, f\<lparr> f_arena := a \<rparr>))"

definition str :: "'w Frontier \<Rightarrow> u64 \<Rightarrow> string option" where
  "str f off = (case arena_str (f_arena f) off of Inl p \<Rightarrow> None | Inr s \<Rightarrow> Some s)"

section \<open>Hosts and politeness (m3.go)\<close>

definition newHost :: "'w env \<Rightarrow> u64 \<Rightarrow> u64 \<Rightarrow> string \<Rightarrow> u16 \<Rightarrow> 'w Frontier \<Rightarrow> hostEntry \<times> 'w Frontier" where
  "newHost E hk ref hostName crawlDelay f =
     (let r = (zeroHost hk)\<lparr> h_HostRef := ref, h_Grouping := GroupRegistrableDomain,
                             h_RegistrableRef := ref, h_CrawlDelay := crawlDelay \<rparr>;
          h0 = \<lparr> he_rec = r, he_back = [], he_inFlight = False, he_active = False,
                 he_effective = c_Default (cf_pol (cfg E)), he_crawlFloor = deciToDur crawlDelay,
                 he_robots = None, he_robotsState = robotsNone, he_ceilStreak = 0 \<rparr>;
          (h1, f1) = (case mget (f_importedHostScore f) hk of
                        None \<Rightarrow> (h0, f)
                      | Some score \<Rightarrow> (h0\<lparr> he_rec := r\<lparr> h_HostScore := score \<rparr> \<rparr>,
                                       f\<lparr> f_importedHostScore := mdel hk (f_importedHostScore f) \<rparr>));
          f2 = (if cf_dnsOn (cfg E) \<and> hostName \<noteq> []
                then f1\<lparr> f_world := l_Prefetch (lib E) hostName (f_world f1) \<rparr> else f1) in
      (h1, f2))"

text \<open>\<open>if f.hosts[hk] == nil\<close>, intern the name and file a new host.\<close>

definition ensure_host :: "'w env \<Rightarrow> u64 \<Rightarrow> string \<Rightarrow> u16 \<Rightarrow> 'w Frontier \<Rightarrow> 'w Frontier" where
  "ensure_host E hk host crawlDelay f =
     (case mget (f_hosts f) hk of
        Some h \<Rightarrow> f
      | None \<Rightarrow>
          (let (ref, f1) = intern host f;
               (h, f2) = newHost E hk ref host crawlDelay f1 in
           set_host hk h f2))"

definition resolveHost :: "'w env \<Rightarrow> hostEntry \<Rightarrow> u32 \<Rightarrow> 'w Frontier \<Rightarrow> hostEntry option" where
  "resolveHost E h now f =
     (if \<not> cf_dnsOn (cfg E) then Some h
      else if h_ResolvedIP (he_rec h) \<noteq> zeroIP \<and> h_IPExpiry (he_rec h) > now div 3600 then Some h
      else do {
        host \<leftarrow> str f (h_HostRef (he_rec h));
        Some (case l_Lookup (lib E) host (f_world f) of
                None \<Rightarrow> h
              | Some addr \<Rightarrow> h\<lparr> he_rec := (he_rec h)\<lparr> h_ResolvedIP := addr,
                                                         h_IPExpiry := now div 3600 + ipTTLHours \<rparr> \<rparr>)
      })"

definition ip_next :: "'w Frontier \<Rightarrow> ip \<Rightarrow> u32" where
  "ip_next f addr = word_of_int (EligibleAt (f_ips f) addr)"

definition spend :: "'w env \<Rightarrow> u64 \<Rightarrow> u32 \<Rightarrow> 'w Frontier \<Rightarrow> 'w Frontier" where
  "spend E hk now f =
     (case mget (f_hosts f) hk of
        None \<Rightarrow> f
      | Some h \<Rightarrow>
          (let interval = HostInterval (cf_pol (cfg E)) (he_effective h) (he_crawlFloor h);
               hostNext = now + durSecs interval;
               f1 = f\<lparr> f_ips := Spend (h_ResolvedIP (he_rec h)) (int (unat now)) interval (f_ips f) \<rparr>;
               ipNext = ip_next f1 (h_ResolvedIP (he_rec h)) in
           set_host hk (h\<lparr> he_rec := (he_rec h)\<lparr> h_HostNextEligible := hostNext, h_IPNextEligible := ipNext \<rparr> \<rparr>) f1))"

definition eligibleNow :: "'w Frontier \<Rightarrow> hostEntry \<Rightarrow> u32" where
  "eligibleNow f h =
     (let e = h_HostNextEligible (he_rec h);
          nxt = ip_next f (h_ResolvedIP (he_rec h)) in
      if nxt > e then nxt else e)"

definition adapt :: "'w env \<Rightarrow> Outcome \<Rightarrow> hostEntry \<Rightarrow> hostEntry" where
  "adapt E out h =
     (let r = he_rec h;
          pol = cf_pol (cfg E);
          sig = \<lparr> ps_Status = int (unat (o_HTTPStatus out)), ps_RetryAfter = deciToDur (o_RetryAfter out),
                  ps_Latency = int (unat (o_LatencyMS out)) * Millisecond,
                  ps_PrevLatency = int (unat (h_AvgLatency r)) * Millisecond \<rparr>;
          eff = HostInterval pol (Adapt pol (he_effective h) sig) (he_crawlFloor h);
          r1 = r\<lparr> h_AvgLatency := smoothLatency (h_AvgLatency r) (o_LatencyMS out) \<rparr>;
          r2 = (if o_HTTPStatus out > 0 then r1\<lparr> h_CrawlTotal := h_CrawlTotal r1 + 1 \<rparr> else r1);
          r3 = (if isErr (o_HTTPStatus out) then r2\<lparr> h_ErrorTotal := h_ErrorTotal r2 + 1 \<rparr> else r2);
          h1 = h\<lparr> he_effective := eff, he_rec := r3 \<rparr> in
      if AtCeiling pol eff \<and> isErr (o_HTTPStatus out) then
        (let h2 = (if he_ceilStreak h1 < 255 then h1\<lparr> he_ceilStreak := he_ceilStreak h1 + 1 \<rparr> else h1) in
         if he_ceilStreak h2 \<ge> 3
         then h2\<lparr> he_rec := (he_rec h2)\<lparr> h_Flags := h_Flags (he_rec h2) OR HostFlagDeadHost \<rparr> \<rparr>
         else h2)
      else h1\<lparr> he_ceilStreak := 0 \<rparr>)"

definition needsRobots :: "hostEntry \<Rightarrow> u32 \<Rightarrow> bool" where
  "needsRobots h now =
     (if he_robotsState h = robotsPending \<or> he_back h = [] then False
      else if he_robotsState h = robotsReady \<and> h_RobotsExpiry (he_rec h) > now div 3600 then False
      else True)"

definition robotsKey :: "'w env \<Rightarrow> u64 \<Rightarrow> URLKey" where
  "robotsKey E hk = URLKey hk (PathKeyOf (l_xxh64 (lib E)) ''/robots.txt'')"

definition robotsRequest :: "'w env \<Rightarrow> hostEntry \<Rightarrow> 'w Frontier \<Rightarrow> Request option" where
  "robotsRequest E h f = do {
     host \<leftarrow> str f (h_HostRef (he_rec h));
     Some \<lparr> rq_URLKey = robotsKey E (h_HostKey (he_rec h)), rq_HostKey = h_HostKey (he_rec h),
            rq_CanonicalURL = ''https://'' @ host @ ''/robots.txt'', rq_ETag = [], rq_LastModified = 0,
            rq_ResolvedIP = h_ResolvedIP (he_rec h), rq_Depth = 0, rq_Robots = True \<rparr>
   }"

definition allowed :: "hostEntry \<Rightarrow> URLKey \<Rightarrow> 'w Frontier \<Rightarrow> bool option" where
  "allowed h key f =
     (if he_robots h = None then Some True
      else case mget (f_records f) key of
        None \<Rightarrow> Some True
      | Some rec \<Rightarrow> do { u \<leftarrow> str f (u_URLRef rec); Some (Allowed (he_robots h) (PathOf u)) })"

section \<open>Filing a URL\<close>

definition frontPush :: "'w env \<Rightarrow> URLKey \<Rightarrow> f32 \<Rightarrow> u32 \<Rightarrow> 'w Frontier \<Rightarrow> 'w Frontier" where
  "frontPush E key priority enqueued f =
     (let f1 = f\<lparr> f_front := ring_push key priority (f_front f) \<rparr> in
      if cf_bounded (cfg E)
      then f1\<lparr> f_frontAge := f_frontAge f1 @ [\<lparr> fw_key = key, fw_enqueued = enqueued \<rparr>] \<rparr>
      else f1)"

definition schedule :: "'w env \<Rightarrow> URLKey \<Rightarrow> URLRecord \<Rightarrow> u32 \<Rightarrow> u32 \<Rightarrow> 'w Frontier \<Rightarrow> 'w Frontier" where
  "schedule E key rec nowHours enqueued f =
     (if cf_wheelOn (cfg E) \<and> u_NextDue rec > nowHours
      then f\<lparr> f_wheel := wheel_add key (u_NextDue rec) (f_wheel f) \<rparr>
      else frontPush E key (u_Priority rec) enqueued f)"

section \<open>Prioritization seams (m5.go, prioritize/budget.go)\<close>

definition UpdateHostBudget :: "BudgetParams \<Rightarrow> u32 \<Rightarrow> HostRecord \<Rightarrow> HostRecord" where
  "UpdateHostBudget p indeg h =
     h\<lparr> h_URLBudget := min (max (bp_BaseBudget p + bp_PerInLink p * indeg) (bp_MinBudget p)) (bp_MaxBudget p) \<rparr>"

definition reprice :: "'w env \<Rightarrow> URLKey \<Rightarrow> u64 option \<Rightarrow> 'w Frontier \<Rightarrow> 'w Frontier" where
  "reprice E key hko f =
     (case mget (f_records f) key of
        None \<Rightarrow> f
      | Some rec \<Rightarrow>
          (let old = u_Priority rec;
               pri = l_Priority (lib E) rec (host_rec hko f) (f_world f);
               f1 = set_rec key (rec\<lparr> u_Priority := pri \<rparr>) f in
           if u_Status rec \<in> {StatusScheduled, StatusReady, StatusDueRecrawl}
           then f1\<lparr> f_front := snd (ring_rebucket (u_URLKey rec) old pri (f_front f1)) \<rparr>
           else f1))"

definition creditDiscovery :: "'w env \<Rightarrow> Discovery \<Rightarrow> 'w Frontier \<Rightarrow> 'w Frontier" where
  "creditDiscovery E d f =
     (let (indeg, w) = l_Credit (lib E) d (f_world f);
          f1 = f\<lparr> f_world := w \<rparr>;
          hk = HostKey (d_URLKey d);
          hko = (if mget (f_hosts f1) hk = None then None else Some hk);
          f2 = upd_host hk (\<lambda>h. h\<lparr> he_rec := UpdateHostBudget (l_budget (lib E)) indeg (he_rec h) \<rparr>) f1 in
      reprice E (d_URLKey d) hko f2)"

section \<open>Intake (frontier.go)\<close>

definition Seed :: "'w env \<Rightarrow> string \<Rightarrow> string \<Rightarrow> f32 \<Rightarrow> u32 \<Rightarrow> u32 \<Rightarrow> u16 \<Rightarrow> 'w Frontier \<Rightarrow> 'w Frontier" where
  "Seed E url host priority firstSeen nextDue crawlDelay f =
     (let hk = HostKeyOf (l_xxh64 (lib E)) host;
          key = URLKey hk (PathKeyOf (l_xxh64 (lib E)) (PathOf url));
          (dup, sn) = Seen key (f_seen f);
          f1 = f\<lparr> f_seen := sn \<rparr> in
      if dup then f1
      else
        (let (ref, f2) = intern url f1;
             rec = (zeroURL key)\<lparr> u_HostKey := hk, u_Status := StatusScheduled, u_Priority := priority,
                      u_URLRef := ref, u_FirstSeen := firstSeen, u_NextDue := nextDue,
                      u_DiscoverySource := SourceSeed \<rparr>;
             f3 = set_rec key rec f2;
             f4 = ensure_host E hk host crawlDelay f3;
             f5 = upd_host hk (\<lambda>h. h\<lparr> he_rec := (he_rec h)\<lparr> h_URLCount := h_URLCount (he_rec h) + 1 \<rparr> \<rparr>) f4;
             f6 = (if cf_prioOn (cfg E)
                   then f5\<lparr> f_world := l_SeedCash (lib E) key priority (f_world f5) \<rparr> else f5);
             rec' = (if cf_prioOn (cfg E)
                     then rec\<lparr> u_Priority := l_Priority (lib E) rec (host_rec (Some hk) f6) (f_world f6) \<rparr>
                     else rec);
             f7 = set_rec key rec' f6 in
         schedule E key rec' firstSeen firstSeen f7))"

definition hostFromCanonical :: "'w env \<Rightarrow> string \<Rightarrow> string" where
  "hostFromCanonical E canon =
     (let host = HostOf canon; rd = l_RegistrableDomain (lib E) host in if rd \<noteq> [] then rd else host)"

text \<open>The host work of a new discovery, up to the row.\<close>

definition discover_host :: "'w env \<Rightarrow> Discovery \<Rightarrow> u32 \<Rightarrow> 'w Frontier \<Rightarrow> 'w Frontier" where
  "discover_host E d now f1 =
     (let hk = HostKey (d_URLKey d);
          f2 = ensure_host E hk (hostFromCanonical E (d_CanonicalURL d)) 10 f1;
          f3 = (if cf_prioOn (cfg E)
                then (let (indeg, w) = l_Credit (lib E) d (f_world f2) in
                      upd_host hk (\<lambda>h. h\<lparr> he_rec := UpdateHostBudget (l_budget (lib E)) indeg (he_rec h) \<rparr>)
                        (f2\<lparr> f_world := w \<rparr>))
                else f2);
          (newlySuspect, w4) = l_trapObserve (lib E) hk (d_URLKey d) (d_CanonicalURL d) (now div 3600) (f_world f3);
          f4 = f3\<lparr> f_world := w4 \<rparr> in
      if newlySuspect then upd_host hk (\<lambda>h. h\<lparr> he_rec := FlagTrapSuspect (he_rec h) \<rparr>) f4 else f4)"

text \<open>The verdict of the trap gate on the host of a new discovery.\<close>

definition discover_status :: "'w env \<Rightarrow> Discovery \<Rightarrow> u32 \<Rightarrow> 'w Frontier \<Rightarrow> URLStatus" where
  "discover_status E d now f5 =
     (let hk = HostKey (d_URLKey d);
          hrec = (case host_rec (Some hk) f5 of Some r \<Rightarrow> r | None \<Rightarrow> zeroHost hk) in
      Admit (d_Depth d) hrec
        (if IsTrapSuspect hrec \<and> \<not> l_trapSuspect (lib E) hk (f_world f5)
         then l_trapClean (lib E) (d_CanonicalURL d) (now div 3600) (f_world f5)
         else l_trapPasses (lib E) hk (d_CanonicalURL d) (now div 3600) (f_world f5)))"

definition discover_rec :: "'w env \<Rightarrow> Discovery \<Rightarrow> u32 \<Rightarrow> 'w Frontier \<Rightarrow> URLRecord" where
  "discover_rec E d now f5 =
     (let key = d_URLKey d; hk = HostKey key;
          (ref, f6) = intern (d_CanonicalURL d) f5;
          rec = (zeroURL key)\<lparr> u_HostKey := hk, u_Status := discover_status E d now f5, u_Priority := d_LinkWeight d,
                   u_Depth := d_Depth d, u_URLRef := ref, u_FirstSeen := d_ObservedAt d,
                   u_DiscoverySource := d_DiscoverySource d \<rparr> in
      if cf_prioOn (cfg E)
      then rec\<lparr> u_Priority := l_Priority (lib E) rec (host_rec (Some hk) f6) (f_world f6) \<rparr> else rec)"

definition Discover :: "'w env \<Rightarrow> Discovery \<Rightarrow> u32 \<Rightarrow> 'w Frontier \<Rightarrow> bool \<times> 'w Frontier" where
  "Discover E d now f =
     (let key = d_URLKey d;
          (dup, sn) = Seen key (f_seen f);
          f1 = f\<lparr> f_seen := sn \<rparr> in
      if dup then
        (False, if cf_prioOn (cfg E) \<and> mget (f_records f1) key \<noteq> None then creditDiscovery E d f1 else f1)
      else
        (let f5 = discover_host E d now f1;
             rec = discover_rec E d now f5;
             f7 = set_rec key rec (snd (intern (d_CanonicalURL d) f5));
             f8 = upd_host (HostKey key) (\<lambda>h. h\<lparr> he_rec := (he_rec h)\<lparr> h_URLCount := h_URLCount (he_rec h) + 1 \<rparr> \<rparr>) f7 in
         if discover_status E d now f5 \<noteq> StatusScheduled then (False, f8)
         else (True, frontPush E key (u_Priority rec) (now div 3600) f8)))"

definition Warm :: "URLKey \<Rightarrow> string \<Rightarrow> u32 \<Rightarrow> u64 \<Rightarrow> 'w Frontier \<Rightarrow> 'w Frontier" where
  "Warm key etag lastModified prevDigest f =
     (case mget (f_records f) key of
        None \<Rightarrow> f
      | Some rec \<Rightarrow>
          if u_CrawlCount rec > 0 then f
          else
            (let (rec1, f1) = (if etag \<noteq> [] then (let (ref, f1) = intern etag f in (rec\<lparr> u_ETagRef := ref \<rparr>, f1))
                               else (rec, f));
                 rec2 = (if lastModified \<noteq> 0 then rec1\<lparr> u_LastModified := lastModified \<rparr> else rec1);
                 rec3 = (if prevDigest \<noteq> 0 then rec2\<lparr> u_ContentFP := prevDigest \<rparr> else rec2) in
             set_rec key rec3 f1))"

definition ImportURLSignal :: "'w env \<Rightarrow> URLSignal \<Rightarrow> 'w Frontier \<Rightarrow> 'w Frontier" where
  "ImportURLSignal E u f =
     (if cf_prioOn (cfg E)
      then f\<lparr> f_world := l_ImportPageRank (lib E) (us_URLKey u) (us_PageRank u) (f_world f) \<rparr> else f)"

definition ImportHostSignal :: "HostSignal \<Rightarrow> 'w Frontier \<Rightarrow> 'w Frontier" where
  "ImportHostSignal s f =
     (case mget (f_hosts f) (hs_HostKey s) of
        Some h \<Rightarrow> set_host (hs_HostKey s) (h\<lparr> he_rec := (he_rec h)\<lparr> h_HostScore := hs_HostScore s \<rparr> \<rparr>) f
      | None \<Rightarrow> f\<lparr> f_importedHostScore := mput (hs_HostKey s) (hs_HostScore s) (f_importedHostScore f) \<rparr>)"

end
