(* ===== verification/PartitionOps.thy ===== *)
theory PartitionOps
  imports Dict "HOL-Library.Monad_Syntax"
begin

text \<open>
  The partition image (\<^verbatim>\<open>format/partition.go\<close>) and its maintenance operations: packing, compaction,
  split and merge (\<^verbatim>\<open>format/ops.go\<close>) and the extraction of a set of hosts (\<^verbatim>\<open>format/extract.go\<close>).  Each
  result gets its own string arena, into which the spans its rows refer to are copied once.  A
  corrupt span length that panics the arena reader is \<open>None\<close>.
\<close>

section \<open>The partition image\<close>

record Partition =
  pt_ID :: u32
  pt_HostKeyLo :: u64
  pt_HostKeyHi :: u64
  pt_CreatedHours :: u32
  pt_DefaultCodec :: u8
  pt_URLs :: "URLRecord list"
  pt_Hosts :: "HostRecord list"
  pt_Strings :: "u8 list"
  pt_SeenFilter :: "u8 list"
  pt_BuildSchedule :: bool
  pt_MaxPageRows :: int
  pt_Meta :: "(string, string) gomap"

fun sortedURLs :: "URLRecord list \<Rightarrow> bool" where
  "sortedURLs (a # b # rs) = (if URLKey_Less (u_URLKey b) (u_URLKey a) then False else sortedURLs (b # rs))"
| "sortedURLs rs = True"

fun sortedHosts :: "HostRecord list \<Rightarrow> bool" where
  "sortedHosts (a # b # rs) = (if h_HostKey b < h_HostKey a then False else sortedHosts (b # rs))"
| "sortedHosts rs = True"

text \<open>A partition with the optional regions left at their zero values, as the composite literals of
  the source leave them.\<close>

definition Pack :: "u32 \<Rightarrow> u64 \<Rightarrow> u64 \<Rightarrow> u32 \<Rightarrow> u8 \<Rightarrow> URLRecord list \<Rightarrow> HostRecord list \<Rightarrow> u8 list \<Rightarrow> Partition" where
  "Pack pid lo hi created codec urls hosts strings =
     \<lparr> pt_ID = pid, pt_HostKeyLo = lo, pt_HostKeyHi = hi, pt_CreatedHours = created, pt_DefaultCodec = codec,
       pt_URLs = urls, pt_Hosts = hosts, pt_Strings = strings, pt_SeenFilter = [], pt_BuildSchedule = False,
       pt_MaxPageRows = 0, pt_Meta = [] \<rparr>"

definition cloneMeta :: "(string, string) gomap \<Rightarrow> (string, string) gomap" where
  "cloneMeta meta = meta"

definition maxU64 :: "u64 \<Rightarrow> u64 \<Rightarrow> u64" where
  "maxU64 a b = (if a > b then a else b)"

section \<open>Re-basing an arena\<close>

type_synonym rebaser = "arenaDict \<times> (u64, u64) gomap"

definition rb_intern :: "u8 list \<Rightarrow> u64 \<Rightarrow> rebaser \<Rightarrow> (u64 \<times> rebaser) option" where
  "rb_intern src off rb =
     (let (dict, cache) = rb in
      if off = 0 then Some (0, rb)
      else
        (case mget cache off of
           Some v \<Rightarrow> Some (v, rb)
         | None \<Rightarrow>
             (case arenaRead src off of
                Inl p \<Rightarrow> None
              | Inr None \<Rightarrow> Some (0, rb)
              | Inr (Some sp) \<Rightarrow>
                  (let (dict', v) = dict_intern dict sp in Some (v, (dict', mput off v cache))))))"

definition copyURL :: "u8 list \<Rightarrow> URLRecord \<Rightarrow> rebaser \<Rightarrow> (URLRecord \<times> rebaser) option" where
  "copyURL src r rb = do {
     (a, rb1) \<leftarrow> rb_intern src (u_URLRef r) rb;
     (b, rb2) \<leftarrow> rb_intern src (u_ETagRef r) rb1;
     (c, rb3) \<leftarrow> rb_intern src (u_RedirectRef r) rb2;
     Some (r\<lparr> u_URLRef := a, u_ETagRef := b, u_RedirectRef := c \<rparr>, rb3)
   }"

definition copyHost :: "u8 list \<Rightarrow> HostRecord \<Rightarrow> rebaser \<Rightarrow> (HostRecord \<times> rebaser) option" where
  "copyHost src r rb = do {
     (a, rb1) \<leftarrow> rb_intern src (h_HostRef r) rb;
     (b, rb2) \<leftarrow> rb_intern src (h_RegistrableRef r) rb1;
     (c, rb3) \<leftarrow> rb_intern src (h_RobotsRef r) rb2;
     Some (r\<lparr> h_HostRef := a, h_RegistrableRef := b, h_RobotsRef := c \<rparr>, rb3)
   }"

text \<open>A loop that copies the rows of a table, threading the dictionary and the cache.\<close>

fun copy_rows :: "('r \<Rightarrow> rebaser \<Rightarrow> ('r \<times> rebaser) option) \<Rightarrow> 'r list \<Rightarrow> rebaser \<Rightarrow> ('r list \<times> rebaser) option" where
  "copy_rows f [] rb = Some ([], rb)"
| "copy_rows f (r # rs) rb = do {
     (r', rb1) \<leftarrow> f r rb;
     (rs', rb2) \<leftarrow> copy_rows f rs rb1;
     Some (r' # rs', rb2)
   }"

definition rebaseArena :: "Partition \<Rightarrow> u8 list \<Rightarrow> Partition option" where
  "rebaseArena dst src = do {
     (urls, rb1) \<leftarrow> copy_rows (copyURL src) (pt_URLs dst) (newDict, []);
     (hosts, rb2) \<leftarrow> copy_rows (copyHost src) (pt_Hosts dst) rb1;
     Some (dst\<lparr> pt_URLs := urls, pt_Hosts := hosts, pt_Strings := ad_arena (fst rb2) \<rparr>)
   }"

section \<open>Compaction, split, merge and extraction\<close>

definition Compact :: "Partition \<Rightarrow> Partition option" where
  "Compact p =
     (let live = filter (\<lambda>r. u_Status r \<noteq> StatusGone) (pt_URLs p);
          out = (Pack (pt_ID p) (pt_HostKeyLo p) (pt_HostKeyHi p) (pt_CreatedHours p) (pt_DefaultCodec p)
                   live (pt_Hosts p) [])\<lparr> pt_Meta := cloneMeta (pt_Meta p) \<rparr> in
      rebaseArena out (pt_Strings p))"

definition Split_at :: "Partition \<Rightarrow> u64 \<Rightarrow> (Partition \<times> Partition) option" where
  "Split_at p atHostKey =
     (let ui = Search (length (pt_URLs p)) (\<lambda>i. HostKey (u_URLKey (pt_URLs p ! i)) \<ge> atHostKey);
          hi0 = Search (length (pt_Hosts p)) (\<lambda>i. h_HostKey (pt_Hosts p ! i) \<ge> atHostKey);
          loHiHost = (if atHostKey = 0 then 0 else atHostKey - 1);
          lo = (Pack (pt_ID p) (pt_HostKeyLo p) loHiHost (pt_CreatedHours p) (pt_DefaultCodec p)
                  (take ui (pt_URLs p)) (take hi0 (pt_Hosts p)) [])\<lparr> pt_Meta := cloneMeta (pt_Meta p) \<rparr>;
          hi = (Pack (pt_ID p) atHostKey (pt_HostKeyHi p) (pt_CreatedHours p) (pt_DefaultCodec p)
                  (drop ui (pt_URLs p)) (drop hi0 (pt_Hosts p)) [])\<lparr> pt_Meta := cloneMeta (pt_Meta p) \<rparr> in
      do {
        lo' \<leftarrow> rebaseArena lo (pt_Strings p);
        hi' \<leftarrow> rebaseArena hi (pt_Strings p);
        Some (lo', hi')
      })"

definition Merge_parts :: "Partition \<Rightarrow> Partition \<Rightarrow> (format_error + Partition) option" where
  "Merge_parts a0 b0 =
     (let (a, b) = (if pt_HostKeyLo b0 < pt_HostKeyLo a0 then (b0, a0) else (a0, b0)) in
      if \<not> sortedURLs (pt_URLs a @ pt_URLs b) \<or> \<not> sortedHosts (pt_Hosts a @ pt_Hosts b) then Some (Inl ErrNotSorted)
      else do {
        (ua, da, ca) \<leftarrow> copy_rows (copyURL (pt_Strings a)) (pt_URLs a) (newDict, []);
        (ub, db, cb) \<leftarrow> copy_rows (copyURL (pt_Strings b)) (pt_URLs b) (da, []);
        (ha, da2, ca2) \<leftarrow> copy_rows (copyHost (pt_Strings a)) (pt_Hosts a) (db, ca);
        (hb, db2, cb2) \<leftarrow> copy_rows (copyHost (pt_Strings b)) (pt_Hosts b) (da2, cb);
        Some (Inr ((Pack (pt_ID a) (pt_HostKeyLo a) (maxU64 (pt_HostKeyHi a) (pt_HostKeyHi b)) (pt_CreatedHours a)
                (pt_DefaultCodec a) (ua @ ub) (ha @ hb) (ad_arena db2))\<lparr> pt_Meta := cloneMeta (pt_Meta a) \<rparr>))
      })"

definition hostRange :: "Partition \<Rightarrow> Partition" where
  "hostRange p =
     (if pt_Hosts p = [] then p
      else p\<lparr> pt_HostKeyLo := h_HostKey (hd (pt_Hosts p)), pt_HostKeyHi := h_HostKey (last (pt_Hosts p)) \<rparr>)"

definition Extract :: "Partition \<Rightarrow> (u64 \<Rightarrow> bool) \<Rightarrow> (Partition \<times> Partition) option" where
  "Extract p moving =
     (let blank = (Pack (pt_ID p) 0 0 (pt_CreatedHours p) (pt_DefaultCodec p) [] [] [])\<lparr> pt_Meta := cloneMeta (pt_Meta p) \<rparr>;
          out = blank\<lparr> pt_URLs := filter (\<lambda>r. moving (HostKey (u_URLKey r))) (pt_URLs p),
                       pt_Hosts := filter (\<lambda>h. moving (h_HostKey h)) (pt_Hosts p) \<rparr>;
          rest = blank\<lparr> pt_URLs := filter (\<lambda>r. \<not> moving (HostKey (u_URLKey r))) (pt_URLs p),
                        pt_Hosts := filter (\<lambda>h. \<not> moving (h_HostKey h)) (pt_Hosts p) \<rparr> in
      do {
        out' \<leftarrow> rebaseArena (hostRange out) (pt_Strings p);
        rest' \<leftarrow> rebaseArena (hostRange rest) (pt_Strings p);
        Some (out', rest')
      })"

section \<open>Rows with their strings\<close>

text \<open>What a row means apart from where its strings happen to lie.\<close>

definition ref_str :: "u8 list \<Rightarrow> u64 \<Rightarrow> u8 list option" where
  "ref_str a off = (case arenaRead a off of Inr x \<Rightarrow> x | Inl p \<Rightarrow> None)"

definition url_view :: "u8 list \<Rightarrow> URLRecord \<Rightarrow> URLRecord \<times> u8 list option list" where
  "url_view a r = (r\<lparr> u_URLRef := 0, u_ETagRef := 0, u_RedirectRef := 0 \<rparr>,
     [ref_str a (u_URLRef r), ref_str a (u_ETagRef r), ref_str a (u_RedirectRef r)])"

definition host_view :: "u8 list \<Rightarrow> HostRecord \<Rightarrow> HostRecord \<times> u8 list option list" where
  "host_view a h = (h\<lparr> h_HostRef := 0, h_RegistrableRef := 0, h_RobotsRef := 0 \<rparr>,
     [ref_str a (h_HostRef h), ref_str a (h_RegistrableRef h), ref_str a (h_RobotsRef h)])"

definition url_views :: "Partition \<Rightarrow> (URLRecord \<times> u8 list option list) list" where
  "url_views p = map (url_view (pt_Strings p)) (pt_URLs p)"

definition host_views :: "Partition \<Rightarrow> (HostRecord \<times> u8 list option list) list" where
  "host_views p = map (host_view (pt_Strings p)) (pt_Hosts p)"

text \<open>No reference of the rows runs into the wrap-around of the reader.\<close>

definition readable :: "u8 list \<Rightarrow> u64 \<Rightarrow> bool" where
  "readable a off \<longleftrightarrow> (case arenaRead a off of Inl p \<Rightarrow> False | Inr x \<Rightarrow> True)"

definition url_readable :: "u8 list \<Rightarrow> URLRecord \<Rightarrow> bool" where
  "url_readable a r \<longleftrightarrow> readable a (u_URLRef r) \<and> readable a (u_ETagRef r) \<and> readable a (u_RedirectRef r)"

definition host_readable :: "u8 list \<Rightarrow> HostRecord \<Rightarrow> bool" where
  "host_readable a h \<longleftrightarrow> readable a (h_HostRef h) \<and> readable a (h_RegistrableRef h) \<and> readable a (h_RobotsRef h)"

definition part_readable :: "Partition \<Rightarrow> bool" where
  "part_readable p \<longleftrightarrow> list_all (url_readable (pt_Strings p)) (pt_URLs p) \<and> list_all (host_readable (pt_Strings p)) (pt_Hosts p)"

text \<open>The bytes an arena needs for the strings of the rows, each reference counted.\<close>

definition span_bytes :: "u8 list option \<Rightarrow> nat" where
  "span_bytes x = (case x of Some s \<Rightarrow> length (uvarint (length s)) + length s | None \<Rightarrow> 0)"

definition row_bytes :: "'r \<times> u8 list option list \<Rightarrow> nat" where
  "row_bytes v = sum_list (map span_bytes (snd v))"

definition part_bytes :: "Partition \<Rightarrow> nat" where
  "part_bytes p = 1 + sum_list (map row_bytes (url_views p)) + sum_list (map row_bytes (host_views p))"

text \<open>Every reference can be read and the referenced strings together are below the 64-bit offsets.\<close>

definition part_fits :: "Partition \<Rightarrow> bool" where
  "part_fits p \<longleftrightarrow> part_readable p \<and> part_bytes p < 2 ^ 64"

section \<open>The rebaser keeps every string\<close>

definition keeps :: "arena \<Rightarrow> arena \<Rightarrow> bool" where
  "keeps a a' \<longleftrightarrow> length a \<le> length a' \<and> (\<forall>off s. span_at a off s \<longrightarrow> span_at a' off s)"

definition same_ref :: "u8 list \<Rightarrow> u64 \<Rightarrow> arena \<Rightarrow> u64 \<Rightarrow> bool" where
  "same_ref src off a v \<longleftrightarrow> (case ref_str src off of Some s \<Rightarrow> span_at a v s | None \<Rightarrow> v = 0)"

definition rb_ok :: "u8 list \<Rightarrow> rebaser \<Rightarrow> bool" where
  "rb_ok src rb \<longleftrightarrow> dict_wf (fst rb) \<and> (\<forall>off v. mget (snd rb) off = Some v \<longrightarrow> same_ref src off (ad_arena (fst rb)) v)"

lemma keeps_refl [simp]: "keeps a a"
  by (simp add: keeps_def)

lemma keeps_trans: "keeps a b \<Longrightarrow> keeps b c \<Longrightarrow> keeps a c"
  by (auto simp: keeps_def)

lemma same_ref_keeps: "same_ref src off a v \<Longrightarrow> keeps a b \<Longrightarrow> same_ref src off b v"
  by (auto simp: same_ref_def keeps_def split: option.splits)

lemma ref_str_0 [simp]: "ref_str a 0 = None"
  by (simp add: ref_str_def arenaRead_def)

lemma same_ref_read:
  assumes "same_ref src off a v" "length a < 2 ^ 64"
  shows "ref_str a v = ref_str src off"
proof (cases "ref_str src off")
  case (Some s)
  then have "arenaRead a v = Inr (Some s)" using assms span_at_read by (simp add: same_ref_def)
  then show ?thesis by (simp add: ref_str_def [of a v] Some)
qed (use assms in \<open>simp add: same_ref_def\<close>)

lemma dict_intern_keeps_arena: "keeps (ad_arena d) (ad_arena (fst (dict_intern d s)))"
  using dict_intern_keeps by (auto simp: keeps_def dict_intern_arena arenaIntern_def)

text \<open>One reference: it is copied, every string already there stays, and the state stays sound.\<close>

lemma rb_intern_ok:
  assumes "rb_ok src rb" "rb_intern src off rb = Some (v, rb')" "length (ad_arena (fst rb')) < 2 ^ 64"
  shows "rb_ok src rb' \<and> keeps (ad_arena (fst rb)) (ad_arena (fst rb')) \<and> same_ref src off (ad_arena (fst rb')) v"
proof -
  obtain d c where rb: "rb = (d, c)" by fastforce
  consider (zero) "off = 0" "v = 0" "rb' = rb" | (hit) "mget c off = Some v" "rb' = rb"
    | (none) "arenaRead src off = Inr None" "v = 0" "rb' = rb"
    | (copy) s where "off \<noteq> 0" "arenaRead src off = Inr (Some s)" "mget c off = None"
        "v = snd (dict_intern d s)" "rb' = (fst (dict_intern d s), mput off v c)"
    using assms(2) unfolding rb rb_intern_def
    by (auto split: if_splits option.splits sum.splits prod.splits)
  then show ?thesis
  proof cases
    case copy
    have wf: "dict_wf d" using assms(1) by (simp add: rb_ok_def rb)
    have room: "length (ad_arena (fst (dict_intern d s))) < 2 ^ 64" using assms(3) copy(5) by simp
    have "dict_wf (fst (dict_intern d s))" by (rule dict.intern_inv [OF wf room])
    moreover have k: "keeps (ad_arena d) (ad_arena (fst (dict_intern d s)))" by (rule dict_intern_keeps_arena)
    moreover have here: "same_ref src off (ad_arena (fst (dict_intern d s))) v"
      using dict_intern_holds [OF wf room] copy(2,4) by (simp add: same_ref_def ref_str_def)
    moreover have "same_ref src o' (ad_arena (fst (dict_intern d s))) v'" if "mget (mput off v c) o' = Some v'" for o' v'
      using that here assms(1) same_ref_keeps [OF _ k] by (auto simp: rb_ok_def rb split: if_splits)
    ultimately show ?thesis using copy(5) by (simp add: rb_ok_def rb)
  qed (use assms(1) in \<open>auto simp: rb rb_ok_def same_ref_def ref_str_def arenaRead_def\<close>)
qed

lemma rb_intern_total: "readable src off \<Longrightarrow> \<exists>v rb'. rb_intern src off rb = Some (v, rb')"
  by (auto simp: rb_intern_def readable_def Let_def split: option.splits sum.splits prod.splits)

lemma rb_intern_grows: "rb_intern src off rb = Some (v, rb') \<Longrightarrow> length (ad_arena (fst rb)) \<le> length (ad_arena (fst rb'))"
  by (auto simp: rb_intern_def Let_def split: if_splits option.splits sum.splits prod.splits)
     (metis dict_intern_keeps_arena keeps_def fst_conv)

lemma rb_intern_bound:
  "rb_intern src off rb = Some (v, rb') \<Longrightarrow>
     length (ad_arena (fst rb')) \<le> length (ad_arena (fst rb)) + span_bytes (ref_str src off)"
  by (auto simp: rb_intern_def Let_def dict_intern_def arenaIntern_def ref_str_def span_bytes_def
      split: if_splits option.splits sum.splits prod.splits)

text \<open>What copying a table relies on: copying one row keeps the state sound and every string there, and
  relates the row to its copy in a way that survives further growth of the arena.\<close>

locale row_copier =
  fixes src :: "u8 list" and f :: "'r \<Rightarrow> rebaser \<Rightarrow> ('r \<times> rebaser) option" and R :: "'r \<Rightarrow> arena \<Rightarrow> 'r \<Rightarrow> bool"
    and rd :: "'r \<Rightarrow> bool" and cost :: "'r \<Rightarrow> nat"
  assumes copy_ok: "\<lbrakk> rb_ok src rb; f r rb = Some (r', rb'); length (ad_arena (fst rb')) < 2 ^ 64 \<rbrakk>
      \<Longrightarrow> rb_ok src rb' \<and> keeps (ad_arena (fst rb)) (ad_arena (fst rb')) \<and> R r (ad_arena (fst rb')) r'"
    and copy_grows: "f r rb = Some (r', rb') \<Longrightarrow> length (ad_arena (fst rb)) \<le> length (ad_arena (fst rb'))"
    and copy_bound: "f r rb = Some (r', rb') \<Longrightarrow> length (ad_arena (fst rb')) \<le> length (ad_arena (fst rb)) + cost r"
    and copy_total: "rd r \<Longrightarrow> \<exists>r' rb'. f r rb = Some (r', rb')"
    and R_keeps: "R r a r' \<Longrightarrow> keeps a b \<Longrightarrow> R r b r'"
begin

lemma rows_grow: "copy_rows f rs rb = Some (rs', rb') \<Longrightarrow> length (ad_arena (fst rb)) \<le> length (ad_arena (fst rb'))"
  by (induction rs arbitrary: rb rs') (fastforce split: Option.bind_splits dest: copy_grows)+

lemma rows_bound: "copy_rows f rs rb = Some (rs', rb') \<Longrightarrow>
    length (ad_arena (fst rb')) \<le> length (ad_arena (fst rb)) + sum_list (map cost rs)"
  by (induction rs arbitrary: rb rs') (fastforce split: Option.bind_splits dest: copy_bound)+

lemma rows_total: "list_all rd rs \<Longrightarrow> \<exists>rs' rb'. copy_rows f rs rb = Some (rs', rb')"
proof (induction rs arbitrary: rb)
  case (Cons r rs)
  then have "rd r" "list_all rd rs" by simp_all
  from copy_total [OF this(1)] obtain r' rb1 where "f r rb = Some (r', rb1)" by blast
  moreover from Cons.IH [OF \<open>list_all rd rs\<close>] obtain rs' rb2 where "copy_rows f rs rb1 = Some (rs', rb2)" by blast
  ultimately show ?case by simp
qed simp

lemma rows_ok:
  assumes "rb_ok src rb" "copy_rows f rs rb = Some (rs', rb')" "length (ad_arena (fst rb')) < 2 ^ 64"
  shows "rb_ok src rb' \<and> keeps (ad_arena (fst rb)) (ad_arena (fst rb')) \<and> list_all2 (\<lambda>r r'. R r (ad_arena (fst rb')) r') rs rs'"
  using assms
proof (induction rs arbitrary: rb rs')
  case (Cons r rs)
  from Cons.prems(2) obtain r1 rb1 rs1 where c: "f r rb = Some (r1, rb1)" "copy_rows f rs rb1 = Some (rs1, rb')" "rs' = r1 # rs1"
    by (auto split: Option.bind_splits)
  have "length (ad_arena (fst rb1)) < 2 ^ 64" using rows_grow [OF c(2)] Cons.prems(3) by simp
  note h = copy_ok [OF Cons.prems(1) c(1) this]
  note t = Cons.IH [OF _ c(2) Cons.prems(3)]
  show ?case using h t c(3) R_keeps keeps_trans by auto
qed simp

end

definition url_same :: "u8 list \<Rightarrow> URLRecord \<Rightarrow> arena \<Rightarrow> URLRecord \<Rightarrow> bool" where
  "url_same src r a r' \<longleftrightarrow>
     r' = r\<lparr> u_URLRef := u_URLRef r', u_ETagRef := u_ETagRef r', u_RedirectRef := u_RedirectRef r' \<rparr>
     \<and> same_ref src (u_URLRef r) a (u_URLRef r') \<and> same_ref src (u_ETagRef r) a (u_ETagRef r')
     \<and> same_ref src (u_RedirectRef r) a (u_RedirectRef r')"

definition host_same :: "u8 list \<Rightarrow> HostRecord \<Rightarrow> arena \<Rightarrow> HostRecord \<Rightarrow> bool" where
  "host_same src r a r' \<longleftrightarrow>
     r' = r\<lparr> h_HostRef := h_HostRef r', h_RegistrableRef := h_RegistrableRef r', h_RobotsRef := h_RobotsRef r' \<rparr>
     \<and> same_ref src (h_HostRef r) a (h_HostRef r') \<and> same_ref src (h_RegistrableRef r) a (h_RegistrableRef r')
     \<and> same_ref src (h_RobotsRef r) a (h_RobotsRef r')"

text \<open>Three references of one row, copied one after the other.\<close>

lemma rb_intern3:
  assumes "rb_ok src rb" "rb_intern src o1 rb = Some (v1, rb1)" "rb_intern src o2 rb1 = Some (v2, rb2)"
    "rb_intern src o3 rb2 = Some (v3, rb3)" "length (ad_arena (fst rb3)) < 2 ^ 64"
  shows "rb_ok src rb3 \<and> keeps (ad_arena (fst rb)) (ad_arena (fst rb3))
     \<and> same_ref src o1 (ad_arena (fst rb3)) v1 \<and> same_ref src o2 (ad_arena (fst rb3)) v2 \<and> same_ref src o3 (ad_arena (fst rb3)) v3"
proof -
  have l2: "length (ad_arena (fst rb2)) < 2 ^ 64" using rb_intern_grows [OF assms(4)] assms(5) by simp
  have l1: "length (ad_arena (fst rb1)) < 2 ^ 64" using rb_intern_grows [OF assms(3)] l2 by simp
  note s1 = rb_intern_ok [OF assms(1,2) l1]
  note s2 = rb_intern_ok [OF conjunct1 [OF s1] assms(3) l2]
  note s3 = rb_intern_ok [OF conjunct1 [OF s2] assms(4,5)]
  show ?thesis using s1 s2 s3 same_ref_keeps keeps_trans by blast
qed

interpretation urls: row_copier src "copyURL src" "url_same src" "url_readable src" "\<lambda>r. row_bytes (url_view src r)" for src
proof unfold_locales
  fix rb r r' rb'
  assume ok: "rb_ok src rb" and c: "copyURL src r rb = Some (r', rb')" and l: "length (ad_arena (fst rb')) < 2 ^ 64"
  from c obtain v1 rb1 v2 rb2 v3 where i: "rb_intern src (u_URLRef r) rb = Some (v1, rb1)"
    "rb_intern src (u_ETagRef r) rb1 = Some (v2, rb2)" "rb_intern src (u_RedirectRef r) rb2 = Some (v3, rb')"
    "r' = r\<lparr> u_URLRef := v1, u_ETagRef := v2, u_RedirectRef := v3 \<rparr>"
    by (auto simp: copyURL_def split: Option.bind_splits)
  show "rb_ok src rb' \<and> keeps (ad_arena (fst rb)) (ad_arena (fst rb')) \<and> url_same src r (ad_arena (fst rb')) r'"
    using rb_intern3 [OF ok i(1-3) l] by (simp add: i(4) url_same_def)
next
  fix r rb r' rb'
  assume "copyURL src r rb = Some (r', rb')"
  then show "length (ad_arena (fst rb)) \<le> length (ad_arena (fst rb'))"
    by (auto simp: copyURL_def split: Option.bind_splits dest!: rb_intern_grows)
next
  fix r rb r' rb'
  assume "copyURL src r rb = Some (r', rb')"
  then show "length (ad_arena (fst rb')) \<le> length (ad_arena (fst rb)) + row_bytes (url_view src r)"
    by (auto simp: copyURL_def row_bytes_def url_view_def split: Option.bind_splits dest!: rb_intern_bound)
next
  fix r rb
  assume rd: "url_readable src r"
  then obtain v1 rb1 where "rb_intern src (u_URLRef r) rb = Some (v1, rb1)" using rb_intern_total unfolding url_readable_def by blast
  moreover obtain v2 rb2 where "rb_intern src (u_ETagRef r) rb1 = Some (v2, rb2)" using rd rb_intern_total unfolding url_readable_def by blast
  moreover obtain v3 rb3 where "rb_intern src (u_RedirectRef r) rb2 = Some (v3, rb3)" using rd rb_intern_total unfolding url_readable_def by blast
  ultimately show "\<exists>r' rb'. copyURL src r rb = Some (r', rb')" by (simp add: copyURL_def)
qed (auto simp: url_same_def dest: same_ref_keeps)

interpretation hosts: row_copier src "copyHost src" "host_same src" "host_readable src" "\<lambda>r. row_bytes (host_view src r)" for src
proof unfold_locales
  fix rb r r' rb'
  assume ok: "rb_ok src rb" and c: "copyHost src r rb = Some (r', rb')" and l: "length (ad_arena (fst rb')) < 2 ^ 64"
  from c obtain v1 rb1 v2 rb2 v3 where i: "rb_intern src (h_HostRef r) rb = Some (v1, rb1)"
    "rb_intern src (h_RegistrableRef r) rb1 = Some (v2, rb2)" "rb_intern src (h_RobotsRef r) rb2 = Some (v3, rb')"
    "r' = r\<lparr> h_HostRef := v1, h_RegistrableRef := v2, h_RobotsRef := v3 \<rparr>"
    by (auto simp: copyHost_def split: Option.bind_splits)
  show "rb_ok src rb' \<and> keeps (ad_arena (fst rb)) (ad_arena (fst rb')) \<and> host_same src r (ad_arena (fst rb')) r'"
    using rb_intern3 [OF ok i(1-3) l] by (simp add: i(4) host_same_def)
next
  fix r rb r' rb'
  assume "copyHost src r rb = Some (r', rb')"
  then show "length (ad_arena (fst rb)) \<le> length (ad_arena (fst rb'))"
    by (auto simp: copyHost_def split: Option.bind_splits dest!: rb_intern_grows)
next
  fix r rb r' rb'
  assume "copyHost src r rb = Some (r', rb')"
  then show "length (ad_arena (fst rb')) \<le> length (ad_arena (fst rb)) + row_bytes (host_view src r)"
    by (auto simp: copyHost_def row_bytes_def host_view_def split: Option.bind_splits dest!: rb_intern_bound)
next
  fix r rb
  assume rd: "host_readable src r"
  then obtain v1 rb1 where "rb_intern src (h_HostRef r) rb = Some (v1, rb1)" using rb_intern_total unfolding host_readable_def by blast
  moreover obtain v2 rb2 where "rb_intern src (h_RegistrableRef r) rb1 = Some (v2, rb2)" using rd rb_intern_total unfolding host_readable_def by blast
  moreover obtain v3 rb3 where "rb_intern src (h_RobotsRef r) rb2 = Some (v3, rb3)" using rd rb_intern_total unfolding host_readable_def by blast
  ultimately show "\<exists>r' rb'. copyHost src r rb = Some (r', rb')" by (simp add: copyHost_def)
qed (auto simp: host_same_def dest: same_ref_keeps)

lemma url_same_view:
  assumes "url_same src r a r'" "length a < 2 ^ 64"
  shows "url_view a r' = url_view src r"
proof -
  have "r'\<lparr> u_URLRef := 0, u_ETagRef := 0, u_RedirectRef := 0 \<rparr> = r\<lparr> u_URLRef := 0, u_ETagRef := 0, u_RedirectRef := 0 \<rparr>"
    using assms(1) by (cases r, cases r') (simp add: url_same_def)
  then show ?thesis using assms same_ref_read by (simp add: url_view_def url_same_def)
qed

lemma host_same_view:
  assumes "host_same src r a r'" "length a < 2 ^ 64"
  shows "host_view a r' = host_view src r"
proof -
  have "r'\<lparr> h_HostRef := 0, h_RegistrableRef := 0, h_RobotsRef := 0 \<rparr> = r\<lparr> h_HostRef := 0, h_RegistrableRef := 0, h_RobotsRef := 0 \<rparr>"
    using assms(1) by (cases r, cases r') (simp add: host_same_def)
  then show ?thesis using assms same_ref_read by (simp add: host_view_def host_same_def)
qed

lemma url_same_views: "list_all2 (\<lambda>r r'. url_same src r a r') rs rs' \<Longrightarrow> length a < 2 ^ 64 \<Longrightarrow>
    map (url_view a) rs' = map (url_view src) rs \<and> map u_URLKey rs' = map u_URLKey rs"
proof (induction rule: list_all2_induct)
  case (Cons r rs r' rs')
  moreover have "u_URLKey r' = u_URLKey r" using Cons.hyps(1) by (cases r, cases r') (simp add: url_same_def)
  ultimately show ?case by (simp add: url_same_view)
qed simp

lemma host_same_views: "list_all2 (\<lambda>r r'. host_same src r a r') rs rs' \<Longrightarrow> length a < 2 ^ 64 \<Longrightarrow>
    map (host_view a) rs' = map (host_view src) rs \<and> map h_HostKey rs' = map h_HostKey rs"
proof (induction rule: list_all2_induct)
  case (Cons r rs r' rs')
  moreover have "h_HostKey r' = h_HostKey r" using Cons.hyps(1) by (cases r, cases r') (simp add: host_same_def)
  ultimately show ?case by (simp add: host_same_view)
qed simp

section \<open>Re-basing a partition\<close>

text \<open>The result of re-basing a partition whose rows refer to the arena \<open>src\<close>.\<close>

definition rebased :: "u8 list \<Rightarrow> Partition \<Rightarrow> Partition \<Rightarrow> bool" where
  "rebased src dst q \<longleftrightarrow> (\<exists>us hs a. q = dst\<lparr> pt_URLs := us, pt_Hosts := hs, pt_Strings := a \<rparr>)
     \<and> url_views q = map (url_view src) (pt_URLs dst) \<and> host_views q = map (host_view src) (pt_Hosts dst)
     \<and> map u_URLKey (pt_URLs q) = map u_URLKey (pt_URLs dst) \<and> map h_HostKey (pt_Hosts q) = map h_HostKey (pt_Hosts dst)
     \<and> part_readable q"

lemma rb_ok_new: "rb_ok src (newDict, [])"
  by (simp add: rb_ok_def dict_wf_new)

lemma rb_ok_switch: "rb_ok src (d, c) \<Longrightarrow> keeps (ad_arena d) (ad_arena d') \<Longrightarrow> dict_wf d' \<Longrightarrow> rb_ok src (d', c)"
  by (auto simp: rb_ok_def dest: same_ref_keeps)

lemma same_ref_readable: "same_ref src off a v \<Longrightarrow> length a < 2 ^ 64 \<Longrightarrow> readable a v"
  using span_at_read by (auto simp: same_ref_def readable_def arenaRead_def [of a 0] split: option.splits)

lemma same_readable1:
  "url_same src r a r' \<Longrightarrow> length a < 2 ^ 64 \<Longrightarrow> url_readable a r'"
  "host_same src h a h' \<Longrightarrow> length a < 2 ^ 64 \<Longrightarrow> host_readable a h'"
  unfolding url_same_def url_readable_def host_same_def host_readable_def by (blast intro: same_ref_readable)+

lemma same_readable:
  "list_all2 (\<lambda>r r'. url_same src r a r') rs rs' \<Longrightarrow> length a < 2 ^ 64 \<Longrightarrow> list_all (url_readable a) rs'"
  "list_all2 (\<lambda>r r'. host_same src r a r') hs hs' \<Longrightarrow> length a < 2 ^ 64 \<Longrightarrow> list_all (host_readable a) hs'"
  unfolding list_all2_conv_all_nth list_all_length by (metis same_readable1(1)) (metis same_readable1(2))

lemma rebaseArena_ok:
  assumes "list_all (url_readable src) (pt_URLs dst)" "list_all (host_readable src) (pt_Hosts dst)"
    "1 + sum_list (map (\<lambda>r. row_bytes (url_view src r)) (pt_URLs dst))
       + sum_list (map (\<lambda>r. row_bytes (host_view src r)) (pt_Hosts dst)) < 2 ^ 64"
  shows "\<exists>q. rebaseArena dst src = Some q \<and> rebased src dst q"
proof -
  obtain us rb1 where u: "copy_rows (copyURL src) (pt_URLs dst) (newDict, []) = Some (us, rb1)"
    using urls.rows_total [OF assms(1)] by blast
  obtain hs rb2 where h: "copy_rows (copyHost src) (pt_Hosts dst) rb1 = Some (hs, rb2)"
    using hosts.rows_total [OF assms(2)] by blast
  let ?a = "ad_arena (fst rb2)"
  let ?q = "dst\<lparr> pt_URLs := us, pt_Hosts := hs, pt_Strings := ?a \<rparr>"
  have l: "length ?a < 2 ^ 64"
    using assms(3) urls.rows_bound [OF u] hosts.rows_bound [OF h] by (simp add: newDict_def newArena_def)
  then have l1: "length (ad_arena (fst rb1)) < 2 ^ 64" using hosts.rows_grow [OF h] by simp
  note su = urls.rows_ok [OF rb_ok_new u l1]
  note sh = hosts.rows_ok [OF conjunct1 [OF su] h l]
  have "list_all2 (\<lambda>r r'. url_same src r ?a r') (pt_URLs dst) us"
    by (rule list_all2_mono [OF conjunct2 [OF conjunct2 [OF su]]]) (use sh urls.R_keeps in blast)
  note vu = url_same_views [OF this l] same_readable(1) [OF this l]
  have hh: "list_all2 (\<lambda>r r'. host_same src r ?a r') (pt_Hosts dst) hs" using sh by blast
  note vh = host_same_views [OF hh l] same_readable(2) [OF hh l]
  have "\<exists>us' hs' a. ?q = dst\<lparr> pt_URLs := us', pt_Hosts := hs', pt_Strings := a \<rparr>" by blast
  then have "rebased src dst ?q"
    using vu vh by (simp add: rebased_def url_views_def host_views_def part_readable_def)
  moreover have "rebaseArena dst src = Some ?q" using u h by (simp add: rebaseArena_def)
  ultimately show ?thesis by blast
qed

text \<open>Re-basing a selection of the rows of a partition that fits.\<close>

lemma sum_list_filter_le: "sum_list (map g (filter P xs)) \<le> sum_list (map (g :: 'a \<Rightarrow> nat) xs)"
  by (induction xs) auto

lemma rebase_selection:
  assumes "part_fits p" "pt_URLs dst = filter P (pt_URLs p)" "pt_Hosts dst = filter Q (pt_Hosts p)"
  shows "\<exists>q. rebaseArena dst (pt_Strings p) = Some q \<and> rebased (pt_Strings p) dst q \<and> part_fits q"
proof -
  let ?s = "pt_Strings p"
  have c: "part_bytes p = 1 + sum_list (map (\<lambda>r. row_bytes (url_view ?s r)) (pt_URLs p))
      + sum_list (map (\<lambda>r. row_bytes (host_view ?s r)) (pt_Hosts p))"
    by (simp add: part_bytes_def url_views_def host_views_def comp_def)
  have le: "1 + sum_list (map (\<lambda>r. row_bytes (url_view ?s r)) (pt_URLs dst))
       + sum_list (map (\<lambda>r. row_bytes (host_view ?s r)) (pt_Hosts dst)) \<le> part_bytes p"
    unfolding c assms(2,3)
    using sum_list_filter_le [of "\<lambda>r. row_bytes (url_view ?s r)" P "pt_URLs p"]
      sum_list_filter_le [of "\<lambda>r. row_bytes (host_view ?s r)" Q "pt_Hosts p"] by linarith
  have "list_all (url_readable ?s) (pt_URLs dst)" "list_all (host_readable ?s) (pt_Hosts dst)"
    using assms by (auto simp: part_fits_def part_readable_def list_all_iff)
  from rebaseArena_ok [OF this order.strict_trans1 [OF le]] assms(1) obtain q
    where q: "rebaseArena dst ?s = Some q" "rebased ?s dst q" by (auto simp: part_fits_def)
  have "part_bytes q = 1 + sum_list (map (\<lambda>r. row_bytes (url_view ?s r)) (pt_URLs dst))
       + sum_list (map (\<lambda>r. row_bytes (host_view ?s r)) (pt_Hosts dst))"
    using q(2) by (simp add: part_bytes_def rebased_def comp_def)
  then have "part_fits q" using q(2) le assms(1) by (simp add: part_fits_def rebased_def)
  with q show ?thesis by blast
qed

section \<open>The new arena holds only the strings of the rows\<close>

text \<open>The arena that holds the strings of a list and nothing else, one after the other.\<close>

definition arena_of :: "u8 list list \<Rightarrow> arena" where
  "arena_of ss = newArena @ concat (map (\<lambda>s. uvarint (length s) @ s) ss)"

text \<open>A rebaser that has copied each string of a set once and nothing else.\<close>

definition collected :: "u8 list \<Rightarrow> u8 list set \<Rightarrow> rebaser \<Rightarrow> bool" where
  "collected src S rb \<longleftrightarrow>
     (\<exists>ss. ad_arena (fst rb) = arena_of ss \<and> distinct ss \<and> set ss = S) \<and> dom (mget (ad_by (fst rb))) = S
     \<and> (\<forall>off v. mget (snd rb) off = Some v \<longrightarrow> set_option (ref_str src off) \<subseteq> S)"

lemma collected_new: "collected src {} (newDict, [])"
  by (simp add: collected_def newDict_def arena_of_def exI [of _ "[]"])

lemma collected_put:
  assumes "collected src S (d, c)" "ref_str src off = Some s"
  shows "collected src (insert s S) (fst (dict_intern d s), mput off v c)"
proof -
  obtain ss where ss: "ad_arena d = arena_of ss" "distinct ss" "set ss = S" and D: "dom (mget (ad_by d)) = S"
    and C: "\<And>o' v. mget c o' = Some v \<Longrightarrow> set_option (ref_str src o') \<subseteq> S"
    using assms(1) by (auto simp: collected_def)
  have "\<exists>ss. ad_arena (fst (dict_intern d s)) = arena_of ss \<and> distinct ss \<and> set ss = insert s S"
  proof (cases "s \<in> S")
    case True
    then have "mget (ad_by d) s \<noteq> None" using D by blast
    then show ?thesis using ss True by (auto simp: dict_intern_def insert_absorb)
  next
    case False
    then have "mget (ad_by d) s = None" using D by blast
    then show ?thesis using ss False
      by (intro exI [of _ "ss @ [s]"]) (auto simp: dict_intern_def arenaIntern_def arena_of_def Let_def)
  qed
  moreover have "dom (mget (ad_by (fst (dict_intern d s)))) = insert s S" using D by (auto simp: dict_intern_by)
  moreover have "set_option (ref_str src o') \<subseteq> insert s S" if "mget (mput off v c) o' = Some v'" for o' v'
    using that C assms(2) by (fastforce split: if_splits)
  ultimately show ?thesis by (simp add: collected_def)
qed

lemma rb_intern_collects:
  assumes "collected src S rb" "rb_intern src off rb = Some (v, rb')"
  shows "collected src (S \<union> set_option (ref_str src off)) rb'"
proof -
  obtain d c where rb: "rb = (d, c)" by fastforce
  consider (zero) "off = 0" "rb' = rb" | (hit) "mget c off = Some v" "rb' = rb"
    | (none) "arenaRead src off = Inr None" "rb' = rb"
    | (copy) s where "arenaRead src off = Inr (Some s)" "rb' = (fst (dict_intern d s), mput off v c)"
    using assms(2) unfolding rb rb_intern_def
    by (auto split: if_splits option.splits sum.splits prod.splits)
  then show ?thesis
  proof cases
    case hit
    then have "S \<union> set_option (ref_str src off) = S" using assms(1) by (auto simp: collected_def rb)
    then show ?thesis using assms(1) hit by simp
  next
    case copy
    then have "ref_str src off = Some s" by (simp add: ref_str_def)
    then show ?thesis using collected_put [of src S d c off s v] assms(1) copy(2) by (simp add: rb)
  qed (use assms(1) in \<open>simp_all add: ref_str_def arenaRead_def [of src 0]\<close>)
qed

text \<open>What collecting the strings of a table relies on: copying a row collects the strings of its references.\<close>

locale string_collector =
  fixes src :: "u8 list" and f :: "'r \<Rightarrow> rebaser \<Rightarrow> ('r \<times> rebaser) option" and refs :: "'r \<Rightarrow> u8 list option list"
  assumes row_collects: "collected src S rb \<Longrightarrow> f r rb = Some (r', rb') \<Longrightarrow> collected src (S \<union> {s. Some s \<in> set (refs r)}) rb'"
begin

lemma rows_collect:
  "collected src S rb \<Longrightarrow> copy_rows f rs rb = Some (rs', rb') \<Longrightarrow>
   collected src (S \<union> {s. \<exists>r \<in> set rs. Some s \<in> set (refs r)}) rb'"
proof (induction rs arbitrary: S rb rs')
  case (Cons r rs)
  then obtain r1 rb1 rs1 where c: "f r rb = Some (r1, rb1)" "copy_rows f rs rb1 = Some (rs1, rb')"
    by (auto split: Option.bind_splits)
  from Cons.IH [OF row_collects [OF Cons.prems(1) c(1)] c(2)]
  have "collected src (S \<union> {s. Some s \<in> set (refs r)} \<union> {s. \<exists>r \<in> set rs. Some s \<in> set (refs r)}) rb'" .
  moreover have "S \<union> {s. Some s \<in> set (refs r)} \<union> {s. \<exists>r \<in> set rs. Some s \<in> set (refs r)}
      = S \<union> {s. \<exists>r \<in> set (r # rs). Some s \<in> set (refs r)}" by auto
  ultimately show ?case by simp
qed simp

end

lemma rb_intern3_collects:
  assumes "collected src S rb" "rb_intern src o1 rb = Some (v1, rb1)" "rb_intern src o2 rb1 = Some (v2, rb2)"
    "rb_intern src o3 rb2 = Some (v3, rb3)"
  shows "collected src (S \<union> {s. Some s \<in> set [ref_str src o1, ref_str src o2, ref_str src o3]}) rb3"
proof -
  have "collected src (S \<union> set_option (ref_str src o1) \<union> set_option (ref_str src o2) \<union> set_option (ref_str src o3)) rb3"
    using rb_intern_collects [OF rb_intern_collects [OF rb_intern_collects [OF assms(1,2)] assms(3)] assms(4)] .
  moreover have "S \<union> set_option (ref_str src o1) \<union> set_option (ref_str src o2) \<union> set_option (ref_str src o3)
      = S \<union> {s. Some s \<in> set [ref_str src o1, ref_str src o2, ref_str src o3]}"
    by (auto simp: eq_commute [of "Some _"])
  ultimately show ?thesis by simp
qed

interpretation url_strings: string_collector src "copyURL src" "\<lambda>r. snd (url_view src r)" for src
  by unfold_locales (auto simp del: set_simps simp: copyURL_def url_view_def rb_intern3_collects split: Option.bind_splits)

interpretation host_strings: string_collector src "copyHost src" "\<lambda>r. snd (host_view src r)" for src
  by unfold_locales (auto simp del: set_simps simp: copyHost_def host_view_def rb_intern3_collects split: Option.bind_splits)

lemma rebaseArena_collects:
  assumes "rebaseArena dst src = Some q"
  shows "\<exists>ss. distinct ss \<and> pt_Strings q = arena_of ss
     \<and> set ss = {s. \<exists>v \<in> snd ` url_view src ` set (pt_URLs dst) \<union> snd ` host_view src ` set (pt_Hosts dst). Some s \<in> set v}"
proof -
  from assms obtain us rb1 hs rb2 where c: "copy_rows (copyURL src) (pt_URLs dst) (newDict, []) = Some (us, rb1)"
    "copy_rows (copyHost src) (pt_Hosts dst) rb1 = Some (hs, rb2)" "pt_Strings q = ad_arena (fst rb2)"
    by (auto simp: rebaseArena_def split: Option.bind_splits)
  from host_strings.rows_collect [OF url_strings.rows_collect [OF collected_new c(1)] c(2)] obtain ss where
    ss: "distinct ss" "ad_arena (fst rb2) = arena_of ss"
    "set ss = {} \<union> {s. \<exists>r \<in> set (pt_URLs dst). Some s \<in> set (snd (url_view src r))}
      \<union> {s. \<exists>r \<in> set (pt_Hosts dst). Some s \<in> set (snd (host_view src r))}"
    unfolding collected_def by blast
  have "set ss = {s. \<exists>v \<in> snd ` url_view src ` set (pt_URLs dst) \<union> snd ` host_view src ` set (pt_Hosts dst). Some s \<in> set v}"
    unfolding ss(3) by blast
  then show ?thesis using ss(1,2) c(3) by auto
qed

text \<open>C22: Compaction keeps exactly the rows that are not Gone, in order, with the strings they refer to, and
  every host with its strings; the identity of the partition stays.  The new arena holds the strings
  those rows and hosts refer to, each once, and nothing else.  It fails on no partition whose references
  can be read.\<close>

theorem compact_keeps_live_rows:
  assumes "part_fits p"
  shows "\<exists>q ss. Compact p = Some q \<and> pt_ID q = pt_ID p \<and> pt_CreatedHours q = pt_CreatedHours p
     \<and> pt_HostKeyLo q = pt_HostKeyLo p \<and> pt_HostKeyHi q = pt_HostKeyHi p
     \<and> url_views q = filter (\<lambda>v. u_Status (fst v) \<noteq> StatusGone) (url_views p) \<and> host_views q = host_views p
     \<and> pt_Strings q = arena_of ss \<and> distinct ss
     \<and> set ss = {s. \<exists>v \<in> snd ` set (url_views q) \<union> snd ` set (host_views q). Some s \<in> set v}"
proof -
  let ?live = "filter (\<lambda>r. u_Status r \<noteq> StatusGone) (pt_URLs p)"
  let ?out = "(Pack (pt_ID p) (pt_HostKeyLo p) (pt_HostKeyHi p) (pt_CreatedHours p) (pt_DefaultCodec p)
                   ?live (pt_Hosts p) [])\<lparr> pt_Meta := cloneMeta (pt_Meta p) \<rparr>"
  from rebase_selection [OF assms, of ?out _ "\<lambda>_. True"] obtain q where
    q: "rebaseArena ?out (pt_Strings p) = Some q" "rebased (pt_Strings p) ?out q"
    by (auto simp: Pack_def)
  have views: "url_views q = map (url_view (pt_Strings p)) (pt_URLs ?out)" "host_views q = map (host_view (pt_Strings p)) (pt_Hosts ?out)"
    using q(2) by (simp_all add: rebased_def)
  obtain ss where ss: "distinct ss" "pt_Strings q = arena_of ss"
    "set ss = {s. \<exists>v \<in> snd ` set (url_views q) \<union> snd ` set (host_views q). Some s \<in> set v}"
    using rebaseArena_collects [OF q(1)] unfolding views set_map by blast
  have "map (url_view a) (filter (\<lambda>r. u_Status r \<noteq> StatusGone) rs) = filter (\<lambda>v. u_Status (fst v) \<noteq> StatusGone) (map (url_view a) rs)" for a rs
    by (induction rs) (simp_all add: url_view_def)
  then have "Compact p = Some q \<and> pt_ID q = pt_ID p \<and> pt_CreatedHours q = pt_CreatedHours p
     \<and> pt_HostKeyLo q = pt_HostKeyLo p \<and> pt_HostKeyHi q = pt_HostKeyHi p
     \<and> url_views q = filter (\<lambda>v. u_Status (fst v) \<noteq> StatusGone) (url_views p) \<and> host_views q = host_views p"
    using q by (auto simp: Compact_def Let_def rebased_def Pack_def url_views_def host_views_def)
  then show ?thesis using ss by blast
qed

section \<open>Split and merge\<close>

lemma sortedURLs_iff: "sortedURLs rs \<longleftrightarrow> sorted (map u_URLKey rs)"
  by (induction rs rule: sortedURLs.induct) (auto simp: URLKey_Less_iff)

lemma sortedHosts_iff: "sortedHosts rs \<longleftrightarrow> sorted (map h_HostKey rs)"
  by (induction rs rule: sortedHosts.induct) auto

text \<open>The binary search for the first key at or above the boundary.\<close>

lemma Search_cut:
  fixes b :: "'k :: linorder"
  assumes "sorted (map k rs)"
  defines "c \<equiv> Search (length rs) (\<lambda>i. k (rs ! i) \<ge> b)"
  shows "r \<in> set (take c rs) \<Longrightarrow> k r < b" "r \<in> set (drop c rs) \<Longrightarrow> b \<le> k r"
proof -
  have nth: "k (rs ! i) \<le> k (rs ! j)" if "i \<le> j" "j < length rs" for i j
    using sorted_nth_mono [OF assms(1), of i j] that by simp
  then have "mono_below (length rs) (\<lambda>i. k (rs ! i) \<ge> b)"
    by (force simp: mono_below_def intro: order_trans)
  then have l: "least_from (length rs) (\<lambda>i. k (rs ! i) \<ge> b) c" unfolding c_def by (rule Search_spec)
  show "k r < b" if "r \<in> set (take c rs)"
    using that least_fromD(2) [OF l] by (auto simp: in_set_conv_nth not_le)
  show "b \<le> k r" if "r \<in> set (drop c rs)"
  proof -
    from that obtain i where i: "r = rs ! (c + i)" "c + i < length rs" by (auto simp: in_set_conv_nth)
    then have "b \<le> k (rs ! c)" using least_fromD(3) [OF l] by simp
    then show ?thesis using nth [of c "c + i"] i by (metis le_add1 order_trans)
  qed
qed

lemma HostKey_mono: "(a :: URLKey) \<le> b \<Longrightarrow> HostKey a \<le> HostKey b"
  by (auto simp: less_eq_URLKey_def URLKey_Less_def split: if_splits)

lemma sorted_HostKeys: "sorted (map u_URLKey rs) \<Longrightarrow> sorted (map (\<lambda>r. HostKey (u_URLKey r)) rs)"
  by (auto simp: sorted_iff_nth_mono HostKey_mono)

lemma maxU64_max: "maxU64 a b = max a b"
  by (auto simp: maxU64_def max_def leD dest: less_imp_le)

lemma Merge_ok:
  assumes "part_readable a" "part_readable b" "pt_HostKeyLo a \<le> pt_HostKeyLo b"
    "sortedURLs (pt_URLs a @ pt_URLs b)" "sortedHosts (pt_Hosts a @ pt_Hosts b)" "part_bytes a + part_bytes b \<le> 2 ^ 64"
  shows "\<exists>q. Merge_parts a b = Some (Inr q) \<and> pt_ID q = pt_ID a \<and> pt_HostKeyLo q = pt_HostKeyLo a
     \<and> pt_HostKeyHi q = max (pt_HostKeyHi a) (pt_HostKeyHi b)
     \<and> url_views q = url_views a @ url_views b \<and> host_views q = host_views a @ host_views b"
proof -
  let ?sa = "pt_Strings a" and ?sb = "pt_Strings b"
  have ra: "list_all (url_readable ?sa) (pt_URLs a)" "list_all (host_readable ?sa) (pt_Hosts a)"
    and rb: "list_all (url_readable ?sb) (pt_URLs b)" "list_all (host_readable ?sb) (pt_Hosts b)"
    using assms(1,2) by (simp_all add: part_readable_def)
  obtain ua da ca where ua: "copy_rows (copyURL ?sa) (pt_URLs a) (newDict, []) = Some (ua, da, ca)"
    using urls.rows_total [OF ra(1), of "(newDict, [])"] by auto
  obtain ub db cb where ub: "copy_rows (copyURL ?sb) (pt_URLs b) (da, []) = Some (ub, db, cb)"
    using urls.rows_total [OF rb(1), of "(da, [])"] by auto
  obtain ha da2 ca2 where ha: "copy_rows (copyHost ?sa) (pt_Hosts a) (db, ca) = Some (ha, da2, ca2)"
    using hosts.rows_total [OF ra(2), of "(db, ca)"] by auto
  obtain hb db2 cb2 where hb: "copy_rows (copyHost ?sb) (pt_Hosts b) (da2, cb) = Some (hb, db2, cb2)"
    using hosts.rows_total [OF rb(2), of "(da2, cb)"] by auto
  let ?q = "(Pack (pt_ID a) (pt_HostKeyLo a) (maxU64 (pt_HostKeyHi a) (pt_HostKeyHi b)) (pt_CreatedHours a)
                (pt_DefaultCodec a) (ua @ ub) (ha @ hb) (ad_arena db2))\<lparr> pt_Meta := cloneMeta (pt_Meta a) \<rparr>"
  have M: "Merge_parts a b = Some (Inr ?q)"
    using assms(3-5) ua ub ha hb by (simp add: Merge_parts_def not_less [symmetric])
  have l: "length (ad_arena db2) < 2 ^ 64"
    using assms(6) urls.rows_bound [OF ua] urls.rows_bound [OF ub] hosts.rows_bound [OF ha] hosts.rows_bound [OF hb]
    by (simp add: part_bytes_def url_views_def host_views_def comp_def newDict_def newArena_def)
  have "url_views ?q = url_views a @ url_views b \<and> host_views ?q = host_views a @ host_views b"
  proof -
    have l2: "length (ad_arena da2) < 2 ^ 64" using hosts.rows_grow [OF hb] l by simp
    have l3: "length (ad_arena db) < 2 ^ 64" using hosts.rows_grow [OF ha] l2 by simp
    have l4: "length (ad_arena da) < 2 ^ 64" using urls.rows_grow [OF ub] l3 by simp
    from urls.rows_ok [OF rb_ok_new ua] l4 have sa: "rb_ok ?sa (da, ca)"
      "list_all2 (\<lambda>r r'. url_same ?sa r (ad_arena da) r') (pt_URLs a) ua" by simp_all
    have n1: "rb_ok ?sb (da, [])" using sa(1) by (simp add: rb_ok_def)
    from urls.rows_ok [OF n1 ub] l3 have sb: "rb_ok ?sb (db, cb)" "keeps (ad_arena da) (ad_arena db)"
      "list_all2 (\<lambda>r r'. url_same ?sb r (ad_arena db) r') (pt_URLs b) ub" by simp_all
    have n2: "rb_ok ?sa (db, ca)" using rb_ok_switch [OF sa(1) sb(2)] sb(1) by (simp add: rb_ok_def)
    from hosts.rows_ok [OF n2 ha] l2 have sha: "rb_ok ?sa (da2, ca2)" "keeps (ad_arena db) (ad_arena da2)"
      "list_all2 (\<lambda>r r'. host_same ?sa r (ad_arena da2) r') (pt_Hosts a) ha" by simp_all
    have n3: "rb_ok ?sb (da2, cb)" using rb_ok_switch [OF sb(1) sha(2)] sha(1) by (simp add: rb_ok_def)
    from hosts.rows_ok [OF n3 hb] l have shb: "keeps (ad_arena da2) (ad_arena db2)"
      "list_all2 (\<lambda>r r'. host_same ?sb r (ad_arena db2) r') (pt_Hosts b) hb" by simp_all
    have k2: "keeps (ad_arena db) (ad_arena db2)" by (rule keeps_trans [OF sha(2) shb(1)])
    have k1: "keeps (ad_arena da) (ad_arena db2)" by (rule keeps_trans [OF sb(2) k2])
    have "list_all2 (\<lambda>r r'. url_same ?sa r (ad_arena db2) r') (pt_URLs a) ua"
      by (rule list_all2_mono [OF sa(2)]) (rule urls.R_keeps [OF _ k1])
    moreover have "list_all2 (\<lambda>r r'. url_same ?sb r (ad_arena db2) r') (pt_URLs b) ub"
      by (rule list_all2_mono [OF sb(3)]) (rule urls.R_keeps [OF _ k2])
    moreover have "list_all2 (\<lambda>r r'. host_same ?sa r (ad_arena db2) r') (pt_Hosts a) ha"
      by (rule list_all2_mono [OF sha(3)]) (rule hosts.R_keeps [OF _ shb(1)])
    ultimately show ?thesis
      using url_same_views host_same_views shb(2) l by (simp add: url_views_def host_views_def Pack_def)
  qed
  then show ?thesis using M by (simp add: Pack_def maxU64_max)
qed

text \<open>On a sorted table the cut is a selection by key.\<close>

lemma Search_filter:
  fixes b :: "'k :: linorder"
  assumes "sorted (map k rs)"
  shows "take (Search (length rs) (\<lambda>i. b \<le> k (rs ! i))) rs = filter (\<lambda>r. k r < b) rs"
    "drop (Search (length rs) (\<lambda>i. b \<le> k (rs ! i))) rs = filter (\<lambda>r. b \<le> k r) rs"
proof -
  define c where "c = Search (length rs) (\<lambda>i. b \<le> k (rs ! i))"
  have t: "\<forall>r \<in> set (take c rs). k r < b" and d: "\<forall>r \<in> set (drop c rs). b \<le> k r"
    using Search_cut [OF assms, of _ b, folded c_def] by blast+
  have "filter (\<lambda>r. k r < b) (take c rs @ drop c rs) = take c rs" "filter (\<lambda>r. b \<le> k r) (take c rs @ drop c rs) = drop c rs"
    using t d by (simp_all only: filter_append) (auto simp: filter_empty_conv not_less not_le)
  then show "take c rs = filter (\<lambda>r. k r < b) rs" "drop c rs = filter (\<lambda>r. b \<le> k r) rs" by simp_all
qed

lemma Split_halves:
  assumes "part_fits p" "sortedURLs (pt_URLs p)" "sortedHosts (pt_Hosts p)"
  shows "\<exists>lo hi. Split_at p bd = Some (lo, hi) \<and> part_fits lo \<and> part_fits hi
    \<and> rebased (pt_Strings p) ((Pack (pt_ID p) (pt_HostKeyLo p) (if bd = 0 then 0 else bd - 1) (pt_CreatedHours p) (pt_DefaultCodec p)
       (filter (\<lambda>r. HostKey (u_URLKey r) < bd) (pt_URLs p)) (filter (\<lambda>h. h_HostKey h < bd) (pt_Hosts p)) [])\<lparr> pt_Meta := cloneMeta (pt_Meta p) \<rparr>) lo
    \<and> rebased (pt_Strings p) ((Pack (pt_ID p) bd (pt_HostKeyHi p) (pt_CreatedHours p) (pt_DefaultCodec p)
       (filter (\<lambda>r. bd \<le> HostKey (u_URLKey r)) (pt_URLs p)) (filter (\<lambda>h. bd \<le> h_HostKey h) (pt_Hosts p)) [])\<lparr> pt_Meta := cloneMeta (pt_Meta p) \<rparr>) hi"
proof -
  let ?lo = "(Pack (pt_ID p) (pt_HostKeyLo p) (if bd = 0 then 0 else bd - 1) (pt_CreatedHours p) (pt_DefaultCodec p)
       (filter (\<lambda>r. HostKey (u_URLKey r) < bd) (pt_URLs p)) (filter (\<lambda>h. h_HostKey h < bd) (pt_Hosts p)) [])\<lparr> pt_Meta := cloneMeta (pt_Meta p) \<rparr>"
  let ?hi = "(Pack (pt_ID p) bd (pt_HostKeyHi p) (pt_CreatedHours p) (pt_DefaultCodec p)
       (filter (\<lambda>r. bd \<le> HostKey (u_URLKey r)) (pt_URLs p)) (filter (\<lambda>h. bd \<le> h_HostKey h) (pt_Hosts p)) [])\<lparr> pt_Meta := cloneMeta (pt_Meta p) \<rparr>"
  have "\<exists>q. rebaseArena ?lo (pt_Strings p) = Some q \<and> rebased (pt_Strings p) ?lo q \<and> part_fits q"
    by (rule rebase_selection [OF assms(1)]) (simp_all add: Pack_def)
  then obtain lo where lo: "rebaseArena ?lo (pt_Strings p) = Some lo" "rebased (pt_Strings p) ?lo lo" "part_fits lo" by blast
  have "\<exists>q. rebaseArena ?hi (pt_Strings p) = Some q \<and> rebased (pt_Strings p) ?hi q \<and> part_fits q"
    by (rule rebase_selection [OF assms(1)]) (simp_all add: Pack_def)
  then obtain hi where hi: "rebaseArena ?hi (pt_Strings p) = Some hi" "rebased (pt_Strings p) ?hi hi" "part_fits hi" by blast
  note cu = Search_filter [OF sorted_HostKeys [OF assms(2) [unfolded sortedURLs_iff]], of bd]
  note ch = Search_filter [OF assms(3) [unfolded sortedHosts_iff], of bd]
  have "Split_at p bd = Some (lo, hi)"
    using lo(1) hi(1) by (simp add: Split_at_def Let_def cu ch)
  with lo hi show ?thesis by blast
qed

lemma rebased_fields:
  assumes "rebased src dst q"
  shows "url_views q = map (url_view src) (pt_URLs dst)" "host_views q = map (host_view src) (pt_Hosts dst)"
    "map u_URLKey (pt_URLs q) = map u_URLKey (pt_URLs dst)" "map h_HostKey (pt_Hosts q) = map h_HostKey (pt_Hosts dst)"
    "pt_HostKeyLo q = pt_HostKeyLo dst" "pt_HostKeyHi q = pt_HostKeyHi dst" "pt_ID q = pt_ID dst"
  using assms by (auto simp: rebased_def)

lemma view_filter:
  "filter (\<lambda>v. m (HostKey (u_URLKey (fst v)))) (map (url_view a) us) = map (url_view a) (filter (\<lambda>r. m (HostKey (u_URLKey r))) us)"
  "filter (\<lambda>v. m (h_HostKey (fst v))) (map (host_view a) hs) = map (host_view a) (filter (\<lambda>h. m (h_HostKey h)) hs)"
  by (induction us, simp_all add: url_view_def) (induction hs, simp_all add: host_view_def)

text \<open>A sorted table is its low part followed by its high part.\<close>

lemma sorted_cut_append:
  fixes b :: "'k :: linorder"
  shows "sorted (map k rs) \<Longrightarrow> filter (\<lambda>r. k r < b) rs @ filter (\<lambda>r. b \<le> k r) rs = rs"
  using Search_filter [of k rs b] by (metis append_take_drop_id)

lemma split_bytes:
  assumes "url_views lo @ url_views hi = url_views p" "host_views lo @ host_views hi = host_views p"
  shows "part_bytes lo + part_bytes hi = part_bytes p + 1"
  unfolding part_bytes_def assms [symmetric] by simp

text \<open>C23: Splitting a sorted partition at a host key succeeds: the low half holds exactly the URLs and hosts
  below the key and the high half exactly those at or above it, each with its strings, so no host is in
  both; the two ranges meet at the key; and merging the halves, in either order, gives back the rows with
  their strings exactly as they were, under the identity and the range of the input.\<close>

theorem split_then_merge:
  assumes "part_fits p" "sortedURLs (pt_URLs p)" "sortedHosts (pt_Hosts p)" "pt_HostKeyLo p < bd" "bd \<le> pt_HostKeyHi p"
  shows "\<exists>lo hi q. Split_at p bd = Some (lo, hi) \<and> pt_HostKeyHi lo + 1 = bd \<and> pt_HostKeyLo hi = bd
     \<and> url_views lo = filter (\<lambda>v. HostKey (u_URLKey (fst v)) < bd) (url_views p)
     \<and> url_views hi = filter (\<lambda>v. bd \<le> HostKey (u_URLKey (fst v))) (url_views p)
     \<and> host_views lo = filter (\<lambda>v. h_HostKey (fst v) < bd) (host_views p)
     \<and> host_views hi = filter (\<lambda>v. bd \<le> h_HostKey (fst v)) (host_views p)
     \<and> Merge_parts lo hi = Some (Inr q) \<and> Merge_parts hi lo = Some (Inr q)
     \<and> pt_ID q = pt_ID p \<and> pt_HostKeyLo q = pt_HostKeyLo p \<and> pt_HostKeyHi q = pt_HostKeyHi p
     \<and> url_views q = url_views p \<and> host_views q = host_views p"
proof -
  let ?lo = "(Pack (pt_ID p) (pt_HostKeyLo p) (if bd = 0 then 0 else bd - 1) (pt_CreatedHours p) (pt_DefaultCodec p)
       (filter (\<lambda>r. HostKey (u_URLKey r) < bd) (pt_URLs p)) (filter (\<lambda>h. h_HostKey h < bd) (pt_Hosts p)) [])\<lparr> pt_Meta := cloneMeta (pt_Meta p) \<rparr>"
  let ?hi = "(Pack (pt_ID p) bd (pt_HostKeyHi p) (pt_CreatedHours p) (pt_DefaultCodec p)
       (filter (\<lambda>r. bd \<le> HostKey (u_URLKey r)) (pt_URLs p)) (filter (\<lambda>h. bd \<le> h_HostKey h) (pt_Hosts p)) [])\<lparr> pt_Meta := cloneMeta (pt_Meta p) \<rparr>"
  from Split_halves [OF assms(1-3), of bd] obtain lo hi where S: "Split_at p bd = Some (lo, hi)" "part_fits lo" "part_fits hi"
    "rebased (pt_Strings p) ?lo lo" "rebased (pt_Strings p) ?hi hi" by blast
  have flo: "pt_URLs ?lo = filter (\<lambda>r. HostKey (u_URLKey r) < bd) (pt_URLs p)" "pt_Hosts ?lo = filter (\<lambda>h. h_HostKey h < bd) (pt_Hosts p)"
    "pt_HostKeyLo ?lo = pt_HostKeyLo p" "pt_HostKeyHi ?lo + 1 = bd" "pt_ID ?lo = pt_ID p" using assms(4) by (auto simp: Pack_def)
  have fhi: "pt_URLs ?hi = filter (\<lambda>r. bd \<le> HostKey (u_URLKey r)) (pt_URLs p)" "pt_Hosts ?hi = filter (\<lambda>h. bd \<le> h_HostKey h) (pt_Hosts p)"
    "pt_HostKeyLo ?hi = bd" "pt_HostKeyHi ?hi = pt_HostKeyHi p" by (auto simp: Pack_def)
  note dl = rebased_fields [OF S(4), unfolded flo] and dh = rebased_fields [OF S(5), unfolded fhi]
  have cu: "filter (\<lambda>r. HostKey (u_URLKey r) < bd) (pt_URLs p) @ filter (\<lambda>r. bd \<le> HostKey (u_URLKey r)) (pt_URLs p) = pt_URLs p"
    using sorted_cut_append [OF sorted_HostKeys] assms(2) by (simp add: sortedURLs_iff)
  have ch: "filter (\<lambda>h. h_HostKey h < bd) (pt_Hosts p) @ filter (\<lambda>h. bd \<le> h_HostKey h) (pt_Hosts p) = pt_Hosts p"
    using sorted_cut_append assms(3) by (simp add: sortedHosts_iff)
  have vs: "url_views lo @ url_views hi = url_views p" "host_views lo @ host_views hi = host_views p"
    by (simp_all only: dl(1,2) dh(1,2) map_append [symmetric] cu ch url_views_def [of p] host_views_def [of p])
  have ks: "map u_URLKey (pt_URLs lo @ pt_URLs hi) = map u_URLKey (pt_URLs p)" "map h_HostKey (pt_Hosts lo @ pt_Hosts hi) = map h_HostKey (pt_Hosts p)"
    by (simp_all only: map_append dl(3,4) dh(3,4)) (simp_all only: map_append [symmetric] cu ch)
  have "sortedURLs (pt_URLs lo @ pt_URLs hi)" "sortedHosts (pt_Hosts lo @ pt_Hosts hi)"
    using assms(2,3) ks by (simp_all only: sortedURLs_iff sortedHosts_iff)
  moreover have "part_bytes lo + part_bytes hi \<le> 2 ^ 64" using split_bytes [OF vs] assms(1) by (simp add: part_fits_def)
  moreover have lt: "pt_HostKeyLo lo < pt_HostKeyLo hi" using assms(4) dl(5) dh(5) by simp
  ultimately obtain q where q: "Merge_parts lo hi = Some (Inr q)" "pt_ID q = pt_ID lo" "pt_HostKeyLo q = pt_HostKeyLo lo"
    "pt_HostKeyHi q = max (pt_HostKeyHi lo) (pt_HostKeyHi hi)" "url_views q = url_views p" "host_views q = host_views p"
    using Merge_ok [OF _ _ less_imp_le [OF lt]] S(2,3) vs by (auto simp: part_fits_def)
  have sym: "Merge_parts hi lo = Merge_parts lo hi"
    using less_not_sym [OF lt] lt by (simp add: Merge_parts_def Let_def)
  have top: "pt_HostKeyHi lo \<le> pt_HostKeyHi hi"
  proof -
    have "pt_HostKeyHi lo + 1 = bd" using dl(6) flo(4) by simp
    then have "pt_HostKeyHi lo = bd - 1" by (simp only: eq_diff_eq)
    moreover have "bd \<noteq> 0" using assms(4) by auto
    ultimately have "pt_HostKeyHi lo \<le> bd" using measure_unat [of bd] by (simp add: word_le_nat_alt)
    then show ?thesis using assms(5) dh(6) by simp
  qed
  have "url_views lo = filter (\<lambda>v. HostKey (u_URLKey (fst v)) < bd) (url_views p)"
    "url_views hi = filter (\<lambda>v. bd \<le> HostKey (u_URLKey (fst v))) (url_views p)"
    "host_views lo = filter (\<lambda>v. h_HostKey (fst v) < bd) (host_views p)"
    "host_views hi = filter (\<lambda>v. bd \<le> h_HostKey (fst v)) (host_views p)"
    by (simp_all only: dl(1,2) dh(1,2) url_views_def [of p] host_views_def [of p]
        view_filter(1) [of "\<lambda>k. k < bd"] view_filter(1) [of "\<lambda>k. bd \<le> k"]
        view_filter(2) [of "\<lambda>k. k < bd"] view_filter(2) [of "\<lambda>k. bd \<le> k"])
  moreover have "pt_HostKeyHi lo + 1 = bd" "pt_ID q = pt_ID p" "pt_HostKeyLo q = pt_HostKeyLo p" "pt_HostKeyHi q = pt_HostKeyHi p"
    using dl(5-7) dh(6) flo(4) q(2-4) top by (simp_all add: max_def)
  moreover have "Merge_parts hi lo = Some (Inr q)" using sym q(1) by simp
  ultimately show ?thesis using S(1) dh(5) q(1,5,6) by blast
qed

text \<open>Extraction is a partition of the rows: the hosts in the moving set, with their rows and strings, on
  one side and all the others on the other side, each side in the input's order.\<close>

lemma extract_views:
  assumes "part_fits p"
  shows "\<exists>out rest. Extract p moving = Some (out, rest) \<and> part_fits out \<and> part_fits rest \<and> pt_ID out = pt_ID p \<and> pt_ID rest = pt_ID p
     \<and> url_views out = filter (\<lambda>v. moving (HostKey (u_URLKey (fst v)))) (url_views p)
     \<and> host_views out = filter (\<lambda>v. moving (h_HostKey (fst v))) (host_views p)
     \<and> url_views rest = filter (\<lambda>v. \<not> moving (HostKey (u_URLKey (fst v)))) (url_views p)
     \<and> host_views rest = filter (\<lambda>v. \<not> moving (h_HostKey (fst v))) (host_views p)"
proof -
  let ?side = "\<lambda>m. hostRange ((Pack (pt_ID p) 0 0 (pt_CreatedHours p) (pt_DefaultCodec p) [] [] [])\<lparr> pt_Meta := cloneMeta (pt_Meta p),
      pt_URLs := filter (\<lambda>r. m (HostKey (u_URLKey r))) (pt_URLs p), pt_Hosts := filter (\<lambda>h. m (h_HostKey h)) (pt_Hosts p) \<rparr>)"
  have flds: "pt_URLs (?side m) = filter (\<lambda>r. m (HostKey (u_URLKey r))) (pt_URLs p)"
    "pt_Hosts (?side m) = filter (\<lambda>h. m (h_HostKey h)) (pt_Hosts p)" "pt_ID (?side m) = pt_ID p" for m
    by (simp_all add: hostRange_def Pack_def)
  have one: "\<exists>q. rebaseArena (?side m) (pt_Strings p) = Some q \<and> part_fits q \<and> pt_ID q = pt_ID p
       \<and> url_views q = filter (\<lambda>v. m (HostKey (u_URLKey (fst v)))) (url_views p)
       \<and> host_views q = filter (\<lambda>v. m (h_HostKey (fst v))) (host_views p)" for m
  proof -
    from rebase_selection [OF assms flds(1) [of m] flds(2) [of m]] obtain q where
      q: "rebaseArena (?side m) (pt_Strings p) = Some q" "rebased (pt_Strings p) (?side m) q" "part_fits q" by blast
    show ?thesis
      using q(1,3) rebased_fields(1,2,7) [OF q(2)] unfolding flds
      by (simp add: view_filter url_views_def [of p] host_views_def [of p])
  qed
  from one [of moving] one [of "\<lambda>k. \<not> moving k"] show ?thesis
    by (auto simp: Extract_def Let_def)
qed

section \<open>A small partition\<close>

definition demo_part :: Partition where
  "demo_part = Pack 4 1 9 0 0
     [(zeroURL (URLKey 2 1))\<lparr> u_URLRef := 1 \<rparr>,
      (zeroURL (URLKey 2 5))\<lparr> u_URLRef := 1, u_Status := StatusGone \<rparr>,
      (zeroURL (URLKey 7 3))\<lparr> u_URLRef := 3, u_ETagRef := 1 \<rparr>]
     [zeroHost 2, zeroHost 7] [0, 1, 97, 1, 98]"

lemma demo_part_fits: "part_fits demo_part"
proof -
  have "part_readable demo_part" by code_simp
  moreover have "part_bytes demo_part = 9" by code_simp
  ultimately show ?thesis by (simp add: part_fits_def)
qed

lemma demo_part_ok:
  "sortedURLs (pt_URLs demo_part)" "sortedHosts (pt_Hosts demo_part)" "pt_HostKeyLo demo_part < 5"
  "5 \<le> pt_HostKeyHi demo_part"
  by code_simp+

lemma compact_keeps_live_rows_witness:
  "\<exists>q. Compact demo_part = Some q \<and> pt_ID q = 4"
  using compact_keeps_live_rows [OF demo_part_fits] by (auto simp: demo_part_def Pack_def)

lemma split_then_merge_witness:
  "\<exists>lo hi. Split_at demo_part 5 = Some (lo, hi) \<and> pt_HostKeyHi lo = 4 \<and> pt_HostKeyLo hi = 5"
proof -
  from split_then_merge [OF demo_part_fits demo_part_ok] obtain lo hi where
    S: "Split_at demo_part 5 = Some (lo, hi)" "pt_HostKeyHi lo + 1 = 5" "pt_HostKeyLo hi = 5" by blast
  have "pt_HostKeyHi lo = 5 - 1" using S(2) by (simp only: eq_diff_eq)
  then have "pt_HostKeyHi lo = 4" by simp
  then show ?thesis using S(1,3) by blast
qed

end
