(* ===== verification/Frontier.thy ===== *)
theory Frontier
  imports FrontierState PartitionOps
begin

unbundle bit_operations_syntax

text \<open>
  The dispatch path and the outcome path of \<^verbatim>\<open>frontier/\<close>: promotion of parked hosts and due URLs,
  the distributor, \<^verbatim>\<open>DispatchShard\<close>, \<^verbatim>\<open>NextEligible\<close>, \<^verbatim>\<open>Report\<close> with the outcome state machine of
  \<^verbatim>\<open>state.go\<close>, robots application, rescheduling, and checkpoint and recovery.  The loops are
  \<open>partial_function\<close>s into option: \<open>None\<close> is a panic or a loop that does not end, and
  \<open>FrontierRun\<close> shows that neither happens.
\<close>

section \<open>Placing a host\<close>

definition place :: "u64 \<Rightarrow> u32 \<Rightarrow> 'w Frontier \<Rightarrow> 'w Frontier option" where
  "place hk now f = do {
     h \<leftarrow> mget (f_hosts f) hk;
     if he_back h = [] \<or> he_inFlight h then Some f
     else
       (let e = eligibleNow f h in
        if e \<le> now then do {
          rec \<leftarrow> mget (f_records f) (hd (he_back h));
          Some (f\<lparr> f_ready := bank_push (h_HostKey (he_rec h)) (u_Priority rec) (f_ready f) \<rparr>)
        }
        else Some (f\<lparr> f_wait := wait_push (h_HostKey (he_rec h)) e (f_wait f) \<rparr>))
   }"

section \<open>Promotion\<close>

partial_function (option) promote :: "u32 \<Rightarrow> 'w Frontier \<Rightarrow> 'w Frontier option" where
  "promote now f =
     (case wait_peekMin (f_wait f) of
        None \<Rightarrow> Some f
      | Some it \<Rightarrow>
          if w_eligible it > now then Some f
          else
            (case wait_popMin (f_wait f) of
               None \<Rightarrow> Some f
             | Some (_, q) \<Rightarrow>
                 (case mget (f_hosts f) (w_hostKey it) of
                    None \<Rightarrow> promote now (f\<lparr> f_wait := q \<rparr>)
                  | Some h \<Rightarrow>
                      if he_back h = [] then promote now (f\<lparr> f_wait := q \<rparr>)
                      else if eligibleNow f h > now
                      then promote now (f\<lparr> f_wait := wait_push (w_hostKey it) (eligibleNow f h) q \<rparr>)
                      else
                        (case mget (f_records f) (hd (he_back h)) of
                           None \<Rightarrow> None
                         | Some rec \<Rightarrow>
                             promote now (f\<lparr> f_wait := q,
                               f_ready := bank_push (w_hostKey it) (u_Priority rec) (f_ready f) \<rparr>)))))"

definition promote_due_key :: "'w env \<Rightarrow> u32 \<Rightarrow> URLKey \<Rightarrow> 'w Frontier \<Rightarrow> 'w Frontier option" where
  "promote_due_key E now key f =
     (case mget (f_records f) key of
        None \<Rightarrow> Some f
      | Some rec \<Rightarrow>
          if u_Status rec \<notin> {StatusCrawled, StatusScheduled, StatusDueRecrawl} then Some f
          else
            (let f1 = (if u_Status rec = StatusCrawled
                       then set_rec key (rec\<lparr> u_Status := StatusDueRecrawl \<rparr>) f else f) in
             do {
               f2 \<leftarrow> (if mget (f_hosts f1) (u_HostKey rec) = None
                     then do { u \<leftarrow> str f1 (u_URLRef rec);
                               Some (ensure_host E (u_HostKey rec) (HostOf u) 10 f1) }
                     else Some f1);
               Some (frontPush E key (u_Priority rec) (now div 3600) f2)
             }))"

fun promote_due_keys :: "'w env \<Rightarrow> u32 \<Rightarrow> URLKey list \<Rightarrow> 'w Frontier \<Rightarrow> 'w Frontier option" where
  "promote_due_keys E now [] f = Some f"
| "promote_due_keys E now (key # keys) f = do {
     f1 \<leftarrow> promote_due_key E now key f;
     promote_due_keys E now keys f1
   }"

definition promoteDue :: "'w env \<Rightarrow> u32 \<Rightarrow> 'w Frontier \<Rightarrow> 'w Frontier option" where
  "promoteDue E now f =
     (if \<not> cf_wheelOn (cfg E) then Some f
      else do {
        (keys, wheel) \<leftarrow> wheel_due (now div 3600) (f_wheel f);
        promote_due_keys E now keys (f\<lparr> f_wheel := wheel \<rparr>)
      })"

fun aged_sweep :: "u32 \<Rightarrow> frontWait list \<Rightarrow> 'w Frontier \<Rightarrow> 'w Frontier" where
  "aged_sweep nowHours [] f = f\<lparr> f_frontAge := [] \<rparr>"
| "aged_sweep nowHours (w # ws) f =
     (if nowHours < fw_enqueued w \<or> nowHours - fw_enqueued w < frontAgePromoteHours
      then f\<lparr> f_frontAge := w # ws \<rparr>
      else
        (case mget (f_records f) (fw_key w) of
           None \<Rightarrow> aged_sweep nowHours ws f
         | Some rec \<Rightarrow>
             if u_Status rec \<noteq> StatusScheduled then aged_sweep nowHours ws f
             else
               (let (moved, front) = ring_rebucket (fw_key w) (u_Priority rec) f32_one (f_front f);
                    f1 = f\<lparr> f_front := front \<rparr> in
                aged_sweep nowHours ws
                  (if moved then set_rec (fw_key w) (rec\<lparr> u_Priority := f32_one \<rparr>) f1 else f1))))"

definition promoteAged :: "u32 \<Rightarrow> 'w Frontier \<Rightarrow> 'w Frontier" where
  "promoteAged nowHours f = aged_sweep nowHours (f_frontAge f) f"

section \<open>The distributor\<close>

definition effectiveTarget :: "'w env \<Rightarrow> int" where
  "effectiveTarget E = (if cf_minActive (cfg E) > cf_target (cfg E) then cf_minActive (cfg E) else cf_target (cfg E))"

text \<open>Binding one URL, already popped from the front bank, to its host.\<close>

definition bind_url :: "URLKey \<Rightarrow> u32 \<Rightarrow> 'w Frontier \<Rightarrow> 'w Frontier option" where
  "bind_url key now f = do {
     h \<leftarrow> mget (f_hosts f) (HostKey key);
     ok \<leftarrow> (if he_robotsState h = robotsReady then allowed h key f else Some True);
     if \<not> ok then do {
       rec \<leftarrow> mget (f_records f) key;
       Some (set_rec key (rec\<lparr> u_Status := StatusExcludedRobots \<rparr>) f)
     }
     else if he_active h then Some (set_host (HostKey key) (h\<lparr> he_back := he_back h @ [key] \<rparr>) f)
     else place (HostKey key) now
            ((set_host (HostKey key) (h\<lparr> he_back := he_back h @ [key], he_active := True \<rparr>) f)
               \<lparr> f_active := f_active f + 1 \<rparr>)
   }"

partial_function (option) distribute_loop :: "int \<Rightarrow> u32 \<Rightarrow> 'w Frontier \<Rightarrow> 'w Frontier option" where
  "distribute_loop target now f =
     (case ring_pop (f_front f) of
        None \<Rightarrow> Some f
      | Some (key, front) \<Rightarrow>
          (case mget (f_hosts f) (HostKey key) of
             None \<Rightarrow> None
           | Some h \<Rightarrow>
               if \<not> he_active h \<and> f_active f \<ge> target then Some f
               else
                 (case bind_url key now (f\<lparr> f_front := front \<rparr>) of
                    None \<Rightarrow> None
                  | Some f1 \<Rightarrow> distribute_loop target now f1)))"

definition distribute :: "'w env \<Rightarrow> u32 \<Rightarrow> 'w Frontier \<Rightarrow> 'w Frontier option" where
  "distribute E now f =
     (let f1 = (if cf_bounded (cfg E) then
                  (let f0 = f\<lparr> f_sinceSweep := f_sinceSweep f + 1 \<rparr> in
                   if f_sinceSweep f0 \<ge> frontRefillBatch
                   then promoteAged (now div 3600) (f0\<lparr> f_sinceSweep := 0 \<rparr>)
                   else f0)
                else f) in
      distribute_loop (effectiveTarget E) now f1)"

section \<open>Dispatch\<close>

text \<open>The loop of \<^verbatim>\<open>DispatchShard\<close>: the next ready host of the shard whose live window is open.\<close>

partial_function (option) ready_loop :: "'w env \<Rightarrow> u32 \<Rightarrow> int \<Rightarrow> 'w Frontier \<Rightarrow> (u64 option \<times> 'w Frontier) option" where
  "ready_loop E now shard f =
     (case bank_popShard shard (f_ready f) of
        None \<Rightarrow> Some (None, f)
      | Some (hk, ready) \<Rightarrow>
          (case mget (f_hosts f) hk of
             None \<Rightarrow> None
           | Some h0 \<Rightarrow>
               (case resolveHost E h0 now f of
                  None \<Rightarrow> None
                | Some h \<Rightarrow>
                    (let f1 = set_host hk h (f\<lparr> f_ready := ready \<rparr>);
                         e = eligibleNow f1 h in
                     if e > now then ready_loop E now shard (f1\<lparr> f_wait := wait_push hk e (f_wait f1) \<rparr>)
                     else Some (Some hk, f1)))))"

definition send_robots :: "'w env \<Rightarrow> u64 \<Rightarrow> u32 \<Rightarrow> 'w Frontier \<Rightarrow> (Request option \<times> 'w Frontier) option" where
  "send_robots E hk now f = do {
     h \<leftarrow> mget (f_hosts f) hk;
     let f1 = spend E hk now (set_host hk (h\<lparr> he_robotsState := robotsPending, he_inFlight := True \<rparr>) f);
     h1 \<leftarrow> mget (f_hosts f1) hk;
     req \<leftarrow> robotsRequest E h1 f1;
     Some (Some req, f1)
   }"

definition send_url :: "'w env \<Rightarrow> u64 \<Rightarrow> u32 \<Rightarrow> 'w Frontier \<Rightarrow> (Request option \<times> 'w Frontier) option" where
  "send_url E hk now f = do {
     h \<leftarrow> mget (f_hosts f) hk;
     key \<leftarrow> (case he_back h of [] \<Rightarrow> None | k # _ \<Rightarrow> Some k);
     rec \<leftarrow> mget (f_records f) key;
     let f1 = set_rec key (rec\<lparr> u_Status := StatusInFlight \<rparr>) f;
     let f2 = spend E hk now (set_host hk (h\<lparr> he_inFlight := True \<rparr>) f1);
     u \<leftarrow> str f2 (u_URLRef rec);
     etag \<leftarrow> str f2 (u_ETagRef rec);
     h2 \<leftarrow> mget (f_hosts f2) hk;
     Some (Some \<lparr> rq_URLKey = u_URLKey rec, rq_HostKey = u_HostKey rec, rq_CanonicalURL = u,
              rq_ETag = etag, rq_LastModified = u_LastModified rec, rq_ResolvedIP = h_ResolvedIP (he_rec h2),
              rq_Depth = u_Depth rec, rq_Robots = False \<rparr>, f2)
   }"

definition DispatchShard :: "'w env \<Rightarrow> u32 \<Rightarrow> int \<Rightarrow> 'w Frontier \<Rightarrow> (Request option \<times> 'w Frontier) option" where
  "DispatchShard E now shard f = do {
     f1 \<leftarrow> promoteDue E now f;
     f2 \<leftarrow> promote now f1;
     f3 \<leftarrow> distribute E now f2;
     (hko, f4) \<leftarrow> ready_loop E now shard f3;
     case hko of
       None \<Rightarrow> Some (None, f4)
     | Some hk \<Rightarrow> do {
         h \<leftarrow> mget (f_hosts f4) hk;
         if cf_robotsOn (cfg E) \<and> needsRobots h now then send_robots E hk now f4
         else send_url E hk now f4
       }
   }"

definition Dispatch :: "'w env \<Rightarrow> u32 \<Rightarrow> 'w Frontier \<Rightarrow> (Request option \<times> 'w Frontier) option" where
  "Dispatch E now f = DispatchShard E now 0 f"

definition NextEligible :: "'w env \<Rightarrow> 'w Frontier \<Rightarrow> u32 option" where
  "NextEligible E f =
     (let best = map_option w_eligible (wait_peekMin (f_wait f)) in
      if cf_wheelOn (cfg E) then
        (case wheel_nextDue (f_wheel f) of
           None \<Rightarrow> best
         | Some dueH \<Rightarrow>
             (let t = dueH * 3600 in
              case best of None \<Rightarrow> Some t | Some b \<Rightarrow> if t < b then Some t else Some b))
      else best)"

declare promote.simps [code] distribute_loop.simps [code] ready_loop.simps [code]

section \<open>Freshness rescheduling (m4.go, freshness/allocate.go)\<close>

definition hostSpread :: "'w env \<Rightarrow> URLRecord \<Rightarrow> u32 \<Rightarrow> u32" where
  "hostSpread E rec interval =
     (let window = min (l_HostSpreadWindow (lib E)) interval in
      if window \<le> 1 then 0 else of_nat (unat (PathKey (u_URLKey rec) mod of_nat (unat window))))"

definition SetNextDue :: "'w env \<Rightarrow> rat \<Rightarrow> u32 \<Rightarrow> URLRecord \<Rightarrow> URLRecord" where
  "SetNextDue E intervalHours now rec =
     (let interval = max (word_of_int (Round intervalHours)) 1;
          due0 = u_LastCrawled rec + interval + hostSpread E rec interval;
          due = (if due0 \<le> now then now + l_MinReprobeGap (lib E) else due0) in
      rec\<lparr> u_NextDue := due, u_Status := StatusDueRecrawl \<rparr>)"

definition host_of_rec :: "URLRecord \<Rightarrow> 'w Frontier \<Rightarrow> HostRecord option" where
  "host_of_rec rec f = map_option he_rec (mget (f_hosts f) (u_HostKey rec))"

definition scheduledRate :: "'w env \<Rightarrow> 'w Frontier \<Rightarrow> rat" where
  "scheduledRate E f =
     fold (\<lambda>(k, rec) sum.
             if u_Status rec \<noteq> StatusCrawled \<and> u_Status rec \<noteq> StatusDueRecrawl then sum
             else fl64 (sum + fl64 (1 / l_TargetInterval (lib E) rec (host_of_rec rec f) (f_world f))))
       (f_records f) 0"

definition reschedule :: "'w env \<Rightarrow> URLKey \<Rightarrow> u64 option \<Rightarrow> u32 \<Rightarrow> 'w Frontier \<Rightarrow> 'w Frontier" where
  "reschedule E key hko now f =
     (let f1 = upd_rec key (\<lambda>rec. let rec1 = rec\<lparr> u_Lambda := l_Estimate (lib E) rec \<rparr> in
                  SetNextDue E (l_TargetInterval (lib E) rec1 (host_rec hko f) (f_world f)) (now div 3600) rec1) f;
          f2 = f1\<lparr> f_reschedN := f_reschedN f1 + 1 \<rparr> in
      if f_reschedN f2 \<ge> tauTickEvery
      then f2\<lparr> f_world := l_Tick (lib E) (scheduledRate E f2) (f_world f2), f_reschedN := 0 \<rparr>
      else f2)"

section \<open>Outcomes (state.go, m5.go)\<close>

fun discover_all :: "'w env \<Rightarrow> Discovery list \<Rightarrow> u32 \<Rightarrow> 'w Frontier \<Rightarrow> 'w Frontier" where
  "discover_all E [] now f = f"
| "discover_all E (d # ds) now f = discover_all E ds now (snd (Discover E d now f))"

definition spreadCash :: "'w env \<Rightarrow> URLKey \<Rightarrow> u64 option \<Rightarrow> Discovery list \<Rightarrow> u32 \<Rightarrow> 'w Frontier \<Rightarrow> 'w Frontier" where
  "spreadCash E key hko links0 now f =
     (case mget (f_records f) key of
        None \<Rightarrow> f
      | Some rec \<Rightarrow>
          (let links1 = map (\<lambda>d. d\<lparr> d_SrcHostKey := u_HostKey rec \<rparr>) links0;
               (links, w) = l_Distribute (lib E) (u_URLKey rec) links1 (f_world f);
               (locals, w') = (case l_linkSink (lib E) of None \<Rightarrow> (links, w) | Some sink \<Rightarrow> sink links w);
               f1 = f\<lparr> f_world := w' \<rparr> in
           reprice E key hko (discover_all E locals now f1)))"

text \<open>The change counters of \<^verbatim>\<open>markCrawled\<close>.\<close>

definition fold_change :: "Outcome \<Rightarrow> URLRecord \<Rightarrow> URLRecord" where
  "fold_change out rec =
     (let rec1 =
        (if u_ContentFP rec \<noteq> 0 then
           (case ClassifyChange (u_ContentFP rec) (o_ContentFP out) (u_Simhash rec) (o_Simhash out) of
              NoChange \<Rightarrow> rec\<lparr> u_NoChangeStreak := u_NoChangeStreak rec + 1 \<rparr>
            | CosmeticChange \<Rightarrow> rec\<lparr> u_NoChangeStreak := u_NoChangeStreak rec + 1 \<rparr>
            | RealChange \<Rightarrow> rec\<lparr> u_ChangeCount := u_ChangeCount rec + 1, u_NoChangeStreak := 0,
                                 u_LastChanged := o_FetchedAt out \<rparr>)
         else rec) in
      rec1\<lparr> u_ContentFP := o_ContentFP out, u_Simhash := o_Simhash out \<rparr>)"

text \<open>The part of \<^verbatim>\<open>markCrawled\<close> that writes the row: history, change counters, validators.\<close>

definition crawl_row :: "Outcome \<Rightarrow> bool \<Rightarrow> URLRecord \<Rightarrow> URLRecord" where
  "crawl_row out soft404 rec =
     (let rec1 = rec\<lparr> u_Status := StatusCrawled, u_RetryCount := 0,
                      u_FirstSeen := (if u_FirstSeen rec = 0 then o_FetchedAt out else u_FirstSeen rec),
                      u_LastCrawled := o_FetchedAt out, u_CrawlCount := u_CrawlCount rec + 1,
                      u_NextDue := o_FetchedAt out + recrawlGapHours \<rparr>;
          rec2 = (if \<not> o_NotModified out \<and> o_ContentFP out \<noteq> 0
                  then fold_change out (if soft404 then rec1\<lparr> u_Status := StatusGone \<rparr> else rec1)
                  else rec1);
          rec3 = (if o_NotModified out then rec2\<lparr> u_NoChangeStreak := u_NoChangeStreak rec2 + 1 \<rparr> else rec2) in
      if o_LastModified out \<noteq> 0 then rec3\<lparr> u_LastModified := o_LastModified out \<rparr> else rec3)"

definition markCrawled :: "'w env \<Rightarrow> URLKey \<Rightarrow> u64 option \<Rightarrow> Outcome \<Rightarrow> u32 \<Rightarrow> 'w Frontier \<Rightarrow> 'w Frontier" where
  "markCrawled E key hko out now f =
     (case mget (f_records f) key of
        None \<Rightarrow> f
      | Some rec \<Rightarrow>
          (let (soft404, sd) = (if \<not> o_NotModified out \<and> o_ContentFP out \<noteq> 0
                                then Observe (u_HostKey rec) (o_ContentFP out) (o_URLKey out) (f_soft f)
                                else (False, f_soft f));
               f1 = set_rec key (crawl_row out soft404 rec) (f\<lparr> f_soft := sd \<rparr>);
               f2 = (if o_ETag out \<noteq> []
                     then (let (ref, f2) = intern (o_ETag out) f1 in upd_rec key (\<lambda>r. r\<lparr> u_ETagRef := ref \<rparr>) f2)
                     else f1);
               f3 = (if cf_freshOn (cfg E) then reschedule E key hko now f2 else f2);
               f4 = (if cf_prioOn (cfg E) \<and> o_Links out \<noteq> [] then spreadCash E key hko (o_Links out) now f3
                     else f3) in
           case mget (f_records f4) key of
             None \<Rightarrow> f4
           | Some r4 \<Rightarrow>
               if cf_wheelOn (cfg E) \<and> u_Status r4 = StatusCrawled
               then f4\<lparr> f_wheel := wheel_add (u_URLKey r4) (u_NextDue r4) (f_wheel f4) \<rparr>
               else f4))"

definition retryBackoffHours :: "u8 \<Rightarrow> u32" where
  "retryBackoffHours retry0 =
     (let retry = (if retry0 = 0 then 1 else retry0) in
      min (push_bit (unat (retry - 1)) 1) recrawlGapHours)"

text \<open>The row part of \<^verbatim>\<open>failURL\<close>, and whether the key is queued again.\<close>

definition fail_row :: "Outcome \<Rightarrow> URLRecord \<Rightarrow> bool \<times> URLRecord" where
  "fail_row out rec =
     (let rec1 = (if u_ErrorCount rec < 0xFFFF then rec\<lparr> u_ErrorCount := u_ErrorCount rec + 1 \<rparr> else rec);
          rec2 = (if u_RetryCount rec1 < maxRetries then rec1\<lparr> u_RetryCount := u_RetryCount rec1 + 1 \<rparr> else rec1) in
      if o_HTTPStatus out = 410 \<or> u_RetryCount rec2 \<ge> maxRetries
      then (False, rec2\<lparr> u_Status := StatusGone \<rparr>)
      else (True, rec2\<lparr> u_Status := StatusScheduled,
                        u_NextDue := o_FetchedAt out + retryBackoffHours (u_RetryCount rec2) \<rparr>))"

definition failURL :: "URLKey \<Rightarrow> u64 option \<Rightarrow> Outcome \<Rightarrow> 'w Frontier \<Rightarrow> 'w Frontier" where
  "failURL key hko out f =
     (case mget (f_records f) key of
        None \<Rightarrow> f
      | Some rec \<Rightarrow>
          (let (again, rec') = fail_row out rec;
               f1 = set_rec key rec' f in
           case hko of
             None \<Rightarrow> f1
           | Some hk \<Rightarrow>
               if again then upd_host hk (\<lambda>h. h\<lparr> he_back := he_back h @ [u_URLKey rec'] \<rparr>) f1 else f1))"

definition recordRedirect :: "'w env \<Rightarrow> URLKey \<Rightarrow> Outcome \<Rightarrow> u32 \<Rightarrow> 'w Frontier \<Rightarrow> 'w Frontier option" where
  "recordRedirect E key out now f =
     (if o_RedirectTarget out = [] then Some f
      else do {
        rec \<leftarrow> mget (f_records f) key;
        base \<leftarrow> str f (u_URLRef rec);
        case l_CanonicalKey (lib E) (o_RedirectTarget out) base of
          None \<Rightarrow> Some f
        | Some (tkey, canon) \<Rightarrow>
            (let f1 = snd (Discover E \<lparr> d_URLKey = tkey, d_CanonicalURL = canon, d_Depth = u_Depth rec,
                             d_DiscoverySource = SourceRedirect, d_SrcHostKey = u_HostKey rec,
                             d_LinkWeight = u_Priority rec, d_AnchorHint = AnchorUnknown,
                             d_ObservedAt = o_FetchedAt out \<rparr> now f);
                 (ref, f2) = intern canon f1 in
             Some (upd_rec key (\<lambda>r. r\<lparr> u_RedirectRef := ref \<rparr>) f2))
      })"

section \<open>Robots outcomes (m3.go)\<close>

fun filter_back :: "hostEntry \<Rightarrow> URLKey list \<Rightarrow> 'w Frontier \<Rightarrow> (URLKey list \<times> 'w Frontier) option" where
  "filter_back h [] f = Some ([], f)"
| "filter_back h (k # ks) f = do {
     ok \<leftarrow> allowed h k f;
     if ok then do { (kept, f1) \<leftarrow> filter_back h ks f; Some (k # kept, f1) }
     else do {
       rec \<leftarrow> mget (f_records f) k;
       filter_back h ks (set_rec k (rec\<lparr> u_Status := StatusExcludedRobots \<rparr>) f)
     }
   }"

definition filterRobots :: "u64 \<Rightarrow> 'w Frontier \<Rightarrow> 'w Frontier option" where
  "filterRobots hk f = do {
     h \<leftarrow> mget (f_hosts f) hk;
     if he_robots h = None then Some f
     else do {
       (kept, f1) \<leftarrow> filter_back h (he_back h) f;
       Some (set_host hk (h\<lparr> he_back := kept \<rparr>) f1)
     }
   }"

definition robots_outcome :: "'w env \<Rightarrow> Outcome \<Rightarrow> u32 \<Rightarrow> hostEntry \<Rightarrow> hostEntry" where
  "robots_outcome E out now h =
     (let r = he_rec h in
      if o_HTTPStatus out \<ge> 200 \<and> o_HTTPStatus out < 300 then
        (let rules = Parse (l_lower (lib E)) (l_parseFloat (lib E)) (o_RobotsBody out) (cf_agent (cfg E));
             r1 = r\<lparr> h_Flags := h_Flags r AND NOT HostFlagRobotsMissing \<rparr>;
             h1 = h\<lparr> he_robots := rules, he_rec := r1 \<rparr>;
             cd = Rules_CrawlDelay rules;
             d = durToDeci cd;
             h2 = (if cd > 0 \<and> d > h_CrawlDelay r1
                   then h1\<lparr> he_rec := r1\<lparr> h_CrawlDelay := d \<rparr>, he_crawlFloor := deciToDur d \<rparr> else h1) in
         h2\<lparr> he_rec := (he_rec h2)\<lparr> h_RobotsExpiry := now div 3600 + robotsTTLHours \<rparr> \<rparr>)
      else if o_HTTPStatus out \<ge> 400 \<and> o_HTTPStatus out < 500 then
        h\<lparr> he_robots := None,
           he_rec := r\<lparr> h_Flags := h_Flags r OR HostFlagRobotsMissing,
                         h_RobotsExpiry := now div 3600 + robotsTTLHours \<rparr> \<rparr>
      else h\<lparr> he_robots := None, he_rec := r\<lparr> h_RobotsExpiry := now div 3600 + 1 \<rparr> \<rparr>)"

definition applyRobots :: "'w env \<Rightarrow> u64 \<Rightarrow> Outcome \<Rightarrow> u32 \<Rightarrow> 'w Frontier \<Rightarrow> 'w Frontier option" where
  "applyRobots E hk out now f = do {
     h \<leftarrow> mget (f_hosts f) hk;
     let h1 = robots_outcome E out now h;
     let h2 = h1\<lparr> he_robotsState := robotsReady, he_inFlight := False,
                  he_rec := (he_rec h1)\<lparr> h_RobotsFetched := now div 3600 \<rparr> \<rparr>;
     f1 \<leftarrow> filterRobots hk (set_host hk h2 f);
     place hk now f1
   }"

section \<open>Report\<close>

definition robots_report :: "'w env \<Rightarrow> Outcome \<Rightarrow> 'w Frontier \<Rightarrow> bool" where
  "robots_report E out f =
     (cf_robotsOn (cfg E) \<and>
      (case mget (f_hosts f) (HostKey (o_URLKey out)) of
         None \<Rightarrow> False
       | Some h \<Rightarrow> he_robotsState h = robotsPending \<and> o_URLKey out = robotsKey E (h_HostKey (he_rec h))))"

definition outcome_step :: "'w env \<Rightarrow> URLKey \<Rightarrow> u64 option \<Rightarrow> Outcome \<Rightarrow> u32 \<Rightarrow> 'w Frontier \<Rightarrow> 'w Frontier option" where
  "outcome_step E key hko out now f =
     (if cf_stateOn (cfg E) then
        (if o_NotModified out then Some (markCrawled E key hko out now f)
         else if o_RedirectTarget out \<noteq> [] \<or> (o_HTTPStatus out \<ge> 300 \<and> o_HTTPStatus out < 400)
         then do { f1 \<leftarrow> recordRedirect E key out now f; Some (markCrawled E key hko out now f1) }
         else if o_Retryable out \<or> (o_HTTPStatus out \<ge> 400 \<and> o_HTTPStatus out \<le> 599)
         then Some (failURL key hko out f)
         else Some (markCrawled E key hko out now f))
      else Some (markCrawled E key hko out now f))"

definition Report :: "'w env \<Rightarrow> Outcome \<Rightarrow> u32 \<Rightarrow> 'w Frontier \<Rightarrow> 'w Frontier option" where
  "Report E out now f =
     (if robots_report E out f then applyRobots E (HostKey (o_URLKey out)) out now f
      else
        (case mget (f_records f) (o_URLKey out) of
           None \<Rightarrow> Some f
         | Some rec \<Rightarrow>
             (let hk = u_HostKey rec;
                  hko = (if mget (f_hosts f) hk = None then None else Some hk);
                  f1 = upd_host hk (\<lambda>h. case he_back h of
                                          k # ks \<Rightarrow> if k = o_URLKey out then h\<lparr> he_back := ks \<rparr> else h
                                        | [] \<Rightarrow> h) f;
                  f2 = upd_rec (o_URLKey out) (\<lambda>r. r\<lparr> u_HTTPStatus := o_HTTPStatus out \<rparr>) f1 in
              do {
                f3 \<leftarrow> outcome_step E (o_URLKey out) hko out now f2;
                case hko of
                  None \<Rightarrow> Some f3
                | Some hk \<Rightarrow> do {
                    h \<leftarrow> mget (f_hosts f3) hk;
                    let h1 = (adapt E out h)\<lparr> he_inFlight := False \<rparr>;
                    if he_back h1 = [] then
                      Some ((set_host hk (h1\<lparr> he_active := False \<rparr>) f3)\<lparr> f_active := f_active f3 - 1 \<rparr>)
                    else place hk now (set_host hk h1 f3)
                  }
              })))"

section \<open>Checkpoint and recovery\<close>

definition Checkpoint :: "'w env \<Rightarrow> 'w Frontier \<Rightarrow> Partition" where
  "Checkpoint E f =
     (let urls = sort_key u_URLKey (map snd (f_records f));
          hosts = sort_key h_HostKey (map (\<lambda>(hk, h). he_rec h) (f_hosts f));
          (lo, hi) = (if hosts \<noteq> [] then (h_HostKey (hosts ! 0), h_HostKey (last hosts)) else (0, -1)) in
      \<lparr> pt_ID = f_id f, pt_HostKeyLo = lo, pt_HostKeyHi = hi, pt_CreatedHours = f_created f,
        pt_DefaultCodec = f_codec f, pt_URLs = urls, pt_Hosts = hosts, pt_Strings = f_arena f,
        pt_SeenFilter = [], pt_BuildSchedule = cf_wheelOn (cfg E), pt_MaxPageRows = 0, pt_Meta = [] \<rparr>)"

definition recover_host :: "'w env \<Rightarrow> HostRecord \<Rightarrow> 'w Frontier \<Rightarrow> 'w Frontier" where
  "recover_host E r f =
     set_host (h_HostKey r)
       \<lparr> he_rec = r, he_back = [], he_inFlight = False, he_active = False,
         he_effective = c_Default (cf_pol (cfg E)), he_crawlFloor = deciToDur (h_CrawlDelay r),
         he_robots = None, he_robotsState = robotsNone, he_ceilStreak = 0 \<rparr> f"

definition recover_url :: "'w env \<Rightarrow> URLRecord \<Rightarrow> 'w Frontier \<Rightarrow> 'w Frontier option" where
  "recover_url E rec f =
     (let r = (if u_Status rec = StatusInFlight then rec\<lparr> u_Status := StatusScheduled \<rparr> else rec);
          f1 = set_rec (u_URLKey r) r f;
          f2 = f1\<lparr> f_seen := Insert (u_URLKey r) (f_seen f1) \<rparr> in
      if u_Status r \<in> {StatusScheduled, StatusReady, StatusDueRecrawl} then do {
        f3 \<leftarrow> (if mget (f_hosts f2) (u_HostKey r) = None
              then do { u \<leftarrow> str f2 (u_URLRef r); Some (ensure_host E (u_HostKey r) (HostOf u) 10 f2) }
              else Some f2);
        Some (frontPush E (u_URLKey r) (u_Priority r) (u_FirstSeen r) f3)
      }
      else if u_Status r = StatusCrawled \<and> cf_wheelOn (cfg E) \<and> u_NextDue r > 0
      then Some (f2\<lparr> f_wheel := wheel_add (u_URLKey r) (u_NextDue r) (f_wheel f2) \<rparr>)
      else Some f2)"

fun recover_urls :: "'w env \<Rightarrow> URLRecord list \<Rightarrow> 'w Frontier \<Rightarrow> 'w Frontier option" where
  "recover_urls E [] f = Some f"
| "recover_urls E (r # rs) f = do { f1 \<leftarrow> recover_url E r f; recover_urls E rs f1 }"

definition Recover :: "(rat \<Rightarrow> rat) \<Rightarrow> 'w env \<Rightarrow> Partition \<Rightarrow> 'w \<Rightarrow> 'w Frontier option" where
  "Recover logf E p w =
     (let f0 = (New logf E (pt_ID p) (pt_CreatedHours p) w)
                 \<lparr> f_codec := pt_DefaultCodec p, f_arena := pt_Strings p \<rparr>;
          f1 = fold (recover_host E) (pt_Hosts p) f0 in
      recover_urls E (pt_URLs p) f1)"

section \<open>Counters and reports\<close>

definition Frontier_Len :: "'w Frontier \<Rightarrow> nat" where
  "Frontier_Len f = length (f_records f)"

definition Pending :: "'w Frontier \<Rightarrow> int" where
  "Pending f = ring_n (f_front f) + (\<Sum>(hk, h)\<leftarrow>f_hosts f. int (length (he_back h)))"

record DueURL =
  du_Key :: URLKey
  du_URL :: string
  du_NextDue :: u32

definition not_schedulable :: "URLStatus \<Rightarrow> bool" where
  "not_schedulable s \<longleftrightarrow> s \<in> {StatusGone, StatusExcludedRobots, StatusTrapped, StatusInFlight}"

fun due_rows :: "u32 \<Rightarrow> u64 \<Rightarrow> (URLKey \<times> URLRecord) list \<Rightarrow> 'w Frontier \<Rightarrow> DueURL list option" where
  "due_rows before host [] f = Some []"
| "due_rows before host ((key, r) # rs) f =
     (if (host \<noteq> 0 \<and> u_HostKey r \<noteq> host) \<or> not_schedulable (u_Status r) \<or> u_NextDue r > before
      then due_rows before host rs f
      else do {
        u \<leftarrow> str f (u_URLRef r);
        rest \<leftarrow> due_rows before host rs f;
        Some (\<lparr> du_Key = key, du_URL = u, du_NextDue = u_NextDue r \<rparr> # rest)
      })"

definition DueURLs :: "u32 \<Rightarrow> u64 \<Rightarrow> int \<Rightarrow> 'w Frontier \<Rightarrow> DueURL list option" where
  "DueURLs before host limit f = do {
     rows \<leftarrow> due_rows before host (f_records f) f;
     let out = sort_key du_NextDue (sort_key du_Key rows);
     Some (if limit > 0 \<and> int (length out) > limit then take (nat limit) out else out)
   }"

record Stats =
  st_URLs :: nat
  st_Hosts :: nat
  st_Pending :: int
  st_Due :: nat
  st_ByStatus :: "(URLStatus, nat) gomap"
  st_SeenKeys :: nat
  st_SeenBitsPerURL :: rat
  st_NextDueHours :: u32

definition FrontierStats :: "'w env \<Rightarrow> u32 \<Rightarrow> 'w Frontier \<Rightarrow> Stats" where
  "FrontierStats E now f =
     \<lparr> st_URLs = length (f_records f), st_Hosts = length (f_hosts f), st_Pending = Pending f,
       st_Due = length (filter (\<lambda>(k, r). \<not> not_schedulable (u_Status r) \<and> u_NextDue r \<le> now) (f_records f)),
       st_ByStatus = fold (\<lambda>(k, r) m. mput (u_Status r)
                            (case mget m (u_Status r) of None \<Rightarrow> 1 | Some n \<Rightarrow> Suc n) m) (f_records f) [],
       st_SeenKeys = SeenSet_Len (f_seen f), st_SeenBitsPerURL = BitsPerURL (f_seen f),
       st_NextDueHours = (case NextEligible E f of Some t \<Rightarrow> t | None \<Rightarrow> 0) \<rparr>"

end
