(* ===== verification/FrontierBase.thy ===== *)
theory FrontierBase
  imports Frontier
begin

text \<open>
  The invariant of the frontier and its preservation by the primitive steps the operations are made
  of: rows, hosts, the arena, the front bank, the wheel.  A host is in at most one pool and never
  while a fetch of it is in flight, the active counter is exact, the seen-set is the set of rows.
  \<open>FrontierIntake\<close> and \<open>FrontierRun\<close> build the operations from these.
\<close>

section \<open>Row access\<close>

abbreviation recs :: "'w Frontier \<Rightarrow> URLKey \<Rightarrow> URLRecord option" where
  "recs f k \<equiv> mget (f_records f) k"

abbreviation hosts :: "'w Frontier \<Rightarrow> u64 \<Rightarrow> hostEntry option" where
  "hosts f hk \<equiv> mget (f_hosts f) hk"

lemma recs_set_rec [simp]: "recs (set_rec k r f) k' = (if k' = k then Some r else recs f k')"
  by (simp add: set_rec_def map_of_mput)

lemma hosts_set_host [simp]: "hosts (set_host hk h f) hk' = (if hk' = hk then Some h else hosts f hk')"
  by (simp add: set_host_def map_of_mput)

lemma set_rec_fields [simp]:
  "f_hosts (set_rec k r f) = f_hosts f" "f_arena (set_rec k r f) = f_arena f"
  "f_seen (set_rec k r f) = f_seen f" "f_front (set_rec k r f) = f_front f"
  "f_ready (set_rec k r f) = f_ready f" "f_wait (set_rec k r f) = f_wait f"
  "f_active (set_rec k r f) = f_active f" "f_wheel (set_rec k r f) = f_wheel f"
  "f_ips (set_rec k r f) = f_ips f" "f_world (set_rec k r f) = f_world f"
  by (simp_all add: set_rec_def)

lemma set_host_fields [simp]:
  "f_records (set_host k r f) = f_records f" "f_arena (set_host k r f) = f_arena f"
  "f_seen (set_host k r f) = f_seen f" "f_front (set_host k r f) = f_front f"
  "f_ready (set_host k r f) = f_ready f" "f_wait (set_host k r f) = f_wait f"
  "f_active (set_host k r f) = f_active f" "f_wheel (set_host k r f) = f_wheel f"
  "f_ips (set_host k r f) = f_ips f" "f_world (set_host k r f) = f_world f"
  by (simp_all add: set_host_def)

section \<open>The invariant\<close>

text \<open>How often a host is in the ready bank or the wait heap.\<close>

definition pooled :: "'w Frontier \<Rightarrow> u64 \<Rightarrow> nat" where
  "pooled f hk = count (bank_elems (f_ready f)) hk + count (image_mset w_hostKey (mset (f_wait f))) hk"

text \<open>A reference is the none sentinel or the offset of an interned span.\<close>

definition ref_ok :: "arena \<Rightarrow> u64 \<Rightarrow> bool" where
  "ref_ok a off \<longleftrightarrow> off = 0 \<or> (\<exists>bs. span_at a off bs)"

definition small :: "'w Frontier \<Rightarrow> bool" where
  "small f \<longleftrightarrow> length (f_arena f) < 2 ^ 64"

definition rec_ok :: "'w Frontier \<Rightarrow> URLKey \<Rightarrow> URLRecord \<Rightarrow> bool" where
  "rec_ok f k r \<longleftrightarrow> u_URLKey r = k \<and> u_HostKey r = HostKey k \<and> hosts f (HostKey k) \<noteq> None
     \<and> (small f \<longrightarrow> ref_ok (f_arena f) (u_URLRef r) \<and> ref_ok (f_arena f) (u_ETagRef r))"

definition host_ok :: "'w env \<Rightarrow> 'w Frontier \<Rightarrow> u64 \<Rightarrow> hostEntry \<Rightarrow> bool" where
  "host_ok E f hk h \<longleftrightarrow> h_HostKey (he_rec h) = hk
     \<and> (\<forall>k \<in> set (he_back h). HostKey k = hk \<and> recs f k \<noteq> None)
     \<and> (\<not> he_active h \<longrightarrow> he_back h = [] \<and> \<not> he_inFlight h)
     \<and> (he_robotsState h = robotsPending \<longrightarrow> he_inFlight h)
     \<and> (he_robotsState h \<noteq> robotsNone \<longrightarrow> cf_robotsOn (cfg E))
     \<and> (small f \<longrightarrow> ref_ok (f_arena f) (h_HostRef (he_rec h)))"

text \<open>The pools: a pooled host has work and no fetch in flight; without robots every idle active host
  is pooled.\<close>

definition pool_ok :: "'w env \<Rightarrow> 'w Frontier \<Rightarrow> u64 \<Rightarrow> hostEntry \<Rightarrow> bool" where
  "pool_ok E f hk h \<longleftrightarrow> pooled f hk \<le> 1
     \<and> (pooled f hk = 1 \<longrightarrow> \<not> he_inFlight h \<and> he_back h \<noteq> [])
     \<and> (\<not> cf_robotsOn (cfg E) \<and> he_active h \<and> \<not> he_inFlight h \<longrightarrow> pooled f hk = 1)"

definition active_hosts :: "'w Frontier \<Rightarrow> u64 set" where
  "active_hosts f = {hk. \<exists>h. hosts f hk = Some h \<and> he_active h}"

text \<open>The invariant of rows, hosts and queues, with the keys in \<open>K\<close> already in the seen-set and their
  rows still to come, and the pool condition suspended for the hosts in \<open>X\<close>, the ones an operation
  is about to place.\<close>

definition base_okS :: "'w env \<Rightarrow> URLKey set \<Rightarrow> 'w Frontier \<Rightarrow> bool" where
  "base_okS E K f \<longleftrightarrow>
     (distinct (map fst (f_records f)) \<and> distinct (map fst (f_hosts f)))
     \<and> (ring_wf (f_front f) \<and> bank_wf (f_ready f) \<and> heap_inv wait_less (f_wait f) \<and> wheel_wf (f_wheel f))
     \<and> f_arena f \<noteq> []
     \<and> (\<forall>k r. recs f k = Some r \<longrightarrow> rec_ok f k r)
     \<and> (\<forall>hk h. hosts f hk = Some h \<longrightarrow> host_ok E f hk h)
     \<and> (\<forall>k \<in># ring_elems (f_front f). recs f k \<noteq> None)
     \<and> f_active f = int (card (active_hosts f))
     \<and> seen_wf (f_seen f) \<and> seen_abs (f_seen f) = {k. recs f k \<noteq> None} \<union> K"

definition pools_ok :: "'w env \<Rightarrow> u64 set \<Rightarrow> 'w Frontier \<Rightarrow> bool" where
  "pools_ok E X f \<longleftrightarrow>
     (\<forall>hk h. hk \<notin> X \<longrightarrow> hosts f hk = Some h \<longrightarrow> pool_ok E f hk h)
     \<and> (\<forall>hk. hosts f hk = None \<longrightarrow> pooled f hk = 0)
     \<and> (\<forall>hk \<in> X. pooled f hk = 0)"

definition inv :: "'w env \<Rightarrow> 'w Frontier \<Rightarrow> bool" where
  "inv E f \<longleftrightarrow> base_okS E {} f \<and> pools_ok E {} f"

section \<open>Frames\<close>

text \<open>What no operation undoes: the arena only grows, rows and hosts stay.\<close>

definition extends :: "'w Frontier \<Rightarrow> 'w Frontier \<Rightarrow> bool" where
  "extends f f' \<longleftrightarrow> (\<exists>x. f_arena f' = f_arena f @ x)"

lemma extends_refl [simp]: "extends f f"
  by (simp add: extends_def)

lemma extends_trans: "extends f g \<Longrightarrow> extends g h \<Longrightarrow> extends f h"
  unfolding extends_def by (metis append_assoc)

lemma small_extends: "extends f f' \<Longrightarrow> small f' \<Longrightarrow> small f"
  by (auto simp: extends_def small_def)

lemma ref_ok_append: "ref_ok a off \<Longrightarrow> ref_ok (a @ x) off"
  unfolding ref_ok_def using span_at_append by blast

lemma ref_ok_extends: "extends f f' \<Longrightarrow> ref_ok (f_arena f) off \<Longrightarrow> ref_ok (f_arena f') off"
  by (auto simp: extends_def ref_ok_append)

lemma str_ok:
  assumes "small f" "ref_ok (f_arena f) off"
  shows "\<exists>s. str f off = Some s"
proof (cases "off = 0")
  case True
  then show ?thesis by (simp add: str_def arena_str_def)
next
  case False
  then obtain bs where "span_at (f_arena f) off bs" using assms(2) by (auto simp: ref_ok_def)
  then have "arenaRead (f_arena f) off = Inr (Some bs)"
    using assms(1) by (simp add: span_at_read small_def)
  then show ?thesis by (simp add: str_def arena_str_read)
qed

text \<open>The condition on a row depends on the arena and the host map only, that on a host on the arena
  and the row map only; both survive growth.\<close>

lemma rec_ok_mono:
  assumes "rec_ok f k r" "extends f f'" "hosts f' (HostKey k) \<noteq> None"
  shows "rec_ok f' k r"
  using assms ref_ok_extends [OF assms(2)] small_extends [OF assms(2)] by (auto simp: rec_ok_def)

lemma host_ok_mono:
  assumes "host_ok E f hk h" "extends f f'" "\<forall>k \<in> set (he_back h). recs f k \<noteq> None \<longrightarrow> recs f' k \<noteq> None"
  shows "host_ok E f' hk h"
  using assms ref_ok_extends [OF assms(2)] small_extends [OF assms(2)] by (auto simp: host_ok_def)

lemma pooled_cong: "f_ready f' = f_ready f \<Longrightarrow> f_wait f' = f_wait f \<Longrightarrow> pooled f' = pooled f"
  by (intro ext) (simp add: pooled_def)

text \<open>A step that leaves the pools, the queues and the seen-set alone: rows and hosts may change
  within their shape, the arena may grow, the front bank may be reordered.\<close>

definition same_shape :: "hostEntry \<Rightarrow> hostEntry \<Rightarrow> bool" where
  "same_shape h h' \<longleftrightarrow> h_HostKey (he_rec h') = h_HostKey (he_rec h) \<and> he_back h' = he_back h
     \<and> he_active h' = he_active h \<and> he_inFlight h' = he_inFlight h
     \<and> he_robotsState h' = he_robotsState h \<and> h_HostRef (he_rec h') = h_HostRef (he_rec h)
     \<and> h_HostNextEligible (he_rec h') = h_HostNextEligible (he_rec h)"

lemma same_shape_refl [simp]: "same_shape h h"
  by (simp add: same_shape_def)

lemma same_shape_trans: "same_shape a b \<Longrightarrow> same_shape b c \<Longrightarrow> same_shape a c"
  by (simp add: same_shape_def)

definition fresh_host :: "u64 \<Rightarrow> hostEntry \<Rightarrow> bool" where
  "fresh_host hk h \<longleftrightarrow> h_HostKey (he_rec h) = hk \<and> he_back h = [] \<and> \<not> he_active h \<and> \<not> he_inFlight h
     \<and> he_robotsState h = robotsNone \<and> h_HostNextEligible (he_rec h) = 0"

text \<open>An intake step: it files rows and hosts and leaves the pools and the clocks alone.\<close>

definition intake :: "'w Frontier \<Rightarrow> 'w Frontier \<Rightarrow> bool" where
  "intake f f' \<longleftrightarrow> extends f f' \<and> f_ready f' = f_ready f \<and> f_wait f' = f_wait f \<and> f_active f' = f_active f
     \<and> f_ips f' = f_ips f
     \<and> (\<forall>k. recs f k \<noteq> None \<longrightarrow> recs f' k \<noteq> None)
     \<and> (\<forall>hk. case hosts f hk of
          Some h \<Rightarrow> (\<exists>h'. hosts f' hk = Some h' \<and> same_shape h h')
        | None \<Rightarrow> (\<forall>h'. hosts f' hk = Some h' \<longrightarrow> fresh_host hk h'))"

lemma intake_refl [simp]: "intake f f"
  by (auto simp: intake_def split: option.splits)

lemma fresh_same_shape: "fresh_host hk h \<Longrightarrow> same_shape h h' \<Longrightarrow> fresh_host hk h'"
  by (simp add: fresh_host_def same_shape_def)

lemma intake_host:
  assumes "intake f f'" "hosts f hk = Some h"
  obtains h' where "hosts f' hk = Some h'" "same_shape h h'"
  using assms by (auto simp: intake_def split: option.splits dest!: spec [of _ hk])

lemma intake_new_host:
  "intake f f' \<Longrightarrow> hosts f hk = None \<Longrightarrow> hosts f' hk = Some h \<Longrightarrow> fresh_host hk h"
  by (auto simp: intake_def split: option.splits dest!: spec [of _ hk])

lemma intake_trans:
  assumes "intake f g" "intake g h"
  shows "intake f h"
  unfolding intake_def
proof (intro conjI allI)
  fix hk
  show "case hosts f hk of Some a \<Rightarrow> (\<exists>h'. hosts h hk = Some h' \<and> same_shape a h')
        | None \<Rightarrow> (\<forall>h'. hosts h hk = Some h' \<longrightarrow> fresh_host hk h')"
  proof (cases "hosts f hk")
    case None
    have "fresh_host hk h'" if "hosts h hk = Some h'" for h'
    proof (cases "hosts g hk")
      case None
      then show ?thesis using intake_new_host [OF assms(2)] that by blast
    next
      case (Some b)
      have "fresh_host hk b" using intake_new_host [OF assms(1) None Some] .
      moreover have "same_shape b h'" using intake_host [OF assms(2) Some] that by fastforce
      ultimately show ?thesis by (rule fresh_same_shape)
    qed
    then show ?thesis using None by simp
  next
    case (Some a)
    obtain b where b: "hosts g hk = Some b" "same_shape a b" using intake_host [OF assms(1) Some] by blast
    obtain c where "hosts h hk = Some c" "same_shape b c" using intake_host [OF assms(2) b(1)] by blast
    with b Some show ?thesis by (auto intro: same_shape_trans)
  qed
qed (use assms extends_trans in \<open>auto simp: intake_def\<close>)

lemma intake_host_back:
  assumes "intake f f'" "hosts f' hk = Some h'"
  shows "fresh_host hk h' \<or> (\<exists>h. hosts f hk = Some h \<and> same_shape h h')"
  using assms intake_new_host [OF assms(1) _ assms(2)] intake_host [OF assms(1), of hk]
  by (cases "hosts f hk") auto

lemma intake_pooled: "intake f f' \<Longrightarrow> pooled f' = pooled f"
  by (rule pooled_cong) (auto simp: intake_def)

lemma intake_active: "intake f f' \<Longrightarrow> active_hosts f' = active_hosts f"
proof -
  assume i: "intake f f'"
  have "hk \<in> active_hosts f' \<longleftrightarrow> hk \<in> active_hosts f" for hk
  proof (cases "hosts f hk")
    case None
    then show ?thesis
      using intake_new_host [OF i None] by (auto simp: active_hosts_def fresh_host_def)
  next
    case (Some h)
    then obtain h' where "hosts f' hk = Some h'" "same_shape h h'" using intake_host [OF i] by blast
    then show ?thesis using Some by (auto simp: active_hosts_def same_shape_def)
  qed
  then show ?thesis by blast
qed

lemma intake_pools:
  assumes i: "intake f f'" and p: "pools_ok E X f"
  shows "pools_ok E X f'"
  unfolding pools_ok_def intake_pooled [OF i]
proof (intro conjI allI impI ballI)
  fix hk h'
  assume x: "hk \<notin> X" and h': "hosts f' hk = Some h'"
  show "pool_ok E f' hk h'"
  proof (cases "hosts f hk")
    case None
    then have "pooled f hk = 0" using p by (simp add: pools_ok_def)
    then show ?thesis
      using intake_new_host [OF i None h'] by (simp add: pool_ok_def intake_pooled [OF i] fresh_host_def)
  next
    case (Some h)
    then have "pool_ok E f hk h" using p x by (simp add: pools_ok_def)
    moreover have "same_shape h h'" using intake_host [OF i Some] h' by auto
    ultimately show ?thesis by (simp add: pool_ok_def intake_pooled [OF i] same_shape_def)
  qed
next
  fix hk
  assume "hosts f' hk = None"
  then have "hosts f hk = None" using intake_host [OF i, of hk] by (cases "hosts f hk") auto
  then show "pooled f hk = 0" using p by (simp add: pools_ok_def)
next
  fix hk assume "hk \<in> X" then show "pooled f hk = 0" using p by (simp add: pools_ok_def)
qed

section \<open>Primitive steps\<close>

lemma base_cong:
  assumes "f_records f' = f_records f" "f_hosts f' = f_hosts f" "f_arena f' = f_arena f" "f_seen f' = f_seen f"
    "f_front f' = f_front f" "f_ready f' = f_ready f" "f_wait f' = f_wait f" "f_active f' = f_active f"
    "f_wheel f' = f_wheel f"
  shows "base_okS E K f' \<longleftrightarrow> base_okS E K f"
  using assms unfolding base_okS_def rec_ok_def host_ok_def small_def active_hosts_def by simp

lemma intake_cong:
  assumes "f_records f' = f_records f" "f_hosts f' = f_hosts f" "f_arena f' = f_arena f"
    "f_ready f' = f_ready f" "f_wait f' = f_wait f" "f_active f' = f_active f" "f_ips f' = f_ips f"
  shows "intake f f'"
  using assms by (auto simp: intake_def extends_def split: option.splits)

lemma pools_cong:
  assumes "f_hosts f' = f_hosts f" "f_ready f' = f_ready f" "f_wait f' = f_wait f"
  shows "pools_ok E X f' \<longleftrightarrow> pools_ok E X f"
  using assms pooled_cong [OF assms(2,3)] by (simp add: pools_ok_def pool_ok_def)

lemma base_okD:
  assumes "base_okS E K f"
  shows "distinct (map fst (f_records f))" "distinct (map fst (f_hosts f))"
    "ring_wf (f_front f)" "bank_wf (f_ready f)" "heap_inv wait_less (f_wait f)" "wheel_wf (f_wheel f)"
    "f_arena f \<noteq> []" "\<And>k r. recs f k = Some r \<Longrightarrow> rec_ok f k r"
    "\<And>hk h. hosts f hk = Some h \<Longrightarrow> host_ok E f hk h"
    "\<And>k. k \<in># ring_elems (f_front f) \<Longrightarrow> recs f k \<noteq> None"
    "f_active f = int (card (active_hosts f))" "seen_wf (f_seen f)"
    "seen_abs (f_seen f) = {k. recs f k \<noteq> None} \<union> K"
  using assms unfolding base_okS_def by blast+

text \<open>A change of rows, hosts and arena within their shape.\<close>

lemma base_shape:
  assumes b: "base_okS E K f" and i: "intake f f'"
    and d: "distinct (map fst (f_records f'))" "distinct (map fst (f_hosts f'))"
    and q: "ring_wf (f_front f')" "wheel_wf (f_wheel f')"
    and r: "\<And>k r. recs f' k = Some r \<Longrightarrow> rec_ok f' k r"
    and h: "\<And>hk h. hosts f' hk = Some h \<Longrightarrow> small f' \<Longrightarrow> ref_ok (f_arena f') (h_HostRef (he_rec h))"
    and front: "\<And>k. k \<in># ring_elems (f_front f') \<Longrightarrow> recs f' k \<noteq> None"
    and sn: "seen_wf (f_seen f')" "seen_abs (f_seen f') = {k. recs f' k \<noteq> None} \<union> K'"
  shows "base_okS E K' f'"
proof -
  note B = base_okD [OF b]
  have host: "host_ok E f' hk h'" if h': "hosts f' hk = Some h'" for hk h'
    using intake_host_back [OF i h']
  proof
    assume "fresh_host hk h'"
    then show ?thesis using h [OF h'] by (simp add: fresh_host_def host_ok_def)
  next
    assume "\<exists>h. hosts f hk = Some h \<and> same_shape h h'"
    then obtain h where hh: "hosts f hk = Some h" "same_shape h h'" by blast
    then have "host_ok E f hk h" using B(9) by blast
    then show ?thesis
      using hh(2) i h [OF h'] unfolding host_ok_def same_shape_def intake_def by auto
  qed
  have arena: "f_arena f' \<noteq> []" using i B(7) by (auto simp: intake_def extends_def)
  have pools: "bank_wf (f_ready f')" "heap_inv wait_less (f_wait f')"
    using i B(4,5) by (auto simp: intake_def)
  have act: "f_active f' = int (card (active_hosts f'))"
    using i B(11) intake_active [OF i] by (simp add: intake_def)
  show ?thesis
    unfolding base_okS_def using d q r host front sn arena pools act by blast
qed

lemma small_same: "f_arena f' = f_arena f \<Longrightarrow> small f' \<longleftrightarrow> small f"
  by (simp add: small_def)

lemma set_rec_intake: "intake f (set_rec k r f)"
  by (auto simp: intake_def extends_def split: option.splits)

lemma set_rec_ok:
  assumes b: "base_okS E K f" and r: "rec_ok f k r" and K: "K' = K - {k}" "recs f k \<noteq> None \<or> k \<in> K"
  shows "base_okS E K' (set_rec k r f)"
proof (rule base_shape [OF b set_rec_intake])
  note B = base_okD [OF b]
  have rk: "rec_ok (set_rec k r f) k' r' \<longleftrightarrow> rec_ok f k' r'" for k' r'
    by (simp add: rec_ok_def small_def)
  show "distinct (map fst (f_records (set_rec k r f)))" using B(1) by (simp add: set_rec_def distinct_mput)
  show "rec_ok (set_rec k r f) k' r'" if "recs (set_rec k r f) k' = Some r'" for k' r'
    using that r B(8) by (auto simp: rk split: if_splits)
  show "ref_ok (f_arena (set_rec k r f)) (h_HostRef (he_rec h))"
    if "hosts (set_rec k r f) hk = Some h" "small (set_rec k r f)" for hk h
    using that B(9) [of hk h] by (simp add: host_ok_def small_def)
  show "seen_abs (f_seen (set_rec k r f)) = {k'. recs (set_rec k r f) k' \<noteq> None} \<union> K'"
    using B(13) K by auto
qed (use base_okD [OF b] in auto)

lemma upd_rec_ok:
  assumes b: "base_okS E {} f" and g: "\<And>r. recs f k = Some r \<Longrightarrow> rec_ok f k r \<Longrightarrow> rec_ok f k (g r)"
  shows "base_okS E {} (upd_rec k g f)" "intake f (upd_rec k g f)"
proof -
  show "base_okS E {} (upd_rec k g f)"
    using b g base_okD(8) [OF b] set_rec_ok [OF b, of k] by (auto simp: upd_rec_def split: option.splits)
  show "intake f (upd_rec k g f)"
    by (auto simp: upd_rec_def set_rec_intake split: option.splits)
qed

lemma set_host_intake:
  "hosts f hk = Some h \<Longrightarrow> same_shape h h' \<Longrightarrow> intake f (set_host hk h' f)"
  by (auto simp: intake_def extends_def split: option.splits)

lemma set_host_ok:
  assumes b: "base_okS E K f" and h: "hosts f hk = Some h" "same_shape h h'"
  shows "base_okS E K (set_host hk h' f)"
proof (rule base_shape [OF b set_host_intake [OF h]])
  note B = base_okD [OF b]
  show "distinct (map fst (f_hosts (set_host hk h' f)))" using B(2) by (simp add: set_host_def distinct_mput)
  show "rec_ok (set_host hk h' f) k r" if "recs (set_host hk h' f) k = Some r" for k r
    using that B(8) [of k r] by (auto simp: rec_ok_def small_def)
  show "ref_ok (f_arena (set_host hk h' f)) (h_HostRef (he_rec g))"
    if "hosts (set_host hk h' f) hk' = Some g" "small (set_host hk h' f)" for hk' g
    using that B(9) [of hk' g] B(9) [OF h(1)] h(2)
    by (auto simp: host_ok_def small_def same_shape_def split: if_splits)
qed (use base_okD [OF b] in auto)

lemma upd_host_ok:
  assumes b: "base_okS E K f" and g: "\<And>h. same_shape h (g h)"
  shows "base_okS E K (upd_host hk g f)" "intake f (upd_host hk g f)"
  using set_host_ok [OF b _ g] b set_host_intake [OF _ g, of f hk]
  by (auto simp: upd_host_def split: option.splits)

lemma intern_fields [simp]:
  "f_records (snd (intern s f)) = f_records f" "f_hosts (snd (intern s f)) = f_hosts f"
  "f_seen (snd (intern s f)) = f_seen f" "f_front (snd (intern s f)) = f_front f"
  "f_ready (snd (intern s f)) = f_ready f" "f_wait (snd (intern s f)) = f_wait f"
  "f_active (snd (intern s f)) = f_active f" "f_wheel (snd (intern s f)) = f_wheel f"
  "f_ips (snd (intern s f)) = f_ips f" "f_world (snd (intern s f)) = f_world f"
  "f_soft (snd (intern s f)) = f_soft f"
  by (simp_all add: intern_def split: prod.splits)

lemma intern_extends: "extends f (snd (intern s f))"
  by (auto simp: extends_def intern_def arena_intern_def Let_def)

lemma intern_intake: "intake f (snd (intern s f))"
  using intern_extends by (auto simp: intake_def split: option.splits)

lemma intern_ref:
  assumes "f_arena f \<noteq> []" "small (snd (intern s f))"
  shows "ref_ok (f_arena (snd (intern s f))) (fst (intern s f))"
proof -
  have "length (f_arena f) < 2 ^ 64" using assms(2) small_extends [OF intern_extends] by (auto simp: small_def)
  from span_at_intern [OF assms(1) this, of "bytes_of s"] show ?thesis
    by (auto simp: ref_ok_def intern_def arena_intern_def Let_def)
qed

lemma intern_ok:
  assumes b: "base_okS E K f"
  shows "base_okS E K (snd (intern s f))"
proof (rule base_shape [OF b intern_intake])
  note B = base_okD [OF b]
  show "rec_ok (snd (intern s f)) k r" if "recs (snd (intern s f)) k = Some r" for k r
    using that B(8) [of k r] by (intro rec_ok_mono [OF _ intern_extends]) (auto simp: rec_ok_def)
  show "ref_ok (f_arena (snd (intern s f))) (h_HostRef (he_rec h))"
    if a: "hosts (snd (intern s f)) hk = Some h" "small (snd (intern s f))" for hk h
  proof -
    have "small f" using a(2) by (rule small_extends [OF intern_extends])
    then have "ref_ok (f_arena f) (h_HostRef (he_rec h))" using B(9) [of hk h] a(1) by (simp add: host_ok_def)
    then show ?thesis by (rule ref_ok_extends [OF intern_extends])
  qed
qed (use base_okD [OF b] in auto)

lemma newHost_spec:
  assumes "newHost E hk ref name cd f = (h, f')"
  shows "fresh_host hk h" "h_HostRef (he_rec h) = ref" "f_records f' = f_records f" "f_hosts f' = f_hosts f"
    "f_arena f' = f_arena f" "f_seen f' = f_seen f" "f_front f' = f_front f" "f_ready f' = f_ready f"
    "f_wait f' = f_wait f" "f_active f' = f_active f" "f_wheel f' = f_wheel f" "f_ips f' = f_ips f"
  using assms by (auto simp: newHost_def Let_def fresh_host_def zeroHost_def split: option.splits if_splits prod.splits)

lemma ensure_host_ok:
  assumes b: "base_okS E K f"
  shows "base_okS E K (ensure_host E hk name cd f)" "intake f (ensure_host E hk name cd f)"
    "hosts (ensure_host E hk name cd f) hk \<noteq> None"
    "f_records (ensure_host E hk name cd f) = f_records f"
    "f_seen (ensure_host E hk name cd f) = f_seen f"
proof -
  let ?f = "ensure_host E hk name cd f"
  show nn: "hosts ?f hk \<noteq> None" by (auto simp: ensure_host_def Let_def split: option.splits prod.splits)
  have "base_okS E K ?f \<and> intake f ?f \<and> f_records ?f = f_records f \<and> f_seen ?f = f_seen f"
  proof (cases "hosts f hk")
    case (Some h)
    then have "?f = f" by (simp add: ensure_host_def)
    then show ?thesis using b by simp
  next
    case None
    define f1 where "f1 = snd (intern name f)"
    obtain h f2 where nh: "newHost E hk (fst (intern name f)) name cd f1 = (h, f2)" by fastforce
    have e: "?f = set_host hk h f2"
      using None nh by (simp add: ensure_host_def Let_def f1_def split_beta)
    note N = newHost_spec [OF nh]
    have b1: "base_okS E K f1" unfolding f1_def by (rule intern_ok [OF b])
    have b2: "base_okS E K f2" using b1 base_cong [OF N(3-11)] by simp
    have i2: "intake f f2"
      by (rule intake_trans [of _ f1]) (use N intern_intake [of f name] in \<open>auto simp: f1_def intro!: intake_cong\<close>)
    have none: "hosts f2 hk = None" using None N(4) by (simp add: f1_def)
    have i3: "intake f2 (set_host hk h f2)"
      using none N(1) by (auto simp: intake_def extends_def split: option.splits)
    have "base_okS E K (set_host hk h f2)"
    proof (rule base_shape [OF b2 i3])
      note B = base_okD [OF b2]
      show "distinct (map fst (f_hosts (set_host hk h f2)))" using B(2) by (simp add: set_host_def distinct_mput)
      show "rec_ok (set_host hk h f2) k r" if "recs (set_host hk h f2) k = Some r" for k r
        using that B(8) [of k r] by (auto simp: rec_ok_def small_def)
      show "ref_ok (f_arena (set_host hk h f2)) (h_HostRef (he_rec g))"
        if "hosts (set_host hk h f2) hk' = Some g" "small (set_host hk h f2)" for hk' g
        using that B(9) [of hk' g] N(2,5) intern_ref [of f name] base_okD(7) [OF b]
        by (auto simp: host_ok_def small_def f1_def split: if_splits)
    qed (use base_okD [OF b2] in auto)
    then show ?thesis using e intake_trans [OF i2 i3] N(3,6) by (simp add: f1_def)
  qed
  then show "base_okS E K ?f" "intake f ?f" "f_records ?f = f_records f" "f_seen ?f = f_seen f" by auto
qed

lemma front_ok:
  assumes b: "base_okS E K f" and w: "ring_wf r" and e: "\<And>k. k \<in># ring_elems r \<Longrightarrow> recs f k \<noteq> None"
  shows "base_okS E K (f\<lparr> f_front := r \<rparr>)" "intake f (f\<lparr> f_front := r \<rparr>)"
proof -
  show "intake f (f\<lparr> f_front := r \<rparr>)" by (rule intake_cong) auto
  then show "base_okS E K (f\<lparr> f_front := r \<rparr>)"
    by (rule base_shape [OF b])
       (use base_okD [OF b] w e in \<open>simp_all add: rec_ok_def host_ok_def small_def\<close>)
qed

lemma wheel_ok:
  assumes b: "base_okS E K f" and w: "wheel_wf r"
  shows "base_okS E K (f\<lparr> f_wheel := r \<rparr>)" "intake f (f\<lparr> f_wheel := r \<rparr>)"
proof -
  show "intake f (f\<lparr> f_wheel := r \<rparr>)" by (rule intake_cong) auto
  then show "base_okS E K (f\<lparr> f_wheel := r \<rparr>)"
    by (rule base_shape [OF b])
       (use base_okD [OF b] w in \<open>simp_all add: rec_ok_def host_ok_def small_def\<close>)
qed

lemma world_ok:
  assumes b: "base_okS E K f"
  shows "base_okS E K (f\<lparr> f_world := w \<rparr>)" "intake f (f\<lparr> f_world := w \<rparr>)"
    "base_okS E K (f\<lparr> f_soft := sd \<rparr>)" "intake f (f\<lparr> f_soft := sd \<rparr>)"
    "base_okS E K (f\<lparr> f_reschedN := n \<rparr>)" "intake f (f\<lparr> f_reschedN := n \<rparr>)"
    "base_okS E K (f\<lparr> f_frontAge := fa \<rparr>)" "intake f (f\<lparr> f_frontAge := fa \<rparr>)"
    "base_okS E K (f\<lparr> f_sinceSweep := n \<rparr>)" "intake f (f\<lparr> f_sinceSweep := n \<rparr>)"
    "base_okS E K (f\<lparr> f_importedHostScore := sc \<rparr>)" "intake f (f\<lparr> f_importedHostScore := sc \<rparr>)"
proof -
  have *: "base_okS E K f'" if "f_records f' = f_records f \<and> f_hosts f' = f_hosts f \<and> f_arena f' = f_arena f
      \<and> f_seen f' = f_seen f \<and> f_front f' = f_front f \<and> f_ready f' = f_ready f \<and> f_wait f' = f_wait f
      \<and> f_active f' = f_active f \<and> f_wheel f' = f_wheel f" for f' :: "'a Frontier"
    using base_cong [of f' f E K] that b by simp
  show "base_okS E K (f\<lparr> f_world := w \<rparr>)" "base_okS E K (f\<lparr> f_soft := sd \<rparr>)"
    "base_okS E K (f\<lparr> f_reschedN := n \<rparr>)" "base_okS E K (f\<lparr> f_frontAge := fa \<rparr>)"
    "base_okS E K (f\<lparr> f_sinceSweep := n \<rparr>)" "base_okS E K (f\<lparr> f_importedHostScore := sc \<rparr>)"
    by (rule *; simp)+
qed (rule intake_cong; simp)+

lemma frontPush_ok:
  assumes b: "base_okS E K f" and r: "recs f k \<noteq> None"
  shows "base_okS E K (frontPush E k p t f)" "intake f (frontPush E k p t f)"
proof -
  have "base_okS E K (f\<lparr> f_front := ring_push k p (f_front f) \<rparr>)"
    "intake f (f\<lparr> f_front := ring_push k p (f_front f) \<rparr>)"
    using front_ok [OF b ring_wf_push [OF base_okD(3) [OF b]], of k p] r base_okD(10) [OF b]
    by (auto simp: ring_elems_push [OF base_okD(3) [OF b]])
  then show "base_okS E K (frontPush E k p t f)" "intake f (frontPush E k p t f)"
    using world_ok(7,8) [of E K "f\<lparr> f_front := ring_push k p (f_front f) \<rparr>"]
    by (auto simp: frontPush_def Let_def intro: intake_trans)
qed

lemma schedule_ok:
  assumes b: "base_okS E K f" and r: "recs f k \<noteq> None"
  shows "base_okS E K (schedule E k rec n t f)" "intake f (schedule E k rec n t f)"
  using frontPush_ok [OF b r] wheel_ok [OF b wheel_add_wf_abs(1) [OF base_okD(6) [OF b]]]
  by (auto simp: schedule_def)

lemma reprice_ok:
  assumes b: "base_okS E {} f"
  shows "base_okS E {} (reprice E k hko f)" "intake f (reprice E k hko f)"
proof -
  have "base_okS E {} (reprice E k hko f) \<and> intake f (reprice E k hko f)"
  proof (cases "recs f k")
    case None
    then show ?thesis using b by (simp add: reprice_def)
  next
    case (Some rec)
    define pri where "pri = l_Priority (lib E) rec (host_rec hko f) (f_world f)"
    define f1 where "f1 = set_rec k (rec\<lparr> u_Priority := pri \<rparr>) f"
    have "rec_ok f k (rec\<lparr> u_Priority := pri \<rparr>)" using base_okD(8) [OF b Some] by (simp add: rec_ok_def)
    then have b1: "base_okS E {} f1" unfolding f1_def by (rule set_rec_ok [OF b]) (use Some in auto)
    have i1: "intake f f1" unfolding f1_def by (rule set_rec_intake)
    note rb = ring_rebucket_elems [OF base_okD(3) [OF b1], of "u_URLKey rec" "u_Priority rec" pri]
    have "base_okS E {} (f1\<lparr> f_front := snd (ring_rebucket (u_URLKey rec) (u_Priority rec) pri (f_front f1)) \<rparr>)"
      "intake f1 (f1\<lparr> f_front := snd (ring_rebucket (u_URLKey rec) (u_Priority rec) pri (f_front f1)) \<rparr>)"
      using front_ok [OF b1 rb(1)] rb(2) base_okD(10) [OF b1] by auto
    then show ?thesis
      using Some b1 i1 intake_trans [OF i1]
      by (auto simp: reprice_def Let_def pri_def [symmetric] f1_def [symmetric])
  qed
  then show "base_okS E {} (reprice E k hko f)" "intake f (reprice E k hko f)" by auto
qed

end
