(* ===== verification/FrontierIntake.thy ===== *)
theory FrontierIntake
  imports FrontierBase
begin

text \<open>
  Intake keeps the invariant: \<^verbatim>\<open>Seed\<close>, \<^verbatim>\<open>Discover\<close>, \<^verbatim>\<open>Warm\<close> and the signal imports are intake steps,
  and intake is idempotent: a key gets one row, however often it is delivered.
\<close>

section \<open>Deduplication\<close>

lemma seen_ok:
  assumes b: "base_okS E {} f" and s: "Seen k (f_seen f) = (dup, sn)"
  shows "dup \<longleftrightarrow> recs f k \<noteq> None"
    and "base_okS E (if dup then {} else {k}) (f\<lparr> f_seen := sn \<rparr>)"
    and "intake f (f\<lparr> f_seen := sn \<rparr>)"
proof -
  note B = base_okD [OF b]
  have v: "dup \<longleftrightarrow> k \<in> seen_abs (f_seen f)" "seen_wf sn" "seen_abs sn = insert k (seen_abs (f_seen f))"
    using seenset.seen_verdict [OF B(12), of k] seenset.seen_wf [OF B(12), of k] seenset.seen_held [OF B(12), of k] s
    by auto
  then show d: "dup \<longleftrightarrow> recs f k \<noteq> None" using B(13) by auto
  show i: "intake f (f\<lparr> f_seen := sn \<rparr>)" by (rule intake_cong) auto
  show "base_okS E (if dup then {} else {k}) (f\<lparr> f_seen := sn \<rparr>)"
    by (rule base_shape [OF b i])
       (use B v d in \<open>auto simp: rec_ok_def host_ok_def small_def\<close>)
qed

section \<open>Seed\<close>

lemma ensure_host_set_rec:
  "ensure_host E hk name cd (set_rec k r f) = set_rec k r (ensure_host E hk name cd f)"
  by (cases f) (simp add: ensure_host_def newHost_def intern_def set_rec_def set_host_def Let_def split_beta
      split: option.split)

lemma same_shape_rec:
  "h_HostKey r = h_HostKey (he_rec h) \<Longrightarrow> h_HostRef r = h_HostRef (he_rec h) \<Longrightarrow>
   h_HostNextEligible r = h_HostNextEligible (he_rec h) \<Longrightarrow> same_shape h (h\<lparr> he_rec := r \<rparr>)"
  by (simp add: same_shape_def)

lemma budget_shape [simp]: "same_shape h (h\<lparr> he_rec := UpdateHostBudget p n (he_rec h) \<rparr>)"
  by (simp add: same_shape_def UpdateHostBudget_def)

lemma count_shape [simp]:
  "same_shape h (h\<lparr> he_rec := (he_rec h)\<lparr> h_URLCount := n \<rparr> \<rparr>)"
  by (simp add: same_shape_def)

lemma trap_shape [simp]: "same_shape h (h\<lparr> he_rec := FlagTrapSuspect (he_rec h) \<rparr>)"
  by (simp add: same_shape_def FlagTrapSuspect_def)

lemma rec_okI:
  assumes "u_URLKey r = k" "u_HostKey r = HostKey k" "hosts f (HostKey k) \<noteq> None"
    "small f \<Longrightarrow> ref_ok (f_arena f) (u_URLRef r)" "small f \<Longrightarrow> ref_ok (f_arena f) (u_ETagRef r)"
  shows "rec_ok f k r"
  using assms by (simp add: rec_ok_def)

lemma ref_ok_0 [simp]: "ref_ok a 0"
  by (simp add: ref_ok_def)

lemma intake_hosts_nonempty: "intake f f' \<Longrightarrow> hosts f hk \<noteq> None \<Longrightarrow> hosts f' hk \<noteq> None"
  using intake_host [of f f' hk] by fastforce

lemma intake_extends: "intake f f' \<Longrightarrow> extends f f'"
  by (simp add: intake_def)

lemma intake_recs: "intake f f' \<Longrightarrow> recs f k \<noteq> None \<Longrightarrow> recs f' k \<noteq> None"
  by (simp add: intake_def)

lemma Seed_ok:
  assumes b: "base_okS E {} f"
  shows "base_okS E {} (Seed E url host p fs nd cd f) \<and> intake f (Seed E url host p fs nd cd f)"
proof -
  define hk where "hk = HostKeyOf (l_xxh64 (lib E)) host"
  define key where "key = URLKey hk (PathKeyOf (l_xxh64 (lib E)) (PathOf url))"
  obtain dup sn where sn: "Seen key (f_seen f) = (dup, sn)" by fastforce
  note S = seen_ok [OF b sn]
  define f1 where "f1 = f\<lparr> f_seen := sn \<rparr>"
  show ?thesis
  proof (cases dup)
    case True
    then have "Seed E url host p fs nd cd f = f1"
      using sn by (simp add: Seed_def Let_def hk_def [symmetric] key_def [symmetric] f1_def)
    then show ?thesis using S True by (simp add: f1_def)
  next
    case False
    then have b1: "base_okS E {key} f1" and i1: "intake f f1" using S by (simp_all add: f1_def)
    define f2 where "f2 = snd (intern url f1)"
    define rec where "rec = (zeroURL key)\<lparr> u_HostKey := hk, u_Status := StatusScheduled, u_Priority := p,
                      u_URLRef := fst (intern url f1), u_FirstSeen := fs, u_NextDue := nd,
                      u_DiscoverySource := SourceSeed \<rparr>"
    define g where "g = ensure_host E hk host cd f2"
    have b2: "base_okS E {key} f2" "intake f1 f2" unfolding f2_def using intern_ok [OF b1] intern_intake by auto
    note G = ensure_host_ok [OF b2(1), of hk host cd, folded g_def]
    have ref: "small g \<Longrightarrow> ref_ok (f_arena g) (fst (intern url f1))"
      using intern_ref [of f1 url] base_okD(7) [OF b1] ref_ok_extends [OF intake_extends [OF G(2)]]
        small_extends [OF intake_extends [OF G(2)]] unfolding f2_def by blast
    have hk: "HostKey key = hk" by (simp add: key_def)
    have rk: "rec_ok g key rec"
      using G(3) ref by (intro rec_okI) (auto simp: rec_def zeroURL_def hk)
    define f4 where "f4 = set_rec key rec g"
    have b4: "base_okS E {} f4" unfolding f4_def by (rule set_rec_ok [OF G(1) rk]) auto
    have i4: "intake g f4" unfolding f4_def by (rule set_rec_intake)
    define f5 where "f5 = upd_host hk (\<lambda>h. h\<lparr> he_rec := (he_rec h)\<lparr> h_URLCount := h_URLCount (he_rec h) + 1 \<rparr> \<rparr>) f4"
    note U = upd_host_ok [OF b4, of "\<lambda>h. h\<lparr> he_rec := (he_rec h)\<lparr> h_URLCount := h_URLCount (he_rec h) + 1 \<rparr> \<rparr>" hk,
        OF count_shape, folded f5_def]
    define f6 where "f6 = (if cf_prioOn (cfg E) then f5\<lparr> f_world := l_SeedCash (lib E) key p (f_world f5) \<rparr> else f5)"
    have b6: "base_okS E {} f6" "intake f5 f6" unfolding f6_def using U world_ok(1,2) [OF U(1)] by auto
    define rec' where "rec' = (if cf_prioOn (cfg E)
        then rec\<lparr> u_Priority := l_Priority (lib E) rec (host_rec (Some hk) f6) (f_world f6) \<rparr> else rec)"
    have ex: "extends g f6" "hosts f6 hk \<noteq> None"
      using intake_trans [OF i4 intake_trans [OF U(2) b6(2)]] G(3) intake_hosts_nonempty intake_extends by blast+
    have "rec_ok f6 key rec" using rec_ok_mono [OF rk ex(1)] ex(2) hk by simp
    then have rk': "rec_ok f6 key rec'" by (simp add: rec'_def rec_ok_def)
    have "recs f4 key \<noteq> None" by (simp add: f4_def)
    then have nn: "recs f6 key \<noteq> None" using intake_recs [OF intake_trans [OF U(2) b6(2)]] by blast
    define f7 where "f7 = set_rec key rec' f6"
    have b7: "base_okS E {} f7" unfolding f7_def by (rule set_rec_ok [OF b6(1) rk']) (use nn in auto)
    have i7: "intake f6 f7" unfolding f7_def by (rule set_rec_intake)
    have eq: "Seed E url host p fs nd cd f = schedule E key rec' fs fs f7"
    proof -
      have "Seed E url host p fs nd cd f =
          (let f4 = ensure_host E hk host cd (set_rec key rec f2);
               f5 = upd_host hk (\<lambda>h. h\<lparr> he_rec := (he_rec h)\<lparr> h_URLCount := h_URLCount (he_rec h) + 1 \<rparr> \<rparr>) f4;
               f6 = (if cf_prioOn (cfg E) then f5\<lparr> f_world := l_SeedCash (lib E) key p (f_world f5) \<rparr> else f5);
               rec' = (if cf_prioOn (cfg E)
                 then rec\<lparr> u_Priority := l_Priority (lib E) rec (host_rec (Some hk) f6) (f_world f6) \<rparr> else rec)
           in schedule E key rec' fs fs (set_rec key rec' f6))"
        using False sn unfolding Seed_def hk_def key_def rec_def f2_def f1_def Let_def split_beta by simp
      then show ?thesis
        unfolding Let_def f7_def rec'_def f6_def f5_def f4_def g_def ensure_host_set_rec .
    qed
    have nn7: "recs f7 key \<noteq> None" by (simp add: f7_def)
    note sc = schedule_ok [OF b7 nn7, of rec' fs fs]
    have "intake f (schedule E key rec' fs fs f7)"
      by (intro intake_trans [OF i1] intake_trans [OF b2(2)] intake_trans [OF G(2)] intake_trans [OF i4]
          intake_trans [OF U(2)] intake_trans [OF b6(2)] intake_trans [OF i7] sc(2))
    then show ?thesis using sc(1) eq by simp
  qed
qed

section \<open>Discover\<close>

lemma creditDiscovery_ok:
  assumes b: "base_okS E {} f"
  shows "base_okS E {} (creditDiscovery E d f)" "intake f (creditDiscovery E d f)"
proof -
  define g where "g = f\<lparr> f_world := snd (l_Credit (lib E) d (f_world f)) \<rparr>"
  note W = world_ok(1,2) [OF b, of "snd (l_Credit (lib E) d (f_world f))", folded g_def]
  note U = upd_host_ok [OF W(1), of "\<lambda>h. h\<lparr> he_rec := UpdateHostBudget (l_budget (lib E)) n (he_rec h) \<rparr>" for n, OF budget_shape]
  show "base_okS E {} (creditDiscovery E d f)" "intake f (creditDiscovery E d f)"
    using reprice_ok [OF U(1)] intake_trans [OF W(2) intake_trans [OF U(2)]]
    unfolding creditDiscovery_def Let_def split_beta g_def by blast+
qed

lemma discover_host_ok:
  assumes b: "base_okS E K f"
  shows "base_okS E K (discover_host E d now f)" "intake f (discover_host E d now f)"
    "hosts (discover_host E d now f) (HostKey (d_URLKey d)) \<noteq> None"
proof -
  define hk where "hk = HostKey (d_URLKey d)"
  define f2 where "f2 = ensure_host E hk (hostFromCanonical E (d_CanonicalURL d)) 10 f"
  define f3 where "f3 = (if cf_prioOn (cfg E)
      then upd_host hk (\<lambda>h. h\<lparr> he_rec := UpdateHostBudget (l_budget (lib E)) (fst (l_Credit (lib E) d (f_world f2))) (he_rec h) \<rparr>)
             (f2\<lparr> f_world := snd (l_Credit (lib E) d (f_world f2)) \<rparr>)
      else f2)"
  define sw where "sw = l_trapObserve (lib E) hk (d_URLKey d) (d_CanonicalURL d) (now div 3600) (f_world f3)"
  define f4 where "f4 = f3\<lparr> f_world := snd sw \<rparr>"
  have eq: "discover_host E d now f =
      (if fst sw then upd_host hk (\<lambda>h. h\<lparr> he_rec := FlagTrapSuspect (he_rec h) \<rparr>) f4 else f4)"
    unfolding discover_host_def Let_def split_beta hk_def f2_def f3_def sw_def f4_def by simp
  note G = ensure_host_ok [OF b, of hk "hostFromCanonical E (d_CanonicalURL d)" 10, folded f2_def]
  note W = world_ok(1,2) [OF G(1)]
  note U = upd_host_ok [OF W(1), OF budget_shape]
  have b3: "base_okS E K f3" "intake f2 f3"
    unfolding f3_def using G(1) U intake_trans [OF W(2) U(2)] by auto
  note W4 = world_ok(1,2) [OF b3(1), of "snd sw", folded f4_def]
  note T = upd_host_ok [OF W4(1), OF trap_shape]
  have i4: "intake f f4" using intake_trans [OF G(2) intake_trans [OF b3(2) W4(2)]] .
  show "base_okS E K (discover_host E d now f)" "intake f (discover_host E d now f)"
    unfolding eq using W4(1) T i4 intake_trans [OF i4 T(2)] by auto
  have "intake f2 (discover_host E d now f)"
    unfolding eq using intake_trans [OF b3(2) W4(2)] intake_trans [OF intake_trans [OF b3(2) W4(2)] T(2)] by auto
  from intake_hosts_nonempty [OF this G(3)]
  show "hosts (discover_host E d now f) (HostKey (d_URLKey d)) \<noteq> None" by (simp add: hk_def)
qed

lemma discover_rec_fields:
  "u_URLKey (discover_rec E d now f) = d_URLKey d" "u_HostKey (discover_rec E d now f) = HostKey (d_URLKey d)"
  "u_URLRef (discover_rec E d now f) = fst (intern (d_CanonicalURL d) f)" "u_ETagRef (discover_rec E d now f) = 0"
  "u_Status (discover_rec E d now f) = discover_status E d now f"
  by (simp_all add: discover_rec_def Let_def split_beta zeroURL_def)

lemma Discover_ok:
  assumes b: "base_okS E {} f"
  shows "base_okS E {} (snd (Discover E d now f)) \<and> intake f (snd (Discover E d now f))
    \<and> recs (snd (Discover E d now f)) (d_URLKey d) \<noteq> None"
proof -
  obtain dup sn where sn: "Seen (d_URLKey d) (f_seen f) = (dup, sn)" by fastforce
  note S = seen_ok [OF b sn]
  define f1 where "f1 = f\<lparr> f_seen := sn \<rparr>"
  have b1: "base_okS E (if dup then {} else {d_URLKey d}) f1" and i1: "intake f f1"
    using S by (simp_all add: f1_def)
  show ?thesis
  proof (cases dup)
    case True
    have e: "snd (Discover E d now f) = (if cf_prioOn (cfg E) \<and> recs f1 (d_URLKey d) \<noteq> None then creditDiscovery E d f1 else f1)"
      using sn True by (cases "recs f (d_URLKey d)") (simp_all add: Discover_def Let_def f1_def)
    have b1': "base_okS E {} f1" using b1 True by simp
    have i: "intake f (snd (Discover E d now f))"
      unfolding e using i1 intake_trans [OF i1 creditDiscovery_ok(2) [OF b1']] by simp
    then show ?thesis
      using e b1' creditDiscovery_ok(1) [OF b1'] intake_recs [OF i] S(1) True by auto
  next
    case False
    define f5 where "f5 = discover_host E d now f1"
    define f6 where "f6 = snd (intern (d_CanonicalURL d) f5)"
    define f7 where "f7 = set_rec (d_URLKey d) (discover_rec E d now f5) f6"
    define f8 where "f8 = upd_host (HostKey (d_URLKey d)) (\<lambda>h. h\<lparr> he_rec := (he_rec h)\<lparr> h_URLCount := h_URLCount (he_rec h) + 1 \<rparr> \<rparr>) f7"
    have e: "snd (Discover E d now f) = (if discover_status E d now f5 \<noteq> StatusScheduled then f8
       else frontPush E (d_URLKey d) (u_Priority (discover_rec E d now f5)) (now div 3600) f8)"
      using sn False unfolding Discover_def Let_def f1_def f5_def f6_def f7_def f8_def by simp
    have b1': "base_okS E {d_URLKey d} f1" using b1 False by simp
    note H = discover_host_ok [OF b1', of d now, folded f5_def]
    have b6: "base_okS E {d_URLKey d} f6" "intake f5 f6"
      unfolding f6_def using intern_ok [OF H(1)] intern_intake by auto
    have "rec_ok f6 (d_URLKey d) (discover_rec E d now f5)"
      using intern_ref [OF base_okD(7) [OF H(1)], of "d_CanonicalURL d", folded f6_def] intake_hosts_nonempty [OF b6(2) H(3)]
      by (intro rec_okI) (auto simp: discover_rec_fields)
    then have b7: "base_okS E {} f7" unfolding f7_def by (rule set_rec_ok [OF b6(1)]) auto
    have i7: "intake f6 f7" unfolding f7_def by (rule set_rec_intake)
    note U = upd_host_ok [OF b7, of "\<lambda>h. h\<lparr> he_rec := (he_rec h)\<lparr> h_URLCount := h_URLCount (he_rec h) + 1 \<rparr> \<rparr>" "HostKey (d_URLKey d)",
        OF count_shape, folded f8_def]
    have "recs f7 (d_URLKey d) \<noteq> None" by (simp add: f7_def)
    then have n8: "recs f8 (d_URLKey d) \<noteq> None" using intake_recs [OF U(2)] by blast
    note P = frontPush_ok [OF U(1) n8]
    have i8: "intake f f8"
      by (intro intake_trans [OF i1] intake_trans [OF H(2)] intake_trans [OF b6(2)] intake_trans [OF i7] U(2))
    show ?thesis
      unfolding e using U(1) i8 n8 P intake_trans [OF i8 P(2)] intake_recs [OF P(2) n8] by auto
  qed
qed

section \<open>Warm and the signal imports\<close>

lemma Warm_ok:
  assumes b: "base_okS E {} f"
  shows "base_okS E {} (Warm key etag lm pd f) \<and> intake f (Warm key etag lm pd f)"
proof (cases "recs f key")
  case None
  then show ?thesis using b by (simp add: Warm_def)
next
  case (Some rec)
  define f1 where "f1 = (if etag \<noteq> [] then snd (intern etag f) else f)"
  define rec1 where "rec1 = (if etag \<noteq> [] then rec\<lparr> u_ETagRef := fst (intern etag f) \<rparr> else rec)"
  define rec2 where "rec2 = (if lm \<noteq> 0 then rec1\<lparr> u_LastModified := lm \<rparr> else rec1)"
  define rec3 where "rec3 = (if pd \<noteq> 0 then rec2\<lparr> u_ContentFP := pd \<rparr> else rec2)"
  have e: "Warm key etag lm pd f = (if u_CrawlCount rec > 0 then f else set_rec key rec3 f1)"
    using Some by (simp add: Warm_def f1_def rec1_def rec2_def rec3_def Let_def split_beta)
  have b1: "base_okS E {} f1" "intake f f1"
    using b intern_ok [OF b] intern_intake by (auto simp: f1_def)
  have "recs f1 key = Some rec" using Some by (simp add: f1_def)
  then have "rec_ok f1 key rec1"
    using base_okD(8) [OF b1(1), of key rec] intern_ref [OF base_okD(7) [OF b], of etag]
    by (auto simp: rec1_def rec_ok_def f1_def)
  then have "rec_ok f1 key rec3" by (simp add: rec2_def rec3_def rec_ok_def)
  then have "base_okS E {} (set_rec key rec3 f1)"
    by (rule set_rec_ok [OF b1(1)]) (use Some in \<open>auto simp: f1_def\<close>)
  then show ?thesis using e b intake_trans [OF b1(2) set_rec_intake] by simp
qed

lemma ImportURLSignal_ok:
  assumes b: "base_okS E {} f"
  shows "base_okS E {} (ImportURLSignal E u f) \<and> intake f (ImportURLSignal E u f)"
  using b world_ok(1,2) [OF b] by (simp add: ImportURLSignal_def)

lemma score_shape [simp]:
  "same_shape h (h\<lparr> he_rec := (he_rec h)\<lparr> h_HostScore := s \<rparr> \<rparr>)"
  by (simp add: same_shape_def)

lemma ImportHostSignal_ok:
  assumes b: "base_okS E {} f"
  shows "base_okS E {} (ImportHostSignal s f) \<and> intake f (ImportHostSignal s f)"
  using set_host_ok [OF b _ score_shape] set_host_intake [OF _ score_shape] world_ok(11,12) [OF b]
  by (cases "hosts f (hs_HostKey s)") (auto simp: ImportHostSignal_def)

section \<open>The initial state\<close>

lemma New_ok:
  assumes "unat created + 1024 < 2 ^ 32"
  shows "inv E (New logf E pid created w)"
proof -
  have "\<not> (\<exists>h. hosts (New logf E pid created w) hk = Some h)" for hk by (simp add: New_def)
  then have a: "active_hosts (New logf E pid created w) = {}" by (auto simp: active_hosts_def)
  show ?thesis
    unfolding inv_def base_okS_def pools_ok_def
    using a assms
    by (simp add: New_def pooled_def ring_wf_new bank_wf_new wheel_wf_new newArena_def abs_simps
        seen_wf_new defaultSeenConfig_def)
qed

end
