(* ===== verification/FrontierPool.thy ===== *)
theory FrontierPool
  imports FrontierIntake
begin

text \<open>
  The dispatch path of the frontier, step by step: placing a host, promoting parked hosts and due
  URLs, the aging sweep, the distributor and the ready loop.  Each is shown to return (the loops end,
  nothing panics), to keep the invariant, and to leave the clocks of the hosts alone; a host is parked
  only behind a window that opens later.
\<close>

section \<open>Changing the pools and one host\<close>

lemma pool_fields [simp]:
  "rec_ok (f\<lparr> f_wait := q \<rparr>) = rec_ok f" "rec_ok (f\<lparr> f_ready := b \<rparr>) = rec_ok f"
  "host_ok E (f\<lparr> f_wait := q \<rparr>) = host_ok E f" "host_ok E (f\<lparr> f_ready := b \<rparr>) = host_ok E f"
  "active_hosts (f\<lparr> f_wait := q \<rparr>) = active_hosts f" "active_hosts (f\<lparr> f_ready := b \<rparr>) = active_hosts f"
  by (simp_all add: fun_eq_iff rec_ok_def host_ok_def small_def active_hosts_def)

lemma base_ready: "base_okS E K f \<Longrightarrow> bank_wf b \<Longrightarrow> base_okS E K (f\<lparr> f_ready := b \<rparr>)"
  unfolding base_okS_def by (simp del: map_of_eq_Some_iff)

lemma base_wait: "base_okS E K f \<Longrightarrow> heap_inv wait_less q \<Longrightarrow> base_okS E K (f\<lparr> f_wait := q \<rparr>)"
  unfolding base_okS_def by (simp del: map_of_eq_Some_iff)

lemma base_pool:
  "base_okS E K f \<Longrightarrow> bank_wf b \<Longrightarrow> heap_inv wait_less q \<Longrightarrow> base_okS E K (f\<lparr> f_wait := q, f_ready := b \<rparr>)"
  by (intro base_ready base_wait)

lemma base_ips [simp]: "base_okS E K (f\<lparr> f_ips := t \<rparr>) = base_okS E K f"
  by (rule base_cong) simp_all

lemma pooled_ready_push:
  assumes "base_okS E K f"
  shows "pooled (f\<lparr> f_ready := bank_push hk p (f_ready f) \<rparr>) hk' = pooled f hk' + (if hk' = hk then 1 else 0)"
  using base_okD(4) [OF assms] by (simp add: pooled_def bank_elems_push)

lemma pooled_wait_push:
  "pooled (f\<lparr> f_wait := wait_push hk e (f_wait f) \<rparr>) hk' = pooled f hk' + (if hk' = hk then 1 else 0)"
  by (simp add: pooled_def wait_push_mset)

text \<open>One host enters a pool: the condition on it holds again.\<close>

lemma pools_enter:
  assumes p: "pools_ok E {hk} f" and h: "hosts f hk = Some h" "\<not> he_inFlight h" "he_back h \<noteq> []"
    and q: "\<And>x. pooled f' x = pooled f x + (if x = hk then 1 else 0)" and e: "f_hosts f' = f_hosts f"
  shows "pools_ok E {} f'"
  unfolding pools_ok_def
proof (intro conjI allI impI ballI)
  fix x g assume g: "hosts f' x = Some g"
  show "pool_ok E f' x g"
  proof (cases "x = hk")
    case True
    then show ?thesis using p h g by (simp add: pool_ok_def q e pools_ok_def)
  next
    case False
    then have "pool_ok E f x g" using p g e by (simp add: pools_ok_def)
    then show ?thesis using False by (simp add: pool_ok_def q)
  qed
next
  fix x assume "hosts f' x = None"
  then show "pooled f' x = 0" using p h e by (cases "x = hk") (auto simp: pools_ok_def q)
qed simp

lemma pools_suspend:
  assumes "pools_ok E {} f" "hosts f hk \<noteq> None" "pooled f hk = 0"
  shows "pools_ok E {hk} f"
  using assms by (auto simp: pools_ok_def)

lemma pools_resume:
  assumes "pools_ok E {hk} f" "\<And>h. hosts f hk = Some h \<Longrightarrow> pool_ok E f hk h"
  shows "pools_ok E {} f"
  using assms unfolding pools_ok_def by (metis empty_iff singletonD)

text \<open>A host is written, in place of the one there.\<close>

lemma finite_active [simp]: "finite (active_hosts f)"
proof -
  have "active_hosts f \<subseteq> fst ` set (f_hosts f)"
    by (auto simp: active_hosts_def dest!: map_of_SomeD intro: rev_image_eqI)
  then show ?thesis by (rule finite_subset) simp
qed

lemma active_put:
  assumes "hosts f hk = Some h"
  shows "int (card (active_hosts (set_host hk h' f)))
       = int (card (active_hosts f)) + of_bool (he_active h') - of_bool (he_active h)"
proof -
  have e: "active_hosts (set_host hk h' f) = (if he_active h' then insert hk (active_hosts f) else active_hosts f - {hk})"
    by (auto simp: active_hosts_def)
  have m: "hk \<in> active_hosts f \<longleftrightarrow> he_active h" using assms by (simp add: active_hosts_def)
  have pos: "card (active_hosts f) > 0" if "hk \<in> active_hosts f"
    using that by (auto simp: card_gt_0_iff)
  have d: "card (active_hosts f - {hk}) = card (active_hosts f) - of_bool (hk \<in> active_hosts f)"
    by (simp add: card_Diff_singleton_if)
  show ?thesis
    unfolding e using m pos d by (auto simp: card_insert_if of_nat_diff)
qed

lemma put_host_ok:
  assumes b: "base_okS E K f" and h: "hosts f hk = Some h" and ok: "host_ok E f hk h'"
    and a: "a = f_active f + of_bool (he_active h') - of_bool (he_active h)"
  shows "base_okS E K ((set_host hk h' f)\<lparr> f_active := a \<rparr>)"
proof -
  note B = base_okD [OF b]
  let ?f = "(set_host hk h' f)\<lparr> f_active := a \<rparr>"
  have d: "distinct (map fst (f_hosts ?f))" using B(2) by (simp add: set_host_def distinct_mput)
  have r: "rec_ok ?f k r" if "recs ?f k = Some r" for k r
    using that B(8) [of k r] by (auto simp: rec_ok_def small_def)
  have ho: "host_ok E ?f k g" if "hosts ?f k = Some g" for k g
    using that B(9) [of k g] ok by (auto simp: host_ok_def small_def split: if_splits)
  have act: "f_active ?f = int (card (active_hosts ?f))"
    using active_put [OF h, of h'] B(11) a by (simp add: active_hosts_def)
  show ?thesis unfolding base_okS_def using d r ho act B by (auto simp del: hosts_set_host)
qed

lemma put_host_same:
  assumes "base_okS E K f" "hosts f hk = Some h" "host_ok E f hk h'" "he_active h' = he_active h"
  shows "base_okS E K (set_host hk h' f)"
  using put_host_ok [OF assms(1-3), of "f_active f"] assms(4) base_cong [of "set_host hk h' f" "(set_host hk h' f)\<lparr> f_active := f_active f \<rparr>"]
  by simp

lemma pooled_same [simp]:
  "pooled (set_host k g f) = pooled f" "pooled (f\<lparr> f_active := a \<rparr>) = pooled f" "pooled (set_rec kk r f) = pooled f"
  "pooled (f\<lparr> f_ips := t \<rparr>) = pooled f"
  by (intro ext, simp add: pooled_def)+

lemma put_host_pools:
  assumes "pools_ok E X f" "hosts f hk \<noteq> None" "hk \<in> X \<or> pool_ok E f hk h'" "f_hosts f' = f_hosts (set_host hk h' f)"
    "pooled f' = pooled f"
  shows "pools_ok E X f'"
proof -
  have g: "hosts f' x = (if x = hk then Some h' else hosts f x)" for x by (simp add: assms(4) set_host_def map_of_mput)
  have q: "pool_ok E f' = pool_ok E f" by (simp add: fun_eq_iff pool_ok_def assms(5))
  show ?thesis
    unfolding pools_ok_def assms(5) g q using assms(1-3) by (auto simp: pools_ok_def)
qed

section \<open>Frames of the dispatch path\<close>

text \<open>The steps before a request goes out leave the hosts where they are in time: no fetch begins or
  ends, no window moves.\<close>

definition host_calm :: "hostEntry \<Rightarrow> hostEntry \<Rightarrow> bool" where
  "host_calm h h' \<longleftrightarrow> he_inFlight h' = he_inFlight h \<and> h_HostNextEligible (he_rec h') = h_HostNextEligible (he_rec h)
     \<and> he_effective h' = he_effective h \<and> he_crawlFloor h' = he_crawlFloor h \<and> he_robotsState h' = he_robotsState h
     \<and> (he_active h \<longrightarrow> he_active h')"

definition calm :: "'w Frontier \<Rightarrow> 'w Frontier \<Rightarrow> bool" where
  "calm f f' \<longleftrightarrow> f_arena f' = f_arena f \<and> f_ips f' = f_ips f \<and> f_seen f' = f_seen f
     \<and> (\<forall>k. recs f k \<noteq> None \<longleftrightarrow> recs f' k \<noteq> None)
     \<and> (\<forall>hk. rel_option host_calm (hosts f hk) (hosts f' hk))"

lemma host_calm_refl [simp]: "host_calm h h" by (simp add: host_calm_def)

lemma host_calm_trans: "host_calm a b \<Longrightarrow> host_calm b c \<Longrightarrow> host_calm a c" by (simp add: host_calm_def)

lemma rel_option_trans:
  "rel_option R x y \<Longrightarrow> rel_option R y z \<Longrightarrow> (\<And>a b c. R a b \<Longrightarrow> R b c \<Longrightarrow> R a c) \<Longrightarrow> rel_option R x z"
  by (auto simp: option_rel_Some1 option_rel_Some2 elim!: option.rel_cases)

lemma calm_refl [simp]: "calm f f"
  by (auto simp: calm_def intro: option.rel_refl)

lemma calm_trans: "calm f g \<Longrightarrow> calm g h \<Longrightarrow> calm f h"
  unfolding calm_def by (auto intro: rel_option_trans host_calm_trans)

lemma calm_hosts:
  assumes "f_hosts f' = f_hosts f" "f_arena f' = f_arena f" "f_ips f' = f_ips f" "f_seen f' = f_seen f"
    "\<And>k. recs f k \<noteq> None \<longleftrightarrow> recs f' k \<noteq> None"
  shows "calm f f'"
  unfolding calm_def using assms by (auto intro: option.rel_refl)

lemma calm_put:
  assumes "hosts f hk = Some h" "host_calm h h'" "f_hosts f' = f_hosts (set_host hk h' f)" "f_arena f' = f_arena f"
    "f_ips f' = f_ips f" "f_seen f' = f_seen f" "f_records f' = f_records f"
  shows "calm f f'"
  unfolding calm_def assms(3-7) using assms(1,2) by (auto intro: option.rel_refl)

lemma calm_small: "calm f f' \<Longrightarrow> small f' \<longleftrightarrow> small f"
  by (simp add: calm_def small_def)

lemma calmD:
  assumes "calm f f'" "hosts f' hk = Some h'"
  obtains h where "hosts f hk = Some h" "host_calm h h'"
  using assms unfolding calm_def by (metis option_rel_Some2)

text \<open>Every parked host waits for a window that opens after \<open>now\<close>.\<close>

definition parked :: "u32 \<Rightarrow> 'w Frontier \<Rightarrow> bool" where
  "parked now f \<longleftrightarrow> (\<forall>it \<in> set (f_wait f). w_eligible it > now)"

section \<open>Placing a host\<close>

lemma set_wait_push: "set (wait_push hk e q) = insert \<lparr> w_hostKey = hk, w_eligible = e \<rparr> (set q)"
  using arg_cong [OF wait_push_mset [of hk e q], of set_mset] by simp

lemma place_ok:
  assumes b: "base_okS E {} f" and p: "pools_ok E {hk} f" and h: "hosts f hk = Some h"
    and w: "he_back h \<noteq> [] \<or> he_inFlight h \<or> \<not> he_active h \<or> cf_robotsOn (cfg E)"
  obtains r q where "place hk now f = Some (f\<lparr> f_wait := q, f_ready := r \<rparr>)"
    "inv E (f\<lparr> f_wait := q, f_ready := r \<rparr>)" "parked now f \<Longrightarrow> parked now (f\<lparr> f_wait := q, f_ready := r \<rparr>)"
proof -
  note B = base_okD [OF b]
  have ho: "host_ok E f hk h" using B(9) [OF h] .
  show thesis
  proof (cases "he_back h = [] \<or> he_inFlight h")
    case True
    have "pooled f hk = 0" using p by (simp add: pools_ok_def)
    then have "pools_ok E {} f"
      using True w h ho by (intro pools_resume [OF p]) (auto simp: pool_ok_def host_ok_def)
    then show thesis
      using that [of "f_ready f" "f_wait f"] True h b by (simp add: place_def inv_def)
  next
    case False
    then have hk: "h_HostKey (he_rec h) = hk" "hd (he_back h) \<in> set (he_back h)" using ho by (auto simp: host_ok_def)
    then obtain rec where rec: "recs f (hd (he_back h)) = Some rec" using ho by (auto simp: host_ok_def)
    show thesis
    proof (cases "eligibleNow f h \<le> now")
      case True
      let ?f = "f\<lparr> f_wait := f_wait f, f_ready := bank_push hk (u_Priority rec) (f_ready f) \<rparr>"
      have "place hk now f = Some ?f" using False True h rec hk by (simp add: place_def Let_def)
      moreover have "inv E ?f"
        unfolding inv_def using b B(4) False h
        by (intro conjI base_ready pools_enter [OF p h]) (auto simp: pooled_ready_push bank_wf_push)
      ultimately show thesis using that [of _ "f_wait f"] by (simp add: parked_def)
    next
      case e: False
      let ?f = "f\<lparr> f_wait := wait_push hk (eligibleNow f h) (f_wait f), f_ready := f_ready f \<rparr>"
      have "place hk now f = Some ?f" using False e h rec hk by (simp add: place_def Let_def)
      moreover have "inv E ?f"
        unfolding inv_def using b B(4,5) False h
        by (intro conjI base_pool pools_enter [OF p h]) (auto simp: pooled_wait_push wait_push_wf)
      ultimately show thesis
        using that [of "f_ready f"] e by (simp add: parked_def set_wait_push)
    qed
  qed
qed


section \<open>Promotion\<close>

text \<open>The loop condition: how many parked hosts are due.\<close>

definition due_items :: "u32 \<Rightarrow> 'w Frontier \<Rightarrow> nat" where
  "due_items now f = size (filter_mset (\<lambda>it. w_eligible it \<le> now) (mset (f_wait f)))"

lemma wait_peek_popMin: "wait_peekMin q = map_option fst (wait_popMin q)"
  by (simp add: wait_peekMin_def wait_popMin_def Let_def)

text \<open>A pop from the wait heap suspends the host it names.\<close>

lemma pooled_mem: "it \<in># mset (f_wait f) \<Longrightarrow> pooled f (w_hostKey it) > 0"
  by (auto simp: pooled_def)

lemma wait_pop_suspends:
  assumes i: "inv E f" and pop: "wait_popMin (f_wait f) = Some (it, q)"
  obtains h where "hosts f (w_hostKey it) = Some h" "he_back h \<noteq> []" "\<not> he_inFlight h"
    "base_okS E {} (f\<lparr> f_wait := q \<rparr>)" "pools_ok E {w_hostKey it} (f\<lparr> f_wait := q \<rparr>)"
proof -
  have b: "base_okS E {} f" and p: "pools_ok E {} f" using i by (auto simp: inv_def)
  note P = wait_popMin_Some [OF base_okD(5) [OF b] pop]
  let ?hk = "w_hostKey it"
  have cnt: "pooled f x = pooled (f\<lparr> f_wait := q \<rparr>) x + (if x = ?hk then 1 else 0)" for x
    using P by (simp add: pooled_def)
  have "pooled f ?hk > 0" using P by (intro pooled_mem) simp
  then obtain h where h: "hosts f ?hk = Some h" using p by (cases "hosts f ?hk") (auto simp: pools_ok_def)
  then have po: "pool_ok E f ?hk h" using p by (simp add: pools_ok_def)
  then have one: "pooled f ?hk = 1" using \<open>pooled f ?hk > 0\<close> by (simp add: pool_ok_def)
  have "pools_ok E {?hk} (f\<lparr> f_wait := q \<rparr>)"
    unfolding pools_ok_def
  proof (intro conjI allI impI ballI)
    fix x g assume "x \<notin> {?hk}" "hosts (f\<lparr> f_wait := q \<rparr>) x = Some g"
    then have "pool_ok E f x g" "x \<noteq> ?hk" using p by (auto simp: pools_ok_def)
    then show "pool_ok E (f\<lparr> f_wait := q \<rparr>) x g" using cnt [of x] by (simp add: pool_ok_def)
  next
    fix x assume "hosts (f\<lparr> f_wait := q \<rparr>) x = None"
    then show "pooled (f\<lparr> f_wait := q \<rparr>) x = 0" using p cnt [of x] by (simp add: pools_ok_def)
  next
    fix x assume "x \<in> {?hk}"
    then show "pooled (f\<lparr> f_wait := q \<rparr>) x = 0" using cnt [of x] one by simp
  qed
  then show thesis using that h po one base_wait [OF b] P by (auto simp: pool_ok_def)
qed

lemma promote_ok:
  assumes "inv E f"
  shows "\<exists>q r. promote now f = Some (f\<lparr> f_wait := q, f_ready := r \<rparr>)
    \<and> inv E (f\<lparr> f_wait := q, f_ready := r \<rparr>) \<and> parked now (f\<lparr> f_wait := q, f_ready := r \<rparr>)"
  using assms
proof (induction "due_items now f" arbitrary: f rule: less_induct)
  case less
  have b: "base_okS E {} f" using less.prems by (simp add: inv_def)
  show ?case
  proof (cases "wait_popMin (f_wait f)")
    case None
    then have "f_wait f = []" by (auto simp: wait_popMin_def Let_def split: if_splits)
    then have "promote now f = Some f \<and> parked now f"
      using None by (simp add: promote.simps wait_peek_popMin parked_def)
    then show ?thesis
      using less.prems by (intro exI [of _ "f_wait f"] exI [of _ "f_ready f"]) simp
  next
    case (Some iq)
    then obtain it q where pop: "wait_popMin (f_wait f) = Some (it, q)" by (cases iq) auto
    have peek: "wait_peekMin (f_wait f) = Some it" using pop by (simp add: wait_peek_popMin)
    show ?thesis
    proof (cases "w_eligible it > now")
      case True
      have "w_eligible x > now" if "x \<in> set (f_wait f)" for x
      proof -
        have "\<not> wait_less x it" using wait.pop_least [OF base_okD(5) [OF b] pop] that by simp
        then show ?thesis using True by (auto simp: wait_less_def split: if_splits)
      qed
      then show ?thesis
        using less.prems peek True
        by (intro exI [of _ "f_wait f"] exI [of _ "f_ready f"]) (simp add: promote.simps parked_def)
    next
      case due: False
      obtain h where h: "hosts f (w_hostKey it) = Some h" "he_back h \<noteq> []" "\<not> he_inFlight h"
        and b': "base_okS E {} (f\<lparr> f_wait := q \<rparr>)" and p': "pools_ok E {w_hostKey it} (f\<lparr> f_wait := q \<rparr>)"
        using wait_pop_suspends [OF less.prems pop] by blast
      have "hd (he_back h) \<in> set (he_back h)" using h by simp
      then obtain rec where rec: "recs f (hd (he_back h)) = Some rec"
        using base_okD(9) [OF b h(1)] by (auto simp: host_ok_def)
      note P = wait_popMin_Some [OF base_okD(5) [OF b] pop]
      define f1 where "f1 = (if eligibleNow f h > now
          then f\<lparr> f_wait := wait_push (w_hostKey it) (eligibleNow f h) q \<rparr>
          else f\<lparr> f_wait := q, f_ready := bank_push (w_hostKey it) (u_Priority rec) (f_ready f) \<rparr>)"
      have step: "promote now f = promote now f1"
        using peek pop due h rec by (subst promote.simps) (simp add: f1_def)
      have "inv E f1"
        unfolding f1_def inv_def using b' P base_okD(4) [OF b] pooled_ready_push [OF b'] h
        by (auto intro!: base_wait [OF b] base_pool [OF b] pools_enter [OF p'] wait_push_wf bank_wf_push
            simp: pooled_def wait_push_mset bank_elems_push)
      moreover have "due_items now f1 < due_items now f"
        using P due by (auto simp: due_items_def f1_def wait_push_mset)
      ultimately obtain q' r' where "promote now f1 = Some (f1\<lparr> f_wait := q', f_ready := r' \<rparr>)"
        "inv E (f1\<lparr> f_wait := q', f_ready := r' \<rparr>)" "parked now (f1\<lparr> f_wait := q', f_ready := r' \<rparr>)"
        using less.hyps by blast
      moreover have "f1\<lparr> f_wait := q', f_ready := r' \<rparr> = f\<lparr> f_wait := q', f_ready := r' \<rparr>"
        by (cases f) (simp add: f1_def)
      ultimately show ?thesis using step by auto
    qed
  qed
qed

section \<open>Due recrawls\<close>

text \<open>A step that files rows of known hosts only.\<close>

definition refile :: "'w Frontier \<Rightarrow> 'w Frontier \<Rightarrow> bool" where
  "refile f f' \<longleftrightarrow> calm f f' \<and> f_hosts f' = f_hosts f \<and> f_ready f' = f_ready f \<and> f_wait f' = f_wait f \<and> f_active f' = f_active f
     \<and> ring_elems (f_front f) \<subseteq># ring_elems (f_front f')"

lemma refile_refl [simp]: "refile f f" by (simp add: refile_def)

lemma refile_trans: "refile f g \<Longrightarrow> refile g h \<Longrightarrow> refile f h"
  unfolding refile_def by (auto intro: calm_trans subset_mset.order_trans)

lemma refile_pools: "refile f f' \<Longrightarrow> pools_ok E X f' \<longleftrightarrow> pools_ok E X f"
  by (rule pools_cong) (auto simp: refile_def)

lemma refile_parked: "refile f f' \<Longrightarrow> parked now f' \<longleftrightarrow> parked now f"
  by (simp add: refile_def parked_def)

lemma refileI:
  assumes "f_hosts f' = f_hosts f" "f_arena f' = f_arena f" "f_ips f' = f_ips f" "f_seen f' = f_seen f"
    "f_ready f' = f_ready f" "f_wait f' = f_wait f" "f_active f' = f_active f"
    "\<And>k. recs f k \<noteq> None \<longleftrightarrow> recs f' k \<noteq> None" "ring_elems (f_front f) \<subseteq># ring_elems (f_front f')"
  shows "refile f f'"
  using assms calm_hosts [OF assms(1-4,8)] by (simp add: refile_def)

lemma frontPush_refile: "base_okS E' K f \<Longrightarrow> refile f (frontPush E k p t f)"
  by (rule refileI) (simp_all add: frontPush_def Let_def ring_elems_push base_okD(3))

lemma set_rec_refile: "recs f k \<noteq> None \<Longrightarrow> refile f (set_rec k r f)"
  by (rule refileI) auto

lemma promote_due_key_ok:
  assumes b: "base_okS E {} f"
  shows "\<exists>f'. promote_due_key E now key f = Some f' \<and> base_okS E {} f' \<and> refile f f'"
proof (cases "recs f key")
  case None
  then show ?thesis using b by (simp add: promote_due_key_def)
next
  case (Some rec)
  note ok = base_okD(8) [OF b Some]
  define f1 where "f1 = (if u_Status rec = StatusCrawled then set_rec key (rec\<lparr> u_Status := StatusDueRecrawl \<rparr>) f else f)"
  have r: "rec_ok f key (rec\<lparr> u_Status := StatusDueRecrawl \<rparr>)" using ok by (simp add: rec_ok_def)
  have b1: "base_okS E {} f1" "refile f f1" "recs f1 key \<noteq> None"
    using b set_rec_ok [OF b r] Some set_rec_refile [of f key] by (auto simp: f1_def)
  have "hosts f1 (u_HostKey rec) \<noteq> None" using ok by (auto simp: f1_def rec_ok_def)
  then have "promote_due_key E now key f = Some (if u_Status rec \<notin> {StatusCrawled, StatusScheduled, StatusDueRecrawl} then f
      else frontPush E key (u_Priority rec) (now div 3600) f1)"
    using Some by (auto simp: promote_due_key_def f1_def [symmetric])
  then show ?thesis
    using b frontPush_ok(1) [OF b1(1,3)] refile_trans [OF b1(2) frontPush_refile [OF b1(1)]] by auto
qed

lemma promote_due_keys_ok:
  "base_okS E {} f \<Longrightarrow> \<exists>f'. promote_due_keys E now keys f = Some f' \<and> base_okS E {} f' \<and> refile f f'"
proof (induction keys arbitrary: f)
  case (Cons k ks)
  obtain f1 where "promote_due_key E now k f = Some f1" "base_okS E {} f1" "refile f f1"
    using promote_due_key_ok [OF Cons.prems] by blast
  then show ?case using Cons.IH [of f1] refile_trans by fastforce
qed simp

lemma hours_small: "unat ((now :: u32) div 3600) + 1025 < 2 ^ 32"
proof -
  have "unat (now div 3600) = unat now div 3600" by (simp add: unat_div)
  moreover have "unat now < 2 ^ 32" using unsigned_less [of now] by simp
  ultimately show ?thesis by simp
qed

lemma promoteDue_ok:
  assumes i: "inv E f"
  shows "\<exists>f'. promoteDue E now f = Some f' \<and> inv E f' \<and> refile f f'"
proof (cases "cf_wheelOn (cfg E)")
  case False
  then show ?thesis using i by (simp add: promoteDue_def)
next
  case True
  have b: "base_okS E {} f" and p: "pools_ok E {} f" using i by (auto simp: inv_def)
  obtain keys wheel where w: "wheel_due (now div 3600) (f_wheel f) = Some (keys, wheel)" "wheel_wf wheel"
    using due_loop_spec [OF base_okD(6) [OF b] hours_small, of now "[]"] by (auto simp: wheel_due_def)
  note b1 = wheel_ok(1) [OF b w(2)]
  obtain f' where f': "promote_due_keys E now keys (f\<lparr> f_wheel := wheel \<rparr>) = Some f'" "base_okS E {} f'"
    "refile (f\<lparr> f_wheel := wheel \<rparr>) f'"
    using promote_due_keys_ok [OF b1] by blast
  have "refile f (f\<lparr> f_wheel := wheel \<rparr>)" by (rule refileI) simp_all
  then have "refile f f'" using f'(3) by (rule refile_trans)
  then show ?thesis using True w f' p by (simp add: promoteDue_def inv_def refile_pools)
qed

section \<open>The aging sweep\<close>

lemma aged_sweep_ok:
  "base_okS E {} f \<Longrightarrow> base_okS E {} (aged_sweep n ws f) \<and> refile f (aged_sweep n ws f)
     \<and> ring_elems (f_front (aged_sweep n ws f)) = ring_elems (f_front f)"
proof (induction ws arbitrary: f)
  case Nil
  then show ?case using world_ok(7) [of E "{}" f "[]"] by (auto intro!: refileI)
next
  case (Cons w ws)
  show ?case
  proof (cases "(n < fw_enqueued w \<or> n - fw_enqueued w < frontAgePromoteHours)")
    case True
    then show ?thesis using world_ok(7) [OF Cons.prems, of "w # ws"] by (auto intro!: refileI)
  next
    case old: False
    show ?thesis
    proof (cases "recs f (fw_key w)")
      case None
      then show ?thesis using Cons old by simp
    next
      case (Some rec)
      show ?thesis
      proof (cases "u_Status rec = StatusScheduled")
        case False
        then show ?thesis using Cons old Some by simp
      next
        case True
        define mv where "mv = ring_rebucket (fw_key w) (u_Priority rec) f32_one (f_front f)"
        define f1 where "f1 = f\<lparr> f_front := snd mv \<rparr>"
        define f2 where "f2 = (if fst mv then set_rec (fw_key w) (rec\<lparr> u_Priority := f32_one \<rparr>) f1 else f1)"
        note rb = ring_rebucket_elems [OF base_okD(3) [OF Cons.prems], of "fw_key w" "u_Priority rec" f32_one, folded mv_def]
        have b1: "base_okS E {} f1"
          unfolding f1_def using front_ok(1) [OF Cons.prems rb(1)] rb(2) base_okD(10) [OF Cons.prems] by simp
        have rk: "rec_ok f1 (fw_key w) (rec\<lparr> u_Priority := f32_one \<rparr>)"
          using base_okD(8) [OF b1, of "fw_key w" rec] Some by (simp add: f1_def rec_ok_def)
        have b2: "base_okS E {} f2"
          unfolding f2_def using b1 set_rec_ok [OF b1 rk] Some by (auto simp: f1_def)
        have r2: "refile f f2" using Some by (intro refileI) (auto simp: f2_def f1_def rb(2))
        have e: "aged_sweep n (w # ws) f = aged_sweep n ws f2"
          using old Some True by (simp add: Let_def split_beta mv_def [symmetric] f1_def [symmetric]) (simp add: f2_def)
        have "base_okS E {} (aged_sweep n ws f2) \<and> refile f2 (aged_sweep n ws f2)
            \<and> ring_elems (f_front (aged_sweep n ws f2)) = ring_elems (f_front f2)" using Cons.IH [OF b2] .
        moreover have "ring_elems (f_front f2) = ring_elems (f_front f)" using rb(2) by (simp add: f2_def f1_def)
        ultimately show ?thesis unfolding e using refile_trans [OF r2] by simp
      qed
    qed
  qed
qed

section \<open>The distributor\<close>

lemma host_ok_back:
  assumes "host_ok E f hk h" "HostKey k = hk" "recs f k \<noteq> None"
  shows "host_ok E f hk (h\<lparr> he_back := he_back h @ [k], he_active := True \<rparr>)"
  using assms by (auto simp: host_ok_def)

lemma allowed_ok:
  assumes b: "base_okS E K f" and s: "small f"
  shows "\<exists>v. allowed h k f = Some v"
proof (cases "he_robots h = None \<or> recs f k = None")
  case True
  then show ?thesis by (auto simp: allowed_def split: option.splits)
next
  case False
  then obtain rec where "recs f k = Some rec" by auto
  moreover obtain u where "str f (u_URLRef rec) = Some u"
    using str_ok [OF s] base_okD(8) [OF b \<open>recs f k = Some rec\<close>] s by (auto simp: rec_ok_def)
  ultimately show ?thesis using False by (auto simp: allowed_def)
qed

text \<open>A URL that has left the front bank: its host is active, or robots excludes it.\<close>

definition bound :: "'w Frontier \<Rightarrow> URLKey \<Rightarrow> bool" where
  "bound f k \<longleftrightarrow> (\<exists>h. hosts f (HostKey k) = Some h \<and> (he_active h \<or> he_robotsState h = robotsReady))"

lemma calm_bound: "calm f f' \<Longrightarrow> bound f k \<Longrightarrow> bound f' k"
  unfolding calm_def bound_def
  by (elim conjE exE allE [of _ "HostKey k"]) (auto simp: option_rel_Some1 host_calm_def)

lemma bind_url_ok:
  assumes i: "inv E f" and s: "small f" and k: "recs f key \<noteq> None"
  shows "\<exists>f'. bind_url key now f = Some f' \<and> inv E f' \<and> calm f f' \<and> f_front f' = f_front f
    \<and> (parked now f \<longrightarrow> parked now f')
    \<and> f_active f' \<le> f_active f + 1
    \<and> (\<forall>h. hosts f (HostKey key) = Some h \<and> he_active h \<longrightarrow> f_active f' = f_active f) \<and> bound f' key"
proof -
  have b: "base_okS E {} f" and p: "pools_ok E {} f" using i by (auto simp: inv_def)
  obtain rec where rec: "recs f key = Some rec" using k by auto
  note rok = base_okD(8) [OF b rec]
  then obtain h where h: "hosts f (HostKey key) = Some h" by (auto simp: rec_ok_def)
  note hok = base_okD(9) [OF b h]
  obtain v where v: "(if he_robotsState h = robotsReady then allowed h key f else Some True) = Some v"
    using allowed_ok [OF b s, of h key] by (cases "he_robotsState h = robotsReady") auto
  let ?h = "h\<lparr> he_back := he_back h @ [key], he_active := True \<rparr>"
  have hb: "host_ok E f (HostKey key) ?h" by (rule host_ok_back [OF hok]) (use rec in auto)
  consider "\<not> v" | "v" "he_active h" | "v" "\<not> he_active h" by blast
  then show ?thesis
  proof cases
    case 1
    let ?r = "rec\<lparr> u_Status := StatusExcludedRobots \<rparr>"
    have "rec_ok f key ?r" using rok by (simp add: rec_ok_def)
    then have "base_okS E {} (set_rec key ?r f)" by (rule set_rec_ok [OF b]) (use rec in auto)
    moreover have rf: "refile f (set_rec key ?r f)" using rec by (intro set_rec_refile) simp
    ultimately have "inv E (set_rec key ?r f)" using p refile_pools [OF rf] by (simp add: inv_def)
    moreover have "bind_url key now f = Some (set_rec key ?r f)"
      using 1 h v rec by (simp add: bind_url_def)
    moreover have "bound (set_rec key ?r f) key"
      using 1 h v by (cases "he_robotsState h = robotsReady") (auto simp: bound_def)
    ultimately show ?thesis using rf refile_parked [OF rf] by (auto simp: refile_def)
  next
    case 2
    have e: "?h = h\<lparr> he_back := he_back h @ [key] \<rparr>" using 2 by simp
    let ?f = "set_host (HostKey key) ?h f"
    have "base_okS E {} ?f" using 2 by (intro put_host_same [OF b h hb]) simp
    moreover have "pools_ok E {} ?f"
    proof (rule put_host_pools [OF p, of "HostKey key" ?h])
      have "pool_ok E f (HostKey key) h" using p h by (simp add: pools_ok_def)
      then show "HostKey key \<in> {} \<or> pool_ok E f (HostKey key) ?h" using 2 by (simp add: pool_ok_def)
    qed (use h in simp_all)
    moreover have "bind_url key now f = Some ?f" using 2 h v by (simp add: bind_url_def e)
    moreover have "calm f ?f" by (rule calm_put [OF h, of ?h]) (simp_all add: host_calm_def)
    ultimately show ?thesis by (intro exI [of _ ?f]) (simp add: inv_def parked_def bound_def)
  next
    case 3
    let ?g = "(set_host (HostKey key) ?h f)\<lparr> f_active := f_active f + 1 \<rparr>"
    have bk: "he_back h = []" "\<not> he_inFlight h" using hok 3 by (auto simp: host_ok_def)
    have "pool_ok E f (HostKey key) h" using p h by (simp add: pools_ok_def)
    then have "pooled f (HostKey key) = 0" using bk by (auto simp: pool_ok_def)
    then have "pools_ok E {HostKey key} f" using h by (intro pools_suspend [OF p]) auto
    then have pg: "pools_ok E {HostKey key} ?g"
      by (rule put_host_pools [of _ _ _ "HostKey key" ?h]) (use h in auto)
    have bg: "base_okS E {} ?g" by (rule put_host_ok [OF b h hb]) (use 3 in simp)
    have hg: "hosts ?g (HostKey key) = Some ?h" by (simp add: set_host_def map_of_mput)
    obtain r q where pl: "place (HostKey key) now ?g = Some (?g\<lparr> f_wait := q, f_ready := r \<rparr>)"
      "inv E (?g\<lparr> f_wait := q, f_ready := r \<rparr>)" "parked now ?g \<Longrightarrow> parked now (?g\<lparr> f_wait := q, f_ready := r \<rparr>)"
      by (rule place_ok [OF bg pg hg]) auto
    have "bind_url key now f = Some (?g\<lparr> f_wait := q, f_ready := r \<rparr>)"
      using 3 h v pl(1) by (simp add: bind_url_def)
    moreover have "calm f (?g\<lparr> f_wait := q, f_ready := r \<rparr>)"
      by (rule calm_put [OF h, of ?h]) (simp_all add: host_calm_def set_host_def)
    ultimately show ?thesis
      using pl(2,3) 3 h by (intro exI [of _ "?g\<lparr> f_wait := q, f_ready := r \<rparr>"]) (simp add: parked_def bound_def set_host_def)
  qed
qed

lemma pop_front_ok:
  assumes "inv E f" "ring_pop (f_front f) = Some (k, r)"
  shows "inv E (f\<lparr> f_front := r \<rparr>)" "recs f k \<noteq> None" "size (ring_elems r) < size (ring_elems (f_front f))"
    "hosts f (HostKey k) \<noteq> None"
proof -
  have b: "base_okS E {} f" and p: "pools_ok E {} f" using assms by (auto simp: inv_def)
  note R = ring_elems_pop [OF base_okD(3) [OF b] assms(2)]
  have "base_okS E {} (f\<lparr> f_front := r \<rparr>)"
    using front_ok(1) [OF b] R base_okD(10) [OF b] by auto
  moreover have "pools_ok E {} (f\<lparr> f_front := r \<rparr>)" using p pools_cong [of "f\<lparr> f_front := r \<rparr>" f] by simp
  ultimately show "inv E (f\<lparr> f_front := r \<rparr>)" by (simp add: inv_def)
  show k: "recs f k \<noteq> None" using R base_okD(10) [OF b] by auto
  then show "hosts f (HostKey k) \<noteq> None" using base_okD(8) [OF b] by (auto simp: rec_ok_def)
  show "size (ring_elems r) < size (ring_elems (f_front f))" using R by simp
qed

text \<open>What the distributor leaves behind: an empty front bank, or a head whose host would be one too
  many.\<close>

definition saturated :: "int \<Rightarrow> 'w Frontier \<Rightarrow> bool" where
  "saturated target f \<longleftrightarrow> (case ring_pop (f_front f) of None \<Rightarrow> True
     | Some (k, r) \<Rightarrow> f_active f \<ge> target \<and> (\<forall>h. hosts f (HostKey k) = Some h \<longrightarrow> \<not> he_active h))"

lemma distribute_loop_ok:
  assumes "inv E f" "small f"
  shows "\<exists>f'. distribute_loop target now f = Some f' \<and> inv E f' \<and> calm f f' \<and> (parked now f \<longrightarrow> parked now f')
    \<and> f_active f' \<le> max (f_active f) target \<and> saturated target f'
    \<and> (\<forall>k \<in># ring_elems (f_front f). k \<in># ring_elems (f_front f') \<or> bound f' k)"
  using assms
proof (induction "size (ring_elems (f_front f))" arbitrary: f rule: less_induct)
  case less
  show ?case
  proof (cases "ring_pop (f_front f)")
    case None
    then show ?thesis
      using less.prems by (intro exI [of _ f]) (simp add: distribute_loop.simps saturated_def)
  next
    case (Some kr)
    then obtain k r where pop: "ring_pop (f_front f) = Some (k, r)" by (cases kr) auto
    note P = pop_front_ok [OF less.prems(1) pop]
    let ?f = "f\<lparr> f_front := r \<rparr>"
    obtain h where h: "hosts f (HostKey k) = Some h" using P(4) by auto
    show ?thesis
    proof (cases "\<not> he_active h \<and> f_active f \<ge> target")
      case True
      then have "distribute_loop target now f = Some f" "saturated target f"
        using pop h by (simp_all add: distribute_loop.simps saturated_def)
      then show ?thesis using less.prems by (intro exI [of _ f]) simp
    next
      case False
      have sk: "small ?f" "recs ?f k \<noteq> None" using less.prems(2) P(2) by (simp_all add: small_def)
      obtain f1 where "bind_url k now ?f = Some f1 \<and> inv E f1 \<and> calm ?f f1 \<and> f_front f1 = f_front ?f
          \<and> (parked now ?f \<longrightarrow> parked now f1) \<and> f_active f1 \<le> f_active ?f + 1
          \<and> (\<forall>h. hosts ?f (HostKey k) = Some h \<and> he_active h \<longrightarrow> f_active f1 = f_active ?f) \<and> bound f1 k"
        using bind_url_ok [OF P(1) sk, of now] by (elim exE)
      then have f1: "bind_url k now ?f = Some f1" "inv E f1" "calm ?f f1" "f_front f1 = r"
        "parked now ?f \<longrightarrow> parked now f1" "f_active f1 \<le> f_active f + 1"
        "he_active h \<longrightarrow> f_active f1 = f_active f" "bound f1 k"
        using h by simp_all
      have c: "calm f f1" by (rule calm_trans [OF calm_hosts f1(3)]) simp_all
      have "\<exists>f'. distribute_loop target now f1 = Some f' \<and> inv E f' \<and> calm f1 f' \<and> (parked now f1 \<longrightarrow> parked now f')
          \<and> f_active f' \<le> max (f_active f1) target \<and> saturated target f'
          \<and> (\<forall>k \<in># ring_elems (f_front f1). k \<in># ring_elems (f_front f') \<or> bound f' k)"
        by (rule less.hyps) (use P(3) f1(2,4) calm_small [OF c] less.prems(2) in simp_all)
      then obtain f' where f': "distribute_loop target now f1 = Some f'" "inv E f'" "calm f1 f'"
          "parked now f1 \<longrightarrow> parked now f'" "f_active f' \<le> max (f_active f1) target" "saturated target f'"
          "\<forall>k \<in># ring_elems (f_front f1). k \<in># ring_elems (f_front f') \<or> bound f' k"
        by (elim exE conjE)
      have "base_okS E {} f" using less.prems(1) by (simp add: inv_def)
      from ring_elems_pop [OF base_okD(3) [OF this] pop]
      have "ring_elems (f_front f) = add_mset k (ring_elems r)" by blast
      then have "\<forall>k \<in># ring_elems (f_front f). k \<in># ring_elems (f_front f') \<or> bound f' k"
        using f'(7) f1(4) calm_bound [OF f'(3) f1(8)] by auto
      moreover have "distribute_loop target now f = Some f'"
      proof -
        have "\<not> (\<not> he_active h \<and> target \<le> f_active f)" using False by simp
        then show ?thesis using f'(1) by (subst distribute_loop.simps) (simp only: pop h f1(1) option.case prod.case if_False)
      qed
      moreover have "f_active f' \<le> max (f_active f) target"
      proof (cases "f_active f1 = f_active f")
        case True
        then show ?thesis using f'(5) by simp
      next
        case other: False
        then have "f_active f < target" using f1(7) False by auto
        then show ?thesis using f'(5) f1(6) other by simp
      qed
      moreover have "parked now ?f = parked now f" by (simp add: parked_def)
      then have "parked now f \<longrightarrow> parked now f'" using f1(5) f'(4) by blast
      ultimately show ?thesis using f'(2,6) calm_trans [OF c f'(3)] by (intro exI [of _ f'] conjI)
    qed
  qed
qed

lemma distribute_ok:
  assumes i: "inv E f" and s: "small f"
  shows "\<exists>f'. distribute E now f = Some f' \<and> inv E f' \<and> calm f f' \<and> (parked now f \<longrightarrow> parked now f')
    \<and> f_active f' \<le> max (f_active f) (effectiveTarget E) \<and> saturated (effectiveTarget E) f'
    \<and> (\<forall>k \<in># ring_elems (f_front f). k \<in># ring_elems (f_front f') \<or> bound f' k)"
proof -
  have b: "base_okS E {} f" and p: "pools_ok E {} f" using i by (auto simp: inv_def)
  define f1 where "f1 = (if cf_bounded (cfg E) then
      (let f0 = f\<lparr> f_sinceSweep := f_sinceSweep f + 1 \<rparr> in
       if f_sinceSweep f0 \<ge> frontRefillBatch then promoteAged (now div 3600) (f0\<lparr> f_sinceSweep := 0 \<rparr>) else f0)
      else f)"
  have r0: "refile f (f\<lparr> f_sinceSweep := n \<rparr>)" for n by (rule refileI) simp_all
  note W = world_ok(9) [OF b]
  have f1: "base_okS E {} f1 \<and> refile f f1 \<and> ring_elems (f_front f1) = ring_elems (f_front f)"
    unfolding f1_def Let_def promoteAged_def
    using b W [of "f_sinceSweep f + 1"] r0 aged_sweep_ok [OF W [of 0], of "now div 3600" "f_frontAge f"]
      refile_trans [OF r0 [of 0], of "aged_sweep (now div 3600) (f_frontAge f) (f\<lparr> f_sinceSweep := 0 \<rparr>)"]
    by simp
  then have "inv E f1" "calm f f1" "f_active f1 = f_active f" "parked now f1 = parked now f"
    using p refile_pools [of f f1] refile_parked [of f f1] by (auto simp: inv_def refile_def)
  moreover have "distribute E now f = distribute_loop (effectiveTarget E) now f1"
    by (simp add: distribute_def f1_def Let_def)
  moreover from calculation have "small f1" using calm_small [of f f1] s by simp
  moreover from calculation obtain f' where "distribute_loop (effectiveTarget E) now f1 = Some f' \<and> inv E f' \<and> calm f1 f'
      \<and> (parked now f1 \<longrightarrow> parked now f') \<and> f_active f' \<le> max (f_active f1) (effectiveTarget E)
      \<and> saturated (effectiveTarget E) f' \<and> (\<forall>k \<in># ring_elems (f_front f1). k \<in># ring_elems (f_front f') \<or> bound f' k)"
    using distribute_loop_ok [of E f1 "effectiveTarget E" now] by blast
  ultimately show ?thesis
    using f1 calm_trans [of f f1 f'] by (intro exI [of _ f']) simp
qed

section \<open>The ready loop\<close>

lemma resolve_shape:
  assumes "resolveHost E h now f = Some h'"
  shows "same_shape h h'" "host_calm h h'"
  using assms
  by (auto simp: resolveHost_def same_shape_def host_calm_def split: if_splits option.splits Option.bind_splits)

lemma resolve_total:
  assumes s: "small f" and h: "host_ok E f hk h"
  shows "\<exists>h'. resolveHost E h now f = Some h'"
  using str_ok [OF s, of "h_HostRef (he_rec h)"] h s by (auto simp: resolveHost_def host_ok_def)

lemma ready_pop_suspends:
  assumes i: "inv E f" and pop: "bank_popShard s (f_ready f) = Some (hk, r)"
  obtains h where "hosts f hk = Some h" "he_back h \<noteq> []" "\<not> he_inFlight h"
    "base_okS E {} (f\<lparr> f_ready := r \<rparr>)" "pools_ok E {hk} (f\<lparr> f_ready := r \<rparr>)"
    "size (bank_elems r) < size (bank_elems (f_ready f))"
proof -
  have b: "base_okS E {} f" and p: "pools_ok E {} f" using i by (auto simp: inv_def)
  note P = bank_popShard_Some [OF base_okD(4) [OF b] pop]
  have cnt: "pooled f x = pooled (f\<lparr> f_ready := r \<rparr>) x + (if x = hk then 1 else 0)" for x
    using P by (simp add: pooled_def)
  then have pos: "pooled f hk > 0" by simp
  then obtain h where h: "hosts f hk = Some h" using p by (cases "hosts f hk") (auto simp: pools_ok_def)
  then have po: "pool_ok E f hk h" using p by (simp add: pools_ok_def)
  then have one: "pooled f hk = 1" using pos by (simp add: pool_ok_def)
  have "pools_ok E {hk} (f\<lparr> f_ready := r \<rparr>)"
    unfolding pools_ok_def
  proof (intro conjI allI impI ballI)
    fix x g assume "x \<notin> {hk}" "hosts (f\<lparr> f_ready := r \<rparr>) x = Some g"
    then have "pool_ok E f x g" "x \<noteq> hk" using p by (auto simp: pools_ok_def)
    then show "pool_ok E (f\<lparr> f_ready := r \<rparr>) x g" using cnt [of x] by (simp add: pool_ok_def)
  next
    fix x assume "hosts (f\<lparr> f_ready := r \<rparr>) x = None"
    then show "pooled (f\<lparr> f_ready := r \<rparr>) x = 0" using p cnt [of x] by (simp add: pools_ok_def)
  next
    fix x assume "x \<in> {hk}"
    then show "pooled (f\<lparr> f_ready := r \<rparr>) x = 0" using cnt [of x] one by simp
  qed
  then show thesis using that h po one base_ready [OF b] P by (auto simp: pool_ok_def)
qed

text \<open>The outcome of the loop: no ready host is left, or one host, out of the pools, whose window is
  open.\<close>

definition picked :: "'w env \<Rightarrow> u32 \<Rightarrow> u64 option \<Rightarrow> 'w Frontier \<Rightarrow> bool" where
  "picked E now hko f \<longleftrightarrow> base_okS E {} f \<and>
     (case hko of
        None \<Rightarrow> pools_ok E {} f \<and> bank_elems (f_ready f) = {#}
      | Some hk \<Rightarrow> pools_ok E {hk} f \<and> (\<exists>h. hosts f hk = Some h \<and> he_back h \<noteq> [] \<and> \<not> he_inFlight h
                     \<and> eligibleNow f h \<le> now))"

lemma ready_loop_ok:
  assumes "inv E f" "small f"
  shows "\<exists>hko f'. ready_loop E now s f = Some (hko, f') \<and> picked E now hko f' \<and> calm f f'
    \<and> (parked now f \<longrightarrow> parked now f') \<and> f_active f' = f_active f \<and> f_front f' = f_front f
    \<and> f_records f' = f_records f \<and> (\<forall>x. map_option he_active (hosts f' x) = map_option he_active (hosts f x))"
  using assms
proof (induction "size (bank_elems (f_ready f))" arbitrary: f rule: less_induct)
  case less
  have b: "base_okS E {} f" and p: "pools_ok E {} f" using less.prems by (auto simp: inv_def)
  show ?case
  proof (cases "bank_popShard s (f_ready f)")
    case None
    then have "bank_elems (f_ready f) = {#}" using bank_popShard_None [OF base_okD(4) [OF b]] by blast
    then show ?thesis
      using None b p by (intro exI [of _ None] exI [of _ f]) (simp add: ready_loop.simps picked_def)
  next
    case (Some hr)
    then obtain hk r where pop: "bank_popShard s (f_ready f) = Some (hk, r)" by (cases hr) auto
    define g where "g = f\<lparr> f_ready := r \<rparr>"
    obtain h0 where h0: "hosts f hk = Some h0" "he_back h0 \<noteq> []" "\<not> he_inFlight h0"
      and bg: "base_okS E {} g" and pg: "pools_ok E {hk} g" and less': "size (bank_elems r) < size (bank_elems (f_ready f))"
      using ready_pop_suspends [OF less.prems(1) pop] unfolding g_def by blast
    obtain h where h: "resolveHost E h0 now f = Some h"
      using resolve_total [OF less.prems(2) base_okD(9) [OF b h0(1)]] by blast
    note sh = resolve_shape [OF h]
    define f1 where "f1 = set_host hk h g"
    have hg: "hosts g hk = Some h0" using h0 by (simp add: g_def)
    have b1: "base_okS E {} f1" unfolding f1_def by (rule set_host_ok [OF bg hg sh(1)])
    have p1: "pools_ok E {hk} f1" unfolding f1_def by (rule intake_pools [OF set_host_intake [OF hg sh(1)] pg])
    have h1: "hosts f1 hk = Some h" "he_back h \<noteq> []" "\<not> he_inFlight h"
      using h0 sh(1) by (auto simp: f1_def same_shape_def)
    have a1: "map_option he_active (hosts f1 x) = map_option he_active (hosts f x)" for x
      using h0 sh(1) by (simp add: f1_def g_def same_shape_def)
    have c1: "calm f f1" by (rule calm_put [OF h0(1) sh(2)]) (simp_all add: f1_def g_def set_host_def)
    have eq: "ready_loop E now s f =
        (if eligibleNow f1 h > now then ready_loop E now s (f1\<lparr> f_wait := wait_push hk (eligibleNow f1 h) (f_wait f1) \<rparr>)
         else Some (Some hk, f1))"
      using pop h0 h by (subst ready_loop.simps) (simp add: f1_def g_def Let_def)
    show ?thesis
    proof (cases "eligibleNow f1 h > now")
      case False
      then show ?thesis
        using eq b1 p1 h1 c1 a1
        by (intro exI [of _ "Some hk"] exI [of _ f1]) (auto simp: picked_def parked_def f1_def g_def)
    next
      case True
      define f2 where "f2 = f1\<lparr> f_wait := wait_push hk (eligibleNow f1 h) (f_wait f1) \<rparr>"
      have "pools_ok E {} f2"
        by (rule pools_enter [OF p1 h1(1,3,2)]) (simp_all add: f2_def pooled_wait_push)
      then have "inv E f2" unfolding inv_def f2_def using b1 base_okD(5) [OF b1]
        by (auto intro!: base_wait wait_push_wf)
      moreover have c2: "calm f f2" by (rule calm_trans [OF c1 calm_hosts]) (simp_all add: f2_def)
      ultimately have "\<exists>hko f'. ready_loop E now s f2 = Some (hko, f') \<and> picked E now hko f' \<and> calm f2 f'
          \<and> (parked now f2 \<longrightarrow> parked now f') \<and> f_active f' = f_active f2 \<and> f_front f' = f_front f2
          \<and> f_records f' = f_records f2 \<and> (\<forall>x. map_option he_active (hosts f' x) = map_option he_active (hosts f2 x))"
        using less' less.prems(2) calm_small [OF c2]
        by (intro less.hyps) (auto simp: f2_def f1_def g_def)
      moreover have "parked now f \<longrightarrow> parked now f2"
        using True by (auto simp: f2_def f1_def g_def parked_def set_wait_push)
      moreover have "map_option he_active (hosts f2 x) = map_option he_active (hosts f x)" for x
        using a1 by (simp add: f2_def)
      moreover have "f_active f2 = f_active f" "f_front f2 = f_front f" "f_records f2 = f_records f"
        by (simp_all add: f2_def f1_def g_def)
      ultimately show ?thesis
        using eq True calm_trans [OF c2] unfolding f2_def [symmetric] by auto
    qed
  qed
qed

end
