(* ===== verification/FrontierRun.thy ===== *)
theory FrontierRun
  imports FrontierPool
begin

text \<open>
  The frontier as a whole.  Dispatch and Report keep the invariant and never panic, a request goes
  out only for an idle host whose window is open, it moves the window by the politeness interval, and
  between two requests to a host its first outcome is reported.  The run relation composes every
  operation in any order.
\<close>

section \<open>Sending\<close>

definition spent :: "'w env \<Rightarrow> u32 \<Rightarrow> hostEntry \<Rightarrow> hostEntry \<Rightarrow> bool" where
  "spent E now h h' \<longleftrightarrow> he_inFlight h'
     \<and> h_HostNextEligible (he_rec h') = now + durSecs (HostInterval (cf_pol (cfg E)) (he_effective h) (he_crawlFloor h))"

lemma spend_host:
  assumes "hosts f hk = Some h"
  shows "\<exists>h' t. spend E hk now f = (set_host hk h' f)\<lparr> f_ips := t \<rparr> \<and> he_back h' = he_back h
     \<and> he_active h' = he_active h \<and> he_inFlight h' = he_inFlight h \<and> he_robotsState h' = he_robotsState h
     \<and> h_HostKey (he_rec h') = h_HostKey (he_rec h) \<and> h_HostRef (he_rec h') = h_HostRef (he_rec h)
     \<and> h_ResolvedIP (he_rec h') = h_ResolvedIP (he_rec h)
     \<and> h_HostNextEligible (he_rec h') = now + durSecs (HostInterval (cf_pol (cfg E)) (he_effective h) (he_crawlFloor h))"
proof -
  let ?t = "Spend (h_ResolvedIP (he_rec h)) (int (unat now)) (HostInterval (cf_pol (cfg E)) (he_effective h) (he_crawlFloor h)) (f_ips f)"
  show ?thesis
    by (intro exI [of _ "h\<lparr> he_rec := (he_rec h)\<lparr> h_HostNextEligible := now + durSecs (HostInterval (cf_pol (cfg E)) (he_effective h) (he_crawlFloor h)),
          h_IPNextEligible := ip_next (f\<lparr> f_ips := ?t \<rparr>) (h_ResolvedIP (he_rec h)) \<rparr> \<rparr>"] exI [of _ ?t])
       (use assms in \<open>simp add: spend_def Let_def set_host_def\<close>)
qed

text \<open>A host that leaves the pools for a fetch: \<open>g\<close> is the entry with the flight begun.\<close>

lemma launch_ok:
  assumes b: "base_okS E {} f" and p: "pools_ok E {hk} f" and h: "hosts f hk = Some h"
    and g: "host_ok E f hk g" "he_active g = he_active h" "he_inFlight g" "he_effective g = he_effective h"
      "he_crawlFloor g = he_crawlFloor h"
  shows "\<exists>h' t. spend E hk now (set_host hk g f) = (set_host hk h' f)\<lparr> f_ips := t \<rparr>
     \<and> inv E ((set_host hk h' f)\<lparr> f_ips := t \<rparr>) \<and> spent E now h h' \<and> h_HostRef (he_rec h') = h_HostRef (he_rec g)
     \<and> h_HostKey (he_rec h') = hk \<and> he_back h' = he_back g \<and> he_robotsState h' = he_robotsState g"
proof -
  have gf: "hosts (set_host hk g f) hk = Some g" by simp
  obtain h' t where s: "spend E hk now (set_host hk g f) = (set_host hk h' (set_host hk g f))\<lparr> f_ips := t \<rparr>"
    and e: "he_back h' = he_back g" "he_active h' = he_active g" "he_inFlight h' = he_inFlight g"
      "he_robotsState h' = he_robotsState g" "h_HostKey (he_rec h') = h_HostKey (he_rec g)"
      "h_HostRef (he_rec h') = h_HostRef (he_rec g)"
      "h_HostNextEligible (he_rec h') = now + durSecs (HostInterval (cf_pol (cfg E)) (he_effective g) (he_crawlFloor g))"
    using spend_host [OF gf, of E now] by blast
  have ss: "set_host hk h' (set_host hk g f) = set_host hk h' f" by (simp add: set_host_def)
  have ok: "host_ok E f hk h'" using g(1) e by (simp add: host_ok_def)
  have "base_okS E {} (set_host hk h' f)" by (rule put_host_same [OF b h ok]) (simp add: e g)
  moreover have "pooled f hk = 0" using p by (simp add: pools_ok_def)
  then have "pools_ok E {} (set_host hk h' f)"
    by (intro pools_resume [OF put_host_pools [OF p, of hk h']]) (auto simp: h pool_ok_def e g)
  then have "pools_ok E {} ((set_host hk h' f)\<lparr> f_ips := t \<rparr>)"
    using pools_cong [of "(set_host hk h' f)\<lparr> f_ips := t \<rparr>" "set_host hk h' f"] by simp
  ultimately show ?thesis
    using s ss e g ok by (intro exI [of _ h'] exI [of _ t]) (simp add: inv_def spent_def host_ok_def)
qed

lemma str_cong: "f_arena f' = f_arena f \<Longrightarrow> str f' = str f"
  by (simp add: str_def fun_eq_iff)

text \<open>What a request says: the robots file of the host, or the URL at the head of its queue.\<close>

definition request_for :: "'w env \<Rightarrow> u64 \<Rightarrow> Request \<Rightarrow> 'w Frontier \<Rightarrow> bool" where
  "request_for E hk req f \<longleftrightarrow> rq_HostKey req = hk \<and>
     (\<exists>h. hosts f hk = Some h \<and>
        (if rq_Robots req then he_robotsState h = robotsPending \<and> rq_URLKey req = robotsKey E hk
         else he_robotsState h \<noteq> robotsPending \<and> he_back h \<noteq> [] \<and> hd (he_back h) = rq_URLKey req
              \<and> (\<exists>r. recs f (rq_URLKey req) = Some r \<and> u_Status r = StatusInFlight)))"

definition others_same :: "u64 \<Rightarrow> 'w Frontier \<Rightarrow> 'w Frontier \<Rightarrow> bool" where
  "others_same hk f f' \<longleftrightarrow> f_arena f' = f_arena f \<and> f_seen f' = f_seen f \<and> f_front f' = f_front f
     \<and> f_wait f' = f_wait f \<and> f_active f' = f_active f
     \<and> (\<forall>k. recs f' k \<noteq> None \<longleftrightarrow> recs f k \<noteq> None) \<and> (\<forall>x. x \<noteq> hk \<longrightarrow> hosts f' x = hosts f x)"

lemma send_robots_ok:
  assumes b: "base_okS E {} f" and p: "pools_ok E {hk} f" and h: "hosts f hk = Some h" "he_back h \<noteq> []"
    and s: "small f" and on: "cf_robotsOn (cfg E)"
  shows "\<exists>req f' h'. send_robots E hk now f = Some (Some req, f') \<and> inv E f' \<and> others_same hk f f'
     \<and> request_for E hk req f' \<and> rq_Robots req \<and> hosts f' hk = Some h' \<and> spent E now h h'"
proof -
  let ?g = "h\<lparr> he_robotsState := robotsPending, he_inFlight := True \<rparr>"
  have ho: "host_ok E f hk h" using base_okD(9) [OF b h(1)] .
  then have act: "he_active h" using h(2) by (auto simp: host_ok_def)
  have go: "host_ok E f hk ?g" using ho act on by (auto simp: host_ok_def)
  obtain h' t where L: "spend E hk now (set_host hk ?g f) = (set_host hk h' f)\<lparr> f_ips := t \<rparr>"
    "inv E ((set_host hk h' f)\<lparr> f_ips := t \<rparr>)" "spent E now h h'" "h_HostRef (he_rec h') = h_HostRef (he_rec ?g)"
    "h_HostKey (he_rec h') = hk" "he_robotsState h' = robotsPending"
    using launch_ok [OF b p h(1) go, of now] by auto
  let ?f = "(set_host hk h' f)\<lparr> f_ips := t \<rparr>"
  obtain u where u: "str ?f (h_HostRef (he_rec h')) = Some u"
    using str_ok [OF s, of "h_HostRef (he_rec h)"] ho s L(4) str_cong [of ?f f] by (auto simp: host_ok_def)
  have hf: "hosts ?f hk = Some h'" by (simp add: set_host_def map_of_mput)
  obtain req where req: "robotsRequest E h' ?f = Some req" "rq_HostKey req = hk" "rq_Robots req"
    "rq_URLKey req = robotsKey E hk"
    using u L(5) by (auto simp: robotsRequest_def)
  have "send_robots E hk now f = Some (Some req, ?f)"
    using h L(1) hf req by (simp add: send_robots_def Let_def)
  moreover have "others_same hk f ?f" by (simp add: others_same_def)
  moreover have "request_for E hk req ?f" using req hf L(6) by (simp add: request_for_def)
  ultimately show ?thesis using L hf req by blast
qed

lemma send_url_ok:
  assumes b: "base_okS E {} f" and p: "pools_ok E {hk} f" and h: "hosts f hk = Some h" "he_back h \<noteq> []" "\<not> he_inFlight h"
    and s: "small f"
  shows "\<exists>req f' h'. send_url E hk now f = Some (Some req, f') \<and> inv E f' \<and> others_same hk f f'
     \<and> request_for E hk req f' \<and> \<not> rq_Robots req \<and> hosts f' hk = Some h' \<and> spent E now h h'"
proof -
  have ho: "host_ok E f hk h" using base_okD(9) [OF b h(1)] .
  have act: "he_active h" "he_robotsState h \<noteq> robotsPending" using h(2,3) ho by (auto simp: host_ok_def)
  obtain key ks where k: "he_back h = key # ks" using h(2) by (cases "he_back h") auto
  obtain rec where rec: "recs f key = Some rec" "HostKey key = hk" using ho k by (auto simp: host_ok_def)
  define f1 where "f1 = set_rec key (rec\<lparr> u_Status := StatusInFlight \<rparr>) f"
  have ro: "rec_ok f key rec" using base_okD(8) [OF b rec(1)] .
  then have "rec_ok f key (rec\<lparr> u_Status := StatusInFlight \<rparr>)" by (simp add: rec_ok_def)
  then have b1: "base_okS E {} f1" unfolding f1_def by (rule set_rec_ok [OF b]) (use rec in auto)
  have rf: "refile f f1" unfolding f1_def by (rule set_rec_refile) (use rec in simp)
  then have p1: "pools_ok E {hk} f1" using p refile_pools by blast
  let ?g = "h\<lparr> he_inFlight := True \<rparr>"
  have h1: "hosts f1 hk = Some h" using h by (simp add: f1_def)
  have go: "host_ok E f1 hk ?g" using base_okD(9) [OF b1 h1] act by (auto simp: host_ok_def)
  obtain h' t where L: "spend E hk now (set_host hk ?g f1) = (set_host hk h' f1)\<lparr> f_ips := t \<rparr>"
    "inv E ((set_host hk h' f1)\<lparr> f_ips := t \<rparr>)" "spent E now h h'"
    "h_HostKey (he_rec h') = hk" "he_back h' = he_back h" "he_robotsState h' = he_robotsState h"
    using launch_ok [OF b1 p1 h1 go, of now] by auto
  let ?f = "(set_host hk h' f1)\<lparr> f_ips := t \<rparr>"
  have sc: "str ?f = str f" by (rule str_cong) (simp add: f1_def)
  obtain u etag where u: "str ?f (u_URLRef rec) = Some u" "str ?f (u_ETagRef rec) = Some etag"
    using str_ok [OF s, of "u_URLRef rec"] str_ok [OF s, of "u_ETagRef rec"] ro s unfolding sc rec_ok_def by blast
  have hf: "hosts ?f hk = Some h'" by (simp add: set_host_def map_of_mput)
  let ?req = "\<lparr> rq_URLKey = u_URLKey rec, rq_HostKey = u_HostKey rec, rq_CanonicalURL = u,
      rq_ETag = etag, rq_LastModified = u_LastModified rec, rq_ResolvedIP = h_ResolvedIP (he_rec h'),
      rq_Depth = u_Depth rec, rq_Robots = False \<rparr>"
  have "send_url E hk now f = Some (Some ?req, ?f)"
    using h k rec L(1) hf u by (simp add: send_url_def Let_def f1_def [symmetric])
  moreover have "others_same hk f ?f"
    using rf rec by (auto simp: others_same_def refile_def f1_def)
  moreover have "request_for E hk ?req ?f"
    using ro rec L k act by (auto simp: request_for_def rec_ok_def f1_def set_host_def map_of_mput)
  ultimately show ?thesis using L(2,3) hf by (intro exI [of _ ?req] exI [of _ ?f] exI [of _ h']) simp
qed

section \<open>Dispatch\<close>

text \<open>The outcome of one dispatch, without a request and with one.\<close>

definition idle_dispatch :: "'w env \<Rightarrow> u32 \<Rightarrow> 'w Frontier \<Rightarrow> 'w Frontier \<Rightarrow> bool" where
  "idle_dispatch E now f f' \<longleftrightarrow> calm f f' \<and> bank_elems (f_ready f') = {#} \<and> parked now f'
     \<and> saturated (effectiveTarget E) f'
     \<and> (\<forall>k \<in># ring_elems (f_front f). k \<in># ring_elems (f_front f') \<or> bound f' k)"

definition sent_dispatch :: "'w env \<Rightarrow> u32 \<Rightarrow> Request \<Rightarrow> 'w Frontier \<Rightarrow> 'w Frontier \<Rightarrow> bool" where
  "sent_dispatch E now req f f' \<longleftrightarrow>
     (\<exists>h h'. hosts f (rq_HostKey req) = Some h \<and> \<not> he_inFlight h \<and> h_HostNextEligible (he_rec h) \<le> now
        \<and> hosts f' (rq_HostKey req) = Some h' \<and> spent E now h h')
     \<and> request_for E (rq_HostKey req) req f'
     \<and> (rq_Robots req \<longrightarrow> cf_robotsOn (cfg E))
     \<and> f_arena f' = f_arena f \<and> f_seen f' = f_seen f \<and> (\<forall>k. recs f' k \<noteq> None \<longleftrightarrow> recs f k \<noteq> None)
     \<and> (\<forall>x. x \<noteq> rq_HostKey req \<longrightarrow> rel_option host_calm (hosts f x) (hosts f' x))"

lemma before_send_ok:
  assumes "inv E f" "small f"
  shows "\<exists>hko g. (do { f1 \<leftarrow> promoteDue E now f; f2 \<leftarrow> promote now f1; f3 \<leftarrow> distribute E now f2; ready_loop E now s f3 })
       = Some (hko, g)
     \<and> picked E now hko g \<and> calm f g \<and> parked now g \<and> f_active g \<le> max (f_active f) (effectiveTarget E)
     \<and> (hko = None \<longrightarrow> saturated (effectiveTarget E) g)
     \<and> (\<forall>k \<in># ring_elems (f_front f). k \<in># ring_elems (f_front g) \<or> bound g k)"
proof -
  obtain f1 where f1: "promoteDue E now f = Some f1" "inv E f1" "refile f f1"
    using promoteDue_ok [OF assms(1)] by blast
  obtain q r where "promote now f1 = Some (f1\<lparr> f_wait := q, f_ready := r \<rparr>)"
    "inv E (f1\<lparr> f_wait := q, f_ready := r \<rparr>)" "parked now (f1\<lparr> f_wait := q, f_ready := r \<rparr>)"
    using promote_ok [OF f1(2)] by blast
  moreover define f2 where "f2 = f1\<lparr> f_wait := q, f_ready := r \<rparr>"
  ultimately have f2: "promote now f1 = Some f2" "inv E f2" "parked now f2" by auto
  have c1: "calm f f1" using f1(3) by (simp add: refile_def)
  have c2: "calm f f2" by (rule calm_trans [OF c1 calm_hosts]) (simp_all add: f2_def)
  have a2: "f_active f2 = f_active f" using f1(3) by (simp add: refile_def f2_def)
  have s2: "small f2" using calm_small [OF c2] assms(2) by simp
  obtain f3 where f3: "distribute E now f2 = Some f3" "inv E f3" "calm f2 f3" "parked now f3"
    "f_active f3 \<le> max (f_active f2) (effectiveTarget E)" "saturated (effectiveTarget E) f3"
    "\<forall>k \<in># ring_elems (f_front f2). k \<in># ring_elems (f_front f3) \<or> bound f3 k"
    using distribute_ok [OF f2(2) s2, of now] f2(3) by (elim exE conjE impE)
  have c3: "calm f f3" using calm_trans [OF c2 f3(3)] .
  have s3: "small f3" using calm_small [OF c3] assms(2) by simp
  obtain hko g where "ready_loop E now s f3 = Some (hko, g) \<and> picked E now hko g \<and> calm f3 g
      \<and> (parked now f3 \<longrightarrow> parked now g) \<and> f_active g = f_active f3 \<and> f_front g = f_front f3
      \<and> f_records g = f_records f3 \<and> (\<forall>x. map_option he_active (hosts g x) = map_option he_active (hosts f3 x))"
    using ready_loop_ok [OF f3(2) s3, of now s] by blast
  then have g: "ready_loop E now s f3 = Some (hko, g)" "picked E now hko g" "calm f3 g" "parked now g"
    "f_active g = f_active f3" "f_front g = f_front f3"
    "\<And>x. map_option he_active (hosts g x) = map_option he_active (hosts f3 x)"
    using f3(4) by simp_all
  have "\<not> he_active h" if "hosts g x = Some h" "\<forall>h. hosts f3 x = Some h \<longrightarrow> \<not> he_active h" for x h
    using g(7) [of x] that by (cases "hosts f3 x") auto
  then have "saturated (effectiveTarget E) g"
    using f3(6) g(5,6) by (cases "ring_pop (f_front f3)") (auto simp: saturated_def)
  moreover have "\<forall>k \<in># ring_elems (f_front f). k \<in># ring_elems (f_front g) \<or> bound g k"
  proof
    fix k assume "k \<in># ring_elems (f_front f)"
    then have "k \<in># ring_elems (f_front f2)" using f1(3) mset_subset_eqD by (fastforce simp: refile_def f2_def)
    then show "k \<in># ring_elems (f_front g) \<or> bound g k" using f3(7) g(6) calm_bound [OF g(3)] by auto
  qed
  ultimately show ?thesis
    using f1(1) f2(1) f3(1,4,5) g(1-5) a2 calm_trans [OF c3 g(3)]
    by (intro exI [of _ hko] exI [of _ g]) simp
qed

lemma eligible_host: "h_HostNextEligible (he_rec h) \<le> eligibleNow f h"
  by (auto simp: eligibleNow_def Let_def)

lemma DispatchShard_ok:
  assumes i: "inv E f" and s: "small f"
  shows "\<exists>r f'. DispatchShard E now shard f = Some (r, f') \<and> inv E f'
     \<and> (case r of None \<Rightarrow> idle_dispatch E now f f' | Some req \<Rightarrow> sent_dispatch E now req f f')
     \<and> f_active f' \<le> max (f_active f) (effectiveTarget E)"
proof -
  obtain hko g where g: "(do { f1 \<leftarrow> promoteDue E now f; f2 \<leftarrow> promote now f1; f3 \<leftarrow> distribute E now f2; ready_loop E now shard f3 })
       = Some (hko, g)"
    "picked E now hko g" "calm f g" "parked now g" "f_active g \<le> max (f_active f) (effectiveTarget E)"
    "hko = None \<longrightarrow> saturated (effectiveTarget E) g"
    "\<forall>k \<in># ring_elems (f_front f). k \<in># ring_elems (f_front g) \<or> bound g k"
    using before_send_ok [OF i s, of now shard] by (elim exE conjE)
  have D: "DispatchShard E now shard f = (case hko of None \<Rightarrow> Some (None, g)
      | Some hk \<Rightarrow> do { h \<leftarrow> mget (f_hosts g) hk;
          if cf_robotsOn (cfg E) \<and> needsRobots h now then send_robots E hk now g else send_url E hk now g })"
    using g(1) by (auto simp: DispatchShard_def bind_eq_Some_conv)
  show ?thesis
  proof (cases hko)
    case None
    then show ?thesis using D g by (simp add: picked_def inv_def idle_dispatch_def)
  next
    case (Some hk)
    then obtain h where h: "base_okS E {} g" "pools_ok E {hk} g" "hosts g hk = Some h" "he_back h \<noteq> []"
      "\<not> he_inFlight h" "eligibleNow g h \<le> now"
      using g(2) by (auto simp: picked_def)
    have sg: "small g" using calm_small [OF g(3)] s by simp
    have "\<exists>req f' h'. DispatchShard E now shard f = Some (Some req, f') \<and> inv E f' \<and> others_same hk g f'
        \<and> request_for E hk req f' \<and> (rq_Robots req \<longrightarrow> cf_robotsOn (cfg E)) \<and> hosts f' hk = Some h' \<and> spent E now h h'"
      using send_robots_ok [OF h(1-4) sg, of now] send_url_ok [OF h(1-5) sg, of now] D Some h(3)
      by (cases "cf_robotsOn (cfg E) \<and> needsRobots h now") auto
    then obtain req f' h' where f': "DispatchShard E now shard f = Some (Some req, f')" "inv E f'" "others_same hk g f'"
        "request_for E hk req f'" "rq_Robots req \<longrightarrow> cf_robotsOn (cfg E)" "hosts f' hk = Some h'" "spent E now h h'"
      by blast
    have rq: "rq_HostKey req = hk" using f'(4) by (simp add: request_for_def)
    obtain h0 where h0: "hosts f hk = Some h0" "host_calm h0 h" using calmD [OF g(3) h(3)] by blast
    have "h_HostNextEligible (he_rec h0) \<le> now" using h0(2) h(6) eligible_host [of h g] by (simp add: host_calm_def)
    moreover have "spent E now h0 h'" using f'(7) h0(2) by (simp add: spent_def host_calm_def)
    moreover have "\<not> he_inFlight h0" using h(5) h0(2) by (simp add: host_calm_def)
    ultimately have "sent_dispatch E now req f f'"
      unfolding sent_dispatch_def rq using f' h0 g(3) by (auto simp: others_same_def calm_def)
    then show ?thesis using f'(1,2,3) g(5) by (simp add: others_same_def)
  qed
qed

section \<open>Outcomes\<close>

text \<open>A change of one row that keeps its identity and references.\<close>

lemma upd_rec_keep:
  assumes b: "base_okS E {} f"
    and g: "\<And>r. u_URLKey (g r) = u_URLKey r \<and> u_HostKey (g r) = u_HostKey r \<and> u_URLRef (g r) = u_URLRef r \<and> u_ETagRef (g r) = u_ETagRef r"
  shows "base_okS E {} (upd_rec k g f)" "intake f (upd_rec k g f)"
  using upd_rec_ok [OF b, of k g] g by (auto simp: rec_ok_def)

lemma SetNextDue_fields [simp]:
  "u_URLKey (SetNextDue E i n r) = u_URLKey r" "u_HostKey (SetNextDue E i n r) = u_HostKey r"
  "u_URLRef (SetNextDue E i n r) = u_URLRef r" "u_ETagRef (SetNextDue E i n r) = u_ETagRef r"
  by (simp_all add: SetNextDue_def Let_def)

lemma reschedule_ok:
  assumes b: "base_okS E {} f"
  shows "base_okS E {} (reschedule E k hko now f)" "intake f (reschedule E k hko now f)"
proof -
  define f1 where "f1 = upd_rec k (\<lambda>rec. let rec1 = rec\<lparr> u_Lambda := l_Estimate (lib E) rec \<rparr> in
      SetNextDue E (l_TargetInterval (lib E) rec1 (host_rec hko f) (f_world f)) (now div 3600) rec1) f"
  have b1: "base_okS E {} f1" "intake f f1"
    unfolding f1_def using upd_rec_keep [OF b] by (simp_all add: Let_def)
  define f2 where "f2 = f1\<lparr> f_reschedN := f_reschedN f1 + 1 \<rparr>"
  note b2 = world_ok(5,6) [OF b1(1), of "f_reschedN f1 + 1", folded f2_def]
  note b3 = world_ok(1,2) [OF b2(1)]
  note b4 = world_ok(5,6) [OF b3(1)]
  have "reschedule E k hko now f = (if f_reschedN f2 \<ge> tauTickEvery
      then f2\<lparr> f_world := l_Tick (lib E) (scheduledRate E f2) (f_world f2), f_reschedN := 0 \<rparr> else f2)"
    by (simp only: reschedule_def f1_def f2_def Let_def)
  then show "base_okS E {} (reschedule E k hko now f)" "intake f (reschedule E k hko now f)"
    using b2 b4 intake_trans [OF b1(2) b2(2)] intake_trans [OF b1(2) intake_trans [OF b2(2) intake_trans [OF b3(2) b4(2)]]]
    by simp_all
qed

lemma discover_all_ok:
  "base_okS E {} f \<Longrightarrow> base_okS E {} (discover_all E ds now f) \<and> intake f (discover_all E ds now f)"
proof (induction ds arbitrary: f)
  case (Cons d ds)
  note D = Discover_ok [OF Cons.prems, of d now]
  then have "base_okS E {} (discover_all E ds now (snd (Discover E d now f)))"
    "intake (snd (Discover E d now f)) (discover_all E ds now (snd (Discover E d now f)))"
    using Cons.IH by blast+
  then show ?case using D intake_trans by fastforce
qed simp

lemma spreadCash_ok:
  assumes b: "base_okS E {} f"
  shows "base_okS E {} (spreadCash E k hko ls now f)" "intake f (spreadCash E k hko ls now f)"
proof -
  have "base_okS E {} (reprice E k hko (discover_all E ds now (f\<lparr> f_world := w \<rparr>)))
      \<and> intake f (reprice E k hko (discover_all E ds now (f\<lparr> f_world := w \<rparr>)))" for ds w
  proof -
    note W = world_ok(1,2) [OF b, of w]
    note D = discover_all_ok [OF W(1), of ds now]
    note R = reprice_ok [of E "discover_all E ds now (f\<lparr> f_world := w \<rparr>)" k hko]
    show ?thesis using D R intake_trans [OF W(2) intake_trans [OF _ R(2)]] by blast
  qed
  then show "base_okS E {} (spreadCash E k hko ls now f)" "intake f (spreadCash E k hko ls now f)"
    using b by (cases "recs f k"; simp add: spreadCash_def Let_def split_beta)+
qed

lemma crawl_row_fields [simp]:
  "u_URLKey (crawl_row out s r) = u_URLKey r" "u_HostKey (crawl_row out s r) = u_HostKey r"
  "u_URLRef (crawl_row out s r) = u_URLRef r" "u_ETagRef (crawl_row out s r) = u_ETagRef r"
  by (simp_all add: crawl_row_def fold_change_def Let_def split: ChangeKind.split)

lemma markCrawled_ok:
  assumes b: "base_okS E {} f"
  shows "base_okS E {} (markCrawled E key hko out now f)" "intake f (markCrawled E key hko out now f)"
proof -
  have "base_okS E {} (markCrawled E key hko out now f) \<and> intake f (markCrawled E key hko out now f)"
  proof (cases "recs f key")
    case None
    then show ?thesis using b by (simp add: markCrawled_def)
  next
    case (Some rec)
    define ss where "ss = (if \<not> o_NotModified out \<and> o_ContentFP out \<noteq> 0
        then Observe (u_HostKey rec) (o_ContentFP out) (o_URLKey out) (f_soft f) else (False, f_soft f))"
    define f1 where "f1 = set_rec key (crawl_row out (fst ss) rec) (f\<lparr> f_soft := snd ss \<rparr>)"
    define f2 where "f2 = (if o_ETag out \<noteq> []
        then upd_rec key (\<lambda>r. r\<lparr> u_ETagRef := fst (intern (o_ETag out) f1) \<rparr>) (snd (intern (o_ETag out) f1)) else f1)"
    define f3 where "f3 = (if cf_freshOn (cfg E) then reschedule E key hko now f2 else f2)"
    define f4 where "f4 = (if cf_prioOn (cfg E) \<and> o_Links out \<noteq> [] then spreadCash E key hko (o_Links out) now f3 else f3)"
    have e: "markCrawled E key hko out now f = (case recs f4 key of None \<Rightarrow> f4
        | Some r4 \<Rightarrow> if cf_wheelOn (cfg E) \<and> u_Status r4 = StatusCrawled
            then f4\<lparr> f_wheel := wheel_add (u_URLKey r4) (u_NextDue r4) (f_wheel f4) \<rparr> else f4)"
      using Some unfolding markCrawled_def ss_def f1_def f2_def f3_def f4_def by (simp only: option.case Let_def split_beta)
    note S = world_ok(3,4) [OF b, of "snd ss"]
    have ok: "rec_ok (f\<lparr> f_soft := snd ss \<rparr>) key (crawl_row out (fst ss) rec)"
      using base_okD(8) [OF S(1), of key rec] Some by (simp add: rec_ok_def)
    have b1: "base_okS E {} f1" unfolding f1_def by (rule set_rec_ok [OF S(1) ok]) (use Some in auto)
    have i1: "intake f f1" unfolding f1_def by (rule intake_trans [OF S(2) set_rec_intake])
    note I = intern_ok [OF b1, of "o_ETag out"] intern_intake [of f1 "o_ETag out"]
    have "base_okS E {} (upd_rec key (\<lambda>r. r\<lparr> u_ETagRef := fst (intern (o_ETag out) f1) \<rparr>) (snd (intern (o_ETag out) f1)))"
      "intake (snd (intern (o_ETag out) f1)) (upd_rec key (\<lambda>r. r\<lparr> u_ETagRef := fst (intern (o_ETag out) f1) \<rparr>) (snd (intern (o_ETag out) f1)))"
      using upd_rec_ok [OF I(1), of key "\<lambda>r. r\<lparr> u_ETagRef := fst (intern (o_ETag out) f1) \<rparr>"]
        intern_ref [OF base_okD(7) [OF b1], of "o_ETag out"]
      by (simp_all add: rec_ok_def)
    then have b2: "base_okS E {} f2" "intake f f2"
      unfolding f2_def using b1 i1 intake_trans [OF i1 intake_trans [OF I(2)]] by simp_all
    have b3: "base_okS E {} f3" "intake f f3"
      unfolding f3_def using b2 reschedule_ok [OF b2(1)] intake_trans [OF b2(2)] by simp_all
    have b4: "base_okS E {} f4" "intake f f4"
      unfolding f4_def using b3 spreadCash_ok [OF b3(1)] intake_trans [OF b3(2)] by simp_all
    note W = wheel_ok [OF b4(1) wheel_add_wf_abs(1) [OF base_okD(6) [OF b4(1)]]]
    show ?thesis unfolding e using b4 W intake_trans [OF b4(2) W(2)] by (simp split: option.split)
  qed
  then show "base_okS E {} (markCrawled E key hko out now f)" "intake f (markCrawled E key hko out now f)" by auto
qed

lemma recordRedirect_ok:
  assumes b: "base_okS E {} f" and s: "small f" and k: "recs f key \<noteq> None"
  shows "\<exists>f'. recordRedirect E key out now f = Some f' \<and> base_okS E {} f' \<and> intake f f'"
proof (cases "o_RedirectTarget out = []")
  case True
  then show ?thesis using b by (simp add: recordRedirect_def)
next
  case False
  obtain rec where rec: "recs f key = Some rec" using k by auto
  obtain base where base: "str f (u_URLRef rec) = Some base"
    using str_ok [OF s] base_okD(8) [OF b rec] s by (auto simp: rec_ok_def)
  show ?thesis
  proof (cases "l_CanonicalKey (lib E) (o_RedirectTarget out) base")
    case None
    then show ?thesis using False rec base b by (simp add: recordRedirect_def)
  next
    case (Some tc)
    define d where "d = \<lparr> d_URLKey = fst tc, d_CanonicalURL = snd tc, d_Depth = u_Depth rec,
        d_DiscoverySource = SourceRedirect, d_SrcHostKey = u_HostKey rec, d_LinkWeight = u_Priority rec,
        d_AnchorHint = AnchorUnknown, d_ObservedAt = o_FetchedAt out \<rparr>"
    note D = Discover_ok [OF b, of d now]
    define f1 where "f1 = snd (Discover E d now f)"
    have b1: "base_okS E {} f1" "intake f f1" using D by (auto simp: f1_def)
    note I = intern_ok [OF b1(1), of "snd tc"] intern_intake [of f1 "snd tc"]
    note U = upd_rec_keep [OF I(1), of "\<lambda>r. r\<lparr> u_RedirectRef := fst (intern (snd tc) f1) \<rparr>" key]
    have "recordRedirect E key out now f
        = Some (upd_rec key (\<lambda>r. r\<lparr> u_RedirectRef := fst (intern (snd tc) f1) \<rparr>) (snd (intern (snd tc) f1)))"
      using False rec base Some by (simp add: recordRedirect_def split_beta f1_def d_def Let_def)
    then show ?thesis using U intake_trans [OF b1(2) intake_trans [OF I(2) U(2)]] by simp
  qed
qed

lemma fail_row_fields [simp]:
  "u_URLKey (snd (fail_row out r)) = u_URLKey r" "u_HostKey (snd (fail_row out r)) = u_HostKey r"
  "u_URLRef (snd (fail_row out r)) = u_URLRef r" "u_ETagRef (snd (fail_row out r)) = u_ETagRef r"
  by (simp_all add: fail_row_def Let_def)

section \<open>Report\<close>

text \<open>What an outcome may change: the host it is about, rows, new hosts, never a window.\<close>

definition reported :: "u64 \<Rightarrow> 'w Frontier \<Rightarrow> 'w Frontier \<Rightarrow> bool" where
  "reported hk f f' \<longleftrightarrow> extends f f' \<and> f_active f' \<le> f_active f \<and> (\<forall>k. recs f k \<noteq> None \<longrightarrow> recs f' k \<noteq> None)
     \<and> (\<forall>x. case hosts f x of
          None \<Rightarrow> (\<forall>h'. hosts f' x = Some h' \<longrightarrow> fresh_host x h')
        | Some h \<Rightarrow> (\<exists>h'. hosts f' x = Some h' \<and> h_HostNextEligible (he_rec h') = h_HostNextEligible (he_rec h)
                       \<and> (x \<noteq> hk \<longrightarrow> same_shape h h')))"

lemma intake_reported: "intake f f' \<Longrightarrow> reported hk f f'"
  unfolding intake_def reported_def by (fastforce simp: same_shape_def split: option.splits)

lemma reported_refl [simp]: "reported hk f f"
  by (rule intake_reported) simp

lemma reported_trans:
  assumes "reported hk f g" "reported hk g h" "hosts f hk \<noteq> None"
  shows "reported hk f h"
proof -
  have "case hosts f x of None \<Rightarrow> (\<forall>h'. hosts h x = Some h' \<longrightarrow> fresh_host x h')
      | Some a \<Rightarrow> (\<exists>h'. hosts h x = Some h' \<and> h_HostNextEligible (he_rec h') = h_HostNextEligible (he_rec a)
                       \<and> (x \<noteq> hk \<longrightarrow> same_shape a h'))" for x
    using assms(1,2) [unfolded reported_def, THEN conjunct2, THEN conjunct2, THEN conjunct2, THEN spec [of _ x]] assms(3)
    by (cases "hosts f x"; cases "hosts g x") (auto intro: same_shape_trans fresh_same_shape)
  then show ?thesis using assms(1,2) extends_trans order_trans [of "f_active h" "f_active g" "f_active f"] unfolding reported_def by blast
qed

lemma put_reported:
  assumes "hosts f hk = Some h" "h_HostNextEligible (he_rec h') = h_HostNextEligible (he_rec h)"
    "f_hosts f' = f_hosts (set_host hk h' f)" "f_arena f' = f_arena f" "f_records f' = f_records f"
    "f_active f' \<le> f_active f"
  shows "reported hk f f'"
  unfolding reported_def extends_def assms(3-5) using assms(1,2,6) by (auto split: option.splits)

lemma adapt_fields [simp]:
  "he_back (adapt E out h) = he_back h" "he_active (adapt E out h) = he_active h"
  "he_inFlight (adapt E out h) = he_inFlight h" "he_robotsState (adapt E out h) = he_robotsState h"
  "h_HostKey (he_rec (adapt E out h)) = h_HostKey (he_rec h)" "h_HostRef (he_rec (adapt E out h)) = h_HostRef (he_rec h)"
  "h_HostNextEligible (he_rec (adapt E out h)) = h_HostNextEligible (he_rec h)"
  by (simp_all add: adapt_def Let_def)

text \<open>The host under report: in flight, out of the pools, not waiting for robots.\<close>

definition under_report :: "'w env \<Rightarrow> u64 \<Rightarrow> 'w Frontier \<Rightarrow> bool" where
  "under_report E hk f \<longleftrightarrow> base_okS E {} f \<and> pools_ok E {hk} f
     \<and> (\<exists>h. hosts f hk = Some h \<and> he_inFlight h \<and> he_robotsState h \<noteq> robotsPending)"

lemma under_report_intake:
  assumes "under_report E hk f" "base_okS E {} f'" "intake f f'"
  shows "under_report E hk f'"
proof -
  obtain h where h: "hosts f hk = Some h" "he_inFlight h" "he_robotsState h \<noteq> robotsPending" "pools_ok E {hk} f"
    using assms(1) by (auto simp: under_report_def)
  obtain h' where "hosts f' hk = Some h'" "same_shape h h'" using intake_host [OF assms(3) h(1)] by blast
  then show ?thesis
    using assms(2) intake_pools [OF assms(3) h(4)] h by (auto simp: under_report_def same_shape_def)
qed

lemma failURL_ok:
  assumes u: "under_report E hk f" and k: "HostKey key = hk" "recs f key \<noteq> None"
  shows "under_report E hk (failURL key (Some hk) out f)" "reported hk f (failURL key (Some hk) out f)"
proof -
  obtain h where h: "hosts f hk = Some h" "he_inFlight h" "he_robotsState h \<noteq> robotsPending"
    and b: "base_okS E {} f" and p: "pools_ok E {hk} f"
    using u by (auto simp: under_report_def)
  obtain rec where rec: "recs f key = Some rec" using k by auto
  note ro = base_okD(8) [OF b rec]
  define f1 where "f1 = set_rec key (snd (fail_row out rec)) f"
  have "rec_ok f key (snd (fail_row out rec))" using ro by (simp add: rec_ok_def)
  then have b1: "base_okS E {} f1" unfolding f1_def by (rule set_rec_ok [OF b]) (use rec in auto)
  have i1: "intake f f1" unfolding f1_def by (rule set_rec_intake)
  have u1: "under_report E hk f1" by (rule under_report_intake [OF u b1 i1])
  let ?h = "h\<lparr> he_back := he_back h @ [key] \<rparr>"
  have h1: "hosts f1 hk = Some h" using h by (simp add: f1_def)
  have act: "he_active h" using base_okD(9) [OF b h(1)] h(2) by (auto simp: host_ok_def)
  have "host_ok E f1 hk ?h"
    using base_okD(9) [OF b1 h1] k rec act by (auto simp: host_ok_def f1_def)
  then have b2: "base_okS E {} (set_host hk ?h f1)" by (rule put_host_same [OF b1 h1]) simp
  have p2: "pools_ok E {hk} (set_host hk ?h f1)"
    by (rule put_host_pools [of _ _ f1 hk ?h]) (use u1 h1 in \<open>auto simp: under_report_def\<close>)
  have u2: "under_report E hk (set_host hk ?h f1)" using b2 p2 h by (simp add: under_report_def)
  have r2: "reported hk f (set_host hk ?h f1)"
    by (rule reported_trans [OF intake_reported [OF i1] put_reported [OF h1]]) (use h in simp_all)
  have "failURL key (Some hk) out f = (if fst (fail_row out rec) then set_host hk ?h f1 else f1)"
    using rec ro h1 by (simp add: failURL_def split_beta Let_def f1_def [symmetric] upd_host_def rec_ok_def)
  then show "under_report E hk (failURL key (Some hk) out f)" "reported hk f (failURL key (Some hk) out f)"
    using u1 u2 r2 intake_reported [OF i1] by simp_all
qed

lemma outcome_step_ok:
  assumes u: "under_report E hk f" and k: "HostKey key = hk" "recs f key \<noteq> None" and s: "small f"
  shows "\<exists>f'. outcome_step E key (Some hk) out now f = Some f' \<and> under_report E hk f' \<and> reported hk f f'"
proof -
  have b: "base_okS E {} f" using u by (simp add: under_report_def)
  have mark: "under_report E hk (markCrawled E key (Some hk) out now g) \<and> reported hk f (markCrawled E key (Some hk) out now g)"
    if "base_okS E {} g" "intake f g" for g
    using markCrawled_ok [OF that(1)] intake_trans [OF that(2)] under_report_intake [OF u] intake_reported by blast
  obtain f1 where f1: "recordRedirect E key out now f = Some f1" "base_okS E {} f1" "intake f f1"
    using recordRedirect_ok [OF b s k(2)] by blast
  show ?thesis
    unfolding outcome_step_def using f1 mark [OF b intake_refl] mark [OF f1(2,3)] failURL_ok [OF u k]
    by simp
qed

end
