(* ===== verification/FrontierTrace.thy ===== *)
theory FrontierTrace
  imports FrontierRun
begin

text \<open>
  Report and the run relation: every interleaving of intake, dispatch and report from a new frontier
  keeps the invariant, with the properties of the whole scheduler that follow from it.
\<close>

section \<open>Report of a fetched URL\<close>

text \<open>The protocol of the caller: an outcome is reported for the request that is out.\<close>

definition awaiting :: "'w env \<Rightarrow> 'w Frontier \<Rightarrow> URLKey \<Rightarrow> bool" where
  "awaiting E f key \<longleftrightarrow> (case hosts f (HostKey key) of None \<Rightarrow> False
     | Some h \<Rightarrow> he_inFlight h \<and> (if he_robotsState h = robotsPending then key = robotsKey E (HostKey key)
                                  else he_back h \<noteq> [] \<and> hd (he_back h) = key))"

lemma inflight_suspended:
  assumes "inv E f" "hosts f hk = Some h" "he_inFlight h"
  shows "pools_ok E {hk} f"
proof (rule pools_suspend)
  have "pool_ok E f hk h" using assms by (simp add: inv_def pools_ok_def)
  then show "pooled f hk = 0" using assms(3) by (auto simp: pool_ok_def)
qed (use assms in \<open>auto simp: inv_def\<close>)

lemma report_tail_ok:
  fixes out :: Outcome
  assumes u: "under_report E hk f" and h: "hosts f hk = Some h"
  defines "h1 \<equiv> (adapt E out h)\<lparr> he_inFlight := False \<rparr>"
  shows "\<exists>f' h'. (if he_back h1 = [] then Some ((set_host hk (h1\<lparr> he_active := False \<rparr>) f)\<lparr> f_active := f_active f - 1 \<rparr>)
        else place hk now (set_host hk h1 f)) = Some f' \<and> inv E f' \<and> reported hk f f'
        \<and> hosts f' hk = Some h' \<and> \<not> he_inFlight h'"
proof -
  have b: "base_okS E {} f" and p: "pools_ok E {hk} f" and i: "he_inFlight h" "he_robotsState h \<noteq> robotsPending"
    using u h by (auto simp: under_report_def)
  note ho = base_okD(9) [OF b h]
  then have act: "he_active h" using i by (auto simp: host_ok_def)
  have p0: "pooled f hk = 0" using p by (simp add: pools_ok_def)
  show ?thesis
  proof (cases "he_back h = []")
    case True
    let ?h = "h1\<lparr> he_active := False \<rparr>"
    let ?f = "(set_host hk ?h f)\<lparr> f_active := f_active f - 1 \<rparr>"
    have "host_ok E f hk ?h" using ho i True by (auto simp: host_ok_def h1_def)
    then have bf: "base_okS E {} ?f" by (rule put_host_ok [OF b h]) (simp add: act)
    have "pools_ok E {hk} ?f" by (rule put_host_pools [OF p, of hk ?h]) (auto simp: h)
    then have "pools_ok E {} ?f"
      by (rule pools_resume) (use p0 in \<open>auto simp: set_host_def map_of_mput pool_ok_def pooled_def\<close>)
    moreover have "reported hk f ?f" by (rule put_reported [OF h, of ?h]) (simp_all add: h1_def)
    ultimately show ?thesis
      using True bf by (intro exI [of _ ?f] exI [of _ ?h]) (simp add: h1_def inv_def)
  next
    case False
    let ?f = "set_host hk h1 f"
    have "host_ok E f hk h1" using ho i act by (auto simp: host_ok_def h1_def)
    then have bf: "base_okS E {} ?f" by (rule put_host_same [OF b h]) (simp add: h1_def)
    have pf: "pools_ok E {hk} ?f" by (rule put_host_pools [OF p, of hk h1]) (auto simp: h)
    have hf: "hosts ?f hk = Some h1" by simp
    obtain r q where pl: "place hk now ?f = Some (?f\<lparr> f_wait := q, f_ready := r \<rparr>)"
      "inv E (?f\<lparr> f_wait := q, f_ready := r \<rparr>)"
      by (rule place_ok [OF bf pf hf, of now]) (use False in \<open>auto simp: h1_def\<close>)
    have "reported hk f (?f\<lparr> f_wait := q, f_ready := r \<rparr>)"
      by (rule put_reported [OF h, of h1]) (simp_all add: h1_def)
    then show ?thesis
      using False pl
      by (intro exI [of _ "?f\<lparr> f_wait := q, f_ready := r \<rparr>"] exI [of _ h1]) (simp add: h1_def)
  qed
qed

text \<open>The first half of a report: the URL leaves the head of its queue, its status is written.\<close>

definition popped :: "Outcome \<Rightarrow> 'w Frontier \<Rightarrow> 'w Frontier" where
  "popped out f =
     upd_rec (o_URLKey out) (\<lambda>r. r\<lparr> u_HTTPStatus := o_HTTPStatus out \<rparr>)
       (upd_host (HostKey (o_URLKey out)) (\<lambda>h. h\<lparr> he_back := tl (he_back h) \<rparr>) f)"

definition report_tail :: "'w env \<Rightarrow> u64 \<Rightarrow> Outcome \<Rightarrow> u32 \<Rightarrow> 'w Frontier \<Rightarrow> 'w Frontier option" where
  "report_tail E hk out now f = do {
     h \<leftarrow> mget (f_hosts f) hk;
     let h1 = (adapt E out h)\<lparr> he_inFlight := False \<rparr>;
     if he_back h1 = [] then Some ((set_host hk (h1\<lparr> he_active := False \<rparr>) f)\<lparr> f_active := f_active f - 1 \<rparr>)
     else place hk now (set_host hk h1 f)
   }"

lemma awaiting_url:
  assumes i: "inv E f" and a: "awaiting E f (o_URLKey out)" and n: "\<not> robots_report E out f"
  obtains h ks rec where "hosts f (HostKey (o_URLKey out)) = Some h" "he_inFlight h" "he_robotsState h \<noteq> robotsPending"
    "he_back h = o_URLKey out # ks" "recs f (o_URLKey out) = Some rec" "u_HostKey rec = HostKey (o_URLKey out)"
proof -
  have b: "base_okS E {} f" using i by (simp add: inv_def)
  obtain h where h: "hosts f (HostKey (o_URLKey out)) = Some h" "he_inFlight h"
    and aw: "if he_robotsState h = robotsPending then o_URLKey out = robotsKey E (HostKey (o_URLKey out))
             else he_back h \<noteq> [] \<and> hd (he_back h) = o_URLKey out"
    using a by (auto simp: awaiting_def split: option.splits)
  note ho = base_okD(9) [OF b h(1)]
  have np: "he_robotsState h \<noteq> robotsPending" using n aw ho h(1) by (auto simp: robots_report_def host_ok_def)
  then obtain ks where ks: "he_back h = o_URLKey out # ks" using aw by (cases "he_back h") auto
  then obtain rec where rec: "recs f (o_URLKey out) = Some rec" using ho by (auto simp: host_ok_def)
  then have "u_HostKey rec = HostKey (o_URLKey out)" using base_okD(8) [OF b rec] by (simp add: rec_ok_def)
  then show thesis using that h np ks rec by blast
qed

lemma Report_url_eq:
  assumes i: "inv E f" and a: "awaiting E f (o_URLKey out)" and n: "\<not> robots_report E out f"
  shows "Report E out now f = do {
      f3 \<leftarrow> outcome_step E (o_URLKey out) (Some (HostKey (o_URLKey out))) out now (popped out f);
      report_tail E (HostKey (o_URLKey out)) out now f3 }"
proof -
  obtain h ks rec where h: "hosts f (HostKey (o_URLKey out)) = Some h" "he_back h = o_URLKey out # ks"
    "recs f (o_URLKey out) = Some rec" "u_HostKey rec = HostKey (o_URLKey out)"
    by (rule awaiting_url [OF i a n])
  have "upd_host (HostKey (o_URLKey out)) (\<lambda>h. case he_back h of k # ks \<Rightarrow> if k = o_URLKey out then h\<lparr> he_back := ks \<rparr> else h | [] \<Rightarrow> h) f
      = upd_host (HostKey (o_URLKey out)) (\<lambda>h. h\<lparr> he_back := tl (he_back h) \<rparr>) f"
    using h by (simp add: upd_host_def)
  then show ?thesis
    using n h by (simp add: Report_def popped_def report_tail_def Let_def)
qed

lemma popped_ok:
  assumes i: "inv E f" and a: "awaiting E f (o_URLKey out)" and n: "\<not> robots_report E out f"
  shows "under_report E (HostKey (o_URLKey out)) (popped out f)" "reported (HostKey (o_URLKey out)) f (popped out f)"
    "recs (popped out f) (o_URLKey out) \<noteq> None" "f_arena (popped out f) = f_arena f"
proof -
  define hk where "hk = HostKey (o_URLKey out)"
  have b: "base_okS E {} f" using i by (simp add: inv_def)
  obtain h ks rec where h: "hosts f hk = Some h" "he_inFlight h" "he_robotsState h \<noteq> robotsPending"
    "he_back h = o_URLKey out # ks" "recs f (o_URLKey out) = Some rec"
    unfolding hk_def by (rule awaiting_url [OF i a n])
  let ?h = "h\<lparr> he_back := tl (he_back h) \<rparr>"
  define f1 where "f1 = set_host hk ?h f"
  have "host_ok E f hk ?h" using base_okD(9) [OF b h(1)] h by (auto simp: host_ok_def)
  then have b1: "base_okS E {} f1" unfolding f1_def by (rule put_host_same [OF b h(1)]) simp
  have p1: "pools_ok E {hk} f1"
    unfolding f1_def by (rule put_host_pools [OF inflight_suspended [OF i h(1,2)], of hk ?h]) (auto simp: h)
  have u1: "under_report E hk f1" using b1 p1 h by (simp add: under_report_def f1_def)
  have r1: "reported hk f f1" by (rule put_reported [OF h(1), of ?h]) (simp_all add: f1_def)
  have e: "popped out f = upd_rec (o_URLKey out) (\<lambda>r. r\<lparr> u_HTTPStatus := o_HTTPStatus out \<rparr>) f1"
    using h(1) by (simp add: popped_def upd_host_def hk_def [symmetric] f1_def)
  have i2: "base_okS E {} (popped out f)" "intake f1 (popped out f)"
    unfolding e using upd_rec_keep [OF b1, of "\<lambda>r. r\<lparr> u_HTTPStatus := o_HTTPStatus out \<rparr>"] by simp_all
  show "under_report E (HostKey (o_URLKey out)) (popped out f)"
    using under_report_intake [OF u1 i2] by (simp add: hk_def)
  show "reported (HostKey (o_URLKey out)) f (popped out f)"
    unfolding hk_def [symmetric] by (rule reported_trans [OF r1 intake_reported [OF i2(2)]]) (use h in simp)
  show "recs (popped out f) (o_URLKey out) \<noteq> None"
    using intake_recs [OF i2(2)] h by (simp add: f1_def)
  show "f_arena (popped out f) = f_arena f" by (simp add: popped_def upd_rec_def upd_host_def split: option.split)
qed

lemma report_tail_inv:
  assumes "under_report E hk f"
  shows "\<exists>f' h'. report_tail E hk out now f = Some f' \<and> inv E f' \<and> reported hk f f'
     \<and> hosts f' hk = Some h' \<and> \<not> he_inFlight h'"
proof -
  obtain h where "hosts f hk = Some h" using assms by (auto simp: under_report_def)
  then show ?thesis using report_tail_ok [OF assms, of h out now] by (simp add: report_tail_def Let_def)
qed

lemma Report_url_ok:
  assumes i: "inv E f" and s: "small f" and a: "awaiting E f (o_URLKey out)" and n: "\<not> robots_report E out f"
  shows "\<exists>f' h'. Report E out now f = Some f' \<and> inv E f' \<and> reported (HostKey (o_URLKey out)) f f'
     \<and> hosts f' (HostKey (o_URLKey out)) = Some h' \<and> \<not> he_inFlight h'"
proof -
  note P = popped_ok [OF i a n]
  have "small (popped out f)" using s P(4) by (simp add: small_def)
  then obtain f3 where f3: "outcome_step E (o_URLKey out) (Some (HostKey (o_URLKey out))) out now (popped out f) = Some f3"
    "under_report E (HostKey (o_URLKey out)) f3" "reported (HostKey (o_URLKey out)) (popped out f) f3"
    using outcome_step_ok [OF P(1) refl P(3)] by blast
  obtain f' h' where T: "report_tail E (HostKey (o_URLKey out)) out now f3 = Some f'" "inv E f'"
    "reported (HostKey (o_URLKey out)) f3 f'" "hosts f' (HostKey (o_URLKey out)) = Some h'" "\<not> he_inFlight h'"
    using report_tail_inv [OF f3(2)] by blast
  have h: "hosts f (HostKey (o_URLKey out)) \<noteq> None" using a by (auto simp: awaiting_def split: option.splits)
  have "reported (HostKey (o_URLKey out)) f f'" by (intro reported_trans [OF P(2)] reported_trans [OF f3(3) T(3)] h)
      (use P(1) in \<open>auto simp: under_report_def\<close>)
  then show ?thesis using T f3(1) by (simp add: Report_url_eq [OF i a n])
qed

section \<open>Report of a robots file\<close>

lemma filter_back_ok:
  assumes "base_okS E {} f" "small f" "\<forall>k \<in> set ks. recs f k \<noteq> None"
  shows "\<exists>kept f'. filter_back h ks f = Some (kept, f') \<and> set kept \<subseteq> set ks \<and> base_okS E {} f' \<and> refile f f'"
  using assms
proof (induction ks arbitrary: f)
  case (Cons k ks)
  obtain v where v: "allowed h k f = Some v" using allowed_ok [OF Cons.prems(1,2)] by blast
  obtain rec where rec: "recs f k = Some rec" using Cons.prems(3) by auto
  define f1 where "f1 = (if v then f else set_rec k (rec\<lparr> u_Status := StatusExcludedRobots \<rparr>) f)"
  have rk: "rec_ok f k (rec\<lparr> u_Status := StatusExcludedRobots \<rparr>)" using base_okD(8) [OF Cons.prems(1) rec] by (simp add: rec_ok_def)
  have b1: "base_okS E {} f1" unfolding f1_def using Cons.prems(1) set_rec_ok [OF Cons.prems(1) rk] rec by simp
  have r1: "refile f f1" unfolding f1_def using set_rec_refile [of f k] rec by simp
  have "small f1" "\<forall>k \<in> set ks. recs f1 k \<noteq> None"
    using Cons.prems(2,3) r1 calm_small [of f f1] by (auto simp: refile_def calm_def)
  then obtain kept f' where "filter_back h ks f1 = Some (kept, f')" "set kept \<subseteq> set ks" "base_okS E {} f'" "refile f1 f'"
    using Cons.IH [OF b1] by blast
  moreover from this have "refile f f'" using refile_trans [OF r1] by blast
  ultimately show ?case using v rec by (auto simp: f1_def split: if_splits)
qed simp

lemma robots_outcome_fields [simp]:
  "he_back (robots_outcome E out now h) = he_back h" "he_active (robots_outcome E out now h) = he_active h"
  "h_HostKey (he_rec (robots_outcome E out now h)) = h_HostKey (he_rec h)"
  "h_HostRef (he_rec (robots_outcome E out now h)) = h_HostRef (he_rec h)"
  "h_HostNextEligible (he_rec (robots_outcome E out now h)) = h_HostNextEligible (he_rec h)"
  by (simp_all add: robots_outcome_def Let_def)

lemma refile_reported: "refile f f' \<Longrightarrow> reported hk f f'"
  unfolding refile_def calm_def reported_def extends_def by (auto split: option.splits)

lemma applyRobots_ok:
  assumes i: "inv E f" and s: "small f" and h: "hosts f hk = Some h" "he_inFlight h" and on: "cf_robotsOn (cfg E)"
  shows "\<exists>f' h'. applyRobots E hk out now f = Some f' \<and> inv E f' \<and> reported hk f f'
     \<and> hosts f' hk = Some h' \<and> \<not> he_inFlight h'"
proof -
  have b: "base_okS E {} f" using i by (simp add: inv_def)
  note ho = base_okD(9) [OF b h(1)]
  define h2 where "h2 = (robots_outcome E out now h)\<lparr> he_robotsState := robotsReady, he_inFlight := False,
      he_rec := (he_rec (robots_outcome E out now h))\<lparr> h_RobotsFetched := now div 3600 \<rparr> \<rparr>"
  have f2: "he_back h2 = he_back h" "he_active h2 = he_active h" "\<not> he_inFlight h2" "he_robotsState h2 = robotsReady"
    "h_HostKey (he_rec h2) = h_HostKey (he_rec h)" "h_HostRef (he_rec h2) = h_HostRef (he_rec h)"
    "h_HostNextEligible (he_rec h2) = h_HostNextEligible (he_rec h)"
    by (simp_all add: h2_def)
  have act: "he_active h" using ho h(2) by (auto simp: host_ok_def)
  define f1 where "f1 = set_host hk h2 f"
  have o2: "host_ok E f hk h2" using ho f2 act on by (simp add: host_ok_def)
  have b1: "base_okS E {} f1" unfolding f1_def by (rule put_host_same [OF b h(1) o2]) (simp add: f2)
  have p1: "pools_ok E {hk} f1" unfolding f1_def
    by (rule put_host_pools [OF inflight_suspended [OF i h], of hk h2]) (auto simp: h)
  have r1: "reported hk f f1" by (rule put_reported [OF h(1), of h2]) (simp_all add: f1_def f2)
  have s1: "small f1" using s by (simp add: f1_def small_def)
  have hk1: "hosts f1 hk = Some h2" by (simp add: f1_def)
  have "\<forall>k \<in> set (he_back h2). recs f1 k \<noteq> None" using base_okD(9) [OF b1 hk1] by (simp add: host_ok_def)
  then obtain kept f2 where fb: "filter_back h2 (he_back h2) f1 = Some (kept, f2)" "set kept \<subseteq> set (he_back h2)"
    "base_okS E {} f2" "refile f1 f2"
    using filter_back_ok [OF b1 s1] by blast
  define g where "g = (if he_robots h2 = None then f1 else set_host hk (h2\<lparr> he_back := kept \<rparr>) f2)"
  have hk2: "hosts f2 hk = Some h2" using fb(4) hk1 by (simp add: refile_def)
  have fr: "filterRobots hk f1 = Some g" using hk1 fb by (simp add: filterRobots_def g_def)
  have o3: "host_ok E f2 hk (h2\<lparr> he_back := kept \<rparr>)" using base_okD(9) [OF fb(3) hk2] fb(2) f2 act on by (auto simp: host_ok_def)
  have bg: "base_okS E {} g"
    unfolding g_def using b1 put_host_same [OF fb(3) hk2 o3] by simp
  have p2: "pools_ok E {hk} f2" using p1 refile_pools [OF fb(4)] by simp
  have pg: "pools_ok E {hk} g" unfolding g_def using p1 put_host_pools [OF p2, of hk "h2\<lparr> he_back := kept \<rparr>"] hk2 by simp
  have "reported hk f1 g"
  proof (cases "he_robots h2 = None")
    case False
    have "reported hk f1 f2" by (rule refile_reported [OF fb(4)])
    moreover have "reported hk f2 g" by (rule put_reported [OF hk2, of "h2\<lparr> he_back := kept \<rparr>"]) (simp_all add: g_def False)
    ultimately show ?thesis by (rule reported_trans) (simp add: hk1)
  qed (simp add: g_def)
  then have rg: "reported hk f g" by (rule reported_trans [OF r1]) (simp add: h)
  obtain hg where hg: "hosts g hk = Some hg" "\<not> he_inFlight hg" using hk1 f2(3)
    by (cases "he_robots h2 = None") (auto simp: g_def)
  obtain r q where pl: "place hk now g = Some (g\<lparr> f_wait := q, f_ready := r \<rparr>)" "inv E (g\<lparr> f_wait := q, f_ready := r \<rparr>)"
    by (rule place_ok [OF bg pg hg(1), of now]) (use on in auto)
  have "reported hk g (g\<lparr> f_wait := q, f_ready := r \<rparr>)" by (simp add: reported_def extends_def split: option.splits)
  then have "reported hk f (g\<lparr> f_wait := q, f_ready := r \<rparr>)" by (rule reported_trans [OF rg]) (simp add: h)
  moreover have "applyRobots E hk out now f = Some (g\<lparr> f_wait := q, f_ready := r \<rparr>)"
    using h fr pl(1) by (simp add: applyRobots_def Let_def h2_def [symmetric] f1_def [symmetric])
  ultimately show ?thesis using pl(2) hg by auto
qed

lemma Report_ok:
  assumes i: "inv E f" and s: "small f" and a: "awaiting E f (o_URLKey out)"
  shows "\<exists>f' h'. Report E out now f = Some f' \<and> inv E f' \<and> reported (HostKey (o_URLKey out)) f f'
     \<and> hosts f' (HostKey (o_URLKey out)) = Some h' \<and> \<not> he_inFlight h'"
proof (cases "robots_report E out f")
  case True
  obtain h where h: "hosts f (HostKey (o_URLKey out)) = Some h" "he_inFlight h"
    using a by (auto simp: awaiting_def split: option.splits)
  have "cf_robotsOn (cfg E)" using True by (simp add: robots_report_def)
  then show ?thesis using applyRobots_ok [OF i s h] True by (simp add: Report_def)
next
  case False
  then show ?thesis using Report_url_ok [OF i s a] by blast
qed

section \<open>Runs\<close>

datatype fevent = Intake | Idle u32 | Sent u32 Request | Reported u64

inductive fstep :: "'w env \<Rightarrow> 'w Frontier \<Rightarrow> fevent \<Rightarrow> 'w Frontier \<Rightarrow> bool" for E where
  seed: "small f \<Longrightarrow> fstep E f Intake (Seed E url host p fs nd cd f)"
| discover: "small f \<Longrightarrow> fstep E f Intake (snd (Discover E d now f))"
| warm: "small f \<Longrightarrow> fstep E f Intake (Warm key etag lm pd f)"
| import_url: "small f \<Longrightarrow> fstep E f Intake (ImportURLSignal E u f)"
| import_host: "small f \<Longrightarrow> fstep E f Intake (ImportHostSignal s f)"
| idle: "small f \<Longrightarrow> DispatchShard E now shard f = Some (None, f') \<Longrightarrow> fstep E f (Idle now) f'"
| sent: "small f \<Longrightarrow> DispatchShard E now shard f = Some (Some req, f') \<Longrightarrow> fstep E f (Sent now req) f'"
| report: "small f \<Longrightarrow> awaiting E f (o_URLKey out) \<Longrightarrow> Report E out now f = Some f'
    \<Longrightarrow> fstep E f (Reported (HostKey (o_URLKey out))) f'"

inductive frun :: "'w env \<Rightarrow> 'w Frontier \<Rightarrow> fevent list \<Rightarrow> 'w Frontier \<Rightarrow> bool" for E where
  none: "frun E f [] f"
| more: "fstep E f e g \<Longrightarrow> frun E g es h \<Longrightarrow> frun E f (e # es) h"

inductive_cases fstep_IntakeE: "fstep E f Intake f'"
inductive_cases fstep_IdleE: "fstep E f (Idle now) f'"
inductive_cases fstep_SentE: "fstep E f (Sent now req) f'"
inductive_cases fstep_ReportedE: "fstep E f (Reported hk) f'"
inductive_simps frun_Nil [simp]: "frun E f [] f'"
inductive_simps frun_Cons: "frun E f (e # es) f'"

lemma intake_inv: "inv E f \<Longrightarrow> base_okS E {} f' \<and> intake f f' \<Longrightarrow> inv E f'"
  using intake_pools by (auto simp: inv_def)

text \<open>One step of each kind, from the invariant.\<close>

lemma Intake_step:
  assumes i: "inv E f" and st: "fstep E f Intake f'"
  shows "inv E f' \<and> intake f f'"
proof -
  have b: "base_okS E {} f" using i by (simp add: inv_def)
  have "base_okS E {} f' \<and> intake f f'"
    using st by (rule fstep_IntakeE)
      (auto simp: Seed_ok [OF b] Discover_ok [OF b] Warm_ok [OF b] ImportURLSignal_ok [OF b] ImportHostSignal_ok [OF b])
  then show ?thesis using intake_inv [OF i] by blast
qed

lemma DispatchShard_result:
  assumes "inv E f" "small f" "DispatchShard E now shard f = Some (r, f')"
  shows "inv E f' \<and> (case r of None \<Rightarrow> idle_dispatch E now f f' | Some req \<Rightarrow> sent_dispatch E now req f f')
     \<and> f_active f' \<le> max (f_active f) (effectiveTarget E)"
  using DispatchShard_ok [OF assms(1,2), of now shard] assms(3) by auto

lemma Idle_step:
  assumes "inv E f" "fstep E f (Idle now) f'"
  shows "inv E f' \<and> idle_dispatch E now f f' \<and> f_active f' \<le> max (f_active f) (effectiveTarget E)"
  using assms(2) by (rule fstep_IdleE) (use DispatchShard_result [OF assms(1), of now _ None f'] in simp)

lemma Sent_step:
  assumes "inv E f" "fstep E f (Sent now req) f'"
  shows "inv E f' \<and> sent_dispatch E now req f f' \<and> f_active f' \<le> max (f_active f) (effectiveTarget E)"
  using assms(2) by (rule fstep_SentE) (use DispatchShard_result [OF assms(1), of now _ "Some req" f'] in simp)

lemma Reported_step:
  assumes "inv E f" "fstep E f (Reported hk) f'"
  shows "inv E f' \<and> reported hk f f' \<and> (\<exists>h'. hosts f' hk = Some h' \<and> \<not> he_inFlight h')"
  using assms(2)
proof (rule fstep_ReportedE)
  fix out now
  assume "hk = HostKey (o_URLKey out)" "small f" "awaiting E f (o_URLKey out)" "Report E out now f = Some f'"
  then show ?thesis using Report_ok [OF assms(1), of out now] by auto
qed

lemma fstep_inv:
  assumes "inv E f" "fstep E f e f'"
  shows "inv E f' \<and> f_active f' \<le> max (f_active f) (effectiveTarget E)"
proof (cases e)
  case Intake
  then show ?thesis using Intake_step [of E f f'] assms by (auto simp: intake_def)
next
  case (Idle now)
  then show ?thesis using Idle_step [of E f now f'] assms by blast
next
  case (Sent now req)
  then show ?thesis using Sent_step [of E f now req f'] assms by blast
next
  case (Reported hk)
  then show ?thesis using Reported_step [of E f hk f'] assms by (auto simp: reported_def)
qed

lemma frun_inv:
  assumes "frun E f es f'" "inv E f"
  shows "inv E f' \<and> f_active f' \<le> max (f_active f) (effectiveTarget E)"
  using assms
proof (induction rule: frun.induct)
  case (more f e g es h)
  then show ?case using fstep_inv [of E f e g] by fastforce
qed simp

section \<open>One host through a run\<close>

text \<open>Whether an event touches a host's flight or window.\<close>

fun sends :: "u64 \<Rightarrow> fevent \<Rightarrow> bool" where
  "sends hk (Sent now req) = (rq_HostKey req = hk)"
| "sends hk e = False"

fun reports :: "u64 \<Rightarrow> fevent \<Rightarrow> bool" where
  "reports hk (Reported k) = (k = hk)"
| "reports hk e = False"

definition host_next :: "'w Frontier \<Rightarrow> u64 \<Rightarrow> u32 option" where
  "host_next f hk = map_option (\<lambda>h. h_HostNextEligible (he_rec h)) (hosts f hk)"

definition in_flight :: "'w Frontier \<Rightarrow> u64 \<Rightarrow> bool" where
  "in_flight f hk \<longleftrightarrow> (\<exists>h. hosts f hk = Some h \<and> he_inFlight h)"

lemma calm_host_next: "calm f f' \<Longrightarrow> host_next f' hk = host_next f hk \<and> in_flight f' hk = in_flight f hk"
  unfolding calm_def host_next_def in_flight_def
  by (elim conjE allE [of _ hk]) (cases "hosts f hk"; cases "hosts f' hk"; auto simp: host_calm_def)

lemma fstep_window:
  assumes i: "inv E f" and st: "fstep E f e f'" and h: "hosts f hk \<noteq> None" and n: "\<not> sends hk e"
  shows "host_next f' hk = host_next f hk" "hosts f' hk \<noteq> None"
    "in_flight f hk \<Longrightarrow> \<not> reports hk e \<Longrightarrow> in_flight f' hk"
proof -
  obtain g where g: "hosts f hk = Some g" using h by auto
  have "host_next f' hk = host_next f hk \<and> hosts f' hk \<noteq> None \<and> (in_flight f hk \<longrightarrow> \<not> reports hk e \<longrightarrow> in_flight f' hk)"
  proof (cases e)
    case Intake
    then have "intake f f'" using Intake_step [OF i] st by blast
    then show ?thesis
      using g intake_host [of f f' hk g] by (auto simp: host_next_def in_flight_def same_shape_def)
  next
    case (Idle now)
    then have "calm f f'" using Idle_step [OF i] st by (auto simp: idle_dispatch_def)
    then show ?thesis
      using calm_host_next [of f f' hk] g by (auto simp: host_next_def)
  next
    case (Sent now req)
    then have "rel_option host_calm (hosts f hk) (hosts f' hk)"
      using Sent_step [OF i] st n by (auto simp: sent_dispatch_def)
    then show ?thesis using g by (auto simp: option_rel_Some1 host_next_def in_flight_def host_calm_def)
  next
    case (Reported k)
    then have "reported k f f'" using Reported_step [OF i] st by blast
    then show ?thesis
      using g Reported unfolding reported_def
      by (elim conjE allE [of _ hk]) (auto simp: host_next_def in_flight_def same_shape_def)
  qed
  then show "host_next f' hk = host_next f hk" "hosts f' hk \<noteq> None"
    "in_flight f hk \<Longrightarrow> \<not> reports hk e \<Longrightarrow> in_flight f' hk" by auto
qed

lemma frun_window:
  assumes "frun E f es f'" "inv E f" "hosts f hk \<noteq> None" "\<forall>e \<in> set es. \<not> sends hk e"
  shows "host_next f' hk = host_next f hk \<and> (in_flight f hk \<longrightarrow> (\<forall>e \<in> set es. \<not> reports hk e) \<longrightarrow> in_flight f' hk)"
  using assms
proof (induction rule: frun.induct)
  case (more f e g es h)
  note F = fstep_window [OF more.prems(1) more.hyps(1) more.prems(2)]
  have "inv E g" using fstep_inv [OF more.prems(1) more.hyps(1)] by blast
  then show ?case using more.IH more.prems F by auto
qed simp

section \<open>What an idle dispatch means\<close>

lemma idle_hosts_parked:
  assumes i: "inv E f'" and d: "idle_dispatch E now f f'" and on: "\<not> cf_robotsOn (cfg E)"
    and h: "hosts f' hk = Some h" "he_active h" "\<not> he_inFlight h"
  shows "\<exists>it \<in> set (f_wait f'). w_hostKey it = hk \<and> now < w_eligible it"
proof -
  have "pool_ok E f' hk h" using i h(1) by (simp add: inv_def pools_ok_def)
  then have "pooled f' hk = 1" using on h by (simp add: pool_ok_def)
  then have "count (image_mset w_hostKey (mset (f_wait f'))) hk > 0"
    using d by (simp add: pooled_def idle_dispatch_def)
  then have "hk \<in># image_mset w_hostKey (mset (f_wait f'))" by (simp only: count_greater_zero_iff)
  then show ?thesis using d by (auto simp: idle_dispatch_def parked_def)
qed

lemma active_bound: "inv E f \<Longrightarrow> f_active f \<le> int (length (f_hosts f))"
proof -
  assume "inv E f"
  then have a: "f_active f = int (card (active_hosts f))" using base_okD(11) by (auto simp: inv_def)
  have "active_hosts f \<subseteq> set (map fst (f_hosts f))"
    by (auto simp: active_hosts_def dest!: map_of_SomeD intro: rev_image_eqI)
  then have "card (active_hosts f) \<le> card (set (map fst (f_hosts f)))" by (rule card_mono [rotated]) simp
  also have "\<dots> \<le> length (f_hosts f)" using card_length [of "map fst (f_hosts f)"] by simp
  finally show ?thesis using a by simp
qed

text \<open>At the end of time nothing can be parked: a frontier with work to do dispatches.\<close>

lemma dispatch_at_last:
  assumes i: "inv E f" and s: "small f" and on: "\<not> cf_robotsOn (cfg E)"
    and n: "int (card (dom (map_of (f_hosts f)))) < effectiveTarget E"
    and w: "(\<exists>hk h. hosts f hk = Some h \<and> he_active h \<and> \<not> he_inFlight h)
      \<or> (\<exists>k h. k \<in># ring_elems (f_front f) \<and> hosts f (HostKey k) = Some h \<and> \<not> he_inFlight h \<and> he_robotsState h \<noteq> robotsReady)"
  shows "\<exists>req f'. DispatchShard E (-1) shard f = Some (Some req, f')"
proof (rule ccontr)
  assume no: "\<not> ?thesis"
  obtain r f' where d: "DispatchShard E (-1) shard f = Some (r, f')" "inv E f'"
    "case r of None \<Rightarrow> idle_dispatch E (-1) f f' | Some req \<Rightarrow> sent_dispatch E (-1) req f f'"
    using DispatchShard_ok [OF i s, of "-1" shard] by blast
  then have id: "idle_dispatch E (-1) f f'" using no by (cases r) auto
  then have c: "calm f f'" and sat: "saturated (effectiveTarget E) f'"
    and fr: "\<forall>k \<in># ring_elems (f_front f). k \<in># ring_elems (f_front f') \<or> bound f' k"
    by (auto simp: idle_dispatch_def)
  have nopark: "\<not> (hosts f' hk = Some h \<and> he_active h \<and> \<not> he_inFlight h)" for hk h
    using idle_hosts_parked [OF d(2) id on, of hk h] by (auto simp: not_less)
  have "dom (map_of (f_hosts f')) = dom (map_of (f_hosts f))"
    using c by (auto simp: calm_def dom_def) (metis option.rel_distinct option.exhaust)+
  moreover have "f_active f' = int (card (active_hosts f'))" using d(2) base_okD(11) by (auto simp: inv_def)
  moreover have "card (active_hosts f') \<le> card (dom (map_of (f_hosts f')))"
    by (rule card_mono) (auto simp: active_hosts_def finite_dom_map_of)
  ultimately have "f_active f' < effectiveTarget E" using n by simp
  then have emp: "ring_elems (f_front f') = {#}"
    using sat d(2) ring_elems_pop_None [of "f_front f'"] base_okD(3) [of E "{}" f']
    by (auto simp: saturated_def inv_def split: option.splits prod.splits)
  show False
    using w
  proof (elim disjE exE conjE)
    fix hk h assume h: "hosts f hk = Some h" "he_active h" "\<not> he_inFlight h"
    then obtain h' where "hosts f' hk = Some h'" "host_calm h h'"
      using c unfolding calm_def by (metis option_rel_Some1)
    then show False using nopark [of hk h'] h by (simp add: host_calm_def)
  next
    fix k h assume k: "k \<in># ring_elems (f_front f)" and h: "hosts f (HostKey k) = Some h" "\<not> he_inFlight h" "he_robotsState h \<noteq> robotsReady"
    then obtain h' where h': "hosts f' (HostKey k) = Some h'" "host_calm h h'"
      using c unfolding calm_def by (metis option_rel_Some1)
    have "bound f' k" using fr k emp by auto
    then have "he_active h'" using h' h by (auto simp: bound_def host_calm_def)
    then show False using nopark [of "HostKey k" h'] h h' by (simp add: host_calm_def)
  qed
qed

end
