(* ===== verification/FrontierProps.thy ===== *)
theory FrontierProps
  imports FrontierTrace
begin

text \<open>
  Properties of the scheduler over every run: the invariant, totality, politeness spacing, one fetch
  in flight per host, the bound on active hosts, what an idle dispatch means, deduplication, retries.
  The witnesses follow one URL of a small frontier through seed, dispatch, failure and retry.
\<close>

section \<open>Seeding a new key\<close>

lemma ensure_host_front [simp]: "f_front (ensure_host E hk n cd f) = f_front f" "f_wheel (ensure_host E hk n cd f) = f_wheel f"
  "f_records (ensure_host E hk n cd f) = f_records f"
  by (auto simp: ensure_host_def newHost_def Let_def split_beta split: option.split)

lemma upd_host_fields [simp]:
  "f_front (upd_host hk g f) = f_front f" "f_wheel (upd_host hk g f) = f_wheel f" "f_arena (upd_host hk g f) = f_arena f"
  "f_records (upd_host hk g f) = f_records f" "f_wait (upd_host hk g f) = f_wait f" "f_active (upd_host hk g f) = f_active f"
  by (simp_all add: upd_host_def split: option.split)

lemma dom_upd_host [simp]: "dom (map_of (f_hosts (upd_host hk g f))) = dom (map_of (f_hosts f))"
  by (auto simp: upd_host_def set_host_def map_of_mput dom_def split: option.splits)

lemma dom_ensure_host: "dom (map_of (f_hosts (ensure_host E hk n cd f))) = insert hk (dom (map_of (f_hosts f)))"
  by (auto simp: ensure_host_def newHost_def set_host_def map_of_mput Let_def split_beta intern_def split: option.splits if_splits)

lemma length_intern: "length (f_arena (snd (intern s f))) = length (f_arena f) + length (uvarint (length s)) + length s"
  by (simp add: intern_def arena_intern_def Let_def bytes_of_def)

lemma length_ensure_host:
  "length (f_arena (ensure_host E hk n cd f)) \<le> length (f_arena f) + length (uvarint (length n)) + length n"
  by (auto simp: ensure_host_def newHost_def Let_def split_beta length_intern split: option.split)

definition seed_key :: "'w env \<Rightarrow> string \<Rightarrow> string \<Rightarrow> URLKey" where
  "seed_key E url host = URLKey (HostKeyOf (l_xxh64 (lib E)) host) (PathKeyOf (l_xxh64 (lib E)) (PathOf url))"

lemma Seed_shape:
  assumes sn: "Seen (seed_key E url host) (f_seen f) = (False, sn)"
  obtains rec' g where "Seed E url host p fs nd cd f = schedule E (seed_key E url host) rec' fs fs (set_rec (seed_key E url host) rec' g)"
    "f_front g = f_front f" "dom (map_of (f_hosts g)) = insert (HostKey (seed_key E url host)) (dom (map_of (f_hosts f)))"
    "u_Status rec' = StatusScheduled" "u_NextDue rec' = nd" "\<forall>k. k \<noteq> seed_key E url host \<longrightarrow> recs g k = recs f k"
    "length (f_arena g) \<le> length (f_arena f) + length (uvarint (length url)) + length url + length (uvarint (length host)) + length host"
proof -
  define hk where "hk = HostKeyOf (l_xxh64 (lib E)) host"
  define key where "key = seed_key E url host"
  have key: "URLKey hk (PathKeyOf (l_xxh64 (lib E)) (PathOf url)) = key" "HostKey key = hk"
    by (simp_all add: key_def seed_key_def hk_def)
  define f2 where "f2 = snd (intern url (f\<lparr> f_seen := sn \<rparr>))"
  define rec where "rec = (zeroURL key)\<lparr> u_HostKey := hk, u_Status := StatusScheduled, u_Priority := p,
      u_URLRef := fst (intern url (f\<lparr> f_seen := sn \<rparr>)), u_FirstSeen := fs, u_NextDue := nd, u_DiscoverySource := SourceSeed \<rparr>"
  define f4 where "f4 = ensure_host E hk host cd (set_rec key rec f2)"
  define f5 where "f5 = upd_host hk (\<lambda>h. h\<lparr> he_rec := (he_rec h)\<lparr> h_URLCount := h_URLCount (he_rec h) + 1 \<rparr> \<rparr>) f4"
  define f6 where "f6 = (if cf_prioOn (cfg E) then f5\<lparr> f_world := l_SeedCash (lib E) key p (f_world f5) \<rparr> else f5)"
  define rec' where "rec' = (if cf_prioOn (cfg E)
      then rec\<lparr> u_Priority := l_Priority (lib E) rec (host_rec (Some hk) f6) (f_world f6) \<rparr> else rec)"
  have "Seed E url host p fs nd cd f = schedule E key rec' fs fs (set_rec key rec' f6)"
    using sn unfolding rec'_def f6_def f5_def f4_def rec_def f2_def Seed_def Let_def split_beta
      hk_def [symmetric] key key_def [symmetric] by simp
  moreover have "f_front f6 = f_front f" "dom (map_of (f_hosts f6)) = insert hk (dom (map_of (f_hosts f)))"
    by (simp_all add: f6_def f5_def f4_def f2_def dom_ensure_host)
  moreover have "u_Status rec' = StatusScheduled" "u_NextDue rec' = nd" by (simp_all add: rec'_def rec_def)
  moreover have "recs f6 k = recs f k" if "k \<noteq> key" for k
    using that by (simp add: f6_def f5_def f4_def f2_def)
  moreover have "length (f_arena f6) \<le> length (f_arena f) + length (uvarint (length url)) + length url
      + length (uvarint (length host)) + length host"
    using length_ensure_host [of E hk host cd "set_rec key rec f2"]
    by (simp add: f6_def f5_def f4_def f2_def length_intern)
  ultimately show thesis using that [of rec' f6] key by (simp add: key_def)
qed

lemma Seed_new:
  assumes b: "base_okS E {} f" and n: "recs f (seed_key E url host) = None" and w: "\<not> cf_wheelOn (cfg E)"
  shows "ring_elems (f_front (Seed E url host p fs nd cd f)) = add_mset (seed_key E url host) (ring_elems (f_front f))"
    "dom (map_of (f_hosts (Seed E url host p fs nd cd f))) = insert (HostKey (seed_key E url host)) (dom (map_of (f_hosts f)))"
    "length (f_arena (Seed E url host p fs nd cd f)) \<le> length (f_arena f) + length (uvarint (length url)) + length url
       + length (uvarint (length host)) + length host"
    "k \<noteq> seed_key E url host \<Longrightarrow> recs (Seed E url host p fs nd cd f) k = recs f k"
proof -
  obtain sn where sn: "Seen (seed_key E url host) (f_seen f) = (False, sn)"
    using seen_ok(1) [OF b, of "seed_key E url host"] n by (cases "Seen (seed_key E url host) (f_seen f)") auto
  obtain rec' g where g: "Seed E url host p fs nd cd f = schedule E (seed_key E url host) rec' fs fs (set_rec (seed_key E url host) rec' g)"
    "f_front g = f_front f" "dom (map_of (f_hosts g)) = insert (HostKey (seed_key E url host)) (dom (map_of (f_hosts f)))"
    "\<forall>k. k \<noteq> seed_key E url host \<longrightarrow> recs g k = recs f k"
    "length (f_arena g) \<le> length (f_arena f) + length (uvarint (length url)) + length url + length (uvarint (length host)) + length host"
    by (rule Seed_shape [OF sn, of p fs nd cd])
  show "ring_elems (f_front (Seed E url host p fs nd cd f)) = add_mset (seed_key E url host) (ring_elems (f_front f))"
    using g w base_okD(3) [OF b] by (simp add: schedule_def frontPush_def Let_def ring_elems_push)
  show "dom (map_of (f_hosts (Seed E url host p fs nd cd f))) = insert (HostKey (seed_key E url host)) (dom (map_of (f_hosts f)))"
    using g w by (simp add: schedule_def frontPush_def Let_def)
  show "length (f_arena (Seed E url host p fs nd cd f)) \<le> length (f_arena f) + length (uvarint (length url)) + length url
       + length (uvarint (length host)) + length host"
    using g w by (simp add: schedule_def frontPush_def Let_def)
  show "recs (Seed E url host p fs nd cd f) k = recs f k" if "k \<noteq> seed_key E url host"
    using g(1,4) w that by (simp add: schedule_def frontPush_def Let_def)
qed

section \<open>A failed fetch\<close>

definition failing :: "'w env \<Rightarrow> Outcome \<Rightarrow> bool" where
  "failing E out \<longleftrightarrow> cf_stateOn (cfg E) \<and> \<not> o_NotModified out \<and> o_RedirectTarget out = []
     \<and> \<not> (300 \<le> o_HTTPStatus out \<and> o_HTTPStatus out < 400)
     \<and> (o_Retryable out \<or> (400 \<le> o_HTTPStatus out \<and> o_HTTPStatus out \<le> 599))"

lemma place_fields:
  assumes "place hk now f = Some f'"
  shows "f_hosts f' = f_hosts f" "f_records f' = f_records f" "f_arena f' = f_arena f"
  using assms by (auto simp: place_def Let_def split: if_splits option.splits Option.bind_splits)

lemma Report_failed:
  assumes i: "inv E f" and s: "small f" and a: "awaiting E f (o_URLKey out)" and n: "\<not> robots_report E out f"
    and fl: "failing E out" and h: "hosts f (HostKey (o_URLKey out)) = Some h" and rec: "recs f (o_URLKey out) = Some rec"
    and row: "fail_row out (rec\<lparr> u_HTTPStatus := o_HTTPStatus out \<rparr>) = (again, rec')"
  shows "\<exists>f' h'. Report E out now f = Some f' \<and> recs f' (o_URLKey out) = Some rec' \<and> f_arena f' = f_arena f
     \<and> f_hosts f' = f_hosts (set_host (HostKey (o_URLKey out)) h' f)
     \<and> he_back h' = tl (he_back h) @ (if again then [o_URLKey out] else []) \<and> (he_active h' \<longleftrightarrow> he_back h' \<noteq> [])
     \<and> \<not> he_inFlight h' \<and> he_robotsState h' = he_robotsState h \<and> (\<forall>k. k \<noteq> o_URLKey out \<longrightarrow> recs f' k = recs f k)"
proof -
  define key where "key = o_URLKey out"
  define hk where "hk = HostKey key"
  have b: "base_okS E {} f" using i by (simp add: inv_def)
  obtain ks where ks: "he_inFlight h" "he_back h = key # ks"
    by (rule awaiting_url [OF i a n]) (use h in \<open>auto simp: key_def\<close>)
  have act: "he_active h" using base_okD(9) [OF b h] ks by (auto simp: host_ok_def)
  have uk: "u_URLKey rec' = key"
    using row base_okD(8) [OF b rec] fail_row_fields(1) [of out "rec\<lparr> u_HTTPStatus := o_HTTPStatus out \<rparr>"]
    by (simp add: rec_ok_def key_def)
  define f2 where "f2 = popped out f"
  have f2: "hosts f2 hk = Some (h\<lparr> he_back := ks \<rparr>)" "recs f2 key = Some (rec\<lparr> u_HTTPStatus := o_HTTPStatus out \<rparr>)"
    "f_arena f2 = f_arena f" "f_hosts f2 = f_hosts (set_host hk (h\<lparr> he_back := ks \<rparr>) f)"
    "\<And>k. k \<noteq> key \<Longrightarrow> recs f2 k = recs f k"
    using h rec ks by (simp_all add: f2_def popped_def upd_host_def upd_rec_def hk_def key_def)
  define g where "g = h\<lparr> he_back := ks @ (if again then [key] else []) \<rparr>"
  define f3 where "f3 = failURL key (Some hk) out f2"
  have f3: "hosts f3 hk = Some g" "recs f3 key = Some rec'" "f_arena f3 = f_arena f" "f_hosts f3 = f_hosts (set_host hk g f)"
    "\<And>k. k \<noteq> key \<Longrightarrow> recs f3 k = recs f k"
    using f2 row uk by (auto simp: f3_def failURL_def g_def upd_host_def set_host_def Let_def)
  have st: "outcome_step E key (Some hk) out now f2 = Some f3" using fl by (auto simp: outcome_step_def failing_def f3_def)
  then have "Report E out now f = report_tail E hk out now f3"
    by (simp add: Report_url_eq [OF i a n] f2_def [symmetric] key_def [symmetric] hk_def [symmetric])
  moreover obtain f' where "Report E out now f = Some f'" using Report_ok [OF i s a] by blast
  ultimately have R: "Report E out now f = Some f'" "report_tail E hk out now f3 = Some f'" by simp_all
  let ?h = "(adapt E out g)\<lparr> he_inFlight := False \<rparr>"
  have gb: "he_back g = ks @ (if again then [key] else [])" "he_active g" "he_robotsState g = he_robotsState h"
    using act by (simp_all add: g_def)
  show ?thesis
  proof (cases "he_back g = []")
    case True
    then have "f' = (set_host hk (?h\<lparr> he_active := False \<rparr>) f3)\<lparr> f_active := f_active f3 - 1 \<rparr>"
      using R(2) f3(1) by (simp add: report_tail_def Let_def)
    then show ?thesis
      using R(1) f3 True gb ks unfolding key_def [symmetric] hk_def [symmetric]
      by (intro exI [of _ f'] exI [of _ "?h\<lparr> he_active := False \<rparr>"]) (simp add: set_host_def)
  next
    case False
    then have "place hk now (set_host hk ?h f3) = Some f'"
      using R(2) f3(1) by (simp add: report_tail_def Let_def)
    from place_fields [OF this] show ?thesis
      using R(1) f3 False gb ks unfolding key_def [symmetric] hk_def [symmetric]
      by (intro exI [of _ f'] exI [of _ ?h]) (simp add: set_host_def)
  qed
qed

section \<open>One URL through its life\<close>

text \<open>A small frontier: the state machine on, everything else off.\<close>

definition demo_hooks :: "unit hooks" where
  "demo_hooks = \<lparr> l_xxh64 = (\<lambda>bs. of_nat (length bs)), l_lower = (\<lambda>s. s), l_parseFloat = (\<lambda>_. None),
     l_Prefetch = (\<lambda>_ w. w), l_Lookup = (\<lambda>_ _. None), l_Estimate = (\<lambda>_. 0), l_TargetInterval = (\<lambda>_ _ _. 24),
     l_HostSpreadWindow = 0, l_MinReprobeGap = 1, l_Tick = (\<lambda>_ w. w), l_SeedCash = (\<lambda>_ _ w. w),
     l_Credit = (\<lambda>_ w. (0, w)), l_Priority = (\<lambda>r _ _. u_Priority r), l_Distribute = (\<lambda>_ ds w. (ds, w)),
     l_ImportPageRank = (\<lambda>_ _ w. w),
     l_budget = \<lparr> bp_BaseBudget = 100, bp_PerInLink = 1, bp_MinBudget = 1, bp_MaxBudget = 1000 \<rparr>,
     l_linkSink = None, l_trapObserve = (\<lambda>_ _ _ _ w. (False, w)), l_trapPasses = (\<lambda>_ _ _ _. True),
     l_trapSuspect = (\<lambda>_ _. False), l_trapClean = (\<lambda>_ _ _. True), l_RegistrableDomain = (\<lambda>s. s),
     l_CanonicalKey = (\<lambda>_ _. None) \<rparr>"

definition demo :: "unit env" where
  "demo = \<lparr> cfg = WithStateMachine defaultFconfig, lib = demo_hooks \<rparr>"

definition demo_new :: "unit Frontier" where "demo_new = New (\<lambda>_. -1) demo 7 480000 ()"

definition demo_seeded :: "unit Frontier" where
  "demo_seeded = Seed demo ''http://a.b/x'' ''a.b'' f32_one 480000 480000 10 demo_new"

lemma demo_cfg [simp]:
  "\<not> cf_robotsOn (cfg demo)" "\<not> cf_wheelOn (cfg demo)" "cf_stateOn (cfg demo)" "\<not> cf_prioOn (cfg demo)" "\<not> cf_dnsOn (cfg demo)"
  "effectiveTarget demo = 2 ^ 30" "\<not> cf_bounded (cfg demo)"
  by (simp_all add: demo_def WithStateMachine_def defaultFconfig_def effectiveTarget_def defaultTarget_def)

lemma demo_new_rows [simp]: "recs demo_new k = None"
  by (simp add: demo_new_def New_def)

lemma demo_new_inv: "inv demo demo_new"
  unfolding demo_new_def by (rule New_ok) simp

lemma demo_seeded_inv: "inv demo demo_seeded"
  using Seed_ok [of demo demo_new] demo_new_inv intake_inv [OF demo_new_inv]
  unfolding demo_seeded_def by (simp add: inv_def)

lemma first_dispatch:
  assumes i: "inv E f" and s: "small f" and off: "\<not> cf_wheelOn (cfg E)" "\<not> cf_bounded (cfg E)" "\<not> cf_dnsOn (cfg E)" "\<not> cf_robotsOn (cfg E)"
    and q: "f_wait f = []" "bank_elems (f_ready f) = {#}" "ring_elems (f_front f) = {#key#}" "f_active f < effectiveTarget E"
    and h: "hosts f (HostKey key) = Some h" "\<not> he_active h" "he_robotsState h = robotsNone" "eligibleNow f h \<le> now"
  shows "\<exists>req f'. DispatchShard E now shard f = Some (Some req, f') \<and> rq_URLKey req = key"
proof -
  define hk where "hk = HostKey key"
  have b: "base_okS E {} f" using i by (simp add: inv_def)
  obtain k r where pop: "ring_pop (f_front f) = Some (k, r)"
    using ring_elems_pop_None [OF base_okD(3) [OF b]] q(3) by (cases "ring_pop (f_front f)") auto
  note P = pop_front_ok [OF i pop]
  have k: "k = key" "ring_elems r = {#}" "ring_wf r" using ring_elems_pop [OF base_okD(3) [OF b] pop] q(3) by auto
  obtain rec where rec: "recs f key = Some rec" using P(2) k by auto
  have hok: "h_HostKey (he_rec h) = hk" "he_back h = []" "\<not> he_inFlight h"
    using base_okD(9) [OF b h(1)] h(2) by (auto simp: host_ok_def hk_def)
  define g where "g = h\<lparr> he_back := [key], he_active := True \<rparr>"
  define f1 where "f1 = (set_host hk g (f\<lparr> f_front := r \<rparr>))\<lparr> f_active := f_active f + 1, f_ready := bank_push hk (u_Priority rec) (f_ready f) \<rparr>"
  have eg: "eligibleNow f' g = eligibleNow f h" if "f_ips f' = f_ips f" for f'
    using that by (simp add: eligibleNow_def ip_next_def g_def)
  have pl: "place hk now ((set_host hk g (f\<lparr> f_front := r \<rparr>))\<lparr> f_active := f_active f + 1 \<rparr>) = Some f1"
  proof -
    have "eligibleNow ((set_host hk g (f\<lparr> f_front := r \<rparr>))\<lparr> f_active := f_active f + 1 \<rparr>) g \<le> now"
      by (subst eg) (use h(4) in simp_all)
    moreover have "he_back g = [key]" "\<not> he_inFlight g" "h_HostKey (he_rec g) = hk" using hok by (simp_all add: g_def)
    ultimately show ?thesis using rec by (simp add: place_def Let_def f1_def)
  qed
  have bu: "bind_url key now (f\<lparr> f_front := r \<rparr>) = Some f1"
    using h hok pl by (simp add: bind_url_def hk_def g_def)
  have i1: "inv E f1" "calm (f\<lparr> f_front := r \<rparr>) f1"
    using bind_url_ok [OF P(1), of key now] s P(2) k bu by (auto simp: small_def)
  have "ring_pop r = None" using ring_elems_pop_None [OF k(3)] k(2) by simp
  then have "distribute_loop (effectiveTarget E) now f1 = Some f1"
    by (simp add: distribute_loop.simps f1_def)
  then have "distribute_loop (effectiveTarget E) now f = Some f1"
    using pop k h q(4) bu by (subst distribute_loop.simps) simp
  then have dist: "distribute E now f = Some f1" using off by (simp add: distribute_def)
  have pre: "promoteDue E now f = Some f" "promote now f = Some f"
    using off q(1) by (simp_all add: promoteDue_def promote.simps wait_peekMin_def)
  have b1: "base_okS E {} f1" using i1 by (simp add: inv_def)
  have el: "bank_elems (f_ready f1) = {#hk#}"
    using q(2) base_okD(4) [OF b] by (simp add: f1_def bank_elems_push)
  obtain b' where pop': "bank_popShard shard (f_ready f1) = Some (hk, b')"
    using bank_popShard_None [OF base_okD(4) [OF b1], of shard] bank_popShard_Some [OF base_okD(4) [OF b1], of shard] el
    by (cases "bank_popShard shard (f_ready f1)") auto
  have h1: "hosts f1 hk = Some g" by (simp add: f1_def)
  define f2 where "f2 = set_host hk g (f1\<lparr> f_ready := b' \<rparr>)"
  have "eligibleNow f2 g = eligibleNow f h" by (rule eg) (simp add: f2_def f1_def)
  then have rl: "ready_loop E now shard f1 = Some (Some hk, f2)"
    using pop' h1 off h(4) by (subst ready_loop.simps) (auto simp: resolveHost_def f2_def [symmetric] Let_def dest: leD)
  have s1: "small f1" using i1(2) calm_small s by (fastforce simp: small_def)
  obtain hko g' where "ready_loop E now shard f1 = Some (hko, g')" "picked E now hko g'" "calm f1 g'"
    using ready_loop_ok [OF i1(1) s1, of now shard] by blast
  then have pk: "picked E now (Some hk) f2" "calm f1 f2" using rl by auto
  have h2: "hosts f2 hk = Some g" by (simp add: f2_def)
  have "base_okS E {} f2" "pools_ok E {hk} f2" "he_back g \<noteq> []" "\<not> he_inFlight g" "small f2"
    using pk hok calm_small [OF pk(2)] s1 by (auto simp: picked_def g_def)
  then obtain req f' h' where su: "send_url E hk now f2 = Some (Some req, f')" "request_for E hk req f'" "\<not> rq_Robots req"
    using send_url_ok [OF _ _ h2, of E now] by blast
  have "rq_URLKey req = key"
    using su h2 rec by (auto simp: send_url_def g_def f2_def f1_def Let_def bind_eq_Some_conv)
       (use base_okD(8) [OF b rec] in \<open>simp add: rec_ok_def\<close>)
  moreover have "DispatchShard E now shard f = Some (Some req, f')"
    using pre dist rl h2 off su by (simp add: DispatchShard_def)
  ultimately show ?thesis by blast
qed

lemma demo_seeded_facts:
  defines "key \<equiv> seed_key demo ''http://a.b/x'' ''a.b''"
  shows "length (f_arena demo_seeded) \<le> 100" "ring_elems (f_front demo_seeded) = {#key#}"
    "dom (map_of (f_hosts demo_seeded)) = {HostKey key}" "f_wait demo_seeded = []" "bank_elems (f_ready demo_seeded) = {#}"
    "f_active demo_seeded = 0" "\<exists>h. hosts demo_seeded (HostKey key) = Some h \<and> fresh_host (HostKey key) h"
    "f_ips demo_seeded = NewIPTable (c_IPFloor (cf_pol (cfg demo)))"
proof -
  have b: "base_okS demo {} demo_new" using demo_new_inv by (simp add: inv_def)
  have "recs demo_new key = None" by (simp add: demo_new_def New_def)
  note S = Seed_new [OF b this [unfolded key_def] demo_cfg(2), where p = f32_one and fs = 480000 and nd = 480000 and cd = 10, folded demo_seeded_def key_def]
  show "ring_elems (f_front demo_seeded) = {#key#}" "dom (map_of (f_hosts demo_seeded)) = {HostKey key}"
    using S by (simp_all add: demo_new_def New_def ring_elems_new)
  show "length (f_arena demo_seeded) \<le> 100"
    using S(3) by (simp add: demo_new_def New_def newArena_def uvarint.simps)
  have i: "intake demo_new demo_seeded" using Seed_ok [OF b] by (simp add: demo_seeded_def)
  then show "f_wait demo_seeded = []" "bank_elems (f_ready demo_seeded) = {#}" "f_active demo_seeded = 0"
    "f_ips demo_seeded = NewIPTable (c_IPFloor (cf_pol (cfg demo)))"
    by (simp_all add: intake_def demo_new_def New_def bank_elems_new)
  have "HostKey key \<in> dom (map_of (f_hosts demo_seeded))" using S(2) by simp
  then obtain h where "hosts demo_seeded (HostKey key) = Some h" by auto
  moreover from intake_new_host [OF i _ this] have "fresh_host (HostKey key) h" by (simp add: demo_new_def New_def)
  ultimately show "\<exists>h. hosts demo_seeded (HostKey key) = Some h \<and> fresh_host (HostKey key) h" by blast
qed

lemma eligible_fresh:
  assumes "fresh_host hk h" "it_buckets (f_ips f) = []"
  shows "eligibleNow f h = 0"
  using assms by (simp add: eligibleNow_def fresh_host_def ip_next_def EligibleAt_def Let_def)

definition demo_fail :: Outcome where
  "demo_fail = \<lparr> o_URLKey = seed_key demo ''http://a.b/x'' ''a.b'', o_HTTPStatus = 503, o_FetchedAt = 480000,
     o_LatencyMS = 10, o_NotModified = False, o_ContentFP = 0, o_Simhash = 0, o_ContentLen = 0, o_ETag = [],
     o_LastModified = 0, o_RedirectTarget = [], o_Retryable = True, o_RetryAfter = 0, o_RobotsCrawlDelay = 0,
     o_RobotsBody = [], o_Links = [] \<rparr>"

lemma demo_fail_simps [simp]:
  "failing demo demo_fail" "\<not> robots_report demo demo_fail f" "o_URLKey demo_fail = seed_key demo ''http://a.b/x'' ''a.b''"
  by (simp_all add: failing_def demo_fail_def robots_report_def)

lemma demo_keys_differ: "seed_key demo ''http://a.b/xy'' ''a.b'' \<noteq> seed_key demo ''http://a.b/x'' ''a.b''"
  by (simp add: seed_key_def HostKeyOf_def PathKeyOf_def demo_def demo_hooks_def PathOf_def stripScheme_def
      Cut.simps strip_prefix.simps Let_def)

lemma frun_two: "fstep E f a g \<Longrightarrow> fstep E g b h \<Longrightarrow> frun E f [a, b] h"
  by (auto simp: frun_Cons)

text \<open>The first dispatch sends the seeded URL.\<close>

lemma demo_first:
  defines "key \<equiv> seed_key demo ''http://a.b/x'' ''a.b''"
  shows "\<exists>r1 f1 h1 rec. fstep demo demo_seeded (Sent 1728000000 r1) f1 \<and> inv demo f1 \<and> small f1
     \<and> rq_HostKey r1 = HostKey key \<and> awaiting demo f1 key \<and> hosts f1 (HostKey key) = Some h1 \<and> recs f1 key = Some rec
     \<and> f_arena f1 = f_arena demo_seeded \<and> dom (map_of (f_hosts f1)) = {HostKey key}
     \<and> (\<forall>k. recs f1 k \<noteq> None \<longleftrightarrow> recs demo_seeded k \<noteq> None)"
proof -
  note D = demo_seeded_facts [folded key_def]
  have sm: "small demo_seeded" using D(1) by (simp add: small_def)
  obtain h where h: "hosts demo_seeded (HostKey key) = Some h" "fresh_host (HostKey key) h" using D(7) by blast
  have "eligibleNow demo_seeded h = 0" by (rule eligible_fresh [OF h(2)]) (simp add: D(8) NewIPTable_def)
  then obtain r1 f1 where d1: "DispatchShard demo 1728000000 0 demo_seeded = Some (Some r1, f1)" "rq_URLKey r1 = key"
    using first_dispatch [OF demo_seeded_inv sm _ _ _ _ D(4,5,2) _ h(1), of 1728000000 0] h(2) D(6) by (auto simp: fresh_host_def)
  have s1: "fstep demo demo_seeded (Sent 1728000000 r1) f1" by (rule fstep.sent [OF sm d1(1)])
  have I1: "inv demo f1" "sent_dispatch demo 1728000000 r1 demo_seeded f1" using Sent_step [OF demo_seeded_inv s1] by auto
  obtain hr where hr: "hosts demo_seeded (rq_HostKey r1) = Some hr" using I1(2) by (auto simp: sent_dispatch_def)
  then have rk: "rq_HostKey r1 = HostKey key" using D(3) by blast
  obtain h1 where h1: "hosts f1 (HostKey key) = Some h1" "he_inFlight h1" "he_robotsState h1 \<noteq> robotsPending"
    "he_back h1 \<noteq> []" "hd (he_back h1) = key" "f_arena f1 = f_arena demo_seeded"
    "\<And>x. x \<noteq> HostKey key \<Longrightarrow> rel_option host_calm (hosts demo_seeded x) (hosts f1 x)"
    "\<And>k. recs f1 k \<noteq> None \<longleftrightarrow> recs demo_seeded k \<noteq> None"
    using I1(2) d1(2) rk by (auto simp: sent_dispatch_def request_for_def spent_def)
  have "hosts f1 x = None" if "x \<noteq> HostKey key" for x
    using h1(7) [OF that] D(3) that by (auto simp: dom_def option_rel_Some2 elim: option.rel_cases)
  then have dom1: "dom (map_of (f_hosts f1)) = {HostKey key}" using h1(1) by (fastforce simp: dom_def)
  have aw: "awaiting demo f1 key" using h1 by (simp add: awaiting_def)
  obtain rec where rec: "recs f1 key = Some rec" using h1(8) [of key] base_okD(10) [of demo "{}" demo_seeded key] D(2) demo_seeded_inv
    by (auto simp: inv_def)
  have "small f1" using h1(6) sm by (simp add: small_def)
  then show ?thesis using s1 I1(1) rk aw h1(1,6,8) rec dom1 by blast
qed

text \<open>Seed, dispatch, failure, a second seed on the host, dispatch: the host is fetched twice.\<close>

lemma demo_twice:
  "\<exists>r1 f1 f2 f3 r2 f4. fstep demo demo_seeded (Sent 1728000000 r1) f1
     \<and> fstep demo f1 (Reported (rq_HostKey r1)) f2 \<and> fstep demo f2 Intake f3
     \<and> fstep demo f3 (Sent (-1) r2) f4 \<and> rq_HostKey r2 = rq_HostKey r1"
proof -
  define key where "key = seed_key demo ''http://a.b/x'' ''a.b''"
  define key2 where "key2 = seed_key demo ''http://a.b/xy'' ''a.b''"
  have hk2: "HostKey key2 = HostKey key" by (simp add: key_def key2_def seed_key_def)
  note D = demo_seeded_facts [folded key_def]
  obtain r1 f1 h1 rec where s1: "fstep demo demo_seeded (Sent 1728000000 r1) f1" and I1: "inv demo f1" and sm1: "small f1"
    and rk: "rq_HostKey r1 = HostKey key" and aw: "awaiting demo f1 key" and h1: "hosts f1 (HostKey key) = Some h1"
    and rec: "recs f1 key = Some rec" and ar: "f_arena f1 = f_arena demo_seeded" and dom1: "dom (map_of (f_hosts f1)) = {HostKey key}"
    and rows: "\<forall>k. recs f1 k \<noteq> None \<longleftrightarrow> recs demo_seeded k \<noteq> None"
    using demo_first [folded key_def] by blast
  have aw': "awaiting demo f1 (o_URLKey demo_fail)" using aw by (simp add: key_def)
  obtain again rec' where row: "fail_row demo_fail (rec\<lparr> u_HTTPStatus := o_HTTPStatus demo_fail \<rparr>) = (again, rec')" by fastforce
  obtain f2 h2 where f2: "Report demo demo_fail 1728000100 f1 = Some f2" "f_arena f2 = f_arena f1"
    "f_hosts f2 = f_hosts (set_host (HostKey key) h2 f1)" "\<not> he_inFlight h2" "he_robotsState h2 = he_robotsState h1"
    "\<forall>k. k \<noteq> key \<longrightarrow> recs f2 k = recs f1 k"
    using Report_failed [OF I1 sm1 aw' demo_fail_simps(2,1) _ _ row, of h1 1728000100] h1 rec
    by (auto simp: key_def)
  have s2: "fstep demo f1 (Reported (rq_HostKey r1)) f2"
    using fstep.report [OF sm1 aw' f2(1)] rk by (simp add: key_def)
  have I2: "inv demo f2" using Reported_step [OF I1 s2] by blast
  have sm2: "small f2" using f2(2) sm1 by (simp add: small_def)
  define f3 where "f3 = Seed demo ''http://a.b/xy'' ''a.b'' f32_one 480000 480000 10 f2"
  have s3: "fstep demo f2 Intake f3" unfolding f3_def by (rule fstep.seed [OF sm2])
  have I3: "inv demo f3" "intake f2 f3" using Intake_step [OF I2 s3] by auto
  have key2: "key2 \<noteq> key" using demo_keys_differ by (simp add: key_def key2_def)
  have "recs demo_seeded key2 = recs demo_new key2"
    using Seed_new(4) [of demo demo_new "''http://a.b/x''" "''a.b''" key2] demo_new_inv key2 demo_new_rows
    by (simp add: inv_def demo_seeded_def key_def)
  then have n2: "recs f2 key2 = None" using f2(6) key2 rows [rule_format, of key2] demo_new_rows by (cases "recs f1 key2") auto
  have b2: "base_okS demo {} f2" using I2 by (simp add: inv_def)
  note S = Seed_new [OF b2 n2 [unfolded key2_def] demo_cfg(2), where p = f32_one and fs = 480000 and nd = 480000 and cd = 10,
      folded f3_def key2_def]
  have sm3: "small f3" using S(3) D(1) f2(2) ar by (simp add: small_def uvarint.simps)
  have "hosts f2 (HostKey key) = Some h2" using f2(3) by simp
  then obtain h3 where h3: "hosts f3 (HostKey key) = Some h3" "same_shape h2 h3" using intake_host [OF I3(2)] by blast
  have rn: "he_robotsState h3 = robotsNone"
    using base_okD(9) [OF _ h3(1), of demo "{}"] I3(1) by (auto simp: inv_def host_ok_def)
  have "dom (map_of (f_hosts f2)) = {HostKey key}"
    using f2(3) dom1 by (simp add: set_host_def map_of_mput)
  then have dom3: "dom (map_of (f_hosts f3)) = {HostKey key}" using S(2) hk2 by simp
  obtain r2 f4 where d4: "DispatchShard demo (-1) 0 f3 = Some (Some r2, f4)"
    using dispatch_at_last [OF I3(1) sm3 demo_cfg(1), of 0] S(1) rn dom3 h3 f2(4) hk2 by (fastforce simp: same_shape_def)
  have s4: "fstep demo f3 (Sent (-1) r2) f4" by (rule fstep.sent [OF sm3 d4])
  obtain hq where "hosts f3 (rq_HostKey r2) = Some hq" using Sent_step [OF I3(1) s4] by (auto simp: sent_dispatch_def)
  then have "rq_HostKey r2 \<in> dom (map_of (f_hosts f3))" by blast
  then have "rq_HostKey r2 = HostKey key" using dom3 by simp
  then show ?thesis using s1 s2 s3 s4 rk by metis
qed

section \<open>Properties\<close>

text \<open>C1: Every interleaving of intake (seeds, discoveries, warm starts, signal imports), dispatches and
  reports of outstanding requests from a new frontier keeps the frontier consistent: a host is at
  most once in the ready bank and the wait heap together, never while a fetch of it is in flight, and
  only with a URL queued; every queued URL has a row and belongs to the host that queues it; the
  active counter is the number of active hosts; the seen-set is exactly the set of rows.\<close>

theorem run_keeps_frontier_consistent:
  assumes "frun E (New logf E pid created w) es f" "unat created + 1024 < 2 ^ 32"
  shows "(\<forall>hk. pooled f hk \<le> 1)
     \<and> (\<forall>hk h. hosts f hk = Some h \<longrightarrow> pooled f hk = 1 \<longrightarrow> \<not> he_inFlight h \<and> he_back h \<noteq> [])
     \<and> (\<forall>hk h. hosts f hk = Some h \<longrightarrow> (\<forall>k \<in> set (he_back h). HostKey k = hk \<and> recs f k \<noteq> None))
     \<and> (\<forall>k \<in># ring_elems (f_front f). recs f k \<noteq> None)
     \<and> f_active f = int (card {hk. \<exists>h. hosts f hk = Some h \<and> he_active h})
     \<and> seen_abs (f_seen f) = {k. recs f k \<noteq> None}"
proof -
  have i: "inv E f" using frun_inv [OF assms(1) New_ok [OF assms(2)]] by blast
  then have b: "base_okS E {} f" and p: "pools_ok E {} f" by (auto simp: inv_def)
  have po: "pool_ok E f hk h" if "hosts f hk = Some h" for hk h using p that by (simp add: pools_ok_def)
  have "pooled f hk = 0" if "hosts f hk = None" for hk using p that by (simp add: pools_ok_def)
  then have "pooled f hk \<le> 1" for hk using po [of hk] by (cases "hosts f hk") (auto simp: pool_ok_def)
  moreover have "\<not> he_inFlight h \<and> he_back h \<noteq> []" if "hosts f hk = Some h" "pooled f hk = 1" for hk h
    using po [OF that(1)] that(2) by (simp add: pool_ok_def)
  moreover have "HostKey k = hk \<and> recs f k \<noteq> None" if "hosts f hk = Some h" "k \<in> set (he_back h)" for hk h k
    using base_okD(9) [OF b that(1)] that(2) by (auto simp: host_ok_def)
  ultimately show ?thesis
    using base_okD(10,11,13) [OF b] by (simp add: active_hosts_def)
qed

theorem run_keeps_frontier_consistent_witness:
  "f_active demo_seeded = int (card {hk. \<exists>h. hosts demo_seeded hk = Some h \<and> he_active h})"
proof -
  have "fstep demo demo_new Intake demo_seeded"
    unfolding demo_seeded_def by (rule fstep.seed) (simp add: small_def demo_new_def New_def newArena_def)
  then have "frun demo demo_new [Intake] demo_seeded" by (simp add: frun_Cons)
  from run_keeps_frontier_consistent [OF this [unfolded demo_new_def]] show ?thesis by simp
qed

text \<open>C5: The scheduler never panics and its loops end: in every reachable state whose string arena is
  below the 64-bit address space, a dispatch returns, and so does the report of any outcome for a
  request that is out.\<close>

theorem frontier_never_stuck:
  assumes "frun E (New logf E pid created w) es f" "unat created + 1024 < 2 ^ 32" "small f"
  shows "(\<exists>r f'. DispatchShard E now shard f = Some (r, f'))
     \<and> (awaiting E f (o_URLKey out) \<longrightarrow> (\<exists>f'. Report E out now f = Some f'))"
proof -
  have i: "inv E f" using frun_inv [OF assms(1) New_ok [OF assms(2)]] by blast
  then show ?thesis using DispatchShard_ok [OF i assms(3)] Report_ok [OF i assms(3)] by blast
qed

lemma demo_run_seeded: "frun demo (New (\<lambda>_. -1) demo 7 480000 ()) [Intake] demo_seeded"
proof -
  have "fstep demo demo_new Intake demo_seeded"
    unfolding demo_seeded_def by (rule fstep.seed) (simp add: small_def demo_new_def New_def newArena_def)
  then show ?thesis by (simp add: frun_Cons demo_new_def)
qed

theorem frontier_never_stuck_witness:
  "\<exists>r f'. DispatchShard demo 1728000000 0 demo_seeded = Some (r, f')"
  using frontier_never_stuck [OF demo_run_seeded] demo_seeded_facts(1) by (simp add: small_def)

text \<open>The word-level spacing read as time: without a wrap of the clock, a window of an interval counts the
  whole seconds of the interval, and at least one.\<close>

lemma window_in_time:
  assumes w: "t1 + durSecs I \<le> t2" and d: "0 \<le> I" "I < 2 ^ 32 * Second"
    and c: "unat t1 + unat (durSecs I) < 2 ^ 32"
  defines "gap \<equiv> int (unat t2) - int (unat t1)"
  shows "1 \<le> gap \<and> I < (gap + 1) * Second \<and> (I mod Second = 0 \<longrightarrow> I \<le> gap * Second)"
proof -
  have "unat (t1 + durSecs I) = unat t1 + unat (durSecs I)" using c by (subst unat_add_lem [symmetric]) simp
  then have "unat t1 + unat (durSecs I) \<le> unat t2" using w unfolding word_le_nat_alt by linarith
  then have "max (I div Second) 1 \<le> gap"
    unfolding gap_def durSecs_unat [OF d, symmetric] by linarith
  then have g: "1 \<le> gap" "I div Second \<le> gap" by simp_all
  have I: "I = I div Second * Second + I mod Second" by simp
  have "0 < Second" "I mod Second < Second" by (simp_all add: Second_def)
  moreover have "I div Second * Second \<le> gap * Second" using g(2) by (simp add: Second_def)
  ultimately have "I < (gap + 1) * Second" "I mod Second = 0 \<Longrightarrow> I \<le> gap * Second"
    unfolding distrib_right using I by linarith+
  then show ?thesis using g(1) by blast
qed

text \<open>C2: Politeness on the wire: if a request to a host goes out at \<open>t1\<close> and the next request to the same
  host goes out at \<open>t2\<close>, with anything in between, then the window of the host's politeness interval at
  \<open>t1\<close> has passed, and the outcome of the first request was reported before the second went out.  The
  window counts whole seconds: while the 32-bit clock does not wrap, the requests are at least one second
  apart, at least the full interval apart when it is a whole number of seconds, and otherwise less than
  a second short of it (the wired spacing drops the fraction of a crawl delay).\<close>

theorem polite_spacing:
  assumes pre: "frun E (New logf E pid created w) es f" "unat created + 1024 < 2 ^ 32"
    and s1: "fstep E f (Sent t1 r1) f1" and mid: "frun E f1 ms f2" "\<forall>e \<in> set ms. \<not> sends (rq_HostKey r1) e"
    and s2: "fstep E f2 (Sent t2 r2) f3" and same: "rq_HostKey r2 = rq_HostKey r1"
  shows "(\<exists>h I gap. hosts f (rq_HostKey r1) = Some h \<and> gap = int (unat t2) - int (unat t1)
        \<and> I = HostInterval (cf_pol (cfg E)) (he_effective h) (he_crawlFloor h) \<and> t1 + durSecs I \<le> t2
        \<and> (0 \<le> I \<and> I < 2 ^ 32 * Second \<and> unat t1 + unat (durSecs I) < 2 ^ 32 \<longrightarrow>
             1 \<le> gap \<and> I < (gap + 1) * Second \<and> (I mod Second = 0 \<longrightarrow> I \<le> gap * Second)))
     \<and> (\<exists>e \<in> set ms. reports (rq_HostKey r1) e)"
proof -
  have i: "inv E f" using frun_inv [OF pre(1) New_ok [OF pre(2)]] by blast
  note S1 = Sent_step [OF i s1]
  then have i1: "inv E f1" by blast
  obtain h h1 where h: "hosts f (rq_HostKey r1) = Some h" "hosts f1 (rq_HostKey r1) = Some h1" "spent E t1 h h1"
    using S1 by (auto simp: sent_dispatch_def)
  have i2: "inv E f2" using frun_inv [OF mid(1) i1] by blast
  obtain h2 where h2: "hosts f2 (rq_HostKey r1) = Some h2" "\<not> he_inFlight h2" "h_HostNextEligible (he_rec h2) \<le> t2"
    using Sent_step [OF i2 s2] same by (auto simp: sent_dispatch_def)
  have W: "host_next f2 (rq_HostKey r1) = host_next f1 (rq_HostKey r1)"
    "in_flight f1 (rq_HostKey r1) \<longrightarrow> (\<forall>e \<in> set ms. \<not> reports (rq_HostKey r1) e) \<longrightarrow> in_flight f2 (rq_HostKey r1)"
    using frun_window [OF mid(1) i1 _ mid(2)] h(2) by auto
  define I where "I = HostInterval (cf_pol (cfg E)) (he_effective h) (he_crawlFloor h)"
  have "t1 + durSecs I \<le> t2" "\<exists>e \<in> set ms. reports (rq_HostKey r1) e"
    using W h h2 by (auto simp: host_next_def in_flight_def spent_def I_def)
  then show ?thesis using h(1) window_in_time [of t1 I t2] unfolding I_def by blast
qed

lemma demo_seeded_floor: "hosts demo_seeded hk = Some h \<Longrightarrow> he_crawlFloor h = Second"
  by (auto simp: demo_seeded_def demo_new_def New_def Seed_def Let_def split_beta schedule_def frontPush_def
      upd_host_def set_host_def ensure_host_def newHost_def map_of_mput intern_def deciToDur_def Second_def
      Millisecond_def split: option.splits if_splits)

lemma demo_interval:
  assumes "hosts demo_seeded hk = Some h"
  defines "I \<equiv> HostInterval (cf_pol (cfg demo)) (he_effective h) (he_crawlFloor h)"
  shows "0 \<le> I \<and> I < 2 ^ 32 * Second \<and> unat (1728000000 :: u32) + unat (durSecs I) < 2 ^ 32"
proof -
  have I: "0 \<le> I" "I \<le> 300 * Second"
    using HostInterval_band [of DefaultConfig "he_effective h" "he_crawlFloor h", THEN conjunct1]
      HostInterval_band [of DefaultConfig "he_effective h" "he_crawlFloor h", THEN conjunct2, THEN conjunct2, THEN conjunct1]
      demo_seeded_floor [OF assms(1)]
    by (simp_all add: I_def demo_def WithStateMachine_def defaultFconfig_def DefaultConfig_def Second_def Millisecond_def)
  then have b: "0 \<le> I" "I < 2 ^ 32 * Second" by (auto simp: Second_def)
  have "I div Second \<le> 300" using I(2) by (simp add: Second_def)
  then have "unat (durSecs I) \<le> 300" using durSecs_unat [OF b] by linarith
  then have "unat (1728000000 :: u32) + unat (durSecs I) < 2 ^ 32" by simp
  then show ?thesis using b by blast
qed

theorem polite_spacing_witness:
  "\<exists>f r1 f1 ms f2 r2 f3 h I. fstep demo f (Sent 1728000000 r1) f1 \<and> frun demo f1 ms f2
     \<and> fstep demo f2 (Sent (-1) r2) f3 \<and> rq_HostKey r2 = rq_HostKey r1 \<and> hosts f (rq_HostKey r1) = Some h
     \<and> I = HostInterval (cf_pol (cfg demo)) (he_effective h) (he_crawlFloor h) \<and> 1728000000 + durSecs I \<le> -1
     \<and> I < (int (unat (-1 :: u32)) - 1728000000 + 1) * Second \<and> (\<exists>e \<in> set ms. reports (rq_HostKey r1) e)"
proof -
  obtain r1 f1 f2 f3 r2 f4 where r: "fstep demo demo_seeded (Sent 1728000000 r1) f1"
    "fstep demo f1 (Reported (rq_HostKey r1)) f2" "fstep demo f2 Intake f3" "fstep demo f3 (Sent (-1) r2) f4"
    "rq_HostKey r2 = rq_HostKey r1"
    using demo_twice by blast
  note m = frun_two [OF r(2,3)]
  obtain h I gap where h: "hosts demo_seeded (rq_HostKey r1) = Some h" "gap = int (unat (-1 :: u32)) - int (unat (1728000000 :: u32))"
    "I = HostInterval (cf_pol (cfg demo)) (he_effective h) (he_crawlFloor h)" "1728000000 + durSecs I \<le> -1"
    "0 \<le> I \<and> I < 2 ^ 32 * Second \<and> unat (1728000000 :: u32) + unat (durSecs I) < 2 ^ 32 \<longrightarrow> I < (gap + 1) * Second"
    "\<exists>e \<in> set [Reported (rq_HostKey r1), Intake]. reports (rq_HostKey r1) e"
    using polite_spacing [OF demo_run_seeded _ r(1) m _ r(4,5)] by auto
  have "I < (gap + 1) * Second" using h(3,5) demo_interval [OF h(1)] by blast
  then show ?thesis using r(1) m r(4,5) h by (intro exI) auto
qed

text \<open>C14: The number of hosts with queued work never exceeds the configured target: a run from a new
  frontier keeps it at or below the effective target, or at zero when that is negative.\<close>

theorem active_hosts_within_target:
  assumes "frun E (New logf E pid created w) es f" "unat created + 1024 < 2 ^ 32"
  shows "int (card {hk. \<exists>h. hosts f hk = Some h \<and> he_back h \<noteq> []}) \<le> max 0 (effectiveTarget E)"
proof -
  have i: "inv E f" "f_active f \<le> max 0 (effectiveTarget E)"
    using frun_inv [OF assms(1) New_ok [OF assms(2)]] by (auto simp: New_def)
  have b: "base_okS E {} f" using i by (simp add: inv_def)
  have "{hk. \<exists>h. hosts f hk = Some h \<and> he_back h \<noteq> []} \<subseteq> active_hosts f"
    using base_okD(9) [OF b] by (fastforce simp: active_hosts_def host_ok_def)
  then have "card {hk. \<exists>h. hosts f hk = Some h \<and> he_back h \<noteq> []} \<le> card (active_hosts f)"
    by (rule card_mono [rotated]) simp
  then show ?thesis using i(2) base_okD(11) [OF b] by simp
qed

theorem active_hosts_within_target_witness:
  "int (card {hk. \<exists>h. hosts demo_seeded hk = Some h \<and> he_back h \<noteq> []}) \<le> 2 ^ 30"
  using active_hosts_within_target [OF demo_run_seeded] by simp

text \<open>C7: With robots off, a dispatch that returns nothing is never idle with work at hand: every host with
  queued work and no fetch in flight is in the wait heap with a window that opens after \<open>now\<close>, the
  ready bank is empty, and the front bank is empty or the host of its head would exceed the target.  A
  host whose fetch is in flight waits for its report.  With robots on the statement is false: a host
  whose queued URLs were all excluded by its rules stays active in no pool, and URLs bound to it later
  are never dispatched (\<^verbatim>\<open>excluded_host_stranded\<close>).\<close>

theorem idle_dispatch_only_when_parked:
  assumes "frun E (New logf E pid created w) es f" "unat created + 1024 < 2 ^ 32" "small f"
    and "\<not> cf_robotsOn (cfg E)" and d: "DispatchShard E now shard f = Some (None, f')"
  shows "(\<forall>hk h. hosts f' hk = Some h \<longrightarrow> he_back h \<noteq> [] \<longrightarrow> \<not> he_inFlight h \<longrightarrow>
        (\<exists>it \<in> set (f_wait f'). w_hostKey it = hk \<and> now < w_eligible it))
     \<and> bank_elems (f_ready f') = {#} \<and> saturated (effectiveTarget E) f'"
proof -
  have i: "inv E f" using frun_inv [OF assms(1) New_ok [OF assms(2)]] by blast
  note R = DispatchShard_result [OF i assms(3) d]
  then have i': "inv E f'" and id: "idle_dispatch E now f f'" by auto
  have act: "he_active h" if "hosts f' hk = Some h" "he_back h \<noteq> []" for hk h
    using base_okD(9) [of E "{}" f' hk h] i' that by (auto simp: inv_def host_ok_def)
  then show ?thesis
    using idle_hosts_parked [OF i' id assms(4)] id by (auto simp: idle_dispatch_def)
qed

text \<open>While the only host of the small frontier is in flight, the next dispatch has nothing to send.\<close>

lemma demo_idle:
  "\<exists>es f f'. frun demo (New (\<lambda>_. -1) demo 7 480000 ()) es f \<and> small f \<and> DispatchShard demo 1728000000 0 f = Some (None, f')"
proof -
  obtain r1 f1 where s: "fstep demo demo_seeded (Sent 1728000000 r1) f1" using demo_twice by blast
  have I1: "inv demo f1" "sent_dispatch demo 1728000000 r1 demo_seeded f1" using Sent_step [OF demo_seeded_inv s] by auto
  have sm: "small f1" using I1(2) demo_seeded_facts(1) by (auto simp: sent_dispatch_def small_def)
  have run: "frun demo (New (\<lambda>_. -1) demo 7 480000 ()) [Intake, Sent 1728000000 r1] f1"
    using demo_run_seeded s by (auto simp: frun_Cons)
  define hk where "hk = HostKey (seed_key demo ''http://a.b/x'' ''a.b'')"
  have only: "hosts f1 x = None" if "x \<noteq> rq_HostKey r1" for x
  proof -
    obtain y where "hosts demo_seeded (rq_HostKey r1) = Some y" using I1(2) by (auto simp: sent_dispatch_def)
    then have "rq_HostKey r1 = hk" using demo_seeded_facts(3) unfolding hk_def by blast
    then have "hosts demo_seeded x = None" using demo_seeded_facts(3) that unfolding hk_def by (auto simp: dom_def)
    then show ?thesis using I1(2) that by (auto simp: sent_dispatch_def)
  qed
  obtain r f' where d: "DispatchShard demo 1728000000 0 f1 = Some (r, f')"
    "case r of None \<Rightarrow> True | Some req \<Rightarrow> sent_dispatch demo 1728000000 req f1 f'"
    using DispatchShard_ok [OF I1(1) sm, of 1728000000 0] by (auto split: option.splits)
  have "r = None"
  proof (rule ccontr)
    assume "r \<noteq> None"
    then obtain req where "r = Some req" by auto
    then obtain h where "hosts f1 (rq_HostKey req) = Some h" "\<not> he_inFlight h" using d(2) by (auto simp: sent_dispatch_def)
    moreover from this only have "rq_HostKey req = rq_HostKey r1" by fastforce
    ultimately show False using I1(2) by (auto simp: sent_dispatch_def spent_def)
  qed
  then show ?thesis using run sm d(1) by blast
qed

theorem idle_dispatch_only_when_parked_witness:
  "\<exists>f f'. DispatchShard demo 1728000000 0 f = Some (None, f') \<and> bank_elems (f_ready f') = {#}"
proof -
  obtain es f f' where "frun demo (New (\<lambda>_. -1) demo 7 480000 ()) es f" "small f" "DispatchShard demo 1728000000 0 f = Some (None, f')"
    using demo_idle by blast
  with idle_dispatch_only_when_parked [OF this(1) _ this(2) demo_cfg(1) this(3)] show ?thesis by auto
qed

section \<open>Delivering a link\<close>

lemma str_intern:
  assumes "f_arena f \<noteq> []" "small (snd (intern s f))"
  shows "arena_str (f_arena (snd (intern s f))) (fst (intern s f)) = Inr s"
proof -
  have "length (f_arena f) < 2 ^ 64" using assms(2) small_extends [OF intern_extends] by (auto simp: small_def)
  from span_at_intern [OF assms(1) this, of "bytes_of s"] show ?thesis
    using span_at_read assms(2) by (fastforce simp: small_def intern_def arena_intern_def Let_def arena_str_read)
qed

text \<open>What the link of a known row may change: with the prioritizer it is credited, so the row gets a new
  priority and moves to its bucket, the host's budget is set again and the ledger moves; else only the
  deduplication state is touched.\<close>

definition only_credited :: "'w env \<Rightarrow> Discovery \<Rightarrow> 'w Frontier \<Rightarrow> 'w Frontier \<Rightarrow> bool" where
  "only_credited E d f f' \<longleftrightarrow>
     f' = f\<lparr> f_seen := f_seen f', f_records := f_records f', f_hosts := f_hosts f', f_front := f_front f', f_world := f_world f' \<rparr>
     \<and> (if cf_prioOn (cfg E)
        then (\<exists>r p. recs f (d_URLKey d) = Some r \<and> recs f' = (recs f)(d_URLKey d \<mapsto> r\<lparr> u_Priority := p \<rparr>))
           \<and> (\<exists>h b. hosts f (HostKey (d_URLKey d)) = Some h
               \<and> hosts f' = (hosts f)(HostKey (d_URLKey d) \<mapsto> h\<lparr> he_rec := (he_rec h)\<lparr> h_URLBudget := b \<rparr> \<rparr>))
           \<and> ring_elems (f_front f') = ring_elems (f_front f)
        else f_records f' = f_records f \<and> f_hosts f' = f_hosts f \<and> f_front f' = f_front f \<and> f_world f' = f_world f)"

text \<open>What the link of a new key does: one row with the fields of the link, counted at its host, pushed on
  the front bank at the row's priority when the trap gate admits it, and no other row, host or queue.\<close>

definition filed_once :: "'w env \<Rightarrow> Discovery \<Rightarrow> 'w Frontier \<Rightarrow> bool \<Rightarrow> 'w Frontier \<Rightarrow> bool" where
  "filed_once E d f ok f' \<longleftrightarrow> (\<exists>r h'.
     recs f' = (recs f)(d_URLKey d \<mapsto> r) \<and> hosts f' = (hosts f)(HostKey (d_URLKey d) \<mapsto> h')
     \<and> u_URLKey r = d_URLKey d \<and> u_HostKey r = HostKey (d_URLKey d) \<and> ok = (u_Status r = StatusScheduled)
     \<and> u_Depth r = d_Depth d \<and> u_FirstSeen r = d_ObservedAt d \<and> u_DiscoverySource r = d_DiscoverySource d
     \<and> (small f' \<longrightarrow> arena_str (f_arena f') (u_URLRef r) = Inr (d_CanonicalURL d))
     \<and> (\<not> cf_prioOn (cfg E) \<longrightarrow> u_Priority r = d_LinkWeight d)
     \<and> h_URLCount (he_rec h') = (case hosts f (HostKey (d_URLKey d)) of None \<Rightarrow> 1 | Some h \<Rightarrow> h_URLCount (he_rec h) + 1)
     \<and> f_front f' = (if ok then ring_push (d_URLKey d) (u_Priority r) (f_front f) else f_front f)
     \<and> f_wheel f' = f_wheel f \<and> f_ready f' = f_ready f \<and> f_wait f' = f_wait f \<and> f_active f' = f_active f)"

lemma known_link:
  assumes b: "base_okS E {} f" and sn: "Seen (d_URLKey d) (f_seen f) = (True, sn)"
  shows "fst (Discover E d now f) = False \<and> only_credited E d f (snd (Discover E d now f))"
proof -
  define g where "g = f\<lparr> f_seen := sn \<rparr>"
  obtain r where r: "recs f (d_URLKey d) = Some r" using seen_ok(1) [OF b sn] by auto
  then obtain h where h: "hosts f (HostKey (d_URLKey d)) = Some h"
    using base_okD(8) [OF b] by (fastforce simp: rec_ok_def)
  have wf: "ring_wf (f_front f)" using base_okD [OF b] by blast
  have D: "Discover E d now f = (False, if cf_prioOn (cfg E) then creditDiscovery E d g else g)"
    using sn r by (simp add: Discover_def Let_def g_def)
  show ?thesis
  proof (cases "cf_prioOn (cfg E)")
    case True
    then show ?thesis
      using r h ring_rebucket_elems [OF wf]
      by (auto simp: D only_credited_def creditDiscovery_def reprice_def g_def upd_host_def set_host_def set_rec_def
          UpdateHostBudget_def map_of_mput Let_def split_beta)
  qed (auto simp: D only_credited_def g_def)
qed

lemma hosts_upd_host: "hosts (upd_host hk g f) = (case hosts f hk of None \<Rightarrow> hosts f | Some h \<Rightarrow> (hosts f)(hk \<mapsto> g h))"
  by (auto simp: upd_host_def set_host_def map_of_mput fun_eq_iff split: option.splits)

lemma queues_upd_host [simp]: "f_ready (upd_host hk g f) = f_ready f"
  by (simp add: upd_host_def split: option.split)

lemma queues_ensure_host [simp]: "f_ready (ensure_host E hk n cd f) = f_ready f" "f_wait (ensure_host E hk n cd f) = f_wait f"
  "f_active (ensure_host E hk n cd f) = f_active f"
  by (auto simp: ensure_host_def newHost_def Let_def split_beta split: option.split)

lemma discover_host_front [simp]:
  "f_front (discover_host E d now f) = f_front f" "f_wheel (discover_host E d now f) = f_wheel f"
  "f_ready (discover_host E d now f) = f_ready f" "f_wait (discover_host E d now f) = f_wait f"
  "f_active (discover_host E d now f) = f_active f" "f_records (discover_host E d now f) = f_records f"
  by (auto simp: discover_host_def Let_def split_beta)

lemma newHost_hosts:
  "f_hosts (snd (newHost E hk ref n cd f)) = f_hosts f" "h_URLCount (he_rec (fst (newHost E hk ref n cd f))) = 0"
  by (auto simp: newHost_def zeroHost_def Let_def split: option.splits)

text \<open>A host table that differs from \<open>m\<close> only at \<open>hk\<close>, whose host has counted \<open>n\<close> URLs.\<close>

definition host_counted :: "u64 \<Rightarrow> (u64 \<rightharpoonup> hostEntry) \<Rightarrow> u32 \<Rightarrow> 'w Frontier \<Rightarrow> bool" where
  "host_counted hk m n f \<longleftrightarrow> (\<exists>h. hosts f = m(hk \<mapsto> h) \<and> h_URLCount (he_rec h) = n)"

lemma host_counted_upd:
  assumes "host_counted hk m n f" "\<And>h. h_URLCount (he_rec (u h)) = h_URLCount (he_rec h)"
  shows "host_counted hk m n (upd_host hk u f)"
proof -
  obtain h where "hosts f = m(hk \<mapsto> h)" "h_URLCount (he_rec h) = n" using assms(1) by (auto simp: host_counted_def)
  then show ?thesis unfolding host_counted_def
    by (intro exI [of _ "u h"]) (simp add: hosts_upd_host assms(2) fun_eq_iff)
qed

lemma host_counted_world [simp]: "host_counted hk m n (f\<lparr> f_world := w \<rparr>) = host_counted hk m n f"
  by (simp add: host_counted_def)

lemma ensure_host_counted:
  "host_counted hk (hosts f) (case hosts f hk of None \<Rightarrow> 0 | Some h \<Rightarrow> h_URLCount (he_rec h)) (ensure_host E hk name cd f)"
proof (cases "hosts f hk")
  case None
  then show ?thesis unfolding host_counted_def
    by (intro exI [of _ "fst (newHost E hk (fst (intern name f)) name cd (snd (intern name f)))"])
      (auto simp: ensure_host_def set_host_def map_of_mput Let_def split_beta newHost_hosts fun_eq_iff)
next
  case (Some h)
  then show ?thesis unfolding host_counted_def by (intro exI [of _ h]) (simp add: ensure_host_def map_upd_triv)
qed

lemma discover_host_counted:
  "host_counted (HostKey (d_URLKey d)) (hosts f)
     (case hosts f (HostKey (d_URLKey d)) of None \<Rightarrow> 0 | Some h \<Rightarrow> h_URLCount (he_rec h)) (discover_host E d now f)"
  using ensure_host_counted
  by (auto simp: discover_host_def Let_def split_beta UpdateHostBudget_def FlagTrapSuspect_def intro!: host_counted_upd)

lemma discover_row:
  "u_Depth (discover_rec E d now f) = d_Depth d" "u_FirstSeen (discover_rec E d now f) = d_ObservedAt d"
  "u_DiscoverySource (discover_rec E d now f) = d_DiscoverySource d"
  "\<not> cf_prioOn (cfg E) \<Longrightarrow> u_Priority (discover_rec E d now f) = d_LinkWeight d"
  by (simp_all add: discover_rec_def Let_def split_beta zeroURL_def)

lemma new_link:
  assumes b: "base_okS E {} f" and sn: "Seen (d_URLKey d) (f_seen f) = (False, sn)"
  shows "filed_once E d f (fst (Discover E d now f)) (snd (Discover E d now f))"
proof -
  define k where "k = d_URLKey d"
  define hk where "hk = HostKey k"
  define f5 where "f5 = discover_host E d now (f\<lparr> f_seen := sn \<rparr>)"
  define rec where "rec = discover_rec E d now f5"
  define f6 where "f6 = snd (intern (d_CanonicalURL d) f5)"
  define f8 where "f8 = upd_host hk (\<lambda>h. h\<lparr> he_rec := (he_rec h)\<lparr> h_URLCount := h_URLCount (he_rec h) + 1 \<rparr> \<rparr>) (set_rec k rec f6)"
  have D: "Discover E d now f = (if u_Status rec \<noteq> StatusScheduled then (False, f8)
      else (True, frontPush E k (u_Priority rec) (now div 3600) f8))"
    using sn unfolding Discover_def Let_def f8_def f6_def rec_def f5_def hk_def k_def by (simp add: discover_rec_fields)
  have b5: "base_okS E {k} f5"
    unfolding f5_def using discover_host_ok(1) [OF seen_ok(2) [OF b sn]] by (simp add: k_def)
  obtain h where h: "hosts f5 = (hosts f)(hk \<mapsto> h)"
    "h_URLCount (he_rec h) = (case hosts f hk of None \<Rightarrow> 0 | Some h \<Rightarrow> h_URLCount (he_rec h))"
    using discover_host_counted [of d "f\<lparr> f_seen := sn \<rparr>" E now]
    unfolding host_counted_def f5_def hk_def k_def by auto
  have i: "f_records f6 = f_records f" "f_hosts f6 = f_hosts f5" "f_front f6 = f_front f" "f_wheel f6 = f_wheel f"
    "f_ready f6 = f_ready f" "f_wait f6 = f_wait f" "f_active f6 = f_active f"
    by (simp_all add: f6_def f5_def intern_def split_beta)
  have "recs f8 = (recs f)(k \<mapsto> rec)" using i by (simp add: f8_def set_rec_def map_of_mput fun_eq_iff)
  moreover have "hosts f8 = (hosts f)(hk \<mapsto> h\<lparr> he_rec := (he_rec h)\<lparr> h_URLCount := h_URLCount (he_rec h) + 1 \<rparr> \<rparr>)"
    using i h(1) by (simp add: f8_def hosts_upd_host set_rec_def fun_eq_iff)
  moreover have "small f6 \<Longrightarrow> arena_str (f_arena f6) (u_URLRef rec) = Inr (d_CanonicalURL d)"
    using str_intern [OF base_okD(7) [OF b5]] by (simp add: f6_def rec_def discover_rec_fields)
  moreover have "f_arena f8 = f_arena f6" "f_front f8 = f_front f" "f_wheel f8 = f_wheel f" "f_ready f8 = f_ready f"
    "f_wait f8 = f_wait f" "f_active f8 = f_active f"
    using i by (simp_all add: f8_def set_rec_def)
  ultimately show ?thesis
    unfolding filed_once_def D k_def [symmetric] hk_def [symmetric]
    using h(2) discover_rec_fields [of E d now f5, folded rec_def k_def hk_def] discover_row [of E d now f5, folded rec_def]
    by (intro exI [of _ rec] exI [of _ "h\<lparr> he_rec := (he_rec h)\<lparr> h_URLCount := h_URLCount (he_rec h) + 1 \<rparr> \<rparr>"])
      (auto simp: frontPush_def Let_def small_def split: option.splits)
qed

text \<open>C15: Delivering a link files its URL once.  A link to a key that has a row is reported as already known
  and changes no row, host or queue without the prioritizer; with it, the link is credited: the row's
  priority, the bucket of its front entry, the host's URL budget and the ledger, nothing else.  A link to
  a new key files one row with the fields of the link, under its host, whose URL count grows by one, and
  pushes it on the front bank exactly when the trap gate admitted it; every other row, host and queue
  stays as it was.\<close>

theorem Discover_files_once:
  assumes "frun E (New logf E pid created w) es f" "unat created + 1024 < 2 ^ 32"
    and D: "Discover E d now f = (ok, f')"
  shows "if recs f (d_URLKey d) \<noteq> None then \<not> ok \<and> only_credited E d f f' else filed_once E d f ok f'"
proof -
  have b: "base_okS E {} f" using frun_inv [OF assms(1) New_ok [OF assms(2)]] by (simp add: inv_def)
  obtain dup sn where sn: "Seen (d_URLKey d) (f_seen f) = (dup, sn)" by fastforce
  have "dup \<longleftrightarrow> recs f (d_URLKey d) \<noteq> None" using seen_ok(1) [OF b sn] by simp
  then show ?thesis
    using known_link [OF b, of d sn now] new_link [OF b, of d sn now] sn D by (cases dup) auto
qed

definition demo_link :: Discovery where
  "demo_link = \<lparr> d_URLKey = URLKey 5 6, d_CanonicalURL = ''http://c.d/'', d_Depth = 1,
      d_DiscoverySource = SourceRedirect, d_SrcHostKey = 0, d_LinkWeight = f32_one, d_AnchorHint = AnchorUnknown,
      d_ObservedAt = 480000 \<rparr>"

theorem Discover_files_once_witness:
  "\<exists>r. recs (snd (Discover demo demo_link 1728000000 demo_new)) (URLKey 5 6) = Some r
     \<and> u_Priority r = f32_one \<and> u_FirstSeen r = 480000"
proof -
  have "frun demo (New (\<lambda>_. -1) demo 7 480000 ()) [] demo_new" by (simp add: demo_new_def)
  from Discover_files_once [OF this _ prod.collapse [symmetric], of demo_link 1728000000]
  show ?thesis by (auto simp: filed_once_def demo_link_def)
qed

text \<open>C16: With the outcome state machine on, a failed fetch is retried or retired, never dropped.  Failed
  (\<^verbatim>\<open>failing\<close>) is an outcome that is neither a 304 nor a redirect and is retryable or has a 4xx or 5xx
  status, and the report is not that of a robots.txt fetch.  The URL leaves the head of its host's queue;
  with retries left and no 410 it goes back to the tail, scheduled again after the backoff, and the host
  stays active; otherwise it is Gone and not queued, and the host is active exactly when other URLs wait.
  The row of no other URL changes.  In the default configuration, with the state machine off, every
  report marks its URL Crawled and this does not apply.\<close>

theorem failed_fetch_retried_or_gone:
  assumes "frun E (New logf E pid created w) es f" "unat created + 1024 < 2 ^ 32" "small f"
    and "awaiting E f (o_URLKey out)" "\<not> robots_report E out f" "failing E out"
    and h: "hosts f (HostKey (o_URLKey out)) = Some h" and rec: "recs f (o_URLKey out) = Some rec"
  defines "retry \<equiv> o_HTTPStatus out \<noteq> 410 \<and> u_RetryCount rec + 1 < maxRetries \<and> u_RetryCount rec < maxRetries"
  shows "\<exists>f' h' rec'. Report E out now f = Some f' \<and> hosts f' (HostKey (o_URLKey out)) = Some h'
     \<and> recs f' (o_URLKey out) = Some rec'
     \<and> he_back h' = tl (he_back h) @ (if retry then [o_URLKey out] else [])
     \<and> (he_active h' \<longleftrightarrow> he_back h' \<noteq> []) \<and> \<not> he_inFlight h'
     \<and> u_Status rec' = (if retry then StatusScheduled else StatusGone)
     \<and> (retry \<longrightarrow> u_RetryCount rec' = u_RetryCount rec + 1
          \<and> u_NextDue rec' = o_FetchedAt out + retryBackoffHours (u_RetryCount rec + 1))
     \<and> (\<forall>k. k \<noteq> o_URLKey out \<longrightarrow> recs f' k = recs f k)"
proof -
  have i: "inv E f" using frun_inv [OF assms(1) New_ok [OF assms(2)]] by blast
  obtain again rec' where row: "fail_row out (rec\<lparr> u_HTTPStatus := o_HTTPStatus out \<rparr>) = (again, rec')" by fastforce
  have r: "again = retry" "u_Status rec' = (if retry then StatusScheduled else StatusGone)"
    "retry \<longrightarrow> u_RetryCount rec' = u_RetryCount rec + 1 \<and> u_NextDue rec' = o_FetchedAt out + retryBackoffHours (u_RetryCount rec + 1)"
    using row by (auto simp: fail_row_def Let_def retry_def not_less split: if_splits)
  obtain f' h' where F: "Report E out now f = Some f'" "recs f' (o_URLKey out) = Some rec'"
    "f_hosts f' = f_hosts (set_host (HostKey (o_URLKey out)) h' f)"
    "he_back h' = tl (he_back h) @ (if again then [o_URLKey out] else [])" "he_active h' \<longleftrightarrow> he_back h' \<noteq> []"
    "\<not> he_inFlight h'" "\<forall>k. k \<noteq> o_URLKey out \<longrightarrow> recs f' k = recs f k"
    using Report_failed [OF i assms(3,4,5,6) h rec row, of now] by blast
  show ?thesis
    using F r by (intro exI [of _ f'] exI [of _ h'] exI [of _ rec']) simp
qed

text \<open>Retries are bounded: from a fresh row the first four failures schedule the URL again after 1, 2,
  4 and 8 hours, the fifth retires it as Gone, and a 410 retires it at once.\<close>

theorem retries_bounded:
  assumes "u_RetryCount rec = 0" "o_HTTPStatus out \<noteq> 410"
  defines "after n \<equiv> ((\<lambda>r. snd (fail_row out r)) ^^ n) rec"
  shows "(\<forall>n \<in> {1..4}. u_Status (after n) = StatusScheduled \<and> u_NextDue (after n) = o_FetchedAt out + 2 ^ (n - 1))
     \<and> u_Status (after 5) = StatusGone
     \<and> u_Status (snd (fail_row (out\<lparr> o_HTTPStatus := 410 \<rparr>) rec)) = StatusGone"
proof -
  have step: "u_RetryCount (after (Suc n)) = u_RetryCount (after n) + 1
      \<and> (if u_RetryCount (after n) + 1 < 5
         then u_Status (after (Suc n)) = StatusScheduled
              \<and> u_NextDue (after (Suc n)) = o_FetchedAt out + retryBackoffHours (u_RetryCount (after n) + 1)
         else u_Status (after (Suc n)) = StatusGone)" if "u_RetryCount (after n) < 5" for n
    using assms(2) that by (auto simp: after_def fail_row_def maxRetries_def Let_def)
  have hours: "retryBackoffHours 1 = 1" "retryBackoffHours 2 = 2" "retryBackoffHours 3 = 4" "retryBackoffHours 4 = 8"
    by (simp_all add: retryBackoffHours_def recrawlGapHours_def Let_def push_bit_eq_mult min_def)
  have s1: "u_RetryCount (after 1) = 1 \<and> u_Status (after 1) = StatusScheduled \<and> u_NextDue (after 1) = o_FetchedAt out + 1"
    using step [of 0] assms(1) hours by (simp add: after_def)
  have s2: "u_RetryCount (after 2) = 2 \<and> u_Status (after 2) = StatusScheduled \<and> u_NextDue (after 2) = o_FetchedAt out + 2"
    using step [of 1, unfolded Suc_1] s1 hours by simp
  have s3: "u_RetryCount (after 3) = 3 \<and> u_Status (after 3) = StatusScheduled \<and> u_NextDue (after 3) = o_FetchedAt out + 4"
    using step [of 2] s2 hours by simp
  have s4: "u_RetryCount (after 4) = 4 \<and> u_Status (after 4) = StatusScheduled \<and> u_NextDue (after 4) = o_FetchedAt out + 8"
    using step [of 3] s3 hours by simp
  have s5: "u_Status (after 5) = StatusGone" using step [of 4] s4 by simp
  have "u_Status (after n) = StatusScheduled \<and> u_NextDue (after n) = o_FetchedAt out + 2 ^ (n - 1)" if "n \<in> {1..4}" for n
  proof -
    from that consider "n = 1" | "n = 2" | "n = 3" | "n = 4" by force
    then show ?thesis by cases (use s1 s2 s3 s4 in simp_all)
  qed
  then show ?thesis using s5 by (simp add: fail_row_def Let_def)
qed

theorem retries_bounded_witness:
  "u_Status (((\<lambda>r. snd (fail_row demo_fail r)) ^^ 5) (zeroURL (URLKey 1 2))) = StatusGone"
  using retries_bounded [of "zeroURL (URLKey 1 2)" demo_fail] by (simp add: zeroURL_def demo_fail_def)

text \<open>The report of the failure in the life of the small frontier.\<close>

theorem failed_fetch_retried_or_gone_witness:
  "\<exists>f f' h'. awaiting demo f (o_URLKey demo_fail) \<and> Report demo demo_fail 1728000100 f = Some f'
     \<and> hosts f' (HostKey (o_URLKey demo_fail)) = Some h' \<and> \<not> he_inFlight h'"
proof -
  obtain r1 f1 h1 rec where d: "fstep demo demo_seeded (Sent 1728000000 r1) f1" "small f1" "awaiting demo f1 (o_URLKey demo_fail)"
    "hosts f1 (HostKey (o_URLKey demo_fail)) = Some h1" "recs f1 (o_URLKey demo_fail) = Some rec"
    using demo_first by auto
  have run: "frun demo (New (\<lambda>_. -1) demo 7 480000 ()) [Intake, Sent 1728000000 r1] f1"
    using demo_run_seeded d(1) by (auto simp: frun_Cons)
  from failed_fetch_retried_or_gone [OF run _ d(2,3) demo_fail_simps(2,1) d(4,5), of 1728000100]
  show ?thesis using d(3) by auto
qed

end
