(* ===== verification/FrontierRecover.thy ===== *)
theory FrontierRecover
  imports FrontierProps
begin

text \<open>
  Checkpoint and recovery: a frontier rebuilt from the partition it wrote has the same rows, host
  records, strings and seen-set, and every schedulable row is queued exactly once.
\<close>

section \<open>Recovering hosts\<close>

definition recovered :: "'w env \<Rightarrow> HostRecord \<Rightarrow> hostEntry" where
  "recovered E r = \<lparr> he_rec = r, he_back = [], he_inFlight = False, he_active = False,
     he_effective = c_Default (cf_pol (cfg E)), he_crawlFloor = deciToDur (h_CrawlDelay r),
     he_robots = None, he_robotsState = robotsNone, he_ceilStreak = 0 \<rparr>"

lemma recover_host_eq: "recover_host E r = set_host (h_HostKey r) (recovered E r)"
  by (rule ext) (simp add: recover_host_def recovered_def)

lemma find_fresh: "distinct (map g (x # xs)) \<Longrightarrow> g x = k \<Longrightarrow> find (\<lambda>y. g y = k) xs = None"
  by (simp add: find_None_iff image_iff) metis

lemma recover_hosts_map:
  assumes "distinct (map h_HostKey rs)"
  shows "hosts (fold (recover_host E) rs f) hk =
     (case find (\<lambda>r. h_HostKey r = hk) rs of Some r \<Rightarrow> Some (recovered E r) | None \<Rightarrow> hosts f hk)"
  using assms
proof (induction rs arbitrary: f)
  case (Cons r rs)
  have "find (\<lambda>r. h_HostKey r = hk) rs = None" if "h_HostKey r = hk"
    using find_fresh [OF Cons.prems that] .
  then show ?case using Cons by (auto simp: recover_host_eq split: option.split)
qed simp

lemma recover_hosts_fields:
  "f_records (fold (recover_host E) rs f) = f_records f" "f_arena (fold (recover_host E) rs f) = f_arena f"
  "f_seen (fold (recover_host E) rs f) = f_seen f" "f_front (fold (recover_host E) rs f) = f_front f"
  "f_ready (fold (recover_host E) rs f) = f_ready f" "f_wait (fold (recover_host E) rs f) = f_wait f"
  "f_active (fold (recover_host E) rs f) = f_active f" "f_wheel (fold (recover_host E) rs f) = f_wheel f"
  by (induction rs arbitrary: f) (simp_all add: recover_host_eq)

lemma recover_hosts_distinct:
  "distinct (map fst (f_hosts f)) \<Longrightarrow> distinct (map fst (f_hosts (fold (recover_host E) rs f)))"
  by (induction rs arbitrary: f) (simp_all add: recover_host_eq set_host_def distinct_mput)

section \<open>Recovering rows\<close>

text \<open>A fetch in flight at the checkpoint is scheduled again.\<close>

definition restart :: "URLRecord \<Rightarrow> URLRecord" where
  "restart r = (if u_Status r = StatusInFlight then r\<lparr> u_Status := StatusScheduled \<rparr> else r)"

lemma restart_fields [simp]:
  "u_URLKey (restart r) = u_URLKey r" "u_HostKey (restart r) = u_HostKey r" "u_URLRef (restart r) = u_URLRef r"
  "u_ETagRef (restart r) = u_ETagRef r" "u_NextDue (restart r) = u_NextDue r" "u_Priority (restart r) = u_Priority r"
  "u_FirstSeen (restart r) = u_FirstSeen r"
  by (simp_all add: restart_def)

definition queued_status :: "URLStatus \<Rightarrow> bool" where
  "queued_status s \<longleftrightarrow> s \<in> {StatusScheduled, StatusReady, StatusDueRecrawl}"

lemma insert_ok:
  assumes b: "base_okS E {} f"
  shows "base_okS E {k} (f\<lparr> f_seen := Insert k (f_seen f) \<rparr>)"
proof (rule base_shape [OF b])
  note B = base_okD [OF b]
  show "intake f (f\<lparr> f_seen := Insert k (f_seen f) \<rparr>)" by (rule intake_cong) auto
  show "seen_wf (f_seen (f\<lparr> f_seen := Insert k (f_seen f) \<rparr>))" using seenset.ins_wf [OF B(12)] by simp
  show "seen_abs (f_seen (f\<lparr> f_seen := Insert k (f_seen f) \<rparr>)) = {ka. recs (f\<lparr> f_seen := Insert k (f_seen f) \<rparr>) ka \<noteq> None} \<union> {k}"
    using seenset.ins_held [OF B(12), of k] B(13) by auto
qed (use base_okD [OF b] in \<open>auto simp: rec_ok_def host_ok_def small_def\<close>)

lemma recover_url_ok:
  assumes b: "base_okS E {} f" and r: "rec_ok f (u_URLKey r) r"
  shows "\<exists>f'. recover_url E r f = Some f' \<and> base_okS E {} f' \<and> f_hosts f' = f_hosts f \<and> f_arena f' = f_arena f
     \<and> f_ready f' = f_ready f \<and> f_wait f' = f_wait f \<and> f_active f' = f_active f
     \<and> (\<forall>k. recs f' k = (if k = u_URLKey r then Some (restart r) else recs f k))
     \<and> ring_elems (f_front f') = ring_elems (f_front f) + (if queued_status (u_Status (restart r)) then {#u_URLKey r#} else {#})"
proof -
  define k where "k = u_URLKey r"
  define g where "g = f\<lparr> f_seen := Insert k (f_seen f) \<rparr>"
  define f2 where "f2 = set_rec k (restart r) g"
  have f2: "(set_rec k (restart r) f)\<lparr> f_seen := Insert k (f_seen f) \<rparr> = f2"
    by (cases f) (simp add: f2_def g_def set_rec_def)
  have "rec_ok g k (restart r)" using r by (simp add: rec_ok_def g_def k_def small_def)
  then have b2: "base_okS E {} f2" unfolding f2_def by (rule set_rec_ok [OF insert_ok [OF b, of k, folded g_def]]) auto
  have n2: "recs f2 k \<noteq> None" by (simp add: f2_def)
  have h2: "hosts f2 (u_HostKey r) \<noteq> None" using r by (simp add: rec_ok_def f2_def g_def)
  note P = frontPush_ok(1) [OF b2 n2]
  note W = wheel_ok(1) [OF b2 wheel_add_wf_abs(1) [OF base_okD(6) [OF b2]]]
  have e: "recover_url E r f = Some (if queued_status (u_Status (restart r)) then frontPush E k (u_Priority r) (u_FirstSeen r) f2
      else if u_Status (restart r) = StatusCrawled \<and> cf_wheelOn (cfg E) \<and> u_NextDue r > 0
      then f2\<lparr> f_wheel := wheel_add k (u_NextDue r) (f_wheel f2) \<rparr> else f2)"
  proof -
    have "recover_url E r f =
      (if queued_status (u_Status (restart r)) then do {
         f3 \<leftarrow> (if hosts f2 (u_HostKey r) = None
               then do { u \<leftarrow> str f2 (u_URLRef r); Some (ensure_host E (u_HostKey r) (HostOf u) 10 f2) } else Some f2);
         Some (frontPush E k (u_Priority r) (u_FirstSeen r) f3) }
       else if u_Status (restart r) = StatusCrawled \<and> cf_wheelOn (cfg E) \<and> u_NextDue r > 0
       then Some (f2\<lparr> f_wheel := wheel_add k (u_NextDue r) (f_wheel f2) \<rparr>) else Some f2)"
      unfolding recover_url_def restart_def [symmetric] Let_def queued_status_def restart_fields k_def [symmetric]
        set_rec_fields f2 ..
    moreover obtain h where "hosts f2 (u_HostKey r) = Some h" using h2 by auto
    ultimately show ?thesis by simp
  qed
  show ?thesis
    unfolding e using b2 P W base_okD(3) [OF b]
    by (auto simp: frontPush_def Let_def f2_def g_def ring_elems_push k_def)
qed

lemma recover_urls_ok:
  assumes "base_okS E {} f" "\<forall>r \<in> set rs. rec_ok f (u_URLKey r) r" "distinct (map u_URLKey rs)"
  shows "\<exists>f'. recover_urls E rs f = Some f' \<and> base_okS E {} f' \<and> f_hosts f' = f_hosts f \<and> f_arena f' = f_arena f
     \<and> f_ready f' = f_ready f \<and> f_wait f' = f_wait f \<and> f_active f' = f_active f
     \<and> (\<forall>k. recs f' k = (case find (\<lambda>r. u_URLKey r = k) rs of Some r \<Rightarrow> Some (restart r) | None \<Rightarrow> recs f k))
     \<and> ring_elems (f_front f') = ring_elems (f_front f)
         + image_mset u_URLKey (mset (filter (\<lambda>r. queued_status (u_Status (restart r))) rs))"
  using assms
proof (induction rs arbitrary: f)
  case (Cons r rs)
  obtain f1 where f1: "recover_url E r f = Some f1" "base_okS E {} f1" "f_hosts f1 = f_hosts f" "f_arena f1 = f_arena f"
     "f_ready f1 = f_ready f" "f_wait f1 = f_wait f" "f_active f1 = f_active f"
     "\<forall>k. recs f1 k = (if k = u_URLKey r then Some (restart r) else recs f k)"
     "ring_elems (f_front f1) = ring_elems (f_front f) + (if queued_status (u_Status (restart r)) then {#u_URLKey r#} else {#})"
    using recover_url_ok [OF Cons.prems(1), of r] Cons.prems(2) by (elim exE conjE meta_impE) (auto intro: that)
  have "\<forall>r \<in> set rs. rec_ok f1 (u_URLKey r) r" using Cons.prems(2) f1(3,4) by (auto simp: rec_ok_def small_def)
  then obtain f' where f': "recover_urls E rs f1 = Some f'" "base_okS E {} f'" "f_hosts f' = f_hosts f1" "f_arena f' = f_arena f1"
     "f_ready f' = f_ready f1" "f_wait f' = f_wait f1" "f_active f' = f_active f1"
     "\<forall>k. recs f' k = (case find (\<lambda>r. u_URLKey r = k) rs of Some r \<Rightarrow> Some (restart r) | None \<Rightarrow> recs f1 k)"
     "ring_elems (f_front f') = ring_elems (f_front f1)
         + image_mset u_URLKey (mset (filter (\<lambda>r. queued_status (u_Status (restart r))) rs))"
    using Cons.IH [OF f1(2)] Cons.prems(3) by (elim exE conjE meta_impE) (auto intro: that)
  have "find (\<lambda>x. u_URLKey x = u_URLKey r) rs = None" using find_fresh [OF Cons.prems(3) refl] .
  then have "recs f' k = (case find (\<lambda>r. u_URLKey r = k) (r # rs) of Some r \<Rightarrow> Some (restart r) | None \<Rightarrow> recs f k)" for k
    using f'(8) f1(8) by (cases "k = u_URLKey r") (auto split: option.split)
  then show ?case using f1 f' by (intro exI [of _ f']) simp
qed simp

section \<open>The round trip\<close>

lemma find_unique:
  assumes "distinct (map g xs)" "x \<in> set xs"
  shows "find (\<lambda>y. g y = g x) xs = Some x"
  using assms by (induction xs) (auto simp: image_iff)

lemma count_keys:
  assumes "distinct (map g rs)"
  shows "count (image_mset g (mset (filter P rs))) k = (case find (\<lambda>r. g r = k) rs of Some r \<Rightarrow> of_bool (P r) | None \<Rightarrow> 0)"
  using assms
proof (induction rs)
  case (Cons r rs)
  then show ?case using find_fresh [OF Cons.prems, of k] by (cases "g r = k") auto
qed simp

text \<open>The rows and hosts of the partition, by key.\<close>

lemma checkpoint_rows:
  assumes "inv E f"
  defines "rs \<equiv> sort_key u_URLKey (map snd (f_records f))"
  shows "distinct (map u_URLKey rs)" "find (\<lambda>r. u_URLKey r = k) rs = recs f k"
    "\<And>r. r \<in> set rs \<Longrightarrow> recs f (u_URLKey r) = Some r"
proof -
  have b: "base_okS E {} f" using assms by (simp add: inv_def)
  have uk: "u_URLKey r = k" if "(k, r) \<in> set (f_records f)" for k r
    using base_okD(8) [OF b, of k r] base_okD(1) [OF b] that by (simp add: rec_ok_def)
  have m: "map u_URLKey (map snd (f_records f)) = map fst (f_records f)" using uk by force
  have "mset (map u_URLKey rs) = mset (map fst (f_records f))"
    unfolding rs_def mset_map mset_sort by (simp flip: m mset_map)
  then show d: "distinct (map u_URLKey rs)" using base_okD(1) [OF b] mset_eq_imp_distinct_iff by blast
  show mem: "recs f (u_URLKey r) = Some r" if "r \<in> set rs" for r
    using that uk base_okD(1) [OF b] by (auto simp: rs_def)
  show "find (\<lambda>r. u_URLKey r = k) rs = recs f k"
  proof (cases "recs f k")
    case None
    then have "u_URLKey r \<noteq> k" if "r \<in> set rs" for r using mem [OF that] by auto
    then have "find (\<lambda>r. u_URLKey r = k) rs = None" unfolding find_None_iff by blast
    then show ?thesis using None by simp
  next
    case (Some r)
    then have "(k, r) \<in> set (f_records f)" by (rule map_of_SomeD)
    then have r: "r \<in> set rs" "u_URLKey r = k" using uk [of k r] image_eqI [of r snd "(k, r)"] by (simp_all add: rs_def)
    then show ?thesis using find_unique [OF d r(1)] Some by simp
  qed
qed

lemma checkpoint_hosts:
  assumes "inv E f"
  defines "hs \<equiv> sort_key h_HostKey (map (\<lambda>(hk, h). he_rec h) (f_hosts f))"
  shows "distinct (map h_HostKey hs)" "find (\<lambda>r. h_HostKey r = hk) hs = map_option he_rec (hosts f hk)"
proof -
  have b: "base_okS E {} f" using assms by (simp add: inv_def)
  have uk: "h_HostKey (he_rec h) = hk" if "(hk, h) \<in> set (f_hosts f)" for hk h
    using base_okD(9) [OF b, of hk h] base_okD(2) [OF b] that by (simp add: host_ok_def)
  have m: "map h_HostKey (map (\<lambda>(hk, h). he_rec h) (f_hosts f)) = map fst (f_hosts f)" using uk by force
  have "mset (map h_HostKey hs) = mset (map fst (f_hosts f))"
    unfolding hs_def mset_map mset_sort by (simp flip: m mset_map)
  then show d: "distinct (map h_HostKey hs)" using base_okD(2) [OF b] mset_eq_imp_distinct_iff by blast
  show "find (\<lambda>r. h_HostKey r = hk) hs = map_option he_rec (hosts f hk)"
  proof (cases "hosts f hk")
    case None
    then have "r \<in> set hs \<Longrightarrow> h_HostKey r \<noteq> hk" for r using uk base_okD(2) [OF b] by (auto simp: hs_def map_of_eq_None_iff image_iff)
    then show ?thesis using None by (simp add: find_None_iff)
  next
    case (Some h)
    then have "(hk, h) \<in> set (f_hosts f)" by (rule map_of_SomeD)
    then have h: "he_rec h \<in> set hs" "h_HostKey (he_rec h) = hk"
      using uk [of hk h] image_eqI [of "he_rec h" "\<lambda>(hk, h). he_rec h" "(hk, h)"] by (simp_all add: hs_def)
    then show ?thesis using find_unique [OF d h(1)] Some by simp
  qed
qed

lemma host_ok_recovered: "h_HostKey r = hk \<Longrightarrow> (small f \<longrightarrow> ref_ok (f_arena f) (h_HostRef r)) \<Longrightarrow> host_ok E f hk (recovered E r)"
  by (simp add: host_ok_def recovered_def)

lemma recover_start_ok:
  fixes f :: "'w Frontier" and E :: "'v env" and w :: 'v and logf :: "rat \<Rightarrow> rat"
  assumes i: "inv E0 f" and c: "unat (f_created f) + 1024 < 2 ^ 32"
  defines "p \<equiv> Checkpoint E0 f"
  defines "g \<equiv> fold (recover_host E) (pt_Hosts p) ((New logf E (pt_ID p) (pt_CreatedHours p) w)\<lparr> f_codec := pt_DefaultCodec p, f_arena := pt_Strings p \<rparr>)"
  shows "base_okS E {} g" "hosts g hk = map_option (\<lambda>h. recovered E (he_rec h)) (hosts f hk)" "f_arena g = f_arena f"
    "f_records g = []" "f_ready g = newReadyBank (cf_shards (cfg E))" "f_wait g = []" "f_active g = 0" "ring_elems (f_front g) = {#}"
proof -
  have b: "base_okS E0 {} f" using i by (simp add: inv_def)
  have pt: "pt_Hosts p = sort_key h_HostKey (map (\<lambda>(hk, h). he_rec h) (f_hosts f))" "pt_Strings p = f_arena f" "pt_CreatedHours p = f_created f"
    by (simp_all add: p_def Checkpoint_def Let_def split_beta)
  note H = checkpoint_hosts [OF i, folded pt(1)]
  show hg: "hosts g hk = map_option (\<lambda>h. recovered E (he_rec h)) (hosts f hk)" for hk
    unfolding g_def recover_hosts_map [OF H(1)] H(2) by (cases "hosts f hk") (simp_all add: New_def)
  show ar: "f_arena g = f_arena f" and rc: "f_records g = []" and "f_ready g = newReadyBank (cf_shards (cfg E))" "f_wait g = []"
    "f_active g = 0" and fr: "ring_elems (f_front g) = {#}"
    by (simp_all add: g_def recover_hosts_fields New_def pt(2) ring_elems_new)
  have hd: "distinct (map fst (f_hosts g))" unfolding g_def by (rule recover_hosts_distinct) (simp add: New_def)
  have q: "ring_wf (f_front g)" "bank_wf (f_ready g)" "heap_inv wait_less (f_wait g)" "wheel_wf (f_wheel g)"
    "seen_wf (f_seen g)" "seen_abs (f_seen g) = {}" "f_active g = 0"
    using c by (simp_all add: g_def recover_hosts_fields New_def ring_wf_new bank_wf_new wheel_wf_new pt(3)
        seen_wf_new defaultSeenConfig_def)
  have ho: "host_ok E g hk h" if a: "hosts g hk = Some h" for hk h
  proof -
    obtain h0 where h0: "hosts f hk = Some h0" "h = recovered E (he_rec h0)" using a hg [of hk] by (cases "hosts f hk") auto
    have "h_HostKey (he_rec h0) = hk" "small g \<longrightarrow> ref_ok (f_arena g) (h_HostRef (he_rec h0))"
      using base_okD(9) [OF b h0(1)] ar by (simp_all add: host_ok_def small_def)
    then show ?thesis unfolding h0(2) by (rule host_ok_recovered)
  qed
  have "active_hosts g = {}" using hg by (auto simp: active_hosts_def recovered_def)
  then show "base_okS E {} g"
    unfolding base_okS_def using hd q ho rc fr ar base_okD(7) [OF b] by simp
qed

text \<open>C6: Recovery restores a checkpoint: rebuilding a frontier from the partition a reachable frontier wrote
  always succeeds and gives a consistent frontier with the same rows (a fetch that was in flight is
  scheduled again), the same host records, strings and seen keys, nothing in flight, and with every
  scheduled, ready or due row queued exactly once.\<close>

theorem recover_restores_checkpoint:
  assumes run: "frun E0 (New logf0 E0 pid created w0) es f" "unat created + 1024 < 2 ^ 32" and c: "unat (f_created f) + 1024 < 2 ^ 32"
  shows "\<exists>f'. Recover logf E (Checkpoint E0 f) w = Some f' \<and> inv E f'
     \<and> (\<forall>k. recs f' k = map_option restart (recs f k))
     \<and> (\<forall>hk. map_option he_rec (hosts f' hk) = map_option he_rec (hosts f hk))
     \<and> (\<forall>hk. \<not> in_flight f' hk)
     \<and> f_arena f' = f_arena f \<and> seen_abs (f_seen f') = seen_abs (f_seen f)
     \<and> (\<forall>k. count (ring_elems (f_front f')) k =
          (case recs f' k of Some r \<Rightarrow> of_bool (u_Status r \<in> {StatusScheduled, StatusReady, StatusDueRecrawl}) | None \<Rightarrow> 0))"
proof -
  have i: "inv E0 f" using frun_inv [OF run(1) New_ok [OF run(2)]] by blast
  then have b: "base_okS E0 {} f" by (simp add: inv_def)
  define p where "p = Checkpoint E0 f"
  define g where "g = fold (recover_host E) (pt_Hosts p) ((New logf E (pt_ID p) (pt_CreatedHours p) w)\<lparr> f_codec := pt_DefaultCodec p, f_arena := pt_Strings p \<rparr>)"
  note G = recover_start_ok [OF i c, of E logf w, folded p_def, folded g_def]
  have pu: "pt_URLs p = sort_key u_URLKey (map snd (f_records f))"
    by (simp add: p_def Checkpoint_def Let_def split_beta)
  note R = checkpoint_rows [OF i, folded pu]
  have "rec_ok g (u_URLKey r) r" if "r \<in> set (pt_URLs p)" for r
    using base_okD(8) [OF b R(3) [OF that]] G(2) [of "HostKey (u_URLKey r)"] by (auto simp: rec_ok_def small_def G(3))
  then obtain f' where f': "recover_urls E (pt_URLs p) g = Some f'" "base_okS E {} f'" "f_hosts f' = f_hosts g" "f_arena f' = f_arena g"
     "f_ready f' = f_ready g" "f_wait f' = f_wait g" "f_active f' = f_active g"
     "\<forall>k. recs f' k = (case find (\<lambda>r. u_URLKey r = k) (pt_URLs p) of Some r \<Rightarrow> Some (restart r) | None \<Rightarrow> recs g k)"
     "ring_elems (f_front f') = ring_elems (f_front g)
         + image_mset u_URLKey (mset (filter (\<lambda>r. queued_status (u_Status (restart r))) (pt_URLs p)))"
    using recover_urls_ok [OF G(1) _ R(1)] by blast
  have rec: "Recover logf E (Checkpoint E0 f) w = Some f'"
    using f'(1) by (simp add: Recover_def Let_def g_def p_def)
  have rows: "recs f' k = map_option restart (recs f k)" for k
    using f'(8) R(2) [of k] G(4) by (cases "recs f k") auto
  have "pooled f' hk = 0" for hk using f'(5,6) G(5,6) by (simp add: pooled_def bank_elems_new)
  moreover have hs: "hosts f' hk = map_option (\<lambda>h. recovered E (he_rec h)) (hosts f hk)" for hk using f'(3) G(2) by simp
  ultimately have "pools_ok E {} f'" by (auto simp: pools_ok_def pool_ok_def recovered_def)
  then have "inv E f'" using f'(2) by (simp add: inv_def)
  moreover have "map_option he_rec (hosts f' hk) = map_option he_rec (hosts f hk)" for hk
    using hs [of hk] by (cases "hosts f hk") (simp_all add: recovered_def)
  moreover have "\<not> in_flight f' hk" for hk using hs [of hk] by (auto simp: in_flight_def recovered_def)
  moreover have "seen_abs (f_seen f') = seen_abs (f_seen f)"
    using base_okD(13) [OF f'(2)] base_okD(13) [OF b] rows by auto
  moreover have "count (ring_elems (f_front f')) k =
      (case recs f' k of Some r \<Rightarrow> of_bool (u_Status r \<in> {StatusScheduled, StatusReady, StatusDueRecrawl}) | None \<Rightarrow> 0)" for k
    using f'(9) G(8) count_keys [OF R(1), of "\<lambda>r. queued_status (u_Status (restart r))" k] R(2) [of k] rows [of k]
    by (cases "recs f k") (simp_all add: queued_status_def)
  ultimately show ?thesis using rec rows f'(4) G(3) by (intro exI [of _ f']) simp
qed

lemma created_fields [simp]:
  "f_created (set_rec k r f) = f_created f" "f_created (set_host hk h f) = f_created f" "f_created (upd_host hk g f) = f_created f"
  "f_created (snd (intern s f)) = f_created f" "f_created (ensure_host E hk n cd f) = f_created f"
  by (auto simp: set_rec_def set_host_def upd_host_def intern_def ensure_host_def newHost_def Let_def split_beta split: option.split)

lemma Seed_created: "f_created (Seed E url host p fs nd cd f) = f_created f"
  by (simp add: Seed_def Let_def split_beta schedule_def frontPush_def)

theorem recover_restores_checkpoint_witness:
  "\<exists>f'. Recover (\<lambda>_. -1) demo (Checkpoint demo demo_seeded) () = Some f' \<and> f_arena f' = f_arena demo_seeded"
proof -
  have "f_created demo_seeded = 480000" by (simp add: demo_seeded_def demo_new_def Seed_created New_def)
  then show ?thesis using recover_restores_checkpoint [OF demo_run_seeded, of "\<lambda>_. -1" demo "()"] by auto
qed

end
