(* ===== verification/FrontierFindings.thy ===== *)
theory FrontierFindings
  imports FrontierRecover
begin

text \<open>
  Where the scheduler does not do what its documentation says: the freshness rescheduler and the
  schedule index together leave a crawled URL in no queue, a robots file that excludes everything
  queued strands its host, and the statistics report seconds as hours.
\<close>

section \<open>Recrawls with freshness and the schedule index\<close>

lemma reschedule_row:
  assumes "recs f key = Some rec"
  shows "\<exists>r. recs (reschedule E key hko now f) key = Some r \<and> u_Status r = StatusDueRecrawl"
    "f_wheel (reschedule E key hko now f) = f_wheel f" "f_front (reschedule E key hko now f) = f_front f"
  using assms by (simp_all add: reschedule_def Let_def upd_rec_def SetNextDue_def)

lemma markCrawled_fresh:
  assumes on: "cf_freshOn (cfg E)" and np: "\<not> cf_prioOn (cfg E) \<or> o_Links out = []" and rec: "recs f key = Some rec"
  shows "f_wheel (markCrawled E key hko out now f) = f_wheel f" "f_front (markCrawled E key hko out now f) = f_front f"
    "\<exists>r. recs (markCrawled E key hko out now f) key = Some r \<and> u_Status r = StatusDueRecrawl"
proof -
  define ss where "ss = (if \<not> o_NotModified out \<and> o_ContentFP out \<noteq> 0
      then Observe (u_HostKey rec) (o_ContentFP out) (o_URLKey out) (f_soft f) else (False, f_soft f))"
  define f1 where "f1 = set_rec key (crawl_row out (fst ss) rec) (f\<lparr> f_soft := snd ss \<rparr>)"
  define f2 where "f2 = (if o_ETag out \<noteq> []
      then upd_rec key (\<lambda>r. r\<lparr> u_ETagRef := fst (intern (o_ETag out) f1) \<rparr>) (snd (intern (o_ETag out) f1)) else f1)"
  define f3 where "f3 = reschedule E key hko now f2"
  have f2: "\<exists>r. recs f2 key = Some r" "f_wheel f2 = f_wheel f" "f_front f2 = f_front f"
    by (simp_all add: f2_def f1_def upd_rec_def)
  then obtain r2 where r2: "recs f2 key = Some r2" by blast
  obtain r where r: "recs f3 key = Some r" "u_Status r = StatusDueRecrawl" "f_wheel f3 = f_wheel f" "f_front f3 = f_front f"
    using reschedule_row [OF r2, of E hko now] f2(2,3) by (auto simp: f3_def)
  have "(if cf_prioOn (cfg E) \<and> o_Links out \<noteq> [] then spreadCash E key hko (o_Links out) now f3 else f3) = f3"
    using np by auto
  then have "markCrawled E key hko out now f = (case recs f3 key of None \<Rightarrow> f3
      | Some r4 \<Rightarrow> if cf_wheelOn (cfg E) \<and> u_Status r4 = StatusCrawled
          then f3\<lparr> f_wheel := wheel_add (u_URLKey r4) (u_NextDue r4) (f_wheel f3) \<rparr> else f3)"
    using rec on unfolding markCrawled_def ss_def f1_def f2_def f3_def by (simp only: option.case Let_def split_beta if_True)
  then have "markCrawled E key hko out now f = f3" using r by simp
  then show "f_wheel (markCrawled E key hko out now f) = f_wheel f" "f_front (markCrawled E key hko out now f) = f_front f"
    "\<exists>r. recs (markCrawled E key hko out now f) key = Some r \<and> u_Status r = StatusDueRecrawl"
    using r by auto
qed

text \<open>C17: With freshness and the schedule index both on, the pairing the documentation recommends for a
  recrawling partition, a crawl that spreads no cash never files its recrawl: the rescheduler has
  already moved the row to DueRecrawl, the index is fed only for rows still Crawled, so neither the
  wheel nor the front bank receives the URL, and the row of a page just recognised as a soft-404 is
  DueRecrawl too, not Gone.\<close>

theorem freshness_starves_schedule_index:
  assumes "cf_freshOn (cfg E)" "cf_wheelOn (cfg E)" "\<not> cf_prioOn (cfg E) \<or> o_Links out = []" "recs f key = Some rec"
  shows "f_wheel (markCrawled E key hko out now f) = f_wheel f
     \<and> f_front (markCrawled E key hko out now f) = f_front f
     \<and> (\<exists>r. recs (markCrawled E key hko out now f) key = Some r \<and> u_Status r = StatusDueRecrawl)"
  using markCrawled_fresh [OF assms(1,3,4)] by blast

theorem freshness_starves_schedule_index_witness:
  "f_wheel (markCrawled (demo\<lparr> cfg := (cfg demo)\<lparr> cf_freshOn := True, cf_wheelOn := True \<rparr> \<rparr>) (URLKey 1 2) None demo_fail 1728000000
      (set_rec (URLKey 1 2) (zeroURL (URLKey 1 2)) demo_new)) = newDueWheel 480000"
  using freshness_starves_schedule_index [of "demo\<lparr> cfg := (cfg demo)\<lparr> cf_freshOn := True, cf_wheelOn := True \<rparr> \<rparr>" demo_fail
      "set_rec (URLKey 1 2) (zeroURL (URLKey 1 2)) demo_new" "URLKey 1 2" "zeroURL (URLKey 1 2)" None 1728000000]
  by (simp add: demo_fail_def) (simp add: demo_new_def New_def)

section \<open>A host stranded by its robots file\<close>

text \<open>When the rules exclude everything a host has queued, the host stays active with an empty queue and
  in no pool; the distributor appends to the queue of an active host without placing it, so URLs that
  arrive later for the host, allowed ones too, are never dispatched.\<close>

theorem excluded_host_stranded:
  assumes "hosts f hk = Some h" "he_active h" "\<not> he_inFlight h" "HostKey key = hk"
    and "bind_url key now f = Some f'"
  shows "f_ready f' = f_ready f \<and> f_wait f' = f_wait f"
  using assms by (auto simp: bind_url_def split: if_splits Option.bind_splits)

section \<open>Statistics\<close>

theorem stats_next_due_in_seconds:
  assumes "\<not> cf_wheelOn (cfg E)" "wait_peekMin (f_wait f) = Some it"
  shows "st_NextDueHours (FrontierStats E now f) = w_eligible it"
  using assms by (simp add: FrontierStats_def NextEligible_def Let_def)

end
