(* ===== verification/Fsst.thy ===== *)
theory Fsst
  imports Arena "HOL-Library.List_Lexorder" "HOL-Library.Monad_Syntax"
begin

text \<open>
  The static symbol table compressor for single strings (\<^verbatim>\<open>format/fsst.go\<close>): training, the greedy
  encoder and the decoder of one string, the serialized table, and the arena of independently readable
  spans.  The main fact is that every string of an arena reads back from the serialized table and spans
  alone, for every sample set and whatever order the unstable library sort leaves in the index.

  A run that does not end and a Go panic are both \<open>None\<close>.
\<close>

section \<open>Symbols and the encode index\<close>

definition fsstMaxSymbols :: nat where "fsstMaxSymbols = 255"
definition fsstMaxLen :: nat where "fsstMaxLen = 8"
definition fsstEscape :: u8 where "fsstEscape = 255"
definition fsstRounds :: nat where "fsstRounds = 8"

text \<open>A symbol is an array of eight bytes, zero past its used length.\<close>

record fsstSymbol =
  sy_val :: "u8 list"
  sy_n :: u8

definition sym_bytes :: "fsstSymbol \<Rightarrow> u8 list" where
  "sym_bytes s = take (unat (sy_n s)) (sy_val s)"

definition makeSymbol :: "u8 list \<Rightarrow> fsstSymbol" where
  "makeSymbol b = \<lparr> sy_val = take fsstMaxLen (b @ replicate fsstMaxLen 0), sy_n = of_nat (length b) \<rparr>"

record fsstTable =
  ft_syms :: "fsstSymbol list"
  ft_byFirst :: "nat list list"

text \<open>The library sort is not stable: it is the argument \<open>srt\<close>, which sees the symbols the comparison
  reads, and \<open>bucket_sort\<close> is what the library promises of it.\<close>

definition bucket_sort :: "(fsstSymbol list \<Rightarrow> nat list \<Rightarrow> nat list) \<Rightarrow> bool" where
  "bucket_sort srt \<longleftrightarrow> (\<forall>syms b. mset (srt syms b) = mset b \<and> sorted_wrt (\<lambda>x y. sy_n (syms ! y) \<le> sy_n (syms ! x)) (srt syms b))"

definition buildIndex :: "(fsstSymbol list \<Rightarrow> nat list \<Rightarrow> nat list) \<Rightarrow> fsstTable \<Rightarrow> fsstTable" where
  "buildIndex srt t =
     t\<lparr> ft_byFirst := map (\<lambda>b. srt (ft_syms t) (filter (\<lambda>i. unat (sy_val (ft_syms t ! i) ! 0) = b) [0..<length (ft_syms t)])) [0..<256] \<rparr>"

text \<open>\<open>s\<close> are the bytes from the position on; the caller has at least one.\<close>

fun match_bucket :: "fsstSymbol list \<Rightarrow> nat list \<Rightarrow> u8 list \<Rightarrow> (nat \<times> nat) option" where
  "match_bucket syms [] s = None"
| "match_bucket syms (idx # bucket) s =
     (let sym = syms ! idx; n = unat (sy_n sym) in
      if n > length s then match_bucket syms bucket s
      else if take n (sy_val sym) = take n s then Some (idx, n)
      else match_bucket syms bucket s)"

definition match_sym :: "fsstTable \<Rightarrow> u8 list \<Rightarrow> (nat \<times> nat) option" where
  "match_sym t s = match_bucket (ft_syms t) (ft_byFirst t ! unat (hd s)) s"

section \<open>One string\<close>

partial_function (option) fsst_encode :: "fsstTable \<Rightarrow> u8 list \<Rightarrow> u8 list option" where
  "fsst_encode t s =
     (if s = [] then Some []
      else case match_sym t s of
        None \<Rightarrow> do { out \<leftarrow> fsst_encode t (tl s); Some (fsstEscape # hd s # out) }
      | Some r \<Rightarrow> do { out \<leftarrow> fsst_encode t (drop (snd r) s); Some (of_nat (fst r) # out) })"

declare fsst_encode.simps [code]

fun fsst_decode :: "fsstTable \<Rightarrow> u8 list \<Rightarrow> u8 list" where
  "fsst_decode t [] = []"
| "fsst_decode t (c # code) =
     (if c = fsstEscape then (case code of [] \<Rightarrow> [] | x # code' \<Rightarrow> x # fsst_decode t code')
      else (if unat c < length (ft_syms t) then sym_bytes (ft_syms t ! unat c) else []) @ fsst_decode t code)"

text \<open>The tokens \<^verbatim>\<open>tokenize\<close> visits, in order.\<close>

partial_function (option) tokenize :: "fsstTable \<Rightarrow> u8 list \<Rightarrow> u8 list list option" where
  "tokenize t s =
     (if s = [] then Some []
      else case match_sym t s of
        None \<Rightarrow> do { toks \<leftarrow> tokenize t (tl s); Some ([hd s] # toks) }
      | Some r \<Rightarrow> do { toks \<leftarrow> tokenize t (drop (snd r) s); Some (take (snd r) s # toks) })"

declare tokenize.simps [code]

section \<open>Training\<close>

definition add_gain :: "u8 list \<Rightarrow> (u8 list, int) gomap \<Rightarrow> (u8 list, int) gomap" where
  "add_gain tok gain = mput tok ((case mget gain tok of Some g \<Rightarrow> g | None \<Rightarrow> 0) + int (length tok)) gain"

fun visit_tokens :: "u8 list \<Rightarrow> u8 list list \<Rightarrow> (u8 list, int) gomap \<Rightarrow> (u8 list, int) gomap" where
  "visit_tokens prev [] gain = gain"
| "visit_tokens prev (tok # toks) gain =
     (let gain = add_gain tok gain;
          gain = (if length prev > 0 \<and> length prev + length tok \<le> fsstMaxLen then add_gain (prev @ tok) gain else gain) in
      visit_tokens tok toks gain)"

fun count_samples :: "fsstTable \<Rightarrow> u8 list list \<Rightarrow> (u8 list, int) gomap \<Rightarrow> (u8 list, int) gomap option" where
  "count_samples t [] gain = Some gain"
| "count_samples t (s # samples) gain = do { toks \<leftarrow> tokenize t s; count_samples t samples (visit_tokens [] toks gain) }"

text \<open>The comparison is a total order on the candidates, whose strings are distinct, so the sort has one
  result: by string, then stably by falling gain.\<close>

definition topSymbols :: "(u8 list, int) gomap \<Rightarrow> fsstSymbol list" where
  "topSymbols gain = map (\<lambda>c. makeSymbol (fst c)) (take fsstMaxSymbols (sort_key (\<lambda>c. - snd c) (sort_key fst gain)))"

fun train_rounds :: "(fsstSymbol list \<Rightarrow> nat list \<Rightarrow> nat list) \<Rightarrow> nat \<Rightarrow> u8 list list \<Rightarrow> fsstTable \<Rightarrow> fsstTable option" where
  "train_rounds srt 0 samples t = Some t"
| "train_rounds srt (Suc k) samples t = do {
     gain \<leftarrow> count_samples t samples [];
     train_rounds srt k samples (buildIndex srt (t\<lparr> ft_syms := topSymbols gain \<rparr>))
   }"

definition emptyTable :: fsstTable where
  "emptyTable = \<lparr> ft_syms = [], ft_byFirst = replicate 256 [] \<rparr>"

definition trainFSST :: "(fsstSymbol list \<Rightarrow> nat list \<Rightarrow> nat list) \<Rightarrow> u8 list list \<Rightarrow> fsstTable option" where
  "trainFSST srt samples = train_rounds srt fsstRounds samples (buildIndex srt emptyTable)"

section \<open>The table and the arena as bytes\<close>

definition encodeTable :: "fsstTable \<Rightarrow> u8 list" where
  "encodeTable t = uvarint (length (ft_syms t)) @ concat (map (\<lambda>s. sy_n s # sym_bytes s) (ft_syms t))"

text \<open>The loop stops at the first entry that does not fit; \<open>b\<close> are the bytes from the offset on.\<close>

fun decode_syms :: "nat \<Rightarrow> u8 list \<Rightarrow> fsstSymbol list" where
  "decode_syms 0 b = []"
| "decode_syms (Suc c) b =
     (case b of
        [] \<Rightarrow> []
      | x # b' \<Rightarrow>
          (let n = unat x in
           if n > fsstMaxLen \<or> n > length b' then [] else makeSymbol (take n b') # decode_syms c (drop n b')))"

text \<open>The symbols are allocated up front, nine bytes each: a count beyond the address space of \<open>2^48\<close> bytes
  is a panic of \<open>make\<close>.\<close>

definition decodeTable :: "(fsstSymbol list \<Rightarrow> nat list \<Rightarrow> nat list) \<Rightarrow> u8 list \<Rightarrow> fsstTable option" where
  "decodeTable srt b =
     (case Uvarint b of
        None \<Rightarrow> Some emptyTable
      | Some (cnt, k) \<Rightarrow>
          if 9 * cnt > 2 ^ 48 then None
          else Some (buildIndex srt \<lparr> ft_syms = decode_syms cnt (drop k b), ft_byFirst = replicate 256 [] \<rparr>))"

record FSSTArena =
  fa_table :: "u8 list"
  fa_spans :: "u8 list"
  fa_t :: fsstTable

fun add_spans :: "fsstTable \<Rightarrow> u8 list list \<Rightarrow> u8 list \<Rightarrow> (u8 list \<times> u64 list) option" where
  "add_spans t [] spans = Some (spans, [])"
| "add_spans t (s # strs) spans = do {
     code \<leftarrow> fsst_encode t s;
     (spans', offs) \<leftarrow> add_spans t strs (spans @ uvarint (length code) @ code);
     Some (spans', of_nat (length spans) # offs)
   }"

definition BuildFSSTArena :: "(fsstSymbol list \<Rightarrow> nat list \<Rightarrow> nat list) \<Rightarrow> u8 list list \<Rightarrow> (FSSTArena \<times> u64 list) option" where
  "BuildFSSTArena srt strs = do {
     t \<leftarrow> trainFSST srt strs;
     (spans, offs) \<leftarrow> add_spans t strs [0];
     Some (\<lparr> fa_table = encodeTable t, fa_spans = spans, fa_t = t \<rparr>, offs)
   }"

text \<open>\<open>Some []\<close> stands for nil too; the end of the span is a 64-bit sum, and a slice whose end lies before its
  start panics.\<close>

definition FSST_Read :: "FSSTArena \<Rightarrow> u64 \<Rightarrow> u8 list option" where
  "FSST_Read a off =
     (if off = 0 \<or> unat off \<ge> length (fa_spans a) then Some []
      else case Uvarint (drop (unat off) (fa_spans a)) of
        None \<Rightarrow> Some []
      | Some (n, k) \<Rightarrow>
          (let start = off + (of_nat k :: u64); fin = start + (of_nat n :: u64) in
           if unat fin > length (fa_spans a) then Some []
           else case slice (fa_spans a) (unat start) (unat fin) of
             Inl p \<Rightarrow> None
           | Inr code \<Rightarrow> Some (fsst_decode (fa_t a) code)))"

definition FSST_Bytes :: "FSSTArena \<Rightarrow> u8 list \<times> u8 list" where
  "FSST_Bytes a = (fa_table a, fa_spans a)"

definition LoadFSSTArena :: "(fsstSymbol list \<Rightarrow> nat list \<Rightarrow> nat list) \<Rightarrow> u8 list \<Rightarrow> u8 list \<Rightarrow> FSSTArena option" where
  "LoadFSSTArena srt table spans = do {
     t \<leftarrow> decodeTable srt table;
     Some \<lparr> fa_table = table, fa_spans = spans, fa_t = t \<rparr>
   }"

lemma byte_lt [simp]: "unat (b :: u8) < 256"
  using unsigned_less [of b] by simp

section \<open>Tables as training leaves them\<close>

definition sym_ok :: "fsstSymbol \<Rightarrow> bool" where
  "sym_ok s \<longleftrightarrow> s = makeSymbol (sym_bytes s) \<and> sym_bytes s \<noteq> [] \<and> length (sym_bytes s) \<le> fsstMaxLen"

definition table_ok :: "fsstTable \<Rightarrow> bool" where
  "table_ok t \<longleftrightarrow> length (ft_syms t) \<le> fsstMaxSymbols \<and> list_all sym_ok (ft_syms t)
     \<and> length (ft_byFirst t) = 256 \<and> list_all (list_all (\<lambda>i. i < length (ft_syms t))) (ft_byFirst t)"

lemma sym_bytes_makeSymbol: "length b \<le> fsstMaxLen \<Longrightarrow> sym_bytes (makeSymbol b) = b"
  by (simp add: sym_bytes_def makeSymbol_def fsstMaxLen_def of_nat_inverse_8)

lemma sym_ok_makeSymbol: "b \<noteq> [] \<Longrightarrow> length b \<le> fsstMaxLen \<Longrightarrow> sym_ok (makeSymbol b)"
  by (simp add: sym_ok_def sym_bytes_makeSymbol)

lemma sym_ok_n: "sym_ok s \<Longrightarrow> unat (sy_n s) = length (sym_bytes s)"
proof -
  assume s: "sym_ok s"
  then have "s = makeSymbol (sym_bytes s)" "length (sym_bytes s) < 256" by (auto simp: sym_ok_def fsstMaxLen_def)
  then have "sy_n s = of_nat (length (sym_bytes s))" "length (sym_bytes s) < 256" by (metis makeSymbol_def fsstSymbol.select_convs(2))+
  then show ?thesis by (simp add: of_nat_inverse_8)
qed

lemma buildIndex_ok:
  assumes "bucket_sort srt" "length (ft_syms t) \<le> fsstMaxSymbols" "list_all sym_ok (ft_syms t)"
  shows "table_ok (buildIndex srt t)"
proof -
  have "set (srt syms b) = set b" for syms b using assms(1) unfolding bucket_sort_def by (metis set_mset_mset)
  then show ?thesis using assms(2,3) by (auto simp: table_ok_def buildIndex_def list_all_iff)
qed

lemma match_bucket_prefix:
  assumes "match_bucket syms bucket s = Some (idx, n)" "list_all (\<lambda>i. i < length syms) bucket" "list_all sym_ok syms"
  shows "idx < length syms \<and> 0 < n \<and> n \<le> length s \<and> take n s = sym_bytes (syms ! idx)"
  using assms(1,2)
proof (induction bucket)
  case (Cons i bucket)
  have i: "sym_ok (syms ! i)" "i < length syms" using Cons.prems(2) assms(3) by (auto simp: list_all_length)
  show ?case
  proof (cases "unat (sy_n (syms ! i)) \<le> length s \<and> take (unat (sy_n (syms ! i))) (sy_val (syms ! i)) = take (unat (sy_n (syms ! i))) s")
    case True
    then have "idx = i" "n = unat (sy_n (syms ! i))" using Cons.prems(1) by (auto simp: Let_def)
    moreover have "sym_bytes (syms ! i) \<noteq> []" using i(1) by (simp add: sym_ok_def)
    moreover have "take (unat (sy_n (syms ! i))) s = sym_bytes (syms ! i)" using True by (simp add: sym_bytes_def)
    ultimately show ?thesis using True i(2) sym_ok_n [OF i(1)] by simp
  next
    case False
    then show ?thesis using Cons by (auto simp: Let_def split: if_splits)
  qed
qed simp

lemma match_sym_prefix:
  assumes "match_sym t s = Some r" "table_ok t"
  shows "fst r < length (ft_syms t)" "0 < snd r" "snd r \<le> length s" "take (snd r) s = sym_bytes (ft_syms t ! fst r)"
proof -
  have "list_all (\<lambda>i. i < length (ft_syms t)) (ft_byFirst t ! unat (hd s))"
    using assms(2) by (simp add: table_ok_def list_all_length)
  moreover have "match_bucket (ft_syms t) (ft_byFirst t ! unat (hd s)) s = Some (fst r, snd r)" using assms(1) by (simp add: match_sym_def)
  ultimately show "fst r < length (ft_syms t)" "0 < snd r" "snd r \<le> length s" "take (snd r) s = sym_bytes (ft_syms t ! fst r)"
    using match_bucket_prefix [of "ft_syms t" _ s "fst r" "snd r"] assms(2) by (auto simp: table_ok_def)
qed

section \<open>Encoding and decoding one string\<close>

text \<open>The encoder ends on every string, the decoder needs only the symbols, and a string never grows past
  twice its length.\<close>

lemma fsst_encode_decode:
  assumes "table_ok t" "ft_syms t' = ft_syms t"
  shows "\<exists>code. fsst_encode t s = Some code \<and> fsst_decode t' code = s \<and> length code \<le> 2 * length s"
proof (induction s rule: length_induct)
  case (1 s)
  show ?case
  proof (cases s)
    case Nil
    then show ?thesis by (simp add: fsst_encode.simps)
  next
    case (Cons x xs)
    show ?thesis
    proof (cases "match_sym t s")
      case None
      from 1 [rule_format, of "tl s"] Cons obtain code where
        "fsst_encode t (tl s) = Some code" "fsst_decode t' code = tl s" "length code \<le> 2 * length (tl s)" by auto
      then show ?thesis using None Cons by (subst fsst_encode.simps) (simp add: fsstEscape_def)
    next
      case (Some r)
      note m = match_sym_prefix [OF Some assms(1)]
      have "length (drop (snd r) s) < length s" using m(2) Cons by simp
      with 1 obtain code where c: "fsst_encode t (drop (snd r) s) = Some code" "fsst_decode t' code = drop (snd r) s"
        "length code \<le> 2 * length (drop (snd r) s)" by blast
      have "fst r < 255" using m(1) assms(1) by (simp add: table_ok_def fsstMaxSymbols_def)
      then have u: "unat (of_nat (fst r) :: u8) = fst r" "(of_nat (fst r) :: u8) \<noteq> fsstEscape"
        using of_nat_inverse_8 [of "fst r"] by (auto simp: fsstEscape_def dest: arg_cong [of _ _ unat])
      have "fsst_decode t' (of_nat (fst r) # code) = s" using u m(1) m(4) [symmetric] c(2) assms(2) by simp
      moreover have "length (of_nat (fst r) # code) \<le> 2 * length s" using c(3) m(2,3) by simp
      ultimately show ?thesis using Some Cons c(1) by (subst fsst_encode.simps) simp
    qed
  qed
qed

section \<open>Training ends with a well-formed table\<close>

definition tok_ok :: "u8 list \<Rightarrow> bool" where
  "tok_ok b \<longleftrightarrow> b \<noteq> [] \<and> length b \<le> fsstMaxLen"

lemma tokenize_total:
  assumes "table_ok t"
  shows "\<exists>toks. tokenize t s = Some toks \<and> concat toks = s \<and> list_all tok_ok toks"
proof (induction s rule: length_induct)
  case (1 s)
  show ?case
  proof (cases s)
    case Nil
    then show ?thesis by (simp add: tokenize.simps)
  next
    case (Cons x xs)
    show ?thesis
    proof (cases "match_sym t s")
      case None
      from 1 [rule_format, of "tl s"] Cons obtain toks where
        "tokenize t (tl s) = Some toks" "concat toks = tl s" "list_all tok_ok toks" by auto
      then show ?thesis using None Cons by (subst tokenize.simps) (simp add: tok_ok_def fsstMaxLen_def)
    next
      case (Some r)
      note m = match_sym_prefix [OF Some assms]
      have "length (drop (snd r) s) < length s" using m(2) Cons by simp
      with 1 obtain toks where c: "tokenize t (drop (snd r) s) = Some toks" "concat toks = drop (snd r) s" "list_all tok_ok toks" by blast
      have "tok_ok (take (snd r) s)" using m assms by (auto simp: tok_ok_def table_ok_def sym_ok_def list_all_length)
      then show ?thesis using Some Cons c by (subst tokenize.simps) simp
    qed
  qed
qed

definition gain_ok :: "(u8 list, int) gomap \<Rightarrow> bool" where
  "gain_ok gain \<longleftrightarrow> (\<forall>k \<in> mkeys gain. tok_ok k)"

lemma add_gain_ok: "gain_ok gain \<Longrightarrow> tok_ok tok \<Longrightarrow> gain_ok (add_gain tok gain)"
  by (simp add: add_gain_def gain_ok_def dom_update)

lemma visit_tokens_ok: "gain_ok gain \<Longrightarrow> list_all tok_ok toks \<Longrightarrow> gain_ok (visit_tokens prev toks gain)"
proof (induction toks arbitrary: prev gain)
  case (Cons tok toks)
  have "tok_ok (prev @ tok)" if "length prev > 0 \<and> length prev + length tok \<le> fsstMaxLen" using that by (simp add: tok_ok_def)
  then show ?case using Cons by (simp add: Let_def add_gain_ok del: length_greater_0_conv)
qed simp

lemma count_samples_total:
  assumes "table_ok t"
  shows "gain_ok gain \<Longrightarrow> \<exists>g. count_samples t samples gain = Some g \<and> gain_ok g"
proof (induction samples arbitrary: gain)
  case (Cons s samples)
  from tokenize_total [OF assms, of s] obtain toks where "tokenize t s = Some toks" "list_all tok_ok toks" by blast
  then show ?case using Cons.IH [OF visit_tokens_ok [OF Cons.prems]] by simp
qed simp

lemma topSymbols_ok:
  assumes "gain_ok gain"
  shows "list_all sym_ok (topSymbols gain)" "length (topSymbols gain) \<le> fsstMaxSymbols"
  using assms by (auto simp: topSymbols_def list_all_iff gain_ok_def tok_ok_def intro!: sym_ok_makeSymbol dest!: in_set_takeD)

lemma train_rounds_total:
  assumes "bucket_sort srt"
  shows "table_ok t \<Longrightarrow> \<exists>t'. train_rounds srt k samples t = Some t' \<and> table_ok t'"
proof (induction k arbitrary: t)
  case (Suc k)
  from count_samples_total [OF Suc.prems, of "[]" samples] obtain g where g: "count_samples t samples [] = Some g" "gain_ok g" by (auto simp: gain_ok_def)
  have "table_ok (buildIndex srt (t\<lparr> ft_syms := topSymbols g \<rparr>))" by (rule buildIndex_ok [OF assms]) (simp_all add: topSymbols_ok g)
  from Suc.IH [OF this] g(1) show ?case by simp
qed simp

lemma trainFSST_total:
  assumes "bucket_sort srt"
  shows "\<exists>t. trainFSST srt samples = Some t \<and> table_ok t"
  unfolding trainFSST_def by (rule train_rounds_total [OF assms], rule buildIndex_ok [OF assms]) (simp_all add: emptyTable_def)

section \<open>The table reads back\<close>

lemma decode_syms_read:
  "list_all sym_ok syms \<Longrightarrow> decode_syms (length syms) (concat (map (\<lambda>s. sy_n s # sym_bytes s) syms) @ rest) = syms"
proof (induction syms)
  case (Cons s syms)
  have s: "makeSymbol (sym_bytes s) = s" "length (sym_bytes s) \<le> fsstMaxLen" using Cons.prems by (auto simp: sym_ok_def)
  have "unat (sy_n s) = length (sym_bytes s)" using Cons.prems by (simp add: sym_ok_n)
  then show ?case using s Cons by (simp add: Let_def)
qed simp

lemma decodeTable_encodeTable:
  assumes "table_ok t"
  shows "\<exists>t'. decodeTable srt (encodeTable t) = Some t' \<and> ft_syms t' = ft_syms t"
proof -
  have l: "length (ft_syms t) \<le> 255" "list_all sym_ok (ft_syms t)" using assms by (simp_all add: table_ok_def fsstMaxSymbols_def)
  then have "Uvarint (encodeTable t) = Some (length (ft_syms t), length (uvarint (length (ft_syms t))))"
    unfolding encodeTable_def by (intro Uvarint_uvarint) simp
  then show ?thesis using decode_syms_read [OF l(2), of "[]"] l(1) by (simp add: decodeTable_def buildIndex_def encodeTable_def)
qed

lemma length_encodeTable:
  assumes "table_ok t"
  shows "length (encodeTable t) < 2 ^ 12"
proof -
  have t: "length (ft_syms t) \<le> 255" "list_all sym_ok (ft_syms t)" using assms by (simp_all add: table_ok_def fsstMaxSymbols_def)
  have "sum_list (map (\<lambda>s. Suc (length (sym_bytes s))) (ft_syms t)) \<le> sum_list (map (\<lambda>s. 9) (ft_syms t))"
    using t(2) by (intro sum_list_mono) (auto simp: list_all_iff sym_ok_def fsstMaxLen_def)
  also have "\<dots> \<le> 9 * 255" using t(1) by (simp add: sum_list_triv)
  finally have "length (concat (map (\<lambda>s. sy_n s # sym_bytes s) (ft_syms t))) \<le> 9 * 255" by (simp add: length_concat o_def)
  moreover have "length (uvarint (length (ft_syms t))) \<le> 10" using length_uvarint_le [of "length (ft_syms t)" 9] t(1) by simp
  ultimately show ?thesis by (simp add: encodeTable_def)
qed

section \<open>The arena reads back\<close>

text \<open>Where a string lies in the spans: a length, its code, and an offset that is not the sentinel.\<close>

definition stored :: "fsstTable \<Rightarrow> u8 list \<Rightarrow> u8 list \<Rightarrow> u64 \<Rightarrow> bool" where
  "stored t spans s off \<longleftrightarrow> (\<exists>pre code post. spans = pre @ uvarint (length code) @ code @ post \<and> pre \<noteq> [] \<and> off = of_nat (length pre)
     \<and> fsst_decode t code = s)"

lemma stored_append: "stored t spans s off \<Longrightarrow> stored t (spans @ ext) s off"
  by (auto simp: stored_def) (metis append.assoc)

lemma FSST_Read_stored:
  assumes "stored (fa_t a) (fa_spans a) s off" "length (fa_spans a) < 2 ^ 64"
  shows "FSST_Read a off = Some s"
proof -
  from assms(1) obtain pre code post where p: "fa_spans a = pre @ uvarint (length code) @ code @ post" "pre \<noteq> []"
    "off = of_nat (length pre)" "fsst_decode (fa_t a) code = s" by (auto simp: stored_def)
  let ?u = "uvarint (length code)"
  have l: "length (fa_spans a) = length pre + length ?u + length code + length post" using p(1) by simp
  have u: "unat off = length pre" "unat (off + of_nat (length ?u)) = length pre + length ?u"
     "unat (off + of_nat (length ?u) + of_nat (length code)) = length pre + length ?u + length code"
    using assms(2) l by (simp_all add: p(3) of_nat_inverse_64 flip: of_nat_add)
  have "?u \<noteq> []" by (rule uvarint_nonempty)
  then have "unat off < length (fa_spans a)" "off \<noteq> 0" using u(1) l p(2) by auto
  moreover have "Uvarint (drop (unat off) (fa_spans a)) = Some (length code, length ?u)"
    using Uvarint_uvarint [of "length code" "code @ post"] assms(2) l by (simp add: u(1) p(1))
  moreover have "slice (fa_spans a) (length pre + length ?u) (length pre + length ?u + length code) = Inr code"
    unfolding p(1) by (simp add: slice_def)
  ultimately show ?thesis using p(4) l by (simp add: FSST_Read_def Let_def u uvarint_nonempty)
qed

lemma add_spans_total:
  assumes "table_ok t" "ft_syms t' = ft_syms t"
  shows "\<exists>spans' offs. add_spans t strs spans = Some (spans', offs) \<and> (spans \<noteq> [] \<longrightarrow> list_all2 (stored t' spans') strs offs)
     \<and> (\<exists>ext. spans' = spans @ ext) \<and> (sum_list (map length strs) < 2 ^ 60 \<longrightarrow> length spans' \<le> length spans + sum_list (map (\<lambda>s. 2 * length s + 10) strs))"
proof (induction strs arbitrary: spans)
  case (Cons s strs)
  from fsst_encode_decode [OF assms, of s] obtain code where
    c: "fsst_encode t s = Some code" "fsst_decode t' code = s" "length code \<le> 2 * length s" by blast
  let ?spans = "spans @ uvarint (length code) @ code"
  from Cons.IH [of ?spans] obtain spans' offs ext where r: "add_spans t strs ?spans = Some (spans', offs)"
    "list_all2 (stored t' spans') strs offs" "spans' = ?spans @ ext"
    "sum_list (map length strs) < 2 ^ 60 \<longrightarrow> length spans' \<le> length ?spans + sum_list (map (\<lambda>s. 2 * length s + 10) strs)"
    using uvarint_nonempty by auto
  have "stored t' spans' s (of_nat (length spans))" if "spans \<noteq> []" using that c(2) unfolding stored_def r(3)
    by (intro exI [of _ spans] exI [of _ code] exI [of _ ext]) simp
  moreover have "length (uvarint (length code)) \<le> 10" if "sum_list (map length (s # strs)) < 2 ^ 60"
    using that c(3) length_uvarint_le [of "length code" 9] by simp
  ultimately show ?case using c(1,3) r by auto
qed simp

lemma BuildFSSTArena_reads_back:
  assumes "bucket_sort srt" "sum_list (map length strs) < 2 ^ 60" "length strs < 2 ^ 58"
  shows "\<exists>a offs a'. BuildFSSTArena srt strs = Some (a, offs) \<and> LoadFSSTArena srt' (fa_table a) (fa_spans a) = Some a'
     \<and> map (FSST_Read a') offs = map Some strs \<and> length (fa_spans a) \<le> 1 + 2 * sum_list (map length strs) + 10 * length strs \<and> length (fa_table a) < 2 ^ 12
     \<and> length offs = length strs"
proof -
  obtain t where t: "trainFSST srt strs = Some t" "table_ok t" using trainFSST_total [OF assms(1)] by blast
  from decodeTable_encodeTable [OF t(2), of srt'] obtain t' where t': "decodeTable srt' (encodeTable t) = Some t'" "ft_syms t' = ft_syms t" by blast
  from add_spans_total [OF t(2) t'(2), of strs "[0]"] assms(2) obtain spans offs where
    s: "add_spans t strs [0] = Some (spans, offs)" "list_all2 (stored t' spans) strs offs"
    "length spans \<le> 1 + sum_list (map (\<lambda>s. 2 * length s + 10) strs)" by auto
  have "sum_list (map (\<lambda>s. 2 * length s + 10) strs) = 2 * sum_list (map length strs) + 10 * length strs"
    by (simp add: sum_list_addf sum_list_const_mult sum_list_triv)
  then have b: "length spans \<le> 1 + 2 * sum_list (map length strs) + 10 * length strs" using s(3) by simp
  then have l: "length spans < 2 ^ 64" using assms(2,3) by simp
  let ?a = "\<lparr> fa_table = encodeTable t, fa_spans = spans, fa_t = t \<rparr>" and ?a' = "\<lparr> fa_table = encodeTable t, fa_spans = spans, fa_t = t' \<rparr>"
  have "map (FSST_Read ?a') offs = map Some strs"
    using s(2) l by (auto simp: list_all2_conv_all_nth intro!: nth_equalityI FSST_Read_stored)
  moreover have "length (encodeTable t) < 2 ^ 12" by (rule length_encodeTable [OF t(2)])
  ultimately show ?thesis using t(1) t'(1) s(1) b list_all2_lengthD [OF s(2)] by (simp add: BuildFSSTArena_def LoadFSSTArena_def)
qed

section \<open>The encoder takes the longest symbol\<close>

lemma match_bucket_first:
  assumes "list_all (\<lambda>i. sym_ok (syms ! i)) bucket" "sorted_wrt (\<lambda>x y. sy_n (syms ! y) \<le> sy_n (syms ! x)) bucket"
    and "j \<in> set bucket" "take (length (sym_bytes (syms ! j))) s = sym_bytes (syms ! j)"
  shows "\<exists>idx n. match_bucket syms bucket s = Some (idx, n) \<and> length (sym_bytes (syms ! j)) \<le> n"
  using assms(1-3)
proof (induction bucket)
  case (Cons i bucket)
  have n: "unat (sy_n (syms ! k)) = length (sym_bytes (syms ! k))" if "k \<in> set (i # bucket)" for k
    using Cons.prems(1) that by (auto simp: list_all_iff sym_ok_n)
  have "sy_n (syms ! j) \<le> sy_n (syms ! i)" using Cons.prems(2,3) by auto
  then have le: "length (sym_bytes (syms ! j)) \<le> length (sym_bytes (syms ! i))"
    using n [of i] n [of j] Cons.prems(3) by (simp add: word_le_nat_alt)
  show ?case
  proof (cases "length (sym_bytes (syms ! i)) \<le> length s \<and> sym_bytes (syms ! i) = take (length (sym_bytes (syms ! i))) s")
    case True
    have "take (length (sym_bytes (syms ! i))) (sy_val (syms ! i)) = sym_bytes (syms ! i)" using n [of i] by (simp add: sym_bytes_def)
    then have "match_bucket syms (i # bucket) s = Some (i, length (sym_bytes (syms ! i)))" using True n [of i] by (simp add: Let_def)
    then show ?thesis using le by blast
  next
    case False
    have "length (sym_bytes (syms ! j)) \<le> length s" using arg_cong [OF assms(4), of length] by simp
    then have "j \<noteq> i" using False assms(4) [symmetric] by blast
    moreover have "match_bucket syms (i # bucket) s = match_bucket syms bucket s"
    proof -
      have e: "take (length (sym_bytes (syms ! i))) (sy_val (syms ! i)) = sym_bytes (syms ! i)" using n [of i] by (simp add: sym_bytes_def)
      have "length (sym_bytes (syms ! i)) > length s \<or> sym_bytes (syms ! i) \<noteq> take (length (sym_bytes (syms ! i))) s" using False by linarith
      then show ?thesis unfolding match_bucket.simps Let_def n [of i, simplified] e by (rule disjE) simp_all
    qed
    ultimately show ?thesis using Cons by simp
  qed
qed simp

lemma buildIndex_bucket:
  assumes "bucket_sort srt" "list_all sym_ok (ft_syms t)" "b < 256"
  shows "list_all (\<lambda>i. sym_ok (ft_syms t ! i)) (ft_byFirst (buildIndex srt t) ! b)"
    "sorted_wrt (\<lambda>x y. sy_n (ft_syms t ! y) \<le> sy_n (ft_syms t ! x)) (ft_byFirst (buildIndex srt t) ! b)"
    "set (ft_byFirst (buildIndex srt t) ! b) = {i. i < length (ft_syms t) \<and> unat (sy_val (ft_syms t ! i) ! 0) = b}"
proof -
  have "set (srt syms b) = set b" for syms b using assms(1) unfolding bucket_sort_def by (metis set_mset_mset)
  then show s: "set (ft_byFirst (buildIndex srt t) ! b) = {i. i < length (ft_syms t) \<and> unat (sy_val (ft_syms t ! i) ! 0) = b}"
    using assms(3) by (auto simp: buildIndex_def)
  then show "list_all (\<lambda>i. sym_ok (ft_syms t ! i)) (ft_byFirst (buildIndex srt t) ! b)" using assms(2) by (auto simp: list_all_iff)
  show "sorted_wrt (\<lambda>x y. sy_n (ft_syms t ! y) \<le> sy_n (ft_syms t ! x)) (ft_byFirst (buildIndex srt t) ! b)"
    using assms(1,3) by (simp add: buildIndex_def bucket_sort_def)
qed

lemma sym_ok_hd: "sym_ok s \<Longrightarrow> sy_val s ! 0 = hd (sym_bytes s)"
proof -
  assume s: "sym_ok s"
  then have "sym_bytes s \<noteq> []" by (simp add: sym_ok_def)
  then show "sy_val s ! 0 = hd (sym_bytes s)" unfolding sym_bytes_def by (simp add: hd_conv_nth)
qed

text \<open>The greedy step: the index finds a symbol whenever one is a prefix of the input, and no symbol that is a
  prefix is longer than the one it finds.\<close>

lemma match_sym_longest:
  assumes "bucket_sort srt" "list_all sym_ok (ft_syms t)" "j < length (ft_syms t)" "take (length (sym_bytes (ft_syms t ! j))) s = sym_bytes (ft_syms t ! j)"
  shows "\<exists>idx n. match_sym (buildIndex srt t) s = Some (idx, n) \<and> length (sym_bytes (ft_syms t ! j)) \<le> n"
proof -
  let ?w = "sym_bytes (ft_syms t ! j)"
  have j: "sym_ok (ft_syms t ! j)" using assms(2,3) by (simp add: list_all_length)
  then have "?w \<noteq> []" by (simp add: sym_ok_def)
  then have "hd ?w = hd s" using assms(4) by (metis hd_take length_greater_0_conv)
  then have "j \<in> set (ft_byFirst (buildIndex srt t) ! unat (hd s))"
    using buildIndex_bucket(3) [OF assms(1,2), of "unat (hd s)"] assms(3) sym_ok_hd [OF j] by simp
  from match_bucket_first [OF buildIndex_bucket(1,2) [OF assms(1,2) byte_lt] this assms(4)]
  show ?thesis by (simp add: match_sym_def) (simp add: buildIndex_def)
qed

section \<open>Properties\<close>

text \<open>C38: Every string of a compressed arena reads back by itself: for every list of strings, training and
  encoding end, the two regions load, and reading each returned offset from the loaded arena gives the
  string, whatever order the library sort leaves in the two indexes.\<close>

theorem fsst_arena_reads_back:
  assumes "bucket_sort srt" "sum_list (map length strs) < 2 ^ 60" "length strs < 2 ^ 58"
  shows "\<exists>a offs a'. BuildFSSTArena srt strs = Some (a, offs) \<and> LoadFSSTArena srt' (fst (FSST_Bytes a)) (snd (FSST_Bytes a)) = Some a'
     \<and> map (FSST_Read a') offs = map Some strs"
  using BuildFSSTArena_reads_back [OF assms, of srt'] by (auto simp: FSST_Bytes_def)

definition by_length :: "fsstSymbol list \<Rightarrow> nat list \<Rightarrow> nat list" where
  "by_length syms b = sort_key (\<lambda>i. 255 - unat (sy_n (syms ! i))) b"

lemma by_length_sorts: "bucket_sort by_length"
proof -
  have le: "255 - unat (x :: u8) \<le> 255 - unat y \<Longrightarrow> y \<le> x" for x y
    using byte_lt [of y] by (simp add: word_le_nat_alt del: byte_lt)
  have "sorted_wrt (\<lambda>x y. sy_n (syms ! y) \<le> sy_n (syms ! x)) (by_length syms b)" for syms b
    using sorted_sort_key [of "\<lambda>i. 255 - unat (sy_n (syms ! i))" b] unfolding by_length_def sorted_map
    by (rule sorted_wrt_mono_rel [rotated]) (rule le)
  then show ?thesis by (simp add: bucket_sort_def) (simp add: by_length_def)
qed

theorem fsst_arena_reads_back_witness:
  "\<exists>a offs a'. BuildFSSTArena by_length [bytes_of ''https://a.b/'', bytes_of ''https://a.b/c''] = Some (a, offs)
     \<and> LoadFSSTArena by_length (fst (FSST_Bytes a)) (snd (FSST_Bytes a)) = Some a'
     \<and> map (FSST_Read a') offs = map Some [bytes_of ''https://a.b/'', bytes_of ''https://a.b/c'']"
  by (rule fsst_arena_reads_back [OF by_length_sorts]) simp_all

end
