(* ===== verification/PartitionMap.thy ===== *)
theory PartitionMap
  imports GoFloat Records
begin

unbundle bit_operations_syntax

text \<open>
  The partition map of \<^verbatim>\<open>distribute/map.go\<close> and the rendezvous placement of
  \<^verbatim>\<open>distribute/rendezvous.go\<close>: jump consistent hashing from host keys to partitions, and the
  ranking of machines that names the primary and the replicas of a partition.

  The jump loop is a \<open>partial_function\<close>: \<open>None\<close> is a loop that does not end or a float outside the
  range of \<^verbatim>\<open>int64\<close>, whose conversion Go leaves to the implementation.  Neither happens for a fleet
  that a 32-bit partition id can name.
\<close>

section \<open>The map\<close>

datatype HealthState = Alive | Degraded | Failed | Draining

record PartitionMeta =
  pm_ID :: u32
  pm_Address :: string
  pm_Health :: HealthState
  pm_HostKeyLo :: u64
  pm_HostKeyHi :: u64
  pm_Primary :: u32
  pm_Replicas :: "u32 list"

record Map =
  mp_Epoch :: u64
  mp_NumPartitions :: int
  mp_Overrides :: "(u64, u32) gomap"
  mp_Weights :: "u16 list"
  mp_Replicas :: int
  mp_Partitions :: "PartitionMeta list"

definition jump_key :: "u64 \<Rightarrow> u64" where
  "jump_key key = key * 2862933555777941757 + 1"

definition jump_next :: "u64 \<Rightarrow> int \<Rightarrow> int" where
  "jump_next key b =
     trunc64 (fl64 (fl64 (of_int (b + 1)) * fl64 (fl64 (of_int (2 ^ 31)) / fl64 (of_int (uint (drop_bit 33 key + 1))))))"

partial_function (option) jump_loop :: "int \<Rightarrow> u64 \<Rightarrow> int \<Rightarrow> int \<Rightarrow> int option" where
  "jump_loop n key b j =
     (if j < n then
        (let key' = jump_key key; j' = jump_next key' j in
         if j' < 2 ^ 63 then jump_loop n key' j j' else None)
      else Some b)"

definition jumpHash :: "u64 \<Rightarrow> int \<Rightarrow> int option" where
  "jumpHash key numBuckets = (if numBuckets \<le> 1 then Some 0 else jump_loop numBuckets key (-1) 0)"

declare jump_loop.simps [code]

definition Owner :: "Map \<Rightarrow> u64 \<Rightarrow> u32 option" where
  "Owner m hostKey =
     (case mget (mp_Overrides m) hostKey of
        Some pid \<Rightarrow> Some pid
      | None \<Rightarrow> map_option word_of_int (jumpHash hostKey (mp_NumPartitions m)))"

section \<open>Rendezvous placement\<close>

record Machine =
  mc_ID :: u32
  mc_Weight :: rat
  mc_Address :: string

definition hashCombine :: "u64 \<Rightarrow> u64 \<Rightarrow> u64" where
  "hashCombine a b =
     (let x0 = (a * 0x9E3779B97F4A7C15) XOR b;
          x1 = (x0 XOR drop_bit 30 x0) * 0xBF58476D1CE4E5B9;
          x2 = (x1 XOR drop_bit 27 x1) * 0x94D049BB133111EB in
      x2 XOR drop_bit 31 x2)"

text \<open>The comparator orders by descending weight, equal weights by ascending machine id: a stable
  sort by id, then a stable sort by the negated weight.\<close>

definition rank :: "(u32 \<times> 'w :: {linorder, uminus}) list \<Rightarrow> (u32 \<times> 'w) list" where
  "rank ranked = sort_key (\<lambda>(m, w). - w) (sort_key fst ranked)"

definition preferenceList :: "u32 \<Rightarrow> u32 list \<Rightarrow> int \<Rightarrow> u32 list" where
  "preferenceList part machines replicaCount =
     (let ranked = rank (map (\<lambda>mac. (mac, uint (hashCombine (ucast part) (ucast mac)))) machines) in
      map fst (take (nat (min (replicaCount + 1) (int (length ranked)))) ranked))"

definition weightedPreference :: "u32 \<Rightarrow> Machine list \<Rightarrow> int \<Rightarrow> u32 list" where
  "weightedPreference part machines replicaCount =
     (let ranked = rank (map (\<lambda>mac. (mc_ID mac,
             fl64 (fl64 (of_int (uint (hashCombine (ucast part) (ucast (mc_ID mac))))) * mc_Weight mac))) machines) in
      map fst (take (nat (min (replicaCount + 1) (int (length ranked)))) ranked))"

section \<open>The jump hash terminates\<close>

lemma jump_divisor:
  fixes key :: u64
  shows "1 \<le> uint (drop_bit 33 key + 1)" "uint (drop_bit 33 key + 1) \<le> 2 ^ 31"
proof -
  have "unat (drop_bit 33 key) = unat key div 2 ^ 33" by (simp only: unat_drop_bit_eq drop_bit_eq_div [of 33 "unat key"])
  also have "\<dots> < 2 ^ 31"
    using unat_lt_2p64 [of key] by (simp add: div_less_iff_less_mult)
  finally have "unat (drop_bit 33 key) < 2 ^ 31" .
  then have "uint (drop_bit 33 key) < 2 ^ 31" 
    unfolding uint_nat by (metis of_nat_less_iff of_nat_numeral of_nat_power)
  then have "uint (drop_bit 33 key + 1) = uint (drop_bit 33 key) + 1"
    by (simp add: uint_word_ariths)
  then show "1 \<le> uint (drop_bit 33 key + 1)" "uint (drop_bit 33 key + 1) \<le> 2 ^ 31"
    using \<open>uint (drop_bit 33 key) < 2 ^ 31\<close> by simp_all
qed

text \<open>The relative error of one rounding.\<close>

lemma fl64_le_grow:
  assumes "0 < x"
  shows "fl64 x \<le> x + x / 2 ^ 52"
proof -
  let ?u = "(2 :: rat) powi (rat_exp x - 52)"
  have u: "0 < ?u" by simp
  have "?u = 2 powi rat_exp x / 2 ^ 52" by (simp add: power_int_diff)
  then have small: "?u \<le> x / 2 ^ 52" using rat_exp_bounds(1) [OF assms] by (simp add: divide_right_mono)
  have "of_int (round_even (x / ?u)) \<le> (of_int \<lceil>x / ?u\<rceil> :: rat)"
    using round_even_le [of "x / ?u"] by (simp only: of_int_le_iff)
  also have "\<dots> \<le> x / ?u + 1" by (rule of_int_ceiling_le_add_one)
  finally have "of_int (round_even (x / ?u)) * ?u \<le> (x / ?u + 1) * ?u"
    using u by (intro mult_right_mono) simp_all
  also have "\<dots> = x + ?u" using u by (simp add: algebra_simps)
  finally show ?thesis using assms small by (simp add: fl64_def fl64_pos_def Let_def)
qed

lemma jump_next_bounds:
  assumes "0 \<le> b" "b + 1 < 2 ^ 32"
  shows "b < jump_next key b" "jump_next key b < 2 ^ 63"
proof -
  let ?d = "uint (drop_bit 33 key + 1)"
  let ?q = "fl64 (of_int (2 ^ 31) / of_int ?d)"
  let ?p = "of_int (b + 1) * ?q"
  have d: "(1 :: rat) \<le> of_int ?d" "(of_int ?d :: rat) \<le> of_int (2 ^ 31)"
    using jump_divisor [of key] by (simp_all only: of_int_le_iff of_int_1_le_iff)
  have q1: "of_int 1 \<le> ?q"
    by (rule fl64_ge_int) (use d in \<open>simp_all add: le_divide_eq\<close>)
  have q2: "?q \<le> of_int (2 ^ 31)"
    by (rule fl64_le_int) (use d in \<open>simp_all add: divide_le_eq mult_le_cancel_left1\<close>)
  have exact: "fl64 (of_int (b + 1)) = of_int (b + 1)" "fl64 (of_int (2 ^ 31)) = of_int (2 ^ 31)" "fl64 (of_int ?d) = of_int ?d"
    by (rule fl64_int; use assms jump_divisor [of key] in simp)+
  then have eq: "jump_next key b = trunc64 (fl64 ?p)" by (simp only: jump_next_def)
  have "of_int (b + 1) \<le> fl64 ?p"
    using assms q1 by (intro fl64_ge_int) (simp_all add: mult_le_cancel_left1)
  then show "b < jump_next key b"
    unfolding eq using trunc64_ge [of "b + 1" "fl64 ?p"] assms by linarith
  have "0 < ?p" using assms q1 by simp
  then have "fl64 ?p \<le> ?p + ?p / 2 ^ 52" by (rule fl64_le_grow)
  also have "?p \<le> of_int (2 ^ 32 - 1) * of_int (2 ^ 31)"
  proof (rule mult_mono)
    show "(of_int (b + 1) :: rat) \<le> of_int (2 ^ 32 - 1)" using assms by (simp only: of_int_le_iff)
    show "0 \<le> ?q" using q1 by simp
  qed (use q2 in simp_all)
  then have "?p + ?p / 2 ^ 52 \<le> of_int (2 ^ 63 - 1)" by simp
  finally have "fl64 ?p \<le> of_int (2 ^ 63 - 1)" .
  moreover have "0 \<le> fl64 ?p" using \<open>of_int (b + 1) \<le> fl64 ?p\<close> assms(1) by (meson add_nonneg_nonneg of_int_0_le_iff order_trans zero_le_one)
  ultimately show "jump_next key b < 2 ^ 63"
    unfolding eq using trunc64_le [of "fl64 ?p" "2 ^ 63 - 1"] by linarith
qed

text \<open>The buckets a key visits depend on the key alone: with one bucket more the loop makes the same
  jumps, and at most one further jump, onto the new bucket.\<close>

lemma jump_loop_step:
  assumes "0 \<le> j" "j < n" "n < 2 ^ 32"
  shows "jump_loop n key b j = jump_loop n (jump_key key) j (jump_next (jump_key key) j)"
  using jump_next_bounds(2) [of j "jump_key key"] assms
  by (subst jump_loop.simps) (simp add: Let_def)

lemma jump_loop_stop: "n \<le> j \<Longrightarrow> jump_loop n key b j = Some b"
  by (subst jump_loop.simps) simp

lemma jump_loop_grow:
  assumes "b < n" "b < j" "0 \<le> j" "n + 1 < 2 ^ 32" "0 \<le> n" "b < 0 \<longrightarrow> j < n"
  shows "\<exists>r r'. jump_loop n key b j = Some r \<and> jump_loop (n + 1) key b j = Some r'
     \<and> 0 \<le> r \<and> r < n \<and> (r' = r \<or> r' = n)"
  using assms
proof (induction "nat (n - j)" arbitrary: key b j rule: less_induct)
  case less
  note nx = jump_next_bounds [of j "jump_key key"]
  show ?case
  proof (cases "j < n")
    case True
    have "nat (n - jump_next (jump_key key) j) < nat (n - j)" "0 \<le> jump_next (jump_key key) j"
      using nx True less.prems by auto
    from less.hyps [OF this(1) True _ this(2), of "jump_key key"] show ?thesis
      using nx(1) True less.prems by (simp add: jump_loop_step)
  next
    case False
    show ?thesis
    proof (cases "j = n")
      case True
      then have "jump_loop (n + 1) key b j = Some j"
        using nx less.prems by (simp add: jump_loop_step jump_loop_stop)
      with True less.prems show ?thesis by (auto simp: jump_loop_stop)
    next
      case False
      with \<open>\<not> j < n\<close> less.prems show ?thesis by (auto simp: jump_loop_stop)
    qed
  qed
qed

lemma jumpHash_grow:
  assumes "1 \<le> n" "n + 1 < 2 ^ 32"
  shows "\<exists>r r'. jumpHash key n = Some r \<and> jumpHash key (n + 1) = Some r' \<and> 0 \<le> r \<and> r < n \<and> (r' = r \<or> r' = n)"
proof -
  from jump_loop_grow [of "-1" n 0 key] assms obtain r r'
    where r: "jump_loop n key (-1) 0 = Some r" "jump_loop (n + 1) key (-1) 0 = Some r'" "0 \<le> r" "r < n" "r' = r \<or> r' = n"
    by auto
  then show ?thesis using assms by (cases "n = 1") (auto simp: jumpHash_def)
qed

lemma jumpHash_range:
  assumes "1 \<le> n" "n + 1 < 2 ^ 32"
  obtains r where "jumpHash key n = Some r" "0 \<le> r" "r < n"
  using jumpHash_grow [OF assms, of key] by blast

section \<open>Ownership\<close>

text \<open>Every host has an owner, and an unpinned host one of the fleet's partitions.\<close>

lemma Owner_total:
  assumes "1 \<le> mp_NumPartitions m" "mp_NumPartitions m + 1 < 2 ^ 32"
  shows "\<exists>p. Owner m hk = Some p \<and> (mget (mp_Overrides m) hk = None \<longrightarrow> uint p < mp_NumPartitions m)"
proof (cases "mget (mp_Overrides m) hk")
  case None
  from jumpHash_range [OF assms, of hk] obtain r where "jumpHash hk (mp_NumPartitions m) = Some r" "0 \<le> r" "r < mp_NumPartitions m"
    by blast
  then show ?thesis using None assms by (simp add: Owner_def uint_word_of_int)
qed (simp add: Owner_def)

section \<open>Ranking machines\<close>

text \<open>What a client relies on: the placement ranks exactly the machines it is given, and the ranking
  of the survivors is the old ranking without the lost machine.\<close>

locale placement =
  fixes ident :: "'m \<Rightarrow> u32" and full :: "'m list \<Rightarrow> u32 list"
  assumes full_mset: "mset (full ms) = mset (map ident ms)"
    and full_filter: "full (filter (\<lambda>m. P (ident m)) ms) = filter P (full ms)"
begin

lemma full_Nil: "full ms = [] \<longleftrightarrow> ms = []"
  using full_mset [of ms] by (metis list.map_disc_iff mset_zero_iff)

lemma full_distinct: "distinct (map ident ms) \<Longrightarrow> distinct (full ms)"
  using full_mset [of ms] mset_eq_imp_distinct_iff by blast

text \<open>Losing a machine: a partition whose primary it was goes to the machine next in line, every
  other partition keeps its primary.\<close>

lemma full_after_loss:
  assumes "distinct (map ident ms)" "full ms = p # qs"
  shows "full (filter (\<lambda>m. ident m \<noteq> x) ms) = (if x = p then qs else p # filter (\<lambda>m. m \<noteq> x) qs)"
proof -
  have "p \<notin> set qs" using full_distinct [OF assms(1)] assms(2) by simp
  then show ?thesis
    using assms(2) full_filter [of "\<lambda>m. m \<noteq> x" ms] by (auto intro: filter_True)
qed

end

lemma filter_map_fst: "map fst (filter (\<lambda>x. P (fst x)) xs) = filter P (map fst xs)"
  by (induction xs) auto

lemma rank_filter: "rank (filter (\<lambda>x. P (fst x)) xs) = filter (\<lambda>x. P (fst x)) (rank xs)"
  by (simp add: rank_def filter_sort)

lemma mset_rank: "mset (rank xs) = mset xs"
  by (simp add: rank_def)

definition unweighted_order :: "u32 \<Rightarrow> u32 list \<Rightarrow> u32 list" where
  "unweighted_order part machines =
     map fst (rank (map (\<lambda>mac. (mac, uint (hashCombine (ucast part) (ucast mac)))) machines))"

definition weighted_order :: "u32 \<Rightarrow> Machine list \<Rightarrow> u32 list" where
  "weighted_order part machines =
     map fst (rank (map (\<lambda>mac. (mc_ID mac,
       fl64 (fl64 (of_int (uint (hashCombine (ucast part) (ucast (mc_ID mac))))) * mc_Weight mac))) machines))"

lemma rank_of_map:
  assumes "\<And>m. fst (g m) = ident m"
  shows "mset (map fst (rank (map g ms))) = mset (map ident ms)"
    and "map fst (rank (map g (filter (\<lambda>m. P (ident m)) ms))) = filter P (map fst (rank (map g ms)))"
proof -
  show "mset (map fst (rank (map g ms))) = mset (map ident ms)"
    using assms by (simp add: mset_rank multiset.map_comp o_def)
  have "map g (filter (\<lambda>m. P (ident m)) ms) = filter (\<lambda>x. P (fst x)) (map g ms)"
    using assms by (simp add: filter_map o_def)
  then show "map fst (rank (map g (filter (\<lambda>m. P (ident m)) ms))) = filter P (map fst (rank (map g ms)))"
    by (simp add: rank_filter filter_map_fst)
qed

interpretation plain: placement "\<lambda>m. m" "unweighted_order part" for part
  by unfold_locales (simp_all add: unweighted_order_def rank_of_map [where ident = "\<lambda>m. m"] del: mset_map)

interpretation weighted: placement mc_ID "weighted_order part" for part
  by unfold_locales (simp_all add: weighted_order_def rank_of_map [where ident = mc_ID] del: mset_map)

lemma preferenceList_take: "preferenceList part machines n = take (nat (n + 1)) (unweighted_order part machines)"
  by (simp add: preferenceList_def unweighted_order_def Let_def take_map min_def)

lemma weightedPreference_take: "weightedPreference part machines n = take (nat (n + 1)) (weighted_order part machines)"
  by (simp add: weightedPreference_def weighted_order_def Let_def take_map min_def)

end
