(* ===== verification/Control.thy ===== *)
theory Control
  imports PartitionMap
begin

text \<open>
  The control plane: \<^verbatim>\<open>distribute/control.go\<close>, \<^verbatim>\<open>distribute/failover.go\<close> and the scaling loop of
  \<^verbatim>\<open>distribute/elasticity.go\<close>.  Every method runs under the mutex of the control plane, so each is
  one step on the record \<open>Control\<close>.  A slice out of range is \<open>None\<close>.
\<close>

section \<open>State and placement\<close>

record Control =
  ct_m :: Map
  ct_machines :: "Machine list"
  ct_misses :: "(u32, int) gomap"
  ct_backlog :: "(u32, int) gomap"
  ct_failThreshold :: int

definition DefaultFailThreshold :: int where "DefaultFailThreshold = 3"

definition newPartition :: "u32 \<Rightarrow> string \<Rightarrow> PartitionMeta" where
  "newPartition pid address =
     \<lparr> pm_ID = pid, pm_Address = address, pm_Health = Alive, pm_HostKeyLo = 0, pm_HostKeyHi = 0,
       pm_Primary = 0, pm_Replicas = [] \<rparr>"

definition NewControl :: Control where
  "NewControl =
     \<lparr> ct_m = \<lparr> mp_Epoch = 1, mp_NumPartitions = 1, mp_Overrides = [], mp_Weights = [],
                mp_Replicas = 0, mp_Partitions = [newPartition 0 []] \<rparr>,
       ct_machines = [], ct_misses = [], ct_backlog = [], ct_failThreshold = DefaultFailThreshold \<rparr>"

definition Clone :: "Map \<Rightarrow> Map" where
  "Clone m =
     \<lparr> mp_Epoch = mp_Epoch m, mp_NumPartitions = mp_NumPartitions m, mp_Overrides = mp_Overrides m,
       mp_Weights = mp_Weights m, mp_Replicas = mp_Replicas m, mp_Partitions = mp_Partitions m \<rparr>"

definition FetchMap :: "Control \<Rightarrow> Map" where
  "FetchMap c = Clone (ct_m c)"

definition Control_Epoch :: "Control \<Rightarrow> u64" where
  "Control_Epoch c = mp_Epoch (ct_m c)"

definition NumPartitions :: "Control \<Rightarrow> int" where
  "NumPartitions c = mp_NumPartitions (ct_m c)"

definition Backlog :: "Control \<Rightarrow> int list" where
  "Backlog c =
     fold (\<lambda>(pid, n) out. if unat pid < length out then out[unat pid := n] else out)
       (ct_backlog c) (replicate (nat (mp_NumPartitions (ct_m c))) 0)"

definition bump :: "Control \<Rightarrow> Control" where
  "bump c = c\<lparr> ct_m := (ct_m c)\<lparr> mp_Epoch := mp_Epoch (ct_m c) + 1 \<rparr> \<rparr>"

definition machineIDs :: "Machine list \<Rightarrow> u32 list" where
  "machineIDs machines = map mc_ID machines"

definition addressOf :: "Machine list \<Rightarrow> u32 \<Rightarrow> string" where
  "addressOf machines mid =
     (case find (\<lambda>mac. mc_ID mac = mid) machines of Some mac \<Rightarrow> mc_Address mac | None \<Rightarrow> [])"

definition isWeighted :: "Machine list \<Rightarrow> bool" where
  "isWeighted machines \<longleftrightarrow> (\<exists>mac \<in> set machines. mc_Weight mac \<noteq> 0 \<and> mc_Weight mac \<noteq> 1)"

definition preference :: "Machine list \<Rightarrow> int \<Rightarrow> u32 \<Rightarrow> u32 list" where
  "preference machines n pid =
     (if isWeighted machines then weightedPreference pid machines n
      else preferenceList pid (machineIDs machines) n)"

text \<open>The body of the loop of \<^verbatim>\<open>replace\<close> for one partition.\<close>

definition place_partition :: "Machine list \<Rightarrow> u32 list \<Rightarrow> PartitionMeta \<Rightarrow> PartitionMeta" where
  "place_partition machines pref p =
     (case pref of
        [] \<Rightarrow> p\<lparr> pm_Replicas := [] \<rparr>
      | m # ms \<Rightarrow>
          (let p1 = p\<lparr> pm_Primary := m \<rparr>;
               addr = addressOf machines m;
               p2 = (if addr \<noteq> [] then p1\<lparr> pm_Address := addr \<rparr> else p1) in
           p2\<lparr> pm_Replicas := ms \<rparr>))"

definition replace :: "Control \<Rightarrow> Control" where
  "replace c =
     (let m = ct_m c;
          ps = (if ct_machines c = [] \<or> mp_Replicas m \<le> 0
                then map (\<lambda>p. p\<lparr> pm_Replicas := [] \<rparr>) (mp_Partitions m)
                else map (\<lambda>p. place_partition (ct_machines c)
                               (preference (ct_machines c) (mp_Replicas m) (pm_ID p)) p) (mp_Partitions m)) in
      c\<lparr> ct_m := m\<lparr> mp_Partitions := ps \<rparr> \<rparr>)"

section \<open>Operations\<close>

definition SetReplicas :: "int \<Rightarrow> Control \<Rightarrow> Control" where
  "SetReplicas n c = replace (c\<lparr> ct_m := (ct_m c)\<lparr> mp_Replicas := n \<rparr> \<rparr>)"

definition SetMachines :: "Machine list \<Rightarrow> Control \<Rightarrow> Control" where
  "SetMachines machines c = replace (c\<lparr> ct_machines := machines \<rparr>)"

definition AddPartition :: "string \<Rightarrow> Control \<Rightarrow> u32 \<times> Control" where
  "AddPartition address c =
     (let m = ct_m c;
          pid = word_of_int (mp_NumPartitions m);
          m1 = m\<lparr> mp_NumPartitions := mp_NumPartitions m + 1,
                  mp_Partitions := mp_Partitions m @ [newPartition pid address] \<rparr> in
      (pid, replace (bump (c\<lparr> ct_m := m1 \<rparr>))))"

definition RemovePartition :: "Control \<Rightarrow> ((u32 \<times> bool) \<times> Control) option" where
  "RemovePartition c =
     (let m = ct_m c in
      if mp_NumPartitions m \<le> 1 then Some ((0, False), c)
      else if mp_Partitions m = [] then None
      else
        (let pid = word_of_int (mp_NumPartitions m - 1);
             m1 = m\<lparr> mp_NumPartitions := mp_NumPartitions m - 1, mp_Partitions := butlast (mp_Partitions m) \<rparr> in
         Some ((pid, True), replace (bump (c\<lparr> ct_m := m1, ct_backlog := mdel pid (ct_backlog c) \<rparr>)))))"

definition Pin :: "u64 \<Rightarrow> u32 \<Rightarrow> Control \<Rightarrow> Control" where
  "Pin hostKey to c = bump (c\<lparr> ct_m := (ct_m c)\<lparr> mp_Overrides := mput hostKey to (mp_Overrides (ct_m c)) \<rparr> \<rparr>)"

text \<open>The first partition row with an id, changed in place; the row that was there.\<close>

fun set_health :: "u32 \<Rightarrow> HealthState \<Rightarrow> PartitionMeta list \<Rightarrow> PartitionMeta list" where
  "set_health pid h [] = []"
| "set_health pid h (p # ps) = (if pm_ID p = pid then p\<lparr> pm_Health := h \<rparr> # ps else p # set_health pid h ps)"

definition row_of :: "u32 \<Rightarrow> Control \<Rightarrow> PartitionMeta option" where
  "row_of pid c = find (\<lambda>p. pm_ID p = pid) (mp_Partitions (ct_m c))"

definition put_health :: "u32 \<Rightarrow> HealthState \<Rightarrow> Control \<Rightarrow> Control" where
  "put_health pid h c = c\<lparr> ct_m := (ct_m c)\<lparr> mp_Partitions := set_health pid h (mp_Partitions (ct_m c)) \<rparr> \<rparr>"

definition SetHealth :: "u32 \<Rightarrow> HealthState \<Rightarrow> Control \<Rightarrow> Control" where
  "SetHealth pid h c = (if row_of pid c = None then c else bump (put_health pid h c))"

text \<open>The shared tail of the two heartbeat paths: on a real health change, write it and bump.\<close>

definition change_health :: "u32 \<Rightarrow> HealthState \<Rightarrow> Control \<Rightarrow> Control" where
  "change_health pid h c =
     (case row_of pid c of
        None \<Rightarrow> c
      | Some p \<Rightarrow> if pm_Health p \<noteq> h then bump (put_health pid h c) else c)"

definition heartbeatLocked :: "u32 \<Rightarrow> Control \<Rightarrow> Control" where
  "heartbeatLocked pid c = change_health pid Alive (c\<lparr> ct_misses := mdel pid (ct_misses c) \<rparr>)"

definition Heartbeat :: "u32 \<Rightarrow> Control \<Rightarrow> Control" where
  "Heartbeat pid c = heartbeatLocked pid c"

definition HeartbeatLoad :: "u32 \<Rightarrow> int \<Rightarrow> Control \<Rightarrow> Control" where
  "HeartbeatLoad pid backlog c = heartbeatLocked pid (c\<lparr> ct_backlog := mput pid backlog (ct_backlog c) \<rparr>)"

definition misses_of :: "u32 \<Rightarrow> Control \<Rightarrow> int" where
  "misses_of pid c = (case mget (ct_misses c) pid of Some n \<Rightarrow> n | None \<Rightarrow> 0)"

definition MissHeartbeat :: "u32 \<Rightarrow> Control \<Rightarrow> HealthState \<times> Control" where
  "MissHeartbeat pid c =
     (let c1 = c\<lparr> ct_misses := mput pid (misses_of pid c + 1) (ct_misses c) \<rparr>;
          nxt = (if misses_of pid c1 \<ge> ct_failThreshold c1 then Failed else Degraded) in
      (nxt, change_health pid nxt c1))"

definition FailMachine :: "u32 \<Rightarrow> Control \<Rightarrow> u32 list \<times> Control" where
  "FailMachine mid c =
     (let old = map (\<lambda>p. (pm_ID p, pm_Primary p)) (mp_Partitions (ct_m c));
          kept = filter (\<lambda>mac. mc_ID mac \<noteq> mid) (ct_machines c) in
      if length kept = length (ct_machines c) then ([], c)
      else
        (let c1 = bump (replace (c\<lparr> ct_machines := kept \<rparr>));
             promoted = filter (\<lambda>p. pm_Primary p \<noteq>
                          (case mget (rev old) (pm_ID p) of Some m \<Rightarrow> m | None \<Rightarrow> 0)) (mp_Partitions (ct_m c1)) in
         (map pm_ID promoted, c1)))"

definition Primary :: "u32 \<Rightarrow> Control \<Rightarrow> u32 \<times> bool" where
  "Primary pid c = (case row_of pid c of Some p \<Rightarrow> (pm_Primary p, True) | None \<Rightarrow> (0, False))"

section \<open>The scaling loop\<close>

record ElasticityConfig =
  ec_HighWater :: int
  ec_LowWater :: int
  ec_MinPartitions :: int
  ec_MaxPartitions :: int
  ec_Breaches :: int
  ec_Cooldown :: int

record Elasticity =
  el_cfg :: ElasticityConfig
  el_ctl :: Control
  el_highStreak :: int
  el_lowStreak :: int
  el_cooldown :: int

datatype Scale = ScaleHold | ScaleUp | ScaleDown

definition NewElasticity :: "Control \<Rightarrow> ElasticityConfig \<Rightarrow> Elasticity" where
  "NewElasticity ctl cfg =
     (let c1 = (if ec_MinPartitions cfg < 1 then cfg\<lparr> ec_MinPartitions := 1 \<rparr> else cfg);
          c2 = (if ec_MaxPartitions c1 < ec_MinPartitions c1 then c1\<lparr> ec_MaxPartitions := ec_MinPartitions c1 \<rparr> else c1);
          c3 = (if ec_Breaches c2 < 1 then c2\<lparr> ec_Breaches := 1 \<rparr> else c2);
          c4 = (if ec_HighWater c3 < 1 then c3\<lparr> ec_HighWater := 1 \<rparr> else c3) in
      \<lparr> el_cfg = c4, el_ctl = ctl, el_highStreak = 0, el_lowStreak = 0, el_cooldown = 0 \<rparr>)"

text \<open>Go's integer division truncates towards zero.\<close>

definition meanBacklog :: "int list \<Rightarrow> int" where
  "meanBacklog b =
     (if b = [] then 0
      else if sum_list b < 0 then - ((- sum_list b) div int (length b)) else sum_list b div int (length b))"

definition afterAction :: "Elasticity \<Rightarrow> Elasticity" where
  "afterAction e = e\<lparr> el_highStreak := 0, el_lowStreak := 0, el_cooldown := ec_Cooldown (el_cfg e) \<rparr>"

text \<open>The streak switch of \<^verbatim>\<open>Tick\<close>.\<close>

definition count_streaks :: "int \<Rightarrow> Elasticity \<Rightarrow> Elasticity" where
  "count_streaks load e =
     (if load > ec_HighWater (el_cfg e) then e\<lparr> el_highStreak := el_highStreak e + 1, el_lowStreak := 0 \<rparr>
      else if ec_LowWater (el_cfg e) > 0 \<and> load < ec_LowWater (el_cfg e)
      then e\<lparr> el_lowStreak := el_lowStreak e + 1, el_highStreak := 0 \<rparr>
      else e\<lparr> el_highStreak := 0, el_lowStreak := 0 \<rparr>)"

definition Tick :: "(Control \<Rightarrow> int list) \<Rightarrow> Elasticity \<Rightarrow> (Scale \<times> Elasticity) option" where
  "Tick src e =
     (if el_cooldown e > 0
      then Some (ScaleHold, e\<lparr> el_cooldown := el_cooldown e - 1, el_highStreak := 0, el_lowStreak := 0 \<rparr>)
      else
        (let n = NumPartitions (el_ctl e);
             e1 = count_streaks (meanBacklog (src (el_ctl e))) e in
         if el_highStreak e1 \<ge> ec_Breaches (el_cfg e1) \<and> n < ec_MaxPartitions (el_cfg e1)
         then Some (ScaleUp, afterAction (e1\<lparr> el_ctl := snd (AddPartition [] (el_ctl e1)) \<rparr>))
         else if el_lowStreak e1 \<ge> ec_Breaches (el_cfg e1) \<and> n > ec_MinPartitions (el_cfg e1)
         then (case RemovePartition (el_ctl e1) of
                 None \<Rightarrow> None
               | Some ((_, ok), ctl) \<Rightarrow>
                   Some (if ok then (ScaleDown, afterAction (e1\<lparr> el_ctl := ctl \<rparr>))
                         else (ScaleHold, e1\<lparr> el_ctl := ctl \<rparr>)))
         else Some (ScaleHold, e1)))"

section \<open>The invariant of the control plane\<close>

text \<open>The rows are the partitions \<open>0, \<dots>, n - 1\<close> in order, and once there are machines and a replication
  factor each row carries the prefix of its ranking.\<close>

definition rows_ok :: "Control \<Rightarrow> bool" where
  "rows_ok c \<longleftrightarrow> mp_NumPartitions (ct_m c) = int (length (mp_Partitions (ct_m c)))
     \<and> mp_Partitions (ct_m c) \<noteq> [] \<and> map pm_ID (mp_Partitions (ct_m c)) = map of_nat [0..<length (mp_Partitions (ct_m c))]"

definition replicating :: "Control \<Rightarrow> bool" where
  "replicating c \<longleftrightarrow> ct_machines c \<noteq> [] \<and> mp_Replicas (ct_m c) > 0"

definition placed :: "Control \<Rightarrow> bool" where
  "placed c \<longleftrightarrow> (replicating c \<longrightarrow> (\<forall>p \<in> set (mp_Partitions (ct_m c)).
     pm_Primary p # pm_Replicas p = preference (ct_machines c) (mp_Replicas (ct_m c)) (pm_ID p)))"

definition ctl_ok :: "Control \<Rightarrow> bool" where
  "ctl_ok c \<longleftrightarrow> rows_ok c \<and> placed c"

lemma preference_nonempty: "ms \<noteq> [] \<Longrightarrow> n > 0 \<Longrightarrow> preference ms n pid \<noteq> []"
  by (simp add: preference_def preferenceList_take weightedPreference_take machineIDs_def
      plain.full_Nil weighted.full_Nil)

lemma place_partition_fields [simp]:
  "pm_ID (place_partition ms pref p) = pm_ID p" "pm_Health (place_partition ms pref p) = pm_Health p"
  "pref \<noteq> [] \<Longrightarrow> pm_Primary (place_partition ms pref p) # pm_Replicas (place_partition ms pref p) = pref"
  by (simp_all add: place_partition_def Let_def split: list.splits)

lemma replace_fields [simp]:
  "mp_Epoch (ct_m (replace c)) = mp_Epoch (ct_m c)"
  "mp_NumPartitions (ct_m (replace c)) = mp_NumPartitions (ct_m c)"
  "mp_Overrides (ct_m (replace c)) = mp_Overrides (ct_m c)"
  "mp_Replicas (ct_m (replace c)) = mp_Replicas (ct_m c)"
  "ct_machines (replace c) = ct_machines c" "ct_misses (replace c) = ct_misses c"
  "ct_backlog (replace c) = ct_backlog c" "ct_failThreshold (replace c) = ct_failThreshold c"
  "map pm_ID (mp_Partitions (ct_m (replace c))) = map pm_ID (mp_Partitions (ct_m c))"
  "map pm_Health (mp_Partitions (ct_m (replace c))) = map pm_Health (mp_Partitions (ct_m c))"
  by (simp_all add: replace_def Let_def)

lemma bump_fields [simp]:
  "mp_Epoch (ct_m (bump c)) = mp_Epoch (ct_m c) + 1"
  "mp_NumPartitions (ct_m (bump c)) = mp_NumPartitions (ct_m c)"
  "mp_Overrides (ct_m (bump c)) = mp_Overrides (ct_m c)"
  "mp_Replicas (ct_m (bump c)) = mp_Replicas (ct_m c)"
  "mp_Partitions (ct_m (bump c)) = mp_Partitions (ct_m c)"
  "ct_machines (bump c) = ct_machines c" "ct_misses (bump c) = ct_misses c"
  "ct_backlog (bump c) = ct_backlog c" "ct_failThreshold (bump c) = ct_failThreshold c"
  by (simp_all add: bump_def)

lemma replace_placed: "placed (replace c)"
proof (cases "replicating c")
  case True
  then show ?thesis
    using preference_nonempty by (auto simp: placed_def replicating_def replace_def Let_def)
qed (auto simp: placed_def replicating_def)

lemma rows_ok_cong:
  assumes "mp_NumPartitions (ct_m c') = mp_NumPartitions (ct_m c)"
    "map pm_ID (mp_Partitions (ct_m c')) = map pm_ID (mp_Partitions (ct_m c))" "rows_ok c"
  shows "rows_ok c'"
proof -
  have "length (mp_Partitions (ct_m c')) = length (mp_Partitions (ct_m c))"
    using arg_cong [OF assms(2), of length] by simp
  then show ?thesis using assms by (auto simp: rows_ok_def)
qed

lemma replace_ok: "rows_ok c \<Longrightarrow> ctl_ok (replace c)"
  unfolding ctl_ok_def using replace_placed by (auto intro: rows_ok_cong)

lemma bump_ok [simp]: "rows_ok (bump c) = rows_ok c" "placed (bump c) = placed c" "ctl_ok (bump c) = ctl_ok c"
  by (simp_all add: rows_ok_def placed_def replicating_def ctl_ok_def)

lemma set_health_fields:
  "map pm_ID (set_health pid h ps) = map pm_ID ps"
  "map pm_Primary (set_health pid h ps) = map pm_Primary ps"
  "(\<forall>p \<in> set (set_health pid h ps). Q (pm_ID p) (pm_Primary p) (pm_Replicas p)) \<longleftrightarrow> (\<forall>p \<in> set ps. Q (pm_ID p) (pm_Primary p) (pm_Replicas p))"
  by (induction ps) auto

lemma put_health_ok: "ctl_ok c \<Longrightarrow> ctl_ok (put_health pid h c)"
proof -
  assume c: "ctl_ok c"
  have "rows_ok (put_health pid h c)"
    using c unfolding ctl_ok_def by (auto simp: put_health_def set_health_fields intro: rows_ok_cong)
  moreover have "placed (put_health pid h c)"
    using c set_health_fields(3) [where Q = "\<lambda>i m r. m # r = preference (ct_machines c) (mp_Replicas (ct_m c)) i"]
    by (simp add: ctl_ok_def placed_def put_health_def replicating_def)
  ultimately show ?thesis by (simp add: ctl_ok_def)
qed

lemma change_health_ok: "ctl_ok c \<Longrightarrow> ctl_ok (change_health pid h c)"
  by (auto simp: change_health_def put_health_ok split: option.splits)

lemma side_tables_ok [simp]:
  "ctl_ok (c\<lparr> ct_misses := x \<rparr>) = ctl_ok c" "ctl_ok (c\<lparr> ct_backlog := y \<rparr>) = ctl_ok c"
  by (simp_all add: ctl_ok_def rows_ok_def placed_def replicating_def)

lemma AddPartition_ok:
  assumes "ctl_ok c"
  shows "ctl_ok (snd (AddPartition a c))" "fst (AddPartition a c) = word_of_int (NumPartitions c)"
    "NumPartitions (snd (AddPartition a c)) = NumPartitions c + 1"
    "mp_Overrides (ct_m (snd (AddPartition a c))) = mp_Overrides (ct_m c)"
proof -
  show "ctl_ok (snd (AddPartition a c))"
    unfolding AddPartition_def Let_def snd_conv
    by (rule replace_ok) (use assms in \<open>auto simp: ctl_ok_def rows_ok_def bump_def newPartition_def\<close>)
qed (simp_all add: AddPartition_def Let_def NumPartitions_def)

lemma RemovePartition_ok:
  assumes "ctl_ok c" "NumPartitions c > 1"
  shows "\<exists>c'. RemovePartition c = Some ((word_of_int (NumPartitions c - 1), True), c') \<and> ctl_ok c'
     \<and> NumPartitions c' = NumPartitions c - 1 \<and> mp_Overrides (ct_m c') = mp_Overrides (ct_m c)
     \<and> ct_misses c' = ct_misses c"
proof -
  let ?m = "ct_m c" and ?pid = "word_of_int (mp_NumPartitions (ct_m c) - 1) :: u32"
  let ?c1 = "bump (c\<lparr> ct_m := ?m\<lparr> mp_NumPartitions := mp_NumPartitions ?m - 1, mp_Partitions := butlast (mp_Partitions ?m) \<rparr>,
       ct_backlog := mdel ?pid (ct_backlog c) \<rparr>)"
  have rows: "mp_NumPartitions ?m = int (length (mp_Partitions ?m))" "mp_Partitions ?m \<noteq> []"
    "map pm_ID (mp_Partitions ?m) = map of_nat [0..<length (mp_Partitions ?m)]"
    using assms(1) by (auto simp: ctl_ok_def rows_ok_def)
  obtain k where k: "length (mp_Partitions ?m) = Suc (Suc k)"
    using rows(1) assms(2) by (cases "length (mp_Partitions ?m)"; cases "length (mp_Partitions ?m) - 1") (auto simp: NumPartitions_def)
  have "map pm_ID (butlast (mp_Partitions ?m)) = map of_nat [0..<Suc k]"
    using rows(3) k by (simp add: map_butlast butlast_append)
  then have "rows_ok ?c1"
    using rows(1) k by (simp add: rows_ok_def bump_def) (metis length_0_conv length_butlast diff_Suc_1 nat.distinct(1))
  then have "ctl_ok (replace ?c1)" by (rule replace_ok)
  then show ?thesis
    using rows(2) assms(2) by (simp add: RemovePartition_def Let_def NumPartitions_def)
qed

section \<open>Runs of the control plane\<close>

datatype cevent =
    EReplicas int | EMachines "Machine list" | EAdd string | ERemove | EPin u64 u32
  | EHealth u32 HealthState | EBeat u32 | ELoad u32 int | EMiss u32 | EFail u32

inductive cstep :: "Control \<Rightarrow> cevent \<Rightarrow> Control \<Rightarrow> bool" where
  "cstep c (EReplicas n) (SetReplicas n c)"
| "cstep c (EMachines ms) (SetMachines ms c)"
| "cstep c (EAdd a) (snd (AddPartition a c))"
| "RemovePartition c = Some (r, c') \<Longrightarrow> cstep c ERemove c'"
| "cstep c (EPin hk p) (Pin hk p c)"
| "cstep c (EHealth p h) (SetHealth p h c)"
| "cstep c (EBeat p) (Heartbeat p c)"
| "cstep c (ELoad p n) (HeartbeatLoad p n c)"
| "cstep c (EMiss p) (snd (MissHeartbeat p c))"
| "cstep c (EFail m) (snd (FailMachine m c))"

inductive crun :: "Control \<Rightarrow> cevent list \<Rightarrow> Control \<Rightarrow> bool" where
  crun_Nil: "crun c [] c"
| crun_Cons: "cstep c e c1 \<Longrightarrow> crun c1 es c2 \<Longrightarrow> crun c (e # es) c2"

inductive_cases cstep_E: "cstep c e c'"
inductive_simps crun_simps: "crun c [] c'" "crun c (e # es) c'"

lemma rows_ok_other [simp]:
  "rows_ok (c\<lparr> ct_machines := ms \<rparr>) = rows_ok c"
  "rows_ok (c\<lparr> ct_m := (ct_m c)\<lparr> mp_Replicas := n \<rparr> \<rparr>) = rows_ok c"
  by (simp_all add: rows_ok_def)

lemma ctl_ok_Pin [simp]: "ctl_ok (Pin hk p c) = ctl_ok c"
  by (simp add: Pin_def ctl_ok_def rows_ok_def placed_def replicating_def)

lemma FailMachine_ok: "ctl_ok c \<Longrightarrow> ctl_ok (snd (FailMachine m c))"
  using replace_ok [of "c\<lparr> ct_machines := filter (\<lambda>mac. mc_ID mac \<noteq> m) (ct_machines c) \<rparr>"]
  by (simp add: FailMachine_def Let_def ctl_ok_def)

lemma RemovePartition_cases:
  assumes "ctl_ok c"
  obtains "NumPartitions c \<le> 1" "RemovePartition c = Some ((0, False), c)"
  | c' where "NumPartitions c > 1" "RemovePartition c = Some ((word_of_int (NumPartitions c - 1), True), c')"
      "ctl_ok c'" "NumPartitions c' = NumPartitions c - 1" "mp_Overrides (ct_m c') = mp_Overrides (ct_m c)"
proof (cases "NumPartitions c \<le> 1")
  case True
  then show ?thesis by (intro that(1)) (simp_all add: RemovePartition_def NumPartitions_def)
next
  case False
  then show ?thesis using RemovePartition_ok [OF assms] that(2) by auto
qed

lemma cstep_ok: "cstep c e c' \<Longrightarrow> ctl_ok c \<Longrightarrow> ctl_ok c'"
proof (induction rule: cstep.induct)
  case (4 c r c')
  from 4(2) show ?case by (rule RemovePartition_cases) (use 4 in auto)
next
  case (1 c n)
  then show ?case unfolding SetReplicas_def by (intro replace_ok) (simp add: ctl_ok_def)
next
  case (2 c ms)
  then show ?case unfolding SetMachines_def by (intro replace_ok) (simp add: ctl_ok_def)
qed (simp_all add: AddPartition_ok SetHealth_def put_health_ok Heartbeat_def HeartbeatLoad_def heartbeatLocked_def
      change_health_ok MissHeartbeat_def Let_def FailMachine_ok)

lemma NewControl_ok: "ctl_ok NewControl"
  by (simp add: ctl_ok_def rows_ok_def placed_def replicating_def NewControl_def newPartition_def)

lemma crun_ok: "crun c es c' \<Longrightarrow> ctl_ok c \<Longrightarrow> ctl_ok c'"
  by (induction rule: crun.induct) (auto intro: cstep_ok)

section \<open>Resizing the fleet\<close>

lemma Owner_grow:
  assumes "1 \<le> n" "n + 1 < 2 ^ 32" "mget (mp_Overrides m) hk = None"
    "mp_NumPartitions m = n" "mp_NumPartitions m' = n + 1" "mp_Overrides m' = mp_Overrides m"
  shows "\<exists>r r'. Owner m hk = Some (word_of_int r) \<and> Owner m' hk = Some (word_of_int r') \<and> 0 \<le> r \<and> r < n \<and> (r' = r \<or> r' = n)"
  using jumpHash_grow [OF assms(1,2), of hk] assms(3-) by (auto simp: Owner_def)

lemma word_of_int_neq:
  assumes "0 \<le> r" "r < n" "n < 2 ^ 32"
  shows "(word_of_int r :: u32) \<noteq> word_of_int n"
  using assms by (simp add: word_of_int_eq_iff take_bit_int_eq_self)

section \<open>Losing a machine\<close>

lemma preference_after_loss:
  assumes "distinct (map mc_ID ms)" "n > 0" "isWeighted (filter (\<lambda>m. mc_ID m \<noteq> x) ms) = isWeighted ms"
    and pref: "preference ms n pid = p # qs"
  shows "\<exists>rest. preference (filter (\<lambda>m. mc_ID m \<noteq> x) ms) n pid = (if x = p then qs else [p]) @ rest"
proof -
  define full where "full = (if isWeighted ms then weighted_order pid ms else unweighted_order pid (map mc_ID ms))"
  define full' where "full' = (if isWeighted ms then weighted_order pid (filter (\<lambda>m. mc_ID m \<noteq> x) ms)
     else unweighted_order pid (filter (\<lambda>m. m \<noteq> x) (map mc_ID ms)))"
  have eq: "preference ms n pid = take (nat (n + 1)) full"
    "preference (filter (\<lambda>m. mc_ID m \<noteq> x) ms) n pid = take (nat (n + 1)) full'"
    using assms(3) by (simp_all add: preference_def preferenceList_take weightedPreference_take full_def full'_def
        machineIDs_def filter_map o_def)
  obtain k where k: "nat (n + 1) = Suc k" "k = nat n" using assms(2) by (metis Suc_nat_eq_nat_zadd1 add.commute less_imp_le)
  obtain rs where full: "full = p # rs" "qs = take k rs" using pref eq(1) k by (cases full) auto
  have loss: "full' = (if x = p then rs else p # filter (\<lambda>m. m \<noteq> x) rs)"
  proof (cases "isWeighted ms")
    case True
    then show ?thesis using full(1) weighted.full_after_loss [of ms pid p rs x] assms(1) by (simp add: full_def full'_def)
  next
    case False
    then show ?thesis using full(1) plain.full_after_loss [of "map mc_ID ms" pid p rs x] assms(1) by (simp add: full_def full'_def)
  qed
  have "take (Suc k) rs = take k rs @ drop k (take (Suc k) rs)"
    by (metis append_take_drop_id min.absorb1 le_SucI order_refl take_take)
  then show ?thesis using eq(2) loss k(1) full(2) by (cases "x = p") auto
qed

lemma order_mset:
  "mset (unweighted_order pid (machineIDs ms)) = mset (map mc_ID ms)" "mset (weighted_order pid ms) = mset (map mc_ID ms)"
  using plain.full_mset [of pid "map mc_ID ms"] weighted.full_mset [of pid ms] by (simp_all add: machineIDs_def)

lemma preference_length: "n > 0 \<Longrightarrow> length (preference ms n pid) = nat (min (n + 1) (int (length ms)))"
  using order_mset [of pid ms, THEN arg_cong [of _ _ size]]
  by (auto simp: preference_def preferenceList_take weightedPreference_take)

lemma preference_set: "set (preference ms n pid) \<subseteq> mc_ID ` set ms"
proof -
  have "set (unweighted_order pid (machineIDs ms)) = mc_ID ` set ms" "set (weighted_order pid ms) = mc_ID ` set ms"
    using order_mset [of pid ms, THEN mset_eq_setD] by simp_all
  then show ?thesis
    using set_take_subset [of "nat (n + 1)" "unweighted_order pid (machineIDs ms)"]
      set_take_subset [of "nat (n + 1)" "weighted_order pid ms"]
    by (simp add: preference_def preferenceList_take weightedPreference_take)
qed

lemma preference_replica:
  assumes "preference ms n pid = p # qs" "n > 0" "m \<in> set ms" "mc_ID m \<noteq> p"
  shows "qs \<noteq> []"
proof
  assume "qs = []"
  then have "nat (min (n + 1) (int (length ms))) = 1" using preference_length [OF assms(2), of ms pid] assms(1) by simp
  then have "length ms = 1" using assms(2) by (simp add: min_def split: if_splits)
  moreover have "p \<in> mc_ID ` set ms" using preference_set [of ms n pid] assms(1) by simp
  ultimately show False using assms(3,4) by (auto simp: length_Suc_conv)
qed

lemma replace_rows:
  assumes "replicating c"
  shows "mp_Partitions (ct_m (replace c)) =
     map (\<lambda>p. place_partition (ct_machines c) (preference (ct_machines c) (mp_Replicas (ct_m c)) (pm_ID p)) p) (mp_Partitions (ct_m c))"
  using assms by (auto simp: replace_def Let_def replicating_def)

text \<open>The row a partition has before and after the loss of a machine.\<close>

definition promotion :: "u32 \<Rightarrow> PartitionMeta \<Rightarrow> PartitionMeta \<Rightarrow> bool" where
  "promotion x p p' \<longleftrightarrow> pm_ID p' = pm_ID p \<and> pm_Primary p' = (if pm_Primary p = x then hd (pm_Replicas p) else pm_Primary p)"

lemma place_primary: "pref = m # ms \<Longrightarrow> pm_Primary (place_partition machines pref p) = m"
  by (simp add: place_partition_def Let_def)

lemma failed_rows:
  assumes "ctl_ok c" "replicating c" "distinct (map mc_ID (ct_machines c))"
    and two: "\<exists>m \<in> set (ct_machines c). mc_ID m \<noteq> x"
    and w: "isWeighted (filter (\<lambda>m. mc_ID m \<noteq> x) (ct_machines c)) = isWeighted (ct_machines c)"
    and c': "c' = replace (c\<lparr> ct_machines := filter (\<lambda>m. mc_ID m \<noteq> x) (ct_machines c) \<rparr>)"
  shows "list_all2 (promotion x) (mp_Partitions (ct_m c)) (mp_Partitions (ct_m c'))"
proof -
  let ?ms = "filter (\<lambda>m. mc_ID m \<noteq> x) (ct_machines c)"
  have rep: "replicating (c\<lparr> ct_machines := ?ms \<rparr>)" "mp_Replicas (ct_m c) > 0"
    using assms(2) two by (auto simp: replicating_def filter_empty_conv)
  have "promotion x p (place_partition ?ms (preference ?ms (mp_Replicas (ct_m c)) (pm_ID p)) p)"
    if p: "p \<in> set (mp_Partitions (ct_m c))" for p
  proof -
    have old: "preference (ct_machines c) (mp_Replicas (ct_m c)) (pm_ID p) = pm_Primary p # pm_Replicas p"
      using assms(1,2) p by (simp add: ctl_ok_def placed_def)
    from preference_after_loss [OF assms(3) rep(2) w this] obtain rest
      where rest: "preference ?ms (mp_Replicas (ct_m c)) (pm_ID p) = (if x = pm_Primary p then pm_Replicas p else [pm_Primary p]) @ rest" ..
    have "x = pm_Primary p \<Longrightarrow> pm_Replicas p \<noteq> []"
      using preference_replica [OF old rep(2)] two by auto
    with rest show ?thesis by (cases "pm_Replicas p") (auto simp: promotion_def place_primary)
  qed
  then show ?thesis
    by (auto simp: c' replace_rows [OF rep(1)] list_all2_map2 list_all2_same)
qed

lemma preference_distinct: "distinct (map mc_ID ms) \<Longrightarrow> distinct (preference ms n pid)"
  by (simp add: preference_def preferenceList_take weightedPreference_take machineIDs_def
      plain.full_distinct weighted.full_distinct distinct_take)

lemma promoted_ids:
  assumes "list_all2 (promotion x) ps ps'" "\<forall>p \<in> set ps. f (pm_ID p) = pm_Primary p"
    "\<forall>p \<in> set ps. pm_Primary p = x \<longrightarrow> hd (pm_Replicas p) \<noteq> x"
  shows "map pm_ID (filter (\<lambda>p. pm_Primary p \<noteq> f (pm_ID p)) ps') = map pm_ID (filter (\<lambda>p. pm_Primary p = x) ps)"
  using assms by (induction rule: list_all2_induct) (auto simp: promotion_def)

lemma promotion_avoids:
  assumes "list_all2 (promotion x) ps ps'" "\<forall>p \<in> set ps. pm_Primary p = x \<longrightarrow> hd (pm_Replicas p) \<noteq> x"
  shows "\<forall>p' \<in> set ps'. pm_Primary p' \<noteq> x"
  using assms by (induction rule: list_all2_induct) (auto simp: promotion_def)

lemma rows_distinct:
  assumes "ctl_ok c" "NumPartitions c < 2 ^ 32"
  shows "distinct (map pm_ID (mp_Partitions (ct_m c)))"
proof -
  let ?n = "length (mp_Partitions (ct_m c))"
  have "?n < 2 ^ 32" using assms by (simp add: ctl_ok_def rows_ok_def NumPartitions_def)
  have "inj_on (of_nat :: nat \<Rightarrow> u32) {0..<?n}"
  proof (rule inj_onI)
    fix i j assume ij: "i \<in> {0..<?n}" "j \<in> {0..<?n}" and eq: "(of_nat i :: u32) = of_nat j"
    have "i < 2 ^ 32" "j < 2 ^ 32" using ij \<open>?n < 2 ^ 32\<close> by simp_all
    then have "unat (of_nat i :: u32) = i" "unat (of_nat j :: u32) = j"
      by (simp_all only: of_nat_inverse_32)
    with eq show "i = j" by metis
  qed
  then show ?thesis using assms(1) by (simp add: ctl_ok_def rows_ok_def distinct_map)
qed

text \<open>C18: Every state a sequence of control operations reaches from the initial one is consistent: the
  rows are the partitions 0 to n - 1 in order, and with machines and a replication factor each row
  names the head of its rendezvous ranking as primary and the following machines as replicas; so
  removing a partition never fails on an empty table.\<close>

theorem control_plane_consistent:
  assumes "crun NewControl es c"
  shows "1 \<le> NumPartitions c \<and> NumPartitions c = int (length (mp_Partitions (ct_m c)))
     \<and> map pm_ID (mp_Partitions (ct_m c)) = map of_nat [0..<length (mp_Partitions (ct_m c))]
     \<and> (replicating c \<longrightarrow> (\<forall>p \<in> set (mp_Partitions (ct_m c)).
          pm_Primary p # pm_Replicas p = preference (ct_machines c) (mp_Replicas (ct_m c)) (pm_ID p)))
     \<and> RemovePartition c \<noteq> None"
proof -
  have c: "ctl_ok c" using crun_ok [OF assms NewControl_ok] .
  then have "RemovePartition c \<noteq> None" by (rule RemovePartition_cases) auto
  moreover have "1 \<le> NumPartitions c" "NumPartitions c = int (length (mp_Partitions (ct_m c)))"
    using c by (auto simp: ctl_ok_def rows_ok_def NumPartitions_def Suc_le_eq)
  ultimately show ?thesis using c by (simp add: ctl_ok_def rows_ok_def placed_def)
qed

text \<open>A host without a pin: its owner is in the fleet, and the jump hash moves it only to or from the last
  partition.\<close>

lemma resize_unpinned:
  assumes "crun NewControl es c" "NumPartitions c + 2 < 2 ^ 32" "mget (mp_Overrides (ct_m c)) hk = None"
  shows "(\<exists>p. Owner (ct_m c) hk = Some p \<and> uint p < NumPartitions c)
     \<and> Owner (ct_m (snd (AddPartition a c))) hk \<in> {Owner (ct_m c) hk, Some (fst (AddPartition a c))}
     \<and> (\<forall>r c'. RemovePartition c = Some ((r, True), c') \<longrightarrow> Owner (ct_m c) hk \<noteq> Some r \<longrightarrow>
          Owner (ct_m c') hk = Owner (ct_m c) hk)"
proof (intro conjI allI impI)
  have c: "ctl_ok c" using crun_ok [OF assms(1) NewControl_ok] .
  have n: "1 \<le> NumPartitions c" using c by (auto simp: ctl_ok_def rows_ok_def NumPartitions_def Suc_le_eq)
  show "\<exists>p. Owner (ct_m c) hk = Some p \<and> uint p < NumPartitions c"
    using Owner_total [of "ct_m c" hk] n assms(2,3) by (auto simp: NumPartitions_def)
  have grown: "mp_NumPartitions (ct_m (snd (AddPartition a c))) = NumPartitions c + 1"
    "mp_Overrides (ct_m (snd (AddPartition a c))) = mp_Overrides (ct_m c)" "NumPartitions c + 1 < 2 ^ 32"
    using AddPartition_ok(3,4) [OF c, of a] assms(2) by (simp_all add: NumPartitions_def)
  from Owner_grow [OF n grown(3) assms(3) _ grown(1,2)]
  obtain r r' where "Owner (ct_m c) hk = Some (word_of_int r)" "Owner (ct_m (snd (AddPartition a c))) hk = Some (word_of_int r')"
    "r' = r \<or> r' = NumPartitions c" by (auto simp: NumPartitions_def)
  then show "Owner (ct_m (snd (AddPartition a c))) hk \<in> {Owner (ct_m c) hk, Some (fst (AddPartition a c))}"
    using AddPartition_ok(2) [OF c, of a] by auto
  fix r c' assume rm: "RemovePartition c = Some ((r, True), c')" and other: "Owner (ct_m c) hk \<noteq> Some r"
  from c show "Owner (ct_m c') hk = Owner (ct_m c) hk"
  proof (rule RemovePartition_cases)
    fix c'' assume l: "NumPartitions c > 1" "RemovePartition c = Some ((word_of_int (NumPartitions c - 1), True), c'')"
      "NumPartitions c'' = NumPartitions c - 1" "mp_Overrides (ct_m c'') = mp_Overrides (ct_m c)"
    then have eq: "r = word_of_int (NumPartitions c - 1)" "mget (mp_Overrides (ct_m c')) hk = None"
      "mp_NumPartitions (ct_m c') = NumPartitions c - 1" "mp_NumPartitions (ct_m c) = NumPartitions c - 1 + 1"
      "mp_Overrides (ct_m c) = mp_Overrides (ct_m c')" "1 \<le> NumPartitions c - 1" "NumPartitions c - 1 + 1 < 2 ^ 32"
      using rm assms(2,3) by (simp_all add: NumPartitions_def)
    from Owner_grow [OF eq(6,7,2,3,4,5)] other eq(1) show ?thesis by auto
  qed (use rm in simp)
qed

text \<open>A pin is the owner, whatever partition it names, and a resize keeps the pins.\<close>

lemma resize_pinned:
  assumes "crun NewControl es c" "mget (mp_Overrides (ct_m c)) hk = Some p"
  shows "Owner (ct_m c) hk = Some p \<and> Owner (ct_m (snd (AddPartition a c))) hk = Some p
     \<and> (\<forall>r c'. RemovePartition c = Some (r, c') \<longrightarrow> Owner (ct_m c') hk = Some p)"
proof -
  have c: "ctl_ok c" using crun_ok [OF assms(1) NewControl_ok] .
  have "mp_Overrides (ct_m c') = mp_Overrides (ct_m c)" if "RemovePartition c = Some (r, c')" for r c'
    using c by (rule RemovePartition_cases) (use that in auto)
  then show ?thesis using AddPartition_ok(4) [OF c, of a] assms(2) by (auto simp: Owner_def)
qed

text \<open>C19: Minimal movement: when a partition is added, a host either keeps its owner or moves to the new
  partition, and when the last partition is removed every host it did not own keeps its owner.  The owner
  of a host without a pin always exists and is one of the fleet.  A pinned host is owned by its pin before
  and after any resize; a pin is not checked against the fleet, so it may name a partition that was never
  there or has been removed.\<close>

theorem resize_moves_only_last_partition:
  assumes "crun NewControl es c" "NumPartitions c + 2 < 2 ^ 32"
  shows "(case mget (mp_Overrides (ct_m c)) hk of
        None \<Rightarrow> (\<exists>p. Owner (ct_m c) hk = Some p \<and> uint p < NumPartitions c)
          \<and> Owner (ct_m (snd (AddPartition a c))) hk \<in> {Owner (ct_m c) hk, Some (fst (AddPartition a c))}
          \<and> (\<forall>r c'. RemovePartition c = Some ((r, True), c') \<longrightarrow> Owner (ct_m c) hk \<noteq> Some r \<longrightarrow>
               Owner (ct_m c') hk = Owner (ct_m c) hk)
      | Some p \<Rightarrow> Owner (ct_m c) hk = Some p \<and> Owner (ct_m (snd (AddPartition a c))) hk = Some p
          \<and> (\<forall>r c'. RemovePartition c = Some (r, c') \<longrightarrow> Owner (ct_m c') hk = Some p))"
  using resize_unpinned [OF assms, of hk a] resize_pinned [OF assms(1), of hk _ a]
  by (cases "mget (mp_Overrides (ct_m c)) hk") auto

text \<open>C20: Failover: losing a machine moves exactly the partitions it was primary of, each to the first of
  its replicas; every other partition keeps its primary.  (Machine ids are distinct, another machine
  is left, and the loss does not change whether the fleet is weighted.)\<close>

theorem failover_promotes_first_replica:
  assumes "crun NewControl es c" "NumPartitions c < 2 ^ 32" "replicating c" "distinct (map mc_ID (ct_machines c))"
    and "x \<in> mc_ID ` set (ct_machines c)" "\<exists>m \<in> set (ct_machines c). mc_ID m \<noteq> x"
    and "isWeighted (filter (\<lambda>m. mc_ID m \<noteq> x) (ct_machines c)) = isWeighted (ct_machines c)"
  shows "fst (FailMachine x c) = map pm_ID (filter (\<lambda>p. pm_Primary p = x) (mp_Partitions (ct_m c)))
     \<and> list_all2 (promotion x) (mp_Partitions (ct_m c)) (mp_Partitions (ct_m (snd (FailMachine x c))))
     \<and> (\<forall>p \<in> set (mp_Partitions (ct_m (snd (FailMachine x c)))). pm_Primary p \<noteq> x)"
proof -
  let ?ps = "mp_Partitions (ct_m c)" and ?ms = "filter (\<lambda>m. mc_ID m \<noteq> x) (ct_machines c)"
  let ?f = "\<lambda>i. case mget (rev (map (\<lambda>p. (pm_ID p, pm_Primary p)) ?ps)) i of Some m \<Rightarrow> m | None \<Rightarrow> 0"
  define c1 where "c1 = replace (c\<lparr> ct_machines := ?ms \<rparr>)"
  have c: "ctl_ok c" using crun_ok [OF assms(1) NewControl_ok] .
  have rows: "list_all2 (promotion x) ?ps (mp_Partitions (ct_m c1))"
    using failed_rows [OF c assms(3,4,6,7) c1_def] .
  have "length ?ms < length (ct_machines c)"
    using assms(5) by (auto intro!: length_filter_less)
  then have fail: "FailMachine x c = (map pm_ID (filter (\<lambda>p. pm_Primary p \<noteq> ?f (pm_ID p)) (mp_Partitions (ct_m c1))), bump c1)"
    by (simp add: FailMachine_def Let_def c1_def)
  have dist: "distinct (pm_Primary p # pm_Replicas p) \<and> pm_Replicas p \<noteq> []" if "p \<in> set ?ps" "pm_Primary p = x" for p
  proof -
    have old: "preference (ct_machines c) (mp_Replicas (ct_m c)) (pm_ID p) = pm_Primary p # pm_Replicas p"
      and n: "mp_Replicas (ct_m c) > 0"
      using that(1) c assms(3) by (simp_all add: ctl_ok_def placed_def replicating_def)
    show ?thesis
      using preference_distinct [OF assms(4), of "mp_Replicas (ct_m c)" "pm_ID p"] preference_replica [OF old n] assms(6) that(2)
      unfolding old by auto
  qed
  then have hd: "\<forall>p \<in> set ?ps. pm_Primary p = x \<longrightarrow> hd (pm_Replicas p) \<noteq> x"
    by (metis distinct.simps(2) hd_in_set)
  have "distinct (map fst (rev (map (\<lambda>p. (pm_ID p, pm_Primary p)) ?ps)))"
    using rows_distinct [OF c assms(2)] by (simp add: o_def flip: rev_map)
  then have "\<forall>p \<in> set ?ps. ?f (pm_ID p) = pm_Primary p"
    by (auto dest!: map_of_is_SomeI [of _ _ "pm_Primary _"])
  from promoted_ids [OF rows this hd] have "fst (FailMachine x c) = map pm_ID (filter (\<lambda>p. pm_Primary p = x) ?ps)"
    by (simp add: fail)
  moreover have "\<forall>p' \<in> set (mp_Partitions (ct_m c1)). pm_Primary p' \<noteq> x"
    using promotion_avoids [OF rows hd] .
  ultimately show ?thesis using rows by (simp add: fail)
qed

section \<open>The scaling loop is bounded and damped\<close>

fun ticks :: "(Control \<Rightarrow> int list) list \<Rightarrow> Elasticity \<Rightarrow> (Scale list \<times> Elasticity) option" where
  "ticks [] e = Some ([], e)"
| "ticks (src # srcs) e =
     (case Tick src e of
        None \<Rightarrow> None
      | Some (s, e1) \<Rightarrow> (case ticks srcs e1 of None \<Rightarrow> None | Some (ss, e2) \<Rightarrow> Some (s # ss, e2)))"

text \<open>The loop's own state: streaks and cooldown are counters, at most one streak is running, and none
  survives a cooldown.\<close>

definition el_ok :: "Elasticity \<Rightarrow> bool" where
  "el_ok e \<longleftrightarrow> ctl_ok (el_ctl e) \<and> 1 \<le> ec_Breaches (el_cfg e) \<and> 1 \<le> ec_MinPartitions (el_cfg e)
     \<and> ec_MinPartitions (el_cfg e) \<le> NumPartitions (el_ctl e) \<and> NumPartitions (el_ctl e) \<le> ec_MaxPartitions (el_cfg e)"

lemma count_streaks_fields [simp]:
  "el_cfg (count_streaks l e) = el_cfg e" "el_ctl (count_streaks l e) = el_ctl e" "el_cooldown (count_streaks l e) = el_cooldown e"
  by (simp_all add: count_streaks_def)

lemma count_streaks_grow:
  assumes "0 \<le> el_highStreak e" "0 \<le> el_lowStreak e"
  shows "0 \<le> el_highStreak (count_streaks l e)" "0 \<le> el_lowStreak (count_streaks l e)"
    "el_highStreak (count_streaks l e) \<le> el_highStreak e + 1" "el_lowStreak (count_streaks l e) \<le> el_lowStreak e + 1"
  using assms by (simp_all add: count_streaks_def)

text \<open>How many more ticks must pass, at least, before the loop can act.\<close>

definition quiet_for :: "Elasticity \<Rightarrow> int" where
  "quiet_for e =
     (if el_cooldown e > 0 then el_cooldown e + ec_Breaches (el_cfg e)
      else ec_Breaches (el_cfg e) - max (el_highStreak e) (el_lowStreak e))"

lemma Tick_spec:
  assumes "el_ok e" "0 \<le> el_highStreak e" "0 \<le> el_lowStreak e"
  shows "\<exists>s e'. Tick src e = Some (s, e') \<and> el_ok e' \<and> el_cfg e' = el_cfg e
     \<and> 0 \<le> el_highStreak e' \<and> 0 \<le> el_lowStreak e'
     \<and> (s = ScaleHold \<longrightarrow> quiet_for e - 1 \<le> quiet_for e')
     \<and> (s \<noteq> ScaleHold \<longrightarrow> quiet_for e \<le> 1 \<and> ec_Breaches (el_cfg e) + max 0 (ec_Cooldown (el_cfg e)) \<le> quiet_for e')"
proof -
  have c: "ctl_ok (el_ctl e)" using assms(1) by (simp add: el_ok_def)
  note g = count_streaks_grow [OF assms(2,3), of "meanBacklog (src (el_ctl e))"]
  let ?e1 = "count_streaks (meanBacklog (src (el_ctl e))) e"
  consider (cool) "el_cooldown e > 0"
    | (up) "\<not> el_cooldown e > 0" "el_highStreak ?e1 \<ge> ec_Breaches (el_cfg e)" "NumPartitions (el_ctl e) < ec_MaxPartitions (el_cfg e)"
    | (down) "\<not> el_cooldown e > 0" "\<not> (el_highStreak ?e1 \<ge> ec_Breaches (el_cfg e) \<and> NumPartitions (el_ctl e) < ec_MaxPartitions (el_cfg e))"
        "el_lowStreak ?e1 \<ge> ec_Breaches (el_cfg e)" "NumPartitions (el_ctl e) > ec_MinPartitions (el_cfg e)"
    | (hold) "\<not> el_cooldown e > 0" "\<not> (el_highStreak ?e1 \<ge> ec_Breaches (el_cfg e) \<and> NumPartitions (el_ctl e) < ec_MaxPartitions (el_cfg e))"
        "\<not> (el_lowStreak ?e1 \<ge> ec_Breaches (el_cfg e) \<and> NumPartitions (el_ctl e) > ec_MinPartitions (el_cfg e))"
    by blast
  then show ?thesis
  proof cases
    case cool
    then show ?thesis using assms(1) by (auto simp: Tick_def el_ok_def quiet_for_def)
  next
    case up
    then show ?thesis
      using assms g AddPartition_ok(1,3) [OF c, of "[]"]
      by (auto simp: Tick_def Let_def el_ok_def afterAction_def quiet_for_def)
  next
    case down
    then have "NumPartitions (el_ctl e) > 1" using assms(1) by (simp add: el_ok_def)
    from RemovePartition_ok [OF c this] obtain c' where
      "RemovePartition (el_ctl e) = Some ((word_of_int (NumPartitions (el_ctl e) - 1), True), c')" "ctl_ok c'"
      "NumPartitions c' = NumPartitions (el_ctl e) - 1" by blast
    with down show ?thesis
      using assms g by (auto simp: Tick_def Let_def el_ok_def afterAction_def quiet_for_def)
  next
    case hold
    then show ?thesis using assms g by (auto simp: Tick_def Let_def el_ok_def quiet_for_def)
  qed
qed

lemma ticks_spec:
  assumes "el_ok e" "0 \<le> el_highStreak e" "0 \<le> el_lowStreak e"
  shows "\<exists>ss e'. ticks srcs e = Some (ss, e') \<and> length ss = length srcs \<and> el_ok e' \<and> el_cfg e' = el_cfg e
     \<and> (\<forall>j < length ss. ss ! j \<noteq> ScaleHold \<longrightarrow> quiet_for e \<le> int j + 1)
     \<and> (\<forall>i j. i < j \<longrightarrow> j < length ss \<longrightarrow> ss ! i \<noteq> ScaleHold \<longrightarrow> ss ! j \<noteq> ScaleHold \<longrightarrow>
          ec_Breaches (el_cfg e) + max 0 (ec_Cooldown (el_cfg e)) \<le> int (j - i))"
  using assms
proof (induction srcs arbitrary: e)
  case (Cons src srcs)
  from Tick_spec [OF Cons.prems, of src] obtain s e1 where
    t: "Tick src e = Some (s, e1)" "el_ok e1" "el_cfg e1 = el_cfg e" "0 \<le> el_highStreak e1" "0 \<le> el_lowStreak e1"
      "s = ScaleHold \<longrightarrow> quiet_for e - 1 \<le> quiet_for e1"
      "s \<noteq> ScaleHold \<longrightarrow> quiet_for e \<le> 1 \<and> ec_Breaches (el_cfg e) + max 0 (ec_Cooldown (el_cfg e)) \<le> quiet_for e1"
    by blast
  from Cons.IH [OF t(2,4,5)] obtain ss e' where
    r: "ticks srcs e1 = Some (ss, e')" "length ss = length srcs" "el_ok e'" "el_cfg e' = el_cfg e1"
      "\<forall>j < length ss. ss ! j \<noteq> ScaleHold \<longrightarrow> quiet_for e1 \<le> int j + 1"
      "\<forall>i j. i < j \<longrightarrow> j < length ss \<longrightarrow> ss ! i \<noteq> ScaleHold \<longrightarrow> ss ! j \<noteq> ScaleHold \<longrightarrow>
          ec_Breaches (el_cfg e1) + max 0 (ec_Cooldown (el_cfg e1)) \<le> int (j - i)"
    by blast
  have first: "quiet_for e \<le> int j + 1" if j: "j < length (s # ss)" "(s # ss) ! j \<noteq> ScaleHold" for j
  proof (cases j)
    case 0
    then show ?thesis using that t(7) by simp
  next
    case (Suc k)
    then show ?thesis
    proof (cases "s = ScaleHold")
      case True
      then show ?thesis using Suc j r(5) t(6) by fastforce
    next
      case False
      then show ?thesis using Suc t(7) by simp
    qed
  qed
  have gap: "ec_Breaches (el_cfg e) + max 0 (ec_Cooldown (el_cfg e)) \<le> int (j - i)"
    if ij: "i < j" "j < length (s # ss)" "(s # ss) ! i \<noteq> ScaleHold" "(s # ss) ! j \<noteq> ScaleHold" for i j
  proof -
    from ij obtain k where k: "j = Suc k" by (cases j) auto
    show ?thesis
    proof (cases i)
      case 0
      then show ?thesis using ij k r(5) t(7) by fastforce
    next
      case (Suc l)
      then show ?thesis using ij k r(6) t(3) by simp
    qed
  qed
  show ?case using t(1,3) r(1-4) first gap by simp
qed simp

lemma NewElasticity_ok:
  assumes "ctl_ok ctl" "ec_MinPartitions (el_cfg (NewElasticity ctl cfg)) \<le> NumPartitions ctl"
    "NumPartitions ctl \<le> ec_MaxPartitions (el_cfg (NewElasticity ctl cfg))"
  shows "el_ok (NewElasticity ctl cfg)" "el_highStreak (NewElasticity ctl cfg) = 0" "el_lowStreak (NewElasticity ctl cfg) = 0"
  using assms by (auto simp: NewElasticity_def el_ok_def Let_def split: if_splits)

text \<open>The scaling loop over any sequence of backlog reports: it never fails, keeps the number of
  partitions between the configured bounds, and any two resizes are at least the cooldown plus the
  confirmation window apart.\<close>

theorem scaling_bounded_and_damped:
  fixes cfg :: ElasticityConfig
  assumes "crun NewControl es ctl" and "e = NewElasticity ctl cfg"
    and "ec_MinPartitions (el_cfg e) \<le> NumPartitions ctl" "NumPartitions ctl \<le> ec_MaxPartitions (el_cfg e)"
  shows "\<exists>ss e'. ticks srcs e = Some (ss, e')
     \<and> ec_MinPartitions (el_cfg e) \<le> NumPartitions (el_ctl e') \<and> NumPartitions (el_ctl e') \<le> ec_MaxPartitions (el_cfg e)
     \<and> (\<forall>i j. i < j \<longrightarrow> j < length ss \<longrightarrow> ss ! i \<noteq> ScaleHold \<longrightarrow> ss ! j \<noteq> ScaleHold \<longrightarrow>
          ec_Breaches (el_cfg e) + max 0 (ec_Cooldown (el_cfg e)) \<le> int (j - i))"
proof -
  have "ctl_ok ctl" using crun_ok [OF assms(1) NewControl_ok] .
  from NewElasticity_ok [OF this, of cfg] assms(2-4) have "el_ok e" "0 \<le> el_highStreak e" "0 \<le> el_lowStreak e" by simp_all
  from ticks_spec [OF this, of srcs] obtain ss e' where
    "ticks srcs e = Some (ss, e')" "el_ok e'" "el_cfg e' = el_cfg e"
    "\<forall>i j. i < j \<longrightarrow> j < length ss \<longrightarrow> ss ! i \<noteq> ScaleHold \<longrightarrow> ss ! j \<noteq> ScaleHold \<longrightarrow>
          ec_Breaches (el_cfg e) + max 0 (ec_Cooldown (el_cfg e)) \<le> int (j - i)" by blast
  then show ?thesis by (auto simp: el_ok_def)
qed

section \<open>Witnesses\<close>

text \<open>A fleet of two machines and two partitions with one replica each.\<close>

definition demo_fleet :: Control where
  "demo_fleet = snd (AddPartition ''b'' (SetReplicas 1 (SetMachines
     [\<lparr> mc_ID = 7, mc_Weight = 1, mc_Address = ''x'' \<rparr>, \<lparr> mc_ID = 9, mc_Weight = 1, mc_Address = ''y'' \<rparr>] NewControl)))"

lemma demo_fleet_run:
  "crun NewControl [EMachines [\<lparr> mc_ID = 7, mc_Weight = 1, mc_Address = ''x'' \<rparr>, \<lparr> mc_ID = 9, mc_Weight = 1, mc_Address = ''y'' \<rparr>],
     EReplicas 1, EAdd ''b''] demo_fleet"
  unfolding demo_fleet_def
  by (rule crun_Cons [OF cstep.intros(2)], rule crun_Cons [OF cstep.intros(1)], rule crun_Cons [OF cstep.intros(3)], rule crun_Nil)

lemma demo_fleet_fields:
  "NumPartitions demo_fleet = 2" "mp_Replicas (ct_m demo_fleet) = 1" "mp_Overrides (ct_m demo_fleet) = []"
  "ct_machines demo_fleet = [\<lparr> mc_ID = 7, mc_Weight = 1, mc_Address = ''x'' \<rparr>, \<lparr> mc_ID = 9, mc_Weight = 1, mc_Address = ''y'' \<rparr>]"
  by (simp_all add: demo_fleet_def AddPartition_def Let_def SetReplicas_def SetMachines_def NumPartitions_def NewControl_def)

theorem control_plane_consistent_witness:
  "1 \<le> NumPartitions demo_fleet \<and> RemovePartition demo_fleet \<noteq> None"
  using control_plane_consistent [OF demo_fleet_run] by blast

theorem resize_moves_only_last_partition_witness:
  "Owner (ct_m (snd (AddPartition ''c'' demo_fleet))) 5 \<in> {Owner (ct_m demo_fleet) 5, Some (fst (AddPartition ''c'' demo_fleet))}"
  using resize_moves_only_last_partition [OF demo_fleet_run, of 5 "''c''"] by (simp add: demo_fleet_fields)

theorem failover_promotes_first_replica_witness:
  "fst (FailMachine 7 demo_fleet) = map pm_ID (filter (\<lambda>p. pm_Primary p = 7) (mp_Partitions (ct_m demo_fleet)))
   \<and> list_all (\<lambda>p. pm_Primary p \<noteq> 7) (mp_Partitions (ct_m (snd (FailMachine 7 demo_fleet))))"
  using failover_promotes_first_replica [OF demo_fleet_run, of 7]
  by (simp add: demo_fleet_fields replicating_def isWeighted_def list_all_iff)

theorem scaling_bounded_and_damped_witness:
  "\<exists>ss e'. ticks (replicate 5 (\<lambda>c. [9, 9])) (NewElasticity demo_fleet \<lparr> ec_HighWater = 4, ec_LowWater = 1,
       ec_MinPartitions = 1, ec_MaxPartitions = 3, ec_Breaches = 2, ec_Cooldown = 1 \<rparr>) = Some (ss, e') \<and> NumPartitions (el_ctl e') \<le> 3"
  using scaling_bounded_and_damped [OF demo_fleet_run, of _ "\<lparr> ec_HighWater = 4, ec_LowWater = 1,
       ec_MinPartitions = 1, ec_MaxPartitions = 3, ec_Breaches = 2, ec_Cooldown = 1 \<rparr>" "replicate 5 (\<lambda>c. [9, 9])", OF refl]
  by (fastforce simp: demo_fleet_fields NewElasticity_def)

section \<open>Health\<close>

lemma misses_accumulate:
  "misses_of pid (((\<lambda>c. snd (MissHeartbeat pid c)) ^^ k) c) = misses_of pid c + int k
   \<and> ct_failThreshold (((\<lambda>c. snd (MissHeartbeat pid c)) ^^ k) c) = ct_failThreshold c"
proof (induction k)
  case (Suc k)
  have "misses_of pid (change_health p h c') = misses_of pid c'" "ct_failThreshold (change_health p h c') = ct_failThreshold c'" for p h c'
    by (simp_all add: change_health_def misses_of_def put_health_def split: option.splits)
  with Suc show ?case by (simp add: MissHeartbeat_def Let_def) (simp add: misses_of_def)
qed simp

text \<open>After a heartbeat the first missed beats degrade a partition and the one that completes the
  threshold fails it.\<close>

theorem missed_beats_fail_at_threshold:
  "fst (MissHeartbeat pid (((\<lambda>c. snd (MissHeartbeat pid c)) ^^ k) (Heartbeat pid c)))
     = (if int k + 1 \<ge> ct_failThreshold c then Failed else Degraded)"
proof -
  have "misses_of pid (Heartbeat pid c) = 0" "ct_failThreshold (Heartbeat pid c) = ct_failThreshold c"
    by (simp_all add: Heartbeat_def heartbeatLocked_def change_health_def misses_of_def put_health_def split: option.splits)
  then show ?thesis
    using misses_accumulate [of pid k "Heartbeat pid c"] by (simp add: MissHeartbeat_def Let_def) (simp add: misses_of_def)
qed

text \<open>A heartbeat also revives a partition that is draining on purpose, because every health other
  than alive counts as down.\<close>

theorem heartbeat_cancels_draining:
  "map pm_Health (mp_Partitions (ct_m (Heartbeat 0 (SetHealth 0 Draining NewControl)))) = [Alive]"
  by (simp add: Heartbeat_def heartbeatLocked_def change_health_def SetHealth_def row_of_def put_health_def
      NewControl_def newPartition_def bump_def)

text \<open>Removing a partition forgets its backlog but not its missed beats: a partition added later under
  the same id fails at its first missed beat.\<close>

theorem readded_partition_inherits_misses:
  assumes "c = snd (AddPartition [] NewControl)" "c2 = ((\<lambda>c. snd (MissHeartbeat 1 c)) ^^ 2) c"
    and "RemovePartition c2 = Some (r, c3)"
  shows "fst (MissHeartbeat 1 (snd (AddPartition [] c3))) = Failed"
proof -
  have "ct_failThreshold c = 3" "misses_of 1 c = 0"
    by (simp_all add: assms(1) AddPartition_def Let_def NewControl_def DefaultFailThreshold_def misses_of_def)
  with misses_accumulate [of 1 2 c] have "misses_of 1 c2 = 2" "ct_failThreshold c2 = 3" by (simp_all add: assms(2))
  moreover have "misses_of 1 (snd (AddPartition [] c3)) = misses_of 1 c2" "ct_failThreshold (snd (AddPartition [] c3)) = ct_failThreshold c2"
    using assms(3) by (auto simp: AddPartition_def RemovePartition_def Let_def misses_of_def split: if_splits)
  ultimately show ?thesis by (simp add: MissHeartbeat_def Let_def) (simp add: misses_of_def)
qed

text \<open>Recording the machines moves primaries and addresses without a new epoch.\<close>

theorem placement_change_keeps_epoch: "mp_Epoch (ct_m (SetMachines ms c)) = mp_Epoch (ct_m c)"
  by (simp add: SetMachines_def)

end
