(* ===== verification/Router.thy ===== *)
theory Router
  imports Control "HOL-Library.Monad_Syntax"
begin

text \<open>
  Routing between partitions: the discovery router of \<^verbatim>\<open>distribute/router.go\<close> with the batcher and the
  in-process channel of \<^verbatim>\<open>distribute/transport.go\<close>, and the signal router of \<^verbatim>\<open>distribute/signal.go\<close>.

  The transport is an interface: the router's definitions take its \<^verbatim>\<open>Send\<close> and \<^verbatim>\<open>Recv\<close> as arguments, the
  locale \<open>transport\<close> states what the router relies on, and the channel transport is its instance.  A
  send on a full channel blocks the producer, which is \<open>None\<close> here; a send that returns an error is
  \<open>Some (False, _)\<close>.  The order in which \<^verbatim>\<open>range\<close> visits a map is an argument.
\<close>

section \<open>The channel transport\<close>

record 'b chanTransport =
  ch_chans :: "(u32, 'b list) gomap"
  ch_cap :: int

definition newChanTransport :: "int \<Rightarrow> 'b chanTransport" where
  "newChanTransport depth = \<lparr> ch_chans = [], ch_cap = (if depth < 1 then 1 else depth) \<rparr>"

definition chanFor :: "u32 \<Rightarrow> 'b chanTransport \<Rightarrow> 'b list \<times> 'b chanTransport" where
  "chanFor p t =
     (case mget (ch_chans t) p of
        Some q \<Rightarrow> (q, t)
      | None \<Rightarrow> ([], t\<lparr> ch_chans := mput p [] (ch_chans t) \<rparr>))"

definition chan_push :: "u32 \<Rightarrow> 'b \<Rightarrow> 'b chanTransport \<Rightarrow> 'b chanTransport option" where
  "chan_push to x t =
     (let (q, t1) = chanFor to t in
      if int (length q) < ch_cap t1 then Some (t1\<lparr> ch_chans := mput to (q @ [x]) (ch_chans t1) \<rparr>) else None)"

definition chan_pop :: "u32 \<Rightarrow> 'b chanTransport \<Rightarrow> 'b option \<times> 'b chanTransport" where
  "chan_pop self t =
     (let (q, t1) = chanFor self t in
      case q of [] \<Rightarrow> (None, t1) | x # xs \<Rightarrow> (Some x, t1\<lparr> ch_chans := mput self xs (ch_chans t1) \<rparr>))"

definition chan_Send :: "u32 \<Rightarrow> Discovery list \<Rightarrow> Discovery list chanTransport \<Rightarrow> (bool \<times> Discovery list chanTransport) option" where
  "chan_Send to batch t = (if batch = [] then Some (True, t) else map_option (Pair True) (chan_push to batch t))"

text \<open>A receive of the interface may panic; this one does not.\<close>

definition chan_Recv :: "u32 \<Rightarrow> Discovery list chanTransport \<Rightarrow> (Discovery list option \<times> Discovery list chanTransport) option" where
  "chan_Recv self t = Some (chan_pop self t)"

section \<open>The batcher\<close>

record batcher =
  b_maxSize :: int
  b_pending :: "(u32, Discovery list) gomap"

definition newBatcher :: "int \<Rightarrow> batcher" where
  "newBatcher maxSize = \<lparr> b_maxSize = (if maxSize < 1 then 1 else maxSize), b_pending = [] \<rparr>"

definition pending_of :: "batcher \<Rightarrow> u32 \<Rightarrow> Discovery list" where
  "pending_of b to = (case mget (b_pending b) to of Some ds \<Rightarrow> ds | None \<Rightarrow> [])"

type_synonym 't send = "u32 \<Rightarrow> Discovery list \<Rightarrow> 't \<Rightarrow> (bool \<times> 't) option"

definition flush :: "'t send \<Rightarrow> u32 \<Rightarrow> batcher \<Rightarrow> 't \<Rightarrow> (bool \<times> batcher \<times> 't) option" where
  "flush send to b t =
     (let batch = pending_of b to in
      if batch = [] then Some (True, b, t)
      else do {
        (ok, t1) \<leftarrow> send to batch t;
        Some (ok, b\<lparr> b_pending := mdel to (b_pending b) \<rparr>, t1)
      })"

definition batch_add :: "'t send \<Rightarrow> u32 \<Rightarrow> Discovery \<Rightarrow> batcher \<Rightarrow> 't \<Rightarrow> (bool \<times> batcher \<times> 't) option" where
  "batch_add send to d b t =
     (let b1 = b\<lparr> b_pending := mput to (pending_of b to @ [d]) (b_pending b) \<rparr> in
      if int (length (pending_of b1 to)) \<ge> b_maxSize b1 then flush send to b1 t else Some (True, b1, t))"

fun flushAll :: "'t send \<Rightarrow> u32 list \<Rightarrow> batcher \<Rightarrow> 't \<Rightarrow> (bool \<times> batcher \<times> 't) option" where
  "flushAll send [] b t = Some (True, b, t)"
| "flushAll send (to # order) b t = do {
     (ok, b1, t1) \<leftarrow> flush send to b t;
     if ok then flushAll send order b1 t1 else Some (False, b1, t1)
   }"

section \<open>The router\<close>

record Router =
  r_self :: u32
  r_cur :: Map
  r_size :: int
  r_bat :: batcher

definition NewRouter :: "u32 \<Rightarrow> Map \<Rightarrow> int \<Rightarrow> Router" where
  "NewRouter self init batchSize = \<lparr> r_self = self, r_cur = init, r_size = batchSize, r_bat = newBatcher batchSize \<rparr>"

definition Router_Owner :: "Router \<Rightarrow> u64 \<Rightarrow> u32 option" where
  "Router_Owner r hostKey = Owner (r_cur r) hostKey"

definition Local :: "Router \<Rightarrow> Discovery \<Rightarrow> bool option" where
  "Local r d = map_option (\<lambda>p. p = r_self r) (Owner (r_cur r) (HostKey (d_URLKey d)))"

definition SwapMap :: "Map \<Rightarrow> Router \<Rightarrow> bool \<times> Router" where
  "SwapMap nxt r = (if mp_Epoch nxt \<le> mp_Epoch (r_cur r) then (False, r) else (True, r\<lparr> r_cur := nxt \<rparr>))"

fun route_loop :: "'t send \<Rightarrow> u32 \<Rightarrow> Map \<Rightarrow> Discovery list \<Rightarrow> batcher \<Rightarrow> 't \<Rightarrow> ((Discovery list \<times> bool) \<times> batcher \<times> 't) option" where
  "route_loop send self mp [] b t = Some (([], True), b, t)"
| "route_loop send self mp (d # links) b t = do {
     owner \<leftarrow> Owner mp (HostKey (d_URLKey d));
     if owner = self then do {
       ((loc, ok), b1, t1) \<leftarrow> route_loop send self mp links b t;
       Some ((d # loc, ok), b1, t1)
     }
     else do {
       (ok, b1, t1) \<leftarrow> batch_add send owner d b t;
       if ok then route_loop send self mp links b1 t1 else Some (([], False), b1, t1)
     }
   }"

definition RouteLinks :: "'t send \<Rightarrow> Discovery list \<Rightarrow> Router \<Rightarrow> 't \<Rightarrow> ((Discovery list \<times> bool) \<times> Router \<times> 't) option" where
  "RouteLinks send links r t = do {
     (res, b, t1) \<leftarrow> route_loop send (r_self r) (r_cur r) links (r_bat r) t;
     Some (res, r\<lparr> r_bat := b \<rparr>, t1)
   }"

definition Flush :: "'t send \<Rightarrow> u32 list \<Rightarrow> Router \<Rightarrow> 't \<Rightarrow> (bool \<times> Router \<times> 't) option" where
  "Flush send order r t = do {
     (ok, b, t1) \<leftarrow> flushAll send order (r_bat r) t;
     Some (ok, r\<lparr> r_bat := b \<rparr>, t1)
   }"

type_synonym 't recv = "u32 \<Rightarrow> 't \<Rightarrow> (Discovery list option \<times> 't) option"

partial_function (option) Router_Drain :: "'t recv \<Rightarrow> u32 \<Rightarrow> 't \<Rightarrow> (Discovery list \<times> 't) option" where
  "Router_Drain recv self t =
     do {
       x \<leftarrow> recv self t;
       case fst x of
         None \<Rightarrow> Some ([], snd x)
       | Some batch \<Rightarrow> do { r \<leftarrow> Router_Drain recv self (snd x); Some (batch @ fst r, snd r) }
     }"

declare Router_Drain.simps [code]

section \<open>What the router relies on\<close>

text \<open>\<open>queued t p\<close> are the discoveries on their way to \<open>p\<close>, in order, and \<open>depth t p\<close> the number of
  messages they travel in.\<close>

locale transport =
  fixes send :: "u32 \<Rightarrow> Discovery list \<Rightarrow> 't \<Rightarrow> (bool \<times> 't) option"
    and recv :: "u32 \<Rightarrow> 't \<Rightarrow> (Discovery list option \<times> 't) option"
    and queued :: "'t \<Rightarrow> u32 \<Rightarrow> Discovery list" and depth :: "'t \<Rightarrow> u32 \<Rightarrow> nat"
  assumes send_queued: "send to b t = Some (True, t') \<Longrightarrow> queued t' p = (if p = to then queued t p @ b else queued t p)"
    and recv_total: "\<exists>x t'. recv p t = Some (x, t')"
    and recv_Some: "recv p t = Some (Some b, t') \<Longrightarrow> queued t p = b @ queued t' p \<and> depth t' p < depth t p"
    and recv_other: "recv p t = Some (x, t') \<Longrightarrow> q \<noteq> p \<Longrightarrow> queued t' q = queued t q"
    and recv_None: "recv p t = Some (None, t') \<Longrightarrow> queued t p = [] \<and> queued t' p = []"
begin

text \<open>What is on its way to a partition, in the channel or still in the batch.\<close>

definition carried :: "batcher \<Rightarrow> 't \<Rightarrow> u32 \<Rightarrow> Discovery list" where
  "carried b t p = queued t p @ pending_of b p"

lemma flush_carried:
  assumes "flush send to b t = Some (True, b', t')"
  shows "carried b' t' p = carried b t p" "pending_of b' p = (if p = to then [] else pending_of b p)"
    "b_maxSize b' = b_maxSize b"
proof -
  consider "pending_of b to = []" "b' = b" "t' = t"
    | "pending_of b to \<noteq> []" "send to (pending_of b to) t = Some (True, t')" "b' = b\<lparr> b_pending := mdel to (b_pending b) \<rparr>"
    using assms by (auto simp: flush_def Let_def split: if_splits Option.bind_splits)
  then have "carried b' t' p = carried b t p \<and> pending_of b' p = (if p = to then [] else pending_of b p)
    \<and> b_maxSize b' = b_maxSize b"
  proof cases
    case 2
    have "pending_of b' p = (if p = to then [] else pending_of b p)" using 2(3) by (simp add: pending_of_def)
    then show ?thesis using send_queued [OF 2(2), of p] 2(3) by (simp add: carried_def)
  qed simp
  then show "carried b' t' p = carried b t p" "pending_of b' p = (if p = to then [] else pending_of b p)"
    "b_maxSize b' = b_maxSize b" by simp_all
qed

lemma batch_add_carried:
  assumes "batch_add send to d b t = Some (True, b', t')"
  shows "carried b' t' p = (if p = to then carried b t p @ [d] else carried b t p)"
proof -
  let ?b1 = "b\<lparr> b_pending := mput to (pending_of b to @ [d]) (b_pending b) \<rparr>"
  have pend: "pending_of ?b1 q = (if q = to then pending_of b q @ [d] else pending_of b q)" for q
    by (simp add: pending_of_def)
  then have b1: "carried ?b1 t p = (if p = to then carried b t p @ [d] else carried b t p)"
    by (simp add: carried_def)
  show ?thesis
  proof (cases "int (length (pending_of ?b1 to)) \<ge> b_maxSize b")
    case True
    then have "flush send to ?b1 t = Some (True, b', t')" using assms by (simp add: batch_add_def Let_def)
    from flush_carried(1) [OF this] b1 show ?thesis by simp
  next
    case False
    then show ?thesis using assms b1 by (simp add: batch_add_def Let_def)
  qed
qed

lemma route_loop_carried:
  assumes "route_loop send self mp links b t = Some ((loc, True), b', t')"
  shows "loc = filter (\<lambda>d. Owner mp (HostKey (d_URLKey d)) = Some self) links
     \<and> (\<forall>p. p \<noteq> self \<longrightarrow> carried b' t' p = carried b t p @ filter (\<lambda>d. Owner mp (HostKey (d_URLKey d)) = Some p) links)
     \<and> carried b' t' self = carried b t self"
  using assms
proof (induction links arbitrary: loc b t)
  case (Cons d links)
  from Cons.prems obtain owner where o: "Owner mp (HostKey (d_URLKey d)) = Some owner"
    by (auto split: Option.bind_splits)
  show ?case
  proof (cases "owner = self")
    case True
    with o Cons.prems obtain loc' where l: "loc = d # loc'" "route_loop send self mp links b t = Some ((loc', True), b', t')"
      by (auto split: Option.bind_splits)
    from Cons.IH [OF l(2)] l(1) o True show ?thesis by auto
  next
    case False
    with o Cons.prems obtain b1 t1 where a: "batch_add send owner d b t = Some (True, b1, t1)"
      "route_loop send self mp links b1 t1 = Some ((loc, True), b', t')"
      by (auto split: Option.bind_splits if_splits)
    from Cons.IH [OF a(2)] batch_add_carried [OF a(1)] o False show ?thesis by auto
  qed
qed simp

lemma flushAll_carried:
  assumes "flushAll send order b t = Some (True, b', t')"
  shows "carried b' t' p = carried b t p" "p \<in> set order \<Longrightarrow> pending_of b' p = []"
    "pending_of b p = [] \<Longrightarrow> pending_of b' p = []"
proof -
  have "carried b' t' p = carried b t p \<and> (p \<in> set order \<or> pending_of b p = [] \<longrightarrow> pending_of b' p = [])"
    using assms
  proof (induction order arbitrary: b t)
    case (Cons to order)
    then obtain b1 t1 where f: "flush send to b t = Some (True, b1, t1)" "flushAll send order b1 t1 = Some (True, b', t')"
      by (auto split: Option.bind_splits if_splits)
    from Cons.IH [OF f(2)] flush_carried(1,2) [OF f(1), of p] show ?case by auto
  qed simp
  then show "carried b' t' p = carried b t p" "p \<in> set order \<Longrightarrow> pending_of b' p = []"
    "pending_of b p = [] \<Longrightarrow> pending_of b' p = []" by simp_all
qed

lemma Drain_all:
  "\<exists>t'. Router_Drain recv p t = Some (queued t p, t') \<and> queued t' p = [] \<and> (\<forall>q. q \<noteq> p \<longrightarrow> queued t' q = queued t q)"
proof (induction "depth t p" arbitrary: t rule: less_induct)
  case less
  obtain x t1 where r: "recv p t = Some (x, t1)" using recv_total by blast
  show ?case
  proof (cases x)
    case None
    then show ?thesis using recv_None recv_other r by (subst Router_Drain.simps) auto
  next
    case (Some b)
    then have b: "queued t p = b @ queued t1 p" "depth t1 p < depth t p" using recv_Some r by auto
    from less.hyps [OF b(2)] obtain t2 where
      t2: "Router_Drain recv p t1 = Some (queued t1 p, t2)" "queued t2 p = []" "\<forall>q. q \<noteq> p \<longrightarrow> queued t2 q = queued t1 q" by blast
    have "Router_Drain recv p t = Some (queued t p, t2)"
      by (subst Router_Drain.simps) (simp add: r Some t2(1) b(1))
    with t2 recv_other [OF r] show ?thesis by auto
  qed
qed

end

section \<open>The channel is such a transport\<close>

definition chan_queue :: "'b chanTransport \<Rightarrow> u32 \<Rightarrow> 'b list" where
  "chan_queue t p = (case mget (ch_chans t) p of Some q \<Rightarrow> q | None \<Rightarrow> [])"

lemma chan_push_queue:
  "chan_push to x t = (if int (length (chan_queue t to)) < ch_cap t
     then Some (t\<lparr> ch_chans := mput to (chan_queue t to @ [x]) (ch_chans (snd (chanFor to t))) \<rparr>) else None)"
  by (auto simp: chan_push_def chanFor_def chan_queue_def Let_def split: option.splits)

lemma chan_push_Some:
  assumes "chan_push to x t = Some t'"
  shows "chan_queue t' p = (if p = to then chan_queue t p @ [x] else chan_queue t p)"
  using assms by (auto simp: chan_push_queue chan_queue_def chanFor_def split: if_splits option.splits)

lemma chan_pop_cases:
  assumes "chan_pop self t = (y, t')"
  shows "(y = None \<and> chan_queue t self = [] \<or> (\<exists>x. y = Some x \<and> chan_queue t self = x # chan_queue t' self))
     \<and> (y = None \<longrightarrow> chan_queue t' self = []) \<and> (\<forall>q. q \<noteq> self \<longrightarrow> chan_queue t' q = chan_queue t q)"
  using assms by (auto simp: chan_pop_def chanFor_def chan_queue_def split: list.splits option.splits prod.splits)

interpretation chan: transport chan_Send chan_Recv "\<lambda>t p. concat (chan_queue t p)" "\<lambda>t p. length (chan_queue t p)"
proof unfold_locales
  fix to b t t' p
  assume "chan_Send to b t = Some (True, t')"
  then show "concat (chan_queue t' p) = (if p = to then concat (chan_queue t p) @ b else concat (chan_queue t p))"
    using chan_push_Some [of to b t t' p] by (auto simp: chan_Send_def split: if_splits)
next
  fix p t
  show "\<exists>x t'. chan_Recv p t = Some (x, t')" by (simp add: chan_Recv_def)
next
  fix p t b t'
  assume "chan_Recv p t = Some (Some b, t')"
  then show "concat (chan_queue t p) = b @ concat (chan_queue t' p) \<and> length (chan_queue t' p) < length (chan_queue t p)"
    using chan_pop_cases [of p t "Some b" t'] by (auto simp: chan_Recv_def)
next
  fix p t x t' q
  assume "chan_Recv p t = Some (x, t')" "q \<noteq> p"
  then show "concat (chan_queue t' q) = concat (chan_queue t q)"
    using chan_pop_cases [of p t x t'] by (auto simp: chan_Recv_def)
next
  fix p t t'
  assume "chan_Recv p t = Some (None, t')"
  then show "concat (chan_queue t p) = [] \<and> concat (chan_queue t' p) = []"
    using chan_pop_cases [of p t None t'] by (auto simp: chan_Recv_def)
qed

text \<open>A channel with room accepts; each message takes one place.\<close>

definition room :: "Discovery list chanTransport \<Rightarrow> nat \<Rightarrow> bool" where
  "room t n \<longleftrightarrow> (\<forall>p. int (length (chan_queue t p) + n) \<le> ch_cap t)"

lemma room_less:
  assumes "room t (Suc n)"
  shows "room t n"
  unfolding room_def
proof
  fix p
  show "int (length (chan_queue t p) + n) \<le> ch_cap t" using assms [unfolded room_def, rule_format, of p] by simp
qed

lemma chan_Send_room:
  assumes "room t (Suc n)"
  shows "\<exists>t'. chan_Send to b t = Some (True, t') \<and> room t' n"
proof (cases "b = []")
  case True
  then show ?thesis using room_less [OF assms] by (simp add: chan_Send_def)
next
  case False
  have "int (length (chan_queue t to)) < ch_cap t" using assms by (auto simp: room_def dest!: spec [of _ to])
  then obtain t' where t': "chan_push to b t = Some t'" "ch_cap t' = ch_cap t" by (simp add: chan_push_queue)
  have "room t' n"
    unfolding room_def
  proof
    fix p
    show "int (length (chan_queue t' p) + n) \<le> ch_cap t'"
      using chan_push_Some [OF t'(1), of p] t'(2) assms by (auto simp: room_def dest!: spec [of _ p])
  qed
  with t'(1) False show ?thesis by (simp add: chan_Send_def)
qed

lemma flush_room:
  assumes "room t (Suc n)"
  shows "\<exists>b' t'. flush chan_Send to b t = Some (True, b', t') \<and> room t' n"
  using room_less [OF assms] chan_Send_room [OF assms, of to "pending_of b to"] by (auto simp: flush_def Let_def)

lemma batch_add_room:
  assumes "room t (Suc n)"
  shows "\<exists>b' t'. batch_add chan_Send to d b t = Some (True, b', t') \<and> room t' n"
proof -
  show ?thesis using room_less [OF assms] flush_room [OF assms] by (simp add: batch_add_def Let_def)
qed

lemma route_loop_room:
  assumes "1 \<le> mp_NumPartitions mp" "mp_NumPartitions mp + 1 < 2 ^ 32" "room t (length links + n)"
  shows "\<exists>loc b' t'. route_loop chan_Send self mp links b t = Some ((loc, True), b', t') \<and> room t' n"
  using assms(3)
proof (induction links arbitrary: b t)
  case (Cons d links)
  from Owner_total [OF assms(1,2)] obtain p where p: "Owner mp (HostKey (d_URLKey d)) = Some p" by blast
  show ?case
  proof (cases "p = self")
    case True
    have "room t (length links + n)" by (rule room_less) (use Cons.prems in simp)
    from Cons.IH [OF this, of b] p True show ?thesis by auto
  next
    case False
    from batch_add_room [of t "length links + n" p d b] Cons.prems obtain b1 t1 where
      a: "batch_add chan_Send p d b t = Some (True, b1, t1)" "room t1 (length links + n)" by auto
    from Cons.IH [OF a(2), of b1] a(1) p False show ?thesis by auto
  qed
qed simp

lemma flushAll_room:
  assumes "room t (length order + n)"
  shows "\<exists>b' t'. flushAll chan_Send order b t = Some (True, b', t') \<and> room t' n"
  using assms
proof (induction order arbitrary: b t)
  case (Cons to order)
  from flush_room [of t "length order + n" to b] Cons.prems obtain b1 t1 where
    f: "flush chan_Send to b t = Some (True, b1, t1)" "room t1 (length order + n)" by auto
  from Cons.IH [OF f(2), of b1] f(1) show ?case by auto
qed simp

section \<open>Properties of the router\<close>

definition owned_links :: "Map \<Rightarrow> u32 \<Rightarrow> Discovery list \<Rightarrow> Discovery list" where
  "owned_links mp p links = filter (\<lambda>d. Owner mp (HostKey (d_URLKey d)) = Some p) links"

lemma links_arrive:
  assumes "1 \<le> mp_NumPartitions mp" "mp_NumPartitions mp + 1 < 2 ^ 32" "room t (length links + n)"
  shows "\<exists>b1 t1. route_loop chan_Send self mp links b t = Some ((owned_links mp self links, True), b1, t1)
     \<and> (\<forall>order. mkeys (b_pending b1) = set order \<longrightarrow> length order \<le> n \<longrightarrow>
          (\<exists>b2 t2. flushAll chan_Send order b1 t1 = Some (True, b2, t2)
             \<and> (\<forall>p. p \<noteq> self \<longrightarrow> concat (chan_queue t2 p) = concat (chan_queue t p) @ pending_of b p @ owned_links mp p links)))"
proof -
  from route_loop_room [OF assms, of self b] obtain loc b1 t1 where
    rl: "route_loop chan_Send self mp links b t = Some ((loc, True), b1, t1)" "room t1 n" by blast
  note carried = chan.route_loop_carried [OF rl(1)]
  have loc: "loc = owned_links mp self links" using carried by (simp add: owned_links_def)
  have "\<exists>b2 t2. flushAll chan_Send order b1 t1 = Some (True, b2, t2)
      \<and> (\<forall>p. p \<noteq> self \<longrightarrow> concat (chan_queue t2 p) = concat (chan_queue t p) @ pending_of b p @ owned_links mp p links)"
    if order: "mkeys (b_pending b1) = set order" "length order \<le> n" for order
  proof -
    obtain k where "n = length order + k" using order(2) le_Suc_ex by blast
    with flushAll_room [of t1 order k b1] rl(2) obtain b2 t2 where
      fl: "flushAll chan_Send order b1 t1 = Some (True, b2, t2)" by auto
    have "concat (chan_queue t2 p) = concat (chan_queue t p) @ pending_of b p @ owned_links mp p links" if "p \<noteq> self" for p
    proof -
      have "pending_of b1 p = []" if "p \<notin> set order"
        using that order(1) [symmetric] by (simp add: pending_of_def map_of_eq_None_iff [THEN iffD2])
      then have "pending_of b2 p = []" using chan.flushAll_carried(2,3) [OF fl, of p] by blast
      then show ?thesis
        using chan.flushAll_carried(1) [OF fl, of p] carried that by (simp add: chan.carried_def owned_links_def)
    qed
    then show ?thesis using fl by blast
  qed
  then show ?thesis using rl(1) loc by blast
qed

text \<open>Links arrive: routing the links of an outcome and flushing at the window edge hands the caller the
  links its own partition owns and delivers to every other partition exactly the links it owns, each
  once and in order, after what was already under way to it.  (The channels have room for the
  messages, and the flush visits every destination with a pending batch.)\<close>

theorem routed_links_arrive:
  assumes "1 \<le> mp_NumPartitions (r_cur r)" "mp_NumPartitions (r_cur r) + 1 < 2 ^ 32"
    and "room t (length links + n)"
  shows "\<exists>loc r1 t1. RouteLinks chan_Send links r t = Some ((loc, True), r1, t1)
     \<and> loc = owned_links (r_cur r) (r_self r) links
     \<and> (\<forall>order. mkeys (b_pending (r_bat r1)) = set order \<longrightarrow> length order \<le> n \<longrightarrow>
          (\<exists>r2 t2. Flush chan_Send order r1 t1 = Some (True, r2, t2)
             \<and> (\<forall>p. p \<noteq> r_self r \<longrightarrow> (\<exists>t3. Router_Drain chan_Recv p t2 =
                  Some (concat (chan_queue t p) @ pending_of (r_bat r) p @ owned_links (r_cur r) p links, t3)))))"
proof -
  from links_arrive [OF assms, of "r_self r" "r_bat r"] obtain b1 t1 where
    rl: "route_loop chan_Send (r_self r) (r_cur r) links (r_bat r) t = Some ((owned_links (r_cur r) (r_self r) links, True), b1, t1)"
    and fl: "\<And>order. mkeys (b_pending b1) = set order \<Longrightarrow> length order \<le> n \<Longrightarrow> \<exists>b2 t2. flushAll chan_Send order b1 t1 = Some (True, b2, t2)
      \<and> (\<forall>p. p \<noteq> r_self r \<longrightarrow> concat (chan_queue t2 p) = concat (chan_queue t p) @ pending_of (r_bat r) p @ owned_links (r_cur r) p links)"
    by blast
  have "\<exists>r2 t2. Flush chan_Send order (r\<lparr> r_bat := b1 \<rparr>) t1 = Some (True, r2, t2)
      \<and> (\<forall>p. p \<noteq> r_self r \<longrightarrow> (\<exists>t3. Router_Drain chan_Recv p t2 =
           Some (concat (chan_queue t p) @ pending_of (r_bat r) p @ owned_links (r_cur r) p links, t3)))"
    if order: "mkeys (b_pending b1) = set order" "length order \<le> n" for order
  proof -
    from fl [OF order] obtain b2 t2 where f: "flushAll chan_Send order b1 t1 = Some (True, b2, t2)"
      "\<forall>p. p \<noteq> r_self r \<longrightarrow> concat (chan_queue t2 p) = concat (chan_queue t p) @ pending_of (r_bat r) p @ owned_links (r_cur r) p links" by blast
    have "\<exists>t3. Router_Drain chan_Recv p t2 = Some (concat (chan_queue t p) @ pending_of (r_bat r) p @ owned_links (r_cur r) p links, t3)"
      if "p \<noteq> r_self r" for p using chan.Drain_all [of p t2] f(2) that by auto
    then show ?thesis using f(1) by (simp add: Flush_def)
  qed
  then show ?thesis using rl by (auto simp: RouteLinks_def)
qed

text \<open>The cached map never moves backwards: after any sequence of swaps the router holds a map of the
  highest epoch it was offered.\<close>

theorem swaps_keep_newest_map:
  "mp_Epoch (r_cur (fold (\<lambda>m r. snd (SwapMap m r)) ms r)) = fold max (map mp_Epoch ms) (mp_Epoch (r_cur r))
   \<and> r_cur (fold (\<lambda>m r. snd (SwapMap m r)) ms r) \<in> insert (r_cur r) (set ms)"
proof (induction ms arbitrary: r)
  case (Cons m ms)
  show ?case using Cons.IH [of "snd (SwapMap m r)"] by (auto simp: SwapMap_def max_def)
qed simp

text \<open>A machine set recorded by the control plane carries the epoch of the map before it, so a router
  that fetched that map ignores the new primaries and addresses.\<close>

theorem placement_change_not_fetched:
  assumes "r_cur r = FetchMap c"
  shows "SwapMap (FetchMap (SetMachines ms c)) r = (False, r)"
  using assms by (simp add: SwapMap_def FetchMap_def Clone_def placement_change_keeps_epoch)

text \<open>A batch is taken out of the table before it is sent: when the send fails the batch is gone, and
  the retry the comment on \<^verbatim>\<open>Flush\<close> asks for has nothing to send.\<close>

theorem failed_send_drops_batch:
  assumes "pending_of b to \<noteq> []" "send to (pending_of b to) t = Some (False, t1)"
  shows "\<exists>b'. flush send to b t = Some (False, b', t1) \<and> pending_of b' to = []
     \<and> flush send to b' t1 = Some (True, b', t1)"
  using assms by (simp add: flush_def Let_def pending_of_def)

section \<open>The signal router\<close>

record SignalRouter =
  sr_self :: u32
  sr_cur :: Map
  sr_seenEpoch :: u64

definition NewSignalRouter :: "u32 \<Rightarrow> Map \<Rightarrow> SignalRouter" where
  "NewSignalRouter self init = \<lparr> sr_self = self, sr_cur = init, sr_seenEpoch = 0 \<rparr>"

definition Signal_SwapMap :: "Map \<Rightarrow> SignalRouter \<Rightarrow> bool \<times> SignalRouter" where
  "Signal_SwapMap nxt r = (if mp_Epoch nxt \<le> mp_Epoch (sr_cur r) then (False, r) else (True, r\<lparr> sr_cur := nxt \<rparr>))"

definition SendSignal :: "u32 \<Rightarrow> Signal \<Rightarrow> Signal chanTransport \<Rightarrow> Signal chanTransport option" where
  "SendSignal to s t = (if sg_Hosts s = [] \<and> sg_URLs s = [] then Some t else chan_push to s t)"

text \<open>The closure \<^verbatim>\<open>dest\<close> of \<^verbatim>\<open>RouteSignal\<close>: the bundle of an owner, the local one or one of the table, changed
  in place.\<close>

definition to_bundle :: "u32 \<Rightarrow> u64 \<Rightarrow> u32 \<Rightarrow> (Signal \<Rightarrow> Signal) \<Rightarrow> Signal \<times> (u32, Signal) gomap \<Rightarrow> Signal \<times> (u32, Signal) gomap" where
  "to_bundle self epoch owner g st =
     (let (loc, out) = st in
      if owner = self then (g loc, out)
      else
        (let b = (case mget out owner of Some b \<Rightarrow> b | None \<Rightarrow> \<lparr> sg_Epoch = epoch, sg_Hosts = [], sg_URLs = [] \<rparr>) in
         (loc, mput owner (g b) out)))"

fun split_hosts :: "u32 \<Rightarrow> Map \<Rightarrow> u64 \<Rightarrow> HostSignal list \<Rightarrow> Signal \<times> (u32, Signal) gomap \<Rightarrow> (Signal \<times> (u32, Signal) gomap) option" where
  "split_hosts self mp epoch [] st = Some st"
| "split_hosts self mp epoch (h # hs) st = do {
     owner \<leftarrow> Owner mp (hs_HostKey h);
     split_hosts self mp epoch hs (to_bundle self epoch owner (\<lambda>b. b\<lparr> sg_Hosts := sg_Hosts b @ [h] \<rparr>) st)
   }"

fun split_urls :: "u32 \<Rightarrow> Map \<Rightarrow> u64 \<Rightarrow> URLSignal list \<Rightarrow> Signal \<times> (u32, Signal) gomap \<Rightarrow> (Signal \<times> (u32, Signal) gomap) option" where
  "split_urls self mp epoch [] st = Some st"
| "split_urls self mp epoch (u # us) st = do {
     owner \<leftarrow> Owner mp (HostKey (us_URLKey u));
     split_urls self mp epoch us (to_bundle self epoch owner (\<lambda>b. b\<lparr> sg_URLs := sg_URLs b @ [u] \<rparr>) st)
   }"

fun send_bundles :: "(u32, Signal) gomap \<Rightarrow> u32 list \<Rightarrow> Signal chanTransport \<Rightarrow> Signal chanTransport option" where
  "send_bundles out [] t = Some t"
| "send_bundles out (owner # order) t =
     (case mget out owner of
        None \<Rightarrow> send_bundles out order t
      | Some b \<Rightarrow> do { t1 \<leftarrow> SendSignal owner b t; send_bundles out order t1 })"

definition RouteSignal :: "(u32 list \<Rightarrow> u32 list) \<Rightarrow> Signal \<Rightarrow> SignalRouter \<Rightarrow> Signal chanTransport \<Rightarrow> (Signal \<times> Signal chanTransport) option" where
  "RouteSignal visit s r t = do {
     st \<leftarrow> split_hosts (sr_self r) (sr_cur r) (sg_Epoch s) (sg_Hosts s)
            (\<lparr> sg_Epoch = sg_Epoch s, sg_Hosts = [], sg_URLs = [] \<rparr>, []);
     (loc, out) \<leftarrow> split_urls (sr_self r) (sr_cur r) (sg_Epoch s) (sg_URLs s) st;
     t1 \<leftarrow> send_bundles out (visit (map fst out)) t;
     Some (loc, t1)
   }"

text \<open>The sink of a bundle: the two import methods on its own state.\<close>

record 's sink =
  sk_URL :: "URLSignal \<Rightarrow> 's \<Rightarrow> 's"
  sk_Host :: "HostSignal \<Rightarrow> 's \<Rightarrow> 's"

definition import_bundle :: "'s sink \<Rightarrow> Signal \<Rightarrow> 's \<Rightarrow> 's" where
  "import_bundle sk s x = fold (sk_URL sk) (sg_URLs s) (fold (sk_Host sk) (sg_Hosts s) x)"

partial_function (option) Apply :: "'s sink \<Rightarrow> SignalRouter \<Rightarrow> Signal chanTransport \<Rightarrow> 's \<Rightarrow> nat \<Rightarrow> (nat \<times> SignalRouter \<times> Signal chanTransport \<times> 's) option" where
  "Apply sk r t x applied =
     (case chan_pop (sr_self r) t of
        (None, t1) \<Rightarrow> Some (applied, r, t1, x)
      | (Some s, t1) \<Rightarrow>
          if sg_Epoch s \<le> sr_seenEpoch r then Apply sk r t1 x applied
          else Apply sk (r\<lparr> sr_seenEpoch := sg_Epoch s \<rparr>) t1 (import_bundle sk s x) (Suc applied))"

declare Apply.simps [code]

definition ApplyLocal :: "'s sink \<Rightarrow> Signal \<Rightarrow> SignalRouter \<Rightarrow> 's \<Rightarrow> bool \<times> SignalRouter \<times> 's" where
  "ApplyLocal sk loc r x =
     (if sg_Epoch loc \<le> sr_seenEpoch r \<or> (sg_Hosts loc = [] \<and> sg_URLs loc = []) then (False, r, x)
      else (True, r\<lparr> sr_seenEpoch := sg_Epoch loc \<rparr>, import_bundle sk loc x))"

text \<open>The bundles a receiver accepts: those newer than everything before them.\<close>

fun fresh_bundles :: "u64 \<Rightarrow> Signal list \<Rightarrow> Signal list" where
  "fresh_bundles e [] = []"
| "fresh_bundles e (s # ss) = (if sg_Epoch s \<le> e then fresh_bundles e ss else s # fresh_bundles (sg_Epoch s) ss)"

lemma fold_max_ge:
  fixes e :: "'a :: linorder"
  shows "e \<le> fold max xs e \<and> (\<forall>x \<in> set xs. x \<le> fold max xs e)"
proof (induction xs arbitrary: e)
  case (Cons x xs)
  have "max x e \<le> fold max xs (max x e)" "\<forall>y \<in> set xs. y \<le> fold max xs (max x e)" using Cons.IH [of "max x e"] by blast+
  then show ?case unfolding max.bounded_iff by simp
qed simp

lemma Apply_fresh:
  "\<exists>t' n. Apply sk r t x k = Some (n, r\<lparr> sr_seenEpoch := fold max (map sg_Epoch (chan_queue t (sr_self r))) (sr_seenEpoch r) \<rparr>, t',
       fold (import_bundle sk) (fresh_bundles (sr_seenEpoch r) (chan_queue t (sr_self r))) x)
     \<and> n = k + length (fresh_bundles (sr_seenEpoch r) (chan_queue t (sr_self r))) \<and> chan_queue t' (sr_self r) = []"
proof (induction "chan_queue t (sr_self r)" arbitrary: t r x k)
  case Nil
  obtain y t1 where p: "chan_pop (sr_self r) t = (y, t1)" by fastforce
  with chan_pop_cases [OF p] Nil show ?case by (subst Apply.simps) auto
next
  case (Cons s ss)
  obtain y t1 where p: "chan_pop (sr_self r) t = (y, t1)" by fastforce
  have y: "y = Some s" "chan_queue t1 (sr_self r) = ss"
    using chan_pop_cases [OF p] Cons.hyps(2) by auto
  show ?case
  proof (cases "sg_Epoch s \<le> sr_seenEpoch r")
    case True
    then have "max (sg_Epoch s) (sr_seenEpoch r) = sr_seenEpoch r" by (simp add: max_def)
    with Cons.hyps(1) [of t1 r x k] y True Cons.hyps(2) [symmetric] show ?thesis
      by (subst Apply.simps) (simp add: p)
  next
    case False
    let ?r = "r\<lparr> sr_seenEpoch := sg_Epoch s \<rparr>"
    have "max (sg_Epoch s) (sr_seenEpoch r) = sg_Epoch s" using False by (simp add: max_def)
    with Cons.hyps(1) [of t1 ?r "import_bundle sk s x" "Suc k"] y False Cons.hyps(2) [symmetric] show ?thesis
      by (subst Apply.simps) (simp add: p)
  qed
qed

text \<open>C21: Imports are never reverted: draining the inbound bundles ends, applies in order exactly those
  newer than every bundle before them, remembers the highest epoch seen, and a second delivery of the
  same bundles changes nothing.\<close>

theorem signals_newest_epoch_wins:
  "\<exists>t' n. Apply sk r t x 0 = Some (n, r\<lparr> sr_seenEpoch := fold max (map sg_Epoch (chan_queue t (sr_self r))) (sr_seenEpoch r) \<rparr>, t',
       fold (import_bundle sk) (fresh_bundles (sr_seenEpoch r) (chan_queue t (sr_self r))) x)
     \<and> n = length (fresh_bundles (sr_seenEpoch r) (chan_queue t (sr_self r))) \<and> chan_queue t' (sr_self r) = []
     \<and> fresh_bundles (fold max (map sg_Epoch (chan_queue t (sr_self r))) (sr_seenEpoch r)) (chan_queue t (sr_self r)) = []"
proof -
  have "fresh_bundles e ss = []" if "\<forall>s \<in> set ss. sg_Epoch s \<le> e" for e ss
    using that by (induction ss) auto
  then have "fresh_bundles (fold max (map sg_Epoch ss) e) ss = []" for e ss
    using fold_max_ge [of e "map sg_Epoch ss"] by simp
  then show ?thesis using Apply_fresh [of sk r t x 0] by auto
qed

text \<open>The bundle an entry for \<open>p\<close> goes to.\<close>

definition bundle_of :: "u32 \<Rightarrow> u64 \<Rightarrow> Signal \<times> (u32, Signal) gomap \<Rightarrow> u32 \<Rightarrow> Signal" where
  "bundle_of self epoch st p =
     (if p = self then fst st
      else case mget (snd st) p of Some b \<Rightarrow> b | None \<Rightarrow> \<lparr> sg_Epoch = epoch, sg_Hosts = [], sg_URLs = [] \<rparr>)"

lemma bundle_of_to_bundle:
  "bundle_of self epoch (to_bundle self epoch owner g st) p =
     (if p = owner then g (bundle_of self epoch st p) else bundle_of self epoch st p)"
  by (auto simp: bundle_of_def to_bundle_def split: prod.splits)

lemma split_hosts_bundles:
  assumes "split_hosts self mp epoch hs st = Some st'"
  shows "bundle_of self epoch st' p = (bundle_of self epoch st p)
     \<lparr> sg_Hosts := sg_Hosts (bundle_of self epoch st p) @ filter (\<lambda>h. Owner mp (hs_HostKey h) = Some p) hs \<rparr>"
  using assms
proof (induction hs arbitrary: st)
  case (Cons h hs)
  then obtain owner where "Owner mp (hs_HostKey h) = Some owner"
    "split_hosts self mp epoch hs (to_bundle self epoch owner (\<lambda>b. b\<lparr> sg_Hosts := sg_Hosts b @ [h] \<rparr>) st) = Some st'"
    by (auto split: Option.bind_splits)
  then show ?case using Cons.IH by (auto simp: bundle_of_to_bundle)
qed simp

lemma split_urls_bundles:
  assumes "split_urls self mp epoch us st = Some st'"
  shows "bundle_of self epoch st' p = (bundle_of self epoch st p)
     \<lparr> sg_URLs := sg_URLs (bundle_of self epoch st p) @ filter (\<lambda>u. Owner mp (HostKey (us_URLKey u)) = Some p) us \<rparr>"
  using assms
proof (induction us arbitrary: st)
  case (Cons u us)
  then obtain owner where "Owner mp (HostKey (us_URLKey u)) = Some owner"
    "split_urls self mp epoch us (to_bundle self epoch owner (\<lambda>b. b\<lparr> sg_URLs := sg_URLs b @ [u] \<rparr>) st) = Some st'"
    by (auto split: Option.bind_splits)
  then show ?case using Cons.IH by (auto simp: bundle_of_to_bundle)
qed simp

lemma to_bundle_distinct:
  "distinct (map fst (snd st)) \<Longrightarrow> distinct (map fst (snd (to_bundle self epoch owner g st)))"
  by (cases st) (simp add: to_bundle_def Let_def distinct_update)

lemma split_hosts_distinct:
  "split_hosts self mp epoch hs st = Some st' \<Longrightarrow> distinct (map fst (snd st)) \<Longrightarrow> distinct (map fst (snd st'))"
proof (induction hs arbitrary: st)
  case (Cons x hs)
  then obtain owner g where "split_hosts self mp epoch hs (to_bundle self epoch owner g st) = Some st'"
    by (auto split: Option.bind_splits)
  from Cons.IH [OF this to_bundle_distinct [OF Cons.prems(2)]] show ?case .
qed simp

lemma split_urls_distinct:
  "split_urls self mp epoch us st = Some st' \<Longrightarrow> distinct (map fst (snd st)) \<Longrightarrow> distinct (map fst (snd st'))"
proof (induction us arbitrary: st)
  case (Cons x us)
  then obtain owner g where "split_urls self mp epoch us (to_bundle self epoch owner g st) = Some st'"
    by (auto split: Option.bind_splits)
  from Cons.IH [OF this to_bundle_distinct [OF Cons.prems(2)]] show ?case .
qed simp

lemma send_bundles_queue:
  assumes "send_bundles out order t = Some t'" "distinct order"
  shows "chan_queue t' p = chan_queue t p @
     (case mget out p of None \<Rightarrow> [] | Some b \<Rightarrow> if p \<in> set order \<and> (sg_Hosts b \<noteq> [] \<or> sg_URLs b \<noteq> []) then [b] else [])"
  using assms
proof (induction order arbitrary: t)
  case (Cons owner order)
  show ?case
  proof (cases "mget out owner")
    case None
    then show ?thesis using Cons by (auto split: option.splits)
  next
    case (Some b)
    with Cons.prems(1) obtain t1 where t1: "SendSignal owner b t = Some t1" "send_bundles out order t1 = Some t'"
      by (auto split: Option.bind_splits)
    have q: "chan_queue t1 p = (if p = owner \<and> (sg_Hosts b \<noteq> [] \<or> sg_URLs b \<noteq> []) then chan_queue t p @ [b] else chan_queue t p)"
      using t1(1) chan_push_Some [of owner b t t1 p] by (auto simp: SendSignal_def split: if_splits)
    have IH: "chan_queue t' p = chan_queue t1 p @ (case mget out p of None \<Rightarrow> [] | Some b \<Rightarrow>
        if p \<in> set order \<and> (sg_Hosts b \<noteq> [] \<or> sg_URLs b \<noteq> []) then [b] else [])"
      using Cons.IH [OF t1(2)] Cons.prems(2) by simp
    show ?thesis
    proof (cases "p = owner")
      case True
      then show ?thesis using IH q Some Cons.prems(2) by simp
    next
      case False
      then show ?thesis using IH q by (simp cong: option.case_cong)
    qed
  qed
qed (simp split: option.splits)

text \<open>An import bundle is split by owner: the caller keeps the entries its partition owns, and every
  other partition receives one bundle, of the same epoch, with exactly the entries it owns, or none
  when it owns none.\<close>

theorem signal_entries_reach_owner:
  assumes "RouteSignal visit s r t = Some (loc, t')" "\<And>ks. distinct ks \<Longrightarrow> distinct (visit ks) \<and> set (visit ks) = set ks"
  defines "mine p \<equiv> \<lparr> sg_Epoch = sg_Epoch s, sg_Hosts = filter (\<lambda>h. Owner (sr_cur r) (hs_HostKey h) = Some p) (sg_Hosts s),
       sg_URLs = filter (\<lambda>u. Owner (sr_cur r) (HostKey (us_URLKey u)) = Some p) (sg_URLs s) \<rparr>"
  shows "loc = mine (sr_self r)
     \<and> (\<forall>p. p \<noteq> sr_self r \<longrightarrow> chan_queue t' p = chan_queue t p @
          (if sg_Hosts (mine p) = [] \<and> sg_URLs (mine p) = [] then [] else [mine p]))"
proof -
  let ?self = "sr_self r" and ?e = "sg_Epoch s"
  let ?st0 = "(\<lparr> sg_Epoch = sg_Epoch s, sg_Hosts = [], sg_URLs = [] \<rparr>, []) :: Signal \<times> (u32, Signal) gomap"
  from assms(1) obtain st1 out where
    h: "split_hosts ?self (sr_cur r) ?e (sg_Hosts s) ?st0 = Some st1"
    and u: "split_urls ?self (sr_cur r) ?e (sg_URLs s) st1 = Some (loc, out)"
    and t: "send_bundles out (visit (map fst out)) t = Some t'"
    by (auto simp: RouteSignal_def split: Option.bind_splits)
  have b: "bundle_of ?self ?e (loc, out) p = mine p" for p
    using split_urls_bundles [OF u, of p] split_hosts_bundles [OF h, of p] by (simp add: mine_def bundle_of_def)
  have d: "distinct (map fst out)" using split_urls_distinct [OF u split_hosts_distinct [OF h]] by simp
  note v = assms(2) [OF d]
  have "chan_queue t' p = chan_queue t p @ (if sg_Hosts (mine p) = [] \<and> sg_URLs (mine p) = [] then [] else [mine p])"
    if "p \<noteq> ?self" for p
  proof (cases "mget out p")
    case None
    then have "mine p = \<lparr> sg_Epoch = sg_Epoch s, sg_Hosts = [], sg_URLs = [] \<rparr>"
      using b [of p] that by (simp add: bundle_of_def)
    then show ?thesis using send_bundles_queue [OF t, of p] v None by simp
  next
    case (Some x)
    then have "p \<in> set (visit (map fst out))" using v by (force dest: map_of_SomeD)
    then show ?thesis using send_bundles_queue [OF t, of p] v b [of p] that Some by (auto simp: bundle_of_def)
  qed
  moreover have "loc = mine ?self" using b [of ?self] by (simp add: bundle_of_def)
  ultimately show ?thesis by blast
qed

section \<open>Witness\<close>

definition demo_router :: Router where
  "demo_router = NewRouter 0 (ct_m demo_fleet) 2"

theorem routed_links_arrive_witness:
  "\<exists>loc r1 t1. RouteLinks chan_Send [] demo_router (newChanTransport 4) = Some ((loc, True), r1, t1)
     \<and> loc = owned_links (ct_m demo_fleet) 0 []"
proof -
  have "room (newChanTransport 4) (length [] + 4)"
    by (simp add: room_def newChanTransport_def chan_queue_def)
  moreover have "mp_NumPartitions (ct_m demo_fleet) = 2" using demo_fleet_fields(1) by (simp add: NumPartitions_def)
  ultimately show ?thesis
    using routed_links_arrive [of demo_router "newChanTransport 4" "[]" 4] by (auto simp: demo_router_def NewRouter_def)
qed

end
