(* ===== verification/Checksum.thy ===== *)
theory Checksum
  imports Prelude
begin

unbundle bit_operations_syntax

text \<open>
  CRC-32C as Go's \<^verbatim>\<open>hash/crc32\<close> computes it with the Castagnoli table: the checksum of the pages and
  the file of \<^verbatim>\<open>format/\<close>, of the log frames and the superblocks of \<^verbatim>\<open>store/\<close>, and of the slices
  that \<^verbatim>\<open>distribute/handoff.go\<close> ships.  The main fact is that it tells apart two byte strings of equal
  length that differ in one byte.
\<close>

section \<open>The table and the checksum\<close>

definition Castagnoli :: u32 where "Castagnoli = 0x82f63b78"

definition crc_bit :: "u32 \<Rightarrow> u32" where
  "crc_bit crc = (if bit crc 0 then drop_bit 1 crc XOR Castagnoli else drop_bit 1 crc)"

definition crc_table :: "u8 \<Rightarrow> u32" where
  "crc_table i = (crc_bit ^^ 8) (ucast i)"

definition crc_update :: "u32 \<Rightarrow> u8 \<Rightarrow> u32" where
  "crc_update crc v = crc_table (ucast crc XOR v) XOR drop_bit 8 crc"

definition Checksum32c :: "u8 list \<Rightarrow> u32" where
  "Checksum32c p = NOT (foldl crc_update (NOT 0) p)"

section \<open>The table step is eight bit steps\<close>

lemma crc_bit_xor: "crc_bit (a XOR b) = crc_bit a XOR crc_bit b"
  by (simp add: crc_bit_def bit_xor_iff drop_bit_xor ac_simps)

lemma crc_bits_xor: "(crc_bit ^^ n) (a XOR b) = (crc_bit ^^ n) a XOR (crc_bit ^^ n) b"
  by (induction n) (simp_all add: crc_bit_xor)

lemma crc_bits_clear: "(\<forall>i < n. \<not> bit c i) \<Longrightarrow> (crc_bit ^^ n) c = drop_bit n c"
proof (induction n)
  case (Suc n)
  then have "(crc_bit ^^ n) c = drop_bit n c" "\<not> bit c n" by simp_all
  moreover from this have "crc_bit (drop_bit n c) = drop_bit (Suc n) c"
    by (simp add: crc_bit_def bit_drop_bit_eq drop_bit_drop_bit)
  ultimately show ?case by simp
qed simp

lemma crc_update_bits: "crc_update crc v = (crc_bit ^^ 8) (crc XOR ucast v)"
proof -
  let ?lo = "ucast (ucast crc XOR v) :: u32" and ?hi = "crc AND NOT (mask 8)"
  have "crc XOR ucast v = ?hi XOR ?lo"
    by (rule bit_word_eqI) (auto simp: bit_simps)
  moreover have "(crc_bit ^^ 8) ?hi = drop_bit 8 ?hi"
    by (rule crc_bits_clear) (simp add: bit_simps)
  moreover have "drop_bit 8 ?hi = drop_bit 8 crc"
    by (rule bit_word_eqI) (auto simp: bit_simps dest: bit_imp_le_length)
  ultimately show ?thesis by (simp add: crc_update_def crc_table_def crc_bits_xor xor.commute)
qed

section \<open>One changed byte changes the checksum\<close>

lemma crc_bit_top: "bit (crc_bit c) 31 = bit c 0"
  using bit_imp_le_length [of c 32] by (auto simp: crc_bit_def bit_simps Castagnoli_def)

lemma xor_cancel: "(a :: u32) XOR c = b XOR c \<Longrightarrow> a = b"
  by (metis xor.assoc xor.right_neutral xor_self_eq)

lemma crc_bit_inj: "crc_bit a = crc_bit b \<Longrightarrow> a = b"
proof -
  assume e: "crc_bit a = crc_bit b"
  then have z: "bit a 0 = bit b 0" using crc_bit_top by metis
  then have "drop_bit 1 a = drop_bit 1 b" using e xor_cancel by (auto simp: crc_bit_def simp del: One_nat_def split: if_splits)
  then have "bit a (Suc n) = bit b (Suc n)" for n
    by (metis bit_drop_bit_eq comp_apply plus_1_eq_Suc)
  then show ?thesis using z by (intro bit_word_eqI) (metis not0_implies_Suc)
qed

lemma crc_bits_inj: "(crc_bit ^^ n) a = (crc_bit ^^ n) b \<Longrightarrow> a = b"
  by (induction n) (auto dest: crc_bit_inj)

lemma crc_update_inj:
  "crc_update c v = crc_update d v \<Longrightarrow> c = d" "crc_update c v = crc_update c w \<Longrightarrow> v = w"
proof -
  show "crc_update c v = crc_update d v \<Longrightarrow> c = d"
    unfolding crc_update_bits by (drule crc_bits_inj) (rule xor_cancel)
  assume "crc_update c v = crc_update c w"
  then have "c XOR ucast v = c XOR (ucast w :: u32)" unfolding crc_update_bits by (rule crc_bits_inj)
  then have "(ucast v :: u32) = ucast w" by (metis xor.commute xor_cancel)
  then have b: "bit (ucast v :: u32) n = bit (ucast w :: u32) n" for n by simp
  show "v = w"
  proof (rule bit_word_eqI)
    fix n assume "n < LENGTH(8)"
    then show "bit v n = bit w n" using b [of n] by (simp add: bit_simps)
  qed
qed

lemma crc_fold_inj: "foldl crc_update c p = foldl crc_update d p \<Longrightarrow> c = d"
  by (induction p arbitrary: c d) (auto dest: crc_update_inj(1))

lemma Checksum32c_one_byte:
  assumes "Checksum32c (p @ v # q) = Checksum32c (p @ w # q)"
  shows "v = w"
proof -
  have "foldl crc_update (NOT 0) (p @ v # q) = foldl crc_update (NOT 0) (p @ w # q)"
    using assms by (simp add: Checksum32c_def)
  then show ?thesis by (auto dest: crc_fold_inj crc_update_inj(2))
qed

text \<open>The algorithm's check value: the checksum of the nine ASCII digits one to nine.\<close>

lemma crc_bit_word:
  "crc_bit c = (if even c then drop_bit 1 c else drop_bit 1 c XOR 0x82f63b78)"
  by (simp add: crc_bit_def Castagnoli_def bit_0)

lemma crc_bits_8: "(crc_bit ^^ 8) c = crc_bit (crc_bit (crc_bit (crc_bit (crc_bit (crc_bit (crc_bit (crc_bit c)))))))"
  by (simp add: eval_nat_numeral)

lemma Checksum32c_check_value: "Checksum32c [49, 50, 51, 52, 53, 54, 55, 56, 57] = 0xe3069283"
  by (simp add: Checksum32c_def crc_update_bits crc_bits_8 crc_bit_word)

end
