(* ===== verification/StoreCodec.thy ===== *)
theory StoreCodec
  imports Records Checksum "HOL-Library.Monad_Syntax"
begin

unbundle bit_operations_syntax

text \<open>
  The per-record codec of the durable store (\<^verbatim>\<open>store/codec.go\<close>): the fixed-width little-endian value
  bytes of a URL row and of a host row.  The writer of the source fills a buffer of exactly the value
  size; here it returns those bytes.  The reader panics on a short buffer, which is \<open>None\<close>.  A byte
  outside the discovery sources or the host groupings, which Go would keep as a number and which no
  writer produces, is \<open>None\<close> too; an unknown status byte is kept.
\<close>

section \<open>Fixed-width fields\<close>

definition PutUint16 :: "u16 \<Rightarrow> u8 list" where "PutUint16 x = le_enc 2 (unat x)"
definition PutUint32 :: "u32 \<Rightarrow> u8 list" where "PutUint32 x = le_enc 4 (unat x)"
definition Uint16 :: "u8 list \<Rightarrow> u16" where "Uint16 bs = of_nat (le_dec bs)"
definition Uint32 :: "u8 list \<Rightarrow> u32" where "Uint32 bs = of_nat (le_dec bs)"

definition r_raw :: "nat \<Rightarrow> u8 list \<Rightarrow> (u8 list \<times> u8 list) option" where
  "r_raw n b = (if n \<le> length b then Some (take n b, drop n b) else None)"

definition r_u8 :: "u8 list \<Rightarrow> (u8 \<times> u8 list) option" where
  "r_u8 b = (case b of [] \<Rightarrow> None | x # b' \<Rightarrow> Some (x, b'))"

definition r_u16 :: "u8 list \<Rightarrow> (u16 \<times> u8 list) option" where
  "r_u16 b = do { (x, b') \<leftarrow> r_raw 2 b; Some (Uint16 x, b') }"

definition r_u32 :: "u8 list \<Rightarrow> (u32 \<times> u8 list) option" where
  "r_u32 b = do { (x, b') \<leftarrow> r_raw 4 b; Some (Uint32 x, b') }"

definition r_u64 :: "u8 list \<Rightarrow> (u64 \<times> u8 list) option" where
  "r_u64 b = do { (x, b') \<leftarrow> r_raw 8 b; Some (Uint64 x, b') }"

section \<open>Enumeration bytes\<close>

fun status_byte :: "URLStatus \<Rightarrow> u8" where
  "status_byte StatusDiscovered = 0"
| "status_byte StatusScheduled = 1"
| "status_byte StatusReady = 2"
| "status_byte StatusInFlight = 3"
| "status_byte StatusCrawled = 4"
| "status_byte StatusDueRecrawl = 5"
| "status_byte StatusGone = 6"
| "status_byte StatusExcludedRobots = 7"
| "status_byte StatusTrapped = 8"
| "status_byte (StatusOther b) = b"

definition byte_status :: "u8 \<Rightarrow> URLStatus" where
  "byte_status b =
     (if b = 0 then StatusDiscovered else if b = 1 then StatusScheduled else if b = 2 then StatusReady
      else if b = 3 then StatusInFlight else if b = 4 then StatusCrawled else if b = 5 then StatusDueRecrawl
      else if b = 6 then StatusGone else if b = 7 then StatusExcludedRobots else if b = 8 then StatusTrapped
      else StatusOther b)"

fun source_byte :: "DiscoverySource \<Rightarrow> u8" where
  "source_byte SourceSeed = 0"
| "source_byte SourceLink = 1"
| "source_byte SourceSitemap = 2"
| "source_byte SourceRedirect = 3"
| "source_byte SourceManual = 4"

definition byte_source :: "u8 \<Rightarrow> DiscoverySource option" where
  "byte_source b =
     (if b = 0 then Some SourceSeed else if b = 1 then Some SourceLink else if b = 2 then Some SourceSitemap
      else if b = 3 then Some SourceRedirect else if b = 4 then Some SourceManual else None)"

fun grouping_byte :: "HostGrouping \<Rightarrow> u8" where
  "grouping_byte GroupRegistrableDomain = 0"
| "grouping_byte GroupFullHost = 1"

definition byte_grouping :: "u8 \<Rightarrow> HostGrouping option" where
  "byte_grouping b = (if b = 0 then Some GroupRegistrableDomain else if b = 1 then Some GroupFullHost else None)"

definition r_status :: "u8 list \<Rightarrow> (URLStatus \<times> u8 list) option" where
  "r_status b = do { (x, b') \<leftarrow> r_u8 b; Some (byte_status x, b') }"

definition r_source :: "u8 list \<Rightarrow> (DiscoverySource \<times> u8 list) option" where
  "r_source b = do { (x, b') \<leftarrow> r_u8 b; s \<leftarrow> byte_source x; Some (s, b') }"

definition r_grouping :: "u8 list \<Rightarrow> (HostGrouping \<times> u8 list) option" where
  "r_grouping b = do { (x, b') \<leftarrow> r_u8 b; g \<leftarrow> byte_grouping x; Some (g, b') }"

section \<open>Rows\<close>

definition urlValueSize :: nat where "urlValueSize = 87"
definition hostValueSize :: nat where "hostValueSize = 89"

definition encodeURL :: "URLRecord \<Rightarrow> u8 list" where
  "encodeURL r = [status_byte (u_Status r)] @ PutUint32 (u_Priority r) @ PutUint16 (u_Depth r) @ [source_byte (u_DiscoverySource r)]
     @ PutUint64 (u_URLRef r) @ PutUint32 (u_FirstSeen r) @ PutUint32 (u_LastCrawled r) @ PutUint32 (u_LastChanged r)
     @ PutUint32 (u_NextDue r) @ PutUint32 (u_Lambda r) @ PutUint32 (u_CrawlCount r) @ PutUint32 (u_ChangeCount r)
     @ PutUint16 (u_NoChangeStreak r) @ PutUint64 (u_ETagRef r) @ PutUint32 (u_LastModified r) @ PutUint64 (u_ContentFP r)
     @ PutUint64 (u_Simhash r) @ PutUint16 (u_HTTPStatus r) @ PutUint64 (u_RedirectRef r) @ [u_RetryCount r]
     @ PutUint16 (u_ErrorCount r)"

definition decodeURL :: "URLKey \<Rightarrow> u8 list \<Rightarrow> URLRecord option" where
  "decodeURL key b = do {
     (status, b) \<leftarrow> r_status b; (priority, b) \<leftarrow> r_u32 b; (depth, b) \<leftarrow> r_u16 b; (source, b) \<leftarrow> r_source b;
     (urlRef, b) \<leftarrow> r_u64 b; (firstSeen, b) \<leftarrow> r_u32 b; (lastCrawled, b) \<leftarrow> r_u32 b; (lastChanged, b) \<leftarrow> r_u32 b;
     (nextDue, b) \<leftarrow> r_u32 b; (lam, b) \<leftarrow> r_u32 b; (crawlCount, b) \<leftarrow> r_u32 b; (changeCount, b) \<leftarrow> r_u32 b;
     (noChangeStreak, b) \<leftarrow> r_u16 b; (etagRef, b) \<leftarrow> r_u64 b; (lastModified, b) \<leftarrow> r_u32 b; (contentFP, b) \<leftarrow> r_u64 b;
     (simhash, b) \<leftarrow> r_u64 b; (httpStatus, b) \<leftarrow> r_u16 b; (redirectRef, b) \<leftarrow> r_u64 b; (retryCount, b) \<leftarrow> r_u8 b;
     (errorCount, b) \<leftarrow> r_u16 b;
     Some \<lparr> u_URLKey = key, u_HostKey = HostKey key, u_Status = status, u_Priority = priority, u_Depth = depth,
       u_DiscoverySource = source, u_URLRef = urlRef, u_FirstSeen = firstSeen, u_LastCrawled = lastCrawled,
       u_LastChanged = lastChanged, u_NextDue = nextDue, u_Lambda = lam, u_CrawlCount = crawlCount,
       u_ChangeCount = changeCount, u_NoChangeStreak = noChangeStreak, u_ETagRef = etagRef, u_LastModified = lastModified,
       u_ContentFP = contentFP, u_Simhash = simhash, u_HTTPStatus = httpStatus, u_RedirectRef = redirectRef,
       u_RetryCount = retryCount, u_ErrorCount = errorCount \<rparr>
   }"

definition encodeHost :: "HostRecord \<Rightarrow> u8 list" where
  "encodeHost r = PutUint64 (h_HostRef r) @ [grouping_byte (h_Grouping r)] @ PutUint64 (h_RegistrableRef r) @ h_ResolvedIP r
     @ PutUint32 (h_IPExpiry r) @ PutUint32 (h_RobotsFetched r) @ PutUint32 (h_RobotsExpiry r) @ PutUint64 (h_RobotsRef r)
     @ PutUint16 (h_CrawlDelay r) @ PutUint32 (h_HostNextEligible r) @ PutUint32 (h_IPNextEligible r)
     @ PutUint32 (h_URLBudget r) @ PutUint32 (h_URLCount r) @ PutUint16 (h_DepthCap r) @ PutUint32 (h_HostScore r)
     @ PutUint32 (h_CrawlTotal r) @ PutUint32 (h_ErrorTotal r) @ PutUint16 (h_AvgLatency r) @ PutUint16 (h_Flags r)"

definition decodeHost :: "u64 \<Rightarrow> u8 list \<Rightarrow> HostRecord option" where
  "decodeHost key b = do {
     (hostRef, b) \<leftarrow> r_u64 b; (grouping, b) \<leftarrow> r_grouping b; (registrableRef, b) \<leftarrow> r_u64 b; (ip, b) \<leftarrow> r_raw 16 b;
     (ipExpiry, b) \<leftarrow> r_u32 b; (robotsFetched, b) \<leftarrow> r_u32 b; (robotsExpiry, b) \<leftarrow> r_u32 b; (robotsRef, b) \<leftarrow> r_u64 b;
     (crawlDelay, b) \<leftarrow> r_u16 b; (hostNextEligible, b) \<leftarrow> r_u32 b; (ipNextEligible, b) \<leftarrow> r_u32 b;
     (urlBudget, b) \<leftarrow> r_u32 b; (urlCount, b) \<leftarrow> r_u32 b; (depthCap, b) \<leftarrow> r_u16 b; (hostScore, b) \<leftarrow> r_u32 b;
     (crawlTotal, b) \<leftarrow> r_u32 b; (errorTotal, b) \<leftarrow> r_u32 b; (avgLatency, b) \<leftarrow> r_u16 b; (flags, b) \<leftarrow> r_u16 b;
     Some \<lparr> h_HostKey = key, h_HostRef = hostRef, h_Grouping = grouping, h_RegistrableRef = registrableRef,
       h_ResolvedIP = ip, h_IPExpiry = ipExpiry, h_RobotsFetched = robotsFetched, h_RobotsExpiry = robotsExpiry,
       h_RobotsRef = robotsRef, h_CrawlDelay = crawlDelay, h_HostNextEligible = hostNextEligible,
       h_IPNextEligible = ipNextEligible, h_URLBudget = urlBudget, h_URLCount = urlCount, h_DepthCap = depthCap,
       h_HostScore = hostScore, h_CrawlTotal = crawlTotal, h_ErrorTotal = errorTotal, h_AvgLatency = avgLatency,
       h_Flags = flags \<rparr>
   }"

section \<open>Field codecs\<close>

text \<open>A field codec reads back what it wrote and leaves the rest of the buffer.\<close>

locale field_codec =
  fixes put :: "'a \<Rightarrow> u8 list" and get :: "u8 list \<Rightarrow> ('a \<times> u8 list) option" and ok :: "'a \<Rightarrow> bool" and width :: nat
  assumes get_put: "ok x \<Longrightarrow> get (put x @ rest) = Some (x, rest)"
    and width: "ok x \<Longrightarrow> length (put x) = width"
begin

lemma get_put_end: "ok x \<Longrightarrow> get (put x) = Some (x, [])"
  using get_put [of x "[]"] by simp

lemma get_two: "ok x \<Longrightarrow> ok y \<Longrightarrow> do { (a, b) \<leftarrow> get (put x @ put y @ rest); get b } = Some (y, rest)"
  by (simp add: get_put)

lemma put_inj: "ok x \<Longrightarrow> ok y \<Longrightarrow> put x = put y \<Longrightarrow> x = y"
  using get_put_end by (metis option.inject prod.inject)

end

lemma r_raw_append: "length x = n \<Longrightarrow> r_raw n (x @ rest) = Some (x, rest)"
  by (simp add: r_raw_def)

lemma length_PutUint [simp]: "length (PutUint16 a) = 2" "length (PutUint32 b) = 4"
  by (simp_all add: PutUint16_def PutUint32_def)

lemma Uint16_PutUint16 [simp]: "Uint16 (PutUint16 x) = x"
  using unat_lt_2p16 [of x] by (simp add: Uint16_def PutUint16_def le_dec_enc)

lemma Uint32_PutUint32 [simp]: "Uint32 (PutUint32 x) = x"
  using unat_lt_2p32 [of x] by (simp add: Uint32_def PutUint32_def le_dec_enc)

interpretation f8: field_codec "\<lambda>x. [x]" r_u8 "\<lambda>_. True" 1
  by unfold_locales (simp_all add: r_u8_def)

interpretation f16: field_codec PutUint16 r_u16 "\<lambda>_. True" 2
  by unfold_locales (simp_all add: r_u16_def r_raw_append)

interpretation f32: field_codec PutUint32 r_u32 "\<lambda>_. True" 4
  by unfold_locales (simp_all add: r_u32_def r_raw_append)

interpretation f64: field_codec PutUint64 r_u64 "\<lambda>_. True" 8
  by unfold_locales (simp_all add: r_u64_def r_raw_append)

text \<open>A status value that is one of the nine states or an unknown byte beyond them.\<close>

definition status_ok :: "URLStatus \<Rightarrow> bool" where
  "status_ok s \<longleftrightarrow> byte_status (status_byte s) = s"

interpretation fstatus: field_codec "\<lambda>s. [status_byte s]" r_status status_ok 1
  by unfold_locales (simp_all add: r_status_def r_u8_def status_ok_def)

interpretation fsource: field_codec "\<lambda>s. [source_byte s]" r_source "\<lambda>_. True" 1
proof
  fix x rest
  show "r_source ([source_byte x] @ rest) = Some (x, rest)" by (cases x) (simp_all add: r_source_def r_u8_def byte_source_def)
qed simp

interpretation fgrouping: field_codec "\<lambda>s. [grouping_byte s]" r_grouping "\<lambda>_. True" 1
proof
  fix x rest
  show "r_grouping ([grouping_byte x] @ rest) = Some (x, rest)" by (cases x) (simp_all add: r_grouping_def r_u8_def byte_grouping_def)
qed simp

interpretation fip: field_codec "\<lambda>x. x" "r_raw 16" "\<lambda>x. length x = 16" 16
  by unfold_locales (simp_all add: r_raw_append)

lemmas field_reads = f8.get_put f16.get_put f32.get_put f64.get_put fstatus.get_put fsource.get_put fgrouping.get_put fip.get_put

lemma encodeURL_length: "length (encodeURL r) = urlValueSize"
  by (simp add: encodeURL_def urlValueSize_def)

lemma encodeHost_length: "length (h_ResolvedIP r) = 16 \<Longrightarrow> length (encodeHost r) = hostValueSize"
  by (simp add: encodeHost_def hostValueSize_def)

lemma status_ok_known: "(\<And>b. s \<noteq> StatusOther b) \<Longrightarrow> status_ok s"
  by (cases s) (simp_all add: status_ok_def byte_status_def)

text \<open>Rows the store can hold: the host half of the key repeats in its own field, and the fixed-width
  fields have their width.\<close>

definition url_ok :: "URLRecord \<Rightarrow> bool" where
  "url_ok r \<longleftrightarrow> u_HostKey r = HostKey (u_URLKey r) \<and> status_ok (u_Status r)"

definition host_ok :: "HostRecord \<Rightarrow> bool" where
  "host_ok h \<longleftrightarrow> length (h_ResolvedIP h) = 16"

lemma decode_encode_URL: "url_ok r \<Longrightarrow> decodeURL (u_URLKey r) (encodeURL r) = Some r"
  by (simp add: decodeURL_def encodeURL_def field_reads [simplified] f16.get_put_end url_ok_def)

lemma decode_encode_Host: "host_ok h \<Longrightarrow> decodeHost (h_HostKey h) (encodeHost h) = Some h"
  by (simp add: decodeHost_def encodeHost_def field_reads [simplified] f16.get_put_end host_ok_def)

end
