(* ===== verification/Encoding.thy ===== *)
theory Encoding
  imports StoreCodec PartitionOps
begin

unbundle bit_operations_syntax

text \<open>
  The column encodings of the file format (\<^verbatim>\<open>format/encoding.go\<close>) and the buffers they are written to and
  read from (\<^verbatim>\<open>format/buf.go\<close>): run length, dictionary, delta, frame of reference and delta over frame
  of reference, each with the law that decoding gives back the encoded values.  A column value is a
  64-bit word; its width is 1, 2, 4 or 8 bytes.  \<open>None\<close> is a Go panic.  Exhaustion of memory by an
  allocation whose size a corrupt payload dictates is not modelled.
\<close>

section \<open>Reading buffers\<close>

text \<open>\<open>rb_rest\<close> are the bytes of the buffer from the read position on.\<close>

record rbuf =
  rb_pos :: nat
  rb_rest :: "u8 list"
  rb_err :: bool

definition rbuf_of :: "u8 list \<Rightarrow> rbuf" where
  "rbuf_of b = \<lparr> rb_pos = 0, rb_rest = b, rb_err = False \<rparr>"

definition rb_need :: "nat \<Rightarrow> rbuf \<Rightarrow> bool \<times> rbuf" where
  "rb_need n r = (if rb_err r then (False, r)
     else if length (rb_rest r) < n then (False, r\<lparr> rb_err := True \<rparr>) else (True, r))"

definition rb_advance :: "nat \<Rightarrow> rbuf \<Rightarrow> rbuf" where
  "rb_advance n r = r\<lparr> rb_pos := rb_pos r + n, rb_rest := drop n (rb_rest r) \<rparr>"

definition rb_u8 :: "rbuf \<Rightarrow> u8 \<times> rbuf" where
  "rb_u8 r = (case rb_need 1 r of (ok, r') \<Rightarrow> if \<not> ok then (0, r') else (hd (rb_rest r'), rb_advance 1 r'))"

definition rb_u32 :: "rbuf \<Rightarrow> u32 \<times> rbuf" where
  "rb_u32 r = (case rb_need 4 r of (ok, r') \<Rightarrow> if \<not> ok then (0, r') else (Uint32 (take 4 (rb_rest r')), rb_advance 4 r'))"

definition rb_u64 :: "rbuf \<Rightarrow> u64 \<times> rbuf" where
  "rb_u64 r = (case rb_need 8 r of (ok, r') \<Rightarrow> if \<not> ok then (0, r') else (Uint64 (take 8 (rb_rest r')), rb_advance 8 r'))"

definition rb_uvarint :: "rbuf \<Rightarrow> u64 \<times> rbuf" where
  "rb_uvarint r = (if rb_err r then (0, r)
     else (case Uvarint (rb_rest r) of None \<Rightarrow> (0, r\<lparr> rb_err := True \<rparr>) | Some (v, n) \<Rightarrow> (of_nat v, rb_advance n r)))"

text \<open>\<^verbatim>\<open>bytes\<close> takes a Go int.  A negative one, or one that overflows the end position, passes the bounds
  test and panics in the slice expression.\<close>

definition rb_bytes :: "int \<Rightarrow> rbuf \<Rightarrow> (u8 list \<times> rbuf) option" where
  "rb_bytes n r = (if rb_err r then Some ([], r)
     else if n < 0 \<or> int (rb_pos r) + n \<ge> 2 ^ 63 then None
     else (case rb_need (nat n) r of (ok, r') \<Rightarrow>
        if \<not> ok then Some ([], r') else Some (take (nat n) (rb_rest r'), rb_advance (nat n) r')))"

definition at_bytes :: "nat \<Rightarrow> u8 list \<Rightarrow> rbuf" where
  "at_bytes p b = \<lparr> rb_pos = p, rb_rest = b, rb_err = False \<rparr>"

named_theorems rbuf_reads

lemma rbuf_of_at: "rbuf_of b = at_bytes 0 b"
  by (simp add: rbuf_of_def at_bytes_def)

lemma at_bytes_fields [simp]: "rb_pos (at_bytes p b) = p" "rb_rest (at_bytes p b) = b" "\<not> rb_err (at_bytes p b)"
  by (simp_all add: at_bytes_def)

lemma rb_u8_read [rbuf_reads]: "rb_u8 (at_bytes p (v # rest)) = (v, at_bytes (p + 1) rest)"
  by (simp add: rb_u8_def rb_need_def rb_advance_def at_bytes_def)

lemma rb_u32_read [rbuf_reads]: "rb_u32 (at_bytes p (PutUint32 v @ rest)) = (v, at_bytes (p + 4) rest)"
  by (simp add: rb_u32_def rb_need_def rb_advance_def at_bytes_def)

lemma rb_u64_read [rbuf_reads]: "rb_u64 (at_bytes p (PutUint64 v @ rest)) = (v, at_bytes (p + 8) rest)"
  by (simp add: rb_u64_def rb_need_def rb_advance_def at_bytes_def)

lemma rb_uvarint_read:
  "v < 2 ^ 64 \<Longrightarrow> rb_uvarint (at_bytes p (uvarint v @ rest)) = (of_nat v, at_bytes (p + length (uvarint v)) rest)"
  by (simp add: rb_uvarint_def Uvarint_uvarint rb_advance_def at_bytes_def)

lemma rb_uvarint_word [rbuf_reads]:
  "rb_uvarint (at_bytes p (uvarint (unat v) @ rest)) = (v, at_bytes (p + length (uvarint (unat v))) rest)" for v :: u64
  using rb_uvarint_read [OF unat_lt_2p64 [of v]] by simp

text \<open>A length that fits a Go int.\<close>

lemma sint_of_nat64: "n < 2 ^ 63 \<Longrightarrow> sint (of_nat n :: u64) = int n"
proof -
  assume n: "n < 2 ^ 63"
  then have "unat (of_nat n :: u64) = n" by (intro of_nat_inverse_64) simp
  then have "uint (of_nat n :: u64) = int n" by (metis uint_nat)
  then show "sint (of_nat n :: u64) = int n" using n by (simp add: sint_uint signed_take_bit_int_eq_self)
qed

section \<open>Bit arithmetic\<close>

definition zigzag :: "u64 \<Rightarrow> u64" where
  "zigzag v = push_bit 1 v XOR signed_drop_bit 63 v"

definition unzigzag :: "u64 \<Rightarrow> u64" where
  "unzigzag v = drop_bit 1 v XOR (- (v AND 1))"

lemma unat_half: "unat (drop_bit 1 v) = unat v div 2" for v :: u64
  by (subst unat_drop_bit_eq) (simp add: drop_bit_Suc)

function bitWidth :: "u64 \<Rightarrow> nat" where
  "bitWidth v = (if v > 0 then Suc (bitWidth (drop_bit 1 v)) else 0)"
  by pat_completeness auto
termination
proof (relation "measure unat")
  fix v :: u64 assume "v > 0"
  then have "unat v div 2 < unat v" by (simp add: word_less_nat_alt)
  then show "(drop_bit 1 v, v) \<in> measure unat" by (simp add: unat_half del: One_nat_def)
qed simp

declare bitWidth.simps [simp del]

section \<open>Bit packing\<close>

definition value_bits :: "nat \<Rightarrow> u64 \<Rightarrow> bool list" where
  "value_bits width v = map (\<lambda>b. v AND push_bit b 1 \<noteq> 0) [0..<width]"

fun set_bits :: "nat \<Rightarrow> bool list \<Rightarrow> u8 list \<Rightarrow> u8 list" where
  "set_bits bitpos [] out = out"
| "set_bits bitpos (b # bs) out =
     set_bits (Suc bitpos) bs (if b then out[bitpos div 8 := out ! (bitpos div 8) OR push_bit (bitpos mod 8) 1] else out)"

definition bitpack :: "u64 list \<Rightarrow> nat \<Rightarrow> u8 list" where
  "bitpack vals width =
     (if width = 0 then []
      else set_bits 0 (concat (map (value_bits width) vals)) (replicate ((length vals * width + 7) div 8) 0))"

definition get_bit :: "u8 list \<Rightarrow> nat \<Rightarrow> bool" where
  "get_bit b p \<longleftrightarrow> p div 8 < length b \<and> b ! (p div 8) AND push_bit (p mod 8) 1 \<noteq> 0"

definition bitunpack :: "u8 list \<Rightarrow> nat \<Rightarrow> nat \<Rightarrow> u64 list" where
  "bitunpack b n width =
     (if width = 0 then replicate n 0
      else map (\<lambda>i. foldl (\<lambda>v k. if get_bit b (i * width + k) then v OR push_bit k 1 else v) 0 [0..<width]) [0..<n])"

section \<open>Fixed-width values\<close>

definition putWidth :: "u64 \<Rightarrow> nat \<Rightarrow> u8 list" where
  "putWidth v width =
     (if width = 1 then [ucast v] else if width = 2 then PutUint16 (ucast v)
      else if width = 4 then PutUint32 (ucast v) else if width = 8 then PutUint64 v else [])"

definition getWidth :: "rbuf \<Rightarrow> nat \<Rightarrow> u64 \<times> rbuf" where
  "getWidth r width =
     (if width = 1 then map_prod ucast id (rb_u8 r)
      else if width = 2 then
        (case rb_need 2 r of (ok, r') \<Rightarrow> if \<not> ok then (0, r') else (ucast (Uint16 (take 2 (rb_rest r'))), rb_advance 2 r'))
      else if width = 4 then map_prod ucast id (rb_u32 r)
      else if width = 8 then rb_u64 r
      else (0, r))"

text \<open>The callers read only indexes that are in the data.\<close>

definition readUintWidth :: "u8 list \<Rightarrow> nat \<Rightarrow> nat \<Rightarrow> u64" where
  "readUintWidth data i width =
     (if width = 1 then ucast (data ! i)
      else if width = 2 then ucast (Uint16 (take 2 (drop (i * 2) data)))
      else if width = 4 then ucast (Uint32 (take 4 (drop (i * 4) data)))
      else if width = 8 then Uint64 (take 8 (drop (i * 8) data))
      else 0)"

definition readValues :: "u8 list \<Rightarrow> nat \<Rightarrow> u64 list" where
  "readValues data width = map (\<lambda>i. readUintWidth data i width) [0..<(if width > 0 then length data div width else 0)]"

definition writeValues :: "u64 list \<Rightarrow> nat \<Rightarrow> u8 list" where
  "writeValues vals width =
     concat (map (\<lambda>v. if width \<in> {1, 2, 4, 8} then putWidth v width else replicate width 0) vals)"

section \<open>The encodings\<close>

definition EncRaw :: u8 where "EncRaw = 0"
definition EncDict :: u8 where "EncDict = 1"
definition EncDelta :: u8 where "EncDelta = 2"
definition EncFOR :: u8 where "EncFOR = 3"
definition EncRLE :: u8 where "EncRLE = 4"
definition EncDeltaFOR :: u8 where "EncDeltaFOR = 6"

function rle_runs :: "u64 list \<Rightarrow> (u64 \<times> nat) list" where
  "rle_runs [] = []"
| "rle_runs (v # vs) = (v, Suc (length (takeWhile (\<lambda>x. x = v) vs))) # rle_runs (dropWhile (\<lambda>x. x = v) vs)"
  by pat_completeness auto
termination
  by (relation "measure length") (simp_all add: le_imp_less_Suc length_dropWhile_le)

definition encodeRLE :: "u64 list \<Rightarrow> nat \<Rightarrow> u8 list" where
  "encodeRLE vals width =
     (let runs = rle_runs vals in
      uvarint (length runs) @ concat (map (\<lambda>(v, n). putWidth v width @ uvarint n) runs))"

fun rle_loop :: "nat \<Rightarrow> nat \<Rightarrow> rbuf \<Rightarrow> u64 list \<Rightarrow> u64 list \<times> rbuf" where
  "rle_loop width 0 r out = (out, r)"
| "rle_loop width (Suc runs) r out =
     (let (v, r1) = getWidth r width; (ln, r2) = rb_uvarint r1 in
      rle_loop width runs r2 (out @ replicate (nat (sint ln)) v))"

definition decodeRLE :: "u8 list \<Rightarrow> nat \<Rightarrow> nat \<Rightarrow> format_error + u64 list" where
  "decodeRLE payload n width =
     (let (runs, r) = rb_uvarint (rbuf_of payload); (out, r') = rle_loop width (nat (sint runs)) r [] in
      if rb_err r' \<or> length out \<noteq> n then Inl ErrCorrupt else Inr out)"

fun dict_loop :: "u64 list \<Rightarrow> (u64, nat) gomap \<Rightarrow> u64 list \<Rightarrow> u64 list \<Rightarrow> u64 list \<times> u64 list" where
  "dict_loop [] index dict codes = (dict, codes)"
| "dict_loop (v # vs) index dict codes =
     (case mget index v of
        Some c \<Rightarrow> dict_loop vs index dict (codes @ [of_nat c])
      | None \<Rightarrow> dict_loop vs (mput v (length dict) index) (dict @ [v]) (codes @ [of_nat (length dict)]))"

definition encodeDict :: "u64 list \<Rightarrow> nat \<Rightarrow> u8 list" where
  "encodeDict vals width =
     (let (dict, codes) = dict_loop vals [] [] [];
          cw = (if length dict > 1 then bitWidth (of_nat (length dict - 1)) else 0) in
      uvarint (length dict) @ concat (map (\<lambda>v. putWidth v width) dict) @ [of_nat cw] @ bitpack codes cw)"

fun get_widths :: "nat \<Rightarrow> nat \<Rightarrow> rbuf \<Rightarrow> u64 list \<times> rbuf" where
  "get_widths width 0 r = ([], r)"
| "get_widths width (Suc n) r =
     (let (v, r1) = getWidth r width; (vs, r2) = get_widths width n r1 in (v # vs, r2))"

text \<open>The bound test converts a code to a signed int, the index expression does not.\<close>

fun dict_values :: "u64 list \<Rightarrow> u64 list \<Rightarrow> (format_error + u64 list) option" where
  "dict_values dict [] = Some (Inr [])"
| "dict_values dict (c # cs) =
     (if sint c \<ge> int (length dict) then Some (Inl ErrCorrupt)
      else if unat c \<ge> length dict then None
      else map_option (map_sum id (\<lambda>vs. dict ! unat c # vs)) (dict_values dict cs))"

definition decodeDict :: "u8 list \<Rightarrow> nat \<Rightarrow> nat \<Rightarrow> (format_error + u64 list) option" where
  "decodeDict payload n width =
     (if n = 0 then Some (Inr [])
      else
        (let (dn, r) = rb_uvarint (rbuf_of payload) in
         if rb_err r \<or> sint dn < 0 then Some (Inl ErrCorrupt)
         else
           (let (dict, r1) = get_widths width (nat (sint dn)) r; (cw, r2) = rb_u8 r1 in
            if rb_err r2 then Some (Inl ErrCorrupt)
            else dict_values dict (bitunpack (rb_rest r2) n (unat cw)))))"

fun zigzags :: "u64 \<Rightarrow> u64 list \<Rightarrow> u64 list" where
  "zigzags prev [] = []"
| "zigzags prev (v # vs) = zigzag (v - prev) # zigzags v vs"

definition encodeDelta :: "u64 list \<Rightarrow> u8 list \<times> u64" where
  "encodeDelta vals =
     (case vals of [] \<Rightarrow> ([], 0) | base # vs \<Rightarrow> (concat (map (\<lambda>d. uvarint (unat d)) (zigzags base vs)), base))"

fun get_deltas :: "nat \<Rightarrow> u64 \<Rightarrow> rbuf \<Rightarrow> u64 list \<times> rbuf" where
  "get_deltas 0 prev r = ([], r)"
| "get_deltas (Suc n) prev r =
     (let (z, r1) = rb_uvarint r; v = prev + unzigzag z; (vs, r2) = get_deltas n v r1 in (v # vs, r2))"

definition decodeDelta :: "u8 list \<Rightarrow> nat \<Rightarrow> u64 \<Rightarrow> format_error + u64 list" where
  "decodeDelta payload n base =
     (if n = 0 then Inr []
      else (let (vs, r) = get_deltas (n - 1) base (rbuf_of payload) in if rb_err r then Inl ErrCorrupt else Inr (base # vs)))"

definition min_max :: "u64 list \<Rightarrow> u64 \<Rightarrow> u64 \<times> u64" where
  "min_max vals v0 = foldl (\<lambda>(mn, mx) v. (if v < mn then v else mn, if v > mx then v else mx)) (v0, v0) vals"

definition encodeFOR :: "u64 list \<Rightarrow> u8 list \<times> u64" where
  "encodeFOR vals =
     (if vals = [] then ([], 0)
      else (let (mn, mx) = min_max vals (hd vals); bw = bitWidth (mx - mn) in
            (of_nat bw # bitpack (map (\<lambda>v. v - mn) vals) bw, mn)))"

definition decodeFOR :: "u8 list \<Rightarrow> nat \<Rightarrow> u64 \<Rightarrow> format_error + u64 list" where
  "decodeFOR payload n base =
     (if n = 0 then Inr []
      else (let (bw, r) = rb_u8 (rbuf_of payload) in
            if rb_err r then Inl ErrCorrupt
            else Inr (map (\<lambda>v. base + v) (bitunpack (rb_rest r) n (unat bw)))))"

definition encodeDeltaFOR :: "u64 list \<Rightarrow> u8 list \<times> u64" where
  "encodeDeltaFOR vals =
     (case vals of
        [] \<Rightarrow> ([], 0)
      | base # vs \<Rightarrow>
          (let deltas = zigzags base vs in
           if deltas \<noteq> [] then
             (let (dmin, dmax) = min_max deltas (hd deltas); bw = bitWidth (dmax - dmin) in
              (of_nat bw # uvarint (unat dmin) @ bitpack (map (\<lambda>d. d - dmin) deltas) bw, base))
           else (0 # uvarint 0, base)))"

fun undelta :: "u64 \<Rightarrow> u64 list \<Rightarrow> u64 list" where
  "undelta prev [] = []"
| "undelta prev (d # ds) = (let v = prev + unzigzag d in v # undelta v ds)"

definition decodeDeltaFOR :: "u8 list \<Rightarrow> nat \<Rightarrow> u64 \<Rightarrow> format_error + u64 list" where
  "decodeDeltaFOR payload n base =
     (if n = 0 then Inr []
      else if n = 1 then Inr [base]
      else (let (bw, r) = rb_u8 (rbuf_of payload); (dmin, r1) = rb_uvarint r in
            if rb_err r1 then Inl ErrCorrupt
            else Inr (base # undelta base (map (\<lambda>v. v + dmin) (bitunpack (rb_rest r1) (n - 1) (unat bw))))))"

definition encodeValues :: "u8 \<Rightarrow> u64 list \<Rightarrow> nat \<Rightarrow> u8 list \<times> u64" where
  "encodeValues enc vals width =
     (if enc = EncRLE then (encodeRLE vals width, 0)
      else if enc = EncDict then (encodeDict vals width, 0)
      else if enc = EncDelta then encodeDelta vals
      else if enc = EncFOR then encodeFOR vals
      else if enc = EncDeltaFOR then encodeDeltaFOR vals
      else (writeValues vals width, 0))"

definition decodeValues :: "u8 \<Rightarrow> u8 list \<Rightarrow> nat \<Rightarrow> nat \<Rightarrow> u64 \<Rightarrow> (format_error + u64 list) option" where
  "decodeValues enc payload n width pageBase =
     (if enc = EncRaw then Some (Inr (readValues payload width))
      else if enc = EncRLE then Some (decodeRLE payload n width)
      else if enc = EncDict then decodeDict payload n width
      else if enc = EncDelta then Some (decodeDelta payload n pageBase)
      else if enc = EncFOR then Some (decodeFOR payload n pageBase)
      else if enc = EncDeltaFOR then Some (decodeDeltaFOR payload n pageBase)
      else Some (Inl (errUnknownEncoding enc)))"


section \<open>Bits\<close>

lemma unzigzag_zigzag: "unzigzag (zigzag v) = v"
proof -
  have z: "bit (zigzag v) n \<longleftrightarrow> (1 \<le> n \<and> bit v (n - 1)) \<noteq> bit v 63" if "n < 64" for n
    using that unfolding zigzag_def bit_xor_iff bit_push_bit_iff bit_signed_drop_bit_iff by (cases n) auto
  have "zigzag v AND 1 = of_bool (bit (zigzag v) 0)" by (simp add: and_one_eq mod_2_eq_odd bit_0)
  then have "zigzag v AND 1 = of_bool (bit v 63)" using z [of 0] by simp
  then have u: "unzigzag (zigzag v) = drop_bit 1 (zigzag v) XOR (if bit v 63 then - 1 else 0)" by (simp add: unzigzag_def)
  show ?thesis
  proof (rule bit_word_eqI)
    fix n assume n: "n < LENGTH(64)"
    have top: "\<not> bit (zigzag v) 64" using bit_imp_le_length [of "zigzag v" 64] by auto
    have "bit (unzigzag (zigzag v)) n \<longleftrightarrow> bit (zigzag v) (1 + n) \<noteq> bit v 63"
      using n unfolding u bit_xor_iff bit_drop_bit_eq by auto
    also have "\<dots> \<longleftrightarrow> bit v n"
      using n z [of "1 + n"] top by (cases "n = 63") auto
    finally show "bit (unzigzag (zigzag v)) n = bit v n" .
  qed
qed

lemma bitWidth_bound: "unat v < 2 ^ bitWidth v"
proof (induction v rule: bitWidth.induct)
  case (1 v)
  show ?case
  proof (cases "v > 0")
    case True
    have "unat v div 2 < 2 ^ bitWidth (drop_bit 1 v)"
      using 1 [OF True] by (simp add: unat_half del: One_nat_def)
    then show ?thesis using True by (subst bitWidth.simps) simp
  qed (simp add: bitWidth.simps word_less_nat_alt)
qed

lemma bitWidth_le: "unat v < 2 ^ k \<Longrightarrow> bitWidth v \<le> k"
proof (induction k arbitrary: v)
  case 0
  then show ?case by (simp add: bitWidth.simps word_less_nat_alt)
next
  case (Suc k)
  have "unat (drop_bit 1 v) < 2 ^ k" using Suc.prems by (simp add: unat_half del: One_nat_def)
  from Suc.IH [OF this] show ?case by (subst bitWidth.simps) simp
qed

lemma bitWidth_64: "bitWidth v \<le> 64"
  using bitWidth_le [OF unat_lt_2p64] .

lemma fits_no_bit: "unat v < 2 ^ w \<Longrightarrow> w \<le> n \<Longrightarrow> \<not> bit v n" for v :: u64
proof -
  assume "unat v < 2 ^ w" "w \<le> n"
  moreover have "(2 :: nat) ^ w \<le> 2 ^ n" using \<open>w \<le> n\<close> by (simp add: power_increasing)
  ultimately have "unat v < 2 ^ n" by linarith
  then have "unat v div 2 ^ n = 0" by (rule div_less)
  then have "\<not> bit (unat v) n" by (simp add: bit_iff_odd)
  then show "\<not> bit v n" by (simp add: bit_unsigned_iff)
qed

lemma get_bit_iff: "get_bit b p \<longleftrightarrow> p div 8 < length b \<and> bit (b ! (p div 8)) (p mod 8)"
  by (simp add: get_bit_def bit_iff_and_push_bit_not_eq_0)

lemma get_bit_set:
  assumes "p div 8 < length out"
  shows "get_bit (out[p div 8 := out ! (p div 8) OR push_bit (p mod 8) 1]) q \<longleftrightarrow> q = p \<or> get_bit out q"
proof (cases "q div 8 = p div 8")
  case True
  have "q = p \<longleftrightarrow> q mod 8 = p mod 8" using True by (metis div_mult_mod_eq)
  then show ?thesis using True assms by (auto simp: get_bit_iff bit_simps)
next
  case False
  then show ?thesis by (auto simp: get_bit_iff)
qed

lemmas get_bit_set_simp = get_bit_set [simplified]

lemma length_set_bits: "length (set_bits p bs out) = length out"
  by (induction p bs out rule: set_bits.induct) simp_all

lemma get_bit_set_bits:
  assumes "p + length bs \<le> 8 * length out"
  shows "get_bit (set_bits p bs out) q \<longleftrightarrow> get_bit out q \<or> (p \<le> q \<and> q < p + length bs \<and> bs ! (q - p))"
  using assms
proof (induction bs arbitrary: p out)
  case (Cons b bs)
  have d: "p div 8 < length out" using Cons.prems by (simp add: less_mult_imp_div_less mult.commute)
  show ?case
  proof (cases "q = p")
    case True
    then show ?thesis using Cons d by (simp add: get_bit_set_simp)
  next
    case False
    then have "(p \<le> q \<and> q < p + length (b # bs) \<and> (b # bs) ! (q - p)) \<longleftrightarrow> (Suc p \<le> q \<and> q < Suc p + length bs \<and> bs ! (q - Suc p))"
      by (auto simp: nth_Cons' Suc_diff_le)
    then show ?thesis using Cons d False by (simp add: get_bit_set_simp)
  qed
qed auto

lemma nth_concat_uniform:
  "(\<And>x. x \<in> set xs \<Longrightarrow> length (f x) = w) \<Longrightarrow> i < length xs \<Longrightarrow> k < w \<Longrightarrow> concat (map f xs) ! (i * w + k) = f (xs ! i) ! k"
proof (induction xs arbitrary: i)
  case (Cons x xs)
  then show ?case by (cases i) (simp_all add: nth_append add.assoc)
qed simp

lemma length_concat_uniform: "(\<And>x. x \<in> set xs \<Longrightarrow> length (f x) = w) \<Longrightarrow> length (concat (map f xs)) = length xs * w"
  by (induction xs) simp_all

lemma bit_or_positions:
  "bit (foldl (\<lambda>v k. if P k then v OR push_bit k 1 else v) (a :: u64) ks) n \<longleftrightarrow> bit a n \<or> (n < 64 \<and> n \<in> set ks \<and> P n)"
  by (induction ks arbitrary: a) (auto simp: bit_simps)

lemma bitunpack_bitpack:
  assumes "\<And>v. v \<in> set vals \<Longrightarrow> unat v < 2 ^ w"
  shows "bitunpack (bitpack vals w) (length vals) w = vals"
proof (cases "w = 0")
  case True
  then have "\<forall>v \<in> set vals. v = 0" using assms by (auto simp: word_unat_eq_iff)
  then have "vals = replicate (length vals) 0" by (simp add: replicate_length_same)
  then show ?thesis using True by (simp add: bitunpack_def)
next
  case False
  let ?bits = "concat (map (value_bits w) vals)" and ?zero = "replicate ((length vals * w + 7) div 8) 0 :: u8 list"
  have len: "length ?bits = length vals * w" by (rule length_concat_uniform) (simp add: value_bits_def)
  have room: "0 + length ?bits \<le> 8 * length ?zero" unfolding len by simp
  have z: "\<not> get_bit ?zero q" for q by (auto simp: get_bit_iff)
  have b: "get_bit (bitpack vals w) (i * w + k) \<longleftrightarrow> bit (vals ! i) k" if "i < length vals" "k < w" for i k
  proof -
    have "i * w + k < Suc i * w" using that(2) by simp
    also have "\<dots> \<le> length vals * w" using that(1) by (intro mult_le_mono1) simp
    finally have "i * w + k < length vals * w" .
    moreover have "?bits ! (i * w + k) = value_bits w (vals ! i) ! k"
      using that by (intro nth_concat_uniform) (simp_all add: value_bits_def)
    ultimately show ?thesis
      using False get_bit_set_bits [OF room, of "i * w + k"] z len that(2)
      by (simp add: bitpack_def value_bits_def bit_iff_and_push_bit_not_eq_0)
  qed
  have "foldl (\<lambda>v k. if get_bit (bitpack vals w) (i * w + k) then v OR push_bit k 1 else v) 0 [0..<w] = vals ! i"
    if "i < length vals" for i
  proof (rule bit_word_eqI)
    fix n assume "n < LENGTH(64)"
    then show "bit (foldl (\<lambda>v k. if get_bit (bitpack vals w) (i * w + k) then v OR push_bit k 1 else v) (0 :: u64) [0..<w]) n = bit (vals ! i) n"
      using bit_or_positions [of "\<lambda>k. get_bit (bitpack vals w) (i * w + k)" 0 "[0..<w]" n] b [OF that]
        fits_no_bit [OF assms [OF nth_mem [OF that]], of n] by (cases "n < w") simp_all
  qed
  then show ?thesis using False by (intro nth_equalityI) (simp_all add: bitunpack_def)
qed


section \<open>Fixed-width values read back\<close>

text \<open>The widths of the columns and the values that fit them.\<close>

definition width_ok :: "nat \<Rightarrow> bool" where
  "width_ok width \<longleftrightarrow> width \<in> {1, 2, 4, 8}"

definition fits :: "nat \<Rightarrow> u64 \<Rightarrow> bool" where
  "fits width v \<longleftrightarrow> unat v < 256 ^ width"

lemma ucast_ucast_fits: "unat v < 2 ^ LENGTH('b) \<Longrightarrow> ucast (ucast v :: 'b::len word) = v" for v :: u64
  by (intro word_unat_eq_iff [THEN iffD2]) (simp add: unsigned_ucast_eq unsigned_take_bit_eq take_bit_nat_eq_self)

lemma fits_cast:
  "fits 1 v \<Longrightarrow> ucast (ucast v :: u8) = v" "fits 2 v \<Longrightarrow> ucast (ucast v :: u16) = v" "fits 4 v \<Longrightarrow> ucast (ucast v :: u32) = v"
  by (simp_all add: fits_def ucast_ucast_fits)

lemma length_putWidth: "width_ok width \<Longrightarrow> length (putWidth v width) = width"
  by (auto simp: width_ok_def putWidth_def)

lemma getWidth_put [rbuf_reads]:
  "width_ok width \<Longrightarrow> fits width v \<Longrightarrow> getWidth (at_bytes p (putWidth v width @ rest)) width = (v, at_bytes (p + width) rest)"
  by (auto simp: width_ok_def getWidth_def putWidth_def rb_u8_def rb_u32_def rb_u64_def fits_cast [simplified] rb_need_def rb_advance_def at_bytes_def)

lemma readUintWidth_put:
  assumes "width_ok width" "fits width v" "length pre = i * width"
  shows "readUintWidth (pre @ putWidth v width @ rest) i width = v"
  using assms by (auto simp: width_ok_def readUintWidth_def putWidth_def fits_cast [simplified] nth_append)

lemma writeValues_width: "width_ok width \<Longrightarrow> writeValues vals width = concat (map (\<lambda>v. putWidth v width) vals)"
  by (auto simp: writeValues_def width_ok_def)

lemma length_writeValues: "width_ok width \<Longrightarrow> length (writeValues vals width) = length vals * width"
  by (simp add: writeValues_width length_concat_uniform length_putWidth)

lemma readValues_writeValues:
  assumes "width_ok width" "list_all (fits width) vals"
  shows "readValues (writeValues vals width) width = vals"
proof (rule nth_equalityI)
  have w: "width > 0" using assms(1) by (auto simp: width_ok_def)
  then have n: "length (writeValues vals width) div width = length vals" by (simp add: length_writeValues [OF assms(1)])
  then show "length (readValues (writeValues vals width) width) = length vals" using w by (simp add: readValues_def)
  fix i assume "i < length (readValues (writeValues vals width) width)"
  then have i: "i < length vals" using w n by (simp add: readValues_def)
  let ?f = "\<lambda>v. putWidth v width"
  have "vals = take i vals @ vals ! i # drop (Suc i) vals" using i by (simp add: id_take_nth_drop)
  then have "writeValues vals width = concat (map ?f (take i vals)) @ putWidth (vals ! i) width @ concat (map ?f (drop (Suc i) vals))"
    unfolding writeValues_width [OF assms(1)] by (metis concat.simps(2) concat_append list.simps(9) map_append)
  moreover have "length (concat (map ?f (take i vals))) = i * width"
    using i by (subst length_concat_uniform [where w = width]) (simp_all add: length_putWidth [OF assms(1)])
  ultimately have "readUintWidth (writeValues vals width) i width = vals ! i"
    using readUintWidth_put [OF assms(1)] assms(2) i by (simp add: list_all_length)
  then show "readValues (writeValues vals width) width ! i = vals ! i" using i w n by (simp add: readValues_def)
qed

section \<open>Every encoding reads back\<close>

text \<open>The law of a value codec: what it wrote for a column page of fewer than \<open>2^32\<close> values that fit the
  width is read back.\<close>

locale value_codec =
  fixes put :: "u64 list \<Rightarrow> nat \<Rightarrow> u8 list \<times> u64"
    and get :: "u8 list \<Rightarrow> nat \<Rightarrow> nat \<Rightarrow> u64 \<Rightarrow> (format_error + u64 list) option"
  assumes get_put: "width_ok width \<Longrightarrow> list_all (fits width) vals \<Longrightarrow> length vals < 2 ^ 32 \<Longrightarrow>
      get (fst (put vals width)) (length vals) width (snd (put vals width)) = Some (Inr vals)"

interpretation raw: value_codec "\<lambda>vals width. (writeValues vals width, 0)" "\<lambda>b n width base. Some (Inr (readValues b width))"
  by unfold_locales (simp add: readValues_writeValues)

text \<open>Run length.\<close>

lemma rle_runs_expand: "concat (map (\<lambda>(v, n). replicate n v) (rle_runs vals)) = vals"
proof (induction vals rule: rle_runs.induct)
  case (2 v vs)
  have "takeWhile (\<lambda>x. x = v) vs = replicate (length (takeWhile (\<lambda>x. x = v) vs)) v"
    by (intro replicate_length_same [symmetric]) (auto dest: set_takeWhileD)
  then show ?case using 2 by (simp flip: append_assoc)
qed simp

lemma rle_runs_bounds: "(v, n) \<in> set (rle_runs vals) \<Longrightarrow> v \<in> set vals \<and> n \<le> length vals"
proof (induction vals rule: rle_runs.induct)
  case (2 w vs)
  then show ?case using length_takeWhile_le [of "\<lambda>x. x = w" vs] length_dropWhile_le [of "\<lambda>x. x = w" vs]
    by (auto dest: set_dropWhileD le_trans)
qed simp

lemma rle_runs_count: "length (rle_runs vals) \<le> length vals"
proof (induction vals rule: rle_runs.induct)
  case (2 v vs)
  then show ?case using length_dropWhile_le [of "\<lambda>x. x = v" vs] by simp
qed simp

lemma rle_loop_read:
  assumes "width_ok width" "list_all (\<lambda>(v, n). fits width v \<and> n < 2 ^ 32) rs"
  shows "\<exists>p'. rle_loop width (length rs) (at_bytes p (concat (map (\<lambda>(v, n). putWidth v width @ uvarint n) rs))) out
     = (out @ concat (map (\<lambda>(v, n). replicate n v) rs), at_bytes p' [])"
  using assms(2)
proof (induction rs arbitrary: p out)
  case (Cons r rs)
  obtain v n where r: "r = (v, n)" by fastforce
  have ok: "fits width v" "n < 2 ^ 32" using Cons.prems r by auto
  then have n: "n < 2 ^ 64" "sint (of_nat n :: u64) = int n" by (simp_all add: sint_of_nat64)
  show ?case using Cons.IH [of "p + width + length (uvarint n)" "out @ replicate n v"] Cons.prems
    by (simp add: r getWidth_put [OF assms(1) ok(1)] rb_uvarint_read [OF n(1)] n(2))
qed auto

interpretation rle: value_codec "\<lambda>vals width. (encodeRLE vals width, 0)" "\<lambda>b n width base. Some (decodeRLE b n width)"
proof
  fix width vals assume w: "width_ok width" "list_all (fits width) vals" "length vals < 2 ^ 32"
  let ?rs = "rle_runs vals"
  have len: "length ?rs < 2 ^ 32" using rle_runs_count [of vals] w(3) by linarith
  then have c: "length ?rs < 2 ^ 64" "sint (of_nat (length ?rs) :: u64) = int (length ?rs)" by (simp_all add: sint_of_nat64)
  have "list_all (\<lambda>(v, n). fits width v \<and> n < 2 ^ 32) ?rs"
    using rle_runs_bounds w(2,3) by (fastforce simp: list_all_iff)
  from rle_loop_read [OF w(1) this, of "length (uvarint (length ?rs))" "[]"] obtain p' where
    "rle_loop width (length ?rs) (at_bytes (length (uvarint (length ?rs))) (concat (map (\<lambda>(v, n). putWidth v width @ uvarint n) ?rs))) []
      = (vals, at_bytes p' [])" by (auto simp: rle_runs_expand)
  then show "Some (decodeRLE (fst (encodeRLE vals width, 0)) (length vals) width) = Some (Inr vals)"
    by (simp add: decodeRLE_def encodeRLE_def rbuf_of_at rb_uvarint_read [OF c(1)] c(2) Let_def)
qed


text \<open>Dictionary.\<close>

lemma dict_loop_codes:
  assumes "\<And>v c. mget index v = Some c \<longleftrightarrow> c < length dict \<and> dict ! c = v" "length dict + length vs < 2 ^ 33"
  shows "\<exists>ext cs. dict_loop vs index dict codes = (dict @ ext, codes @ cs) \<and> length ext \<le> length vs \<and> set ext \<subseteq> set vs
     \<and> list_all (\<lambda>c. unat c < length (dict @ ext)) cs \<and> map (\<lambda>c. (dict @ ext) ! unat c) cs = vs"
  using assms
proof (induction vs arbitrary: index dict codes)
  case (Cons v vs)
  show ?case
  proof (cases "mget index v")
    case None
    let ?n = "length dict"
    have "v \<notin> set dict" using None Cons.prems(1) by (metis in_set_conv_nth option.distinct(1))
    then have "mget (mput v ?n index) x = Some c \<longleftrightarrow> c < length (dict @ [v]) \<and> (dict @ [v]) ! c = x" for x c
      using Cons.prems(1) by (auto simp: nth_append less_Suc_eq)
    moreover have "length (dict @ [v]) + length vs < 2 ^ 33" using Cons.prems(2) by simp
    ultimately obtain ext cs where r: "dict_loop vs (mput v ?n index) (dict @ [v]) (codes @ [of_nat ?n]) = ((dict @ [v]) @ ext, (codes @ [of_nat ?n]) @ cs)"
      "length ext \<le> length vs" "set ext \<subseteq> set vs" "list_all (\<lambda>c. unat c < length ((dict @ [v]) @ ext)) cs"
      "map (\<lambda>c. ((dict @ [v]) @ ext) ! unat c) cs = vs" using Cons.IH by blast
    have "unat (of_nat ?n :: u64) = ?n" using Cons.prems(2) by (intro of_nat_inverse_64) simp
    then show ?thesis using r None
      by (intro exI [of _ "v # ext"] exI [of _ "of_nat ?n # cs"]) (auto simp: nth_append)
  next
    case (Some c)
    from Cons.IH [OF Cons.prems(1), of "codes @ [of_nat c]"] Cons.prems(2) obtain ext cs where
      r: "dict_loop vs index dict (codes @ [of_nat c]) = (dict @ ext, (codes @ [of_nat c]) @ cs)" "length ext \<le> length vs" "set ext \<subseteq> set vs"
      "list_all (\<lambda>c. unat c < length (dict @ ext)) cs" "map (\<lambda>c. (dict @ ext) ! unat c) cs = vs" by auto
    have c: "c < length dict" "dict ! c = v" using Some Cons.prems(1) by auto
    then have "unat (of_nat c :: u64) = c" using Cons.prems(2) by (intro of_nat_inverse_64) simp
    then show ?thesis using r Some c
      by (intro exI [of _ ext] exI [of _ "of_nat c # cs"]) (auto simp: nth_append)
  qed
qed auto

lemma get_widths_read:
  "width_ok width \<Longrightarrow> list_all (fits width) vs \<Longrightarrow>
     get_widths width (length vs) (at_bytes p (concat (map (\<lambda>v. putWidth v width) vs) @ rest)) = (vs, at_bytes (p + length vs * width) rest)"
  by (induction vs arbitrary: p) (simp_all add: getWidth_put add.assoc)

lemma dict_values_ok:
  "length dict < 2 ^ 63 \<Longrightarrow> list_all (\<lambda>c. unat c < length dict) cs \<Longrightarrow> dict_values dict cs = Some (Inr (map (\<lambda>c. dict ! unat c) cs))"
proof (induction cs)
  case (Cons c cs)
  then have "sint (of_nat (unat c) :: u64) = int (unat c)" by (intro sint_of_nat64) simp
  then have "sint c = uint c" by simp
  moreover have "uint c < int (length dict)"
    unfolding uint_nat using Cons.prems(2) by (simp only: list.pred_inject(2) of_nat_less_iff)
  ultimately show ?case using Cons by simp
qed simp

lemma unat_byte_width: "w \<le> 64 \<Longrightarrow> unat (of_nat w :: u8) = w"
  by (intro of_nat_inverse_8) simp

interpretation dict: value_codec "\<lambda>vals width. (encodeDict vals width, 0)" "\<lambda>b n width base. decodeDict b n width"
proof
  fix width vals assume w: "width_ok width" "list_all (fits width) vals" "length vals < 2 ^ 32"
  obtain dict cs where d: "dict_loop vals [] [] [] = (dict, cs)" "length dict \<le> length vals" "set dict \<subseteq> set vals"
    "list_all (\<lambda>c. unat c < length dict) cs" "map (\<lambda>c. dict ! unat c) cs = vals"
    using dict_loop_codes [of "[]" "[]" vals "[]"] w(3) by auto
  define cw where "cw = (if length dict > 1 then bitWidth (of_nat (length dict - 1)) else 0)"
  have cw: "unat (of_nat cw :: u8) = cw" using bitWidth_64 by (intro unat_byte_width) (simp add: cw_def)
  have "unat c < 2 ^ cw" if "c \<in> set cs" for c
  proof -
    have c: "unat c < length dict" using d(4) that by (simp add: list_all_iff)
    have "unat (of_nat (length dict - 1) :: u64) = length dict - 1" using d(2) w(3) by (intro of_nat_inverse_64) simp
    then show ?thesis using c bitWidth_bound [of "of_nat (length dict - 1)"] by (auto simp: cw_def)
  qed
  from bitunpack_bitpack [OF this] have u: "bitunpack (bitpack cs cw) (length vals) cw = cs" using d(5) by (metis length_map)
  have c: "length dict < 2 ^ 64" "sint (of_nat (length dict) :: u64) = int (length dict)" "length dict < 2 ^ 63"
    using d(2) w(3) by (simp_all add: sint_of_nat64)
  have f: "list_all (fits width) dict" using d(3) w(2) by (auto simp: list_all_iff)
  have e: "encodeDict vals width = uvarint (length dict) @ concat (map (\<lambda>v. putWidth v width) dict) @ of_nat cw # bitpack cs cw"
    unfolding encodeDict_def d(1) Let_def prod.case cw_def by simp
  show "decodeDict (fst (encodeDict vals width, 0)) (length vals) width = Some (Inr vals)"
    unfolding decodeDict_def fst_conv e
    by (simp add: Let_def rbuf_of_at rb_uvarint_read [OF c(1)] c(2) get_widths_read [OF w(1) f] rbuf_reads cw u dict_values_ok [OF c(3) d(4)] d(5))
qed


text \<open>Deltas.\<close>

lemma undelta_zigzags: "undelta prev (zigzags prev vs) = vs"
  by (induction vs arbitrary: prev) (simp_all add: unzigzag_zigzag)

lemma length_zigzags [simp]: "length (zigzags prev vs) = length vs"
  by (induction vs arbitrary: prev) simp_all

lemma get_deltas_read:
  "\<exists>p'. get_deltas (length vs) prev (at_bytes p (concat (map (\<lambda>d. uvarint (unat d)) (zigzags prev vs)))) = (vs, at_bytes p' [])"
proof (induction vs arbitrary: prev p)
  case (Cons v vs)
  let ?z = "zigzag (v - prev)"
  from Cons.IH [of v "p + length (uvarint (unat ?z))"] show ?case by (auto simp: rbuf_reads unzigzag_zigzag)
qed auto

interpretation delta: value_codec "\<lambda>vals width. encodeDelta vals" "\<lambda>b n width base. Some (decodeDelta b n base)"
proof
  fix width vals
  show "Some (decodeDelta (fst (encodeDelta vals)) (length vals) (snd (encodeDelta vals))) = Some (Inr vals)"
  proof (cases vals)
    case (Cons base vs)
    from get_deltas_read [of vs base 0] obtain p' where
      "get_deltas (length vs) base (at_bytes 0 (concat (map (\<lambda>d. uvarint (unat d)) (zigzags base vs)))) = (vs, at_bytes p' [])" by blast
    then show ?thesis using Cons by (simp add: decodeDelta_def encodeDelta_def rbuf_of_at)
  qed (simp add: decodeDelta_def encodeDelta_def)
qed

text \<open>Frame of reference.\<close>

lemma min_max_bounds:
  "min_max vals v0 = (mn, mx) \<Longrightarrow> mn \<le> v0 \<and> v0 \<le> mx \<and> (\<forall>v \<in> set vals. mn \<le> v \<and> v \<le> mx)"
proof -
  let ?f = "\<lambda>(mn, mx) v. (if v < mn then v else mn, if v > mx then v else mx :: u64)"
  have "foldl ?f (a, b) vals = (mn, mx) \<Longrightarrow> a \<le> b \<Longrightarrow> mn \<le> a \<and> b \<le> mx \<and> (\<forall>v \<in> set vals. mn \<le> v \<and> v \<le> mx)" for a b
  proof (induction vals arbitrary: a b)
    case (Cons v vals)
    let ?a = "if v < a then v else a" and ?b = "if v > b then v else b"
    have ab: "?a \<le> a" "b \<le> ?b" "?a \<le> v" "v \<le> ?b" "?a \<le> ?b" using Cons.prems(2) by auto
    have "mn \<le> ?a \<and> ?b \<le> mx \<and> (\<forall>v \<in> set vals. mn \<le> v \<and> v \<le> mx)" using Cons.IH [of ?a ?b] Cons.prems(1) ab(5) by simp
    then have "mn \<le> a" "b \<le> mx" "mn \<le> v" "v \<le> mx" "\<forall>v \<in> set vals. mn \<le> v \<and> v \<le> mx"
      using ab(1-4) order.trans by blast+
    then show ?case by simp
  qed simp
  then show "min_max vals v0 = (mn, mx) \<Longrightarrow> mn \<le> v0 \<and> v0 \<le> mx \<and> (\<forall>v \<in> set vals. mn \<le> v \<and> v \<le> mx)"
    unfolding min_max_def by blast
qed

lemma residual_fits: "mn \<le> v \<Longrightarrow> v \<le> mx \<Longrightarrow> unat (v - mn) < 2 ^ bitWidth (mx - mn)"
proof -
  assume "mn \<le> v" "v \<le> mx"
  then have "unat (v - mn) \<le> unat (mx - mn)" by (simp add: unat_sub word_le_nat_alt)
  then show ?thesis using bitWidth_bound [of "mx - mn"] by linarith
qed

lemma residuals_read:
  assumes "min_max vals v0 = (mn, mx)"
  shows "map (\<lambda>v. mn + v) (bitunpack (bitpack (map (\<lambda>v. v - mn) vals) (bitWidth (mx - mn))) (length vals) (bitWidth (mx - mn))) = vals"
proof -
  have "unat d < 2 ^ bitWidth (mx - mn)" if "d \<in> set (map (\<lambda>v. v - mn) vals)" for d
    using that min_max_bounds [OF assms] residual_fits by auto
  then have "bitunpack (bitpack (map (\<lambda>v. v - mn) vals) (bitWidth (mx - mn))) (length (map (\<lambda>v. v - mn) vals)) (bitWidth (mx - mn))
      = map (\<lambda>v. v - mn) vals" by (rule bitunpack_bitpack)
  then show ?thesis by (simp add: comp_def)
qed

interpretation frame: value_codec "\<lambda>vals width. encodeFOR vals" "\<lambda>b n width base. Some (decodeFOR b n base)"
proof
  fix width vals
  show "Some (decodeFOR (fst (encodeFOR vals)) (length vals) (snd (encodeFOR vals))) = Some (Inr vals)"
  proof (cases "vals = []")
    case False
    obtain mn mx where m: "min_max vals (hd vals) = (mn, mx)" by fastforce
    show ?thesis using False residuals_read [OF m]
      by (simp add: decodeFOR_def encodeFOR_def m rbuf_of_at rbuf_reads unat_byte_width [OF bitWidth_64] Let_def)
  qed (simp add: decodeFOR_def encodeFOR_def)
qed

interpretation delta_frame: value_codec "\<lambda>vals width. encodeDeltaFOR vals" "\<lambda>b n width base. Some (decodeDeltaFOR b n base)"
proof
  fix width vals
  show "Some (decodeDeltaFOR (fst (encodeDeltaFOR vals)) (length vals) (snd (encodeDeltaFOR vals))) = Some (Inr vals)"
  proof (cases vals)
    case (Cons base vs)
    show ?thesis
    proof (cases "vs = []")
      case False
      let ?ds = "zigzags base vs"
      have ne: "?ds \<noteq> []" using False by (cases vs) simp_all
      obtain mn mx where m: "min_max ?ds (hd ?ds) = (mn, mx)" by fastforce
      show ?thesis using Cons False ne residuals_read [OF m] undelta_zigzags [of base vs]
        by (simp add: decodeDeltaFOR_def encodeDeltaFOR_def m rbuf_of_at rbuf_reads unat_byte_width [OF bitWidth_64] add.commute [of _ mn] Let_def)
    qed (use Cons in \<open>simp add: decodeDeltaFOR_def encodeDeltaFOR_def\<close>)
  qed (simp add: decodeDeltaFOR_def encodeDeltaFOR_def)
qed

section \<open>The cascade\<close>

text \<open>The encodings a writer uses.\<close>

definition enc_ok :: "u8 \<Rightarrow> bool" where
  "enc_ok enc \<longleftrightarrow> enc \<in> {EncRaw, EncRLE, EncDict, EncDelta, EncFOR, EncDeltaFOR}"

lemma enc_ids: "EncRaw = 0" "EncDict = 1" "EncDelta = 2" "EncFOR = 3" "EncRLE = 4" "EncDeltaFOR = 6"
  by (simp_all add: EncRaw_def EncDict_def EncDelta_def EncFOR_def EncRLE_def EncDeltaFOR_def)

lemma cascade: "enc_ok enc \<Longrightarrow> value_codec (encodeValues enc) (decodeValues enc)"
proof
  fix width vals assume e: "enc_ok enc" and w: "width_ok width" "list_all (fits width) vals" "length vals < 2 ^ 32"
  show "decodeValues enc (fst (encodeValues enc vals width)) (length vals) width (snd (encodeValues enc vals width)) = Some (Inr vals)"
    using e raw.get_put [OF w] rle.get_put [OF w] dict.get_put [OF w] delta.get_put [OF w] frame.get_put [OF w] delta_frame.get_put [OF w]
    by (auto simp: enc_ok_def encodeValues_def decodeValues_def enc_ids)
qed

text \<open>C34: Whatever encoding is chosen for a page, decoding it gives back its values.\<close>

theorem column_encodings_roundtrip:
  assumes "enc_ok enc" "width_ok width" "list_all (fits width) vals" "length vals < 2 ^ 32"
  shows "decodeValues enc (fst (encodeValues enc vals width)) (length vals) width (snd (encodeValues enc vals width)) = Some (Inr vals)"
  using value_codec.get_put [OF cascade [OF assms(1)] assms(2-4)] .

theorem column_encodings_roundtrip_witness:
  "decodeValues EncDeltaFOR (fst (encodeValues EncDeltaFOR [7, 3, 900] 2)) 3 2 (snd (encodeValues EncDeltaFOR [7, 3, 900] 2)) = Some (Inr [7, 3, 900])"
proof -
  have "length [7, 3, 900 :: u64] = 3" by simp
  then show ?thesis
    using column_encodings_roundtrip [of EncDeltaFOR 2 "[7, 3, 900]"] by (simp add: enc_ok_def width_ok_def fits_def del: list.size)
qed

text \<open>A dictionary code of \<open>2^63\<close> or more is negative as a signed int, so it passes the bound test of the
  decoder and panics in the index expression: a payload of ten bytes that claims one value and a code
  width of 64.\<close>

theorem corrupt_dictionary_code_panics:
  "decodeValues EncDict (1 # 5 # 64 # replicate 8 0xff) 1 1 0 = None"
proof -
  have g: "get_bit (replicate 8 0xff) k" if "k < 64" for k
  proof -
    have "k mod 8 \<in> set [0..<8]" "k div 8 < 8" using that by simp_all
    moreover have "list_all (\<lambda>i. bit (0xff :: u8) i) [0..<8]" by code_simp
    ultimately show ?thesis by (auto simp: get_bit_iff list_all_iff)
  qed
  have "foldl (\<lambda>v k. if get_bit (replicate 8 0xff) (0 * 64 + k) then v OR push_bit k 1 else v) (0 :: u64) [0..<64] = - 1"
    by (rule bit_word_eqI) (subst bit_or_positions, simp add: g)
  then have u: "bitunpack (replicate 8 0xff) 1 64 = [- 1]" by (simp add: bitunpack_def)
  have v: "rb_uvarint (at_bytes 0 (1 # 5 # 64 # replicate 8 0xff)) = (1, at_bytes 1 (5 # 64 # replicate 8 0xff))"
    using rb_uvarint_read [of 1 0] by (simp add: uvarint.simps)
  have w: "get_widths 1 1 (at_bytes 1 (5 # 64 # replicate 8 0xff)) = ([5], at_bytes 2 (64 # replicate 8 0xff))"
    by (simp add: getWidth_def rb_u8_read)
  have "1 \<le> unat (- 1 :: u64)" by (simp add: unsigned_minus_1_eq_mask mask_eq_exp_minus_1)
  then have "dict_values [5] [- 1] = None" by simp
  then show ?thesis using u v w by (simp add: decodeValues_def enc_ids decodeDict_def rbuf_of_at rb_u8_read)
qed

end
