(* ===== verification/Column.thy ===== *)
theory Column
  imports Encoding
begin

unbundle bit_operations_syntax

text \<open>
  Pages (\<^verbatim>\<open>format/page.go\<close>) and column regions (\<^verbatim>\<open>format/column.go\<close>) of the file format: a column is cut into
  pages, each page is encoded the cheaper of two ways and framed with its checksum, and a directory entry
  locates it.  \<open>zenc\<close> and \<open>zdec\<close> are the zstd package.  The main fact is that the decoder of a region
  returns the column data whatever surrounds the region in the file.
\<close>

section \<open>Errors and panics\<close>

text \<open>A step that may fail with an error or panic, followed by what uses its result.\<close>

definition try_then :: "(format_error + 'a) option \<Rightarrow> ('a \<Rightarrow> (format_error + 'b) option) \<Rightarrow> (format_error + 'b) option" where
  "try_then m k = (case m of None \<Rightarrow> None | Some (Inl e) \<Rightarrow> Some (Inl e) | Some (Inr x) \<Rightarrow> k x)"

lemma try_then_simps [simp]: "try_then None k = None" "try_then (Some (Inl e)) k = Some (Inl e)" "try_then (Some (Inr x)) k = k x"
  by (simp_all add: try_then_def)

section \<open>Pages\<close>

definition PageHeaderSize :: nat where "PageHeaderSize = 32"

definition PageData :: u8 where "PageData = 0"
definition PageBlob :: u8 where "PageBlob = 3"
definition PageFilter :: u8 where "PageFilter = 4"
definition PageSchedule :: u8 where "PageSchedule = 5"

record pageHeader =
  ph_kind :: u8
  ph_encoding :: u8
  ph_codec :: u8
  ph_flags :: u8
  ph_numValues :: u32
  ph_uncompressedSize :: u32
  ph_compressedSize :: u32
  ph_firstRowIndex :: u32
  ph_pageBase :: u64
  ph_payloadCRC32C :: u32

definition writePage :: "(u8 list \<Rightarrow> u8 list) \<Rightarrow> u8 \<Rightarrow> u8 \<Rightarrow> u8 \<Rightarrow> u32 \<Rightarrow> u32 \<Rightarrow> u64 \<Rightarrow> u8 list \<Rightarrow> u8 list" where
  "writePage zenc kind encoding codec numValues firstRow pageBase payload =
     (let (usedCodec, comp) = compress zenc codec payload in
      [kind, encoding, usedCodec, 0] @ PutUint32 numValues @ PutUint32 (of_nat (length payload)) @ PutUint32 (of_nat (length comp))
      @ PutUint32 firstRow @ PutUint64 pageBase @ PutUint32 (Checksum32c comp) @ comp)"

definition readPage :: "(u8 list \<Rightarrow> u8 list option) \<Rightarrow> u8 list \<Rightarrow> format_error + pageHeader \<times> u8 list \<times> nat" where
  "readPage zdec b =
     (if length b < PageHeaderSize then Inl ErrCorrupt
      else
        (let h = \<lparr> ph_kind = b ! 0, ph_encoding = b ! 1, ph_codec = b ! 2, ph_flags = b ! 3,
                   ph_numValues = Uint32 (take 4 (drop 4 b)), ph_uncompressedSize = Uint32 (take 4 (drop 8 b)),
                   ph_compressedSize = Uint32 (take 4 (drop 12 b)), ph_firstRowIndex = Uint32 (take 4 (drop 16 b)),
                   ph_pageBase = Uint64 (take 8 (drop 20 b)), ph_payloadCRC32C = Uint32 (take 4 (drop 28 b)) \<rparr>;
             end = PageHeaderSize + unat (ph_compressedSize h) in
         if end > length b then Inl ErrCorrupt
         else
           (let comp = take (unat (ph_compressedSize h)) (drop PageHeaderSize b) in
            if Checksum32c comp \<noteq> ph_payloadCRC32C h then Inl ErrChecksum
            else
              (case decompress zdec (ph_codec h) comp of
                 Inl e \<Rightarrow> Inl e
               | Inr payload \<Rightarrow>
                   if (of_nat (length payload) :: u32) \<noteq> ph_uncompressedSize h then Inl ErrCorrupt
                   else Inr (h, payload, end)))))"

section \<open>Columns\<close>

datatype colKind = kindUint | kindFloat | kindRaw

record column =
  cl_id :: int
  cl_width :: nat
  cl_kind :: colKind
  cl_enc :: u8
  cl_codec :: u8
  cl_data :: "u8 list"

definition encodable :: "column \<Rightarrow> bool" where
  "encodable c = (if cl_kind c = kindRaw then False else cl_width c \<in> {1, 2, 4, 8})"

definition numValues :: "column \<Rightarrow> nat" where
  "numValues c = (if cl_width c = 0 then 0 else length (cl_data c) div cl_width c)"

record pageEntry =
  pe_firstRow :: u64
  pe_numValues :: u64
  pe_byteLen :: u64
  pe_encoding :: u8
  pe_zoneMin :: u64
  pe_zoneMax :: u64
  pe_hasZone :: bool

record columnDir =
  cd_columnID :: int
  cd_firstPageOffset :: u64
  cd_totalCompressed :: u64
  cd_totalUncompressed :: u64
  cd_numValues :: u64
  cd_numPages :: u64
  cd_width :: u8
  cd_encoding :: u8
  cd_codec :: u8
  cd_columnCRC32C :: u32
  cd_zoneMin :: u64
  cd_zoneMax :: u64
  cd_hasZone :: bool
  cd_pages :: "pageEntry list"

definition zoneMap :: "column \<Rightarrow> u64 \<times> u64 \<times> bool" where
  "zoneMap c =
     (if cl_kind c \<noteq> kindUint \<or> numValues c = 0 then (0, 0, False)
      else
        (let (mn, mx) = foldl (\<lambda>(mn, mx) i. let v = readUintWidth (cl_data c) i (cl_width c) in
               (if v < mn then v else mn, if v > mx then v else mx)) (- 1, 0) [0..<numValues c] in
         (mn, mx, True)))"

function split_loop :: "column \<Rightarrow> nat \<Rightarrow> nat \<Rightarrow> column list" where
  "split_loop c maxRows start =
     (if start < numValues c \<and> 0 < maxRows then
        (let e = min (start + maxRows) (numValues c) in
         c\<lparr> cl_data := take ((e - start) * cl_width c) (drop (start * cl_width c) (cl_data c)) \<rparr> # split_loop c maxRows (start + maxRows))
      else [])"
  by pat_completeness auto
termination
  by (relation "measure (\<lambda>(c, maxRows, start). numValues c - start)") auto

declare split_loop.simps [simp del]

definition splitColumn :: "column \<Rightarrow> int \<Rightarrow> column list" where
  "splitColumn c maxRows = (if maxRows \<le> 0 \<or> int (numValues c) \<le> maxRows then [c] else split_loop c (nat maxRows) 0)"

definition buildColumnPage :: "(u8 list \<Rightarrow> u8 list) \<Rightarrow> column \<Rightarrow> u32 \<Rightarrow> u8 list \<times> u8" where
  "buildColumnPage zenc c firstRow =
     (let n = of_nat (numValues c);
          raw = writePage zenc PageData EncRaw (cl_codec c) n firstRow 0 (cl_data c) in
      if cl_enc c = EncRaw \<or> \<not> encodable c then (raw, EncRaw)
      else
        (let (payload, base) = encodeValues (cl_enc c) (readValues (cl_data c) (cl_width c)) (cl_width c);
             enc = writePage zenc PageData (cl_enc c) (cl_codec c) n firstRow base payload in
         if length enc < length raw then (enc, cl_enc c) else (raw, EncRaw)))"

text \<open>The pages of the parts of one column, with their skip-list entries.\<close>

fun column_pages :: "(u8 list \<Rightarrow> u8 list) \<Rightarrow> column list \<Rightarrow> nat \<Rightarrow> (u8 list \<times> pageEntry) list" where
  "column_pages zenc [] firstRow = []"
| "column_pages zenc (sc # subs) firstRow =
     (let (page, encUsed) = buildColumnPage zenc sc (of_nat firstRow); (zmin, zmax, hasZone) = zoneMap sc in
      (page, \<lparr> pe_firstRow = of_nat firstRow, pe_numValues = of_nat (numValues sc), pe_byteLen = of_nat (length page),
               pe_encoding = encUsed, pe_zoneMin = zmin, pe_zoneMax = zmax, pe_hasZone = hasZone \<rparr>)
      # column_pages zenc subs (firstRow + numValues sc))"

definition encode_column :: "(u8 list \<Rightarrow> u8 list) \<Rightarrow> column \<Rightarrow> u64 \<Rightarrow> int \<Rightarrow> u8 list \<times> columnDir" where
  "encode_column zenc c firstPageOff maxRows =
     (let subs = splitColumn c maxRows;
          pages = column_pages zenc subs 0;
          bytes = concat (map fst pages);
          (zmin, zmax, hasZone) = zoneMap c in
      (bytes,
       \<lparr> cd_columnID = cl_id c, cd_firstPageOffset = firstPageOff,
         cd_totalCompressed = sum_list (map (\<lambda>(page, _). of_nat (length page - PageHeaderSize)) pages),
         cd_totalUncompressed = of_nat (length (cl_data c)), cd_numValues = of_nat (numValues c),
         cd_numPages = of_nat (length subs), cd_width = of_nat (cl_width c),
         cd_encoding = pe_encoding (snd (hd pages)), cd_codec = cl_codec c, cd_columnCRC32C = Checksum32c bytes,
         cd_zoneMin = zmin, cd_zoneMax = zmax, cd_hasZone = hasZone,
         cd_pages = (if length subs > 1 then map snd pages else []) \<rparr>))"

fun encode_columns :: "(u8 list \<Rightarrow> u8 list) \<Rightarrow> column list \<Rightarrow> u64 \<Rightarrow> int \<Rightarrow> u8 list \<Rightarrow> columnDir list \<Rightarrow> u8 list \<times> columnDir list" where
  "encode_columns zenc [] regionStart maxRows region dir = (region, dir)"
| "encode_columns zenc (c # cols) regionStart maxRows region dir =
     (let (bytes, d) = encode_column zenc c (regionStart + of_nat (length region)) maxRows in
      encode_columns zenc cols regionStart maxRows (region @ bytes) (dir @ [d]))"

definition encodeColumnRegion :: "(u8 list \<Rightarrow> u8 list) \<Rightarrow> column list \<Rightarrow> u64 \<Rightarrow> int \<Rightarrow> u8 list \<times> columnDir list" where
  "encodeColumnRegion zenc cols regionStart maxRows = encode_columns zenc cols regionStart maxRows [] []"

section \<open>Decoding a region\<close>

definition decodePagePayload :: "pageHeader \<Rightarrow> u8 list \<Rightarrow> nat \<Rightarrow> (format_error + u8 list) option" where
  "decodePagePayload h payload width =
     (if ph_encoding h = EncRaw then Some (Inr payload)
      else if width \<noteq> 1 \<and> width \<noteq> 2 \<and> width \<noteq> 4 \<and> width \<noteq> 8 then Some (Inl (errUnknownEncoding (ph_encoding h)))
      else try_then (decodeValues (ph_encoding h) payload (unat (ph_numValues h)) width (ph_pageBase h))
             (\<lambda>vals. Some (Inr (writeValues vals width))))"

text \<open>One page of a column from its skip list; an index beyond the list is a panic.\<close>

definition decodeColumnPage :: "(u8 list \<Rightarrow> u8 list option) \<Rightarrow> u8 list \<Rightarrow> columnDir \<Rightarrow> nat \<Rightarrow> (format_error + u8 list) option" where
  "decodeColumnPage zdec file d pageIx =
     (if pageIx > length (cd_pages d) then None
      else
        (let off = sint (cd_firstPageOffset d + sum_list (map pe_byteLen (take pageIx (cd_pages d)))) in
         if off < 0 \<or> off > int (length file) then Some (Inl ErrCorrupt)
         else
           (case readPage zdec (drop (nat off) file) of
              Inl e \<Rightarrow> Some (Inl e)
            | Inr (h, payload, _) \<Rightarrow> decodePagePayload h payload (unat (cd_width d)))))"

text \<open>The page loop of a column: the decoded data, the bytes of the pages and the position behind them.\<close>

fun decode_pages :: "(u8 list \<Rightarrow> u8 list option) \<Rightarrow> u8 list \<Rightarrow> nat \<Rightarrow> nat \<Rightarrow> nat \<Rightarrow> (format_error + u8 list \<times> u8 list) option" where
  "decode_pages zdec file width 0 cur = Some (Inr ([], []))"
| "decode_pages zdec file width (Suc n) cur =
     (if cur > length file then Some (Inl ErrCorrupt)
      else
        (case readPage zdec (drop cur file) of
           Inl e \<Rightarrow> Some (Inl e)
         | Inr (h, payload, consumed) \<Rightarrow>
             try_then (decodePagePayload h payload width) (\<lambda>raw.
             try_then (decode_pages zdec file width n (cur + consumed)) (\<lambda>(data, pageSpan).
             Some (Inr (raw @ data, take consumed (drop cur file) @ pageSpan))))))"

fun decodeColumnRegion :: "(u8 list \<Rightarrow> u8 list option) \<Rightarrow> u8 list \<Rightarrow> columnDir list \<Rightarrow> (int, u8 list) gomap \<Rightarrow> (format_error + (int, u8 list) gomap) option" where
  "decodeColumnRegion zdec file [] out = Some (Inr out)"
| "decodeColumnRegion zdec file (d # dir) out =
     (let off = sint (cd_firstPageOffset d) in
      if off < 0 \<or> off > int (length file) then Some (Inl ErrCorrupt)
      else
        try_then (decode_pages zdec file (unat (cd_width d)) (unat (cd_numPages d)) (nat off)) (\<lambda>(data, pageSpan).
        if Checksum32c pageSpan \<noteq> cd_columnCRC32C d then Some (Inl ErrChecksum)
        else decodeColumnRegion zdec file dir (mput (cd_columnID d) data out)))"

section \<open>A page reads back\<close>

lemma length_writePage:
  "length (writePage zenc kind enc codec n fr base payload) = PageHeaderSize + length (snd (compress zenc codec payload))"
  by (simp add: writePage_def PageHeaderSize_def case_prod_unfold Let_def)

lemma readPage_writePage:
  assumes z: "\<And>x. zdec (zenc x) = Some x"
    and len: "length (writePage zenc kind enc codec n fr base payload) < 2 ^ 32"
  obtains h where "readPage zdec (writePage zenc kind enc codec n fr base payload @ rest)
      = Inr (h, payload, length (writePage zenc kind enc codec n fr base payload))"
    and "ph_kind h = kind" "ph_encoding h = enc" "ph_numValues h = n" "ph_pageBase h = base"
proof -
  obtain used comp where c: "compress zenc codec payload = (used, comp)" by fastforce
  have l: "length comp < 2 ^ 32" using len c by (simp add: length_writePage)
  define h where "h = \<lparr> ph_kind = kind, ph_encoding = enc, ph_codec = used, ph_flags = 0, ph_numValues = n,
    ph_uncompressedSize = of_nat (length payload), ph_compressedSize = of_nat (length comp), ph_firstRowIndex = fr,
    ph_pageBase = base, ph_payloadCRC32C = Checksum32c comp \<rparr>"
  have u: "unat (of_nat (length comp) :: u32) = length comp" using l by (rule of_nat_inverse_32)
  have "decompress zdec used comp = Inr payload" using decompress_compress [where zdec = zdec and zenc = zenc, of codec payload] z c by simp
  then have "readPage zdec (writePage zenc kind enc codec n fr base payload @ rest)
      = Inr (h, payload, length (writePage zenc kind enc codec n fr base payload))"
    using u by (simp add: readPage_def length_writePage c PageHeaderSize_def writePage_def Let_def h_def numeral_2_eq_2 numeral_3_eq_3)
  then show ?thesis using that [of h] by (simp add: h_def)
qed

section \<open>Fixed-width data is its values\<close>

lemma le_dec_small: "width_ok width \<Longrightarrow> length bs = width \<Longrightarrow> le_dec bs < 2 ^ 64"
  using le_dec_bound [of bs] by (auto simp: width_ok_def)

lemma putWidth_le_dec:
  assumes "width_ok width" "length bs = width"
  shows "putWidth (of_nat (le_dec bs)) width = bs"
proof -
  have "le_dec bs < 256 ^ width" "le_enc width (le_dec bs) = bs" using assms(2) le_dec_bound [of bs] le_enc_dec [of bs] by auto
  then show ?thesis
    using assms(1) by (auto simp: width_ok_def putWidth_def PutUint16_def PutUint32_def PutUint64_def unsigned_of_nat take_bit_nat_eq_self)
qed

lemma readUintWidth_le_dec:
  assumes "width_ok width" "Suc i * width \<le> length data"
  shows "readUintWidth data i width = of_nat (le_dec (take width (drop (i * width) data)))"
proof -
  let ?c = "take width (drop (i * width) data)"
  have "length ?c = width" using assms(2) by simp
  then have "le_dec ?c < 256 ^ width" using le_dec_bound [of ?c] by simp
  moreover have "width = 1 \<Longrightarrow> take 1 (drop i data) = [data ! i]" using assms(2) by (cases "drop i data") (auto simp: nth_via_drop)
  ultimately show ?thesis
    using assms(1) by (auto simp: width_ok_def readUintWidth_def Uint16_def Uint32_def Uint64_def unsigned_of_nat take_bit_nat_eq_self)
qed

lemma chunks_concat: "n * w \<le> length data \<Longrightarrow> concat (map (\<lambda>i. take w (drop (i * w) data)) [0..<n]) = take (n * w) data"
proof (induction n)
  case (Suc n)
  have "take (Suc n * w) data = take (n * w) data @ take w (drop (n * w) data)" by (simp add: take_add add.commute flip: take_add)
  then show ?case using Suc by simp
qed simp

lemma writeValues_readValues:
  assumes "width_ok width" "width dvd length data"
  shows "writeValues (readValues data width) width = data"
    and "list_all (fits width) (readValues data width)"
    and "length (readValues data width) = length data div width"
proof -
  let ?n = "length data div width" and ?c = "\<lambda>i. take width (drop (i * width) data)"
  have w: "0 < width" and n: "?n * width = length data" using assms by (auto simp: width_ok_def)
  have i: "Suc i * width \<le> length data" if "i < ?n" for i using that n by (metis Suc_leI mult_le_mono1)
  have l: "length (?c i) = width" if "i < ?n" for i using i [OF that] by simp
  have r: "readValues data width = map (\<lambda>i. of_nat (le_dec (?c i))) [0..<?n]"
    unfolding readValues_def using w i readUintWidth_le_dec [OF assms(1)] by (auto simp: algebra_simps)
  have "map (\<lambda>v. putWidth v width) (readValues data width) = map ?c [0..<?n]"
    unfolding r using putWidth_le_dec [OF assms(1) l] by simp
  then have "writeValues (readValues data width) width = concat (map ?c [0..<?n])" by (simp only: writeValues_width [OF assms(1)])
  then show "writeValues (readValues data width) width = data" using chunks_concat [of ?n width data] n by simp
  show "length (readValues data width) = length data div width" by (simp add: r)
  have "fits width (of_nat (le_dec (?c i)))" if "i < ?n" for i
    using le_dec_bound [of "?c i"] le_dec_small [OF assms(1) l] that l [OF that] by (simp add: fits_def of_nat_inverse_64)
  then show "list_all (fits width) (readValues data width)" by (simp add: r list_all_iff)
qed

section \<open>A column page reads back\<close>

text \<open>What the table builders guarantee of a column: a positive width that fits its directory byte, whole
  values, fewer than \<open>2^32\<close> of them, and one of the six encodings.\<close>

definition column_ok :: "column \<Rightarrow> bool" where
  "column_ok c \<longleftrightarrow> 0 < cl_width c \<and> cl_width c < 256 \<and> cl_width c dvd length (cl_data c) \<and> numValues c < 2 ^ 32 \<and> enc_ok (cl_enc c)"

lemma encodable_width: "encodable c \<Longrightarrow> width_ok (cl_width c)"
  by (auto simp: encodable_def width_ok_def split: if_splits)

lemma page_read:
  assumes z: "\<And>x. zdec (zenc x) = Some x" and len: "length (writePage zenc kind enc codec n fr base payload) < 2 ^ 32"
    and d: "\<And>h :: pageHeader. ph_encoding h = enc \<Longrightarrow> ph_numValues h = n \<Longrightarrow> ph_pageBase h = base \<Longrightarrow> decodePagePayload h payload width = Some (Inr data)"
  shows "\<exists>h. readPage zdec (writePage zenc kind enc codec n fr base payload @ rest)
      = Inr (h, payload, length (writePage zenc kind enc codec n fr base payload)) \<and> decodePagePayload h payload width = Some (Inr data)"
  by (rule readPage_writePage [where zdec = zdec and rest = rest, OF z len]) (use d in blast)

lemma decodePagePayload_raw: "ph_encoding h = EncRaw \<Longrightarrow> decodePagePayload h payload width = Some (Inr payload)"
  by (simp add: decodePagePayload_def)

lemma decodePagePayload_cascade:
  assumes ok: "column_ok c" "encodable c" and e: "encodeValues (cl_enc c) (readValues (cl_data c) (cl_width c)) (cl_width c) = (payload, base)"
    and h: "ph_encoding h = cl_enc c" "ph_numValues h = of_nat (numValues c)" "ph_pageBase h = base" "cl_enc c \<noteq> EncRaw"
  shows "decodePagePayload h payload (cl_width c) = Some (Inr (cl_data c))"
proof -
  note w = encodable_width [OF ok(2)]
  let ?vals = "readValues (cl_data c) (cl_width c)"
  have n: "length ?vals = numValues c" "numValues c < 2 ^ 32"
    using ok(1) writeValues_readValues(3) [OF w] by (auto simp: column_ok_def numValues_def)
  have "decodeValues (cl_enc c) (fst (encodeValues (cl_enc c) ?vals (cl_width c))) (length ?vals) (cl_width c) (snd (encodeValues (cl_enc c) ?vals (cl_width c)))
      = Some (Inr ?vals)"
    by (rule value_codec.get_put [OF cascade w]) (use ok n writeValues_readValues(2) [OF w] in \<open>auto simp: column_ok_def\<close>)
  then have "decodeValues (cl_enc c) payload (unat (ph_numValues h)) (cl_width c) base = Some (Inr ?vals)"
    using e n h(2) by (simp add: of_nat_inverse_32)
  then show ?thesis using h w ok(1) writeValues_readValues(1) [OF w] by (auto simp: decodePagePayload_def width_ok_def column_ok_def)
qed

lemma buildColumnPage_read:
  assumes z: "\<And>x. zdec (zenc x) = Some x" and ok: "column_ok c" and len: "length (fst (buildColumnPage zenc c fr)) < 2 ^ 32"
  shows "\<exists>h payload. readPage zdec (fst (buildColumnPage zenc c fr) @ rest) = Inr (h, payload, length (fst (buildColumnPage zenc c fr)))
      \<and> decodePagePayload h payload (cl_width c) = Some (Inr (cl_data c))"
proof -
  let ?n = "of_nat (numValues c) :: u32"
  let ?raw = "writePage zenc PageData EncRaw (cl_codec c) ?n fr 0 (cl_data c)"
  obtain payload base where e: "encodeValues (cl_enc c) (readValues (cl_data c) (cl_width c)) (cl_width c) = (payload, base)" by fastforce
  let ?enc = "writePage zenc PageData (cl_enc c) (cl_codec c) ?n fr base payload"
  have "fst (buildColumnPage zenc c fr) = ?raw \<or> fst (buildColumnPage zenc c fr) = ?enc \<and> cl_enc c \<noteq> EncRaw \<and> encodable c"
    unfolding buildColumnPage_def e Let_def by simp
  then consider "fst (buildColumnPage zenc c fr) = ?raw" | "fst (buildColumnPage zenc c fr) = ?enc" "cl_enc c \<noteq> EncRaw" "encodable c"
    by blast
  then show ?thesis
  proof cases
    case 1
    then show ?thesis using page_read [of zdec zenc PageData EncRaw "cl_codec c" ?n fr 0 "cl_data c" "cl_width c" "cl_data c" rest] z len
      by (auto simp: decodePagePayload_raw)
  next
    case 2
    then show ?thesis
      using page_read [of zdec zenc PageData "cl_enc c" "cl_codec c" ?n fr base payload "cl_width c" "cl_data c" rest] z len
        decodePagePayload_cascade [OF ok 2(3) e] by auto
  qed
qed

section \<open>Splitting a column\<close>

definition part_of :: "column \<Rightarrow> column \<Rightarrow> bool" where
  "part_of c sc \<longleftrightarrow> column_ok sc \<and> cl_width sc = cl_width c"

lemma numValues_part:
  assumes "column_ok c" "a \<le> b" "b \<le> numValues c"
  shows "length (take ((b - a) * cl_width c) (drop (a * cl_width c) (cl_data c))) = (b - a) * cl_width c"
proof -
  have "b * cl_width c \<le> length (cl_data c)" using assms by (auto simp: column_ok_def numValues_def less_eq_div_iff_mult_less_eq)
  then show ?thesis by (simp add: diff_mult_distrib)
qed

lemma split_loop_parts:
  assumes "column_ok c" "0 < maxRows"
  shows "list_all (part_of c) (split_loop c maxRows start) \<and> concat (map cl_data (split_loop c maxRows start)) = drop (start * cl_width c) (cl_data c)
     \<and> length (split_loop c maxRows start) \<le> numValues c - start"
  using assms
proof (induction c maxRows start rule: split_loop.induct)
  case (1 c maxRows start)
  let ?e = "min (start + maxRows) (numValues c)" and ?w = "cl_width c"
  let ?d = "take ((?e - start) * ?w) (drop (start * ?w) (cl_data c))"
  have w: "0 < ?w" and n: "numValues c * ?w = length (cl_data c)" using 1(2) by (auto simp: column_ok_def numValues_def)
  show ?case
  proof (cases "start < numValues c")
    case True
    have l: "length ?d = (?e - start) * ?w" using True by (intro numValues_part [OF 1(2)]) auto
    have "part_of c (c\<lparr> cl_data := ?d \<rparr>)"
      using 1(2) l w by (auto simp: part_of_def column_ok_def numValues_def)
    moreover have "?d @ drop ((start + maxRows) * ?w) (cl_data c) = drop (start * ?w) (cl_data c)"
    proof (cases "start + maxRows \<le> numValues c")
      case True
      then show ?thesis by (simp add: add_mult_distrib add.commute flip: drop_drop)
    next
      case False
      then have "numValues c * ?w \<le> (start + maxRows) * ?w" by (intro mult_le_mono1) simp
      then show ?thesis using False n by (simp add: diff_mult_distrib)
    qed
    ultimately show ?thesis using 1 True by (subst (1 2 3) split_loop.simps) (auto simp: Let_def)
  next
    case False
    then have "numValues c * ?w \<le> start * ?w" by (intro mult_le_mono1) simp
    then show ?thesis using False n by (simp add: split_loop.simps)
  qed
qed

lemma splitColumn_parts:
  assumes "column_ok c"
  shows "list_all (part_of c) (splitColumn c maxRows)" "concat (map cl_data (splitColumn c maxRows)) = cl_data c" "length (splitColumn c maxRows) < 2 ^ 32"
proof -
  have "list_all (part_of c) (splitColumn c maxRows) \<and> concat (map cl_data (splitColumn c maxRows)) = cl_data c \<and> length (splitColumn c maxRows) < 2 ^ 32"
    using assms split_loop_parts [OF assms, of "nat maxRows" 0] by (auto simp: splitColumn_def part_of_def column_ok_def)
  then show "list_all (part_of c) (splitColumn c maxRows)" "concat (map cl_data (splitColumn c maxRows)) = cl_data c" "length (splitColumn c maxRows) < 2 ^ 32"
    by simp_all
qed

section \<open>A column region reads back\<close>

lemma length_column_pages [simp]: "length (column_pages zenc subs fr) = length subs"
  by (induction subs arbitrary: fr) (simp_all add: case_prod_unfold Let_def)

lemma column_pages_nth:
  "k < length subs \<Longrightarrow> \<exists>fr'. fst (column_pages zenc subs fr ! k) = fst (buildColumnPage zenc (subs ! k) fr')"
proof (induction subs arbitrary: fr k)
  case (Cons sc subs)
  then show ?case by (cases k) (auto simp: case_prod_unfold Let_def)
qed simp

lemma decode_pages_read:
  assumes z: "\<And>x. zdec (zenc x) = Some x"
  shows "file = pre @ concat (map fst (column_pages zenc subs fr)) @ post \<Longrightarrow> length file < 2 ^ 32 \<Longrightarrow> list_all (part_of c) subs \<Longrightarrow>
    decode_pages zdec file (cl_width c) (length subs) (length pre)
      = Some (Inr (concat (map cl_data subs), concat (map fst (column_pages zenc subs fr))))"
proof (induction subs arbitrary: fr pre)
  case (Cons sc subs)
  let ?page = "fst (buildColumnPage zenc sc (of_nat fr))" and ?more = "concat (map fst (column_pages zenc subs (fr + numValues sc)))"
  have sc: "column_ok sc" "cl_width sc = cl_width c" using Cons.prems(3) by (simp_all add: part_of_def)
  have f: "file = pre @ ?page @ ?more @ post" using Cons.prems(1) by (simp add: case_prod_unfold Let_def)
  then have "length ?page < 2 ^ 32" using Cons.prems(2) by simp
  from buildColumnPage_read [of zdec zenc, OF z sc(1) this, of "?more @ post"] obtain h payload
    where "readPage zdec (?page @ ?more @ post) = Inr (h, payload, length ?page)" "decodePagePayload h payload (cl_width c) = Some (Inr (cl_data sc))"
    using sc(2) by auto
  moreover have "decode_pages zdec file (cl_width c) (length subs) (length (pre @ ?page)) = Some (Inr (concat (map cl_data subs), ?more))"
    using Cons.prems f by (intro Cons.IH) simp_all
  ultimately show ?case using f by (simp add: case_prod_unfold Let_def)
qed simp

lemma encode_column_read:
  assumes z: "\<And>x. zdec (zenc x) = Some x" and ok: "column_ok c"
    and e: "encode_column zenc c (of_nat (length pre)) maxRows = (bytes, d)" and f: "file = pre @ bytes @ post" "length file < 2 ^ 32"
  shows "decodeColumnRegion zdec file (d # dir) out = decodeColumnRegion zdec file dir (mput (cl_id c) (cl_data c) out)"
proof -
  let ?subs = "splitColumn c maxRows"
  note parts = splitColumn_parts [OF ok, of maxRows]
  have b: "bytes = concat (map fst (column_pages zenc ?subs 0))" and d: "cd_firstPageOffset d = of_nat (length pre)" "cd_width d = of_nat (cl_width c)"
      "cd_numPages d = of_nat (length ?subs)" "cd_columnCRC32C d = Checksum32c bytes" "cd_columnID d = cl_id c"
    using e by (auto simp: encode_column_def case_prod_unfold Let_def)
  have u: "unat (cd_width d) = cl_width c" "unat (cd_numPages d) = length ?subs" "sint (cd_firstPageOffset d) = int (length pre)"
    using ok f parts(3) d by (auto simp: column_ok_def of_nat_inverse_8 of_nat_inverse_64 sint_of_nat64)
  have "decode_pages zdec file (cl_width c) (length ?subs) (length pre) = Some (Inr (cl_data c, bytes))"
    using decode_pages_read [of zdec zenc, OF z f(1) [unfolded b] f(2) parts(1)] parts(2) by (simp add: b)
  then show ?thesis using u d f by simp
qed

lemma encode_columns_read:
  assumes z: "\<And>x. zdec (zenc x) = Some x"
  shows "encode_columns zenc cols (of_nat (length pre)) maxRows region dir = (region', dir') \<Longrightarrow> file = pre @ region' @ post \<Longrightarrow> length file < 2 ^ 32 \<Longrightarrow>
    list_all column_ok cols \<Longrightarrow>
    (\<exists>R. region' = region @ R) \<and>
    (\<exists>D. dir' = dir @ D \<and> decodeColumnRegion zdec file D out = Some (Inr (foldl (\<lambda>m c. mput (cl_id c) (cl_data c) m) out cols)))"
proof (induction cols arbitrary: region dir out)
  case (Cons c cols)
  obtain bytes d where e: "encode_column zenc c (of_nat (length (pre @ region))) maxRows = (bytes, d)" by fastforce
  have more: "encode_columns zenc cols (of_nat (length pre)) maxRows (region @ bytes) (dir @ [d]) = (region', dir')"
    using Cons.prems(1) e by simp
  have "list_all column_ok cols" and c: "column_ok c" using Cons.prems(4) by simp_all
  from Cons.IH [OF more Cons.prems(2,3) this(1), of "mput (cl_id c) (cl_data c) out"]
  obtain R D where r: "region' = (region @ bytes) @ R" "dir' = (dir @ [d]) @ D"
      "decodeColumnRegion zdec file D (mput (cl_id c) (cl_data c) out) = Some (Inr (foldl (\<lambda>m c. mput (cl_id c) (cl_data c) m) (mput (cl_id c) (cl_data c) out) cols))"
    by blast
  have f: "file = (pre @ region) @ bytes @ (R @ post)" using Cons.prems(2) r(1) by simp
  have "decodeColumnRegion zdec file (d # D) out = decodeColumnRegion zdec file D (mput (cl_id c) (cl_data c) out)"
    by (rule encode_column_read [of zdec zenc, OF z c e f Cons.prems(3)])
  then show ?case using r by (simp del: decodeColumnRegion.simps)
qed simp

lemma map_of_mputs: "map_of (foldl (\<lambda>m c. mput (cl_id c) (cl_data c) m) out cols) = map_of (rev (map (\<lambda>c. (cl_id c, cl_data c)) cols) @ out)"
  by (induction cols arbitrary: out) (auto simp: fun_eq_iff map_add_def split: option.splits)

lemma region_read:
  assumes "\<And>x. zdec (zenc x) = Some x" "list_all column_ok cols" "distinct (map cl_id cols)"
    and "encodeColumnRegion zenc cols (of_nat (length pre)) maxRows = (region, dir)" "length (pre @ region @ post) < 2 ^ 32"
  shows "\<exists>out. decodeColumnRegion zdec (pre @ region @ post) dir [] = Some (Inr out) \<and> map_of out = map_of (map (\<lambda>c. (cl_id c, cl_data c)) cols)"
proof -
  have "map_of (rev (map (\<lambda>c. (cl_id c, cl_data c)) cols)) = map_of (map (\<lambda>c. (cl_id c, cl_data c)) cols)"
    using assms(3) by (intro map_of_inject_set [THEN iffD2]) (auto simp: comp_def rev_map [symmetric])
  then show ?thesis
    using encode_columns_read [of zdec zenc, OF assms(1) assms(4) [unfolded encodeColumnRegion_def] refl assms(5) assms(2), of "[]"]
      map_of_mputs [of "[]" cols] by auto
qed

text \<open>A column region reads back: whatever page size the writer split at, whatever encoding each page
  chose and whatever surrounds the region in the file, the decoder returns the data of every column under
  its id.\<close>

theorem column_region_reads_back:
  assumes "\<And>x. zdec (zenc x) = Some x" "list_all column_ok cols" "distinct (map cl_id cols)"
    and "encodeColumnRegion zenc cols (of_nat (length pre)) maxRows = (region, dir)" "length (pre @ region @ post) < 2 ^ 32"
  shows "\<exists>out. decodeColumnRegion zdec (pre @ region @ post) dir [] = Some (Inr out) \<and> map_of out = map_of (map (\<lambda>c. (cl_id c, cl_data c)) cols)"
  using assms by (rule region_read)

theorem column_region_reads_back_witness:
  "\<exists>region dir out.
     encodeColumnRegion id [\<lparr> cl_id = 3, cl_width = 2, cl_kind = kindUint, cl_enc = EncRaw, cl_codec = 0, cl_data = [1, 0, 2, 0, 3, 0] \<rparr>] 2 2 = (region, dir)
     \<and> decodeColumnRegion Some ([9, 9] @ region @ [7]) dir [] = Some (Inr out) \<and> map_of out 3 = Some [1, 0, 2, 0, 3, 0]"
proof -
  let ?c = "\<lparr> cl_id = 3, cl_width = 2, cl_kind = kindUint, cl_enc = EncRaw, cl_codec = 0, cl_data = [1, 0, 2, 0, 3, 0] \<rparr> :: column"
  obtain region dir where e: "encodeColumnRegion id [?c] (of_nat (length [9, 9 :: u8])) 2 = (region, dir)" by fastforce
  have "splitColumn ?c 2 = [?c\<lparr> cl_data := [1, 0, 2, 0] \<rparr>, ?c\<lparr> cl_data := [3, 0] \<rparr>]"
    by (simp add: splitColumn_def numValues_def split_loop.simps)
  then have "length region = 70"
    using e by (auto simp: encodeColumnRegion_def encode_column_def buildColumnPage_def length_writePage compress_def PageHeaderSize_def CodecZstd_def
        Let_def case_prod_unfold)
  then have l: "length ([9, 9] @ region @ [7]) < 2 ^ 32" by simp
  have "list_all column_ok [?c]" by (simp add: column_ok_def numValues_def enc_ok_def)
  from column_region_reads_back [of Some id, OF _ this _ e l] obtain out
    where "decodeColumnRegion Some ([9, 9] @ region @ [7]) dir [] = Some (Inr out)" "map_of out 3 = Some [1, 0, 2, 0, 3, 0]" by auto
  then show ?thesis using e by auto
qed

section \<open>Zone maps and the skip list\<close>

lemma zone_fold:
  "foldl (\<lambda>(mn, mx) i. let v = f i in (if v < mn then v else mn, if v > mx then v else mx)) (a, b) is = (mn, mx) \<Longrightarrow>
     mn \<le> a \<and> b \<le> mx \<and> list_all (\<lambda>i. mn \<le> f i \<and> f i \<le> mx) is" for a b :: u64
proof (induction "is" arbitrary: a b)
  case (Cons i "is")
  let ?a = "if f i < a then f i else a" and ?b = "if f i > b then f i else b"
  have "mn \<le> ?a \<and> ?b \<le> mx \<and> list_all (\<lambda>i. mn \<le> f i \<and> f i \<le> mx) is" using Cons.prems by (intro Cons.IH) (simp add: Let_def)
  then show ?case by (auto split: if_splits)
qed simp

lemma zoneMap_bounds:
  assumes "zoneMap c = (mn, mx, True)" "i < numValues c"
  shows "mn \<le> readUintWidth (cl_data c) i (cl_width c) \<and> readUintWidth (cl_data c) i (cl_width c) \<le> mx"
proof -
  have "foldl (\<lambda>(mn, mx) i. let v = readUintWidth (cl_data c) i (cl_width c) in (if v < mn then v else mn, if v > mx then v else mx)) (- 1, 0) [0..<numValues c] = (mn, mx)"
    using assms(1) by (simp add: zoneMap_def split: if_splits prod.splits)
  from zone_fold [OF this] show ?thesis using assms(2) by (simp add: list_all_iff)
qed

lemma column_pages_entry:
  "k < length subs \<Longrightarrow> pe_byteLen (snd (column_pages zenc subs fr ! k)) = of_nat (length (fst (column_pages zenc subs fr ! k)))
     \<and> (pe_zoneMin (snd (column_pages zenc subs fr ! k)), pe_zoneMax (snd (column_pages zenc subs fr ! k)), pe_hasZone (snd (column_pages zenc subs fr ! k)))
       = zoneMap (subs ! k)"
proof (induction subs arbitrary: fr k)
  case (Cons sc subs)
  then show ?case by (cases k) (auto simp: case_prod_unfold Let_def)
qed simp

lemma byteLen_sum:
  "k \<le> length subs \<Longrightarrow> sum_list (map pe_byteLen (take k (map snd (column_pages zenc subs fr)))) = of_nat (length (concat (map fst (take k (column_pages zenc subs fr)))))"
proof (induction subs arbitrary: fr k)
  case (Cons sc subs)
  then show ?case by (cases k) (simp_all add: case_prod_unfold Let_def)
qed simp

lemma decodeColumnPage_read:
  assumes z: "\<And>x. zdec (zenc x) = Some x" and ok: "column_ok c" and k: "k < length (splitColumn c maxRows)" "length (splitColumn c maxRows) > 1"
    and e: "encode_column zenc c (of_nat (length pre)) maxRows = (bytes, d)" and f: "length (pre @ bytes @ post) < 2 ^ 32"
  shows "decodeColumnPage zdec (pre @ bytes @ post) d k = Some (Inr (cl_data (splitColumn c maxRows ! k)))"
proof -
  let ?subs = "splitColumn c maxRows" and ?file = "pre @ bytes @ post"
  let ?pages = "column_pages zenc ?subs 0"
  let ?before = "concat (map fst (take k ?pages))" and ?after = "concat (map fst (drop (Suc k) ?pages))"
  have b: "bytes = concat (map fst ?pages)" and d: "cd_firstPageOffset d = of_nat (length pre)" "cd_width d = of_nat (cl_width c)" "cd_pages d = map snd ?pages"
    using e k(2) by (auto simp: encode_column_def case_prod_unfold Let_def)
  have p: "part_of c (?subs ! k)" using splitColumn_parts(1) [OF ok, of maxRows] k(1) by (simp add: list_all_length)
  obtain fr where pg: "fst (?pages ! k) = fst (buildColumnPage zenc (?subs ! k) fr)" using column_pages_nth [OF k(1)] by blast
  have "bytes = ?before @ fst (?pages ! k) @ ?after"
    unfolding b using k(1) by (subst id_take_nth_drop [of k ?pages]) simp_all
  then have fl: "?file = (pre @ ?before) @ fst (buildColumnPage zenc (?subs ! k) fr) @ (?after @ post)" by (simp add: pg)
  have l: "length (pre @ ?before) \<le> length ?file" "length (fst (buildColumnPage zenc (?subs ! k) fr)) < 2 ^ 32" using f unfolding fl by simp_all
  have "cd_firstPageOffset d + sum_list (map pe_byteLen (take k (cd_pages d))) = of_nat (length (pre @ ?before))"
    using byteLen_sum [of k ?subs zenc 0] k(1) by (simp add: d)
  moreover have "sint (of_nat (length (pre @ ?before)) :: u64) = int (length (pre @ ?before))" using l(1) f by (intro sint_of_nat64) simp
  moreover have "drop (length (pre @ ?before)) ?file = fst (buildColumnPage zenc (?subs ! k) fr) @ ?after @ post" by (subst fl) simp
  moreover obtain h payload where "readPage zdec (fst (buildColumnPage zenc (?subs ! k) fr) @ ?after @ post) = Inr (h, payload, length (fst (buildColumnPage zenc (?subs ! k) fr)))"
      "decodePagePayload h payload (cl_width c) = Some (Inr (cl_data (?subs ! k)))"
    using buildColumnPage_read [of zdec zenc, OF z _ l(2), of "?after @ post"] p by (auto simp: part_of_def)
  moreover have "unat (cd_width d) = cl_width c" using ok d by (simp add: column_ok_def of_nat_inverse_8)
  moreover have "k \<le> length (cd_pages d)" using k(1) by (simp add: d)
  ultimately show ?thesis using l(1) unfolding decodeColumnPage_def by (simp del: length_append append_assoc)
qed

text \<open>A page-pruned read is sound: for a column split over several pages the skip list leads to every page
  on its own, the page decodes to its part of the column, and the zone recorded for it, if any, bounds every
  value of the part, so a page whose zone misses a predicate holds no match.\<close>

theorem skip_list_reads_one_page:
  assumes "\<And>x. zdec (zenc x) = Some x" "column_ok c" "k < length (splitColumn c maxRows)" "length (splitColumn c maxRows) > 1"
    and "encode_column zenc c (of_nat (length pre)) maxRows = (bytes, d)" "length (pre @ bytes @ post) < 2 ^ 32"
  shows "decodeColumnPage zdec (pre @ bytes @ post) d k = Some (Inr (cl_data (splitColumn c maxRows ! k)))
    \<and> (pe_hasZone (cd_pages d ! k) \<longrightarrow> i < numValues (splitColumn c maxRows ! k) \<longrightarrow>
        pe_zoneMin (cd_pages d ! k) \<le> readUintWidth (cl_data (splitColumn c maxRows ! k)) i (cl_width (splitColumn c maxRows ! k))
        \<and> readUintWidth (cl_data (splitColumn c maxRows ! k)) i (cl_width (splitColumn c maxRows ! k)) \<le> pe_zoneMax (cd_pages d ! k))"
proof (intro conjI impI)
  show "decodeColumnPage zdec (pre @ bytes @ post) d k = Some (Inr (cl_data (splitColumn c maxRows ! k)))"
    using assms by (rule decodeColumnPage_read)
next
  assume h: "pe_hasZone (cd_pages d ! k)" "i < numValues (splitColumn c maxRows ! k)"
  have "cd_pages d ! k = snd (column_pages zenc (splitColumn c maxRows) 0 ! k)"
    using assms(3-5) by (auto simp: encode_column_def case_prod_unfold Let_def)
  then have "zoneMap (splitColumn c maxRows ! k) = (pe_zoneMin (cd_pages d ! k), pe_zoneMax (cd_pages d ! k), True)"
    using column_pages_entry [OF assms(3), of zenc 0] h(1) by simp
  from zoneMap_bounds [OF this h(2)]
  show "pe_zoneMin (cd_pages d ! k) \<le> readUintWidth (cl_data (splitColumn c maxRows ! k)) i (cl_width (splitColumn c maxRows ! k))"
    "readUintWidth (cl_data (splitColumn c maxRows ! k)) i (cl_width (splitColumn c maxRows ! k)) \<le> pe_zoneMax (cd_pages d ! k)" by simp_all
qed

theorem skip_list_reads_one_page_witness:
  "\<exists>bytes d. encode_column id \<lparr> cl_id = 3, cl_width = 1, cl_kind = kindUint, cl_enc = EncRaw, cl_codec = 0, cl_data = [4, 5, 6] \<rparr> 1 2 = (bytes, d)
     \<and> decodeColumnPage Some ([9] @ bytes @ []) d 1 = Some (Inr [6])"
proof -
  let ?c = "\<lparr> cl_id = 3, cl_width = 1, cl_kind = kindUint, cl_enc = EncRaw, cl_codec = 0, cl_data = [4, 5, 6] \<rparr> :: column"
  obtain bytes d where e: "encode_column id ?c (of_nat (length [9 :: u8])) 2 = (bytes, d)" by fastforce
  have s: "splitColumn ?c 2 = [?c\<lparr> cl_data := [4, 5] \<rparr>, ?c\<lparr> cl_data := [6] \<rparr>]"
    by (simp add: splitColumn_def numValues_def split_loop.simps)
  then have "length bytes = 67"
    using e by (auto simp: encode_column_def buildColumnPage_def length_writePage compress_def PageHeaderSize_def CodecZstd_def Let_def case_prod_unfold)
  then have "length ([9] @ bytes @ []) < 2 ^ 32" by simp
  moreover have "column_ok ?c" by (simp add: column_ok_def numValues_def enc_ok_def)
  ultimately have "decodeColumnPage Some ([9] @ bytes @ []) d 1 = Some (Inr (cl_data (splitColumn ?c 2 ! 1)))"
    using skip_list_reads_one_page [of Some id ?c 1 2 "[9]" bytes d "[]"] e s by simp
  then show ?thesis using e s by auto
qed

end
