(* ===== verification/Table.thy ===== *)
theory Table
  imports Column
begin

text \<open>
  The tables of the file format (\<^verbatim>\<open>format/table.go\<close>): URL and host rows as columns and back.  The
  append helpers of the source are the little-endian writers; the get helpers read the \<open>i\<close>-th value of a
  column and panic, here \<open>None\<close>, when the column is too short.  A discovery source or grouping byte
  outside the enumeration, which no writer produces, is \<open>None\<close> as in the store codec.
\<close>

section \<open>Column ids\<close>

text \<open>The ids are the positions in the schema.\<close>

definition colURLHostKey :: int where "colURLHostKey = 0"
definition colURLPathKey :: int where "colURLPathKey = 1"
definition colURLStatus :: int where "colURLStatus = 2"
definition colURLPriority :: int where "colURLPriority = 3"
definition colURLDepth :: int where "colURLDepth = 4"
definition colURLDiscSource :: int where "colURLDiscSource = 5"
definition colURLRef :: int where "colURLRef = 6"
definition colURLFirstSeen :: int where "colURLFirstSeen = 7"
definition colURLLastCrawled :: int where "colURLLastCrawled = 8"
definition colURLLastChanged :: int where "colURLLastChanged = 9"
definition colURLNextDue :: int where "colURLNextDue = 10"
definition colURLLambda :: int where "colURLLambda = 11"
definition colURLCrawlCount :: int where "colURLCrawlCount = 12"
definition colURLChangeCount :: int where "colURLChangeCount = 13"
definition colURLNoChangeStk :: int where "colURLNoChangeStk = 14"
definition colURLETagRef :: int where "colURLETagRef = 15"
definition colURLLastModified :: int where "colURLLastModified = 16"
definition colURLContentFP :: int where "colURLContentFP = 17"
definition colURLSimhash :: int where "colURLSimhash = 18"
definition colURLHTTPStatus :: int where "colURLHTTPStatus = 19"
definition colURLRedirectRef :: int where "colURLRedirectRef = 20"
definition colURLRetryCount :: int where "colURLRetryCount = 21"
definition colURLErrorCount :: int where "colURLErrorCount = 22"
definition urlColumnCount :: nat where "urlColumnCount = 23"

definition colHostKey :: int where "colHostKey = 0"
definition colHostRef :: int where "colHostRef = 1"
definition colHostGrouping :: int where "colHostGrouping = 2"
definition colHostRegistRef :: int where "colHostRegistRef = 3"
definition colHostResolvedIP :: int where "colHostResolvedIP = 4"
definition colHostIPExpiry :: int where "colHostIPExpiry = 5"
definition colHostRobotsFetch :: int where "colHostRobotsFetch = 6"
definition colHostRobotsExpiry :: int where "colHostRobotsExpiry = 7"
definition colHostRobotsRef :: int where "colHostRobotsRef = 8"
definition colHostCrawlDelay :: int where "colHostCrawlDelay = 9"
definition colHostNextElig :: int where "colHostNextElig = 10"
definition colHostIPNextElig :: int where "colHostIPNextElig = 11"
definition colHostURLBudget :: int where "colHostURLBudget = 12"
definition colHostURLCount :: int where "colHostURLCount = 13"
definition colHostDepthCap :: int where "colHostDepthCap = 14"
definition colHostScore :: int where "colHostScore = 15"
definition colHostCrawlTotal :: int where "colHostCrawlTotal = 16"
definition colHostErrorTotal :: int where "colHostErrorTotal = 17"
definition colHostAvgLatency :: int where "colHostAvgLatency = 18"
definition colHostFlags :: int where "colHostFlags = 19"
definition hostColumnCount :: nat where "hostColumnCount = 20"

lemmas url_ids = colURLHostKey_def colURLPathKey_def colURLStatus_def colURLPriority_def colURLDepth_def colURLDiscSource_def colURLRef_def colURLFirstSeen_def colURLLastCrawled_def colURLLastChanged_def colURLNextDue_def colURLLambda_def colURLCrawlCount_def colURLChangeCount_def colURLNoChangeStk_def colURLETagRef_def colURLLastModified_def colURLContentFP_def colURLSimhash_def colURLHTTPStatus_def colURLRedirectRef_def colURLRetryCount_def colURLErrorCount_def
lemmas host_ids = colHostKey_def colHostRef_def colHostGrouping_def colHostRegistRef_def colHostResolvedIP_def colHostIPExpiry_def colHostRobotsFetch_def colHostRobotsExpiry_def colHostRobotsRef_def colHostCrawlDelay_def colHostNextElig_def colHostIPNextElig_def colHostURLBudget_def colHostURLCount_def colHostDepthCap_def colHostScore_def colHostCrawlTotal_def colHostErrorTotal_def colHostAvgLatency_def colHostFlags_def

section \<open>Rows to columns\<close>

text \<open>One schema entry: id, width, kind, nominal encoding and the bytes of every row in order.\<close>

definition col_of :: "'r list \<Rightarrow> u8 \<Rightarrow> int \<Rightarrow> nat \<Rightarrow> colKind \<Rightarrow> u8 \<Rightarrow> ('r \<Rightarrow> u8 list) \<Rightarrow> column" where
  "col_of recs codec i width kind enc app =
     \<lparr> cl_id = i, cl_width = width, cl_kind = kind, cl_enc = enc, cl_codec = codec, cl_data = concat (map app recs) \<rparr>"

definition urlColumns :: "URLRecord list \<Rightarrow> u8 \<Rightarrow> column list" where
  "urlColumns recs codec =
     [col_of recs codec colURLHostKey 8 kindUint EncRLE (\<lambda>r. PutUint64 (HostKey (u_URLKey r))),
      col_of recs codec colURLPathKey 8 kindUint EncDeltaFOR (\<lambda>r. PutUint64 (PathKey (u_URLKey r))),
      col_of recs codec colURLStatus 1 kindUint EncDict (\<lambda>r. [status_byte (u_Status r)]),
      col_of recs codec colURLPriority 4 kindFloat EncDict (\<lambda>r. PutUint32 (u_Priority r)),
      col_of recs codec colURLDepth 2 kindUint EncFOR (\<lambda>r. PutUint16 (u_Depth r)),
      col_of recs codec colURLDiscSource 1 kindUint EncDict (\<lambda>r. [source_byte (u_DiscoverySource r)]),
      col_of recs codec colURLRef 8 kindUint EncDelta (\<lambda>r. PutUint64 (u_URLRef r)),
      col_of recs codec colURLFirstSeen 4 kindUint EncDelta (\<lambda>r. PutUint32 (u_FirstSeen r)),
      col_of recs codec colURLLastCrawled 4 kindUint EncDelta (\<lambda>r. PutUint32 (u_LastCrawled r)),
      col_of recs codec colURLLastChanged 4 kindUint EncDelta (\<lambda>r. PutUint32 (u_LastChanged r)),
      col_of recs codec colURLNextDue 4 kindUint EncDelta (\<lambda>r. PutUint32 (u_NextDue r)),
      col_of recs codec colURLLambda 4 kindFloat EncDict (\<lambda>r. PutUint32 (u_Lambda r)),
      col_of recs codec colURLCrawlCount 4 kindUint EncFOR (\<lambda>r. PutUint32 (u_CrawlCount r)),
      col_of recs codec colURLChangeCount 4 kindUint EncFOR (\<lambda>r. PutUint32 (u_ChangeCount r)),
      col_of recs codec colURLNoChangeStk 2 kindUint EncFOR (\<lambda>r. PutUint16 (u_NoChangeStreak r)),
      col_of recs codec colURLETagRef 8 kindUint EncDelta (\<lambda>r. PutUint64 (u_ETagRef r)),
      col_of recs codec colURLLastModified 4 kindUint EncDelta (\<lambda>r. PutUint32 (u_LastModified r)),
      col_of recs codec colURLContentFP 8 kindUint EncRaw (\<lambda>r. PutUint64 (u_ContentFP r)),
      col_of recs codec colURLSimhash 8 kindUint EncRaw (\<lambda>r. PutUint64 (u_Simhash r)),
      col_of recs codec colURLHTTPStatus 2 kindUint EncDict (\<lambda>r. PutUint16 (u_HTTPStatus r)),
      col_of recs codec colURLRedirectRef 8 kindUint EncRLE (\<lambda>r. PutUint64 (u_RedirectRef r)),
      col_of recs codec colURLRetryCount 1 kindUint EncFOR (\<lambda>r. [u_RetryCount r]),
      col_of recs codec colURLErrorCount 2 kindUint EncFOR (\<lambda>r. PutUint16 (u_ErrorCount r))]"

definition hostColumns :: "HostRecord list \<Rightarrow> u8 \<Rightarrow> column list" where
  "hostColumns recs codec =
     [col_of recs codec colHostKey 8 kindUint EncDeltaFOR (\<lambda>r. PutUint64 (h_HostKey r)),
      col_of recs codec colHostRef 8 kindUint EncDelta (\<lambda>r. PutUint64 (h_HostRef r)),
      col_of recs codec colHostGrouping 1 kindUint EncDict (\<lambda>r. [grouping_byte (h_Grouping r)]),
      col_of recs codec colHostRegistRef 8 kindUint EncDelta (\<lambda>r. PutUint64 (h_RegistrableRef r)),
      col_of recs codec colHostResolvedIP 16 kindRaw EncRaw (\<lambda>r. h_ResolvedIP r),
      col_of recs codec colHostIPExpiry 4 kindUint EncDelta (\<lambda>r. PutUint32 (h_IPExpiry r)),
      col_of recs codec colHostRobotsFetch 4 kindUint EncDelta (\<lambda>r. PutUint32 (h_RobotsFetched r)),
      col_of recs codec colHostRobotsExpiry 4 kindUint EncDelta (\<lambda>r. PutUint32 (h_RobotsExpiry r)),
      col_of recs codec colHostRobotsRef 8 kindUint EncDelta (\<lambda>r. PutUint64 (h_RobotsRef r)),
      col_of recs codec colHostCrawlDelay 2 kindUint EncDict (\<lambda>r. PutUint16 (h_CrawlDelay r)),
      col_of recs codec colHostNextElig 4 kindUint EncDelta (\<lambda>r. PutUint32 (h_HostNextEligible r)),
      col_of recs codec colHostIPNextElig 4 kindUint EncDelta (\<lambda>r. PutUint32 (h_IPNextEligible r)),
      col_of recs codec colHostURLBudget 4 kindUint EncFOR (\<lambda>r. PutUint32 (h_URLBudget r)),
      col_of recs codec colHostURLCount 4 kindUint EncFOR (\<lambda>r. PutUint32 (h_URLCount r)),
      col_of recs codec colHostDepthCap 2 kindUint EncDict (\<lambda>r. PutUint16 (h_DepthCap r)),
      col_of recs codec colHostScore 4 kindFloat EncDict (\<lambda>r. PutUint32 (h_HostScore r)),
      col_of recs codec colHostCrawlTotal 4 kindUint EncFOR (\<lambda>r. PutUint32 (h_CrawlTotal r)),
      col_of recs codec colHostErrorTotal 4 kindUint EncFOR (\<lambda>r. PutUint32 (h_ErrorTotal r)),
      col_of recs codec colHostAvgLatency 2 kindUint EncFOR (\<lambda>r. PutUint16 (h_AvgLatency r)),
      col_of recs codec colHostFlags 2 kindUint EncDict (\<lambda>r. PutUint16 (h_Flags r))]"

section \<open>Columns to rows\<close>

definition chunk_at :: "nat \<Rightarrow> u8 list \<Rightarrow> nat \<Rightarrow> u8 list option" where
  "chunk_at w data i = (if (i + 1) * w \<le> length data then Some (take w (drop (i * w) data)) else None)"

definition getU8 :: "u8 list \<Rightarrow> nat \<Rightarrow> u8 option" where "getU8 data i = map_option hd (chunk_at 1 data i)"
definition getU16 :: "u8 list \<Rightarrow> nat \<Rightarrow> u16 option" where "getU16 data i = map_option Uint16 (chunk_at 2 data i)"
definition getU32 :: "u8 list \<Rightarrow> nat \<Rightarrow> u32 option" where "getU32 data i = map_option Uint32 (chunk_at 4 data i)"
definition getU64 :: "u8 list \<Rightarrow> nat \<Rightarrow> u64 option" where "getU64 data i = map_option Uint64 (chunk_at 8 data i)"
definition getF32 :: "u8 list \<Rightarrow> nat \<Rightarrow> f32 option" where "getF32 data i = getU32 data i"

definition col_data :: "(int, u8 list) gomap \<Rightarrow> int \<Rightarrow> u8 list" where
  "col_data cols c = (case map_of cols c of None \<Rightarrow> [] | Some d \<Rightarrow> d)"

definition url_row :: "(int, u8 list) gomap \<Rightarrow> nat \<Rightarrow> URLRecord option" where
  "url_row cols i = do {
     hostKey \<leftarrow> getU64 (col_data cols colURLHostKey) i;
     pathKey \<leftarrow> getU64 (col_data cols colURLPathKey) i;
     st \<leftarrow> map_option byte_status (getU8 (col_data cols colURLStatus) i);
     priority \<leftarrow> getF32 (col_data cols colURLPriority) i;
     depth \<leftarrow> getU16 (col_data cols colURLDepth) i;
     discoverySource \<leftarrow> Option.bind (getU8 (col_data cols colURLDiscSource) i) byte_source;
     uRLRef \<leftarrow> getU64 (col_data cols colURLRef) i;
     firstSeen \<leftarrow> getU32 (col_data cols colURLFirstSeen) i;
     lastCrawled \<leftarrow> getU32 (col_data cols colURLLastCrawled) i;
     lastChanged \<leftarrow> getU32 (col_data cols colURLLastChanged) i;
     nextDue \<leftarrow> getU32 (col_data cols colURLNextDue) i;
     lambda \<leftarrow> getF32 (col_data cols colURLLambda) i;
     crawlCount \<leftarrow> getU32 (col_data cols colURLCrawlCount) i;
     changeCount \<leftarrow> getU32 (col_data cols colURLChangeCount) i;
     noChangeStreak \<leftarrow> getU16 (col_data cols colURLNoChangeStk) i;
     eTagRef \<leftarrow> getU64 (col_data cols colURLETagRef) i;
     lastModified \<leftarrow> getU32 (col_data cols colURLLastModified) i;
     contentFP \<leftarrow> getU64 (col_data cols colURLContentFP) i;
     simhash \<leftarrow> getU64 (col_data cols colURLSimhash) i;
     hTTPStatus \<leftarrow> getU16 (col_data cols colURLHTTPStatus) i;
     redirectRef \<leftarrow> getU64 (col_data cols colURLRedirectRef) i;
     retryCount \<leftarrow> getU8 (col_data cols colURLRetryCount) i;
     errorCount \<leftarrow> getU16 (col_data cols colURLErrorCount) i;
     Some \<lparr> u_URLKey = URLKey hostKey pathKey, u_HostKey = hostKey, u_Status = st,
       u_Priority = priority, u_Depth = depth, u_DiscoverySource = discoverySource, u_URLRef = uRLRef,
       u_FirstSeen = firstSeen, u_LastCrawled = lastCrawled, u_LastChanged = lastChanged, u_NextDue = nextDue,
       u_Lambda = lambda, u_CrawlCount = crawlCount, u_ChangeCount = changeCount, u_NoChangeStreak = noChangeStreak,
       u_ETagRef = eTagRef, u_LastModified = lastModified, u_ContentFP = contentFP, u_Simhash = simhash,
       u_HTTPStatus = hTTPStatus, u_RedirectRef = redirectRef, u_RetryCount = retryCount, u_ErrorCount = errorCount \<rparr>
   }"

definition host_row :: "(int, u8 list) gomap \<Rightarrow> nat \<Rightarrow> HostRecord option" where
  "host_row cols i = do {
     hostKey \<leftarrow> getU64 (col_data cols colHostKey) i;
     hostRef \<leftarrow> getU64 (col_data cols colHostRef) i;
     grouping \<leftarrow> Option.bind (getU8 (col_data cols colHostGrouping) i) byte_grouping;
     registrableRef \<leftarrow> getU64 (col_data cols colHostRegistRef) i;
     resolvedIP \<leftarrow> chunk_at 16 (col_data cols colHostResolvedIP) i;
     iPExpiry \<leftarrow> getU32 (col_data cols colHostIPExpiry) i;
     robotsFetched \<leftarrow> getU32 (col_data cols colHostRobotsFetch) i;
     robotsExpiry \<leftarrow> getU32 (col_data cols colHostRobotsExpiry) i;
     robotsRef \<leftarrow> getU64 (col_data cols colHostRobotsRef) i;
     crawlDelay \<leftarrow> getU16 (col_data cols colHostCrawlDelay) i;
     hostNextEligible \<leftarrow> getU32 (col_data cols colHostNextElig) i;
     iPNextEligible \<leftarrow> getU32 (col_data cols colHostIPNextElig) i;
     uRLBudget \<leftarrow> getU32 (col_data cols colHostURLBudget) i;
     uRLCount \<leftarrow> getU32 (col_data cols colHostURLCount) i;
     depthCap \<leftarrow> getU16 (col_data cols colHostDepthCap) i;
     hostScore \<leftarrow> getF32 (col_data cols colHostScore) i;
     crawlTotal \<leftarrow> getU32 (col_data cols colHostCrawlTotal) i;
     errorTotal \<leftarrow> getU32 (col_data cols colHostErrorTotal) i;
     avgLatency \<leftarrow> getU16 (col_data cols colHostAvgLatency) i;
     flgs \<leftarrow> getU16 (col_data cols colHostFlags) i;
     Some \<lparr> h_HostKey = hostKey, h_HostRef = hostRef, h_Grouping = grouping, h_RegistrableRef = registrableRef,
       h_ResolvedIP = resolvedIP, h_IPExpiry = iPExpiry, h_RobotsFetched = robotsFetched, h_RobotsExpiry = robotsExpiry,
       h_RobotsRef = robotsRef, h_CrawlDelay = crawlDelay, h_HostNextEligible = hostNextEligible,
       h_IPNextEligible = iPNextEligible, h_URLBudget = uRLBudget, h_URLCount = uRLCount, h_DepthCap = depthCap,
       h_HostScore = hostScore, h_CrawlTotal = crawlTotal, h_ErrorTotal = errorTotal, h_AvgLatency = avgLatency,
       h_Flags = flgs \<rparr>
   }"

text \<open>The rows of a table; \<open>n\<close> is the row count of the header as a signed int, and a negative one is a
  panic of \<open>make\<close>.\<close>

definition rows_from :: "nat \<Rightarrow> ((int, u8 list) gomap \<Rightarrow> nat \<Rightarrow> 'r option) \<Rightarrow> (int, u8 list) gomap \<Rightarrow> int \<Rightarrow> (format_error + 'r list) option" where
  "rows_from cnt row cols n =
     (if \<not> list_all (\<lambda>i. map_of cols (int i) \<noteq> None) [0..<cnt] then Some (Inl ErrCorrupt)
      else if n < 0 then None
      else map_option Inr (those (map (row cols) [0..<nat n])))"

definition urlRecordsFromColumns :: "(int, u8 list) gomap \<Rightarrow> int \<Rightarrow> (format_error + URLRecord list) option" where
  "urlRecordsFromColumns = rows_from urlColumnCount url_row"

definition hostRecordsFromColumns :: "(int, u8 list) gomap \<Rightarrow> int \<Rightarrow> (format_error + HostRecord list) option" where
  "hostRecordsFromColumns = rows_from hostColumnCount host_row"

section \<open>Rows read back\<close>

lemma chunk_at_append: "length x = w \<Longrightarrow> chunk_at w (x @ xs) i = (case i of 0 \<Rightarrow> Some x | Suc j \<Rightarrow> chunk_at w xs j)"
  by (cases i) (simp_all add: chunk_at_def)

lemma chunk_at_concat:
  "(\<And>x. x \<in> set xs \<Longrightarrow> length (f x) = w) \<Longrightarrow> i < length xs \<Longrightarrow> chunk_at w (concat (map f xs)) i = Some (f (xs ! i))"
proof (induction xs arbitrary: i)
  case (Cons x xs)
  then show ?case by (cases i) (simp_all add: chunk_at_append)
qed simp

lemma getU8_map: "i < length xs \<Longrightarrow> getU8 (map f xs) i = Some (f (xs ! i))"
  by (auto simp: getU8_def chunk_at_def hd_drop_conv_nth)

lemma those_map_Some: "(\<And>x. x \<in> set xs \<Longrightarrow> f x = Some (g x)) \<Longrightarrow> those (map f xs) = Some (map g xs)"
  by (induction xs) simp_all

lemma col_of_ok:
  assumes "\<And>r. r \<in> set recs \<Longrightarrow> length (app r) = width" "length recs < 2 ^ 32" "0 < width" "width < 256" "enc_ok enc"
  shows "column_ok (col_of recs codec i width kind enc app)"
  using assms by (simp add: col_of_def column_ok_def numValues_def length_concat_uniform)

lemma enc_ok_ids: "enc_ok EncRaw" "enc_ok EncRLE" "enc_ok EncDict" "enc_ok EncDelta" "enc_ok EncFOR" "enc_ok EncDeltaFOR"
  by (simp_all add: enc_ok_def)

lemma urlColumns_ok: "length recs < 2 ^ 32 \<Longrightarrow> list_all column_ok (urlColumns recs codec)" "distinct (map cl_id (urlColumns recs codec))"
  by (simp_all add: urlColumns_def col_of_ok enc_ok_ids) (simp add: col_of_def url_ids)

lemma hostColumns_ok:
  "length recs < 2 ^ 32 \<Longrightarrow> list_all host_ok recs \<Longrightarrow> list_all column_ok (hostColumns recs codec)" "distinct (map cl_id (hostColumns recs codec))"
  by (simp_all add: hostColumns_def col_of_ok enc_ok_ids list_all_iff host_ok_def) (simp add: col_of_def host_ids)

lemma byte_source_inverse: "byte_source (source_byte s) = Some s"
  by (cases s) (simp_all add: byte_source_def)

lemma byte_grouping_inverse: "byte_grouping (grouping_byte g) = Some g"
  by (cases g) (simp_all add: byte_grouping_def)

lemma col_data_id: "map_of cols = map_of (map (\<lambda>c. (cl_id c, cl_data c)) cs) \<Longrightarrow> col_data cols i = (case map_of (map (\<lambda>c. (cl_id c, cl_data c)) cs) i of None \<Rightarrow> [] | Some d \<Rightarrow> d)"
  by (simp add: col_data_def)

lemma url_row_read:
  assumes "map_of cols = map_of (map (\<lambda>c. (cl_id c, cl_data c)) (urlColumns recs codec))" "i < length recs" "url_ok (recs ! i)"
  shows "url_row cols i = Some (recs ! i)"
proof -
  obtain k where k: "u_URLKey (recs ! i) = URLKey (HostKey k) (PathKey k)" "u_HostKey (recs ! i) = HostKey k" "byte_status (status_byte (u_Status (recs ! i))) = u_Status (recs ! i)" using assms(3) by (auto simp: url_ok_def status_ok_def)
  show ?thesis
    unfolding url_row_def col_data_id [OF assms(1)]
    using assms(2) k by (simp add: urlColumns_def col_of_def url_ids getU8_map getU16_def getU32_def getU64_def getF32_def chunk_at_concat byte_source_inverse)
qed

lemma host_row_read:
  assumes "map_of cols = map_of (map (\<lambda>c. (cl_id c, cl_data c)) (hostColumns recs codec))" "i < length recs" "list_all host_ok recs"
  shows "host_row cols i = Some (recs ! i)"
  unfolding host_row_def col_data_id [OF assms(1)]
  using assms(2,3) by (simp add: hostColumns_def col_of_def host_ids getU8_map getU16_def getU32_def getU64_def getF32_def chunk_at_concat
      byte_grouping_inverse list_all_iff host_ok_def)

lemma rows_from_read:
  assumes "map_of cols = map_of (map (\<lambda>c. (cl_id c, cl_data c)) cs)" "map cl_id cs = map int [0..<cnt]"
    and "\<And>i. i < length recs \<Longrightarrow> row cols i = Some (recs ! i)"
  shows "rows_from cnt row cols (int (length recs)) = Some (Inr recs)"
proof -
  have "map_of cols (int i) \<noteq> None" if "i < cnt" for i
  proof -
    have "int i \<in> set (map cl_id cs)" using that assms(2) by simp
    then show ?thesis by (simp add: assms(1) map_of_eq_None_iff image_image)
  qed
  moreover have "those (map (row cols) [0..<length recs]) = Some (map (\<lambda>i. recs ! i) [0..<length recs])"
    using assms(3) by (intro those_map_Some) simp
  ultimately show ?thesis by (simp add: rows_from_def list_all_iff map_nth)
qed

lemma url_rows_read:
  assumes "map_of cols = map_of (map (\<lambda>c. (cl_id c, cl_data c)) (urlColumns recs codec))" "list_all url_ok recs"
  shows "urlRecordsFromColumns cols (int (length recs)) = Some (Inr recs)"
  unfolding urlRecordsFromColumns_def
proof (rule rows_from_read [OF assms(1)])
  show "map cl_id (urlColumns recs codec) = map int [0..<urlColumnCount]" by (simp add: urlColumns_def col_of_def url_ids urlColumnCount_def upt_rec)
  show "url_row cols i = Some (recs ! i)" if "i < length recs" for i
    using that assms(2) by (intro url_row_read [OF assms(1)]) (simp_all add: list_all_length)
qed

lemma host_rows_read:
  assumes "map_of cols = map_of (map (\<lambda>c. (cl_id c, cl_data c)) (hostColumns recs codec))" "list_all host_ok recs"
  shows "hostRecordsFromColumns cols (int (length recs)) = Some (Inr recs)"
  unfolding hostRecordsFromColumns_def
proof (rule rows_from_read [OF assms(1)])
  show "map cl_id (hostColumns recs codec) = map int [0..<hostColumnCount]" by (simp add: hostColumns_def col_of_def host_ids hostColumnCount_def upt_rec)
  show "host_row cols i = Some (recs ! i)" if "i < length recs" for i
    using that assms(2) by (intro host_row_read [OF assms(1)])
qed

end
