(* ===== verification/Batch.thy ===== *)
theory Batch
  imports Fsst Router Table
begin

text \<open>
  The wire form of a discovery batch (\<^verbatim>\<open>distribute/batch.go\<close>) and the transport that carries it
  (\<^verbatim>\<open>distribute/transport.go\<close>): the rows are sorted by key and laid out column by column, the keys as
  deltas, the URLs as spans of a shared symbol table.  The theory shows that a batch reads back in key
  order, that the wire transport simulates the channel transport step by step, and hence that links
  routed over the wire arrive.

  In results of type \<open>_ option option\<close> the outer \<open>None\<close> is a Go panic and \<open>Some None\<close> the answer that
  the body is not well formed.  An enumeration byte that no constant of the source names has no
  counterpart in the model and is an outer \<open>None\<close> too.
\<close>

section \<open>Encoding\<close>

text \<open>\<^verbatim>\<open>sort.Slice\<close> leaves the order of rows with equal keys open: the sort is the argument \<open>srt\<close>.\<close>

definition key_sort :: "(Discovery list \<Rightarrow> Discovery list) \<Rightarrow> bool" where
  "key_sort srt \<longleftrightarrow> (\<forall>b. mset (srt b) = mset b \<and> sorted_wrt (\<lambda>x y. \<not> URLKey_Less (d_URLKey y) (d_URLKey x)) (srt b))"

fun anchor_byte :: "AnchorHint \<Rightarrow> u8" where
  "anchor_byte AnchorUnknown = 0"
| "anchor_byte AnchorEmpty = 1"
| "anchor_byte AnchorGeneric = 2"
| "anchor_byte AnchorDescriptive = 3"
| "anchor_byte AnchorSpammy = 4"

definition byte_anchor :: "u8 \<Rightarrow> AnchorHint option" where
  "byte_anchor b =
     (if b = 0 then Some AnchorUnknown else if b = 1 then Some AnchorEmpty else if b = 2 then Some AnchorGeneric
      else if b = 3 then Some AnchorDescriptive else if b = 4 then Some AnchorSpammy else None)"

fun put_deltas :: "u64 \<Rightarrow> u64 list \<Rightarrow> u8 list" where
  "put_deltas prev [] = []"
| "put_deltas prev (v # vs) = uvarint (unat (v - prev)) @ put_deltas v vs"

fun put_zigzags :: "u64 \<Rightarrow> u64 list \<Rightarrow> u8 list" where
  "put_zigzags prev [] = []"
| "put_zigzags prev (v # vs) = uvarint (unat (zigzag (v - prev))) @ put_zigzags v vs"

definition put_columns :: "Discovery list \<Rightarrow> u64 list \<Rightarrow> u8 list" where
  "put_columns b offs =
     put_deltas 0 (map (HostKey \<circ> d_URLKey) b)
     @ put_zigzags 0 (map (PathKey \<circ> d_URLKey) b)
     @ concat (map (\<lambda>d. uvarint (unat (d_Depth d))) b)
     @ map (source_byte \<circ> d_DiscoverySource) b
     @ put_zigzags 0 (map d_SrcHostKey b)
     @ concat (map (PutUint32 \<circ> d_LinkWeight) b)
     @ map (anchor_byte \<circ> d_AnchorHint) b
     @ put_zigzags 0 (map (ucast \<circ> d_ObservedAt) b)
     @ put_deltas 0 offs"

type_synonym index_sort = "fsstSymbol list \<Rightarrow> nat list \<Rightarrow> nat list"

definition EncodeBatch :: "index_sort \<Rightarrow> (Discovery list \<Rightarrow> Discovery list) \<Rightarrow> Discovery list \<Rightarrow> u8 list option" where
  "EncodeBatch isrt srt batch =
     (if batch = [] then Some []
      else
        (let b = srt batch in
         do {
           (arena, offs) \<leftarrow> BuildFSSTArena isrt (map (bytes_of \<circ> d_CanonicalURL) b);
           let (table, spans) = FSST_Bytes arena in
           Some (uvarint (length b) @ put_columns b offs @ uvarint (length table) @ table @ uvarint (length spans) @ spans)
         }))"

section \<open>Decoding\<close>

text \<open>The read position and the bytes from it on.\<close>

type_synonym cursor = "nat \<times> u8 list"

definition readUv :: "cursor \<Rightarrow> (u64 \<times> cursor) option" where
  "readUv c = map_option (\<lambda>(v, k). (of_nat v, fst c + k, drop k (snd c))) (Uvarint (snd c))"

definition take_bytes :: "nat \<Rightarrow> cursor \<Rightarrow> (u8 list \<times> cursor) option" where
  "take_bytes n c = (if n > length (snd c) then None else Some (take n (snd c), fst c + n, drop n (snd c)))"

text \<open>\<^verbatim>\<open>readBytes\<close>: the end position is a signed 64-bit sum.  A length near \<open>2^63\<close> makes it negative, which
  passes the test against the length of the body and panics in the slice.\<close>

definition readBytes :: "int \<Rightarrow> cursor \<Rightarrow> (u8 list \<times> cursor) option option" where
  "readBytes n c =
     (if n < 0 then Some None
      else if int (fst c) + n \<ge> 2 ^ 63 then None
      else Some (take_bytes (nat n) c))"

fun read_uvs :: "nat \<Rightarrow> cursor \<Rightarrow> (u64 list \<times> cursor) option" where
  "read_uvs 0 c = Some ([], c)"
| "read_uvs (Suc n) c = do { (v, c) \<leftarrow> readUv c; (vs, c) \<leftarrow> read_uvs n c; Some (v # vs, c) }"

fun read_deltas :: "nat \<Rightarrow> u64 \<Rightarrow> cursor \<Rightarrow> (u64 list \<times> cursor) option" where
  "read_deltas 0 prev c = Some ([], c)"
| "read_deltas (Suc n) prev c = do { (d, c) \<leftarrow> readUv c; (vs, c) \<leftarrow> read_deltas n (prev + d) c; Some ((prev + d) # vs, c) }"

fun read_zigzags :: "nat \<Rightarrow> u64 \<Rightarrow> cursor \<Rightarrow> (u64 list \<times> cursor) option" where
  "read_zigzags 0 prev c = Some ([], c)"
| "read_zigzags (Suc n) prev c =
     do { (z, c) \<leftarrow> readUv c; (vs, c) \<leftarrow> read_zigzags n (prev + unzigzag z) c; Some ((prev + unzigzag z) # vs, c) }"

record columns =
  co_hosts :: "u64 list"
  co_paths :: "u64 list"
  co_depths :: "u64 list"
  co_src :: "u8 list"
  co_srcHosts :: "u64 list"
  co_weights :: "u8 list"
  co_anchors :: "u8 list"
  co_observed :: "u64 list"
  co_refs :: "u64 list"

definition read_columns :: "nat \<Rightarrow> cursor \<Rightarrow> (columns \<times> cursor) option" where
  "read_columns n c = do {
     (hosts, c) \<leftarrow> read_deltas n 0 c;
     (paths, c) \<leftarrow> read_zigzags n 0 c;
     (depths, c) \<leftarrow> read_uvs n c;
     (src, c) \<leftarrow> take_bytes n c;
     (srcHosts, c) \<leftarrow> read_zigzags n 0 c;
     (weights, c) \<leftarrow> take_bytes (4 * n) c;
     (anchors, c) \<leftarrow> take_bytes n c;
     (observed, c) \<leftarrow> read_zigzags n 0 c;
     (refs, c) \<leftarrow> read_deltas n 0 c;
     Some (\<lparr> co_hosts = hosts, co_paths = paths, co_depths = depths, co_src = src, co_srcHosts = srcHosts, co_weights = weights,
       co_anchors = anchors, co_observed = observed, co_refs = refs \<rparr>, c)
   }"

definition batch_rows :: "nat \<Rightarrow> columns \<Rightarrow> DiscoverySource list \<Rightarrow> AnchorHint list \<Rightarrow> u8 list list \<Rightarrow> Discovery list" where
  "batch_rows n cols sources anchors urls =
     map (\<lambda>i. \<lparr> d_URLKey = URLKey (co_hosts cols ! i) (co_paths cols ! i), d_CanonicalURL = string_of (urls ! i),
            d_Depth = ucast (co_depths cols ! i), d_DiscoverySource = sources ! i, d_SrcHostKey = co_srcHosts cols ! i,
            d_LinkWeight = Uint32 (take 4 (drop (4 * i) (co_weights cols))), d_AnchorHint = anchors ! i,
            d_ObservedAt = ucast (co_observed cols ! i) \<rparr>) [0..<n]"

text \<open>A region with its length in front.\<close>

definition read_region :: "cursor \<Rightarrow> (u8 list \<times> cursor) option option" where
  "read_region c = (case readUv c of None \<Rightarrow> Some None | Some (len, c) \<Rightarrow> readBytes (sint len) c)"

definition finish_rows :: "index_sort \<Rightarrow> nat \<Rightarrow> columns \<Rightarrow> u8 list \<Rightarrow> u8 list \<Rightarrow> Discovery list option" where
  "finish_rows isrt n cols table spans = do {
     arena \<leftarrow> LoadFSSTArena isrt table spans;
     urls \<leftarrow> those (map (FSST_Read arena) (co_refs cols));
     sources \<leftarrow> those (map byte_source (co_src cols));
     anchors \<leftarrow> those (map byte_anchor (co_anchors cols));
     Some (batch_rows n cols sources anchors urls)
   }"

definition DecodeBatch :: "index_sort \<Rightarrow> u8 list \<Rightarrow> Discovery list option option" where
  "DecodeBatch isrt body =
     (if body = [] then Some (Some [])
      else case readUv (0, body) of
        None \<Rightarrow> Some None
      | Some (n64, c) \<Rightarrow>
          if sint n64 < 0 \<or> sint n64 > int (length body) then Some None
          else case read_columns (nat (sint n64)) c of
            None \<Rightarrow> Some None
          | Some (cols, c) \<Rightarrow> do {
              r \<leftarrow> read_region c;
              case r of
                None \<Rightarrow> Some None
              | Some (table, c) \<Rightarrow> do {
                  r \<leftarrow> read_region c;
                  case r of
                    None \<Rightarrow> Some None
                  | Some (spans, c) \<Rightarrow> map_option Some (finish_rows isrt (nat (sint n64)) cols table spans)
                }
            })"

section \<open>The wire transport\<close>

definition wire_Send :: "index_sort \<Rightarrow> (Discovery list \<Rightarrow> Discovery list) \<Rightarrow> u8 list chanTransport send" where
  "wire_Send isrt srt to batch t =
     (if batch = [] then Some (True, t) else do { body \<leftarrow> EncodeBatch isrt srt batch; map_option (Pair True) (chan_push to body t) })"

definition wire_Recv :: "index_sort \<Rightarrow> u8 list chanTransport recv" where
  "wire_Recv isrt self t =
     (case chan_pop self t of
        (None, t1) \<Rightarrow> Some (None, t1)
      | (Some body, t1) \<Rightarrow> map_option (\<lambda>r. (r, t1)) (DecodeBatch isrt body))"

section \<open>The columns read back\<close>

named_theorems cursor_reads

lemma readUv_read [cursor_reads]: "readUv (p, uvarint (unat v) @ rest) = Some (v, p + length (uvarint (unat v)), rest)" for v :: u64
  using Uvarint_uvarint [OF unat_lt_2p64 [of v], of rest] by (simp add: readUv_def)

lemma readUv_nat: "n < 2 ^ 64 \<Longrightarrow> readUv (p, uvarint n @ rest) = Some (of_nat n, p + length (uvarint n), rest)"
  by (simp add: readUv_def Uvarint_uvarint)

lemma take_bytes_read [cursor_reads]: "length xs = n \<Longrightarrow> take_bytes n (p, xs @ rest) = Some (xs, p + n, rest)"
  by (simp add: take_bytes_def)

lemma read_deltas_read [cursor_reads]:
  "length vs = n \<Longrightarrow> read_deltas n prev (p, put_deltas prev vs @ rest) = Some (vs, p + length (put_deltas prev vs), rest)"
  by (induction vs arbitrary: n prev p) (auto simp: readUv_read add.assoc)

lemma read_zigzags_read [cursor_reads]:
  "length vs = n \<Longrightarrow> read_zigzags n prev (p, put_zigzags prev vs @ rest) = Some (vs, p + length (put_zigzags prev vs), rest)"
  by (induction vs arbitrary: n prev p) (auto simp: readUv_read unzigzag_zigzag add.assoc)

lemma read_uvs_read [cursor_reads]:
  "length b = n \<Longrightarrow> read_uvs n (p, concat (map (\<lambda>d. uvarint (unat (d_Depth d))) b) @ rest)
     = Some (map (ucast \<circ> d_Depth) b, p + length (concat (map (\<lambda>d. uvarint (unat (d_Depth d))) b)), rest)"
proof (induction b arbitrary: n p)
  case (Cons d b)
  have "unat (d_Depth d) < 2 ^ 16" using unsigned_less [of "d_Depth d"] by simp
  then have "unat (d_Depth d) < 2 ^ 64" by simp
  from readUv_nat [OF this, of p] have "readUv (p, uvarint (unat (d_Depth d)) @ r) = Some (ucast (d_Depth d), p + length (uvarint (unat (d_Depth d))), r)" for r
    by (simp add: of_nat_unat)
  with Cons.IH [OF refl] Cons.prems [symmetric] show ?case by (simp add: add.assoc)
qed simp

lemma length_concat_PutUint32 [simp]: "length (concat (map (PutUint32 \<circ> f) xs)) = 4 * length xs"
  by (induction xs) simp_all

lemma weight_read: "i < length xs \<Longrightarrow> Uint32 (take 4 (drop (4 * i) (concat (map (PutUint32 \<circ> f) xs)))) = f (xs ! i)"
proof (induction xs arbitrary: i)
  case (Cons x xs)
  then show ?case by (cases i) simp_all
qed simp

lemma byte_anchor_byte [simp]: "byte_anchor (anchor_byte a) = Some a"
  by (cases a) (simp_all add: byte_anchor_def)

lemma ucast_back [simp]: "ucast (ucast (x :: u16) :: u64) = x" "ucast (ucast (y :: u32) :: u64) = y"
  by (simp_all add: unsigned_ucast_eq take_bit_word_eq_self)

definition columns_of :: "Discovery list \<Rightarrow> u64 list \<Rightarrow> columns" where
  "columns_of b offs = \<lparr> co_hosts = map (HostKey \<circ> d_URLKey) b,
      co_paths = map (PathKey \<circ> d_URLKey) b, co_depths = map (ucast \<circ> d_Depth) b, co_src = map (source_byte \<circ> d_DiscoverySource) b,
      co_srcHosts = map d_SrcHostKey b, co_weights = concat (map (PutUint32 \<circ> d_LinkWeight) b),
      co_anchors = map (anchor_byte \<circ> d_AnchorHint) b, co_observed = map (ucast \<circ> d_ObservedAt) b, co_refs = offs \<rparr>"

lemma read_columns_read:
  assumes "length offs = length b"
  shows "read_columns (length b) (p, put_columns b offs @ rest) = Some (columns_of b offs, p + length (put_columns b offs), rest)"
  using assms by (simp add: read_columns_def put_columns_def columns_of_def cursor_reads add.assoc)

lemma batch_rows_read:
  "batch_rows (length b) (columns_of b offs) (map d_DiscoverySource b) (map d_AnchorHint b) (map (bytes_of \<circ> d_CanonicalURL) b) = b"
  by (rule nth_equalityI) (simp_all add: batch_rows_def columns_of_def weight_read)

lemma finish_rows_read:
  assumes "LoadFSSTArena isrt table spans = Some a" "map (FSST_Read a) offs = map Some (map (bytes_of \<circ> d_CanonicalURL) b)"
  shows "finish_rows isrt (length b) (columns_of b offs) table spans = Some b"
proof -
  have "those (map (FSST_Read a) (co_refs (columns_of b offs))) = Some (map (bytes_of \<circ> d_CanonicalURL) b)"
    using assms(2) by (simp add: columns_of_def those_map_Some)
  moreover have "those (map byte_source (co_src (columns_of b offs))) = Some (map d_DiscoverySource b)"
    "those (map byte_anchor (co_anchors (columns_of b offs))) = Some (map d_AnchorHint b)"
    by (simp_all add: columns_of_def those_map_Some byte_source_inverse)
  ultimately show ?thesis using assms(1) batch_rows_read by (simp add: finish_rows_def)
qed

lemma length_put_deltas: "length (put_deltas prev vs) \<le> 10 * length vs"
proof (induction vs arbitrary: prev)
  case (Cons v vs)
  show ?case using Cons.IH [of v] length_uvarint_10 [of "v - prev"] by simp
qed simp

lemma length_put_zigzags: "length (put_zigzags prev vs) \<le> 10 * length vs"
proof (induction vs arbitrary: prev)
  case (Cons v vs)
  show ?case using Cons.IH [of v] length_uvarint_10 [of "zigzag (v - prev)"] by simp
qed simp

lemma length_put_columns:
  assumes "length offs = length b"
  shows "length (put_columns b offs) \<le> 66 * length b"
proof -
  have "length (concat (map (\<lambda>d. uvarint (unat (d_Depth d))) b)) \<le> 10 * length b"
  proof (induction b)
    case (Cons d b)
    have "unat (d_Depth d) < 2 ^ 16" using unsigned_less [of "d_Depth d"] by simp
    then have "unat (d_Depth d) < 128 ^ Suc 9" by simp
    from length_uvarint_le [OF this] Cons show ?case by simp
  qed simp
  then show ?thesis
    using assms length_put_deltas [of 0 "map (HostKey \<circ> d_URLKey) b"] length_put_zigzags [of 0 "map (PathKey \<circ> d_URLKey) b"]
      length_put_zigzags [of 0 "map d_SrcHostKey b"] length_put_zigzags [of 0 "map (ucast \<circ> d_ObservedAt) b"] length_put_deltas [of 0 offs]
    by (simp add: put_columns_def)
qed

section \<open>A batch reads back\<close>

lemma put_columns_ge: "length b \<le> length (x @ put_columns b offs @ y)"
  by (simp add: put_columns_def)

lemma read_region_read:
  assumes "p + length (uvarint (length xs)) + length xs < 2 ^ 63"
  shows "read_region (p, uvarint (length xs) @ xs @ rest) = Some (Some (xs, p + length (uvarint (length xs)) + length xs, rest))"
proof -
  have "sint (of_nat (length xs) :: u64) = int (length xs)" using assms by (intro sint_of_nat64) simp
  then show ?thesis using assms readUv_nat [of "length xs" p "xs @ rest"]
    by (simp add: read_region_def readBytes_def take_bytes_read del: append_assoc add: append_assoc [symmetric])
qed

text \<open>The sizes for which the lengths of the body stay below \<open>2^63\<close>.\<close>

definition batch_fits :: "Discovery list \<Rightarrow> bool" where
  "batch_fits b \<longleftrightarrow> sum_list (map (length \<circ> d_CanonicalURL) b) < 2 ^ 60 \<and> length b < 2 ^ 50"

lemma DecodeBatch_body:
  assumes "length offs = length b" "length b < 2 ^ 50" "length t < 2 ^ 12" "length s < 2 ^ 62"
    and "finish_rows isrt (length b) (columns_of b offs) t s = Some b"
  shows "DecodeBatch isrt (uvarint (length b) @ put_columns b offs @ uvarint (length t) @ t @ uvarint (length s) @ s) = Some (Some b)"
proof -
  let ?cols = "put_columns b offs" and ?u = "uvarint (length b)"
  let ?rest = "?cols @ uvarint (length t) @ t @ uvarint (length s) @ s"
  have lt: "length ?u \<le> 10" "length (uvarint (length t)) \<le> 10" "length (uvarint (length s)) \<le> 10"
    using length_uvarint_le [of _ 9] assms(2-4) by simp_all
  have cols: "length ?cols \<le> 66 * length b" by (rule length_put_columns [OF assms(1)])
  have "readUv (0, ?u @ ?rest) = Some (of_nat (length b), length ?u, ?rest)" using readUv_nat [of "length b" 0] assms(2) by simp
  moreover have "sint (of_nat (length b) :: u64) = int (length b)" using assms(2) by (intro sint_of_nat64) simp
  moreover have "length b \<le> length (?u @ ?rest)" by (rule put_columns_ge)
  moreover note read_columns_read [OF assms(1)]
  moreover have "read_region (p, uvarint (length t) @ t @ r) = Some (Some (t, p + length (uvarint (length t)) + length t, r))"
    if "p < 2 ^ 60" for p r using that lt assms(3) by (intro read_region_read) simp
  moreover have "read_region (p, uvarint (length s) @ s) = Some (Some (s, p + length (uvarint (length s)) + length s, []))"
    if "p < 2 ^ 61" for p using that lt assms(4) read_region_read [of p s "[]"] by simp
  ultimately show ?thesis using cols lt assms(2,3,5) by (simp add: DecodeBatch_def uvarint_nonempty)
qed

lemma sum_list_sorted: "key_sort srt \<Longrightarrow> sum_list (map f (srt b)) = sum_list (map f b)" for f :: "Discovery \<Rightarrow> nat"
proof -
  assume "key_sort srt"
  then have "mset (map f (srt b)) = mset (map f b)" by (simp add: key_sort_def)
  then have "sum_mset (mset (map f (srt b))) = sum_mset (mset (map f b))" by (rule arg_cong)
  then show "sum_list (map f (srt b)) = sum_list (map f b)" by (simp only: sum_mset_sum_list)
qed

lemma EncodeBatch_reads_back:
  assumes "bucket_sort isrt" "key_sort srt" "batch_fits batch"
  shows "\<exists>body. EncodeBatch isrt srt batch = Some body \<and> DecodeBatch isrt' body = Some (Some (srt batch))"
proof (cases "batch = []")
  case True
  have "mset (srt []) = mset []" using assms(2) unfolding key_sort_def by blast
  then show ?thesis using True by (simp add: EncodeBatch_def DecodeBatch_def)
next
  case False
  let ?b = "srt batch"
  let ?urls = "map (bytes_of \<circ> d_CanonicalURL) ?b"
  have len: "length ?b = length batch" using assms(2) unfolding key_sort_def by (blast intro: mset_eq_length)
  have "sum_list (map length ?urls) = sum_list (map (length \<circ> d_CanonicalURL) batch)"
    using sum_list_sorted [OF assms(2), of "length \<circ> d_CanonicalURL" batch] by (simp add: o_def)
  then have sizes: "sum_list (map length ?urls) < 2 ^ 60" "length ?urls < 2 ^ 50" using assms(3) len by (simp_all add: batch_fits_def)
  from BuildFSSTArena_reads_back [OF assms(1) sizes(1), of isrt'] sizes(2) obtain a offs a' where
    a: "BuildFSSTArena isrt ?urls = Some (a, offs)" "LoadFSSTArena isrt' (fa_table a) (fa_spans a) = Some a'"
      "map (FSST_Read a') offs = map Some ?urls" "length (fa_spans a) \<le> 1 + 2 * sum_list (map length ?urls) + 10 * length ?urls"
      "length (fa_table a) < 2 ^ 12" "length offs = length ?b" by auto
  have "DecodeBatch isrt' (uvarint (length ?b) @ put_columns ?b offs @ uvarint (length (fa_table a)) @ fa_table a @ uvarint (length (fa_spans a)) @ fa_spans a)
      = Some (Some ?b)"
    using a(4-6) sizes by (intro DecodeBatch_body finish_rows_read [OF a(2,3)]) simp_all
  then show ?thesis using False a(1) by (simp add: EncodeBatch_def FSST_Bytes_def Let_def)
qed

section \<open>The wire transport simulates the channel transport\<close>

text \<open>Two transports in step: every send of one is matched by the other, and every receive of the first is
  matched by a receive of the same rows up to the order within a message.\<close>

locale simulated_transport = transport send1 recv1 queued depth
  for send1 :: "u32 \<Rightarrow> Discovery list \<Rightarrow> 's \<Rightarrow> (bool \<times> 's) option" and recv1 :: "u32 \<Rightarrow> 's \<Rightarrow> (Discovery list option \<times> 's) option"
    and queued :: "'s \<Rightarrow> u32 \<Rightarrow> Discovery list" and depth :: "'s \<Rightarrow> u32 \<Rightarrow> nat" +
  fixes send2 :: "u32 \<Rightarrow> Discovery list \<Rightarrow> 't \<Rightarrow> (bool \<times> 't) option" and recv2 :: "u32 \<Rightarrow> 't \<Rightarrow> (Discovery list option \<times> 't) option"
    and rel :: "'s \<Rightarrow> 't \<Rightarrow> bool" and ok :: "Discovery list \<Rightarrow> bool"
  assumes send_sim: "rel s t \<Longrightarrow> ok b \<Longrightarrow> send1 to b s = Some (r, s') \<Longrightarrow> \<exists>t'. send2 to b t = Some (r, t') \<and> rel s' t'"
    and recv_sim: "rel s t \<Longrightarrow> recv1 p s = Some (x, s') \<Longrightarrow>
      \<exists>y t'. recv2 p t = Some (y, t') \<and> rel_option (\<lambda>a b. mset a = mset b) x y \<and> rel s' t'"
    and ok_subset: "ok b \<Longrightarrow> mset c \<subseteq># mset b \<Longrightarrow> ok c"
begin

lemma flush_sim:
  assumes "flush send1 to b s = Some (r, b', s')" "rel s t" "ok (pending_of b to)"
  shows "\<exists>t'. flush send2 to b t = Some (r, b', t') \<and> rel s' t'"
proof (cases "pending_of b to = []")
  case True
  then show ?thesis using assms(1,2) by (simp add: flush_def)
next
  case False
  with assms(1) have "send1 to (pending_of b to) s = Some (r, s')" "b' = b\<lparr> b_pending := mdel to (b_pending b) \<rparr>"
    by (auto simp: flush_def Let_def split: Option.bind_splits)
  with send_sim [OF assms(2,3)] False show ?thesis by (fastforce simp: flush_def Let_def)
qed

lemma flush_pending:
  assumes "flush send1 to b s = Some (r, b', s')"
  shows "pending_of b' p = (if p = to then [] else pending_of b p)"
  using assms by (auto simp: flush_def Let_def pending_of_def split: if_splits Option.bind_splits option.splits)

lemma batch_add_sim:
  assumes "batch_add send1 to d b s = Some (r, b', s')" "rel s t" "ok (pending_of b to @ [d])"
  shows "\<exists>t'. batch_add send2 to d b t = Some (r, b', t') \<and> rel s' t'"
    "pending_of b' to = [] \<or> pending_of b' to = pending_of b to @ [d]" "p \<noteq> to \<Longrightarrow> pending_of b' p = pending_of b p"
proof -
  let ?b1 = "b\<lparr> b_pending := mput to (pending_of b to @ [d]) (b_pending b) \<rparr>"
  have pend: "pending_of ?b1 q = (if q = to then pending_of b q @ [d] else pending_of b q)" for q by (simp add: pending_of_def)
  have "(\<exists>t'. batch_add send2 to d b t = Some (r, b', t') \<and> rel s' t')
    \<and> (pending_of b' to = [] \<or> pending_of b' to = pending_of b to @ [d]) \<and> (p \<noteq> to \<longrightarrow> pending_of b' p = pending_of b p)"
  proof (cases "int (length (pending_of ?b1 to)) \<ge> b_maxSize b")
    case True
    then have "flush send1 to ?b1 s = Some (r, b', s')" using assms(1) by (simp add: batch_add_def Let_def)
    from flush_sim [OF this assms(2)] flush_pending [OF this] pend assms(3) True show ?thesis by (simp add: batch_add_def Let_def)
  next
    case False
    then have "batch_add send1 to d b s = Some (True, ?b1, s)" "batch_add send2 to d b t = Some (True, ?b1, t)"
      by (simp_all add: batch_add_def Let_def)
    then show ?thesis using assms(1,2) pend by auto
  qed
  then show "\<exists>t'. batch_add send2 to d b t = Some (r, b', t') \<and> rel s' t'"
    "pending_of b' to = [] \<or> pending_of b' to = pending_of b to @ [d]" "p \<noteq> to \<Longrightarrow> pending_of b' p = pending_of b p" by blast+
qed

lemma ok_owned_step:
  assumes "\<forall>p. ok (pending_of b p @ owned_links mp p (d # links))" "Owner mp (HostKey (d_URLKey d)) = Some owner"
    and "pending_of b' owner = [] \<or> pending_of b' owner = pending_of b owner \<or> pending_of b' owner = pending_of b owner @ [d]"
    and "\<And>p. p \<noteq> owner \<Longrightarrow> pending_of b' p = pending_of b p"
  shows "\<forall>p. ok (pending_of b' p @ owned_links mp p links)"
proof
  fix p
  have "mset (pending_of b' p @ owned_links mp p links) \<subseteq># mset (pending_of b p @ owned_links mp p (d # links))"
    using assms(2-4) by (cases "p = owner") (auto simp: owned_links_def)
  then show "ok (pending_of b' p @ owned_links mp p links)" using assms(1) ok_subset by blast
qed

lemma route_loop_sim:
  assumes "route_loop send1 self mp links b s = Some (r, b', s')" "rel s t" "\<forall>p. ok (pending_of b p @ owned_links mp p links)"
  shows "\<exists>t'. route_loop send2 self mp links b t = Some (r, b', t') \<and> rel s' t' \<and> (\<forall>p. ok (pending_of b' p))"
  using assms
proof (induction links arbitrary: b s t r)
  case Nil
  have "ok (pending_of b p)" for p using Nil.prems(3) by (simp add: owned_links_def)
  then show ?case using Nil.prems(1,2) by auto
next
  case (Cons d links)
  from Cons.prems(1) obtain owner where o: "Owner mp (HostKey (d_URLKey d)) = Some owner"
    by (auto split: Option.bind_splits)
  show ?case
  proof (cases "owner = self")
    case True
    with o Cons.prems(1) obtain loc okk where l: "r = (d # loc, okk)" "route_loop send1 self mp links b s = Some ((loc, okk), b', s')"
      by (auto split: Option.bind_splits)
    have "\<forall>p. ok (pending_of b p @ owned_links mp p links)" by (rule ok_owned_step [OF Cons.prems(3) o]) simp_all
    with Cons.IH [OF l(2) Cons.prems(2)] l(1) o True show ?thesis by fastforce
  next
    case False
    with o Cons.prems(1) obtain okk b1 s1 where a: "batch_add send1 owner d b s = Some (okk, b1, s1)"
      "(if okk then route_loop send1 self mp links b1 s1 else Some (([], False), b1, s1)) = Some (r, b', s')"
      by (auto split: Option.bind_splits)
    have "mset (pending_of b owner @ [d]) \<subseteq># mset (pending_of b owner @ owned_links mp owner (d # links))" using o by (simp add: owned_links_def)
    then have "ok (pending_of b owner @ [d])" using Cons.prems(3) ok_subset by blast
    note sim = batch_add_sim [OF a(1) Cons.prems(2) this]
    from sim(1) obtain t1 where t1: "batch_add send2 owner d b t = Some (okk, b1, t1)" "rel s1 t1" by blast
    have ok1: "\<forall>p. ok (pending_of b1 p @ owned_links mp p links)" using sim(2,3) by (intro ok_owned_step [OF Cons.prems(3) o]) auto
    show ?thesis
    proof (cases okk)
      case True
      with a(2) Cons.IH [OF _ t1(2) ok1, of r] t1(1) o False show ?thesis by auto
    next
      case okF: False
      have "ok (pending_of b1 p)" for p using ok1 ok_subset [of "pending_of b1 p @ owned_links mp p links" "pending_of b1 p"] by simp
      then show ?thesis using okF a(2) t1 o False by auto
    qed
  qed
qed

lemma flushAll_sim:
  assumes "flushAll send1 order b s = Some (r, b', s')" "rel s t" "\<forall>p. ok (pending_of b p)"
  shows "\<exists>t'. flushAll send2 order b t = Some (r, b', t') \<and> rel s' t'"
  using assms
proof (induction order arbitrary: b s t)
  case (Cons to order)
  from Cons.prems(1) obtain okk b1 s1 where f: "flush send1 to b s = Some (okk, b1, s1)"
    "(if okk then flushAll send1 order b1 s1 else Some (False, b1, s1)) = Some (r, b', s')" by (auto split: Option.bind_splits)
  from flush_sim [OF f(1) Cons.prems(2)] Cons.prems(3) obtain t1 where t1: "flush send2 to b t = Some (okk, b1, t1)" "rel s1 t1" by blast
  have "ok []" using Cons.prems(3) ok_subset [of _ "[]"] by auto
  then have "\<forall>p. ok (pending_of b1 p)" using flush_pending [OF f(1)] Cons.prems(3) by simp
  then show ?case using f(2) t1 Cons.IH [of b1 s1 t1] by (cases okk) auto
qed auto

text \<open>The drain ends on the second transport as it does on the first, with the same rows.\<close>

lemma Drain_sim:
  assumes "rel s t"
  shows "\<exists>ds t'. Router_Drain recv2 p t = Some (ds, t') \<and> mset ds = mset (queued s p)"
  using assms
proof (induction "depth s p" arbitrary: s t rule: less_induct)
  case less
  obtain x s1 where r: "recv1 p s = Some (x, s1)" using recv_total by blast
  from recv_sim [OF less.prems r] obtain y t1 where y: "recv2 p t = Some (y, t1)" "rel_option (\<lambda>a b. mset a = mset b) x y" "rel s1 t1" by blast
  show ?case
  proof (cases x)
    case None
    then show ?thesis using y recv_None r by (subst Router_Drain.simps) auto
  next
    case (Some b)
    then have b: "queued s p = b @ queued s1 p" "depth s1 p < depth s p" using recv_Some r by auto
    from y(2) Some obtain c where c: "y = Some c" "mset c = mset b" by (auto simp: option_rel_Some1)
    from less.hyps [OF b(2) y(3)] obtain ds t2 where "Router_Drain recv2 p t1 = Some (ds, t2)" "mset ds = mset (queued s1 p)" by blast
    then show ?thesis using y(1) c b(1) by (subst Router_Drain.simps) simp
  qed
qed

end

section \<open>The two transports\<close>

lemma batch_fits_subset:
  assumes "batch_fits b" "mset c \<subseteq># mset b"
  shows "batch_fits c"
proof -
  from assms(2) obtain e where e: "mset b = mset c + e" by (auto simp: mset_subset_eq_exists_conv)
  have "length c \<le> length b" using assms(2) size_mset_mono by fastforce
  moreover have "sum_mset (image_mset (length \<circ> d_CanonicalURL) (mset c)) \<le> sum_mset (image_mset (length \<circ> d_CanonicalURL) (mset b))"
    by (simp add: e)
  then have "sum_list (map (length \<circ> d_CanonicalURL) c) \<le> sum_list (map (length \<circ> d_CanonicalURL) b)"
    by (simp only: sum_mset_sum_list flip: mset_map)
  ultimately show ?thesis using assms(1) by (simp add: batch_fits_def)
qed

definition wire_rel :: "index_sort \<Rightarrow> (Discovery list \<Rightarrow> Discovery list) \<Rightarrow> Discovery list chanTransport \<Rightarrow> u8 list chanTransport \<Rightarrow> bool" where
  "wire_rel isrt srt t w \<longleftrightarrow> ch_cap t = ch_cap w
     \<and> (\<forall>p. list_all2 (\<lambda>b body. batch_fits b \<and> EncodeBatch isrt srt b = Some body) (chan_queue t p) (chan_queue w p))"

lemma chan_push_cap: "chan_push to x t = Some t' \<Longrightarrow> ch_cap t' = ch_cap t"
  by (auto simp: chan_push_queue chanFor_def split: if_splits option.splits)

lemma chan_pop_cap: "chan_pop p t = (y, t') \<Longrightarrow> ch_cap t' = ch_cap t"
  by (auto simp: chan_pop_def chanFor_def split: list.splits option.splits prod.splits)

lemma wire_send_sim:
  assumes "bucket_sort isrt" "key_sort srt" "wire_rel isrt srt t w" "batch_fits b" "chan_Send to b t = Some (r, t')"
  shows "\<exists>w'. wire_Send isrt srt to b w = Some (r, w') \<and> wire_rel isrt srt t' w'"
proof (cases "b = []")
  case True
  then show ?thesis using assms(3,5) by (simp add: chan_Send_def wire_Send_def)
next
  case False
  with assms(5) have t': "chan_push to b t = Some t'" "r = True" by (auto simp: chan_Send_def)
  obtain body where body: "EncodeBatch isrt srt b = Some body" using EncodeBatch_reads_back [OF assms(1,2,4)] by blast
  have q: "list_all2 (\<lambda>b body. batch_fits b \<and> EncodeBatch isrt srt b = Some body) (chan_queue t to) (chan_queue w to)"
    using assms(3) by (simp add: wire_rel_def)
  have "length (chan_queue w to) = length (chan_queue t to)" "ch_cap w = ch_cap t"
    using list_all2_lengthD [OF q] assms(3) by (simp_all add: wire_rel_def)
  then have "int (length (chan_queue w to)) < ch_cap w" using t'(1) by (auto simp: chan_push_queue split: if_splits)
  then obtain w' where w': "chan_push to body w = Some w'" by (simp add: chan_push_queue)
  have "wire_rel isrt srt t' w'"
    unfolding wire_rel_def
  proof (intro conjI allI)
    show "ch_cap t' = ch_cap w'" using chan_push_cap [OF t'(1)] chan_push_cap [OF w'] assms(3) by (simp add: wire_rel_def)
    show "list_all2 (\<lambda>b body. batch_fits b \<and> EncodeBatch isrt srt b = Some body) (chan_queue t' p) (chan_queue w' p)" for p
      using assms(3,4) body chan_push_Some [OF t'(1), of p] chan_push_Some [OF w', of p] by (auto simp: wire_rel_def intro!: list_all2_appendI)
  qed
  then show ?thesis using False body w' t'(2) by (simp add: wire_Send_def)
qed

lemma wire_recv_sim:
  assumes "bucket_sort isrt" "key_sort srt" "wire_rel isrt srt t w" "chan_Recv p t = Some (x, t')"
  shows "\<exists>y w'. wire_Recv isrt' p w = Some (y, w') \<and> rel_option (\<lambda>a b. mset a = mset b) x y \<and> wire_rel isrt srt t' w'"
proof -
  have pop: "chan_pop p t = (x, t')" using assms(4) by (simp add: chan_Recv_def)
  obtain z w' where w: "chan_pop p w = (z, w')" by fastforce
  let ?R = "\<lambda>b body. batch_fits b \<and> EncodeBatch isrt srt b = Some body"
  have q: "list_all2 ?R (chan_queue t q) (chan_queue w q)" for q using assms(3) by (simp add: wire_rel_def)
  note ct = chan_pop_cases [OF pop] and cw = chan_pop_cases [OF w]
  have "list_all2 ?R (chan_queue t' p) (chan_queue w' p)"
  proof (cases "chan_queue t p")
    case Nil
    then have "chan_queue w p = []" using q [of p] by simp
    then show ?thesis using ct cw Nil by auto
  next
    case (Cons b bs)
    then obtain body bodies where "chan_queue w p = body # bodies" using q [of p] by (auto simp: list_all2_Cons1)
    then show ?thesis using ct cw Cons q [of p] by auto
  qed
  then have "list_all2 ?R (chan_queue t' r) (chan_queue w' r)" for r using ct cw q [of r] by (cases "r = p") simp_all
  then have rel': "wire_rel isrt srt t' w'"
    using chan_pop_cap [OF pop] chan_pop_cap [OF w] assms(3) by (simp add: wire_rel_def)
  show ?thesis
  proof (cases x)
    case None
    then have "chan_queue t p = []" using ct by auto
    then have "chan_queue w p = []" using q [of p] by simp
    then have "z = None" using cw by auto
    then show ?thesis using None w rel' by (simp add: wire_Recv_def)
  next
    case (Some b)
    then have "chan_queue t p = b # chan_queue t' p" using ct by auto
    then obtain body bodies where b: "chan_queue w p = body # bodies" "?R b body" using q [of p] by (auto simp: list_all2_Cons1)
    then have body: "z = Some body" "?R b body" using cw by auto
    from EncodeBatch_reads_back [OF assms(1,2), of b isrt'] body(2) have "DecodeBatch isrt' body = Some (Some (srt b))" by auto
    moreover have "mset (srt b) = mset b" using assms(2) by (simp add: key_sort_def)
    ultimately show ?thesis using Some body(1) w rel' by (simp add: wire_Recv_def)
  qed
qed

text \<open>The two library sorts the wire transport rests on, and the simulation they give.\<close>

locale wire_sorts =
  fixes isrt :: index_sort and srt :: "Discovery list \<Rightarrow> Discovery list"
  assumes isrt: "bucket_sort isrt" and srt: "key_sort srt"
begin

lemma reads_back: "batch_fits b \<Longrightarrow> \<exists>body. EncodeBatch isrt srt b = Some body \<and> DecodeBatch isrt body = Some (Some (srt b))"
  by (rule EncodeBatch_reads_back [OF isrt srt])

end

sublocale wire_sorts \<subseteq> wire: simulated_transport chan_Send chan_Recv "\<lambda>t p. concat (chan_queue t p)" "\<lambda>t p. length (chan_queue t p)"
  "wire_Send isrt srt" "wire_Recv isrt" "wire_rel isrt srt" batch_fits
  using wire_send_sim [OF isrt srt] wire_recv_sim [OF isrt srt] batch_fits_subset by unfold_locales blast+

context wire_sorts
begin

lemma links_arrive_on_wire:
  assumes "1 \<le> mp_NumPartitions mp" "mp_NumPartitions mp + 1 < 2 ^ 32" "room t (length links + n)"
    and "wire_rel isrt srt t w" "\<forall>p. batch_fits (pending_of b p @ owned_links mp p links)"
  shows "\<exists>b1 w1. route_loop (wire_Send isrt srt) self mp links b w = Some ((owned_links mp self links, True), b1, w1)
     \<and> (\<forall>order. mkeys (b_pending b1) = set order \<longrightarrow> length order \<le> n \<longrightarrow>
          (\<exists>b2 w2. flushAll (wire_Send isrt srt) order b1 w1 = Some (True, b2, w2)
             \<and> (\<forall>p. p \<noteq> self \<longrightarrow> (\<exists>ds w3. Router_Drain (wire_Recv isrt) p w2 = Some (ds, w3)
                   \<and> mset ds = mset (concat (chan_queue t p)) + mset (pending_of b p) + mset (owned_links mp p links)))))"
proof -
  from links_arrive [OF assms(1-3), of self b] obtain b1 t1 where
    rl: "route_loop chan_Send self mp links b t = Some ((owned_links mp self links, True), b1, t1)"
    and fl: "\<And>order. mkeys (b_pending b1) = set order \<Longrightarrow> length order \<le> n \<Longrightarrow> \<exists>b2 t2. flushAll chan_Send order b1 t1 = Some (True, b2, t2)
      \<and> (\<forall>p. p \<noteq> self \<longrightarrow> concat (chan_queue t2 p) = concat (chan_queue t p) @ pending_of b p @ owned_links mp p links)" by blast
  from wire.route_loop_sim [OF rl assms(4,5)] obtain w1 where
    w1: "route_loop (wire_Send isrt srt) self mp links b w = Some ((owned_links mp self links, True), b1, w1)"
      "wire_rel isrt srt t1 w1" "\<forall>p. batch_fits (pending_of b1 p)" by blast
  have "\<exists>b2 w2. flushAll (wire_Send isrt srt) order b1 w1 = Some (True, b2, w2)
      \<and> (\<forall>p. p \<noteq> self \<longrightarrow> (\<exists>ds w3. Router_Drain (wire_Recv isrt) p w2 = Some (ds, w3)
           \<and> mset ds = mset (concat (chan_queue t p)) + mset (pending_of b p) + mset (owned_links mp p links)))"
    if order: "mkeys (b_pending b1) = set order" "length order \<le> n" for order
  proof -
    from fl [OF order] obtain b2 t2 where f: "flushAll chan_Send order b1 t1 = Some (True, b2, t2)"
      "\<forall>p. p \<noteq> self \<longrightarrow> concat (chan_queue t2 p) = concat (chan_queue t p) @ pending_of b p @ owned_links mp p links" by blast
    from wire.flushAll_sim [OF f(1) w1(2,3)] obtain w2 where w2: "flushAll (wire_Send isrt srt) order b1 w1 = Some (True, b2, w2)" "wire_rel isrt srt t2 w2" by blast
    have "\<exists>ds w3. Router_Drain (wire_Recv isrt) p w2 = Some (ds, w3)
        \<and> mset ds = mset (concat (chan_queue t p)) + mset (pending_of b p) + mset (owned_links mp p links)" if "p \<noteq> self" for p
      using wire.Drain_sim [OF w2(2), of p] f(2) that by (auto simp: add.assoc simp del: mset_concat)
    then show ?thesis using w2(1) by blast
  qed
  then show ?thesis using w1(1) by blast
qed

end

text \<open>A stable sort is one such sort.\<close>

lemma stable_key_sort: "key_sort (sort_key d_URLKey)"
proof -
  have "sorted_wrt (\<lambda>x y. \<not> URLKey_Less (d_URLKey y) (d_URLKey x)) (sort_key d_URLKey b)" for b :: "Discovery list"
    using sorted_sort_key [of d_URLKey b] unfolding sorted_map
    by (rule sorted_wrt_mono_rel [rotated]) (simp add: URLKey_Less_iff)
  then show ?thesis by (simp add: key_sort_def)
qed

interpretation stable: wire_sorts by_length "sort_key d_URLKey"
  by unfold_locales (rule by_length_sorts, rule stable_key_sort)

section \<open>Properties\<close>

text \<open>C39: A discovery batch survives the wire: encoding ends, and decoding the body gives the rows of the batch in
  key order, every field of every row included, whatever order the library sorts leave between equal keys
  and in the symbol indexes of the two sides.\<close>

theorem batch_roundtrip:
  assumes "bucket_sort isrt" "key_sort srt" "batch_fits batch"
  shows "\<exists>body. EncodeBatch isrt srt batch = Some body \<and> DecodeBatch isrt' body = Some (Some (srt batch))
     \<and> mset (srt batch) = mset batch \<and> sorted (map d_URLKey (srt batch))"
proof -
  have "mset (srt batch) = mset batch" "sorted_wrt (\<lambda>x y. d_URLKey x \<le> d_URLKey y) (srt batch)"
    using assms(2) by (simp_all add: key_sort_def URLKey_Less_iff not_less)
  then show ?thesis using EncodeBatch_reads_back [OF assms] by (auto simp: sorted_map)
qed

definition demo_rows :: "Discovery list" where
  "demo_rows = [\<lparr> d_URLKey = URLKey 7 9, d_CanonicalURL = ''https://a.b/c'', d_Depth = 2, d_DiscoverySource = SourceLink, d_SrcHostKey = 5,
     d_LinkWeight = 0x3F800000, d_AnchorHint = AnchorGeneric, d_ObservedAt = 1700000000 \<rparr>,
     \<lparr> d_URLKey = URLKey 7 3, d_CanonicalURL = ''https://a.b/d'', d_Depth = 1, d_DiscoverySource = SourceSitemap, d_SrcHostKey = 5,
     d_LinkWeight = 0, d_AnchorHint = AnchorSpammy, d_ObservedAt = 1700000001 \<rparr>]"

theorem batch_roundtrip_witness:
  "\<exists>body. EncodeBatch by_length (sort_key d_URLKey) demo_rows = Some body
     \<and> DecodeBatch by_length body = Some (Some (sort_key d_URLKey demo_rows)) \<and> map d_URLKey (sort_key d_URLKey demo_rows) = [URLKey 7 3, URLKey 7 9]"
proof -
  have "batch_fits demo_rows" by (simp add: batch_fits_def demo_rows_def)
  moreover have "map d_URLKey (sort_key d_URLKey demo_rows) = [URLKey 7 3, URLKey 7 9]"
    by (simp add: demo_rows_def less_eq_URLKey_def URLKey_Less_def)
  ultimately show ?thesis using batch_roundtrip [OF by_length_sorts stable_key_sort, of demo_rows by_length] by auto
qed

text \<open>C40: Links routed over the wire arrive: on an empty wire transport with room for the messages, routing the
  links of an outcome hands the caller its own links, the flush succeeds, and draining any other partition
  gives exactly the links it owns, with what was still pending for it, each once.  Encoding, channel and
  decoding are those of the code; only the order within a message may differ.\<close>

theorem links_arrive_over_the_wire:
  assumes "bucket_sort isrt" "key_sort srt" "1 \<le> mp_NumPartitions (r_cur r)" "mp_NumPartitions (r_cur r) + 1 < 2 ^ 32"
    and "int (length links + n) \<le> depth" "\<forall>p. batch_fits (pending_of (r_bat r) p @ owned_links (r_cur r) p links)"
  shows "\<exists>r1 w1. RouteLinks (wire_Send isrt srt) links r (newChanTransport depth) = Some ((owned_links (r_cur r) (r_self r) links, True), r1, w1)
     \<and> (\<forall>order. mkeys (b_pending (r_bat r1)) = set order \<longrightarrow> length order \<le> n \<longrightarrow>
          (\<exists>r2 w2. Flush (wire_Send isrt srt) order r1 w1 = Some (True, r2, w2)
             \<and> (\<forall>p. p \<noteq> r_self r \<longrightarrow> (\<exists>ds w3. Router_Drain (wire_Recv isrt) p w2 = Some (ds, w3)
                   \<and> mset ds = mset (pending_of (r_bat r) p) + mset (owned_links (r_cur r) p links)))))"
proof -
  have ws: "wire_sorts isrt srt" using assms(1,2) by unfold_locales
  have room: "room (newChanTransport depth) (length links + n)" using assms(5) by (simp add: room_def newChanTransport_def chan_queue_def)
  have rel: "wire_rel isrt srt (newChanTransport depth) (newChanTransport depth)" by (simp add: wire_rel_def newChanTransport_def chan_queue_def)
  have empty: "concat (chan_queue (newChanTransport depth) p) = []" for p by (simp add: newChanTransport_def chan_queue_def)
  from wire_sorts.links_arrive_on_wire [OF ws assms(3,4) room rel assms(6), of "r_self r"] show ?thesis
    unfolding empty by (fastforce simp: RouteLinks_def Flush_def)
qed

theorem links_arrive_over_the_wire_witness:
  "\<exists>r1 w1. RouteLinks (wire_Send by_length (sort_key d_URLKey)) demo_rows demo_router (newChanTransport 8)
     = Some ((owned_links (r_cur demo_router) (r_self demo_router) demo_rows, True), r1, w1)"
proof -
  have "batch_fits demo_rows" by (simp add: batch_fits_def demo_rows_def)
  moreover have "mset (owned_links (r_cur demo_router) p demo_rows) \<subseteq># mset demo_rows" for p by (simp add: owned_links_def)
  ultimately have "batch_fits (owned_links (r_cur demo_router) p demo_rows)" for p by (rule batch_fits_subset)
  moreover have "pending_of (r_bat demo_router) p = []" for p by (simp add: demo_router_def NewRouter_def newBatcher_def pending_of_def)
  ultimately have fit: "\<forall>p. batch_fits (pending_of (r_bat demo_router) p @ owned_links (r_cur demo_router) p demo_rows)" by simp
  have "mp_NumPartitions (r_cur demo_router) = 2"
    using demo_fleet_fields(1) by (simp add: NumPartitions_def demo_router_def NewRouter_def)
  then have "1 \<le> mp_NumPartitions (r_cur demo_router)" "mp_NumPartitions (r_cur demo_router) + 1 < 2 ^ 32" by simp_all
  moreover have "int (length demo_rows + 4) \<le> 8" by (simp add: demo_rows_def)
  ultimately show ?thesis using links_arrive_over_the_wire [OF by_length_sorts stable_key_sort _ _ _ fit] by blast
qed

text \<open>A malformed batch body is not always refused: a body of no rows whose table length is \<open>2^63 - 1\<close> makes
  the end position of the read negative, which passes the length test, and the slice panics.\<close>

theorem corrupt_batch_panics:
  "DecodeBatch isrt (uvarint 0 @ uvarint (2 ^ 63 - 1)) = None"
proof -
  have "readUv (0, uvarint 0 @ uvarint (2 ^ 63 - 1)) = Some (0, length (uvarint 0), uvarint (2 ^ 63 - 1))" using readUv_nat [of 0 0] by simp
  moreover have "sint (of_nat (2 ^ 63 - 1) :: u64) = 2 ^ 63 - 1" by (subst sint_of_nat64) simp_all
  then have "read_region (p, uvarint (2 ^ 63 - 1)) = None" if "0 < p" for p
    using that readUv_nat [of "2 ^ 63 - 1" p "[]"] by (simp add: read_region_def readBytes_def)
  moreover have "0 < length (uvarint 0)" by (simp add: uvarint_nonempty)
  ultimately show ?thesis by (simp add: DecodeBatch_def uvarint_nonempty read_columns_def take_bytes_def)
qed

end
