(* ===== verification/Rebalance.thy ===== *)
theory Rebalance
  imports PartitionMap PartitionOps Checksum "HOL-Library.Multiset"
begin

text \<open>
  The rebalance of \<^verbatim>\<open>distribute/rebalance.go\<close> and the safe-move handshake of
  \<^verbatim>\<open>distribute/handoff.go\<close>.  The iteration order of a Go map is unspecified: \<open>Redistribute\<close> takes it as
  the argument \<open>iter\<close>, which permutes the keys.  The file encoder and the transport are arguments of
  \<open>Handoff\<close>; what holds does so for every encoder and every transport, and \<open>None\<close> is a panic in an arena
  reader or a jump hash that does not end, neither of which happens under the stated bounds.
\<close>

section \<open>Grouping the hosts that move\<close>

fun MovingHosts :: "HostRecord list \<Rightarrow> u32 \<Rightarrow> Map \<Rightarrow> u64 list option" where
  "MovingHosts [] self nm = Some []"
| "MovingHosts (h # hosts) self nm = do {
     owner \<leftarrow> Owner nm (h_HostKey h);
     moving \<leftarrow> MovingHosts hosts self nm;
     Some (if owner \<noteq> self then h_HostKey h # moving else moving)
   }"

type_synonym by_dest = "(u32, (u64, bool) gomap) gomap"

fun group_moving :: "HostRecord list \<Rightarrow> u32 \<Rightarrow> Map \<Rightarrow> by_dest \<Rightarrow> by_dest option" where
  "group_moving [] self nm byDest = Some byDest"
| "group_moving (h # hosts) self nm byDest = do {
     owner \<leftarrow> Owner nm (h_HostKey h);
     (if owner = self then group_moving hosts self nm byDest
      else (let st = (case mget byDest owner of Some s \<Rightarrow> s | None \<Rightarrow> []) in
            group_moving hosts self nm (mput owner (mput (h_HostKey h) True st) byDest)))
   }"

definition moving_set :: "by_dest \<Rightarrow> u32 \<Rightarrow> u64 \<Rightarrow> bool" where
  "moving_set byDest dest k = (case mget byDest dest of Some s \<Rightarrow> mget s k = Some True | None \<Rightarrow> False)"

section \<open>Redistribution\<close>

fun redistribute_loop :: "by_dest \<Rightarrow> u32 list \<Rightarrow> (u32, Partition) gomap \<Rightarrow> Partition \<Rightarrow> ((u32, Partition) gomap \<times> Partition) option" where
  "redistribute_loop byDest [] ship keep = Some (ship, keep)"
| "redistribute_loop byDest (dest # dests) ship keep = do {
     (out, rest) \<leftarrow> Extract keep (moving_set byDest dest);
     redistribute_loop byDest dests (mput dest (out\<lparr> pt_ID := dest \<rparr>) ship) rest
   }"

definition Redistribute :: "(u32 list \<Rightarrow> u32 list) \<Rightarrow> Partition \<Rightarrow> u32 \<Rightarrow> Map \<Rightarrow> ((u32, Partition) gomap \<times> Partition) option" where
  "Redistribute iter src self nm = do {
     byDest \<leftarrow> group_moving (pt_Hosts src) self nm [];
     (ship, keep) \<leftarrow> redistribute_loop byDest (iter (map fst byDest)) [] src;
     Some (ship, keep\<lparr> pt_ID := self \<rparr>)
   }"

section \<open>The handshake\<close>

definition SliceChecksum :: "u8 list \<Rightarrow> u32" where
  "SliceChecksum blob = Checksum32c blob"

record MoveAck =
  ma_Dest :: u32
  ma_Epoch :: u64
  ma_Checksum :: u32
  ma_Committed :: bool

text \<open>The transport's \<^verbatim>\<open>Ship\<close> answers with an acknowledgement or fails; \<open>'w\<close> is everything outside the source.\<close>

type_synonym 'w ship = "'w \<Rightarrow> u32 \<Rightarrow> u8 list \<Rightarrow> u64 \<Rightarrow> u32 \<Rightarrow> 'w \<times> MoveAck option"

fun handoff_loop :: "(Partition \<Rightarrow> 'e + u8 list) \<Rightarrow> 'w ship \<Rightarrow> u64 \<Rightarrow> by_dest \<Rightarrow> u32 list \<Rightarrow> Partition \<Rightarrow> u32 list \<Rightarrow> 'w
    \<Rightarrow> ('w \<times> ('e + Partition \<times> u32 list)) option" where
  "handoff_loop enc ship epoch byDest [] keep moved w = Some (w, Inr (keep, moved))"
| "handoff_loop enc ship epoch byDest (dest # dests) keep moved w = do {
     (out, rest) \<leftarrow> Extract keep (moving_set byDest dest);
     (case enc (out\<lparr> pt_ID := dest \<rparr>) of
        Inl e \<Rightarrow> Some (w, Inl e)
      | Inr blob \<Rightarrow>
          (let sm = SliceChecksum blob; (w', answer) = ship w dest blob epoch sm in
           case answer of
             None \<Rightarrow> handoff_loop enc ship epoch byDest dests keep moved w'
           | Some ack \<Rightarrow>
               if \<not> ma_Committed ack \<or> ma_Dest ack \<noteq> dest \<or> ma_Epoch ack \<noteq> epoch \<or> ma_Checksum ack \<noteq> sm
               then handoff_loop enc ship epoch byDest dests keep moved w'
               else handoff_loop enc ship epoch byDest dests rest (moved @ [dest]) w'))
   }"

definition Handoff :: "(Partition \<Rightarrow> 'e + u8 list) \<Rightarrow> 'w ship \<Rightarrow> Partition \<Rightarrow> u32 \<Rightarrow> Map \<Rightarrow> u64 \<Rightarrow> 'w
    \<Rightarrow> ('w \<times> ('e + Partition \<times> u32 list)) option" where
  "Handoff enc ship src self nm epoch w = do {
     byDest \<leftarrow> group_moving (pt_Hosts src) self nm [];
     (w', r) \<leftarrow> handoff_loop enc ship epoch byDest (sort (map fst byDest)) src [] w;
     Some (w', map_sum id (\<lambda>(keep, moved). (keep\<lparr> pt_ID := self \<rparr>, moved)) r)
   }"

section \<open>What the grouping computes\<close>

text \<open>The host keys of a partition that another partition owns, by owner.\<close>

definition moves_to :: "HostRecord list \<Rightarrow> u32 \<Rightarrow> Map \<Rightarrow> u32 \<Rightarrow> u64 \<Rightarrow> bool" where
  "moves_to hosts self nm d k \<longleftrightarrow> k \<in> h_HostKey ` set hosts \<and> Owner nm k = Some d \<and> d \<noteq> self"

definition owned :: "HostRecord list \<Rightarrow> Map \<Rightarrow> bool" where
  "owned hosts nm \<longleftrightarrow> (\<forall>h \<in> set hosts. Owner nm (h_HostKey h) \<noteq> None)"

lemma MovingHosts_ok:
  assumes "owned hosts nm"
  shows "\<exists>ks. MovingHosts hosts self nm = Some ks \<and> ks = filter (\<lambda>k. Owner nm k \<noteq> Some self) (map h_HostKey hosts)"
  using assms
proof (induction hosts)
  case (Cons h hosts)
  then obtain d ks where "Owner nm (h_HostKey h) = Some d" "MovingHosts hosts self nm = Some ks"
    "ks = filter (\<lambda>k. Owner nm k \<noteq> Some self) (map h_HostKey hosts)" by (auto simp: owned_def)
  then show ?case by simp
qed simp

lemma moving_set_put:
  "moving_set (mput d (mput k True (case mget byDest d of Some s \<Rightarrow> s | None \<Rightarrow> [])) byDest) e x
     \<longleftrightarrow> (d = e \<and> k = x) \<or> moving_set byDest e x"
  by (auto simp: moving_set_def split: option.splits)

lemma group_moving_ok:
  assumes "owned hosts nm" "distinct (map fst byDest)"
  shows "\<exists>by'. group_moving hosts self nm byDest = Some by' \<and> distinct (map fst by')
     \<and> (\<forall>d k. moving_set by' d k \<longleftrightarrow> moving_set byDest d k \<or> moves_to hosts self nm d k)
     \<and> (\<forall>d. d \<in> fst ` set by' \<longleftrightarrow> d \<in> fst ` set byDest \<or> (\<exists>k. moves_to hosts self nm d k))"
  using assms
proof (induction hosts arbitrary: byDest)
  case Nil
  then show ?case by (simp add: moves_to_def)
next
  case (Cons h hosts)
  let ?k = "h_HostKey h"
  obtain d where d: "Owner nm ?k = Some d" using Cons.prems(1) by (auto simp: owned_def)
  have own: "owned hosts nm" using Cons.prems(1) by (simp add: owned_def)
  show ?case
  proof (cases "d = self")
    case True
    have "moves_to (h # hosts) self nm e x \<longleftrightarrow> moves_to hosts self nm e x" for e x
      using d True by (auto simp: moves_to_def)
    then show ?thesis using Cons.IH [OF own Cons.prems(2)] d True by simp
  next
    case False
    let ?b = "mput d (mput ?k True (case mget byDest d of Some s \<Rightarrow> s | None \<Rightarrow> [])) byDest"
    have m: "moves_to (h # hosts) self nm e x \<longleftrightarrow> (d = e \<and> ?k = x) \<or> moves_to hosts self nm e x" for e x
      using d False by (auto simp: moves_to_def)
    have k: "fst ` set ?b = insert d (fst ` set byDest)"
      by (simp add: dom_update flip: dom_map_of_conv_image_fst)
    from Cons.IH [OF own distinct_mput [OF Cons.prems(2)]]
    obtain by' where "group_moving hosts self nm ?b = Some by'" "distinct (map fst by')"
      "\<forall>e x. moving_set by' e x \<longleftrightarrow> moving_set ?b e x \<or> moves_to hosts self nm e x"
      "\<forall>e. e \<in> fst ` set by' \<longleftrightarrow> e \<in> fst ` set ?b \<or> (\<exists>x. moves_to hosts self nm e x)" by blast
    then show ?thesis using d False unfolding moving_set_put k m by (simp add: Let_def) blast
  qed
qed

lemmas group_moving_new = group_moving_ok [where byDest = "[]", simplified moving_set_def [of "[]"], simplified]

section \<open>Redistribution conserves the rows\<close>

text \<open>The rows a set of destinations takes, and those that stay.\<close>

definition urls_of :: "(u64 \<Rightarrow> bool) \<Rightarrow> Partition \<Rightarrow> (URLRecord \<times> u8 list option list) list" where
  "urls_of m p = filter (\<lambda>v. m (HostKey (u_URLKey (fst v)))) (url_views p)"

definition hosts_of :: "(u64 \<Rightarrow> bool) \<Rightarrow> Partition \<Rightarrow> (HostRecord \<times> u8 list option list) list" where
  "hosts_of m p = filter (\<lambda>v. m (h_HostKey (fst v))) (host_views p)"

text \<open>A partition that holds exactly the selected rows of another.\<close>

definition slice_of :: "(u64 \<Rightarrow> bool) \<Rightarrow> Partition \<Rightarrow> Partition \<Rightarrow> bool" where
  "slice_of m src p \<longleftrightarrow> part_fits p \<and> url_views p = urls_of m src \<and> host_views p = hosts_of m src"

lemma slice_of_refl: "part_fits p \<Longrightarrow> slice_of (\<lambda>_. True) p p"
  by (simp add: slice_of_def urls_of_def hosts_of_def)

lemma part_fits_ID [simp]: "part_fits (p\<lparr> pt_ID := d \<rparr>) = part_fits p"
  by (simp add: part_fits_def part_readable_def part_bytes_def url_views_def host_views_def)

lemma slice_of_ID [simp]: "slice_of m src (p\<lparr> pt_ID := d \<rparr>) = slice_of m src p"
  by (simp add: slice_of_def url_views_def host_views_def)

lemma slice_of_cong: "slice_of m src p \<Longrightarrow> (\<And>k. m k = m' k) \<Longrightarrow> slice_of m' src p"
  by (simp add: slice_of_def urls_of_def hosts_of_def)

lemma Extract_slice:
  assumes "slice_of m src p"
  obtains out rest where "Extract p s = Some (out, rest)" "slice_of (\<lambda>k. m k \<and> s k) src out" "slice_of (\<lambda>k. m k \<and> \<not> s k) src rest"
  using extract_views [of p s] assms by (auto simp: slice_of_def urls_of_def hosts_of_def)

lemma redistribute_loop_ok:
  assumes "slice_of m src keep" "distinct dests" "\<And>d k. d \<in> set dests \<Longrightarrow> moving_set byDest d k \<Longrightarrow> m k"
    "\<And>d e k. moving_set byDest d k \<Longrightarrow> moving_set byDest e k \<Longrightarrow> d = e" "\<And>d. d \<in> set dests \<Longrightarrow> mget ship d = None"
  shows "\<exists>ship' keep'. redistribute_loop byDest dests ship keep = Some (ship', keep')
     \<and> (\<forall>d. d \<notin> set dests \<longrightarrow> mget ship' d = mget ship d)
     \<and> (\<forall>d \<in> set dests. \<exists>p. mget ship' d = Some p \<and> pt_ID p = d \<and> slice_of (moving_set byDest d) src p)
     \<and> slice_of (\<lambda>k. m k \<and> (\<forall>d \<in> set dests. \<not> moving_set byDest d k)) src keep'"
  using assms
proof (induction dests arbitrary: m ship keep)
  case Nil
  then show ?case by simp
next
  case (Cons d dests)
  from Extract_slice [OF Cons.prems(1), of "moving_set byDest d"] obtain out rest where
    x: "Extract keep (moving_set byDest d) = Some (out, rest)" "slice_of (\<lambda>k. m k \<and> moving_set byDest d k) src out"
      "slice_of (\<lambda>k. m k \<and> \<not> moving_set byDest d k) src rest" by blast
  have o: "slice_of (moving_set byDest d) src out" using x(2) by (rule slice_of_cong) (use Cons.prems(3) in auto)
  let ?ship = "mput d (out\<lparr> pt_ID := d \<rparr>) ship"
  have "\<exists>ship' keep'. redistribute_loop byDest dests ?ship rest = Some (ship', keep')
     \<and> (\<forall>e. e \<notin> set dests \<longrightarrow> mget ship' e = mget ?ship e)
     \<and> (\<forall>e \<in> set dests. \<exists>p. mget ship' e = Some p \<and> pt_ID p = e \<and> slice_of (moving_set byDest e) src p)
     \<and> slice_of (\<lambda>k. (m k \<and> \<not> moving_set byDest d k) \<and> (\<forall>e \<in> set dests. \<not> moving_set byDest e k)) src keep'"
  proof (rule Cons.IH [OF x(3)])
    show "distinct dests" using Cons.prems(2) by simp
    show "m k \<and> \<not> moving_set byDest d k" if "e \<in> set dests" "moving_set byDest e k" for e k
      using Cons.prems(2,3) Cons.prems(4) [of d k e] that by auto
    show "mget ?ship e = None" if "e \<in> set dests" for e using that Cons.prems(2,5) by auto
  qed (rule Cons.prems(4))
  then obtain ship' keep' where r: "redistribute_loop byDest dests ?ship rest = Some (ship', keep')"
    "\<forall>e. e \<notin> set dests \<longrightarrow> mget ship' e = mget ?ship e"
    "\<forall>e \<in> set dests. \<exists>p. mget ship' e = Some p \<and> pt_ID p = e \<and> slice_of (moving_set byDest e) src p"
    "slice_of (\<lambda>k. (m k \<and> \<not> moving_set byDest d k) \<and> (\<forall>e \<in> set dests. \<not> moving_set byDest e k)) src keep'" by blast
  have "mget ship' d = Some (out\<lparr> pt_ID := d \<rparr>)" using r(2) Cons.prems(2) by simp
  moreover have "slice_of (\<lambda>k. m k \<and> (\<forall>e \<in> set (d # dests). \<not> moving_set byDest e k)) src keep'"
    using r(4) by (rule slice_of_cong) auto
  ultimately show ?case using x(1) r(1-3) o by auto
qed

text \<open>A rebalance under a new map succeeds and is a partition of the rows: each destination gets exactly
  the rows of the hosts the new map gives it, under its own id, and the source keeps exactly the rest.
  The result does not depend on the order in which Go iterates over the map of destinations.\<close>

theorem redistribute_conserves_rows:
  assumes "part_fits src" "owned (pt_Hosts src) nm" "\<And>ds. mset (iter ds) = mset ds"
  shows "\<exists>ship keep. Redistribute iter src self nm = Some (ship, keep) \<and> pt_ID keep = self
     \<and> slice_of (\<lambda>k. \<not> (\<exists>d. moves_to (pt_Hosts src) self nm d k)) src keep
     \<and> (\<forall>d. case mget ship d of
          Some p \<Rightarrow> (\<exists>k. moves_to (pt_Hosts src) self nm d k) \<and> pt_ID p = d \<and> slice_of (moves_to (pt_Hosts src) self nm d) src p
        | None \<Rightarrow> \<not> (\<exists>k. moves_to (pt_Hosts src) self nm d k))"
proof -
  let ?mv = "moves_to (pt_Hosts src) self nm"
  from group_moving_new [OF assms(2)] obtain byDest where g: "group_moving (pt_Hosts src) self nm [] = Some byDest"
    "distinct (map fst byDest)" "\<And>d k. moving_set byDest d k = ?mv d k" "\<And>d. d \<in> fst ` set byDest \<longleftrightarrow> (\<exists>k. ?mv d k)" by blast
  let ?ds = "iter (map fst byDest)"
  have ds: "distinct ?ds" "set ?ds = fst ` set byDest"
    using g(2) assms(3) mset_eq_imp_distinct_iff [OF assms(3) [of "map fst byDest"]] mset_eq_setD [OF assms(3) [of "map fst byDest"]] by simp_all
  have "\<exists>ship keep. redistribute_loop byDest ?ds [] src = Some (ship, keep)
     \<and> (\<forall>d. d \<notin> set ?ds \<longrightarrow> mget ship d = mget [] d)
     \<and> (\<forall>d \<in> set ?ds. \<exists>p. mget ship d = Some p \<and> pt_ID p = d \<and> slice_of (moving_set byDest d) src p)
     \<and> slice_of (\<lambda>k. True \<and> (\<forall>d \<in> set ?ds. \<not> moving_set byDest d k)) src keep"
    by (rule redistribute_loop_ok [OF slice_of_refl [OF assms(1)] ds(1)]) (auto simp: g(3) moves_to_def)
  then obtain ship keep where r: "redistribute_loop byDest ?ds [] src = Some (ship, keep)"
    "\<forall>d. d \<notin> set ?ds \<longrightarrow> mget ship d = None"
    "\<forall>d \<in> set ?ds. \<exists>p. mget ship d = Some p \<and> pt_ID p = d \<and> slice_of (moving_set byDest d) src p"
    "slice_of (\<lambda>k. True \<and> (\<forall>d \<in> set ?ds. \<not> moving_set byDest d k)) src keep" by auto
  have stay: "(True \<and> (\<forall>d \<in> set ?ds. \<not> moving_set byDest d k)) = (\<not> (\<exists>d. ?mv d k))" for k
    unfolding g(3) ds(2) using g(4) by blast
  have "slice_of (\<lambda>k. \<not> (\<exists>d. ?mv d k)) src (keep\<lparr> pt_ID := self \<rparr>)"
    using slice_of_cong [OF r(4) stay] by simp
  moreover have "\<forall>d. case mget ship d of
          Some p \<Rightarrow> (\<exists>k. ?mv d k) \<and> pt_ID p = d \<and> slice_of (?mv d) src p
        | None \<Rightarrow> \<not> (\<exists>k. ?mv d k)"
  proof
    fix d
    show "case mget ship d of Some p \<Rightarrow> (\<exists>k. ?mv d k) \<and> pt_ID p = d \<and> slice_of (?mv d) src p | None \<Rightarrow> \<not> (\<exists>k. ?mv d k)"
    proof (cases "d \<in> set ?ds")
      case True
      with r(3) obtain p where "mget ship d = Some p" "pt_ID p = d" "slice_of (moving_set byDest d) src p" by blast
      then show ?thesis using True g(4) [of d] ds(2) slice_of_cong [of "moving_set byDest d" src p "?mv d"] by (simp add: g(3))
    next
      case False
      then show ?thesis using r(2) g(4) [of d] ds(2) by simp
    qed
  qed
  ultimately show ?thesis using g(1) r(1) by (simp add: Redistribute_def)
qed

section \<open>The handshake never loses a host\<close>

text \<open>A destination that durably holds the slice: what was shipped is exactly the rows of its hosts, and
  the answer was a commit of those bytes at the epoch of the move.\<close>

definition acknowledged :: "(Partition \<Rightarrow> 'e + u8 list) \<Rightarrow> 'w ship \<Rightarrow> u64 \<Rightarrow> (u64 \<Rightarrow> bool) \<Rightarrow> Partition \<Rightarrow> u32 \<Rightarrow> bool" where
  "acknowledged enc ship epoch m src d \<longleftrightarrow>
     (\<exists>w w' p blob. slice_of m src p \<and> pt_ID p = d \<and> enc p = Inr blob
        \<and> ship w d blob epoch (SliceChecksum blob)
            = (w', Some \<lparr> ma_Dest = d, ma_Epoch = epoch, ma_Checksum = SliceChecksum blob, ma_Committed = True \<rparr>))"

text \<open>The moves a sequence of offers brings about: each slice is shipped in turn, with the world each shipment
  leaves, and its destination has moved exactly when the transport answered with a commit of this
  destination, this epoch and the checksum of the shipped bytes.\<close>

fun shipped :: "'w ship \<Rightarrow> u64 \<Rightarrow> (u32 \<times> u8 list) list \<Rightarrow> 'w \<Rightarrow> 'w \<times> u32 list" where
  "shipped ship epoch [] w = (w, [])"
| "shipped ship epoch ((d, blob) # offers) w =
     (let (w1, answer) = ship w d blob epoch (SliceChecksum blob);
          (w', moved) = shipped ship epoch offers w1 in
      (w', if answer = Some \<lparr> ma_Dest = d, ma_Epoch = epoch, ma_Checksum = SliceChecksum blob, ma_Committed = True \<rparr>
           then d # moved else moved))"

text \<open>An offer to a destination: the encoding of exactly its hosts' rows under its id.\<close>

definition offers_of :: "(Partition \<Rightarrow> 'e + u8 list) \<Rightarrow> (u32 \<Rightarrow> u64 \<Rightarrow> bool) \<Rightarrow> Partition \<Rightarrow> (u32 \<times> u8 list) list \<Rightarrow> bool" where
  "offers_of enc mv src offers \<longleftrightarrow>
     list_all (\<lambda>(d, blob). \<exists>p. slice_of (mv d) src p \<and> pt_ID p = d \<and> enc p = Inr blob) offers"

lemma shipped_moved:
  assumes "shipped ship epoch offers w = (w', ms)" "offers_of enc mv src offers"
  shows "set ms \<subseteq> fst ` set offers" "\<forall>d \<in> set ms. acknowledged enc ship epoch (mv d) src d"
    "sorted (map fst offers) \<Longrightarrow> sorted ms" "distinct (map fst offers) \<Longrightarrow> distinct ms"
proof -
  have "set ms \<subseteq> fst ` set offers \<and> (\<forall>d \<in> set ms. acknowledged enc ship epoch (mv d) src d)
      \<and> (sorted (map fst offers) \<longrightarrow> sorted ms) \<and> (distinct (map fst offers) \<longrightarrow> distinct ms)"
    using assms
  proof (induction offers arbitrary: w ms)
    case (Cons x offers)
    obtain d blob where x: "x = (d, blob)" by fastforce
    obtain w1 answer where a: "ship w d blob epoch (SliceChecksum blob) = (w1, answer)" by fastforce
    obtain ms' where ms: "shipped ship epoch offers w1 = (w', ms')"
      "ms = (if answer = Some \<lparr> ma_Dest = d, ma_Epoch = epoch, ma_Checksum = SliceChecksum blob, ma_Committed = True \<rparr>
             then d # ms' else ms')"
      using Cons.prems(1) by (auto simp: x a split: prod.splits)
    have o: "offers_of enc mv src offers" "\<exists>p. slice_of (mv d) src p \<and> pt_ID p = d \<and> enc p = Inr blob"
      using Cons.prems(2) by (auto simp: offers_of_def x)
    then show ?case
      using Cons.IH [OF ms(1) o(1)] a ms(2) by (fastforce simp: x acknowledged_def split: if_splits)
  qed simp
  then show "set ms \<subseteq> fst ` set offers" "\<forall>d \<in> set ms. acknowledged enc ship epoch (mv d) src d"
    "sorted (map fst offers) \<Longrightarrow> sorted ms" "distinct (map fst offers) \<Longrightarrow> distinct ms" by blast+
qed

definition handoff_post :: "(Partition \<Rightarrow> 'e + u8 list) \<Rightarrow> 'w ship \<Rightarrow> u64 \<Rightarrow> (u32 \<Rightarrow> u64 \<Rightarrow> bool) \<Rightarrow> Partition \<Rightarrow> u32 list \<Rightarrow> u32 list
    \<Rightarrow> 'w \<Rightarrow> 'w \<times> ('e + Partition \<times> u32 list) \<Rightarrow> bool" where
  "handoff_post enc ship epoch mv src moved dests w res \<longleftrightarrow>
     (case res of
        (w', Inl e) \<Rightarrow> \<exists>d \<in> set dests. \<exists>p. slice_of (mv d) src p \<and> pt_ID p = d \<and> enc p = Inl e
      | (w', Inr (kept, moved')) \<Rightarrow> slice_of (\<lambda>k. \<forall>d \<in> set moved'. \<not> mv d k) src kept
          \<and> (\<exists>offers ms. map fst offers = dests \<and> offers_of enc mv src offers
               \<and> shipped ship epoch offers w = (w', ms) \<and> moved' = moved @ ms))"

lemma handoff_post_Cons:
  assumes a: "ship w d blob epoch (SliceChecksum blob) = (w1, answer)"
    and p: "slice_of (mv d) src p" "pt_ID p = d" "enc p = Inr blob"
    and r: "handoff_post enc ship epoch mv src
        (if answer = Some \<lparr> ma_Dest = d, ma_Epoch = epoch, ma_Checksum = SliceChecksum blob, ma_Committed = True \<rparr>
         then moved @ [d] else moved) dests w1 res"
  shows "handoff_post enc ship epoch mv src moved (d # dests) w res"
proof -
  obtain w' r where res: "res = (w', r)" by fastforce
  show ?thesis
  proof (cases r)
    case (Inl e)
    then show ?thesis using r by (auto simp: res handoff_post_def)
  next
    case (Inr x)
    obtain kept moved' where x: "x = (kept, moved')" by fastforce
    from r obtain offers ms where o: "map fst offers = dests" "offers_of enc mv src offers" "shipped ship epoch offers w1 = (w', ms)"
      "moved' = (if answer = Some \<lparr> ma_Dest = d, ma_Epoch = epoch, ma_Checksum = SliceChecksum blob, ma_Committed = True \<rparr>
         then moved @ [d] else moved) @ ms" "slice_of (\<lambda>k. \<forall>d \<in> set moved'. \<not> mv d k) src kept"
      unfolding res Inr x handoff_post_def by auto
    let ?ms = "if answer = Some \<lparr> ma_Dest = d, ma_Epoch = epoch, ma_Checksum = SliceChecksum blob, ma_Committed = True \<rparr> then d # ms else ms"
    have "map fst ((d, blob) # offers) = d # dests" "offers_of enc mv src ((d, blob) # offers)"
      "shipped ship epoch ((d, blob) # offers) w = (w', ?ms)" "moved' = moved @ ?ms"
      using o(1-4) a p by (auto simp: offers_of_def)
    then have "\<exists>offers ms. map fst offers = d # dests \<and> offers_of enc mv src offers
        \<and> shipped ship epoch offers w = (w', ms) \<and> moved' = moved @ ms" by (intro exI [of _ "(d, blob) # offers"] exI [of _ ?ms]) simp
    then show ?thesis using o(5) by (simp add: res Inr x handoff_post_def)
  qed
qed

lemma handoff_loop_ok:
  assumes "slice_of (\<lambda>k. \<forall>d \<in> set moved. \<not> moving_set byDest d k) src keep" "distinct dests" "set dests \<inter> set moved = {}"
    "\<And>d e k. moving_set byDest d k \<Longrightarrow> moving_set byDest e k \<Longrightarrow> d = e"
  shows "\<exists>res. handoff_loop enc ship epoch byDest dests keep moved w = Some res
     \<and> handoff_post enc ship epoch (moving_set byDest) src moved dests w res"
  using assms(1-3)
proof (induction dests arbitrary: keep moved w)
  case Nil
  then show ?case by (auto simp: handoff_post_def offers_of_def)
next
  case (Cons d dests)
  from Extract_slice [OF Cons.prems(1), of "moving_set byDest d"] obtain out rest where
    x: "Extract keep (moving_set byDest d) = Some (out, rest)"
      "slice_of (\<lambda>k. (\<forall>e \<in> set moved. \<not> moving_set byDest e k) \<and> moving_set byDest d k) src out"
      "slice_of (\<lambda>k. (\<forall>e \<in> set moved. \<not> moving_set byDest e k) \<and> \<not> moving_set byDest d k) src rest" by blast
  have o: "slice_of (moving_set byDest d) src (out\<lparr> pt_ID := d \<rparr>)"
    unfolding slice_of_ID by (rule slice_of_cong [OF x(2)]) (use assms(4) Cons.prems(3) in auto)
  have k: "slice_of (\<lambda>k. \<forall>e \<in> set (moved @ [d]). \<not> moving_set byDest e k) src rest"
    by (rule slice_of_cong [OF x(3)]) auto
  have n: "distinct dests" "set dests \<inter> set moved = {}" "set dests \<inter> set (moved @ [d]) = {}"
    using Cons.prems(2,3) by auto
  show ?case
  proof (cases "enc (out\<lparr> pt_ID := d \<rparr>)")
    case (Inl e)
    have "handoff_post enc ship epoch (moving_set byDest) src moved (d # dests) w (w, Inl e)"
      using o Inl by (auto simp: handoff_post_def intro!: exI [of _ "out\<lparr> pt_ID := d \<rparr>"])
    then show ?thesis using x(1) Inl by simp
  next
    case (Inr blob)
    obtain w1 answer where a: "ship w d blob epoch (SliceChecksum blob) = (w1, answer)" by fastforce
    let ?ok = "answer = Some \<lparr> ma_Dest = d, ma_Epoch = epoch, ma_Checksum = SliceChecksum blob, ma_Committed = True \<rparr>"
    have "handoff_loop enc ship epoch byDest (d # dests) keep moved w
        = handoff_loop enc ship epoch byDest dests (if ?ok then rest else keep) (if ?ok then moved @ [d] else moved) w1"
      using x(1) Inr a by (cases answer) (auto simp: MoveAck.equality)
    moreover have "\<exists>res. handoff_loop enc ship epoch byDest dests (if ?ok then rest else keep) (if ?ok then moved @ [d] else moved) w1 = Some res
        \<and> handoff_post enc ship epoch (moving_set byDest) src (if ?ok then moved @ [d] else moved) dests w1 res"
      using Cons.IH [OF Cons.prems(1) n(1,2)] Cons.IH [OF k n(1,3)] by simp
    ultimately show ?thesis
      using handoff_post_Cons [where mv = "moving_set byDest" and ship = ship and w = w and enc = enc and epoch = epoch, OF a o _ Inr]
      by auto
  qed
qed

text \<open>C4: The safe-move contract, for every encoder and every transport, failing and lying ones included.
  The handshake ends; the only error is that of the encoder on the slice of a destination.  Otherwise
  every destination the new map gives a host is offered exactly its hosts' rows, in ascending order and
  each once, whatever happened to the offers before; the source drops exactly the rows of the hosts whose
  destination answered with a commit of the shipped bytes at this epoch, and keeps all the others.\<close>

theorem handoff_never_loses_a_host:
  assumes "part_fits src" "owned (pt_Hosts src) nm"
  shows "\<exists>w' r. Handoff enc ship src self nm epoch w = Some (w', r)
     \<and> (case r of
          Inl e \<Rightarrow> \<exists>d p. slice_of (moves_to (pt_Hosts src) self nm d) src p \<and> pt_ID p = d \<and> enc p = Inl e
        | Inr (kept, moved) \<Rightarrow> pt_ID kept = self \<and> sorted moved \<and> distinct moved
            \<and> slice_of (\<lambda>k. \<forall>d \<in> set moved. \<not> moves_to (pt_Hosts src) self nm d k) src kept
            \<and> (\<forall>d \<in> set moved. acknowledged enc ship epoch (moves_to (pt_Hosts src) self nm d) src d)
            \<and> (\<exists>offers. sorted (map fst offers) \<and> distinct (map fst offers)
                 \<and> fst ` set offers = {d. \<exists>k. moves_to (pt_Hosts src) self nm d k}
                 \<and> offers_of enc (moves_to (pt_Hosts src) self nm) src offers
                 \<and> shipped ship epoch offers w = (w', moved)))"
proof -
  let ?mv = "moves_to (pt_Hosts src) self nm"
  from group_moving_new [OF assms(2)] obtain byDest where g: "group_moving (pt_Hosts src) self nm [] = Some byDest"
    "distinct (map fst byDest)" "\<And>d k. moving_set byDest d k = ?mv d k" "\<And>d. d \<in> fst ` set byDest \<longleftrightarrow> (\<exists>k. ?mv d k)" by blast
  have mv: "moving_set byDest = ?mv" using g(3) by blast
  let ?ds = "sort (map fst byDest)"
  have ds: "distinct ?ds" "set ?ds \<inter> set [] = {}" "set ?ds = {d. \<exists>k. ?mv d k}" using g(2,4) by auto
  have s0: "slice_of (\<lambda>k. \<forall>d \<in> set []. \<not> moving_set byDest d k) src src" using slice_of_refl [OF assms(1)] by simp
  have uniq: "d = e" if "moving_set byDest d k" "moving_set byDest e k" for d e k using that by (auto simp: mv moves_to_def)
  have "\<exists>res. handoff_loop enc ship epoch byDest ?ds src [] w = Some res
     \<and> handoff_post enc ship epoch (moving_set byDest) src [] ?ds w res"
    by (rule handoff_loop_ok [OF s0 ds(1,2)]) (rule uniq)
  then obtain w' r where
    l: "handoff_loop enc ship epoch byDest ?ds src [] w = Some (w', r)" "handoff_post enc ship epoch ?mv src [] ?ds w (w', r)"
    unfolding mv by auto
  have H: "Handoff enc ship src self nm epoch w = Some (w', map_sum id (\<lambda>(keep, moved). (keep\<lparr> pt_ID := self \<rparr>, moved)) r)"
    using g(1) l(1) by (simp add: Handoff_def)
  show ?thesis
  proof (cases r)
    case (Inl e)
    then show ?thesis using H l(2) by (auto simp: handoff_post_def)
  next
    case (Inr x)
    obtain kept moved where x: "x = (kept, moved)" by fastforce
    from l(2) obtain offers where o: "slice_of (\<lambda>k. \<forall>d \<in> set moved. \<not> ?mv d k) src kept" "map fst offers = ?ds"
      "offers_of enc ?mv src offers" "shipped ship epoch offers w = (w', moved)" by (auto simp: handoff_post_def Inr x)
    have "fst ` set offers = {d. \<exists>k. ?mv d k}" using arg_cong [OF o(2), of set] ds(3) by simp
    then show ?thesis
      using H o shipped_moved [OF o(4,3)] ds(1) by (auto simp: Inr x intro!: exI [of _ offers])
  qed
qed

text \<open>The checksum the source compares tells a slice from any copy of it with one byte changed.\<close>

theorem slice_checksum_detects_a_byte:
  assumes "i < length blob" "v \<noteq> blob ! i"
  shows "SliceChecksum (blob[i := v]) \<noteq> SliceChecksum blob"
proof
  assume "SliceChecksum (blob[i := v]) = SliceChecksum blob"
  moreover have "blob[i := v] = take i blob @ v # drop (Suc i) blob" using assms(1) by (rule upd_conv_take_nth_drop)
  moreover have "blob = take i blob @ blob ! i # drop (Suc i) blob" using assms(1) by (rule id_take_nth_drop)
  ultimately have "Checksum32c (take i blob @ v # drop (Suc i) blob) = Checksum32c (take i blob @ blob ! i # drop (Suc i) blob)"
    by (simp add: SliceChecksum_def)
  then show False using Checksum32c_one_byte assms(2) by blast
qed

section \<open>A small rebalance\<close>

definition demo_map :: Map where
  "demo_map = \<lparr> mp_Epoch = 9, mp_NumPartitions = 1, mp_Overrides = [(2, 1), (7, 3)], mp_Weights = [], mp_Replicas = 0, mp_Partitions = [] \<rparr>"

definition demo_ship :: "unit ship" where
  "demo_ship w d blob epoch sm = (w, Some \<lparr> ma_Dest = d, ma_Epoch = epoch, ma_Checksum = sm, ma_Committed = True \<rparr>)"

lemma demo_owned: "owned (pt_Hosts demo_part) demo_map"
  by (simp add: owned_def demo_part_def Pack_def demo_map_def Owner_def zeroHost_def)

lemma redistribute_conserves_rows_witness:
  "\<exists>ship keep. Redistribute rev demo_part 1 demo_map = Some (ship, keep) \<and> pt_ID keep = 1"
  using redistribute_conserves_rows [OF demo_part_fits demo_owned, of rev 1] by auto

lemma handoff_never_loses_a_host_witness:
  "\<exists>kept moved. Handoff (\<lambda>p. Inr [ucast (pt_ID p)] :: unit + u8 list) demo_ship demo_part 1 demo_map 9 () = Some ((), Inr (kept, moved))
     \<and> pt_ID kept = 1"
proof -
  from handoff_never_loses_a_host [OF demo_part_fits demo_owned,
      where enc = "\<lambda>p. Inr [ucast (pt_ID p)] :: unit + u8 list" and ship = demo_ship and self = 1 and epoch = 9 and w = "()"]
  obtain w' r where H: "Handoff (\<lambda>p. Inr [ucast (pt_ID p)] :: unit + u8 list) demo_ship demo_part 1 demo_map 9 () = Some (w', r)"
    and c: "case r of Inl e \<Rightarrow> \<exists>d p. (Inr [ucast (pt_ID p)] :: unit + u8 list) = Inl e \<and> d = pt_ID p
        | Inr (kept, moved) \<Rightarrow> pt_ID kept = 1"
    by (fastforce split: sum.splits)
  from c obtain kept moved where "r = Inr (kept, moved)" "pt_ID kept = 1" by (cases r) auto
  with H show ?thesis by (cases w') auto
qed

lemma slice_checksum_detects_a_byte_witness: "SliceChecksum [1, 5, 3] \<noteq> SliceChecksum [1, 2, 3]"
  using slice_checksum_detects_a_byte [of 1 "[1, 2, 3]" 5] by simp

end
