(* ===== verification/Replica.thy ===== *)
theory Replica
  imports PartitionOps "HOL-Library.Multiset"
begin

text \<open>
  Replication (\<^verbatim>\<open>distribute/replicate.go\<close>): the tail entries, the standby copy of a partition, its
  streaming, materialization and promotion.  \<^verbatim>\<open>sort.Slice\<close> leaves the order of entries with equal LSNs
  open, so \<open>Stream\<close> takes the sorting function as an argument.
\<close>

section \<open>Tail entries\<close>

datatype TailKind = TailPutURL | TailPutHost | TailDelURL | TailDelHost

record TailEntry =
  te_LSN :: u64
  te_Kind :: TailKind
  te_URL :: URLRecord
  te_Host :: HostRecord
  te_URLKey :: URLKey
  te_HostKey :: u64

definition zeroEntry :: "u64 \<Rightarrow> TailKind \<Rightarrow> TailEntry" where
  "zeroEntry lsn kind = \<lparr> te_LSN = lsn, te_Kind = kind, te_URL = zeroURL (URLKey 0 0), te_Host = zeroHost 0,
     te_URLKey = URLKey 0 0, te_HostKey = 0 \<rparr>"

definition PutURL :: "u64 \<Rightarrow> URLRecord \<Rightarrow> TailEntry" where
  "PutURL lsn rec = (zeroEntry lsn TailPutURL)\<lparr> te_URL := rec \<rparr>"

definition PutHost :: "u64 \<Rightarrow> HostRecord \<Rightarrow> TailEntry" where
  "PutHost lsn rec = (zeroEntry lsn TailPutHost)\<lparr> te_Host := rec \<rparr>"

definition DelURL :: "u64 \<Rightarrow> URLKey \<Rightarrow> TailEntry" where
  "DelURL lsn key = (zeroEntry lsn TailDelURL)\<lparr> te_URLKey := key \<rparr>"

definition DelHost :: "u64 \<Rightarrow> u64 \<Rightarrow> TailEntry" where
  "DelHost lsn hostKey = (zeroEntry lsn TailDelHost)\<lparr> te_HostKey := hostKey \<rparr>"

section \<open>The replica\<close>

record Replica =
  rp_id :: u32
  rp_created :: u32
  rp_codec :: u8
  rp_urls :: "(URLKey, URLRecord) gomap"
  rp_hosts :: "(u64, HostRecord) gomap"
  rp_strings :: "u8 list"
  rp_applied :: u64
  rp_base :: u64

definition NewReplica :: "Partition \<Rightarrow> u64 \<Rightarrow> Replica" where
  "NewReplica snap snapLSN =
     \<lparr> rp_id = pt_ID snap, rp_created = pt_CreatedHours snap, rp_codec = pt_DefaultCodec snap,
       rp_urls = foldl (\<lambda>m u. mput (u_URLKey u) u m) [] (pt_URLs snap),
       rp_hosts = foldl (\<lambda>m h. mput (h_HostKey h) h m) [] (pt_Hosts snap),
       rp_strings = pt_Strings snap, rp_applied = snapLSN, rp_base = snapLSN \<rparr>"

definition Apply_entry :: "TailEntry \<Rightarrow> Replica \<Rightarrow> Replica" where
  "Apply_entry e r =
     (if te_LSN e \<le> rp_applied r then r
      else (case te_Kind e of
          TailPutURL \<Rightarrow> r\<lparr> rp_urls := mput (u_URLKey (te_URL e)) (te_URL e) (rp_urls r) \<rparr>
        | TailPutHost \<Rightarrow> r\<lparr> rp_hosts := mput (h_HostKey (te_Host e)) (te_Host e) (rp_hosts r) \<rparr>
        | TailDelURL \<Rightarrow> r\<lparr> rp_urls := mdel (te_URLKey e) (rp_urls r) \<rparr>
        | TailDelHost \<Rightarrow> r\<lparr> rp_hosts := mdel (te_HostKey e) (rp_hosts r) \<rparr>)\<lparr> rp_applied := te_LSN e \<rparr>)"

definition Stream_entries :: "(TailEntry list \<Rightarrow> TailEntry list) \<Rightarrow> TailEntry list \<Rightarrow> Replica \<Rightarrow> Replica" where
  "Stream_entries sortByLSN entries r = foldl (\<lambda>r e. Apply_entry e r) r (sortByLSN entries)"

definition AppliedLSN :: "Replica \<Rightarrow> u64" where
  "AppliedLSN r = rp_applied r"

definition Lag :: "Replica \<Rightarrow> u64 \<Rightarrow> u64" where
  "Lag r primaryLSN = (if primaryLSN \<le> rp_applied r then 0 else primaryLSN - rp_applied r)"

definition Replica_Partition :: "Replica \<Rightarrow> Partition" where
  "Replica_Partition r =
     (let urls = sort_key u_URLKey (map snd (rp_urls r));
          hosts = sort_key h_HostKey (map snd (rp_hosts r));
          (lo, hi) = (if hosts \<noteq> [] then (h_HostKey (hd hosts), h_HostKey (last hosts)) else (0, - 1)) in
      Pack (rp_id r) lo hi (rp_created r) (rp_codec r) urls hosts (rp_strings r))"

fun recover_rows :: "URLRecord list \<Rightarrow> URLRecord list \<times> nat" where
  "recover_rows [] = ([], 0)"
| "recover_rows (u # us) =
     (let (us', n) = recover_rows us in
      if u_Status u = StatusInFlight then (u\<lparr> u_Status := StatusScheduled \<rparr> # us', Suc n) else (u # us', n))"

definition RecoverInFlight :: "Partition \<Rightarrow> Partition \<times> nat" where
  "RecoverInFlight p = (let (us, reset) = recover_rows (pt_URLs p) in (p\<lparr> pt_URLs := us \<rparr>, reset))"

definition Promote :: "Replica \<Rightarrow> Partition" where
  "Promote r = fst (RecoverInFlight (Replica_Partition r))"

section \<open>The replica is the log prefix it has received\<close>

text \<open>What an entry does to the two tables, without the guard on the sequence number.\<close>

type_synonym tables = "(URLKey \<rightharpoonup> URLRecord) \<times> (u64 \<rightharpoonup> HostRecord)"

definition redo :: "TailEntry \<Rightarrow> tables \<Rightarrow> tables" where
  "redo e t = (case te_Kind e of
       TailPutURL \<Rightarrow> ((fst t)(u_URLKey (te_URL e) \<mapsto> te_URL e), snd t)
     | TailPutHost \<Rightarrow> (fst t, (snd t)(h_HostKey (te_Host e) \<mapsto> te_Host e))
     | TailDelURL \<Rightarrow> ((fst t)(te_URLKey e := None), snd t)
     | TailDelHost \<Rightarrow> (fst t, (snd t)(te_HostKey e := None)))"

definition tables :: "Replica \<Rightarrow> tables" where
  "tables r = (mget (rp_urls r), mget (rp_hosts r))"

text \<open>A tail redone in order, the reference the streamed replica is compared with; \<^verbatim>\<open>ReplicaStore\<close> compares it
  with the recovery of the store.\<close>

definition replay :: "TailEntry list \<Rightarrow> tables \<Rightarrow> tables" where
  "replay wal t = foldl (\<lambda>t e. redo e t) t wal"

lemma Apply_tables:
  "tables (Apply_entry e r) = (if te_LSN e \<le> rp_applied r then tables r else redo e (tables r))"
  "rp_applied (Apply_entry e r) = max (te_LSN e) (rp_applied r)"
  by (auto simp: Apply_entry_def tables_def redo_def delete_conv' max_def split: TailKind.splits)

fun news :: "u64 \<Rightarrow> TailEntry list \<Rightarrow> TailEntry list" where
  "news a [] = []"
| "news a (e # es) = (if te_LSN e \<le> a then news a es else e # news (te_LSN e) es)"

lemma fold_Apply:
  "tables (foldl (\<lambda>r e. Apply_entry e r) r es) = replay (news (rp_applied r) es) (tables r)"
  "sorted (map te_LSN es) \<Longrightarrow> rp_applied (foldl (\<lambda>r e. Apply_entry e r) r es) = fold max (map te_LSN es) (rp_applied r)"
  by (induction es arbitrary: r) (simp_all add: Apply_tables replay_def max_def)

text \<open>On a sorted batch of entries of one log, what is new is each entry above the mark, once, in order.\<close>

lemma news_strict:
  assumes "sorted (map te_LSN es)"
  shows "sorted_wrt (\<lambda>d e. te_LSN d < te_LSN e) (news a es) \<and> (\<forall>e \<in> set (news a es). e \<in> set es \<and> a < te_LSN e)"
  using assms
proof (induction es arbitrary: a)
  case (Cons e es)
  show ?case
  proof (cases "te_LSN e \<le> a")
    case False
    then have "a < te_LSN e" by (simp add: not_le)
    then show ?thesis using Cons.IH [of "te_LSN e"] Cons.prems False by (auto intro: order.strict_trans)
  qed (use Cons in simp)
qed simp

lemma news_complete:
  assumes "sorted (map te_LSN es)" "inj_on te_LSN (set es)" "e \<in> set es" "a < te_LSN e"
  shows "e \<in> set (news a es)"
  using assms
proof (induction es arbitrary: a)
  case (Cons d es)
  show ?case
  proof (cases "e = d")
    case False
    then have "e \<in> set es" using Cons.prems(3) by simp
    moreover have "te_LSN d < te_LSN e"
      using Cons.prems(1,2) \<open>e \<in> set es\<close> False by (metis inj_onD le_neq_trans list.set_intros list.simps(9) image_eqI list.set_map sorted_simps(2))
    ultimately show ?thesis using Cons.IH Cons.prems by (auto simp: inj_on_def)
  next
    case True
    then show ?thesis using Cons.prems(4) by (simp add: not_le [symmetric])
  qed
qed simp

text \<open>A log has strictly increasing sequence numbers.  A batch is gapless at a mark when it holds, with
  whatever it redelivers, every log entry between the mark and its newest entry.\<close>

definition wal_ok :: "TailEntry list \<Rightarrow> bool" where
  "wal_ok wal \<longleftrightarrow> sorted_wrt (\<lambda>d e. te_LSN d < te_LSN e) wal"

definition gapless :: "TailEntry list \<Rightarrow> u64 \<Rightarrow> TailEntry list \<Rightarrow> bool" where
  "gapless wal a b \<longleftrightarrow> set b \<subseteq> set wal
     \<and> (\<forall>e \<in> set wal. \<forall>d \<in> set b. a < te_LSN e \<and> te_LSN e \<le> te_LSN d \<longrightarrow> e \<in> set b)"

fun gapless_run :: "TailEntry list \<Rightarrow> u64 \<Rightarrow> TailEntry list list \<Rightarrow> bool" where
  "gapless_run wal a [] = True"
| "gapless_run wal a (b # bs) = (gapless wal a b \<and> gapless_run wal (fold max (map te_LSN b) a) bs)"

definition sorts_by_lsn :: "(TailEntry list \<Rightarrow> TailEntry list) \<Rightarrow> bool" where
  "sorts_by_lsn srt \<longleftrightarrow> (\<forall>es. mset (srt es) = mset es \<and> sorted (map te_LSN (srt es)))"

lemma strict_eqI:
  assumes "sorted_wrt (\<lambda>d e. te_LSN d < te_LSN e) xs" "sorted_wrt (\<lambda>d e. te_LSN d < te_LSN e) ys" "set xs = set ys"
    "inj_on te_LSN (set ys)"
  shows "xs = ys"
proof -
  have "sorted_wrt (<) (map te_LSN xs)" "sorted_wrt (<) (map te_LSN ys)" using assms(1,2) by (simp_all add: sorted_wrt_map)
  moreover have "set (map te_LSN xs) = set (map te_LSN ys)" using assms(3) by simp
  ultimately have "map te_LSN xs = map te_LSN ys" by (metis strict_sorted_equal)
  then show ?thesis using assms(3,4) by (auto intro: map_inj_on)
qed

lemma wal_inj: "wal_ok wal \<Longrightarrow> inj_on te_LSN (set wal)"
  by (induction wal) (auto simp: wal_ok_def)

lemma fold_max_le: "fold max xs (a :: u64) \<ge> b \<longleftrightarrow> b \<le> a \<or> (\<exists>x \<in> set xs. b \<le> x)"
  by (induction xs arbitrary: a) (auto simp: le_max_iff_disj)

lemma fold_max_mset: "mset xs = mset ys \<Longrightarrow> fold max xs (a :: u64) = fold max ys a"
  by (metis Max.set_eq_fold list.simps(15) mset_eq_setD)

lemma Stream_step:
  assumes "wal_ok wal" "sorts_by_lsn srt" "gapless wal (rp_applied r) b"
  defines "n \<equiv> fold max (map te_LSN b) (rp_applied r)"
  shows "rp_applied (Stream_entries srt b r) = n"
    "tables (Stream_entries srt b r) = replay (filter (\<lambda>e. rp_applied r < te_LSN e \<and> te_LSN e \<le> n) wal) (tables r)"
proof -
  let ?a = "rp_applied r"
  have s: "sorted (map te_LSN (srt b))" "set (srt b) = set b" "mset (map te_LSN (srt b)) = mset (map te_LSN b)"
    using assms(2) mset_eq_setD by (auto simp: sorts_by_lsn_def)
  show "rp_applied (Stream_entries srt b r) = n"
    unfolding Stream_entries_def n_def fold_Apply(2) [OF s(1)] by (rule fold_max_mset [OF s(3)])
  have ib: "inj_on te_LSN (set (srt b))" using wal_inj [OF assms(1)] assms(3) s(2) by (auto simp: gapless_def intro: inj_on_subset)
  have "news ?a (srt b) = filter (\<lambda>e. ?a < te_LSN e \<and> te_LSN e \<le> n) wal"
  proof (rule strict_eqI)
    show "sorted_wrt (\<lambda>d e. te_LSN d < te_LSN e) (news ?a (srt b))" using news_strict [OF s(1)] by blast
    show "sorted_wrt (\<lambda>d e. te_LSN d < te_LSN e) (filter (\<lambda>e. ?a < te_LSN e \<and> te_LSN e \<le> n) wal)"
      using assms(1) by (simp add: wal_ok_def sorted_wrt_filter)
    show "inj_on te_LSN (set (filter (\<lambda>e. ?a < te_LSN e \<and> te_LSN e \<le> n) wal))"
      by (rule inj_on_subset [OF wal_inj [OF assms(1)]]) auto
    have "e \<in> set (news ?a (srt b)) \<longleftrightarrow> e \<in> set b \<and> ?a < te_LSN e" for e
      using news_strict [OF s(1), of ?a] news_complete [OF s(1) ib, of e ?a] s(2) by blast
    moreover have "e \<in> set b \<and> ?a < te_LSN e \<longleftrightarrow> e \<in> set wal \<and> ?a < te_LSN e \<and> te_LSN e \<le> n" for e
      using assms(3) unfolding gapless_def n_def fold_max_le by (auto simp: not_le [symmetric])
    ultimately show "set (news ?a (srt b)) = set (filter (\<lambda>e. ?a < te_LSN e \<and> te_LSN e \<le> n) wal)" by auto
  qed
  then show "tables (Stream_entries srt b r) = replay (filter (\<lambda>e. ?a < te_LSN e \<and> te_LSN e \<le> n) wal) (tables r)"
    unfolding Stream_entries_def fold_Apply(1) by simp
qed

lemma filter_upto_append:
  assumes "wal_ok wal" "a \<le> m" "m \<le> n"
  shows "filter (\<lambda>e. a < te_LSN e \<and> te_LSN e \<le> n) wal
     = filter (\<lambda>e. a < te_LSN e \<and> te_LSN e \<le> m) wal @ filter (\<lambda>e. m < te_LSN e \<and> te_LSN e \<le> n) wal"
  using assms(1)
proof (induction wal)
  case (Cons e wal)
  then have lt: "\<forall>d \<in> set wal. te_LSN e < te_LSN d" and ok: "wal_ok wal" by (auto simp: wal_ok_def)
  show ?case
  proof (cases "te_LSN e \<le> m")
    case True
    then show ?thesis using Cons.IH [OF ok] assms(2,3) by (auto dest: order_trans)
  next
    case False
    then have "filter (\<lambda>e. a < te_LSN e \<and> te_LSN e \<le> m) wal = []"
      using lt by (auto simp: filter_empty_conv dest: order.strict_trans1 less_imp_le)
    then show ?thesis using Cons.IH [OF ok] False assms(2) by (auto simp: not_le dest: order.strict_trans1)
  qed
qed simp

definition stream_all :: "(TailEntry list \<Rightarrow> TailEntry list) \<Rightarrow> TailEntry list list \<Rightarrow> Replica \<Rightarrow> Replica" where
  "stream_all srt bs r = foldl (\<lambda>r b. Stream_entries srt b r) r bs"

lemma stream_all_prefix:
  assumes "wal_ok wal" "sorts_by_lsn srt" "gapless_run wal (rp_applied r) bs"
  shows "tables (stream_all srt bs r)
       = replay (filter (\<lambda>e. rp_applied r < te_LSN e \<and> te_LSN e \<le> rp_applied (stream_all srt bs r)) wal) (tables r)
     \<and> rp_applied (stream_all srt bs r) = fold max (map te_LSN (concat bs)) (rp_applied r)"
  using assms(3)
proof (induction bs arbitrary: r)
  case Nil
  have "filter (\<lambda>e. rp_applied r < te_LSN e \<and> te_LSN e \<le> rp_applied r) wal = []" by (auto simp: filter_empty_conv)
  then show ?case by (simp add: stream_all_def replay_def)
next
  case (Cons b bs)
  let ?r = "Stream_entries srt b r" and ?n = "fold max (map te_LSN b) (rp_applied r)"
  have g: "gapless wal (rp_applied r) b" using Cons.prems by simp
  note st = Stream_step [OF assms(1,2) g]
  have "gapless_run wal (rp_applied ?r) bs" using Cons.prems st(1) by simp
  note ih = Cons.IH [OF this]
  let ?f = "rp_applied (stream_all srt bs ?r)"
  have le: "rp_applied r \<le> ?n" "?n \<le> ?f"
    using ih st(1) by (simp_all add: fold_max_le)
  have "tables (stream_all srt bs ?r) = replay (filter (\<lambda>e. rp_applied r < te_LSN e \<and> te_LSN e \<le> ?f) wal) (tables r)"
    using ih st unfolding filter_upto_append [OF assms(1) le] by (simp add: replay_def)
  moreover have "?f = fold max (map te_LSN (concat (b # bs))) (rp_applied r)" using ih st(1) by simp
  moreover have "stream_all srt (b # bs) r = stream_all srt bs ?r" by (simp add: stream_all_def)
  ultimately show ?case by simp
qed

section \<open>Materialization and promotion\<close>

text \<open>Every row of the replica lies under its own key.\<close>

definition keyed :: "('v \<Rightarrow> 'k) \<Rightarrow> ('k, 'v) gomap \<Rightarrow> bool" where
  "keyed f m \<longleftrightarrow> distinct (map fst m) \<and> (\<forall>x \<in> set m. f (snd x) = fst x)"

definition replica_wf :: "Replica \<Rightarrow> bool" where
  "replica_wf r \<longleftrightarrow> keyed u_URLKey (rp_urls r) \<and> keyed h_HostKey (rp_hosts r)"

lemma keyed_mput: "keyed f m \<Longrightarrow> keyed f (mput (f u) u m)"
proof -
  have "\<forall>x \<in> set m. f (snd x) = fst x \<Longrightarrow> \<forall>x \<in> set (mput (f u) u m). f (snd x) = fst x"
    by (induction m) auto
  then show "keyed f m \<Longrightarrow> keyed f (mput (f u) u m)" by (simp add: keyed_def distinct_mput)
qed

lemma keyed_mdel: "keyed f m \<Longrightarrow> keyed f (mdel k m)"
proof -
  have "\<forall>x \<in> set m. f (snd x) = fst x \<Longrightarrow> \<forall>x \<in> set (mdel k m). f (snd x) = fst x"
    by (induction m) auto
  then show "keyed f m \<Longrightarrow> keyed f (mdel k m)" by (simp add: keyed_def distinct_mdel)
qed

lemma keyed_load: "keyed f m \<Longrightarrow> keyed f (foldl (\<lambda>m u. mput (f u) u m) m us)"
  by (induction us arbitrary: m) (simp_all add: keyed_mput)

lemma NewReplica_wf: "replica_wf (NewReplica snap lsn)"
  by (simp add: replica_wf_def NewReplica_def keyed_load keyed_def [of _ "[]"])

lemma Apply_wf: "replica_wf r \<Longrightarrow> replica_wf (Apply_entry e r)"
  by (simp add: replica_wf_def Apply_entry_def keyed_mput keyed_mdel split: TailKind.splits)

lemma stream_all_wf: "replica_wf r \<Longrightarrow> replica_wf (stream_all srt bs r)"
proof -
  have "replica_wf r \<Longrightarrow> replica_wf (foldl (\<lambda>r e. Apply_entry e r) r es)" for es r
    by (induction es arbitrary: r) (simp_all add: Apply_wf)
  then show "replica_wf r \<Longrightarrow> replica_wf (stream_all srt bs r)"
    unfolding stream_all_def by (induction bs arbitrary: r) (simp_all add: Stream_entries_def)
qed

lemma recover_rows_map:
  "recover_rows us = (map (\<lambda>u. if u_Status u = StatusInFlight then u\<lparr> u_Status := StatusScheduled \<rparr> else u) us,
     length (filter (\<lambda>u. u_Status u = StatusInFlight) us))"
  by (induction us) simp_all

text \<open>The sorted rows of a keyed table, looked up by key, are the table.\<close>

lemma lookup_sorted_rows:
  fixes m :: "('k :: linorder, 'v) gomap"
  assumes "keyed f m"
  shows "map_of (map (\<lambda>v. (f v, g v)) (sort_key f (map snd m))) k = map_option g (mget m k)"
proof -
  have k: "\<forall>x \<in> set m. f (snd x) = fst x" and d0: "distinct (map fst m)" using assms by (simp_all add: keyed_def)
  have m: "map (\<lambda>v. (f v, v)) (map snd m) = m" using k by (induction m) auto
  have "map f (map snd m) = map fst m" using k by (induction m) auto
  with d0 have d: "distinct (map f (map snd m))" by (simp only:)
  then have ds: "distinct (map f (sort_key f (map snd m)))"
    by (metis mset_map mset_sort mset_eq_imp_distinct_iff)
  have "map_of (map (\<lambda>v. (f v, v)) (sort_key f (map snd m))) = map_of (map (\<lambda>v. (f v, v)) (map snd m))"
    by (rule map_of_inject_set [THEN iffD2]) (use ds d in \<open>auto simp: comp_def\<close>)
  then have "map_of (map (\<lambda>v. (f v, v)) (sort_key f (map snd m))) = mget m" unfolding m .
  moreover have "map_of (map (\<lambda>v. (f v, g v)) vs) k = map_option g (map_of (map (\<lambda>v. (f v, v)) vs) k)" for vs
    by (induction vs) auto
  ultimately show ?thesis by simp
qed

definition recovered :: "URLRecord \<Rightarrow> URLRecord" where
  "recovered u = (if u_Status u = StatusInFlight then u\<lparr> u_Status := StatusScheduled \<rparr> else u)"

lemma recovered_key [simp]: "u_URLKey (recovered u) = u_URLKey u"
  by (simp add: recovered_def)

lemma Promote_fields:
  "pt_URLs (Promote r) = map recovered (sort_key u_URLKey (map snd (rp_urls r)))"
  "pt_Hosts (Promote r) = sort_key h_HostKey (map snd (rp_hosts r))" "pt_ID (Promote r) = rp_id r" "pt_Strings (Promote r) = rp_strings r"
  by (simp_all add: Promote_def RecoverInFlight_def Replica_Partition_def recover_rows_map Pack_def Let_def recovered_def split: prod.splits)

lemma promote_wf:
  assumes "replica_wf r"
  shows "map_of (map (\<lambda>u. (u_URLKey u, u)) (pt_URLs (Promote r))) = (\<lambda>k. map_option recovered (fst (tables r) k))"
    "map_of (map (\<lambda>h. (h_HostKey h, h)) (pt_Hosts (Promote r))) = snd (tables r)"
    "sortedURLs (pt_URLs (Promote r))" "sortedHosts (pt_Hosts (Promote r))"
proof -
  have "map_of (map (\<lambda>u. (u_URLKey u, u)) (pt_URLs (Promote r))) k = map_option recovered (fst (tables r) k)" for k
    using lookup_sorted_rows [of u_URLKey "rp_urls r" recovered k] assms by (simp add: Promote_fields tables_def replica_wf_def comp_def)
  then show "map_of (map (\<lambda>u. (u_URLKey u, u)) (pt_URLs (Promote r))) = (\<lambda>k. map_option recovered (fst (tables r) k))" by blast
  have "map_of (map (\<lambda>h. (h_HostKey h, h)) (pt_Hosts (Promote r))) k = snd (tables r) k" for k
    using lookup_sorted_rows [of h_HostKey "rp_hosts r" "\<lambda>h. h" k] assms by (simp add: Promote_fields tables_def replica_wf_def option.map_ident)
  then show "map_of (map (\<lambda>h. (h_HostKey h, h)) (pt_Hosts (Promote r))) = snd (tables r)" by blast
qed (simp_all add: sortedURLs_iff sortedHosts_iff Promote_fields comp_def)

lemma stream_all_id: "rp_id (stream_all srt bs r) = rp_id r"
proof -
  have "rp_id (foldl (\<lambda>r e. Apply_entry e r) q es) = rp_id q" for es q
    by (induction es arbitrary: q) (simp_all add: Apply_entry_def split: TailKind.splits)
  then show ?thesis unfolding stream_all_def by (induction bs arbitrary: r) (simp_all add: Stream_entries_def)
qed

text \<open>Promotion of a streamed replica gives a partition with both tables sorted, as the file format wants
  them, that holds exactly the replica's rows; a row that was in flight is scheduled again and no row is
  left in flight, so no fetch is lost and none but those is repeated.\<close>

theorem promoted_replica_loses_nothing:
  "let r = stream_all srt bs (NewReplica snap snapLSN); p = Promote r in
     sortedURLs (pt_URLs p) \<and> sortedHosts (pt_Hosts p) \<and> pt_ID p = pt_ID snap
     \<and> map_of (map (\<lambda>u. (u_URLKey u, u)) (pt_URLs p)) = (\<lambda>k. map_option recovered (fst (tables r) k))
     \<and> map_of (map (\<lambda>h. (h_HostKey h, h)) (pt_Hosts p)) = snd (tables r)
     \<and> list_all (\<lambda>u. u_Status u \<noteq> StatusInFlight) (pt_URLs p)
     \<and> snd (RecoverInFlight (Replica_Partition r)) = length (filter (\<lambda>u. u_Status u = StatusInFlight) (map snd (rp_urls r)))"
proof -
  let ?r = "stream_all srt bs (NewReplica snap snapLSN)"
  have wf: "replica_wf ?r" by (rule stream_all_wf [OF NewReplica_wf])
  have "pt_ID (Promote ?r) = pt_ID snap" by (simp add: Promote_fields stream_all_id NewReplica_def)
  moreover have "list_all (\<lambda>u. u_Status u \<noteq> StatusInFlight) (pt_URLs (Promote ?r))"
    by (auto simp: Promote_fields recovered_def list_all_iff)
  moreover have "snd (RecoverInFlight (Replica_Partition ?r)) = length (filter (\<lambda>u. u_Status u = StatusInFlight) (map snd (rp_urls ?r)))"
    using filter_sort [of "\<lambda>u. u_Status u = StatusInFlight" u_URLKey "map snd (rp_urls ?r)"]
    by (simp add: RecoverInFlight_def Replica_Partition_def recover_rows_map Pack_def Let_def split: prod.splits)
  ultimately show ?thesis using promote_wf [OF wf] by (simp add: Let_def)
qed

text \<open>A gap between batches is not repaired: an entry that arrives after a newer one has been applied is
  taken for a redelivery and its write never reaches the replica.\<close>

lemma late_entry_is_dropped:
  assumes "sorts_by_lsn srt" "\<forall>e \<in> set b. te_LSN e \<le> rp_applied r"
  shows "Stream_entries srt b r = r"
proof -
  have "\<forall>e \<in> set (srt b). te_LSN e \<le> rp_applied r"
    using assms mset_eq_setD [of "srt b" b] by (simp add: sorts_by_lsn_def)
  moreover have "\<forall>e \<in> set es. te_LSN e \<le> rp_applied r \<Longrightarrow> foldl (\<lambda>r e. Apply_entry e r) r es = r" for es
    by (induction es) (simp_all add: Apply_entry_def)
  ultimately have "foldl (\<lambda>r e. Apply_entry e r) r (srt b) = r" by blast
  then show ?thesis by (simp add: Stream_entries_def)
qed

end
