(* ===== verification/StoreLog.thy ===== *)
theory StoreLog
  imports StoreCodec
begin

unbundle bit_operations_syntax

text \<open>
  The append-only log (\<^verbatim>\<open>store/log.go\<close>) and the two-slot superblock (\<^verbatim>\<open>store/superblock.go\<close>) over a
  directory of files.  A file is the list of its bytes as reads see them; the log keeps how many of them
  are known to be on the device.  Failing system calls are not modelled; a crash leaves a prefix of the
  log that is no shorter than what was synced.
\<close>

section \<open>Frames\<close>

definition kindURL :: u8 where "kindURL = 0"
definition kindHost :: u8 where "kindHost = 1"
definition kindIntern :: u8 where "kindIntern = 2"
definition kindMask :: u8 where "kindMask = 0x7f"
definition tombBit :: u8 where "tombBit = 0x80"
definition frameHeaderSize :: nat where "frameHeaderSize = 14"

datatype Durability = DurabilityNone | DurabilityNormal | DurabilityFull

record frame =
  fr_lsn :: u64
  fr_kind :: u8
  fr_tomb :: bool
  fr_off :: nat
  fr_key :: "u8 list"
  fr_val :: "u8 list"

text \<open>The bytes \<^verbatim>\<open>append\<close> writes.\<close>

definition frame_body :: "u64 \<Rightarrow> u8 \<Rightarrow> u8 \<Rightarrow> u8 list \<Rightarrow> u8 list \<Rightarrow> u8 list" where
  "frame_body lsn kind klen key val =
     PutUint64 lsn @ [kind, klen] @ PutUint32 (of_nat (length val)) @ take (unat klen) key @ val"

definition frame_bytes :: "u64 \<Rightarrow> u8 \<Rightarrow> u8 \<Rightarrow> u8 list \<Rightarrow> u8 list \<Rightarrow> u8 list" where
  "frame_bytes lsn kind klen key val =
     (let body = frame_body lsn kind klen key val in body @ PutUint32 (Checksum32c body))"

section \<open>The log\<close>

type_synonym disk = "(string, u8 list) gomap"

record log =
  lg_name :: string
  lg_off :: nat
  lg_nextLSN :: u64
  lg_written :: nat
  lg_synced :: nat
  lg_dur :: Durability

definition file_of :: "disk \<Rightarrow> string \<Rightarrow> u8 list" where
  "file_of d name = (case mget d name of Some b \<Rightarrow> b | None \<Rightarrow> [])"

definition write_at :: "u8 list \<Rightarrow> nat \<Rightarrow> u8 list \<Rightarrow> u8 list" where
  "write_at b off buf = take off b @ replicate (off - length b) 0 @ buf @ drop (off + length buf) b"

definition openLog :: "disk \<Rightarrow> string \<Rightarrow> Durability \<Rightarrow> disk \<times> log" where
  "openLog d path dur =
     (let b = file_of d path; size = length b in
      (mput path b d, \<lparr> lg_name = path, lg_off = size, lg_nextLSN = 1, lg_written = size, lg_synced = size, lg_dur = dur \<rparr>))"

definition log_append :: "disk \<Rightarrow> log \<Rightarrow> u8 \<Rightarrow> u8 \<Rightarrow> u8 list \<Rightarrow> u8 list \<Rightarrow> disk \<times> log \<times> nat \<times> u64" where
  "log_append d l kind klen key val =
     (let lsn = lg_nextLSN l;
          buf = frame_bytes lsn kind klen key val;
          off = lg_off l;
          d' = mput (lg_name l) (write_at (file_of d (lg_name l)) off buf) d;
          l' = l\<lparr> lg_nextLSN := lsn + 1, lg_off := off + length buf, lg_written := off + length buf \<rparr> in
      (d', l', off, lsn))"

definition peekLSN :: "log \<Rightarrow> u64" where
  "peekLSN l = lg_nextLSN l"

definition setLSN :: "u64 \<Rightarrow> log \<Rightarrow> log" where
  "setLSN n l = l\<lparr> lg_nextLSN := n \<rparr>"

definition fsync :: "nat \<Rightarrow> log \<Rightarrow> log" where
  "fsync upTo l = (if lg_synced l \<ge> upTo then l else l\<lparr> lg_synced := lg_written l \<rparr>)"

definition log_commit :: "nat \<Rightarrow> log \<Rightarrow> log" where
  "log_commit upTo l = (if lg_dur l \<noteq> DurabilityFull then l else fsync upTo l)"

definition syncAll :: "log \<Rightarrow> log" where
  "syncAll l = fsync (lg_written l) l"

datatype store_error = ErrEOF | ErrTornFrame | ErrNoCheckpoint | ErrNotExist | ErrDecode | ErrEncode

definition log_readAt :: "disk \<Rightarrow> log \<Rightarrow> nat \<Rightarrow> store_error + (u8 \<times> u8 \<times> u8 list \<times> u8 list)" where
  "log_readAt d l off =
     (let b = drop off (file_of d (lg_name l)) in
      if length b < frameHeaderSize then Inl ErrEOF
      else
        (let hdr = take frameHeaderSize b; kind = hdr ! 8; klen = hdr ! 9; vlen = Uint32 (drop 10 hdr);
             n = unat klen + unat vlen + 4; r = drop frameHeaderSize b in
         if length r < n then Inl ErrEOF
         else
           (let rest = take n r; frame = hdr @ rest in
            if Checksum32c (take (length frame - 4) frame) \<noteq> Uint32 (drop (length frame - 4) frame) then Inl ErrTornFrame
            else Inr (kind, klen, take (unat klen) rest, take (unat vlen) (drop (unat klen) rest)))))"

text \<open>One turn of the replay loop: the next intact frame and what follows it, or the end of the durable tail.\<close>

definition replay_step :: "nat \<Rightarrow> u8 list \<Rightarrow> (frame \<times> u8 list) option" where
  "replay_step off b =
     (if length b < frameHeaderSize then None
      else
        (let hdr = take frameHeaderSize b; klen = hdr ! 9; vlen = Uint32 (drop 10 hdr);
             n = unat klen + unat vlen + 4; r = drop frameHeaderSize b in
         if length r < n then None
         else
           (let rest = take n r; whole = hdr @ rest in
            if Checksum32c (take (length whole - 4) whole) \<noteq> Uint32 (drop (length whole - 4) whole) then None
            else Some (\<lparr> fr_lsn = Uint64 (take 8 hdr), fr_kind = hdr ! 8 AND kindMask, fr_tomb = (hdr ! 8 AND tombBit \<noteq> 0),
                fr_off = off, fr_key = take (unat klen) rest, fr_val = take (unat vlen) (drop (unat klen) rest) \<rparr>, drop n r))))"

lemma replay_step_shorter: "replay_step off b = Some (f, b') \<Longrightarrow> length b' < length b"
  by (auto simp: replay_step_def Let_def frameHeaderSize_def split: if_splits)

function replay :: "nat \<Rightarrow> u8 list \<Rightarrow> frame list" where
  "replay off b = (case replay_step off b of
       None \<Rightarrow> []
     | Some (f, b') \<Rightarrow> f # replay (off + (length b - length b')) b')"
  by pat_completeness auto
termination
  by (relation "measure (\<lambda>(off, b). length b)") (auto dest: replay_step_shorter)

declare replay.simps [simp del]

section \<open>A written frame reads back\<close>

text \<open>The arguments with which the store appends: the key has the stated length and the value's length
  fits its field.\<close>

definition frame_ok :: "u8 \<Rightarrow> u8 list \<Rightarrow> u8 list \<Rightarrow> bool" where
  "frame_ok klen key val \<longleftrightarrow> length key = unat klen \<and> length val < 2 ^ 32"

lemma frame_bytes_length:
  "frame_ok klen key val \<Longrightarrow> length (frame_bytes lsn kind klen key val) = frameHeaderSize + unat klen + length val + 4"
  by (simp add: frame_bytes_def frame_body_def frame_ok_def frameHeaderSize_def)

text \<open>The pieces the readers cut a frame into.\<close>

lemma frame_pieces:
  fixes lsn kind rest
  assumes "frame_ok klen key val"
  defines "b \<equiv> frame_bytes lsn kind klen key val @ rest"
  shows "frameHeaderSize \<le> length b" "take frameHeaderSize b ! 8 = kind" "take frameHeaderSize b ! 9 = klen"
    "Uint32 (drop 10 (take frameHeaderSize b)) = of_nat (length val)" "Uint64 (take 8 (take frameHeaderSize b)) = lsn"
    "drop frameHeaderSize b = key @ val @ PutUint32 (Checksum32c (frame_body lsn kind klen key val)) @ rest"
    "take frameHeaderSize b @ key @ val = frame_body lsn kind klen key val"
  using assms(1)
  by (simp_all add: b_def frame_bytes_def frame_body_def frameHeaderSize_def frame_ok_def Let_def nth_append)

lemma unat_vlen: "n < 2 ^ 32 \<Longrightarrow> unat (of_nat n :: u32) = n"
  by (rule of_nat_inverse_32)

lemma replay_step_frame:
  assumes "frame_ok klen key val"
  shows "replay_step off (frame_bytes lsn kind klen key val @ rest)
     = Some (\<lparr> fr_lsn = lsn, fr_kind = kind AND kindMask, fr_tomb = (kind AND tombBit \<noteq> 0), fr_off = off,
         fr_key = key, fr_val = val \<rparr>, rest)"
proof -
  let ?b = "frame_bytes lsn kind klen key val @ rest" and ?c = "PutUint32 (Checksum32c (frame_body lsn kind klen key val))"
  note p = frame_pieces [OF assms, where lsn = lsn and kind = kind and rest = rest]
  have u: "unat (of_nat (length val) :: u32) = length val" and k: "length key = unat klen"
    using assms unat_vlen by (simp_all add: frame_ok_def)
  let ?whole = "take frameHeaderSize ?b @ key @ val @ ?c"
  have w: "?whole = frame_body lsn kind klen key val @ ?c" using p(7) by (metis append.assoc)
  have "length ?whole - 4 = length (frame_body lsn kind klen key val)" unfolding w by simp
  then have c: "Checksum32c (take (length ?whole - 4) ?whole) = Uint32 (drop (length ?whole - 4) ?whole)"
    unfolding w by simp
  have r: "take (unat klen + length val + 4) (drop frameHeaderSize ?b) = key @ val @ ?c"
    "drop (unat klen + length val + 4) (drop frameHeaderSize ?b) = rest"
    "\<not> length (drop frameHeaderSize ?b) < unat klen + length val + 4"
    unfolding p(6) using k by simp_all
  show ?thesis
    unfolding replay_step_def Let_def p(2,3,4,5) u r(1,2) using p(1) r(3) c k by (simp add: not_less)
qed

lemma log_readAt_frame:
  assumes "frame_ok klen key val" "file_of d (lg_name l) = pre @ frame_bytes lsn kind klen key val @ rest" "off = length pre"
  shows "log_readAt d l off = Inr (kind, klen, key, val)"
proof -
  let ?b = "frame_bytes lsn kind klen key val @ rest" and ?c = "PutUint32 (Checksum32c (frame_body lsn kind klen key val))"
  have b: "drop off (file_of d (lg_name l)) = ?b" using assms(2,3) by simp
  note p = frame_pieces [OF assms(1), where lsn = lsn and kind = kind and rest = rest]
  have u: "unat (of_nat (length val) :: u32) = length val" and k: "length key = unat klen"
    using assms(1) unat_vlen by (simp_all add: frame_ok_def)
  let ?whole = "take frameHeaderSize ?b @ key @ val @ ?c"
  have w: "?whole = frame_body lsn kind klen key val @ ?c" using p(7) by (metis append.assoc)
  have "length ?whole - 4 = length (frame_body lsn kind klen key val)" unfolding w by simp
  then have c: "Checksum32c (take (length ?whole - 4) ?whole) = Uint32 (drop (length ?whole - 4) ?whole)"
    unfolding w by simp
  have r: "take (unat klen + length val + 4) (drop frameHeaderSize ?b) = key @ val @ ?c"
    "\<not> length (drop frameHeaderSize ?b) < unat klen + length val + 4"
    unfolding p(6) using k by simp_all
  show ?thesis
    unfolding log_readAt_def Let_def b p(2,3,4) u r(1) using p(1) r(2) c k by (simp add: not_less)
qed

text \<open>A truncated frame ends the replay.\<close>

lemma replay_step_torn:
  assumes "frame_ok klen key val" "k < length (frame_bytes lsn kind klen key val)"
  shows "replay_step off (take k (frame_bytes lsn kind klen key val)) = None"
proof (cases "k < frameHeaderSize")
  case False
  let ?f = "frame_bytes lsn kind klen key val"
  have "take frameHeaderSize (take k ?f) = take frameHeaderSize (?f @ [])" using False by (simp add: min_def)
  note h = frame_pieces [OF assms(1), where lsn = lsn and kind = kind and rest = "[]", folded this]
  have "unat (of_nat (length val) :: u32) = length val" using assms(1) unat_vlen by (simp add: frame_ok_def)
  then show ?thesis
    using assms False frame_bytes_length [OF assms(1), of lsn kind] h(3,4)
    by (simp add: replay_step_def Let_def) linarith
qed (use assms(2) in \<open>simp add: replay_step_def\<close>)

section \<open>A log is its frames\<close>

text \<open>What one append wrote.\<close>

record entry =
  en_lsn :: u64
  en_kind :: u8
  en_klen :: u8
  en_key :: "u8 list"
  en_val :: "u8 list"

definition entry_ok :: "entry \<Rightarrow> bool" where
  "entry_ok e \<longleftrightarrow> frame_ok (en_klen e) (en_key e) (en_val e)"

definition entry_bytes :: "entry \<Rightarrow> u8 list" where
  "entry_bytes e = frame_bytes (en_lsn e) (en_kind e) (en_klen e) (en_key e) (en_val e)"

definition entry_frame :: "nat \<Rightarrow> entry \<Rightarrow> frame" where
  "entry_frame off e = \<lparr> fr_lsn = en_lsn e, fr_kind = en_kind e AND kindMask, fr_tomb = (en_kind e AND tombBit \<noteq> 0),
     fr_off = off, fr_key = en_key e, fr_val = en_val e \<rparr>"

fun frames_of :: "nat \<Rightarrow> entry list \<Rightarrow> frame list" where
  "frames_of off [] = []"
| "frames_of off (e # es) = entry_frame off e # frames_of (off + length (entry_bytes e)) es"

definition log_bytes :: "entry list \<Rightarrow> u8 list" where
  "log_bytes es = concat (map entry_bytes es)"

text \<open>The entries that lie wholly within the first \<open>k\<close> bytes.\<close>

fun whole_entries :: "nat \<Rightarrow> entry list \<Rightarrow> entry list" where
  "whole_entries k [] = []"
| "whole_entries k (e # es) = (if length (entry_bytes e) \<le> k then e # whole_entries (k - length (entry_bytes e)) es else [])"

lemma log_bytes_simps [simp]: "log_bytes [] = []" "log_bytes (e # es) = entry_bytes e @ log_bytes es"
  "log_bytes (es @ fs) = log_bytes es @ log_bytes fs"
  by (simp_all add: log_bytes_def)

lemma replay_entry: "entry_ok e \<Longrightarrow> replay off (entry_bytes e @ rest) = entry_frame off e # replay (off + length (entry_bytes e)) rest"
  by (subst replay.simps) (simp add: entry_ok_def entry_bytes_def entry_frame_def replay_step_frame)

lemma replay_empty [simp]: "replay off [] = []"
  by (subst replay.simps) (simp add: replay_step_def frameHeaderSize_def)

text \<open>Whatever follows the entries, replay finds them first.\<close>

lemma replay_entries:
  "list_all entry_ok es \<Longrightarrow> replay off (log_bytes es @ rest) = frames_of off es @ replay (off + length (log_bytes es)) rest"
  by (induction es arbitrary: off) (simp_all add: replay_entry add.assoc)

lemma replay_cut:
  assumes "list_all entry_ok es"
  shows "replay off (take k (log_bytes es)) = frames_of off (whole_entries k es)"
  using assms
proof (induction es arbitrary: off k)
  case (Cons e es)
  show ?case
  proof (cases "length (entry_bytes e) \<le> k")
    case True
    then have "take k (log_bytes (e # es)) = entry_bytes e @ take (k - length (entry_bytes e)) (log_bytes es)" by simp
    then show ?thesis using Cons True by (simp add: replay_entry)
  next
    case False
    then have "replay off (take k (entry_bytes e)) = []"
      using Cons.prems by (subst replay.simps) (simp add: entry_ok_def entry_bytes_def replay_step_torn)
    then show ?thesis using False by simp
  qed
qed simp

lemma whole_entries_prefix: "\<exists>n. whole_entries k es = take n es \<and> length (log_bytes (whole_entries k es)) \<le> k"
proof (induction es arbitrary: k)
  case (Cons e es)
  show ?case
  proof (cases "length (entry_bytes e) \<le> k")
    case True
    from Cons [of "k - length (entry_bytes e)"] obtain n where
      "whole_entries (k - length (entry_bytes e)) es = take n es" "length (log_bytes (whole_entries (k - length (entry_bytes e)) es)) \<le> k - length (entry_bytes e)"
      by blast
    then show ?thesis using True by (intro exI [of _ "Suc n"]) simp
  qed (auto intro: exI [of _ 0])
qed simp

lemma whole_entries_keeps: "length (log_bytes es) \<le> k \<Longrightarrow> whole_entries k (es @ fs) = es @ whole_entries (k - length (log_bytes es)) fs"
  by (induction es arbitrary: k) simp_all

section \<open>The superblock\<close>

record checkpointMeta =
  cm_gen :: u64
  cm_frontier :: u64
  cm_arenaLen :: u64
  cm_snapshot :: string
  cm_logName :: string

definition slotSize :: nat where "slotSize = 256"
definition sbSize :: nat where "sbSize = 2 * slotSize"
definition sbMagic :: u32 where "sbMagic = 0x4d454755"

definition putStr :: "string \<Rightarrow> u8 list" where
  "putStr s = PutUint16 (of_nat (length s)) @ bytes_of s"

text \<open>The copies into the slot stop at its end, where the checksum is; only the second length field needs
  room of its own, and a slot without it is a panic.\<close>

definition slot_body :: "checkpointMeta \<Rightarrow> u8 list" where
  "slot_body m = PutUint32 sbMagic @ PutUint64 (cm_gen m) @ PutUint64 (cm_frontier m) @ PutUint64 (cm_arenaLen m)
     @ putStr (cm_snapshot m) @ putStr (cm_logName m)"

definition encodeSlot :: "checkpointMeta \<Rightarrow> u8 list option" where
  "encodeSlot m =
     (if 28 + (2 + length (cm_snapshot m)) + 2 > slotSize then None
      else (let b = take (slotSize - 4) (slot_body m @ replicate slotSize 0) in
            Some (b @ PutUint32 (Checksum32c b))))"

definition getStr :: "u8 list \<Rightarrow> (string \<times> nat) option" where
  "getStr b = do {
     (n, b') \<leftarrow> r_u16 b;
     (s, b'') \<leftarrow> r_raw (unat n) b';
     Some (string_of s, 2 + unat n)
   }"

text \<open>\<open>None\<close> is a panic of the name reader, which a slot with a valid checksum that \<open>encodeSlot\<close> wrote
  never causes.\<close>

definition decodeSlot :: "u8 list \<Rightarrow> checkpointMeta option option" where
  "decodeSlot b =
     (if length b < slotSize \<or> Uint32 (take 4 b) \<noteq> sbMagic then Some None
      else if Checksum32c (take (slotSize - 4) b) \<noteq> Uint32 (take 4 (drop (slotSize - 4) b)) then Some None
      else do {
        (snapshot, n) \<leftarrow> getStr (drop 28 b);
        (logName, _) \<leftarrow> getStr (drop (28 + n) b);
        Some (Some \<lparr> cm_gen = Uint64 (take 8 (drop 4 b)), cm_frontier = Uint64 (take 8 (drop 12 b)),
          cm_arenaLen = Uint64 (take 8 (drop 20 b)), cm_snapshot = snapshot, cm_logName = logName \<rparr>)
      })"

definition readSuperblock :: "disk \<Rightarrow> string \<Rightarrow> (store_error + checkpointMeta) option" where
  "readSuperblock d path =
     (case mget d path of
        None \<Rightarrow> Some (Inl ErrNoCheckpoint)
      | Some b \<Rightarrow>
          if length b < sbSize then Some (Inl ErrNoCheckpoint)
          else do {
            a \<leftarrow> decodeSlot (take slotSize b);
            c \<leftarrow> decodeSlot (drop slotSize b);
            Some (case (a, c) of
                (Some a, Some c) \<Rightarrow> Inr (if cm_gen a \<ge> cm_gen c then a else c)
              | (Some a, None) \<Rightarrow> Inr a
              | (None, Some c) \<Rightarrow> Inr c
              | (None, None) \<Rightarrow> Inl ErrNoCheckpoint)
          })"

definition writeSuperblock :: "disk \<Rightarrow> string \<Rightarrow> checkpointMeta \<Rightarrow> disk option" where
  "writeSuperblock d path m = do {
     slot \<leftarrow> encodeSlot m;
     (let existing = file_of d path;
          b = (if mget d path \<noteq> None \<and> length existing \<ge> sbSize then take sbSize existing else replicate sbSize 0);
          b' = (if cm_gen m mod 2 = 0 then slot @ drop slotSize b else take slotSize b @ slot) in
      Some (mput path (write_at existing 0 b') d))
   }"

section \<open>The superblock survives a torn write\<close>

text \<open>Names that leave room for the checksum, as the generated file names do.\<close>

definition meta_fits :: "checkpointMeta \<Rightarrow> bool" where
  "meta_fits m \<longleftrightarrow> 28 + 2 + length (cm_snapshot m) + 2 + length (cm_logName m) \<le> slotSize - 4"

lemma getStr_putStr:
  assumes "length s < 2 ^ 16"
  shows "getStr (putStr s @ rest) = Some (s, 2 + length s)"
proof -
  have "unat (of_nat (length s) :: u16) = length s" using assms by (simp add: unat_of_nat take_bit_nat_eq_self)
  then show ?thesis
    using r_raw_append [of "bytes_of s" "length s" rest] by (simp add: getStr_def putStr_def f16.get_put)
qed

lemma length_putStr [simp]: "length (putStr s) = 2 + length s"
  by (simp add: putStr_def)

lemma drop_append_putStr: "drop (2 + length s) (putStr s @ rest) = rest"
  by (simp add: putStr_def)

lemma decode_encode_slot:
  assumes "meta_fits m"
  shows "\<exists>slot. encodeSlot m = Some slot \<and> length slot = slotSize \<and> (\<forall>rest. decodeSlot (slot @ rest) = Some (Some m))"
proof -
  let ?s = "cm_snapshot m" and ?l = "cm_logName m"
  have len: "28 + 2 + length ?s + 2 + length ?l \<le> 252" using assms by (simp add: meta_fits_def slotSize_def)
  define pad where "pad = take (252 - length (slot_body m)) (replicate 256 (0 :: u8))"
  have bl: "length (slot_body m) = 28 + (2 + length ?s) + (2 + length ?l)" by (simp add: slot_body_def)
  then have t: "take 252 (slot_body m @ replicate 256 0) = slot_body m @ pad" using len by (simp add: pad_def)
  let ?b = "slot_body m @ pad" and ?c = "PutUint32 (Checksum32c (slot_body m @ pad))"
  have l: "length ?b = 252" using len bl by (simp add: pad_def)
  have e: "encodeSlot m = Some (?b @ ?c)"
    using len t by (simp add: encodeSlot_def slotSize_def Let_def)
  have "decodeSlot (?b @ ?c @ rest) = Some (Some m)" for rest
  proof -
    let ?r = "pad @ ?c @ rest"
    have d28: "drop 28 (?b @ ?c @ rest) = putStr ?s @ putStr ?l @ ?r" by (simp add: slot_body_def)
    have "drop (28 + (2 + length ?s)) (?b @ ?c @ rest) = drop (2 + length ?s) (drop 28 (?b @ ?c @ rest))" by (simp only: drop_drop add.commute)
    then have d2: "drop (28 + (2 + length ?s)) (?b @ ?c @ rest) = putStr ?l @ ?r" unfolding d28 drop_append_putStr .
    have g: "getStr (drop 28 (?b @ ?c @ rest)) = Some (?s, 2 + length ?s)" "getStr (drop (28 + (2 + length ?s)) (?b @ ?c @ rest)) = Some (?l, 2 + length ?l)"
      unfolding d28 d2 using len by (simp_all add: getStr_putStr)
    have f: "Uint32 (take 4 (?b @ ?c @ rest)) = sbMagic" "take 8 (drop 4 (?b @ ?c @ rest)) = PutUint64 (cm_gen m)"
      "take 8 (drop 12 (?b @ ?c @ rest)) = PutUint64 (cm_frontier m)" "take 8 (drop 20 (?b @ ?c @ rest)) = PutUint64 (cm_arenaLen m)"
      by (simp_all add: slot_body_def)
    have c: "take 252 (?b @ ?c @ rest) = ?b" "take 4 (drop 252 (?b @ ?c @ rest)) = ?c" using l by simp_all
    show ?thesis
      unfolding decodeSlot_def slotSize_def using l f g c by simp
  qed
  then show ?thesis using e l by (simp add: slotSize_def)
qed

text \<open>The slot a generation is written to, and the two slots of the file.\<close>

definition slot_at :: "u64 \<Rightarrow> u8 list \<Rightarrow> u8 list" where
  "slot_at gen b = (if gen mod 2 = 0 then take slotSize b else drop slotSize b)"

lemma next_gen_other_slot: "slot_at (g + 1) b = (if g mod 2 = 0 then drop slotSize b else take slotSize b)"
proof -
  have "(g + 1) mod 2 = 0 \<longleftrightarrow> g mod 2 \<noteq> 0" by (simp add: mod_2_eq_odd)
  then show ?thesis by (simp add: slot_at_def)
qed

text \<open>A reader of a file whose current slot holds \<open>old\<close> sees either that checkpoint or its successor in
  the other slot.\<close>

lemma readSuperblock_slots:
  assumes "mget d path = Some b" "length b = sbSize" "decodeSlot (slot_at g b) = Some (Some old)" "cm_gen old = g"
    "decodeSlot (slot_at (g + 1) b) = Some other"
    "other = None \<or> (\<exists>m. other = Some m \<and> g < cm_gen m)"
  shows "readSuperblock d path = Some (Inr (case other of None \<Rightarrow> old | Some m \<Rightarrow> m))"
proof (cases "g mod 2 = 0")
  case True
  then have "decodeSlot (take slotSize b) = Some (Some old)" "decodeSlot (drop slotSize b) = Some other"
    using assms(3,5) unfolding next_gen_other_slot by (simp_all add: slot_at_def)
  then show ?thesis using assms(1,2,4,6) by (auto simp: readSuperblock_def leD split: option.splits)
next
  case False
  then have "decodeSlot (drop slotSize b) = Some (Some old)" "decodeSlot (take slotSize b) = Some other"
    using assms(3,5) unfolding next_gen_other_slot by (simp_all add: slot_at_def)
  then show ?thesis using assms(1,2,4,6) by (auto simp: readSuperblock_def less_imp_le split: option.splits)
qed

lemma writeSuperblock_slots:
  assumes "mget d path = Some b" "length b = sbSize" "meta_fits m" "cm_gen m = g + 1"
  shows "\<exists>d' b'. writeSuperblock d path m = Some d' \<and> mget d' path = Some b' \<and> length b' = sbSize
     \<and> slot_at g b' = slot_at g b \<and> decodeSlot (slot_at (g + 1) b') = Some (Some m)"
proof -
  from decode_encode_slot [OF assms(3)] obtain slot where
    s: "encodeSlot m = Some slot" "length slot = slotSize" "decodeSlot slot = Some (Some m)" by (metis append_Nil2)
  let ?b' = "if (g + 1) mod 2 = 0 then slot @ drop slotSize b else take slotSize b @ slot"
  have w: "writeSuperblock d path m = Some (mput path ?b' d)"
    using s assms by (simp add: writeSuperblock_def file_of_def write_at_def sbSize_def slotSize_def)
  have "(g + 1) mod 2 = 0 \<longleftrightarrow> g mod 2 \<noteq> 0" by (simp add: mod_2_eq_odd)
  then have "slot_at g ?b' = slot_at g b" "slot_at (g + 1) ?b' = slot" "length ?b' = sbSize"
    using s(2) assms(2) by (auto simp: slot_at_def sbSize_def slotSize_def)
  then show ?thesis using w s(3) by (intro exI [of _ "mput path ?b' d"] exI [of _ ?b']) simp
qed

text \<open>C26: Publishing a checkpoint over the current one \<open>old\<close>: after the write the reader returns the new one;
  and whatever a crash leaves in the slot that was being written, as long as it does not check out as a
  slot, the reader returns \<open>old\<close>.  The slot of \<open>old\<close> is not touched.\<close>

theorem superblock_torn_write_safe:
  assumes "mget d path = Some b" "length b = sbSize" "decodeSlot (slot_at (cm_gen old) b) = Some (Some old)"
    "meta_fits m" "cm_gen m = cm_gen old + 1" "cm_gen old < cm_gen m"
  shows "\<exists>d' b'. writeSuperblock d path m = Some d' \<and> mget d' path = Some b' \<and> slot_at (cm_gen old) b' = slot_at (cm_gen old) b
     \<and> readSuperblock d' path = Some (Inr m)
     \<and> (\<forall>torn. length torn = sbSize \<and> slot_at (cm_gen old) torn = slot_at (cm_gen old) b
          \<and> decodeSlot (slot_at (cm_gen m) torn) = Some None
          \<longrightarrow> readSuperblock (mput path torn d) path = Some (Inr old))"
proof -
  from writeSuperblock_slots [OF assms(1,2,4,5)] obtain d' b' where
    w: "writeSuperblock d path m = Some d'" "mget d' path = Some b'" "length b' = sbSize"
      "slot_at (cm_gen old) b' = slot_at (cm_gen old) b" "decodeSlot (slot_at (cm_gen old + 1) b') = Some (Some m)" by blast
  have "readSuperblock d' path = Some (Inr m)"
    using readSuperblock_slots [OF w(2,3) _ refl w(5)] w(4) assms(3,6) by simp
  moreover have "readSuperblock (mput path torn d) path = Some (Inr old)"
    if "length torn = sbSize" "slot_at (cm_gen old) torn = slot_at (cm_gen old) b" "decodeSlot (slot_at (cm_gen m) torn) = Some None" for torn
    using readSuperblock_slots [of "mput path torn d" path torn "cm_gen old" old None] that assms(3,5) by simp
  ultimately show ?thesis using w by blast
qed

text \<open>Publishing a checkpoint, whatever the file held before: a reader sees the new one as long as it
  saw no newer one, and no other file changes.\<close>

lemma decode_zero_slot: "decodeSlot (replicate slotSize 0) = Some None"
proof -
  have "le_dec (replicate n 0) = 0" for n by (induction n) simp_all
  then show ?thesis by (simp add: decodeSlot_def slotSize_def Uint32_def sbMagic_def)
qed

lemma readSuperblock_file:
  assumes "mget d path = Some f" "sbSize \<le> length f" "readSuperblock d path = Some r"
  shows "\<exists>a c. decodeSlot (take slotSize f) = Some a \<and> decodeSlot (drop slotSize f) = Some c
     \<and> (\<forall>x. a = Some x \<or> c = Some x \<longrightarrow> (\<exists>old. r = Inr old \<and> cm_gen x \<le> cm_gen old))"
  using assms by (auto simp: readSuperblock_def bind_eq_Some_conv not_le split: option.splits if_splits)
    (erule order.strict_implies_order)

lemma superblock_publish:
  assumes "readSuperblock d path = Some r" "meta_fits m" "\<And>old. r = Inr old \<Longrightarrow> cm_gen old < cm_gen m"
  shows "\<exists>b. writeSuperblock d path m = Some (mput path b d) \<and> readSuperblock (mput path b d) path = Some (Inr m)"
proof -
  from decode_encode_slot [OF assms(2)] obtain slot where
    s: "encodeSlot m = Some slot" "length slot = slotSize" "\<And>rest. decodeSlot (slot @ rest) = Some (Some m)" by blast
  have s0: "decodeSlot slot = Some (Some m)" using s(3) [of "[]"] by simp
  show ?thesis
  proof (cases "\<exists>f. mget d path = Some f \<and> sbSize \<le> length f")
    case True
    then obtain f where f: "mget d path = Some f" "sbSize \<le> length f" by blast
    from readSuperblock_file [OF f assms(1)] obtain a c where
      ac: "decodeSlot (take slotSize f) = Some a" "decodeSlot (drop slotSize f) = Some c"
        "\<And>x. a = Some x \<or> c = Some x \<Longrightarrow> \<exists>old. r = Inr old \<and> cm_gen x \<le> cm_gen old" by blast
    have new: "a = Some x \<or> c = Some x \<Longrightarrow> cm_gen x < cm_gen m" for x
      using ac(3) [of x] assms(3) order.strict_trans1 by blast
    let ?b = "if cm_gen m mod 2 = 0 then slot @ drop slotSize f else take slotSize f @ slot @ drop sbSize f"
    have l: "slotSize \<le> length f" using f(2) by (simp add: sbSize_def)
    have "drop slotSize f = drop slotSize (take sbSize f @ drop sbSize f)" by simp
    also have "\<dots> = drop slotSize (take sbSize f) @ drop sbSize f"
      unfolding drop_append using f(2) by (simp add: sbSize_def)
    finally have w: "writeSuperblock d path m = Some (mput path ?b d)"
      using s(1,2) f l by (simp add: writeSuperblock_def file_of_def write_at_def sbSize_def slotSize_def)
    have "readSuperblock (mput path ?b d) path = Some (Inr m)"
    proof (cases "cm_gen m mod 2 = 0")
      case True
      then have "decodeSlot (take slotSize ?b) = Some (Some m)" "decodeSlot (drop slotSize ?b) = Some c" "sbSize \<le> length ?b"
        using s(2) s0 ac(2) f(2) by (simp_all add: sbSize_def)
      then show ?thesis using new by (cases c) (simp_all add: readSuperblock_def order.strict_implies_order del: if_True)
    next
      case False
      then have "decodeSlot (take slotSize ?b) = Some a" "decodeSlot (drop slotSize ?b) = Some (Some m)" "sbSize \<le> length ?b"
        using s(2,3) ac(1) f(2) l by (simp_all add: sbSize_def)
      then show ?thesis using new by (cases a) (auto simp: readSuperblock_def dest: leD)
    qed
    with w show ?thesis by blast
  next
    case False
    let ?z = "replicate slotSize 0"
    let ?b = "if cm_gen m mod 2 = 0 then slot @ ?z else ?z @ slot"
    have "length (file_of d path) < sbSize" using False by (auto simp: file_of_def sbSize_def slotSize_def split: option.splits)
    then have w: "writeSuperblock d path m = Some (mput path ?b d)"
      using s(1,2) False by (auto simp: writeSuperblock_def write_at_def sbSize_def slotSize_def)
    have "readSuperblock (mput path ?b d) path = Some (Inr m)"
      using s(2) s0 s(3) decode_zero_slot by (simp add: readSuperblock_def sbSize_def)
    with w show ?thesis by blast
  qed
qed

text \<open>The first checkpoint of a fresh store.\<close>

definition demo_meta :: checkpointMeta where
  "demo_meta = \<lparr> cm_gen = 1, cm_frontier = 7, cm_arenaLen = 1, cm_snapshot = ''snap-1.meguri'', cm_logName = ''log-2'' \<rparr>"

lemma superblock_first_write:
  assumes "mget d path = None" "meta_fits m" "cm_gen m = 1"
  shows "\<exists>d' b'. writeSuperblock d path m = Some d' \<and> mget d' path = Some b' \<and> length b' = sbSize
     \<and> decodeSlot (slot_at 1 b') = Some (Some m) \<and> readSuperblock d' path = Some (Inr m)"
proof -
  from decode_encode_slot [OF assms(2)] obtain slot where
    s: "encodeSlot m = Some slot" "length slot = slotSize" "decodeSlot slot = Some (Some m)" by (metis append_Nil2)
  let ?b' = "replicate slotSize 0 @ slot"
  have w: "writeSuperblock d path m = Some (mput path ?b' d)"
    using s assms by (simp add: writeSuperblock_def file_of_def write_at_def sbSize_def slotSize_def)
  have "readSuperblock (mput path ?b' d) path = Some (Inr m)"
    using s(2,3) decode_zero_slot by (simp add: readSuperblock_def sbSize_def)
  moreover have "slot_at 1 ?b' = slot" by (simp add: slot_at_def)
  ultimately show ?thesis using w s(2,3) by (intro exI [of _ "mput path ?b' d"] exI [of _ ?b']) (simp add: sbSize_def)
qed

lemma superblock_torn_write_safe_witness:
  "\<exists>d. readSuperblock d ''super'' = Some (Inr (demo_meta\<lparr> cm_gen := 2 \<rparr>))"
proof -
  have m: "meta_fits demo_meta" "meta_fits (demo_meta\<lparr> cm_gen := 2 \<rparr>)" "cm_gen demo_meta = 1"
    by (simp_all add: meta_fits_def demo_meta_def slotSize_def)
  from superblock_first_write [of "[]" "''super''" demo_meta] m(1,3) obtain d b where
    d: "mget d ''super'' = Some b" "length b = sbSize" "decodeSlot (slot_at (cm_gen demo_meta) b) = Some (Some demo_meta)" by auto
  have "cm_gen (demo_meta\<lparr> cm_gen := 2 \<rparr>) = cm_gen demo_meta + 1" "cm_gen demo_meta < cm_gen (demo_meta\<lparr> cm_gen := 2 \<rparr>)"
    using m(3) by simp_all
  from superblock_torn_write_safe [OF d m(2) this] show ?thesis by blast
qed

end
