(* ===== verification/Store.thy ===== *)
theory Store
  imports StoreLog Dict PartitionOps
begin

unbundle bit_operations_syntax

text \<open>
  The durable store of a partition (\<^verbatim>\<open>store/store.go\<close>): a resident index over the append-only log, the
  string arena, eviction of URL bodies under a resident budget, the checkpoint with its log rotation, and
  recovery.  The index is one map here; the source stripes it by host key for its locks only, and every
  method is one step.  \<open>enc\<close> and \<open>dec\<close> are the file encoder and decoder of \<^verbatim>\<open>format/\<close>, \<open>zenc\<close> and \<open>zdec\<close>
  the zstd package.  \<open>None\<close> is a panic: an index out of range in a record decoder.
\<close>

section \<open>State\<close>

record urlLoc =
  ul_off :: nat
  ul_lsn :: u64
  ul_rec :: "URLRecord option"
  ul_tomb :: bool

record hostLoc =
  hl_off :: nat
  hl_lsn :: u64
  hl_rec :: HostRecord
  hl_tomb :: bool

record Store =
  st_dur :: Durability
  st_disk :: disk
  st_log :: log
  st_logName :: string
  st_gen :: u64
  st_arena :: "u8 list"
  st_urls :: "(URLKey, urlLoc) gomap"
  st_hosts :: "(u64, hostLoc) gomap"
  st_residentBudget :: int
  st_residentN :: int
  st_evictQ :: "URLKey list"
  st_id :: u32
  st_created :: u32
  st_codec :: u8
  st_hostKeyLo :: u64
  st_hostKeyHi :: u64

record Options =
  op_Durability :: Durability
  op_ResidentBudget :: int
  op_PartitionID :: u32
  op_CreatedHours :: u32

definition superName :: string where "superName = ''super''"

fun decimal :: "nat \<Rightarrow> string" where
  "decimal n = (if n < 10 then [char_of (48 + n)] else decimal (n div 10) @ [char_of (48 + n mod 10)])"

declare decimal.simps [simp del]

definition logFile :: "u64 \<Rightarrow> string" where "logFile n = ''log-'' @ decimal (unat n)"
definition snapFile :: "u64 \<Rightarrow> string" where "snapFile n = ''snap-'' @ decimal (unat n) @ ''.meguri''"

definition putU64 :: "u64 \<Rightarrow> u8 list" where
  "putU64 v = map (\<lambda>i. ucast (drop_bit (8 * i) v)) [0..<8]"

definition readU64 :: "u8 list \<Rightarrow> u64" where
  "readU64 b = foldl (\<lambda>v i. v OR push_bit (8 * i) (ucast (b ! i))) 0 [0..<8]"

section \<open>Strings\<close>

definition Intern :: "string \<Rightarrow> Store \<Rightarrow> u64 \<times> Store" where
  "Intern str s =
     (if str = [] then (0, s)
      else
        (let off = of_nat (length (st_arena s));
             entry = uvarint (length str) @ bytes_of str;
             (d, l, _, _) = log_append (st_disk s) (st_log s) kindIntern 0 [] entry in
         (off, s\<lparr> st_arena := st_arena s @ entry, st_disk := d, st_log := l \<rparr>)))"

definition Str :: "u64 \<Rightarrow> Store \<Rightarrow> go_panic + string" where
  "Str off s = readArena (st_arena s) off"

definition InternRobots :: "(u8 list \<Rightarrow> u8 list) \<Rightarrow> u8 list \<Rightarrow> Store \<Rightarrow> u64 \<times> Store" where
  "InternRobots zenc blob s =
     (if blob = [] then (0, s)
      else
        (let packed = PackRobots zenc blob (st_codec s);
             off = of_nat (length (st_arena s));
             entry = uvarint (length packed) @ packed;
             (d, l, _, _) = log_append (st_disk s) (st_log s) kindIntern 0 [] entry in
         (off, s\<lparr> st_arena := st_arena s @ entry, st_disk := d, st_log := l \<rparr>)))"

definition Robots_blob :: "(u8 list \<Rightarrow> u8 list option) \<Rightarrow> u64 \<Rightarrow> Store \<Rightarrow> go_panic + u8 list" where
  "Robots_blob zdec off s =
     map_sum id (\<lambda>r. case r of None \<Rightarrow> [] | Some packed \<Rightarrow>
         if packed = [] then [] else (case UnpackRobots zdec packed (st_codec s) of Some blob \<Rightarrow> blob | None \<Rightarrow> []))
       (readArenaBytes (st_arena s) off)"

section \<open>The URL table\<close>

fun evict_loop :: "URLKey list \<Rightarrow> Store \<Rightarrow> Store" where
  "evict_loop [] s = s\<lparr> st_evictQ := [] \<rparr>"
| "evict_loop (victim # q) s =
     (if st_residentN s > st_residentBudget s then
        (case mget (st_urls s) victim of
           Some loc \<Rightarrow>
             if ul_rec loc \<noteq> None \<and> \<not> ul_tomb loc
             then evict_loop q (s\<lparr> st_urls := mput victim (loc\<lparr> ul_rec := None \<rparr>) (st_urls s), st_residentN := st_residentN s - 1 \<rparr>)
             else evict_loop q s
         | None \<Rightarrow> evict_loop q s)
      else s\<lparr> st_evictQ := victim # q \<rparr>)"

definition trackResident :: "URLKey \<Rightarrow> Store \<Rightarrow> Store" where
  "trackResident key s =
     (if st_residentBudget s \<le> 0 then s
      else evict_loop (st_evictQ s @ [key]) (s\<lparr> st_residentN := st_residentN s + 1 \<rparr>))"

definition Store_PutURL :: "URLRecord \<Rightarrow> Store \<Rightarrow> u64 \<times> Store" where
  "Store_PutURL rec s =
     (let key = u_URLKey rec;
          (d, l, off, lsn) = log_append (st_disk s) (st_log s) kindURL 16 (URLKey_Bytes key) (encodeURL rec);
          l' = log_commit (off + frameHeaderSize + 16 + urlValueSize + 4) l;
          loc = mget (st_urls s) key;
          newResident = (case loc of None \<Rightarrow> True | Some lc \<Rightarrow> ul_rec lc = None);
          s1 = s\<lparr> st_disk := d, st_log := l',
                  st_urls := mput key \<lparr> ul_off = off, ul_lsn = lsn, ul_rec = Some rec, ul_tomb = False \<rparr> (st_urls s) \<rparr> in
      (lsn, if newResident then trackResident key s1 else s1))"

definition GetURL :: "URLKey \<Rightarrow> Store \<Rightarrow> (URLRecord option \<times> Store) option" where
  "GetURL key s =
     (case mget (st_urls s) key of
        None \<Rightarrow> Some (None, s)
      | Some loc \<Rightarrow>
          if ul_tomb loc then Some (None, s)
          else
            (case ul_rec loc of
               Some rec \<Rightarrow> Some (Some rec, s)
             | None \<Rightarrow>
                 (case log_readAt (st_disk s) (st_log s) (ul_off loc) of
                    Inl e \<Rightarrow> Some (None, s)
                  | Inr (_, _, _, val) \<Rightarrow> do {
                      rec \<leftarrow> decodeURL key val;
                      Some (Some rec, trackResident key (s\<lparr> st_urls := mput key (loc\<lparr> ul_rec := Some rec \<rparr>) (st_urls s) \<rparr>))
                    })))"

definition DeleteURL :: "URLKey \<Rightarrow> Store \<Rightarrow> Store" where
  "DeleteURL key s =
     (let (d, l, off, lsn) = log_append (st_disk s) (st_log s) (kindURL OR tombBit) 16 (URLKey_Bytes key) [];
          l' = log_commit (off + frameHeaderSize + 16 + 4) l in
      s\<lparr> st_disk := d, st_log := l',
         st_urls := mput key \<lparr> ul_off = off, ul_lsn = lsn, ul_rec = None, ul_tomb = True \<rparr> (st_urls s) \<rparr>)"

section \<open>The host table and the counters\<close>

definition Store_PutHost :: "HostRecord \<Rightarrow> Store \<Rightarrow> u64 \<times> Store" where
  "Store_PutHost rec s =
     (let (d, l, off, lsn) = log_append (st_disk s) (st_log s) kindHost 8 (putU64 (h_HostKey rec)) (encodeHost rec);
          l' = log_commit (off + frameHeaderSize + 8 + hostValueSize + 4) l in
      (lsn, s\<lparr> st_disk := d, st_log := l',
         st_hosts := mput (h_HostKey rec) \<lparr> hl_off = off, hl_lsn = lsn, hl_rec = rec, hl_tomb = False \<rparr> (st_hosts s) \<rparr>))"

definition GetHost :: "u64 \<Rightarrow> Store \<Rightarrow> HostRecord option" where
  "GetHost key s = (case mget (st_hosts s) key of
       None \<Rightarrow> None | Some loc \<Rightarrow> if hl_tomb loc then None else Some (hl_rec loc))"

definition Store_URLCount :: "Store \<Rightarrow> nat" where
  "Store_URLCount s = length (filter (\<lambda>(k, loc). \<not> ul_tomb loc) (st_urls s))"

definition Store_HostCount :: "Store \<Rightarrow> nat" where
  "Store_HostCount s = length (filter (\<lambda>(k, loc). \<not> hl_tomb loc) (st_hosts s))"

definition Resident :: "Store \<Rightarrow> int" where "Resident s = st_residentN s"

definition Store_LSN :: "Store \<Rightarrow> u64" where "Store_LSN s = peekLSN (st_log s)"

definition Store_Close :: "Store \<Rightarrow> Store" where
  "Store_Close s = s\<lparr> st_log := syncAll (st_log s) \<rparr>"

section \<open>Checkpoint\<close>

text \<open>The live rows in the order the index lists them; a spilled row that cannot be read is skipped.\<close>

fun collect_urls :: "disk \<Rightarrow> log \<Rightarrow> (URLKey, urlLoc) gomap \<Rightarrow> URLRecord list option" where
  "collect_urls d l [] = Some []"
| "collect_urls d l ((key, loc) # m) =
     (if ul_tomb loc then collect_urls d l m
      else (case ul_rec loc of
          Some rec \<Rightarrow> do { us \<leftarrow> collect_urls d l m; Some (rec # us) }
        | None \<Rightarrow>
            (case log_readAt d l (ul_off loc) of
               Inl e \<Rightarrow> collect_urls d l m
             | Inr (_, _, _, val) \<Rightarrow> do { rec \<leftarrow> decodeURL key val; us \<leftarrow> collect_urls d l m; Some (rec # us) })))"

definition snapshotPartition :: "Store \<Rightarrow> Partition option" where
  "snapshotPartition s = do {
     us \<leftarrow> collect_urls (st_disk s) (st_log s) (st_urls s);
     (let urls = sort_key u_URLKey us;
          hosts = sort_key h_HostKey (map (\<lambda>(k, loc). hl_rec loc) (filter (\<lambda>(k, loc). \<not> hl_tomb loc) (st_hosts s)));
          (lo, hi) = (if hosts \<noteq> [] then (h_HostKey (hd hosts), h_HostKey (last hosts)) else (0, - 1)) in
      Some (Pack (st_id s) lo hi (st_created s) (st_codec s) urls hosts (st_arena s)))
   }"

definition Store_commit :: "(Partition \<Rightarrow> u8 list option) \<Rightarrow> Partition \<Rightarrow> Store \<Rightarrow> (store_error + Store) option" where
  "Store_commit enc part s =
     (let frontier = peekLSN (st_log s); nextGen = st_gen s + 1; snapName = snapFile nextGen in
      case enc part of
        None \<Rightarrow> Some (Inl ErrEncode)
      | Some img \<Rightarrow>
          (let d1 = mput snapName img (st_disk s);
               newLogName = logFile (nextGen + 1);
               (d2, newLog) = openLog d1 newLogName (st_dur s);
               meta = \<lparr> cm_gen = nextGen, cm_frontier = frontier, cm_arenaLen = of_nat (length (pt_Strings part)),
                        cm_snapshot = snapName, cm_logName = newLogName \<rparr> in
           do {
             d3 \<leftarrow> writeSuperblock d2 superName meta;
             (let d4 = mdel (logFile nextGen) d3;
                  d5 = (if nextGen > 1 then mdel (snapFile (nextGen - 1)) d4 else d4) in
              Some (Inr (s\<lparr> st_log := setLSN frontier newLog, st_logName := newLogName, st_gen := nextGen, st_disk := d5 \<rparr>)))
           }))"

definition Store_Checkpoint :: "(Partition \<Rightarrow> u8 list option) \<Rightarrow> Store \<Rightarrow> (store_error + Store) option" where
  "Store_Checkpoint enc s = do { part \<leftarrow> snapshotPartition s; Store_commit enc part s }"

definition Snapshot :: "Store \<Rightarrow> Partition option" where
  "Snapshot s = snapshotPartition s"

definition CheckpointFrom :: "(Partition \<Rightarrow> u8 list option) \<Rightarrow> Partition \<Rightarrow> Store \<Rightarrow> (store_error + Store) option" where
  "CheckpointFrom enc part s = Store_commit enc part s"

section \<open>Recovery\<close>

definition load_snapshot :: "Partition \<Rightarrow> Store \<Rightarrow> Store" where
  "load_snapshot part s =
     s\<lparr> st_id := pt_ID part, st_created := pt_CreatedHours part, st_codec := pt_DefaultCodec part,
        st_hostKeyLo := pt_HostKeyLo part, st_hostKeyHi := pt_HostKeyHi part,
        st_arena := (if pt_Strings part \<noteq> [] then pt_Strings part else st_arena s),
        st_urls := foldl (\<lambda>m r. mput (u_URLKey r) \<lparr> ul_off = 0, ul_lsn = 0, ul_rec = Some r, ul_tomb = False \<rparr> m) (st_urls s) (pt_URLs part),
        st_hosts := foldl (\<lambda>m h. mput (h_HostKey h) \<lparr> hl_off = 0, hl_lsn = 0, hl_rec = h, hl_tomb = False \<rparr> m) (st_hosts s) (pt_Hosts part) \<rparr>"

definition redo_frame :: "frame \<Rightarrow> Store \<Rightarrow> Store option" where
  "redo_frame fr s =
     (if fr_kind fr = kindIntern then Some (s\<lparr> st_arena := st_arena s @ fr_val fr \<rparr>)
      else if fr_kind fr = kindURL then
        (if length (fr_key fr) < 16 then None
         else
           (let key = URLKeyFromBytes (take 16 (fr_key fr)) in
            if fr_tomb fr
            then Some (s\<lparr> st_urls := mput key \<lparr> ul_off = fr_off fr, ul_lsn = fr_lsn fr, ul_rec = None, ul_tomb = True \<rparr> (st_urls s) \<rparr>)
            else do {
              rec \<leftarrow> decodeURL key (fr_val fr);
              Some (s\<lparr> st_urls := mput key \<lparr> ul_off = fr_off fr, ul_lsn = fr_lsn fr, ul_rec = Some rec, ul_tomb = False \<rparr> (st_urls s) \<rparr>)
            }))
      else if fr_kind fr = kindHost then
        (if length (fr_key fr) < 8 then None
         else
           (let key = readU64 (fr_key fr);
                loc0 = (case mget (st_hosts s) key of Some loc \<Rightarrow> loc
                        | None \<Rightarrow> \<lparr> hl_off = 0, hl_lsn = 0, hl_rec = zeroHost 0, hl_tomb = False \<rparr>) in
            do {
              loc1 \<leftarrow> (if fr_tomb fr then Some (loc0\<lparr> hl_tomb := True \<rparr>)
                       else do { rec \<leftarrow> decodeHost key (fr_val fr); Some (loc0\<lparr> hl_rec := rec, hl_tomb := False \<rparr>) });
              Some (s\<lparr> st_hosts := mput key (loc1\<lparr> hl_off := fr_off fr, hl_lsn := fr_lsn fr \<rparr>) (st_hosts s) \<rparr>)
            }))
      else Some s)"

fun redo_frames :: "frame list \<Rightarrow> Store \<Rightarrow> Store option" where
  "redo_frames [] s = Some s"
| "redo_frames (fr # frs) s = do { s' \<leftarrow> redo_frame fr s; redo_frames frs s' }"

definition max_lsn :: "frame list \<Rightarrow> u64" where
  "max_lsn frs = foldl (\<lambda>m fr. if fr_lsn fr > m then fr_lsn fr else m) 0 frs"

text \<open>The second half of recovery: open the named log, redo its frames and resume past the highest LSN.\<close>

definition replay_tail :: "string \<Rightarrow> u64 \<Rightarrow> Store \<Rightarrow> Store option" where
  "replay_tail logName frontier s =
     (let (d, l) = openLog (st_disk s) logName (st_dur s);
          frs = replay 0 (file_of d logName) in
      do {
        s' \<leftarrow> redo_frames frs (s\<lparr> st_disk := d, st_log := l \<rparr>);
        Some (s'\<lparr> st_log := setLSN (max frontier (max_lsn frs + 1)) (st_log s') \<rparr>)
      })"

definition Store_recover :: "(u8 list \<Rightarrow> Partition option) \<Rightarrow> checkpointMeta \<Rightarrow> Store \<Rightarrow> (store_error + Store) option" where
  "Store_recover dec meta s0 =
     (let s = s0\<lparr> st_gen := cm_gen meta, st_logName := cm_logName meta \<rparr>;
          loaded = (if cm_snapshot meta = [] then Inr s
            else (case mget (st_disk s) (cm_snapshot meta) of
                None \<Rightarrow> Inl ErrNotExist
              | Some img \<Rightarrow> (case dec img of None \<Rightarrow> Inl ErrDecode | Some part \<Rightarrow> Inr (load_snapshot part s)))) in
      case loaded of
        Inl e \<Rightarrow> Some (Inl e)
      | Inr s1 \<Rightarrow> map_option Inr (replay_tail (cm_logName meta) (cm_frontier meta) s1))"

definition fresh_store :: "disk \<Rightarrow> Options \<Rightarrow> Store" where
  "fresh_store d opts =
     (let dur = (if op_Durability opts = DurabilityNone then DurabilityNormal else op_Durability opts) in
      \<lparr> st_dur = dur, st_disk = d,
        st_log = \<lparr> lg_name = [], lg_off = 0, lg_nextLSN = 0, lg_written = 0, lg_synced = 0, lg_dur = dur \<rparr>,
        st_logName = [], st_gen = 0, st_arena = [0], st_urls = [], st_hosts = [],
        st_residentBudget = op_ResidentBudget opts, st_residentN = 0, st_evictQ = [],
        st_id = op_PartitionID opts, st_created = op_CreatedHours opts, st_codec = CodecZstd,
        st_hostKeyLo = 0, st_hostKeyHi = - 1 \<rparr>)"

definition Open :: "(u8 list \<Rightarrow> Partition option) \<Rightarrow> disk \<Rightarrow> Options \<Rightarrow> (store_error + Store) option" where
  "Open dec d opts = do {
     r \<leftarrow> readSuperblock d superName;
     (case r of
        Inl e \<Rightarrow>
          if e = ErrNoCheckpoint
          then Store_recover dec \<lparr> cm_gen = 0, cm_frontier = 1, cm_arenaLen = 0, cm_snapshot = [], cm_logName = ''log-1'' \<rparr> (fresh_store d opts)
          else Some (Inl e)
      | Inr meta \<Rightarrow> Store_recover dec meta (fresh_store d opts))
   }"

end
