(* ===== verification/StoreProps.thy ===== *)
theory StoreProps
  imports Store
begin

unbundle bit_operations_syntax

text \<open>
  What the store promises: its reads answer with the last write whatever was evicted in between, and
  reopening after a crash gives the state after a prefix of the writes that contains every one that was
  made durable.  The state of a store is compared with a specification of two maps and the string arena.
\<close>

section \<open>The specification\<close>

type_synonym sview = "(URLKey \<rightharpoonup> URLRecord) \<times> (u64 \<rightharpoonup> HostRecord) \<times> u8 list"

text \<open>What a write means.\<close>

datatype sop = SPut URLRecord | SDel URLKey | SHost HostRecord | SIntern "u8 list"

fun do_op :: "sop \<Rightarrow> sview \<Rightarrow> sview" where
  "do_op (SPut r) (U, H, A) = (U(u_URLKey r \<mapsto> r), H, A)"
| "do_op (SDel k) (U, H, A) = (U(k := None), H, A)"
| "do_op (SHost h) (U, H, A) = (U, H(h_HostKey h \<mapsto> h), A)"
| "do_op (SIntern b) (U, H, A) = (U, H, A @ b)"

lemma do_op_proj:
  "do_op (SPut r) v = ((fst v)(u_URLKey r \<mapsto> r), snd v)"
  "do_op (SDel k) v = ((fst v)(k := None), snd v)"
  "do_op (SHost h) v = (fst v, (fst (snd v))(h_HostKey h \<mapsto> h), snd (snd v))"
  "do_op (SIntern b) v = (fst v, fst (snd v), snd (snd v) @ b)"
  by (cases v; simp)+

definition do_ops :: "sop list \<Rightarrow> sview \<Rightarrow> sview" where
  "do_ops ops v = foldl (\<lambda>v op. do_op op v) v ops"

lemma do_ops_simps [simp]: "do_ops [] v = v" "do_ops (op # ops) v = do_ops ops (do_op op v)"
  "do_ops (ops @ ops') v = do_ops ops' (do_ops ops v)"
  by (simp_all add: do_ops_def)

text \<open>Writes that the log can hold.\<close>

fun sop_ok :: "sop \<Rightarrow> bool" where
  "sop_ok (SPut r) = url_ok r"
| "sop_ok (SDel k) = True"
| "sop_ok (SHost h) = host_ok h"
| "sop_ok (SIntern b) = (length b < 2 ^ 32)"

text \<open>The log entry of a write.\<close>

fun op_entry :: "u64 \<times> sop \<Rightarrow> entry" where
  "op_entry (lsn, SPut r) = \<lparr> en_lsn = lsn, en_kind = kindURL, en_klen = 16, en_key = URLKey_Bytes (u_URLKey r), en_val = encodeURL r \<rparr>"
| "op_entry (lsn, SDel k) = \<lparr> en_lsn = lsn, en_kind = kindURL OR tombBit, en_klen = 16, en_key = URLKey_Bytes k, en_val = [] \<rparr>"
| "op_entry (lsn, SHost h) = \<lparr> en_lsn = lsn, en_kind = kindHost, en_klen = 8, en_key = putU64 (h_HostKey h), en_val = encodeHost h \<rparr>"
| "op_entry (lsn, SIntern b) = \<lparr> en_lsn = lsn, en_kind = kindIntern, en_klen = 0, en_key = [], en_val = b \<rparr>"

definition op_entries :: "(u64 \<times> sop) list \<Rightarrow> entry list" where
  "op_entries ops = map op_entry ops"

lemma op_entries_simps [simp]: "op_entries [] = []" "op_entries (p # ops) = op_entry p # op_entries ops"
  "op_entries (ops @ ops') = op_entries ops @ op_entries ops'" "op_entries (take n ops) = take n (op_entries ops)"
  by (simp_all add: op_entries_def take_map)

lemma URLKey_Bytes_length [simp]: "length (URLKey_Bytes k) = 16"
  by (simp add: URLKey_Bytes_def)

lemma putU64_length [simp]: "length (putU64 v) = 8"
  by (simp add: putU64_def)

lemma bit_or_bytes:
  "bit (foldl (\<lambda>v i. v OR push_bit (8 * i) (ucast (b ! i))) (a :: u64) js) n
     \<longleftrightarrow> bit a n \<or> (\<exists>i \<in> set js. bit (push_bit (8 * i) (ucast (b ! i)) :: u64) n)"
  by (induction js arbitrary: a) (auto simp: bit_or_iff)

lemma readU64_putU64: "readU64 (putU64 v) = v"
proof (rule bit_word_eqI)
  fix n assume n: "n < LENGTH(64)"
  have byte: "bit (push_bit (8 * i) (ucast (putU64 v ! i)) :: u64) n \<longleftrightarrow> 8 * i \<le> n \<and> n - 8 * i < 8 \<and> bit v n" if "i < 8" for i
    using that n by (auto simp: putU64_def bit_simps)
  have "bit (readU64 (putU64 v)) n \<longleftrightarrow> (\<exists>i \<in> {0..<8}. 8 * i \<le> n \<and> n - 8 * i < 8 \<and> bit v n)"
    unfolding readU64_def bit_or_bytes using byte by auto
  also have "\<dots> \<longleftrightarrow> bit v n"
  proof
    assume "bit v n"
    moreover have "n div 8 \<in> {0..<8}" "8 * (n div 8) \<le> n" "n - 8 * (n div 8) < 8" using n by auto
    ultimately show "\<exists>i \<in> {0..<8}. 8 * i \<le> n \<and> n - 8 * i < 8 \<and> bit v n" by blast
  qed blast
  finally show "bit (readU64 (putU64 v)) n = bit v n" .
qed

lemma op_entry_ok: "sop_ok op \<Longrightarrow> entry_ok (op_entry (lsn, op))"
  by (cases op) (simp_all add: entry_ok_def frame_ok_def encodeURL_length encodeHost_length urlValueSize_def hostValueSize_def host_ok_def)

lemma op_entries_ok: "list_all (\<lambda>(n, op). sop_ok op) ops \<Longrightarrow> list_all entry_ok (op_entries ops)"
  by (induction ops) (auto simp: op_entry_ok)

section \<open>Reading a row from the log\<close>

text \<open>A row is backed by a log when the log holds its encoding under a 16-byte key at the offset.\<close>

definition backed :: "entry list \<Rightarrow> nat \<Rightarrow> URLRecord \<Rightarrow> bool" where
  "backed es off r \<longleftrightarrow> (\<exists>pre e post. es = pre @ e # post \<and> off = length (log_bytes pre) \<and> entry_ok e \<and> en_val e = encodeURL r)"

lemma backed_mono: "backed es off r \<Longrightarrow> backed (es @ fs) off r"
  by (force simp: backed_def)

lemma backed_last: "entry_ok e \<Longrightarrow> en_val e = encodeURL r \<Longrightarrow> backed (es @ [e]) (length (log_bytes es)) r"
  unfolding backed_def by (rule exI [of _ es], rule exI [of _ e], rule exI [of _ "[]"]) simp

lemma read_backed:
  assumes "backed es off r" "file_of d (lg_name l) = log_bytes es @ junk"
  shows "\<exists>kind klen key. log_readAt d l off = Inr (kind, klen, key, encodeURL r)"
proof -
  from assms(1) obtain pre e post where e: "es = pre @ e # post" "off = length (log_bytes pre)" "entry_ok e" "en_val e = encodeURL r"
    by (auto simp: backed_def)
  have "file_of d (lg_name l) = log_bytes pre @ entry_bytes e @ (log_bytes post @ junk)" using assms(2) e(1) by simp
  from log_readAt_frame [OF e(3) [unfolded entry_ok_def] this [unfolded entry_bytes_def] e(2)] show ?thesis by (simp add: e(4))
qed

section \<open>The index represents the map\<close>

definition loc_holds :: "entry list \<Rightarrow> URLKey \<Rightarrow> urlLoc \<Rightarrow> URLRecord \<Rightarrow> bool" where
  "loc_holds es k loc r \<longleftrightarrow> url_ok r \<and> u_URLKey r = k \<and> (case ul_rec loc of Some r' \<Rightarrow> r' = r | None \<Rightarrow> backed es (ul_off loc) r)"

definition loc_rep :: "entry list \<Rightarrow> URLKey \<Rightarrow> urlLoc option \<Rightarrow> URLRecord option \<Rightarrow> bool" where
  "loc_rep es k lo x \<longleftrightarrow> (case lo of None \<Rightarrow> x = None
     | Some loc \<Rightarrow> if ul_tomb loc then x = None else (\<exists>r. x = Some r \<and> loc_holds es k loc r))"

definition urls_rep :: "entry list \<Rightarrow> (URLKey, urlLoc) gomap \<Rightarrow> (URLKey \<rightharpoonup> URLRecord) \<Rightarrow> bool" where
  "urls_rep es m U \<longleftrightarrow> (\<forall>k. loc_rep es k (mget m k) (U k))"

text \<open>A row that may be evicted can be read back.\<close>

definition evict_ok :: "entry list \<Rightarrow> (URLKey, urlLoc) gomap \<Rightarrow> URLKey list \<Rightarrow> bool" where
  "evict_ok es m q \<longleftrightarrow> (\<forall>k \<in> set q. \<forall>loc r. mget m k = Some loc \<and> \<not> ul_tomb loc \<and> ul_rec loc = Some r \<longrightarrow> backed es (ul_off loc) r)"

definition hosts_rep :: "(u64, hostLoc) gomap \<Rightarrow> (u64 \<rightharpoonup> HostRecord) \<Rightarrow> bool" where
  "hosts_rep m H \<longleftrightarrow> (\<forall>k. H k = (case mget m k of None \<Rightarrow> None | Some loc \<Rightarrow> if hl_tomb loc then None else Some (hl_rec loc)))"

lemma loc_holds_mono: "loc_holds es k loc r \<Longrightarrow> loc_holds (es @ fs) k loc r"
  by (auto simp: loc_holds_def backed_mono split: option.splits)

lemma loc_rep_mono: "loc_rep es k lo x \<Longrightarrow> loc_rep (es @ fs) k lo x"
  using loc_holds_mono by (auto simp: loc_rep_def split: option.splits)

lemma urls_rep_mono: "urls_rep es m U \<Longrightarrow> urls_rep (es @ fs) m U"
  by (simp add: urls_rep_def loc_rep_mono)

lemma evict_ok_mono: "evict_ok es m q \<Longrightarrow> evict_ok (es @ fs) m q"
  by (auto simp: evict_ok_def dest: backed_mono)

lemma urls_rep_put:
  "urls_rep es m U \<Longrightarrow> loc_holds es k loc r \<Longrightarrow> \<not> ul_tomb loc \<Longrightarrow> urls_rep es (mput k loc m) (U(k \<mapsto> r))"
  by (simp add: urls_rep_def loc_rep_def [of _ _ "Some loc"])

lemma urls_rep_del: "urls_rep es m U \<Longrightarrow> ul_tomb loc \<Longrightarrow> urls_rep es (mput k loc m) (U(k := None))"
  by (simp add: urls_rep_def loc_rep_def [of _ _ "Some loc"])

lemma urls_rep_live: "urls_rep es m U \<Longrightarrow> mget m k = Some loc \<Longrightarrow> \<not> ul_tomb loc \<Longrightarrow> \<exists>r. U k = Some r \<and> loc_holds es k loc r"
  unfolding urls_rep_def by (drule spec [of _ k]) (simp add: loc_rep_def)

lemma evict_ok_put: "evict_ok es m q \<Longrightarrow> (\<And>r. \<not> ul_tomb loc \<Longrightarrow> ul_rec loc = Some r \<Longrightarrow> backed es (ul_off loc) r) \<Longrightarrow> evict_ok es (mput k loc m) q"
  by (auto simp: evict_ok_def)

text \<open>Eviction changes neither what the index represents nor anything outside it.\<close>

definition same_rest :: "Store \<Rightarrow> Store \<Rightarrow> bool" where
  "same_rest s s' \<longleftrightarrow> (\<exists>m n q. s' = s\<lparr> st_urls := m, st_residentN := n, st_evictQ := q \<rparr>)"

lemma same_rest_refl: "same_rest s s"
  unfolding same_rest_def by (rule exI [of _ "st_urls s"], rule exI [of _ "st_residentN s"], rule exI [of _ "st_evictQ s"]) simp

lemma same_rest_upd:
  "same_rest s (s\<lparr> st_evictQ := q \<rparr>)" "same_rest s (s\<lparr> st_residentN := n \<rparr>)" "same_rest s (s\<lparr> st_urls := m, st_residentN := n \<rparr>)"
  "same_rest s (s\<lparr> st_urls := m \<rparr>)"
  unfolding same_rest_def by (cases s, simp)+

lemma same_rest_trans: "same_rest s t \<Longrightarrow> same_rest t u \<Longrightarrow> same_rest s u"
  unfolding same_rest_def by (elim exE) (simp, blast)

lemma evict_loop_ok:
  assumes "urls_rep es (st_urls s) U" "evict_ok es (st_urls s) q"
  shows "urls_rep es (st_urls (evict_loop q s)) U \<and> evict_ok es (st_urls (evict_loop q s)) (st_evictQ (evict_loop q s))
     \<and> same_rest s (evict_loop q s)"
  using assms
proof (induction q arbitrary: s)
  case Nil
  then show ?case by (simp add: evict_ok_def same_rest_upd)
next
  case (Cons v q)
  have q: "evict_ok es (st_urls s) q" using Cons.prems(2) by (simp add: evict_ok_def)
  show ?case
  proof (cases "st_residentN s > st_residentBudget s \<and> (\<exists>loc. mget (st_urls s) v = Some loc \<and> ul_rec loc \<noteq> None \<and> \<not> ul_tomb loc)")
    case True
    then obtain loc r where l: "mget (st_urls s) v = Some loc" "ul_rec loc = Some r" "\<not> ul_tomb loc" by auto
    let ?loc = "loc\<lparr> ul_rec := None \<rparr>"
    let ?s = "s\<lparr> st_urls := mput v ?loc (st_urls s), st_residentN := st_residentN s - 1 \<rparr>"
    have b: "backed es (ul_off loc) r" using Cons.prems(2) l by (simp add: evict_ok_def)
    from urls_rep_live [OF Cons.prems(1) l(1,3)] l(2) have u: "U v = Some r" "loc_holds es v loc r" by (auto simp: loc_holds_def)
    then have "loc_holds es v ?loc r" using b l(2) by (simp add: loc_holds_def)
    from urls_rep_put [OF Cons.prems(1) this] l(3) u(1) have "urls_rep es (st_urls ?s) U" by (simp add: fun_upd_idem)
    moreover have "evict_ok es (st_urls ?s) q" using evict_ok_put [OF q, of ?loc v] by simp
    ultimately have "urls_rep es (st_urls (evict_loop q ?s)) U \<and> evict_ok es (st_urls (evict_loop q ?s)) (st_evictQ (evict_loop q ?s)) \<and> same_rest ?s (evict_loop q ?s)"
      by (rule Cons.IH)
    moreover have "evict_loop (v # q) s = evict_loop q ?s" using True l by simp
    ultimately show ?thesis using same_rest_trans [OF same_rest_upd(3)] by auto
  next
    case False
    show ?thesis
    proof (cases "st_residentN s > st_residentBudget s")
      case True
      then have "evict_loop (v # q) s = evict_loop q s" using False by (cases "mget (st_urls s) v") auto
      then show ?thesis using Cons.IH [OF Cons.prems(1) q] by (simp only:)
    next
      case False
      then show ?thesis using Cons.prems by (simp add: same_rest_upd)
    qed
  qed
qed

lemma trackResident_ok:
  assumes "urls_rep es (st_urls s) U" "evict_ok es (st_urls s) (st_evictQ s @ [k])"
  shows "urls_rep es (st_urls (trackResident k s)) U \<and> evict_ok es (st_urls (trackResident k s)) (st_evictQ (trackResident k s))
     \<and> same_rest s (trackResident k s)"
proof (cases "st_residentBudget s \<le> 0")
  case True
  then show ?thesis using assms by (simp add: trackResident_def same_rest_refl evict_ok_def)
next
  case False
  then show ?thesis
    using evict_loop_ok [of es "s\<lparr> st_residentN := st_residentN s + 1 \<rparr>" U "st_evictQ s @ [k]"] assms
      same_rest_trans [OF same_rest_upd(2)] by (auto simp: trackResident_def)
qed

section \<open>Writes and reads\<close>

text \<open>A store whose log file is the entries of the writes so far, followed by \<open>junk\<close>, and whose index
  represents their effect on the view it was opened with.\<close>

definition rep_log :: "Store \<Rightarrow> (u64 \<times> sop) list \<Rightarrow> u8 list \<Rightarrow> bool" where
  "rep_log s ops junk \<longleftrightarrow> file_of (st_disk s) (lg_name (st_log s)) = log_bytes (op_entries ops) @ junk
     \<and> lg_off (st_log s) = length (log_bytes (op_entries ops) @ junk) \<and> lg_written (st_log s) = lg_off (st_log s)
     \<and> lg_synced (st_log s) \<le> lg_off (st_log s) \<and> list_all (\<lambda>(n, op). sop_ok op) ops"

definition rep_view :: "Store \<Rightarrow> entry list \<Rightarrow> sview \<Rightarrow> bool" where
  "rep_view s es v \<longleftrightarrow> urls_rep es (st_urls s) (fst v) \<and> evict_ok es (st_urls s) (st_evictQ s)
     \<and> hosts_rep (st_hosts s) (fst (snd v)) \<and> st_arena s = snd (snd v)"

definition rep :: "sview \<Rightarrow> Store \<Rightarrow> (u64 \<times> sop) list \<Rightarrow> u8 list \<Rightarrow> bool" where
  "rep v0 s ops junk \<longleftrightarrow> rep_log s ops junk \<and> rep_view s (op_entries ops) (do_ops (map snd ops) v0)"

text \<open>Appending an entry to a log without junk.\<close>

lemma log_append_entry:
  assumes "rep_log s ops []" "sop_ok op" "log_append (st_disk s) (st_log s) (en_kind e) (en_klen e) (en_key e) (en_val e) = (d, l, off, lsn)"
    "e = op_entry (lsn, op)"
  shows "lsn = lg_nextLSN (st_log s)" "off = length (log_bytes (op_entries ops))"
    "rep_log (s'\<lparr> st_disk := d, st_log := log_commit upTo l \<rparr>) (ops @ [(lsn, op)]) []"
    "lg_name (log_commit upTo l) = lg_name (st_log s)" "lg_dur (log_commit upTo l) = lg_dur (st_log s)"
    "k \<noteq> lg_name (st_log s) \<Longrightarrow> mget d k = mget (st_disk s) k" "lg_synced (st_log s) \<le> lg_synced (log_commit upTo l)"
    "lg_dur (st_log s) = DurabilityFull \<Longrightarrow> upTo = off + length (entry_bytes e) \<Longrightarrow>
       lg_synced (log_commit upTo l) = lg_off (log_commit upTo l)"
proof -
  let ?l = "st_log s" and ?B = "log_bytes (op_entries ops)"
  have f: "file_of (st_disk s) (lg_name ?l) = ?B" "lg_off ?l = length ?B" "lg_written ?l = length ?B" "lg_synced ?l \<le> length ?B"
    "list_all (\<lambda>(n, op). sop_ok op) ops" using assms(1) by (simp_all add: rep_log_def)
  show l: "lsn = lg_nextLSN ?l" and o: "off = length ?B" using assms(3) f by (auto simp: log_append_def Let_def)
  have eb: "frame_bytes lsn (en_kind e) (en_klen e) (en_key e) (en_val e) = entry_bytes e"
    using assms(4) by (cases op) (simp_all add: entry_bytes_def)
  have d: "d = mput (lg_name ?l) (?B @ entry_bytes e) (st_disk s)"
    using assms(3) f by (auto simp: log_append_def Let_def write_at_def l [symmetric] eb)
  then show "k \<noteq> lg_name ?l \<Longrightarrow> mget d k = mget (st_disk s) k" by simp
  have l': "l = ?l\<lparr> lg_nextLSN := lsn + 1, lg_off := length ?B + length (entry_bytes e), lg_written := length ?B + length (entry_bytes e) \<rparr>"
    using assms(3) f by (auto simp: log_append_def Let_def l [symmetric] eb)
  show "lg_name (log_commit upTo l) = lg_name ?l" "lg_dur (log_commit upTo l) = lg_dur ?l"
    by (simp_all add: l' log_commit_def fsync_def)
  show "lg_synced ?l \<le> lg_synced (log_commit upTo l)" using f(4) by (simp add: l' log_commit_def fsync_def)
  show "rep_log (s'\<lparr> st_disk := d, st_log := log_commit upTo l \<rparr>) (ops @ [(lsn, op)]) []"
    using f assms(2,4) by (simp add: rep_log_def d l' log_commit_def fsync_def file_of_def)
  have "0 < length (entry_bytes e)"
    using frame_bytes_length op_entry_ok [OF assms(2), of lsn] by (simp add: entry_bytes_def entry_ok_def assms(4))
  then show "lg_dur ?l = DurabilityFull \<Longrightarrow> upTo = off + length (entry_bytes e) \<Longrightarrow>
       lg_synced (log_commit upTo l) = lg_off (log_commit upTo l)"
    using f(4) o by (simp add: l' log_commit_def fsync_def)
qed

lemma same_rest_fields:
  assumes "same_rest s s'"
  shows "st_hosts s' = st_hosts s" "st_arena s' = st_arena s" "st_log s' = st_log s" "st_disk s' = st_disk s" "st_dur s' = st_dur s"
    "st_residentBudget s' = st_residentBudget s" "st_gen s' = st_gen s" "st_logName s' = st_logName s" "st_id s' = st_id s"
    "st_created s' = st_created s" "st_codec s' = st_codec s"
  using assms by (auto simp: same_rest_def)

lemma rep_log_same_rest: "same_rest s s' \<Longrightarrow> rep_log s ops junk \<Longrightarrow> rep_log s' ops junk"
  by (simp add: rep_log_def same_rest_fields)

text \<open>A step that touches no file but the log, and one that leaves everything durable under full durability.\<close>

definition log_kept :: "Store \<Rightarrow> Store \<Rightarrow> bool" where
  "log_kept s s' \<longleftrightarrow> lg_name (st_log s') = lg_name (st_log s) \<and> lg_dur (st_log s') = lg_dur (st_log s)
     \<and> lg_synced (st_log s) \<le> lg_synced (st_log s') \<and> (\<forall>k. k \<noteq> lg_name (st_log s) \<longrightarrow> mget (st_disk s') k = mget (st_disk s) k)"

definition flushed :: "Store \<Rightarrow> bool" where
  "flushed s \<longleftrightarrow> (lg_dur (st_log s) = DurabilityFull \<longrightarrow> lg_synced (st_log s) = lg_off (st_log s))"

lemma Store_PutURL_rep:
  assumes "rep v0 s ops []" "url_ok r"
  shows "\<exists>lsn. rep v0 (snd (Store_PutURL r s)) (ops @ [(lsn, SPut r)]) []
     \<and> log_kept s (snd (Store_PutURL r s)) \<and> flushed (snd (Store_PutURL r s))"
proof -
  let ?k = "u_URLKey r" and ?v = "do_ops (map snd ops) v0"
  obtain d l off lsn where a: "log_append (st_disk s) (st_log s) kindURL 16 (URLKey_Bytes ?k) (encodeURL r) = (d, l, off, lsn)"
    by (metis prod_cases4)
  let ?e = "op_entry (lsn, SPut r)" and ?up = "off + frameHeaderSize + 16 + urlValueSize + 4"
  have ok: "sop_ok (SPut r)" using assms(2) by simp
  have a': "log_append (st_disk s) (st_log s) (en_kind ?e) (en_klen ?e) (en_key ?e) (en_val ?e) = (d, l, off, lsn)" using a by simp
  have rl: "rep_log s ops []" and rv: "rep_view s (op_entries ops) ?v" using assms(1) by (simp_all add: rep_def)
  note ap = log_append_entry [OF rl ok a' refl]
  let ?loc = "\<lparr> ul_off = off, ul_lsn = lsn, ul_rec = Some r, ul_tomb = False \<rparr>"
  let ?s1 = "s\<lparr> st_disk := d, st_log := log_commit ?up l, st_urls := mput ?k ?loc (st_urls s) \<rparr>"
  let ?es = "op_entries ops @ [?e]"
  have b: "backed ?es off r" unfolding ap(2) using op_entry_ok [OF ok] by (rule backed_last) simp
  have u: "urls_rep ?es (st_urls ?s1) ((fst ?v)(?k \<mapsto> r))"
    using urls_rep_put [OF urls_rep_mono, of "op_entries ops" "st_urls s" "fst ?v" "[?e]" ?k ?loc r] rv assms(2)
    by (simp add: rep_view_def loc_holds_def)
  have eq: "evict_ok ?es (st_urls ?s1) (st_evictQ s)"
    using evict_ok_put [OF evict_ok_mono, of "op_entries ops" "st_urls s" "st_evictQ s" ?loc "[?e]" ?k] rv b by (simp add: rep_view_def)
  have ek: "evict_ok ?es (st_urls ?s1) (st_evictQ s @ [?k])" using eq b by (auto simp: evict_ok_def)
  note tr = trackResident_ok [OF u, of ?k, simplified, OF ek [simplified]]
  define s2 where "s2 = snd (Store_PutURL r s)"
  have s2: "s2 = ?s1 \<or> s2 = trackResident ?k ?s1"
    unfolding s2_def Store_PutURL_def using a by (simp add: Let_def)
  have "urls_rep ?es (st_urls s2) ((fst ?v)(?k \<mapsto> r)) \<and> evict_ok ?es (st_urls s2) (st_evictQ s2) \<and> same_rest ?s1 s2"
    using s2 u eq tr same_rest_refl by auto
  moreover from this have f: "st_hosts s2 = st_hosts s" "st_arena s2 = st_arena s" "st_log s2 = log_commit ?up l" "st_disk s2 = d"
    using same_rest_fields [of ?s1 s2] by simp_all
  moreover have "rep_log ?s1 (ops @ [(lsn, SPut r)]) []" using ap(3) [where s' = "s\<lparr> st_urls := mput ?k ?loc (st_urls s) \<rparr>" and upTo = ?up] by (simp add: rep_log_def)
  ultimately have "rep v0 s2 (ops @ [(lsn, SPut r)]) []"
    using rv rep_log_same_rest by (auto simp: rep_def rep_view_def do_op_proj)
  moreover have up: "?up = off + length (entry_bytes ?e)"
    using frame_bytes_length [of 16 "URLKey_Bytes ?k" "encodeURL r"] op_entry_ok [OF ok, of lsn]
    by (simp add: entry_bytes_def entry_ok_def encodeURL_length)
  moreover note ap(4) [of ?up] ap(5) [of ?up] ap(6) ap(7) [of ?up] ap(8) [OF _ up]
  ultimately show ?thesis using f unfolding s2_def [symmetric] log_kept_def flushed_def by auto
qed

lemma DeleteURL_rep:
  assumes "rep v0 s ops []"
  shows "\<exists>lsn. rep v0 (DeleteURL k s) (ops @ [(lsn, SDel k)]) [] \<and> log_kept s (DeleteURL k s) \<and> flushed (DeleteURL k s)"
proof -
  let ?v = "do_ops (map snd ops) v0"
  obtain d l off lsn where a: "log_append (st_disk s) (st_log s) (kindURL OR tombBit) 16 (URLKey_Bytes k) [] = (d, l, off, lsn)"
    by (metis prod_cases4)
  let ?e = "op_entry (lsn, SDel k)" and ?up = "off + frameHeaderSize + 16 + 4"
  have ok: "sop_ok (SDel k)" by simp
  have a': "log_append (st_disk s) (st_log s) (en_kind ?e) (en_klen ?e) (en_key ?e) (en_val ?e) = (d, l, off, lsn)" using a by simp
  have rl: "rep_log s ops []" and rv: "rep_view s (op_entries ops) ?v" using assms(1) by (simp_all add: rep_def)
  note ap = log_append_entry [OF rl ok a' refl]
  let ?loc = "\<lparr> ul_off = off, ul_lsn = lsn, ul_rec = None, ul_tomb = True \<rparr>"
  let ?es = "op_entries ops @ [?e]"
  have s': "DeleteURL k s = s\<lparr> st_disk := d, st_log := log_commit ?up l, st_urls := mput k ?loc (st_urls s) \<rparr>"
    using a by (simp add: DeleteURL_def Let_def)
  have "urls_rep ?es (mput k ?loc (st_urls s)) ((fst ?v)(k := None))"
    using urls_rep_del [OF urls_rep_mono, of "op_entries ops" "st_urls s" "fst ?v" ?loc "[?e]" k] rv by (simp add: rep_view_def)
  moreover have "evict_ok ?es (mput k ?loc (st_urls s)) (st_evictQ s)"
    using evict_ok_put [OF evict_ok_mono, of "op_entries ops" "st_urls s" "st_evictQ s" ?loc "[?e]" k] rv by (simp add: rep_view_def)
  moreover have "rep_log (DeleteURL k s) (ops @ [(lsn, SDel k)]) []"
    unfolding s' using ap(3) [where s' = "s\<lparr> st_urls := mput k ?loc (st_urls s) \<rparr>" and upTo = ?up] by (simp add: rep_log_def)
  ultimately have rp: "rep v0 (DeleteURL k s) (ops @ [(lsn, SDel k)]) []"
    using rv by (simp add: rep_def rep_view_def do_op_proj s')
  have up: "?up = off + length (entry_bytes ?e)"
    using frame_bytes_length [of 16 "URLKey_Bytes k" "[]"] op_entry_ok [OF ok, of lsn] by (simp add: entry_bytes_def entry_ok_def)
  have "log_kept s (DeleteURL k s)" "flushed (DeleteURL k s)"
    using ap(4) [of ?up] ap(5) [of ?up] ap(6) ap(7) [of ?up] ap(8) [OF _ up] unfolding s' log_kept_def flushed_def by simp_all
  with rp show ?thesis by blast
qed

lemma Store_PutHost_rep:
  assumes "rep v0 s ops []" "host_ok h"
  shows "\<exists>lsn. rep v0 (snd (Store_PutHost h s)) (ops @ [(lsn, SHost h)]) [] \<and> log_kept s (snd (Store_PutHost h s))
     \<and> flushed (snd (Store_PutHost h s))"
proof -
  let ?k = "h_HostKey h" and ?v = "do_ops (map snd ops) v0"
  obtain d l off lsn where a: "log_append (st_disk s) (st_log s) kindHost 8 (putU64 ?k) (encodeHost h) = (d, l, off, lsn)"
    by (metis prod_cases4)
  let ?e = "op_entry (lsn, SHost h)" and ?up = "off + frameHeaderSize + 8 + hostValueSize + 4"
  have ok: "sop_ok (SHost h)" using assms(2) by simp
  have a': "log_append (st_disk s) (st_log s) (en_kind ?e) (en_klen ?e) (en_key ?e) (en_val ?e) = (d, l, off, lsn)" using a by simp
  have rl: "rep_log s ops []" and rv: "rep_view s (op_entries ops) ?v" using assms(1) by (simp_all add: rep_def)
  note ap = log_append_entry [OF rl ok a' refl]
  let ?loc = "\<lparr> hl_off = off, hl_lsn = lsn, hl_rec = h, hl_tomb = False \<rparr>" and ?es = "op_entries ops @ [?e]"
  have s': "snd (Store_PutHost h s) = s\<lparr> st_disk := d, st_log := log_commit ?up l, st_hosts := mput ?k ?loc (st_hosts s) \<rparr>"
    using a by (simp add: Store_PutHost_def Let_def)
  have "hosts_rep (mput ?k ?loc (st_hosts s)) ((fst (snd ?v))(?k \<mapsto> h))" using rv by (simp add: rep_view_def hosts_rep_def)
  moreover have "urls_rep ?es (st_urls s) (fst ?v)" "evict_ok ?es (st_urls s) (st_evictQ s)"
    using rv urls_rep_mono evict_ok_mono by (auto simp: rep_view_def)
  moreover have "rep_log (snd (Store_PutHost h s)) (ops @ [(lsn, SHost h)]) []"
    unfolding s' using ap(3) [where s' = "s\<lparr> st_hosts := mput ?k ?loc (st_hosts s) \<rparr>" and upTo = ?up] by (simp add: rep_log_def)
  ultimately have rp: "rep v0 (snd (Store_PutHost h s)) (ops @ [(lsn, SHost h)]) []"
    using rv by (simp add: rep_def rep_view_def do_op_proj s')
  have up: "?up = off + length (entry_bytes ?e)"
    using frame_bytes_length [of 8 "putU64 ?k" "encodeHost h"] op_entry_ok [OF ok, of lsn] assms(2)
    by (simp add: entry_bytes_def entry_ok_def encodeHost_length host_ok_def)
  have "log_kept s (snd (Store_PutHost h s))" "flushed (snd (Store_PutHost h s))"
    using ap(4) [of ?up] ap(5) [of ?up] ap(6) ap(7) [of ?up] ap(8) [OF _ up] unfolding s' log_kept_def flushed_def by simp_all
  with rp show ?thesis by blast
qed

lemma Intern_rep:
  assumes "rep v0 s ops []" "str \<noteq> []" "length (uvarint (length str) @ bytes_of str) < 2 ^ 32"
  shows "\<exists>lsn. rep v0 (snd (Intern str s)) (ops @ [(lsn, SIntern (uvarint (length str) @ bytes_of str))]) [] \<and> log_kept s (snd (Intern str s))"
proof -
  let ?b = "uvarint (length str) @ bytes_of str" and ?v = "do_ops (map snd ops) v0"
  obtain d l off lsn where a: "log_append (st_disk s) (st_log s) kindIntern 0 [] ?b = (d, l, off, lsn)"
    by (metis prod_cases4)
  let ?e = "op_entry (lsn, SIntern ?b)" and ?es = "op_entries ops @ [op_entry (lsn, SIntern ?b)]"
  have ok: "sop_ok (SIntern ?b)" using assms(3) by simp
  have a': "log_append (st_disk s) (st_log s) (en_kind ?e) (en_klen ?e) (en_key ?e) (en_val ?e) = (d, l, off, lsn)" using a by simp
  have rl: "rep_log s ops []" and rv: "rep_view s (op_entries ops) ?v" using assms(1) by (simp_all add: rep_def)
  note ap = log_append_entry [OF rl ok a' refl]
  have c: "log_commit 0 l = l" by (simp add: log_commit_def fsync_def)
  have s': "snd (Intern str s) = s\<lparr> st_arena := st_arena s @ ?b, st_disk := d, st_log := l \<rparr>"
    using a assms(2) by (simp add: Intern_def Let_def)
  have "urls_rep ?es (st_urls s) (fst ?v)" "evict_ok ?es (st_urls s) (st_evictQ s)"
    using rv urls_rep_mono evict_ok_mono by (auto simp: rep_view_def)
  moreover have "rep_log (snd (Intern str s)) (ops @ [(lsn, SIntern ?b)]) []"
    unfolding s' using ap(3) [where s' = "s\<lparr> st_arena := st_arena s @ ?b \<rparr>" and upTo = 0] by (simp add: rep_log_def c)
  ultimately have "rep v0 (snd (Intern str s)) (ops @ [(lsn, SIntern ?b)]) []"
    using rv by (simp add: rep_def rep_view_def do_op_proj s')
  moreover have "log_kept s (snd (Intern str s))"
    using ap(4) [of 0] ap(5) [of 0] ap(6) ap(7) [of 0] unfolding s' log_kept_def c by simp
  ultimately show ?thesis by blast
qed

text \<open>A read answers from the view, and at most loads and evicts bodies.\<close>

lemma GetURL_rep:
  assumes "rep v0 s ops junk"
  shows "\<exists>s'. GetURL k s = Some (fst (do_ops (map snd ops) v0) k, s') \<and> rep v0 s' ops junk \<and> same_rest s s'"
proof -
  let ?v = "do_ops (map snd ops) v0" and ?es = "op_entries ops"
  have rl: "rep_log s ops junk" and u: "urls_rep ?es (st_urls s) (fst ?v)" and q: "evict_ok ?es (st_urls s) (st_evictQ s)"
    and rest: "hosts_rep (st_hosts s) (fst (snd ?v))" "st_arena s = snd (snd ?v)" using assms by (simp_all add: rep_def rep_view_def)
  show ?thesis
  proof (cases "mget (st_urls s) k")
    case None
    then have "fst ?v k = None" using u by (auto simp: urls_rep_def loc_rep_def dest: spec [of _ k])
    then show ?thesis using None assms by (simp add: GetURL_def same_rest_refl)
  next
    case (Some loc)
    show ?thesis
    proof (cases "ul_tomb loc")
      case True
      then have "fst ?v k = None" using u Some by (auto simp: urls_rep_def loc_rep_def dest: spec [of _ k])
      then show ?thesis using Some True assms by (simp add: GetURL_def same_rest_refl)
    next
      case False
      from urls_rep_live [OF u Some False] obtain r where r: "fst ?v k = Some r" "loc_holds ?es k loc r" by blast
      show ?thesis
      proof (cases "ul_rec loc")
        case (Some r')
        then have "r' = r" using r(2) by (simp add: loc_holds_def)
        then show ?thesis using \<open>mget (st_urls s) k = Some loc\<close> False Some r assms by (simp add: GetURL_def same_rest_refl)
      next
        case None
        then have b: "backed ?es (ul_off loc) r" and ok: "url_ok r" "u_URLKey r = k" using r(2) by (simp_all add: loc_holds_def)
        have "file_of (st_disk s) (lg_name (st_log s)) = log_bytes ?es @ junk" using rl by (simp add: rep_log_def)
        from read_backed [OF b this] obtain kind klen ky where
          rd: "log_readAt (st_disk s) (st_log s) (ul_off loc) = Inr (kind, klen, ky, encodeURL r)" by blast
        have dc: "decodeURL k (encodeURL r) = Some r" using decode_encode_URL [OF ok(1)] ok(2) by simp
        let ?loc = "loc\<lparr> ul_rec := Some r \<rparr>"
        let ?s1 = "s\<lparr> st_urls := mput k ?loc (st_urls s) \<rparr>"
        have "loc_holds ?es k ?loc r" using ok by (simp add: loc_holds_def)
        from urls_rep_put [OF u this] False r(1) have u1: "urls_rep ?es (st_urls ?s1) (fst ?v)" by (simp add: fun_upd_idem)
        have q1: "evict_ok ?es (st_urls ?s1) (st_evictQ ?s1 @ [k])" using q b by (auto simp: evict_ok_def)
        note tr = trackResident_ok [OF u1 q1]
        have g: "GetURL k s = Some (Some r, trackResident k ?s1)"
          using Some False None rd dc by (simp add: GetURL_def)
        have sr: "same_rest s (trackResident k ?s1)" using tr same_rest_trans [OF same_rest_upd(4)] by blast
        have "rep v0 (trackResident k ?s1) ops junk"
          using tr rep_log_same_rest [OF sr rl] rest same_rest_fields(1,2) [OF sr] by (simp add: rep_def rep_view_def)
        then show ?thesis using g r(1) sr by simp
      qed
    qed
  qed
qed

section \<open>Sequences of client calls\<close>

datatype cop = CPut URLRecord | CDel URLKey | CHost HostRecord | CIntern string | CGet URLKey

fun exec :: "cop \<Rightarrow> Store \<Rightarrow> Store option" where
  "exec (CPut r) s = Some (snd (Store_PutURL r s))"
| "exec (CDel k) s = Some (DeleteURL k s)"
| "exec (CHost h) s = Some (snd (Store_PutHost h s))"
| "exec (CIntern str) s = Some (snd (Intern str s))"
| "exec (CGet k) s = map_option snd (GetURL k s)"

fun run :: "cop list \<Rightarrow> Store \<Rightarrow> Store option" where
  "run [] s = Some s"
| "run (c # cs) s = do { s' \<leftarrow> exec c s; run cs s' }"

fun cop_ok :: "cop \<Rightarrow> bool" where
  "cop_ok (CPut r) = url_ok r"
| "cop_ok (CDel k) = True"
| "cop_ok (CHost h) = host_ok h"
| "cop_ok (CIntern str) = (length (uvarint (length str) @ bytes_of str) < 2 ^ 32)"
| "cop_ok (CGet k) = True"

fun writes1 :: "cop \<Rightarrow> sop list" where
  "writes1 (CPut r) = [SPut r]"
| "writes1 (CDel k) = [SDel k]"
| "writes1 (CHost h) = [SHost h]"
| "writes1 (CIntern str) = (if str = [] then [] else [SIntern (uvarint (length str) @ bytes_of str)])"
| "writes1 (CGet k) = []"

definition writes :: "cop list \<Rightarrow> sop list" where
  "writes cs = concat (map writes1 cs)"

text \<open>The calls that return only after a commit.\<close>

fun commits :: "cop \<Rightarrow> bool" where
  "commits (CIntern str) = False"
| "commits (CGet k) = False"
| "commits c = True"

text \<open>What a client sees.\<close>

definition store_view :: "Store \<Rightarrow> sview" where
  "store_view s = (\<lambda>k. case GetURL k s of Some (r, _) \<Rightarrow> r | None \<Rightarrow> None, \<lambda>k. GetHost k s, st_arena s)"

lemma writes_simps [simp]: "writes [] = []" "writes (c # cs) = writes1 c @ writes cs" "writes (cs @ ds) = writes cs @ writes ds"
  by (simp_all add: writes_def)

lemma store_view_rep:
  assumes "rep v0 s ops junk"
  shows "store_view s = do_ops (map snd ops) v0"
proof -
  have "fst (store_view s) k = fst (do_ops (map snd ops) v0) k" for k
    using GetURL_rep [OF assms, of k] by (auto simp: store_view_def)
  moreover have "fst (snd (store_view s)) = fst (snd (do_ops (map snd ops) v0))" "snd (snd (store_view s)) = snd (snd (do_ops (map snd ops) v0))"
    using assms by (auto simp: store_view_def rep_def rep_view_def hosts_rep_def GetHost_def fun_eq_iff)
  ultimately show ?thesis by (simp add: prod_eq_iff fun_eq_iff)
qed

lemma log_kept_refl: "same_rest s s' \<Longrightarrow> log_kept s s'"
  by (simp add: log_kept_def same_rest_fields)

lemma log_kept_trans: "log_kept s t \<Longrightarrow> log_kept t u \<Longrightarrow> log_kept s u"
  by (simp add: log_kept_def)

lemma exec_rep:
  assumes "rep v0 s ops []" "cop_ok c"
  shows "\<exists>s' new. exec c s = Some s' \<and> rep v0 s' (ops @ new) [] \<and> map snd new = writes1 c \<and> log_kept s s' \<and> (commits c \<longrightarrow> flushed s')"
proof (cases c)
  case (CPut r)
  from Store_PutURL_rep [OF assms(1), of r] assms(2) CPut obtain lsn where
    "rep v0 (snd (Store_PutURL r s)) (ops @ [(lsn, SPut r)]) []" "log_kept s (snd (Store_PutURL r s))" "flushed (snd (Store_PutURL r s))" by auto
  then show ?thesis using CPut by (intro exI [of _ "snd (Store_PutURL r s)"] exI [of _ "[(lsn, SPut r)]"]) simp
next
  case (CDel k)
  from DeleteURL_rep [OF assms(1), of k] obtain lsn where
    "rep v0 (DeleteURL k s) (ops @ [(lsn, SDel k)]) []" "log_kept s (DeleteURL k s)" "flushed (DeleteURL k s)" by auto
  then show ?thesis using CDel by (intro exI [of _ "DeleteURL k s"] exI [of _ "[(lsn, SDel k)]"]) simp
next
  case (CHost h)
  from Store_PutHost_rep [OF assms(1), of h] assms(2) CHost obtain lsn where
    "rep v0 (snd (Store_PutHost h s)) (ops @ [(lsn, SHost h)]) []" "log_kept s (snd (Store_PutHost h s))" "flushed (snd (Store_PutHost h s))" by auto
  then show ?thesis using CHost by (intro exI [of _ "snd (Store_PutHost h s)"] exI [of _ "[(lsn, SHost h)]"]) simp
next
  case (CIntern str)
  show ?thesis
  proof (cases "str = []")
    case True
    then show ?thesis using CIntern assms(1) log_kept_refl [OF same_rest_refl] by (intro exI [of _ s] exI [of _ "[]"]) (simp add: Intern_def)
  next
    case False
    from Intern_rep [OF assms(1) False] assms(2) CIntern obtain lsn where
      "rep v0 (snd (Intern str s)) (ops @ [(lsn, SIntern (uvarint (length str) @ bytes_of str))]) []" "log_kept s (snd (Intern str s))" by auto
    then show ?thesis using CIntern False
      by (intro exI [of _ "snd (Intern str s)"] exI [of _ "[(lsn, SIntern (uvarint (length str) @ bytes_of str))]"]) simp
  qed
next
  case (CGet k)
  from GetURL_rep [OF assms(1), of k] obtain s' where
    "GetURL k s = Some (fst (do_ops (map snd ops) v0) k, s')" "rep v0 s' ops []" "same_rest s s'" by blast
  then show ?thesis using CGet log_kept_refl by (intro exI [of _ s'] exI [of _ "[]"]) simp
qed

text \<open>The bytes of the writes of the calls up to a committing one.\<close>

definition synced_to :: "Store \<Rightarrow> (u64 \<times> sop) list \<Rightarrow> nat \<Rightarrow> bool" where
  "synced_to s ops n \<longleftrightarrow> length (log_bytes (op_entries (take n ops))) \<le> lg_synced (st_log s)"

lemma run_rep:
  assumes "rep v0 s ops []" "list_all cop_ok cs"
  shows "\<exists>s' new. run cs s = Some s' \<and> rep v0 s' (ops @ new) [] \<and> map snd new = writes cs \<and> log_kept s s'
     \<and> (lg_dur (st_log s) = DurabilityFull \<longrightarrow>
          (\<forall>ds c es. cs = ds @ c # es \<and> commits c \<longrightarrow> synced_to s' (ops @ new) (length ops + length (writes (ds @ [c])))))"
  using assms
proof (induction cs arbitrary: s ops)
  case Nil
  then show ?case using log_kept_refl [OF same_rest_refl, of s] by (intro exI [of _ s] exI [of _ "[]"]) simp
next
  case (Cons c cs)
  from exec_rep [OF Cons.prems(1), of c] Cons.prems(2) obtain s1 new1 where
    e: "exec c s = Some s1" "rep v0 s1 (ops @ new1) []" "map snd new1 = writes1 c" "log_kept s s1" "commits c \<longrightarrow> flushed s1" by auto
  from Cons.IH [OF e(2)] Cons.prems(2) obtain s' new where
    r: "run cs s1 = Some s'" "rep v0 s' ((ops @ new1) @ new) []" "map snd new = writes cs" "log_kept s1 s'"
      "lg_dur (st_log s1) = DurabilityFull \<longrightarrow>
          (\<forall>ds d es. cs = ds @ d # es \<and> commits d \<longrightarrow> synced_to s' ((ops @ new1) @ new) (length (ops @ new1) + length (writes (ds @ [d]))))" by auto
  have len: "length (writes1 c) = length new1" using e(3) by (metis length_map)
  have "synced_to s' (ops @ new1 @ new) (length ops + length (writes (ds @ [d])))"
    if full: "lg_dur (st_log s) = DurabilityFull" and sp: "c # cs = ds @ d # es" "commits d" for ds d es
  proof (cases ds)
    case Nil
    then have "d = c" using sp(1) by simp
    have "lg_synced (st_log s1) = lg_off (st_log s1)" using e(4,5) full sp(2) \<open>d = c\<close> by (simp add: flushed_def log_kept_def)
    also have "\<dots> = length (log_bytes (op_entries (ops @ new1)))" using e(2) by (simp add: rep_def rep_log_def)
    finally have "length (log_bytes (op_entries (ops @ new1))) \<le> lg_synced (st_log s')" using r(4) by (simp add: log_kept_def)
    then show ?thesis using Nil \<open>d = c\<close> len by (simp add: synced_to_def del: op_entries_simps(4))
  next
    case (Cons x ds')
    then have "cs = ds' @ d # es" "x = c" using sp(1) by simp_all
    then have "synced_to s' ((ops @ new1) @ new) (length (ops @ new1) + length (writes (ds' @ [d])))"
      using r(5) e(4) full sp(2) by (auto simp: log_kept_def)
    then show ?thesis using Cons \<open>x = c\<close> len by (simp add: add.assoc)
  qed
  then show ?case using e(1) r(1-4) e(3) log_kept_trans [OF e(4) r(4)]
    by (intro exI [of _ s'] exI [of _ "new1 @ new"]) auto
qed

end
