(* ===== verification/StoreRecover.thy ===== *)
theory StoreRecover
  imports StoreProps
begin

unbundle bit_operations_syntax

text \<open>
  Reopening a store: recovery from the log alone and from a checkpoint, after a crash that cut the log at
  any point past what was synced, and what a torn tail and an eviction do to the promises of the store.
\<close>

section \<open>Redoing the entries of writes\<close>

lemma kind_masks:
  "kindURL AND kindMask = kindURL" "(kindURL OR tombBit) AND kindMask = kindURL" "kindHost AND kindMask = kindHost"
  "kindIntern AND kindMask = kindIntern" "kindURL AND tombBit = 0" "(kindURL OR tombBit) AND tombBit \<noteq> 0" "kindHost AND tombBit = 0"
  "kindURL \<noteq> kindIntern" "kindHost \<noteq> kindIntern" "kindHost \<noteq> kindURL" "tombBit \<noteq> 0"
  by (simp_all add: kindURL_def kindHost_def kindIntern_def kindMask_def tombBit_def)

lemma hostLoc_overwrite:
  "x\<lparr> hl_rec := a, hl_tomb := b, hl_off := c, hl_lsn := e \<rparr> = \<lparr> hl_off = c, hl_lsn = e, hl_rec = a, hl_tomb = b \<rparr>"
  by (cases x) simp

lemma redo_frame_op:
  assumes "sop_ok op"
  shows "redo_frame (entry_frame off (op_entry (lsn, op))) s =
     Some (case op of
        SPut r \<Rightarrow> s\<lparr> st_urls := mput (u_URLKey r) \<lparr> ul_off = off, ul_lsn = lsn, ul_rec = Some r, ul_tomb = False \<rparr> (st_urls s) \<rparr>
      | SDel k \<Rightarrow> s\<lparr> st_urls := mput k \<lparr> ul_off = off, ul_lsn = lsn, ul_rec = None, ul_tomb = True \<rparr> (st_urls s) \<rparr>
      | SHost h \<Rightarrow> s\<lparr> st_hosts := mput (h_HostKey h) \<lparr> hl_off = off, hl_lsn = lsn, hl_rec = h, hl_tomb = False \<rparr> (st_hosts s) \<rparr>
      | SIntern b \<Rightarrow> s\<lparr> st_arena := st_arena s @ b \<rparr>)"
  using assms
  by (cases op)
    (simp_all add: redo_frame_def entry_frame_def kind_masks decode_encode_URL decode_encode_Host readU64_putU64 hostLoc_overwrite Let_def split: option.splits)

text \<open>Recovery changes the two tables and the arena only.\<close>

definition tables_only :: "Store \<Rightarrow> Store \<Rightarrow> bool" where
  "tables_only s s' \<longleftrightarrow> (\<exists>u h a. s' = s\<lparr> st_urls := u, st_hosts := h, st_arena := a \<rparr>)"

lemma tables_only_trans: "tables_only s t \<Longrightarrow> tables_only t u \<Longrightarrow> tables_only s u"
  unfolding tables_only_def by (elim exE) (simp, blast)

lemma tables_only_upd: "tables_only s (s\<lparr> st_urls := u \<rparr>)" "tables_only s (s\<lparr> st_hosts := h \<rparr>)" "tables_only s (s\<lparr> st_arena := a \<rparr>)"
  "tables_only s s"
  unfolding tables_only_def by (cases s, simp)+

lemma tables_only_fields:
  assumes "tables_only s s'"
  shows "st_log s' = st_log s" "st_disk s' = st_disk s" "st_dur s' = st_dur s" "st_residentBudget s' = st_residentBudget s"
    "st_gen s' = st_gen s" "st_evictQ s' = st_evictQ s" "st_residentN s' = st_residentN s" "st_logName s' = st_logName s"
    "st_id s' = st_id s" "st_created s' = st_created s" "st_codec s' = st_codec s"
  using assms by (auto simp: tables_only_def)

text \<open>One redone write, on a store without eviction candidates.\<close>

lemma redo_op_view:
  assumes "rep_view s es v" "st_evictQ s = []" "sop_ok op"
  shows "\<exists>s'. redo_frame (entry_frame off (op_entry (lsn, op))) s = Some s' \<and> rep_view s' es (do_op op v) \<and> tables_only s s'"
proof (cases op)
  case (SPut r)
  let ?loc = "\<lparr> ul_off = off, ul_lsn = lsn, ul_rec = Some r, ul_tomb = False \<rparr>"
  have "loc_holds es (u_URLKey r) ?loc r" using assms(3) SPut by (simp add: loc_holds_def)
  then have "urls_rep es (mput (u_URLKey r) ?loc (st_urls s)) ((fst v)(u_URLKey r \<mapsto> r))"
    using urls_rep_put assms(1) by (simp add: rep_view_def)
  then show ?thesis using redo_frame_op [OF assms(3), of off lsn s] assms(1,2) SPut
    by (simp add: rep_view_def do_op_proj evict_ok_def tables_only_upd)
next
  case (SDel k)
  let ?loc = "\<lparr> ul_off = off, ul_lsn = lsn, ul_rec = None, ul_tomb = True \<rparr>"
  have "urls_rep es (mput k ?loc (st_urls s)) ((fst v)(k := None))"
    using urls_rep_del [of es "st_urls s" "fst v" ?loc k] assms(1) by (simp add: rep_view_def)
  then show ?thesis using redo_frame_op [OF assms(3), of off lsn s] assms(1,2) SDel
    by (simp add: rep_view_def do_op_proj evict_ok_def tables_only_upd)
next
  case (SHost h)
  then show ?thesis using redo_frame_op [OF assms(3), of off lsn s] assms(1)
    by (simp add: rep_view_def do_op_proj hosts_rep_def tables_only_upd)
next
  case (SIntern b)
  then show ?thesis using redo_frame_op [OF assms(3), of off lsn s] assms(1)
    by (simp add: rep_view_def do_op_proj tables_only_upd)
qed

lemma redo_ops_view:
  assumes "rep_view s es v" "st_evictQ s = []" "list_all (\<lambda>(n, op). sop_ok op) ops"
  shows "\<exists>s'. redo_frames (frames_of off (op_entries ops)) s = Some s' \<and> rep_view s' es (do_ops (map snd ops) v) \<and> tables_only s s'"
  using assms
proof (induction ops arbitrary: off s v)
  case Nil
  then show ?case by (simp add: tables_only_upd)
next
  case (Cons p ops)
  obtain lsn op where p: "p = (lsn, op)" by fastforce
  have ok: "sop_ok op" "list_all (\<lambda>(n, op). sop_ok op) ops" using Cons.prems(3) p by simp_all
  from redo_op_view [OF Cons.prems(1,2) ok(1)] obtain s1 where
    s1: "redo_frame (entry_frame off (op_entry (lsn, op))) s = Some s1" "rep_view s1 es (do_op op v)" "tables_only s s1" by blast
  have "st_evictQ s1 = []" using tables_only_fields(6) [OF s1(3)] Cons.prems(2) by simp
  from Cons.IH [OF s1(2) this ok(2)] obtain s' where
    s': "redo_frames (frames_of (off + length (entry_bytes (op_entry p))) (op_entries ops)) s1 = Some s'"
      "rep_view s' es (do_ops (map snd ops) (do_op op v))" "tables_only s1 s'" by blast
  then show ?case using s1(1,3) p tables_only_trans by auto
qed

section \<open>The view a directory opens with\<close>

definition empty_view :: sview where
  "empty_view = (\<lambda>_. None, \<lambda>_. None, [0])"

definition part_view :: "Partition \<Rightarrow> sview" where
  "part_view part = do_ops (map SPut (pt_URLs part) @ map SHost (pt_Hosts part))
     (\<lambda>_. None, \<lambda>_. None, if pt_Strings part \<noteq> [] then pt_Strings part else [0])"

lemma fresh_view: "rep_view (fresh_store d opts) [] empty_view"
  by (simp add: rep_view_def fresh_store_def empty_view_def urls_rep_def loc_rep_def evict_ok_def hosts_rep_def Let_def)

lemma load_urls_rep:
  "urls_rep es m U \<Longrightarrow> list_all url_ok us \<Longrightarrow>
     urls_rep es (foldl (\<lambda>m r. mput (u_URLKey r) \<lparr> ul_off = 0, ul_lsn = 0, ul_rec = Some r, ul_tomb = False \<rparr> m) m us)
       (foldl (\<lambda>U r. U(u_URLKey r \<mapsto> r)) U us)"
proof (induction us arbitrary: m U)
  case (Cons r us)
  let ?loc = "\<lparr> ul_off = 0, ul_lsn = 0, ul_rec = Some r, ul_tomb = False \<rparr>"
  have "loc_holds es (u_URLKey r) ?loc r" using Cons.prems(2) by (simp add: loc_holds_def)
  then have "urls_rep es (mput (u_URLKey r) ?loc m) (U(u_URLKey r \<mapsto> r))" using urls_rep_put Cons.prems(1) by simp
  from Cons.IH [OF this] Cons.prems(2) show ?case by simp
qed simp

lemma load_hosts_rep:
  "hosts_rep m H \<Longrightarrow> hosts_rep (foldl (\<lambda>m h. mput (h_HostKey h) \<lparr> hl_off = 0, hl_lsn = 0, hl_rec = h, hl_tomb = False \<rparr> m) m hs)
     (foldl (\<lambda>H h. H(h_HostKey h \<mapsto> h)) H hs)"
proof (induction hs arbitrary: m H)
  case (Cons h hs)
  have "hosts_rep (mput (h_HostKey h) \<lparr> hl_off = 0, hl_lsn = 0, hl_rec = h, hl_tomb = False \<rparr> m) (H(h_HostKey h \<mapsto> h))"
    using Cons.prems by (simp add: hosts_rep_def)
  from Cons.IH [OF this] show ?case by simp
qed simp

lemma do_puts:
  "do_ops (map SPut us) v = (foldl (\<lambda>U r. U(u_URLKey r \<mapsto> r)) (fst v) us, snd v)"
  "do_ops (map SHost hs) v = (fst v, foldl (\<lambda>H h. H(h_HostKey h \<mapsto> h)) (fst (snd v)) hs, snd (snd v))"
proof -
  show "do_ops (map SPut us) v = (foldl (\<lambda>U r. U(u_URLKey r \<mapsto> r)) (fst v) us, snd v)"
    by (induction us arbitrary: v) (simp_all add: do_op_proj)
  show "do_ops (map SHost hs) v = (fst v, foldl (\<lambda>H h. H(h_HostKey h \<mapsto> h)) (fst (snd v)) hs, snd (snd v))"
    by (induction hs arbitrary: v) (simp_all add: do_op_proj)
qed

lemma load_snapshot_view:
  assumes "rep_view s es empty_view" "list_all url_ok (pt_URLs part)" "st_evictQ s = []"
  shows "rep_view (load_snapshot part s) es (part_view part)"
  using load_urls_rep [OF _ assms(2), of es "st_urls s" "\<lambda>_. None"] load_hosts_rep [of "st_hosts s" "\<lambda>_. None" "pt_Hosts part"] assms(1,3)
  by (simp add: rep_view_def load_snapshot_def part_view_def do_puts empty_view_def evict_ok_def)

text \<open>The view and the log name that a directory determines.\<close>

definition disk_base :: "(u8 list \<Rightarrow> Partition option) \<Rightarrow> disk \<Rightarrow> sview \<Rightarrow> string \<Rightarrow> bool" where
  "disk_base dec d v name \<longleftrightarrow>
     (readSuperblock d superName = Some (Inl ErrNoCheckpoint) \<and> v = empty_view \<and> name = ''log-1'')
     \<or> (\<exists>m img part. readSuperblock d superName = Some (Inr m) \<and> cm_snapshot m \<noteq> [] \<and> mget d (cm_snapshot m) = Some img
          \<and> dec img = Some part \<and> list_all url_ok (pt_URLs part) \<and> v = part_view part
          \<and> name = cm_logName m \<and> name \<noteq> superName \<and> name \<noteq> cm_snapshot m)"

lemma disk_base_name: "disk_base dec d v name \<Longrightarrow> name \<noteq> superName"
  by (auto simp: disk_base_def superName_def)

lemma readSuperblock_cong: "mget d p = mget d' p \<Longrightarrow> readSuperblock d p = readSuperblock d' p"
  by (simp add: readSuperblock_def)

text \<open>It does not depend on the content of the log.\<close>

lemma disk_base_log:
  assumes "disk_base dec d v name" "\<And>k. k \<noteq> name \<Longrightarrow> mget d' k = mget d k"
  shows "disk_base dec d' v name"
proof -
  have "mget d' superName = mget d superName" using assms(2) disk_base_name [OF assms(1)] by metis
  then have r: "readSuperblock d' superName = readSuperblock d superName" by (rule readSuperblock_cong)
  show ?thesis using assms unfolding disk_base_def r by metis
qed

section \<open>Opening\<close>

lemma replay_tail_ok:
  assumes "rep_view s1 [] v" "st_evictQ s1 = []"
    "file_of (st_disk s1) name = log_bytes (op_entries ops) @ junk" "replay 0 (file_of (st_disk s1) name) = frames_of 0 (op_entries ops)"
    "list_all (\<lambda>(n, op). sop_ok op) ops"
  shows "\<exists>s. replay_tail name fnt s1 = Some s \<and> rep v s ops junk \<and> lg_name (st_log s) = name \<and> lg_dur (st_log s) = st_dur s1
     \<and> st_disk s = mput name (file_of (st_disk s1) name) (st_disk s1)
     \<and> st_residentBudget s = st_residentBudget s1 \<and> st_dur s = st_dur s1 \<and> st_gen s = st_gen s1 \<and> st_evictQ s = []
     \<and> lg_synced (st_log s) = lg_off (st_log s)"
proof -
  let ?b = "file_of (st_disk s1) name"
  let ?l = "\<lparr> lg_name = name, lg_off = length ?b, lg_nextLSN = 1, lg_written = length ?b, lg_synced = length ?b, lg_dur = st_dur s1 \<rparr>"
  let ?d = "mput name ?b (st_disk s1)"
  have o: "openLog (st_disk s1) name (st_dur s1) = (?d, ?l)" by (simp add: openLog_def Let_def)
  have f: "file_of ?d name = ?b" by (simp add: file_of_def)
  let ?s = "s1\<lparr> st_disk := ?d, st_log := ?l \<rparr>"
  have "rep_view ?s [] v" "st_evictQ ?s = []" using assms(1,2) by (simp_all add: rep_view_def)
  from redo_ops_view [OF this assms(5)] obtain s2 where
    s2: "redo_frames (frames_of 0 (op_entries ops)) ?s = Some s2" "rep_view s2 [] (do_ops (map snd ops) v)" "tables_only ?s s2" by blast
  note t = tables_only_fields [OF s2(3)]
  let ?s2 = "s2\<lparr> st_log := setLSN (max fnt (max_lsn (frames_of 0 (op_entries ops)) + 1)) (st_log s2) \<rparr>"
  have "rep_view ?s2 (op_entries ops) (do_ops (map snd ops) v)"
    using s2(2) urls_rep_mono [of "[]" _ _ "op_entries ops"] evict_ok_mono [of "[]" _ _ "op_entries ops"] by (simp add: rep_view_def)
  moreover have "rep_log ?s2 ops junk"
    using assms(3,5) f by (simp add: rep_log_def t setLSN_def)
  moreover have "replay_tail name fnt s1 = Some ?s2" using s2(1) assms(4) o f by (simp add: replay_tail_def)
  ultimately show ?thesis using t assms(2) by (intro exI [of _ ?s2]) (simp add: rep_def setLSN_def)
qed

text \<open>Opening a directory succeeds and gives the view of its snapshot with the intact frames of its log redone.\<close>

lemma Open_rep:
  assumes "disk_base dec d v name" "file_of d name = log_bytes (op_entries ops) @ junk"
    "replay 0 (file_of d name) = frames_of 0 (op_entries ops)" "list_all (\<lambda>(n, op). sop_ok op) ops"
  shows "\<exists>s. Open dec d opts = Some (Inr s) \<and> rep v s ops junk \<and> lg_name (st_log s) = name
     \<and> st_disk s = mput name (file_of d name) d \<and> st_residentBudget s = op_ResidentBudget opts
     \<and> lg_dur (st_log s) = (if op_Durability opts = DurabilityNone then DurabilityNormal else op_Durability opts)
     \<and> st_dur s = lg_dur (st_log s) \<and> st_evictQ s = [] \<and> lg_synced (st_log s) = lg_off (st_log s)"
proof -
  let ?dur = "if op_Durability opts = DurabilityNone then DurabilityNormal else op_Durability opts"
  have fr: "rep_view (fresh_store d opts) [] empty_view" by (rule fresh_view)
  have ff: "st_disk (fresh_store d opts) = d" "st_evictQ (fresh_store d opts) = []" "st_dur (fresh_store d opts) = ?dur"
    "st_residentBudget (fresh_store d opts) = op_ResidentBudget opts" by (simp_all add: fresh_store_def Let_def)
  have go: "\<exists>s. replay_tail name fnt s1 = Some s \<and> rep v s ops junk \<and> lg_name (st_log s) = name \<and> st_disk s = mput name (file_of d name) d
      \<and> st_residentBudget s = op_ResidentBudget opts \<and> lg_dur (st_log s) = ?dur \<and> st_dur s = lg_dur (st_log s) \<and> st_evictQ s = [] \<and> lg_synced (st_log s) = lg_off (st_log s)"
    if s1: "rep_view s1 [] v" "st_evictQ s1 = []" "st_disk s1 = d" "st_dur s1 = ?dur" "st_residentBudget s1 = op_ResidentBudget opts" for s1 fnt
  proof -
    have "file_of (st_disk s1) name = log_bytes (op_entries ops) @ junk" "replay 0 (file_of (st_disk s1) name) = frames_of 0 (op_entries ops)"
      using assms(2,3) s1(3) by simp_all
    from replay_tail_ok [OF s1(1,2) this assms(4), of fnt] obtain s where "replay_tail name fnt s1 = Some s" "rep v s ops junk"
      "lg_name (st_log s) = name" "lg_dur (st_log s) = st_dur s1" "st_disk s = mput name (file_of (st_disk s1) name) (st_disk s1)"
      "st_residentBudget s = st_residentBudget s1" "st_dur s = st_dur s1" "st_evictQ s = []"
      "lg_synced (st_log s) = lg_off (st_log s)" by blast
    then show ?thesis by (intro exI [of _ s]) (simp only: s1 simp_thms)
  qed
  from assms(1) show ?thesis unfolding disk_base_def
  proof (elim disjE exE conjE)
    assume c: "readSuperblock d superName = Some (Inl ErrNoCheckpoint)" "v = empty_view" "name = ''log-1''"
    let ?s = "(fresh_store d opts)\<lparr> st_gen := 0, st_logName := ''log-1'' \<rparr>"
    have "rep_view ?s [] v" using fr c(2) by (simp add: rep_view_def)
    from go [OF this, of 1] ff obtain s where s: "replay_tail name 1 ?s = Some s" "rep v s ops junk" "lg_name (st_log s) = name" "st_disk s = mput name (file_of d name) d"
      "st_residentBudget s = op_ResidentBudget opts" "lg_dur (st_log s) = ?dur" "st_dur s = lg_dur (st_log s)" "st_evictQ s = []"
      "lg_synced (st_log s) = lg_off (st_log s)" by auto
    have "Open dec d opts = Some (Inr s)" using c s(1) by (simp add: Open_def Store_recover_def)
    with s(2-) show ?thesis by blast
  next
    fix m img part
    assume c: "readSuperblock d superName = Some (Inr m)" "cm_snapshot m \<noteq> []" "mget d (cm_snapshot m) = Some img"
      "dec img = Some part" "list_all url_ok (pt_URLs part)" "v = part_view part" "name = cm_logName m"
    let ?s0 = "(fresh_store d opts)\<lparr> st_gen := cm_gen m, st_logName := cm_logName m \<rparr>"
    have "rep_view ?s0 [] empty_view" "st_evictQ ?s0 = []" using fr ff(2) by (simp_all add: rep_view_def)
    from load_snapshot_view [OF this(1) c(5) this(2)] have "rep_view (load_snapshot part ?s0) [] v" using c(6) by simp
    moreover have "st_evictQ (load_snapshot part ?s0) = []" "st_disk (load_snapshot part ?s0) = d" "st_dur (load_snapshot part ?s0) = ?dur"
      "st_residentBudget (load_snapshot part ?s0) = op_ResidentBudget opts" using ff by (simp_all add: load_snapshot_def)
    ultimately obtain s where s: "replay_tail name (cm_frontier m) (load_snapshot part ?s0) = Some s" "rep v s ops junk" "lg_name (st_log s) = name"
      "st_disk s = mput name (file_of d name) d"
      "st_residentBudget s = op_ResidentBudget opts" "lg_dur (st_log s) = ?dur" "st_dur s = lg_dur (st_log s)" "st_evictQ s = []"
      "lg_synced (st_log s) = lg_off (st_log s)"
      using go [of "load_snapshot part ?s0" "cm_frontier m"] by auto
    have "Open dec d opts = Some (Inr s)" using c s(1) ff(1) by (simp add: Open_def Store_recover_def)
    with s(2-) show ?thesis by blast
  qed
qed

section \<open>A clean directory\<close>

text \<open>A directory whose log ends with a whole frame, and the view it opens with.\<close>

definition clean_dir :: "(u8 list \<Rightarrow> Partition option) \<Rightarrow> disk \<Rightarrow> sview \<Rightarrow> bool" where
  "clean_dir dec d v \<longleftrightarrow> (\<exists>v0 name ops. disk_base dec d v0 name \<and> file_of d name = log_bytes (op_entries ops)
     \<and> list_all (\<lambda>(n, op). sop_ok op) ops \<and> v = do_ops (map snd ops) v0)"

lemma replay_clean: "list_all (\<lambda>(n, op). sop_ok op) ops \<Longrightarrow> replay 0 (log_bytes (op_entries ops)) = frames_of 0 (op_entries ops)"
  using replay_entries [OF op_entries_ok, of ops 0 "[]"] by simp

lemma fresh_dir_clean: "clean_dir dec [] empty_view"
  unfolding clean_dir_def
  by (rule exI [of _ empty_view], rule exI [of _ "''log-1''"], rule exI [of _ "[]"])
    (simp add: disk_base_def readSuperblock_def file_of_def)

lemma Open_clean:
  assumes "clean_dir dec d v"
  obtains s v0 ops where "Open dec d opts = Some (Inr s)" "rep v0 s ops []" "v = do_ops (map snd ops) v0"
    "disk_base dec (st_disk s) v0 (lg_name (st_log s))" "st_residentBudget s = op_ResidentBudget opts"
    "lg_dur (st_log s) = (if op_Durability opts = DurabilityNone then DurabilityNormal else op_Durability opts)"
    "lg_synced (st_log s) = length (log_bytes (op_entries ops))"
    "\<And>k. k \<noteq> lg_name (st_log s) \<Longrightarrow> mget (st_disk s) k = mget d k"
proof -
  from assms obtain v0 name ops where c: "disk_base dec d v0 name" "file_of d name = log_bytes (op_entries ops)"
    "list_all (\<lambda>(n, op). sop_ok op) ops" "v = do_ops (map snd ops) v0" by (auto simp: clean_dir_def)
  have "file_of d name = log_bytes (op_entries ops) @ []" "replay 0 (file_of d name) = frames_of 0 (op_entries ops)"
    using c(2) replay_clean [OF c(3)] by simp_all
  from Open_rep [OF c(1) this c(3), of opts] obtain s where
    s: "Open dec d opts = Some (Inr s)" "rep v0 s ops []" "lg_name (st_log s) = name" "st_disk s = mput name (file_of d name) d"
      "st_residentBudget s = op_ResidentBudget opts"
      "lg_dur (st_log s) = (if op_Durability opts = DurabilityNone then DurabilityNormal else op_Durability opts)"
      "lg_synced (st_log s) = lg_off (st_log s)" by blast
  have k: "mget (st_disk s) k = mget d k" if "k \<noteq> lg_name (st_log s)" for k using s(3,4) that by simp
  have "disk_base dec (st_disk s) v0 (lg_name (st_log s))" using disk_base_log [OF c(1)] k unfolding s(3) by blast
  moreover have "lg_synced (st_log s) = length (log_bytes (op_entries ops))" using s(2,7) by (simp add: rep_def rep_log_def)
  ultimately show ?thesis using that [OF s(1,2) c(4)] s(5,6) k by blast
qed

text \<open>C9: Whatever is put, deleted, interned and read after opening a clean directory, and however small the
  resident budget, no call fails and the store answers as the two maps and the arena do; and the
  directory it leaves is clean, so closing and reopening gives the same answers.\<close>

theorem store_refines_maps:
  assumes "clean_dir dec d v" "list_all cop_ok cs"
  shows "\<exists>s0 s. Open dec d opts = Some (Inr s0) \<and> run cs s0 = Some s \<and> store_view s = do_ops (writes cs) v
     \<and> clean_dir dec (st_disk s) (do_ops (writes cs) v)"
proof -
  from Open_clean [OF assms(1), of opts] obtain s0 v0 ops where o: "Open dec d opts = Some (Inr s0)" "rep v0 s0 ops []"
    "v = do_ops (map snd ops) v0" "disk_base dec (st_disk s0) v0 (lg_name (st_log s0))" by blast
  from run_rep [OF o(2) assms(2)] obtain s new where r: "run cs s0 = Some s" "rep v0 s (ops @ new) []" "map snd new = writes cs" "log_kept s0 s" by blast
  have v: "store_view s = do_ops (writes cs) v" using store_view_rep [OF r(2)] r(3) o(3) by simp
  have "disk_base dec (st_disk s) v0 (lg_name (st_log s))" using disk_base_log [OF o(4)] r(4) by (auto simp: log_kept_def)
  moreover have "file_of (st_disk s) (lg_name (st_log s)) = log_bytes (op_entries (ops @ new))" "list_all (\<lambda>(n, op). sop_ok op) (ops @ new)"
    using r(2) by (simp_all add: rep_def rep_log_def)
  ultimately have "clean_dir dec (st_disk s) (do_ops (map snd (ops @ new)) v0)" unfolding clean_dir_def by blast
  then show ?thesis using o(1,3) r(1,3) v by auto
qed

section \<open>Crashes\<close>

lemma take_log_bytes: "\<exists>junk. take k (log_bytes es) = log_bytes (whole_entries k es) @ junk"
proof (induction es arbitrary: k)
  case (Cons e es)
  then show ?case by (cases "length (entry_bytes e) \<le> k") auto
qed simp

text \<open>The writes whose frames survive a cut are a prefix, and contain every write that lies before it.\<close>

lemma cut_prefix:
  "\<exists>N \<le> length all. whole_entries k (op_entries all) = op_entries (take N all)
     \<and> (\<forall>j \<le> length all. length (log_bytes (op_entries (take j all))) \<le> k \<longrightarrow> j \<le> N)"
proof -
  from whole_entries_prefix [of k "op_entries all"] obtain N0 where N0: "whole_entries k (op_entries all) = take N0 (op_entries all)" by blast
  define N where "N = min N0 (length all)"
  have N: "whole_entries k (op_entries all) = op_entries (take N all)" "N \<le> length all"
    unfolding op_entries_simps(4) N0 N_def by (simp_all add: min_def op_entries_def)
  have "j \<le> N" if "length (log_bytes (op_entries (take j all))) \<le> k" "j \<le> length all" for j
  proof -
    have sp: "op_entries (take j all) @ op_entries (drop j all) = op_entries all"
      by (simp only: op_entries_simps(3) [symmetric] append_take_drop_id)
    have "op_entries (take N all) = op_entries (take j all)
        @ whole_entries (k - length (log_bytes (op_entries (take j all)))) (op_entries (drop j all))"
      using whole_entries_keeps [OF that(1), of "op_entries (drop j all)"] unfolding sp N(1) .
    then have "length (op_entries (take j all)) \<le> length (op_entries (take N all))" by simp
    then show ?thesis using N(2) that(2) by (simp add: op_entries_def)
  qed
  then show ?thesis using N by blast
qed

text \<open>C3: For a store opened on a clean directory, one whose log ends with a whole frame (a fresh directory, or
  one left by a close, a checkpoint or a run of calls): a crash that cuts the log anywhere behind what was
  synced loses only a suffix of the writes.  Reopening succeeds and gives the state after a prefix of the
  calls' writes; under full durability that prefix contains the writes of every call that had returned
  from a put or a delete.  A store opened on a log with a torn tail is outside this: it appends behind the
  torn frame, and what it acknowledges is lost at the next open (\<^verbatim>\<open>torn_tail_swallows_writes\<close>).\<close>

theorem crash_keeps_acknowledged_writes:
  assumes "clean_dir dec d v" "list_all cop_ok cs" "Open dec d opts = Some (Inr s0)" "run cs s0 = Some s"
    "lg_synced (st_log s) \<le> k" "\<And>x. x \<noteq> lg_name (st_log s) \<Longrightarrow> mget d' x = mget (st_disk s) x"
    "file_of d' (lg_name (st_log s)) = take k (file_of (st_disk s) (lg_name (st_log s)))"
  shows "\<exists>n s'. Open dec d' opts' = Some (Inr s') \<and> store_view s' = do_ops (take n (writes cs)) v
     \<and> (op_Durability opts = DurabilityFull \<longrightarrow> (\<forall>ds c es. cs = ds @ c # es \<and> commits c \<longrightarrow> length (writes (ds @ [c])) \<le> n))"
proof -
  from Open_clean [OF assms(1), of opts] obtain t v0 ops where t: "Open dec d opts = Some (Inr t)" "rep v0 t ops []"
    "v = do_ops (map snd ops) v0" "disk_base dec (st_disk t) v0 (lg_name (st_log t))"
    "lg_dur (st_log t) = (if op_Durability opts = DurabilityNone then DurabilityNormal else op_Durability opts)"
    "lg_synced (st_log t) = length (log_bytes (op_entries ops))" by blast
  have "t = s0" using t(1) assms(3) by simp
  note o = t(2-) [unfolded this]
  from run_rep [OF o(1) assms(2)] assms(4) obtain new where r: "rep v0 s (ops @ new) []" "map snd new = writes cs" "log_kept s0 s"
    "lg_dur (st_log s0) = DurabilityFull \<longrightarrow>
          (\<forall>ds c es. cs = ds @ c # es \<and> commits c \<longrightarrow> synced_to s (ops @ new) (length ops + length (writes (ds @ [c]))))" by auto
  let ?all = "ops @ new" and ?name = "lg_name (st_log s)"
  have f: "file_of (st_disk s) ?name = log_bytes (op_entries ?all)" and ok: "list_all (\<lambda>(n, op). sop_ok op) ?all"
    using r(1) by (simp_all add: rep_def rep_log_def)
  from cut_prefix [of ?all k] obtain N where N: "whole_entries k (op_entries ?all) = op_entries (take N ?all)" "N \<le> length ?all"
    and keep: "\<And>j. j \<le> length ?all \<Longrightarrow> length (log_bytes (op_entries (take j ?all))) \<le> k \<Longrightarrow> j \<le> N" by blast
  have okN: "list_all (\<lambda>(n, op). sop_ok op) (take N ?all)" using ok by (auto simp: list_all_iff dest: in_set_takeD)
  have "replay 0 (file_of d' ?name) = frames_of 0 (op_entries (take N ?all))"
    unfolding assms(7) f replay_cut [OF op_entries_ok [OF ok]] N(1) ..
  moreover from take_log_bytes [of k "op_entries ?all"] obtain junk where "file_of d' ?name = log_bytes (op_entries (take N ?all)) @ junk"
    unfolding assms(7) f N(1) by blast
  moreover have "disk_base dec d' v0 ?name"
  proof (rule disk_base_log)
    show "disk_base dec (st_disk s0) v0 ?name" using o(3) r(3) by (simp add: log_kept_def)
    show "mget d' x = mget (st_disk s0) x" if "x \<noteq> ?name" for x using assms(6) [OF that] r(3) that by (simp add: log_kept_def)
  qed
  ultimately obtain s' where s': "Open dec d' opts' = Some (Inr s')" "rep v0 s' (take N ?all) junk"
    using Open_rep [OF _ _ _ okN] by blast
  have base: "length ops \<le> N" using o(5) r(3) assms(5) by (intro keep) (simp_all add: log_kept_def del: op_entries_simps(4))
  have "store_view s' = do_ops (take (N - length ops) (writes cs)) v"
    using store_view_rep [OF s'(2)] base o(2) r(2) by (simp add: take_map [symmetric])
  moreover have "length (writes (ds @ [c])) \<le> N - length ops"
    if "op_Durability opts = DurabilityFull" "cs = ds @ c # es" "commits c" for ds c es
  proof -
    have "lg_dur (st_log s0) = DurabilityFull" using o(4) that(1) by simp
    then have "synced_to s ?all (length ops + length (writes (ds @ [c])))" using r(4) that(2,3) by blast
    then have "length (log_bytes (op_entries (take (length ops + length (writes (ds @ [c]))) ?all))) \<le> k"
      using assms(5) unfolding synced_to_def by (rule le_trans)
    moreover have "length (writes (ds @ [c])) \<le> length new" using arg_cong [OF r(2), of length] that(2) by simp
    ultimately have "length ops + length (writes (ds @ [c])) \<le> N" by (intro keep) simp_all
    then show ?thesis by simp
  qed
  ultimately show ?thesis using s'(1) by blast
qed

section \<open>Concrete stores\<close>

definition demo_row :: URLRecord where
  "demo_row = zeroURL (URLKey 1 2)"

definition demo_opts :: Options where
  "demo_opts = \<lparr> op_Durability = DurabilityFull, op_ResidentBudget = 1, op_PartitionID = 7, op_CreatedHours = 0 \<rparr>"

definition demo_calls :: "cop list" where
  "demo_calls = [CPut demo_row, CPut (zeroURL (URLKey 1 3)), CGet (URLKey 1 2), CDel (URLKey 1 3)]"

lemma demo_row_ok [simp]: "url_ok demo_row" "u_URLKey demo_row = URLKey 1 2"
  by (simp_all add: demo_row_def url_ok_def zeroURL_def, code_simp)

lemma demo_calls_ok: "list_all cop_ok demo_calls"
  by (simp add: demo_calls_def) (simp add: url_ok_def zeroURL_def, code_simp)

lemma demo_view: "fst (do_ops (writes demo_calls) empty_view) (URLKey 1 2) = Some demo_row"
  "fst (do_ops (writes demo_calls) empty_view) (URLKey 1 3) = None"
  by (simp_all add: demo_calls_def do_op_proj zeroURL_def)

theorem store_refines_maps_witness:
  "\<exists>s0 s. Open (\<lambda>_. None) [] demo_opts = Some (Inr s0) \<and> run demo_calls s0 = Some s
     \<and> fst (store_view s) (URLKey 1 2) = Some demo_row \<and> fst (store_view s) (URLKey 1 3) = None"
  using store_refines_maps [OF fresh_dir_clean demo_calls_ok, of "\<lambda>_. None" demo_opts] demo_view by auto

theorem crash_keeps_acknowledged_writes_witness:
  "\<exists>s0 s s'. Open (\<lambda>_. None) [] demo_opts = Some (Inr s0) \<and> run [CPut demo_row, CIntern ''x''] s0 = Some s
     \<and> Open (\<lambda>_. None) (mput (lg_name (st_log s)) (take (lg_synced (st_log s)) (file_of (st_disk s) (lg_name (st_log s)))) (st_disk s)) demo_opts
         = Some (Inr s')
     \<and> fst (store_view s') (URLKey 1 2) = Some demo_row"
proof -
  let ?cs = "[CPut demo_row, CIntern ''x'']" and ?dec = "\<lambda>_ :: u8 list. None :: Partition option"
  have ok: "list_all cop_ok ?cs" by (simp add: uvarint.simps bytes_of_def)
  obtain s0 v0 ops where o: "Open ?dec [] demo_opts = Some (Inr s0)" "rep v0 s0 ops []"
    by (rule Open_clean [OF fresh_dir_clean, of ?dec demo_opts])
  from run_rep [OF o(2) ok] obtain s where r: "run ?cs s0 = Some s" by blast
  let ?d = "mput (lg_name (st_log s)) (take (lg_synced (st_log s)) (file_of (st_disk s) (lg_name (st_log s)))) (st_disk s)"
  have "mget ?d x = mget (st_disk s) x" if "x \<noteq> lg_name (st_log s)" for x using that by simp
  moreover have "file_of ?d (lg_name (st_log s)) = take (lg_synced (st_log s)) (file_of (st_disk s) (lg_name (st_log s)))"
    by (simp add: file_of_def)
  ultimately obtain n s' where c: "Open ?dec ?d demo_opts = Some (Inr s')" "store_view s' = do_ops (take n (writes ?cs)) empty_view"
    "op_Durability demo_opts = DurabilityFull \<longrightarrow> (\<forall>ds c es. ?cs = ds @ c # es \<and> commits c \<longrightarrow> length (writes (ds @ [c])) \<le> n)"
    using crash_keeps_acknowledged_writes [OF fresh_dir_clean ok o(1) r order.refl, of ?d demo_opts] by blast
  have "1 \<le> n" using c(3) by (auto simp: demo_opts_def dest: spec [of _ "[]"])
  then have "fst (store_view s') (URLKey 1 2) = Some demo_row"
    unfolding c(2) by (cases n) (auto simp: do_op_proj take_Cons' )
  then show ?thesis using o(1) r c(1) by blast
qed

end
