(* ===== verification/StoreCheckpoint.thy ===== *)
theory StoreCheckpoint
  imports StoreRecover
begin

unbundle bit_operations_syntax

text \<open>
  The checkpoint of the store: the tables stay well formed, the snapshot holds exactly what the store
  answers, and the directory a checkpoint leaves opens with the same answers.  Two defects follow: a row
  that was evicted before a checkpoint is no longer readable after it, and a log that ended in a torn
  frame swallows what is written after the next opening.
\<close>

section \<open>Well-formed tables\<close>

text \<open>Every key once, every resident row and every live host under its own key, no row behind a tombstone,
  and an arena that is not empty.\<close>

definition hosts_wf :: "(u64, hostLoc) gomap \<Rightarrow> bool" where
  "hosts_wf m \<longleftrightarrow> distinct (map fst m) \<and> (\<forall>k loc. mget m k = Some loc \<and> \<not> hl_tomb loc \<longrightarrow> h_HostKey (hl_rec loc) = k)"

definition urls_wf :: "(URLKey, urlLoc) gomap \<Rightarrow> bool" where
  "urls_wf m \<longleftrightarrow> distinct (map fst m)
     \<and> (\<forall>k loc r. mget m k = Some loc \<and> ul_rec loc = Some r \<longrightarrow> u_URLKey r = k \<and> \<not> ul_tomb loc)"

definition store_wf :: "Store \<Rightarrow> bool" where
  "store_wf s \<longleftrightarrow> urls_wf (st_urls s) \<and> hosts_wf (st_hosts s) \<and> st_arena s \<noteq> []"

lemma hosts_wf_put: "hosts_wf m \<Longrightarrow> (\<not> hl_tomb loc \<Longrightarrow> h_HostKey (hl_rec loc) = k) \<Longrightarrow> hosts_wf (mput k loc m)"
  by (auto simp: hosts_wf_def distinct_mput)

lemma urls_wf_put: "urls_wf m \<Longrightarrow> (\<And>r. ul_rec loc = Some r \<Longrightarrow> u_URLKey r = k \<and> \<not> ul_tomb loc) \<Longrightarrow> urls_wf (mput k loc m)"
  by (auto simp: urls_wf_def distinct_mput)

lemma urls_wf_row: "urls_wf m \<Longrightarrow> urls_wf (mput (u_URLKey r) \<lparr> ul_off = x, ul_lsn = n, ul_rec = Some r, ul_tomb = False \<rparr> m)"
  by (rule urls_wf_put) simp_all

lemma urls_wf_evicted: "urls_wf m \<Longrightarrow> urls_wf (mput k (loc\<lparr> ul_rec := None \<rparr>) m)"
  by (rule urls_wf_put) simp_all

lemma store_wf_evict: "store_wf s \<Longrightarrow> store_wf (evict_loop q s)"
  by (induction q s rule: evict_loop.induct) (auto simp: store_wf_def urls_wf_evicted split: option.splits)

lemma store_wf_track: "store_wf s \<Longrightarrow> store_wf (trackResident k s)"
  unfolding trackResident_def by (simp add: store_wf_evict) (rule impI, rule store_wf_evict, simp add: store_wf_def)

lemma store_wf_put:
  "store_wf s \<Longrightarrow> (\<And>r. ul_rec loc = Some r \<Longrightarrow> u_URLKey r = k \<and> \<not> ul_tomb loc) \<Longrightarrow>
   store_wf (s\<lparr> st_disk := d, st_log := l, st_urls := mput k loc (st_urls s) \<rparr>)"
  by (simp add: store_wf_def urls_wf_put)

lemma decodeURL_key: "decodeURL k b = Some r \<Longrightarrow> u_URLKey r = k"
  by (auto simp: decodeURL_def bind_eq_Some_conv)

lemma exec_wf:
  assumes "store_wf s" "exec c s = Some s'"
  shows "store_wf s'"
proof (cases c)
  case (CPut r)
  then show ?thesis using assms
    by (auto simp: Store_PutURL_def Let_def intro!: store_wf_track store_wf_put split: prod.splits)
next
  case (CDel k)
  then show ?thesis using assms by (auto simp: DeleteURL_def Let_def intro!: store_wf_put split: prod.splits)
next
  case (CHost h)
  then show ?thesis using assms by (auto simp: Store_PutHost_def Let_def store_wf_def intro!: hosts_wf_put split: prod.splits)
next
  case (CIntern str)
  then show ?thesis using assms by (auto simp: Intern_def Let_def store_wf_def split: if_splits prod.splits)
next
  case (CGet k)
  have "store_wf (s\<lparr> st_urls := mput k (loc\<lparr> ul_rec := Some r \<rparr>) (st_urls s) \<rparr>)" if "u_URLKey r = k" "\<not> ul_tomb loc" for loc r
    using assms(1) that by (auto simp: store_wf_def intro!: urls_wf_put)
  then show ?thesis using assms CGet store_wf_track decodeURL_key
    by (auto simp: GetURL_def bind_eq_Some_conv split: option.splits if_splits sum.splits)
qed

lemma run_wf: "store_wf s \<Longrightarrow> run cs s = Some s' \<Longrightarrow> store_wf s'"
  by (induction cs arbitrary: s) (auto simp: bind_eq_Some_conv dest: exec_wf)

lemma decodeHost_key: "decodeHost k b = Some h \<Longrightarrow> h_HostKey h = k"
  by (auto simp: decodeHost_def bind_eq_Some_conv)

lemma redo_frame_wf: "store_wf s \<Longrightarrow> redo_frame fr s = Some s' \<Longrightarrow> store_wf s'"
  by (auto simp: redo_frame_def Let_def store_wf_def bind_eq_Some_conv intro!: hosts_wf_put urls_wf_put split: if_splits)
    (erule decodeURL_key decodeHost_key)+

lemma redo_frames_wf: "store_wf s \<Longrightarrow> redo_frames frs s = Some s' \<Longrightarrow> store_wf s'"
  by (induction frs arbitrary: s) (auto simp: bind_eq_Some_conv dest: redo_frame_wf)

lemma load_snapshot_wf:
  assumes "store_wf s"
  shows "store_wf (load_snapshot part s)"
proof -
  have "urls_wf m \<Longrightarrow>
      urls_wf (foldl (\<lambda>m r. mput (u_URLKey r) \<lparr> ul_off = 0, ul_lsn = 0, ul_rec = Some r, ul_tomb = False \<rparr> m) m us)" for m us
    by (induction us arbitrary: m) (simp_all add: urls_wf_row)
  moreover have "hosts_wf m \<Longrightarrow>
      hosts_wf (foldl (\<lambda>m h. mput (h_HostKey h) \<lparr> hl_off = 0, hl_lsn = 0, hl_rec = h, hl_tomb = False \<rparr> m) m hs)" for m hs
    by (induction hs arbitrary: m) (simp_all add: hosts_wf_put)
  ultimately show ?thesis using assms by (simp add: store_wf_def load_snapshot_def)
qed

text \<open>Opening gives well-formed tables whatever the directory holds, and the generation of its checkpoint.\<close>

lemma replay_tail_wf: "store_wf s \<Longrightarrow> replay_tail name fnt s = Some s' \<Longrightarrow> store_wf s'"
  by (auto simp: replay_tail_def Let_def openLog_def bind_eq_Some_conv store_wf_def [of "_\<lparr> st_log := _ \<rparr>"]
      dest!: redo_frames_wf [rotated] simp flip: store_wf_def)


lemma fresh_wf: "store_wf (fresh_store d opts)"
  by (simp add: store_wf_def hosts_wf_def urls_wf_def fresh_store_def Let_def)

lemma store_wf_gen: "store_wf (s\<lparr> st_gen := g, st_logName := n \<rparr>) = store_wf s"
  by (simp add: store_wf_def)

lemma Store_recover_wf: "store_wf s0 \<Longrightarrow> Store_recover dec m s0 = Some (Inr s) \<Longrightarrow> store_wf s"
  by (auto simp: Store_recover_def Let_def store_wf_gen intro: load_snapshot_wf elim!: replay_tail_wf [rotated] split: if_splits option.splits)

lemma Open_wf: "Open dec d opts = Some (Inr s) \<Longrightarrow> store_wf s"
  by (cases "readSuperblock d superName")
    (auto simp: Open_def split: sum.splits if_splits intro: Store_recover_wf [OF fresh_wf])

lemma redo_frames_gen: "redo_frames frs s = Some s' \<Longrightarrow> st_gen s' = st_gen s"
proof (induction frs arbitrary: s)
  case (Cons fr frs)
  have "redo_frame fr s = Some t \<Longrightarrow> st_gen t = st_gen s" for t
    by (auto simp: redo_frame_def Let_def bind_eq_Some_conv split: if_splits)
  then show ?case using Cons by (auto simp: bind_eq_Some_conv)
qed simp

lemma Store_recover_gen: "Store_recover dec m s0 = Some (Inr s) \<Longrightarrow> st_gen s = cm_gen m"
  by (auto simp: Store_recover_def replay_tail_def Let_def openLog_def bind_eq_Some_conv load_snapshot_def dest!: redo_frames_gen
      split: if_splits option.splits)

lemma Open_gen:
  "Open dec d opts = Some (Inr s) \<Longrightarrow> readSuperblock d superName = Some r \<Longrightarrow> st_gen s = (case r of Inl e \<Rightarrow> 0 | Inr m \<Rightarrow> cm_gen m)"
  by (auto simp: Open_def dest!: Store_recover_gen split: sum.splits if_splits)

lemma evict_gen: "st_gen (evict_loop q s) = st_gen s"
  by (induction q s rule: evict_loop.induct) (auto split: option.splits)

lemma exec_gen: "exec c s = Some s' \<Longrightarrow> st_gen s' = st_gen s"
  by (cases c) (auto simp: Store_PutURL_def DeleteURL_def Store_PutHost_def Intern_def GetURL_def trackResident_def Let_def evict_gen
      bind_eq_Some_conv split: prod.splits if_splits option.splits sum.splits)

lemma run_gen: "run cs s = Some s' \<Longrightarrow> st_gen s' = st_gen s"
  by (induction cs arbitrary: s) (auto simp: bind_eq_Some_conv dest: exec_gen)

text \<open>Every call that changes a store: the client calls, a robots blob, a checkpoint of the store's own
  tables or of a partition that the caller hands in, and a close.  A checkpoint that fails to encode
  leaves the store as it was.\<close>

datatype acall = ACall cop | ARobots "u8 list" | ACheckpoint | ACheckpointFrom Partition | AClose

definition kept_on_error :: "Store \<Rightarrow> (store_error + Store) option \<Rightarrow> Store option" where
  "kept_on_error s = map_option (case_sum (\<lambda>e. s) id)"

fun exec_any :: "(Partition \<Rightarrow> u8 list option) \<Rightarrow> (u8 list \<Rightarrow> u8 list) \<Rightarrow> acall \<Rightarrow> Store \<Rightarrow> Store option" where
  "exec_any enc zenc (ACall c) s = exec c s"
| "exec_any enc zenc (ARobots blob) s = Some (snd (InternRobots zenc blob s))"
| "exec_any enc zenc ACheckpoint s = kept_on_error s (Store_Checkpoint enc s)"
| "exec_any enc zenc (ACheckpointFrom part) s = kept_on_error s (CheckpointFrom enc part s)"
| "exec_any enc zenc AClose s = Some (Store_Close s)"

fun run_any :: "(Partition \<Rightarrow> u8 list option) \<Rightarrow> (u8 list \<Rightarrow> u8 list) \<Rightarrow> acall list \<Rightarrow> Store \<Rightarrow> Store option" where
  "run_any enc zenc [] s = Some s"
| "run_any enc zenc (c # cs) s = do { s' \<leftarrow> exec_any enc zenc c s; run_any enc zenc cs s' }"

lemma commit_tables:
  "Store_commit enc part s = Some (Inr s') \<Longrightarrow> st_urls s' = st_urls s \<and> st_hosts s' = st_hosts s \<and> st_arena s' = st_arena s"
  by (auto simp: Store_commit_def Let_def bind_eq_Some_conv split: option.splits prod.splits)

lemma commit_wf: "store_wf s \<Longrightarrow> kept_on_error s (Store_commit enc part s) = Some s' \<Longrightarrow> store_wf s'"
  using commit_tables [of enc part s]
  by (cases "Store_commit enc part s") (auto simp: kept_on_error_def store_wf_def split: sum.splits)

lemma exec_any_wf: "store_wf s \<Longrightarrow> exec_any enc zenc c s = Some s' \<Longrightarrow> store_wf s'"
proof (cases c)
  case ACheckpoint
  assume "store_wf s" "exec_any enc zenc c s = Some s'"
  then obtain part where "kept_on_error s (Store_commit enc part s) = Some s'"
    by (auto simp: ACheckpoint Store_Checkpoint_def kept_on_error_def bind_eq_Some_conv)
  then show ?thesis using \<open>store_wf s\<close> commit_wf by blast
next
  case (ARobots blob)
  assume "store_wf s" "exec_any enc zenc c s = Some s'"
  then show ?thesis by (auto simp: ARobots InternRobots_def Let_def store_wf_def split: prod.splits if_splits)
next
  case AClose
  assume "store_wf s" "exec_any enc zenc c s = Some s'"
  then show ?thesis by (auto simp: AClose Store_Close_def store_wf_def)
qed (auto simp: CheckpointFrom_def intro: exec_wf commit_wf)

lemma run_any_wf: "store_wf s \<Longrightarrow> run_any enc zenc cs s = Some s' \<Longrightarrow> store_wf s'"
  by (induction cs arbitrary: s) (auto simp: bind_eq_Some_conv dest: exec_any_wf)

text \<open>C25: However a directory looks, a store opened from it and whatever is called on it, checkpoints and robots
  blobs included, has every key once in each table, every resident row and every live host under its own
  key, no row behind a tombstone, and an arena that is never empty.\<close>

theorem store_tables_well_formed:
  assumes "Open dec d opts = Some (Inr s0)" "run_any enc zenc cs s0 = Some s"
  shows "distinct (map fst (st_urls s)) \<and> distinct (map fst (st_hosts s)) \<and> st_arena s \<noteq> []
     \<and> (\<forall>k loc r. mget (st_urls s) k = Some loc \<and> ul_rec loc = Some r \<longrightarrow> u_URLKey r = k \<and> \<not> ul_tomb loc)
     \<and> (\<forall>k loc. mget (st_hosts s) k = Some loc \<and> \<not> hl_tomb loc \<longrightarrow> h_HostKey (hl_rec loc) = k)"
  using run_any_wf [OF Open_wf [OF assms(1)] assms(2)] unfolding store_wf_def urls_wf_def hosts_wf_def by blast

section \<open>The snapshot is the view\<close>

text \<open>Rows with distinct keys, installed one after the other.\<close>

lemma foldl_upd_Some:
  "distinct (map f xs) \<Longrightarrow> foldl (\<lambda>M x. M(f x \<mapsto> x)) M xs k = Some y \<longleftrightarrow> (y \<in> set xs \<and> f y = k) \<or> (k \<notin> f ` set xs \<and> M k = Some y)"
  by (induction xs arbitrary: M) auto

lemma option_eqI: "(\<And>y. a = Some y \<longleftrightarrow> b = Some y) \<Longrightarrow> a = b"
  by (cases a; cases b) auto

lemma foldl_upd_view:
  assumes "distinct (map f xs)" "\<And>k x. M k = Some x \<longleftrightarrow> x \<in> set xs \<and> f x = k"
  shows "foldl (\<lambda>M x. M(f x \<mapsto> x)) (\<lambda>_. None) xs = M"
proof
  fix k
  have "foldl (\<lambda>M x. M(f x \<mapsto> x)) (\<lambda>_. None) xs k = Some y \<longleftrightarrow> M k = Some y" for y
    unfolding foldl_upd_Some [OF assms(1)] assms(2) by simp
  then show "foldl (\<lambda>M x. M(f x \<mapsto> x)) (\<lambda>_. None) xs k = M k" by (rule option_eqI)
qed

lemma collect_urls_rep:
  assumes "file_of d (lg_name l) = log_bytes es @ junk" "\<And>k loc. (k, loc) \<in> set m \<Longrightarrow> loc_rep es k (Some loc) (U k)"
  shows "collect_urls d l m = Some (map (\<lambda>(k, loc). the (U k)) (filter (\<lambda>(k, loc). \<not> ul_tomb loc) m))"
  using assms(2)
proof (induction m)
  case (Cons p m)
  obtain k loc where p: "p = (k, loc)" by fastforce
  have IH: "collect_urls d l m = Some (map (\<lambda>(k, loc). the (U k)) (filter (\<lambda>(k, loc). \<not> ul_tomb loc) m))"
    using Cons by simp
  show ?case
  proof (cases "ul_tomb loc")
    case False
    from Cons.prems [of k loc] p False obtain r where r: "U k = Some r" "loc_holds es k loc r" by (auto simp: loc_rep_def)
    show ?thesis
    proof (cases "ul_rec loc")
      case None
      then have b: "backed es (ul_off loc) r" "url_ok r" "u_URLKey r = k" using r(2) by (simp_all add: loc_holds_def)
      from read_backed [OF b(1) assms(1)] obtain kind klen key where "log_readAt d l (ul_off loc) = Inr (kind, klen, key, encodeURL r)" by blast
      then show ?thesis using p False None IH r(1) decode_encode_URL [OF b(2)] b(3) by simp
    qed (use p False IH r in \<open>simp add: loc_holds_def\<close>)
  qed (use p IH in simp)
qed simp


text \<open>The snapshot of a store whose index represents a view holds that view.\<close>

lemma sort_key_distinct: "distinct (map f xs) \<Longrightarrow> distinct (map f (sort_key f xs))"
  by (metis distinct_map distinct_sort inj_on_subset set_sort subset_refl)

lemma urls_snapshot:
  assumes "distinct (map fst m)" "urls_rep es m U"
  defines "us \<equiv> map (\<lambda>(k, loc). the (U k)) (filter (\<lambda>(k, loc). \<not> ul_tomb loc) m)"
  shows "distinct (map u_URLKey us)" "U k = Some r \<longleftrightarrow> r \<in> set us \<and> u_URLKey r = k" "list_all url_ok us"
proof -
  have live: "\<exists>r. U k = Some r \<and> url_ok r \<and> u_URLKey r = k" if "(k, loc) \<in> set m" "\<not> ul_tomb loc" for k loc
  proof -
    have "mget m k = Some loc" using that(1) assms(1) by simp
    then show ?thesis using urls_rep_live [OF assms(2) _ that(2)] by (auto simp: loc_holds_def)
  qed
  have keys: "map u_URLKey us = map fst (filter (\<lambda>(k, loc). \<not> ul_tomb loc) m)"
    unfolding us_def map_map by (rule map_cong [OF refl]) (use live in fastforce)
  then show "distinct (map u_URLKey us)" using assms(1) by (simp add: distinct_map_filter)
  show "list_all url_ok us" using live by (fastforce simp: us_def list_all_iff)
  show "U k = Some r \<longleftrightarrow> r \<in> set us \<and> u_URLKey r = k"
  proof
    assume u: "U k = Some r"
    have "loc_rep es k (mget m k) (U k)" using assms(2) by (simp add: urls_rep_def)
    then obtain loc where l: "mget m k = Some loc" "\<not> ul_tomb loc" "u_URLKey r = k"
      using u by (auto simp: loc_rep_def loc_holds_def split: option.splits if_splits)
    then have "(k, loc) \<in> set m" using assms(1) by simp
    then show "r \<in> set us \<and> u_URLKey r = k" using l(2,3) u by (force simp: us_def)
  qed (use live in \<open>fastforce simp: us_def\<close>)
qed

lemma hosts_snapshot:
  assumes "hosts_wf m" "hosts_rep m H"
  defines "hs \<equiv> map (\<lambda>(k, loc). hl_rec loc) (filter (\<lambda>(k, loc). \<not> hl_tomb loc) m)"
  shows "distinct (map h_HostKey hs)" "H k = Some h \<longleftrightarrow> h \<in> set hs \<and> h_HostKey h = k"
proof -
  have d: "distinct (map fst m)" using assms(1) by (simp add: hosts_wf_def)
  have own: "h_HostKey (hl_rec loc) = k" if "(k, loc) \<in> set m" "\<not> hl_tomb loc" for k loc
    using assms(1) that d by (auto simp: hosts_wf_def)
  have keys: "map h_HostKey hs = map fst (filter (\<lambda>(k, loc). \<not> hl_tomb loc) m)"
    unfolding hs_def map_map by (rule map_cong [OF refl]) (use own in auto)
  then show "distinct (map h_HostKey hs)" using d by (simp add: distinct_map_filter)
  have "H k = (case mget m k of None \<Rightarrow> None | Some loc \<Rightarrow> if hl_tomb loc then None else Some (hl_rec loc))"
    using assms(2) by (simp add: hosts_rep_def)
  then have "H k = Some h \<longleftrightarrow> (\<exists>loc. mget m k = Some loc \<and> \<not> hl_tomb loc \<and> hl_rec loc = h)"
    by (cases "mget m k") auto
  then have "H k = Some h \<longleftrightarrow> (\<exists>loc. (k, loc) \<in> set m \<and> \<not> hl_tomb loc \<and> hl_rec loc = h)"
    unfolding mget_iff_set [OF d] .
  then show "H k = Some h \<longleftrightarrow> h \<in> set hs \<and> h_HostKey h = k" using own by (force simp: hs_def)
qed

lemma snapshotPartition_view:
  assumes "rep v0 s ops junk" "store_wf s"
  shows "\<exists>part. snapshotPartition s = Some part \<and> list_all url_ok (pt_URLs part) \<and> part_view part = store_view s"
proof -
  let ?v = "do_ops (map snd ops) v0" and ?es = "op_entries ops"
  have v: "urls_rep ?es (st_urls s) (fst ?v)" "hosts_rep (st_hosts s) (fst (snd ?v))" "st_arena s = snd (snd ?v)"
    and f: "file_of (st_disk s) (lg_name (st_log s)) = log_bytes ?es @ junk"
    using assms(1) by (simp_all add: rep_def rep_view_def rep_log_def)
  have wf: "distinct (map fst (st_urls s))" "hosts_wf (st_hosts s)" "st_arena s \<noteq> []"
    using assms(2) by (simp_all add: store_wf_def urls_wf_def)
  define us where "us = map (\<lambda>(k, loc). the (fst ?v k)) (filter (\<lambda>(k, loc). \<not> ul_tomb loc) (st_urls s))"
  define hs where "hs = map (\<lambda>(k, loc). hl_rec loc) (filter (\<lambda>(k, loc). \<not> hl_tomb loc) (st_hosts s))"
  note u = urls_snapshot [OF wf(1) v(1), folded us_def] and h = hosts_snapshot [OF wf(2) v(2), folded hs_def]
  have "loc_rep ?es k (Some loc) (fst ?v k)" if "(k, loc) \<in> set (st_urls s)" for k loc
    using v(1) that wf(1) unfolding urls_rep_def by (metis mget_iff_set)
  from collect_urls_rep [OF f this] have c: "collect_urls (st_disk s) (st_log s) (st_urls s) = Some us" unfolding us_def by simp
  let ?us = "sort_key u_URLKey us" and ?hs = "sort_key h_HostKey hs"
  define lo hi where "lo = (if ?hs \<noteq> [] then h_HostKey (hd ?hs) else 0)" and "hi = (if ?hs \<noteq> [] then h_HostKey (last ?hs) else - 1)"
  have p: "snapshotPartition s = Some (Pack (st_id s) lo hi (st_created s) (st_codec s) ?us ?hs (st_arena s))"
    unfolding snapshotPartition_def hs_def [symmetric] c lo_def hi_def by (simp add: Let_def)
  have "foldl (\<lambda>U r. U(u_URLKey r \<mapsto> r)) (\<lambda>_. None) ?us = fst ?v"
    using foldl_upd_view [OF sort_key_distinct [OF u(1)], of "fst ?v"] u(2) by simp
  moreover have "foldl (\<lambda>H h. H(h_HostKey h \<mapsto> h)) (\<lambda>_. None) ?hs = fst (snd ?v)"
    using foldl_upd_view [OF sort_key_distinct [OF h(1)], of "fst (snd ?v)"] h(2) by simp
  ultimately have "part_view (Pack (st_id s) lo hi (st_created s) (st_codec s) ?us ?hs (st_arena s)) = ?v"
    using wf(3) v(3) by (simp add: part_view_def Pack_def do_puts prod_eq_iff)
  then show ?thesis using p u(3) store_view_rep [OF assms(1)] by (auto simp: Pack_def list_all_iff)
qed


section \<open>The generated file names\<close>

lemma decimal_not_Nil [simp]: "decimal n \<noteq> []"
  by (subst decimal.simps) simp

lemma digit_inj: "a < 10 \<Longrightarrow> b < 10 \<Longrightarrow> (char_of (48 + a :: nat) = char_of (48 + b)) = (a = b)"
  by (auto simp: char_of_eq_iff take_bit_nat_def)

lemma decimal_inj: "decimal m = decimal n \<Longrightarrow> m = n"
proof (induction m arbitrary: n rule: decimal.induct)
  case (1 m)
  show ?case
  proof (cases "m < 10")
    case True
    then have m: "decimal m = [char_of (48 + m)]" by (simp add: decimal.simps [of m])
    then have "n < 10" using 1(2) by (cases "n < 10") (simp_all add: decimal.simps [of n])
    then show ?thesis using True 1(2) m by (simp add: decimal.simps [of n] digit_inj)
  next
    case False
    then have m: "decimal m = decimal (m div 10) @ [char_of (48 + m mod 10)]" by (simp add: decimal.simps [of m])
    then have "length (decimal n) > 1" using 1(2) by (cases "decimal (m div 10)") simp_all
    then have n: "\<not> n < 10" by (cases "n < 10") (simp_all add: decimal.simps [of n])
    then have "decimal (m div 10) = decimal (n div 10)" "char_of (48 + m mod 10) = char_of (48 + n mod 10)"
      using 1(2) m by (simp_all add: decimal.simps [of n])
    then have "m div 10 = n div 10" "m mod 10 = n mod 10" using 1(1) False by (simp_all add: digit_inj)
    then show ?thesis by (metis div_mult_mod_eq)
  qed
qed

lemma decimal_length: "n < 10 ^ Suc k \<Longrightarrow> length (decimal n) \<le> Suc k"
proof (induction k arbitrary: n)
  case (Suc k)
  have "length (decimal (n div 10)) \<le> Suc k" using Suc.prems by (intro Suc.IH) (simp add: div_less_iff_less_mult)
  then show ?case by (subst decimal.simps) simp
qed (simp add: decimal.simps)

lemma file_names:
  "snapFile g \<noteq> logFile h" "superName \<noteq> snapFile g" "superName \<noteq> logFile h" "(snapFile g = snapFile h) = (g = h)" "snapFile g \<noteq> []"
  by (auto simp: snapFile_def logFile_def superName_def dest!: decimal_inj iffD2 [OF word_unat_eq_iff])

lemma generated_meta_fits:
  "meta_fits \<lparr> cm_gen = g, cm_frontier = n, cm_arenaLen = a, cm_snapshot = snapFile h, cm_logName = logFile i \<rparr>"
proof -
  have "length (decimal (unat x)) \<le> Suc 19" for x :: u64 using unat_lt_2p64 [of x] by (intro decimal_length) simp
  from this [of h] this [of i] show ?thesis by (simp add: meta_fits_def snapFile_def logFile_def slotSize_def)
qed


lemma gen_grows: "g \<noteq> - 1 \<Longrightarrow> g < g + 1" for g :: u64
proof -
  assume "g \<noteq> - 1"
  then have "g + 1 \<noteq> 0" by (metis add.commute add_eq_0_iff minus_minus)
  then have "unat (g + 1) = unat g + 1" using unatSuc [of g] by (simp add: add.commute)
  then show ?thesis by (simp add: word_less_nat_alt)
qed

section \<open>The checkpoint\<close>

text \<open>What a commit leaves: the superblock names the new snapshot and a log that is empty if its file was.\<close>

lemma Store_commit_files:
  assumes "enc part = Some img" "readSuperblock (st_disk s) superName = Some r" "\<forall>old. r = Inr old \<longrightarrow> cm_gen old < st_gen s + 1"
    "file_of (st_disk s) (logFile (st_gen s + 2)) = []"
  shows "\<exists>s' m. Store_commit enc part s = Some (Inr s') \<and> readSuperblock (st_disk s') superName = Some (Inr m)
     \<and> cm_snapshot m = snapFile (st_gen s + 1) \<and> cm_logName m = logFile (st_gen s + 2)
     \<and> mget (st_disk s') (cm_snapshot m) = Some img \<and> file_of (st_disk s') (cm_logName m) = []
     \<and> lg_name (st_log s') = cm_logName m \<and> st_urls s' = st_urls s"
proof -
  let ?g = "st_gen s + 1" and ?snap = "snapFile (st_gen s + 1)" and ?nl = "logFile (st_gen s + 2)"
  let ?m = "\<lparr> cm_gen = ?g, cm_frontier = peekLSN (st_log s), cm_arenaLen = of_nat (length (pt_Strings part)), cm_snapshot = ?snap, cm_logName = ?nl \<rparr>"
  define d2 where "d2 = mput ?nl [] (mput ?snap img (st_disk s))"
  have n: "?nl = logFile (?g + 1)" by (simp add: add.assoc)
  have o: "openLog (mput ?snap img (st_disk s)) ?nl (st_dur s)
      = (d2, \<lparr> lg_name = ?nl, lg_off = 0, lg_nextLSN = 1, lg_written = 0, lg_synced = 0, lg_dur = st_dur s \<rparr>)"
    using assms(4) file_names(1) [THEN not_sym] by (simp add: openLog_def file_of_def d2_def Let_def)
  have "readSuperblock d2 superName = readSuperblock (st_disk s) superName"
    using file_names by (intro readSuperblock_cong) (simp add: d2_def)
  then have "readSuperblock d2 superName = Some r" using assms(2) by simp
  from superblock_publish [OF this generated_meta_fits, of ?g] assms(3) obtain b where
    b: "writeSuperblock d2 superName ?m = Some (mput superName b d2)" "readSuperblock (mput superName b d2) superName = Some (Inr ?m)"
    by (metis checkpointMeta.select_convs(1))
  let ?d4 = "mdel (logFile ?g) (mput superName b d2)"
  define d5 where "d5 = (if ?g > 1 then mdel (snapFile (?g - 1)) ?d4 else ?d4)"
  let ?s' = "s\<lparr> st_log := setLSN (peekLSN (st_log s)) \<lparr> lg_name = ?nl, lg_off = 0, lg_nextLSN = 1, lg_written = 0, lg_synced = 0, lg_dur = st_dur s \<rparr>,
    st_logName := ?nl, st_gen := ?g, st_disk := d5 \<rparr>"
  have c: "Store_commit enc part s = Some (Inr ?s')"
    using assms(1) o b(1) unfolding Store_commit_def n Let_def by (simp add: d5_def)
  have "mget d5 superName = mget (mput superName b d2) superName" using file_names by (simp add: d5_def)
  then have "readSuperblock d5 superName = Some (Inr ?m)" using b(2) readSuperblock_cong by metis
  moreover have "mget d5 ?snap = Some img" using file_names file_names(2) [THEN not_sym] by (simp add: d5_def d2_def)
  moreover have "file_of d5 ?nl = []" using file_names file_names(3) [THEN not_sym] by (simp add: d5_def d2_def file_of_def)
  ultimately show ?thesis using c by (intro exI [of _ ?s'] exI [of _ ?m]) (simp add: setLSN_def)
qed


text \<open>The superblock of a directory does not change between checkpoints, and its generation is the store's.\<close>

lemma run_superblock:
  assumes "clean_dir dec d v" "list_all cop_ok cs" "Open dec d opts = Some (Inr s0)" "run cs s0 = Some s"
  obtains v0 ops r where "rep v0 s ops []" "store_wf s" "readSuperblock (st_disk s) superName = Some r"
    "\<And>old. r = Inr old \<Longrightarrow> cm_gen old = st_gen s"
proof -
  obtain t v0 ops where t: "Open dec d opts = Some (Inr t)" "rep v0 t ops []" "disk_base dec (st_disk t) v0 (lg_name (st_log t))"
    "\<And>k. k \<noteq> lg_name (st_log t) \<Longrightarrow> mget (st_disk t) k = mget d k" by (rule Open_clean [OF assms(1), of opts]) blast
  have ts: "t = s0" using t(1) assms(3) by simp
  from run_rep [OF t(2) assms(2)] obtain new where r: "rep v0 s (ops @ new) []" "log_kept s0 s" using assms(4) ts by auto
  have nm: "superName \<noteq> lg_name (st_log s0)" using disk_base_name [OF t(3)] ts by metis
  have sb: "readSuperblock (st_disk s) superName = readSuperblock d superName"
    using r(2) t(4) nm ts by (intro readSuperblock_cong) (simp add: log_kept_def)
  have "readSuperblock (st_disk t) superName = readSuperblock d superName" using t(4) nm ts by (intro readSuperblock_cong) simp
  then obtain x where x: "readSuperblock d superName = Some x" using t(3) by (auto simp: disk_base_def)
  have "cm_gen old = st_gen s" if "x = Inr old" for old
    using Open_gen [OF assms(3) x] run_gen [OF assms(4)] that by simp
  then show ?thesis using that [OF r(1) run_wf [OF Open_wf [OF assms(3)] assms(4)]] sb x by simp
qed

text \<open>A checkpoint after any sequence of calls succeeds, and the directory it leaves opens, with any
  options, to a store that answers as the one that was checkpointed did, for every file codec that reads back
  the snapshot.\<close>

lemma checkpoint_keeps_view:
  assumes "clean_dir dec d v" "list_all cop_ok cs" "Open dec d opts = Some (Inr s0)" "run cs s0 = Some s"
    "\<And>part. snapshotPartition s = Some part \<Longrightarrow> \<exists>img. enc part = Some img \<and> dec img = Some part"
    "file_of (st_disk s) (logFile (st_gen s + 2)) = []" "st_gen s \<noteq> - 1"
  shows "\<exists>s' s''. Store_Checkpoint enc s = Some (Inr s') \<and> clean_dir dec (st_disk s') (store_view s)
     \<and> Open dec (st_disk s') opts' = Some (Inr s'') \<and> store_view s'' = store_view s"
proof -
  obtain v0 ops r where o: "rep v0 s ops []" "store_wf s" "readSuperblock (st_disk s) superName = Some r"
    "\<And>old. r = Inr old \<Longrightarrow> cm_gen old = st_gen s" by (rule run_superblock [OF assms(1-4)]) blast
  from snapshotPartition_view [OF o(1,2)] obtain part where
    p: "snapshotPartition s = Some part" "list_all url_ok (pt_URLs part)" "part_view part = store_view s" by blast
  from assms(5) [OF p(1)] obtain img where i: "enc part = Some img" "dec img = Some part" by blast
  have "st_gen s < st_gen s + 1" using assms(7) by (rule gen_grows)
  then have gt: "\<forall>old. r = Inr old \<longrightarrow> cm_gen old < st_gen s + 1" using o(4) by simp
  from Store_commit_files [of enc part img s r, OF i(1) o(3) gt assms(6)] obtain s' m where
    c: "Store_commit enc part s = Some (Inr s')" "readSuperblock (st_disk s') superName = Some (Inr m)"
      "cm_snapshot m = snapFile (st_gen s + 1)" "cm_logName m = logFile (st_gen s + 2)"
      "mget (st_disk s') (cm_snapshot m) = Some img" "file_of (st_disk s') (cm_logName m) = []" by blast
  have "cm_snapshot m \<noteq> []" "cm_logName m \<noteq> superName" "cm_logName m \<noteq> cm_snapshot m"
    unfolding c(3,4) using file_names by (simp_all add: not_sym [OF file_names(1)] not_sym [OF file_names(3)])
  then have "disk_base dec (st_disk s') (store_view s) (cm_logName m)"
    using c(2,5) i(2) p(2) unfolding disk_base_def p(3) [symmetric]
    by (intro disjI2 exI [of _ m] exI [of _ img] exI [of _ part]) simp
  then have cl: "clean_dir dec (st_disk s') (store_view s)"
    unfolding clean_dir_def using c(6)
    by (intro exI [of _ "store_view s"] exI [of _ "cm_logName m"] exI [of _ "[]"]) simp
  obtain s'' w0 ops' where "Open dec (st_disk s') opts' = Some (Inr s'')" "rep w0 s'' ops' []" "store_view s = do_ops (map snd ops') w0"
    by (rule Open_clean [OF cl, of opts'])
  moreover have "Store_Checkpoint enc s = Some (Inr s')" using p(1) c(1) by (simp add: Store_Checkpoint_def)
  ultimately show ?thesis using cl store_view_rep by metis
qed


section \<open>Eviction and the rotated log\<close>

text \<open>C28: A row whose body was evicted answers from the log until the next checkpoint.  The checkpoint starts
  a new log and keeps the row's old offset, so from then on the row is reported as absent.\<close>

theorem evicted_row_lost_by_checkpoint:
  assumes "clean_dir dec d v" "list_all cop_ok cs" "Open dec d opts = Some (Inr s0)" "run cs s0 = Some s"
    "mget (st_urls s) k = Some loc" "\<not> ul_tomb loc" "ul_rec loc = None"
    "\<And>part. snapshotPartition s = Some part \<Longrightarrow> \<exists>img. enc part = Some img"
    "file_of (st_disk s) (logFile (st_gen s + 2)) = []" "st_gen s \<noteq> - 1"
  shows "fst (store_view s) k \<noteq> None \<and> (\<exists>s'. Store_Checkpoint enc s = Some (Inr s') \<and> GetURL k s' = Some (None, s'))"
proof -
  obtain v0 ops r where o: "rep v0 s ops []" "store_wf s" "readSuperblock (st_disk s) superName = Some r"
    "\<And>old. r = Inr old \<Longrightarrow> cm_gen old = st_gen s" by (rule run_superblock [OF assms(1-4)]) blast
  have "urls_rep (op_entries ops) (st_urls s) (fst (do_ops (map snd ops) v0))" using o(1) by (simp add: rep_def rep_view_def)
  from urls_rep_live [OF this assms(5,6)] have "fst (store_view s) k \<noteq> None" using store_view_rep [OF o(1)] by auto
  moreover from snapshotPartition_view [OF o(1,2)] assms(8) obtain part img where
    p: "snapshotPartition s = Some part" "enc part = Some img" by blast
  have gt: "\<forall>old. r = Inr old \<longrightarrow> cm_gen old < st_gen s + 1" using o(4) gen_grows [OF assms(10)] by simp
  from Store_commit_files [of enc part img s r, OF p(2) o(3) gt assms(9)] obtain s' and m :: checkpointMeta where
    c: "Store_commit enc part s = Some (Inr s')" "file_of (st_disk s') (cm_logName m) = []" "lg_name (st_log s') = cm_logName m"
      "st_urls s' = st_urls s" by blast
  have "log_readAt (st_disk s') (st_log s') (ul_off loc) = Inl ErrEOF"
    using c(2,3) by (simp add: log_readAt_def frameHeaderSize_def)
  then have "GetURL k s' = Some (None, s')" using c(4) assms(5-7) by (simp add: GetURL_def)
  ultimately show ?thesis using p(1) c(1) by (auto simp: Store_Checkpoint_def)
qed

section \<open>A torn tail\<close>

text \<open>Replay stops at a stray byte, whatever the URL row that follows it.\<close>

lemma replay_stray:
  assumes "url_ok r"
  shows "replay off (b # entry_bytes (op_entry (lsn, SPut r))) = []"
proof -
  let ?e = "entry_bytes (op_entry (lsn, SPut r))"
  let ?x = "b # ?e"
  have ok: "frame_ok 16 (URLKey_Bytes (u_URLKey r)) (encodeURL r)"
    using op_entry_ok [of "SPut r" lsn] assms by (simp add: entry_ok_def)
  have len: "length ?e = 121" using frame_bytes_length [OF ok, of lsn kindURL]
    by (simp add: entry_bytes_def frameHeaderSize_def encodeURL_length urlValueSize_def)
  have "PutUint32 87 = [87, 0, 0, 0]" by code_simp
  then have "?e = PutUint64 lsn @ [kindURL, 16, 87, 0, 0, 0] @ drop 14 ?e"
    by (simp add: entry_bytes_def frame_bytes_def frame_body_def Let_def encodeURL_length urlValueSize_def)
  then obtain rest where "?e = PutUint64 lsn @ [kindURL, 16, 87, 0, 0, 0] @ rest" by blast
  then have x: "take 14 ?x = b # PutUint64 lsn @ [kindURL, 16, 87, 0, 0]" by simp
  then have "take 14 ?x ! 9 = 0" "drop 10 (take 14 ?x) = [16, 87, 0, 0]"
    unfolding x by (simp_all add: nth_append kindURL_def)
  moreover have "unat (Uint32 [16, 87, 0, 0]) = 22288" by code_simp
  ultimately have "replay_step off ?x = None" using len by (simp add: replay_step_def frameHeaderSize_def Let_def)
  then show ?thesis by (subst replay.simps) simp
qed


text \<open>A directory whose log was cut one byte into a frame.\<close>

definition torn_dir :: "(u8 list \<Rightarrow> Partition option) \<Rightarrow> disk \<Rightarrow> sview \<Rightarrow> bool" where
  "torn_dir dec d v \<longleftrightarrow> (\<exists>v0 name ops b. disk_base dec d v0 name \<and> file_of d name = log_bytes (op_entries ops) @ [b]
     \<and> list_all (\<lambda>(n, op). sop_ok op) ops \<and> v = do_ops (map snd ops) v0)"

text \<open>C27: Such a directory opens with what was written before the cut.  The log is not truncated there: the
  next write goes behind the stray byte, is acknowledged, synced and answered, and is gone when the
  store is opened again.\<close>

theorem torn_tail_swallows_writes:
  assumes "torn_dir dec d v" "url_ok r" "op_Durability opts = DurabilityFull" "op_ResidentBudget opts \<le> 0"
  shows "\<exists>s s' s''. Open dec d opts = Some (Inr s) \<and> store_view s = v \<and> s' = snd (Store_PutURL r s)
     \<and> GetURL (u_URLKey r) s' = Some (Some r, s') \<and> lg_synced (st_log s') = length (file_of (st_disk s') (lg_name (st_log s')))
     \<and> Open dec (st_disk s') opts = Some (Inr s'') \<and> store_view s'' = v"
proof -
  from assms(1) obtain v0 name ops b where t: "disk_base dec d v0 name" "file_of d name = log_bytes (op_entries ops) @ [b]"
    "list_all (\<lambda>(n, op). sop_ok op) ops" "v = do_ops (map snd ops) v0" by (auto simp: torn_dir_def)
  note es = replay_entries [OF op_entries_ok [OF t(3)], of 0]
  have "replay n [b] = []" for n by (subst replay.simps) (simp add: replay_step_def frameHeaderSize_def)
  then have "replay 0 (file_of d name) = frames_of 0 (op_entries ops)" unfolding t(2) es by simp
  from Open_rep [OF t(1,2) this t(3), of opts] obtain s where s: "Open dec d opts = Some (Inr s)" "rep v0 s ops [b]"
    "lg_name (st_log s) = name" "st_disk s = mput name (file_of d name) d" "st_residentBudget s = op_ResidentBudget opts"
    "lg_dur (st_log s) = DurabilityFull" using assms(3) by auto
  let ?s' = "snd (Store_PutURL r s)" and ?e = "entry_bytes (op_entry (lg_nextLSN (st_log s), SPut r))"
  let ?new = "log_bytes (op_entries ops) @ b # ?e"
  have f: "file_of (st_disk s) name = log_bytes (op_entries ops) @ [b]" "lg_off (st_log s) = length (log_bytes (op_entries ops)) + 1"
    "lg_synced (st_log s) \<le> lg_off (st_log s)" using s(2,3) by (simp_all add: rep_def rep_log_def)
  obtain d' l' off lsn where a: "log_append (st_disk s) (st_log s) kindURL 16 (URLKey_Bytes (u_URLKey r)) (encodeURL r) = (d', l', off, lsn)"
    by (metis prod_cases4)
  have ap: "d' = mput name ?new (st_disk s)" "lg_name l' = name" "lg_written l' = length ?new" "off = length (log_bytes (op_entries ops)) + 1"
    "lg_dur l' = DurabilityFull" "lg_synced l' = lg_synced (st_log s)"
    using a f s(3,6) by (auto simp: log_append_def Let_def write_at_def entry_bytes_def)
  have p: "?s' = s\<lparr> st_disk := d', st_log := log_commit (off + frameHeaderSize + 16 + urlValueSize + 4) l',
      st_urls := mput (u_URLKey r) \<lparr> ul_off = off, ul_lsn = lsn, ul_rec = Some r, ul_tomb = False \<rparr> (st_urls s) \<rparr>"
    using a assms(4) s(5) by (simp add: Store_PutURL_def Let_def trackResident_def)
  have g: "GetURL (u_URLKey r) ?s' = Some (Some r, ?s')" unfolding p by (simp add: GetURL_def)
  have y: "lg_synced (st_log ?s') = length (file_of (st_disk ?s') (lg_name (st_log ?s')))"
    unfolding p using ap f by (simp add: log_commit_def fsync_def file_of_def)
  have k: "file_of (st_disk ?s') name = log_bytes (op_entries ops) @ b # ?e" unfolding p using ap(1) by (simp add: file_of_def)
  have "replay 0 (file_of (st_disk ?s') name) = frames_of 0 (op_entries ops)"
    unfolding k es replay_stray [OF assms(2)] by simp
  moreover have "disk_base dec (st_disk ?s') v0 name"
    using t(1) by (rule disk_base_log) (simp add: p ap(1) s(4))
  ultimately obtain s'' where "Open dec (st_disk ?s') opts = Some (Inr s'')" "rep v0 s'' ops (b # ?e)"
    using Open_rep [OF _ k _ t(3), of dec v0 opts] by blast
  then show ?thesis using s(1) g y store_view_rep [OF s(2)] store_view_rep t(4) by metis
qed


section \<open>Concrete checkpoints\<close>

text \<open>A codec that keeps one partition, two puts under a resident budget of one row, and the store
  they leave: the first row is spilled.\<close>

definition demo_puts :: "cop list" where
  "demo_puts = [CPut demo_row, CPut (zeroURL (URLKey 1 3))]"

lemma demo_puts_ok: "list_all cop_ok demo_puts"
  using demo_calls_ok by (simp add: demo_puts_def demo_calls_def)

lemma demo_open: "Open dec [] opts = Some (Inr s) \<Longrightarrow>
    st_disk s = [(''log-1'', [])] \<and> st_gen s = 0 \<and> st_urls s = [] \<and> st_evictQ s = [] \<and> st_residentN s = 0
    \<and> st_residentBudget s = op_ResidentBudget opts \<and> lg_name (st_log s) = ''log-1''"
  by (auto simp: Open_def readSuperblock_def Store_recover_def replay_tail_def openLog_def file_of_def fresh_store_def Let_def setLSN_def)

lemma demo_spilled:
  assumes "Open dec [] demo_opts = Some (Inr s0)" "run demo_puts s0 = Some s"
  shows "\<exists>loc. mget (st_urls s) (URLKey 1 2) = Some loc \<and> \<not> ul_tomb loc \<and> ul_rec loc = None"
    "file_of (st_disk s) (logFile (st_gen s + 2)) = []" "st_gen s = 0"
proof -
  note o = demo_open [OF assms(1)]
  have s: "s = snd (Store_PutURL (zeroURL (URLKey 1 3)) (snd (Store_PutURL demo_row s0)))" using assms(2) by (simp add: demo_puts_def)
  have g: "st_gen s = 0" using run_gen [OF assms(2)] o by simp
  then show "st_gen s = 0" .
  have k: "u_URLKey (zeroURL (URLKey 1 3)) = URLKey 1 3" by (simp add: zeroURL_def)
  show "\<exists>loc. mget (st_urls s) (URLKey 1 2) = Some loc \<and> \<not> ul_tomb loc \<and> ul_rec loc = None"
    unfolding s using o by (auto simp: Store_PutURL_def Let_def trackResident_def demo_opts_def k split: prod.splits)
  obtain t v0 ops where t: "Open dec [] demo_opts = Some (Inr t)" "rep v0 t ops []" by (rule Open_clean [OF fresh_dir_clean, of dec demo_opts])
  from run_rep [OF t(2) demo_puts_ok] t(1) assms have "log_kept s0 s" by auto
  moreover have "logFile 2 = ''log-2''" by code_simp
  ultimately show "file_of (st_disk s) (logFile (st_gen s + 2)) = []"
    unfolding g using o by (simp add: log_kept_def file_of_def)
qed

lemma demo_checkpoint:
  assumes "Open dec [] demo_opts = Some (Inr s0)" "run demo_puts s0 = Some s"
  shows "\<exists>s'. Store_Checkpoint (\<lambda>_. Some []) s = Some (Inr s')"
proof -
  obtain v0 ops r where o: "rep v0 s ops []" "store_wf s" "readSuperblock (st_disk s) superName = Some r"
    "\<And>old. r = Inr old \<Longrightarrow> cm_gen old = st_gen s" by (rule run_superblock [OF fresh_dir_clean demo_puts_ok assms]) blast
  obtain part where p: "snapshotPartition s = Some part" using snapshotPartition_view [OF o(1,2)] by blast
  have "\<forall>old. r = Inr old \<longrightarrow> cm_gen old < st_gen s + 1" using o(4) demo_spilled(3) [OF assms] by simp
  from Store_commit_files [of "\<lambda>_. Some []" part "[]" s r, OF refl o(3) this demo_spilled(2) [OF assms]] p
  show ?thesis by (auto simp: Store_Checkpoint_def)
qed

theorem store_tables_well_formed_witness:
  "\<exists>s0 s. Open (\<lambda>_. None) [] demo_opts = Some (Inr s0)
     \<and> run_any (\<lambda>_. Some []) id (map ACall demo_puts @ [ACheckpoint, ARobots [1, 2], AClose]) s0 = Some s
     \<and> distinct (map fst (st_urls s))"
proof -
  obtain t v0 ops where t: "Open (\<lambda>_. None) [] demo_opts = Some (Inr t)" "rep v0 t ops []"
    by (rule Open_clean [OF fresh_dir_clean, of "\<lambda>_. None" demo_opts])
  from run_rep [OF t(2) demo_puts_ok] obtain s where r: "run demo_puts t = Some s" by blast
  obtain s' where c: "Store_Checkpoint (\<lambda>_. Some []) s = Some (Inr s')" using demo_checkpoint [OF t(1) r] by blast
  have "run_any (\<lambda>_. Some []) id (map ACall demo_puts @ [ACheckpoint, ARobots [1, 2], AClose]) t
      = Some (Store_Close (snd (InternRobots id [1, 2] s')))"
    using r c by (auto simp: demo_puts_def kept_on_error_def)
  from store_tables_well_formed [OF t(1) this] t(1) this show ?thesis by blast
qed

theorem evicted_row_lost_by_checkpoint_witness:
  "\<exists>s0 s s'. Open (\<lambda>_. None) [] demo_opts = Some (Inr s0) \<and> run demo_puts s0 = Some s
     \<and> fst (store_view s) (URLKey 1 2) \<noteq> None \<and> Store_Checkpoint (\<lambda>_. Some []) s = Some (Inr s')
     \<and> GetURL (URLKey 1 2) s' = Some (None, s')"
proof -
  let ?dec = "\<lambda>_ :: u8 list. None :: Partition option"
  obtain t v0 ops where t: "Open ?dec [] demo_opts = Some (Inr t)" "rep v0 t ops []"
    by (rule Open_clean [OF fresh_dir_clean, of ?dec demo_opts])
  from run_rep [OF t(2) demo_puts_ok] obtain s where r: "run demo_puts t = Some s" by blast
  note sp = demo_spilled [OF t(1) r]
  from sp(1) obtain loc where l: "mget (st_urls s) (URLKey 1 2) = Some loc" "\<not> ul_tomb loc" "ul_rec loc = None" by blast
  have "st_gen s \<noteq> - 1" using sp(3) by simp
  from evicted_row_lost_by_checkpoint [OF fresh_dir_clean demo_puts_ok t(1) r l _ sp(2) this, of "\<lambda>_. Some []"] t(1) r
  show ?thesis by auto
qed

theorem torn_tail_swallows_writes_witness:
  "\<exists>s s' s''. Open (\<lambda>_. None) [(''log-1'', [1])] (demo_opts\<lparr> op_ResidentBudget := 0 \<rparr>) = Some (Inr s)
     \<and> s' = snd (Store_PutURL demo_row s) \<and> GetURL (URLKey 1 2) s' = Some (Some demo_row, s')
     \<and> Open (\<lambda>_. None) (st_disk s') (demo_opts\<lparr> op_ResidentBudget := 0 \<rparr>) = Some (Inr s'') \<and> fst (store_view s'') (URLKey 1 2) = None"
proof -
  let ?dec = "\<lambda>_ :: u8 list. None :: Partition option"
  have "torn_dir ?dec [(''log-1'', [1])] empty_view" unfolding torn_dir_def
    by (intro exI [of _ empty_view] exI [of _ "''log-1''"] exI [of _ "[]"] exI [of _ 1])
      (simp add: disk_base_def readSuperblock_def file_of_def superName_def)
  from torn_tail_swallows_writes [OF this demo_row_ok(1), of "demo_opts\<lparr> op_ResidentBudget := 0 \<rparr>"]
  obtain s s' s'' where w: "Open ?dec [(''log-1'', [1])] (demo_opts\<lparr> op_ResidentBudget := 0 \<rparr>) = Some (Inr s)"
    "s' = snd (Store_PutURL demo_row s)" "GetURL (u_URLKey demo_row) s' = Some (Some demo_row, s')"
    "Open ?dec (st_disk s') (demo_opts\<lparr> op_ResidentBudget := 0 \<rparr>) = Some (Inr s'')" "store_view s'' = empty_view"
    by (auto simp: demo_opts_def)
  then have "fst (store_view s'') (URLKey 1 2) = None" by (simp add: empty_view_def)
  with w show ?thesis by auto
qed

end
