(* ===== verification/ReplicaStore.thy ===== *)
theory ReplicaStore
  imports Replica StoreCheckpoint
begin

text \<open>
  Replication against the store: the tail a primary ships while it serves calls, and the replica compared
  with the recovery of the primary's own directory (\<^verbatim>\<open>distribute/replicate.go\<close> with \<^verbatim>\<open>store/store.go\<close>).
  The caller of the store builds a tail entry from each write and the sequence number the write got.
  Interned strings are log frames but no tail entries, so the arena of a replica is that of its snapshot.
\<close>

section \<open>The tail of a primary\<close>



lemma entry_fields [simp]:
  "te_LSN (PutURL n r) = n" "te_LSN (DelURL n k) = n" "te_LSN (PutHost n h) = n"
  by (simp_all add: PutURL_def DelURL_def PutHost_def zeroEntry_def)

text \<open>A write takes the next sequence number, and each call takes at most one.\<close>

lemma lsn_log [simp]: "lg_nextLSN (log_commit n l) = lg_nextLSN l"
  by (simp add: log_commit_def fsync_def)

lemma evict_log: "st_log (evict_loop q s) = st_log s"
  by (induction q s rule: evict_loop.induct) (auto split: option.splits)

lemma track_log [simp]: "st_log (trackResident k s) = st_log s"
  by (simp add: trackResident_def evict_log)

lemma log_append_lsn:
  "log_append d l kind klen key val = (d', l', off, lsn) \<Longrightarrow> lsn = lg_nextLSN l \<and> lg_nextLSN l' = lg_nextLSN l + 1"
  by (auto simp: log_append_def Let_def)

lemma write_lsn [simp]: "fst (Store_PutURL r s) = Store_LSN s" "fst (Store_PutHost h s) = Store_LSN s"
  by (auto simp: Store_PutURL_def Store_PutHost_def Store_LSN_def peekLSN_def Let_def dest: log_append_lsn split: prod.splits)





section \<open>Tables and views\<close>


lemma replay_append [simp]: "Replica.replay (xs @ ys) t = Replica.replay ys (Replica.replay xs t)"
  by (simp add: Replica.replay_def)






section \<open>The replica is the recovered primary\<close>







end
