(* ===== verification/Schedule.thy ===== *)
theory Schedule
  imports Table
begin

text \<open>
  The schedule index region of the file format (\<^verbatim>\<open>format/schedule.go\<close>): the rows of a file grouped by
  due time into the buckets of a wheel, its page, and the query for the rows that may be due.  The facts:
  the region reads back, and the query misses no due row.
\<close>

section \<open>The wheel\<close>

definition schedNearSpan :: u32 where "schedNearSpan = 168"
definition schedMidSpan :: u32 where "schedMidSpan = 2160"
definition schedFarSpan :: u32 where "schedFarSpan = 17280"
definition schedMidIdx :: nat where "schedMidIdx = 168"
definition schedFarIdx :: nat where "schedFarIdx = 258"
definition schedOverflowBucket :: nat where "schedOverflowBucket = 282"
definition schedBuckets :: nat where "schedBuckets = 283"

lemmas sched_shape = schedNearSpan_def schedMidSpan_def schedFarSpan_def schedMidIdx_def schedFarIdx_def schedOverflowBucket_def schedBuckets_def

definition schedBucketOf :: "u32 \<Rightarrow> nat" where
  "schedBucketOf offset =
     (if offset < schedNearSpan then unat offset
      else
        (let offset = offset - schedNearSpan in
         if offset < schedMidSpan then schedMidIdx + unat (offset div 24)
         else
           (let offset = offset - schedMidSpan in
            if offset < schedFarSpan then schedFarIdx + unat (offset div 720) else schedOverflowBucket)))"

definition schedBucketStart :: "nat \<Rightarrow> u32" where
  "schedBucketStart b =
     (if b < schedMidIdx then of_nat b * 1
      else if b < schedFarIdx then 168 + of_nat (b - schedMidIdx) * 24
      else if b < schedOverflowBucket then 2328 + of_nat (b - schedFarIdx) * 720
      else 19608)"

text \<open>The smallest and the largest due time, zero when no row is scheduled (\<^verbatim>\<open>format/file.go\<close>).\<close>

definition dueRange :: "URLRecord list \<Rightarrow> u32 \<times> u32" where
  "dueRange recs =
     foldl (\<lambda>(mn, mx) r. let d = u_NextDue r in
       if d = 0 then (mn, mx) else (if mn = 0 \<or> d < mn then d else mn, if d > mx then d else mx)) (0, 0) recs"

fun bucket_rows :: "u32 \<Rightarrow> URLRecord list \<Rightarrow> nat \<Rightarrow> u32 list list \<Rightarrow> u32 list list" where
  "bucket_rows base [] i buckets = buckets"
| "bucket_rows base (r # recs) i buckets =
     (let d = u_NextDue r in
      if d = 0 then bucket_rows base recs (i + 1) buckets
      else
        (let b = schedBucketOf (d - base) in bucket_rows base recs (i + 1) (buckets[b := buckets ! b @ [of_nat i]])))"

definition buildScheduleIndex :: "URLRecord list \<Rightarrow> (u32 \<times> u32 list list) option" where
  "buildScheduleIndex recs =
     (let base = fst (dueRange recs) in
      if base = 0 then None else Some (base, bucket_rows base recs 0 (replicate schedBuckets [])))"

section \<open>The region\<close>

fun put_ids :: "u32 \<Rightarrow> u32 list \<Rightarrow> u8 list" where
  "put_ids prev [] = []"
| "put_ids prev (i # ids) = uvarint (unat (ucast (i - prev) :: u64)) @ put_ids i ids"

definition schedule_payload :: "u32 \<Rightarrow> u32 \<Rightarrow> u32 list list \<Rightarrow> u8 list" where
  "schedule_payload base covered buckets =
     PutUint32 base @ PutUint32 covered @ uvarint schedBuckets @ concat (map (\<lambda>b. uvarint (length b)) buckets) @ concat (map (put_ids 0) buckets)"

definition encodeScheduleRegion :: "(u8 list \<Rightarrow> u8 list) \<Rightarrow> URLRecord list \<Rightarrow> u8 \<Rightarrow> u8 list" where
  "encodeScheduleRegion zenc recs codec =
     (case buildScheduleIndex recs of
        None \<Rightarrow> []
      | Some (base, buckets) \<Rightarrow>
          writePage zenc PageSchedule EncRaw codec (of_nat (sum_list (map length buckets))) 0 (ucast base)
            (schedule_payload base (of_nat (length recs)) buckets))"

record ScheduleIndex =
  si_base :: u32
  si_covered :: u32
  si_buckets :: "u32 list list"

fun get_counts :: "nat \<Rightarrow> rbuf \<Rightarrow> int list \<times> rbuf" where
  "get_counts 0 r = ([], r)"
| "get_counts (Suc n) r = (let (v, r) = rb_uvarint r; (cs, r) = get_counts n r in (sint v # cs, r))"

fun get_ids :: "nat \<Rightarrow> u32 \<Rightarrow> rbuf \<Rightarrow> u32 list \<times> rbuf" where
  "get_ids 0 prev r = ([], r)"
| "get_ids (Suc n) prev r =
     (let (v, r) = rb_uvarint r; prev = prev + ucast v; (ids, r) = get_ids n prev r in (prev # ids, r))"

text \<open>A negative count is a panic of \<open>make\<close>.\<close>

fun get_buckets :: "int list \<Rightarrow> rbuf \<Rightarrow> (u32 list list \<times> rbuf) option" where
  "get_buckets [] r = Some ([], r)"
| "get_buckets (c # cs) r =
     (if c < 0 then None
      else (let (ids, r) = get_ids (nat c) 0 r in map_option (\<lambda>(bs, r). (ids # bs, r)) (get_buckets cs r)))"

definition decodeScheduleRegion :: "(u8 list \<Rightarrow> u8 list option) \<Rightarrow> u8 list \<Rightarrow> (format_error + ScheduleIndex) option" where
  "decodeScheduleRegion zdec region =
     (case readPage zdec region of
        Inl e \<Rightarrow> Some (Inl e)
      | Inr (h, payload, _) \<Rightarrow>
          if ph_kind h \<noteq> PageSchedule then Some (Inl ErrCorrupt)
          else
            (let r = rbuf_of payload; (base, r) = rb_u32 r; (covered, r) = rb_u32 r; (nb, r) = rb_uvarint r in
             if rb_err r \<or> sint nb \<noteq> int schedBuckets then Some (Inl ErrCorrupt)
             else
               (let (counts, r) = get_counts schedBuckets r in
                case get_buckets counts r of
                  None \<Rightarrow> None
                | Some (buckets, r) \<Rightarrow>
                    if rb_err r then Some (Inl ErrCorrupt)
                    else Some (Inr \<lparr> si_base = base, si_covered = covered, si_buckets = buckets \<rparr>))))"

definition DueBuckets :: "ScheduleIndex \<Rightarrow> u32 \<Rightarrow> u32 list" where
  "DueBuckets s now =
     (if now < si_base s then []
      else
        (let offset = now - si_base s in
         concat (map (\<lambda>b. si_buckets s ! b) (takeWhile (\<lambda>b. \<not> schedBucketStart b > offset) [0..<schedBuckets]))))"

section \<open>The wheel arithmetic\<close>

lemma unat_schedBucketStart:
  "unat (schedBucketStart b) =
     (if b < 168 then b else if b < 258 then 168 + (b - 168) * 24 else if b < 282 then 2328 + (b - 258) * 720 else 19608)"
proof -
  let ?n = "if b < 168 then b else if b < 258 then 168 + (b - 168) * 24 else if b < 282 then 2328 + (b - 258) * 720 else 19608"
  have "schedBucketStart b = of_nat ?n" unfolding schedBucketStart_def sched_shape by (simp only: of_nat_add of_nat_mult of_nat_numeral mult_1_right split: if_split) simp
  moreover have "?n < 2 ^ 32" by auto
  ultimately show ?thesis using of_nat_inverse_32 [of ?n] by simp
qed

lemma schedBucketOf_nat:
  "schedBucketOf off =
     (let n = unat off in
      if n < 168 then n else if n < 2328 then 168 + (n - 168) div 24 else if n < 19608 then 258 + (n - 2328) div 720 else 282)"
proof -
  have s: "unat (off - 168) = unat off - 168" if "\<not> off < 168" using that by (simp add: unat_sub_if' word_less_nat_alt)
  have t: "unat (off - 168 - 2160) = unat off - 168 - 2160" if "\<not> off < 168" "\<not> off - 168 < 2160"
    using that s by (simp add: unat_sub_if' word_less_nat_alt)
  show ?thesis using s t by (auto simp: schedBucketOf_def sched_shape Let_def word_less_nat_alt unat_div)
qed

lemma schedBucketOf_range: "schedBucketOf off < schedBuckets"
  by (auto simp: schedBucketOf_nat sched_shape Let_def)

lemma schedBucketStart_le: "schedBucketStart (schedBucketOf off) \<le> off"
  by (auto simp: word_le_nat_alt unat_schedBucketStart schedBucketOf_nat Let_def)

lemma schedBucketStart_mono: "a \<le> b \<Longrightarrow> schedBucketStart a \<le> schedBucketStart b"
  by (auto simp: word_le_nat_alt unat_schedBucketStart)

section \<open>Grouping the rows\<close>

lemma length_bucket_rows [simp]: "length (bucket_rows base recs i buckets) = length buckets"
  by (induction recs arbitrary: i buckets) (simp_all add: Let_def)

lemma bucket_rows_nth:
  assumes "length buckets = schedBuckets" "b < schedBuckets"
  shows "bucket_rows base recs i buckets ! b = buckets ! b @
    map of_nat (filter (\<lambda>j. u_NextDue (recs ! (j - i)) \<noteq> 0 \<and> schedBucketOf (u_NextDue (recs ! (j - i)) - base) = b) [i..<i + length recs])"
  using assms
proof (induction recs arbitrary: i buckets)
  case (Cons r recs)
  let ?P = "\<lambda>j. u_NextDue ((r # recs) ! (j - i)) \<noteq> 0 \<and> schedBucketOf (u_NextDue ((r # recs) ! (j - i)) - base) = b"
  let ?Q = "\<lambda>j. u_NextDue (recs ! (j - Suc i)) \<noteq> 0 \<and> schedBucketOf (u_NextDue (recs ! (j - Suc i)) - base) = b"
  have "filter ?P [Suc i..<i + length (r # recs)] = filter ?Q [Suc i..<Suc i + length recs]"
    by (rule filter_cong) (auto simp: nth_Cons')
  moreover have "[i..<i + length (r # recs)] = i # [Suc i..<i + length (r # recs)]" by (rule upt_conv_Cons) simp
  ultimately have f: "filter ?P [i..<i + length (r # recs)]
      = (if u_NextDue r \<noteq> 0 \<and> schedBucketOf (u_NextDue r - base) = b then [i] else []) @ filter ?Q [Suc i..<Suc i + length recs]"
    by simp
  show ?case unfolding f using Cons schedBucketOf_range by (auto simp: Let_def nth_list_update simp del: upt_Suc)
qed simp

lemma dueRange_base:
  "foldl (\<lambda>(mn, mx) r. let d = u_NextDue r in
     if d = 0 then (mn, mx) else (if mn = 0 \<or> d < mn then d else mn, if d > mx then d else mx)) (a, b) recs = (mn, mx) \<Longrightarrow>
   (a \<noteq> 0 \<longrightarrow> mn \<noteq> 0 \<and> mn \<le> a) \<and> list_all (\<lambda>r. u_NextDue r = 0 \<or> mn \<noteq> 0 \<and> mn \<le> u_NextDue r) recs" for a b mn :: u32
proof (induction recs arbitrary: a b)
  case (Cons r recs)
  define a' where "a' = (if u_NextDue r = 0 then a else if a = 0 \<or> u_NextDue r < a then u_NextDue r else a)"
  have "(a' \<noteq> 0 \<longrightarrow> mn \<noteq> 0 \<and> mn \<le> a') \<and> list_all (\<lambda>r. u_NextDue r = 0 \<or> mn \<noteq> 0 \<and> mn \<le> u_NextDue r) recs"
    by (rule Cons.IH [of _ "if u_NextDue r = 0 then b else if u_NextDue r > b then u_NextDue r else b"])
      (use Cons.prems in \<open>auto simp: a'_def Let_def split: if_splits\<close>)
  then show ?case by (auto simp: a'_def split: if_splits)
qed simp

lemma dueRange_min: "i < length recs \<Longrightarrow> u_NextDue (recs ! i) \<noteq> 0 \<Longrightarrow> fst (dueRange recs) \<noteq> 0 \<and> fst (dueRange recs) \<le> u_NextDue (recs ! i)"
  using dueRange_base [where a = 0 and b = 0 and recs = recs and mn = "fst (dueRange recs)" and mx = "snd (dueRange recs)", folded dueRange_def]
  by (auto simp: list_all_length)

lemma takeWhile_upt_member:
  "(\<And>a. a \<le> b \<Longrightarrow> P a) \<Longrightarrow> b < n \<Longrightarrow> b \<in> set (takeWhile P [0..<n])"
  by (induction n) (auto simp: takeWhile_append less_Suc_eq dest: set_takeWhileD)

text \<open>C35: The query of the schedule index misses no due row and returns only scheduled rows whose bucket has
  opened: what the scheduler confirms against the due column is a superset of the due rows.\<close>

theorem due_buckets_cover_the_due_rows:
  assumes "buildScheduleIndex recs = Some (base, buckets)" "length recs < 2 ^ 32"
    and "s = \<lparr> si_base = base, si_covered = of_nat (length recs), si_buckets = buckets \<rparr>"
  shows "(i < length recs \<and> u_NextDue (recs ! i) \<noteq> 0 \<and> u_NextDue (recs ! i) \<le> now \<longrightarrow> of_nat i \<in> set (DueBuckets s now))
    \<and> (j \<in> set (DueBuckets s now) \<longrightarrow>
        unat j < length recs \<and> u_NextDue (recs ! unat j) \<noteq> 0 \<and> schedBucketStart (schedBucketOf (u_NextDue (recs ! unat j) - base)) \<le> now - base)"
proof (intro conjI impI)
  have b: "base = fst (dueRange recs)" "buckets = bucket_rows base recs 0 (replicate schedBuckets [])"
    using assms(1) by (auto simp: buildScheduleIndex_def Let_def split: if_splits)
  have nth: "buckets ! k = map of_nat (filter (\<lambda>j. u_NextDue (recs ! j) \<noteq> 0 \<and> schedBucketOf (u_NextDue (recs ! j) - base) = k) [0..<length recs])"
    if "k < schedBuckets" for k using bucket_rows_nth [of "replicate schedBuckets []" k base recs 0] that by (simp add: b(2))
  { assume i: "i < length recs \<and> u_NextDue (recs ! i) \<noteq> 0 \<and> u_NextDue (recs ! i) \<le> now"
    let ?k = "schedBucketOf (u_NextDue (recs ! i) - base)"
    have base: "base \<le> u_NextDue (recs ! i)" using dueRange_min [of i recs] i b by simp
    then have "u_NextDue (recs ! i) - base \<le> now - base" using i by (metis word_le_minus_mono_left)
    then have "schedBucketStart a \<le> now - base" if "a \<le> ?k" for a
      using schedBucketStart_mono [OF that] schedBucketStart_le [of "u_NextDue (recs ! i) - base"] by simp
    then have "?k \<in> set (takeWhile (\<lambda>b. \<not> schedBucketStart b > now - base) [0..<schedBuckets])"
      using schedBucketOf_range by (intro takeWhile_upt_member) (auto simp: not_less)
    moreover have "of_nat i \<in> set (buckets ! ?k)" using i nth [OF schedBucketOf_range] by auto
    ultimately show "of_nat i \<in> set (DueBuckets s now)" using base i by (auto simp: DueBuckets_def assms(3) Let_def not_less) }
  { assume "j \<in> set (DueBuckets s now)"
    then obtain k where k: "k < schedBuckets" "schedBucketStart k \<le> now - base" "j \<in> set (buckets ! k)"
      by (auto simp: DueBuckets_def assms(3) Let_def not_less split: if_splits dest!: set_takeWhileD)
    then obtain n where "j = of_nat n" "n < length recs" "u_NextDue (recs ! n) \<noteq> 0" "schedBucketOf (u_NextDue (recs ! n) - base) = k"
      using nth [OF k(1)] by auto
    moreover from this(2) have "unat (of_nat n :: u32) = n" using assms(2) by (intro of_nat_inverse_32) simp
    ultimately show "unat j < length recs" "u_NextDue (recs ! unat j) \<noteq> 0" "schedBucketStart (schedBucketOf (u_NextDue (recs ! unat j) - base)) \<le> now - base"
      using k(2) by simp_all }
qed

theorem due_buckets_cover_the_due_rows_witness:
  "\<exists>base buckets. buildScheduleIndex [(zeroURL (URLKey 1 2))\<lparr> u_NextDue := 5 \<rparr>, zeroURL (URLKey 1 2), (zeroURL (URLKey 1 2))\<lparr> u_NextDue := 9 \<rparr>] = Some (base, buckets)
     \<and> 2 \<in> set (DueBuckets \<lparr> si_base = base, si_covered = 3, si_buckets = buckets \<rparr> 9)"
proof -
  let ?recs = "[(zeroURL (URLKey 1 2))\<lparr> u_NextDue := 5 \<rparr>, zeroURL (URLKey 1 2), (zeroURL (URLKey 1 2))\<lparr> u_NextDue := 9 \<rparr>]"
  obtain base buckets where b: "buildScheduleIndex ?recs = Some (base, buckets)" by (simp add: buildScheduleIndex_def dueRange_def Let_def zeroURL_def)
  have "of_nat 2 \<in> set (DueBuckets \<lparr> si_base = base, si_covered = of_nat (length ?recs), si_buckets = buckets \<rparr> 9)"
    using due_buckets_cover_the_due_rows [OF b _ refl, of 2 9] by simp
  then show ?thesis using b by auto
qed

section \<open>The region reads back\<close>

lemma get_counts_read:
  "list_all (\<lambda>b. length b < 2 ^ 63) buckets \<Longrightarrow>
   \<exists>p'. get_counts (length buckets) (at_bytes p (concat (map (\<lambda>b. uvarint (length b)) buckets) @ rest)) = (map (\<lambda>b. int (length b)) buckets, at_bytes p' rest)"
proof (induction buckets arbitrary: p)
  case (Cons b buckets)
  then have "length b < 2 ^ 63" "length b < 2 ^ 64" by simp_all
  moreover obtain p' where "get_counts (length buckets) (at_bytes (p + length (uvarint (length b))) (concat (map (\<lambda>b. uvarint (length b)) buckets) @ rest))
      = (map (\<lambda>b. int (length b)) buckets, at_bytes p' rest)" using Cons by fastforce
  ultimately show ?case by (auto simp: rb_uvarint_read sint_of_nat64)
qed auto

lemma get_ids_read: "\<exists>p'. get_ids (length ids) prev (at_bytes p (put_ids prev ids @ rest)) = (ids, at_bytes p' rest)"
proof (induction ids arbitrary: prev p)
  case (Cons i ids)
  have "ucast (ucast (i - prev) :: u64) = i - prev" 
    using unat_lt_2p32 [of "i - prev"] by (intro word_unat_eq_iff [THEN iffD2]) (simp add: unsigned_ucast_eq unsigned_take_bit_eq take_bit_nat_eq_self)
  then have "prev + ucast (ucast (i - prev) :: u64) = i" by simp
  moreover from Cons.IH [of i "p + length (uvarint (unat (ucast (i - prev) :: u64)))"] obtain p'
    where "get_ids (length ids) i (at_bytes (p + length (uvarint (unat (ucast (i - prev) :: u64)))) (put_ids i ids @ rest)) = (ids, at_bytes p' rest)" by blast
  ultimately show ?case by (simp only: put_ids.simps append_assoc list.size get_ids.simps rb_uvarint_word Let_def add_0_right add_Suc_right prod.case) auto
qed auto

lemma get_buckets_read:
  "\<exists>p'. get_buckets (map (\<lambda>b. int (length b)) buckets) (at_bytes p (concat (map (put_ids 0) buckets) @ rest)) = Some (buckets, at_bytes p' rest)"
proof (induction buckets arbitrary: p)
  case (Cons b buckets)
  obtain p1 where "get_ids (length b) 0 (at_bytes p (put_ids 0 b @ concat (map (put_ids 0) buckets) @ rest)) = (b, at_bytes p1 (concat (map (put_ids 0) buckets) @ rest))"
    using get_ids_read by blast
  moreover obtain p2 where "get_buckets (map (\<lambda>b. int (length b)) buckets) (at_bytes p1 (concat (map (put_ids 0) buckets) @ rest)) = Some (buckets, at_bytes p2 rest)"
    using Cons by blast
  ultimately show ?case by auto
qed auto

lemma bucket_rows_length:
  assumes "length recs < 2 ^ 32"
  shows "list_all (\<lambda>b. length b < 2 ^ 63) (bucket_rows base recs 0 (replicate schedBuckets []))"
proof -
  have "length (bucket_rows base recs 0 (replicate schedBuckets []) ! b) \<le> length recs" if "b < schedBuckets" for b
    using bucket_rows_nth [of "replicate schedBuckets []" b base recs 0] that length_filter_le [of _ "[0..<length recs]"] by fastforce
  then show ?thesis using assms by (fastforce simp: list_all_length)
qed

text \<open>The schedule index region reads back: the base, the number of rows and the row numbers of every
  bucket.\<close>

theorem schedule_region_reads_back:
  assumes z: "\<And>x. zdec (zenc x) = Some x" and b: "buildScheduleIndex recs = Some (base, buckets)"
    and l: "length recs < 2 ^ 32" "length (encodeScheduleRegion zenc recs codec) < 2 ^ 32"
  shows "decodeScheduleRegion zdec (encodeScheduleRegion zenc recs codec) = Some (Inr \<lparr> si_base = base, si_covered = of_nat (length recs), si_buckets = buckets \<rparr>)"
proof -
  have bs: "buckets = bucket_rows base recs 0 (replicate schedBuckets [])" "length buckets = schedBuckets"
    using b by (auto simp: buildScheduleIndex_def Let_def split: if_splits)
  let ?payload = "schedule_payload base (of_nat (length recs)) buckets"
  let ?page = "writePage zenc PageSchedule EncRaw codec (of_nat (sum_list (map length buckets))) 0 (ucast base) ?payload"
  have page: "encodeScheduleRegion zenc recs codec = ?page" using b by (simp add: encodeScheduleRegion_def)
  obtain h where h: "readPage zdec (?page @ []) = Inr (h, ?payload, length ?page)" "ph_kind h = PageSchedule"
    by (rule readPage_writePage [of zdec zenc, OF z l(2) [unfolded page], of "[]"]) blast
  obtain p1 where c: "get_counts schedBuckets (at_bytes (8 + length (uvarint schedBuckets)) (concat (map (\<lambda>b. uvarint (length b)) buckets) @ concat (map (put_ids 0) buckets)))
      = (map (\<lambda>b. int (length b)) buckets, at_bytes p1 (concat (map (put_ids 0) buckets)))"
    using get_counts_read [OF bucket_rows_length [OF l(1), of base, folded bs(1)]] unfolding bs(2) by blast
  obtain p2 where "get_buckets (map (\<lambda>b. int (length b)) buckets) (at_bytes p1 (concat (map (put_ids 0) buckets))) = Some (buckets, at_bytes p2 [])"
    using get_buckets_read [of buckets p1 "[]"] by auto
  moreover have "sint (of_nat schedBuckets :: u64) = int schedBuckets" "schedBuckets < 2 ^ 64" by (simp_all add: sint_of_nat64 sched_shape)
  ultimately show ?thesis
    using h c by (simp add: decodeScheduleRegion_def page schedule_payload_def rbuf_of_at rb_u32_read rb_uvarint_read Let_def)
qed

theorem schedule_region_reads_back_witness:
  "\<exists>buckets. buildScheduleIndex [(zeroURL (URLKey 1 2))\<lparr> u_NextDue := 5 \<rparr>] = Some (5, buckets)
     \<and> decodeScheduleRegion Some (encodeScheduleRegion id [(zeroURL (URLKey 1 2))\<lparr> u_NextDue := 5 \<rparr>] 0) = Some (Inr \<lparr> si_base = 5, si_covered = 1, si_buckets = buckets \<rparr>)"
proof -
  let ?recs = "[(zeroURL (URLKey 1 2))\<lparr> u_NextDue := 5 \<rparr>]"
  have "replicate schedBuckets [] = ([] :: u32 list) # replicate 282 []" by (simp add: sched_shape numeral_eq_Suc)
  then have b: "buildScheduleIndex ?recs = Some (5, [0] # replicate 282 [])"
    by (simp add: buildScheduleIndex_def dueRange_def Let_def schedBucketOf_nat)
  have "length (encodeScheduleRegion id ?recs 0) < 2 ^ 32"
    by (simp add: encodeScheduleRegion_def b length_writePage PageHeaderSize_def compress_def CodecZstd_def schedule_payload_def
        uvarint.simps length_concat sum_list_replicate sched_shape)
  then show ?thesis using schedule_region_reads_back [of Some id, OF _ b] b by simp
qed

end
