(* ===== verification/Footer.thy ===== *)
theory Footer
  imports Schedule "HOL-Library.Char_ord" "HOL-Library.List_Lexorder"
begin

text \<open>
  The header (\<^verbatim>\<open>format/header.go\<close>) and the footer (\<^verbatim>\<open>format/footer.go\<close>) of the file format: the fixed
  64-byte header and the tagged sections of the footer with the region directory, the two column
  directories, the statistics and the string metadata.  The append-only writer \<^verbatim>\<open>wbuf\<close> is list append.
  A loop that the source runs a decoded number of times panics in \<open>make\<close> when that number is
  negative; the limits of the memory are not modelled.
\<close>

section \<open>Header\<close>

definition HeaderSize :: nat where "HeaderSize = 64"

definition Magic :: "u8 list" where "Magic = bytes_of ''MEG1''"

definition VersionMajor :: u16 where "VersionMajor = 1"
definition VersionMinor :: u16 where "VersionMinor = 0"
definition ChecksumCRC32C :: u8 where "ChecksumCRC32C = 1"

definition FlagSorted :: u16 where "FlagSorted = 1"
definition FlagHasSchedule :: u16 where "FlagHasSchedule = 2"
definition FlagHasSeenset :: u16 where "FlagHasSeenset = 4"
definition FlagHasBlob :: u16 where "FlagHasBlob = 8"

definition RegionURLTable :: u8 where "RegionURLTable = 0"
definition RegionHostTable :: u8 where "RegionHostTable = 1"
definition RegionSchedule :: u8 where "RegionSchedule = 2"
definition RegionSeenset :: u8 where "RegionSeenset = 3"
definition RegionStringBlob :: u8 where "RegionStringBlob = 4"

lemmas region_ids = RegionURLTable_def RegionHostTable_def RegionSchedule_def RegionSeenset_def RegionStringBlob_def

record Header =
  hd_VersionMajor :: u16
  hd_VersionMinor :: u16
  hd_PartitionID :: u32
  hd_Flags :: u16
  hd_ChecksumAlgo :: u8
  hd_DefaultCodec :: u8
  hd_HostKeyLo :: u64
  hd_HostKeyHi :: u64
  hd_URLCount :: u64
  hd_HostCount :: u64
  hd_FooterOffset :: u64
  hd_CreatedHours :: u32

definition header_body :: "Header \<Rightarrow> u8 list" where
  "header_body h = Magic @ PutUint16 (hd_VersionMajor h) @ PutUint16 (hd_VersionMinor h) @ PutUint32 (hd_PartitionID h)
     @ PutUint16 (hd_Flags h) @ [hd_ChecksumAlgo h, hd_DefaultCodec h] @ PutUint64 (hd_HostKeyLo h) @ PutUint64 (hd_HostKeyHi h)
     @ PutUint64 (hd_URLCount h) @ PutUint64 (hd_HostCount h) @ PutUint64 (hd_FooterOffset h) @ PutUint32 (hd_CreatedHours h)"

definition Header_Encode :: "Header \<Rightarrow> u8 list" where
  "Header_Encode h = header_body h @ PutUint32 (Checksum32c (header_body h))"

definition field_at :: "u8 list \<Rightarrow> nat \<Rightarrow> nat \<Rightarrow> u8 list" where
  "field_at b lo hi = take (hi - lo) (drop lo b)"

definition DecodeHeader :: "u8 list \<Rightarrow> format_error + Header" where
  "DecodeHeader b =
     (if length b < HeaderSize then Inl ErrShortFile
      else if field_at b 0 4 \<noteq> Magic then Inl ErrBadMagic
      else if Uint32 (field_at b 60 64) \<noteq> Checksum32c (field_at b 0 60) then Inl ErrChecksum
      else
        (let h = \<lparr> hd_VersionMajor = Uint16 (field_at b 4 6), hd_VersionMinor = Uint16 (field_at b 6 8),
                   hd_PartitionID = Uint32 (field_at b 8 12), hd_Flags = Uint16 (field_at b 12 14),
                   hd_ChecksumAlgo = b ! 14, hd_DefaultCodec = b ! 15, hd_HostKeyLo = Uint64 (field_at b 16 24),
                   hd_HostKeyHi = Uint64 (field_at b 24 32), hd_URLCount = Uint64 (field_at b 32 40),
                   hd_HostCount = Uint64 (field_at b 40 48), hd_FooterOffset = Uint64 (field_at b 48 56),
                   hd_CreatedHours = Uint32 (field_at b 56 60) \<rparr> in
         if hd_VersionMajor h \<noteq> VersionMajor then Inl ErrUnsupported else Inr h))"

lemma length_Magic [simp]: "length Magic = 4" by (simp add: Magic_def)

lemma length_header_body: "length (header_body h) = 60" by (simp add: header_body_def)

lemma length_Header_Encode: "length (Header_Encode h) = HeaderSize" by (simp add: Header_Encode_def length_header_body HeaderSize_def)

lemma DecodeHeader_Encode:
  assumes "hd_VersionMajor h = VersionMajor"
  shows "DecodeHeader (Header_Encode h) = Inr h"
proof -
  let ?b = "Header_Encode h"
  have "field_at ?b 0 60 = header_body h" "field_at ?b 60 64 = PutUint32 (Checksum32c (header_body h))"
    by (simp_all add: field_at_def Header_Encode_def length_header_body)
  moreover have "field_at ?b 0 4 = Magic" "field_at ?b 4 6 = PutUint16 (hd_VersionMajor h)" "field_at ?b 6 8 = PutUint16 (hd_VersionMinor h)"
    "field_at ?b 8 12 = PutUint32 (hd_PartitionID h)" "field_at ?b 12 14 = PutUint16 (hd_Flags h)" "?b ! 14 = hd_ChecksumAlgo h" "?b ! 15 = hd_DefaultCodec h"
    "field_at ?b 16 24 = PutUint64 (hd_HostKeyLo h)" "field_at ?b 24 32 = PutUint64 (hd_HostKeyHi h)" "field_at ?b 32 40 = PutUint64 (hd_URLCount h)"
    "field_at ?b 40 48 = PutUint64 (hd_HostCount h)" "field_at ?b 48 56 = PutUint64 (hd_FooterOffset h)" "field_at ?b 56 60 = PutUint32 (hd_CreatedHours h)"
    by (simp_all add: field_at_def Header_Encode_def header_body_def nth_append)
  ultimately show ?thesis using assms by (simp add: DecodeHeader_def length_Header_Encode)
qed

section \<open>Footer sections\<close>

definition secRegions :: nat where "secRegions = 1"
definition secURLColumns :: nat where "secURLColumns = 2"
definition secHostColumns :: nat where "secHostColumns = 3"
definition secStats :: nat where "secStats = 7"
definition secKeyValueMeta :: nat where "secKeyValueMeta = 8"

lemmas section_tags = secRegions_def secURLColumns_def secHostColumns_def secStats_def secKeyValueMeta_def

record regionDesc =
  rg_id :: u8
  rg_offset :: u64
  rg_length :: u64
  rg_crc :: u32
  rg_flags :: u8

record statsBlock =
  st_urlCount :: u64
  st_hostCount :: u64
  st_hostKeyLo :: u64
  st_hostKeyHi :: u64
  st_scheduledCount :: u64
  st_dueMin :: u32
  st_dueMax :: u32
  st_totalCompressed :: u64
  st_totalUncompressed :: u64
  st_bytesPerURL :: f32

definition zeroStats :: statsBlock where
  "zeroStats = \<lparr> st_urlCount = 0, st_hostCount = 0, st_hostKeyLo = 0, st_hostKeyHi = 0, st_scheduledCount = 0, st_dueMin = 0, st_dueMax = 0,
     st_totalCompressed = 0, st_totalUncompressed = 0, st_bytesPerURL = 0 \<rparr>"

record footerData =
  fd_regions :: "regionDesc list"
  fd_urlDir :: "columnDir list"
  fd_hostDir :: "columnDir list"
  fd_stats :: statsBlock
  fd_meta :: "(string \<times> string) list"

definition writeSection :: "nat \<Rightarrow> u8 list \<Rightarrow> u8 list" where
  "writeSection tag body = uvarint tag @ uvarint (length body) @ body"

definition put_region :: "regionDesc \<Rightarrow> u8 list" where
  "put_region r = [rg_id r] @ PutUint64 (rg_offset r) @ PutUint64 (rg_length r) @ PutUint32 (rg_crc r) @ [rg_flags r]"

definition put_page :: "pageEntry \<Rightarrow> u8 list" where
  "put_page pe = PutUint64 (pe_firstRow pe) @ PutUint64 (pe_numValues pe) @ PutUint64 (pe_byteLen pe)
     @ [pe_encoding pe, if pe_hasZone pe then 1 else 0] @ PutUint64 (pe_zoneMin pe) @ PutUint64 (pe_zoneMax pe)"

definition encodePageSkipList :: "pageEntry list \<Rightarrow> u8 list" where
  "encodePageSkipList pages = concat (map put_page pages)"

definition put_dir :: "columnDir \<Rightarrow> u8 list" where
  "put_dir d = uvarint (unat (of_int (cd_columnID d) :: u64)) @ PutUint64 (cd_firstPageOffset d) @ PutUint64 (cd_totalCompressed d)
     @ PutUint64 (cd_totalUncompressed d) @ uvarint (unat (cd_numValues d)) @ uvarint (unat (cd_numPages d))
     @ [cd_width d, cd_encoding d, cd_codec d] @ PutUint64 (cd_totalUncompressed d) @ PutUint32 (cd_columnCRC32C d)
     @ [if cd_hasZone d then 1 else 0] @ PutUint64 (cd_zoneMin d) @ PutUint64 (cd_zoneMax d)
     @ (if cd_numPages d > 1 then encodePageSkipList (cd_pages d) else PutUint64 0)"

definition encodeColumnDir :: "columnDir list \<Rightarrow> u8 list" where
  "encodeColumnDir dir = uvarint (length dir) @ concat (map put_dir dir)"

definition put_stats :: "statsBlock \<Rightarrow> u8 list" where
  "put_stats s = PutUint64 (st_urlCount s) @ PutUint64 (st_hostCount s) @ PutUint64 (st_hostKeyLo s) @ PutUint64 (st_hostKeyHi s)
     @ PutUint64 (st_scheduledCount s) @ PutUint32 (st_dueMin s) @ PutUint32 (st_dueMax s) @ PutUint64 (st_totalCompressed s)
     @ PutUint64 (st_totalUncompressed s) @ PutUint32 (st_bytesPerURL s)"

definition put_kv :: "string \<times> string \<Rightarrow> u8 list" where
  "put_kv = (\<lambda>(k, v). uvarint (length k) @ bytes_of k @ uvarint (length v) @ bytes_of v)"

text \<open>The keys come from a map, so they are distinct and every sort by key gives the same order.\<close>

definition encodeFooter :: "footerData \<Rightarrow> u8 list" where
  "encodeFooter f =
     writeSection secRegions (uvarint (length (fd_regions f)) @ concat (map put_region (fd_regions f)))
     @ writeSection secURLColumns (encodeColumnDir (fd_urlDir f))
     @ writeSection secHostColumns (encodeColumnDir (fd_hostDir f))
     @ writeSection secStats (put_stats (fd_stats f))
     @ (if fd_meta f \<noteq> [] then
          writeSection secKeyValueMeta (uvarint (length (fd_meta f)) @ concat (map put_kv (sort_key fst (fd_meta f))))
        else [])"

section \<open>Reading the footer\<close>

text \<open>A loop that reads a decoded number of entries.\<close>

fun get_many :: "(rbuf \<Rightarrow> ('a \<times> rbuf) option) \<Rightarrow> nat \<Rightarrow> rbuf \<Rightarrow> ('a list \<times> rbuf) option" where
  "get_many g 0 r = Some ([], r)"
| "get_many g (Suc n) r =
     (case g r of None \<Rightarrow> None | Some (x, r) \<Rightarrow> map_option (\<lambda>(xs, r). (x # xs, r)) (get_many g n r))"

definition get_counted :: "(rbuf \<Rightarrow> ('a \<times> rbuf) option) \<Rightarrow> u8 list \<Rightarrow> 'a list option" where
  "get_counted g b = (let (n, r) = rb_uvarint (rbuf_of b) in if sint n < 0 then None else map_option fst (get_many g (nat (sint n)) r))"

definition get_region :: "rbuf \<Rightarrow> (regionDesc \<times> rbuf) option" where
  "get_region r =
     (let (i, r) = rb_u8 r; (off, r) = rb_u64 r; (len, r) = rb_u64 r; (crc, r) = rb_u32 r; (flgs, r) = rb_u8 r in
      Some (\<lparr> rg_id = i, rg_offset = off, rg_length = len, rg_crc = crc, rg_flags = flgs \<rparr>, r))"

definition decodeRegions :: "u8 list \<Rightarrow> regionDesc list option" where
  "decodeRegions = get_counted get_region"

definition get_page :: "rbuf \<Rightarrow> (pageEntry \<times> rbuf) option" where
  "get_page r =
     (let (firstRow, r) = rb_u64 r; (n, r) = rb_u64 r; (byteLen, r) = rb_u64 r; (enc, r) = rb_u8 r; (z, r) = rb_u8 r;
          (zmin, r) = rb_u64 r; (zmax, r) = rb_u64 r in
      Some (\<lparr> pe_firstRow = firstRow, pe_numValues = n, pe_byteLen = byteLen, pe_encoding = enc, pe_zoneMin = zmin, pe_zoneMax = zmax,
              pe_hasZone = (z AND 1 \<noteq> 0) \<rparr>, r))"

definition decodePageSkipList :: "int \<Rightarrow> rbuf \<Rightarrow> (pageEntry list \<times> rbuf) option" where
  "decodePageSkipList n r = (if n < 0 then None else get_many get_page (nat n) r)"

definition get_dir :: "rbuf \<Rightarrow> (columnDir \<times> rbuf) option" where
  "get_dir r =
     (let (columnID, r) = rb_uvarint r; (firstPageOffset, r) = rb_u64 r; (totalCompressed, r) = rb_u64 r; (totalUncompressed, r) = rb_u64 r;
          (n, r) = rb_uvarint r; (numPages, r) = rb_uvarint r; (width, r) = rb_u8 r; (enc, r) = rb_u8 r; (codec, r) = rb_u8 r;
          (_, r) = rb_u64 r; (crc, r) = rb_u32 r; (flgs, r) = rb_u8 r; (zmin, r) = rb_u64 r; (zmax, r) = rb_u64 r;
          d = \<lparr> cd_columnID = sint columnID, cd_firstPageOffset = firstPageOffset, cd_totalCompressed = totalCompressed,
                cd_totalUncompressed = totalUncompressed, cd_numValues = n, cd_numPages = numPages, cd_width = width, cd_encoding = enc,
                cd_codec = codec, cd_columnCRC32C = crc, cd_zoneMin = zmin, cd_zoneMax = zmax, cd_hasZone = (flgs AND 1 \<noteq> 0), cd_pages = [] \<rparr> in
      if numPages > 1 then map_option (\<lambda>(pages, r). (d\<lparr> cd_pages := pages \<rparr>, r)) (decodePageSkipList (sint numPages) r)
      else (let (_, r) = rb_u64 r in Some (d, r)))"

definition decodeColumnDir :: "u8 list \<Rightarrow> columnDir list option" where
  "decodeColumnDir = get_counted get_dir"

definition decodeStats :: "u8 list \<Rightarrow> statsBlock" where
  "decodeStats b =
     (let r = rbuf_of b; (urlCount, r) = rb_u64 r; (hostCount, r) = rb_u64 r; (lo, r) = rb_u64 r; (hi, r) = rb_u64 r; (scheduled, r) = rb_u64 r;
          (dueMin, r) = rb_u32 r; (dueMax, r) = rb_u32 r; (comp, r) = rb_u64 r; (uncomp, r) = rb_u64 r; (bpu, r) = rb_u32 r in
      \<lparr> st_urlCount = urlCount, st_hostCount = hostCount, st_hostKeyLo = lo, st_hostKeyHi = hi, st_scheduledCount = scheduled, st_dueMin = dueMin,
        st_dueMax = dueMax, st_totalCompressed = comp, st_totalUncompressed = uncomp, st_bytesPerURL = bpu \<rparr>)"

definition get_kv :: "rbuf \<Rightarrow> ((string \<times> string) \<times> rbuf) option" where
  "get_kv r =
     (let (kl, r) = rb_uvarint r in
      case rb_bytes (sint kl) r of
        None \<Rightarrow> None
      | Some (k, r) \<Rightarrow>
          (let (vl, r) = rb_uvarint r in
           case rb_bytes (sint vl) r of None \<Rightarrow> None | Some (v, r) \<Rightarrow> Some ((string_of k, string_of v), r)))"

definition decodeMeta :: "u8 list \<Rightarrow> (string \<times> string) list option" where
  "decodeMeta = get_counted get_kv"

text \<open>One section into the parsed footer; an unknown tag is skipped.\<close>

definition footer_section :: "u64 \<Rightarrow> u8 list \<Rightarrow> footerData \<Rightarrow> footerData option" where
  "footer_section tag body f =
     (if tag = of_nat secRegions then map_option (\<lambda>x. f\<lparr> fd_regions := x \<rparr>) (decodeRegions body)
      else if tag = of_nat secURLColumns then map_option (\<lambda>x. f\<lparr> fd_urlDir := x \<rparr>) (decodeColumnDir body)
      else if tag = of_nat secHostColumns then map_option (\<lambda>x. f\<lparr> fd_hostDir := x \<rparr>) (decodeColumnDir body)
      else if tag = of_nat secStats then Some (f\<lparr> fd_stats := decodeStats body \<rparr>)
      else if tag = of_nat secKeyValueMeta then map_option (\<lambda>x. f\<lparr> fd_meta := x \<rparr>) (decodeMeta body)
      else Some f)"

lemma get_uvarint_consumes: "get_uvarint i acc bs = Some (v, n) \<Longrightarrow> i < n"
  by (induction i acc bs arbitrary: v n rule: get_uvarint.induct) (auto simp: Let_def split: if_splits dest: Suc_lessD)

lemma rb_uvarint_shrinks:
  "(v, r') = rb_uvarint r \<Longrightarrow> \<not> rb_err r' \<Longrightarrow> \<not> rb_err r \<and> length (rb_rest r') \<le> length (rb_rest r) \<and> (rb_rest r \<noteq> [] \<longrightarrow> length (rb_rest r') < length (rb_rest r))"
  by (auto simp: rb_uvarint_def rb_advance_def Uvarint_def dest: get_uvarint_consumes split: option.splits if_splits)

lemma rb_bytes_shrinks: "rb_bytes n r = Some (b, r') \<Longrightarrow> length (rb_rest r') \<le> length (rb_rest r)"
  by (auto simp: rb_bytes_def rb_need_def rb_advance_def split: if_splits prod.splits)

function footer_loop :: "rbuf \<Rightarrow> footerData \<Rightarrow> (format_error + footerData) option" where
  "footer_loop r f =
     (if rb_err r then Some (Inl ErrCorrupt)
      else if rb_rest r = [] then Some (Inr f)
      else
        (let (tag, r1) = rb_uvarint r; (n, r2) = rb_uvarint r1 in
         if rb_err r2 then Some (Inl ErrCorrupt)
         else
           (case rb_bytes (sint n) r2 of
              None \<Rightarrow> None
            | Some (body, r3) \<Rightarrow>
                if rb_err r3 then Some (Inl ErrCorrupt)
                else (case footer_section tag body f of None \<Rightarrow> None | Some f' \<Rightarrow> footer_loop r3 f'))))"
  by pat_completeness auto
termination
  by (relation "measure (\<lambda>(r, f). length (rb_rest r))") (auto dest!: rb_bytes_shrinks rb_uvarint_shrinks)

declare footer_loop.simps [simp del]

definition decodeFooter :: "u8 list \<Rightarrow> (format_error + footerData) option" where
  "decodeFooter b = footer_loop (rbuf_of b) \<lparr> fd_regions = [], fd_urlDir = [], fd_hostDir = [], fd_stats = zeroStats, fd_meta = [] \<rparr>"

section \<open>Entries read back\<close>

lemma at_bytes_eq [simp]: "at_bytes p b = at_bytes q c \<longleftrightarrow> p = q \<and> b = c"
  by (simp add: at_bytes_def)

lemma rb_bytes_read [rbuf_reads]:
  "p + length bs < 2 ^ 63 \<Longrightarrow> rb_bytes (int (length bs)) (at_bytes p (bs @ rest)) = Some (bs, at_bytes (p + length bs) rest)"
  by (simp add: rb_bytes_def rb_need_def rb_advance_def at_bytes_def)

text \<open>The law of the entries of a directory: an entry reads back and the reader stands behind it.\<close>

locale entry_codec =
  fixes put :: "'a \<Rightarrow> u8 list" and get :: "rbuf \<Rightarrow> ('a \<times> rbuf) option" and ok :: "'a \<Rightarrow> bool"
  assumes get_put: "ok x \<Longrightarrow> p + length (put x) < 2 ^ 63 \<Longrightarrow> get (at_bytes p (put x @ rest)) = Some (x, at_bytes (p + length (put x)) rest)"
begin

lemma many:
  "list_all ok xs \<Longrightarrow> p + length (concat (map put xs)) < 2 ^ 63 \<Longrightarrow>
   get_many get (length xs) (at_bytes p (concat (map put xs) @ rest)) = Some (xs, at_bytes (p + length (concat (map put xs))) rest)"
proof (induction xs arbitrary: p)
  case (Cons x xs)
  then have "get (at_bytes p (put x @ concat (map put xs) @ rest)) = Some (x, at_bytes (p + length (put x)) (concat (map put xs) @ rest))"
    by (intro get_put) simp_all
  moreover have "get_many get (length xs) (at_bytes (p + length (put x)) (concat (map put xs) @ rest))
      = Some (xs, at_bytes (p + length (put x) + length (concat (map put xs))) rest)" using Cons by (intro Cons.IH) simp_all
  ultimately show ?case by simp
qed simp

lemma counted:
  assumes "list_all ok xs" "length xs < 2 ^ 63" "length (uvarint (length xs) @ concat (map put xs)) < 2 ^ 63"
  shows "get_counted get (uvarint (length xs) @ concat (map put xs)) = Some xs"
  using many [OF assms(1), of "length (uvarint (length xs))" "[]"] assms(2,3)
  by (simp add: get_counted_def rbuf_of_at rb_uvarint_read sint_of_nat64)

end

interpretation region_entry: entry_codec put_region get_region "\<lambda>_. True"
  by unfold_locales (simp add: put_region_def get_region_def rbuf_reads)

interpretation page_entry: entry_codec put_page get_page "\<lambda>_. True"
  by unfold_locales (simp add: put_page_def get_page_def rbuf_reads)

text \<open>A directory entry that a writer produces: a column id and a page count that fit a signed int, and a skip
  list exactly when there is more than one page.\<close>

definition dir_ok :: "columnDir \<Rightarrow> bool" where
  "dir_ok d \<longleftrightarrow> 0 \<le> cd_columnID d \<and> cd_columnID d < 2 ^ 63 \<and> unat (cd_numPages d) < 2 ^ 63
     \<and> (if cd_numPages d > 1 then length (cd_pages d) = unat (cd_numPages d) else cd_pages d = [])"

lemma sint_small: "unat n < 2 ^ 63 \<Longrightarrow> sint n = int (unat n)" for n :: u64
  using sint_of_nat64 [of "unat n"] by simp

lemma sint_of_int64: "0 \<le> i \<Longrightarrow> i < 2 ^ 63 \<Longrightarrow> sint (of_int i :: u64) = i"
  using sint_of_nat64 [of "nat i"] by (simp add: nat_less_iff)

interpretation dir_entry: entry_codec put_dir get_dir dir_ok
proof
  fix d p rest assume ok: "dir_ok d" and l: "p + length (put_dir d) < 2 ^ 63"
  show "get_dir (at_bytes p (put_dir d @ rest)) = Some (d, at_bytes (p + length (put_dir d)) rest)"
  proof (cases "cd_numPages d > 1")
    case True
    then have n: "sint (cd_numPages d) = int (length (cd_pages d))" using ok by (simp add: dir_ok_def sint_small)
    have "q + length (encodePageSkipList (cd_pages d)) < 2 ^ 63 \<Longrightarrow>
        decodePageSkipList (sint (cd_numPages d)) (at_bytes q (encodePageSkipList (cd_pages d) @ rest))
        = Some (cd_pages d, at_bytes (q + length (encodePageSkipList (cd_pages d))) rest)" for q
      using page_entry.many [of "cd_pages d" q rest] by (simp add: n decodePageSkipList_def encodePageSkipList_def list_all_iff)
    then show ?thesis using True l ok by (simp add: put_dir_def get_dir_def rbuf_reads dir_ok_def sint_of_int64)
  next
    case False
    then show ?thesis using ok by (simp add: put_dir_def get_dir_def rbuf_reads dir_ok_def sint_of_int64)
  qed
qed

interpretation kv_entry: entry_codec put_kv get_kv "\<lambda>(k, v). length k < 2 ^ 63 \<and> length v < 2 ^ 63"
proof
  fix kv :: "string \<times> string" and p rest
  assume ok: "case kv of (k, v) \<Rightarrow> length k < 2 ^ 63 \<and> length v < 2 ^ 63" and l: "p + length (put_kv kv) < 2 ^ 63"
  obtain k v where kv: "kv = (k, v)" by fastforce
  have r: "q + length s < 2 ^ 63 \<Longrightarrow> rb_bytes (int (length s)) (at_bytes q (bytes_of s @ more)) = Some (bytes_of s, at_bytes (q + length s) more)" for q s more
    using rb_bytes_read [of q "bytes_of s" more] by simp
  show "get_kv (at_bytes p (put_kv kv @ rest)) = Some (kv, at_bytes (p + length (put_kv kv)) rest)"
    using ok l kv by (simp add: put_kv_def get_kv_def rb_uvarint_read sint_of_nat64 r)
qed

lemma decodeStats_put: "decodeStats (put_stats s) = s"
  using rb_u32_read [where rest = "[]"] by (simp add: decodeStats_def put_stats_def rbuf_of_at rbuf_reads)

section \<open>The footer reads back\<close>

lemma length_uvarint_pos: "0 < length (uvarint n)"
  by (subst uvarint.simps) simp

lemma count_le_bytes: "(\<And>x. x \<in> set xs \<Longrightarrow> 0 < length (put x)) \<Longrightarrow> length xs \<le> length (concat (map put xs))"
proof (induction xs)
  case (Cons x xs)
  then have "1 \<le> length (put x)" "length xs \<le> length (concat (map put xs))" by (simp_all add: Suc_le_eq)
  then show ?case unfolding list.size list.map concat.simps length_append by linarith
qed simp

lemma entry_le_bytes: "x \<in> set xs \<Longrightarrow> length (put x) \<le> length (concat (map put xs))"
  by (induction xs) auto

lemma decodeRegions_read:
  assumes "length (uvarint (length rs) @ concat (map put_region rs)) < 2 ^ 63"
  shows "decodeRegions (uvarint (length rs) @ concat (map put_region rs)) = Some rs"
  unfolding decodeRegions_def using assms count_le_bytes [of rs put_region]
  by (intro region_entry.counted) (simp_all add: list_all_iff put_region_def)

lemma decodeColumnDir_read:
  assumes "list_all dir_ok dir" "length (encodeColumnDir dir) < 2 ^ 63"
  shows "decodeColumnDir (encodeColumnDir dir) = Some dir"
  using assms count_le_bytes [of dir put_dir] unfolding decodeColumnDir_def encodeColumnDir_def
  by (intro dir_entry.counted) (simp_all add: put_dir_def)

lemma decodeMeta_read:
  assumes "length (uvarint (length kvs) @ concat (map put_kv kvs)) < 2 ^ 63"
  shows "decodeMeta (uvarint (length kvs) @ concat (map put_kv kvs)) = Some kvs"
  unfolding decodeMeta_def
proof (rule kv_entry.counted)
  have c: "length (concat (map put_kv kvs)) < 2 ^ 63" using assms by simp
  have "length kvs \<le> length (concat (map put_kv kvs))"
    by (rule count_le_bytes) (simp add: put_kv_def case_prod_unfold length_uvarint_pos del: length_greater_0_conv)
  then show "length kvs < 2 ^ 63" using c by simp
  show "list_all (\<lambda>(k, v). length k < 2 ^ 63 \<and> length v < 2 ^ 63) kvs"
    unfolding list_all_iff using entry_le_bytes [of _ kvs put_kv] c by (fastforce simp: put_kv_def)
qed (use assms in simp)

lemma footer_loop_section:
  assumes "tag < 2 ^ 64" "p + length (writeSection tag body) < 2 ^ 63"
  shows "footer_loop (at_bytes p (writeSection tag body @ rest)) f =
    (case footer_section (of_nat tag) body f of None \<Rightarrow> None | Some f' \<Rightarrow> footer_loop (at_bytes (p + length (writeSection tag body)) rest) f')"
proof -
  let ?q = "p + length (uvarint tag) + length (uvarint (length body))"
  have "rb_bytes (int (length body)) (at_bytes ?q (body @ rest)) = Some (body, at_bytes (?q + length body) rest)"
    using assms(2) by (intro rb_bytes_read) (simp add: writeSection_def)
  moreover have "uvarint tag \<noteq> []" using length_uvarint_pos [of tag] by auto
  moreover have "length body < 2 ^ 63" "length body < 2 ^ 64" using assms(2) by (simp_all add: writeSection_def)
  ultimately show ?thesis
    using assms(1) unfolding writeSection_def length_append by (subst footer_loop.simps) (simp add: rb_uvarint_read sint_of_nat64 add.assoc)
qed

lemma footer_sections:
  "footer_section (of_nat secRegions) body f = map_option (\<lambda>x. f\<lparr> fd_regions := x \<rparr>) (decodeRegions body)"
  "footer_section (of_nat secURLColumns) body f = map_option (\<lambda>x. f\<lparr> fd_urlDir := x \<rparr>) (decodeColumnDir body)"
  "footer_section (of_nat secHostColumns) body f = map_option (\<lambda>x. f\<lparr> fd_hostDir := x \<rparr>) (decodeColumnDir body)"
  "footer_section (of_nat secStats) body f = Some (f\<lparr> fd_stats := decodeStats body \<rparr>)"
  "footer_section (of_nat secKeyValueMeta) body f = map_option (\<lambda>x. f\<lparr> fd_meta := x \<rparr>) (decodeMeta body)"
  by (simp_all add: footer_section_def section_tags)

lemma tags_small: "secRegions < 2 ^ 64" "secURLColumns < 2 ^ 64" "secHostColumns < 2 ^ 64" "secStats < 2 ^ 64" "secKeyValueMeta < 2 ^ 64"
  by (simp_all add: section_tags)

lemma length_writeSection: "length body \<le> length (writeSection tag body)"
  by (simp add: writeSection_def)

lemma decodeFooter_read:
  assumes "list_all dir_ok (fd_urlDir f)" "list_all dir_ok (fd_hostDir f)" "length (encodeFooter f) < 2 ^ 63"
  shows "decodeFooter (encodeFooter f) = Some (Inr (f\<lparr> fd_meta := sort_key fst (fd_meta f) \<rparr>))"
proof -
  let ?r = "uvarint (length (fd_regions f)) @ concat (map put_region (fd_regions f))"
  let ?m = "uvarint (length (sort_key fst (fd_meta f))) @ concat (map put_kv (sort_key fst (fd_meta f)))"
  let ?s = "if fd_meta f \<noteq> [] then writeSection secKeyValueMeta ?m else []"
  have e: "encodeFooter f = writeSection secRegions ?r @ writeSection secURLColumns (encodeColumnDir (fd_urlDir f))
      @ writeSection secHostColumns (encodeColumnDir (fd_hostDir f)) @ writeSection secStats (put_stats (fd_stats f)) @ ?s"
    by (simp add: encodeFooter_def)
  have l: "length ?r < 2 ^ 63" "length (encodeColumnDir (fd_urlDir f)) < 2 ^ 63" "length (encodeColumnDir (fd_hostDir f)) < 2 ^ 63"
    using assms(3) length_writeSection [of ?r secRegions] length_writeSection [of "encodeColumnDir (fd_urlDir f)" secURLColumns]
      length_writeSection [of "encodeColumnDir (fd_hostDir f)" secHostColumns] unfolding e length_append by linarith+
  have m: "length ?m < 2 ^ 63" if "fd_meta f \<noteq> []"
    using assms(3) length_writeSection [of ?m secKeyValueMeta] that unfolding e length_append by simp
  have dec: "decodeRegions ?r = Some (fd_regions f)" "decodeColumnDir (encodeColumnDir (fd_urlDir f)) = Some (fd_urlDir f)"
      "decodeColumnDir (encodeColumnDir (fd_hostDir f)) = Some (fd_hostDir f)" "fd_meta f \<noteq> [] \<Longrightarrow> decodeMeta ?m = Some (sort_key fst (fd_meta f))"
    using l decodeRegions_read decodeColumnDir_read assms(1,2) decodeMeta_read [OF m] by blast+
  have fin: "footer_loop (at_bytes q []) g = Some (Inr g)" for q g by (simp add: footer_loop.simps)
  have tail: "footer_loop (at_bytes q ?s) g = Some (Inr (if fd_meta f \<noteq> [] then g\<lparr> fd_meta := sort_key fst (fd_meta f) \<rparr> else g))"
    if "q + length ?s < 2 ^ 63" for q g
  proof (cases "fd_meta f = []")
    case False
    then have "footer_loop (at_bytes q (writeSection secKeyValueMeta ?m @ [])) g = footer_loop (at_bytes (q + length (writeSection secKeyValueMeta ?m)) []) (g\<lparr> fd_meta := sort_key fst (fd_meta f) \<rparr>)"
      using that by (subst footer_loop_section [OF tags_small(5)]) (simp_all only: footer_sections dec option.map option.case if_True not_False_eq_True)
    then show ?thesis using False by (simp add: fin)
  qed (simp add: fin)
  note L = assms(3) [unfolded e length_append]
  show ?thesis unfolding decodeFooter_def e rbuf_of_at
    apply (subst footer_loop_section [OF tags_small(1)], use L in linarith)
    apply (simp only: footer_sections dec option.map option.case)
    apply (subst footer_loop_section [OF tags_small(2)], use L in linarith)
    apply (simp only: footer_sections dec option.map option.case)
    apply (subst footer_loop_section [OF tags_small(3)], use L in linarith)
    apply (simp only: footer_sections dec option.map option.case)
    apply (subst footer_loop_section [OF tags_small(4)], use L in linarith)
    apply (simp only: footer_sections dec option.map option.case)
    apply (subst tail, use L in linarith)
    apply (simp add: decodeStats_put)
    done
qed

section \<open>Corrupt footers\<close>











end
