(* ===== verification/FileFormat.thy ===== *)
theory FileFormat
  imports Footer
begin

text \<open>
  The partition file (\<^verbatim>\<open>format/file.go\<close>, with the region framings of \<^verbatim>\<open>format/seenset.go\<close> and
  \<^verbatim>\<open>format/blob.go\<close>): \<open>Encode\<close> lays out header, regions, footer and trailer, \<open>Decode\<close> verifies and
  reads them back.  The main theorem is the round trip of a whole partition.
\<close>

section \<open>Regions of one page\<close>

definition encodeSeensetRegion :: "(u8 list \<Rightarrow> u8 list) \<Rightarrow> u8 list \<Rightarrow> u64 \<Rightarrow> u8 \<Rightarrow> u8 list" where
  "encodeSeensetRegion zenc blob keyCount codec =
     (if blob = [] then [] else writePage zenc PageFilter EncRaw codec (ucast keyCount) 0 0 blob)"

definition decodeSeensetRegion :: "(u8 list \<Rightarrow> u8 list option) \<Rightarrow> u8 list \<Rightarrow> format_error + u8 list" where
  "decodeSeensetRegion zdec region =
     (case readPage zdec region of
        Inl e \<Rightarrow> Inl e
      | Inr (h, payload, _) \<Rightarrow> if ph_kind h \<noteq> PageFilter then Inl ErrCorrupt else Inr payload)"

definition encodeBlobRegion :: "(u8 list \<Rightarrow> u8 list) \<Rightarrow> u8 list \<Rightarrow> u8 \<Rightarrow> u8 list" where
  "encodeBlobRegion zenc arena codec =
     (if arena = [] then [] else writePage zenc PageBlob EncRaw codec (of_nat (length arena)) 0 0 arena)"

definition decodeBlobRegion :: "(u8 list \<Rightarrow> u8 list option) \<Rightarrow> u8 list \<Rightarrow> format_error + u8 list" where
  "decodeBlobRegion zdec region =
     (if region = [] then Inr []
      else (case readPage zdec region of Inl e \<Rightarrow> Inl e | Inr (_, arena, _) \<Rightarrow> Inr arena))"

section \<open>Encoding a file\<close>

text \<open>The nearest \<^verbatim>\<open>float32\<close>, ties to even, of a positive rational in the normal range: the conversion of an
  unsigned integer and the quotient of two such values.\<close>

definition f32_of :: "rat \<Rightarrow> f32" where
  "f32_of x = (let e = rat_exp x; m = round_even (x / 2 powi (e - 23)) in of_int ((e + 127) * 2 ^ 23 + (m - 2 ^ 23)))"

definition f32_div :: "f32 \<Rightarrow> f32 \<Rightarrow> f32" where
  "f32_div a b = f32_of (f32_val a / f32_val b)"

definition trailerSize :: nat where "trailerSize = 12"

definition dirTotals :: "columnDir list \<Rightarrow> u64" where
  "dirTotals dir = foldl (\<lambda>t d. t + cd_totalCompressed d) 0 dir"

definition uncompTotals :: "columnDir list \<Rightarrow> u64" where
  "uncompTotals dir = foldl (\<lambda>t d. t + cd_totalUncompressed d) 0 dir"

definition metaPairs :: "(string, string) gomap \<Rightarrow> (string \<times> string) list" where
  "metaPairs meta = meta"

definition metaMap :: "(string \<times> string) list \<Rightarrow> (string, string) gomap" where
  "metaMap pairs = foldl (\<lambda>m (k, v). mput k v m) [] pairs"

definition region_desc :: "u8 \<Rightarrow> u64 \<Rightarrow> u8 list \<Rightarrow> regionDesc" where
  "region_desc i off region = \<lparr> rg_id = i, rg_offset = off, rg_length = of_nat (length region), rg_crc = Checksum32c region, rg_flags = 0 \<rparr>"

definition Encode :: "(u8 list \<Rightarrow> u8 list) \<Rightarrow> Partition \<Rightarrow> format_error + u8 list" where
  "Encode zenc p =
     (if \<not> sortedURLs (pt_URLs p) then Inl ErrNotSorted
      else if \<not> sortedHosts (pt_Hosts p) then Inl ErrNotSorted
      else
        (let codec = pt_DefaultCodec p;
             urlOff = of_nat HeaderSize :: u64;
             (urlRegion, urlDir) = encodeColumnRegion zenc (urlColumns (pt_URLs p) codec) urlOff (pt_MaxPageRows p);
             hostOff = urlOff + of_nat (length urlRegion);
             (hostRegion, hostDir) = encodeColumnRegion zenc (hostColumns (pt_Hosts p) codec) hostOff (pt_MaxPageRows p);
             schedOff = hostOff + of_nat (length hostRegion);
             schedRegion = (if pt_BuildSchedule p then encodeScheduleRegion zenc (pt_URLs p) codec else []);
             seenOff = schedOff + of_nat (length schedRegion);
             seenRegion = encodeSeensetRegion zenc (pt_SeenFilter p) (of_nat (length (pt_URLs p))) codec;
             strOff = seenOff + of_nat (length seenRegion);
             blobRegion = encodeBlobRegion zenc (pt_Strings p) codec;
             footerOff = strOff + of_nat (length blobRegion);
             regions = [region_desc RegionURLTable urlOff urlRegion, region_desc RegionHostTable hostOff hostRegion]
               @ (if schedRegion \<noteq> [] then [region_desc RegionSchedule schedOff schedRegion] else [])
               @ (if seenRegion \<noteq> [] then [region_desc RegionSeenset seenOff seenRegion] else [])
               @ (if blobRegion \<noteq> [] then [region_desc RegionStringBlob strOff blobRegion] else []);
             (dueMin, dueMax) = dueRange (pt_URLs p);
             stats = \<lparr> st_urlCount = of_nat (length (pt_URLs p)), st_hostCount = of_nat (length (pt_Hosts p)),
               st_hostKeyLo = pt_HostKeyLo p, st_hostKeyHi = pt_HostKeyHi p, st_scheduledCount = 0, st_dueMin = dueMin, st_dueMax = dueMax,
               st_totalCompressed = dirTotals urlDir + dirTotals hostDir, st_totalUncompressed = uncompTotals urlDir + uncompTotals hostDir,
               st_bytesPerURL = (if pt_URLs p \<noteq> [] then f32_div (f32_of (of_nat (unat footerOff))) (f32_of (of_nat (length (pt_URLs p)))) else 0) \<rparr>;
             footerBytes = encodeFooter \<lparr> fd_regions = regions, fd_urlDir = urlDir, fd_hostDir = hostDir, fd_stats = stats, fd_meta = metaPairs (pt_Meta p) \<rparr>;
             flgs = FlagSorted OR (if schedRegion \<noteq> [] then FlagHasSchedule else 0) OR (if seenRegion \<noteq> [] then FlagHasSeenset else 0)
               OR (if pt_Strings p \<noteq> [] then FlagHasBlob else 0);
             h = \<lparr> hd_VersionMajor = VersionMajor, hd_VersionMinor = VersionMinor, hd_PartitionID = pt_ID p, hd_Flags = flgs,
               hd_ChecksumAlgo = ChecksumCRC32C, hd_DefaultCodec = codec, hd_HostKeyLo = pt_HostKeyLo p, hd_HostKeyHi = pt_HostKeyHi p,
               hd_URLCount = of_nat (length (pt_URLs p)), hd_HostCount = of_nat (length (pt_Hosts p)), hd_FooterOffset = footerOff,
               hd_CreatedHours = pt_CreatedHours p \<rparr> in
         Inr (Header_Encode h @ urlRegion @ hostRegion @ schedRegion @ seenRegion @ blobRegion @ footerBytes
              @ PutUint32 (of_nat (length footerBytes)) @ PutUint32 (Checksum32c footerBytes) @ Magic)))"

section \<open>Decoding a file\<close>

text \<open>The bytes a descriptor locates; \<open>verifyRegions\<close> has checked the bounds of every one that is read.\<close>

definition region_bytes :: "u8 list \<Rightarrow> regionDesc \<Rightarrow> u8 list" where
  "region_bytes b reg = take (unat (rg_length reg)) (drop (unat (rg_offset reg)) b)"

fun verifyRegions :: "u8 list \<Rightarrow> regionDesc list \<Rightarrow> format_error option" where
  "verifyRegions b [] = None"
| "verifyRegions b (reg # regions) =
     (let e = rg_offset reg + rg_length reg in
      if rg_offset reg > of_nat (length b) \<or> e > of_nat (length b) \<or> e < rg_offset reg then Some ErrCorrupt
      else if Checksum32c (region_bytes b reg) \<noteq> rg_crc reg then Some ErrChecksum
      else verifyRegions b regions)"

definition findRegion :: "regionDesc list \<Rightarrow> u8 \<Rightarrow> regionDesc option" where
  "findRegion regions i = find (\<lambda>reg. rg_id reg = i) regions"

text \<open>What follows the footer: the region checksums, the tables, the optional regions and the order of the rows.\<close>

definition decode_body :: "(u8 list \<Rightarrow> u8 list option) \<Rightarrow> u8 list \<Rightarrow> Header \<Rightarrow> footerData \<Rightarrow> (format_error + Partition) option" where
  "decode_body zdec b h f =
     (case verifyRegions b (fd_regions f) of
        Some e \<Rightarrow> Some (Inl e)
      | None \<Rightarrow>
          try_then (decodeColumnRegion zdec b (fd_urlDir f) []) (\<lambda>urlCols.
          try_then (decodeColumnRegion zdec b (fd_hostDir f) []) (\<lambda>hostCols.
          try_then (urlRecordsFromColumns urlCols (sint (hd_URLCount h))) (\<lambda>urls.
          try_then (hostRecordsFromColumns hostCols (sint (hd_HostCount h))) (\<lambda>hosts.
          try_then (case findRegion (fd_regions f) RegionSeenset of
              None \<Rightarrow> Some (Inr []) | Some reg \<Rightarrow> Some (decodeSeensetRegion zdec (region_bytes b reg))) (\<lambda>seen.
          try_then (case findRegion (fd_regions f) RegionStringBlob of
              None \<Rightarrow> Some (Inr []) | Some reg \<Rightarrow> Some (decodeBlobRegion zdec (region_bytes b reg))) (\<lambda>arena.
          if \<not> sortedURLs urls then Some (Inl ErrNotSorted)
          else Some (Inr
            \<lparr> pt_ID = hd_PartitionID h, pt_HostKeyLo = hd_HostKeyLo h, pt_HostKeyHi = hd_HostKeyHi h, pt_CreatedHours = hd_CreatedHours h,
              pt_DefaultCodec = hd_DefaultCodec h, pt_URLs = urls, pt_Hosts = hosts, pt_Strings = arena, pt_SeenFilter = seen,
              pt_BuildSchedule = (findRegion (fd_regions f) RegionSchedule \<noteq> None), pt_MaxPageRows = 0, pt_Meta = metaMap (fd_meta f) \<rparr>))))))))"

definition Decode :: "(u8 list \<Rightarrow> u8 list option) \<Rightarrow> u8 list \<Rightarrow> (format_error + Partition) option" where
  "Decode zdec b =
     (if length b < HeaderSize + trailerSize then Some (Inl ErrShortFile)
      else try_then (Some (DecodeHeader (take HeaderSize b))) (\<lambda>h.
      if drop (length b - 4) b \<noteq> Magic then Some (Inl ErrBadMagic)
      else
        (let r = rbuf_of (drop (length b - trailerSize) b); (footerLen, r) = rb_u32 r; (footerCRC, r) = rb_u32 r;
             footerStart = int (length b) - int trailerSize - int (unat footerLen) in
         if footerStart < int HeaderSize \<or> footerStart \<noteq> sint (hd_FooterOffset h) then Some (Inl ErrCorrupt)
         else
           (let footerBytes = take (unat footerLen) (drop (nat footerStart) b) in
            if Checksum32c footerBytes \<noteq> footerCRC then Some (Inl ErrChecksum)
            else try_then (decodeFooter footerBytes) (decode_body zdec b h)))))"

section \<open>The parts of a file read back\<close>

lemma encode_column_dir:
  assumes "column_ok c" "0 \<le> cl_id c" "cl_id c < 2 ^ 63" "encode_column zenc c off maxRows = (bytes, d)"
  shows "dir_ok d"
proof -
  let ?subs = "splitColumn c maxRows"
  have d: "cd_columnID d = cl_id c" "cd_numPages d = of_nat (length ?subs)" "cd_pages d = (if length ?subs > 1 then map snd (column_pages zenc ?subs 0) else [])"
    using assms(4) by (auto simp: encode_column_def case_prod_unfold Let_def)
  have "unat (cd_numPages d) = length ?subs" "length ?subs < 2 ^ 63"
    using splitColumn_parts(3) [OF assms(1), of maxRows] d by (simp_all add: of_nat_inverse_64)
  then show ?thesis using assms(2,3) d by (auto simp: dir_ok_def word_less_nat_alt)
qed

lemma encode_columns_dirs:
  "encode_columns zenc cols off maxRows region dir = (region', dir') \<Longrightarrow> list_all column_ok cols \<Longrightarrow>
   list_all (\<lambda>c. 0 \<le> cl_id c \<and> cl_id c < 2 ^ 63) cols \<Longrightarrow> list_all dir_ok dir \<Longrightarrow> list_all dir_ok dir'"
proof (induction cols arbitrary: region dir)
  case (Cons c cols)
  obtain bytes d where e: "encode_column zenc c (off + of_nat (length region)) maxRows = (bytes, d)" by fastforce
  then have "dir_ok d" using Cons.prems(2,3) encode_column_dir by fastforce
  then show ?case using Cons.prems e by (intro Cons.IH [of "region @ bytes" "dir @ [d]"]) simp_all
qed simp

lemma urlColumns_ids: "list_all (\<lambda>c. 0 \<le> cl_id c \<and> cl_id c < 2 ^ 63) (urlColumns recs codec)"
  by (simp add: urlColumns_def col_of_def url_ids)

lemma hostColumns_ids: "list_all (\<lambda>c. 0 \<le> cl_id c \<and> cl_id c < 2 ^ 63) (hostColumns recs codec)"
  by (simp add: hostColumns_def col_of_def host_ids)

text \<open>A descriptor that locates a region in a file.\<close>

definition locates :: "u8 list \<Rightarrow> regionDesc \<Rightarrow> u8 list \<Rightarrow> bool" where
  "locates b reg region \<longleftrightarrow> (\<exists>i pre post. reg = region_desc i (of_nat (length pre)) region \<and> b = pre @ region @ post)"

lemma locates_bytes: "locates b reg region \<Longrightarrow> length b < 2 ^ 32 \<Longrightarrow> region_bytes b reg = region"
  by (auto simp: locates_def region_desc_def region_bytes_def of_nat_inverse_64)

lemma locates_bounds:
  assumes "locates b reg region" "length b < 2 ^ 32"
  shows "\<not> rg_offset reg > of_nat (length b)" "\<not> rg_offset reg + rg_length reg > of_nat (length b)" "\<not> rg_offset reg + rg_length reg < rg_offset reg"
proof -
  obtain pre post where r: "rg_offset reg = of_nat (length pre)" "rg_length reg = of_nat (length region)" "b = pre @ region @ post"
    using assms(1) by (auto simp: locates_def region_desc_def)
  have "unat (of_nat (length pre) :: u64) = length pre" "unat (of_nat (length b) :: u64) = length b"
    "unat (of_nat (length pre) + of_nat (length region) :: u64) = length pre + length region"
    using assms(2) of_nat_inverse_64 [of "length pre + length region"] of_nat_inverse_64 [of "length b"] r(3) by (simp_all add: of_nat_inverse_64)
  then show "\<not> rg_offset reg > of_nat (length b)" "\<not> rg_offset reg + rg_length reg > of_nat (length b)" "\<not> rg_offset reg + rg_length reg < rg_offset reg"
    using r by (simp_all add: word_less_nat_alt not_less)
qed

lemma verifyRegions_ok:
  assumes "length b < 2 ^ 32"
  shows "list_all (\<lambda>reg. \<exists>region. locates b reg region) regions \<Longrightarrow> verifyRegions b regions = None"
proof (induction regions)
  case (Cons reg regions)
  then obtain region where l: "locates b reg region" by auto
  then have "rg_crc reg = Checksum32c region" by (auto simp: locates_def region_desc_def)
  then have "rg_crc reg = Checksum32c (region_bytes b reg)" by (simp add: locates_bytes [OF l assms])
  then show ?case using Cons locates_bounds [OF l assms] by simp
qed simp

lemma mput_new: "k \<notin> set (map fst m) \<Longrightarrow> mput k v m = m @ [(k, v)]"
  by (induction m) auto

lemma metaMap_distinct: "distinct (map fst (m @ kvs)) \<Longrightarrow> foldl (\<lambda>m (k, v). mput k v m) m kvs = m @ kvs"
proof (induction kvs arbitrary: m)
  case (Cons kv kvs)
  obtain k v where kv: "kv = (k, v)" by fastforce
  have "foldl (\<lambda>m (k, v). mput k v m) (m @ [(k, v)]) kvs = (m @ [(k, v)]) @ kvs" using Cons.prems kv by (intro Cons.IH) simp
  then show ?case using Cons.prems kv by (simp add: mput_new)
qed simp

lemma metaMap_sorted: "distinct (map fst meta) \<Longrightarrow> metaMap (sort_key fst meta) = sort_key fst meta"
  using metaMap_distinct [of "[]" "sort_key fst meta"] unfolding metaMap_def
  by (simp add: distinct_map inj_on_def)

lemma seenset_read:
  assumes "\<And>x. zdec (zenc x) = Some x" "blob \<noteq> []" "length (encodeSeensetRegion zenc blob n codec) < 2 ^ 32"
  shows "decodeSeensetRegion zdec (encodeSeensetRegion zenc blob n codec) = Inr blob"
proof -
  let ?page = "writePage zenc PageFilter EncRaw codec (ucast n) 0 0 blob"
  have e: "encodeSeensetRegion zenc blob n codec = ?page" using assms(2) by (simp add: encodeSeensetRegion_def)
  obtain h where "readPage zdec (?page @ []) = Inr (h, blob, length ?page)" "ph_kind h = PageFilter"
    by (rule readPage_writePage [of zdec zenc, OF assms(1) assms(3) [unfolded e], of "[]"]) blast
  then show ?thesis by (simp add: e decodeSeensetRegion_def)
qed

lemma blob_read:
  assumes "\<And>x. zdec (zenc x) = Some x" "arena \<noteq> []" "length (encodeBlobRegion zenc arena codec) < 2 ^ 32"
  shows "decodeBlobRegion zdec (encodeBlobRegion zenc arena codec) = Inr arena"
proof -
  let ?page = "writePage zenc PageBlob EncRaw codec (of_nat (length arena)) 0 0 arena"
  have e: "encodeBlobRegion zenc arena codec = ?page" using assms(2) by (simp add: encodeBlobRegion_def)
  obtain h where "readPage zdec (?page @ []) = Inr (h, arena, length ?page)"
    by (rule readPage_writePage [of zdec zenc, OF assms(1) assms(3) [unfolded e], of "[]"]) blast
  moreover have "?page \<noteq> []" by (simp add: writePage_def case_prod_unfold Let_def)
  ultimately show ?thesis by (simp add: e decodeBlobRegion_def)
qed

lemma page_not_empty: "writePage zenc kind enc codec n fr base payload \<noteq> []"
  by (simp add: writePage_def case_prod_unfold Let_def)

lemma region_empty_iff:
  "encodeSeensetRegion zenc blob n codec = [] \<longleftrightarrow> blob = []" "encodeBlobRegion zenc arena codec = [] \<longleftrightarrow> arena = []"
  "encodeScheduleRegion zenc recs codec = [] \<longleftrightarrow> buildScheduleIndex recs = None"
  by (auto simp: encodeSeensetRegion_def encodeBlobRegion_def encodeScheduleRegion_def page_not_empty split: option.splits)

section \<open>The layout of a file\<close>

text \<open>The optional regions of a file and the descriptors of all of them, for a file that starts with \<open>hdr\<close>.\<close>

definition schedule_of :: "(u8 list \<Rightarrow> u8 list) \<Rightarrow> Partition \<Rightarrow> u8 list" where
  "schedule_of zenc p = (if pt_BuildSchedule p then encodeScheduleRegion zenc (pt_URLs p) (pt_DefaultCodec p) else [])"

definition seenset_of :: "(u8 list \<Rightarrow> u8 list) \<Rightarrow> Partition \<Rightarrow> u8 list" where
  "seenset_of zenc p = encodeSeensetRegion zenc (pt_SeenFilter p) (of_nat (length (pt_URLs p))) (pt_DefaultCodec p)"

definition blob_of :: "(u8 list \<Rightarrow> u8 list) \<Rightarrow> Partition \<Rightarrow> u8 list" where
  "blob_of zenc p = encodeBlobRegion zenc (pt_Strings p) (pt_DefaultCodec p)"

definition opt_region :: "u8 \<Rightarrow> u8 list \<Rightarrow> u8 list \<Rightarrow> regionDesc list" where
  "opt_region i pre region = (if region \<noteq> [] then [region_desc i (of_nat (length pre)) region] else [])"

definition regions_of :: "u8 list \<Rightarrow> u8 list \<Rightarrow> u8 list \<Rightarrow> u8 list \<Rightarrow> u8 list \<Rightarrow> u8 list \<Rightarrow> regionDesc list" where
  "regions_of hdr u h sc se bl =
     [region_desc RegionURLTable (of_nat (length hdr)) u, region_desc RegionHostTable (of_nat (length (hdr @ u))) h]
     @ opt_region RegionSchedule (hdr @ u @ h) sc @ opt_region RegionSeenset (hdr @ u @ h @ sc) se @ opt_region RegionStringBlob (hdr @ u @ h @ sc @ se) bl"

lemma Encode_layout:
  assumes "Encode zenc p = Inr b"
  obtains hdr :: Header and u ud h hd and f :: footerData
  where "sortedURLs (pt_URLs p)"
    and "b = Header_Encode hdr @ u @ h @ schedule_of zenc p @ seenset_of zenc p @ blob_of zenc p @ encodeFooter f
           @ PutUint32 (of_nat (length (encodeFooter f))) @ PutUint32 (Checksum32c (encodeFooter f)) @ Magic"
    and "encodeColumnRegion zenc (urlColumns (pt_URLs p) (pt_DefaultCodec p)) (of_nat (length (Header_Encode hdr))) (pt_MaxPageRows p) = (u, ud)"
    and "encodeColumnRegion zenc (hostColumns (pt_Hosts p) (pt_DefaultCodec p)) (of_nat (length (Header_Encode hdr @ u))) (pt_MaxPageRows p) = (h, hd)"
    and "fd_urlDir f = ud" "fd_hostDir f = hd" "fd_meta f = pt_Meta p"
    and "fd_regions f = regions_of (Header_Encode hdr) u h (schedule_of zenc p) (seenset_of zenc p) (blob_of zenc p)"
    and "hd_VersionMajor hdr = VersionMajor" "hd_PartitionID hdr = pt_ID p" "hd_HostKeyLo hdr = pt_HostKeyLo p" "hd_HostKeyHi hdr = pt_HostKeyHi p"
      "hd_CreatedHours hdr = pt_CreatedHours p" "hd_DefaultCodec hdr = pt_DefaultCodec p" "hd_URLCount hdr = of_nat (length (pt_URLs p))"
      "hd_HostCount hdr = of_nat (length (pt_Hosts p))"
    and "hd_FooterOffset hdr = of_nat (length (Header_Encode hdr @ u @ h @ schedule_of zenc p @ seenset_of zenc p @ blob_of zenc p))"
proof -
  obtain u ud where u: "encodeColumnRegion zenc (urlColumns (pt_URLs p) (pt_DefaultCodec p)) (of_nat HeaderSize) (pt_MaxPageRows p) = (u, ud)" by fastforce
  obtain h hd where h: "encodeColumnRegion zenc (hostColumns (pt_Hosts p) (pt_DefaultCodec p)) (of_nat HeaderSize + of_nat (length u)) (pt_MaxPageRows p) = (h, hd)"
    by fastforce
  obtain dueMin dueMax where due: "dueRange (pt_URLs p) = (dueMin, dueMax)" by fastforce
  note fold = schedule_of_def [symmetric] seenset_of_def [symmetric] blob_of_def [symmetric]
  have s: "sortedURLs (pt_URLs p)" "sortedHosts (pt_Hosts p)" using assms by (auto simp: Encode_def split: if_splits)
  note e = assms [unfolded Encode_def Let_def u h due prod.case fold, simplified s not_True_eq_False if_False sum.inject]
  show ?thesis
    by (rule that [OF s(1) e [symmetric]])
      (simp_all add: length_Header_Encode u h regions_of_def opt_region_def metaPairs_def add.assoc)
qed

lemma regions_located:
  assumes "b = hdr @ u @ h @ sc @ se @ bl @ rest" "length b < 2 ^ 32"
  shows "list_all (\<lambda>reg. \<exists>region. locates b reg region) (regions_of hdr u h sc se bl)"
proof -
  have l: "locates b (region_desc i (of_nat (length pre)) region) region" if "b = pre @ region @ post" for i pre region post
    using that by (auto simp: locates_def)
  have "locates b (region_desc RegionURLTable (of_nat (length hdr)) u) u" "locates b (region_desc RegionHostTable (of_nat (length (hdr @ u))) h) h"
    "locates b (region_desc RegionSchedule (of_nat (length (hdr @ u @ h))) sc) sc" "locates b (region_desc RegionSeenset (of_nat (length (hdr @ u @ h @ sc))) se) se"
    "locates b (region_desc RegionStringBlob (of_nat (length (hdr @ u @ h @ sc @ se))) bl) bl"
    by (rule l [of _ _ "h @ sc @ se @ bl @ rest"], simp add: assms(1)) (rule l [of _ _ "sc @ se @ bl @ rest"], simp add: assms(1),
        rule l [of _ _ "se @ bl @ rest"], simp add: assms(1), rule l [of _ _ "bl @ rest"], simp add: assms(1), rule l [of _ _ rest], simp add: assms(1))
  then show ?thesis by (auto simp: regions_of_def opt_region_def simp del: length_append)
qed

lemma findRegion_optional:
  "findRegion (regions_of hdr u h sc se bl) RegionSchedule = (if sc \<noteq> [] then Some (region_desc RegionSchedule (of_nat (length (hdr @ u @ h))) sc) else None)"
  "findRegion (regions_of hdr u h sc se bl) RegionSeenset = (if se \<noteq> [] then Some (region_desc RegionSeenset (of_nat (length (hdr @ u @ h @ sc))) se) else None)"
  "findRegion (regions_of hdr u h sc se bl) RegionStringBlob = (if bl \<noteq> [] then Some (region_desc RegionStringBlob (of_nat (length (hdr @ u @ h @ sc @ se))) bl) else None)"
  by (simp_all add: findRegion_def regions_of_def opt_region_def region_desc_def region_ids)

lemma region_bytes_at: "length (pre @ region @ post) < 2 ^ 32 \<Longrightarrow> region_bytes (pre @ region @ post) (region_desc i (of_nat (length pre)) region) = region"
  by (rule locates_bytes) (auto simp: locates_def)

text \<open>What comes back: the same partition, its page size reset, its metadata in key order, and the schedule
  request dropped when no row was scheduled.\<close>

definition reloaded :: "Partition \<Rightarrow> Partition" where
  "reloaded p = p\<lparr> pt_MaxPageRows := 0, pt_Meta := sort_key fst (pt_Meta p),
     pt_BuildSchedule := (pt_BuildSchedule p \<and> buildScheduleIndex (pt_URLs p) \<noteq> None) \<rparr>"

text \<open>What the engine keeps of a partition it writes: rows whose host key is the high half of their key,
  addresses of sixteen bytes, fewer than \<open>2^32\<close> rows and distinct metadata keys.\<close>

definition partition_ok :: "Partition \<Rightarrow> bool" where
  "partition_ok p \<longleftrightarrow> list_all url_ok (pt_URLs p) \<and> list_all host_ok (pt_Hosts p) \<and> length (pt_URLs p) < 2 ^ 32 \<and> length (pt_Hosts p) < 2 ^ 32
     \<and> distinct (map fst (pt_Meta p))"

lemma url_table_read:
  assumes "\<And>x. zdec (zenc x) = Some x" "list_all url_ok recs" "length recs < 2 ^ 32"
    and "encodeColumnRegion zenc (urlColumns recs codec) (of_nat (length pre)) maxRows = (region, dir)" "length (pre @ region @ post) < 2 ^ 32"
  shows "\<exists>cols. decodeColumnRegion zdec (pre @ region @ post) dir [] = Some (Inr cols) \<and> urlRecordsFromColumns cols (int (length recs)) = Some (Inr recs)"
  using region_read [of zdec zenc, OF assms(1) urlColumns_ok(1) [OF assms(3)] urlColumns_ok(2) assms(4,5)] url_rows_read [OF _ assms(2)] by blast

lemma host_table_read:
  assumes "\<And>x. zdec (zenc x) = Some x" "list_all host_ok recs" "length recs < 2 ^ 32"
    and "encodeColumnRegion zenc (hostColumns recs codec) (of_nat (length pre)) maxRows = (region, dir)" "length (pre @ region @ post) < 2 ^ 32"
  shows "\<exists>cols. decodeColumnRegion zdec (pre @ region @ post) dir [] = Some (Inr cols) \<and> hostRecordsFromColumns cols (int (length recs)) = Some (Inr recs)"
  using region_read [of zdec zenc, OF assms(1) hostColumns_ok(1) [OF assms(3,2)] hostColumns_ok(2) assms(4,5)] host_rows_read [OF _ assms(2)] by blast

lemma Decode_frame:
  assumes b: "b = Header_Encode hdr @ body @ ft @ PutUint32 (of_nat (length ft)) @ PutUint32 (Checksum32c ft) @ Magic"
    and l: "length b < 2 ^ 32" and h: "hd_VersionMajor hdr = VersionMajor" "hd_FooterOffset hdr = of_nat (length (Header_Encode hdr @ body))"
  shows "Decode zdec b = try_then (decodeFooter ft) (decode_body zdec b hdr)"
proof -
  let ?t = "PutUint32 (of_nat (length ft)) @ PutUint32 (Checksum32c ft) @ Magic"
  have n: "length b = HeaderSize + length body + length ft + trailerSize" by (simp add: b length_Header_Encode trailerSize_def)
  have "take HeaderSize b = Header_Encode hdr" by (simp add: b length_Header_Encode)
  then have d: "DecodeHeader (take HeaderSize b) = Inr hdr" using DecodeHeader_Encode [OF h(1)] by simp
  have tl: "drop (length b - 4) b = Magic" "drop (length b - trailerSize) b = ?t"
    using n by (simp_all add: b trailerSize_def length_Header_Encode)
  have ft: "unat (of_nat (length ft) :: u32) = length ft" using l n by (intro of_nat_inverse_32) simp
  have off: "sint (hd_FooterOffset hdr) = int (HeaderSize + length body)" unfolding h(2) using l n by (subst sint_of_nat64) (simp_all add: length_Header_Encode)
  have start: "int (length b) - int trailerSize - int (length ft) = int (HeaderSize + length body)" using n by simp
  have fb: "take (length ft) (drop (HeaderSize + length body) b) = ft" by (simp add: b length_Header_Encode)
  have r: "rb_u32 (rbuf_of ?t) = (of_nat (length ft), at_bytes 4 (PutUint32 (Checksum32c ft) @ Magic))"
    "rb_u32 (at_bytes 4 (PutUint32 (Checksum32c ft) @ Magic)) = (Checksum32c ft, at_bytes 8 Magic)"
    by (simp_all add: rbuf_of_at rb_u32_read)
  show ?thesis unfolding Decode_def d tl r Let_def prod.case ft start off try_then_simps using n fb
    by (simp add: nat_add_distrib del: rbuf_of_def of_nat_add)
qed

lemma seenset_region_found:
  assumes z: "\<And>x. zdec (zenc x) = Some x" and b: "b = hdr @ u @ h @ sc @ seenset_of zenc p @ rest" "length b < 2 ^ 32"
  shows "(case findRegion (regions_of hdr u h sc (seenset_of zenc p) bl) RegionSeenset of
      None \<Rightarrow> Some (Inr []) | Some reg \<Rightarrow> Some (decodeSeensetRegion zdec (region_bytes b reg))) = Some (Inr (pt_SeenFilter p))"
proof (cases "pt_SeenFilter p = []")
  case False
  have "region_bytes b (region_desc RegionSeenset (of_nat (length (hdr @ u @ h @ sc))) (seenset_of zenc p)) = seenset_of zenc p"
    using region_bytes_at [of "hdr @ u @ h @ sc" "seenset_of zenc p" rest] b by simp
  moreover have "decodeSeensetRegion zdec (seenset_of zenc p) = Inr (pt_SeenFilter p)"
    unfolding seenset_of_def by (rule seenset_read [of zdec zenc, OF z False]) (use b in \<open>simp add: seenset_of_def\<close>)
  ultimately show ?thesis using False by (simp add: findRegion_optional seenset_of_def region_empty_iff del: length_append)
qed (simp add: findRegion_optional seenset_of_def region_empty_iff)

lemma blob_region_found:
  assumes z: "\<And>x. zdec (zenc x) = Some x" and b: "b = hdr @ u @ h @ sc @ se @ blob_of zenc p @ rest" "length b < 2 ^ 32"
  shows "(case findRegion (regions_of hdr u h sc se (blob_of zenc p)) RegionStringBlob of
      None \<Rightarrow> Some (Inr []) | Some reg \<Rightarrow> Some (decodeBlobRegion zdec (region_bytes b reg))) = Some (Inr (pt_Strings p))"
proof (cases "pt_Strings p = []")
  case False
  have "region_bytes b (region_desc RegionStringBlob (of_nat (length (hdr @ u @ h @ sc @ se))) (blob_of zenc p)) = blob_of zenc p"
    using region_bytes_at [of "hdr @ u @ h @ sc @ se" "blob_of zenc p" rest] b by simp
  moreover have "decodeBlobRegion zdec (blob_of zenc p) = Inr (pt_Strings p)"
    unfolding blob_of_def by (rule blob_read [of zdec zenc, OF z False]) (use b in \<open>simp add: blob_of_def\<close>)
  ultimately show ?thesis using False by (simp add: findRegion_optional blob_of_def region_empty_iff del: length_append)
qed (simp add: findRegion_optional blob_of_def region_empty_iff)

lemma schedule_region_found:
  "(findRegion (regions_of hdr u h (schedule_of zenc p) se bl) RegionSchedule \<noteq> None) = (pt_BuildSchedule p \<and> buildScheduleIndex (pt_URLs p) \<noteq> None)"
  by (simp add: findRegion_optional schedule_of_def region_empty_iff)

lemma decode_encode:
  assumes z: "\<And>x. zdec (zenc x) = Some x" and ok: "partition_ok p" and e: "Encode zenc p = Inr b" and l: "length b < 2 ^ 32"
  shows "Decode zdec b = Some (Inr (reloaded p))"
proof (rule Encode_layout [OF e])
  fix hdr :: Header and u ud h hd and f :: footerData
  let ?H = "Header_Encode hdr" and ?sc = "schedule_of zenc p" and ?se = "seenset_of zenc p" and ?bl = "blob_of zenc p"
  let ?t = "PutUint32 (of_nat (length (encodeFooter f))) @ PutUint32 (Checksum32c (encodeFooter f)) @ Magic"
  assume b: "b = ?H @ u @ h @ ?sc @ ?se @ ?bl @ encodeFooter f @ ?t"
    and u: "encodeColumnRegion zenc (urlColumns (pt_URLs p) (pt_DefaultCodec p)) (of_nat (length ?H)) (pt_MaxPageRows p) = (u, ud)"
    and h: "encodeColumnRegion zenc (hostColumns (pt_Hosts p) (pt_DefaultCodec p)) (of_nat (length (?H @ u))) (pt_MaxPageRows p) = (h, hd)"
    and f: "fd_urlDir f = ud" "fd_hostDir f = hd" "fd_meta f = pt_Meta p" "fd_regions f = regions_of ?H u h ?sc ?se ?bl"
    and hdr: "hd_VersionMajor hdr = VersionMajor" "hd_PartitionID hdr = pt_ID p" "hd_HostKeyLo hdr = pt_HostKeyLo p" "hd_HostKeyHi hdr = pt_HostKeyHi p"
      "hd_CreatedHours hdr = pt_CreatedHours p" "hd_DefaultCodec hdr = pt_DefaultCodec p" "hd_URLCount hdr = of_nat (length (pt_URLs p))"
      "hd_HostCount hdr = of_nat (length (pt_Hosts p))" "hd_FooterOffset hdr = of_nat (length (?H @ u @ h @ ?sc @ ?se @ ?bl))"
    and s: "sortedURLs (pt_URLs p)"
  have rows: "list_all url_ok (pt_URLs p)" "length (pt_URLs p) < 2 ^ 32" "list_all host_ok (pt_Hosts p)" "length (pt_Hosts p) < 2 ^ 32" "distinct (map fst (pt_Meta p))"
    using ok by (simp_all add: partition_ok_def)
  have dirs: "list_all dir_ok ud" "list_all dir_ok hd"
    using encode_columns_dirs [OF u [unfolded encodeColumnRegion_def] urlColumns_ok(1) [OF rows(2)] urlColumns_ids]
      encode_columns_dirs [OF h [unfolded encodeColumnRegion_def] hostColumns_ok(1) [OF rows(4,3)] hostColumns_ids] by simp_all
  have "length (encodeFooter f) < 2 ^ 63" using l by (simp add: b)
  then have ft: "decodeFooter (encodeFooter f) = Some (Inr (f\<lparr> fd_meta := sort_key fst (pt_Meta p) \<rparr>))"
    using decodeFooter_read [of f] dirs f by simp
  have frame: "Decode zdec b = try_then (decodeFooter (encodeFooter f)) (decode_body zdec b hdr)"
    by (rule Decode_frame [where body = "u @ h @ ?sc @ ?se @ ?bl"]) (use b l hdr in simp_all)
  have v: "verifyRegions b (fd_regions f) = None"
    unfolding f(4) by (rule verifyRegions_ok [OF l regions_located [OF b l]])
  obtain uc where uc: "decodeColumnRegion zdec b ud [] = Some (Inr uc)" "urlRecordsFromColumns uc (int (length (pt_URLs p))) = Some (Inr (pt_URLs p))"
    using url_table_read [of zdec zenc, OF z rows(1,2) u, of "h @ ?sc @ ?se @ ?bl @ encodeFooter f @ ?t"] l by (auto simp: b)
  obtain hc where hc: "decodeColumnRegion zdec b hd [] = Some (Inr hc)" "hostRecordsFromColumns hc (int (length (pt_Hosts p))) = Some (Inr (pt_Hosts p))"
    using host_table_read [of zdec zenc, OF z rows(3,4) h, of "?sc @ ?se @ ?bl @ encodeFooter f @ ?t"] l by (auto simp: b)
  have n: "sint (hd_URLCount hdr) = int (length (pt_URLs p))" "sint (hd_HostCount hdr) = int (length (pt_Hosts p))"
    using rows(2,4) hdr(7,8) by (simp_all add: sint_of_nat64)
  note found = seenset_region_found [where hdr = ?H and u = u and h = h and sc = ?sc and bl = ?bl, of zdec zenc, OF z _ l]
    blob_region_found [where hdr = ?H and u = u and h = h and sc = ?sc and se = ?se, of zdec zenc, OF z _ l]
  have "decode_body zdec b hdr (f\<lparr> fd_meta := sort_key fst (pt_Meta p) \<rparr>) = Some (Inr (reloaded p))"
    using v uc hc n s hdr rows(5) found(1) [OF b] found(2) [OF b]
    by (simp add: decode_body_def f schedule_region_found metaMap_sorted reloaded_def del: not_None_eq)
  then show "Decode zdec b = Some (Inr (reloaded p))" unfolding frame ft by simp
qed

text \<open>C10: A partition file reads back: what \<open>Encode\<close> wrote, \<open>Decode\<close> verifies and returns as the same partition,
  for every page size, codec and choice of optional regions.\<close>

theorem partition_file_roundtrip:
  assumes "\<And>x. zdec (zenc x) = Some x" "partition_ok p" "Encode zenc p = Inr b" "length b < 2 ^ 32"
  shows "Decode zdec b = Some (Inr (reloaded p))"
  using assms by (rule decode_encode)

section \<open>The size of a file\<close>

text \<open>An upper bound for a file without optional regions, page splitting and compression; it decides the size
  hypotheses above on concrete partitions.\<close>

lemma encode_column_size:
  assumes "\<And>x. length (zenc x) \<le> length x" "encode_column zenc c off 0 = (bytes, d)"
  shows "length bytes \<le> 32 + length (cl_data c)" "cd_pages d = []" "\<not> cd_numPages d > 1"
proof -
  have "length (snd (compress zenc codec x)) \<le> length x" for codec x using assms(1) by (simp add: compress_def)
  then have "length (fst (buildColumnPage zenc c fr)) \<le> 32 + length (cl_data c)" for fr
    by (auto simp: buildColumnPage_def Let_def case_prod_unfold length_writePage PageHeaderSize_def intro: order_trans less_imp_le_nat)
  then show "length bytes \<le> 32 + length (cl_data c)" "cd_pages d = []" "\<not> cd_numPages d > 1"
    using assms(2) by (auto simp: encode_column_def splitColumn_def case_prod_unfold Let_def)
qed

lemma length_put_dir: "\<not> cd_numPages d > 1 \<Longrightarrow> length (put_dir d) \<le> 94"
  using length_uvarint_10 [of "of_int (cd_columnID d)"] length_uvarint_10 [of "cd_numValues d"] length_uvarint_10 [of "cd_numPages d"]
  by (simp add: put_dir_def)

lemma encode_columns_size:
  assumes z: "\<And>x. length (zenc x) \<le> length x"
  shows "encode_columns zenc cols off 0 region dir = (region', dir') \<Longrightarrow>
   length region' \<le> length region + sum_list (map (\<lambda>c. 32 + length (cl_data c)) cols)
   \<and> length dir' = length dir + length cols
   \<and> length (concat (map put_dir dir')) \<le> length (concat (map put_dir dir)) + 94 * length cols"
proof (induction cols arbitrary: region dir)
  case (Cons c cols)
  obtain bytes d where e: "encode_column zenc c (off + of_nat (length region)) 0 = (bytes, d)" by fastforce
  then have "encode_columns zenc cols off 0 (region @ bytes) (dir @ [d]) = (region', dir')" using Cons.prems by simp
  from Cons.IH [OF this] encode_column_size [of zenc, OF z e] length_put_dir [of d] show ?case by simp
qed simp

lemma writeSection_size: "length body < 2 ^ 20 \<Longrightarrow> tag < 128 \<Longrightarrow> length (writeSection tag body) \<le> 4 + length body"
  using length_uvarint_le [of "length body" 2] length_uvarint_le [of tag 0] by (simp add: writeSection_def)

lemma column_dir_size:
  assumes "\<And>x. length (zenc x) \<le> length x" "encodeColumnRegion zenc cols off 0 = (region, dir)" "length cols < 128"
  shows "length region \<le> sum_list (map (\<lambda>c. 32 + length (cl_data c)) cols)" "length (encodeColumnDir dir) \<le> 1 + 94 * length cols"
  using encode_columns_size [of zenc, OF assms(1) assms(2) [unfolded encodeColumnRegion_def]] length_uvarint_le [of "length dir" 0] assms(3)
  by (simp_all add: encodeColumnDir_def)

lemma footer_size:
  assumes "fd_meta f = []" "length (fd_regions f) \<le> 5" "length (encodeColumnDir (fd_urlDir f)) < 2 ^ 18" "length (encodeColumnDir (fd_hostDir f)) < 2 ^ 18"
  shows "length (encodeFooter f) \<le> 200 + length (encodeColumnDir (fd_urlDir f)) + length (encodeColumnDir (fd_hostDir f))"
proof -
  let ?r = "uvarint (length (fd_regions f)) @ concat (map put_region (fd_regions f))"
  have "length (concat (map put_region (fd_regions f))) = length (fd_regions f) * 22"
    by (rule length_concat_uniform) (simp add: put_region_def)
  then have r: "length ?r \<le> 111" using length_uvarint_le [of "length (fd_regions f)" 0] assms(2) by simp
  have s: "length (put_stats (fd_stats f)) = 68" by (simp add: put_stats_def)
  show ?thesis
    using writeSection_size [of ?r secRegions] writeSection_size [of "encodeColumnDir (fd_urlDir f)" secURLColumns]
      writeSection_size [of "encodeColumnDir (fd_hostDir f)" secHostColumns] writeSection_size [of "put_stats (fd_stats f)" secStats] r s assms
    by (simp add: encodeFooter_def section_tags)
qed

lemma plain_file_size:
  assumes z: "\<And>x. length (zenc x) \<le> length x" and e: "Encode zenc p = Inr b"
    and plain: "pt_MaxPageRows p = 0" "\<not> pt_BuildSchedule p" "pt_SeenFilter p = []" "pt_Meta p = []"
  shows "length b \<le> 4500 + sum_list (map (\<lambda>c. 32 + length (cl_data c)) (urlColumns (pt_URLs p) (pt_DefaultCodec p)))
    + sum_list (map (\<lambda>c. 32 + length (cl_data c)) (hostColumns (pt_Hosts p) (pt_DefaultCodec p))) + length (pt_Strings p)"
proof (rule Encode_layout [OF e])
  fix hdr :: Header and u ud h hd and f :: footerData
  assume b: "b = Header_Encode hdr @ u @ h @ schedule_of zenc p @ seenset_of zenc p @ blob_of zenc p @ encodeFooter f
      @ PutUint32 (of_nat (length (encodeFooter f))) @ PutUint32 (Checksum32c (encodeFooter f)) @ Magic"
    and u: "encodeColumnRegion zenc (urlColumns (pt_URLs p) (pt_DefaultCodec p)) (of_nat (length (Header_Encode hdr))) (pt_MaxPageRows p) = (u, ud)"
    and h: "encodeColumnRegion zenc (hostColumns (pt_Hosts p) (pt_DefaultCodec p)) (of_nat (length (Header_Encode hdr @ u))) (pt_MaxPageRows p) = (h, hd)"
    and f: "fd_urlDir f = ud" "fd_hostDir f = hd" "fd_meta f = pt_Meta p"
      "fd_regions f = regions_of (Header_Encode hdr) u h (schedule_of zenc p) (seenset_of zenc p) (blob_of zenc p)"
  have n: "length (urlColumns (pt_URLs p) (pt_DefaultCodec p)) = 23" "length (hostColumns (pt_Hosts p) (pt_DefaultCodec p)) = 20"
    by (simp_all add: urlColumns_def hostColumns_def)
  note su = column_dir_size [of zenc, OF z u [unfolded plain]] and sh = column_dir_size [of zenc, OF z h [unfolded plain]]
  have "length (blob_of zenc p) \<le> 32 + length (pt_Strings p)"
    using z by (simp add: blob_of_def encodeBlobRegion_def length_writePage PageHeaderSize_def compress_def)
  moreover have "length (encodeFooter f) \<le> 200 + length (encodeColumnDir ud) + length (encodeColumnDir hd)"
    using footer_size [of f] su sh n f plain by (simp add: regions_of_def opt_region_def)
  moreover have "schedule_of zenc p = []" "seenset_of zenc p = []" using plain by (simp_all add: schedule_of_def seenset_of_def encodeSeensetRegion_def)
  ultimately show ?thesis using su sh n unfolding b by (simp add: length_Header_Encode HeaderSize_def)
qed

theorem partition_file_roundtrip_witness:
  "\<exists>b. Encode id (Pack 7 1 9 3 0 [zeroURL (URLKey 1 2)] [zeroHost 1] [0, 5]) = Inr b
     \<and> Decode Some b = Some (Inr (Pack 7 1 9 3 0 [zeroURL (URLKey 1 2)] [zeroHost 1] [0, 5]))"
proof -
  let ?p = "Pack 7 1 9 3 0 [zeroURL (URLKey 1 2)] [zeroHost 1] [0, 5]"
  obtain b where e: "Encode id ?p = Inr b" by (simp add: Encode_def Pack_def case_prod_unfold Let_def)
  have "length b < 2 ^ 32"
    using plain_file_size [of id, OF _ e] by (simp add: Pack_def urlColumns_def hostColumns_def col_of_def zeroHost_def zeroIP_def)
  moreover have "partition_ok ?p" by (simp add: partition_ok_def Pack_def url_ok_def host_ok_def zeroURL_def zeroHost_def zeroIP_def status_ok_def byte_status_def)
  moreover have "reloaded ?p = ?p" by (simp add: reloaded_def Pack_def)
  ultimately show ?thesis using partition_file_roundtrip [of Some id, OF _ _ e] e by auto
qed

end
