(* ===== verification/StoreFile.thy ===== *)
theory StoreFile
  imports FileFormat StoreCheckpoint
begin

text \<open>
  The durable store over the partition file: \<^verbatim>\<open>store/store.go\<close> writes its snapshots with \<^verbatim>\<open>format.Encode\<close> and
  reads them with \<^verbatim>\<open>format.Decode\<close>.  Here the file codec that the store theories leave open is the one of
  the file format, and the checkpoint is safe under hypotheses on sizes and on the zstd package alone.
\<close>

section \<open>The file codec of the store\<close>

definition file_enc :: "(u8 list \<Rightarrow> u8 list) \<Rightarrow> Partition \<Rightarrow> u8 list option" where
  "file_enc zenc p = (case Encode zenc p of Inl _ \<Rightarrow> None | Inr b \<Rightarrow> Some b)"

text \<open>A decoding error fails the open; so does a panic, which the store does not recover.\<close>

definition file_dec :: "(u8 list \<Rightarrow> u8 list option) \<Rightarrow> u8 list \<Rightarrow> Partition option" where
  "file_dec zdec b = (case Decode zdec b of Some (Inr p) \<Rightarrow> Some p | _ \<Rightarrow> None)"

section \<open>Snapshots are written and read back\<close>

lemma snapshot_pack:
  assumes "snapshotPartition s = Some part"
  obtains us lo hi where "collect_urls (st_disk s) (st_log s) (st_urls s) = Some us"
    and "part = Pack (st_id s) lo hi (st_created s) (st_codec s) (sort_key u_URLKey us)
           (sort_key h_HostKey (map (\<lambda>(k, loc). hl_rec loc) (filter (\<lambda>(k, loc). \<not> hl_tomb loc) (st_hosts s)))) (st_arena s)"
  using assms unfolding snapshotPartition_def Let_def by (auto simp: case_prod_unfold bind_eq_Some_conv)

lemma snapshot_shape:
  assumes "snapshotPartition s = Some part"
  shows "sortedURLs (pt_URLs part)" "sortedHosts (pt_Hosts part)" "pt_MaxPageRows part = 0" "\<not> pt_BuildSchedule part" "pt_SeenFilter part = []"
    "pt_Meta part = []"
  by (rule snapshot_pack [OF assms], simp add: Pack_def sortedURLs_iff sortedHosts_iff)+

lemma reloaded_plain: "pt_MaxPageRows p = 0 \<Longrightarrow> \<not> pt_BuildSchedule p \<Longrightarrow> pt_Meta p = [] \<Longrightarrow> reloaded p = p"
  by (cases p) (simp add: reloaded_def)

lemma Encode_sorted: "sortedURLs (pt_URLs p) \<Longrightarrow> sortedHosts (pt_Hosts p) \<Longrightarrow> \<exists>b. Encode zenc p = Inr b"
  by (simp add: Encode_def case_prod_unfold Let_def)

text \<open>The limits of the file format on a snapshot: addresses are sixteen bytes, rows are counted in 32 bits and
  the file stays below \<open>2^32\<close> bytes.\<close>

definition snapshot_fits :: "(u8 list \<Rightarrow> u8 list) \<Rightarrow> Partition \<Rightarrow> bool" where
  "snapshot_fits zenc part \<longleftrightarrow> list_all host_ok (pt_Hosts part) \<and> length (pt_URLs part) < 2 ^ 32 \<and> length (pt_Hosts part) < 2 ^ 32
     \<and> (case Encode zenc part of Inl _ \<Rightarrow> True | Inr b \<Rightarrow> length b < 2 ^ 32)"

lemma snapshot_file:
  assumes z: "\<And>x. zdec (zenc x) = Some x" and p: "snapshotPartition s = Some part" "list_all url_ok (pt_URLs part)" "snapshot_fits zenc part"
  shows "\<exists>img. file_enc zenc part = Some img \<and> file_dec zdec img = Some part"
proof -
  note shape = snapshot_shape [OF p(1)]
  obtain b where b: "Encode zenc part = Inr b" using Encode_sorted [OF shape(1,2)] by blast
  have "partition_ok part" "length b < 2 ^ 32" using p(2,3) shape(6) b by (simp_all add: partition_ok_def snapshot_fits_def)
  then have "Decode zdec b = Some (Inr part)" using decode_encode [of zdec zenc, OF z _ b] reloaded_plain shape by simp
  then show ?thesis using b by (simp add: file_enc_def file_dec_def)
qed

text \<open>C11: A checkpoint through the partition file keeps every row: after any sequence of calls it succeeds, and the
  directory it leaves opens, with any options, to a store that answers as the one that was checkpointed did,
  as long as the snapshot stays within the limits of the file format.\<close>

theorem checkpoint_through_the_file:
  assumes "\<And>x. zdec (zenc x) = Some x" "clean_dir (file_dec zdec) d v" "list_all cop_ok cs" "Open (file_dec zdec) d opts = Some (Inr s0)"
    "run cs s0 = Some s" "\<And>part. snapshotPartition s = Some part \<Longrightarrow> snapshot_fits zenc part"
    "file_of (st_disk s) (logFile (st_gen s + 2)) = []" "st_gen s \<noteq> - 1"
  shows "\<exists>s' s''. Store_Checkpoint (file_enc zenc) s = Some (Inr s') \<and> clean_dir (file_dec zdec) (st_disk s') (store_view s)
     \<and> Open (file_dec zdec) (st_disk s') opts' = Some (Inr s'') \<and> store_view s'' = store_view s"
proof -
  obtain v0 ops r where o: "rep v0 s ops []" "store_wf s" by (rule run_superblock [OF assms(2-5)]) blast
  have "\<exists>img. file_enc zenc part = Some img \<and> file_dec zdec img = Some part" if "snapshotPartition s = Some part" for part
    using snapshotPartition_view [OF o(1,2)] snapshot_file [of zdec zenc, OF assms(1) that _ assms(6) [OF that]] that by auto
  then show ?thesis by (rule checkpoint_keeps_view [OF assms(2-5) _ assms(7,8)])
qed

section \<open>A concrete checkpoint\<close>

lemma urlColumns_size: "sum_list (map (\<lambda>c. 32 + length (cl_data c)) (urlColumns recs codec)) \<le> 800 + 128 * length recs"
  by (simp add: urlColumns_def col_of_def length_concat o_def sum_list_triv)

lemma hostColumns_none: "sum_list (map (\<lambda>c. 32 + length (cl_data c)) (hostColumns [] codec)) = 640"
  by (simp add: hostColumns_def col_of_def)

lemma collect_urls_length: "collect_urls d l m = Some us \<Longrightarrow> length us \<le> length m"
proof (induction m arbitrary: us)
  case (Cons e m)
  obtain key loc where e: "e = (key, loc)" by fastforce
  consider "collect_urls d l m = Some us" | rec us' where "collect_urls d l m = Some us'" "us = rec # us'"
    using Cons.prems by (auto simp: e bind_eq_Some_conv split: if_splits option.splits sum.splits)
  then show ?case using Cons.IH by cases fastforce+
qed simp

lemma demo_small:
  assumes "Open dec [] demo_opts = Some (Inr s0)" "run demo_puts s0 = Some s"
  shows "length (st_urls s) \<le> 2" "st_hosts s = []" "length (st_arena s) \<le> 1"
proof -
  have o: "st_urls s0 = []" "st_hosts s0 = []" "length (st_arena s0) \<le> 1"
    using assms(1) by (auto simp: Open_def readSuperblock_def Store_recover_def replay_tail_def openLog_def file_of_def fresh_store_def Let_def setLSN_def)
  have s: "s = snd (Store_PutURL (zeroURL (URLKey 1 3)) (snd (Store_PutURL demo_row s0)))" using assms(2) by (simp add: demo_puts_def)
  have k: "u_URLKey (zeroURL (URLKey 1 3)) = URLKey 1 3" by (simp add: zeroURL_def)
  show "length (st_urls s) \<le> 2" "st_hosts s = []" "length (st_arena s) \<le> 1"
    unfolding s using o demo_open [OF assms(1)] by (auto simp: Store_PutURL_def Let_def trackResident_def demo_opts_def k split: prod.splits)
qed

lemma demo_fits:
  assumes "Open dec [] demo_opts = Some (Inr s0)" "run demo_puts s0 = Some s" "snapshotPartition s = Some part"
  shows "snapshot_fits id part"
proof (rule snapshot_pack [OF assms(3)])
  fix us lo hi
  assume us: "collect_urls (st_disk s) (st_log s) (st_urls s) = Some us"
    and part: "part = Pack (st_id s) lo hi (st_created s) (st_codec s) (sort_key u_URLKey us)
           (sort_key h_HostKey (map (\<lambda>(k, loc). hl_rec loc) (filter (\<lambda>(k, loc). \<not> hl_tomb loc) (st_hosts s)))) (st_arena s)"
  note small = demo_small [OF assms(1,2)] and shape = snapshot_shape [OF assms(3)]
  have p: "pt_Hosts part = []" "length (pt_URLs part) \<le> 2" "length (pt_Strings part) \<le> 1"
    using small collect_urls_length [OF us] by (simp_all add: part Pack_def)
  have "length b < 2 ^ 32" if "Encode id part = Inr b" for b
    using plain_file_size [of id, OF _ that shape(3-6)] urlColumns_size [of "pt_URLs part" "pt_DefaultCodec part"] p by (simp add: hostColumns_none)
  then show "snapshot_fits id part" using p by (auto simp: snapshot_fits_def split: sum.splits)
qed

theorem checkpoint_through_the_file_witness:
  "\<exists>s0 s s' s''. Open (file_dec Some) [] demo_opts = Some (Inr s0) \<and> run demo_puts s0 = Some s
     \<and> Store_Checkpoint (file_enc id) s = Some (Inr s') \<and> Open (file_dec Some) (st_disk s') demo_opts = Some (Inr s'')
     \<and> store_view s'' = store_view s \<and> fst (store_view s) (URLKey 1 2) = Some demo_row"
proof -
  obtain s0 v0 ops where t: "Open (file_dec Some) [] demo_opts = Some (Inr s0)" "rep v0 s0 ops []" "empty_view = do_ops (map snd ops) v0"
    by (rule Open_clean [OF fresh_dir_clean, of "file_dec Some" demo_opts])
  from run_rep [OF t(2) demo_puts_ok] obtain s new where r: "run demo_puts s0 = Some s" "rep v0 s (ops @ new) []" "map snd new = writes demo_puts" by auto
  note sp = demo_spilled [OF t(1) r(1)]
  have v: "fst (store_view s) (URLKey 1 2) = Some demo_row"
    using store_view_rep [OF r(2)] r(3) t(3) by (simp add: demo_puts_def do_op_proj zeroURL_def flip: t(3))
  have "st_gen s \<noteq> - 1" using sp(3) by simp
  from checkpoint_through_the_file [of Some id, OF _ fresh_dir_clean demo_puts_ok t(1) r(1) demo_fits [OF t(1) r(1)] sp(2) this, of demo_opts] r(1) v t(1)
  show ?thesis by auto
qed

end
