(* ===== verification/Ribbon.thy ===== *)
theory Ribbon
  imports SeenSet Encoding
begin

unbundle bit_operations_syntax

text \<open>
  The ribbon filter, the static form of the resident filter (\<^verbatim>\<open>dedup/ribbon.go\<close>, and the dispatch of
  \<^verbatim>\<open>dedup/serialize.go\<close>): a banded system of equations over GF(2) is solved by elimination on the diagonal
  and back-substitution, and a query compares the sum over a band with a fingerprint.  The main fact is
  that every key the filter was built over is found, whatever the hash does.
\<close>

section \<open>Hashing a key to its band\<close>

definition ribbonWidth :: nat where "ribbonWidth = 64"
definition defaultRibbonR :: nat where "defaultRibbonR = 7"
definition maxRibbonSeeds :: nat where "maxRibbonSeeds = 64"
definition maxRibbonGrows :: nat where "maxRibbonGrows = 4"
definition maxRibbonRBits :: nat where "maxRibbonRBits = 16"
definition ribbonHeaderSize :: nat where "ribbonHeaderSize = 24"

datatype ribbon_error = errRibbonBuild

record ribbon =
  rn_z :: "u16 list"
  rn_m :: nat
  rn_rbits :: nat
  rn_seed :: u32
  rn_n :: u64

definition ribbonMix :: "u64 \<Rightarrow> u64" where
  "ribbonMix x =
     (let x = x XOR drop_bit 33 x; x = x * 0xFF51AFD7ED558CCD; x = x XOR drop_bit 33 x; x = x * 0xC4CEB9FE1A85EC53 in
      x XOR drop_bit 33 x)"

definition ribbonHash :: "URLKey \<Rightarrow> u32 \<Rightarrow> u64 \<times> u64" where
  "ribbonHash key seed =
     (let s = ucast seed * 0x9E3779B97F4A7C15 + 0x165667B19E3779F9 in
      (ribbonMix (HostKey key XOR s XOR (PathKey key * 0xD6E8FEB86659FD93)),
       ribbonMix (PathKey key XOR (s * 0xC2B2AE3D27D4EB4F) XOR (HostKey key * 0x9E3779B97F4A7C15))))"

definition ribbonDerive :: "URLKey \<Rightarrow> u32 \<Rightarrow> nat \<Rightarrow> nat \<Rightarrow> nat \<times> u64 \<times> u16" where
  "ribbonDerive key seed m rbits =
     (let (a, b) = ribbonHash key seed; startRange = of_nat (m - ribbonWidth + 1) in
      (unat (a mod startRange), b OR 1, ucast (drop_bit (64 - rbits) (ribbonMix (a XOR push_bit 1 b)))))"

section \<open>Building the filter\<close>

text \<open>\<^verbatim>\<open>bits.TrailingZeros64\<close>.\<close>

definition TrailingZeros64 :: "u64 \<Rightarrow> nat" where
  "TrailingZeros64 x = length (takeWhile (\<lambda>k. \<not> bit x k) [0..<64])"

text \<open>One equation into the banded system: the loop of \<^verbatim>\<open>solveRibbon\<close>.  The slot index grows in every round,
  so the loop ends at the end of the table at the latest.\<close>

function ribbon_insert :: "u64 list \<Rightarrow> u16 list \<Rightarrow> nat \<Rightarrow> u64 \<Rightarrow> u16 \<Rightarrow> (u64 list \<times> u16 list) option" where
  "ribbon_insert rows rhs i cr b =
     (if cr = 0 then (if b \<noteq> 0 then None else Some (rows, rhs))
      else
        (let j = TrailingZeros64 cr; i = i + j; cr = drop_bit j cr in
         if i \<ge> length rows then None
         else if rows ! i = 0 then Some (rows[i := cr], rhs[i := b])
         else ribbon_insert rows rhs (i + 1) (drop_bit 1 (cr XOR rows ! i)) (b XOR rhs ! i)))"
  by pat_completeness auto
termination
  by (relation "measure (\<lambda>(rows, rhs, i, cr, b). length rows - i)") auto

declare ribbon_insert.simps [simp del]

fun ribbon_rows :: "URLKey list \<Rightarrow> nat \<Rightarrow> u32 \<Rightarrow> nat \<Rightarrow> u64 list \<Rightarrow> u16 list \<Rightarrow> (u64 list \<times> u16 list) option" where
  "ribbon_rows [] rbits seed m rows rhs = Some (rows, rhs)"
| "ribbon_rows (key # keys) rbits seed m rows rhs =
     (let (start, coeff, fp) = ribbonDerive key seed m rbits in
      case ribbon_insert rows rhs start coeff fp of
        None \<Rightarrow> None
      | Some (rows, rhs) \<Rightarrow> ribbon_rows keys rbits seed m rows rhs)"

lemma and_pred_less: "msk \<noteq> 0 \<Longrightarrow> unat (msk AND (msk - 1)) < unat msk" for msk :: u64
proof -
  assume "msk \<noteq> 0"
  moreover have "msk AND (msk - 1) \<le> msk - 1" by (rule word_and_le1)
  ultimately show ?thesis by (metis measure_unat word_le_nat_alt order_le_less_trans)
qed

text \<open>The sum of the slots a mask selects from a position on, one set bit per round.\<close>

function band_loop :: "u16 list \<Rightarrow> nat \<Rightarrow> u64 \<Rightarrow> u16 \<Rightarrow> u16" where
  "band_loop z i msk v =
     (if msk = 0 then v
      else
        (let k = TrailingZeros64 msk; p = i + k; v = (if p < length z then v XOR z ! p else v) in
         band_loop z i (msk AND (msk - 1)) v))"
  by pat_completeness auto
termination
  by (relation "measure (\<lambda>(z, i, msk, v). unat msk)") (use and_pred_less in auto)

declare band_loop.simps [simp del]

definition back_substitute :: "u64 list \<Rightarrow> u16 list \<Rightarrow> u16 list" where
  "back_substitute rows rhs =
     foldl (\<lambda>z i. if rows ! i = 0 then z else z[i := band_loop z i (rows ! i AND NOT 1) (rhs ! i)])
       (replicate (length rows) 0) (rev [0..<length rows])"

definition solveRibbon :: "URLKey list \<Rightarrow> nat \<Rightarrow> u32 \<Rightarrow> nat \<Rightarrow> u16 list option" where
  "solveRibbon keys rbits seed m =
     map_option (\<lambda>(rows, rhs). back_substitute rows rhs) (ribbon_rows keys rbits seed m (replicate m 0) (replicate m 0))"

fun try_seeds :: "URLKey list \<Rightarrow> nat \<Rightarrow> nat \<Rightarrow> nat list \<Rightarrow> (nat \<times> u16 list) option" where
  "try_seeds keys rbits m [] = None"
| "try_seeds keys rbits m (seed # seeds) =
     (case solveRibbon keys rbits (of_nat seed) m of Some z \<Rightarrow> Some (seed, z) | None \<Rightarrow> try_seeds keys rbits m seeds)"

fun try_sizes :: "URLKey list \<Rightarrow> nat \<Rightarrow> nat \<Rightarrow> nat \<Rightarrow> (nat \<times> nat \<times> u16 list) option" where
  "try_sizes keys rbits 0 m = None"
| "try_sizes keys rbits (Suc grows) m =
     (case try_seeds keys rbits m [0..<maxRibbonSeeds] of
        Some (seed, z) \<Rightarrow> Some (m, seed, z)
      | None \<Rightarrow> try_sizes keys rbits grows (m + (m div 20 + ribbonWidth)))"

text \<open>The load factor is the double nearest to 0.90.\<close>

definition ribbon_slots :: "nat \<Rightarrow> nat" where
  "ribbon_slots n = max (nat \<lceil>fl64 (fl64 (of_nat n) / fl64 (9 / 10))\<rceil>) (ribbonWidth * 2)"

definition buildRibbon :: "URLKey list \<Rightarrow> nat \<Rightarrow> ribbon_error + ribbon" where
  "buildRibbon keys rbits =
     (case try_sizes keys rbits maxRibbonGrows (ribbon_slots (length keys)) of
        None \<Rightarrow> Inl errRibbonBuild
      | Some (m, seed, z) \<Rightarrow> Inr \<lparr> rn_z = z, rn_m = m, rn_rbits = rbits, rn_seed = of_nat seed, rn_n = of_nat (length keys) \<rparr>)"

definition ribbon_query :: "ribbon \<Rightarrow> URLKey \<Rightarrow> bool" where
  "ribbon_query rb key =
     (let (start, coeff, fp) = ribbonDerive key (rn_seed rb) (rn_m rb) (rn_rbits rb) in band_loop (rn_z rb) start coeff 0 = fp)"

section \<open>Serialized form\<close>

text \<open>The bit packer: whole bytes leave the accumulator after every value.  The output slice of the source
  has the length of the bytes written, see \<open>length_packBits\<close>, so writing by index is appending.\<close>

function flush_bytes :: "u64 \<Rightarrow> nat \<Rightarrow> u8 list \<Rightarrow> u64 \<times> nat \<times> u8 list" where
  "flush_bytes acc nbits out = (if nbits \<ge> 8 then flush_bytes (drop_bit 8 acc) (nbits - 8) (out @ [ucast acc]) else (acc, nbits, out))"
  by pat_completeness auto
termination
  by (relation "measure (\<lambda>(acc, nbits, out). nbits)") auto

declare flush_bytes.simps [simp del]

definition pack_step :: "nat \<Rightarrow> u64 \<times> nat \<times> u8 list \<Rightarrow> u16 \<Rightarrow> u64 \<times> nat \<times> u8 list" where
  "pack_step rbits = (\<lambda>(acc, nbits, out) v. flush_bytes (acc OR push_bit nbits (ucast v AND (push_bit rbits 1 - 1))) (nbits + rbits) out)"

definition packBits :: "u16 list \<Rightarrow> nat \<Rightarrow> u8 list" where
  "packBits z rbits = (case foldl (pack_step rbits) (0, 0, []) z of (acc, nbits, out) \<Rightarrow> if nbits > 0 then out @ [ucast acc] else out)"

function refill :: "nat \<Rightarrow> u64 \<Rightarrow> nat \<Rightarrow> u8 list \<Rightarrow> u64 \<times> nat \<times> u8 list" where
  "refill rbits acc nbits b =
     (if nbits < rbits then
        (case b of
           [] \<Rightarrow> refill rbits acc (nbits + 8) []
         | x # b' \<Rightarrow> refill rbits (acc OR push_bit nbits (ucast x)) (nbits + 8) b')
      else (acc, nbits, b))"
  by pat_completeness auto
termination
  by (relation "measure (\<lambda>(rbits, acc, nbits, b). rbits - nbits)") auto

declare refill.simps [simp del]

fun unpack_loop :: "nat \<Rightarrow> nat \<Rightarrow> u64 \<Rightarrow> nat \<Rightarrow> u8 list \<Rightarrow> u16 list" where
  "unpack_loop rbits 0 acc nbits b = []"
| "unpack_loop rbits (Suc n) acc nbits b =
     (let (acc, nbits, b) = refill rbits acc nbits b in
      ucast (acc AND (push_bit rbits 1 - 1)) # unpack_loop rbits n (drop_bit rbits acc) (nbits - rbits) b)"

definition unpackBits :: "u8 list \<Rightarrow> nat \<Rightarrow> nat \<Rightarrow> u16 list" where
  "unpackBits b cnt rbits = unpack_loop rbits cnt 0 0 b"

definition ribbon_marshal :: "ribbon \<Rightarrow> u8 list" where
  "ribbon_marshal rb =
     [filterBlobVersion, filterKindRibbon, of_nat (rn_rbits rb), 0] @ PutUint32 (rn_seed rb) @ PutUint64 (rn_n rb) @ PutUint64 (of_nat (rn_m rb))
     @ packBits (rn_z rb) (rn_rbits rb)"

text \<open>Integer division of Go truncates towards zero.\<close>

definition go_div :: "int \<Rightarrow> int \<Rightarrow> int" where
  "go_div a b = sgn a * sgn b * (\<bar>a\<bar> div \<bar>b\<bar>)"

text \<open>The number of slots is a signed int and its product with the width wraps; a slice of more than \<open>2^48\<close>
  bytes, the address space of the runtime, is a panic of \<open>make\<close>, here \<open>None\<close>.\<close>

definition unmarshalRibbon :: "u8 list \<Rightarrow> (filter_error + ribbon) option" where
  "unmarshalRibbon b =
     (if length b < ribbonHeaderSize then Some (Inl errBadFilterBlob)
      else
        (let rbits = unat (b ! 2) in
         if rbits = 0 \<or> rbits > maxRibbonRBits then Some (Inl errBadFilterBlob)
         else
           (let seed = Uint32 (take 4 (drop 4 b)); n = Uint64 (take 8 (drop 8 b)); m = Uint64 (take 8 (drop 16 b)) in
            if sint m \<le> 0 \<or> sint m < int ribbonWidth then Some (Inl errBadFilterBlob)
            else
              (let body = drop ribbonHeaderSize b in
               if int (length body) \<noteq> go_div (sint (m * of_nat rbits + 7)) 8 then Some (Inl errBadFilterBlob)
               else if 2 * unat m > 2 ^ 48 then None
               else Some (Inr \<lparr> rn_z = unpackBits body (unat m) rbits, rn_m = unat m, rn_rbits = rbits, rn_seed = seed, rn_n = n \<rparr>)))))"

datatype ResidentFilter = BloomResident filter_t | RibbonResident ribbon

definition UnmarshalFilter :: "u8 list \<Rightarrow> (filter_error + ResidentFilter) option" where
  "UnmarshalFilter b =
     (if length b < 2 \<or> b ! 0 \<noteq> filterBlobVersion then Some (Inl errBadFilterBlob)
      else if b ! 1 = filterKindBlockedBloom then Some (map_sum id BloomResident (unmarshalBloom b))
      else if b ! 1 = filterKindRibbon then map_option (map_sum id RibbonResident) (unmarshalRibbon b)
      else Some (Inl errBadFilterBlob))"

fun ResidentFilter_MaybeContains :: "ResidentFilter \<Rightarrow> URLKey \<Rightarrow> bool" where
  "ResidentFilter_MaybeContains (BloomResident f) key = maybeSeen f key"
| "ResidentFilter_MaybeContains (RibbonResident rb) key = ribbon_query rb key"

fun ResidentFilter_Len :: "ResidentFilter \<Rightarrow> u64" where
  "ResidentFilter_Len (BloomResident f) = f_n f"
| "ResidentFilter_Len (RibbonResident rb) = rn_n rb"

definition ribbon_bitsPerURL :: "ribbon \<Rightarrow> rat" where
  "ribbon_bitsPerURL rb =
     (if rn_n rb = 0 then 0
      else fl64 (fl64 (fl64 (of_nat (rn_m rb)) * fl64 (of_nat (rn_rbits rb))) / fl64 (of_nat (unat (rn_n rb)))))"

fun ResidentFilter_BitsPerURL :: "ResidentFilter \<Rightarrow> rat" where
  "ResidentFilter_BitsPerURL (BloomResident f) = bitsPerKey f"
| "ResidentFilter_BitsPerURL (RibbonResident rb) = ribbon_bitsPerURL rb"

text \<open>The option clamps the fingerprint width.\<close>

definition WithRibbonBits :: "int \<Rightarrow> nat \<Rightarrow> nat" where
  "WithRibbonBits bits rbits = (if bits \<ge> 1 \<and> bits \<le> int maxRibbonRBits then nat bits else rbits)"

definition BuildRibbonFilter :: "URLKey list \<Rightarrow> int list \<Rightarrow> ribbon_error + u8 list" where
  "BuildRibbonFilter keys opts = map_sum id ribbon_marshal (buildRibbon keys (fold WithRibbonBits opts defaultRibbonR))"

definition MarshalRibbon :: "SeenSet \<Rightarrow> int list \<Rightarrow> ribbon_error + u8 list" where
  "MarshalRibbon s opts = BuildRibbonFilter (exact_keys (s_exact s)) opts"

section \<open>Sums over a band\<close>

text \<open>The sum over GF(2) of the terms a list of positions selects, and the sum a coefficient row denotes:
  the reference for the loop over the set bits.\<close>

fun xsum :: "(nat \<Rightarrow> u16) \<Rightarrow> nat list \<Rightarrow> u16" where
  "xsum f [] = 0"
| "xsum f (k # ks) = f k XOR xsum f ks"

definition slot :: "u16 list \<Rightarrow> nat \<Rightarrow> u16" where
  "slot z p = (if p < length z then z ! p else 0)"

definition band :: "u16 list \<Rightarrow> nat \<Rightarrow> u64 \<Rightarrow> u16" where
  "band z i cr = xsum (\<lambda>k. if bit cr k then slot z (i + k) else 0) [0..<64]"

lemma xsum_xor: "xsum (\<lambda>k. f k XOR g k) ks = xsum f ks XOR xsum g ks"
  by (induction ks) (simp_all add: ac_simps)

lemma xsum_append [simp]: "xsum f (ks @ ls) = xsum f ks XOR xsum f ls"
  by (induction ks) (simp_all add: ac_simps)

lemma xsum_zero: "(\<And>k. k \<in> set ks \<Longrightarrow> f k = 0) \<Longrightarrow> xsum f ks = 0"
  by (induction ks) simp_all

lemma xsum_cong: "(\<And>k. k \<in> set ks \<Longrightarrow> f k = g k) \<Longrightarrow> xsum f ks = xsum g ks"
  by (induction ks) simp_all

lemma xsum_map: "xsum f (map h ks) = xsum (\<lambda>k. f (h k)) ks"
  by (induction ks) simp_all

lemma band_xor: "band z i (a XOR b) = band z i a XOR band z i b"
  unfolding band_def xsum_xor [symmetric] by (rule xsum_cong) (auto simp: bit_xor_iff)

lemma band_0 [simp]: "band z i 0 = 0"
  by (simp add: band_def xsum_zero)

lemma band_shift:
  assumes "j \<le> 64" "\<And>k. k < j \<Longrightarrow> \<not> bit cr k"
  shows "band z i cr = band z (i + j) (drop_bit j cr)"
proof -
  let ?f = "\<lambda>k. if bit cr k then slot z (i + k) else 0"
  have "[0..<64] = [0..<j] @ map (\<lambda>k. k + j) [0..<64 - j]" using assms(1) upt_add_eq_append [of 0 j "64 - j"] by (simp add: map_add_upt)
  then have "band z i cr = xsum (\<lambda>k. ?f (k + j)) [0..<64 - j]" using assms(2) xsum_zero [of "[0..<j]" ?f] by (simp add: band_def xsum_map)
  moreover have "[0..<64] = [0..<64 - j] @ [64 - j..<64]" using assms(1) upt_add_eq_append [of 0 "64 - j" j] by simp
  moreover have "xsum (\<lambda>k. ?f (k + j)) [64 - j..<64] = 0" by (rule xsum_zero) (auto dest: bit_imp_le_length)
  ultimately have "band z (i + j) (drop_bit j cr) = xsum (\<lambda>k. ?f (k + j)) [0..<64 - j] \<and> band z i cr = xsum (\<lambda>k. ?f (k + j)) [0..<64 - j]"
    by (simp add: band_def bit_drop_bit_eq ac_simps cong: if_cong)
  then show ?thesis by simp
qed

lemma TrailingZeros64_spec:
  assumes "x \<noteq> 0"
  shows "TrailingZeros64 x < 64" "bit x (TrailingZeros64 x)" "k < TrailingZeros64 x \<Longrightarrow> \<not> bit x k"
proof -
  let ?t = "takeWhile (\<lambda>k. \<not> bit x k) [0..<64]"
  obtain n where n: "bit x n" "n < 64" using assms bit_imp_le_length [of x] by (auto simp: bit_eq_iff)
  have nth: "?t ! k = k" if "k < length ?t" for k 
    using that length_takeWhile_le [of "\<lambda>k. \<not> bit x k" "[0..<64]"] by (simp add: takeWhile_nth)
  show l: "TrailingZeros64 x < 64"
  proof (rule ccontr)
    assume "\<not> TrailingZeros64 x < 64"
    then have "length ?t = 64" using length_takeWhile_le [of "\<lambda>k. \<not> bit x k" "[0..<64]"] by (simp add: TrailingZeros64_def)
    then show False using nth [of n] n nth_mem [of n ?t] set_takeWhileD by metis
  qed
  then show "bit x (TrailingZeros64 x)" using nth_length_takeWhile [of "\<lambda>k. \<not> bit x k" "[0..<64]"] by (simp add: TrailingZeros64_def)
  show "\<not> bit x k" if "k < TrailingZeros64 x"
    using nth [of k] that nth_mem [of k ?t] set_takeWhileD unfolding TrailingZeros64_def by metis
qed

lemma clear_lowest:
  assumes "x \<noteq> 0"
  shows "bit (x AND (x - 1)) n \<longleftrightarrow> bit x n \<and> n \<noteq> TrailingZeros64 x"
proof -
  let ?k = "TrailingZeros64 x" and ?a = "unset_bit (TrailingZeros64 x) x"
  note k = TrailingZeros64_spec [OF assms]
  have a: "bit ?a n \<longleftrightarrow> bit x n \<and> n \<noteq> ?k" for n by (auto simp: bit_unset_bit_iff)
  have lo: "?k < n" if "bit ?a n" for n using that k(3) [of n] by (metis a linorder_neqE_nat)
  have "?a AND 2 ^ ?k = 0" by (rule bit_eqI) (auto simp: bit_and_iff bit_exp_iff a)
  then have "?a + 2 ^ ?k = ?a OR 2 ^ ?k" by (rule disjunctive_add_eq_or)
  moreover have "?a OR 2 ^ ?k = x" using k(1,2) by (intro bit_eqI) (auto simp: bit_or_iff bit_exp_iff a)
  ultimately have "x - 1 = ?a + mask ?k" by (simp add: mask_eq_exp_minus_1)
  moreover have "?a AND mask ?k = 0" using lo by (intro bit_eqI) (auto simp: bit_and_iff bit_mask_iff dest: order_less_asym)
  then have "?a + mask ?k = ?a OR mask ?k" by (rule disjunctive_add_eq_or)
  ultimately have "bit (x - 1) n \<longleftrightarrow> bit ?a n \<or> n < 64 \<and> n < ?k" by (simp add: bit_or_iff bit_mask_iff)
  then show ?thesis using k(3) [of n] lo [of n] by (auto simp: bit_and_iff a)
qed

lemma band_split_lowest:
  assumes "x \<noteq> 0"
  shows "band z i x = slot z (i + TrailingZeros64 x) XOR band z i (x AND (x - 1))"
proof -
  let ?k = "TrailingZeros64 x"
  have "[0..<64] = [0..<?k] @ ?k # [Suc ?k..<64]" using TrailingZeros64_spec(1) [OF assms] by (metis upt_add_eq_append less_imp_le_nat le_add_diff_inverse upt_conv_Cons zero_le)
  moreover have "xsum (\<lambda>k. if bit x k then slot z (i + k) else 0) ks = xsum (\<lambda>k. if bit (x AND (x - 1)) k then slot z (i + k) else 0) ks"
    if "?k \<notin> set ks" for ks using that by (intro xsum_cong) (auto simp: clear_lowest [OF assms])
  ultimately show ?thesis unfolding band_def using TrailingZeros64_spec(2) [OF assms] by (simp add: clear_lowest [OF assms] ac_simps)
qed

text \<open>The loop over the set bits computes the sum the row denotes.\<close>

lemma band_loop_band: "band_loop z i x v = v XOR band z i x"
proof (induction z i x v rule: band_loop.induct)
  case (1 z i x v)
  show ?case
  proof (cases "x = 0")
    case False
    then show ?thesis using 1 band_split_lowest [OF False, of z i] by (subst band_loop.simps) (auto simp: Let_def slot_def ac_simps)
  qed (simp add: band_loop.simps)
qed

section \<open>The system and its solution\<close>

text \<open>Every occupied row has its pivot on the diagonal; a table solves the system when every occupied row
  sums to its right-hand side.\<close>

definition pivots :: "u64 list \<Rightarrow> bool" where
  "pivots rows \<longleftrightarrow> list_all (\<lambda>r. r \<noteq> 0 \<longrightarrow> bit r 0) rows"

definition sat :: "u64 list \<Rightarrow> u16 list \<Rightarrow> u16 list \<Rightarrow> bool" where
  "sat rows rhs z \<longleftrightarrow> (\<forall>i < length rows. rows ! i \<noteq> 0 \<longrightarrow> band z i (rows ! i) = rhs ! i)"

lemma band_normalized:
  assumes "cr \<noteq> 0"
  shows "band z i cr = band z (i + TrailingZeros64 cr) (drop_bit (TrailingZeros64 cr) cr)" "bit (drop_bit (TrailingZeros64 cr) cr) 0"
  using TrailingZeros64_spec [OF assms] by (auto intro!: band_shift simp: bit_drop_bit_eq)

lemma band_cancel:
  assumes "bit a 0" "bit b 0"
  shows "band z i (a XOR b) = band z (i + 1) (drop_bit 1 (a XOR b))"
  using assms by (intro band_shift) (auto simp: bit_xor_iff less_Suc_eq)

lemma xor_swap: "a XOR c = b XOR c \<longleftrightarrow> a = b" for a :: "'a :: len word"
  by (metis xor.assoc xor.comm_neutral xor_self_eq)

text \<open>Inserting an equation: whatever solves the system after it solves the system before it and the
  equation.\<close>

lemma ribbon_insert_sound:
  assumes "ribbon_insert rows rhs i cr b = Some (rows', rhs')" "pivots rows" "length rhs = length rows"
  shows "length rows' = length rows \<and> length rhs' = length rows \<and> pivots rows' \<and> (sat rows' rhs' z \<longrightarrow> sat rows rhs z \<and> band z i cr = b)"
  using assms
proof (induction rows rhs i cr b rule: ribbon_insert.induct)
  case (1 rows rhs i cr b)
  show ?case
  proof (cases "cr = 0")
    case True
    then show ?thesis using 1(2-) by (auto simp: ribbon_insert.simps split: if_splits)
  next
    case False
    define k c where "k = i + TrailingZeros64 cr" and "c = drop_bit (TrailingZeros64 cr) cr"
    note n = band_normalized(1) [OF False, of z i, folded k_def c_def] band_normalized(2) [OF False, folded c_def]
    have step: "ribbon_insert rows rhs i cr b = (if k \<ge> length rows then None else if rows ! k = 0 then Some (rows[k := c], rhs[k := b])
        else ribbon_insert rows rhs (k + 1) (drop_bit 1 (c XOR rows ! k)) (b XOR rhs ! k))"
      using False by (subst ribbon_insert.simps) (simp add: k_def c_def Let_def)
    then have k: "k < length rows" using 1(2) by (auto split: if_splits)
    show ?thesis
    proof (cases "rows ! k = 0")
      case True
      then have r: "rows' = rows[k := c]" "rhs' = rhs[k := b]" using 1(2) step k by auto
      have "c \<noteq> 0" using n(2) by auto
      moreover have "pivots rows'" using 1(3) n(2) r k by (auto simp: pivots_def list_all_length nth_list_update)
      moreover have "band z k c = b" if "sat rows' rhs' z" using that k 1(4) \<open>c \<noteq> 0\<close> by (auto simp: sat_def r dest: spec [of _ k])
      moreover have "sat rows rhs z" if "sat rows' rhs' z" unfolding sat_def
      proof (intro allI impI)
        fix j assume "j < length rows" "rows ! j \<noteq> 0"
        then show "band z j (rows ! j) = rhs ! j" using that True by (cases "j = k") (auto simp: sat_def r dest: spec [of _ j])
      qed
      ultimately show ?thesis using n(1) r 1(4) by simp
    next
      case occ: False
      have b0: "bit (rows ! k) 0" using 1(3) k occ by (simp add: pivots_def list_all_length)
      have "ribbon_insert rows rhs (k + 1) (drop_bit 1 (c XOR rows ! k)) (b XOR rhs ! k) = Some (rows', rhs')" using 1(2) step k occ by simp
      from 1(1) [OF False refl k_def c_def _ occ this 1(3,4)] k
      have ih: "length rows' = length rows \<and> length rhs' = length rows \<and> pivots rows'
          \<and> (sat rows' rhs' z \<longrightarrow> sat rows rhs z \<and> band z (k + 1) (drop_bit 1 (c XOR rows ! k)) = b XOR rhs ! k)" by simp
      have "band z k c = b" if "sat rows rhs z" "band z (k + 1) (drop_bit 1 (c XOR rows ! k)) = b XOR rhs ! k"
      proof -
        have "band z k (rows ! k) = rhs ! k" using that(1) k occ by (simp add: sat_def)
        then show ?thesis using that(2) band_cancel [OF n(2) b0, of z k] by (simp add: band_xor xor_swap)
      qed
      then show ?thesis using ih n(1) by auto
    qed
  qed
qed

lemma ribbon_rows_sound:
  "ribbon_rows keys rbits seed m rows rhs = Some (rows', rhs') \<Longrightarrow> pivots rows \<Longrightarrow> length rhs = length rows \<Longrightarrow>
   length rows' = length rows \<and> length rhs' = length rows \<and> pivots rows' \<and>
   (sat rows' rhs' z \<longrightarrow> sat rows rhs z \<and> list_all (\<lambda>key. case ribbonDerive key seed m rbits of (start, coeff, fp) \<Rightarrow> band z start coeff = fp) keys)"
proof (induction keys arbitrary: rows rhs)
  case (Cons key keys)
  obtain start coeff fp where d: "ribbonDerive key seed m rbits = (start, coeff, fp)" by (metis prod_cases3)
  obtain r1 h1 where i: "ribbon_insert rows rhs start coeff fp = Some (r1, h1)" "ribbon_rows keys rbits seed m r1 h1 = Some (rows', rhs')"
    using Cons.prems(1) d by (auto split: option.splits)
  note s = ribbon_insert_sound [OF i(1) Cons.prems(2,3), of z]
  from Cons.IH [OF i(2)] s d show ?case by auto
qed simp

lemma band_update: "j < i \<Longrightarrow> band (z[j := v]) i cr = band z i cr"
  unfolding band_def by (rule xsum_cong) (simp add: slot_def)

lemma band_pivot:
  assumes "bit r 0"
  shows "band z i r = slot z i XOR band z i (r AND NOT 1)"
proof -
  have u: "[0..<64] = 0 # [1..<64::nat]" by (simp add: upt_rec)
  have "xsum (\<lambda>k. if bit r k then slot z (i + k) else 0) [1..<64] = xsum (\<lambda>k. if bit (r AND NOT 1) k then slot z (i + k) else 0) [1..<64]"
    by (rule xsum_cong) (auto simp: bit_and_iff bit_not_iff bit_1_iff dest: bit_imp_le_length)
  then show ?thesis using assms unfolding band_def u by (simp add: bit_and_iff bit_not_iff)
qed

lemma band_update_pivot: "band (z[i := v]) i (r AND NOT 1) = band z i (r AND NOT 1)"
  unfolding band_def by (rule xsum_cong) (auto simp: slot_def bit_and_iff bit_not_iff nth_list_update intro: gr0I)

lemma back_substitute_from:
  assumes "pivots rows"
  shows "k \<le> length rows \<Longrightarrow> length z = length rows \<Longrightarrow> (\<forall>i < length rows. k \<le> i \<longrightarrow> rows ! i \<noteq> 0 \<longrightarrow> band z i (rows ! i) = rhs ! i) \<Longrightarrow>
    sat rows rhs (foldl (\<lambda>z i. if rows ! i = 0 then z else z[i := band_loop z i (rows ! i AND NOT 1) (rhs ! i)]) z (rev [0..<k]))"
proof (induction k arbitrary: z)
  case (Suc k)
  let ?r = "rows ! k"
  let ?z = "if ?r = 0 then z else z[k := band_loop z k (?r AND NOT 1) (rhs ! k)]"
  have "band ?z i (rows ! i) = rhs ! i" if i: "i < length rows" "k \<le> i" "rows ! i \<noteq> 0" for i
  proof (cases "i = k")
    case True
    then have "bit ?r 0" using assms i by (simp add: pivots_def list_all_length)
    then show ?thesis using True i Suc.prems(2) by (simp add: band_pivot band_update_pivot [simplified] band_loop_band slot_def ac_simps)
  next
    case False
    then show ?thesis using i Suc.prems(3) by (simp add: band_update)
  qed
  then show ?case using Suc.prems by (auto intro!: Suc.IH)
qed (simp add: sat_def)

lemma back_substitute_sat: "pivots rows \<Longrightarrow> sat rows rhs (back_substitute rows rhs)"
  unfolding back_substitute_def by (rule back_substitute_from) simp_all

lemma solveRibbon_sound:
  assumes "solveRibbon keys rbits seed m = Some z" "key \<in> set keys"
  shows "case ribbonDerive key seed m rbits of (start, coeff, fp) \<Rightarrow> band z start coeff = fp"
proof -
  obtain rows rhs where r: "ribbon_rows keys rbits seed m (replicate m 0) (replicate m 0) = Some (rows, rhs)" "z = back_substitute rows rhs"
    using assms(1) by (auto simp: solveRibbon_def)
  have "pivots (replicate m 0)" by (simp add: pivots_def list_all_length)
  from ribbon_rows_sound [OF r(1) this, of z] back_substitute_sat [of rows rhs] r(2) show ?thesis
    using assms(2) by (auto simp: list_all_iff)
qed

lemma try_seeds_sound: "try_seeds keys rbits m seeds = Some (seed, z) \<Longrightarrow> solveRibbon keys rbits (of_nat seed) m = Some z"
  by (induction seeds) (auto split: option.splits)

lemma try_sizes_sound: "try_sizes keys rbits grows m = Some (m', seed, z) \<Longrightarrow> solveRibbon keys rbits (of_nat seed) m' = Some z \<and> m \<le> m'"
  by (induction grows arbitrary: m) (fastforce split: option.splits dest: try_seeds_sound)+

lemma buildRibbon_query:
  assumes "buildRibbon keys rbits = Inr rb" "key \<in> set keys"
  shows "ribbon_query rb key"
proof -
  obtain m seed z where t: "try_sizes keys rbits maxRibbonGrows (ribbon_slots (length keys)) = Some (m, seed, z)"
    "rb = \<lparr> rn_z = z, rn_m = m, rn_rbits = rbits, rn_seed = of_nat seed, rn_n = of_nat (length keys) \<rparr>"
    using assms(1) by (auto simp: buildRibbon_def split: option.splits)
  from solveRibbon_sound [OF conjunct1 [OF try_sizes_sound [OF t(1)]] assms(2)] show ?thesis
    by (simp add: ribbon_query_def t(2) band_loop_band case_prod_unfold Let_def)
qed

section \<open>Packing reads back\<close>

text \<open>The number whose digits to the base \<open>2^rbits\<close> are the slots.\<close>

fun digits_val :: "nat \<Rightarrow> u16 list \<Rightarrow> nat" where
  "digits_val r [] = 0"
| "digits_val r (v # z) = unat v + 2 ^ r * digits_val r z"

lemma digits_val_snoc: "digits_val r (z @ [v]) = digits_val r z + 2 ^ (r * length z) * unat v"
  by (induction z) (simp_all add: algebra_simps power_add)

lemma le_dec_snoc: "le_dec (out @ [b]) = le_dec out + 256 ^ length out * unat b"
  by (induction out) (simp_all add: algebra_simps)

lemma or_shifted:
  fixes acc w :: u64
  assumes "unat acc < 2 ^ n" "n + k \<le> 64" "unat w < 2 ^ k"
  shows "unat (acc OR push_bit n w) = unat acc + 2 ^ n * unat w"
proof -
  have "2 ^ n * unat w + unat acc < 2 ^ n * unat w + 2 ^ n" using assms(1) by simp
  also have "\<dots> = 2 ^ n * (unat w + 1)" by simp
  also have "\<dots> \<le> 2 ^ n * 2 ^ k" using assms(3) by (intro mult_le_mono2) simp
  also have "\<dots> \<le> 2 ^ 64" unfolding power_add [symmetric] using assms(2) by (rule power_increasing) simp
  finally have b: "unat acc + 2 ^ n * unat w < 2 ^ 64" by simp
  have "unat (push_bit n w) = 2 ^ n * unat w" 
    unfolding unsigned_push_bit_eq using b by (simp add: push_bit_eq_mult take_bit_nat_eq_self mult.commute)
  moreover have "acc AND push_bit n w = 0" using fits_no_bit [OF assms(1)] by (intro bit_eqI) (auto simp: bit_and_iff bit_push_bit_iff)
  then have "acc OR push_bit n w = acc + push_bit n w" by (simp add: disjunctive_add_eq_or)
  ultimately show ?thesis using b by (simp add: unat_word_ariths)
qed

lemma low_bits: "rbits \<le> 16 \<Longrightarrow> unat (w AND (push_bit rbits 1 - 1)) = unat w mod 2 ^ rbits" for w :: u64
proof -
  have "push_bit rbits (1 :: u64) - 1 = mask rbits" by (simp add: mask_eq_exp_minus_1 push_bit_eq_mult)
  moreover assume "rbits \<le> 16"
  ultimately have "unat (w AND (push_bit rbits 1 - 1)) = unat (take_bit rbits w)" by (simp add: take_bit_eq_mask)
  also have "\<dots> = take_bit rbits (unat w)" using \<open>rbits \<le> 16\<close> by (simp only: unsigned_take_bit_eq)
  also have "\<dots> = unat w mod 2 ^ rbits" by (rule take_bit_eq_mod)
  finally show ?thesis .
qed

lemma unat_high: "unat (drop_bit k w) = unat w div 2 ^ k" for w :: u64
  unfolding unat_drop_bit_eq by (rule drop_bit_eq_div)

text \<open>The packer: bytes and accumulator together are the number packed so far.\<close>

definition packed :: "nat \<Rightarrow> nat \<Rightarrow> u64 \<times> nat \<times> u8 list \<Rightarrow> bool" where
  "packed tot V = (\<lambda>(acc, nbits, out). le_dec out + 256 ^ length out * unat acc = V \<and> unat acc < 2 ^ nbits \<and> 8 * length out + nbits = tot)"

lemma flush_packed: "packed tot V (acc, nbits, out) \<Longrightarrow> packed tot V (flush_bytes acc nbits out) \<and> fst (snd (flush_bytes acc nbits out)) < 8"
proof (induction acc nbits out rule: flush_bytes.induct)
  case (1 acc nbits out)
  show ?case
  proof (cases "nbits \<ge> 8")
    case True
    have "unat (ucast acc :: u8) = unat acc mod 256" by (simp add: unsigned_ucast_eq take_bit_eq_mod)
    moreover have "256 ^ L * unat acc = 256 ^ L * (unat acc mod 256) + 256 ^ Suc L * (unat acc div 256)" for L
      by (subst mod_mult_div_eq [of "unat acc" 256, symmetric]) (simp only: add_mult_distrib2 power_Suc ac_simps)
    ultimately have "le_dec (out @ [ucast acc]) + 256 ^ length (out @ [ucast acc]) * unat (drop_bit 8 acc) = le_dec out + 256 ^ length out * unat acc"
      by (simp add: le_dec_snoc unat_high)
    moreover have "(2 :: nat) ^ nbits = 2 ^ (nbits - 8) * 2 ^ 8" unfolding power_add [symmetric] using True by simp
    then have "unat acc div 2 ^ 8 < 2 ^ (nbits - 8)" using 1(2) by (subst div_less_iff_less_mult) (simp_all add: packed_def)
    ultimately have "packed tot V (drop_bit 8 acc, nbits - 8, out @ [ucast acc])" using 1(2) True by (simp add: packed_def unat_high)
    then show ?thesis using 1(1) [OF True] True by (subst (1 2) flush_bytes.simps) simp
  next
    case False
    then show ?thesis using 1(2) by (subst (1 2) flush_bytes.simps) simp
  qed
qed

lemma pack_step_packed:
  assumes "packed (rbits * length z) (digits_val rbits z) (acc, nbits, out)" "nbits < 8" "unat v < 2 ^ rbits" "rbits \<le> 16"
  shows "packed (rbits * length (z @ [v])) (digits_val rbits (z @ [v])) (pack_step rbits (acc, nbits, out) v) \<and> fst (snd (pack_step rbits (acc, nbits, out) v)) < 8"
proof -
  let ?w = "ucast v AND (push_bit rbits 1 - 1) :: u64"
  have "unat (ucast v :: u64) = unat v" using unat_lt_2p16 [of v] by (simp add: unsigned_ucast_eq take_bit_nat_eq_self)
  then have w: "unat ?w = unat v" using low_bits [OF assms(4), of "ucast v"] assms(3) by simp
  have a: "le_dec out + 256 ^ length out * unat acc = digits_val rbits z" "unat acc < 2 ^ nbits" "8 * length out + nbits = rbits * length z"
    using assms(1) by (simp_all add: packed_def)
  have o: "unat (acc OR push_bit nbits ?w) = unat acc + 2 ^ nbits * unat v"
    using or_shifted [OF a(2), of rbits ?w] assms(2-4) w by simp
  have "256 ^ length out * 2 ^ nbits = (2 :: nat) ^ (rbits * length z)"
    unfolding a(3) [symmetric] by (simp add: power_add power_mult)
  then have "le_dec out + 256 ^ length out * (unat acc + 2 ^ nbits * unat v) = digits_val rbits (z @ [v])"
    using a(1) by (simp add: digits_val_snoc add_mult_distrib2 flip: mult.assoc)
  moreover have "unat acc + 2 ^ nbits * unat v < 2 ^ (nbits + rbits)"
  proof -
    have "unat acc + 2 ^ nbits * unat v < 2 ^ nbits * (unat v + 1)" using a(2) by simp
    also have "\<dots> \<le> 2 ^ nbits * 2 ^ rbits" using assms(3) by (intro mult_le_mono2) simp
    finally show ?thesis by (simp add: power_add)
  qed
  ultimately have "packed (rbits * length (z @ [v])) (digits_val rbits (z @ [v])) (acc OR push_bit nbits ?w, nbits + rbits, out)"
    using a(3) o by (simp add: packed_def algebra_simps)
  then show ?thesis unfolding pack_step_def prod.case by (rule flush_packed)
qed

lemma pack_fold:
  assumes "rbits \<le> 16"
  shows "list_all (\<lambda>v. unat v < 2 ^ rbits) z \<Longrightarrow>
    packed (rbits * length z) (digits_val rbits z) (foldl (pack_step rbits) (0, 0, []) z) \<and> fst (snd (foldl (pack_step rbits) (0, 0, []) z)) < 8"
proof (induction z rule: rev_induct)
  case (snoc v z)
  obtain acc nbits out where f: "foldl (pack_step rbits) (0, 0, []) z = (acc, nbits, out)" by (metis prod_cases3)
  then show ?case using pack_step_packed [of rbits z acc nbits out v] snoc assms by simp
qed (simp add: packed_def)

lemma packBits_val:
  assumes "rbits \<le> 16" "list_all (\<lambda>v. unat v < 2 ^ rbits) z"
  shows "le_dec (packBits z rbits) = digits_val rbits z" "length (packBits z rbits) = (length z * rbits + 7) div 8"
proof -
  obtain acc nbits out where f: "foldl (pack_step rbits) (0, 0, []) z = (acc, nbits, out)" by (metis prod_cases3)
  have p: "le_dec out + 256 ^ length out * unat acc = digits_val rbits z" "unat acc < 2 ^ nbits" "8 * length out + nbits = rbits * length z" "nbits < 8"
    using pack_fold [OF assms] f by (simp_all add: packed_def)
  have "unat acc < 256" using p(2,4) power_increasing [of nbits 8 "2 :: nat"] by simp
  then have "unat (ucast acc :: u8) = unat acc" by (simp add: unsigned_ucast_eq take_bit_nat_eq_self)
  then show "le_dec (packBits z rbits) = digits_val rbits z" using p by (auto simp: packBits_def f le_dec_snoc)
  show "length (packBits z rbits) = (length z * rbits + 7) div 8" using p(3,4) by (auto simp: packBits_def f mult.commute)
qed

text \<open>The unpacker: accumulator and remaining bytes together are the number still to be read.\<close>

lemma refill_val:
  assumes "unat acc < 2 ^ nbits" "rbits \<le> 16" "nbits < rbits + 8"
  shows "case refill rbits acc nbits b of (acc', nbits', b') \<Rightarrow>
    unat acc' + 2 ^ nbits' * le_dec b' = unat acc + 2 ^ nbits * le_dec b \<and> unat acc' < 2 ^ nbits' \<and> rbits \<le> nbits' \<and> nbits' < rbits + 8"
  using assms
proof (induction rbits acc nbits b rule: refill.induct)
  case (1 rbits acc nbits b)
  show ?case
  proof (cases "nbits < rbits")
    case True
    show ?thesis
    proof (cases b)
      case Nil
      have "unat acc < 2 ^ (nbits + 8)" using 1(3) by (simp add: power_add)
      then show ?thesis using 1(1) [OF True Nil] 1(3-) True Nil by (subst refill.simps) simp
    next
      case (Cons x b')
      have x: "unat (ucast x :: u64) = unat x" "unat x < 2 ^ 8"
        using unat_lt_2p8 [of x] by (simp_all add: unsigned_ucast_eq take_bit_nat_eq_self)
      then have o: "unat (acc OR push_bit nbits (ucast x)) = unat acc + 2 ^ nbits * unat x"
        using or_shifted [OF 1(3), of 8 "ucast x"] 1(4) True by simp
      have "unat acc + 2 ^ nbits * unat x < 2 ^ nbits * (unat x + 1)" using 1(3) by simp
      also have "\<dots> \<le> 2 ^ nbits * 2 ^ 8" using x(2) by (intro mult_le_mono2) simp
      finally have "unat acc + 2 ^ nbits * unat x < 2 ^ (nbits + 8)" by (simp add: power_add)
      then show ?thesis using 1(2) [OF True Cons] 1(3-) True Cons o by (subst refill.simps) (simp add: power_add algebra_simps)
    qed
  next
    case False
    then show ?thesis using 1(3-) by (subst refill.simps) simp
  qed
qed

lemma digit_split:
  fixes B :: nat
  assumes "m + B * q = v + B * d" "m < B" "v < B"
  shows "m = v \<and> q = d"
proof -
  have "(m + B * q) mod B = m" "(v + B * d) mod B = v" "(m + B * q) div B = q" "(v + B * d) div B = d" using assms(2,3) by simp_all
  then show ?thesis unfolding assms(1) by metis
qed

lemma unpack_loop_val:
  assumes "rbits \<le> 16"
  shows "list_all (\<lambda>v. unat v < 2 ^ rbits) z \<Longrightarrow> unat acc < 2 ^ nbits \<Longrightarrow> nbits < 8 \<Longrightarrow>
    unat acc + 2 ^ nbits * le_dec b = digits_val rbits z \<Longrightarrow> unpack_loop rbits (length z) acc nbits b = z"
proof (induction z arbitrary: acc nbits b)
  case (Cons v z)
  obtain acc' nbits' b' where f: "refill rbits acc nbits b = (acc', nbits', b')" by (metis prod_cases3)
  have r: "unat acc' + 2 ^ nbits' * le_dec b' = digits_val rbits (v # z)" "unat acc' < 2 ^ nbits'" "rbits \<le> nbits'" "nbits' < rbits + 8"
    using refill_val [OF Cons.prems(2) assms, of b] Cons.prems(3,4) f by simp_all
  have v: "unat v < 2 ^ rbits" using Cons.prems(1) by simp
  have p: "(2 :: nat) ^ nbits' = 2 ^ rbits * 2 ^ (nbits' - rbits)" unfolding power_add [symmetric] using r(3) by simp
  let ?q = "unat acc' div 2 ^ rbits" and ?m = "unat acc' mod 2 ^ rbits"
  have "?m + 2 ^ rbits * (?q + 2 ^ (nbits' - rbits) * le_dec b') = unat v + 2 ^ rbits * digits_val rbits z"
    using r(1) mod_mult_div_eq [of "unat acc'" "2 ^ rbits"] unfolding p by (simp add: add_mult_distrib2 mult.assoc)
  moreover have "?m < 2 ^ rbits" by simp
  ultimately have e: "?m = unat v" "?q + 2 ^ (nbits' - rbits) * le_dec b' = digits_val rbits z"
    using v by (auto dest: digit_split)
  have "unat (drop_bit rbits acc') < 2 ^ (nbits' - rbits)" using r(2) unfolding unat_high p by (simp add: div_less_iff_less_mult mult.commute)
  then have "unpack_loop rbits (length z) (drop_bit rbits acc') (nbits' - rbits) b' = z"
    using Cons.prems(1) r(3,4) e(2) by (intro Cons.IH) (simp_all add: unat_high)
  moreover have "ucast (acc' AND (push_bit rbits 1 - 1)) = v"
    using low_bits [OF assms, of acc'] e(1) unat_lt_2p16 [of v] by (intro word_unat_eq_iff [THEN iffD2]) (simp add: unsigned_ucast_eq take_bit_nat_eq_self)
  ultimately show ?case using f by simp
qed simp

lemma unpackBits_packBits: "rbits \<le> 16 \<Longrightarrow> list_all (\<lambda>v. unat v < 2 ^ rbits) z \<Longrightarrow> unpackBits (packBits z rbits) (length z) rbits = z"
  unfolding unpackBits_def by (rule unpack_loop_val) (simp_all add: packBits_val)

section \<open>The slots fit their width\<close>

definition small_slot :: "nat \<Rightarrow> u16 \<Rightarrow> bool" where
  "small_slot r v \<longleftrightarrow> take_bit r v = v"

lemma small_0 [simp]: "small_slot r 0" by (simp add: small_slot_def)

lemma small_xor: "small_slot r a \<Longrightarrow> small_slot r b \<Longrightarrow> small_slot r (a XOR b)"
  by (simp add: small_slot_def take_bit_xor)

lemma small_slot_unat: "small_slot r v \<Longrightarrow> r \<le> 16 \<Longrightarrow> unat v < 2 ^ r"
  unfolding small_slot_def by (metis take_bit_nat_less_exp unsigned_take_bit_eq)

lemma small_slot_band: "list_all (small_slot r) z \<Longrightarrow> small_slot r (band z i cr)"
proof -
  assume z: "list_all (small_slot r) z"
  have "small_slot r (xsum f ks)" if "\<And>k. small_slot r (f k)" for f ks using that by (induction ks) (simp_all add: small_xor)
  then show ?thesis unfolding band_def using z by (simp add: slot_def list_all_length)
qed

lemma ribbon_insert_small:
  "ribbon_insert rows rhs i cr b = Some (rows', rhs') \<Longrightarrow> list_all (small_slot r) rhs \<Longrightarrow> length rhs = length rows \<Longrightarrow> small_slot r b \<Longrightarrow> list_all (small_slot r) rhs'"
proof (induction rows rhs i cr b rule: ribbon_insert.induct)
  case (1 rows rhs i cr b)
  define k c where "k = i + TrailingZeros64 cr" and "c = drop_bit (TrailingZeros64 cr) cr"
  have step: "ribbon_insert rows rhs i cr b = (if cr = 0 then (if b \<noteq> 0 then None else Some (rows, rhs))
      else if k \<ge> length rows then None else if rows ! k = 0 then Some (rows[k := c], rhs[k := b])
      else ribbon_insert rows rhs (k + 1) (drop_bit 1 (c XOR rows ! k)) (b XOR rhs ! k))"
    by (subst ribbon_insert.simps) (simp add: k_def c_def Let_def)
  have "small_slot r (b XOR rhs ! k)" if "k < length rows" using 1(3-5) that by (intro small_xor) (simp_all add: list_all_length)
  then show ?case
    using 1(1) [OF _ refl k_def c_def _ _ _ 1(3,4)] 1(2-5) step by (auto simp: list_all_length nth_list_update split: if_splits)
qed

lemma small_fp:
  assumes "1 \<le> r" "r \<le> 16" "ribbonDerive key seed m r = (start, coeff, fp)"
  shows "small_slot r fp"
proof -
  obtain w :: u64 where w: "fp = ucast (drop_bit (64 - r) w)" using assms(3) by (auto simp: ribbonDerive_def Let_def split: prod.splits)
  show ?thesis unfolding small_slot_def w
    by (rule bit_eqI) (use assms(1,2) in \<open>auto simp: bit_take_bit_iff bit_ucast_iff bit_drop_bit_eq dest: bit_imp_le_length\<close>)
qed

lemma ribbon_rows_small:
  assumes "1 \<le> r" "r \<le> 16"
  shows "ribbon_rows keys r seed m rows rhs = Some (rows', rhs') \<Longrightarrow> pivots rows \<Longrightarrow> list_all (small_slot r) rhs \<Longrightarrow> length rhs = length rows \<Longrightarrow> list_all (small_slot r) rhs'"
proof (induction keys arbitrary: rows rhs)
  case (Cons key keys)
  obtain start coeff fp where d: "ribbonDerive key seed m r = (start, coeff, fp)" by (metis prod_cases3)
  obtain r1 h1 where i: "ribbon_insert rows rhs start coeff fp = Some (r1, h1)" "ribbon_rows keys r seed m r1 h1 = Some (rows', rhs')"
    using Cons.prems(1) d by (auto split: option.splits)
  from ribbon_insert_sound [OF i(1) Cons.prems(2,4)] ribbon_insert_small [OF i(1) Cons.prems(3,4) small_fp [OF assms d]]
  show ?case using Cons.IH [OF i(2)] by auto
qed simp

lemma back_substitute_small:
  assumes "list_all (small_slot r) rhs" "length rhs = length rows"
  shows "list_all (small_slot r) (back_substitute rows rhs)" "length (back_substitute rows rhs) = length rows"
proof -
  let ?f = "\<lambda>z i. if rows ! i = 0 then z else z[i := band_loop z i (rows ! i AND NOT 1) (rhs ! i)]"
  have "list_all (small_slot r) (foldl ?f z is) \<and> length (foldl ?f z is) = length z"
    if "list_all (small_slot r) z" "list_all (\<lambda>i. i < length rows) is" for z "is"
    using that
  proof (induction "is" arbitrary: z)
    case (Cons i "is")
    have "small_slot r (band_loop z i (rows ! i AND NOT 1) (rhs ! i))"
      unfolding band_loop_band using Cons.prems assms by (intro small_xor small_slot_band) (auto simp: list_all_length [of _ rhs])
    then have "list_all (small_slot r) (?f z i)" "length (?f z i) = length z" using Cons.prems(1) by (auto simp: list_all_iff dest!: set_update_subset_insert [THEN subsetD])
    then show ?case using Cons.IH [of "?f z i"] Cons.prems(2) by simp
  qed simp
  from this [of "replicate (length rows) 0" "rev [0..<length rows]"]
  show "list_all (small_slot r) (back_substitute rows rhs)" "length (back_substitute rows rhs) = length rows"
    by (simp_all add: back_substitute_def list_all_iff)
qed

lemma solveRibbon_small:
  assumes "1 \<le> r" "r \<le> 16" "solveRibbon keys r seed m = Some z"
  shows "list_all (\<lambda>v. unat v < 2 ^ r) z" "length z = m"
proof -
  obtain rows rhs where s: "ribbon_rows keys r seed m (replicate m 0) (replicate m 0) = Some (rows, rhs)" "z = back_substitute rows rhs"
    using assms(3) by (auto simp: solveRibbon_def)
  have p: "pivots (replicate m 0)" by (simp add: pivots_def list_all_length)
  have "list_all (small_slot r) rhs" by (rule ribbon_rows_small [OF assms(1,2) s(1) p]) (simp_all add: list_all_length)
  moreover have "length rows = m" "length rhs = m" using ribbon_rows_sound [OF s(1) p] by simp_all
  ultimately have "list_all (small_slot r) z" "length z = m" using back_substitute_small [of r rhs rows] s(2) by simp_all
  then show "list_all (\<lambda>v. unat v < 2 ^ r) z" "length z = m" using small_slot_unat assms(2) by (auto simp: list_all_iff)
qed

section \<open>The snapshot finds every key\<close>

lemma ribbon_slots_bound: "n < 2 ^ 40 \<Longrightarrow> ribbon_slots n \<le> 2 ^ 42"
proof -
  assume n: "n < 2 ^ 40"
  have h: "1 / 2 \<le> fl64 (9 / 10)" by code_simp
  have f: "fl64 (of_nat n) = of_nat n" using fl64_int [of "int n"] n by simp
  have "of_nat n / fl64 (9 / 10) \<le> of_nat n / (1 / 2)" using h by (intro divide_left_mono) auto
  also have "\<dots> \<le> of_int (2 ^ 42)" using n by simp
  finally have "fl64 (fl64 (of_nat n) / fl64 (9 / 10)) \<le> of_int (2 ^ 42)" using h f by (intro fl64_le_int) simp_all
  then have "\<lceil>fl64 (fl64 (of_nat n) / fl64 (9 / 10))\<rceil> \<le> 2 ^ 42" by (simp add: ceiling_le_iff)
  then show ?thesis by (simp add: ribbon_slots_def ribbonWidth_def nat_le_iff)
qed

lemma try_sizes_bound: "try_sizes keys r grows m = Some (m', seed, z) \<Longrightarrow> 128 \<le> m \<Longrightarrow> m' \<le> 2 ^ grows * m"
proof (induction grows arbitrary: m)
  case (Suc grows)
  show ?case
  proof (cases "try_seeds keys r m [0..<maxRibbonSeeds]")
    case None
    then have "m' \<le> 2 ^ grows * (m + (m div 20 + ribbonWidth))" using Suc by (intro Suc.IH) simp_all
    also have "\<dots> \<le> 2 ^ grows * (2 * m)" using Suc.prems(2) by (intro mult_le_mono2) (simp add: ribbonWidth_def)
    finally show ?thesis by simp
  next
    case (Some a)
    then have "m' = m" using Suc.prems(1) by auto
    then show ?thesis by simp
  qed
qed simp

lemma buildRibbon_shape:
  assumes "buildRibbon keys r = Inr rb" "1 \<le> r" "r \<le> 16" "length keys < 2 ^ 40"
  shows "list_all (\<lambda>v. unat v < 2 ^ r) (rn_z rb)" "length (rn_z rb) = rn_m rb" "rn_rbits rb = r" "128 \<le> rn_m rb" "rn_m rb \<le> 2 ^ 46"
    "rn_n rb = of_nat (length keys)"
proof -
  let ?m0 = "ribbon_slots (length keys)"
  obtain m seed z where t: "try_sizes keys r maxRibbonGrows ?m0 = Some (m, seed, z)"
    "rb = \<lparr> rn_z = z, rn_m = m, rn_rbits = r, rn_seed = of_nat seed, rn_n = of_nat (length keys) \<rparr>"
    using assms(1) by (auto simp: buildRibbon_def split: option.splits)
  note s = try_sizes_sound [OF t(1)]
  have "128 \<le> ?m0" by (simp add: ribbon_slots_def ribbonWidth_def)
  then have "128 \<le> m" "m \<le> 2 ^ maxRibbonGrows * ?m0" using s try_sizes_bound [OF t(1)] by simp_all
  then show "128 \<le> rn_m rb" "rn_m rb \<le> 2 ^ 46" using ribbon_slots_bound [OF assms(4)] by (simp_all add: t(2) maxRibbonGrows_def)
  show "list_all (\<lambda>v. unat v < 2 ^ r) (rn_z rb)" "length (rn_z rb) = rn_m rb" "rn_rbits rb = r" "rn_n rb = of_nat (length keys)"
    using solveRibbon_small [OF assms(2,3) conjunct1 [OF s]] by (simp_all add: t(2))
qed

lemma go_div_nat: "go_div (int a) 8 = int (a div 8)"
  by (simp add: go_div_def zdiv_int sgn_if)

lemma unmarshalRibbon_marshal:
  assumes "list_all (\<lambda>v. unat v < 2 ^ rn_rbits rb) (rn_z rb)" "length (rn_z rb) = rn_m rb" "1 \<le> rn_rbits rb" "rn_rbits rb \<le> 16"
    "128 \<le> rn_m rb" "rn_m rb \<le> 2 ^ 46"
  shows "unmarshalRibbon (ribbon_marshal rb) = Some (Inr rb)"
proof -
  let ?b = "ribbon_marshal rb" and ?body = "packBits (rn_z rb) (rn_rbits rb)"
  have h: "length ?b = 24 + length ?body" "?b ! 2 = of_nat (rn_rbits rb)" "take 4 (drop 4 ?b) = PutUint32 (rn_seed rb)"
      "take 8 (drop 8 ?b) = PutUint64 (rn_n rb)" "take 8 (drop 16 ?b) = PutUint64 (of_nat (rn_m rb))" "drop 24 ?b = ?body"
    by (simp_all add: ribbon_marshal_def numeral_2_eq_2)
  have u: "unat (of_nat (rn_rbits rb) :: u8) = rn_rbits rb" "unat (of_nat (rn_m rb) :: u64) = rn_m rb" "sint (of_nat (rn_m rb) :: u64) = int (rn_m rb)"
    using assms(4,6) by (simp_all add: of_nat_inverse_8 of_nat_inverse_64 sint_of_nat64)
  have "rn_m rb * rn_rbits rb \<le> 2 ^ 46 * 16" using assms(4,6) by (intro mult_le_mono) simp_all
  then have "sint (of_nat (rn_m rb * rn_rbits rb + 7) :: u64) = int (rn_m rb * rn_rbits rb + 7)" by (intro sint_of_nat64) simp
  then have s: "sint (of_nat (rn_m rb) * of_nat (rn_rbits rb) + 7 :: u64) = int (rn_m rb * rn_rbits rb + 7)" by simp
  have l: "int (length ?body) = go_div (int (rn_m rb * rn_rbits rb + 7)) 8"
    using packBits_val(2) [OF assms(4,1)] assms(2) by (simp only: go_div_nat)
  have z: "unpackBits ?body (rn_m rb) (rn_rbits rb) = rn_z rb" using unpackBits_packBits [OF assms(4,1)] assms(2) by simp
  have g: "(24 + length ?body < 24) = False" "(rn_rbits rb = 0 \<or> rn_rbits rb > 16) = False" "(int (rn_m rb) \<le> 0 \<or> int (rn_m rb) < int 64) = False" "(2 * rn_m rb > 2 ^ 48) = False"
    using assms(3-6) by simp_all
  show ?thesis
    unfolding unmarshalRibbon_def h ribbonHeaderSize_def Let_def u s Uint32_PutUint32 Uint64_PutUint64 maxRibbonRBits_def ribbonWidth_def
    unfolding l [symmetric] z g if_False not_True_eq_False simp_thms by simp
qed

lemma WithRibbonBits_range: "1 \<le> r \<Longrightarrow> r \<le> 16 \<Longrightarrow> 1 \<le> WithRibbonBits o' r \<and> WithRibbonBits o' r \<le> 16"
  by (simp add: WithRibbonBits_def maxRibbonRBits_def) arith

lemma ribbon_bits: "1 \<le> r \<Longrightarrow> r \<le> 16 \<Longrightarrow> 1 \<le> fold WithRibbonBits opts r \<and> fold WithRibbonBits opts r \<le> 16"
proof (induction opts arbitrary: r)
  case (Cons a opts)
  from WithRibbonBits_range [OF Cons.prems, of a] have "1 \<le> WithRibbonBits a r" "WithRibbonBits a r \<le> 16" by simp_all
  from Cons.IH [OF this] show ?case by simp
qed simp

text \<open>C37: A ribbon snapshot has no false negative: when the build succeeds, the blob it writes is read back by the
  filter loader, reports the number of keys, and answers \<open>maybe\<close> for every key it was built over, whatever
  fingerprint width the options ask for and however the keys hash.\<close>

theorem ribbon_snapshot_finds_every_key:
  assumes "BuildRibbonFilter keys opts = Inr blob" "length keys < 2 ^ 40"
  shows "\<exists>f. UnmarshalFilter blob = Some (Inr f) \<and> ResidentFilter_Len f = of_nat (length keys) \<and> list_all (ResidentFilter_MaybeContains f) keys"
proof -
  obtain rb where rb: "buildRibbon keys (fold WithRibbonBits opts defaultRibbonR) = Inr rb" "blob = ribbon_marshal rb"
    using assms(1) by (auto simp: BuildRibbonFilter_def map_sum_def split: sum.splits)
  have "1 \<le> defaultRibbonR" "defaultRibbonR \<le> 16" by (simp_all add: defaultRibbonR_def)
  note r = ribbon_bits [OF this, of opts]
  note s = buildRibbon_shape [OF rb(1) conjunct1 [OF r] conjunct2 [OF r] assms(2)]
  have "unmarshalRibbon blob = Some (Inr rb)" unfolding rb(2) using s r by (intro unmarshalRibbon_marshal) simp_all
  moreover have "length blob \<ge> 2" "blob ! 0 = filterBlobVersion" "blob ! 1 = filterKindRibbon" by (simp_all add: rb(2) ribbon_marshal_def)
  ultimately have "UnmarshalFilter blob = Some (Inr (RibbonResident rb))"
    by (simp add: UnmarshalFilter_def filterKindBlockedBloom_def filterKindRibbon_def)
  then show ?thesis using buildRibbon_query [OF rb(1)] s(6) by (auto simp: list_all_iff)
qed

lemma ribbon_insert_empty: "i < length rows \<Longrightarrow> rows ! i = 0 \<Longrightarrow> bit cr 0 \<Longrightarrow> ribbon_insert rows rhs i cr b = Some (rows[i := cr], rhs[i := b])"
proof -
  assume a: "i < length rows" "rows ! i = 0" "bit cr 0"
  then have "cr \<noteq> 0" by auto
  moreover from TrailingZeros64_spec(3) [OF this, of 0] have "TrailingZeros64 cr = 0" using a(3) by auto
  ultimately show ?thesis using a by (subst ribbon_insert.simps) simp
qed

theorem ribbon_snapshot_finds_every_key_witness:
  "\<exists>blob f. BuildRibbonFilter [URLKey 1 2] [] = Inr blob \<and> UnmarshalFilter blob = Some (Inr f) \<and> ResidentFilter_MaybeContains f (URLKey 1 2)"
proof -
  obtain start coeff fp where d: "ribbonDerive (URLKey 1 2) 0 128 7 = (start, coeff, fp)" by (metis prod_cases3)
  have sl: "ribbon_slots 1 = 128" by code_simp
  have "unat (x mod 65) < 128" for x :: u64 using mod_less_divisor [of 65 "unat x"] unfolding unat_mod by simp
  then have "start < 128" "bit coeff 0" using d by (auto simp: ribbonDerive_def ribbonWidth_def Let_def bit_or_iff split: prod.splits)
  then have "\<exists>x. solveRibbon [URLKey 1 2] 7 0 128 = Some x" using d by (simp add: solveRibbon_def ribbon_insert_empty)
  then obtain z where "solveRibbon [URLKey 1 2] 7 0 128 = Some z" by blast
  then have "try_seeds [URLKey 1 2] 7 128 [0..<maxRibbonSeeds] = Some (0, z)" by (simp add: maxRibbonSeeds_def upt_rec)
  then obtain rb where "buildRibbon [URLKey 1 2] 7 = Inr rb" using sl by (simp add: buildRibbon_def maxRibbonGrows_def numeral_eq_Suc)
  then obtain blob where b: "BuildRibbonFilter [URLKey 1 2] [] = Inr blob" by (simp add: BuildRibbonFilter_def defaultRibbonR_def)
  from ribbon_snapshot_finds_every_key [OF b] b show ?thesis by auto
qed

text \<open>The loader of a ribbon blob checks the body against the product of the slot count and the width, which
  wraps: a header that claims \<open>2^60\<close> slots of 16 bits and carries no body passes the check, and the allocation
  of the slots panics.\<close>

theorem corrupt_ribbon_panics:
  "UnmarshalFilter ([filterBlobVersion, filterKindRibbon, 16, 0] @ PutUint32 0 @ PutUint64 0 @ PutUint64 (2 ^ 60)) = None"
proof -
  let ?b = "[filterBlobVersion, filterKindRibbon, 16, 0] @ PutUint32 0 @ PutUint64 0 @ PutUint64 (2 ^ 60) :: u8 list"
  have h: "length ?b = 24" "?b ! 2 = 16" "take 8 (drop 16 ?b) = PutUint64 (2 ^ 60)" "drop 24 ?b = []" by (simp_all add: numeral_2_eq_2 del: power_numeral)
  have m: "sint (2 ^ 60 :: u64) = 2 ^ 60" "unat (2 ^ 60 :: u64) = 2 ^ 60" "(2 ^ 60 :: u64) * of_nat 16 + 7 = 7" "unat (16 :: u8) = 16"
    by simp_all
  have "sint (7 :: u64) = 7" "go_div 7 8 = 0" by (simp_all add: go_div_def)
  then have "unmarshalRibbon ?b = None"
    unfolding unmarshalRibbon_def h ribbonHeaderSize_def Let_def Uint64_PutUint64 m maxRibbonRBits_def ribbonWidth_def by simp
  then show ?thesis by (simp add: UnmarshalFilter_def filterKindBlockedBloom_def filterKindRibbon_def)
qed

end
