(* ===== verification/Spec2Isabelle.thy ===== *)
theory Spec2Isabelle
  imports Dict FrontierFindings Batch Rebalance ReplicaStore StoreFile Ribbon
begin

text \<open>
  A model of \<^verbatim>\<open>meguri\<close>, a web-crawl frontier: the resident scheduler that decides which URL is fetched
  next, and the components it is built from.

  \<^bold>\<open>The program.\<close>  A partition of the crawl owns a set of hosts.  Links arrive as discoveries, pass the
  seen-set and the trap admission, become rows (\<^verbatim>\<open>URLRecord\<close>) and enter the front bank, a priority ring
  (\<^verbatim>\<open>frontier/ring.go\<close>).  A dispatch moves due recrawls out of the timing wheel (\<^verbatim>\<open>wheel.go\<close>), hosts whose
  politeness window has opened out of the wait heap (\<^verbatim>\<open>heap.go\<close>) into the ready bank (\<^verbatim>\<open>shard.go\<close>), binds
  front-bank URLs to host queues, and sends the head of the best ready host.  The outcome comes back
  through \<^verbatim>\<open>Report\<close>, which updates the row, the host's adaptive interval, and files the host again.  A
  checkpoint writes the rows, hosts and strings as one partition image; a recovery rebuilds the
  scheduler from it.  The partition's durable home is a store (\<^verbatim>\<open>store/\<close>): an index over an append-only
  log with a two-slot superblock that names the current snapshot and log.  Partitions form a fleet
  (\<^verbatim>\<open>distribute/\<close>): a map assigns host keys to partitions, routers send links to their owners, a control
  plane places partitions on machines, and a resize moves hosts with an acknowledged hand-off, while
  replicas follow a primary's log.

  \<^bold>\<open>Theories and sources.\<close>
  \<^item> \<open>Prelude\<close>, \<open>GoLib\<close>, \<open>GoFloat\<close>: Go maps as association lists without duplicates, slices, byte order,
    variable-length integers, and float64/float32 values as rationals with the rounding of every
    operation written out (\<open>fl64\<close>, \<open>fl32\<close>: round to nearest, ties to even).
  \<^item> \<open>Records\<close>: \<^verbatim>\<open>urlkey.go\<close>, \<^verbatim>\<open>record.go\<close>, \<^verbatim>\<open>message.go\<close>, \<^verbatim>\<open>signal.go\<close>, \<^verbatim>\<open>fetch/spi.go\<close>, field for field, keys
    as 64-bit words.
  \<^item> \<open>Ring\<close>, \<open>Heap\<close>, \<open>Wheel\<close>: \<^verbatim>\<open>frontier/ring.go\<close>, \<^verbatim>\<open>shard.go\<close>, \<^verbatim>\<open>heap.go\<close>, \<^verbatim>\<open>wheel.go\<close>.
  \<^item> \<open>Arena\<close>, \<open>Dict\<close>: the three copies of the string arena (\<^verbatim>\<open>frontier/arena.go\<close>, \<^verbatim>\<open>format/blob.go\<close>,
    \<^verbatim>\<open>store/arena.go\<close>), the URL split, the dictionary and robots blobs of \<^verbatim>\<open>format/dict.go\<close>.
  \<^item> \<open>Politeness\<close>: \<^verbatim>\<open>politeness/\<close> and the duration helpers of \<^verbatim>\<open>frontier/m3.go\<close>.
  \<^item> \<open>BloomFilter\<close>, \<open>Drum\<close>, \<open>SeenSet\<close>, \<open>Ribbon\<close>: \<^verbatim>\<open>dedup/filter.go\<close>, \<^verbatim>\<open>serialize.go\<close>, \<^verbatim>\<open>drum.go\<close>, \<^verbatim>\<open>seenset.go\<close>,
    \<^verbatim>\<open>ribbon.go\<close>.
  \<^item> \<open>Content\<close>, \<open>Trap\<close>: \<^verbatim>\<open>dedup/content.go\<close>, \<^verbatim>\<open>neardup.go\<close>, \<^verbatim>\<open>trap.go\<close>.
  \<^item> \<open>Robots\<close>: \<^verbatim>\<open>robots/robots.go\<close>.
  \<^item> \<open>FrontierState\<close>, \<open>Frontier\<close>: \<^verbatim>\<open>frontier/frontier.go\<close>, \<^verbatim>\<open>m3.go\<close>, \<^verbatim>\<open>m4.go\<close>, \<^verbatim>\<open>m5.go\<close>, \<^verbatim>\<open>state.go\<close>: one record for
    the scheduler, one definition per method.
  \<^item> \<open>FrontierBase\<close>, \<open>FrontierIntake\<close>, \<open>FrontierPool\<close>, \<open>FrontierRun\<close>, \<open>FrontierTrace\<close>: the invariant
    \<open>inv\<close> and that every operation keeps it; the step relation \<open>fstep\<close> and its runs \<open>frun\<close>, an arbitrary
    interleaving of intake, dispatches and reports.
  \<^item> \<open>PartitionMap\<close>, \<open>Control\<close>, \<open>Router\<close>: \<^verbatim>\<open>distribute/map.go\<close>, \<^verbatim>\<open>rendezvous.go\<close>, \<^verbatim>\<open>control.go\<close>, \<^verbatim>\<open>failover.go\<close>,
    \<^verbatim>\<open>elasticity.go\<close>, \<^verbatim>\<open>router.go\<close>, \<^verbatim>\<open>transport.go\<close>, \<^verbatim>\<open>signal.go\<close>; \<open>Batch\<close>: the wire form of a batch (\<^verbatim>\<open>batch.go\<close>) and
    the wire transport.
  \<^item> \<open>PartitionOps\<close>, \<open>Checksum\<close>, \<open>Rebalance\<close>, \<open>Replica\<close>: the image operations of \<^verbatim>\<open>format/ops.go\<close> and
    \<^verbatim>\<open>extract.go\<close>, CRC-32C, and \<^verbatim>\<open>distribute/rebalance.go\<close>, \<^verbatim>\<open>handoff.go\<close>, \<^verbatim>\<open>replicate.go\<close>;
    \<open>ReplicaStore\<close>: the tail a store ships and the replica against the recovery of that store.
  \<^item> \<open>StoreCodec\<close>, \<open>StoreLog\<close>, \<open>Store\<close>: \<^verbatim>\<open>store/codec.go\<close>, \<^verbatim>\<open>log.go\<close>, \<^verbatim>\<open>superblock.go\<close>, \<^verbatim>\<open>store.go\<close>, over a
    directory of byte lists; \<open>StoreProps\<close>, \<open>StoreRecover\<close>, \<open>StoreCheckpoint\<close>: what the store promises
    across calls, crashes and checkpoints.
  \<^item> \<open>Encoding\<close>, \<open>Column\<close>, \<open>Table\<close>, \<open>Schedule\<close>, \<open>Footer\<close>, \<open>FileFormat\<close>: the partition file, from
    the byte reader and the value encodings (\<^verbatim>\<open>format/buf.go\<close>, \<^verbatim>\<open>encoding.go\<close>) over pages and columns (\<^verbatim>\<open>page.go\<close>,
    \<^verbatim>\<open>column.go\<close>), tables (\<^verbatim>\<open>table.go\<close>), the schedule index (\<^verbatim>\<open>schedule.go\<close>), header and footer (\<^verbatim>\<open>header.go\<close>,
    \<^verbatim>\<open>footer.go\<close>) to \<^verbatim>\<open>Encode\<close> and \<^verbatim>\<open>Decode\<close> (\<^verbatim>\<open>file.go\<close>, \<^verbatim>\<open>seenset.go\<close>, \<^verbatim>\<open>blob.go\<close>); \<open>StoreFile\<close>: the store with
    that file as its snapshot; \<open>Fsst\<close>: the compressor for single strings (\<^verbatim>\<open>format/fsst.go\<close>).
  \<^item> \<open>FrontierProps\<close>, \<open>FrontierRecover\<close>, \<open>FrontierFindings\<close>: the properties of runs, of recovery, and the
    places where the code does not do what its comments say.

  \<^bold>\<open>What the lemmas show.\<close>  The data structures refine abstract ones: the ring a stable priority queue,
  the heap a multiset popped in order, the wheel a set of timed entries of which exactly the due ones
  fire, the seen-set an exact set behind a filter without false negatives (its static ribbon form solves a
  banded system over GF(2), and every key of it is found again in the stored blob), the near-duplicate index
  the set of signatures within distance 3, the robots matcher the wildcard language.  Each such
  contract is a locale (a queue, a set behind a filter, a keyed table) interpreted on the definitions
  of the code.  The frontier theories compose them: consistency of every reachable state,
  termination and absence of panics, politeness between consecutive requests of a host (in the whole
  seconds the code counts), work conservation with robots off, intake that files a URL once, bounded
  retries with the state machine on, and the round trip through a checkpoint.  The store refines two maps
  and an arena under any sequence of calls; for a directory whose log ends with a whole frame, a crash
  loses no acknowledged write under full durability, and a checkpoint reopens with the same answers; the defects found there (a torn tail, an evicted row after a
  checkpoint) are theorems too.  Below it the partition file reads back: each value encoding satisfies one
  law (the locale \<open>value_codec\<close>), each directory entry another (\<open>entry_codec\<close>), pages, columns, tables and
  footer follow, and \<open>Decode\<close> returns what \<open>Encode\<close> wrote, so the checkpoint theorem holds over the bytes of
  the file.  Compaction keeps the live rows and exactly their strings.  For the fleet: a
  resize moves only what must move, a hand-off drops exactly the acknowledged hosts, routed links arrive once and in order, over the wire too, whose transport
  simulates the channel (the locale \<open>simulated_transport\<close>), and a replica without gaps has the tables of the
  primary's recovery at the newest entry it received.

  \<^bold>\<open>Bounds.\<close>  Machine integers are words.  A Go panic and an endless loop are both the result \<open>None\<close>
  of a \<open>partial_function\<close>, so a theorem that an operation returns \<open>Some\<close> says that it ends without a
  panic; no fuel is used.  The theorems about runs assume a creation hour below \<open>2^32 - 1024\<close> (the wheel
  cursor must not wrap; the hours are counted from 1970) and, where strings are read back, that the
  string arena is below the 64-bit address space (\<open>small\<close>).  Times of a run are arbitrary 32-bit
  seconds.

  \<^bold>\<open>Parameters.\<close>  xxHash64, zstd, the Unicode case table, the decimal scanner and the natural logarithm
  are functions the definitions take.  The record \<open>hooks\<close> carries the components the frontier calls
  through an interface or that are not modelled yet: the DNS cache, the prioritizer, the rescheduler,
  the trap pattern detector, the canonicalizer and the link router.  The theorems hold for all of them.

  The file encoder and decoder are parameters of the store theories and of the hand-off; \<open>StoreFile\<close> puts the
  modelled ones in their place, where the limits are a file below \<open>2^32\<close> bytes and tables below \<open>2^32\<close> rows, the
  32-bit counts of the page header.  The transport of the hand-off and the unstable sorts of the standard library are parameters constrained by what they
  document.

  \<^bold>\<open>Not modelled.\<close>  The partial file reader, the manifest and the inspection report of
  \<^verbatim>\<open>format/\<close>, failing system calls of the store, the DNS client, the sitemap reader, the engine
  loop, the command line and the benchmark programs: input and output, goroutines and network code around
  the core, or planned components.
\<close>

end
